(* ===== verification/Prelude.thy ===== *)
theory Prelude
  imports Main "HOL-Library.Word" "HOL-Library.Char_ord" "HOL-Library.List_Lexorder"
    "HOL-Library.AList"
begin

text \<open>
  Shared vocabulary of the development.
  A Go \<open>byte\<close> is a HOL \<open>char\<close> (eight bits) and a Go \<open>string\<close> or \<open>[]byte\<close> is a list of
  them, so string literals can be written as they are in the source. Strings are compared
  bytewise, which is the order of \<open>List_Lexorder\<close> over \<open>Char_ord\<close>.
  This theory holds the fixed-width little- and big-endian encodings of
  \<open>encoding/binary\<close>, the two's complement reading of a Go \<open>int64\<close> result, the binary search
  of \<open>sort.Search\<close>, slice helpers, the association lists that stand for Go maps, and the
  collections of lemmas the component theories share.
\<close>

type_synonym bytes = "char list"

named_theorems model_defs \<open>definitions of the model that component proofs unfold\<close>
named_theorems size_arith \<open>numeric constants of the source\<close>

subsection \<open>Bytes and fixed-width integers\<close>

definition byte_of :: "nat \<Rightarrow> char" where
  "byte_of n = char_of (n mod 256)"

definition nat_of_byte :: "char \<Rightarrow> nat" where
  "nat_of_byte c = of_char c"

lemma nat_of_byte_lt [simp]: "nat_of_byte c < 256"
  by (simp add: nat_of_byte_def)

lemma nat_of_byte_of [simp]: "nat_of_byte (byte_of n) = n mod 256"
  by (simp add: nat_of_byte_def byte_of_def)

lemma byte_of_nat_of_byte [simp]: "byte_of (nat_of_byte c) = c"
  by (simp add: nat_of_byte_def byte_of_def)

lemma byte_of_eq_iff: "byte_of m = byte_of n \<longleftrightarrow> m mod 256 = n mod 256"
  by (metis byte_of_def nat_of_byte_of)

text \<open>\<open>binary.LittleEndian.PutUint\<close> on a value kept as a number; the value is truncated to the
  width, as the conversion \<open>uint32(len)\<close> of the source does.\<close>

fun le_enc :: "nat \<Rightarrow> nat \<Rightarrow> bytes" where
  "le_enc 0 n = []"
| "le_enc (Suc w) n = byte_of n # le_enc w (n div 256)"

fun le_dec :: "bytes \<Rightarrow> nat" where
  "le_dec [] = 0"
| "le_dec (c # cs) = nat_of_byte c + 256 * le_dec cs"

lemma length_le_enc [simp]: "length (le_enc w n) = w"
  by (induction w arbitrary: n) auto

lemma le_dec_enc_mod: "le_dec (le_enc w n) = n mod 256 ^ w"
proof (induction w arbitrary: n)
  case 0
  then show ?case by simp
next
  case (Suc w)
  have "n mod (256 * 256 ^ w) = n mod 256 + 256 * (n div 256 mod 256 ^ w)"
    by (simp add: mod_mult2_eq)
  with Suc show ?case by simp
qed

lemma le_dec_enc [simp]: "n < 256 ^ w \<Longrightarrow> le_dec (le_enc w n) = n"
  by (simp add: le_dec_enc_mod)

lemma le_dec_bound: "le_dec cs < 256 ^ length cs"
proof (induction cs)
  case Nil
  then show ?case by simp
next
  case (Cons c cs)
  have "nat_of_byte c + 256 * le_dec cs < 256 * Suc (le_dec cs)"
    using nat_of_byte_lt[of c] by simp
  also have "\<dots> \<le> 256 * 256 ^ length cs"
    using Cons by (intro mult_le_mono2) simp
  finally show ?case by simp
qed

lemma le_enc_dec: "le_enc (length cs) (le_dec cs) = cs"
proof (induction cs)
  case Nil
  then show ?case by simp
next
  case (Cons c cs)
  have "byte_of (nat_of_byte c + 256 * le_dec cs) = byte_of (nat_of_byte c)"
    by (simp only: byte_of_eq_iff) simp
  moreover have "(nat_of_byte c + 256 * le_dec cs) div 256 = le_dec cs"
    using nat_of_byte_lt[of c] by simp
  ultimately show ?case using Cons by simp
qed

text \<open>\<open>binary.BigEndian\<close> is the same digits, most significant first.\<close>

definition be_enc :: "nat \<Rightarrow> nat \<Rightarrow> bytes" where
  "be_enc w n = rev (le_enc w n)"

definition be_dec :: "bytes \<Rightarrow> nat" where
  "be_dec cs = le_dec (rev cs)"

lemma length_be_enc [simp]: "length (be_enc w n) = w"
  by (simp add: be_enc_def)

lemma be_dec_enc [simp]: "n < 256 ^ w \<Longrightarrow> be_dec (be_enc w n) = n"
  by (simp add: be_enc_def be_dec_def)

text \<open>The value a Go \<open>int64\<close> holds when the exact result of an operation is \<open>x\<close>.\<close>

definition i64 :: "int \<Rightarrow> int" where
  "i64 x = (x + 2 ^ 63) mod 2 ^ 64 - 2 ^ 63"

lemma i64_id [simp]: "- (2 ^ 63) \<le> x \<Longrightarrow> x < 2 ^ 63 \<Longrightarrow> i64 x = x"
  by (simp add: i64_def)

lemma i64_range: "- (2 ^ 63) \<le> i64 x \<and> i64 x < 2 ^ 63"
proof -
  define y where "y = (x + 2 ^ 63) mod (2 ^ 64 :: int)"
  have "0 \<le> y" and "y < 2 ^ 64" unfolding y_def by simp_all
  then have "- (2 ^ 63) \<le> y - 2 ^ 63 \<and> y - 2 ^ 63 < 2 ^ 63" by simp
  then show ?thesis by (simp add: i64_def y_def)
qed

lemma i64_wrap:
  assumes "2 ^ 63 \<le> x" "x < 2 ^ 63 + 2 ^ 64"
  shows "i64 x = x - 2 ^ 64"
proof -
  have "(x + 2 ^ 63) mod 2 ^ 64 = (x + 2 ^ 63 - 2 ^ 64) mod (2 ^ 64 :: int)"
    by (rule minus_mod_self2[symmetric])
  also have "\<dots> = x + 2 ^ 63 - 2 ^ 64"
    using assms by (intro mod_pos_pos_trivial) simp_all
  finally show ?thesis by (simp add: i64_def)
qed

subsection \<open>Slices\<close>

text \<open>Insertion and removal by index, as the helpers of the source do with \<open>append\<close> and
  \<open>copy\<close>.\<close>

definition ins_at :: "nat \<Rightarrow> 'a \<Rightarrow> 'a list \<Rightarrow> 'a list" where
  "ins_at i x xs = take i xs @ x # drop i xs"

definition del_at :: "nat \<Rightarrow> 'a list \<Rightarrow> 'a list" where
  "del_at i xs = take i xs @ drop (Suc i) xs"

lemma length_ins_at [simp]: "length (ins_at i x xs) = Suc (length xs)"
  by (simp add: ins_at_def min_def)

lemma length_del_at [simp]:
  "length (del_at i xs) = (if i < length xs then length xs - 1 else length xs)"
  by (auto simp: del_at_def)

lemma set_ins_at [simp]: "set (ins_at i x xs) = insert x (set xs)"
  unfolding ins_at_def by (metis Un_insert_right append_take_drop_id list.simps(15) set_append)

lemma map_ins_at: "map f (ins_at i x xs) = ins_at i (f x) (map f xs)"
  by (simp add: ins_at_def take_map drop_map)

lemma map_del_at: "map f (del_at i xs) = del_at i (map f xs)"
  by (simp add: del_at_def take_map drop_map)

lemma take_nth_drop: "i < length xs \<Longrightarrow> xs = take i xs @ xs ! i # drop (Suc i) xs"
  by (rule id_take_nth_drop)

lemma append_split_nth:
  assumes "i < length xs"
  obtains as bs where "xs = as @ xs ! i # bs" "length as = i" "as = take i xs" "bs = drop (Suc i) xs"
  using assms id_take_nth_drop[OF assms] by (metis length_take min.absorb2 less_imp_le)

subsection \<open>The binary search of \<open>sort.Search\<close>\<close>

function search_loop :: "(nat \<Rightarrow> bool) \<Rightarrow> nat \<Rightarrow> nat \<Rightarrow> nat" where
  "search_loop f i j =
     (if i < j then
        let h = (i + j) div 2 in
        if \<not> f h then search_loop f (Suc h) j else search_loop f i h
      else i)"
  by pat_completeness auto
termination
  by (relation "measure (\<lambda>(f, i, j). j - i)") auto

definition sort_search :: "nat \<Rightarrow> (nat \<Rightarrow> bool) \<Rightarrow> nat" where
  "sort_search n f = search_loop f 0 n"

declare search_loop.simps [simp del]

lemma search_loop_correct:
  assumes mono: "\<And>a b. a \<le> b \<Longrightarrow> b < n \<Longrightarrow> f a \<Longrightarrow> f b"
  shows "i \<le> j \<Longrightarrow> j \<le> n \<Longrightarrow> \<forall>a < i. \<not> f a \<Longrightarrow> \<forall>b. j \<le> b \<longrightarrow> b < n \<longrightarrow> f b \<Longrightarrow>
    search_loop f i j \<le> n \<and> (\<forall>a < search_loop f i j. \<not> f a) \<and>
    (\<forall>b. search_loop f i j \<le> b \<longrightarrow> b < n \<longrightarrow> f b)"
proof (induction "j - i" arbitrary: i j rule: less_induct)
  case less
  show ?case
  proof (cases "i < j")
    case False
    then have "search_loop f i j = i" by (simp add: search_loop.simps[of f i j])
    with False less.prems show ?thesis by auto
  next
    case True
    define h where "h = (i + j) div 2"
    have h: "i \<le> h" "h < j" "h < n" using True less.prems(2) by (auto simp: h_def)
    show ?thesis
    proof (cases "f h")
      case hit: True
      have "search_loop f i j = search_loop f i h"
        using True hit unfolding h_def by (subst search_loop.simps) (simp add: Let_def)
      moreover have up: "\<forall>b. h \<le> b \<longrightarrow> b < n \<longrightarrow> f b" using mono hit by blast
      have "h - i < j - i" "h \<le> n" using h by auto
      note less.hyps[OF this(1) h(1) this(2) less.prems(3) up]
      ultimately show ?thesis by metis
    next
      case miss: False
      have "search_loop f i j = search_loop f (Suc h) j"
        using True miss unfolding h_def by (subst search_loop.simps) (simp add: Let_def)
      moreover have low: "\<forall>a < Suc h. \<not> f a" using mono miss h(3) less_Suc_eq_le by blast
      have "j - Suc h < j - i" "Suc h \<le> j" using h by auto
      note less.hyps[OF this(1) this(2) less.prems(2) low less.prems(4)]
      ultimately show ?thesis by metis
    qed
  qed
qed

lemma search_loop_le: "i \<le> j \<Longrightarrow> search_loop f i j \<le> j"
proof (induction "j - i" arbitrary: i j rule: less_induct)
  case less
  show ?case
  proof (cases "i < j")
    case True
    define h where "h = (i + j) div 2"
    have h: "i \<le> h" "h < j" using True by (auto simp: h_def)
    have "search_loop f (Suc h) j \<le> j" "search_loop f i h \<le> h"
      using less.hyps h by auto
    moreover have "search_loop f i j = (if \<not> f h then search_loop f (Suc h) j else search_loop f i h)"
      using True unfolding h_def by (subst search_loop.simps) (simp add: Let_def)
    ultimately show ?thesis using h by (auto split: if_splits)
  next
    case False
    then have "search_loop f i j = i" by (simp add: search_loop.simps[of f i j])
    with less.prems show ?thesis by simp
  qed
qed

lemma sort_search_le: "sort_search n f \<le> n"
  by (simp add: sort_search_def search_loop_le)

lemma sort_search_correct:
  assumes "\<And>a b. a \<le> b \<Longrightarrow> b < n \<Longrightarrow> f a \<Longrightarrow> f b"
  shows "sort_search n f \<le> n" "a < sort_search n f \<Longrightarrow> \<not> f a"
    "sort_search n f \<le> b \<Longrightarrow> b < n \<Longrightarrow> f b"
  using search_loop_correct[of n f 0 n, OF assms] unfolding sort_search_def by auto

text \<open>On a list along which the predicate is monotone, the search finds the length of the longest
  prefix that fails it.\<close>

lemma sort_search_takeWhile:
  assumes "\<And>a b. a \<le> b \<Longrightarrow> b < length xs \<Longrightarrow> P (xs ! a) \<Longrightarrow> P (xs ! b)"
  shows "sort_search (length xs) (\<lambda>i. P (xs ! i)) = length (takeWhile (\<lambda>x. \<not> P x) xs)"
proof -
  let ?r = "sort_search (length xs) (\<lambda>i. P (xs ! i))"
  have r: "?r \<le> length xs" using assms by (rule sort_search_correct(1))
  have "\<And>i. i < ?r \<Longrightarrow> \<not> P (xs ! i)"
    using sort_search_correct(2)[of "length xs" "\<lambda>i. P (xs ! i)"] assms by blast
  moreover have "?r < length xs \<Longrightarrow> P (xs ! ?r)"
    using sort_search_correct(3)[of "length xs" "\<lambda>i. P (xs ! i)"] assms by blast
  ultimately have "takeWhile (\<lambda>x. \<not> P x) xs = take ?r xs"
    using r by (intro takeWhile_eq_take_P_nth) auto
  with r show ?thesis by simp
qed

subsection \<open>Go maps as association lists\<close>

text \<open>A Go map with its iteration order made explicit: an association list with distinct keys.
  \<open>AList.update\<close> and \<open>AList.delete\<close> are the assignments and \<open>delete\<close> of the source, \<open>map_of\<close> is
  the lookup. Every lemma below is stated through \<open>map_of\<close>, so nothing depends on the order.\<close>

type_synonym ('k, 'v) gomap = "('k \<times> 'v) list"

definition keys_distinct :: "('k, 'v) gomap \<Rightarrow> bool" where
  "keys_distinct m \<longleftrightarrow> distinct (map fst m)"

lemma keys_distinct_Nil [simp]: "keys_distinct []"
  by (simp add: keys_distinct_def)

lemma keys_distinct_update [simp]: "keys_distinct m \<Longrightarrow> keys_distinct (AList.update k v m)"
  by (simp add: keys_distinct_def distinct_update)

lemma keys_distinct_delete [simp]: "keys_distinct m \<Longrightarrow> keys_distinct (AList.delete k m)"
  by (simp add: keys_distinct_def distinct_delete)

lemma map_of_update [simp]: "map_of (AList.update k v m) = (map_of m)(k \<mapsto> v)"
  by (rule update_conv')

lemma map_of_delete [simp]: "map_of (AList.delete k m) = (map_of m)(k := None)"
  by (rule delete_conv')

lemma keys_distinct_map_of: "keys_distinct m \<Longrightarrow> map_of m k = Some v \<longleftrightarrow> (k, v) \<in> set m"
  unfolding keys_distinct_def by (rule map_of_eq_Some_iff)

text \<open>Sums over the entries of a map, the shape of the memory accounting of the stores.\<close>

definition entry_sum :: "('k \<Rightarrow> 'v \<Rightarrow> int) \<Rightarrow> ('k, 'v) gomap \<Rightarrow> int" where
  "entry_sum w m = sum_list (map (\<lambda>(k, v). w k v) m)"

lemma entry_sum_Nil [simp]: "entry_sum w [] = 0"
  by (simp add: entry_sum_def)

lemma entry_sum_Cons [simp]: "entry_sum w ((k, v) # m) = w k v + entry_sum w m"
  by (simp add: entry_sum_def)

lemma delete_absent: "map_of m k = None \<Longrightarrow> AList.delete k m = m"
  by (auto simp: delete_id map_of_eq_None_iff)

lemma entry_sum_delete:
  "keys_distinct m \<Longrightarrow> entry_sum w (AList.delete k m) =
    entry_sum w m - (case map_of m k of None \<Rightarrow> 0 | Some v \<Rightarrow> w k v)"
proof (induction m)
  case Nil
  then show ?case by simp
next
  case (Cons p m)
  obtain k' v' where p: "p = (k', v')" by (cases p)
  show ?case
  proof (cases "k' = k")
    case True
    with Cons.prems p have "map_of m k = None"
      by (auto simp: keys_distinct_def map_of_eq_None_iff)
    with True p show ?thesis by (simp add: delete_absent)
  next
    case False
    with Cons p show ?thesis by (simp add: keys_distinct_def)
  qed
qed

lemma entry_sum_update:
  "keys_distinct m \<Longrightarrow> entry_sum w (AList.update k v m) =
    entry_sum w m + w k v - (case map_of m k of None \<Rightarrow> 0 | Some v' \<Rightarrow> w k v')"
proof (induction m)
  case Nil
  then show ?case by simp
next
  case (Cons p m)
  obtain k' v' where p: "p = (k', v')" by (cases p)
  with Cons show ?case by (auto simp: keys_distinct_def)
qed

lemma entry_sum_change:
  assumes "keys_distinct m" "map_of m k = Some v"
    and "\<And>k' v'. map_of m k' = Some v' \<Longrightarrow> k' \<noteq> k \<Longrightarrow> w' k' v' = w k' v'"
  shows "entry_sum w' m = entry_sum w m - w k v + w' k v"
proof -
  have "entry_sum w' (AList.delete k m) = entry_sum w (AList.delete k m)"
  proof -
    have "w' k' v' = w k' v'" if "(k', v') \<in> set (AList.delete k m)" for k' v'
    proof -
      have "map_of (AList.delete k m) k' = Some v'"
        using that assms(1) by (metis keys_distinct_map_of keys_distinct_delete)
      then show ?thesis using assms(3) by (auto split: if_splits)
    qed
    then show ?thesis unfolding entry_sum_def
      by (intro arg_cong[of _ _ sum_list] map_cong) auto
  qed
  then show ?thesis using entry_sum_delete[OF assms(1), of _ k] assms(2) by simp
qed

lemma length_delete_alist:
  "keys_distinct m \<Longrightarrow> length (AList.delete k m) = length m - (if map_of m k = None then 0 else 1)"
proof (induction m)
  case Nil
  then show ?case by simp
next
  case (Cons p m)
  obtain k' v' where p: "p = (k', v')" by (cases p)
  show ?case
  proof (cases "k' = k")
    case True
    with Cons.prems p have "map_of m k = None"
      by (auto simp: keys_distinct_def map_of_eq_None_iff)
    with True p show ?thesis by (simp add: delete_absent)
  next
    case False
    moreover have "map_of m k \<noteq> None \<Longrightarrow> m \<noteq> []" by auto
    ultimately show ?thesis using Cons p by (cases m) (auto simp: keys_distinct_def)
  qed
qed

lemma length_update_alist:
  "length (AList.update k v m) = length m + (if map_of m k = None then 1 else 0)"
  by (induction m) auto

lemma length_eq_card_dom: "keys_distinct m \<Longrightarrow> length m = card (dom (map_of m))"
  by (metis distinct_card dom_map_of_conv_image_fst keys_distinct_def length_map list.set_map)

end
