(* ===== verification/Sharded.thy ===== *)
theory Sharded
  imports Prelude
begin

text \<open>
  A table split over 256 Go maps by a hash of the key, the layout that \<open>kv.Store\<close> and
  \<open>TTLManager\<close> share. The hash is \<open>maphash.String\<close> under a random seed, a parameter of the model;
  nothing below depends on which function it is, only on the reduction to a shard number.
\<close>

definition numShards :: nat where "numShards = 256"

text \<open>\<open>maphash.String(seed, key) % numShards\<close>; the TTL table masks the low bits of the same hash,
  which is the same number.\<close>

definition shard_of :: "(string \<Rightarrow> 64 word) \<Rightarrow> string \<Rightarrow> nat" where
  "shard_of h key = unat (h key) mod numShards"

lemma shard_of_lt [simp]: "shard_of h key < numShards"
  by (simp add: shard_of_def numShards_def)

definition shards_ok :: "(string \<Rightarrow> 64 word) \<Rightarrow> (string, 'v) gomap list \<Rightarrow> bool" where
  "shards_ok h ms \<longleftrightarrow> length ms = numShards \<and>
     (\<forall>i < numShards. keys_distinct (ms ! i) \<and> (\<forall>k v. map_of (ms ! i) k = Some v \<longrightarrow> shard_of h k = i))"

definition lookup :: "(string \<Rightarrow> 64 word) \<Rightarrow> (string, 'v) gomap list \<Rightarrow> string \<Rightarrow> 'v option" where
  "lookup h ms k = map_of (ms ! shard_of h k) k"

lemma shards_ok_replicate [simp]: "shards_ok h (replicate numShards [])"
  by (simp add: shards_ok_def)

lemma lookup_replicate [simp]: "lookup h (replicate numShards []) = Map.empty"
  by (simp add: lookup_def fun_eq_iff)

lemma shards_ok_nth: "shards_ok h ms \<Longrightarrow> keys_distinct (ms ! shard_of h k)"
  by (simp add: shards_ok_def)

lemma shards_length: "shards_ok h ms \<Longrightarrow> length ms = numShards"
  by (simp add: shards_ok_def)

lemma shards_ok_update:
  "shards_ok h ms \<Longrightarrow> shards_ok h (ms[shard_of h k := AList.update k v (ms ! shard_of h k)])"
  by (auto simp: shards_ok_def nth_list_update split: if_splits)

lemma lookup_update:
  "shards_ok h ms \<Longrightarrow>
   lookup h (ms[shard_of h k := AList.update k v (ms ! shard_of h k)]) = (lookup h ms)(k \<mapsto> v)"
  by (auto simp: lookup_def fun_eq_iff nth_list_update shards_length)

lemma shards_ok_delete:
  "shards_ok h ms \<Longrightarrow> shards_ok h (ms[shard_of h k := AList.delete k (ms ! shard_of h k)])"
  by (auto simp: shards_ok_def nth_list_update split: if_splits)

lemma lookup_delete:
  "shards_ok h ms \<Longrightarrow>
   lookup h (ms[shard_of h k := AList.delete k (ms ! shard_of h k)]) = (lookup h ms)(k := None)"
  by (auto simp: lookup_def fun_eq_iff nth_list_update shards_length)

text \<open>All shards one after the other: what a walk over the table sees.\<close>

lemma shards_concat:
  assumes ok: "shards_ok h ms"
  shows "keys_distinct (concat ms)" "map_of (concat ms) k = lookup h ms k"
proof -
  have dist: "distinct (map fst (concat ms))"
  proof -
    have inj: "i = j" if "i < numShards" "j < numShards" "k \<in> fst ` set (ms ! i)" "k \<in> fst ` set (ms ! j)" for i j k
    proof -
      have "shard_of h k = i'" if lt: "i' < numShards" and mem: "k \<in> fst ` set (ms ! i')" for i'
      proof -
        obtain v where "(k, v) \<in> set (ms ! i')" using mem by auto
        moreover have "keys_distinct (ms ! i')" using ok lt by (simp add: shards_ok_def)
        ultimately have "map_of (ms ! i') k = Some v" by (simp add: keys_distinct_map_of)
        then show ?thesis using ok lt by (auto simp: shards_ok_def)
      qed
      from this[OF that(1,3)] this[OF that(2,4)] show ?thesis by simp
    qed
    have "distinct (map fst (concat ns))"
      if "\<forall>i < length ns. distinct (map fst (ns ! i))"
        "\<forall>i j. i < length ns \<longrightarrow> j < length ns \<longrightarrow> i \<noteq> j \<longrightarrow> fst ` set (ns ! i) \<inter> fst ` set (ns ! j) = {}"
      for ns :: "(string, 'a) gomap list"
      using that
    proof (induction ns)
      case (Cons n ns)
      have "fst ` set n \<inter> fst ` set (concat ns) = {}"
      proof -
        have "fst ` set n \<inter> fst ` set (ns ! j) = {}" if "j < length ns" for j
          using Cons.prems(2)[rule_format, of 0 "Suc j"] that by simp
        then have "fst ` set n \<inter> fst ` set m = {}" if "m \<in> set ns" for m
          using that by (metis in_set_conv_nth)
        then show ?thesis by (auto simp: disjoint_iff)
      qed
      moreover have "distinct (map fst (concat ns))"
      proof (rule Cons.IH)
        show "\<forall>i < length ns. distinct (map fst (ns ! i))" using Cons.prems(1) by fastforce
        show "\<forall>i j. i < length ns \<longrightarrow> j < length ns \<longrightarrow> i \<noteq> j \<longrightarrow> fst ` set (ns ! i) \<inter> fst ` set (ns ! j) = {}"
        proof (intro allI impI)
          fix i j assume "i < length ns" "j < length ns" "i \<noteq> j"
          then show "fst ` set (ns ! i) \<inter> fst ` set (ns ! j) = {}"
            using Cons.prems(2)[rule_format, of "Suc i" "Suc j"] by simp
        qed
      qed
      moreover have "distinct (map fst n)" using Cons.prems(1) by fastforce
      ultimately show ?case by auto
    qed simp
    moreover have "\<forall>i < length ms. distinct (map fst (ms ! i))"
      using ok by (simp add: shards_ok_def keys_distinct_def)
    moreover have "\<forall>i j. i < length ms \<longrightarrow> j < length ms \<longrightarrow> i \<noteq> j \<longrightarrow> fst ` set (ms ! i) \<inter> fst ` set (ms ! j) = {}"
    proof (intro allI impI equals0I)
      fix i j x assume "i < length ms" "j < length ms" "i \<noteq> j"
        "x \<in> fst ` set (ms ! i) \<inter> fst ` set (ms ! j)"
      then show False using inj[of i j x] shards_length[OF ok] by simp
    qed
    ultimately show ?thesis by blast
  qed
  then show kd: "keys_distinct (concat ms)" by (simp add: keys_distinct_def)
  have "map_of (concat ms) k = Some v \<longleftrightarrow> lookup h ms k = Some v" for v
  proof -
    have "map_of (concat ms) k = Some v \<longleftrightarrow> (\<exists>i < numShards. (k, v) \<in> set (ms ! i))"
      using keys_distinct_map_of[OF kd] shards_length[OF ok] by (fastforce simp: in_set_conv_nth)
    also have "\<dots> \<longleftrightarrow> (\<exists>i < numShards. map_of (ms ! i) k = Some v)"
      using ok keys_distinct_map_of by (metis shards_ok_def)
    also have "\<dots> \<longleftrightarrow> lookup h ms k = Some v"
      using ok shard_of_lt[of h k] unfolding shards_ok_def lookup_def by metis
    finally show ?thesis .
  qed
  then show "map_of (concat ms) k = lookup h ms k" by (metis option.exhaust)
qed

lemma sum_list_update_int:
  "i < length xs \<Longrightarrow> sum_list (xs[i := y]) = sum_list xs - xs ! i + (y :: int)"
  by (induction xs arbitrary: i) (auto split: nat.split)

lemma sum_list_map_update:
  "i < length xs \<Longrightarrow> sum_list (map f (xs[i := y])) = sum_list (map f xs) - f (xs ! i) + (f y :: int)"
  using sum_list_update_int[of i "map f xs" "f y"] by (simp add: map_update)

end
