(* ===== verification/KvStore.thy ===== *)
theory KvStore
  imports Sharded
begin

text \<open>
  The string store of \<open>internal/store/kv/store.go\<close>: 256 shards, each a map with the number of bytes
  it accounts for, and a counter of used memory shared with the sorted sets. Values are immutable
  slices (the package's contract), so a value is its content. Each method touches one shard under
  its lock and is one atomic step here; the walks take the shards one after the other.
\<close>

section \<open>Model\<close>

definition entryOverhead :: int where "entryOverhead = 64"

record shard =
  sm :: "(string, bytes) gomap"
  sbytes :: int

record kvstore =
  seed :: "string \<Rightarrow> 64 word"
  shards :: "shard list"
  used :: int
  maxMemory :: int

definition kv_new :: "(string \<Rightarrow> 64 word) \<Rightarrow> kvstore" where
  "kv_new h = \<lparr>seed = h, shards = replicate numShards \<lparr>sm = [], sbytes = 0\<rparr>, used = 0, maxMemory = 0\<rparr>"

definition shardFor :: "kvstore \<Rightarrow> string \<Rightarrow> nat" where
  "shardFor s key = shard_of (seed s) key"

definition entrySize :: "string \<Rightarrow> bytes \<Rightarrow> int" where
  "entrySize key value = int (length key + length value) + entryOverhead"

definition kv_set :: "kvstore \<Rightarrow> string \<Rightarrow> bytes \<Rightarrow> kvstore" where
  "kv_set s key value =
     (let i = shardFor s key; sh = shards s ! i;
          delta = entrySize key value -
            (case map_of (sm sh) key of None \<Rightarrow> 0 | Some old \<Rightarrow> entrySize key old) in
      s\<lparr>shards := (shards s)[i := \<lparr>sm = AList.update key value (sm sh), sbytes = sbytes sh + delta\<rparr>],
        used := used s + delta\<rparr>)"

definition kv_get :: "kvstore \<Rightarrow> string \<Rightarrow> bytes option" where
  "kv_get s key = map_of (sm (shards s ! shardFor s key)) key"

definition kv_del :: "kvstore \<Rightarrow> string \<Rightarrow> bool \<times> kvstore" where
  "kv_del s key =
     (let i = shardFor s key; sh = shards s ! i in
      case map_of (sm sh) key of
        None \<Rightarrow> (False, s)
      | Some old \<Rightarrow>
          let delta = - entrySize key old in
          (True, s\<lparr>shards := (shards s)[i := \<lparr>sm = AList.delete key (sm sh), sbytes = sbytes sh + delta\<rparr>],
                   used := used s + delta\<rparr>))"

definition kv_len :: "kvstore \<Rightarrow> nat" where
  "kv_len s = fold (\<lambda>sh n. n + length (sm sh)) (shards s) 0"

text \<open>The callback threads a state, as the closures of the callers do by mutation.\<close>

definition kv_forEach :: "kvstore \<Rightarrow> ('s \<Rightarrow> string \<Rightarrow> bytes \<Rightarrow> 's) \<Rightarrow> 's \<Rightarrow> 's" where
  "kv_forEach s fn acc = fold (\<lambda>sh acc. fold (\<lambda>(k, v) acc. fn acc k v) (sm sh) acc) (shards s) acc"

definition kv_clear :: "kvstore \<Rightarrow> kvstore" where
  "kv_clear s = s\<lparr>shards := map (\<lambda>sh. \<lparr>sm = [], sbytes = 0\<rparr>) (shards s),
     used := fold (\<lambda>sh u. u - sbytes sh) (shards s) (used s)\<rparr>"

definition setMaxMemory :: "kvstore \<Rightarrow> int \<Rightarrow> kvstore" where
  "setMaxMemory s bytes = s\<lparr>maxMemory := bytes\<rparr>"

definition isOOM :: "kvstore \<Rightarrow> bool" where
  "isOOM s \<longleftrightarrow> 0 < maxMemory s \<and> maxMemory s \<le> used s"

section \<open>Invariant and view\<close>

definition kv_inv :: "kvstore \<Rightarrow> bool" where
  "kv_inv s \<longleftrightarrow> shards_ok (seed s) (map sm (shards s)) \<and>
     (\<forall>sh \<in> set (shards s). sbytes sh = entry_sum entrySize (sm sh))"

definition kview :: "kvstore \<Rightarrow> string \<Rightarrow> bytes option" where
  "kview s = lookup (seed s) (map sm (shards s))"

text \<open>The bytes the store's own entries account for; \<open>used\<close> holds them plus what the sorted sets
  add through \<open>MemoryCounter\<close>.\<close>

definition kv_bytes :: "kvstore \<Rightarrow> int" where
  "kv_bytes s = sum_list (map (\<lambda>sh. entry_sum entrySize (sm sh)) (shards s))"

lemma kv_len_shards: "kv_inv s \<Longrightarrow> length (shards s) = numShards"
  using shards_length by (fastforce simp: kv_inv_def)

lemma shardFor_lt: "kv_inv s \<Longrightarrow> shardFor s key < length (shards s)"
  by (simp add: kv_len_shards shardFor_def)

lemma kv_shard: "kv_inv s \<Longrightarrow> map sm (shards s) ! shardFor s key = sm (shards s ! shardFor s key)"
  by (simp add: shardFor_lt)

lemma kv_get_view: "kv_inv s \<Longrightarrow> kv_get s key = kview s key"
  by (simp add: kv_get_def kview_def lookup_def kv_shard[unfolded shardFor_def] shardFor_def
      kv_len_shards)

lemma kv_shard_distinct: "kv_inv s \<Longrightarrow> keys_distinct (sm (shards s ! shardFor s key))"
  using kv_shard[of s key] shards_ok_nth[of "seed s" "map sm (shards s)" key]
  by (simp add: kv_inv_def shardFor_def)

lemma kv_new_inv [simp]: "kv_inv (kv_new h)" and kview_new [simp]: "kview (kv_new h) = Map.empty"
  and kv_bytes_new [simp]: "kv_bytes (kv_new h) = 0" and kv_used_new [simp]: "used (kv_new h) = 0"
  by (auto simp: kv_inv_def kv_new_def kview_def kv_bytes_def sum_list_replicate)

text \<open>Replacing one shard.\<close>

lemma kv_put_shard:
  assumes inv: "kv_inv s" and i: "i = shardFor s key"
    and m': "m' = AList.update key v (sm (shards s ! i)) \<or> m' = AList.delete key (sm (shards s ! i))"
    and s': "s' = s\<lparr>shards := (shards s)[i := \<lparr>sm = m', sbytes = entry_sum entrySize m'\<rparr>], used := u\<rparr>"
  shows "kv_inv s'"
    "kview s' = (if m' = AList.update key v (sm (shards s ! i)) then (kview s)(key \<mapsto> v) else (kview s)(key := None))"
    "kv_bytes s' = kv_bytes s - entry_sum entrySize (sm (shards s ! i)) + entry_sum entrySize m'"
proof -
  have lt: "i < length (shards s)" using inv i shardFor_lt by simp
  have ok: "shards_ok (seed s) (map sm (shards s))" using inv by (simp add: kv_inv_def)
  have ms: "map sm (shards s') = (map sm (shards s))[i := m']" using s' by (simp add: map_update)
  have nth: "map sm (shards s) ! i = sm (shards s ! i)" using lt by simp
  have "shards_ok (seed s) (map sm (shards s'))"
    using m' shards_ok_update[OF ok, of key v] shards_ok_delete[OF ok, of key]
    unfolding ms i shardFor_def[of s key, symmetric] nth[unfolded i] by auto
  moreover have "\<forall>sh \<in> set (shards s'). sbytes sh = entry_sum entrySize (sm sh)"
    using inv s' by (auto simp: kv_inv_def dest!: set_update_subset_insert[THEN subsetD])
  ultimately show "kv_inv s'" using s' by (simp add: kv_inv_def)
  show "kview s' = (if m' = AList.update key v (sm (shards s ! i)) then (kview s)(key \<mapsto> v) else (kview s)(key := None))"
    using m' lookup_update[OF ok, of key v] lookup_delete[OF ok, of key] s'
    unfolding kview_def ms i shardFor_def[of s key, symmetric] nth[unfolded i] by auto
  show "kv_bytes s' = kv_bytes s - entry_sum entrySize (sm (shards s ! i)) + entry_sum entrySize m'"
    using s' sum_list_map_update[OF lt, of "\<lambda>sh. entry_sum entrySize (sm sh)"] by (simp add: kv_bytes_def)
qed

lemma kv_set_spec:
  assumes inv: "kv_inv s"
  shows "kv_inv (kv_set s key v)" "kview (kv_set s key v) = (kview s)(key \<mapsto> v)"
    "used (kv_set s key v) - used s = kv_bytes (kv_set s key v) - kv_bytes s"
    "maxMemory (kv_set s key v) = maxMemory s" "seed (kv_set s key v) = seed s"
proof -
  let ?i = "shardFor s key"
  let ?m = "sm (shards s ! ?i)"
  let ?m' = "AList.update key v ?m"
  let ?d = "entrySize key v - (case map_of ?m key of None \<Rightarrow> 0 | Some old \<Rightarrow> entrySize key old)"
  have sum: "entry_sum entrySize ?m' = entry_sum entrySize ?m + ?d"
    using entry_sum_update[OF kv_shard_distinct[OF inv], of entrySize key v key] by simp
  have "sbytes (shards s ! ?i) = entry_sum entrySize ?m"
    using inv shardFor_lt[OF inv, of key] by (simp add: kv_inv_def)
  then have s': "kv_set s key v = s\<lparr>shards := (shards s)[?i := \<lparr>sm = ?m', sbytes = entry_sum entrySize ?m'\<rparr>],
      used := used s + ?d\<rparr>"
    using sum by (simp add: kv_set_def Let_def)
  note p = kv_put_shard[OF inv refl disjI1[OF refl] s']
  show "kv_inv (kv_set s key v)" "kview (kv_set s key v) = (kview s)(key \<mapsto> v)"
    using p(1,2) by auto
  show "used (kv_set s key v) - used s = kv_bytes (kv_set s key v) - kv_bytes s"
    using p(3) sum s' by simp
  show "maxMemory (kv_set s key v) = maxMemory s" "seed (kv_set s key v) = seed s" using s' by simp_all
qed

lemma kv_del_spec:
  assumes inv: "kv_inv s"
  shows "kv_inv (snd (kv_del s key))" "kview (snd (kv_del s key)) = (kview s)(key := None)"
    "fst (kv_del s key) = (kview s key \<noteq> None)"
    "used (snd (kv_del s key)) - used s = kv_bytes (snd (kv_del s key)) - kv_bytes s"
    "maxMemory (snd (kv_del s key)) = maxMemory s" "seed (snd (kv_del s key)) = seed s"
proof -
  let ?i = "shardFor s key"
  let ?m = "sm (shards s ! ?i)"
  let ?m' = "AList.delete key ?m"
  have v: "map_of ?m key = kview s key" using kv_get_view[OF inv] by (simp add: kv_get_def)
  have all: "kv_inv (snd (kv_del s key)) \<and> kview (snd (kv_del s key)) = (kview s)(key := None) \<and>
    fst (kv_del s key) = (kview s key \<noteq> None) \<and>
    used (snd (kv_del s key)) - used s = kv_bytes (snd (kv_del s key)) - kv_bytes s \<and>
    maxMemory (snd (kv_del s key)) = maxMemory s \<and> seed (snd (kv_del s key)) = seed s"
  proof (cases "kview s key")
    case None
    then have "kv_del s key = (False, s)" using v by (simp add: kv_del_def Let_def)
    moreover have "(kview s)(key := None) = kview s" using None by auto
    ultimately show ?thesis using inv None by simp
  next
    case (Some old)
    have sum: "entry_sum entrySize ?m' = entry_sum entrySize ?m + - entrySize key old"
      using entry_sum_delete[OF kv_shard_distinct[OF inv], of entrySize key key] v Some by simp
    have "sbytes (shards s ! ?i) = entry_sum entrySize ?m"
      using inv shardFor_lt[OF inv, of key] by (simp add: kv_inv_def)
    then have d: "kv_del s key = (True, snd (kv_del s key))"
      and s': "snd (kv_del s key) = s\<lparr>shards := (shards s)[?i := \<lparr>sm = ?m', sbytes = entry_sum entrySize ?m'\<rparr>],
        used := used s + - entrySize key old\<rparr>"
      using sum v Some by (simp_all add: kv_del_def Let_def)
    have ne: "AList.delete key ?m \<noteq> AList.update key [] ?m"
      by (metis (no_types) fun_upd_same map_of_delete map_of_update option.distinct(1))
    note p = kv_put_shard[OF inv refl disjI2[OF refl] s']
    have "fst (kv_del s key)" using d by (metis fst_conv)
    then show ?thesis using p(1) p(2)[where v = "[]"] p(3) s' sum ne Some by simp
  qed
  then show "kv_inv (snd (kv_del s key))" "kview (snd (kv_del s key)) = (kview s)(key := None)"
    "fst (kv_del s key) = (kview s key \<noteq> None)"
    "used (snd (kv_del s key)) - used s = kv_bytes (snd (kv_del s key)) - kv_bytes s"
    "maxMemory (snd (kv_del s key)) = maxMemory s" "seed (snd (kv_del s key)) = seed s" by blast+
qed

lemma fold_minus: "fold (\<lambda>sh u. u - f sh) xs u = u - sum_list (map f xs)" for u :: int
  by (induction xs arbitrary: u) auto

lemma fold_plus_nat: "fold (\<lambda>x n. n + f x) xs n = n + sum_list (map f xs)" for n :: nat
  by (induction xs arbitrary: n) auto

lemma kv_clear_spec:
  assumes inv: "kv_inv s"
  shows "kv_inv (kv_clear s)" "kview (kv_clear s) = Map.empty"
    "used (kv_clear s) = used s - kv_bytes s" "kv_bytes (kv_clear s) = 0"
proof -
  have ms: "map sm (shards (kv_clear s)) = replicate numShards []"
    using kv_len_shards[OF inv] by (simp add: kv_clear_def comp_def map_replicate_const)
  then show "kv_inv (kv_clear s)" by (simp add: kv_inv_def) (auto simp: kv_clear_def)
  show "kview (kv_clear s) = Map.empty" unfolding kview_def ms by simp
  have "sum_list (map sbytes (shards s)) = kv_bytes s"
    unfolding kv_bytes_def using inv by (intro arg_cong[of _ _ sum_list] map_cong) (auto simp: kv_inv_def)
  then show "used (kv_clear s) = used s - kv_bytes s"
    by (simp add: kv_clear_def fold_minus)
  show "kv_bytes (kv_clear s) = 0"
    unfolding kv_bytes_def by (simp add: kv_clear_def comp_def map_replicate_const sum_list_replicate)
qed

text \<open>The walk visits the entries of all shards in a row, each key once with its value.\<close>

definition kv_pairs :: "kvstore \<Rightarrow> (string \<times> bytes) list" where
  "kv_pairs s = concat (map sm (shards s))"

lemma kv_forEach_pairs: "kv_forEach s fn acc = fold (\<lambda>(k, v) acc. fn acc k v) (kv_pairs s) acc"
proof -
  have "fold (\<lambda>sh acc. fold (\<lambda>(k, v) acc. fn acc k v) (sm sh) acc) shs acc =
      fold (\<lambda>(k, v) acc. fn acc k v) (concat (map sm shs)) acc" for shs
    by (induction shs arbitrary: acc) auto
  then show ?thesis by (simp add: kv_forEach_def kv_pairs_def)
qed

lemma kv_pairs_view:
  assumes "kv_inv s"
  shows "distinct (map fst (kv_pairs s))" "map_of (kv_pairs s) = kview s"
  using shards_concat[of "seed s" "map sm (shards s)"] assms
  by (auto simp: kv_inv_def kv_pairs_def kview_def keys_distinct_def fun_eq_iff)

lemma kv_len_pairs: "kv_len s = length (kv_pairs s)"
  by (simp add: kv_len_def fold_plus_nat kv_pairs_def length_concat comp_def)

lemma kv_len_card: "kv_inv s \<Longrightarrow> kv_len s = card (dom (kview s))"
  using kv_pairs_view[of s] length_eq_card_dom[of "kv_pairs s"]
  by (simp add: kv_len_pairs keys_distinct_def)

section \<open>Properties\<close>

text \<open>C7: the store is a map: after \<open>Set\<close> the key reads the new value, after \<open>Del\<close> nothing, every
  other key reads as before, \<open>Del\<close> answers whether the key was there, the walk visits every key once
  with its value, \<open>Len\<close> counts the keys and \<open>Clear\<close> removes all; every operation keeps the shards
  well formed.\<close>

theorem kv_store_is_map:
  assumes "kv_inv s"
  shows "kv_inv (kv_set s key v) \<and> kv_get (kv_set s key v) k = (if k = key then Some v else kv_get s k) \<and>
    (case kv_del s key of (b, s') \<Rightarrow>
       kv_inv s' \<and> b = (kv_get s key \<noteq> None) \<and> kv_get s' k = (if k = key then None else kv_get s k)) \<and>
    (let seen = kv_forEach s (\<lambda>acc k v. acc @ [(k, v)]) [] in
       distinct (map fst seen) \<and> map_of seen k = kv_get s k) \<and>
    kv_len s = card {k. kv_get s k \<noteq> None} \<and>
    kv_inv (kv_clear s) \<and> kv_get (kv_clear s) k = None"
proof -
  have col: "fold (\<lambda>(k, v) acc. acc @ [(k, v)]) xs acc = acc @ xs" for xs and acc :: "(string \<times> bytes) list"
    by (induction xs arbitrary: acc) auto
  obtain b s' where d: "kv_del s key = (b, s')" by (cases "kv_del s key")
  have "kv_inv s'" "kview s' = (kview s)(key := None)" "b = (kview s key \<noteq> None)"
    using kv_del_spec(1-3)[OF assms, of key] d by simp_all
  then show ?thesis
    using assms d kv_set_spec[OF assms] kv_pairs_view[OF assms] kv_len_card[OF assms] kv_clear_spec[OF assms]
    by (simp add: kv_get_view kv_forEach_pairs col dom_def)
qed

theorem kv_store_is_map_witness:
  "kv_inv (kv_set (kv_new (\<lambda>k. 0)) ''a'' ''1'') \<and>
   kv_get (kv_set (kv_set (kv_new (\<lambda>k. 0)) ''a'' ''1'') ''b'' ''2'') ''b'' = Some ''2''"
  using kv_store_is_map[OF kv_set_spec(1)[OF kv_new_inv], where key = "''b''" and k = "''b''" and v = "''2''"]
    kv_set_spec(1)[OF kv_new_inv] by simp

text \<open>C8: memory accounting is exact: the counter grows and shrinks by exactly the entry sizes that
  \<open>Set\<close>, \<open>Del\<close> and \<open>Clear\<close> add and remove, so it never drifts, and a store that only ever held KV
  entries reports the size of the entries it holds, which is never negative.\<close>

theorem kv_accounting_exact:
  assumes "kv_inv s" "used s = kv_bytes s + external"
  shows "used (kv_set s key v) = kv_bytes (kv_set s key v) + external \<and>
    used (snd (kv_del s key)) = kv_bytes (snd (kv_del s key)) + external \<and>
    used (kv_clear s) = external \<and> kv_bytes (kv_clear s) = 0 \<and> 0 \<le> kv_bytes s \<and>
    (isOOM s \<longleftrightarrow> 0 < maxMemory s \<and> maxMemory s \<le> kv_bytes s + external)"
proof -
  have "0 \<le> entry_sum entrySize m" for m :: "(string, bytes) gomap"
    unfolding entry_sum_def by (rule sum_list_nonneg) (auto simp: entrySize_def entryOverhead_def)
  then have "0 \<le> kv_bytes s" unfolding kv_bytes_def by (intro sum_list_nonneg) auto
  with assms kv_set_spec(3)[OF assms(1), of key v] kv_del_spec(4)[OF assms(1), of key]
    kv_clear_spec(3,4)[OF assms(1)] show ?thesis
    by (simp add: isOOM_def)
qed

theorem kv_accounting_exact_witness:
  "kv_inv (kv_new (\<lambda>k. 0)) \<and> used (kv_new (\<lambda>k. 0)) = kv_bytes (kv_new (\<lambda>k. 0)) + 0 \<and>
   used (kv_set (kv_new (\<lambda>k. 0)) ''a'' ''xy'') = kv_bytes (kv_set (kv_new (\<lambda>k. 0)) ''a'' ''xy'') + 0"
  using kv_accounting_exact[OF kv_new_inv[of "\<lambda>k. 0"], where external = 0
      and key = "''a''" and v = "''xy''"] by simp

end
