(* ===== verification/Ttl.thy ===== *)
theory Ttl
  imports KvStore "HOL-Library.Multiset"
begin

unbundle bit_operations_syntax

text \<open>
  Key lifetimes, \<open>internal/store/ttl.go\<close>: 256 shards of deadlines in monotonic nanoseconds, lazy
  expiry on reads and the background sampling. The clocks are read by the code at the points where
  the definitions take a time as argument; the arithmetic is that of \<open>int64\<close>. The store that
  expired keys are deleted from is the \<open>Evictor\<close> interface, here a function that threads the
  store's state. A Go map is walked in an order chosen by the runtime, so the sampling takes the
  order as a parameter.
\<close>

section \<open>Model\<close>

definition sampleSize :: nat where "sampleSize = 20"
definition expiredThreshold :: nat where "expiredThreshold = sampleSize div 4"
definition maxLoops :: nat where "maxLoops = 16"
definition shardsPerCycle :: nat where "shardsPerCycle = 4"

record ttlman =
  hashSeed :: "string \<Rightarrow> 64 word"
  expires :: "(string, int) gomap list"
  shardIdx :: "32 word"

definition ttl_new :: "(string \<Rightarrow> 64 word) \<Rightarrow> ttlman" where
  "ttl_new h = \<lparr>hashSeed = h, expires = replicate numShards [], shardIdx = 0\<rparr>"

definition getShard :: "ttlman \<Rightarrow> string \<Rightarrow> nat" where
  "getShard m key = unat ((ucast (hashSeed m key) :: 32 word) AND 255)"

definition ttl_set :: "ttlman \<Rightarrow> int \<Rightarrow> string \<Rightarrow> int \<Rightarrow> ttlman" where
  "ttl_set m now key ttl =
     (let i = getShard m key; deadline = i64 (now + ttl) in
      m\<lparr>expires := (expires m)[i := AList.update key deadline (expires m ! i)]\<rparr>)"

definition ttl_get :: "ttlman \<Rightarrow> string \<Rightarrow> int option" where
  "ttl_get m key = map_of (expires m ! getShard m key) key"

definition onDelete :: "ttlman \<Rightarrow> string \<Rightarrow> ttlman" where
  "onDelete m key =
     (let i = getShard m key in m\<lparr>expires := (expires m)[i := AList.delete key (expires m ! i)]\<rparr>)"

definition ttl_remove :: "ttlman \<Rightarrow> string \<Rightarrow> bool \<times> ttlman" where
  "ttl_remove m key = (ttl_get m key \<noteq> None, onDelete m key)"

definition ttl_left :: "ttlman \<Rightarrow> int \<Rightarrow> string \<Rightarrow> int" where
  "ttl_left m now key =
     (case ttl_get m key of
        None \<Rightarrow> - 1
      | Some expiresAt \<Rightarrow> let remaining = i64 (expiresAt - now) in if remaining \<le> 0 then 0 else remaining)"

text \<open>\<open>IsExpired\<close> in its three critical sections: the look under the read lock (does it go on?), the
  second look under the write lock (answer, evict?, table), the deletion from the store.\<close>

definition expired_fast :: "ttlman \<Rightarrow> int \<Rightarrow> string \<Rightarrow> bool" where
  "expired_fast m now key =
     (case ttl_get m key of None \<Rightarrow> False | Some expiresAt \<Rightarrow> \<not> now < expiresAt)"

definition expired_slow :: "ttlman \<Rightarrow> int \<Rightarrow> string \<Rightarrow> bool \<times> bool \<times> ttlman" where
  "expired_slow m now key =
     (case ttl_get m key of
        None \<Rightarrow> (True, False, m)
      | Some expiresAt \<Rightarrow>
          if now < expiresAt then (False, False, m) else (True, True, onDelete m key))"

definition isExpired :: "('st \<Rightarrow> string \<Rightarrow> bool \<times> 'st) \<Rightarrow> ttlman \<Rightarrow> 'st \<Rightarrow> int \<Rightarrow> int \<Rightarrow> string \<Rightarrow>
    bool \<times> ttlman \<times> 'st" where
  "isExpired del m st now now' key =
     (if \<not> expired_fast m now key then (False, m, st)
      else case expired_slow m now' key of (answer, evict, m') \<Rightarrow>
        (answer, m', if evict then snd (del st key) else st))"

definition sampleAndExpireShard :: "('st \<Rightarrow> string \<Rightarrow> bool \<times> 'st) \<Rightarrow>
    ((string, int) gomap \<Rightarrow> (string, int) gomap) \<Rightarrow> ttlman \<Rightarrow> 'st \<Rightarrow> int \<Rightarrow> nat \<Rightarrow> nat \<times> ttlman \<times> 'st" where
  "sampleAndExpireShard del order m st now idx =
     (let s = expires m ! idx in
      if length s = 0 then (0, m, st)
      else
        let expiredKeys = map fst (filter (\<lambda>(key, expiresAt). now > expiresAt) (take sampleSize (order s)));
            s' = fold AList.delete expiredKeys s in
        (length expiredKeys, m\<lparr>expires := (expires m)[idx := s']\<rparr>,
         fold (\<lambda>key st. snd (del st key)) expiredKeys st))"

text \<open>One shard's loop, at most \<open>maxLoops\<close> samples, then the round over \<open>shardsPerCycle\<close> shards. The
  clock reading and the map order of sample number \<open>t\<close> are \<open>clk t\<close> and \<open>order t\<close>.\<close>

fun expire_loop :: "nat \<Rightarrow> ('st \<Rightarrow> string \<Rightarrow> bool \<times> 'st) \<Rightarrow> (nat \<Rightarrow> (string, int) gomap \<Rightarrow> (string, int) gomap) \<Rightarrow>
    (nat \<Rightarrow> int) \<Rightarrow> nat \<Rightarrow> nat \<Rightarrow> ttlman \<Rightarrow> 'st \<Rightarrow> ttlman \<times> 'st" where
  "expire_loop 0 del order clk t idx m st = (m, st)"
| "expire_loop (Suc n) del order clk t idx m st =
     (case sampleAndExpireShard del (order t) m st (clk t) idx of (expired, m', st') \<Rightarrow>
        if expired < expiredThreshold then (m', st')
        else expire_loop n del order clk (Suc t) idx m' st')"

fun expire_shards :: "nat \<Rightarrow> ('st \<Rightarrow> string \<Rightarrow> bool \<times> 'st) \<Rightarrow> (nat \<Rightarrow> (string, int) gomap \<Rightarrow> (string, int) gomap) \<Rightarrow>
    (nat \<Rightarrow> int) \<Rightarrow> nat \<Rightarrow> ttlman \<Rightarrow> 'st \<Rightarrow> ttlman \<times> 'st" where
  "expire_shards 0 del order clk t m st = (m, st)"
| "expire_shards (Suc k) del order clk t m st =
     (let idx = unat (shardIdx m) mod numShards; m1 = m\<lparr>shardIdx := shardIdx m + 1\<rparr> in
      case expire_loop maxLoops del order clk t idx m1 st of (m', st') \<Rightarrow>
        expire_shards k del order clk (t + maxLoops) m' st')"

definition expireCycle :: "('st \<Rightarrow> string \<Rightarrow> bool \<times> 'st) \<Rightarrow> (nat \<Rightarrow> (string, int) gomap \<Rightarrow> (string, int) gomap) \<Rightarrow>
    (nat \<Rightarrow> int) \<Rightarrow> ttlman \<Rightarrow> 'st \<Rightarrow> ttlman \<times> 'st" where
  "expireCycle del order clk m st = expire_shards shardsPerCycle del order clk 0 m st"

definition ttl_forEach :: "ttlman \<Rightarrow> int \<Rightarrow> int \<Rightarrow> ('s \<Rightarrow> string \<Rightarrow> int \<Rightarrow> 's) \<Rightarrow> 's \<Rightarrow> 's" where
  "ttl_forEach m wallBase monoBase fn acc =
     fold (\<lambda>s acc. fold (\<lambda>(k, e) acc. fn acc k (i64 (wallBase + i64 (e - monoBase)))) s acc) (expires m) acc"

definition ttl_len :: "ttlman \<Rightarrow> nat" where
  "ttl_len m = fold (\<lambda>s total. total + length s) (expires m) 0"

section \<open>The table as a map\<close>

lemma getShard_eq: "getShard m key = shard_of (hashSeed m) key"
proof -
  have m8: "(255 :: 32 word) = mask 8" by (simp add: mask_eq_decr_exp)
  have "unat ((ucast (hashSeed m key) :: 32 word) AND 255) = take_bit 8 (unat (ucast (hashSeed m key) :: 32 word))"
    by (simp only: m8 take_bit_eq_mask[symmetric] unsigned_take_bit_eq)
  also have "\<dots> = unat (hashSeed m key) mod 256"
    by (simp add: unsigned_ucast_eq take_bit_eq_mod mod_mod_cancel)
  finally show ?thesis by (simp add: getShard_def shard_of_def numShards_def)
qed

definition ttl_inv :: "ttlman \<Rightarrow> bool" where
  "ttl_inv m \<longleftrightarrow> shards_ok (hashSeed m) (expires m)"

lemma ttl_get_lookup: "ttl_get m = lookup (hashSeed m) (expires m)"
  by (simp add: ttl_get_def lookup_def getShard_eq fun_eq_iff)

lemma ttl_new_inv [simp]: "ttl_inv (ttl_new h)" and ttl_get_new [simp]: "ttl_get (ttl_new h) k = None"
  by (simp_all add: ttl_inv_def ttl_new_def ttl_get_lookup)

lemma ttl_set_inv [simp]: "ttl_inv m \<Longrightarrow> ttl_inv (ttl_set m now key ttl)"
  by (simp add: ttl_inv_def ttl_set_def Let_def getShard_eq shards_ok_update)

lemma ttl_get_set: "ttl_inv m \<Longrightarrow> ttl_get (ttl_set m now key ttl) = (ttl_get m)(key \<mapsto> i64 (now + ttl))"
  by (simp add: ttl_inv_def ttl_get_lookup) (simp add: ttl_set_def Let_def getShard_eq lookup_update)

lemma onDelete_inv [simp]: "ttl_inv m \<Longrightarrow> ttl_inv (onDelete m key)"
  by (simp add: ttl_inv_def onDelete_def Let_def getShard_eq shards_ok_delete)

lemma ttl_get_onDelete: "ttl_inv m \<Longrightarrow> ttl_get (onDelete m key) = (ttl_get m)(key := None)"
  by (simp add: ttl_inv_def ttl_get_lookup) (simp add: onDelete_def Let_def getShard_eq lookup_delete)

lemma expired_spec:
  assumes "ttl_inv m" "now \<le> now'"
  shows "isExpired del m st now now' key =
    (case ttl_get m key of
       None \<Rightarrow> (False, m, st)
     | Some e \<Rightarrow> if e \<le> now then (True, onDelete m key, snd (del st key)) else (False, m, st))"
  using assms by (auto simp: isExpired_def expired_fast_def expired_slow_def split: option.splits)

text \<open>Deleting a batch of keys.\<close>

lemma map_of_fold_delete:
  "map_of (fold AList.delete ks s) k = (if k \<in> set ks then None else map_of s k)"
  by (induction ks arbitrary: s) auto

lemma keys_distinct_fold_delete: "keys_distinct s \<Longrightarrow> keys_distinct (fold AList.delete ks s)"
  by (induction ks arbitrary: s) auto

lemma shard_fold_delete:
  assumes ok: "shards_ok h ms" and i: "i < numShards" and ks: "set ks \<subseteq> fst ` set (ms ! i)"
  shows "shards_ok h (ms[i := fold AList.delete ks (ms ! i)])"
    "lookup h (ms[i := fold AList.delete ks (ms ! i)]) k = (if k \<in> set ks then None else lookup h ms k)"
proof -
  show "shards_ok h (ms[i := fold AList.delete ks (ms ! i)])"
    using ok i by (auto simp: shards_ok_def nth_list_update keys_distinct_fold_delete map_of_fold_delete
        split: if_splits)
  have "shard_of h k = i" if "k \<in> set ks"
  proof -
    have "k \<in> fst ` set (ms ! i)" using ks that by blast
    then obtain v where "(k, v) \<in> set (ms ! i)" by auto
    moreover have "keys_distinct (ms ! i)" using ok i by (simp add: shards_ok_def)
    ultimately have "map_of (ms ! i) k = Some v" by (simp add: keys_distinct_map_of)
    then show ?thesis using ok i unfolding shards_ok_def by blast
  qed
  then show "lookup h (ms[i := fold AList.delete ks (ms ! i)]) k = (if k \<in> set ks then None else lookup h ms k)"
    using shards_length[OF ok] i
    by (cases "shard_of h k = i") (auto simp: lookup_def map_of_fold_delete)
qed

section \<open>Interface: the store that expired keys are deleted from\<close>

text \<open>\<open>Evictor\<close>: \<open>Del\<close> removes the key and nothing else.\<close>

locale evictor =
  fixes del :: "'st \<Rightarrow> string \<Rightarrow> bool \<times> 'st"
    and inv :: "'st \<Rightarrow> bool"
    and has :: "'st \<Rightarrow> string \<Rightarrow> bool"
  assumes del_inv: "inv st \<Longrightarrow> inv (snd (del st k))"
    and del_has: "inv st \<Longrightarrow> has (snd (del st k)) x \<longleftrightarrow> x \<noteq> k \<and> has st x"
begin

lemma fold_del: "inv st \<Longrightarrow> inv (fold (\<lambda>k st. snd (del st k)) ks st) \<and>
    (\<forall>x. has (fold (\<lambda>k st. snd (del st k)) ks st) x \<longleftrightarrow> x \<notin> set ks \<and> has st x)"
  by (induction ks arbitrary: st) (auto simp: del_inv del_has)

text \<open>What a stretch of expiry may have done by time \<open>T\<close>: only keys whose deadline had passed are
  gone, from the table and from the store alike.\<close>

definition expiry_step :: "int \<Rightarrow> ttlman \<times> 'st \<Rightarrow> ttlman \<times> 'st \<Rightarrow> bool" where
  "expiry_step T a b \<longleftrightarrow> (case a of (m, st) \<Rightarrow> case b of (m', st') \<Rightarrow>
     ttl_inv m \<and> inv st \<longrightarrow>
     ttl_inv m' \<and> inv st' \<and> hashSeed m' = hashSeed m \<and>
     (\<exists>gone. (\<forall>x \<in> gone. \<exists>e. ttl_get m x = Some e \<and> e < T) \<and>
        (\<forall>x. ttl_get m' x = (if x \<in> gone then None else ttl_get m x)) \<and>
        (\<forall>x. has st' x \<longleftrightarrow> x \<notin> gone \<and> has st x)))"

lemma expiry_refl: "expiry_step T a a"
  by (cases a) (auto simp: expiry_step_def intro: exI[of _ "{}"])

lemma expiry_trans:
  assumes "expiry_step T a b" "expiry_step T b c"
  shows "expiry_step T a c"
proof -
  obtain m st m' st' m'' st'' where s: "a = (m, st)" "b = (m', st')" "c = (m'', st'')"
    by (cases a; cases b; cases c)
  show ?thesis
    unfolding expiry_step_def s prod.case
  proof
    assume pre: "ttl_inv m \<and> inv st"
    with assms(1) obtain g where b: "ttl_inv m'" "inv st'" "hashSeed m' = hashSeed m"
      "\<forall>x \<in> g. \<exists>e. ttl_get m x = Some e \<and> e < T" "\<forall>x. ttl_get m' x = (if x \<in> g then None else ttl_get m x)"
      "\<forall>x. has st' x \<longleftrightarrow> x \<notin> g \<and> has st x"
      unfolding expiry_step_def s prod.case by blast
    with assms(2) obtain g' where c: "ttl_inv m''" "inv st''" "hashSeed m'' = hashSeed m'"
      "\<forall>x \<in> g'. \<exists>e. ttl_get m' x = Some e \<and> e < T" "\<forall>x. ttl_get m'' x = (if x \<in> g' then None else ttl_get m' x)"
      "\<forall>x. has st'' x \<longleftrightarrow> x \<notin> g' \<and> has st' x"
      unfolding expiry_step_def s prod.case by blast
    have "\<forall>x \<in> g \<union> g'. \<exists>e. ttl_get m x = Some e \<and> e < T"
    proof
      fix x assume "x \<in> g \<union> g'"
      show "\<exists>e. ttl_get m x = Some e \<and> e < T"
      proof (cases "x \<in> g")
        case False
        with \<open>x \<in> g \<union> g'\<close> c(4) b(5) show ?thesis by auto
      qed (use b(4) in blast)
    qed
    moreover have "\<forall>x. ttl_get m'' x = (if x \<in> g \<union> g' then None else ttl_get m x)"
      using b(5) c(5) by simp
    moreover have "\<forall>x. has st'' x \<longleftrightarrow> x \<notin> g \<union> g' \<and> has st x" using b(6) c(6) by blast
    ultimately show "ttl_inv m'' \<and> inv st'' \<and> hashSeed m'' = hashSeed m \<and>
     (\<exists>gone. (\<forall>x \<in> gone. \<exists>e. ttl_get m x = Some e \<and> e < T) \<and>
        (\<forall>x. ttl_get m'' x = (if x \<in> gone then None else ttl_get m x)) \<and>
        (\<forall>x. has st'' x \<longleftrightarrow> x \<notin> gone \<and> has st x))"
      using b(3) c(1-3) by (intro conjI exI[of _ "g \<union> g'"]) auto
  qed
qed

lemma sample_step:
  assumes ord: "set (order (expires m ! idx)) \<subseteq> set (expires m ! idx)"
    and idx: "idx < numShards" and now: "now \<le> T"
    and op: "sampleAndExpireShard del order m st now idx = (c, m', st')"
  shows "expiry_step T (m, st) (m', st')"
proof (cases "length (expires m ! idx) = 0")
  case True
  with op show ?thesis by (simp add: sampleAndExpireShard_def Let_def expiry_refl)
next
  case False
  let ?s = "expires m ! idx"
  define ks where "ks = map fst (filter (\<lambda>(key, expiresAt). now > expiresAt) (take sampleSize (order ?s)))"
  have m': "m' = m\<lparr>expires := (expires m)[idx := fold AList.delete ks ?s]\<rparr>"
    and st': "st' = fold (\<lambda>key st. snd (del st key)) ks st"
    using op False by (auto simp: sampleAndExpireShard_def Let_def ks_def)
  have ks: "\<exists>e. (x, e) \<in> set ?s \<and> e < now" if "x \<in> set ks" for x
    using that ord by (auto simp: ks_def dest!: in_set_takeD)
  then have sub: "set ks \<subseteq> fst ` set ?s" by force
  show ?thesis
    unfolding expiry_step_def prod.case
  proof
    assume pre: "ttl_inv m \<and> inv st"
    then have ok: "shards_ok (hashSeed m) (expires m)" by (simp add: ttl_inv_def)
    note d = shard_fold_delete[OF ok idx sub]
    have dl: "\<exists>e. ttl_get m x = Some e \<and> e < T" if xk: "x \<in> set ks" for x
    proof -
      obtain e where e: "(x, e) \<in> set ?s" "e < now" using ks[OF xk] by blast
      have "keys_distinct ?s" using ok idx by (simp add: shards_ok_def)
      then have "map_of ?s x = Some e" using e(1) by (simp add: keys_distinct_map_of)
      moreover from this have "shard_of (hashSeed m) x = idx" using ok idx unfolding shards_ok_def by blast
      ultimately have "ttl_get m x = Some e" by (simp add: ttl_get_lookup lookup_def)
      with e(2) now show ?thesis by auto
    qed
    have g: "ttl_get m' x = (if x \<in> set ks then None else ttl_get m x)" for x
      using d(2)[of x] by (simp add: ttl_get_lookup m')
    have i: "ttl_inv m' \<and> hashSeed m' = hashSeed m" using d(1) by (simp add: ttl_inv_def m')
    have h: "inv st' \<and> (\<forall>x. has st' x \<longleftrightarrow> x \<notin> set ks \<and> has st x)"
      using fold_del pre unfolding st' by blast
    show "ttl_inv m' \<and> inv st' \<and> hashSeed m' = hashSeed m \<and>
     (\<exists>gone. (\<forall>x \<in> gone. \<exists>e. ttl_get m x = Some e \<and> e < T) \<and>
        (\<forall>x. ttl_get m' x = (if x \<in> gone then None else ttl_get m x)) \<and>
        (\<forall>x. has st' x \<longleftrightarrow> x \<notin> gone \<and> has st x))"
      using i h g dl by (intro conjI exI[of _ "set ks"]) auto
  qed
qed

lemma loop_step:
  assumes "\<And>t s. set (order t s) \<subseteq> set s" "\<And>t. clk t \<le> T" "idx < numShards"
  shows "expiry_step T (m, st) (expire_loop n del order clk t idx m st)"
proof (induction n arbitrary: t m st)
  case (Suc n)
  obtain c m' st' where s: "sampleAndExpireShard del (order t) m st (clk t) idx = (c, m', st')"
    by (metis prod_cases3)
  have "expiry_step T (m, st) (m', st')" using assms s by (intro sample_step) auto
  with Suc s show ?case by (auto intro: expiry_trans)
qed (simp add: expiry_refl)

lemma cycle_step:
  assumes "\<And>t s. set (order t s) \<subseteq> set s" "\<And>t. clk t \<le> T"
  shows "expiry_step T (m, st) (expire_shards k del order clk t m st)"
proof (induction k arbitrary: t m st)
  case (Suc k)
  let ?m = "m\<lparr>shardIdx := shardIdx m + 1\<rparr>"
  let ?idx = "unat (shardIdx m) mod numShards"
  obtain m' st' where s: "expire_loop maxLoops del order clk t ?idx ?m st = (m', st')" by fastforce
  have "expiry_step T (m, st) (?m, st)"
    by (auto simp: expiry_step_def ttl_inv_def ttl_get_lookup intro: exI[of _ "{}"])
  moreover have "?idx < numShards" by (simp add: numShards_def)
  from loop_step[where order = order and clk = clk, OF assms this, of ?m st maxLoops t]
  have "expiry_step T (?m, st) (m', st')" using s by simp
  ultimately show ?case using Suc[of m' st' "t + maxLoops"] s by (simp add: Let_def) (meson expiry_trans)
qed (simp add: expiry_refl)

end

interpretation kve: evictor kv_del kv_inv "\<lambda>s k. kview s k \<noteq> None"
  by unfold_locales (auto simp: kv_del_spec)

section \<open>Properties\<close>

text \<open>C9: while deadlines fit the clock, a lifetime is honoured to the nanosecond: until \<open>now + ttl\<close> the
  key is not expired, nothing is deleted and \<open>TTL\<close> answers the time left; from then on \<open>IsExpired\<close>
  answers yes, drops the deadline and deletes the key from the store, and only that key.\<close>

theorem ttl_honoured:
  assumes "ttl_inv m" "kv_inv s" "0 \<le> now" "0 < ttl" "now + ttl < 2 ^ 63" "now \<le> t" "t \<le> t'" "t' < 2 ^ 63"
  shows "case isExpired kv_del (ttl_set m now key ttl) s t t' key of (answer, m', s') \<Rightarrow>
    (answer \<longleftrightarrow> now + ttl \<le> t) \<and>
    ttl_left (ttl_set m now key ttl) t key = (if t < now + ttl then now + ttl - t else 0) \<and>
    (\<not> answer \<longrightarrow> m' = ttl_set m now key ttl \<and> s' = s) \<and>
    (answer \<longrightarrow> ttl_get m' = (ttl_get m)(key := None) \<and> kview s' = (kview s)(key := None))"
proof -
  let ?m = "ttl_set m now key ttl"
  have e: "ttl_get ?m key = Some (now + ttl)"
    using assms by (simp add: ttl_get_set i64_id)
  have "i64 (now + ttl - t) = now + ttl - t" using assms by (intro i64_id) auto
  then have "ttl_left ?m t key = (if t < now + ttl then now + ttl - t else 0)"
    using e by (simp add: ttl_left_def Let_def)
  moreover have "ttl_get (onDelete ?m key) = (ttl_get m)(key := None)"
    using assms by (simp add: ttl_get_onDelete ttl_get_set fun_eq_iff)
  ultimately show ?thesis
    using e expired_spec[OF ttl_set_inv[OF assms(1)] assms(7), where del = kv_del and st = s and key = key]
      kv_del_spec(2)[OF assms(2), of key] by auto
qed

theorem ttl_honoured_witness:
  "case isExpired kv_del (ttl_set (ttl_new (\<lambda>k. 0)) 5 ''k'' 10) (kv_set (kv_new (\<lambda>k. 0)) ''k'' ''v'') 15 15 ''k'' of
     (answer, m', s') \<Rightarrow> answer \<and> kview s' ''k'' = None"
proof -
  let ?m = "ttl_set (ttl_new (\<lambda>k. 0)) 5 ''k'' 10" and ?s = "kv_set (kv_new (\<lambda>k. 0)) ''k'' ''v''"
  obtain a m' s' where r: "isExpired kv_del ?m ?s 15 15 ''k'' = (a, m', s')" by (metis prod_cases3)
  show ?thesis
    using ttl_honoured[OF ttl_new_inv[of "\<lambda>k. 0"] kv_set_spec(1)[OF kv_new_inv[of "\<lambda>k. 0"], of "''k''" "''v''"],
        where now = 5 and ttl = 10 and t = 15 and t' = 15 and key = "''k''"]
    unfolding r by simp
qed

text \<open>the background cycle only ever removes keys whose deadline has passed by the clock it read
  (strictly), whatever order the runtime walks the maps in, and removes them from the table and the
  store together; every other key keeps its value and its deadline.\<close>

lemma expire_cycle_safe:
  assumes "ttl_inv m" "kv_inv s" "\<And>t s. set (order t s) \<subseteq> set s" "\<And>t. clk t \<le> T"
  shows "case expireCycle kv_del order clk m s of (m', s') \<Rightarrow>
    ttl_inv m' \<and> kv_inv s' \<and>
    (\<forall>x. (ttl_get m' x = ttl_get m x \<and> (kview s' x \<noteq> None \<longleftrightarrow> kview s x \<noteq> None)) \<or>
      (\<exists>e. ttl_get m x = Some e \<and> e < T \<and> ttl_get m' x = None \<and> kview s' x = None))"
proof -
  obtain m' s' where r: "expireCycle kv_del order clk m s = (m', s')" by fastforce
  have "kve.expiry_step T (m, s) (m', s')"
    using kve.cycle_step[of order clk T m s shardsPerCycle 0] assms(3,4) r by (simp add: expireCycle_def)
  then have "ttl_inv m' \<and> kv_inv s' \<and> (\<exists>gone. (\<forall>x \<in> gone. \<exists>e. ttl_get m x = Some e \<and> e < T) \<and>
        (\<forall>x. ttl_get m' x = (if x \<in> gone then None else ttl_get m x)) \<and>
        (\<forall>x. kview s' x \<noteq> None \<longleftrightarrow> x \<notin> gone \<and> kview s x \<noteq> None))"
    using assms(1,2) unfolding kve.expiry_step_def by blast
  then obtain gone where g: "ttl_inv m'" "kv_inv s'" "\<forall>x \<in> gone. \<exists>e. ttl_get m x = Some e \<and> e < T"
    "\<forall>x. ttl_get m' x = (if x \<in> gone then None else ttl_get m x)"
    "\<forall>x. kview s' x \<noteq> None \<longleftrightarrow> x \<notin> gone \<and> kview s x \<noteq> None" by blast
  have "(ttl_get m' x = ttl_get m x \<and> (kview s' x \<noteq> None \<longleftrightarrow> kview s x \<noteq> None)) \<or>
      (\<exists>e. ttl_get m x = Some e \<and> e < T \<and> ttl_get m' x = None \<and> kview s' x = None)" for x
    using g(3-5) by (cases "x \<in> gone") auto
  then show ?thesis using r g(1,2) by simp
qed

theorem expire_cycle_safe_witness:
  "case expireCycle kv_del (\<lambda>t s. s) (\<lambda>t. 20) (ttl_set (ttl_new (\<lambda>k. 0)) 5 ''k'' 30) (kv_new (\<lambda>k. 0)) of
     (m', s') \<Rightarrow> ttl_get m' ''k'' = Some 35"
proof -
  have m: "ttl_inv (ttl_set (ttl_new (\<lambda>k. 0)) 5 ''k'' 30)" by simp
  have "ttl_get (ttl_set (ttl_new (\<lambda>k. 0)) 5 ''k'' 30) ''k'' = Some 35"
    using ttl_get_set[OF ttl_new_inv] by (simp add: i64_id)
  moreover obtain m' s' where r: "expireCycle kv_del (\<lambda>t s. s) (\<lambda>t. 20)
      (ttl_set (ttl_new (\<lambda>k. 0)) 5 ''k'' 30) (kv_new (\<lambda>k. 0)) = (m', s')" by fastforce
  moreover have "\<forall>x. (ttl_get m' x = ttl_get (ttl_set (ttl_new (\<lambda>k. 0)) 5 ''k'' 30) x \<and>
        (kview s' x \<noteq> None \<longleftrightarrow> kview (kv_new (\<lambda>k. 0)) x \<noteq> None)) \<or>
      (\<exists>e. ttl_get (ttl_set (ttl_new (\<lambda>k. 0)) 5 ''k'' 30) x = Some e \<and> e < 20 \<and>
        ttl_get m' x = None \<and> kview s' x = None)"
    using expire_cycle_safe[OF m kv_new_inv[of "\<lambda>k. 0"], of "\<lambda>t s. s" "\<lambda>t. 20" 20]
    unfolding r prod.case by simp
  from spec[OF this, of "''k''"] have "ttl_get m' ''k'' = Some 35" using calculation(1) by simp
  ultimately show ?thesis by simp
qed

text \<open>One sample expires every key of a shard that holds at most \<open>sampleSize\<close> deadlines: none that
  has passed is left.\<close>

theorem sample_complete:
  assumes "ttl_inv m" "idx < numShards" "length (expires m ! idx) \<le> sampleSize"
    and "mset (order (expires m ! idx)) = mset (expires m ! idx)"
  shows "case sampleAndExpireShard kv_del order m s now idx of (expired, m', s') \<Rightarrow>
    expired = length (filter (\<lambda>(key, e). e < now) (expires m ! idx)) \<and>
    (\<forall>(key, e) \<in> set (expires m' ! idx). now \<le> e)"
proof -
  let ?s = "expires m ! idx"
  have len: "idx < length (expires m)" using assms(1,2) shards_length by (fastforce simp: ttl_inv_def)
  have kd: "keys_distinct ?s" using assms(1,2) by (simp add: ttl_inv_def shards_ok_def)
  have "length (order ?s) = length ?s" using assms(4) by (metis size_mset)
  then have tk: "take sampleSize (order ?s) = order ?s" using assms(3) by simp
  define ks where "ks = map fst (filter (\<lambda>(key, e). now > e) (order ?s))"
  have "length ks = length (filter (\<lambda>(key, e). e < now) ?s)"
    using assms(4) unfolding ks_def length_map by (metis mset_filter size_mset)
  moreover have "now \<le> e" if "(k, e) \<in> set (fold AList.delete ks ?s)" for k e
  proof -
    have "map_of (fold AList.delete ks ?s) k = Some e"
      using that keys_distinct_fold_delete[OF kd] by (simp add: keys_distinct_map_of)
    then have "k \<notin> set ks" "map_of ?s k = Some e" by (auto simp: map_of_fold_delete split: if_splits)
    then have "(k, e) \<in> set (order ?s)"
      using assms(4) kd by (metis keys_distinct_map_of set_mset_mset)
    with \<open>k \<notin> set ks\<close> show ?thesis by (force simp: ks_def)
  qed
  moreover have "ks = [] \<and> fold AList.delete ks ?s = ?s" if "?s = []"
    using assms(4) that by (simp add: ks_def)
  ultimately show ?thesis
    using len by (cases "?s = []") (auto simp: sampleAndExpireShard_def Let_def tk ks_def[symmetric])
qed

theorem sample_complete_witness:
  "case sampleAndExpireShard kv_del (\<lambda>s. s) (ttl_set (ttl_new (\<lambda>k. 0)) 0 ''k'' 7) (kv_new (\<lambda>k. 0)) 9 0 of
     (expired, m', s') \<Rightarrow> expired = 1"
proof -
  have e: "expires (ttl_set (ttl_new (\<lambda>k. 0)) 0 ''k'' 7) ! 0 = [(''k'', 7)]"
    by (simp add: ttl_set_def ttl_new_def getShard_def Let_def numShards_def i64_id)
  show ?thesis
    using sample_complete[where m = "ttl_set (ttl_new (\<lambda>k. 0)) 0 ''k'' 7" and idx = 0 and order = "\<lambda>s. s" and s = "kv_new (\<lambda>k. 0)" and now = 9]
    by (auto simp: e sampleSize_def numShards_def split: prod.splits)
qed

text \<open>the largest lifetime that \<open>EXPIRE\<close> and \<open>SET EX\<close> accept (\<open>maxTTLSeconds\<close>, 292 years) does not
  fit once the server has run for a second: the deadline wraps around and the key counts as expired
  at once.\<close>

theorem ttl_max_wraps:
  assumes "ttl_inv m" "854775808 \<le> now" "now < 2 ^ 62"
  shows "expired_fast (ttl_set m now key (9223372036 * 1000000000)) now key \<and>
    ttl_left (ttl_set m now key (9223372036 * 1000000000)) now key = 9223372036 * 1000000000"
proof -
  let ?e = "now + 9223372036 * 1000000000 - 2 ^ 64"
  have w: "i64 (now + 9223372036 * 1000000000) = ?e"
    using assms by (intro i64_wrap) auto
  have g: "ttl_get (ttl_set m now key (9223372036 * 1000000000)) key = Some ?e"
    using assms(1) w by (simp add: ttl_get_set)
  have "i64 (?e - now) = 9223372036 * 1000000000" by (simp add: i64_def)
  then show ?thesis using g assms by (simp add: expired_fast_def ttl_left_def Let_def)
qed

theorem ttl_max_wraps_witness:
  "expired_fast (ttl_set (ttl_new (\<lambda>k. 0)) 1000000000 ''k'' (9223372036 * 1000000000)) 1000000000 ''k''"
  using ttl_max_wraps[OF ttl_new_inv, of 1000000000 "\<lambda>k. 0" "''k''"] by simp

text \<open>lazy expiry and a concurrent \<open>SET\<close> of the same key: the reader drops the deadline, releases
  the lock and deletes the key from the store afterwards; a \<open>SET\<close> that completes in between is
  deleted with it, although it carries no deadline.\<close>

lemma lazy_expiry_deletes_new_value:
  assumes "ttl_inv m" "kv_inv s" "ttl_get m key = Some e" "e \<le> now"
  shows "\<exists>m1. expired_fast m now key \<and> expired_slow m now key = (True, True, m1) \<and>
    (let s1 = kv_set s key v; (had, m2) = ttl_remove m1 key; (found, s2) = kv_del s1 key in
       kv_get s1 key = Some v \<and> \<not> had \<and> ttl_get m2 key = None \<and> found \<and> kv_get s2 key = None)"
proof -
  have s1: "kv_inv (kv_set s key v)" "kview (kv_set s key v) = (kview s)(key \<mapsto> v)"
    using kv_set_spec[OF assms(2)] by blast+
  show ?thesis
    using assms s1 kv_del_spec[OF s1(1), of key]
    by (intro exI[of _ "onDelete m key"])
       (auto simp: expired_fast_def expired_slow_def ttl_remove_def ttl_get_onDelete kv_get_view
         split: prod.splits)
qed

lemma lazy_expiry_deletes_new_value_witness:
  "\<exists>m1. expired_slow (ttl_set (ttl_new (\<lambda>k. 0)) 0 ''k'' 5) 9 ''k'' = (True, True, m1)"
proof -
  have g: "ttl_get (ttl_set (ttl_new (\<lambda>k. 0)) 0 ''k'' 5) ''k'' = Some 5"
    using ttl_get_set[OF ttl_new_inv] by (simp add: i64_id)
  have m: "ttl_inv (ttl_set (ttl_new (\<lambda>k. 0)) 0 ''k'' 5)" by simp
  show ?thesis
    using lazy_expiry_deletes_new_value[OF m kv_new_inv[of "\<lambda>k. 0"] g, of 9 "''v''"] by auto
qed

end
