(* ===== verification/Float64.thy ===== *)
theory Float64
  imports Prelude
begin

text \<open>
  Go's \<open>float64\<close> as its IEEE-754 bit pattern (\<open>math.Float64bits\<close>), with the comparisons the
  source uses. Sign and magnitude give every number its place in the order; the two zeros share
  one place although their bits differ, and every comparison with a NaN is false.
\<close>

type_synonym f64 = "64 word"

definition f64_neg :: "f64 \<Rightarrow> bool" where
  "f64_neg b \<longleftrightarrow> 2 ^ 63 \<le> unat b"

definition f64_mag :: "f64 \<Rightarrow> nat" where
  "f64_mag b = unat b mod 2 ^ 63"

definition f64_nan :: "f64 \<Rightarrow> bool" where
  "f64_nan b \<longleftrightarrow> 0x7FF0000000000000 < f64_mag b"

definition f64_key :: "f64 \<Rightarrow> int" where
  "f64_key b = (if f64_neg b then - int (f64_mag b) else int (f64_mag b))"

definition f64_lt :: "f64 \<Rightarrow> f64 \<Rightarrow> bool" where
  "f64_lt a b \<longleftrightarrow> \<not> f64_nan a \<and> \<not> f64_nan b \<and> f64_key a < f64_key b"

definition f64_le :: "f64 \<Rightarrow> f64 \<Rightarrow> bool" where
  "f64_le a b \<longleftrightarrow> \<not> f64_nan a \<and> \<not> f64_nan b \<and> f64_key a \<le> f64_key b"

definition f64_eq :: "f64 \<Rightarrow> f64 \<Rightarrow> bool" where
  "f64_eq a b \<longleftrightarrow> \<not> f64_nan a \<and> \<not> f64_nan b \<and> f64_key a = f64_key b"

text \<open>\<open>math.IsNaN(f)\<close> is \<open>f != f\<close>.\<close>

lemma f64_nan_iff_ne: "f64_nan a \<longleftrightarrow> \<not> f64_eq a a"
  by (simp add: f64_eq_def)

lemmas f64_cmp = f64_lt_def f64_le_def f64_eq_def

text \<open>The constants the witnesses use: \<open>0.0\<close>, \<open>-0.0\<close>, \<open>1.0\<close>, \<open>2.0\<close>, \<open>-1.0\<close> and one NaN.\<close>

definition f64_zero :: f64 where "f64_zero = 0"
definition f64_negzero :: f64 where "f64_negzero = 0x8000000000000000"
definition f64_one :: f64 where "f64_one = 0x3FF0000000000000"
definition f64_two :: f64 where "f64_two = 0x4000000000000000"
definition f64_minus_one :: f64 where "f64_minus_one = 0xBFF0000000000000"
definition f64_a_nan :: f64 where "f64_a_nan = 0x7FF8000000000001"

lemma f64_consts [simp]:
  "\<not> f64_nan f64_zero" "\<not> f64_nan f64_negzero" "\<not> f64_nan f64_one" "\<not> f64_nan f64_two"
  "\<not> f64_nan f64_minus_one" "f64_nan f64_a_nan"
  "f64_key f64_zero = 0" "f64_key f64_negzero = 0"
  "f64_key f64_one = 0x3FF0000000000000" "f64_key f64_two = 0x4000000000000000"
  "f64_key f64_minus_one = - 0x3FF0000000000000"
  by (simp_all add: f64_nan_def f64_mag_def f64_key_def f64_neg_def f64_zero_def f64_negzero_def
      f64_one_def f64_two_def f64_minus_one_def f64_a_nan_def)

end
