(* ===== verification/BTree.thy ===== *)
theory BTree
  imports Float64 "HOL-Library.Product_Lexorder"
begin

text \<open>
  The B+-tree of \<open>internal/btree/btree.go\<close> that backs the sorted sets: items ordered by
  (score, member), leaves linked into a chain by \<open>next\<close> pointers, nodes of at most 64 items.
  A leaf carries its address (\<open>lid\<close>) and the address of the next leaf, so that the pointer
  surgery of splits and merges is part of the model; an inner node is only reachable from its
  parent and needs no address. The allocator is a counter of fresh addresses.
\<close>

section \<open>Model\<close>

record item =
  Score :: f64
  Member :: string

definition item_less :: "item \<Rightarrow> item \<Rightarrow> bool" where
  "item_less a b =
     (if \<not> f64_eq (Score a) (Score b) then f64_lt (Score a) (Score b)
      else Member a < Member b)"

text \<open>\<open>==\<close> on the struct.\<close>

definition item_eq :: "item \<Rightarrow> item \<Rightarrow> bool" where
  "item_eq a b \<longleftrightarrow> f64_eq (Score a) (Score b) \<and> Member a = Member b"

definition maxItems :: nat where "maxItems = 64"
definition minItems :: nat where "minItems = maxItems div 2"

datatype node =
  Leaf (lid: nat) (litems: "item list") (lnext: "nat option")
| Inner "item list" "node list"

fun nitems :: "node \<Rightarrow> item list" where
  "nitems (Leaf a its nx) = its"
| "nitems (Inner its cs) = its"

fun is_leaf :: "node \<Rightarrow> bool" where
  "is_leaf (Leaf a its nx) = True"
| "is_leaf (Inner its cs) = False"

definition lowerBound :: "item list \<Rightarrow> item \<Rightarrow> nat" where
  "lowerBound its it = sort_search (length its) (\<lambda>i. \<not> item_less (its ! i) it)"

definition childIndex :: "item list \<Rightarrow> item \<Rightarrow> nat" where
  "childIndex its it = sort_search (length its) (\<lambda>i. item_less it (its ! i))"

record bptree =
  root :: node
  blen :: int
  fresh :: nat

definition bt_new :: bptree where
  "bt_new = \<lparr>root = Leaf 0 [] None, blen = 0, fresh = 1\<rparr>"

lemma nth_size_list [termination_simp]: "i < length cs \<Longrightarrow> size (cs ! i) < Suc (size_list size cs)"
  by (simp add: less_Suc_eq_le size_list_estimation'[OF nth_mem order_refl])

text \<open>\<open>insert\<close>: inserted?, the separator and new right sibling of a split, the node as it is left
  behind, and the allocator. A child index outside the slice would panic in Go; it is inside it
  on every well-formed tree (\<open>childIndex_le\<close>), and the model leaves the node alone there.\<close>

fun ins :: "nat \<Rightarrow> node \<Rightarrow> item \<Rightarrow> bool \<times> (item \<times> node) option \<times> node \<times> nat" where
  "ins fr (Leaf a its nx) it =
     (let i = lowerBound its it in
      if i < length its \<and> item_eq (its ! i) it then (False, None, Leaf a its nx, fr)
      else
        let its' = ins_at i it its in
        if length its' \<le> maxItems then (True, None, Leaf a its' nx, fr)
        else
          let mid = length its' div 2; r = drop mid its' in
          (True, Some (r ! 0, Leaf fr r nx), Leaf a (take mid its') (Some fr), Suc fr))"
| "ins fr (Inner its cs) it =
     (let ci = childIndex its it in
      if ci < length cs then
        (case ins fr (cs ! ci) it of
           (b, None, c', fr') \<Rightarrow> (b, None, Inner its (cs[ci := c']), fr')
         | (b, Some (sep, r), c', fr') \<Rightarrow>
             let its' = ins_at ci sep its; cs' = ins_at (ci + 1) r (cs[ci := c']) in
             if length its' \<le> maxItems then (True, None, Inner its' cs', fr')
             else
               let mid = length its' div 2 in
               (True,
                Some (its' ! mid, Inner (drop (mid + 1) its') (drop (mid + 1) cs')),
                Inner (take mid its') (take (mid + 1) cs'), fr'))
      else (False, None, Inner its cs, fr))"

definition bt_insert :: "bptree \<Rightarrow> f64 \<Rightarrow> string \<Rightarrow> bool \<times> bptree" where
  "bt_insert t score member =
     (let it = \<lparr>Score = score, Member = member\<rparr> in
      case ins (fresh t) (root t) it of
        (inserted, right, n, fr) \<Rightarrow>
          if \<not> inserted then (False, t\<lparr>root := n, fresh := fr\<rparr>)
          else
            let rt = (case right of None \<Rightarrow> n | Some (sep, r) \<Rightarrow> Inner [sep] [n, r]) in
            (True, t\<lparr>root := rt, blen := blen t + 1, fresh := fr\<rparr>))"

text \<open>\<open>rebalance\<close> and \<open>merge\<close>. Siblings have the same height, so a leaf is paired with a leaf;
  the last equation of each function covers pairs that no well-formed tree has.\<close>

fun borrow_left :: "node \<Rightarrow> node \<Rightarrow> item \<Rightarrow> node \<times> item \<times> node" where
  "borrow_left (Leaf a xs nx) (Leaf b ys ny) sep =
     (let last = length xs - 1; ys' = ins_at 0 (xs ! last) ys in
      (Leaf a (del_at last xs) nx, ys' ! 0, Leaf b ys' ny))"
| "borrow_left (Inner xs cs) (Inner ys ds) sep =
     (let last = length xs - 1 in
      (Inner (del_at last xs) (del_at (last + 1) cs), xs ! last,
       Inner (ins_at 0 sep ys) (ins_at 0 (cs ! (last + 1)) ds)))"
| "borrow_left left child sep = (left, sep, child)"

fun borrow_right :: "node \<Rightarrow> node \<Rightarrow> item \<Rightarrow> node \<times> item \<times> node" where
  "borrow_right (Leaf a xs nx) (Leaf b ys ny) sep =
     (let ys' = del_at 0 ys in
      (Leaf a (xs @ [ys ! 0]) nx, ys' ! 0, Leaf b ys' ny))"
| "borrow_right (Inner xs cs) (Inner ys ds) sep =
     (Inner (xs @ [sep]) (cs @ [ds ! 0]), ys ! 0, Inner (del_at 0 ys) (del_at 0 ds))"
| "borrow_right child right sep = (child, sep, right)"

fun merge_nodes :: "node \<Rightarrow> node \<Rightarrow> item \<Rightarrow> node" where
  "merge_nodes (Leaf a xs nx) (Leaf b ys ny) sep = Leaf a (xs @ ys) ny"
| "merge_nodes (Inner xs cs) (Inner ys ds) sep = Inner (xs @ [sep] @ ys) (cs @ ds)"
| "merge_nodes left right sep = left"

definition bt_merge :: "item list \<Rightarrow> node list \<Rightarrow> nat \<Rightarrow> item list \<times> node list" where
  "bt_merge its cs i =
     (del_at i its,
      del_at (i + 1) (cs[i := merge_nodes (cs ! i) (cs ! (i + 1)) (its ! i)]))"

definition rebalance :: "item list \<Rightarrow> node list \<Rightarrow> nat \<Rightarrow> item list \<times> node list" where
  "rebalance its cs ci =
     (if 0 < ci \<and> minItems < length (nitems (cs ! (ci - 1))) then
        (case borrow_left (cs ! (ci - 1)) (cs ! ci) (its ! (ci - 1)) of
           (left, sep, child) \<Rightarrow> (its[ci - 1 := sep], cs[ci - 1 := left, ci := child]))
      else if ci < length cs - 1 \<and> minItems < length (nitems (cs ! (ci + 1))) then
        (case borrow_right (cs ! ci) (cs ! (ci + 1)) (its ! ci) of
           (child, sep, right) \<Rightarrow> (its[ci := sep], cs[ci := child, ci + 1 := right]))
      else if 0 < ci then bt_merge its cs (ci - 1)
      else bt_merge its cs ci)"

fun del :: "node \<Rightarrow> item \<Rightarrow> bool \<times> node" where
  "del (Leaf a its nx) it =
     (let i = lowerBound its it in
      if i = length its \<or> \<not> item_eq (its ! i) it then (False, Leaf a its nx)
      else (True, Leaf a (del_at i its) nx))"
| "del (Inner its cs) it =
     (let ci = childIndex its it in
      if ci < length cs then
        (case del (cs ! ci) it of
           (False, c') \<Rightarrow> (False, Inner its (cs[ci := c']))
         | (True, c') \<Rightarrow>
             if length (nitems c') < minItems then
               (case rebalance its (cs[ci := c']) ci of (its', cs') \<Rightarrow> (True, Inner its' cs'))
             else (True, Inner its (cs[ci := c'])))
      else (False, Inner its cs))"

definition shrink_root :: "node \<Rightarrow> node" where
  "shrink_root n = (case n of Leaf a its nx \<Rightarrow> n
     | Inner its cs \<Rightarrow> (if length its = 0 then cs ! 0 else n))"

definition bt_delete :: "bptree \<Rightarrow> f64 \<Rightarrow> string \<Rightarrow> bool \<times> bptree" where
  "bt_delete t score member =
     (case del (root t) \<lparr>Score = score, Member = member\<rparr> of
        (False, n) \<Rightarrow> (False, t\<lparr>root := n\<rparr>)
      | (True, n) \<Rightarrow> (True, t\<lparr>root := shrink_root n, blen := blen t - 1\<rparr>))"

text \<open>The leaves below a node, left to right: the objects the \<open>next\<close> pointers can reach.\<close>

fun leaves :: "node \<Rightarrow> (nat \<times> item list \<times> nat option) list" where
  "leaves (Leaf a its nx) = [(a, its, nx)]"
| "leaves (Inner its cs) = concat (map leaves cs)"

definition flat :: "node \<Rightarrow> item list" where
  "flat n = concat (map (\<lambda>(a, its, nx). its) (leaves n))"

text \<open>\<open>Range\<close> and \<open>ForEach\<close>: descend to a leaf, then follow \<open>next\<close>. The callback threads a state
  and returns whether to go on, as the closures of the source do by mutating a captured variable.
  Following pointers could loop on a corrupt chain, so the walk has fuel, one unit per leaf;
  \<open>None\<close> is a dangling pointer or a cycle.\<close>

fun scan :: "('s \<Rightarrow> item \<Rightarrow> 's \<times> bool) \<Rightarrow> f64 option \<Rightarrow> item list \<Rightarrow> 's \<Rightarrow> 's \<times> bool" where
  "scan fn mx [] s = (s, True)"
| "scan fn mx (x # xs) s =
     (if (case mx of None \<Rightarrow> False | Some m \<Rightarrow> f64_lt m (Score x)) then (s, False)
      else case fn s x of (s', go) \<Rightarrow> if go then scan fn mx xs s' else (s', False))"

fun walk :: "nat \<Rightarrow> (nat \<times> item list \<times> nat option) list \<Rightarrow> ('s \<Rightarrow> item \<Rightarrow> 's \<times> bool) \<Rightarrow>
    f64 option \<Rightarrow> item list \<Rightarrow> nat option \<Rightarrow> 's \<Rightarrow> 's option" where
  "walk 0 heap fn mx its nx s = None"
| "walk (Suc fuel) heap fn mx its nx s =
     (case scan fn mx its s of (s', go) \<Rightarrow>
        if \<not> go then Some s'
        else case nx of
          None \<Rightarrow> Some s'
        | Some a \<Rightarrow> (case map_of heap a of
            None \<Rightarrow> None
          | Some (its', nx') \<Rightarrow> walk fuel heap fn mx its' nx' s'))"

fun descend :: "node \<Rightarrow> (item list \<Rightarrow> nat) \<Rightarrow> nat \<times> item list \<times> nat option" where
  "descend (Leaf a its nx) pick = (a, its, nx)"
| "descend (Inner its cs) pick =
     (if pick its < length cs then descend (cs ! pick its) pick else (0, [], None))"

definition bt_range :: "bptree \<Rightarrow> f64 \<Rightarrow> f64 \<Rightarrow> ('s \<Rightarrow> item \<Rightarrow> 's \<times> bool) \<Rightarrow> 's \<Rightarrow> 's option" where
  "bt_range t mn mx fn s =
     (if \<not> f64_le mn mx then Some s
      else
        let low = \<lparr>Score = mn, Member = []\<rparr> in
        (case descend (root t) (\<lambda>its. childIndex its low) of (a, its, nx) \<Rightarrow>
           walk (Suc (length (leaves (root t)))) (leaves (root t)) fn (Some mx)
             (drop (lowerBound its low) its) nx s))"

definition bt_forEach :: "bptree \<Rightarrow> ('s \<Rightarrow> item \<Rightarrow> 's \<times> bool) \<Rightarrow> 's \<Rightarrow> 's option" where
  "bt_forEach t fn s =
     (case descend (root t) (\<lambda>its. 0) of (a, its, nx) \<Rightarrow>
        walk (Suc (length (leaves (root t)))) (leaves (root t)) fn None its nx s)"

end
