(* ===== verification/BTree_Correct.thy ===== *)
theory BTree_Correct
  imports BTree
begin

text \<open>
  Correctness of the B+-tree: the ordering and balance invariant, its preservation by insertion
  and deletion, the leaf chain, and the refinement to a sorted list without duplicates.
\<close>

section \<open>Item order\<close>

definition ikey :: "item \<Rightarrow> int \<times> string" where
  "ikey it = (f64_key (Score it), Member it)"

definition item_ok :: "item \<Rightarrow> bool" where
  "item_ok it \<longleftrightarrow> \<not> f64_nan (Score it)"

lemma item_less_key: "item_ok a \<Longrightarrow> item_ok b \<Longrightarrow> item_less a b \<longleftrightarrow> ikey a < ikey b"
  by (auto simp: item_less_def item_ok_def ikey_def f64_cmp)

lemma item_eq_key: "item_ok a \<Longrightarrow> item_ok b \<Longrightarrow> item_eq a b \<longleftrightarrow> ikey a = ikey b"
  by (auto simp: item_eq_def item_ok_def ikey_def f64_cmp)

abbreviation keys :: "item list \<Rightarrow> (int \<times> string) list" where
  "keys its \<equiv> map ikey its"

lemma lowerBound_key:
  assumes "\<forall>x \<in> set its. item_ok x" "item_ok it" "sorted (keys its)"
  shows "lowerBound its it = length (takeWhile (\<lambda>x. ikey x < ikey it) its)"
proof -
  have mono: "\<not> item_less (its ! b) it"
    if "a \<le> b" "b < length its" "\<not> item_less (its ! a) it" for a b
  proof -
    have "ikey (its ! a) \<le> ikey (its ! b)"
      using sorted_nth_mono[OF assms(3) that(1)] that(1,2) by simp
    with that assms show ?thesis by (simp add: item_less_key)
  qed
  have "lowerBound its it = length (takeWhile (\<lambda>x. \<not> \<not> item_less x it) its)"
    unfolding lowerBound_def using mono by (rule sort_search_takeWhile)
  also have "takeWhile (\<lambda>x. \<not> \<not> item_less x it) its = takeWhile (\<lambda>x. ikey x < ikey it) its"
    using assms by (intro takeWhile_cong) (auto simp: item_less_key)
  finally show ?thesis .
qed

lemma childIndex_key:
  assumes "\<forall>x \<in> set its. item_ok x" "item_ok it" "sorted (keys its)"
  shows "childIndex its it = length (takeWhile (\<lambda>x. ikey x \<le> ikey it) its)"
proof -
  have mono: "item_less it (its ! b)"
    if "a \<le> b" "b < length its" "item_less it (its ! a)" for a b
  proof -
    have "ikey (its ! a) \<le> ikey (its ! b)"
      using sorted_nth_mono[OF assms(3) that(1)] that(1,2) by simp
    with that assms show ?thesis by (simp add: item_less_key)
  qed
  have "childIndex its it = length (takeWhile (\<lambda>x. \<not> item_less it x) its)"
    unfolding childIndex_def using mono by (rule sort_search_takeWhile)
  also have "takeWhile (\<lambda>x. \<not> item_less it x) its = takeWhile (\<lambda>x. ikey x \<le> ikey it) its"
    using assms by (intro takeWhile_cong) (auto simp: item_less_key)
  finally show ?thesis .
qed

lemma childIndex_le: "childIndex its it \<le> length its"
  by (simp add: childIndex_def sort_search_le)

lemma lowerBound_le: "lowerBound its it \<le> length its"
  by (simp add: lowerBound_def sort_search_le)

section \<open>The ordering invariant\<close>

text \<open>Bounds are keys, \<open>None\<close> for an open end. \<open>wfn h lo hi n\<close>: \<open>n\<close> has height \<open>h\<close>, its keys lie
  in \<open>lo \<le> k < hi\<close> and are ordered, separators bound the children on both sides
  (the comment at \<open>node\<close> in the source).\<close>

fun lob :: "(int \<times> string) option \<Rightarrow> int \<times> string \<Rightarrow> bool" where
  "lob None k = True" | "lob (Some l) k = (l \<le> k)"

fun hib :: "int \<times> string \<Rightarrow> (int \<times> string) option \<Rightarrow> bool" where
  "hib k None = True" | "hib k (Some h) = (k < h)"

fun hiw :: "int \<times> string \<Rightarrow> (int \<times> string) option \<Rightarrow> bool" where
  "hiw k None = True" | "hiw k (Some h) = (k \<le> h)"

definition sep_ok :: "(int \<times> string) option \<Rightarrow> item \<Rightarrow> (int \<times> string) option \<Rightarrow> bool" where
  "sep_ok lo s hi \<longleftrightarrow> item_ok s \<and> lob lo (ikey s) \<and> hiw (ikey s) hi"

fun wfs :: "((int \<times> string) option \<Rightarrow> (int \<times> string) option \<Rightarrow> 'n \<Rightarrow> bool) \<Rightarrow>
    (int \<times> string) option \<Rightarrow> item list \<Rightarrow> 'n list \<Rightarrow> (int \<times> string) option \<Rightarrow> bool" where
  "wfs W lo [] [c] hi = W lo hi c"
| "wfs W lo (s # ss) (c # cs) hi =
     (sep_ok lo s hi \<and> W lo (Some (ikey s)) c \<and> wfs W (Some (ikey s)) ss cs hi)"
| "wfs W lo _ _ hi = False"

definition leaf_ok :: "(int \<times> string) option \<Rightarrow> (int \<times> string) option \<Rightarrow> item list \<Rightarrow> bool" where
  "leaf_ok lo hi its \<longleftrightarrow> sorted_wrt (<) (keys its) \<and>
     (\<forall>x \<in> set its. item_ok x \<and> lob lo (ikey x) \<and> hib (ikey x) hi)"

fun wfn :: "nat \<Rightarrow> (int \<times> string) option \<Rightarrow> (int \<times> string) option \<Rightarrow> node \<Rightarrow> bool" where
  "wfn 0 lo hi (Leaf a its nx) = leaf_ok lo hi its"
| "wfn (Suc h) lo hi (Inner its cs) = wfs (wfn h) lo its cs hi"
| "wfn _ lo hi _ = False"

lemma lob_trans: "lob lo a \<Longrightarrow> a \<le> b \<Longrightarrow> lob lo b"
  by (cases lo) auto

lemma hiw_trans: "a \<le> b \<Longrightarrow> hiw b hi \<Longrightarrow> hiw a hi"
  by (cases hi) auto

lemma wfs_length: "wfs W lo its cs hi \<Longrightarrow> length cs = Suc (length its)"
  by (induction W lo its cs hi rule: wfs.induct) auto

lemma wfs_seps:
  "wfs W lo its cs hi \<Longrightarrow> sorted (keys its) \<and> (\<forall>s \<in> set its. sep_ok lo s hi)"
proof (induction W lo its cs hi rule: wfs.induct)
  case (2 W lo s ss c cs hi)
  then have IH: "sorted (keys ss)" "\<forall>x \<in> set ss. sep_ok (Some (ikey s)) x hi" by auto
  then have "\<forall>x \<in> set ss. ikey s \<le> ikey x" by (auto simp: sep_ok_def)
  moreover have "lob lo (ikey s)" using 2 by (auto simp: sep_ok_def)
  ultimately have "\<forall>x \<in> set ss. sep_ok lo x hi" using IH lob_trans by (auto simp: sep_ok_def)
  with 2 IH \<open>\<forall>x \<in> set ss. ikey s \<le> ikey x\<close> show ?case by auto
qed auto

text \<open>Bounds of the child between two groups of separators.\<close>

fun lbd :: "(int \<times> string) option \<Rightarrow> item list \<Rightarrow> (int \<times> string) option" where
  "lbd lo [] = lo" | "lbd lo (a # as) = lbd (Some (ikey a)) as"

fun ubd :: "item list \<Rightarrow> (int \<times> string) option \<Rightarrow> (int \<times> string) option" where
  "ubd [] hi = hi" | "ubd (b # bs) hi = Some (ikey b)"

text \<open>What the separators and children around a focused child contribute.\<close>

fun ctx :: "((int \<times> string) option \<Rightarrow> (int \<times> string) option \<Rightarrow> 'n \<Rightarrow> bool) \<Rightarrow>
    (int \<times> string) option \<Rightarrow> item list \<Rightarrow> 'n list \<Rightarrow> item list \<Rightarrow> 'n list \<Rightarrow>
    (int \<times> string) option \<Rightarrow> bool" where
  "ctx W lo (a # as) (c # As) bs Bs hi =
     (sep_ok lo a hi \<and> W lo (Some (ikey a)) c \<and> ctx W (Some (ikey a)) as As bs Bs hi)"
| "ctx W lo [] [] [] [] hi = True"
| "ctx W lo [] [] (b # bs) Bs hi = (sep_ok lo b hi \<and> wfs W (Some (ikey b)) bs Bs hi)"
| "ctx W lo _ _ _ _ hi = False"

lemma wfs_focus:
  "length As = length as \<Longrightarrow> length Bs = length bs \<Longrightarrow>
   wfs W lo (as @ bs) (As @ c # Bs) hi \<longleftrightarrow>
   ctx W lo as As bs Bs hi \<and> W (lbd lo as) (ubd bs hi) c"
proof (induction as arbitrary: lo As)
  case Nil
  then show ?case by (cases bs; cases Bs) auto
next
  case (Cons a as)
  then show ?case by (cases As) auto
qed

lemma wfs_focus2:
  "length As = length as \<Longrightarrow> length Bs = length bs \<Longrightarrow>
   wfs W lo (as @ s # bs) (As @ l # r # Bs) hi \<longleftrightarrow>
   ctx W lo as As bs Bs hi \<and> sep_ok (lbd lo as) s (ubd bs hi) \<and>
   W (lbd lo as) (Some (ikey s)) l \<and> W (Some (ikey s)) (ubd bs hi) r"
proof (induction as arbitrary: lo As)
  case Nil
  show ?case
  proof (cases bs)
    case Nil
    with \<open>length Bs = length bs\<close> \<open>length As = length []\<close> show ?thesis by auto
  next
    case (Cons b bs')
    then obtain c Bs' where "Bs = c # Bs'" using \<open>length Bs = length bs\<close> by (cases Bs) auto
    with Cons \<open>length As = length []\<close> show ?thesis
      by (auto simp: sep_ok_def intro: lob_trans hiw_trans)
  qed
next
  case (Cons a as)
  then show ?case by (cases As) auto
qed

lemma wfs_split:
  "length cs = Suc (length as) \<Longrightarrow>
   wfs W lo (as @ s # bs) (cs @ ds) hi \<longleftrightarrow>
   wfs W lo as cs (Some (ikey s)) \<and> sep_ok lo s hi \<and> wfs W (Some (ikey s)) bs ds hi"
proof (induction as arbitrary: lo cs)
  case Nil
  then obtain c where "cs = [c]" by (cases cs) auto
  then show ?case by auto
next
  case (Cons a as)
  then obtain c cs' where cs: "cs = c # cs'" "length cs' = Suc (length as)" by (cases cs) auto
  from Cons.IH[OF this(2), of "Some (ikey a)"] cs show ?case
    by (auto simp: sep_ok_def intro: lob_trans hiw_trans)
qed

lemma lbd_lower:
  "lob lo k \<Longrightarrow> \<forall>a \<in> set as. ikey a \<le> k \<Longrightarrow> lob (lbd lo as) k"
  by (induction as arbitrary: lo) auto

lemma child_focus:
  assumes wf: "wfs W lo its cs hi" and it: "item_ok it" "lob lo (ikey it)" "hib (ikey it) hi"
  obtains as bs As c Bs where "its = as @ bs" "cs = As @ c # Bs" "length as = childIndex its it"
    "length As = childIndex its it" "length Bs = length bs" "ctx W lo as As bs Bs hi"
    "W (lbd lo as) (ubd bs hi) c" "lob (lbd lo as) (ikey it)" "hib (ikey it) (ubd bs hi)"
proof -
  let ?ci = "childIndex its it"
  note seps = wfs_seps[OF wf]
  have ci: "?ci = length (takeWhile (\<lambda>x. ikey x \<le> ikey it) its)"
    using seps it(1) by (intro childIndex_key) (auto simp: sep_ok_def)
  define as where "as = takeWhile (\<lambda>x. ikey x \<le> ikey it) its"
  define bs where "bs = dropWhile (\<lambda>x. ikey x \<le> ikey it) its"
  have its: "its = as @ bs" by (simp add: as_def bs_def)
  have len: "length cs = Suc (length as + length bs)"
    using wfs_length[OF wf] its by simp
  define As c Bs where "As = take (length as) cs" and "c = cs ! length as"
    and "Bs = drop (Suc (length as)) cs"
  have cs: "cs = As @ c # Bs" "length As = length as" "length Bs = length bs"
    using len by (auto simp: As_def c_def Bs_def id_take_nth_drop)
  have "lob (lbd lo as) (ikey it)"
    using it(2) by (rule lbd_lower) (auto simp: as_def dest: set_takeWhileD)
  moreover have "hib (ikey it) (ubd bs hi)"
  proof (cases bs)
    case (Cons b bs')
    then have "\<not> ikey b \<le> ikey it" unfolding bs_def by (simp add: dropWhile_eq_Cons_conv)
    with Cons show ?thesis by simp
  qed (use it in simp)
  moreover have "ctx W lo as As bs Bs hi \<and> W (lbd lo as) (ubd bs hi) c"
    using wf wfs_focus[of As as Bs bs W lo c hi] its cs by simp
  moreover have la: "length as = ?ci" by (simp only: as_def ci)
  ultimately show thesis
    using that[OF its cs(1) la trans[OF cs(2) la] cs(3)] by blast
qed

section \<open>Insertion keeps the order\<close>

lemma leaf_ok_append:
  "leaf_ok lo hi (xs @ y # ys) \<Longrightarrow>
   leaf_ok lo (Some (ikey y)) xs \<and> leaf_ok (Some (ikey y)) hi (y # ys) \<and> sep_ok lo y hi"
  by (cases hi) (auto simp: leaf_ok_def sep_ok_def sorted_wrt_append)

lemma leaf_ok_join:
  "leaf_ok lo (Some k) xs \<Longrightarrow> leaf_ok (Some k) hi ys \<Longrightarrow> lob lo k \<Longrightarrow> hiw k hi \<Longrightarrow>
   leaf_ok lo hi (xs @ ys)"
  by (cases hi) (fastforce simp: leaf_ok_def sorted_wrt_append intro: lob_trans)+

lemma leaf_position:
  assumes lf: "leaf_ok lo hi its" and it: "item_ok it"
  defines "i \<equiv> lowerBound its it"
  shows "\<forall>x \<in> set (take i its). ikey x < ikey it" "\<forall>x \<in> set (drop i its). ikey it \<le> ikey x"
    "i < length its \<and> item_eq (its ! i) it \<longleftrightarrow> ikey it \<in> set (keys its)"
proof -
  have srt: "sorted (keys its)" using lf by (simp add: leaf_ok_def strict_sorted_imp_sorted)
  have ok: "\<forall>x \<in> set its. item_ok x" using lf by (simp add: leaf_ok_def)
  have i: "i = length (takeWhile (\<lambda>x. ikey x < ikey it) its)"
    unfolding i_def using ok it srt by (rule lowerBound_key)
  have tk: "take i its = takeWhile (\<lambda>x. ikey x < ikey it) its"
    unfolding i by (simp add: takeWhile_eq_take[symmetric])
  have dr: "drop i its = dropWhile (\<lambda>x. ikey x < ikey it) its"
    unfolding i by (simp add: dropWhile_eq_drop[symmetric])
  show 1: "\<forall>x \<in> set (take i its). ikey x < ikey it" unfolding tk by (auto dest: set_takeWhileD)
  show 2: "\<forall>x \<in> set (drop i its). ikey it \<le> ikey x"
  proof (cases "drop i its")
    case (Cons y ys)
    then have y: "ikey it \<le> ikey y" using dr by (metis dropWhile_eq_Cons_conv not_less)
    have "sorted (keys (drop i its))" using srt by (simp add: drop_map[symmetric] sorted_wrt_drop)
    with Cons y show ?thesis by auto
  qed simp
  show "i < length its \<and> item_eq (its ! i) it \<longleftrightarrow> ikey it \<in> set (keys its)"
  proof
    assume "i < length its \<and> item_eq (its ! i) it"
    then show "ikey it \<in> set (keys its)" using ok it item_eq_key by (metis image_eqI list.set_map nth_mem)
  next
    assume "ikey it \<in> set (keys its)"
    then obtain x where x: "x \<in> set its" "ikey x = ikey it" by auto
    have "x \<notin> set (take i its)" using 1 x by auto
    then have "x \<in> set (drop i its)" using x by (metis Un_iff append_take_drop_id set_append)
    then have lt: "i < length its" by (metis drop_all empty_iff list.set(1) not_le)
    have "ikey (its ! i) \<le> ikey x"
    proof -
      from \<open>x \<in> set (drop i its)\<close> obtain j where "j < length (drop i its)" "drop i its ! j = x"
        by (auto simp: in_set_conv_nth)
      then show ?thesis using sorted_nth_mono[OF srt, of i "i + j"] lt by simp
    qed
    moreover have "its ! i \<in> set (drop i its)" using lt by (metis Cons_nth_drop_Suc list.set_intros(1))
    ultimately have "ikey (its ! i) = ikey it" using 2 x by fastforce
    then show "i < length its \<and> item_eq (its ! i) it" using lt ok it by (simp add: item_eq_key)
  qed
qed

lemma leaf_ok_ins_at:
  assumes "leaf_ok lo hi its" "item_ok it" "lob lo (ikey it)" "hib (ikey it) hi"
    and "ikey it \<notin> set (keys its)"
  shows "leaf_ok lo hi (ins_at (lowerBound its it) it its)"
proof -
  define xs ys where "xs = take (lowerBound its it) its" and "ys = drop (lowerBound its it) its"
  have its: "its = xs @ ys" by (simp add: xs_def ys_def)
  have lf: "leaf_ok lo hi (xs @ ys)" using assms(1) its by simp
  have xs: "\<forall>x \<in> set xs. ikey x < ikey it"
    using leaf_position(1)[OF assms(1,2)] by (simp add: xs_def)
  have ys: "\<forall>x \<in> set ys. ikey it < ikey x"
  proof
    fix y assume y: "y \<in> set ys"
    then have "ikey it \<le> ikey y" using leaf_position(2)[OF assms(1,2)] unfolding ys_def by blast
    moreover have "ikey y \<noteq> ikey it" using assms(5) y its by (metis UnCI image_eqI list.set_map set_append)
    ultimately show "ikey it < ikey y" by simp
  qed
  have "leaf_ok lo hi (xs @ it # ys)"
    using lf xs ys assms(2-4) by (auto simp: leaf_ok_def sorted_wrt_append)
  then show ?thesis by (simp add: ins_at_def xs_def ys_def)
qed

text \<open>The two slice operations of an insertion at a focused child.\<close>

lemma focus_updates [simp]:
  "length as = n \<Longrightarrow> ins_at n s (as @ bs) = as @ s # bs"
  "length As = n \<Longrightarrow> (As @ c # Bs)[n := c'] = As @ c' # Bs"
  "length As = n \<Longrightarrow> (As @ c # Bs) ! n = c"
  by (auto simp: ins_at_def nth_append list_update_append)

lemma ins_at_Suc_focus [simp]:
  "length As = n \<Longrightarrow> ins_at (Suc n) r (As @ c # Bs) = As @ c # r # Bs"
  by (simp add: ins_at_def)

lemma wfs_cut:
  assumes "wfs W lo its cs hi" "mid < length its"
  shows "wfs W lo (take mid its) (take (mid + 1) cs) (Some (ikey (its ! mid)))"
    "sep_ok lo (its ! mid) hi"
    "wfs W (Some (ikey (its ! mid))) (drop (mid + 1) its) (drop (mid + 1) cs) hi"
proof -
  have "its = take mid its @ its ! mid # drop (Suc mid) its" using assms(2) by (rule id_take_nth_drop)
  moreover have "length (take (mid + 1) cs) = Suc (length (take mid its))"
    using wfs_length[OF assms(1)] assms(2) by simp
  moreover have "cs = take (mid + 1) cs @ drop (mid + 1) cs" by simp
  ultimately show
    "wfs W lo (take mid its) (take (mid + 1) cs) (Some (ikey (its ! mid)))"
    "sep_ok lo (its ! mid) hi"
    "wfs W (Some (ikey (its ! mid))) (drop (mid + 1) its) (drop (mid + 1) cs) hi"
    using wfs_split[of "take (mid + 1) cs" "take mid its" W lo "its ! mid" "drop (Suc mid) its"
        "drop (mid + 1) cs" hi] assms(1) by simp_all
qed

fun ins_post :: "nat \<Rightarrow> (int \<times> string) option \<Rightarrow> (int \<times> string) option \<Rightarrow>
    bool \<times> (item \<times> node) option \<times> node \<times> nat \<Rightarrow> bool" where
  "ins_post h lo hi (b, None, t', fr') = wfn h lo hi t'"
| "ins_post h lo hi (b, Some (s, r), t', fr') =
     (b \<and> sep_ok lo s hi \<and> wfn h lo (Some (ikey s)) t' \<and> wfn h (Some (ikey s)) hi r)"

lemma ins_leaf_post:
  assumes "leaf_ok lo hi its" "item_ok it" "lob lo (ikey it)" "hib (ikey it) hi"
  shows "ins_post 0 lo hi (ins fr (Leaf a its nx) it)"
proof (cases "ikey it \<in> set (keys its)")
  case True
  then show ?thesis using leaf_position(3)[OF assms(1,2)] assms(1) by (simp add: Let_def)
next
  case False
  let ?its = "ins_at (lowerBound its it) it its"
  have ok: "leaf_ok lo hi ?its" using assms False by (rule leaf_ok_ins_at)
  show ?thesis
  proof (cases "length ?its \<le> maxItems")
    case True
    with False ok leaf_position(3)[OF assms(1,2)] show ?thesis by (auto simp: Let_def)
  next
    case large: False
    define mid where "mid = length ?its div 2"
    have "mid < length ?its" using large by (simp add: mid_def)
    then have dr: "drop mid ?its = ?its ! mid # drop (Suc mid) ?its" by (simp add: Cons_nth_drop_Suc)
    then have "leaf_ok lo hi (take mid ?its @ ?its ! mid # drop (Suc mid) ?its)"
      using ok by (metis append_take_drop_id)
    from leaf_ok_append[OF this] dr large False leaf_position(3)[OF assms(1,2)]
    show ?thesis by (auto simp: Let_def mid_def simp del: length_ins_at)
  qed
qed

lemma ins_wf:
  "wfn h lo hi t \<Longrightarrow> item_ok it \<Longrightarrow> lob lo (ikey it) \<Longrightarrow> hib (ikey it) hi \<Longrightarrow>
   ins_post h lo hi (ins fr t it)"
proof (induction h arbitrary: lo hi t fr)
  case 0
  then obtain a its nx where "t = Leaf a its nx" by (cases t) auto
  with 0 show ?case using ins_leaf_post by simp
next
  case (Suc h)
  then obtain its cs where t: "t = Inner its cs" and w: "wfs (wfn h) lo its cs hi"
    by (cases t) auto
  from w Suc.prems(2-4) obtain as bs As c Bs where f: "its = as @ bs" "cs = As @ c # Bs"
    "length as = childIndex its it" "length As = childIndex its it" "length Bs = length bs"
    and cx: "ctx (wfn h) lo as As bs Bs hi" and c: "wfn h (lbd lo as) (ubd bs hi) c"
    and b: "lob (lbd lo as) (ikey it)" "hib (ikey it) (ubd bs hi)"
    by (rule child_focus)
  obtain bb sp c' fr' where r: "ins fr c it = (bb, sp, c', fr')" by (metis prod_cases4)
  have post: "ins_post h (lbd lo as) (ubd bs hi) (bb, sp, c', fr')"
    using Suc.IH[OF c Suc.prems(2) b, of fr] r by simp
  have lt: "length As < length cs" using f by simp
  show ?case
  proof (cases sp)
    case None
    then have "ins fr t it = (bb, None, Inner its (As @ c' # Bs), fr')"
      using t f lt r by (simp add: Let_def)
    moreover have "wfs (wfn h) lo its (As @ c' # Bs) hi"
      using wfs_focus[of As as Bs bs "wfn h" lo c' hi] f cx post None by simp
    ultimately show ?thesis by simp
  next
    case (Some sr)
    obtain s n where sr: "sr = (s, n)" by (cases sr)
    define its' cs' where "its' = as @ s # bs" and "cs' = As @ c' # n # Bs"
    have w': "wfs (wfn h) lo its' cs' hi"
      using wfs_focus2[of As as Bs bs "wfn h" lo s c' n hi] f cx post Some sr
      by (simp add: its'_def cs'_def)
    show ?thesis
    proof (cases "length its' \<le> maxItems")
      case True
      then have "ins fr t it = (True, None, Inner its' cs', fr')"
        using t f lt r Some sr by (simp add: Let_def its'_def cs'_def)
      with w' show ?thesis by simp
    next
      case False
      define mid where "mid = length its' div 2"
      have mid: "mid < length its'" using False by (simp add: mid_def)
      have "ins fr t it = (True, Some (its' ! mid, Inner (drop (mid + 1) its') (drop (mid + 1) cs')),
          Inner (take mid its') (take (mid + 1) cs'), fr')"
        using t f lt r Some sr False by (simp add: Let_def its'_def cs'_def mid_def)
      with wfs_cut[OF w' mid] show ?thesis by simp
    qed
  qed
qed

section \<open>What insertion does to the leaves\<close>

fun sp_leaves :: "(item \<times> node) option \<Rightarrow> (nat \<times> item list \<times> nat option) list" where
  "sp_leaves None = []"
| "sp_leaves (Some (s, r)) = leaves r"

text \<open>Exactly one leaf takes the item, and splits at most once.\<close>

definition leaf_step :: "nat \<Rightarrow> item \<Rightarrow> nat \<times> item list \<times> nat option \<Rightarrow>
    (nat \<times> item list \<times> nat option) list \<Rightarrow> nat \<Rightarrow> bool" where
  "leaf_step fr it l new fr' \<longleftrightarrow>
     (\<exists>a nx its1 its2. l = (a, its1 @ its2, nx) \<and>
        (new = [(a, its1 @ it # its2, nx)] \<and> fr' = fr \<or>
         (\<exists>p q. p @ q = its1 @ it # its2 \<and> new = [(a, p, Some fr), (fr, q, nx)] \<and> fr' = Suc fr)))"

lemma concat_map_cut: "concat (map f (take k xs)) @ concat (map f (drop k xs)) = concat (map f xs)"
  by (metis append_take_drop_id concat_append map_append)

lemma map_update_focus:
  assumes "ci < length cs"
  shows "map f cs = map f (take ci cs) @ f (cs ! ci) # map f (drop (Suc ci) cs)"
    "map f (cs[ci := c']) = map f (take ci cs) @ f c' # map f (drop (Suc ci) cs)"
    "map f (ins_at (Suc ci) r (cs[ci := c'])) = map f (take ci cs) @ f c' # f r # map f (drop (Suc ci) cs)"
proof -
  have cs: "cs = take ci cs @ cs ! ci # drop (Suc ci) cs" using assms by (rule id_take_nth_drop)
  have len: "length (take ci cs) = ci" using assms by simp
  show "map f cs = map f (take ci cs) @ f (cs ! ci) # map f (drop (Suc ci) cs)"
    by (subst cs) simp
  have up: "cs[ci := c'] = take ci cs @ c' # drop (Suc ci) cs" using assms by (simp add: upd_conv_take_nth_drop)
  then show "map f (cs[ci := c']) = map f (take ci cs) @ f c' # map f (drop (Suc ci) cs)" by simp
  have "ins_at (Suc ci) r (cs[ci := c']) = take ci cs @ c' # r # drop (Suc ci) cs"
    unfolding up using len by (rule ins_at_Suc_focus)
  then show "map f (ins_at (Suc ci) r (cs[ci := c'])) =
    map f (take ci cs) @ f c' # f r # map f (drop (Suc ci) cs)" by simp
qed

lemma ins_leaves:
  "ins fr t it = (b, sp, t', fr') \<Longrightarrow>
   (if b then \<exists>xs l ys new. leaves t = xs @ l # ys \<and> leaves t' @ sp_leaves sp = xs @ new @ ys \<and>
                leaf_step fr it l new fr'
    else leaves t' @ sp_leaves sp = leaves t \<and> fr' = fr)"
proof (induction fr t it arbitrary: b sp t' fr' rule: ins.induct)
  case (1 fr a its nx it)
  let ?i = "lowerBound its it"
  have tk: "its = take ?i its @ drop ?i its" by simp
  show ?case
  proof (cases b)
    case False
    with 1 show ?thesis by (auto simp: Let_def split: if_splits)
  next
    case True
    have "leaf_step fr it (a, its, nx) (leaves t' @ sp_leaves sp) fr'"
    proof (cases "length (ins_at ?i it its) \<le> maxItems")
      case small: True
      then have "leaves t' @ sp_leaves sp = [(a, take ?i its @ it # drop ?i its, nx)]" "fr' = fr"
        using 1 True by (auto simp: Let_def ins_at_def split: if_splits)
      then show ?thesis unfolding leaf_step_def using tk by blast
    next
      case False
      define mid where "mid = length (ins_at ?i it its) div 2"
      have "leaves t' @ sp_leaves sp =
          [(a, take mid (ins_at ?i it its), Some fr), (fr, drop mid (ins_at ?i it its), nx)]"
        "fr' = Suc fr"
        using 1 True False by (auto simp: Let_def mid_def split: if_splits)
      moreover have "take mid (ins_at ?i it its) @ drop mid (ins_at ?i it its) =
          take ?i its @ it # drop ?i its" by (simp only: append_take_drop_id ins_at_def)
      ultimately show ?thesis unfolding leaf_step_def using tk by blast
    qed
    then have "leaves (Leaf a its nx) = [] @ (a, its, nx) # [] \<and>
        leaves t' @ sp_leaves sp = [] @ (leaves t' @ sp_leaves sp) @ [] \<and>
        leaf_step fr it (a, its, nx) (leaves t' @ sp_leaves sp) fr'" by simp
    with True show ?thesis by metis
  qed
next
  case (2 fr its cs it)
  let ?ci = "childIndex its it"
  show ?case
  proof (cases "?ci < length cs")
    case False
    with "2.prems" show ?thesis by (auto simp: Let_def)
  next
    case ci: True
    obtain b' sp0 c' fr0 where r: "ins fr (cs ! ?ci) it = (b', sp0, c', fr0)" by (metis prod_cases4)
    define P Q where "P = concat (map leaves (take ?ci cs))" and "Q = concat (map leaves (drop (Suc ?ci) cs))"
    have before: "leaves (Inner its cs) = P @ leaves (cs ! ?ci) @ Q"
      by (simp add: map_update_focus(1)[OF ci] P_def Q_def)
    have after: "leaves t' @ sp_leaves sp = P @ (leaves c' @ sp_leaves sp0) @ Q \<and> b = b' \<and> fr' = fr0
      \<or> (\<exists>x. sp0 = Some x) \<and> b \<and> leaves t' @ sp_leaves sp = P @ (leaves c' @ sp_leaves sp0) @ Q \<and> fr' = fr0"
    proof (cases sp0)
      case None
      with "2.prems" ci r show ?thesis
        by (auto simp: Let_def map_update_focus(2)[OF ci] P_def Q_def)
    next
      case (Some sr)
      obtain s n where sr: "sr = (s, n)" by (cases sr)
      have all: "concat (map leaves (ins_at (Suc ?ci) n (cs[?ci := c']))) =
          P @ (leaves c' @ leaves n) @ Q"
        by (simp add: map_update_focus(3)[OF ci] P_def Q_def)
      have "leaves t' @ sp_leaves sp = concat (map leaves (ins_at (Suc ?ci) n (cs[?ci := c']))) \<and>
          b \<and> fr' = fr0"
        using "2.prems" ci r Some sr
        by (auto simp: Let_def concat_map_cut split: if_splits)
      with all Some sr show ?thesis by simp
    qed
    note IH = "2.IH"[OF refl ci r]
    have spb: "sp0 \<noteq> None \<Longrightarrow> b'"
      using r
      by (cases "cs ! ?ci") (auto simp: Let_def split: if_splits option.splits prod.splits)
    show ?thesis
    proof (cases b')
      case False
      then have "sp0 = None" using spb by blast
      with False IH after before show ?thesis by auto
    next
      case True
      then obtain xs l ys new where "leaves (cs ! ?ci) = xs @ l # ys"
        "leaves c' @ sp_leaves sp0 = xs @ new @ ys" "leaf_step fr it l new fr0"
        using IH by auto
      then have "leaves (Inner its cs) = (P @ xs) @ l # (ys @ Q) \<and>
          leaves t' @ sp_leaves sp = (P @ xs) @ new @ (ys @ Q) \<and> leaf_step fr it l new fr' \<and> b"
        using before after True by auto
      then show ?thesis by metis
    qed
  qed
qed

lemma leaf_ok_Nil [simp]: "leaf_ok lo hi []"
  by (simp add: leaf_ok_def)

lemma leaf_ok_weaken: "leaf_ok (Some k) hi xs \<Longrightarrow> lob lo k \<Longrightarrow> leaf_ok lo hi xs"
  by (cases lo) (auto simp: leaf_ok_def)

lemma wfs_concat:
  "(\<And>lo hi c. W lo hi c \<Longrightarrow> leaf_ok lo hi (f c)) \<Longrightarrow> wfs W lo its cs hi \<Longrightarrow>
   leaf_ok lo hi (concat (map f cs))"
proof (induction W lo its cs hi rule: wfs.induct)
  case (2 W lo s ss c cs hi)
  then have "leaf_ok lo (Some (ikey s)) (f c)" "leaf_ok (Some (ikey s)) hi (concat (map f cs))"
    "sep_ok lo s hi" by auto
  then show ?case by (auto simp: sep_ok_def intro: leaf_ok_join)
qed auto

lemma flat_Inner: "flat (Inner its cs) = concat (map flat cs)"
  by (induction cs) (auto simp: flat_def)

lemma flat_Leaf [simp]: "flat (Leaf a its nx) = its"
  by (simp add: flat_def)

lemma wfn_flat: "wfn h lo hi t \<Longrightarrow> leaf_ok lo hi (flat t)"
proof (induction h arbitrary: lo hi t)
  case 0
  then show ?case by (cases t) auto
next
  case (Suc h)
  then obtain its cs where "t = Inner its cs" "wfs (wfn h) lo its cs hi" by (cases t) auto
  with Suc.IH wfs_concat[of "wfn h" flat] show ?case by (simp add: flat_Inner)
qed

section \<open>Sizes\<close>

text \<open>\<open>szn m n\<close>: the node itself has at least \<open>m\<close> items, every node below at least \<open>minItems\<close>, all
  at most \<open>maxItems\<close>.\<close>

fun szn :: "nat \<Rightarrow> node \<Rightarrow> bool" where
  "szn m (Leaf a its nx) = (m \<le> length its \<and> length its \<le> maxItems)"
| "szn m (Inner its cs) =
     (m \<le> length its \<and> length its \<le> maxItems \<and> length cs = Suc (length its) \<and>
      (\<forall>c \<in> set cs. szn minItems c))"

declare maxItems_def [size_arith] minItems_def [size_arith]

lemma szn_mono: "szn m n \<Longrightarrow> k \<le> m \<Longrightarrow> szn k n"
  by (cases n) auto

fun ins_sz :: "nat \<Rightarrow> bool \<times> (item \<times> node) option \<times> node \<times> nat \<Rightarrow> bool" where
  "ins_sz m (b, None, t', fr') = szn m t'"
| "ins_sz m (b, Some (s, r), t', fr') = (szn minItems t' \<and> szn minItems r)"

lemma set_take_ins_at_update:
  "x \<in> set (take k (ins_at i r (cs[j := c']))) \<Longrightarrow> x \<in> set cs \<or> x = r \<or> x = c'"
  by (auto dest!: in_set_takeD set_update_subset_insert[THEN subsetD])

lemma set_drop_ins_at_update:
  "x \<in> set (drop k (ins_at i r (cs[j := c']))) \<Longrightarrow> x \<in> set cs \<or> x = r \<or> x = c'"
  by (auto dest!: in_set_dropD set_update_subset_insert[THEN subsetD])

lemma ins_szn: "szn m t \<Longrightarrow> m \<le> minItems \<Longrightarrow> ins_sz m (ins fr t it)"
proof (induction fr t it arbitrary: m rule: ins.induct)
  case (1 fr a its nx it)
  then show ?case by (auto simp: Let_def size_arith)
next
  case (2 fr its cs it)
  let ?ci = "childIndex its it"
  show ?case
  proof (cases "?ci < length cs")
    case False
    with 2 show ?thesis by (auto simp: Let_def)
  next
    case ci: True
    obtain b sp c' fr' where r: "ins fr (cs ! ?ci) it = (b, sp, c', fr')" by (metis prod_cases4)
    have "szn minItems (cs ! ?ci)" using "2.prems" ci by auto
    then have post: "ins_sz minItems (b, sp, c', fr')" using "2.IH"[OF refl ci, of minItems] r by simp
    show ?thesis
    proof (cases sp)
      case None
      have "\<forall>c \<in> set (cs[?ci := c']). szn minItems c"
        using None post "2.prems" by (auto dest!: set_update_subset_insert[THEN subsetD])
      with None ci r "2.prems" show ?thesis by (simp add: Let_def)
    next
      case (Some sr)
      obtain s n where sr: "sr = (s, n)" by (cases sr)
      have ok: "\<forall>c \<in> set (ins_at (?ci + 1) n (cs[?ci := c'])). szn minItems c"
        using Some sr post "2.prems" by (auto dest!: set_update_subset_insert[THEN subsetD])
      show ?thesis
      proof (cases "length (ins_at ?ci s its) \<le> maxItems")
        case True
        with Some sr ci r ok "2.prems" show ?thesis by (simp add: Let_def)
      next
        case False
        have tk: "\<forall>c \<in> set (take k (ins_at (?ci + 1) n (cs[?ci := c']))). szn minItems c"
          and dr: "\<forall>c \<in> set (drop k (ins_at (?ci + 1) n (cs[?ci := c']))). szn minItems c" for k
          using ok by (meson in_set_takeD in_set_dropD)+
        have "length its = 64" using False "2.prems" by (simp add: size_arith)
        with False Some sr ci r "2.prems" tk dr show ?thesis
          by (simp add: Let_def size_arith)
      qed
    qed
  qed
qed

section \<open>The leaf chain\<close>

fun chained :: "(nat \<times> item list \<times> nat option) list \<Rightarrow> nat option \<Rightarrow> bool" where
  "chained [] e = True"
| "chained [(a, its, nx)] e = (nx = e)"
| "chained ((a, its, nx) # l # ls) e = (nx = Some (fst l) \<and> chained (l # ls) e)"

definition chain_ok :: "(nat \<times> item list \<times> nat option) list \<Rightarrow> nat \<Rightarrow> bool" where
  "chain_ok L fr \<longleftrightarrow> L \<noteq> [] \<and> chained L None \<and> distinct (map fst L) \<and> (\<forall>l \<in> set L. fst l < fr)"

lemma chained_append:
  "ys \<noteq> [] \<Longrightarrow> chained (xs @ ys) e \<longleftrightarrow> chained xs (Some (fst (hd ys))) \<and> chained ys e"
proof (induction xs e rule: chained.induct)
  case (2 a its nx e)
  then show ?case by (cases ys) auto
qed auto

lemma chained_hd_cong: "chained xs (if ys = [] then e else Some (fst (hd ys))) \<and> chained ys e
    \<longleftrightarrow> chained (xs @ ys) e"
  by (cases "ys = []") (auto simp: chained_append)

lemma leaf_step_chain:
  assumes "chain_ok (xs @ l # ys) fr" "leaf_step fr it l new fr'"
  shows "chain_ok (xs @ new @ ys) fr'"
proof -
  obtain a nx its1 its2 where l: "l = (a, its1 @ its2, nx)"
    and n: "new = [(a, its1 @ it # its2, nx)] \<and> fr' = fr \<or>
         (\<exists>p q. p @ q = its1 @ it # its2 \<and> new = [(a, p, Some fr), (fr, q, nx)] \<and> fr' = Suc fr)"
    using assms(2) by (auto simp: leaf_step_def)
  define e where "e = (if ys = [] then None else Some (fst (hd ys)))"
  have old: "chained xs (Some a)" "nx = e" "chained ys None"
    using assms(1) l by (cases ys; auto simp: chain_ok_def chained_append e_def)+
  have "chained (xs @ new @ ys) None"
    using n old by (cases ys) (auto simp: chained_append e_def)
  moreover have "distinct (map fst (xs @ new @ ys)) \<and> (\<forall>l \<in> set (xs @ new @ ys). fst l < fr')"
    using n
  proof (elim disjE exE conjE)
    assume "new = [(a, its1 @ it # its2, nx)]" "fr' = fr"
    then show ?thesis using assms(1) l by (simp add: chain_ok_def)
  next
    fix p q assume "new = [(a, p, Some fr), (fr, q, nx)]" "fr' = Suc fr"
    then show ?thesis using assms(1) l by (auto simp: chain_ok_def less_Suc_eq)
  qed
  moreover have "new \<noteq> []" using n by auto
  ultimately show ?thesis by (simp add: chain_ok_def)
qed

lemma leaf_step_flat:
  assumes "leaf_step fr it l new fr'"
  obtains A B where "(\<lambda>(a, its, nx). its) l = A @ B"
    "concat (map (\<lambda>(a, its, nx). its) new) = A @ it # B"
  using assms unfolding leaf_step_def by fastforce

section \<open>Deletion: two adjacent siblings\<close>

lemma borrow_left_wf:
  assumes "wfn h L (Some (ikey s)) l" "wfn h (Some (ikey s)) U r" "sep_ok L s U" "nitems l \<noteq> []"
    and "borrow_left l r s = (l', s', r')"
  shows "wfn h L (Some (ikey s')) l' \<and> wfn h (Some (ikey s')) U r' \<and> sep_ok L s' U"
proof (cases h)
  case 0
  obtain a xs nx b ys ny where lr: "l = Leaf a xs nx" "r = Leaf b ys ny"
    using assms(1,2) 0 by (cases l; cases r) auto
  obtain zs z where xs: "xs = zs @ [z]" using assms(4) lr by (cases xs rule: rev_cases) auto
  have res: "l' = Leaf a zs nx" "s' = z" "r' = Leaf b (z # ys) ny"
    using assms(5) lr xs by (auto simp: Let_def ins_at_def del_at_def)
  have "leaf_ok L U (xs @ ys)"
    using assms(1-3) lr 0 by (auto simp: sep_ok_def intro: leaf_ok_join)
  then have "leaf_ok L U (zs @ z # ys)" using xs by simp
  from leaf_ok_append[OF this] show ?thesis using res 0 by simp
next
  case (Suc k)
  obtain xs cs ys ds where lr: "l = Inner xs cs" "r = Inner ys ds"
    using assms(1,2) Suc by (cases l; cases r) auto
  obtain zs z where xs: "xs = zs @ [z]" using assms(4) lr by (cases xs rule: rev_cases) auto
  have wl: "wfs (wfn k) L (zs @ z # []) cs (Some (ikey s))" using assms(1) lr Suc xs by simp
  have len: "length cs = Suc (Suc (length zs))" using wfs_length[OF wl] by simp
  then obtain es e where cs: "cs = es @ [e]" "length es = Suc (length zs)"
    by (cases cs rule: rev_cases) auto
  have res: "l' = Inner zs es" "s' = z" "r' = Inner (s # ys) (e # ds)"
    using assms(5) lr xs cs by (auto simp: Let_def ins_at_def del_at_def nth_append)
  have sp: "wfs (wfn k) L zs es (Some (ikey z)) \<and> sep_ok L z (Some (ikey s)) \<and>
      wfs (wfn k) (Some (ikey z)) [] [e] (Some (ikey s))"
    using wl wfs_split[OF cs(2), of "wfn k" L z "[]" "[e]" "Some (ikey s)"] cs(1) by simp
  moreover have "sep_ok L z U" "sep_ok (Some (ikey z)) s U"
    using sp assms(3) by (auto simp: sep_ok_def intro: hiw_trans)
  ultimately show ?thesis using res Suc assms(2) lr by simp
qed

lemma borrow_right_wf:
  assumes "wfn h L (Some (ikey s)) l" "wfn h (Some (ikey s)) U r" "sep_ok L s U"
    and "2 \<le> length (nitems r)" "borrow_right l r s = (l', s', r')"
  shows "wfn h L (Some (ikey s')) l' \<and> wfn h (Some (ikey s')) U r' \<and> sep_ok L s' U"
proof (cases h)
  case 0
  obtain a xs nx b ys ny where lr: "l = Leaf a xs nx" "r = Leaf b ys ny"
    using assms(1,2) 0 by (cases l; cases r) auto
  obtain y z zs where ys: "ys = y # z # zs"
    using assms(4) lr by (cases ys; cases "tl ys") auto
  have res: "l' = Leaf a (xs @ [y]) nx" "s' = z" "r' = Leaf b (z # zs) ny"
    using assms(5) lr ys by (auto simp: Let_def del_at_def)
  have "leaf_ok L U (xs @ ys)"
    using assms(1-3) lr 0 by (auto simp: sep_ok_def intro: leaf_ok_join)
  then have "leaf_ok L U ((xs @ [y]) @ z # zs)" using ys by simp
  from leaf_ok_append[OF this] show ?thesis using res 0 by simp
next
  case (Suc k)
  obtain xs cs ys ds where lr: "l = Inner xs cs" "r = Inner ys ds"
    using assms(1,2) Suc by (cases l; cases r) auto
  obtain z zs where ys: "ys = z # zs" using assms(4) lr by (cases ys) auto
  have wr: "wfs (wfn k) (Some (ikey s)) (z # zs) ds U" using assms(2) lr Suc ys by simp
  then obtain d es where ds: "ds = d # es" using wfs_length[OF wr] by (cases ds) auto
  have res: "l' = Inner (xs @ [s]) (cs @ [d])" "s' = z" "r' = Inner zs es"
    using assms(5) lr ys ds by (auto simp: del_at_def)
  have wz: "sep_ok (Some (ikey s)) z U" "wfn k (Some (ikey s)) (Some (ikey z)) d"
    "wfs (wfn k) (Some (ikey z)) zs es U"
    using wr ds by auto
  have wl: "wfs (wfn k) L xs cs (Some (ikey s))" using assms(1) lr Suc by simp
  have "wfs (wfn k) L (xs @ s # []) (cs @ [d]) (Some (ikey z))"
    using wfs_split[of cs xs "wfn k" L s "[]" "[d]" "Some (ikey z)"] wfs_length[OF wl] wl wz assms(3)
    by (auto simp: sep_ok_def)
  moreover have "sep_ok L z U" using wz(1) assms(3) by (auto simp: sep_ok_def intro: lob_trans)
  ultimately show ?thesis using res Suc wz by simp
qed

lemma merge_wf:
  assumes "wfn h L (Some (ikey s)) l" "wfn h (Some (ikey s)) U r" "sep_ok L s U"
  shows "wfn h L U (merge_nodes l r s)"
proof (cases h)
  case 0
  then show ?thesis using assms
    by (cases l; cases r) (auto simp: sep_ok_def intro: leaf_ok_join)
next
  case (Suc k)
  obtain xs cs ys ds where lr: "l = Inner xs cs" "r = Inner ys ds"
    using assms(1,2) Suc by (cases l; cases r) auto
  have wl: "wfs (wfn k) L xs cs (Some (ikey s))" using assms(1) lr Suc by simp
  show ?thesis
    using wfs_split[of cs xs "wfn k" L s ys ds U] wfs_length[OF wl] wl assms(2,3) lr Suc by simp
qed

text \<open>What the leaves below two adjacent siblings become.\<close>

inductive adj :: "(nat \<times> item list \<times> nat option) list \<Rightarrow> (nat \<times> item list \<times> nat option) list \<Rightarrow> bool" where
  adj_refl: "adj L L"
| adj_borrow: "p' @ q' = p @ q \<Longrightarrow> adj [(a, p, nx), (b, q, ny)] [(a, p', nx), (b, q', ny)]"
| adj_merge: "adj [(a, p, nx), (b, q, ny)] [(a, p @ q, ny)]"

lemma adj_flat: "adj L L' \<Longrightarrow>
    concat (map (\<lambda>(a, its, nx). its) L') = concat (map (\<lambda>(a, its, nx). its) L)"
  by (induction rule: adj.induct) auto

lemma chained_last: "chained (xs @ [(a, p, nx)]) e \<longleftrightarrow> chained xs (Some a) \<and> nx = e"
  by (auto simp: chained_append)

lemma adj_chain:
  "adj L L' \<Longrightarrow> chain_ok (X @ L @ Y) fr \<Longrightarrow> chain_ok (X @ L' @ Y) fr"
proof (induction rule: adj.induct)
  case (adj_borrow p' q' p q a nx b ny)
  then show ?case by (cases Y) (auto simp: chain_ok_def chained_append)
next
  case (adj_merge a p nx b q ny)
  then show ?case by (cases Y) (auto simp: chain_ok_def chained_append)
qed

lemma borrow_left_adj:
  assumes "wfn h L S l" "wfn h S' U r" "nitems l \<noteq> []" "borrow_left l r s = (l', s', r')"
  shows "adj (leaves l @ leaves r) (leaves l' @ leaves r')"
proof (cases h)
  case 0
  obtain a xs nx b ys ny where lr: "l = Leaf a xs nx" "r = Leaf b ys ny"
    using assms(1,2) 0 by (cases l; cases r) auto
  obtain zs z where xs: "xs = zs @ [z]" using assms(3) lr by (cases xs rule: rev_cases) auto
  show ?thesis
    using assms(4) lr xs by (auto simp: Let_def ins_at_def del_at_def intro!: adj_borrow)
next
  case (Suc k)
  obtain xs cs ys ds where lr: "l = Inner xs cs" "r = Inner ys ds"
    using assms(1,2) Suc by (cases l; cases r) auto
  obtain zs z where xs: "xs = zs @ [z]" using assms(3) lr by (cases xs rule: rev_cases) auto
  have "length cs = Suc (Suc (length zs))"
    using assms(1) lr Suc xs wfs_length[of "wfn k" L "zs @ [z]" cs S] by simp
  then obtain es e where cs: "cs = es @ [e]" "length es = Suc (length zs)"
    by (cases cs rule: rev_cases) auto
  have "leaves l' @ leaves r' = leaves l @ leaves r"
    using assms(4) lr xs cs by (auto simp: Let_def ins_at_def del_at_def nth_append)
  then show ?thesis using adj_refl by simp
qed

lemma borrow_right_adj:
  assumes "wfn h L S l" "wfn h S' U r" "nitems r \<noteq> []" "borrow_right l r s = (l', s', r')"
  shows "adj (leaves l @ leaves r) (leaves l' @ leaves r')"
proof (cases h)
  case 0
  obtain a xs nx b ys ny where lr: "l = Leaf a xs nx" "r = Leaf b ys ny"
    using assms(1,2) 0 by (cases l; cases r) auto
  then obtain z zs where ys: "ys = z # zs" using assms(3) by (cases ys) auto
  show ?thesis
    using assms(4) lr ys by (auto simp: Let_def del_at_def intro!: adj_borrow)
next
  case (Suc k)
  obtain xs cs ys ds where lr: "l = Inner xs cs" "r = Inner ys ds"
    using assms(1,2) Suc by (cases l; cases r) auto
  then have "ds \<noteq> []" using assms(2) Suc wfs_length[of "wfn k" S' ys ds U] by auto
  then obtain e es where ds: "ds = e # es" by (cases ds) auto
  have "leaves l' @ leaves r' = leaves l @ leaves r"
    using assms(4) lr ds by (auto simp: del_at_def)
  then show ?thesis using adj_refl by simp
qed

lemma merge_adj:
  assumes "wfn h L S l" "wfn h S' U r"
  shows "adj (leaves l @ leaves r) (leaves (merge_nodes l r s))"
  using assms by (cases h; cases l; cases r) (auto intro: adj_merge adj_refl)

section \<open>Rebalancing a child after a deletion\<close>

text \<open>The three outcomes of \<open>rebalance\<close> at the pair of siblings \<open>l\<close>, \<open>r\<close> separated by \<open>s\<close>.\<close>

inductive reb :: "node \<Rightarrow> item \<Rightarrow> node \<Rightarrow> bool \<Rightarrow> item list \<Rightarrow> node list \<Rightarrow> bool" where
  reb_left: "minItems < length (nitems l) \<Longrightarrow> borrow_left l r s = (l', s', r') \<Longrightarrow>
     reb l s r True [s'] [l', r']"
| reb_right: "minItems < length (nitems r) \<Longrightarrow> borrow_right l r s = (l', s', r') \<Longrightarrow>
     reb l s r False [s'] [l', r']"
| reb_merge: "length (nitems (if b then l else r)) \<le> minItems \<Longrightarrow>
     reb l s r b [] [merge_nodes l r s]"

inductive_cases reb_elim: "reb l s r b ss ns"

lemma pair_split:
  assumes "length cs = Suc (length its)" "i < length its"
  obtains as s bs As l r Bs where "its = as @ s # bs" "cs = As @ l # r # Bs" "length as = i"
    "length As = i" "length Bs = length bs" "l = cs ! i" "r = cs ! Suc i"
proof -
  have "its = take i its @ its ! i # drop (Suc i) its" using assms(2) by (rule id_take_nth_drop)
  moreover have "cs = take i cs @ cs ! i # drop (Suc i) cs" using assms by (intro id_take_nth_drop) simp
  moreover have "drop (Suc i) cs = cs ! Suc i # drop (Suc (Suc i)) cs"
    using assms by (simp add: Cons_nth_drop_Suc)
  ultimately show thesis
    using assms by (intro that[of "take i its" "its ! i" "drop (Suc i) its" "take i cs" "cs ! i"
          "cs ! Suc i" "drop (Suc (Suc i)) cs"]) simp_all
qed

lemma pair_updates [simp]:
  "length as = i \<Longrightarrow> (as @ s # bs) ! i = s"
  "length as = i \<Longrightarrow> (as @ s # bs)[i := s'] = as @ s' # bs"
  "length as = i \<Longrightarrow> del_at i (as @ s # bs) = as @ bs"
  "length As = i \<Longrightarrow> (As @ l # r # Bs) ! Suc i = r"
  "length As = i \<Longrightarrow> (As @ l # r # Bs)[Suc i := r'] = As @ l # r' # Bs"
  "length As = i \<Longrightarrow> del_at (Suc i) (As @ m # r # Bs) = As @ m # Bs"
  by (auto simp: nth_append list_update_append del_at_def)

lemma rebalance_reb:
  assumes len: "length cs = Suc (length its)" "0 < length its" and ci: "ci < length cs"
  obtains as s bs As l r Bs side ss ns where "its = as @ s # bs" "cs = As @ l # r # Bs"
    "length As = length as" "length Bs = length bs" "ci = length as + (if side then 1 else 0)"
    "reb l s r side ss ns" "rebalance its cs ci = (as @ ss @ bs, As @ ns @ Bs)"
proof (cases "0 < ci")
  case True
  then obtain i where i: "ci = Suc i" by (cases ci) auto
  then have "i < length its" using ci len by simp
  with len(1) obtain as s bs As l r Bs where d: "its = as @ s # bs" "cs = As @ l # r # Bs"
    "length as = i" "length As = i" "length Bs = length bs" "l = cs ! i" "r = cs ! Suc i"
    by (rule pair_split)
  show thesis
  proof (cases "minItems < length (nitems l)")
    case big: True
    obtain l' s' r' where b: "borrow_left l r s = (l', s', r')" by (metis prod_cases3)
    show thesis
      using that[of as s bs As l r Bs True "[s']" "[l', r']"] d(1-5) b i reb_left[OF big b] big
      by (simp add: rebalance_def)
  next
    case small: False
    have small_c: "\<not> minItems < length (nitems (cs ! (ci - 1)))" using small d(6) i by simp
    show thesis
    proof (cases "ci < length cs - 1 \<and> minItems < length (nitems (cs ! (ci + 1)))")
      case False
      have "reb l s r True [] [merge_nodes l r s]" using small by (intro reb_merge) simp
      moreover have "rebalance its cs ci = bt_merge its cs i"
        using small_c False i by (auto simp: rebalance_def)
      ultimately show thesis
        using that[of as s bs As l r Bs True "[]" "[merge_nodes l r s]"] d(1-5) i
        by (simp add: bt_merge_def)
    next
      case right: True
      then have "ci < length its" using len by simp
      with len(1) obtain as s bs As l r Bs where d: "its = as @ s # bs" "cs = As @ l # r # Bs"
        "length as = ci" "length As = ci" "length Bs = length bs" "l = cs ! ci" "r = cs ! Suc ci"
        by (rule pair_split)
      obtain l' s' r' where b: "borrow_right l r s = (l', s', r')" by (metis prod_cases3)
      have big: "minItems < length (nitems r)" using right d(7) by simp
      have "rebalance its cs ci = (as @ [s'] @ bs, As @ [l', r'] @ Bs)"
        using d(1-5) b right small_c by (simp add: rebalance_def)
      then show thesis
        by (intro that[OF d(1,2) _ d(5) _ reb_right[OF big b]]) (simp_all only: d(3,4) if_False add_0_right)
    qed
  qed
next
  case False
  then have "ci < length its" using len by simp
  with len(1) obtain as s bs As l r Bs where d: "its = as @ s # bs" "cs = As @ l # r # Bs"
    "length as = ci" "length As = ci" "length Bs = length bs" "l = cs ! ci" "r = cs ! Suc ci"
    by (rule pair_split)
  show thesis
  proof (cases "minItems < length (nitems r)")
    case big: True
    obtain l' s' r' where b: "borrow_right l r s = (l', s', r')" by (metis prod_cases3)
    have "rebalance its cs ci = (as @ [s'] @ bs, As @ [l', r'] @ Bs)"
      using d(1-5) b big False by (simp add: rebalance_def)
    then show thesis
      by (intro that[OF d(1,2) _ d(5) _ reb_right[OF big b]]) (simp_all only: d(3,4) if_False add_0_right)
  next
    case small: False
    have "reb l s r False [] [merge_nodes l r s]" using small by (intro reb_merge) simp
    moreover have "rebalance its cs ci = bt_merge its cs ci"
      using False small d(7) by (auto simp: rebalance_def)
    moreover have "bt_merge its cs ci = (as @ [] @ bs, As @ [merge_nodes l r s] @ Bs)"
      using d(1-5) by (simp add: bt_merge_def)
    ultimately show thesis
      by (intro that[OF d(1,2) _ d(5)]) (simp_all only: d(3,4) if_False add_0_right)
  qed
qed

lemma reb_wf:
  assumes "reb l s r side ss ns" "length As = length as" "length Bs = length bs"
    and "wfs (wfn h) lo (as @ s # bs) (As @ l # r # Bs) hi"
  shows "wfs (wfn h) lo (as @ ss @ bs) (As @ ns @ Bs) hi"
proof -
  have f: "ctx (wfn h) lo as As bs Bs hi" "sep_ok (lbd lo as) s (ubd bs hi)"
    "wfn h (lbd lo as) (Some (ikey s)) l" "wfn h (Some (ikey s)) (ubd bs hi) r"
    using assms(4) wfs_focus2[OF assms(2,3)] by simp_all
  from assms(1) show ?thesis
  proof (cases rule: reb.cases)
    case (reb_left l' s' r')
    have "nitems l \<noteq> []" using reb_left by (auto simp: size_arith)
    from borrow_left_wf[OF f(3,4,2) this reb_left(5)] show ?thesis
      using f(1) reb_left wfs_focus2[OF assms(2,3), of "wfn h" lo s' l' r' hi] by simp
  next
    case (reb_right l' s' r')
    have "2 \<le> length (nitems r)" using reb_right by (auto simp: size_arith)
    from borrow_right_wf[OF f(3,4,2) this reb_right(5)] show ?thesis
      using f(1) reb_right wfs_focus2[OF assms(2,3), of "wfn h" lo s' l' r' hi] by simp
  next
    case reb_merge
    from merge_wf[OF f(3,4,2)] show ?thesis
      using f(1) reb_merge wfs_focus[OF assms(2,3), of "wfn h" lo "merge_nodes l r s" hi] by simp
  qed
qed

lemma reb_adj:
  assumes "reb l s r side ss ns" "wfn h L S l" "wfn h S' U r"
  shows "adj (leaves l @ leaves r) (concat (map leaves ns))"
  using assms(1)
proof (cases rule: reb.cases)
  case (reb_left l' s' r')
  have "nitems l \<noteq> []" using reb_left by (auto simp: size_arith)
  from borrow_left_adj[OF assms(2,3) this] reb_left show ?thesis by simp
next
  case (reb_right l' s' r')
  have "nitems r \<noteq> []" using reb_right by (auto simp: size_arith)
  from borrow_right_adj[OF assms(2,3) this] reb_right show ?thesis by simp
next
  case reb_merge
  with merge_adj[OF assms(2,3)] show ?thesis by simp
qed

lemma szn_raise: "szn k n \<Longrightarrow> m \<le> length (nitems n) \<Longrightarrow> szn m n"
  by (cases n) auto

lemma szn_bounds: "szn k n \<Longrightarrow> k \<le> length (nitems n) \<and> length (nitems n) \<le> maxItems"
  by (cases n) auto

lemma wfn_is_leaf: "wfn h lo hi n \<Longrightarrow> is_leaf n \<longleftrightarrow> h = 0"
  by (cases h; cases n) auto

lemma set_del_at_subset: "set (del_at i xs) \<subseteq> set xs"
  by (auto simp: del_at_def dest: in_set_takeD in_set_dropD)

lemma reb_szn:
  assumes "reb l s r side ss ns" "is_leaf l = is_leaf r"
    and "szn (if side then minItems else minItems - 1) l"
    and "szn (if side then minItems - 1 else minItems) r"
    and "length (nitems (if side then r else l)) < minItems"
  shows "(\<forall>n \<in> set ns. szn minItems n) \<and> length ns = Suc (length ss) \<and> length ss \<le> 1"
  using assms(1)
proof (cases rule: reb.cases)
  case (reb_left l' s' r')
  then have l: "szn minItems l" and r: "szn (minItems - 1) r" and small: "length (nitems r) < minItems"
    using assms(3-5) by auto
  show ?thesis
  proof (cases l)
    case (Leaf a xs nx)
    then obtain b ys ny where "r = Leaf b ys ny" using assms(2) by (cases r) auto
    with Leaf reb_left l r small show ?thesis by (auto simp: Let_def size_arith)
  next
    case (Inner xs cs)
    then obtain ys ds where r': "r = Inner ys ds" using assms(2) by (cases r) auto
    have cs: "\<forall>c \<in> set cs. szn minItems c" "length cs = Suc (length xs)" "minItems < length xs"
      using l Inner reb_left by auto
    then have "cs ! Suc (length xs - 1) \<in> set cs" by (intro nth_mem) (auto simp: size_arith)
    with cs have "szn minItems (cs ! Suc (length xs - 1))" by blast
    moreover have "\<forall>c \<in> set (del_at (Suc (length xs - 1)) cs). szn minItems c"
      using cs(1) set_del_at_subset by (meson subsetD)
    moreover have lr': "l' = Inner (del_at (length xs - 1) xs) (del_at (Suc (length xs - 1)) cs)"
      "r' = Inner (ins_at 0 s ys) (ins_at 0 (cs ! Suc (length xs - 1)) ds)"
      using reb_left(5) Inner r' by (auto simp: Let_def)
    moreover have "minItems \<le> length xs - 1" "length xs - 1 \<le> maxItems" "0 < length xs"
      "length cs - 1 = Suc (length xs - 1)"
      using l Inner cs by (auto simp: size_arith)
    ultimately have "szn minItems l'" using cs(2) by simp
    moreover have "minItems \<le> Suc (length ys)" "Suc (length ys) \<le> maxItems"
      "length ds = Suc (length ys)" "\<forall>c \<in> set ds. szn minItems c"
      using r r' small by (auto simp: size_arith)
    then have "szn minItems r'" using lr'(2) \<open>szn minItems (cs ! Suc (length xs - 1))\<close> by simp
    ultimately show ?thesis using reb_left by simp
  qed
next
  case (reb_right l' s' r')
  then have l: "szn (minItems - 1) l" and r: "szn minItems r" and small: "length (nitems l) < minItems"
    using assms(3-5) by auto
  show ?thesis
  proof (cases l)
    case (Leaf a xs nx)
    then obtain b ys ny where "r = Leaf b ys ny" using assms(2) by (cases r) auto
    with Leaf reb_right l r small show ?thesis by (auto simp: Let_def size_arith)
  next
    case (Inner xs cs)
    then obtain ys ds where r': "r = Inner ys ds" using assms(2) by (cases r) auto
    have ds: "\<forall>c \<in> set ds. szn minItems c" "length ds = Suc (length ys)" "minItems < length ys"
      using r r' reb_right by auto
    then have "szn minItems (ds ! 0)" by (metis nth_mem zero_less_Suc)
    moreover have "\<forall>c \<in> set (del_at 0 ds). szn minItems c"
      using ds(1) set_del_at_subset by (meson subsetD)
    ultimately show ?thesis
      using Inner r' reb_right l r small by (auto simp: Let_def size_arith)
  qed
next
  case reb_merge
  then show ?thesis using assms(2-5)
    by (cases l; cases r; cases side) (auto simp: size_arith)
qed

lemma lbd_lob: "ctx W lo as As bs Bs hi \<Longrightarrow> lob (lbd lo as) k \<Longrightarrow> lob lo k"
proof (induction as arbitrary: lo As)
  case (Cons a as)
  then obtain c As' where As: "As = c # As'" by (cases As) auto
  with Cons.IH[of "Some (ikey a)" As'] Cons.prems have "ikey a \<le> k" "lob lo (ikey a)"
    by (auto simp: sep_ok_def)
  then show ?case by (metis lob_trans)
qed simp

lemma ctx_bounds:
  assumes "\<And>lo hi c. W lo hi c \<Longrightarrow> leaf_ok lo hi (f c)"
  shows "ctx W lo as As bs Bs hi \<Longrightarrow> lob (lbd lo as) k \<Longrightarrow> hib k (ubd bs hi) \<Longrightarrow>
    (\<forall>x \<in> set (concat (map f As)). ikey x < k) \<and> (\<forall>x \<in> set (concat (map f Bs)). k < ikey x)"
proof (induction as arbitrary: lo As)
  case Nil
  then show ?case
  proof (cases bs)
    case (Cons b bs')
    then have "As = []" and w: "wfs W (Some (ikey b)) bs' Bs hi" using Nil by (cases As; auto)+
    have "leaf_ok (Some (ikey b)) hi (concat (map f Bs))" by (rule wfs_concat[OF assms w])
    then have "\<forall>x \<in> set (concat (map f Bs)). ikey b \<le> ikey x" by (simp add: leaf_ok_def)
    moreover have kb: "k < ikey b" using Nil(3) Cons by simp
    ultimately have "\<forall>x \<in> set (concat (map f Bs)). k < ikey x" by (meson less_le_trans)
    then show ?thesis using \<open>As = []\<close> by simp
  qed (cases As; cases Bs; auto)
next
  case (Cons a as)
  then obtain c As' where As: "As = c # As'" by (cases As) auto
  have "lob (Some (ikey a)) k" using Cons.prems As lbd_lob[of W "Some (ikey a)" as As' bs Bs hi k] by simp
  moreover have "leaf_ok lo (Some (ikey a)) (f c)" using Cons.prems As assms by auto
  ultimately have "\<forall>x \<in> set (f c). ikey x < k" by (auto simp: leaf_ok_def)
  with Cons.IH[of "Some (ikey a)" As'] Cons.prems As show ?case by auto
qed

definition chain_le :: "(nat \<times> item list \<times> nat option) list \<Rightarrow> (nat \<times> item list \<times> nat option) list \<Rightarrow> bool" where
  "chain_le L L' \<longleftrightarrow> (\<forall>X Y fr. chain_ok (X @ L @ Y) fr \<longrightarrow> chain_ok (X @ L' @ Y) fr)"

lemma chain_le_refl: "chain_le L L"
  by (simp add: chain_le_def)

lemma chain_le_trans: "chain_le A B \<Longrightarrow> chain_le B C \<Longrightarrow> chain_le A C"
  by (simp add: chain_le_def)

lemma chain_le_context: "chain_le A B \<Longrightarrow> chain_le (P @ A @ Q) (P @ B @ Q)"
  unfolding chain_le_def by (metis append.assoc)

lemma adj_chain_le: "adj A B \<Longrightarrow> chain_le A B"
  using adj_chain by (auto simp: chain_le_def)

lemma chain_le_leaf: "chain_le [(a, its, nx)] [(a, its', nx)]"
  unfolding chain_le_def
proof (intro allI impI)
  fix X Y fr assume "chain_ok (X @ [(a, its, nx)] @ Y) fr"
  then show "chain_ok (X @ [(a, its', nx)] @ Y) fr"
    by (cases Y) (auto simp: chain_ok_def chained_append)
qed

lemma filter_key_id: "k \<notin> set (keys xs) \<Longrightarrow> filter (\<lambda>x. ikey x \<noteq> k) xs = xs"
  by (induction xs) auto

lemma leaf_delete:
  assumes "leaf_ok lo hi its" "item_ok it" "ikey it \<in> set (keys its)"
  shows "del_at (lowerBound its it) its = filter (\<lambda>x. ikey x \<noteq> ikey it) its"
proof -
  let ?i = "lowerBound its it"
  have i: "?i < length its" "ikey (its ! ?i) = ikey it"
    using leaf_position(3)[OF assms(1,2)] assms by (auto simp: leaf_ok_def item_eq_key)
  have its: "its = take ?i its @ its ! ?i # drop (Suc ?i) its" using i(1) by (rule id_take_nth_drop)
  have "distinct (keys its)" using assms(1) by (simp add: leaf_ok_def strict_sorted_iff)
  then have d: "distinct (keys (take ?i its @ its ! ?i # drop (Suc ?i) its))" using its by simp
  have "ikey it \<notin> set (keys (take ?i its))" "ikey it \<notin> set (keys (drop (Suc ?i) its))"
    using d i(2) by auto
  then have "filter (\<lambda>x. ikey x \<noteq> ikey it) (take ?i its @ its ! ?i # drop (Suc ?i) its) = del_at ?i its"
    using i(2) by (simp add: filter_key_id del_at_def)
  then show ?thesis using its by simp
qed

section \<open>Deletion\<close>

definition del_post :: "nat \<Rightarrow> (int \<times> string) option \<Rightarrow> (int \<times> string) option \<Rightarrow> nat \<Rightarrow> item \<Rightarrow>
    node \<Rightarrow> bool \<times> node \<Rightarrow> bool" where
  "del_post h lo hi m it t res \<longleftrightarrow> (case res of (b, t') \<Rightarrow>
     wfn h lo hi t' \<and> szn (m - 1) t' \<and> chain_le (leaves t) (leaves t') \<and>
     b = (ikey it \<in> set (keys (flat t))) \<and>
     flat t' = filter (\<lambda>x. ikey x \<noteq> ikey it) (flat t))"

lemma flat_leaves: "flat t = concat (map (\<lambda>(a, its, nx). its) (leaves t))"
  by (rule flat_def)

lemma concat_map_flat: "concat (map flat cs) = concat (map (\<lambda>(a, its, nx). its) (concat (map leaves cs)))"
  by (induction cs) (auto simp: flat_def)

lemma del_leaf:
  assumes "leaf_ok lo hi its" "item_ok it" "szn m (Leaf a its nx)"
  shows "del_post 0 lo hi m it (Leaf a its nx) (del (Leaf a its nx) it)"
proof (cases "ikey it \<in> set (keys its)")
  case True
  then have i: "lowerBound its it < length its \<and> item_eq (its ! lowerBound its it) it"
    using leaf_position(3)[OF assms(1,2)] by blast
  have "leaf_ok lo hi (filter (\<lambda>x. ikey x \<noteq> ikey it) its)"
    using assms(1) by (auto simp: leaf_ok_def sorted_wrt_map sorted_wrt_filter)
  moreover have "length (filter (\<lambda>x. ikey x \<noteq> ikey it) its) = length its - 1"
    using leaf_delete[OF assms(1,2) True] i by (metis length_del_at)
  ultimately show ?thesis
    using i assms True by (auto simp: del_post_def Let_def leaf_delete chain_le_leaf)
next
  case False
  then have "lowerBound its it = length its \<or> \<not> item_eq (its ! lowerBound its it) it"
    using leaf_position(3)[OF assms(1,2)] lowerBound_le[of its it] by auto
  with assms False show ?thesis
    by (auto simp: del_post_def Let_def chain_le_refl filter_key_id[unfolded list.set_map] intro: le_diff_conv)
qed

lemma align:
  assumes "As @ c # Bs = As' @ l # r # Bs'"
  shows "length As = length As' \<Longrightarrow> As = As' \<and> c = l \<and> Bs = r # Bs'"
    "length As = Suc (length As') \<Longrightarrow> As = As' @ [l] \<and> c = r \<and> Bs = Bs'"
  using assms append_eq_append_conv[of As As' "c # Bs" "l # r # Bs'"]
    append_eq_append_conv[of As "As' @ [l]" "c # Bs" "r # Bs'"] by auto

lemma del_spec:
  "wfn h lo hi t \<Longrightarrow> item_ok it \<Longrightarrow> lob lo (ikey it) \<Longrightarrow> hib (ikey it) hi \<Longrightarrow> szn m t \<Longrightarrow>
   0 < m \<or> is_leaf t \<Longrightarrow> del_post h lo hi m it t (del t it)"
proof (induction h arbitrary: lo hi t m)
  case 0
  then obtain a its nx where "t = Leaf a its nx" by (cases t) auto
  with 0 del_leaf show ?case by simp
next
  case (Suc h)
  then obtain its cs where t: "t = Inner its cs" and w: "wfs (wfn h) lo its cs hi"
    by (cases t) auto
  have sz: "m \<le> length its" "0 < length its" "length its \<le> maxItems" "length cs = Suc (length its)"
    "\<forall>c \<in> set cs. szn minItems c" using Suc.prems t by auto
  from w Suc.prems(2-4) obtain as bs As c Bs where f: "its = as @ bs" "cs = As @ c # Bs"
    "length as = childIndex its it" "length As = childIndex its it" "length Bs = length bs"
    and cx: "ctx (wfn h) lo as As bs Bs hi" and c: "wfn h (lbd lo as) (ubd bs hi) c"
    and b: "lob (lbd lo as) (ikey it)" "hib (ikey it) (ubd bs hi)"
    by (rule child_focus)
  obtain found c' where r: "del c it = (found, c')" by (cases "del c it")
  have "szn minItems c" using sz f by simp
  then have post: "del_post h (lbd lo as) (ubd bs hi) minItems it c (found, c')"
    using Suc.IH[OF c Suc.prems(2) b, of minItems] r by (simp add: size_arith)
  then have p: "wfn h (lbd lo as) (ubd bs hi) c'" "szn (minItems - 1) c'"
    "chain_le (leaves c) (leaves c')" "found = (ikey it \<in> set (keys (flat c)))"
    "flat c' = filter (\<lambda>x. ikey x \<noteq> ikey it) (flat c)"
    by (auto simp: del_post_def)
  have out: "ikey it \<notin> set (keys (concat (map flat As)))" "ikey it \<notin> set (keys (concat (map flat Bs)))"
    using ctx_bounds[of "wfn h" flat, OF wfn_flat cx b] by fastforce+
  define cs' where "cs' = As @ c' # Bs"
  have w': "wfs (wfn h) lo its cs' hi"
    using wfs_focus[of As as Bs bs "wfn h" lo c' hi] f cx p(1) by (simp add: cs'_def)
  have fl: "concat (map flat cs') = filter (\<lambda>x. ikey x \<noteq> ikey it) (flat t)"
    using out p(5) t f by (simp add: cs'_def flat_Inner filter_key_id del: list.set_map)
  have mem: "found = (ikey it \<in> set (keys (flat t)))"
    using out p(4) t f by (simp add: flat_Inner image_Un)
  have ch: "chain_le (leaves t) (concat (map leaves cs'))"
    using chain_le_context[OF p(3)] t f by (simp add: cs'_def)
  have step: "del t it = (if \<not> found then (False, Inner its cs')
      else if length (nitems c') < minItems
      then (case rebalance its cs' (childIndex its it) of (its', cs'') \<Rightarrow> (True, Inner its' cs''))
      else (True, Inner its cs'))"
    using t f r by (simp add: Let_def cs'_def)
  show ?case
  proof (cases "found \<and> length (nitems c') < minItems")
    case False
    have "szn minItems c'"
    proof (cases found)
      case True
      with False p(2) show ?thesis by (intro szn_raise[of _ c' minItems]) auto
    next
      case not: False
      have "length (nitems c) = length (nitems c')"
        using r not by (cases c) (auto simp: Let_def split: if_splits prod.splits bool.splits)
      then have "minItems \<le> length (nitems c')" using \<open>szn minItems c\<close> szn_bounds by metis
      with p(2) show ?thesis by (rule szn_raise)
    qed
    then have "szn (m - 1) (Inner its cs')" using sz f by (auto simp: cs'_def)
    with False step w' fl mem ch show ?thesis by (auto simp: del_post_def flat_Inner)
  next
    case True
    have len': "length cs' = Suc (length its)" "childIndex its it < length cs'"
      using sz f by (auto simp: cs'_def)
    obtain as' s bs' As' l rr Bs' side ss ns where d: "its = as' @ s # bs'" "cs' = As' @ l # rr # Bs'"
      "length As' = length as'" "length Bs' = length bs'"
      "childIndex its it = length as' + (if side then 1 else 0)" "reb l s rr side ss ns"
      "rebalance its cs' (childIndex its it) = (as' @ ss @ bs', As' @ ns @ Bs')"
      by (rule rebalance_reb[OF len'(1) sz(2) len'(2)])
    have res: "del t it = (True, Inner (as' @ ss @ bs') (As' @ ns @ Bs'))"
      using step True d(7) by simp
    have w2: "wfs (wfn h) lo (as' @ ss @ bs') (As' @ ns @ Bs') hi"
      using reb_wf[OF d(6,3,4)] w' d(1,2) by simp
    have lr: "wfn h (lbd lo as') (Some (ikey s)) l" "wfn h (Some (ikey s)) (ubd bs' hi) rr"
      using w' d(1,2) wfs_focus2[OF d(3,4)] by simp_all
    have ad: "adj (leaves l @ leaves rr) (concat (map leaves ns))"
      using reb_adj[OF d(6) lr] .
    have ch2: "chain_le (concat (map leaves cs')) (concat (map leaves (As' @ ns @ Bs')))"
      using chain_le_context[OF adj_chain_le[OF ad]] d(2) by simp
    have fl2: "concat (map flat (As' @ ns @ Bs')) = concat (map flat cs')"
      using adj_flat[OF ad] d(2) by (simp add: concat_map_flat[of ns] flat_leaves)
    have cmp: "As @ c' # Bs = As' @ l # rr # Bs'" using d(2) by (simp add: cs'_def)
    have small: "length (nitems c') < minItems" using True by simp
    have sib: "\<forall>x \<in> set As \<union> set Bs. szn minItems x" using sz f by auto
    have "szn (if side then minItems else minItems - 1) l \<and>
        szn (if side then minItems - 1 else minItems) rr \<and> (if side then rr else l) = c' \<and>
        (\<forall>x \<in> set As' \<union> set Bs'. szn minItems x)"
      using align[OF cmp] p(2) sib d(3,5) f(4) by (cases side) auto
    then have rz: "(\<forall>n \<in> set ns. szn minItems n) \<and> length ns = Suc (length ss) \<and> length ss \<le> 1"
      and rest: "\<forall>x \<in> set As' \<union> set Bs'. szn minItems x"
      using reb_szn[OF d(6)] wfn_is_leaf[OF lr(1)] wfn_is_leaf[OF lr(2)] small by auto
    then have "szn (m - 1) (Inner (as' @ ss @ bs') (As' @ ns @ Bs'))"
      using rz rest sz d(1-4) by auto
    then show ?thesis
      using res w2 fl fl2 mem True chain_le_trans[OF ch ch2] by (auto simp: del_post_def flat_Inner)
  qed
qed

section \<open>The tree as a sorted list\<close>

fun ht :: "node \<Rightarrow> nat" where
  "ht (Leaf a its nx) = 0"
| "ht (Inner its []) = 1"
| "ht (Inner its (c # cs)) = Suc (ht c)"

lemma wfn_ht: "wfn h lo hi n \<Longrightarrow> ht n = h"
proof (induction n arbitrary: h lo hi rule: ht.induct)
  case (3 its c cs)
  then obtain k where h: "h = Suc k" "wfs (wfn k) lo its (c # cs) hi" by (cases h) auto
  then obtain lo' hi' where "wfn k lo' hi' c" by (cases its; cases cs) auto
  with 3 h show ?case by simp
qed (auto elim: wfn.elims dest: wfs_length)

text \<open>The invariant of a tree between operations, and its elements in order.\<close>

definition bt_items :: "bptree \<Rightarrow> item list" where
  "bt_items t = flat (root t)"

definition bt_inv :: "bptree \<Rightarrow> bool" where
  "bt_inv t \<longleftrightarrow> wfn (ht (root t)) None None (root t) \<and>
     szn (if is_leaf (root t) then 0 else 1) (root t) \<and>
     chain_ok (leaves (root t)) (fresh t) \<and> blen t = int (length (bt_items t))"

fun insert_sorted :: "item \<Rightarrow> item list \<Rightarrow> item list" where
  "insert_sorted it [] = [it]"
| "insert_sorted it (x # xs) =
     (if ikey x < ikey it then x # insert_sorted it xs else it # x # xs)"

lemma insert_sorted_split:
  "sorted_wrt (<) (keys (A @ it # B)) \<Longrightarrow> insert_sorted it (A @ B) = A @ it # B"
proof (induction A)
  case Nil
  then show ?case by (cases B) (auto simp: not_less dest: less_imp_le)
next
  case (Cons a A)
  then show ?case by auto
qed

lemma set_insert_sorted [simp]: "set (insert_sorted it xs) = insert it (set xs)"
  by (induction xs) auto

lemma bt_inv_new: "bt_inv bt_new" and bt_items_new: "bt_items bt_new = []"
  by (simp_all add: bt_inv_def bt_new_def bt_items_def leaf_ok_def chain_ok_def)

lemma bt_inv_sorted:
  "bt_inv t \<Longrightarrow> sorted_wrt (<) (keys (bt_items t)) \<and> (\<forall>x \<in> set (bt_items t). item_ok x)"
  using wfn_flat[of "ht (root t)" None None "root t"] by (simp add: bt_inv_def bt_items_def leaf_ok_def)

lemma flat_sp: "concat (map (\<lambda>(a, its, nx). its) (leaves t @ sp_leaves sp)) =
    flat t @ (case sp of None \<Rightarrow> [] | Some (s, r) \<Rightarrow> flat r)"
  by (cases sp) (auto simp: flat_def split: prod.splits)

text \<open>The split that reaches the root, as the tree built over it.\<close>

definition grow_root :: "node \<Rightarrow> (item \<times> node) option \<Rightarrow> node" where
  "grow_root n right = (case right of None \<Rightarrow> n | Some (sep, r) \<Rightarrow> Inner [sep] [n, r])"

lemma leaves_grow_root: "leaves (grow_root n sp) = leaves n @ sp_leaves sp"
  by (cases sp) (auto simp: grow_root_def split: prod.splits)

lemma grow_root_wf:
  assumes "ins_post h None None (b, sp, n, fr)"
  shows "wfn (ht (grow_root n sp)) None None (grow_root n sp)"
proof (cases sp)
  case None
  with assms have "wfn h None None n" by simp
  with None wfn_ht[OF this] show ?thesis by (simp add: grow_root_def)
next
  case (Some sr)
  obtain s r where sr: "sr = (s, r)" by (cases sr)
  with assms Some have w: "wfn (Suc h) None None (Inner [s] [n, r])" by simp
  then have "ht (Inner [s] [n, r]) = Suc h" by (rule wfn_ht)
  with w Some sr show ?thesis by (simp add: grow_root_def)
qed

lemma ins_keeps_kind: "ins fr t it = (b, sp, t', fr') \<Longrightarrow> is_leaf t' = is_leaf t"
  by (cases t) (auto simp: Let_def split: if_splits prod.splits option.splits)

lemma ins_not_split: "ins fr t it = (False, sp, t', fr') \<Longrightarrow> sp = None"
  by (cases t) (auto simp: Let_def split: if_splits prod.splits option.splits)

lemma ins_found:
  "wfn h lo hi t \<Longrightarrow> item_ok it \<Longrightarrow> lob lo (ikey it) \<Longrightarrow> hib (ikey it) hi \<Longrightarrow>
   ins fr t it = (False, sp, t', fr') \<Longrightarrow> ikey it \<in> set (keys (flat t))"
proof (induction h arbitrary: lo hi t sp t' fr')
  case 0
  then obtain a its nx where t: "t = Leaf a its nx" by (cases t) auto
  with 0 leaf_position(3)[of lo hi its it] show ?case by (auto simp: Let_def split: if_splits)
next
  case (Suc h)
  then obtain its cs where t: "t = Inner its cs" and w: "wfs (wfn h) lo its cs hi"
    by (cases t) auto
  from w Suc.prems(2-4) obtain as bs As c Bs where f: "its = as @ bs" "cs = As @ c # Bs"
    "length as = childIndex its it" "length As = childIndex its it" "length Bs = length bs"
    and cx: "ctx (wfn h) lo as As bs Bs hi" and c: "wfn h (lbd lo as) (ubd bs hi) c"
    and b: "lob (lbd lo as) (ikey it)" "hib (ikey it) (ubd bs hi)"
    by (rule child_focus)
  obtain b' sp' c' fr'' where r: "ins fr c it = (b', sp', c', fr'')" by (metis prod_cases4)
  have "\<not> b'"
  proof
    assume "b'"
    with Suc.prems(5) t f r show False
      by (cases sp') (auto simp: Let_def split: if_splits prod.splits)
  qed
  with Suc.IH[OF c Suc.prems(2) b, of sp' c' fr''] r have "ikey it \<in> set (keys (flat c))" by simp
  with t f show ?case by (simp add: flat_Inner)
qed

end
