(* ===== verification/BTree_Api.thy ===== *)
theory BTree_Api
  imports BTree_Correct
begin

text \<open>
  The exported operations of the B+-tree against its abstraction, a list of items sorted by
  (score, member) without duplicates: \<open>Insert\<close>, \<open>Delete\<close>, \<open>Range\<close> and \<open>ForEach\<close>, and the interface
  \<open>ordered_index\<close> that the sorted-set index is built on.
\<close>

section \<open>Insert and Delete\<close>

lemma bt_insert_unfold:
  "ins (fresh t) (root t) \<lparr>Score = sc, Member = mb\<rparr> = (b, sp, n, fr) \<Longrightarrow>
   bt_insert t sc mb = (b, t\<lparr>root := if b then grow_root n sp else n,
     blen := blen t + (if b then 1 else 0), fresh := fr\<rparr>)"
  by (auto simp: bt_insert_def Let_def grow_root_def)

lemma grow_root_szn:
  assumes "ins_sz m (b, sp, n, fr)" "is_leaf n \<Longrightarrow> m = 0" "\<not> is_leaf n \<Longrightarrow> m = 1"
  shows "szn (if is_leaf (grow_root n sp) then 0 else 1) (grow_root n sp)"
proof (cases sp)
  case None
  with assms show ?thesis by (auto simp: grow_root_def)
next
  case (Some sr)
  with assms show ?thesis by (cases sr) (auto simp: grow_root_def size_arith)
qed

lemma bt_insert_spec:
  fixes mb :: string
  assumes inv: "bt_inv t" and sc: "\<not> f64_nan sc"
  defines "it \<equiv> \<lparr>Score = sc, Member = mb\<rparr>"
  shows "bt_inv (snd (bt_insert t sc mb))"
    "fst (bt_insert t sc mb) \<longleftrightarrow> ikey it \<notin> set (keys (bt_items t))"
    "bt_items (snd (bt_insert t sc mb)) =
       (if fst (bt_insert t sc mb) then insert_sorted it (bt_items t) else bt_items t)"
proof -
  have ok: "item_ok it" using sc by (simp add: it_def item_ok_def)
  have w: "wfn (ht (root t)) None None (root t)"
    and sz: "szn (if is_leaf (root t) then 0 else 1) (root t)"
    and ch: "chain_ok (leaves (root t)) (fresh t)"
    and len: "blen t = int (length (bt_items t))"
    using inv by (simp_all add: bt_inv_def)
  obtain b sp n fr where r: "ins (fresh t) (root t) it = (b, sp, n, fr)" by (metis prod_cases4)
  have op: "bt_insert t sc mb = (b, t\<lparr>root := if b then grow_root n sp else n,
     blen := blen t + (if b then 1 else 0), fresh := fr\<rparr>)"
    using r unfolding it_def by (rule bt_insert_unfold)
  let ?t = "snd (bt_insert t sc mb)"
  have post: "ins_post (ht (root t)) None None (b, sp, n, fr)"
    using ins_wf[OF w ok, of "fresh t"] r by simp
  have rt: "root ?t = grow_root n sp"
    using op ins_not_split[of "fresh t" "root t" it sp n fr] r by (cases b) (auto simp: grow_root_def)
  have w': "wfn (ht (root ?t)) None None (root ?t)" unfolding rt by (rule grow_root_wf[OF post])
  have "ins_sz (if is_leaf (root t) then 0 else 1) (b, sp, n, fr)"
    using ins_szn[OF sz, of "fresh t" it] r by (simp add: size_arith split: if_splits)
  then have sz': "szn (if is_leaf (root ?t) then 0 else 1) (root ?t)"
    unfolding rt using ins_keeps_kind[OF r] by (intro grow_root_szn[where m = "if is_leaf (root t) then 0 else 1"]) auto
  have items': "bt_items ?t = concat (map (\<lambda>(a, its, nx). its) (leaves n @ sp_leaves sp))"
    by (simp add: bt_items_def rt flat_leaves leaves_grow_root)
  have srt': "sorted_wrt (<) (keys (bt_items ?t))"
    using wfn_flat[OF w'] by (simp add: bt_items_def leaf_ok_def)
  show b_iff: "fst (bt_insert t sc mb) \<longleftrightarrow> ikey it \<notin> set (keys (bt_items t))"
    and it_eq: "bt_items ?t = (if fst (bt_insert t sc mb) then insert_sorted it (bt_items t) else bt_items t)"
    and "bt_inv ?t"
  proof -
    have "(b \<longleftrightarrow> ikey it \<notin> set (keys (bt_items t))) \<and>
      bt_items ?t = (if b then insert_sorted it (bt_items t) else bt_items t) \<and>
      chain_ok (leaves (root ?t)) (fresh ?t) \<and> length (bt_items ?t) = length (bt_items t) + (if b then 1 else 0)"
    proof (cases b)
      case False
      then have "sp = None" using ins_not_split[of "fresh t" "root t" it sp n fr] r by simp
      with False have "leaves n = leaves (root t) \<and> fr = fresh t \<and> sp = None"
        using ins_leaves[OF r] by simp
      moreover have "ikey it \<in> set (keys (flat (root t)))"
        using False r by (intro ins_found[OF w ok]) auto
      ultimately show ?thesis
        using False ch op items' by (simp add: rt leaves_grow_root bt_items_def flat_leaves)
    next
      case True
      then obtain xs l ys new where s: "leaves (root t) = xs @ l # ys"
        "leaves n @ sp_leaves sp = xs @ new @ ys" "leaf_step (fresh t) it l new fr"
        using ins_leaves[OF r] by auto
      obtain A B where ab: "(\<lambda>(a, its, nx). its) l = A @ B"
        "concat (map (\<lambda>(a, its, nx). its) new) = A @ it # B" by (rule leaf_step_flat[OF s(3)])
      let ?C = "\<lambda>L. concat (map (\<lambda>(a, its, nx). its) L)"
      have old: "bt_items t = (?C xs @ A) @ (B @ ?C ys)"
        using s(1) ab(1) by (simp add: bt_items_def flat_leaves)
      have nw: "bt_items ?t = (?C xs @ A) @ it # (B @ ?C ys)"
        unfolding items' s(2) using ab(2) by simp
      have "bt_items ?t = insert_sorted it (bt_items t)"
        using insert_sorted_split[of "?C xs @ A" it "B @ ?C ys"] srt' nw old by metis
      moreover have "ikey it \<notin> set (keys (bt_items t))"
      proof -
        have "distinct (keys (bt_items ?t))" using srt' by (simp add: strict_sorted_iff)
        then show ?thesis unfolding nw old by auto
      qed
      moreover have "chain_ok (leaves (root ?t)) (fresh ?t)"
        using leaf_step_chain[of xs l ys "fresh t" it new fr] ch s op True by (simp add: rt leaves_grow_root)
      moreover have "length (bt_items ?t) = Suc (length (bt_items t))" unfolding nw old by simp
      ultimately show ?thesis using True by simp
    qed
    then have c: "b \<longleftrightarrow> ikey it \<notin> set (keys (bt_items t))"
      "bt_items ?t = (if b then insert_sorted it (bt_items t) else bt_items t)"
      "chain_ok (leaves (root ?t)) (fresh ?t)"
      "length (bt_items ?t) = length (bt_items t) + (if b then 1 else 0)" by blast+
    have f: "fst (bt_insert t sc mb) = b" "blen ?t = blen t + (if b then 1 else 0)"
      using op by simp_all
    show "fst (bt_insert t sc mb) \<longleftrightarrow> ikey it \<notin> set (keys (bt_items t))"
      "bt_items ?t = (if fst (bt_insert t sc mb) then insert_sorted it (bt_items t) else bt_items t)"
      unfolding f by (rule c)+
    show "bt_inv ?t" unfolding bt_inv_def using w' sz' c(3,4) f(2) len by simp
  qed
qed

lemma shrink_root_spec:
  assumes w: "wfn h None None n" and sz: "szn 0 n"
  shows "wfn (ht (shrink_root n)) None None (shrink_root n)"
    "szn (if is_leaf (shrink_root n) then 0 else 1) (shrink_root n)"
    "leaves (shrink_root n) = leaves n"
proof -
  have "wfn (ht (shrink_root n)) None None (shrink_root n) \<and>
    szn (if is_leaf (shrink_root n) then 0 else 1) (shrink_root n) \<and>
    leaves (shrink_root n) = leaves n"
  proof (cases n)
    case (Leaf a its nx)
    with w sz show ?thesis by (cases h) (auto simp: shrink_root_def)
  next
    case (Inner its cs)
    then obtain k where h: "h = Suc k" "wfs (wfn k) None its cs None" using w by (cases h) auto
    show ?thesis
    proof (cases its)
      case Nil
      with h(2) obtain c where cs: "cs = [c]" "wfn k None None c"
        using wfs_length[OF h(2)] by (cases cs) auto
      have "szn minItems c" using sz Inner cs by simp
      then have "szn (if is_leaf c then 0 else 1) c"
        by (rule szn_mono) (simp add: size_arith)
      with cs Nil Inner wfn_ht[OF cs(2)] show ?thesis by (simp add: shrink_root_def)
    next
      case (Cons s ss)
      then have "shrink_root n = n" using Inner by (simp add: shrink_root_def)
      with w sz Inner Cons wfn_ht[OF w] show ?thesis by auto
    qed
  qed
  then show "wfn (ht (shrink_root n)) None None (shrink_root n)"
    "szn (if is_leaf (shrink_root n) then 0 else 1) (shrink_root n)"
    "leaves (shrink_root n) = leaves n" by blast+
qed

lemma chain_le_ok: "chain_le A B \<Longrightarrow> chain_ok A fr \<Longrightarrow> chain_ok B fr"
  unfolding chain_le_def by (metis append_Nil append_Nil2)

lemma length_filter_key:
  "distinct (keys xs) \<Longrightarrow> k \<in> set (keys xs) \<Longrightarrow>
   length (filter (\<lambda>x. ikey x \<noteq> k) xs) + 1 = length xs"
  by (induction xs) (auto simp: filter_key_id[unfolded list.set_map])

lemma del_same_kind: "del t it = (False, t') \<Longrightarrow> is_leaf t' = is_leaf t \<and> length (nitems t') = length (nitems t)"
  by (cases t) (auto simp: Let_def split: if_splits prod.splits bool.splits)

lemma bt_delete_spec:
  fixes mb :: string
  assumes inv: "bt_inv t" and sc: "\<not> f64_nan sc"
  defines "it \<equiv> \<lparr>Score = sc, Member = mb\<rparr>"
  shows "bt_inv (snd (bt_delete t sc mb))"
    "fst (bt_delete t sc mb) \<longleftrightarrow> ikey it \<in> set (keys (bt_items t))"
    "bt_items (snd (bt_delete t sc mb)) = filter (\<lambda>x. ikey x \<noteq> ikey it) (bt_items t)"
proof -
  have ok: "item_ok it" using sc by (simp add: it_def item_ok_def)
  let ?m = "if is_leaf (root t) then 0 else 1 :: nat"
  have w: "wfn (ht (root t)) None None (root t)" and sz: "szn ?m (root t)"
    and ch: "chain_ok (leaves (root t)) (fresh t)" and len: "blen t = int (length (bt_items t))"
    using inv by (simp_all add: bt_inv_def)
  have d: "distinct (keys (bt_items t))" using bt_inv_sorted[OF inv] by (simp add: strict_sorted_iff)
  obtain b n where r: "del (root t) it = (b, n)" by (cases "del (root t) it")
  have post: "del_post (ht (root t)) None None ?m it (root t) (b, n)"
    using del_spec[OF w ok _ _ sz] r by simp
  then have p: "wfn (ht (root t)) None None n" "szn 0 n" "chain_le (leaves (root t)) (leaves n)"
    "b = (ikey it \<in> set (keys (bt_items t)))"
    "flat n = filter (\<lambda>x. ikey x \<noteq> ikey it) (bt_items t)"
    by (auto simp: del_post_def bt_items_def split: if_splits)
  have chn: "chain_ok (leaves n) (fresh t)" using p(3) ch by (rule chain_le_ok)
  have op: "bt_delete t sc mb = (b, if b then t\<lparr>root := shrink_root n, blen := blen t - 1\<rparr> else t\<lparr>root := n\<rparr>)"
    using r unfolding it_def by (simp add: bt_delete_def)
  note sh = shrink_root_spec[OF p(1,2)]
  show "fst (bt_delete t sc mb) \<longleftrightarrow> ikey it \<in> set (keys (bt_items t))" using op p(4) by simp
  show it_eq: "bt_items (snd (bt_delete t sc mb)) = filter (\<lambda>x. ikey x \<noteq> ikey it) (bt_items t)"
    using op p(5) sh(3) by (simp add: bt_items_def flat_leaves)
  show "bt_inv (snd (bt_delete t sc mb))"
  proof (cases b)
    case True
    have "int (length (filter (\<lambda>x. ikey x \<noteq> ikey it) (bt_items t))) = blen t - 1"
      using length_filter_key[OF d, of "ikey it"] p(4) True len by simp
    then show ?thesis using op True sh chn it_eq by (simp add: bt_inv_def)
  next
    case False
    then have "szn (if is_leaf n then 0 else 1) n"
      using del_same_kind[of "root t" it n] r sz p(2) szn_bounds[OF sz] by (auto intro: szn_raise)
    moreover have "filter (\<lambda>x. ikey x \<noteq> ikey it) (bt_items t) = bt_items t"
      using False p(4) by (simp add: filter_key_id)
    ultimately show ?thesis
      using op False p(1) chn it_eq len wfn_ht[OF p(1)] by (simp add: bt_inv_def)
  qed
qed

section \<open>Range and ForEach\<close>

text \<open>The reference: fold the callback over a list until it asks to stop.\<close>

fun fold_until :: "('s \<Rightarrow> 'a \<Rightarrow> 's \<times> bool) \<Rightarrow> 'a list \<Rightarrow> 's \<Rightarrow> 's" where
  "fold_until fn [] s = s"
| "fold_until fn (x # xs) s = (case fn s x of (s', go) \<Rightarrow> if go then fold_until fn xs s' else s')"

abbreviation content :: "(nat \<times> item list \<times> nat option) list \<Rightarrow> item list" where
  "content L \<equiv> concat (map (\<lambda>(a, its, nx). its) L)"

lemma scan_append:
  "scan fn mx (xs @ ys) s =
     (case scan fn mx xs s of (s', go) \<Rightarrow> if go then scan fn mx ys s' else (s', False))"
  by (induction xs arbitrary: s) (auto split: prod.splits)

lemma scan_None: "fst (scan fn None xs s) = fold_until fn xs s"
  by (induction xs arbitrary: s) (auto split: prod.splits)

lemma scan_Some:
  "fst (scan fn (Some m) xs s) = fold_until fn (takeWhile (\<lambda>x. \<not> f64_lt m (Score x)) xs) s"
  by (induction xs arbitrary: s) (auto split: prod.splits)

lemma takeWhile_filter_sorted:
  "sorted (keys xs) \<Longrightarrow> \<forall>x \<in> set xs. item_ok x \<Longrightarrow> \<not> f64_nan m \<Longrightarrow>
   takeWhile (\<lambda>x. \<not> f64_lt m (Score x)) xs = filter (\<lambda>x. f64_le (Score x) m) xs"
proof (induction xs)
  case (Cons x xs)
  show ?case
  proof (cases "f64_lt m (Score x)")
    case True
    have "\<not> f64_le (Score y) m" if "y \<in> set (x # xs)" for y
    proof -
      have "ikey x \<le> ikey y" using that Cons.prems(1) by auto
      then have "f64_key (Score x) \<le> f64_key (Score y)" by (auto simp: ikey_def)
      with True show ?thesis by (auto simp: f64_cmp)
    qed
    with True show ?thesis by (auto simp: filter_empty_conv)
  next
    case False
    then have "f64_le (Score x) m" using Cons.prems by (auto simp: f64_cmp item_ok_def)
    with False Cons show ?thesis by simp
  qed
qed simp

lemma walk_chain:
  "chained ((a, its, nx) # Q) None \<Longrightarrow> heap = P @ (a, its, nx) # Q \<Longrightarrow>
   distinct (map fst heap) \<Longrightarrow> length Q < fuel \<Longrightarrow>
   walk fuel heap fn mx xs nx s = Some (fst (scan fn mx (xs @ content Q) s))"
proof (induction Q arbitrary: fuel a its nx P xs s)
  case Nil
  then obtain k where "fuel = Suc k" by (cases fuel) auto
  with Nil show ?case by (auto split: prod.splits)
next
  case (Cons l Q)
  obtain b jts ny where l: "l = (b, jts, ny)" by (cases l)
  from Cons.prems obtain k where k: "fuel = Suc k" "length Q < k" by (cases fuel) auto
  have nx: "nx = Some b" "chained ((b, jts, ny) # Q) None" using Cons.prems(1) l by auto
  have heap: "heap = (P @ [(a, its, nx)]) @ (b, jts, ny) # Q" using Cons.prems(2) l by simp
  have "map_of heap b = Some (jts, ny)"
    using Cons.prems(3) heap by (intro map_of_is_SomeI) auto
  with Cons.IH[OF nx(2) heap Cons.prems(3) k(2)] k(1) nx(1) l show ?case
    by (auto simp: scan_append split: prod.splits)
qed

lemma descend_child:
  "wfn h lo hi t \<Longrightarrow> item_ok it \<Longrightarrow> lob lo (ikey it) \<Longrightarrow> hib (ikey it) hi \<Longrightarrow>
   \<exists>P a its nx Q lo' hi'. descend t (\<lambda>its. childIndex its it) = (a, its, nx) \<and>
     leaves t = P @ (a, its, nx) # Q \<and> leaf_ok lo' hi' its \<and>
     (\<forall>x \<in> set (content P). ikey x < ikey it) \<and> (\<forall>x \<in> set (content Q). ikey it < ikey x)"
proof (induction h arbitrary: lo hi t)
  case 0
  then obtain a its nx where "t = Leaf a its nx" by (cases t) auto
  with 0 show ?case by (intro exI[of _ "[]"]) auto
next
  case (Suc h)
  then obtain its cs where t: "t = Inner its cs" and w: "wfs (wfn h) lo its cs hi"
    by (cases t) auto
  from w Suc.prems(2-4) obtain as bs As c Bs where f: "its = as @ bs" "cs = As @ c # Bs"
    "length as = childIndex its it" "length As = childIndex its it" "length Bs = length bs"
    and cx: "ctx (wfn h) lo as As bs Bs hi" and c: "wfn h (lbd lo as) (ubd bs hi) c"
    and b: "lob (lbd lo as) (ikey it)" "hib (ikey it) (ubd bs hi)"
    by (rule child_focus)
  obtain P a jts nx Q lo' hi' where IH: "descend c (\<lambda>its. childIndex its it) = (a, jts, nx)"
    "leaves c = P @ (a, jts, nx) # Q" "leaf_ok lo' hi' jts"
    "\<forall>x \<in> set (content P). ikey x < ikey it" "\<forall>x \<in> set (content Q). ikey it < ikey x"
    using Suc.IH[OF c Suc.prems(2) b] by blast
  have out: "\<forall>x \<in> set (concat (map flat As)). ikey x < ikey it"
    "\<forall>x \<in> set (concat (map flat Bs)). ikey it < ikey x"
    using ctx_bounds[of "wfn h" flat, OF wfn_flat[of h] cx b] by blast+
  have "descend t (\<lambda>its. childIndex its it) = (a, jts, nx)" using t f IH(1) by simp
  moreover have "leaves t = (concat (map leaves As) @ P) @ (a, jts, nx) # (Q @ concat (map leaves Bs))"
    using t f IH(2) by simp
  moreover have "\<forall>x \<in> set (content (concat (map leaves As) @ P)). ikey x < ikey it"
    using out(1) IH(4) unfolding concat_map_flat by fastforce
  moreover have "\<forall>x \<in> set (content (Q @ concat (map leaves Bs))). ikey it < ikey x"
    using out(2) IH(5) unfolding concat_map_flat by fastforce
  ultimately show ?case using IH(3) by blast
qed

lemma wfs_first: "wfs W lo its cs hi \<Longrightarrow> \<exists>c cs' lo' hi'. cs = c # cs' \<and> W lo' hi' c"
  by (erule wfs.elims) auto

lemma descend_first:
  "wfn h lo hi t \<Longrightarrow> \<exists>a its nx Q. descend t (\<lambda>its. 0) = (a, its, nx) \<and> leaves t = (a, its, nx) # Q"
proof (induction h arbitrary: lo hi t)
  case 0
  then show ?case by (cases t) auto
next
  case (Suc h)
  then obtain its cs where t: "t = Inner its cs" and w: "wfs (wfn h) lo its cs hi"
    by (cases t) auto
  then obtain c cs' lo' hi' where c: "cs = c # cs'" "wfn h lo' hi' c" using wfs_first by blast
  with Suc.IH[OF c(2)] t show ?case by auto
qed

lemma low_key: "ikey \<lparr>Score = mn, Member = []\<rparr> \<le> ikey x \<longleftrightarrow> f64_key mn \<le> f64_key (Score x)"
  by (auto simp: ikey_def)

lemma bt_range_spec:
  assumes inv: "bt_inv t"
  shows "bt_range t mn mx fn s =
    Some (fold_until fn (filter (\<lambda>x. f64_le mn (Score x) \<and> f64_le (Score x) mx) (bt_items t)) s)"
proof (cases "f64_le mn mx")
  case False
  have "filter (\<lambda>x. f64_le mn (Score x) \<and> f64_le (Score x) mx) (bt_items t) = []"
    using False by (auto simp: filter_empty_conv f64_cmp)
  with False show ?thesis by (simp add: bt_range_def)
next
  case True
  then have nn: "\<not> f64_nan mn" "\<not> f64_nan mx" by (auto simp: f64_le_def)
  define low where "low = \<lparr>Score = mn, Member = []\<rparr>"
  have ok: "item_ok low" using nn by (simp add: low_def item_ok_def)
  have w: "wfn (ht (root t)) None None (root t)" and ch: "chain_ok (leaves (root t)) (fresh t)"
    using inv by (simp_all add: bt_inv_def)
  obtain P a its nx Q lo' hi' where d: "descend (root t) (\<lambda>its. childIndex its low) = (a, its, nx)"
    "leaves (root t) = P @ (a, its, nx) # Q" "leaf_ok lo' hi' its"
    "\<forall>x \<in> set (content P). ikey x < ikey low" "\<forall>x \<in> set (content Q). ikey low < ikey x"
    using descend_child[OF w ok] by auto
  let ?i = "lowerBound its low"
  have items: "bt_items t = (content P @ take ?i its) @ (drop ?i its @ content Q)"
    using d(2) by (simp add: bt_items_def flat_leaves)
  have before: "\<forall>x \<in> set (content P @ take ?i its). ikey x < ikey low"
    using d(4) leaf_position(1)[OF d(3) ok] by auto
  have after: "\<forall>x \<in> set (drop ?i its @ content Q). ikey low \<le> ikey x"
    using d(5) leaf_position(2)[OF d(3) ok] by (auto simp: less_imp_le)
  have srt: "sorted (keys (bt_items t))" and okk: "\<forall>x \<in> set (bt_items t). item_ok x"
    using bt_inv_sorted[OF inv] by (simp_all add: strict_sorted_iff)
  let ?R = "drop ?i its @ content Q"
  have in_R: "f64_le mn (Score x)" if "x \<in> set ?R" for x
  proof -
    have "ikey low \<le> ikey x" using after that by blast
    moreover have "item_ok x" using okk that items by (metis Un_iff set_append)
    ultimately show ?thesis using nn by (auto simp: low_def low_key f64_le_def item_ok_def)
  qed
  have not_in_L: "\<not> f64_le mn (Score x)" if "x \<in> set (content P @ take ?i its)" for x
  proof -
    have "\<not> ikey low \<le> ikey x" using before that by fastforce
    then show ?thesis by (auto simp: low_def low_key f64_le_def)
  qed
  have "filter (\<lambda>x. f64_le mn (Score x) \<and> f64_le (Score x) mx) (bt_items t) =
      filter (\<lambda>x. f64_le (Score x) mx) ?R"
  proof -
    have "filter (\<lambda>x. f64_le mn (Score x) \<and> f64_le (Score x) mx) (content P @ take ?i its) = []"
      using not_in_L by (auto simp: filter_empty_conv)
    moreover have "filter (\<lambda>x. f64_le mn (Score x) \<and> f64_le (Score x) mx) ?R =
        filter (\<lambda>x. f64_le (Score x) mx) ?R"
      using in_R by (intro filter_cong) auto
    ultimately show ?thesis unfolding items filter_append by simp
  qed
  also have "\<dots> = takeWhile (\<lambda>x. \<not> f64_lt mx (Score x)) ?R"
    using srt okk items nn
    by (intro takeWhile_filter_sorted[symmetric]) (auto simp: sorted_append)
  finally have flt: "filter (\<lambda>x. f64_le mn (Score x) \<and> f64_le (Score x) mx) (bt_items t) =
      takeWhile (\<lambda>x. \<not> f64_lt mx (Score x)) ?R" .
  have ch2: "chained ((a, its, nx) # Q) None" "distinct (map fst (leaves (root t)))"
    using ch d(2) by (auto simp: chain_ok_def chained_append)
  have fu: "length Q < Suc (length (leaves (root t)))" using d(2) by simp
  have "bt_range t mn mx fn s = walk (Suc (length (leaves (root t)))) (leaves (root t)) fn (Some mx)
      (drop ?i its) nx s"
    unfolding bt_range_def low_def[symmetric] Let_def using True d(1) by (simp del: walk.simps)
  also have "\<dots> = Some (fst (scan fn (Some mx) ?R s))"
    by (rule walk_chain[OF ch2(1) d(2) ch2(2) fu])
  finally show ?thesis by (simp only: flt scan_Some)
qed

lemma bt_forEach_spec:
  assumes inv: "bt_inv t"
  shows "bt_forEach t fn s = Some (fold_until fn (bt_items t) s)"
proof -
  have w: "wfn (ht (root t)) None None (root t)" and ch: "chain_ok (leaves (root t)) (fresh t)"
    using inv by (simp_all add: bt_inv_def)
  obtain a its nx Q where d: "descend (root t) (\<lambda>its. 0) = (a, its, nx)"
    "leaves (root t) = (a, its, nx) # Q" using descend_first[OF w] by blast
  have ch2: "chained ((a, its, nx) # Q) None" "distinct (map fst (leaves (root t)))"
    using ch d(2) by (auto simp: chain_ok_def)
  have d2: "leaves (root t) = [] @ (a, its, nx) # Q" using d(2) by simp
  have fu: "length Q < Suc (length (leaves (root t)))" using d(2) by simp
  have "bt_forEach t fn s = walk (Suc (length (leaves (root t)))) (leaves (root t)) fn None its nx s"
    unfolding bt_forEach_def using d(1) by (simp del: walk.simps)
  also have "\<dots> = Some (fst (scan fn None (its @ content Q) s))"
    by (rule walk_chain[OF ch2(1) d2 ch2(2) fu])
  also have "its @ content Q = bt_items t" using d(2) by (simp add: bt_items_def flat_leaves)
  finally show ?thesis by (simp only: scan_None)
qed

section \<open>Interface: an index ordered by (score, member)\<close>

text \<open>What the sorted-set registry relies on: an insert of a new pair adds it, a delete removes the
  pair with that key, and a range visit folds over the elements between the bounds in order.\<close>

locale ordered_index =
  fixes inv :: "'t \<Rightarrow> bool"
    and insert_op :: "'t \<Rightarrow> f64 \<Rightarrow> string \<Rightarrow> bool \<times> 't"
    and delete_op :: "'t \<Rightarrow> f64 \<Rightarrow> string \<Rightarrow> bool \<times> 't"
    and elems :: "'t \<Rightarrow> item list"
  assumes elems_sorted: "inv t \<Longrightarrow> sorted_wrt (<) (keys (elems t))"
    and elems_ok: "inv t \<Longrightarrow> x \<in> set (elems t) \<Longrightarrow> item_ok x"
    and insert_inv: "inv t \<Longrightarrow> \<not> f64_nan s \<Longrightarrow> inv (snd (insert_op t s m))"
    and insert_elems: "inv t \<Longrightarrow> \<not> f64_nan s \<Longrightarrow>
      ikey \<lparr>Score = s, Member = m\<rparr> \<notin> set (keys (elems t)) \<Longrightarrow>
      set (elems (snd (insert_op t s m))) = insert \<lparr>Score = s, Member = m\<rparr> (set (elems t))"
    and delete_inv: "inv t \<Longrightarrow> \<not> f64_nan s \<Longrightarrow> inv (snd (delete_op t s m))"
    and delete_elems: "inv t \<Longrightarrow> \<not> f64_nan s \<Longrightarrow>
      set (elems (snd (delete_op t s m))) =
        {x \<in> set (elems t). ikey x \<noteq> ikey \<lparr>Score = s, Member = m\<rparr>}"
begin

text \<open>The index agrees with a map from members to scores.\<close>

definition agrees :: "'t \<Rightarrow> (string, f64) gomap \<Rightarrow> bool" where
  "agrees t scores \<longleftrightarrow> inv t \<and> keys_distinct scores \<and>
     (\<forall>s m. \<lparr>Score = s, Member = m\<rparr> \<in> set (elems t) \<longleftrightarrow> map_of scores m = Some s)"

lemma agrees_score: "agrees t sc \<Longrightarrow> map_of sc m = Some s \<Longrightarrow> \<not> f64_nan s"
  using elems_ok by (fastforce simp: agrees_def item_ok_def)

lemma agrees_fresh:
  assumes "agrees t sc" "map_of sc m = None"
  shows "ikey \<lparr>Score = s, Member = m\<rparr> \<notin> set (keys (elems t))"
proof
  assume "ikey \<lparr>Score = s, Member = m\<rparr> \<in> set (keys (elems t))"
  then obtain x where "x \<in> set (elems t)" "Member x = m" by (auto simp: ikey_def)
  then have "map_of sc m = Some (Score x)"
    using assms(1) unfolding agrees_def by (metis item.surjective old.unit.exhaust)
  with assms(2) show False by simp
qed

lemma agrees_insert:
  assumes "agrees t sc" "map_of sc m = None" "\<not> f64_nan s"
  shows "agrees (snd (insert_op t s m)) (AList.update m s sc)"
proof -
  have i: "inv t" using assms(1) by (simp add: agrees_def)
  have "set (elems (snd (insert_op t s m))) = insert \<lparr>Score = s, Member = m\<rparr> (set (elems t))"
    by (rule insert_elems[OF i assms(3) agrees_fresh[OF assms(1,2)]])
  with assms insert_inv[OF i assms(3), of m] show ?thesis
    by (auto simp: agrees_def)
qed

lemma agrees_delete:
  assumes "agrees t sc" "map_of sc m = Some s"
  shows "agrees (snd (delete_op t s m)) (AList.delete m sc)"
proof -
  have i: "inv t" and n: "\<not> f64_nan s"
    using assms agrees_score by (auto simp: agrees_def)
  have uniq: "\<lparr>Score = s', Member = m'\<rparr> \<in> set (elems t) \<longleftrightarrow> map_of sc m' = Some s'" for s' m'
    using assms(1) by (simp add: agrees_def)
  have "\<lparr>Score = s', Member = m'\<rparr> \<in> set (elems (snd (delete_op t s m))) \<longleftrightarrow>
      map_of (AList.delete m sc) m' = Some s'" for s' m'
    unfolding delete_elems[OF i n] using uniq assms(2) by (auto simp: ikey_def)
  with assms(1) delete_inv[OF i n, of m] show ?thesis by (simp add: agrees_def)
qed

lemma agrees_rescore:
  assumes "agrees t sc" "map_of sc m = Some old" "\<not> f64_nan s"
  shows "agrees (snd (insert_op (snd (delete_op t old m)) s m)) (AList.update m s sc)"
proof -
  let ?t = "snd (delete_op t old m)"
  have a: "agrees ?t (AList.delete m sc)" using assms(1,2) by (rule agrees_delete)
  have "agrees (snd (insert_op ?t s m)) (AList.update m s (AList.delete m sc))"
    using a assms(3) by (intro agrees_insert) auto
  then show ?thesis using assms(1) by (auto simp: agrees_def)
qed

lemma agrees_members:
  assumes "agrees t sc"
  shows "distinct (map Member (elems t))"
proof -
  have d: "distinct (elems t)"
    using elems_sorted[of t] assms by (auto simp: agrees_def strict_sorted_iff distinct_map)
  have "x = y" if "x \<in> set (elems t)" "y \<in> set (elems t)" "Member x = Member y" for x y
  proof -
    have "map_of sc (Member x) = Some (Score x)" "map_of sc (Member y) = Some (Score y)"
      using that assms unfolding agrees_def by (metis item.surjective old.unit.exhaust)+
    then show ?thesis using that(3) by (cases x; cases y) auto
  qed
  with d show ?thesis by (auto simp: distinct_map inj_on_def)
qed

lemma agrees_length:
  assumes "agrees t sc"
  shows "length (elems t) = length sc"
proof -
  have "Member ` set (elems t) = dom (map_of sc)"
  proof -
    have "m \<in> Member ` set (elems t) \<longleftrightarrow> m \<in> dom (map_of sc)" for m
    proof
      assume "m \<in> dom (map_of sc)"
      then obtain s where "map_of sc m = Some s" by auto
      then have "\<lparr>Score = s, Member = m\<rparr> \<in> set (elems t)" using assms by (simp add: agrees_def)
      then show "m \<in> Member ` set (elems t)" by force
    next
      assume "m \<in> Member ` set (elems t)"
      then obtain x where "x \<in> set (elems t)" "Member x = m" by auto
      then have "map_of sc m = Some (Score x)"
        using assms unfolding agrees_def by (metis item.surjective old.unit.exhaust)
      then show "m \<in> dom (map_of sc)" by auto
    qed
    then show ?thesis by blast
  qed
  then have "card (Member ` set (elems t)) = length sc"
    using assms by (simp add: agrees_def length_eq_card_dom)
  then show ?thesis using agrees_members[OF assms] by (metis distinct_card length_map list.set_map)
qed

end

lemma set_bt_insert:
  assumes "bt_inv t" "\<not> f64_nan s" "ikey \<lparr>Score = s, Member = m\<rparr> \<notin> set (keys (bt_items t))"
  shows "set (bt_items (snd (bt_insert t s m))) = insert \<lparr>Score = s, Member = m\<rparr> (set (bt_items t))"
  using bt_insert_spec(2,3)[OF assms(1,2), of m] assms(3) by auto

interpretation bti: ordered_index bt_inv bt_insert bt_delete bt_items
proof
  fix t s m
  assume t: "bt_inv t" and s: "\<not> f64_nan s"
  show "bt_inv (snd (bt_insert t s m))" by (rule bt_insert_spec(1)[OF t s])
  show "bt_inv (snd (bt_delete t s m))" by (rule bt_delete_spec(1)[OF t s])
  show "set (bt_items (snd (bt_delete t s m))) =
      {x \<in> set (bt_items t). ikey x \<noteq> ikey \<lparr>Score = s, Member = m\<rparr>}"
    by (simp add: bt_delete_spec(3)[OF t s])
qed (use bt_inv_sorted set_bt_insert in auto)

section \<open>Properties\<close>

text \<open>C1: \<open>Insert\<close> keeps the tree ordered, balanced, within the node bounds and chained; it answers
  whether the pair was new, and leaves exactly the old items with the new one at its place.\<close>

theorem btree_insert_correct:
  assumes "bt_inv t" "\<not> f64_nan sc"
  shows "case bt_insert t sc mb of (inserted, t') \<Rightarrow>
    bt_inv t' \<and> inserted = (ikey \<lparr>Score = sc, Member = mb\<rparr> \<notin> set (keys (bt_items t))) \<and>
    bt_items t' = (if inserted then insert_sorted \<lparr>Score = sc, Member = mb\<rparr> (bt_items t) else bt_items t)"
  using bt_insert_spec[OF assms, of mb] by (cases "bt_insert t sc mb") auto

definition sample_tree :: bptree where
  "sample_tree = snd (bt_insert (snd (bt_insert bt_new f64_two ''b'')) f64_one ''c'')"

lemma sample_tree_inv: "bt_inv sample_tree"
  unfolding sample_tree_def by (intro bt_insert_spec(1) bt_inv_new f64_consts)

theorem btree_insert_correct_witness:
  "bt_inv sample_tree \<and> \<not> f64_nan f64_one \<and>
   (case bt_insert sample_tree f64_one ''a'' of (inserted, t') \<Rightarrow>
     bt_inv t' \<and> inserted = (ikey \<lparr>Score = f64_one, Member = ''a''\<rparr> \<notin> set (keys (bt_items sample_tree))) \<and>
     bt_items t' = (if inserted then insert_sorted \<lparr>Score = f64_one, Member = ''a''\<rparr> (bt_items sample_tree)
       else bt_items sample_tree))"
  using btree_insert_correct[OF sample_tree_inv f64_consts(3), of "''a''"] sample_tree_inv by simp

text \<open>C2: \<open>Delete\<close>, with borrowing, merging and the loss of a level, keeps the invariant, answers
  whether the pair was there and removes exactly that pair.\<close>

theorem btree_delete_correct:
  assumes "bt_inv t" "\<not> f64_nan sc"
  shows "case bt_delete t sc mb of (found, t') \<Rightarrow>
    bt_inv t' \<and> found = (ikey \<lparr>Score = sc, Member = mb\<rparr> \<in> set (keys (bt_items t))) \<and>
    bt_items t' = filter (\<lambda>x. ikey x \<noteq> ikey \<lparr>Score = sc, Member = mb\<rparr>) (bt_items t)"
  using bt_delete_spec[OF assms, of mb] by (cases "bt_delete t sc mb") auto

theorem btree_delete_correct_witness:
  "bt_inv sample_tree \<and> \<not> f64_nan f64_one \<and>
   (case bt_delete sample_tree f64_one ''c'' of (found, t') \<Rightarrow>
     bt_inv t' \<and> found = (ikey \<lparr>Score = f64_one, Member = ''c''\<rparr> \<in> set (keys (bt_items sample_tree))) \<and>
     bt_items t' = filter (\<lambda>x. ikey x \<noteq> ikey \<lparr>Score = f64_one, Member = ''c''\<rparr>) (bt_items sample_tree))"
  using btree_delete_correct[OF sample_tree_inv f64_consts(3), of "''c''"] sample_tree_inv by simp

text \<open>C3: \<open>Range\<close> terminates, follows no dangling pointer and calls the callback on exactly the items
  with \<open>min \<le> Score \<le> max\<close>, in order, until it asks to stop, including when equal scores span
  several leaves; \<open>ForEach\<close> does so on all items.\<close>

theorem btree_range_correct:
  assumes "bt_inv t"
  shows "bt_range t mn mx fn s =
      Some (fold_until fn (filter (\<lambda>x. f64_le mn (Score x) \<and> f64_le (Score x) mx) (bt_items t)) s) \<and>
    bt_forEach t fn s = Some (fold_until fn (bt_items t) s)"
  by (intro conjI bt_range_spec bt_forEach_spec assms)

theorem btree_range_correct_witness:
  "bt_inv sample_tree \<and>
   bt_range sample_tree f64_one f64_one (\<lambda>s x. (s @ [Member x], True)) [] =
     Some (fold_until (\<lambda>s x. (s @ [Member x], True))
       (filter (\<lambda>x. f64_le f64_one (Score x) \<and> f64_le (Score x) f64_one) (bt_items sample_tree)) [])"
  using btree_range_correct[OF sample_tree_inv,
      of f64_one f64_one "\<lambda>s x. (s @ [Member x], True)" "[]"] sample_tree_inv
  by (simp only:)

end
