(* ===== verification/ZSet.thy ===== *)
theory ZSet
  imports BTree_Api
begin

text \<open>
  The sorted-set registry of \<open>internal/store/zset/zset.go\<close>: a map from set names to entries, each
  a B+-tree of (score, member) with a reverse index from members to scores. Entries are shared
  pointers: a writer takes the pointer first and the entry's lock afterwards, and in between the
  entry may be emptied and taken off the registry, which the flag \<open>dead\<close> tells it. The entries
  therefore live in a heap of addresses, and every operation is split where the code takes the
  lock, so that the interleavings of concurrent writers can be stated.
\<close>

section \<open>Model\<close>

definition memberOverhead :: int where "memberOverhead = 80"
definition setOverhead :: int where "setOverhead = 256"

record zentry =
  tree :: bptree
  scores :: "(string, f64) gomap"
  dead :: bool

record zreg =
  sets :: "(string, nat) gomap"
  ents :: "nat \<Rightarrow> zentry"
  znext :: nat
  zmem :: "int option"

definition zentry_new :: zentry where
  "zentry_new = \<lparr>tree = bt_new, scores = [], dead = False\<rparr>"

definition zreg_new :: "int option \<Rightarrow> zreg" where
  "zreg_new mem = \<lparr>sets = [], ents = (\<lambda>_. zentry_new), znext = 0, zmem = mem\<rparr>"

definition account :: "int \<Rightarrow> zreg \<Rightarrow> zreg" where
  "account d r = r\<lparr>zmem := map_option (\<lambda>x. x + d) (zmem r)\<rparr>"

definition EncodeZAddValue :: "f64 \<Rightarrow> string \<Rightarrow> bytes" where
  "EncodeZAddValue score member = le_enc 8 (unat score) @ member"

text \<open>Slicing \<open>data[:8]\<close> of a shorter value panics: \<open>None\<close>.\<close>

definition DecodeZAddValue :: "bytes \<Rightarrow> (f64 \<times> string) option" where
  "DecodeZAddValue data =
     (if length data < 8 then None else Some (of_nat (le_dec (take 8 data)), drop 8 data))"

definition zget :: "zreg \<Rightarrow> string \<Rightarrow> nat option" where
  "zget r setName = map_of (sets r) setName"

definition getOrCreate :: "zreg \<Rightarrow> string \<Rightarrow> nat \<times> zreg" where
  "getOrCreate r setName =
     (case zget r setName of
        Some a \<Rightarrow> (a, r)
      | None \<Rightarrow>
          let a = znext r in
          (a, account (setOverhead + int (length setName))
             (r\<lparr>sets := AList.update setName a (sets r), ents := (ents r)(a := zentry_new),
                znext := Suc a\<rparr>)))"

text \<open>The part of \<open>ZAdd\<close> under the entry's lock. \<open>None\<close>: the entry is dead, the writer goes back
  for a fresh one.\<close>

definition zadd_locked :: "zreg \<Rightarrow> nat \<Rightarrow> f64 \<Rightarrow> string \<Rightarrow> (bool \<times> zreg) option" where
  "zadd_locked r a score member =
     (let e = ents r a in
      if dead e then None
      else
        (case map_of (scores e) member of
           Some old \<Rightarrow>
             if f64_eq old score then Some (False, r)
             else
               let t1 = snd (bt_delete (tree e) old member);
                   t2 = snd (bt_insert t1 score member) in
               Some (False, r\<lparr>ents := (ents r)(a := e\<lparr>tree := t2,
                  scores := AList.update member score (scores e)\<rparr>)\<rparr>)
         | None \<Rightarrow>
             let t2 = snd (bt_insert (tree e) score member) in
             Some (True, account (memberOverhead + int (length member))
               (r\<lparr>ents := (ents r)(a := e\<lparr>tree := t2,
                  scores := AList.update member score (scores e)\<rparr>)\<rparr>))))"

partial_function (option) zadd_loop :: "zreg \<Rightarrow> string \<Rightarrow> f64 \<Rightarrow> string \<Rightarrow> (bool \<times> zreg) option" where
  "zadd_loop r setName score member =
     (case getOrCreate r setName of (a, r') \<Rightarrow>
        (case zadd_locked r' a score member of
           None \<Rightarrow> zadd_loop r' setName score member
         | Some res \<Rightarrow> Some res))"

definition ZAdd :: "zreg \<Rightarrow> string \<Rightarrow> f64 \<Rightarrow> string \<Rightarrow> (bool \<times> zreg) option" where
  "ZAdd r setName score member =
     (if f64_nan score then Some (False, r) else zadd_loop r setName score member)"

definition ZScore :: "zreg \<Rightarrow> string \<Rightarrow> string \<Rightarrow> f64 option" where
  "ZScore r setName member =
     (case zget r setName of None \<Rightarrow> None | Some a \<Rightarrow> map_of (scores (ents r a)) member)"

text \<open>The part of \<open>ZRem\<close> under the lock; the registry slot is cleared only when it still holds this
  entry (\<open>CompareAndDelete\<close>).\<close>

definition zrem_locked :: "zreg \<Rightarrow> string \<Rightarrow> nat \<Rightarrow> string \<Rightarrow> bool \<times> zreg" where
  "zrem_locked r setName a member =
     (let e = ents r a in
      case map_of (scores e) member of
        None \<Rightarrow> (False, r)
      | Some score \<Rightarrow>
          let sc' = AList.delete member (scores e);
              emptied = (length sc' = 0);
              e' = e\<lparr>scores := sc', tree := snd (bt_delete (tree e) score member),
                     dead := (emptied \<or> dead e)\<rparr>;
              r1 = r\<lparr>ents := (ents r)(a := e'),
                     sets := (if emptied \<and> map_of (sets r) setName = Some a
                              then AList.delete setName (sets r) else sets r)\<rparr>;
              r2 = account (- (memberOverhead + int (length member))) r1 in
          (True, if emptied then account (- (setOverhead + int (length setName))) r2 else r2))"

definition ZRem :: "zreg \<Rightarrow> string \<Rightarrow> string \<Rightarrow> bool \<times> zreg" where
  "ZRem r setName member =
     (case zget r setName of None \<Rightarrow> (False, r) | Some a \<Rightarrow> zrem_locked r setName a member)"

definition ZRangeByScore :: "zreg \<Rightarrow> string \<Rightarrow> f64 \<Rightarrow> f64 \<Rightarrow> (f64 \<times> string) list option" where
  "ZRangeByScore r setName minScore maxScore =
     (case zget r setName of
        None \<Rightarrow> Some []
      | Some a \<Rightarrow> bt_range (tree (ents r a)) minScore maxScore
          (\<lambda>out it. (out @ [(Score it, Member it)], True)) [])"

definition ZCard :: "zreg \<Rightarrow> string \<Rightarrow> nat" where
  "ZCard r setName =
     (case zget r setName of None \<Rightarrow> 0 | Some a \<Rightarrow> length (scores (ents r a)))"

text \<open>The outer option is termination, the inner one Go's \<open>nil\<close> map.\<close>

definition MembersInRange :: "zreg \<Rightarrow> string \<Rightarrow> f64 \<Rightarrow> f64 \<Rightarrow> (string, unit) gomap option option" where
  "MembersInRange r setName minScore maxScore =
     (case zget r setName of
        None \<Rightarrow> Some None
      | Some a \<Rightarrow> bt_range (tree (ents r a)) minScore maxScore
          (\<lambda>out it. (Some (AList.update (Member it) () (case out of None \<Rightarrow> [] | Some m \<Rightarrow> m)), True))
          None)"

definition ZForEach :: "zreg \<Rightarrow> string \<Rightarrow> ('s \<Rightarrow> f64 \<Rightarrow> string \<Rightarrow> 's) \<Rightarrow> 's \<Rightarrow> 's option" where
  "ZForEach r setName fn s =
     (case zget r setName of
        None \<Rightarrow> Some s
      | Some a \<Rightarrow>
          (case bt_forEach (tree (ents r a)) (\<lambda>items it. (items @ [it], True)) [] of
             None \<Rightarrow> None
           | Some items \<Rightarrow> Some (fold (\<lambda>it s. fn s (Score it) (Member it)) items s)))"

definition ForEachSet :: "zreg \<Rightarrow> ('s \<Rightarrow> string \<Rightarrow> 's) \<Rightarrow> 's \<Rightarrow> 's" where
  "ForEachSet r fn s = fold (\<lambda>(name, a) s. fn s name) (sets r) s"

section \<open>Invariant\<close>

text \<open>\<open>P\<close> is what writers in flight hold: names with the entry they took for it. A registered entry is
  alive, its tree and its reverse index agree, and it is empty only while a writer that created it
  has not added yet; an entry a writer holds is registered under its name or dead.\<close>

definition entry_ok :: "zentry \<Rightarrow> bool" where
  "entry_ok e \<longleftrightarrow> bti.agrees (tree e) (scores e) \<and> (dead e \<longrightarrow> scores e = [])"

definition zinv :: "zreg \<Rightarrow> (string \<times> nat) set \<Rightarrow> bool" where
  "zinv r P \<longleftrightarrow> keys_distinct (sets r) \<and>
     (\<forall>a. entry_ok (ents r a)) \<and>
     (\<forall>n n' a. map_of (sets r) n = Some a \<longrightarrow> map_of (sets r) n' = Some a \<longrightarrow> n = n') \<and>
     (\<forall>n a. map_of (sets r) n = Some a \<longrightarrow> a < znext r \<and> \<not> dead (ents r a) \<and>
        (scores (ents r a) \<noteq> [] \<or> (n, a) \<in> P)) \<and>
     (\<forall>n a. (n, a) \<in> P \<longrightarrow> a < znext r \<and> (dead (ents r a) \<or> map_of (sets r) n = Some a))"

text \<open>What the registry means: the score of a member of a set.\<close>

definition zview :: "zreg \<Rightarrow> string \<Rightarrow> string \<Rightarrow> f64 option" where
  "zview r n m = (case map_of (sets r) n of None \<Rightarrow> None | Some a \<Rightarrow> map_of (scores (ents r a)) m)"

lemma ZScore_view: "ZScore r n m = zview r n m"
  by (simp add: ZScore_def zview_def zget_def)

lemma agrees_new: "bti.agrees bt_new []"
  by (simp add: bti.agrees_def bt_inv_new bt_items_new)

lemma entry_ok_new [simp]: "entry_ok zentry_new"
  by (simp add: entry_ok_def zentry_new_def agrees_new)

lemma zinv_new: "zinv (zreg_new mem) {}"
  by (simp add: zinv_def zreg_new_def)

lemma zview_new: "zview (zreg_new mem) n m = None"
  by (simp add: zview_def zreg_new_def)

lemma account_sel [simp]:
  "sets (account d r) = sets r" "ents (account d r) = ents r" "znext (account d r) = znext r"
  "zmem (account d r) = map_option (\<lambda>x. x + d) (zmem r)"
  by (simp_all add: account_def)

lemma account_account: "account d (account d' r) = account (d + d') r"
  by (cases "zmem r") (simp_all add: account_def)

lemma zview_account [simp]: "zview (account d r) = zview r"
  by (intro ext) (simp add: zview_def cong: option.case_cong)

lemma zinv_account [simp]: "zinv (account d r) P = zinv r P"
  by (simp add: zinv_def)

lemma getOrCreate_inv:
  assumes "zinv r P" "getOrCreate r n = (a, r')"
  shows "zinv r' (insert (n, a) P)" "zview r' = zview r" "map_of (sets r') n = Some a"
    "\<not> dead (ents r' a)"
proof -
  have "zinv r' (insert (n, a) P) \<and> zview r' = zview r \<and> map_of (sets r') n = Some a \<and> \<not> dead (ents r' a)"
  proof (cases "map_of (sets r) n")
    case (Some b)
    with assms show ?thesis by (auto simp: getOrCreate_def zget_def zinv_def)
  next
    case None
    have lt: "\<And>k b. map_of (sets r) k = Some b \<Longrightarrow> b < znext r"
      "\<And>k b. (k, b) \<in> P \<Longrightarrow> b < znext r"
      using assms(1) by (auto simp: zinv_def)
    have a: "a = znext r" and r': "sets r' = AList.update n a (sets r)"
      "ents r' = (ents r)(a := zentry_new)" "znext r' = Suc a"
      using assms(2) None by (auto simp: getOrCreate_def zget_def Let_def)
    have nd: "\<not> dead zentry_new" "scores zentry_new = []" by (simp_all add: zentry_new_def)
    have ne: "b \<noteq> znext r" if "map_of (sets r) k = Some b \<or> (k, b) \<in> P" for k b
      using that lt by blast
    have nP: "(n, b) \<in> P \<Longrightarrow> dead (ents r b)" for b
      using assms(1) None unfolding zinv_def by (metis option.distinct(1))
    have "zinv r' (insert (n, a) P)"
      unfolding zinv_def r' a
      using assms(1) lt ne nd nP unfolding zinv_def
      by (auto simp: less_Suc_eq dest: less_not_refl2)
    moreover have "zview r' k m = zview r k m" for k m
    proof (cases "k = n")
      case True
      then show ?thesis using None r' nd by (simp add: zview_def)
    next
      case False
      then show ?thesis using r' ne[of k] a by (auto simp: zview_def split: option.splits)
    qed
    ultimately show ?thesis using r' a nd by auto
  qed
  then show "zinv r' (insert (n, a) P)" "zview r' = zview r" "map_of (sets r') n = Some a"
    "\<not> dead (ents r' a)" by blast+
qed

lemma zinv_dead: "zinv r P \<Longrightarrow> dead (ents r a) \<Longrightarrow> map_of (sets r) n \<noteq> Some a"
  by (auto simp: zinv_def)

lemma zinv_write:
  assumes inv: "zinv r P" and reg: "map_of (sets r) n = Some a"
    and e: "entry_ok e" "\<not> dead e" "scores e \<noteq> []"
    and Q: "P - {(n, a)} \<subseteq> Q" "Q \<subseteq> P"
  shows "zinv (r\<lparr>ents := (ents r)(a := e)\<rparr>) Q"
proof -
  have inj: "map_of (sets r) k = Some a \<Longrightarrow> k = n" for k using inv reg unfolding zinv_def by blast
  show ?thesis
    unfolding zinv_def
  proof (intro conjI allI impI)
    fix k b assume k: "map_of (sets (r\<lparr>ents := (ents r)(a := e)\<rparr>)) k = Some b"
    then show "scores (ents (r\<lparr>ents := (ents r)(a := e)\<rparr>) b) \<noteq> [] \<or> (k, b) \<in> Q"
      using inv e(3) Q(1) unfolding zinv_def by (cases "b = a") auto
    from k show "\<not> dead (ents (r\<lparr>ents := (ents r)(a := e)\<rparr>) b)" "b < znext (r\<lparr>ents := (ents r)(a := e)\<rparr>)"
      using inv e(2) unfolding zinv_def by (cases "b = a"; auto)+
  next
    fix k b assume "(k, b) \<in> Q"
    then have k: "(k, b) \<in> P" using Q(2) by blast
    then have "dead (ents r b) \<or> map_of (sets r) k = Some b" using inv unfolding zinv_def by blast
    moreover have "\<not> dead (ents r a)" using inv reg unfolding zinv_def by blast
    ultimately show "dead (ents (r\<lparr>ents := (ents r)(a := e)\<rparr>) b) \<or>
        map_of (sets (r\<lparr>ents := (ents r)(a := e)\<rparr>)) k = Some b"
      using reg e(2) inj[of k] inv k unfolding zinv_def by (cases "b = a") auto
    from k show "b < znext (r\<lparr>ents := (ents r)(a := e)\<rparr>)" using inv unfolding zinv_def by auto
  next
    fix k k' b
    assume "map_of (sets (r\<lparr>ents := (ents r)(a := e)\<rparr>)) k = Some b"
      "map_of (sets (r\<lparr>ents := (ents r)(a := e)\<rparr>)) k' = Some b"
    then show "k = k'" using inv unfolding zinv_def by simp
  qed (use inv e(1) in \<open>auto simp: zinv_def\<close>)
qed

lemma zinv_kill:
  assumes inv: "zinv r P" and reg: "map_of (sets r) n = Some a"
    and e: "entry_ok e" "dead e"
  shows "zinv (r\<lparr>ents := (ents r)(a := e), sets := AList.delete n (sets r)\<rparr>) P"
proof -
  have inj: "map_of (sets r) k = Some a \<Longrightarrow> k = n" for k using inv reg unfolding zinv_def by blast
  show ?thesis
    unfolding zinv_def
  proof (intro conjI allI impI)
    fix k b
    assume k: "map_of (sets (r\<lparr>ents := (ents r)(a := e), sets := AList.delete n (sets r)\<rparr>)) k = Some b"
    then have "map_of (sets r) k = Some b" "b \<noteq> a" using inj[of k] by (auto split: if_splits)
    then show "\<not> dead (ents (r\<lparr>ents := (ents r)(a := e), sets := AList.delete n (sets r)\<rparr>) b)"
      "b < znext (r\<lparr>ents := (ents r)(a := e), sets := AList.delete n (sets r)\<rparr>)"
      "scores (ents (r\<lparr>ents := (ents r)(a := e), sets := AList.delete n (sets r)\<rparr>) b) \<noteq> [] \<or> (k, b) \<in> P"
      using inv unfolding zinv_def by auto
  next
    fix k b assume k: "(k, b) \<in> P"
    then have "dead (ents r b) \<or> map_of (sets r) k = Some b" using inv unfolding zinv_def by blast
    then show "dead (ents (r\<lparr>ents := (ents r)(a := e), sets := AList.delete n (sets r)\<rparr>) b) \<or>
        map_of (sets (r\<lparr>ents := (ents r)(a := e), sets := AList.delete n (sets r)\<rparr>)) k = Some b"
      using e(2) reg by (cases "b = a"; cases "k = n") auto
    from k show "b < znext (r\<lparr>ents := (ents r)(a := e), sets := AList.delete n (sets r)\<rparr>)"
      using inv unfolding zinv_def by auto
  next
    fix k k' b
    assume "map_of (sets (r\<lparr>ents := (ents r)(a := e), sets := AList.delete n (sets r)\<rparr>)) k = Some b"
      "map_of (sets (r\<lparr>ents := (ents r)(a := e), sets := AList.delete n (sets r)\<rparr>)) k' = Some b"
    then show "k = k'" using inv unfolding zinv_def by (auto split: if_splits)
  qed (use inv e(1) in \<open>auto simp: zinv_def\<close>)
qed

lemma zview_write:
  assumes inv: "zinv r P" and reg: "map_of (sets r) n = Some a"
  shows "zview (r\<lparr>ents := (ents r)(a := e)\<rparr>) =
    (\<lambda>k x. if k = n then map_of (scores e) x else zview r k x)"
proof -
  have inj: "map_of (sets r) k = Some a \<Longrightarrow> k = n" for k using inv reg unfolding zinv_def by blast
  have "zview (r\<lparr>ents := (ents r)(a := e)\<rparr>) k x =
    (if k = n then map_of (scores e) x else zview r k x)" for k x
    using reg inj[of k] by (cases "map_of (sets r) k") (auto simp: zview_def)
  then show ?thesis by blast
qed

lemma zview_kill:
  assumes inv: "zinv r P" and reg: "map_of (sets r) n = Some a"
  shows "zview (r\<lparr>ents := (ents r)(a := e), sets := AList.delete n (sets r)\<rparr>) =
    (\<lambda>k x. if k = n then None else zview r k x)"
proof -
  have inj: "map_of (sets r) k = Some a \<Longrightarrow> k = n" for k using inv reg unfolding zinv_def by blast
  have "zview (r\<lparr>ents := (ents r)(a := e), sets := AList.delete n (sets r)\<rparr>) k x =
    (if k = n then None else zview r k x)" for k x
    using reg inj[of k] by (cases "map_of (sets r) k") (auto simp: zview_def)
  then show ?thesis by blast
qed

lemma zadd_locked_spec:
  assumes inv: "zinv r P" and held: "(n, a) \<in> P" and nan: "\<not> f64_nan s"
    and op: "zadd_locked r a s m = Some (b, r')"
  shows "zinv r' (P - {(n, a)})" "b = (zview r n m = None)"
    "zview r' = (\<lambda>k x. if k = n \<and> x = m \<and> (case zview r n m of None \<Rightarrow> True | Some old \<Rightarrow> \<not> f64_eq old s)
       then Some s else zview r k x)"
    "map_of (sets r') n = Some a"
proof -
  let ?e = "ents r a"
  have alive: "\<not> dead ?e" using op by (auto simp: zadd_locked_def Let_def split: if_splits)
  then have reg: "map_of (sets r) n = Some a" using inv held by (auto simp: zinv_def)
  have eok: "bti.agrees (tree ?e) (scores ?e)" using inv by (auto simp: zinv_def entry_ok_def)
  have v: "zview r n x = map_of (scores ?e) x" for x using reg by (simp add: zview_def)
  have main: "zinv r1 (P - {(n, a)}) \<and> zview r1 = (\<lambda>k x. if k = n \<and> x = m then Some s else zview r k x)"
    if r1: "r1 = r\<lparr>ents := (ents r)(a := ?e\<lparr>tree := t2, scores := AList.update m s (scores ?e)\<rparr>)\<rparr>"
      and ag: "bti.agrees t2 (AList.update m s (scores ?e))" for r1 t2
  proof -
    have ne: "AList.update m s (scores ?e) \<noteq> []" by (cases "scores ?e") auto
    have "zinv r1 (P - {(n, a)})"
      unfolding r1 using ag ne alive by (intro zinv_write[OF inv reg]) (auto simp: entry_ok_def)
    moreover have "zview r1 = (\<lambda>k x. if k = n \<and> x = m then Some s else zview r k x)"
      unfolding r1 zview_write[OF inv reg] using v by (auto simp: fun_eq_iff)
    ultimately show ?thesis by blast
  qed
  have "zinv r' (P - {(n, a)}) \<and> b = (zview r n m = None) \<and>
    zview r' = (\<lambda>k x. if k = n \<and> x = m \<and> (case zview r n m of None \<Rightarrow> True | Some old \<Rightarrow> \<not> f64_eq old s)
       then Some s else zview r k x) \<and> map_of (sets r') n = Some a"
  proof (cases "map_of (scores ?e) m")
    case None
    note main[OF refl bti.agrees_insert[OF eok None nan]]
    with None op alive reg v show ?thesis by (auto simp: zadd_locked_def Let_def fun_eq_iff)
  next
    case (Some old)
    show ?thesis
    proof (cases "f64_eq old s")
      case True
      have ne: "scores ?e \<noteq> []" using Some by auto
      have "r\<lparr>ents := (ents r)(a := ?e)\<rparr> = r" by simp
      then have "zinv r (P - {(n, a)})"
        using zinv_write[OF inv reg, of ?e] ne alive inv by (auto simp: zinv_def)
      with True Some op alive reg v show ?thesis
        by (auto simp: zadd_locked_def Let_def fun_eq_iff)
    next
      case False
      note main[OF refl bti.agrees_rescore[OF eok Some nan]]
      with False Some op alive reg v show ?thesis by (auto simp: zadd_locked_def Let_def fun_eq_iff)
    qed
  qed
  then show "zinv r' (P - {(n, a)})" "b = (zview r n m = None)"
    "zview r' = (\<lambda>k x. if k = n \<and> x = m \<and> (case zview r n m of None \<Rightarrow> True | Some old \<Rightarrow> \<not> f64_eq old s)
       then Some s else zview r k x)" "map_of (sets r') n = Some a" by blast+
qed

lemma ZAdd_spec:
  assumes inv: "zinv r {}" and nan: "\<not> f64_nan s"
  obtains r' where "ZAdd r n s m = Some (zview r n m = None, r')" "zinv r' {}"
    "zview r' = (\<lambda>k x. if k = n \<and> x = m \<and> (case zview r n m of None \<Rightarrow> True | Some old \<Rightarrow> \<not> f64_eq old s)
       then Some s else zview r k x)"
proof -
  obtain a r1 where g: "getOrCreate r n = (a, r1)" by (cases "getOrCreate r n")
  note g1 = getOrCreate_inv[OF inv g]
  have "zadd_locked r1 a s m \<noteq> None"
    using g1(4) by (auto simp: zadd_locked_def Let_def split: option.splits)
  then obtain b r' where l: "zadd_locked r1 a s m = Some (b, r')" by auto
  note l1 = zadd_locked_spec[OF g1(1) insertI1 nan l, unfolded g1(2)]
  have "ZAdd r n s m = Some (b, r')"
    using nan g l by (simp add: ZAdd_def zadd_loop.simps[of r])
  with l1 that show thesis by simp
qed

lemma zrem_locked_spec:
  assumes inv: "zinv r P" and held: "map_of (sets r) n = Some a \<or> dead (ents r a)"
    and op: "zrem_locked r n a m = (b, r')"
  shows "zinv r' P" "b = (map_of (scores (ents r a)) m \<noteq> None)"
    "zview r' = (\<lambda>k x. if b \<and> k = n \<and> x = m then None else zview r k x)"
proof -
  let ?e = "ents r a"
  have eok: "bti.agrees (tree ?e) (scores ?e)" "dead ?e \<Longrightarrow> scores ?e = []"
    using inv by (auto simp: zinv_def entry_ok_def)
  have "zinv r' P \<and> b = (map_of (scores ?e) m \<noteq> None) \<and>
    zview r' = (\<lambda>k x. if b \<and> k = n \<and> x = m then None else zview r k x)"
  proof (cases "map_of (scores ?e) m")
    case None
    with op inv show ?thesis by (auto simp: zrem_locked_def Let_def)
  next
    case (Some s)
    then have alive: "\<not> dead ?e" using eok(2) by auto
    with held have reg: "map_of (sets r) n = Some a" by blast
    have inj: "map_of (sets r) k = Some a \<Longrightarrow> k = n" for k using inv reg unfolding zinv_def by blast
    note ag = bti.agrees_delete[OF eok(1) Some]
    let ?sc = "AList.delete m (scores ?e)"
    define r1 where "r1 = r\<lparr>ents := (ents r)(a := ?e\<lparr>scores := ?sc,
        tree := snd (bt_delete (tree ?e) s m), dead := (length ?sc = 0 \<or> dead ?e)\<rparr>),
        sets := (if length ?sc = 0 \<and> map_of (sets r) n = Some a
          then AList.delete n (sets r) else sets r)\<rparr>"
    have "zrem_locked r n a m = (True,
        if length ?sc = 0 then account (- (setOverhead + int (length n)))
          (account (- (memberOverhead + int (length m))) r1)
        else account (- (memberOverhead + int (length m))) r1)"
      unfolding zrem_locked_def r1_def Let_def using Some by simp
    then have r': "b" "\<exists>d. r' = account d r1"
      using op by (auto simp: account_account split: if_splits)
    have "zinv r1 P"
    proof (cases "length ?sc = 0")
      case True
      then show ?thesis
        using zinv_kill[OF inv reg, of "?e\<lparr>scores := ?sc, tree := snd (bt_delete (tree ?e) s m), dead := True\<rparr>"]
          ag reg by (simp add: r1_def entry_ok_def)
    next
      case False
      then show ?thesis
        using zinv_write[OF inv reg,
            of "?e\<lparr>scores := ?sc, tree := snd (bt_delete (tree ?e) s m), dead := False\<rparr>" P]
          ag reg alive by (auto simp add: r1_def entry_ok_def)
    qed
    moreover have "zview r1 k x = (if k = n \<and> x = m then None else zview r k x)" for k x
    proof -
      have v: "zview r n y = map_of (scores ?e) y" for y using reg by (simp add: zview_def)
      have sc: "map_of ?sc y = (if y = m then None else zview r n y)" for y using v by simp
      show ?thesis
      proof (cases "length ?sc = 0")
        case True
        then have "zview r1 = (\<lambda>k x. if k = n then None else zview r k x)"
          unfolding r1_def using zview_kill[OF inv reg] reg by simp
        moreover have "zview r n y = None" if "y \<noteq> m" for y using sc[of y] True that by (metis length_0_conv map_of.simps(1))
        ultimately show ?thesis by auto
      next
        case False
        then have r1w: "r1 = r\<lparr>ents := (ents r)(a := ?e\<lparr>scores := ?sc,
          tree := snd (bt_delete (tree ?e) s m), dead := dead ?e\<rparr>)\<rparr>" unfolding r1_def by simp
        have "zview r1 = (\<lambda>k x. if k = n then map_of ?sc x else zview r k x)"
          unfolding r1w zview_write[OF inv reg] by (simp cong: if_cong)
        then show ?thesis using v by auto
      qed
    qed
    ultimately show ?thesis using r' Some by (auto simp: fun_eq_iff)
  qed
  then show "zinv r' P" "b = (map_of (scores ?e) m \<noteq> None)"
    "zview r' = (\<lambda>k x. if b \<and> k = n \<and> x = m then None else zview r k x)" by blast+
qed

lemma ZRem_spec:
  assumes inv: "zinv r {}"
  obtains r' where "ZRem r n m = (zview r n m \<noteq> None, r')" "zinv r' {}"
    "zview r' = (\<lambda>k x. if k = n \<and> x = m then None else zview r k x)"
proof (cases "map_of (sets r) n")
  case None
  then have "ZRem r n m = (zview r n m \<noteq> None, r)" "zview r = (\<lambda>k x. if k = n \<and> x = m then None else zview r k x)"
    by (auto simp: ZRem_def zget_def zview_def fun_eq_iff)
  with inv that show thesis by blast
next
  case (Some a)
  obtain b r' where l: "zrem_locked r n a m = (b, r')" by (cases "zrem_locked r n a m")
  have h: "map_of (sets r) n = Some a \<or> dead (ents r a)" using Some by simp
  note l1 = zrem_locked_spec[OF inv h l]
  have "b = (zview r n m \<noteq> None)" using l1(2) Some by (simp add: zview_def)
  moreover from this have "zview r' = (\<lambda>k x. if k = n \<and> x = m then None else zview r k x)"
    unfolding l1(3) by (auto simp: fun_eq_iff)
  moreover have "ZRem r n m = (b, r')" using Some l by (simp add: ZRem_def zget_def)
  ultimately show thesis using that l1(1) by blast
qed

section \<open>Memory accounting\<close>

definition member_bytes :: "(string, f64) gomap \<Rightarrow> int" where
  "member_bytes sc = entry_sum (\<lambda>m _. memberOverhead + int (length m)) sc"

definition zbytes :: "zreg \<Rightarrow> int" where
  "zbytes r = entry_sum (\<lambda>n a. setOverhead + int (length n) + member_bytes (scores (ents r a))) (sets r)"

text \<open>An operation charges the shared counter by what it changes.\<close>

definition accounts :: "zreg \<Rightarrow> zreg \<Rightarrow> bool" where
  "accounts r r' \<longleftrightarrow> zmem r' = map_option (\<lambda>x. x + (zbytes r' - zbytes r)) (zmem r)"

lemma accounts_refl: "accounts r r"
  by (cases "zmem r") (simp_all add: accounts_def)

lemma accounts_trans: "accounts r1 r2 \<Longrightarrow> accounts r2 r3 \<Longrightarrow> accounts r1 r3"
  by (cases "zmem r1") (auto simp: accounts_def)

lemma zbytes_account [simp]: "zbytes (account d r) = zbytes r"
  by (simp add: zbytes_def)

lemma zbytes_write:
  assumes inv: "zinv r P" and reg: "map_of (sets r) n = Some a"
  shows "zbytes (r\<lparr>ents := (ents r)(a := e)\<rparr>) =
    zbytes r - member_bytes (scores (ents r a)) + member_bytes (scores e)"
proof -
  have inj: "map_of (sets r) k = Some a \<Longrightarrow> k = n" for k using inv reg unfolding zinv_def by blast
  have kd: "keys_distinct (sets r)" using inv by (simp add: zinv_def)
  let ?w = "\<lambda>h n a. setOverhead + int (length n) + member_bytes (scores (h a))"
  have "entry_sum (?w ((ents r)(a := e))) (sets r) =
      entry_sum (?w (ents r)) (sets r) - ?w (ents r) n a + ?w ((ents r)(a := e)) n a"
    by (rule entry_sum_change[OF kd reg]) (use inj in auto)
  then show ?thesis by (simp add: zbytes_def)
qed

lemma zbytes_kill:
  assumes inv: "zinv r P" and reg: "map_of (sets r) n = Some a"
  shows "zbytes (r\<lparr>ents := (ents r)(a := e), sets := AList.delete n (sets r)\<rparr>) =
    zbytes r - (setOverhead + int (length n)) - member_bytes (scores (ents r a))"
proof -
  have inj: "map_of (sets r) k = Some a \<Longrightarrow> k = n" for k using inv reg unfolding zinv_def by blast
  have kd: "keys_distinct (sets r)" using inv by (simp add: zinv_def)
  let ?w = "\<lambda>h n a. setOverhead + int (length n) + member_bytes (scores (h a))"
  have "entry_sum (?w ((ents r)(a := e))) (AList.delete n (sets r)) =
      entry_sum (?w ((ents r)(a := e))) (sets r) - ?w ((ents r)(a := e)) n a"
    using entry_sum_delete[OF kd, of _ n] reg by simp
  also have "\<dots> = entry_sum (?w (ents r)) (sets r) - ?w (ents r) n a"
    using entry_sum_change[OF kd reg, of "?w ((ents r)(a := e))" "?w (ents r)"] inj by fastforce
  finally show ?thesis by (simp add: zbytes_def)
qed

lemma getOrCreate_accounts:
  assumes "zinv r P" "getOrCreate r n = (a, r')"
  shows "accounts r r'"
proof (cases "map_of (sets r) n")
  case (Some b)
  with assms show ?thesis by (auto simp: getOrCreate_def zget_def accounts_refl)
next
  case None
  let ?h = "(ents r)(znext r := zentry_new)"
  let ?w = "\<lambda>h n a. setOverhead + int (length n) + member_bytes (scores (h a))"
  have kd: "keys_distinct (sets r)" using assms by (simp add: zinv_def)
  have "entry_sum (?w ?h) (sets r) = entry_sum (?w (ents r)) (sets r)"
  proof -
    have "b \<noteq> znext r" if "(k, b) \<in> set (sets r)" for k b
      using that assms(1) kd keys_distinct_map_of unfolding zinv_def by (metis less_irrefl)
    then show ?thesis unfolding entry_sum_def by (intro arg_cong[of _ _ sum_list] map_cong) auto
  qed
  moreover have "entry_sum (?w ?h) (AList.update n (znext r) (sets r)) =
      entry_sum (?w ?h) (sets r) + ?w ?h n (znext r)"
    using entry_sum_update[OF kd, of "?w ?h" n "znext r"] None by simp
  moreover have "member_bytes (scores zentry_new) = 0" by (simp add: member_bytes_def zentry_new_def)
  ultimately show ?thesis
    using assms(2) None by (cases "zmem r") (auto simp: getOrCreate_def zget_def Let_def accounts_def zbytes_def)
qed

lemma zadd_locked_accounts:
  assumes inv: "zinv r P" and reg: "map_of (sets r) n = Some a"
    and op: "zadd_locked r a s m = Some (b, r')"
  shows "accounts r r'"
proof -
  let ?e = "ents r a"
  have alive: "\<not> dead ?e" and kd: "keys_distinct (scores ?e)"
    using op inv by (auto simp: zadd_locked_def Let_def zinv_def entry_ok_def bti.agrees_def split: if_splits)
  have mb: "member_bytes (AList.update m s (scores ?e)) = member_bytes (scores ?e) +
      (if map_of (scores ?e) m = None then memberOverhead + int (length m) else 0)"
    using entry_sum_update[OF kd] by (auto simp: member_bytes_def split: option.splits)
  have w: "zbytes (r\<lparr>ents := (ents r)(a := ?e\<lparr>tree := t, scores := AList.update m s (scores ?e)\<rparr>)\<rparr>) =
      zbytes r + (if map_of (scores ?e) m = None then memberOverhead + int (length m) else 0)" for t
    unfolding zbytes_write[OF inv reg] using mb by simp
  show ?thesis
    using op alive w accounts_refl
    by (cases "zmem r") (auto simp: zadd_locked_def Let_def accounts_def split: option.splits if_splits)
qed

lemma zrem_locked_accounts:
  assumes inv: "zinv r P" and held: "map_of (sets r) n = Some a \<or> dead (ents r a)"
    and op: "zrem_locked r n a m = (b, r')"
  shows "accounts r r'"
proof (cases "map_of (scores (ents r a)) m")
  case None
  with op show ?thesis by (auto simp: zrem_locked_def accounts_refl)
next
  case (Some s)
  let ?e = "ents r a"
  let ?sc = "AList.delete m (scores ?e)"
  have kd: "keys_distinct (scores ?e)" and eok: "dead ?e \<Longrightarrow> scores ?e = []"
    using inv by (auto simp: zinv_def entry_ok_def bti.agrees_def)
  have alive: "\<not> dead ?e" using eok Some by auto
  with held have reg: "map_of (sets r) n = Some a" by blast
  have mb: "member_bytes ?sc = member_bytes (scores ?e) - (memberOverhead + int (length m))"
    using entry_sum_delete[OF kd] Some by (auto simp: member_bytes_def)
  show ?thesis
  proof (cases "length ?sc = 0")
    case True
    then have "member_bytes ?sc = 0" by (simp add: member_bytes_def)
    with mb have "member_bytes (scores ?e) = memberOverhead + int (length m)" by simp
    with True Some reg op alive show ?thesis
      by (cases "zmem r") (auto simp: zrem_locked_def Let_def accounts_def zbytes_kill[OF inv reg])
  next
    case False
    with Some reg op alive mb show ?thesis
      by (cases "zmem r") (auto simp: zrem_locked_def Let_def accounts_def zbytes_write[OF inv reg])
  qed
qed

lemma ZAdd_accounts:
  assumes inv: "zinv r {}" and op: "ZAdd r n s m = Some (b, r')"
  shows "accounts r r'"
proof (cases "f64_nan s")
  case True
  with op show ?thesis by (auto simp: ZAdd_def accounts_refl)
next
  case False
  obtain a r1 where g: "getOrCreate r n = (a, r1)" by (cases "getOrCreate r n")
  note g1 = getOrCreate_inv[OF inv g]
  have "zadd_locked r1 a s m \<noteq> None"
    using g1(4) by (auto simp: zadd_locked_def Let_def split: option.splits)
  then have "zadd_locked r1 a s m = Some (b, r')"
    using op g False by (auto simp: ZAdd_def zadd_loop.simps[of r] split: option.splits)
  with g1 show ?thesis
    using accounts_trans getOrCreate_accounts[OF inv g] zadd_locked_accounts by blast
qed

lemma ZRem_accounts:
  assumes inv: "zinv r {}" and op: "ZRem r n m = (b, r')"
  shows "accounts r r'"
  using assms zrem_locked_accounts[of r "{}" n]
  by (auto simp: ZRem_def zget_def accounts_refl split: option.splits)

section \<open>Queries\<close>

lemma fold_until_collect:
  "fold_until (\<lambda>out it. (out @ [f it], True)) xs acc = acc @ map f xs"
  by (induction xs arbitrary: acc) auto

lemma fold_until_go: "fold_until (\<lambda>s it. (g s it, True)) xs s = fold (\<lambda>it s. g s it) xs s"
  by (induction xs arbitrary: s) auto

definition zitems :: "zreg \<Rightarrow> string \<Rightarrow> item list" where
  "zitems r n = (case map_of (sets r) n of None \<Rightarrow> [] | Some a \<Rightarrow> bt_items (tree (ents r a)))"

lemma item_eta: "\<lparr>Score = Score x, Member = Member x\<rparr> = x"
  by (cases x) simp

text \<open>The elements of a set in order are exactly its view.\<close>

lemma zitems_view:
  assumes "zinv r P"
  shows "sorted_wrt (<) (keys (zitems r n))" "distinct (map Member (zitems r n))"
    "\<lparr>Score = s, Member = m\<rparr> \<in> set (zitems r n) \<longleftrightarrow> zview r n m = Some s"
    "length (zitems r n) = ZCard r n"
proof -
  have "sorted_wrt (<) (keys (zitems r n)) \<and> distinct (map Member (zitems r n)) \<and>
    (\<lparr>Score = s, Member = m\<rparr> \<in> set (zitems r n) \<longleftrightarrow> zview r n m = Some s) \<and>
    length (zitems r n) = ZCard r n"
  proof (cases "map_of (sets r) n")
    case None
    then show ?thesis by (simp add: zitems_def zview_def ZCard_def zget_def)
  next
    case (Some a)
    have ag: "bti.agrees (tree (ents r a)) (scores (ents r a))"
      using assms by (auto simp: zinv_def entry_ok_def)
    moreover have "bt_inv (tree (ents r a))" using ag by (simp add: bti.agrees_def)
    ultimately show ?thesis
      using Some bti.agrees_members[OF ag] bti.agrees_length[OF ag] bt_inv_sorted
      by (auto simp: zitems_def zview_def ZCard_def zget_def bti.agrees_def)
  qed
  then show "sorted_wrt (<) (keys (zitems r n))" "distinct (map Member (zitems r n))"
    "\<lparr>Score = s, Member = m\<rparr> \<in> set (zitems r n) \<longleftrightarrow> zview r n m = Some s"
    "length (zitems r n) = ZCard r n" by blast+
qed

lemma ent_inv: "zinv r P \<Longrightarrow> bt_inv (tree (ents r a))"
  by (auto simp: zinv_def entry_ok_def bti.agrees_def)

lemma ZRangeByScore_items:
  "zinv r P \<Longrightarrow> ZRangeByScore r n mn mx =
    Some (map (\<lambda>it. (Score it, Member it))
      (filter (\<lambda>x. f64_le mn (Score x) \<and> f64_le (Score x) mx) (zitems r n)))"
  by (auto simp: ZRangeByScore_def zget_def zitems_def bt_range_spec ent_inv fold_until_collect
      split: option.splits)

lemma ZForEach_items:
  "zinv r P \<Longrightarrow> ZForEach r n fn s = Some (fold (\<lambda>it s. fn s (Score it) (Member it)) (zitems r n) s)"
  using fold_until_collect[of "\<lambda>x::item. x" _ "[]"]
  by (simp add: ZForEach_def zget_def zitems_def bt_forEach_spec ent_inv split: option.splits)

lemma ZAdd_roundtrip: "DecodeZAddValue (EncodeZAddValue s m) = Some (s, m)"
proof -
  have "unat s < 256 ^ 8" using unsigned_less[of s] by simp
  then show ?thesis by (simp add: DecodeZAddValue_def EncodeZAddValue_def le_dec_enc)
qed

section \<open>Concurrent writers\<close>

text \<open>A writer first takes the entry (\<open>getOrCreate\<close>, \<open>get\<close>), then, at some later moment, the
  entry's lock. \<open>T\<close> maps a writer in between to what it is about to do.\<close>

datatype zpend = PAdd string f64 string nat | PRem string string nat

fun pend_adds :: "zpend \<Rightarrow> (string \<times> nat) set" where
  "pend_adds (PAdd n s m a) = {(n, a)}" | "pend_adds (PRem n m a) = {}"

inductive zstep :: "zreg \<times> (nat \<Rightarrow> zpend option) \<Rightarrow> zreg \<times> (nat \<Rightarrow> zpend option) \<Rightarrow> bool" where
  add_take: "T t = None \<Longrightarrow> \<not> f64_nan s \<Longrightarrow> getOrCreate r n = (a, r') \<Longrightarrow>
     zstep (r, T) (r', T(t \<mapsto> PAdd n s m a))"
| add_retry: "T t = Some (PAdd n s m a) \<Longrightarrow> zadd_locked r a s m = None \<Longrightarrow>
     getOrCreate r n = (a', r') \<Longrightarrow> zstep (r, T) (r', T(t \<mapsto> PAdd n s m a'))"
| add_done: "T t = Some (PAdd n s m a) \<Longrightarrow> zadd_locked r a s m = Some (b, r') \<Longrightarrow>
     zstep (r, T) (r', T(t := None))"
| rem_take: "T t = None \<Longrightarrow> zget r n = Some a \<Longrightarrow> zstep (r, T) (r, T(t \<mapsto> PRem n m a))"
| rem_done: "T t = Some (PRem n m a) \<Longrightarrow> zrem_locked r n a m = (b, r') \<Longrightarrow>
     zstep (r, T) (r', T(t := None))"

inductive zreach :: "zreg \<times> (nat \<Rightarrow> zpend option) \<Rightarrow> bool" where
  zreach_init: "zreach (zreg_new mem, Map.empty)"
| zreach_step: "zreach st \<Longrightarrow> zstep st st' \<Longrightarrow> zreach st'"

definition adds :: "(nat \<Rightarrow> zpend option) \<Rightarrow> (string \<times> nat) set" where
  "adds T = {p. \<exists>t x. T t = Some x \<and> p \<in> pend_adds x}"

definition pend_ok :: "zreg \<Rightarrow> (nat \<Rightarrow> zpend option) \<Rightarrow> bool" where
  "pend_ok r T \<longleftrightarrow> (\<forall>t n m a. T t = Some (PRem n m a) \<longrightarrow>
     a < znext r \<and> (map_of (sets r) n = Some a \<or> dead (ents r a))) \<and>
     (\<forall>t n s m a. T t = Some (PAdd n s m a) \<longrightarrow> \<not> f64_nan s)"

lemma adds_iff: "(n, a) \<in> adds T \<longleftrightarrow> (\<exists>t s m. T t = Some (PAdd n s m a))"
proof
  assume "(n, a) \<in> adds T"
  then obtain t x where "T t = Some x" "(n, a) \<in> pend_adds x" by (auto simp: adds_def)
  then show "\<exists>t s m. T t = Some (PAdd n s m a)" by (cases x) auto
qed (force simp: adds_def)

lemma adds_upd: "adds (T(t := x)) = (case x of Some y \<Rightarrow> pend_adds y | None \<Rightarrow> {}) \<union>
    {p. \<exists>t' y. t' \<noteq> t \<and> T t' = Some y \<and> p \<in> pend_adds y}"
proof (rule set_eqI)
  fix p
  show "p \<in> adds (T(t := x)) \<longleftrightarrow> p \<in> (case x of Some y \<Rightarrow> pend_adds y | None \<Rightarrow> {}) \<union>
    {p. \<exists>t' y. t' \<noteq> t \<and> T t' = Some y \<and> p \<in> pend_adds y}" (is "?l \<longleftrightarrow> ?r")
  proof
    assume ?l
    then obtain t' y where "(T(t := x)) t' = Some y" "p \<in> pend_adds y" by (auto simp: adds_def)
    then show ?r by (cases "t' = t") auto
  next
    assume ?r
    then have "(\<exists>y. (T(t := x)) t = Some y \<and> p \<in> pend_adds y) \<or>
        (\<exists>t' y. (T(t := x)) t' = Some y \<and> p \<in> pend_adds y)"
      by (auto split: option.splits)
    then show ?l unfolding adds_def by blast
  qed
qed

lemma adds_new:
  assumes "T t = None"
  shows "adds (T(t \<mapsto> PAdd n s m a)) = insert (n, a) (adds T)"
  using assms adds_upd[of T t "Some (PAdd n s m a)"] adds_upd[of T t "T t", unfolded fun_upd_triv] by auto

lemma zinv_shrink:
  "zinv r P \<Longrightarrow> Q \<subseteq> P \<Longrightarrow> (\<And>n a. (n, a) \<in> P \<Longrightarrow> (n, a) \<notin> Q \<Longrightarrow>
     map_of (sets r) n = Some a \<Longrightarrow> scores (ents r a) \<noteq> []) \<Longrightarrow> zinv r Q"
  unfolding zinv_def by blast

lemma zinv_extend:
  assumes "zinv r P" "\<And>n a. (n, a) \<in> Q \<Longrightarrow> (n, a) \<notin> P \<Longrightarrow> map_of (sets r) n = Some a"
  shows "zinv r (P \<union> Q)"
  using assms unfolding zinv_def by blast

text \<open>What every step does to an entry that some writer holds: it stays where it was registered or
  dies.\<close>

lemma getOrCreate_keeps:
  assumes "zinv r P" "getOrCreate r n = (a, r')" "b < znext r"
    "map_of (sets r) k = Some b \<or> dead (ents r b)"
  shows "b < znext r' \<and> (map_of (sets r') k = Some b \<or> dead (ents r' b))"
  using assms by (cases "map_of (sets r) n") (auto simp: getOrCreate_def zget_def Let_def)

lemma zadd_locked_keeps:
  assumes "zadd_locked r a s m = Some (b', r')" "b < znext r"
    "map_of (sets r) k = Some b \<or> dead (ents r b)"
  shows "b < znext r' \<and> (map_of (sets r') k = Some b \<or> dead (ents r' b))"
  using assms by (auto simp: zadd_locked_def Let_def split: if_splits option.splits)

lemma zrem_locked_keeps:
  assumes "zinv r P" "zrem_locked r n a m = (b', r')" "b < znext r"
    "map_of (sets r) k = Some b \<or> dead (ents r b)"
  shows "b < znext r' \<and> (map_of (sets r') k = Some b \<or> dead (ents r' b))"
proof -
  have inj: "map_of (sets r) k = Some a \<Longrightarrow> map_of (sets r) n = Some a \<Longrightarrow> k = n"
    using assms(1) unfolding zinv_def by blast
  with assms(2-4) show ?thesis
    by (auto simp: zrem_locked_def Let_def split: if_splits option.splits)
qed

lemma pend_ok_step:
  assumes k: "pend_ok r T"
    and keep: "\<And>b k. b < znext r \<Longrightarrow> map_of (sets r) k = Some b \<or> dead (ents r b) \<Longrightarrow>
      b < znext r' \<and> (map_of (sets r') k = Some b \<or> dead (ents r' b))"
    and T': "\<And>t'. T' t' = T t' \<or> T' t' = None \<or> (\<exists>n s m a. T' t' = Some (PAdd n s m a) \<and> \<not> f64_nan s)"
  shows "pend_ok r' T'"
  unfolding pend_ok_def
proof (intro conjI allI impI)
  fix t n m a assume t: "T' t = Some (PRem n m a)"
  then have "T t = Some (PRem n m a)" using T'[of t] by auto
  with k have "a < znext r" "map_of (sets r) n = Some a \<or> dead (ents r a)"
    unfolding pend_ok_def by blast+
  from keep[OF this] show "a < znext r'" "map_of (sets r') n = Some a \<or> dead (ents r' a)" by blast+
next
  fix t n s m a assume t: "T' t = Some (PAdd n s m a)"
  then have "T t = Some (PAdd n s m a) \<or> \<not> f64_nan s" using T'[of t] by auto
  with k show "\<not> f64_nan s" unfolding pend_ok_def by blast
qed

lemma pend_ok_add:
  assumes "pend_ok r T" "\<not> f64_nan s"
    and "\<And>b k. b < znext r \<Longrightarrow> map_of (sets r) k = Some b \<or> dead (ents r b) \<Longrightarrow>
      b < znext r' \<and> (map_of (sets r') k = Some b \<or> dead (ents r' b))"
  shows "pend_ok r' (T(t \<mapsto> PAdd n s m a))"
  by (rule pend_ok_step[OF assms(1,3)]) (use assms(2) in auto)

lemma pend_ok_none:
  assumes "pend_ok r T"
    and "\<And>b k. b < znext r \<Longrightarrow> map_of (sets r) k = Some b \<or> dead (ents r b) \<Longrightarrow>
      b < znext r' \<and> (map_of (sets r') k = Some b \<or> dead (ents r' b))"
  shows "pend_ok r' (T(t := None))"
  by (rule pend_ok_step[OF assms]) auto

lemma zreach_inv: "zreach st \<Longrightarrow> case st of (r, T) \<Rightarrow> zinv r (adds T) \<and> pend_ok r T"
proof (induction rule: zreach.induct)
  case (zreach_init mem)
  show ?case using zinv_new by (simp add: adds_def pend_ok_def)
next
  case (zreach_step st st')
  from zreach_step.hyps(2) zreach_step.IH show ?case
  proof (induction rule: zstep.induct)
    case (add_take T t s r n a r' m)
    then have i: "zinv r (adds T)" and k: "pend_ok r T" by auto
    have "adds (T(t \<mapsto> PAdd n s m a)) = insert (n, a) (adds T)"
      using add_take(1) by (rule adds_new)
    then show ?case
      using getOrCreate_inv(1)[OF i add_take(3)]
        pend_ok_add[OF k add_take(2) getOrCreate_keeps[OF i add_take(3)], where t = t] by simp
  next
    case (add_retry T t n s m a r a' r')
    then have i: "zinv r (adds T)" and k: "pend_ok r T" by auto
    have d: "dead (ents r a)" using add_retry(2) by (auto simp: zadd_locked_def Let_def split: if_splits option.splits)
    have g: "zinv r' (insert (n, a') (adds T))" by (rule getOrCreate_inv(1)[OF i add_retry(3)])
    have held: "(n, a) \<in> adds T" using add_retry(1) by (auto simp: adds_iff)
    then have "a < znext r" using i by (auto simp: zinv_def)
    then have "dead (ents r' a)"
      using add_retry(3) d by (auto simp: getOrCreate_def zget_def Let_def split: option.splits)
    then have nreg: "map_of (sets r') q \<noteq> Some a" for q using zinv_dead[OF g] by blast
    have sub: "adds (T(t \<mapsto> PAdd n s m a')) \<subseteq> insert (n, a') (adds T)"
      unfolding subset_iff split_paired_All insert_iff adds_iff by auto
    have rest: "(q, b) = (n, a)"
      if "(q, b) \<in> insert (n, a') (adds T)" "(q, b) \<notin> adds (T(t \<mapsto> PAdd n s m a'))" for q b
      using that adds_upd[of T t "Some (PAdd n s m a')"] adds_upd[of T t "T t", unfolded fun_upd_triv] add_retry(1) by auto
    have "zinv r' (adds (T(t \<mapsto> PAdd n s m a')))"
      by (rule zinv_shrink[OF g sub]) (use rest nreg in blast)
    moreover have "\<not> f64_nan s" using k add_retry(1) unfolding pend_ok_def by blast
    ultimately show ?case
      using pend_ok_add[OF k _ getOrCreate_keeps[OF i add_retry(3)], where t = t] by simp
  next
    case (add_done T t n s m a r b r')
    then have i: "zinv r (adds T)" and k: "pend_ok r T" by auto
    have held: "(n, a) \<in> adds T" using add_done(1) by (force simp: adds_def)
    have alive: "\<not> dead (ents r a)" using add_done(2)
      by (auto simp: zadd_locked_def Let_def split: if_splits)
    then have reg: "map_of (sets r) n = Some a" using i held unfolding zinv_def by blast
    have nan: "\<not> f64_nan s" using k add_done(1) unfolding pend_ok_def by blast
    note sp = zadd_locked_spec[OF i held nan add_done(2)]
    have "adds T - {(n, a)} \<subseteq> adds (T(t := None))"
      using adds_upd[of T t None] adds_upd[of T t "T t", unfolded fun_upd_triv] add_done(1) by auto
    moreover have "zinv r' ((adds T - {(n, a)}) \<union> adds (T(t := None)))"
      by (rule zinv_extend[OF sp(1)]) (use sp(4) in \<open>auto simp: adds_iff split: if_splits\<close>)
    ultimately have "zinv r' (adds (T(t := None)))" by (simp add: Un_absorb1)
    then show ?case
      using pend_ok_none[OF k zadd_locked_keeps[OF add_done(2)], where t = t] by simp
  next
    case (rem_take T t r n a m)
    then have i: "zinv r (adds T)" and k: "pend_ok r T" by auto
    have "adds (T(t \<mapsto> PRem n m a)) = adds T"
      using adds_upd[of T t "Some (PRem n m a)"] adds_upd[of T t "T t", unfolded fun_upd_triv] rem_take(1)
      by auto
    moreover have "a < znext r" "map_of (sets r) n = Some a"
      using i rem_take(2) unfolding zinv_def zget_def by blast+
    moreover have "pend_ok r (T(t \<mapsto> PRem n m a))"
      using k calculation(2,3) unfolding pend_ok_def by auto
    ultimately show ?case using i by simp
  next
    case (rem_done T t n m a r b r')
    then have i: "zinv r (adds T)" and k: "pend_ok r T" by auto
    have h: "map_of (sets r) n = Some a \<or> dead (ents r a)" using k rem_done(1) by (auto simp: pend_ok_def)
    have "adds (T(t := None)) = adds T"
      using adds_upd[of T t None] adds_upd[of T t "T t", unfolded fun_upd_triv] rem_done(1) by auto
    then show ?case
      using zrem_locked_spec(1)[OF i h rem_done(2)]
        pend_ok_none[OF k zrem_locked_keeps[OF i rem_done(2)], where t = t] by simp
  qed
qed

section \<open>Properties\<close>

text \<open>C4: \<open>ZADD\<close> always returns; it answers whether the member is new, sets its score and leaves every
  other member of every set alone (a NaN, or a score equal to the old one, changes nothing), keeps
  tree and reverse index in agreement and charges the shared memory counter by exactly what it
  stored.\<close>

theorem zadd_correct:
  assumes "zinv r {}"
  shows "case ZAdd r n s m of
      None \<Rightarrow> False
    | Some (b, r') \<Rightarrow>
        zinv r' {} \<and> accounts r r' \<and> b = (\<not> f64_nan s \<and> ZScore r n m = None) \<and>
        (\<forall>k x. ZScore r' k x =
          (if k = n \<and> x = m \<and> \<not> f64_nan s \<and>
              (case ZScore r n m of None \<Rightarrow> True | Some old \<Rightarrow> \<not> f64_eq old s)
           then Some s else ZScore r k x))"
proof (cases "f64_nan s")
  case True
  with assms show ?thesis by (simp add: ZAdd_def accounts_refl)
next
  case False
  obtain r' where z: "ZAdd r n s m = Some (zview r n m = None, r')" "zinv r' {}"
    "zview r' = (\<lambda>k x. if k = n \<and> x = m \<and> (case zview r n m of None \<Rightarrow> True | Some old \<Rightarrow> \<not> f64_eq old s)
       then Some s else zview r k x)"
    using ZAdd_spec[OF assms False] .
  with False ZAdd_accounts[OF assms z(1)] show ?thesis by (simp add: ZScore_view)
qed

theorem zadd_correct_witness:
  "zinv (zreg_new (Some 0)) {} \<and>
   (case ZAdd (zreg_new (Some 0)) ''z'' f64_one ''m'' of None \<Rightarrow> False
    | Some (b, r') \<Rightarrow> b \<and> ZScore r' ''z'' ''m'' = Some f64_one)"
  using zadd_correct[OF zinv_new[of "Some 0"], where n = "''z''" and s = f64_one and m = "''m''"]
    zview_new[of "Some 0"]
  by (simp add: zinv_new ZScore_view split: option.splits prod.splits)

text \<open>\<open>ZREM\<close> answers whether the member was there, removes it and nothing else, gives back the
  memory it was charged for, and a set without members is off the registry.\<close>

lemma zrem_correct:
  assumes "zinv r {}"
  shows "case ZRem r n m of (b, r') \<Rightarrow>
    zinv r' {} \<and> accounts r r' \<and> b = (ZScore r n m \<noteq> None) \<and>
    (\<forall>k x. ZScore r' k x = (if k = n \<and> x = m then None else ZScore r k x)) \<and>
    (zget r' n = None \<longleftrightarrow> (\<forall>x. ZScore r' n x = None))"
proof -
  obtain r' where z: "ZRem r n m = (zview r n m \<noteq> None, r')" "zinv r' {}"
    "zview r' = (\<lambda>k x. if k = n \<and> x = m then None else zview r k x)"
    using ZRem_spec[OF assms] .
  have "zget r' n = None \<longleftrightarrow> (\<forall>x. zview r' n x = None)"
  proof (cases "map_of (sets r') n")
    case (Some a)
    then have "scores (ents r' a) \<noteq> []" using z(2) unfolding zinv_def by blast
    then obtain p ps where "scores (ents r' a) = p # ps" by (cases "scores (ents r' a)") auto
    then have "map_of (scores (ents r' a)) (fst p) = Some (snd p)" by simp
    with Some show ?thesis by (auto simp: zget_def zview_def)
  qed (simp add: zget_def zview_def)
  with z ZRem_accounts[OF assms z(1)] show ?thesis by (simp add: ZScore_view)
qed

definition sample_zreg :: zreg where
  "sample_zreg = (case ZAdd (zreg_new (Some 0)) ''z'' f64_one ''m'' of Some (b, r) \<Rightarrow> r
     | None \<Rightarrow> zreg_new None)"

lemma sample_zreg: "zinv sample_zreg {}" "ZScore sample_zreg ''z'' ''m'' = Some f64_one"
proof -
  obtain r' where r': "ZAdd (zreg_new (Some 0)) ''z'' f64_one ''m'' =
      Some (zview (zreg_new (Some 0)) ''z'' ''m'' = None, r')" "zinv r' {}"
    "zview r' = (\<lambda>k x. if k = ''z'' \<and> x = ''m'' \<and>
       (case zview (zreg_new (Some 0)) ''z'' ''m'' of None \<Rightarrow> True | Some old \<Rightarrow> \<not> f64_eq old f64_one)
       then Some f64_one else zview (zreg_new (Some 0)) k x)"
    using ZAdd_spec[OF zinv_new f64_consts(3)] .
  have "zview r' ''z'' ''m'' = Some f64_one" using r'(3) by (simp add: zview_new)
  with r' have "ZAdd (zreg_new (Some 0)) ''z'' f64_one ''m'' = Some (True, r') \<and> zinv r' {} \<and>
      zview r' ''z'' ''m'' = Some f64_one" by (simp add: zview_new)
  then show "zinv sample_zreg {}" "ZScore sample_zreg ''z'' ''m'' = Some f64_one"
    by (simp_all add: sample_zreg_def ZScore_view)
qed

lemma zrem_correct_witness:
  "zinv sample_zreg {} \<and> (case ZRem sample_zreg ''z'' ''m'' of (b, r') \<Rightarrow>
     b \<and> ZScore r' ''z'' ''m'' = None)"
  using zrem_correct[OF sample_zreg(1), of "''z''" "''m''"] sample_zreg by auto

text \<open>C5: \<open>ZRANGEBYSCORE\<close> returns, and returns the members whose score lies between the bounds, each
  once, ordered by score and then by member; \<open>ZCARD\<close> counts the members.\<close>

theorem zrange_correct:
  assumes "zinv r {}"
  shows "(case ZRangeByScore r n mn mx of
      None \<Rightarrow> False
    | Some out \<Rightarrow>
        sorted_wrt (\<lambda>(s, m) (s', m'). f64_key s < f64_key s' \<or> f64_key s = f64_key s' \<and> m < m') out \<and>
        distinct (map snd out) \<and>
        (\<forall>s m. (s, m) \<in> set out \<longleftrightarrow> ZScore r n m = Some s \<and> f64_le mn s \<and> f64_le s mx)) \<and>
    ZCard r n = card {m. ZScore r n m \<noteq> None}"
proof -
  let ?xs = "filter (\<lambda>x. f64_le mn (Score x) \<and> f64_le (Score x) mx) (zitems r n)"
  let ?out = "map (\<lambda>it. (Score it, Member it)) ?xs"
  have srt: "sorted_wrt (<) (keys ?xs)"
    using zitems_view(1)[OF assms, of n] by (simp add: sorted_wrt_map sorted_wrt_filter)
  then have "sorted_wrt (\<lambda>(s, m) (s', m'). f64_key s < f64_key s' \<or> f64_key s = f64_key s' \<and> m < m') ?out"
    by (simp add: sorted_wrt_map ikey_def less_prod_def)
       (erule sorted_wrt_mono_rel[rotated], auto simp: less_prod_def)
  moreover have "distinct (map snd ?out)"
    using zitems_view(2)[OF assms, of n] by (simp add: comp_def distinct_map_filter)
  moreover have "(s, m) \<in> set ?out \<longleftrightarrow> ZScore r n m = Some s \<and> f64_le mn s \<and> f64_le s mx" for s m
  proof -
    have "(s, m) \<in> set ?out \<longleftrightarrow> \<lparr>Score = s, Member = m\<rparr> \<in> set (zitems r n) \<and> f64_le mn s \<and> f64_le s mx"
    proof
      assume "(s, m) \<in> set ?out"
      then obtain x where "x \<in> set ?xs" "s = Score x" "m = Member x" by auto
      then show "\<lparr>Score = s, Member = m\<rparr> \<in> set (zitems r n) \<and> f64_le mn s \<and> f64_le s mx"
        by (simp add: item_eta)
    qed force
    then show ?thesis using zitems_view(3)[OF assms] by (simp add: ZScore_view)
  qed
  moreover have "ZCard r n = card {m. ZScore r n m \<noteq> None}"
  proof -
    have "{m. ZScore r n m \<noteq> None} = Member ` set (zitems r n)"
      using zitems_view(3)[OF assms] by (auto simp: ZScore_view) (metis image_eqI item.select_convs(2), metis item.surjective old.unit.exhaust option.distinct(1))
    then show ?thesis
      using zitems_view(2,4)[OF assms, of n] by (metis distinct_card length_map list.set_map)
  qed
  ultimately show ?thesis using ZRangeByScore_items[OF assms] by simp
qed

theorem zrange_correct_witness:
  "zinv sample_zreg {} \<and>
   (case ZRangeByScore sample_zreg ''z'' f64_zero f64_two of None \<Rightarrow> False
    | Some out \<Rightarrow> (f64_one, ''m'') \<in> set out)"
  using zrange_correct[OF sample_zreg(1), of "''z''" f64_zero f64_two] sample_zreg
  by (auto simp: f64_cmp split: option.splits)

text \<open>C6: no \<open>ZADD\<close> is lost to a concurrent \<open>ZREM\<close> that empties the set: in every reachable
  interleaving of writers, when a writer holding an entry it took earlier completes its add, the
  member is visible through the registry with that score.\<close>

theorem zadd_not_lost:
  assumes "zreach (r, T)" "T t = Some (PAdd n s m a)" "zadd_locked r a s m = Some (b, r')"
  shows "\<exists>s'. ZScore r' n m = Some s' \<and> f64_eq s' s"
proof -
  have i: "zinv r (adds T)" "pend_ok r T" using zreach_inv[OF assms(1)] by auto
  have held: "(n, a) \<in> adds T" using assms(2) by (auto simp: adds_iff)
  have nan: "\<not> f64_nan s" using i(2) assms(2) unfolding pend_ok_def by blast
  have "zview r' n m = (if (case zview r n m of None \<Rightarrow> True | Some old \<Rightarrow> \<not> f64_eq old s)
      then Some s else zview r n m)"
    using zadd_locked_spec(3)[OF i(1) held nan assms(3)] by simp
  then show ?thesis using nan by (auto simp: ZScore_view f64_cmp split: option.splits if_splits)
qed

theorem zadd_not_lost_witness:
  "\<exists>r T b r'. zreach (r, T) \<and> T 0 = Some (PAdd ''z'' f64_one ''m'' 0) \<and>
     zadd_locked r 0 f64_one ''m'' = Some (b, r') \<and>
     (\<exists>s'. ZScore r' ''z'' ''m'' = Some s' \<and> f64_eq s' f64_one)"
proof -
  let ?r = "snd (getOrCreate (zreg_new None) ''z'')"
  let ?T = "[0 \<mapsto> PAdd ''z'' f64_one ''m'' 0]"
  have g: "getOrCreate (zreg_new None) ''z'' = (0, ?r)"
    by (simp add: getOrCreate_def zget_def zreg_new_def Let_def)
  have reach: "zreach (?r, ?T)"
    using zreach_step[OF zreach_init add_take[OF _ f64_consts(3) g]] by simp
  have T: "?T 0 = Some (PAdd ''z'' f64_one ''m'' 0)" by simp
  obtain b r' where d: "zadd_locked ?r 0 f64_one ''m'' = Some (b, r')"
    by (simp add: zadd_locked_def getOrCreate_def zget_def zreg_new_def Let_def zentry_new_def)
  show ?thesis using reach T d zadd_not_lost[OF reach T d] by blast
qed

end
