(* ===== verification/Crc.thy ===== *)
theory Crc
  imports Prelude
begin

unbundle bit_operations_syntax

text \<open>The checksum of the journal (\<open>internal/wal\<close>) and of the snapshot of the vector store (\<open>vector\<close>), from Go's
  \<open>hash/crc32\<close>.\<close>

text \<open>\<open>crc32.ChecksumIEEE\<close>: the reflected CRC-32 with polynomial \<open>0xEDB88320\<close>, bit by bit.\<close>

fun crc_bits :: "nat \<Rightarrow> 32 word \<Rightarrow> 32 word" where
  "crc_bits 0 c = c"
| "crc_bits (Suc n) c =
     crc_bits n (if bit c 0 then drop_bit 1 c XOR 0xEDB88320 else drop_bit 1 c)"

definition crc32 :: "bytes \<Rightarrow> 32 word" where
  "crc32 bs = NOT (fold (\<lambda>b c. crc_bits 8 (c XOR of_nat (nat_of_byte b))) bs (NOT 0))"

end
