(* ===== verification/Wal.thy ===== *)
theory Wal
  imports Crc
begin

unbundle bit_operations_syntax

text \<open>
  The write-ahead log, \<open>internal/wal\<close>: the file header, the framing of records with length and
  CRC-32, the reader that stops at the first record that is not whole, the writer with its
  consecutive record numbers (LSN) and its latched failure, batches and the goroutine that forms
  them. A file is its bytes; what a crash leaves of it is the part that was synced and some prefix
  of the rest. The outcome of a write to the disk is an argument of the step that performs it.
\<close>

section \<open>Records and files\<close>

definition OpSet :: "8 word" where "OpSet = 1"
definition OpDel :: "8 word" where "OpDel = 2"
definition OpExpire :: "8 word" where "OpExpire = 3"
definition OpPersist :: "8 word" where "OpPersist = 4"
definition OpVSimAdd :: "8 word" where "OpVSimAdd = 5"
definition OpVSimDel :: "8 word" where "OpVSimDel = 6"
definition OpVSimAddAttrs :: "8 word" where "OpVSimAddAttrs = 7"
definition OpVSimAddDoc :: "8 word" where "OpVSimAddDoc = 8"
definition OpVSimAddDocBatch :: "8 word" where "OpVSimAddDocBatch = 9"
definition OpZAdd :: "8 word" where "OpZAdd = 16"
definition OpZRem :: "8 word" where "OpZRem = 17"

definition maxEntrySize :: nat where "maxEntrySize = 64 * 1024 * 1024"

record entry =
  LSN :: "64 word"
  Op :: "8 word"
  Key :: string
  Value :: bytes

definition encodeEntry :: "64 word \<Rightarrow> entry \<Rightarrow> bytes" where
  "encodeEntry lsn e =
     le_enc 8 (unat lsn) @ le_enc 1 (unat (Op e)) @ le_enc 4 (length (Key e)) @ Key e @ Value e"

definition decodeEntry :: "bytes \<Rightarrow> entry option" where
  "decodeEntry data =
     (if length data < 13 then None
      else
        let lsn = of_nat (le_dec (take 8 data));
            op = of_nat (nat_of_byte (data ! 8));
            keyLen = le_dec (take 4 (drop 9 data)) in
        if 13 + keyLen > length data then None
        else Some \<lparr>LSN = lsn, Op = op, Key = take keyLen (drop 13 data), Value = drop (13 + keyLen) data\<rparr>)"

text \<open>The frame of a record: \<open>[CRC32 4B][Length 4B][payload]\<close>.\<close>

definition frame :: "bytes \<Rightarrow> bytes" where
  "frame payload = le_enc 4 (unat (crc32 payload)) @ le_enc 4 (length payload) @ payload"

definition fileMagic :: bytes where "fileMagic = ''VKV1''"
definition fileFormatVersion :: nat where "fileFormatVersion = 1"
definition fileHeaderSize :: nat where "fileHeaderSize = 13"

definition fileHeader :: "64 word \<Rightarrow> bytes" where
  "fileHeader baseLSN = fileMagic @ le_enc 1 fileFormatVersion @ le_enc 8 (unat baseLSN)"

text \<open>\<open>io.EOF\<close> stands for \<open>no records\<close>; the other errors refuse the file.\<close>

datatype header_result =
  HdrEOF
| HdrBadMagic
| HdrNewer
| HdrOlder
| HdrOk "64 word"

definition readFileHeader :: "bytes \<Rightarrow> header_result" where
  "readFileHeader bs =
     (if length bs < fileHeaderSize then HdrEOF
      else if take 4 bs \<noteq> fileMagic then HdrBadMagic
      else if nat_of_byte (bs ! 4) \<noteq> fileFormatVersion then
        (if nat_of_byte (bs ! 4) > fileFormatVersion then HdrNewer else HdrOlder)
      else HdrOk (of_nat (le_dec (take 8 (drop 5 bs)))))"

text \<open>The loop of \<open>ReadFile\<close> over the records.\<close>

function read_records :: "bytes \<Rightarrow> entry list" where
  "read_records bs =
     (if length bs < 8 then []
      else
        let checksum = le_dec (take 4 bs); len = le_dec (take 4 (drop 4 bs)); rest = drop 8 bs in
        if len > maxEntrySize then []
        else if length rest < len then []
        else if unat (crc32 (take len rest)) \<noteq> checksum then []
        else case decodeEntry (take len rest) of
          None \<Rightarrow> []
        | Some e \<Rightarrow> e # read_records (drop len rest))"
  by pat_completeness auto
termination by (relation "measure length") auto

declare read_records.simps [simp del]

datatype read_error = BadMagic | NewerFormat | OlderFormat

text \<open>A missing file reads as empty.\<close>

definition ReadFile :: "bytes option \<Rightarrow> read_error + (64 word \<times> entry list)" where
  "ReadFile file =
     (case file of
        None \<Rightarrow> Inr (0, [])
      | Some bs \<Rightarrow>
          (case readFileHeader bs of
             HdrEOF \<Rightarrow> Inr (0, [])
           | HdrBadMagic \<Rightarrow> Inl BadMagic
           | HdrNewer \<Rightarrow> Inl NewerFormat
           | HdrOlder \<Rightarrow> Inl OlderFormat
           | HdrOk baseLSN \<Rightarrow> Inr (baseLSN, read_records (drop fileHeaderSize bs))))"

definition ReadEntries :: "bytes option \<Rightarrow> read_error + entry list" where
  "ReadEntries file = (case ReadFile file of Inl e \<Rightarrow> Inl e | Inr (b, es) \<Rightarrow> Inr es)"

section \<open>The writer\<close>

text \<open>\<open>synced\<close> is durable, \<open>pend\<close> was handed to the buffered writer or the operating system.
  \<open>werr\<close> is the sticky error of \<open>bufio.Writer\<close>. The outcome of a write is \<open>None\<close>, or \<open>Some n\<close>: it
  failed after \<open>n\<close> bytes.\<close>

record wal =
  synced :: bytes
  pend :: bytes
  werr :: bool
  nextLSN :: "64 word"
  failErr :: bool

definition wal_fail :: "wal \<Rightarrow> wal" where
  "wal_fail w = w\<lparr>failErr := True\<rparr>"

definition wal_failed :: "wal \<Rightarrow> bool" where
  "wal_failed w = failErr w"

definition buf_write :: "wal \<Rightarrow> bytes \<Rightarrow> nat option \<Rightarrow> bool \<times> wal" where
  "buf_write w bs io =
     (if werr w then (False, w)
      else case io of
        None \<Rightarrow> (True, w\<lparr>pend := pend w @ bs\<rparr>)
      | Some n \<Rightarrow> (False, w\<lparr>pend := pend w @ take n bs, werr := True\<rparr>))"

definition wal_open :: "bytes \<Rightarrow> wal" where
  "wal_open content =
     \<lparr>synced = content, pend = (if content = [] then fileHeader 0 else []), werr = False,
      nextLSN = 1, failErr = False\<rparr>"

definition reserveLSN :: "wal \<Rightarrow> 64 word \<Rightarrow> 64 word \<times> wal" where
  "reserveLSN w n = (let v = nextLSN w + n in (v - n, w\<lparr>nextLSN := v\<rparr>))"

definition setNextLSN :: "wal \<Rightarrow> 64 word \<Rightarrow> wal" where
  "setNextLSN w v = w\<lparr>nextLSN := v\<rparr>"

definition lastLSN :: "wal \<Rightarrow> 64 word" where
  "lastLSN w = (if nextLSN w = 0 then 0 else nextLSN w - 1)"

definition wal_write :: "wal \<Rightarrow> entry \<Rightarrow> nat option \<Rightarrow> bool \<times> wal" where
  "wal_write w e io =
     (case reserveLSN w 1 of (lsn, w1) \<Rightarrow>
        case buf_write w1 (frame (encodeEntry lsn e)) io of
          (True, w2) \<Rightarrow> (True, w2)
        | (False, w2) \<Rightarrow> (False, wal_fail w2))"

definition wal_writeBatch :: "wal \<Rightarrow> bytes \<Rightarrow> nat option \<Rightarrow> bool \<times> wal" where
  "wal_writeBatch w buf io =
     (if length buf = 0 then (True, w)
      else case buf_write w buf io of
        (True, w2) \<Rightarrow> (True, w2)
      | (False, w2) \<Rightarrow> (False, wal_fail w2))"

text \<open>\<open>Sync\<close>: flush, then fsync; \<open>fsync_ok\<close> is the outcome of the latter.\<close>

definition wal_sync :: "wal \<Rightarrow> bool \<Rightarrow> bool \<times> wal" where
  "wal_sync w fsync_ok =
     (if werr w then (False, wal_fail w)
      else if \<not> fsync_ok then (False, wal_fail w)
      else (True, w\<lparr>synced := synced w @ pend w, pend := []\<rparr>))"

text \<open>\<open>Rotate\<close>: the old file is flushed and synced, and a new one begins with a header; the numbers go
  on. The result is the content of the old file. An error before the switch leaves the writer on the
  old file; one of the directory sync after it does not.\<close>

definition wal_rotate :: "wal \<Rightarrow> bool \<Rightarrow> bool \<Rightarrow> bytes option \<times> wal" where
  "wal_rotate w fsync_ok dir_ok =
     (if werr w \<or> \<not> fsync_ok then (None, w)
      else (if dir_ok then Some (synced w @ pend w) else None,
            w\<lparr>synced := [], pend := fileHeader 0, werr := False\<rparr>))"

definition wal_close :: "wal \<Rightarrow> bool \<Rightarrow> bytes option" where
  "wal_close w fsync_ok = (if werr w \<or> \<not> fsync_ok then None else Some (synced w @ pend w))"

section \<open>Batches\<close>

definition batchSize :: nat where "batchSize = 256"
definition channelSize :: nat where "channelSize = 8192"

text \<open>\<open>flushBatch\<close> numbers the entries from one reservation and encodes them into one buffer.\<close>

fun encode_batch :: "64 word \<Rightarrow> entry list \<Rightarrow> bytes" where
  "encode_batch lsn [] = []"
| "encode_batch lsn (e # es) = frame (encodeEntry lsn e) @ encode_batch (lsn + 1) es"

definition flushBatch :: "wal \<Rightarrow> entry list \<Rightarrow> nat option \<Rightarrow> bool \<times> wal" where
  "flushBatch w batch io =
     (case reserveLSN w (of_nat (length batch)) of (startLSN, w1) \<Rightarrow>
        wal_writeBatch w1 (encode_batch startLSN batch) io)"

text \<open>The flusher goroutine: waiting for a first entry or the timer, draining the channel, finished.
  \<open>sent\<close> is the sequence of entries writers have put into the channel and \<open>flushed\<close> the batches
  written so far.\<close>

datatype flphase = Waiting | Draining | Stopped

record flusher =
  ch :: "entry list"
  chClosed :: bool
  batch :: "entry list"
  flphase :: flphase
  sent :: "entry list"
  flushed :: "entry list list"

definition flusher_new :: flusher where
  "flusher_new = \<lparr>ch = [], chClosed = False, batch = [], flphase = Waiting, sent = [], flushed = []\<rparr>"

definition fl_flush :: "flusher \<Rightarrow> flphase \<Rightarrow> flusher" where
  "fl_flush f p = f\<lparr>flushed := flushed f @ [batch f], batch := [], flphase := p\<rparr>"

inductive flstep :: "flusher \<Rightarrow> flusher \<Rightarrow> bool" where
  fl_send: "\<not> chClosed f \<Longrightarrow> length (ch f) < channelSize \<Longrightarrow>
     flstep f (f\<lparr>ch := ch f @ [e], sent := sent f @ [e]\<rparr>)"
| fl_close: "flstep f (f\<lparr>chClosed := True\<rparr>)"
| fl_first: "flphase f = Waiting \<Longrightarrow> ch f = e # r \<Longrightarrow>
     flstep f (f\<lparr>ch := r, batch := batch f @ [e], flphase := Draining\<rparr>)"
| fl_first_closed: "flphase f = Waiting \<Longrightarrow> ch f = [] \<Longrightarrow> chClosed f \<Longrightarrow>
     flstep f (if 0 < length (batch f) then fl_flush f Stopped else f\<lparr>flphase := Stopped\<rparr>)"
| fl_timer: "flphase f = Waiting \<Longrightarrow>
     flstep f (if length (batch f) = 0 then f else fl_flush f Waiting)"
| fl_drain: "flphase f = Draining \<Longrightarrow> length (batch f) < batchSize \<Longrightarrow> ch f = e # r \<Longrightarrow>
     flstep f (f\<lparr>ch := r, batch := batch f @ [e]\<rparr>)"
| fl_drain_closed: "flphase f = Draining \<Longrightarrow> length (batch f) < batchSize \<Longrightarrow> ch f = [] \<Longrightarrow> chClosed f \<Longrightarrow>
     flstep f (fl_flush f Stopped)"
| fl_drain_empty: "flphase f = Draining \<Longrightarrow> length (batch f) < batchSize \<Longrightarrow> ch f = [] \<Longrightarrow> \<not> chClosed f \<Longrightarrow>
     flstep f (fl_flush f Waiting)"
| fl_drain_full: "flphase f = Draining \<Longrightarrow> \<not> length (batch f) < batchSize \<Longrightarrow>
     flstep f (fl_flush f Waiting)"

section \<open>Interface: a log of self-delimiting records\<close>

text \<open>What recovery needs of a record format: a whole record is read back and reading goes on behind
  it, a torn one ends the reading.\<close>

locale record_log =
  fixes wr :: "'a \<Rightarrow> bytes"
    and rd :: "bytes \<Rightarrow> 'a list"
    and ok :: "'a \<Rightarrow> bool"
  assumes rd_whole: "ok a \<Longrightarrow> rd (wr a @ rest) = a # rd rest"
    and rd_torn: "ok a \<Longrightarrow> n < length (wr a) \<Longrightarrow> rd (take n (wr a)) = []"
    and rd_nil: "rd [] = []"
begin

definition wrs :: "'a list \<Rightarrow> bytes" where
  "wrs as = concat (map wr as)"

lemma wrs_simps [simp]: "wrs [] = []" "wrs (a # as) = wr a @ wrs as" "wrs (as @ bs) = wrs as @ wrs bs"
  by (simp_all add: wrs_def)

lemma rd_wrs: "\<forall>a \<in> set as. ok a \<Longrightarrow> rd (wrs as @ rest) = as @ rd rest"
  by (induction as) (auto simp: rd_whole)

text \<open>A file cut anywhere reads as the records that are whole in it.\<close>

lemma rd_cut:
  "\<forall>a \<in> set as. ok a \<Longrightarrow>
   \<exists>k \<le> length as. rd (take n (wrs as)) = take k as \<and> length (wrs (take k as)) \<le> n \<and>
     (k < length as \<longrightarrow> n < length (wrs (take (Suc k) as)))"
proof (induction as arbitrary: n)
  case Nil
  then show ?case by (simp add: rd_nil)
next
  case (Cons a as)
  show ?case
  proof (cases "n < length (wr a)")
    case True
    then have "rd (take n (wrs (a # as))) = []" using rd_torn[of a n] Cons.prems by simp
    with True show ?thesis by (intro exI[of _ 0]) simp
  next
    case False
    obtain k where k: "k \<le> length as" "rd (take (n - length (wr a)) (wrs as)) = take k as"
      "length (wrs (take k as)) \<le> n - length (wr a)"
      "k < length as \<longrightarrow> n - length (wr a) < length (wrs (take (Suc k) as))"
      using Cons.IH[of "n - length (wr a)"] Cons.prems by auto
    have "rd (take n (wrs (a # as))) = a # take k as"
      using False k(2) rd_whole[of a] Cons.prems by simp
    with k False show ?thesis by (intro exI[of _ "Suc k"]) auto
  qed
qed

text \<open>What was written before the cut is read.\<close>

lemma rd_cut_keeps:
  assumes "\<forall>a \<in> set (as @ bs). ok a" "length (wrs as) \<le> n"
  shows "\<exists>k \<le> length bs. rd (take n (wrs (as @ bs))) = as @ take k bs"
proof -
  obtain k where "k \<le> length bs" "rd (take (n - length (wrs as)) (wrs bs)) = take k bs"
    using rd_cut[of bs "n - length (wrs as)"] assms(1) by auto
  moreover have "rd (take n (wrs (as @ bs))) = as @ rd (take (n - length (wrs as)) (wrs bs))"
    using assms rd_wrs[of as "take (n - length (wrs as)) (wrs bs)"] by simp
  ultimately show ?thesis by auto
qed

end

section \<open>The record format\<close>

text \<open>A record the reader accepts: its payload is at most \<open>maxEntrySize\<close>.\<close>

definition entry_fits :: "entry \<Rightarrow> bool" where
  "entry_fits e \<longleftrightarrow> 13 + length (Key e) + length (Value e) \<le> maxEntrySize"

lemma length_encodeEntry [simp]: "length (encodeEntry lsn e) = 13 + length (Key e) + length (Value e)"
  by (simp add: encodeEntry_def)

lemma length_frame [simp]: "length (frame p) = 8 + length p"
  by (simp add: frame_def)

lemma word8_byte: "of_nat (unat w mod 256) = (w :: 8 word)"
proof -
  have "unat w < 2 ^ LENGTH(8)" by (rule unsigned_less)
  then show ?thesis by simp
qed

lemma le_enc_1: "le_enc 1 n = [byte_of n]"
  using le_enc.simps(2)[of 0 n] by simp

lemma decode_encode:
  assumes "length (Key e) < 2 ^ 32"
  shows "decodeEntry (encodeEntry lsn e) = Some (e\<lparr>LSN := lsn\<rparr>)"
proof -
  have "unat lsn < 256 ^ 8" using unsigned_less[of lsn] by simp
  moreover have "encodeEntry lsn e ! 8 = byte_of (unat (Op e))"
    by (simp add: encodeEntry_def nth_append le_enc_1)
  moreover have "take 4 (drop 9 (encodeEntry lsn e)) = le_enc 4 (length (Key e))"
    by (simp add: encodeEntry_def le_enc_1)
  moreover have "drop 13 (encodeEntry lsn e) = Key e @ Value e"
    by (simp add: encodeEntry_def le_enc_1)
  moreover from this have "drop (13 + length (Key e)) (encodeEntry lsn e) = Value e"
    by (simp add: drop_drop[symmetric] add.commute[of 13] del: drop_drop)
  moreover have "take 8 (encodeEntry lsn e) = le_enc 8 (unat lsn)"
    by (simp add: encodeEntry_def)
  ultimately show ?thesis
    using assms by (cases e) (simp add: decodeEntry_def Let_def word8_byte)
qed

lemma frame_parts:
  assumes "length p < 2 ^ 32"
  shows "le_dec (take 4 (frame p)) = unat (crc32 p)" "le_dec (take 4 (drop 4 (frame p))) = length p"
    "drop 8 (frame p) = p"
proof -
  have "unat (crc32 p) < 256 ^ 4" using unsigned_less[of "crc32 p"] by simp
  then show "le_dec (take 4 (frame p)) = unat (crc32 p)" by (simp add: frame_def)
  show "le_dec (take 4 (drop 4 (frame p))) = length p" "drop 8 (frame p) = p"
    using assms by (simp_all add: frame_def)
qed

lemma entry_fits_bounds: "entry_fits e \<Longrightarrow> length (Key e) < 2 ^ 32 \<and> length (encodeEntry lsn e) < 2 ^ 32"
  by (simp add: entry_fits_def maxEntrySize_def)

lemma read_whole:
  assumes "entry_fits e"
  shows "read_records (frame (encodeEntry lsn e) @ rest) = e\<lparr>LSN := lsn\<rparr> # read_records rest"
proof -
  let ?p = "encodeEntry lsn e"
  have b: "length (Key e) < 2 ^ 32" "length ?p < 2 ^ 32" using entry_fits_bounds[OF assms] by blast+
  have le: "length ?p \<le> maxEntrySize" using assms by (simp add: entry_fits_def)
  have t: "take 4 (frame ?p @ rest) = take 4 (frame ?p)" "take 4 (drop 4 (frame ?p @ rest)) = take 4 (drop 4 (frame ?p))"
    "drop 8 (frame ?p @ rest) = ?p @ rest"
    using frame_parts(3)[OF b(2)] by simp_all
  show ?thesis
    apply (subst read_records.simps)
    using le decode_encode[OF b(1), of lsn] frame_parts(1,2)[OF b(2)]
    by (simp add: t frame_parts(3)[OF b(2)] Let_def del: length_encodeEntry)
qed

lemma read_torn:
  assumes "entry_fits e" "n < length (frame (encodeEntry lsn e))"
  shows "read_records (take n (frame (encodeEntry lsn e))) = []"
proof (cases "n < 8")
  case True
  then show ?thesis by (subst read_records.simps) simp
next
  case False
  let ?p = "encodeEntry lsn e"
  have b: "length ?p < 2 ^ 32" using entry_fits_bounds[OF assms(1)] by blast
  have "take 4 (drop 4 (take n (frame ?p))) = take 4 (drop 4 (frame ?p))"
    using False by (simp add: drop_take min_def)
  then have len: "le_dec (take 4 (drop 4 (take n (frame ?p)))) = length ?p"
    using frame_parts(2)[OF b] by simp
  have short: "length (drop 8 (take n (frame ?p))) < length ?p" using assms(2) False by simp
  show ?thesis
    by (subst read_records.simps) (simp only: Let_def len short if_True if_cancel)
qed

lemma read_nil [simp]: "read_records [] = []"
  by (subst read_records.simps) simp

interpretation wlog: record_log "\<lambda>e. frame (encodeEntry (LSN e) e)" read_records entry_fits
  by unfold_locales (simp_all add: read_whole read_torn)

section \<open>What a run of writes leaves in the file\<close>

fun numbered :: "64 word \<Rightarrow> entry list \<Rightarrow> entry list" where
  "numbered lsn [] = []"
| "numbered lsn (e # es) = e\<lparr>LSN := lsn\<rparr> # numbered (lsn + 1) es"

lemma encodeEntry_LSN [simp]: "encodeEntry lsn (e\<lparr>LSN := l\<rparr>) = encodeEntry lsn e"
  by (simp add: encodeEntry_def)

lemma entry_fits_LSN [simp]: "entry_fits (e\<lparr>LSN := l\<rparr>) = entry_fits e"
  by (simp add: entry_fits_def)

lemma encode_batch_numbered: "encode_batch lsn es = wlog.wrs (numbered lsn es)"
  by (induction es arbitrary: lsn) simp_all

lemma numbered_append: "numbered lsn (xs @ ys) = numbered lsn xs @ numbered (lsn + of_nat (length xs)) ys"
  by (induction xs arbitrary: lsn) (simp_all add: ac_simps)

lemma length_numbered [simp]: "length (numbered lsn es) = length es"
  by (induction es arbitrary: lsn) simp_all

lemma numbered_fits: "(\<forall>e \<in> set (numbered lsn es). entry_fits e) \<longleftrightarrow> (\<forall>e \<in> set es. entry_fits e)"
  by (induction es arbitrary: lsn) simp_all

lemma numbered_LSN: "i < length es \<Longrightarrow> LSN (numbered lsn es ! i) = lsn + of_nat i"
proof (induction es arbitrary: lsn i)
  case (Cons e es)
  then show ?case by (cases i) (simp_all add: ac_simps)
qed simp

text \<open>The operations a server runs on the log between two rotations, each with its outcome.\<close>

datatype walop = DoWrite entry "nat option" | DoBatch "entry list" "nat option" | DoSync bool

fun wal_do :: "wal \<Rightarrow> walop \<Rightarrow> wal" where
  "wal_do w (DoWrite e io) = snd (wal_write w e io)"
| "wal_do w (DoBatch es io) = snd (flushBatch w es io)"
| "wal_do w (DoSync ok) = snd (wal_sync w ok)"

fun op_entries :: "walop \<Rightarrow> entry list" where
  "op_entries (DoWrite e io) = [e]"
| "op_entries (DoBatch es io) = es"
| "op_entries (DoSync ok) = []"

definition wal_run :: "wal \<Rightarrow> walop list \<Rightarrow> wal" where
  "wal_run w ops = fold (\<lambda>op w. wal_do w op) ops w"

definition attempted :: "walop list \<Rightarrow> entry list" where
  "attempted ops = concat (map op_entries ops)"

text \<open>\<open>holds w lsn es\<close>: the file is the header and the frames of \<open>es\<close> numbered from \<open>lsn\<close>, whole while no
  write has failed, cut somewhere from then on.\<close>

definition holds :: "wal \<Rightarrow> 64 word \<Rightarrow> entry list \<Rightarrow> bool" where
  "holds w lsn es \<longleftrightarrow>
     (let full = fileHeader 0 @ wlog.wrs (numbered lsn es) in
      (if werr w then \<exists>n. synced w @ pend w = take n full else synced w @ pend w = full) \<and>
      nextLSN w = lsn + of_nat (length es) \<and> (werr w \<longrightarrow> failErr w))"

lemma buf_write_holds:
  assumes "holds w lsn es" "bs = wlog.wrs (numbered (nextLSN w) new)"
    and "buf_write (w\<lparr>nextLSN := nextLSN w + of_nat (length new)\<rparr>) bs io = (ok, w')"
  shows "holds (if ok then w' else wal_fail w') lsn (es @ new)" "ok \<Longrightarrow> \<not> werr w \<and> synced w' = synced w"
proof -
  let ?full = "fileHeader 0 @ wlog.wrs (numbered lsn es)"
  let ?more = "fileHeader 0 @ wlog.wrs (numbered lsn (es @ new))"
  have more: "?more = ?full @ bs"
    using assms(1,2) by (simp add: holds_def Let_def numbered_append)
  have nx: "nextLSN w + of_nat (length new) = lsn + of_nat (length (es @ new))"
    using assms(1) by (simp add: holds_def Let_def ac_simps)
  have "holds (if ok then w' else wal_fail w') lsn (es @ new) \<and> (ok \<longrightarrow> \<not> werr w \<and> synced w' = synced w)"
  proof (cases "werr w")
    case True
    then obtain n where n: "synced w @ pend w = take n ?full" using assms(1) by (auto simp: holds_def Let_def)
    then have "synced w @ pend w = take (min n (length ?full)) ?more" unfolding more
      by (simp add: min_def)
    then show ?thesis
      using True assms(3) nx by (auto simp: buf_write_def holds_def Let_def wal_fail_def)
  next
    case False
    then have n: "synced w @ pend w = ?full" using assms(1) by (auto simp: holds_def Let_def)
    show ?thesis
    proof (cases io)
      case None
      then show ?thesis
        using False assms(3) nx n more by (auto simp: buf_write_def holds_def Let_def)
    next
      case (Some k)
      have "synced w @ pend w @ take k bs = take (length ?full + k) ?more"
        unfolding more using n by simp
      then have "\<exists>n. synced w @ pend w @ take k bs = take n ?more" by blast
      then show ?thesis
        using False Some assms(3) nx
        by (auto simp: buf_write_def holds_def Let_def wal_fail_def simp del: take_append)
    qed
  qed
  then show "holds (if ok then w' else wal_fail w') lsn (es @ new)" "ok \<Longrightarrow> \<not> werr w \<and> synced w' = synced w"
    by blast+
qed

lemma wal_write_holds: "holds w lsn es \<Longrightarrow> holds (snd (wal_write w e io)) lsn (es @ [e])"
proof -
  assume h: "holds w lsn es"
  let ?bs = "frame (encodeEntry (nextLSN w) e)"
  obtain ok w' where b: "buf_write (w\<lparr>nextLSN := nextLSN w + of_nat (length [e])\<rparr>) ?bs io = (ok, w')"
    by fastforce
  then have "snd (wal_write w e io) = (if ok then w' else wal_fail w')"
    by (cases ok) (simp_all add: wal_write_def reserveLSN_def Let_def)
  moreover have "?bs = wlog.wrs (numbered (nextLSN w) [e])" by simp
  ultimately show ?thesis using buf_write_holds(1)[OF h _ b] by simp
qed

lemma flushBatch_holds: "holds w lsn es \<Longrightarrow> holds (snd (flushBatch w new io)) lsn (es @ new)"
proof -
  assume h: "holds w lsn es"
  let ?bs = "encode_batch (nextLSN w) new"
  show ?thesis
  proof (cases new)
    case Nil
    then show ?thesis using h by (simp add: flushBatch_def reserveLSN_def Let_def wal_writeBatch_def)
  next
    case (Cons e r)
    then have ne: "length ?bs \<noteq> 0" by simp
    obtain ok w' where b: "buf_write (w\<lparr>nextLSN := nextLSN w + of_nat (length new)\<rparr>) ?bs io = (ok, w')"
      by fastforce
    then have "snd (flushBatch w new io) = (if ok then w' else wal_fail w')"
      using ne by (cases ok) (simp_all add: flushBatch_def reserveLSN_def Let_def wal_writeBatch_def)
    then show ?thesis using buf_write_holds(1)[OF h encode_batch_numbered b] by simp
  qed
qed

lemma wal_sync_holds: "holds w lsn es \<Longrightarrow> holds (snd (wal_sync w ok)) lsn es"
  by (auto simp: wal_sync_def wal_fail_def holds_def Let_def)

lemma wal_do_holds: "holds w lsn es \<Longrightarrow> holds (wal_do w op) lsn (es @ op_entries op)"
  by (cases op) (auto simp: wal_write_holds flushBatch_holds wal_sync_holds)

lemma wal_run_holds: "holds w lsn es \<Longrightarrow> holds (wal_run w ops) lsn (es @ attempted ops)"
proof (induction ops arbitrary: w es)
  case (Cons op ops)
  from Cons.IH[OF wal_do_holds[OF Cons.prems]] show ?case
    by (simp add: wal_run_def attempted_def)
qed (simp add: wal_run_def attempted_def)

definition wal_fresh :: "64 word \<Rightarrow> wal" where
  "wal_fresh lsn = setNextLSN (wal_open []) lsn"

lemma holds_fresh: "holds (wal_fresh lsn) lsn []"
  by (simp add: holds_def wal_fresh_def wal_open_def setNextLSN_def)

lemma length_fileHeader [simp]: "length (fileHeader b) = fileHeaderSize"
  by (simp add: fileHeader_def fileMagic_def fileHeaderSize_def)

lemma readFileHeader_ok: "readFileHeader (fileHeader b @ rest) = HdrOk b"
proof -
  have "unat b < 256 ^ 8" using unsigned_less[of b] by simp
  then show ?thesis
    by (simp add: readFileHeader_def fileHeader_def fileMagic_def fileHeaderSize_def fileFormatVersion_def
        nth_append le_enc_1)
qed

lemma ReadFile_whole: "ReadFile (Some (fileHeader b @ rest)) = Inr (b, read_records rest)"
  by (simp add: ReadFile_def readFileHeader_ok)

lemma ReadFile_cut:
  "ReadFile (Some (take n (fileHeader b @ rest))) =
     (if n < fileHeaderSize then Inr (0, []) else Inr (b, read_records (take (n - fileHeaderSize) rest)))"
proof (cases "n < fileHeaderSize")
  case True
  then show ?thesis by (simp add: ReadFile_def readFileHeader_def)
next
  case False
  then have "take n (fileHeader b @ rest) = fileHeader b @ take (n - fileHeaderSize) rest" by simp
  with False show ?thesis by (simp add: ReadFile_whole)
qed

lemma ReadFile_prefix:
  assumes "\<forall>e \<in> set es. entry_fits e"
  shows "\<exists>k \<le> length es. ReadEntries (Some (take n (fileHeader 0 @ wlog.wrs es))) = Inr (take k es)"
proof (cases "n < fileHeaderSize")
  case True
  then show ?thesis unfolding ReadEntries_def ReadFile_cut by (intro exI[of _ 0]) simp
next
  case False
  obtain k where "k \<le> length es" "read_records (take (n - fileHeaderSize) (wlog.wrs es)) = take k es"
    using wlog.rd_cut[OF assms, of "n - fileHeaderSize"] by blast
  with False show ?thesis unfolding ReadEntries_def ReadFile_cut by (intro exI[of _ k]) simp
qed

section \<open>The flusher\<close>

inductive flreach :: "flusher \<Rightarrow> bool" where
  flreach_init: "flreach flusher_new"
| flreach_step: "flreach f \<Longrightarrow> flstep f f' \<Longrightarrow> flreach f'"

definition fl_inv :: "flusher \<Rightarrow> bool" where
  "fl_inv f \<longleftrightarrow> sent f = concat (flushed f) @ batch f @ ch f \<and>
     (\<forall>b \<in> set (flushed f). 0 < length b \<and> length b \<le> batchSize) \<and> length (batch f) \<le> batchSize \<and>
     length (ch f) \<le> channelSize \<and>
     (case flphase f of Waiting \<Rightarrow> batch f = [] | Draining \<Rightarrow> batch f \<noteq> []
      | Stopped \<Rightarrow> batch f = [] \<and> ch f = [] \<and> chClosed f)"

lemma fl_flush_inv:
  assumes "fl_inv f" "0 < length (batch f)" "p \<noteq> Draining"
    "p = Stopped \<Longrightarrow> ch f = [] \<and> chClosed f"
  shows "fl_inv (fl_flush f p)"
  using assms by (cases p) (auto simp: fl_inv_def fl_flush_def)

lemma flstep_inv:
  assumes "flstep f f'" "fl_inv f"
  shows "fl_inv f'"
  using assms
proof cases
  case (fl_send e)
  with assms(2) show ?thesis by (cases "flphase f") (auto simp: fl_inv_def)
next
  case fl_close
  with assms(2) show ?thesis by (cases "flphase f") (auto simp: fl_inv_def)
next
  case (fl_first e r)
  with assms(2) show ?thesis by (auto simp: fl_inv_def batchSize_def)
next
  case fl_first_closed
  with assms(2) show ?thesis by (auto simp: fl_inv_def)
next
  case fl_timer
  with assms(2) have "batch f = []" by (simp add: fl_inv_def)
  with fl_timer assms(2) show ?thesis by simp
next
  case (fl_drain e r)
  with assms(2) have "sent f = concat (flushed f) @ batch f @ e # r" by (simp add: fl_inv_def)
  with fl_drain assms(2) show ?thesis by (simp add: fl_inv_def)
next
  case fl_drain_closed
  moreover from this have "0 < length (batch f)" using assms(2) by (simp add: fl_inv_def)
  ultimately show ?thesis
    using assms(2) fl_flush_inv[of f Waiting] fl_flush_inv[of f Stopped] by simp
next
  case fl_drain_empty
  moreover from this have "0 < length (batch f)" using assms(2) by (simp add: fl_inv_def)
  ultimately show ?thesis
    using assms(2) fl_flush_inv[of f Waiting] fl_flush_inv[of f Stopped] by simp
next
  case fl_drain_full
  moreover from this have "0 < length (batch f)" using assms(2) by (simp add: fl_inv_def batchSize_def)
  ultimately show ?thesis
    using assms(2) fl_flush_inv[of f Waiting] fl_flush_inv[of f Stopped] by simp
qed

lemma flreach_inv: "flreach f \<Longrightarrow> fl_inv f"
proof (induction rule: flreach.induct)
  case flreach_init
  show ?case by (simp add: fl_inv_def flusher_new_def)
qed (rule flstep_inv)

section \<open>Properties\<close>

text \<open>C10: write and read round trip: whatever mixture of single writes, batches and syncs filled a log, as
  long as none failed the file reads back as exactly the entries that were written, in order, with
  consecutive record numbers, under the header it began with.\<close>

theorem wal_readback:
  assumes "\<forall>e \<in> set (attempted ops). entry_fits e" "w = wal_run (wal_fresh lsn) ops" "\<not> werr w"
  shows "ReadFile (Some (synced w @ pend w)) = Inr (0, numbered lsn (attempted ops)) \<and>
    nextLSN w = lsn + of_nat (length (attempted ops)) \<and>
    (\<forall>i < length (attempted ops). LSN (numbered lsn (attempted ops) ! i) = lsn + of_nat i)"
proof -
  have "holds w lsn (attempted ops)"
    using wal_run_holds[OF holds_fresh, of lsn ops] assms(2) by simp
  then have c: "synced w @ pend w = fileHeader 0 @ wlog.wrs (numbered lsn (attempted ops))"
    "nextLSN w = lsn + of_nat (length (attempted ops))"
    using assms(3) by (simp_all add: holds_def Let_def)
  have "read_records (wlog.wrs (numbered lsn (attempted ops))) = numbered lsn (attempted ops)"
    using wlog.rd_wrs[of "numbered lsn (attempted ops)" "[]"] assms(1) numbered_fits by simp
  then have "ReadFile (Some (synced w @ pend w)) = Inr (0, numbered lsn (attempted ops))"
    unfolding c(1) ReadFile_whole by simp
  then show ?thesis using c(2) numbered_LSN by blast
qed

definition sample_entry :: "string \<Rightarrow> entry" where
  "sample_entry k = \<lparr>LSN = 0, Op = OpSet, Key = k, Value = ''v''\<rparr>"

lemma sample_entry_fits [simp]: "length k < 1000 \<Longrightarrow> entry_fits (sample_entry k)"
  by (simp add: entry_fits_def sample_entry_def maxEntrySize_def)

definition sample_ops :: "walop list" where
  "sample_ops = [DoWrite (sample_entry ''a'') None, DoSync True,
     DoBatch [sample_entry ''b'', sample_entry ''c''] None]"

lemma sample_ops_fit: "\<forall>e \<in> set (attempted sample_ops). entry_fits e"
  by (simp add: sample_ops_def attempted_def)

lemma sample_run_ok: "\<not> werr (wal_run (wal_fresh 7) sample_ops)"
  by (simp add: sample_ops_def wal_run_def wal_fresh_def wal_open_def setNextLSN_def wal_write_def
      flushBatch_def wal_writeBatch_def buf_write_def reserveLSN_def wal_sync_def Let_def)

theorem wal_readback_witness:
  "ReadFile (Some (synced (wal_run (wal_fresh 7) sample_ops) @ pend (wal_run (wal_fresh 7) sample_ops))) =
     Inr (0, [(sample_entry ''a'')\<lparr>LSN := 7\<rparr>, (sample_entry ''b'')\<lparr>LSN := 8\<rparr>, (sample_entry ''c'')\<lparr>LSN := 9\<rparr>])"
  using wal_readback[OF sample_ops_fit refl sample_run_ok]
  by (simp add: sample_ops_def attempted_def)

lemma synced_grows: "\<exists>x. synced (wal_run w ops) = synced w @ x"
proof (induction ops arbitrary: w)
  case (Cons op ops)
  have "\<exists>x. synced (wal_do w op) = synced w @ x"
    by (cases op) (auto simp: wal_write_def flushBatch_def wal_writeBatch_def buf_write_def reserveLSN_def
        wal_sync_def wal_fail_def Let_def split: option.splits)
  with Cons[of "wal_do w op"] show ?case by (auto simp: wal_run_def)
qed (simp add: wal_run_def)

lemma wal_run_append: "wal_run w (xs @ ys) = wal_run (wal_run w xs) ys"
  by (simp add: wal_run_def)

lemma attempted_append: "attempted (xs @ ys) = attempted xs @ attempted ys"
  by (simp add: attempted_def)

lemma holds_content: "holds w lsn es \<Longrightarrow> \<exists>n. synced w @ pend w = take n (fileHeader 0 @ wlog.wrs (numbered lsn es))"
proof -
  assume h: "holds w lsn es"
  show ?thesis
  proof (cases "werr w")
    case False
    with h have "synced w @ pend w = take (length (fileHeader 0 @ wlog.wrs (numbered lsn es)))
        (fileHeader 0 @ wlog.wrs (numbered lsn es))" by (simp add: holds_def Let_def)
    then show ?thesis by blast
  qed (use h in \<open>simp add: holds_def Let_def del: take_append\<close>)
qed

text \<open>C11: crash safety: a crash leaves what was synced and any prefix of what was written after it. The
  log then reads, without an error, as a prefix of the entries in the order they were written, and
  every entry written before the last successful \<open>Sync\<close> is in it, whatever failed since.\<close>

theorem wal_crash_safe:
  assumes "\<forall>e \<in> set (attempted (before @ DoSync True # after)). entry_fits e"
    and "\<not> werr (wal_run (wal_fresh lsn) before)"
    and "w = wal_run (wal_fresh lsn) (before @ DoSync True # after)"
  shows "\<exists>k \<le> length (attempted after).
    ReadEntries (Some (synced w @ take n (pend w))) =
      Inr (numbered lsn (attempted before @ take k (attempted after)))"
proof -
  let ?w1 = "wal_run (wal_fresh lsn) before"
  let ?A = "numbered lsn (attempted before)"
  let ?B = "numbered (lsn + of_nat (length (attempted before))) (attempted after)"
  have num: "numbered lsn (attempted before @ attempted after) = ?A @ ?B" by (simp add: numbered_append)
  have all: "attempted (before @ DoSync True # after) = attempted before @ attempted after"
    by (simp add: attempted_def)
  have h1: "holds ?w1 lsn (attempted before)" using wal_run_holds[OF holds_fresh, of lsn before] by simp
  then have f1: "synced ?w1 @ pend ?w1 = fileHeader 0 @ wlog.wrs ?A"
    using assms(2) by (simp add: holds_def Let_def)
  have "synced (wal_run (wal_fresh lsn) (before @ [DoSync True])) = synced ?w1 @ pend ?w1"
    using assms(2) by (simp add: wal_run_append) (simp add: wal_run_def wal_sync_def)
  moreover have "w = wal_run (wal_run (wal_fresh lsn) (before @ [DoSync True])) after"
    using assms(3) wal_run_append[of _ "before @ [DoSync True]" after] by simp
  ultimately obtain x where x: "synced w = (fileHeader 0 @ wlog.wrs ?A) @ x"
    using synced_grows f1 by metis
  have "holds w lsn (attempted before @ attempted after)"
    using wal_run_holds[OF holds_fresh, of lsn "before @ DoSync True # after"] all assms(3) by simp
  then obtain m where m: "synced w @ pend w = take m (fileHeader 0 @ wlog.wrs (?A @ ?B))"
    using holds_content num by metis
  have "synced w @ take n (pend w) = take (length (synced w) + n) (synced w @ pend w)" by simp
  also have "\<dots> = take (min (length (synced w) + n) m) (fileHeader 0 @ wlog.wrs (?A @ ?B))"
    unfolding m by (simp del: take_append)
  finally have c: "synced w @ take n (pend w) = take (min (length (synced w) + n) m) (fileHeader 0 @ wlog.wrs (?A @ ?B))" .
  let ?N = "min (length (synced w) + n) m"
  have lenm: "length (fileHeader 0 @ wlog.wrs ?A) \<le> length (synced w @ take n (pend w))" using x by simp
  then have big: "fileHeaderSize + length (wlog.wrs ?A) \<le> ?N"
  proof -
    have "fileHeaderSize + length (wlog.wrs ?A) = length (fileHeader 0 @ wlog.wrs ?A)" by simp
    also have "\<dots> \<le> length (take ?N (fileHeader 0 @ wlog.wrs (?A @ ?B)))" using lenm unfolding c .
    also have "\<dots> \<le> ?N" by (simp only: length_take min.cobounded2)
    finally show ?thesis .
  qed
  have fits: "\<forall>e \<in> set (?A @ ?B). entry_fits e"
    using assms(1) numbered_fits[of lsn "attempted before @ attempted after"] num all by simp
  have le: "length (wlog.wrs ?A) \<le> ?N - fileHeaderSize"
    using big by (intro add_le_imp_le_diff) (simp only: add.commute)
  obtain k where k: "k \<le> length ?B" "read_records (take (?N - fileHeaderSize) (wlog.wrs (?A @ ?B))) = ?A @ take k ?B"
    using wlog.rd_cut_keeps[OF fits, of "?N - fileHeaderSize"] le by blast
  have tk: "take k (numbered l es) = numbered l (take k es)" for l es
    by (induction es arbitrary: k l) (auto simp: take_Cons split: nat.split)
  have nlt: "\<not> ?N < fileHeaderSize" using big by linarith
  have "ReadEntries (Some (synced w @ take n (pend w))) = Inr (?A @ take k ?B)"
    unfolding c ReadEntries_def ReadFile_cut using nlt k(2) by (simp only: if_False sum.case prod.case)
  with k(1) show ?thesis by (auto simp: numbered_append tk intro!: exI[of _ k])
qed

theorem wal_crash_safe_witness:
  "\<exists>k \<le> 2. ReadEntries (Some (synced (wal_run (wal_fresh 7) sample_ops) @ take 30 (pend (wal_run (wal_fresh 7) sample_ops)))) =
     Inr (numbered 7 (sample_entry ''a'' # take k [sample_entry ''b'', sample_entry ''c'']))"
proof -
  have o: "sample_ops = [DoWrite (sample_entry ''a'') None] @ DoSync True #
      [DoBatch [sample_entry ''b'', sample_entry ''c''] None]" by (simp add: sample_ops_def)
  have e: "\<not> werr (wal_run (wal_fresh 7) [DoWrite (sample_entry ''a'') None])"
    by (simp add: wal_run_def wal_fresh_def wal_open_def setNextLSN_def wal_write_def buf_write_def
        reserveLSN_def Let_def)
  show ?thesis
    using wal_crash_safe[OF sample_ops_fit[unfolded o] e refl, of 30]
    unfolding o[symmetric] by (simp add: attempted_def numeral_2_eq_2)
qed

text \<open>a batch is its entries written one after the other: the same bytes and the same numbers, one
  reservation and one write instead of many.\<close>

lemma batch_is_writes:
  assumes "\<not> werr w"
  shows "flushBatch w es None = (True, fold (\<lambda>e w. snd (wal_write w e None)) es w)"
proof -
  have "fold (\<lambda>e w. snd (wal_write w e None)) es w =
      w\<lparr>pend := pend w @ encode_batch (nextLSN w) es, nextLSN := nextLSN w + of_nat (length es)\<rparr>"
    using assms
  proof (induction es arbitrary: w)
    case (Cons e es)
    let ?w = "w\<lparr>pend := pend w @ frame (encodeEntry (nextLSN w) e), nextLSN := nextLSN w + 1\<rparr>"
    have "snd (wal_write w e None) = ?w"
      using Cons.prems by (cases w) (simp add: wal_write_def buf_write_def reserveLSN_def Let_def)
    moreover have "\<not> werr ?w" using Cons.prems by simp
    ultimately show ?case using Cons.IH[of ?w] by (cases w) (simp add: ac_simps)
  qed simp
  moreover have "flushBatch w es None =
      (True, w\<lparr>pend := pend w @ encode_batch (nextLSN w) es, nextLSN := nextLSN w + of_nat (length es)\<rparr>)"
    using assms by (cases es; cases w)
      (simp_all add: flushBatch_def wal_writeBatch_def buf_write_def reserveLSN_def Let_def)
  ultimately show ?thesis by simp
qed

lemma batch_is_writes_witness:
  "flushBatch (wal_fresh 1) [sample_entry ''a''] None =
     (True, fold (\<lambda>e w. snd (wal_write w e None)) [sample_entry ''a''] (wal_fresh 1))"
  by (rule batch_is_writes) (simp add: wal_fresh_def wal_open_def setNextLSN_def)



text \<open>C13: the flusher loses, repeats and reorders nothing: in every reachable state the flushed batches,
  the batch being formed and the channel are, in this order, what writers have sent; every batch has
  between 1 and \<open>batchSize\<close> entries, and when the goroutine has stopped everything is flushed.\<close>

theorem flusher_fifo:
  assumes "flreach f"
  shows "concat (flushed f) @ batch f @ ch f = sent f \<and>
    (\<forall>b \<in> set (flushed f). 0 < length b \<and> length b \<le> batchSize) \<and> length (ch f) \<le> channelSize \<and>
    (flphase f = Stopped \<longrightarrow> concat (flushed f) = sent f \<and> chClosed f)"
  using flreach_inv[OF assms] by (auto simp: fl_inv_def)

theorem flusher_fifo_witness:
  "\<exists>f. flreach f \<and> flushed f = [[sample_entry ''a'']] \<and> concat (flushed f) @ batch f @ ch f = sent f"
proof -
  let ?f1 = "flusher_new\<lparr>ch := [sample_entry ''a''], sent := [sample_entry ''a'']\<rparr>"
  let ?f2 = "?f1\<lparr>ch := [], batch := [sample_entry ''a''], flphase := Draining\<rparr>"
  have "flstep flusher_new ?f1"
    using fl_send[of flusher_new "sample_entry ''a''"] by (simp add: flusher_new_def channelSize_def)
  moreover have "flstep ?f1 ?f2"
    using fl_first[of ?f1 "sample_entry ''a''" "[]"] by (simp add: flusher_new_def)
  moreover have "flstep ?f2 (fl_flush ?f2 Waiting)"
    by (rule fl_drain_empty) (simp_all add: flusher_new_def batchSize_def)
  ultimately have "flreach (fl_flush ?f2 Waiting)"
    using flreach_init flreach_step by blast
  moreover have "flushed (fl_flush ?f2 Waiting) = [[sample_entry ''a'']]"
    by (simp add: fl_flush_def flusher_new_def)
  ultimately show ?thesis using flusher_fifo by blast
qed

text \<open>the writer has no limit on the size of a record, but the reader has: a record over
  \<open>maxEntrySize\<close> is written and acknowledged like any other, and at recovery it and everything behind
  it in the file is dropped.\<close>

lemma oversized_record_hides_tail:
  assumes "maxEntrySize < 13 + length (Key e) + length (Value e)" "13 + length (Key e) + length (Value e) < 2 ^ 32"
    and "\<not> werr w"
  shows "fst (wal_write w e None) \<and> \<not> wal_failed (snd (wal_write w e None)) = (\<not> wal_failed w) \<and>
    read_records (frame (encodeEntry lsn e) @ rest) = []"
proof -
  let ?p = "encodeEntry lsn e"
  have b: "length ?p < 2 ^ 32" using assms(2) by simp
  have "take 4 (drop 4 (frame ?p @ rest)) = take 4 (drop 4 (frame ?p))" by simp
  then have len: "le_dec (take 4 (drop 4 (frame ?p @ rest))) = length ?p" using frame_parts(2)[OF b] by simp
  have big: "maxEntrySize < length ?p" using assms(1) by simp
  have "read_records (frame ?p @ rest) = []"
    by (subst read_records.simps) (simp only: Let_def len big if_True if_cancel)
  then show ?thesis
    using assms(3) by (simp add: wal_write_def buf_write_def reserveLSN_def Let_def wal_failed_def)
qed

lemma oversized_record_hides_tail_witness:
  "\<exists>e. fst (wal_write (wal_fresh 1) e None) \<and>
     read_records (frame (encodeEntry 1 e) @ frame (encodeEntry 2 (sample_entry ''a''))) = []"
proof -
  let ?e = "\<lparr>LSN = 0, Op = OpSet, Key = ''k'', Value = replicate maxEntrySize CHR ''x''\<rparr>"
  have "\<not> werr (wal_fresh 1)" by (simp add: wal_fresh_def wal_open_def setNextLSN_def)
  then show ?thesis
    using oversized_record_hides_tail[of ?e "wal_fresh 1" 1 "frame (encodeEntry 2 (sample_entry ''a''))"]
    by (intro exI[of _ ?e]) (simp add: maxEntrySize_def)
qed

end
