(* ===== verification/Commands.thy ===== *)
theory Commands
  imports Ttl ZSet Wal
begin

text \<open>
  The command handlers of the string store and the sorted sets: \<open>cmd_kv.go\<close>, \<open>cmd_zset.go\<close>, and the
  evictor of \<open>persistence.go\<close>. A handler takes the arguments of one command and returns the replies
  it writes, in order, and the new server state. \<open>jr\<close> is the sequence of records handed to the
  journal (\<open>BatchWAL.Write\<close>), \<open>fwds\<close> what was forwarded to replicas.

  What lies outside these files is in the environment \<open>env\<close>: the clock readings (monotonic time at
  the first and second reading, wall-clock time, all in nanoseconds), the cluster node's answers,
  \<open>strconv\<close>'s conversions between floats and text, \<open>Duration.Seconds\<close>, and the deletion of a vector.
\<close>

section \<open>State and environment\<close>

datatype reply =
  RSimple string
| RError string
| RInt int
| RBulk bytes
| RNull
| RArrayHeader nat

record 'v srv =
  skv :: kvstore
  sttl :: ttlman
  szset :: zreg
  svec :: 'v
  jr :: "entry list"
  fwds :: "string list"

record cluster_hooks =
  checkKey :: "string \<Rightarrow> reply list option"
  checkKeyAsk :: "string \<Rightarrow> reply list option"
  isReplica :: bool

record 'v env =
  mono :: int
  mono2 :: int
  wall :: int
  cluster :: "cluster_hooks option"
  parseFloat :: "string \<Rightarrow> f64 option"
  formatFloat :: "f64 \<Rightarrow> string"
  seconds :: "int \<Rightarrow> int"
  vecDelete :: "'v \<Rightarrow> string \<Rightarrow> bool \<times> 'v"

definition moved :: "'v env \<Rightarrow> string \<Rightarrow> reply list option" where
  "moved E key = (case cluster E of None \<Rightarrow> None | Some h \<Rightarrow> checkKey h key)"

definition jwrite :: "'v srv \<Rightarrow> 8 word \<Rightarrow> string \<Rightarrow> bytes \<Rightarrow> 'v srv" where
  "jwrite s op key value = s\<lparr>jr := jr s @ [\<lparr>LSN = 0, Op = op, Key = key, Value = value\<rparr>]\<rparr>"

definition forwardWrite :: "'v env \<Rightarrow> 'v srv \<Rightarrow> string \<Rightarrow> 'v srv" where
  "forwardWrite E s line = (case cluster E of None \<Rightarrow> s | Some h \<Rightarrow> s\<lparr>fwds := fwds s @ [line]\<rparr>)"

section \<open>Arguments\<close>

text \<open>\<open>strconv.ParseInt(s, 10, 64)\<close>: an optional sign and decimal digits, in the range of \<open>int64\<close>.\<close>

definition digit_val :: "char \<Rightarrow> nat" where
  "digit_val c = nat_of_byte c - 48"

definition is_digit :: "char \<Rightarrow> bool" where
  "is_digit c \<longleftrightarrow> 48 \<le> nat_of_byte c \<and> nat_of_byte c \<le> 57"

definition parse_digits :: "string \<Rightarrow> nat option" where
  "parse_digits s =
     (if s \<noteq> [] \<and> (\<forall>c \<in> set s. is_digit c) then Some (fold (\<lambda>c n. 10 * n + digit_val c) s 0) else None)"

definition parseInt :: "string \<Rightarrow> int option" where
  "parseInt s =
     (case s of
        [] \<Rightarrow> None
      | c # r \<Rightarrow>
          if c = CHR ''-'' then
            (case parse_digits r of None \<Rightarrow> None
             | Some n \<Rightarrow> if n \<le> 2 ^ 63 then Some (- int n) else None)
          else
            (case parse_digits (if c = CHR ''+'' then r else s) of None \<Rightarrow> None
             | Some n \<Rightarrow> if n < 2 ^ 63 then Some (int n) else None))"

definition second :: int where "second = 1000000000"
definition maxTTLSeconds :: int where "maxTTLSeconds = (2 ^ 63 - 1) div second"

definition parseTTLSeconds :: "bytes \<Rightarrow> int option" where
  "parseTTLSeconds b =
     (case parseInt b of
        None \<Rightarrow> None
      | Some n \<Rightarrow> if n \<le> 0 \<or> n > maxTTLSeconds then None else Some (n * second))"

text \<open>\<open>strings.EqualFold\<close> with \<open>"EX"\<close>: no letter outside ASCII folds to E or X.\<close>

definition upper_char :: "char \<Rightarrow> char" where
  "upper_char c = (if 97 \<le> nat_of_byte c \<and> nat_of_byte c \<le> 122 then byte_of (nat_of_byte c - 32) else c)"

definition is_EX :: "bytes \<Rightarrow> bool" where
  "is_EX b \<longleftrightarrow> map upper_char b = ''EX''"

text \<open>The deadline as it goes into the journal: eight bytes, big endian, two's complement.\<close>

definition expire_value :: "int \<Rightarrow> bytes" where
  "expire_value t = be_enc 8 (nat (t mod 2 ^ 64))"

definition writeExpire :: "'v env \<Rightarrow> 'v srv \<Rightarrow> string \<Rightarrow> int \<Rightarrow> 'v srv" where
  "writeExpire E s key dur = jwrite s OpExpire key (expire_value (i64 (wall E + dur)))"

definition setClearTTL :: "'v srv \<Rightarrow> string \<Rightarrow> 'v srv" where
  "setClearTTL s key =
     (case ttl_remove (sttl s) key of (had, m) \<Rightarrow>
        let s' = s\<lparr>sttl := m\<rparr> in if had then jwrite s' OpPersist key [] else s')"

section \<open>The evictor\<close>

definition compositeEvictor_Del :: "'v env \<Rightarrow> 'v srv \<Rightarrow> string \<Rightarrow> bool \<times> 'v srv" where
  "compositeEvictor_Del E s key =
     (case kv_del (skv s) key of (kvDeleted, k) \<Rightarrow>
        case vecDelete E (svec s) key of (vecDeleted, v) \<Rightarrow>
          let s' = s\<lparr>skv := k, svec := v\<rparr> in
          (kvDeleted \<or> vecDeleted, if vecDeleted then jwrite s' OpVSimDel key [] else s'))"

text \<open>\<open>IsExpired\<close> on the server's table and stores.\<close>

definition srv_isExpired :: "'v env \<Rightarrow> 'v srv \<Rightarrow> string \<Rightarrow> bool \<times> 'v srv" where
  "srv_isExpired E s key =
     (case isExpired (compositeEvictor_Del E) (sttl s) s (mono E) (mono2 E) key of
        (ans, m, s') \<Rightarrow> (ans, s'\<lparr>sttl := m\<rparr>))"

section \<open>String commands\<close>

definition wrong_args :: "string \<Rightarrow> string" where
  "wrong_args c = ''ERR wrong number of arguments for '' @ [CHR 0x27] @ c @ [CHR 0x27]"

definition cmdPing :: "'v srv \<Rightarrow> bytes list \<Rightarrow> reply list \<times> 'v srv" where
  "cmdPing s args = ([RSimple ''PONG''], s)"

definition set_ttl_arg :: "bytes list \<Rightarrow> string + int" where
  "set_ttl_arg args =
     (if length args = 2 then Inr 0
      else if length args = 4 \<and> is_EX (args ! 2) then
        (case parseTTLSeconds (args ! 3) of None \<Rightarrow> Inl ''ERR invalid expire time'' | Some d \<Rightarrow> Inr d)
      else Inl ''ERR syntax error'')"

definition cmdSet :: "'v env \<Rightarrow> 'v srv \<Rightarrow> bytes list \<Rightarrow> reply list \<times> 'v srv" where
  "cmdSet E s args =
     (if length args < 2 then ([RError (wrong_args ''SET'')], s)
      else case set_ttl_arg args of
        Inl err \<Rightarrow> ([RError err], s)
      | Inr ttlDur \<Rightarrow>
          let key = args ! 0; value = args ! 1 in
          (case moved E key of
             Some r \<Rightarrow> (r, s)
           | None \<Rightarrow>
               let s1 = jwrite s OpSet key value;
                   s2 = s1\<lparr>skv := kv_set (skv s1) key value\<rparr>;
                   s3 = forwardWrite E s2 (''SET '' @ key @ '' '' @ value);
                   s4 = (if ttlDur > 0 then
                           (let s' = writeExpire E s3 key ttlDur in s'\<lparr>sttl := ttl_set (sttl s') (mono E) key ttlDur\<rparr>)
                         else setClearTTL s3 key) in
               ([RSimple ''OK''], s4)))"

definition cmdGet :: "'v env \<Rightarrow> 'v srv \<Rightarrow> bytes list \<Rightarrow> reply list \<times> 'v srv" where
  "cmdGet E s args =
     (if length args < 1 then ([RError (wrong_args ''GET'')], s)
      else
        let key = args ! 0 in
        case (case cluster E of None \<Rightarrow> None | Some h \<Rightarrow> if \<not> isReplica h then checkKey h key else None) of
          Some r \<Rightarrow> (r, s)
        | None \<Rightarrow>
            (case srv_isExpired E s key of (expired, s1) \<Rightarrow>
               if expired then ([RNull], s1)
               else case kv_get (skv s1) key of
                 None \<Rightarrow>
                   (case (case cluster E of None \<Rightarrow> None | Some h \<Rightarrow> checkKeyAsk h key) of
                      Some r \<Rightarrow> (r, s1)
                    | None \<Rightarrow> ([RNull], s1))
               | Some val \<Rightarrow> ([RBulk val], s1)))"

definition cmdDel :: "'v env \<Rightarrow> 'v srv \<Rightarrow> bytes list \<Rightarrow> reply list \<times> 'v srv" where
  "cmdDel E s args =
     (if length args < 1 then ([RError (wrong_args ''DEL'')], s)
      else
        let key = args ! 0 in
        case moved E key of
          Some r \<Rightarrow> (r, s)
        | None \<Rightarrow>
            let s1 = jwrite s OpDel key [] in
            (case kv_del (skv s1) key of (ok, k) \<Rightarrow>
               let s2 = s1\<lparr>skv := k, svec := snd (vecDelete E (svec s1) key)\<rparr>;
                   s3 = s2\<lparr>sttl := onDelete (sttl s2) key\<rparr>;
                   s4 = forwardWrite E s3 (''DEL '' @ key) in
               ([RInt (if ok then 1 else 0)], s4)))"

definition cmdExpire :: "'v env \<Rightarrow> 'v srv \<Rightarrow> bytes list \<Rightarrow> reply list \<times> 'v srv" where
  "cmdExpire E s args =
     (if length args < 2 then ([RError (wrong_args ''EXPIRE'')], s)
      else
        let key = args ! 0 in
        case moved E key of
          Some r \<Rightarrow> (r, s)
        | None \<Rightarrow>
            (case kv_get (skv s) key of
               None \<Rightarrow> ([RInt 0], s)
             | Some _ \<Rightarrow>
                 (case parseTTLSeconds (args ! 1) of
                    None \<Rightarrow> ([RError ''ERR invalid expire time''], s)
                  | Some dur \<Rightarrow>
                      let s1 = writeExpire E s key dur in
                      ([RInt 1], s1\<lparr>sttl := ttl_set (sttl s1) (mono E) key dur\<rparr>))))"

definition cmdTTL :: "'v env \<Rightarrow> 'v srv \<Rightarrow> bytes list \<Rightarrow> reply list \<times> 'v srv" where
  "cmdTTL E s args =
     (if length args < 1 then ([RError (wrong_args ''TTL'')], s)
      else
        let key = args ! 0 in
        case moved E key of
          Some r \<Rightarrow> (r, s)
        | None \<Rightarrow>
            (case kv_get (skv s) key of
               None \<Rightarrow> ([RInt (- 2)], s)
             | Some _ \<Rightarrow>
                 let remaining = ttl_left (sttl s) (mono E) key in
                 if remaining = - 1 then ([RInt (- 1)], s) else ([RInt (seconds E remaining)], s)))"

definition cmdPersist :: "'v env \<Rightarrow> 'v srv \<Rightarrow> bytes list \<Rightarrow> reply list \<times> 'v srv" where
  "cmdPersist E s args =
     (if length args < 1 then ([RError (wrong_args ''PERSIST'')], s)
      else
        let key = args ! 0 in
        case moved E key of
          Some r \<Rightarrow> (r, s)
        | None \<Rightarrow>
            (case ttl_remove (sttl s) key of (had, m) \<Rightarrow>
               let s1 = s\<lparr>sttl := m\<rparr> in
               if had then ([RInt 1], jwrite s1 OpPersist key []) else ([RInt 0], s1)))"

definition cmdDBSize :: "'v srv \<Rightarrow> bytes list \<Rightarrow> reply list \<times> 'v srv" where
  "cmdDBSize s args = ([RInt (int (kv_len (skv s)))], s)"

section \<open>Sorted-set commands\<close>

text \<open>The registry charges the counter of the string store (\<open>MemoryCounter\<close>). \<open>ZAdd\<close> always returns
  (property \<open>zadd_correct\<close>); the first branch is what never happens.\<close>

definition with_counter :: "'v srv \<Rightarrow> zreg" where
  "with_counter s = (szset s)\<lparr>zmem := Some (used (skv s))\<rparr>"

definition put_zset :: "'v srv \<Rightarrow> zreg \<Rightarrow> 'v srv" where
  "put_zset s z = s\<lparr>szset := z, skv := (skv s)\<lparr>used := (case zmem z of Some u \<Rightarrow> u | None \<Rightarrow> used (skv s))\<rparr>\<rparr>"

definition srv_zadd :: "'v srv \<Rightarrow> string \<Rightarrow> f64 \<Rightarrow> string \<Rightarrow> bool \<times> 'v srv" where
  "srv_zadd s n sc m =
     (case ZAdd (with_counter s) n sc m of None \<Rightarrow> (False, s) | Some (b, z) \<Rightarrow> (b, put_zset s z))"

definition srv_zrem :: "'v srv \<Rightarrow> string \<Rightarrow> string \<Rightarrow> bool \<times> 'v srv" where
  "srv_zrem s n m = (case ZRem (with_counter s) n m of (b, z) \<Rightarrow> (b, put_zset s z))"

definition cmdZAdd :: "'v env \<Rightarrow> 'v srv \<Rightarrow> bytes list \<Rightarrow> reply list \<times> 'v srv" where
  "cmdZAdd E s args =
     (if length args < 3 then ([RError ''ERR usage: ZADD <key> <score> <member>''], s)
      else case parseFloat E (args ! 1) of
        None \<Rightarrow> ([RError ''ERR invalid score (must be a float)''], s)
      | Some score \<Rightarrow>
          if f64_nan score then ([RError ''ERR invalid score (must be a float)''], s)
          else
            let setName = args ! 0; member = args ! 2 in
            (case srv_zadd s setName score member of (isNew, s1) \<Rightarrow>
               ([RInt (if isNew then 1 else 0)], jwrite s1 OpZAdd setName (EncodeZAddValue score member))))"

definition cmdZScore :: "'v env \<Rightarrow> 'v srv \<Rightarrow> bytes list \<Rightarrow> reply list \<times> 'v srv" where
  "cmdZScore E s args =
     (if length args < 2 then ([RError ''ERR usage: ZSCORE <key> <member>''], s)
      else case ZScore (szset s) (args ! 0) (args ! 1) of
        None \<Rightarrow> ([RNull], s)
      | Some score \<Rightarrow> ([RBulk (formatFloat E score)], s))"

definition cmdZRem :: "'v srv \<Rightarrow> bytes list \<Rightarrow> reply list \<times> 'v srv" where
  "cmdZRem s args =
     (if length args < 2 then ([RError ''ERR usage: ZREM <key> <member>''], s)
      else case srv_zrem s (args ! 0) (args ! 1) of
        (ok, s1) \<Rightarrow>
          if ok then ([RInt 1], jwrite s1 OpZRem (args ! 0) (args ! 1)) else ([RInt 0], s1))"

definition cmdZRangeByScore :: "'v env \<Rightarrow> (string \<Rightarrow> string) \<Rightarrow> 'v srv \<Rightarrow> bytes list \<Rightarrow> reply list \<times> 'v srv" where
  "cmdZRangeByScore E toUpper s args =
     (if length args < 3 then ([RError ''ERR usage: ZRANGEBYSCORE <key> <min> <max> [WITHSCORES]''], s)
      else case parseFloat E (args ! 1) of
        None \<Rightarrow> ([RError ''ERR invalid min score''], s)
      | Some minScore \<Rightarrow>
          if f64_nan minScore then ([RError ''ERR invalid min score''], s)
          else case parseFloat E (args ! 2) of
            None \<Rightarrow> ([RError ''ERR invalid max score''], s)
          | Some maxScore \<Rightarrow>
              if f64_nan maxScore then ([RError ''ERR invalid max score''], s)
              else
                let withScores = (4 \<le> length args \<and> toUpper (args ! 3) = ''WITHSCORES'');
                    results = (case ZRangeByScore (szset s) (args ! 0) minScore maxScore of
                                 None \<Rightarrow> [] | Some out \<Rightarrow> out) in
                if withScores then
                  (RArrayHeader (length results * 2) #
                     concat (map (\<lambda>(sc, m). [RBulk m, RBulk (formatFloat E sc)]) results), s)
                else (RArrayHeader (length results) # map (\<lambda>(sc, m). RBulk m) results, s))"

definition cmdZCard :: "'v srv \<Rightarrow> bytes list \<Rightarrow> reply list \<times> 'v srv" where
  "cmdZCard s args =
     (if length args < 1 then ([RError ''ERR usage: ZCARD <key>''], s)
      else ([RInt (int (ZCard (szset s) (args ! 0)))], s))"

section \<open>Invariant of the server state\<close>

definition srv_inv :: "'v srv \<Rightarrow> bool" where
  "srv_inv s \<longleftrightarrow> kv_inv (skv s) \<and> ttl_inv (sttl s) \<and> zinv (szset s) {} \<and>
     used (skv s) = kv_bytes (skv s) + zbytes (szset s)"

lemma jwrite_sel [simp]:
  "skv (jwrite s op k v) = skv s" "sttl (jwrite s op k v) = sttl s" "szset (jwrite s op k v) = szset s"
  "svec (jwrite s op k v) = svec s" "jr (jwrite s op k v) = jr s @ [\<lparr>LSN = 0, Op = op, Key = k, Value = v\<rparr>]"
  by (simp_all add: jwrite_def)

lemma forward_sel [simp]:
  "skv (forwardWrite E s l) = skv s" "sttl (forwardWrite E s l) = sttl s" "szset (forwardWrite E s l) = szset s"
  "jr (forwardWrite E s l) = jr s"
  by (simp_all add: forwardWrite_def split: option.splits)

lemma kv_used_irrelevant [simp]:
  "kv_inv (k\<lparr>used := u\<rparr>) = kv_inv k" "kview (k\<lparr>used := u\<rparr>) = kview k" "kv_bytes (k\<lparr>used := u\<rparr>) = kv_bytes k"
  by (simp_all add: kv_inv_def kview_def kv_bytes_def)

lemma zmem_irrelevant [simp]:
  "zinv (z\<lparr>zmem := u\<rparr>) P = zinv z P" "zview (z\<lparr>zmem := u\<rparr>) = zview z" "zbytes (z\<lparr>zmem := u\<rparr>) = zbytes z"
  by (simp_all add: zinv_def zbytes_def) (intro ext, simp add: zview_def cong: option.case_cong)

lemma srv_set:
  assumes "srv_inv s" "s' = s\<lparr>skv := kv_set (skv s) key v\<rparr>"
  shows "srv_inv s'"
  using assms kv_set_spec[of "skv s" key v] by (simp add: srv_inv_def)

lemma srv_del:
  assumes "srv_inv s" "kv_del (skv s) key = (b, k)"
  shows "srv_inv (s\<lparr>skv := k, svec := v\<rparr>)" "kview k = (kview (skv s))(key := None)" "b = (kview (skv s) key \<noteq> None)"
  using assms kv_del_spec[of "skv s" key] by (simp_all add: srv_inv_def)

lemma srv_ttl:
  "srv_inv s \<Longrightarrow> ttl_inv m \<Longrightarrow> srv_inv (s\<lparr>sttl := m\<rparr>)"
  by (simp add: srv_inv_def)

lemma srv_jwrite [simp]: "srv_inv (jwrite s op k v) = srv_inv s"
  by (simp add: srv_inv_def)

lemma srv_forward [simp]: "srv_inv (forwardWrite E s l) = srv_inv s"
  by (simp add: srv_inv_def)

lemma srv_zadd_spec:
  assumes "srv_inv s" "\<not> f64_nan sc" "srv_zadd s n sc m = (b, s')"
  shows "srv_inv s'" "b = (zview (szset s) n m = None)"
    "zview (szset s') = (\<lambda>k x. if k = n \<and> x = m \<and>
       (case zview (szset s) n m of None \<Rightarrow> True | Some old \<Rightarrow> \<not> f64_eq old sc)
       then Some sc else zview (szset s) k x)"
    "kview (skv s') = kview (skv s)" "sttl s' = sttl s" "jr s' = jr s" "svec s' = svec s"
proof -
  have z: "zinv (with_counter s) {}" using assms(1) by (simp add: srv_inv_def with_counter_def)
  have v: "zview (with_counter s) = zview (szset s)" by (simp add: with_counter_def)
  obtain z' where a: "ZAdd (with_counter s) n sc m = Some (zview (with_counter s) n m = None, z')" "zinv z' {}"
    "zview z' = (\<lambda>k x. if k = n \<and> x = m \<and>
       (case zview (with_counter s) n m of None \<Rightarrow> True | Some old \<Rightarrow> \<not> f64_eq old sc)
       then Some sc else zview (with_counter s) k x)"
    using ZAdd_spec[OF z assms(2)] .
  have "accounts (with_counter s) z'" by (rule ZAdd_accounts[OF z a(1)])
  then have mem: "zmem z' = Some (used (skv s) + (zbytes z' - zbytes (szset s)))"
    by (simp add: accounts_def with_counter_def)
  have s': "b = (zview (szset s) n m = None)" "s' = put_zset s z'"
    using assms(3) a(1) v by (auto simp: srv_zadd_def)
  show "srv_inv s'" using assms(1) a(2) mem s'(2) by (simp add: srv_inv_def put_zset_def)
  show "b = (zview (szset s) n m = None)" by (rule s'(1))
  show "zview (szset s') = (\<lambda>k x. if k = n \<and> x = m \<and>
       (case zview (szset s) n m of None \<Rightarrow> True | Some old \<Rightarrow> \<not> f64_eq old sc)
       then Some sc else zview (szset s) k x)"
    using a(3)[unfolded v] s'(2) by (simp add: put_zset_def)
  show "kview (skv s') = kview (skv s)" "sttl s' = sttl s" "jr s' = jr s" "svec s' = svec s"
    using s'(2) by (simp_all add: put_zset_def)
qed

lemma srv_zrem_spec:
  assumes "srv_inv s" "srv_zrem s n m = (b, s')"
  shows "srv_inv s'" "b = (zview (szset s) n m \<noteq> None)"
    "zview (szset s') = (\<lambda>k x. if k = n \<and> x = m then None else zview (szset s) k x)"
    "kview (skv s') = kview (skv s)" "sttl s' = sttl s" "jr s' = jr s" "svec s' = svec s"
proof -
  have z: "zinv (with_counter s) {}" using assms(1) by (simp add: srv_inv_def with_counter_def)
  have v: "zview (with_counter s) = zview (szset s)" by (simp add: with_counter_def)
  obtain z' where a: "ZRem (with_counter s) n m = (zview (with_counter s) n m \<noteq> None, z')" "zinv z' {}"
    "zview z' = (\<lambda>k x. if k = n \<and> x = m then None else zview (with_counter s) k x)"
    using ZRem_spec[OF z] .
  have "accounts (with_counter s) z'" by (rule ZRem_accounts[OF z a(1)])
  then have mem: "zmem z' = Some (used (skv s) + (zbytes z' - zbytes (szset s)))"
    by (simp add: accounts_def with_counter_def)
  have s': "b = (zview (szset s) n m \<noteq> None)" "s' = put_zset s z'"
    using assms(2) a(1) v by (auto simp: srv_zrem_def)
  show "srv_inv s'" using assms(1) a(2) mem s'(2) by (simp add: srv_inv_def put_zset_def)
  show "b = (zview (szset s) n m \<noteq> None)" by (rule s'(1))
  show "zview (szset s') = (\<lambda>k x. if k = n \<and> x = m then None else zview (szset s) k x)"
    using a(3)[unfolded v] s'(2) by (simp add: put_zset_def)
  show "kview (skv s') = kview (skv s)" "sttl s' = sttl s" "jr s' = jr s" "svec s' = svec s"
    using s'(2) by (simp_all add: put_zset_def)
qed

text \<open>The composite evictor keeps the evictor's contract, with the string keys as what it holds.\<close>

lemma compositeEvictor_spec:
  assumes "srv_inv s"
  shows "srv_inv (snd (compositeEvictor_Del E s key))"
    "kview (skv (snd (compositeEvictor_Del E s key))) = (kview (skv s))(key := None)"
    "sttl (snd (compositeEvictor_Del E s key)) = sttl s" "szset (snd (compositeEvictor_Del E s key)) = szset s"
proof -
  obtain b k where d: "kv_del (skv s) key = (b, k)" by fastforce
  note p = srv_del[OF assms d]
  show "srv_inv (snd (compositeEvictor_Del E s key))"
    "kview (skv (snd (compositeEvictor_Del E s key))) = (kview (skv s))(key := None)"
    "sttl (snd (compositeEvictor_Del E s key)) = sttl s" "szset (snd (compositeEvictor_Del E s key)) = szset s"
    using p d by (simp_all add: compositeEvictor_Del_def Let_def split: prod.splits)
qed

interpretation cev: evictor "compositeEvictor_Del E" srv_inv "\<lambda>s k. kview (skv s) k \<noteq> None" for E
  by unfold_locales (auto simp: compositeEvictor_spec)

lemma srv_isExpired_spec:
  assumes "srv_inv s" "mono E \<le> mono2 E" "srv_isExpired E s key = (b, s')"
  shows "srv_inv s'" "b \<longleftrightarrow> (\<exists>e. ttl_get (sttl s) key = Some e \<and> e \<le> mono E)"
    "\<not> b \<Longrightarrow> s' = s" "b \<Longrightarrow> kview (skv s') = (kview (skv s))(key := None)"
proof -
  have t: "ttl_inv (sttl s)" using assms(1) by (simp add: srv_inv_def)
  have "srv_isExpired E s key =
    (case ttl_get (sttl s) key of
       None \<Rightarrow> (False, s)
     | Some e \<Rightarrow> if e \<le> mono E then (True, (snd (compositeEvictor_Del E s key))\<lparr>sttl := onDelete (sttl s) key\<rparr>)
         else (False, s))"
    unfolding srv_isExpired_def expired_spec[OF t assms(2)] by (simp split: option.splits)
  then have "srv_inv s' \<and> (b \<longleftrightarrow> (\<exists>e. ttl_get (sttl s) key = Some e \<and> e \<le> mono E)) \<and>
      (\<not> b \<longrightarrow> s' = s) \<and> (b \<longrightarrow> kview (skv s') = (kview (skv s))(key := None))"
    using assms(1,3) t compositeEvictor_spec[OF assms(1), of E key]
    by (auto simp: srv_ttl split: option.splits if_splits)
  then show "srv_inv s'" "b \<longleftrightarrow> (\<exists>e. ttl_get (sttl s) key = Some e \<and> e \<le> mono E)"
    "\<not> b \<Longrightarrow> s' = s" "b \<Longrightarrow> kview (skv s') = (kview (skv s))(key := None)" by blast+
qed

end
