(* ===== verification/Recovery.thy ===== *)
theory Recovery
  imports Commands
begin

text \<open>
  Recovery: the application of journal records to the state at start-up (\<open>wal_applier.go\<close>), the
  snapshot that compaction writes (\<open>snapshotIterate\<close> in \<open>persistence.go\<close>) and the replay loop of
  \<open>main.go\<close>. The vector store takes part through the operations of \<open>vec_ops\<close>: a decoding that can
  fail is an \<open>option\<close>. Replay is related to the live state through what a record does to a key.
\<close>

section \<open>Applying records\<close>

record 'v vec_ops =
  vo_delete :: "'v \<Rightarrow> string \<Rightarrow> 'v"
  vo_add :: "'v \<Rightarrow> string \<Rightarrow> bytes \<Rightarrow> 'v"
  vo_addAttrs :: "'v \<Rightarrow> string \<Rightarrow> bytes \<Rightarrow> 'v option"
  vo_addDoc :: "'v \<Rightarrow> string \<Rightarrow> bytes \<Rightarrow> 'v option"
  vo_addBatch :: "'v \<Rightarrow> bytes \<Rightarrow> ('v \<times> nat) option"

record 'v applier =
  ap_srv :: "'v srv"
  graphLoaded :: bool
  vecWatermark :: "64 word"
  restored :: nat
  vecRestored :: nat
  unknownOps :: nat
  unknownOp :: "8 word"
  unknownLSN :: "64 word"

definition unknownOpsErr :: "'v applier \<Rightarrow> (nat \<times> 8 word \<times> 64 word) option" where
  "unknownOpsErr a = (if unknownOps a = 0 then None else Some (unknownOps a, unknownOp a, unknownLSN a))"

definition shouldSkipVecReplay :: "entry \<Rightarrow> bool \<Rightarrow> bool \<Rightarrow> 64 word \<Rightarrow> bool" where
  "shouldSkipVecReplay e isFromSnapshot gl wm = (if isFromSnapshot then gl else LSN e \<le> wm)"

definition skipVec :: "'v applier \<Rightarrow> entry \<Rightarrow> bool \<Rightarrow> bool" where
  "skipVec a e isFromSnapshot = shouldSkipVecReplay e isFromSnapshot (graphLoaded a) (vecWatermark a)"

text \<open>\<open>time.Until\<close> of the decoded deadline: a saturating difference.\<close>

definition sat64 :: "int \<Rightarrow> int" where
  "sat64 x = max (- (2 ^ 63)) (min (2 ^ 63 - 1) x)"

definition remaining :: "int \<Rightarrow> bytes \<Rightarrow> int" where
  "remaining wallNow v = sat64 (i64 (int (be_dec v)) - wallNow)"

definition count1 :: "'v applier \<Rightarrow> 'v applier" where
  "count1 a = a\<lparr>restored := restored a + 1\<rparr>"

definition with_srv :: "'v applier \<Rightarrow> ('v srv \<Rightarrow> 'v srv) \<Rightarrow> 'v applier" where
  "with_srv a f = a\<lparr>ap_srv := f (ap_srv a)\<rparr>"

definition del_vec :: "'v vec_ops \<Rightarrow> string \<Rightarrow> 'v srv \<Rightarrow> 'v srv" where
  "del_vec V key s = s\<lparr>svec := vo_delete V (svec s) key\<rparr>"

definition del_kv :: "string \<Rightarrow> 'v srv \<Rightarrow> 'v srv" where
  "del_kv key s = s\<lparr>skv := snd (kv_del (skv s) key)\<rparr>"

definition del_ttl :: "string \<Rightarrow> 'v srv \<Rightarrow> 'v srv" where
  "del_ttl key s = s\<lparr>sttl := onDelete (sttl s) key\<rparr>"

definition apply_vec :: "'v vec_ops \<Rightarrow> entry \<Rightarrow> 'v applier \<Rightarrow> ('v \<times> nat) option \<Rightarrow> 'v applier" where
  "apply_vec V e a res =
     (case res of None \<Rightarrow> a
      | Some (v, n) \<Rightarrow> count1 ((with_srv a (\<lambda>s. s\<lparr>svec := v\<rparr>))\<lparr>vecRestored := vecRestored a + n\<rparr>))"

text \<open>\<open>apply\<close>; \<open>wallNow\<close> and \<open>monoNow\<close> are the clocks it reads.\<close>

definition apply_entry :: "'v vec_ops \<Rightarrow> int \<Rightarrow> int \<Rightarrow> bool \<Rightarrow> entry \<Rightarrow> 'v applier \<Rightarrow> 'v applier" where
  "apply_entry V wallNow monoNow isFromSnapshot e a =
     (let k = Key e; v = Value e; skip = skipVec a e isFromSnapshot in
      if Op e = OpSet then count1 (with_srv a (\<lambda>s. s\<lparr>skv := kv_set (skv s) k v\<rparr>))
      else if Op e = OpDel then
        count1 (with_srv a (\<lambda>s. del_ttl k ((if skip then id else del_vec V k) (del_kv k s))))
      else if Op e = OpExpire then
        count1 (if length v = 8 then
          (let rem = remaining wallNow v in
           if rem > 0 then with_srv a (\<lambda>s. s\<lparr>sttl := ttl_set (sttl s) monoNow k rem\<rparr>)
           else with_srv a (\<lambda>s. del_ttl k ((if skip then id else del_vec V k) (del_kv k s))))
          else a)
      else if Op e = OpPersist then count1 (with_srv a (\<lambda>s. s\<lparr>sttl := snd (ttl_remove (sttl s) k)\<rparr>))
      else if Op e = OpVSimAdd then
        (if skip then a else apply_vec V e a (Some (vo_add V (svec (ap_srv a)) k v, 1)))
      else if Op e = OpVSimAddAttrs then
        (if skip then a else apply_vec V e a (map_option (\<lambda>x. (x, 1)) (vo_addAttrs V (svec (ap_srv a)) k v)))
      else if Op e = OpVSimAddDoc then
        (if skip then a else apply_vec V e a (map_option (\<lambda>x. (x, 1)) (vo_addDoc V (svec (ap_srv a)) k v)))
      else if Op e = OpVSimAddDocBatch then
        (if skip then a else apply_vec V e a (vo_addBatch V (svec (ap_srv a)) v))
      else if Op e = OpVSimDel then
        (if skip then a else count1 (with_srv a (del_vec V k)))
      else if Op e = OpZAdd then
        (case DecodeZAddValue v of
           None \<Rightarrow> a
         | Some (score, member) \<Rightarrow> count1 (with_srv a (\<lambda>s. snd (srv_zadd s k score member))))
      else if Op e = OpZRem then count1 (with_srv a (\<lambda>s. snd (srv_zrem s k v)))
      else
        (let a1 = (if unknownOps a = 0 then a\<lparr>unknownOp := Op e, unknownLSN := LSN e\<rparr> else a) in
         a1\<lparr>unknownOps := unknownOps a1 + 1\<rparr>))"

section \<open>The snapshot\<close>

definition zidx_prefix :: string where "zidx_prefix = ''__zidx:''"

text \<open>The records \<open>snapshotIterate\<close> hands to the snapshot writer. \<open>ZForEach\<close> always returns
  (property \<open>btree_range_correct\<close>).\<close>

definition snapshotIterate :: "'v srv \<Rightarrow> int \<Rightarrow> int \<Rightarrow> (8 word \<times> string \<times> bytes) list" where
  "snapshotIterate s wallBase monoBase =
     (let kvs = kv_forEach (skv s) (\<lambda>acc key value.
            if take (length zidx_prefix) key = zidx_prefix then acc else acc @ [(OpSet, key, value)]) [];
          ttls = ttl_forEach (sttl s) wallBase monoBase (\<lambda>acc key t.
            acc @ [(OpExpire, key, be_enc 8 (nat (t mod 2 ^ 64)))]) [];
          zs = ForEachSet (szset s) (\<lambda>acc n.
            (case ZForEach (szset s) n (\<lambda>acc sc m. acc @ [(OpZAdd, n, EncodeZAddValue sc m)]) acc of
               None \<Rightarrow> acc | Some acc' \<Rightarrow> acc')) [] in
      kvs @ ttls @ zs)"

section \<open>What a record does to one key\<close>

text \<open>The effect on one slot of the state: leave it, or give it a content (\<open>None\<close>: absent).\<close>

datatype 'a effect = Keep | Put "'a option"

fun eff :: "'a effect \<Rightarrow> 'a option \<Rightarrow> 'a option" where
  "eff Keep x = x" | "eff (Put y) x = y"

definition kv_effect :: "int \<Rightarrow> entry \<Rightarrow> string \<Rightarrow> bytes effect" where
  "kv_effect W e k =
     (if Key e \<noteq> k then Keep
      else if Op e = OpSet then Put (Some (Value e))
      else if Op e = OpDel then Put None
      else if Op e = OpExpire \<and> length (Value e) = 8 \<and> remaining W (Value e) \<le> 0 then Put None
      else Keep)"

definition zset_effect :: "entry \<Rightarrow> string \<Rightarrow> string \<Rightarrow> int effect" where
  "zset_effect e n m =
     (if Key e \<noteq> n then Keep
      else if Op e = OpZAdd then
        (case DecodeZAddValue (Value e) of None \<Rightarrow> Keep
         | Some (sc, x) \<Rightarrow> if x = m \<and> \<not> f64_nan sc then Put (Some (f64_key sc)) else Keep)
      else if Op e = OpZRem \<and> Value e = m then Put None
      else Keep)"

definition ttl_effect :: "int \<Rightarrow> int \<Rightarrow> entry \<Rightarrow> string \<Rightarrow> int effect" where
  "ttl_effect W M e k =
     (if Key e \<noteq> k then Keep
      else if Op e = OpDel \<or> Op e = OpPersist then Put None
      else if Op e = OpExpire \<and> length (Value e) = 8 then
        (if remaining W (Value e) > 0 then Put (Some (i64 (M + remaining W (Value e)))) else Put None)
      else Keep)"

definition kvv :: "'v applier \<Rightarrow> string \<Rightarrow> bytes option" where
  "kvv a = kview (skv (ap_srv a))"

definition zvv :: "'v applier \<Rightarrow> string \<Rightarrow> string \<Rightarrow> int option" where
  "zvv a n m = map_option f64_key (zview (szset (ap_srv a)) n m)"

definition tvv :: "'v applier \<Rightarrow> string \<Rightarrow> int option" where
  "tvv a = ttl_get (sttl (ap_srv a))"

definition ap_inv :: "'v applier \<Rightarrow> bool" where
  "ap_inv a \<longleftrightarrow> srv_inv (ap_srv a)"

lemmas op_defs = OpSet_def OpDel_def OpExpire_def OpPersist_def OpVSimAdd_def OpVSimDel_def
  OpVSimAddAttrs_def OpVSimAddDoc_def OpVSimAddDocBatch_def OpZAdd_def OpZRem_def

lemma count1_srv [simp]: "ap_srv (count1 a) = ap_srv a"
  by (simp add: count1_def)

lemma with_srv_srv [simp]: "ap_srv (with_srv a f) = f (ap_srv a)"
  by (simp add: with_srv_def)

lemma del_vec_sel [simp]: "skv (del_vec V k s) = skv s" "sttl (del_vec V k s) = sttl s"
  "szset (del_vec V k s) = szset s" "srv_inv (del_vec V k s) = srv_inv s"
  by (simp_all add: del_vec_def srv_inv_def)

lemma del_ttl_sel [simp]: "skv (del_ttl k s) = skv s" "szset (del_ttl k s) = szset s"
  "srv_inv s \<Longrightarrow> srv_inv (del_ttl k s)" "srv_inv s \<Longrightarrow> ttl_get (sttl (del_ttl k s)) = (ttl_get (sttl s))(k := None)"
  by (simp_all add: del_ttl_def srv_ttl srv_inv_def ttl_get_onDelete)

lemma del_kv_sel [simp]: "sttl (del_kv k s) = sttl s" "szset (del_kv k s) = szset s"
  "srv_inv s \<Longrightarrow> srv_inv (del_kv k s)" "srv_inv s \<Longrightarrow> kview (skv (del_kv k s)) = (kview (skv s))(k := None)"
  using kv_del_spec[of "skv s" k] by (simp_all add: del_kv_def srv_inv_def)

lemma apply_vec_sel [simp]: "skv (ap_srv (apply_vec V e a r)) = skv (ap_srv a)"
  "sttl (ap_srv (apply_vec V e a r)) = sttl (ap_srv a)" "szset (ap_srv (apply_vec V e a r)) = szset (ap_srv a)"
  "srv_inv (ap_srv (apply_vec V e a r)) = srv_inv (ap_srv a)"
  by (auto simp: apply_vec_def srv_inv_def split: option.splits)

text \<open>Applying a record is its effect on every slot.\<close>

definition applies :: "int \<Rightarrow> int \<Rightarrow> entry \<Rightarrow> 'v applier \<Rightarrow> 'v applier \<Rightarrow> bool" where
  "applies W M e a a' \<longleftrightarrow> ap_inv a' \<and> (\<forall>k. kvv a' k = eff (kv_effect W e k) (kvv a k)) \<and>
     (\<forall>k. tvv a' k = eff (ttl_effect W M e k) (tvv a k)) \<and>
     (\<forall>n m. zvv a' n m = eff (zset_effect e n m) (zvv a n m))"

lemma applies_set:
  assumes "ap_inv a" "Op e = OpSet"
  shows "applies W M e a (with_srv a (\<lambda>s. s\<lparr>skv := kv_set (skv s) (Key e) (Value e)\<rparr>))"
  using assms kv_set_spec[of "skv (ap_srv a)" "Key e" "Value e"]
  by (auto simp: applies_def ap_inv_def srv_inv_def kvv_def tvv_def zvv_def kv_effect_def ttl_effect_def
      zset_effect_def op_defs)

lemma applies_drop:
  assumes "ap_inv a" "Op e = OpDel \<or> Op e = OpExpire \<and> length (Value e) = 8 \<and> remaining W (Value e) \<le> 0"
    and "f = id \<or> f = del_vec V (Key e)"
  shows "applies W M e a (with_srv a (\<lambda>s. del_ttl (Key e) (f (del_kv (Key e) s))))"
  using assms
  by (auto simp: applies_def ap_inv_def kvv_def tvv_def zvv_def kv_effect_def ttl_effect_def
      zset_effect_def op_defs)

lemma applies_ttl_set:
  assumes "ap_inv a" "Op e = OpExpire" "length (Value e) = 8" "remaining W (Value e) > 0"
  shows "applies W M e a (with_srv a (\<lambda>s. s\<lparr>sttl := ttl_set (sttl s) M (Key e) (remaining W (Value e))\<rparr>))"
  using assms
  by (auto simp: applies_def ap_inv_def kvv_def tvv_def zvv_def kv_effect_def ttl_effect_def
      zset_effect_def op_defs srv_inv_def ttl_get_set)

lemma applies_persist:
  assumes "ap_inv a" "Op e = OpPersist"
  shows "applies W M e a (with_srv a (\<lambda>s. s\<lparr>sttl := snd (ttl_remove (sttl s) (Key e))\<rparr>))"
  using assms
  by (auto simp: applies_def ap_inv_def kvv_def tvv_def zvv_def kv_effect_def ttl_effect_def
      zset_effect_def op_defs srv_inv_def ttl_get_onDelete ttl_remove_def)

lemma srv_zadd_nan: "srv_inv s \<Longrightarrow> f64_nan sc \<Longrightarrow> srv_zadd s n sc m = (False, put_zset s (with_counter s))"
  by (simp add: srv_zadd_def ZAdd_def)

lemma put_same: "srv_inv s \<Longrightarrow> srv_inv (put_zset s (with_counter s)) \<and>
    kview (skv (put_zset s (with_counter s))) = kview (skv s) \<and> sttl (put_zset s (with_counter s)) = sttl s \<and>
    zview (szset (put_zset s (with_counter s))) = zview (szset s)"
  by (simp add: put_zset_def with_counter_def srv_inv_def)

lemma applies_zadd:
  assumes "ap_inv a" "Op e = OpZAdd" "DecodeZAddValue (Value e) = Some (sc, m)"
  shows "applies W M e a (with_srv a (\<lambda>s. snd (srv_zadd s (Key e) sc m)))"
proof (cases "f64_nan sc")
  case True
  have i: "srv_inv (ap_srv a)" using assms(1) by (simp add: ap_inv_def)
  show ?thesis
    using assms True put_same[OF i] srv_zadd_nan[OF i True]
    by (auto simp: applies_def ap_inv_def kvv_def tvv_def zvv_def kv_effect_def ttl_effect_def
        zset_effect_def op_defs)
next
  case False
  obtain b s' where z: "srv_zadd (ap_srv a) (Key e) sc m = (b, s')" by fastforce
  have i: "srv_inv (ap_srv a)" using assms(1) by (simp add: ap_inv_def)
  note p = srv_zadd_spec[OF i False z]
  have "map_option f64_key (zview (szset s') k x) =
      eff (zset_effect e k x) (map_option f64_key (zview (szset (ap_srv a)) k x))" for k x
    unfolding p(3) using assms(2,3) False
    by (auto simp: zset_effect_def f64_eq_def split: option.splits)
  then show ?thesis
    using assms z p by (auto simp: applies_def ap_inv_def kvv_def tvv_def zvv_def kv_effect_def
        ttl_effect_def op_defs)
qed

lemma applies_zrem:
  assumes "ap_inv a" "Op e = OpZRem"
  shows "applies W M e a (with_srv a (\<lambda>s. snd (srv_zrem s (Key e) (Value e))))"
proof -
  obtain b s' where z: "srv_zrem (ap_srv a) (Key e) (Value e) = (b, s')" by fastforce
  have i: "srv_inv (ap_srv a)" using assms(1) by (simp add: ap_inv_def)
  note p = srv_zrem_spec[OF i z]
  have "map_option f64_key (zview (szset s') k x) =
      eff (zset_effect e k x) (map_option f64_key (zview (szset (ap_srv a)) k x))" for k x
    unfolding p(3) using assms(2) by (auto simp: zset_effect_def op_defs)
  then show ?thesis
    using assms z p by (auto simp: applies_def ap_inv_def kvv_def tvv_def zvv_def kv_effect_def
        ttl_effect_def op_defs)
qed

lemma applies_other:
  assumes "ap_inv a" "Op e \<notin> {OpSet, OpDel, OpPersist, OpZAdd, OpZRem}"
    "Op e = OpExpire \<longrightarrow> length (Value e) \<noteq> 8"
    "srv_inv (ap_srv a')" "skv (ap_srv a') = skv (ap_srv a)" "sttl (ap_srv a') = sttl (ap_srv a)"
    "szset (ap_srv a') = szset (ap_srv a)"
  shows "applies W M e a a'"
  using assms by (auto simp: applies_def ap_inv_def kvv_def tvv_def zvv_def kv_effect_def
      ttl_effect_def zset_effect_def)

lemma applies_cong: "applies W M e a b \<Longrightarrow> ap_srv b = ap_srv c \<Longrightarrow> applies W M e a c"
  by (simp add: applies_def ap_inv_def kvv_def tvv_def zvv_def)

lemma apply_entry_applies:
  assumes "ap_inv a"
  shows "applies W M e a (apply_entry V W M snap e a)"
proof -
  have inv: "srv_inv (ap_srv a)" using assms by (simp add: ap_inv_def)
  consider "Op e = OpSet" | "Op e = OpDel" | "Op e = OpExpire" | "Op e = OpPersist" | "Op e = OpZAdd"
    | "Op e = OpZRem" | "Op e \<notin> {OpSet, OpDel, OpExpire, OpPersist, OpZAdd, OpZRem}" by blast
  then show ?thesis
  proof cases
    case 1
    show ?thesis by (rule applies_cong[OF applies_set[OF assms 1]]) (simp add: apply_entry_def 1)
  next
    case 2
    show ?thesis
      by (rule applies_cong[OF applies_drop[OF assms, of e W "if skipVec a e snap then id else del_vec V (Key e)" V]])
         (simp_all add: apply_entry_def 2 op_defs Let_def)
  next
    case 3
    show ?thesis
    proof (cases "length (Value e) = 8")
      case False
      with 3 show ?thesis
        by (intro applies_other[OF assms]) (simp_all add: apply_entry_def op_defs Let_def inv)
    next
      case len: True
      show ?thesis
      proof (cases "remaining W (Value e) > 0")
        case True
        show ?thesis
          by (rule applies_cong[OF applies_ttl_set[OF assms 3 len True]])
             (simp add: apply_entry_def 3 op_defs Let_def len True)
      next
        case False
        with len 3 show ?thesis
          by (intro applies_cong[OF applies_drop[OF assms, of e W "if skipVec a e snap then id else del_vec V (Key e)" V]])
             (simp_all add: apply_entry_def op_defs Let_def)
      qed
    qed
  next
    case 4
    show ?thesis
      by (rule applies_cong[OF applies_persist[OF assms 4]]) (simp add: apply_entry_def 4 op_defs Let_def)
  next
    case 5
    show ?thesis
    proof (cases "DecodeZAddValue (Value e)")
      case None
      then have "apply_entry V W M snap e a = a" using 5 by (simp add: apply_entry_def op_defs Let_def)
      then show ?thesis using 5 None assms
        by (auto simp: applies_def kv_effect_def ttl_effect_def zset_effect_def op_defs)
    next
      case (Some p)
      obtain sc m where p: "p = (sc, m)" by (cases p)
      show ?thesis
        by (rule applies_cong[OF applies_zadd[OF assms 5 Some[unfolded p]]])
           (simp add: apply_entry_def 5 op_defs Let_def Some p)
    qed
  next
    case 6
    show ?thesis
      by (rule applies_cong[OF applies_zrem[OF assms 6]]) (simp add: apply_entry_def 6 op_defs Let_def)
  next
    case 7
    then have ne: "Op e \<noteq> OpSet" "Op e \<noteq> OpDel" "Op e \<noteq> OpExpire" "Op e \<noteq> OpPersist" "Op e \<noteq> OpZAdd"
      "Op e \<noteq> OpZRem" by auto
    show ?thesis
      by (rule applies_other[OF assms]) (use ne in \<open>simp_all add: apply_entry_def Let_def inv\<close>)
  qed
qed

end
