(* ===== verification/Replay.thy ===== *)
theory Replay
  imports Recovery
begin

text \<open>
  What start-up recovers: the replay of \<open>main.go\<close> (snapshot file, then the log files), related to the
  live state that wrote the records. A journal is given with the clock readings of its replay: a
  triple of wall-clock time, monotonic time and record for each step.
\<close>

section \<open>The replay of start-up\<close>

type_synonym timed = "int \<times> int \<times> entry"

definition replay_snapshot :: "'v vec_ops \<Rightarrow> timed list \<Rightarrow> 'v applier \<Rightarrow> 'v applier" where
  "replay_snapshot V tes a = fold (\<lambda>(W, M, e) a. apply_entry V W M True e a) tes a"

definition bumpLSN :: "64 word \<Rightarrow> 64 word \<Rightarrow> 64 word" where
  "bumpLSN v maxLSN = (if v > maxLSN then v else maxLSN)"

definition replay_logs :: "'v vec_ops \<Rightarrow> 64 word \<Rightarrow> timed list \<Rightarrow> 64 word \<times> 'v applier \<Rightarrow> 64 word \<times> 'v applier" where
  "replay_logs V restoreLSN tes ma =
     fold (\<lambda>(W, M, e) (maxLSN, a).
       if restoreLSN > 0 \<and> LSN e > restoreLSN then (maxLSN, a)
       else (bumpLSN (LSN e) maxLSN, apply_entry V W M False e a)) tes ma"

definition checkRestoreReachable :: "64 word \<Rightarrow> 64 word \<Rightarrow> 64 word \<Rightarrow> 64 word option" where
  "checkRestoreReachable restoreLSN vecWm snapWm =
     (if restoreLSN = 0 then None
      else let earliest = max vecWm snapWm in if restoreLSN \<ge> earliest then None else Some earliest)"

text \<open>The whole of it; \<open>Inl\<close> names the earliest position that can be restored. The result is the
  position after which new records are numbered, and the state.\<close>

definition recover :: "'v vec_ops \<Rightarrow> 64 word \<Rightarrow> 64 word \<Rightarrow> 64 word \<Rightarrow> timed list \<Rightarrow> timed list \<Rightarrow>
    'v applier \<Rightarrow> 64 word + (64 word \<times> 'v applier)" where
  "recover V restoreLSN vecWm snapWm snapEntries logEntries a =
     (case checkRestoreReachable restoreLSN vecWm snapWm of
        Some earliest \<Rightarrow> Inl earliest
      | None \<Rightarrow>
          Inr (replay_logs V restoreLSN logEntries
                 (bumpLSN snapWm (bumpLSN vecWm 0), replay_snapshot V snapEntries a)))"

section \<open>Replay slot by slot\<close>

lemma fold_eff_const:
  "\<forall>t \<in> set ts. f t = Keep \<or> f t = Put y \<Longrightarrow> fold (\<lambda>t. eff (f t)) ts x = (if \<exists>t \<in> set ts. f t \<noteq> Keep then y else x)"
  by (induction ts arbitrary: x) auto

lemma fold_eff_or: "(\<forall>t \<in> set ts. f t = Keep) \<or> (\<exists>y. \<forall>x. fold (\<lambda>t. eff (f t)) ts x = y)"
proof (induction ts)
  case (Cons t ts)
  then show ?case by (cases "f t") auto
qed simp

lemma fold_keep: "\<forall>t \<in> set ts. f t = Keep \<Longrightarrow> fold (\<lambda>t. eff (f t)) ts x = x"
  by (induction ts) auto

lemma fold_slot:
  assumes "\<And>W M e. (W, M, e) \<in> set tes \<Longrightarrow> f W M e = Keep \<or> f W M e = Put y"
    and "y \<noteq> None \<Longrightarrow> \<exists>W M e. (W, M, e) \<in> set tes \<and> f W M e \<noteq> Keep"
  shows "fold (\<lambda>(W, M, e). eff (f W M e)) tes None = y"
proof -
  have "fold (\<lambda>t. eff (case t of (W, M, e) \<Rightarrow> f W M e)) tes None =
    (if \<exists>t \<in> set tes. (case t of (W, M, e) \<Rightarrow> f W M e) \<noteq> Keep then y else None)"
    by (rule fold_eff_const) (use assms(1) in auto)
  moreover have "y \<noteq> None \<Longrightarrow> \<exists>t \<in> set tes. (case t of (W, M, e) \<Rightarrow> f W M e) \<noteq> Keep"
    using assms(2) by force
  ultimately show ?thesis by (cases "y = None") (auto simp: case_prod_unfold)
qed

text \<open>Replaying a journal over a slot that already holds what some prefix of it left.\<close>

lemma fold_eff_again: "fold (\<lambda>t. eff (f t)) ts (fold (\<lambda>t. eff (f t)) (take j ts) x) = fold (\<lambda>t. eff (f t)) ts x"
proof -
  consider "\<forall>t \<in> set ts. f t = Keep" | y where "\<And>x. fold (\<lambda>t. eff (f t)) ts x = y"
    using fold_eff_or[of ts f] by blast
  then show ?thesis
  proof cases
    case 1
    then have "\<forall>t \<in> set (take j ts). f t = Keep" by (meson in_set_takeD)
    then show ?thesis by (simp add: fold_keep)
  qed simp
qed

definition masked :: "64 word \<Rightarrow> entry \<Rightarrow> 'a effect \<Rightarrow> 'a effect" where
  "masked r e x = (if r > 0 \<and> LSN e > r then Keep else x)"

lemma masked_on: "r > 0 \<and> LSN e > r \<Longrightarrow> masked r e x = Keep"
  and masked_off: "\<not> (r > 0 \<and> LSN e > r) \<Longrightarrow> masked r e x = x"
  by (auto simp: masked_def)

lemma masked_0 [simp]: "masked 0 e x = x"
  by (simp add: masked_def)

lemma replay_logs_slots:
  assumes "ap_inv a" "replay_logs V r tes (m, a) = (m', a')"
  shows "ap_inv a' \<and> (\<forall>k. kvv a' k = fold (\<lambda>(W, M, e). eff (masked r e (kv_effect W e k))) tes (kvv a k)) \<and>
    (\<forall>k. tvv a' k = fold (\<lambda>(W, M, e). eff (masked r e (ttl_effect W M e k))) tes (tvv a k)) \<and>
    (\<forall>n x. zvv a' n x = fold (\<lambda>(W, M, e). eff (masked r e (zset_effect e n x))) tes (zvv a n x))"
  using assms
proof (induction tes arbitrary: m a)
  case (Cons t tes)
  obtain W M e where t: "t = (W, M, e)" by (cases t)
  show ?case
  proof (cases "r > 0 \<and> LSN e > r")
    case True
    then have "replay_logs V r tes (m, a) = (m', a')" using Cons.prems(2) by (simp add: replay_logs_def t)
    from Cons.IH[OF Cons.prems(1) this] show ?thesis by (simp add: t masked_on[OF True])
  next
    case False
    note p = apply_entry_applies[OF Cons.prems(1), of W M e V False, unfolded applies_def]
    have r: "replay_logs V r tes (bumpLSN (LSN e) m, apply_entry V W M False e a) = (m', a')"
      using Cons.prems(2) False by (auto simp add: replay_logs_def t)
    from Cons.IH[OF conjunct1[OF p] r] p show ?thesis by (simp add: t masked_off[OF False])
  qed
qed (simp add: replay_logs_def)

lemma replay_logs_snd:
  "ap_inv a \<Longrightarrow>
    (\<forall>k. kvv (snd (replay_logs V r tes (m, a))) k =
      fold (\<lambda>t. eff (case t of (W, M, e) \<Rightarrow> masked r e (kv_effect W e k))) tes (kvv a k)) \<and>
    (\<forall>k. tvv (snd (replay_logs V r tes (m, a))) k =
      fold (\<lambda>t. eff (case t of (W, M, e) \<Rightarrow> masked r e (ttl_effect W M e k))) tes (tvv a k)) \<and>
    (\<forall>n x. zvv (snd (replay_logs V r tes (m, a))) n x =
      fold (\<lambda>t. eff (case t of (W, M, e) \<Rightarrow> masked r e (zset_effect e n x))) tes (zvv a n x))"
  using replay_logs_slots[of a V r tes m "fst (replay_logs V r tes (m, a))" "snd (replay_logs V r tes (m, a))"]
  by (simp add: case_prod_unfold)

lemma replay_snapshot_slots:
  assumes "ap_inv a" "a' = replay_snapshot V tes a"
  shows "ap_inv a' \<and> (\<forall>k. kvv a' k = fold (\<lambda>(W, M, e). eff (kv_effect W e k)) tes (kvv a k)) \<and>
    (\<forall>k. tvv a' k = fold (\<lambda>(W, M, e). eff (ttl_effect W M e k)) tes (tvv a k)) \<and>
    (\<forall>n x. zvv a' n x = fold (\<lambda>(W, M, e). eff (zset_effect e n x)) tes (zvv a n x))"
  using assms
proof (induction tes arbitrary: a)
  case (Cons t tes)
  obtain W M e where t: "t = (W, M, e)" by (cases t)
  note p = apply_entry_applies[OF Cons.prems(1), of W M e V True, unfolded applies_def]
  have r: "a' = replay_snapshot V tes (apply_entry V W M True e a)"
    using Cons.prems(2) by (simp add: replay_snapshot_def t)
  from Cons.IH[OF conjunct1[OF p] r] p show ?case by (simp add: t)
qed (simp add: replay_snapshot_def)

text \<open>The highest position: nothing that was applied lies above it.\<close>

lemma replay_logs_lsn:
  "replay_logs V r tes (m, a) = (m', a') \<Longrightarrow>
   m \<le> m' \<and> (\<forall>(W, M, e) \<in> set tes. \<not> (r > 0 \<and> LSN e > r) \<longrightarrow> LSN e \<le> m')"
proof (induction tes arbitrary: m a)
  case (Cons t tes)
  obtain W M e where t: "t = (W, M, e)" by (cases t)
  show ?case
  proof (cases "r > 0 \<and> LSN e > r")
    case True
    then have "replay_logs V r tes (m, a) = (m', a')" using Cons.prems by (simp add: replay_logs_def t)
    from Cons.IH[OF this] True show ?thesis by (auto simp: t)
  next
    case False
    then have "replay_logs V r tes (bumpLSN (LSN e) m, apply_entry V W M False e a) = (m', a')"
      using Cons.prems by (auto simp add: replay_logs_def t)
    from Cons.IH[OF this] show ?thesis by (auto simp: t bumpLSN_def split: if_splits)
  qed
qed (simp add: replay_logs_def)

section \<open>Properties: the fuzzy snapshot\<close>

text \<open>C14: recovery is idempotent slot by slot. Compaction starts a new journal, then walks the state
  while writers go on, so the snapshot holds, for every key, what some prefix of the new journal left
  there, a different prefix for different keys. Replaying the whole journal over such a mixture gives
  the same keys, deadlines and scores as replaying it over the state the journal started from.
  Numbering resumes above every record that was applied.\<close>

theorem fuzzy_snapshot_replay:
  fixes a a0 :: "'v applier"
  assumes "ap_inv a0" "ap_inv a"
    and "\<forall>k. \<exists>j. kvv a k = kvv (snd (replay_logs V r (take j tes) (m, a0))) k"
    and "\<forall>k. \<exists>j. tvv a k = tvv (snd (replay_logs V r (take j tes) (m, a0))) k"
    and "\<forall>n x. \<exists>j. zvv a n x = zvv (snd (replay_logs V r (take j tes) (m, a0))) n x"
    and "replay_logs V r tes (m, a0) = (m0', a0')" "replay_logs V r tes (m, a) = (m', a')"
  shows "kvv a' = kvv a0' \<and> tvv a' = tvv a0' \<and> zvv a' = zvv a0' \<and>
    m \<le> m' \<and> (\<forall>(W, M, e) \<in> set tes. \<not> (r > 0 \<and> LSN e > r) \<longrightarrow> LSN e \<le> m')"
proof -
  have fin: "a0' = snd (replay_logs V r tes (m, a0))" "a' = snd (replay_logs V r tes (m, a))"
    using assms(6,7) by simp_all
  note slots = replay_logs_snd[OF assms(1)] replay_logs_snd[OF assms(2)] fold_eff_again
  have "kvv a' k = kvv a0' k" for k
  proof -
    obtain j where "kvv a k = kvv (snd (replay_logs V r (take j tes) (m, a0))) k" using assms(3) by blast
    then show ?thesis by (simp add: fin slots)
  qed
  moreover have "tvv a' k = tvv a0' k" for k
  proof -
    obtain j where "tvv a k = tvv (snd (replay_logs V r (take j tes) (m, a0))) k" using assms(4) by blast
    then show ?thesis by (simp add: fin slots)
  qed
  moreover have "zvv a' n x = zvv a0' n x" for n x
  proof -
    obtain j where "zvv a n x = zvv (snd (replay_logs V r (take j tes) (m, a0))) n x" using assms(5) by blast
    then show ?thesis by (simp add: fin slots)
  qed
  ultimately show ?thesis using replay_logs_lsn[OF assms(7)] by (auto simp: fun_eq_iff)
qed

text \<open>The empty state the replay starts from.\<close>

definition srv_new :: "(string \<Rightarrow> 64 word) \<Rightarrow> 'v \<Rightarrow> 'v srv" where
  "srv_new h v = \<lparr>skv = kv_new h, sttl = ttl_new h, szset = zreg_new (Some 0), svec = v, jr = [], fwds = []\<rparr>"

definition ap_new :: "(string \<Rightarrow> 64 word) \<Rightarrow> 'v \<Rightarrow> bool \<Rightarrow> 64 word \<Rightarrow> 'v applier" where
  "ap_new h v gl wm = \<lparr>ap_srv = srv_new h v, graphLoaded = gl, vecWatermark = wm, restored = 0,
     vecRestored = 0, unknownOps = 0, unknownOp = 0, unknownLSN = 0\<rparr>"

lemma srv_new_inv [simp]: "srv_inv (srv_new h v)"
  by (simp add: srv_inv_def srv_new_def zinv_new)
     (simp add: zbytes_def zreg_new_def kv_bytes_def kv_new_def sum_list_replicate)

lemma ap_new_views [simp]: "ap_inv (ap_new h v gl wm)" "kvv (ap_new h v gl wm) k = None"
  "tvv (ap_new h v gl wm) k = None" "zvv (ap_new h v gl wm) n m = None"
  using srv_new_inv[of h v]
  by (simp_all add: ap_inv_def ap_new_def kvv_def tvv_def zvv_def) (simp_all add: srv_new_def zview_new)

section \<open>Properties: the snapshot\<close>

lemma set_fold_app: "set (fold (\<lambda>x acc. if P x then acc else acc @ [g x]) xs acc) = set acc \<union> g ` {x \<in> set xs. \<not> P x}"
  by (induction xs arbitrary: acc) auto

lemma set_fold_app_all: "set (fold (\<lambda>x acc. acc @ [g x]) xs acc) = set acc \<union> g ` set xs"
  using set_fold_app[of "\<lambda>_. False"] by simp

lemma set_pair_image: "{(c, k, f e) | k e. (k, e) \<in> X} = (\<lambda>x. (c, fst x, f (snd x))) ` X"
  by force

lemma ttl_forEach_pairs: "ttl_forEach m w b fn acc = fold (\<lambda>(k, e) acc. fn acc k (i64 (w + i64 (e - b)))) (concat (expires m)) acc"
proof -
  have "fold (fold f) xss acc = fold f (concat xss) acc" for f :: "string \<times> int \<Rightarrow> 'a \<Rightarrow> 'a" and xss
    by (induction xss arbitrary: acc) simp_all
  then show ?thesis by (simp add: ttl_forEach_def)
qed

lemma ttl_pairs: "ttl_inv m \<Longrightarrow> (k, e) \<in> set (concat (expires m)) \<longleftrightarrow> ttl_get m k = Some e"
  using shards_concat[of "hashSeed m" "expires m"] keys_distinct_map_of[of "concat (expires m)" k e]
  by (simp add: ttl_inv_def ttl_get_lookup del: set_concat)

lemma kv_pairs_mem: "kv_inv s \<Longrightarrow> (k, v) \<in> set (kv_pairs s) \<longleftrightarrow> kview s k = Some v"
  using kv_pairs_view[of s] by (metis map_of_eq_Some_iff)

lemma zview_not_nan: "zinv r P \<Longrightarrow> zview r n m = Some sc \<Longrightarrow> \<not> f64_nan sc"
  by (auto simp: zview_def zinv_def entry_ok_def dest: bti.agrees_score split: option.splits)

definition zrecords :: "zreg \<Rightarrow> string \<Rightarrow> (8 word \<times> string \<times> bytes) list" where
  "zrecords r n = map (\<lambda>it. (OpZAdd, n, EncodeZAddValue (Score it) (Member it))) (zitems r n)"

lemma snapshot_zsets:
  assumes "zinv r P"
  shows "ForEachSet r (\<lambda>acc n. (case ZForEach r n (\<lambda>acc sc m. acc @ [(OpZAdd, n, EncodeZAddValue sc m)]) acc of
     None \<Rightarrow> acc | Some acc' \<Rightarrow> acc')) acc = acc @ concat (map (\<lambda>(n, a). zrecords r n) (sets r))"
proof -
  have one: "fold (\<lambda>it s. s @ [(OpZAdd, n, EncodeZAddValue (Score it) (Member it))]) its acc =
      acc @ map (\<lambda>it. (OpZAdd, n, EncodeZAddValue (Score it) (Member it))) its" for its n acc
    by (induction its arbitrary: acc) simp_all
  have "fold (\<lambda>(name, a) s. s @ zrecords r name) xs acc = acc @ concat (map (\<lambda>(n, a). zrecords r n) xs)" for xs acc
    by (induction xs arbitrary: acc) auto
  then show ?thesis
    by (simp add: ForEachSet_def ZForEach_items[OF assms] one zrecords_def)
qed

lemma snapshot_records:
  assumes "srv_inv s"
  shows "set (snapshotIterate s wb mb) =
    {(OpSet, k, v) | k v. kview (skv s) k = Some v \<and> take (length zidx_prefix) k \<noteq> zidx_prefix} \<union>
    {(OpExpire, k, be_enc 8 (nat (i64 (wb + i64 (e - mb)) mod 2 ^ 64))) | k e. ttl_get (sttl s) k = Some e} \<union>
    {(OpZAdd, n, EncodeZAddValue sc m) | n sc m. zview (szset s) n m = Some sc}"
proof -
  have inv: "kv_inv (skv s)" "ttl_inv (sttl s)" "zinv (szset s) {}" using assms by (auto simp: srv_inv_def)
  have zs: "(OpZAdd, n, EncodeZAddValue sc m) \<in> (\<Union>(n, a) \<in> set (sets (szset s)). set (zrecords (szset s) n))"
    if "zview (szset s) n m = Some sc" for n m sc
  proof -
    have "\<lparr>Score = sc, Member = m\<rparr> \<in> set (zitems (szset s) n)" using zitems_view(3)[OF inv(3)] that by simp
    moreover have "\<exists>a. (n, a) \<in> set (sets (szset s))"
      using that by (auto simp: zview_def split: option.splits dest: map_of_SomeD)
    ultimately show ?thesis by (force simp: zrecords_def)
  qed
  have sz: "\<exists>n sc m. x = (OpZAdd, n, EncodeZAddValue sc m) \<and> zview (szset s) n m = Some sc"
    if mem: "x \<in> set (zrecords (szset s) n)" for x n
  proof -
    obtain it where it: "it \<in> set (zitems (szset s) n)" "x = (OpZAdd, n, EncodeZAddValue (Score it) (Member it))"
      using mem unfolding zrecords_def set_map by blast
    then show ?thesis using zitems_view(3)[OF inv(3), of "Score it" "Member it" n] by (auto simp: item_eta)
  qed
  have A: "set (kv_forEach (skv s) (\<lambda>acc key value.
      if take (length zidx_prefix) key = zidx_prefix then acc else acc @ [(OpSet, key, value)]) []) =
    {(OpSet, k, v) | k v. kview (skv s) k = Some v \<and> take (length zidx_prefix) k \<noteq> zidx_prefix}"
    using set_fold_app[of "\<lambda>x. take (length zidx_prefix) (fst x) = zidx_prefix" "\<lambda>x. (OpSet, fst x, snd x)" "kv_pairs (skv s)" "[]"]
    by (simp add: kv_forEach_pairs case_prod_unfold) (auto simp: image_iff kv_pairs_mem[OF inv(1)])
  have B: "set (ttl_forEach (sttl s) wb mb (\<lambda>acc key t. acc @ [(OpExpire, key, be_enc 8 (nat (t mod 2 ^ 64)))]) []) =
    {(OpExpire, k, be_enc 8 (nat (i64 (wb + i64 (e - mb)) mod 2 ^ 64))) | k e. ttl_get (sttl s) k = Some e}"
    using set_fold_app_all[of "\<lambda>x. (OpExpire, fst x, be_enc 8 (nat (i64 (wb + i64 (snd x - mb)) mod 2 ^ 64)))"
        "concat (expires (sttl s))" "[]"]
    by (simp add: ttl_forEach_pairs case_prod_unfold ttl_pairs[OF inv(2), symmetric] set_pair_image del: set_concat)
  have C: "set (concat (map (\<lambda>(n, a). zrecords (szset s) n) (sets (szset s)))) =
    {(OpZAdd, n, EncodeZAddValue sc m) | n sc m. zview (szset s) n m = Some sc}"
    using zs sz by fastforce
  show ?thesis
    unfolding snapshotIterate_def Let_def snapshot_zsets[OF inv(3)] append_Nil set_append A B C by (rule Un_assoc[symmetric])
qed

text \<open>The records as they come back from the snapshot file.\<close>

definition strip :: "entry \<Rightarrow> 8 word \<times> string \<times> bytes" where
  "strip e = (Op e, Key e, Value e)"

definition deadline_of :: "bytes \<Rightarrow> int" where
  "deadline_of v = i64 (int (be_dec v))"

lemma deadline_of_enc: "- (2 ^ 63) \<le> t \<Longrightarrow> t < 2 ^ 63 \<Longrightarrow> deadline_of (be_enc 8 (nat (t mod 2 ^ 64))) = t"
proof -
  assume t: "- (2 ^ 63) \<le> t" "t < 2 ^ 63"
  have "nat (t mod 2 ^ 64) < 256 ^ 8" by (simp add: nat_less_iff)
  then have "deadline_of (be_enc 8 (nat (t mod 2 ^ 64))) = i64 (t mod 2 ^ 64)"
    by (simp add: deadline_of_def)
  also have "\<dots> = i64 t" by (simp add: i64_def mod_add_left_eq)
  finally show ?thesis using t by simp
qed

lemma remaining_live: "0 \<le> W \<Longrightarrow> W < deadline_of v \<Longrightarrow> remaining W v = deadline_of v - W"
  using i64_range[of "int (be_dec v)"] by (simp add: remaining_def sat64_def deadline_of_def)

lemma remaining_pos: "W < 2 ^ 63 \<Longrightarrow> - (2 ^ 63) \<le> W \<Longrightarrow> remaining W v > 0 \<longleftrightarrow> W < deadline_of v"
  using i64_range[of "int (be_dec v)"] by (auto simp: remaining_def sat64_def deadline_of_def)

text \<open>C15: compaction loses nothing but one namespace. Reading the snapshot of a state back into an
  empty one, before any of its deadlines, gives every string key its value, every set member its score
  and every key its deadline, moved from the old process's monotonic clock to the new one's. The
  exception is the keys that start with \<open>__zidx:\<close>: the walk leaves them out, so a user's key of that
  name is gone after a compaction.\<close>

theorem snapshot_recovers:
  fixes s :: "'v srv"
  assumes "srv_inv s" "map (\<lambda>(W, M, e). strip e) tes = snapshotIterate s wb mb"
    and "0 \<le> mb" "mb \<le> wb" "wb < 2 ^ 63"
    and "\<forall>(W, M, e) \<in> set tes. 0 \<le> M \<and> W = M + off \<and> 0 \<le> off"
    and "\<forall>k d. ttl_get (sttl s) k = Some d \<longrightarrow> 0 \<le> d \<and> d + (wb - mb) < 2 ^ 63 \<and>
      (\<forall>(W, M, e) \<in> set tes. W < d + (wb - mb))"
    and "a' = replay_snapshot V tes (ap_new h v gl wm)"
  shows "ap_inv a' \<and>
    kvv a' = (\<lambda>k. if take (length zidx_prefix) k = zidx_prefix then None else kview (skv s) k) \<and>
    zvv a' = (\<lambda>n m. map_option f64_key (zview (szset s) n m)) \<and>
    tvv a' = (\<lambda>k. map_option (\<lambda>d. d + (wb - mb) - off) (ttl_get (sttl s) k))"
proof -
  have inv: "zinv (szset s) {}" using assms(1) by (simp add: srv_inv_def)
  note R = replay_snapshot_slots[OF ap_new_views(1) assms(8)]
  have recs: "strip e \<in> set (snapshotIterate s wb mb)" if "(W, M, e) \<in> set tes" for W M e
    using that unfolding assms(2)[symmetric] by force
  have recs': "\<exists>W M e. (W, M, e) \<in> set tes \<and> strip e = x" if "x \<in> set (snapshotIterate s wb mb)" for x
    using that unfolding assms(2)[symmetric] by force
  note S = snapshot_records[OF assms(1), of wb mb]
  have dl: "deadline_of (be_enc 8 (nat (i64 (wb + i64 (d - mb)) mod 2 ^ 64))) = d + (wb - mb)"
    if h: "ttl_get (sttl s) k = Some d" for k d
    using assms(3-5) assms(7)[rule_format, OF h] deadline_of_enc[of "d + (wb - mb)"] by (simp add: algebra_simps)
  have ops: "\<exists>v. kview (skv s) (Key e) = Some v \<and> Value e = v" if that: "(W, M, e) \<in> set tes" "Op e = OpSet" for W M e
    using recs[OF that(1)] that(2) unfolding S by (auto simp: strip_def op_defs)
  have expd: "\<exists>d. ttl_get (sttl s) (Key e) = Some d \<and> length (Value e) = 8 \<and> remaining W (Value e) = d + (wb - mb) - W \<and>
      remaining W (Value e) > 0"
    if h: "(W, M, e) \<in> set tes" "Op e = OpExpire" for W M e
  proof -
    obtain d where d: "ttl_get (sttl s) (Key e) = Some d" "Value e = be_enc 8 (nat (i64 (wb + i64 (d - mb)) mod 2 ^ 64))"
      using recs[OF h(1)] h(2) unfolding S by (auto simp: strip_def op_defs)
    have "0 \<le> W" using assms(6) h(1) by fastforce
    moreover have "W < d + (wb - mb)" using assms(7) d(1) h(1) by fastforce
    ultimately show ?thesis using d dl[OF d(1)] remaining_live[of W "Value e"] by simp
  qed
  have zadds: "\<exists>sc m. zview (szset s) (Key e) m = Some sc \<and> DecodeZAddValue (Value e) = Some (sc, m) \<and> \<not> f64_nan sc"
    if h: "(W, M, e) \<in> set tes" "Op e = OpZAdd" for W M e
  proof -
    obtain sc m where "zview (szset s) (Key e) m = Some sc" "Value e = EncodeZAddValue sc m"
      using recs[OF h(1)] h(2) unfolding S by (auto simp: strip_def op_defs)
    then show ?thesis using ZAdd_roundtrip[of sc m] zview_not_nan[OF inv] by auto
  qed
  have only: "Op e \<in> {OpSet, OpExpire, OpZAdd}" "Op e = OpSet \<Longrightarrow> take (length zidx_prefix) (Key e) \<noteq> zidx_prefix"
    if h: "(W, M, e) \<in> set tes" for W M e
    using recs[OF h] unfolding S by (auto simp: strip_def op_defs)
  let ?y = "\<lambda>k. if take (length zidx_prefix) k = zidx_prefix then None else kview (skv s) k"
  have "fold (\<lambda>(W, M, e). eff (kv_effect W e k)) tes None = ?y k" for k
  proof (rule fold_slot)
    fix W M e assume m: "(W, M, e) \<in> set tes"
    show "kv_effect W e k = Keep \<or> kv_effect W e k = Put (?y k)"
      using ops[OF m] expd[OF m] only[OF m] by (auto simp: kv_effect_def op_defs)
  next
    assume y: "?y k \<noteq> None"
    then obtain v where "(OpSet, k, v) \<in> set (snapshotIterate s wb mb)"
      unfolding S by (auto split: if_splits)
    from recs'[OF this] show "\<exists>W M e. (W, M, e) \<in> set tes \<and> kv_effect W e k \<noteq> Keep"
      by (auto simp: kv_effect_def strip_def op_defs)
  qed
  moreover have "fold (\<lambda>(W, M, e). eff (ttl_effect W M e k)) tes None =
      map_option (\<lambda>d. d + (wb - mb) - off) (ttl_get (sttl s) k)" for k
  proof (rule fold_slot)
    fix W M e assume m: "(W, M, e) \<in> set tes"
    show "ttl_effect W M e k = Keep \<or> ttl_effect W M e k = Put (map_option (\<lambda>d. d + (wb - mb) - off) (ttl_get (sttl s) k))"
    proof (cases "Op e = OpExpire \<and> Key e = k")
      case True
      then obtain d where d: "ttl_get (sttl s) k = Some d" "length (Value e) = 8"
        "remaining W (Value e) = d + (wb - mb) - W" "remaining W (Value e) > 0" using expd[OF m] by auto
      have "W = M + off" "0 \<le> off" "0 \<le> M" using assms(6) m by fastforce+
      moreover have "d + (wb - mb) < 2 ^ 63" using assms(7) d(1) by blast
      ultimately have "i64 (M + remaining W (Value e)) = d + (wb - mb) - off" using d(3,4) by simp
      then show ?thesis using True d by (simp add: ttl_effect_def op_defs)
    qed (use only(1)[OF m] in \<open>auto simp: ttl_effect_def op_defs\<close>)
  next
    assume "map_option (\<lambda>d. d + (wb - mb) - off) (ttl_get (sttl s) k) \<noteq> None"
    then obtain v where v: "(OpExpire, k, v) \<in> set (snapshotIterate s wb mb)" unfolding S by auto
    obtain W M e where e: "(W, M, e) \<in> set tes" "strip e = (OpExpire, k, v)" using recs'[OF v] by blast
    then have "ttl_effect W M e k \<noteq> Keep"
      using expd[OF e(1)] by (auto simp: ttl_effect_def strip_def op_defs)
    with e(1) show "\<exists>W M e. (W, M, e) \<in> set tes \<and> ttl_effect W M e k \<noteq> Keep" by blast
  qed
  moreover have "fold (\<lambda>(W, M, e). eff (zset_effect e n m)) tes None = map_option f64_key (zview (szset s) n m)" for n m
  proof (rule fold_slot)
    fix W M e assume h: "(W, M, e) \<in> set tes"
    show "zset_effect e n m = Keep \<or> zset_effect e n m = Put (map_option f64_key (zview (szset s) n m))"
      using zadds[OF h] only(1)[OF h] by (auto simp: zset_effect_def op_defs)
  next
    assume "map_option f64_key (zview (szset s) n m) \<noteq> None"
    then obtain sc where v: "zview (szset s) n m = Some sc" by auto
    then have "(OpZAdd, n, EncodeZAddValue sc m) \<in> set (snapshotIterate s wb mb)" unfolding S by auto
    from recs'[OF this] obtain W M e where e: "(W, M, e) \<in> set tes" "strip e = (OpZAdd, n, EncodeZAddValue sc m)"
      by blast
    then have "zset_effect e n m \<noteq> Keep"
      using zview_not_nan[OF inv v] by (auto simp: zset_effect_def strip_def op_defs ZAdd_roundtrip)
    with e(1) show "\<exists>W M e. (W, M, e) \<in> set tes \<and> zset_effect e n m \<noteq> Keep" by blast
  qed
  ultimately show ?thesis using R by (simp add: fun_eq_iff)
qed

definition stamp :: "int \<Rightarrow> int \<Rightarrow> 8 word \<times> string \<times> bytes \<Rightarrow> timed" where
  "stamp W M r = (case r of (op, k, v) \<Rightarrow> (W, M, \<lparr>LSN = 0, Op = op, Key = k, Value = v\<rparr>))"

lemma stamp_strip: "map (\<lambda>(W, M, e). strip e) (map (stamp W M) rs) = rs"
  by (induction rs) (auto simp: stamp_def strip_def)

lemma case_stamp: "(case stamp W M r of (w, m, e) \<Rightarrow> P w m) = P W M"
  by (cases r) (simp add: stamp_def)

definition no_vec :: "unit vec_ops" where
  "no_vec = \<lparr>vo_delete = (\<lambda>v k. v), vo_add = (\<lambda>v k b. v), vo_addAttrs = (\<lambda>v k b. Some v),
     vo_addDoc = (\<lambda>v k b. Some v), vo_addBatch = (\<lambda>v b. Some (v, 0))\<rparr>"

definition sample_srv :: "unit srv" where
  "sample_srv = (srv_new (\<lambda>_. 0) ())\<lparr>skv := kv_set (kv_new (\<lambda>_. 0)) ''k'' ''v'',
     sttl := ttl_set (ttl_new (\<lambda>_. 0)) 100 ''k'' 900\<rparr>"

lemma sample_srv_facts: "srv_inv sample_srv" "kview (skv sample_srv) = [''k'' \<mapsto> ''v'']"
  "ttl_get (sttl sample_srv) = [''k'' \<mapsto> 1000]"
proof -
  have "srv_inv ((srv_new (\<lambda>_. 0) ())\<lparr>skv := kv_set (skv (srv_new (\<lambda>_. 0) ())) ''k'' ''v''\<rparr>)"
    by (rule srv_set[OF srv_new_inv refl])
  then show "srv_inv sample_srv" by (simp add: sample_srv_def srv_inv_def srv_new_def)
  show "kview (skv sample_srv) = [''k'' \<mapsto> ''v'']"
    using kv_set_spec[of "kv_new (\<lambda>_. 0)" "''k''" "''v''"] by (simp add: sample_srv_def fun_eq_iff)
  show "ttl_get (sttl sample_srv) = [''k'' \<mapsto> 1000]"
    by (simp add: sample_srv_def ttl_get_set fun_eq_iff)
qed

theorem snapshot_recovers_witness:
  "let a' = replay_snapshot no_vec (map (stamp 5150 50) (snapshotIterate sample_srv 5000 200)) (ap_new (\<lambda>_. 7) () False 0) in
   kvv a' ''k'' = Some ''v'' \<and> tvv a' ''k'' = Some 700"
proof -
  let ?a = "replay_snapshot no_vec (map (stamp 5150 50) (snapshotIterate sample_srv 5000 200)) (ap_new (\<lambda>_. 7) () False 0)"
  have "kvv ?a = (\<lambda>k. if take (length zidx_prefix) k = zidx_prefix then None else kview (skv sample_srv) k) \<and>
    tvv ?a = (\<lambda>k. map_option (\<lambda>d. d + (5000 - 200) - 5100) (ttl_get (sttl sample_srv) k))"
    using snapshot_recovers[OF sample_srv_facts(1) stamp_strip, of 200 5000 5150 50 5100 ?a no_vec "\<lambda>_. 7" "()" False 0]
    by (simp add: sample_srv_facts case_stamp)
  then show ?thesis by (simp add: sample_srv_facts zidx_prefix_def)
qed

theorem fuzzy_snapshot_replay_witness:
  "let tes = [stamp 10 0 (OpSet, ''k'', ''v''), stamp 10 0 (OpDel, ''k'', []), stamp 11 1 (OpSet, ''k'', ''w'')];
       a0 = ap_new (\<lambda>_. 0) () False 0; a = snd (replay_logs no_vec 0 (take 1 tes) (0, a0)) in
   kvv a ''k'' = Some ''v'' \<and> kvv (snd (replay_logs no_vec 0 tes (0, a))) ''k'' = Some ''w''"
proof -
  let ?tes = "[stamp 10 0 (OpSet, ''k'', ''v''), stamp 10 0 (OpDel, ''k'', []), stamp 11 1 (OpSet, ''k'', ''w'')]"
  let ?init = "ap_new (\<lambda>_. 0) () False 0"
  let ?a = "snd (replay_logs no_vec 0 (take 1 ?tes) (0, ?init))"
  note sl = replay_logs_slots[OF ap_new_views(1) surjective_pairing, of no_vec 0 "take 1 ?tes" 0 "\<lambda>_. 0" "()" False 0]
  have i: "ap_inv ?a" "kvv ?a ''k'' = Some ''v''"
    using sl[THEN conjunct1] sl[THEN conjunct2, THEN conjunct1, THEN spec, of "''k''"]
    by (simp_all add: stamp_def kv_effect_def op_defs)
  have "kvv (snd (replay_logs no_vec 0 ?tes (0, ?a))) = kvv (snd (replay_logs no_vec 0 ?tes (0, ?init)))"
    using fuzzy_snapshot_replay[OF ap_new_views(1) i(1) _ _ _ surjective_pairing surjective_pairing, of no_vec 0 ?tes 0]
    by blast
  moreover have "kvv (snd (replay_logs no_vec 0 ?tes (0, ?init))) ''k'' = Some ''w''"
    using replay_logs_snd[OF ap_new_views(1), of no_vec 0 ?tes 0 "\<lambda>_. 0" "()" False 0, THEN conjunct1, THEN spec, of "''k''"]
    by (simp add: stamp_def kv_effect_def op_defs)
  ultimately show ?thesis unfolding Let_def by (intro conjI i(2)) (rule trans[OF fun_cong])
qed

end
