(* ===== verification/Journal.thy ===== *)
theory Journal
  imports Replay
begin

text \<open>
  The journal the command handlers write, replayed: the recovered state is the live one, as long as no
  deadline of the journal has passed; what goes wrong once one has passed, or when two clients write
  the same key at the same time.
\<close>

section \<open>Runs of commands\<close>

datatype wcmd =
  CSet "bytes list" | CGet "bytes list" | CDel "bytes list" | CExpire "bytes list" | CPersist "bytes list"
| CZAdd "bytes list" | CZRem "bytes list"

fun exec_cmd :: "'v env \<Rightarrow> wcmd \<Rightarrow> 'v srv \<Rightarrow> reply list \<times> 'v srv" where
  "exec_cmd E (CSet args) s = cmdSet E s args"
| "exec_cmd E (CGet args) s = cmdGet E s args"
| "exec_cmd E (CDel args) s = cmdDel E s args"
| "exec_cmd E (CExpire args) s = cmdExpire E s args"
| "exec_cmd E (CPersist args) s = cmdPersist E s args"
| "exec_cmd E (CZAdd args) s = cmdZAdd E s args"
| "exec_cmd E (CZRem args) s = cmdZRem s args"

definition exec_run :: "('v env \<times> wcmd) list \<Rightarrow> 'v srv \<Rightarrow> 'v srv" where
  "exec_run cs s = fold (\<lambda>(E, c) s. snd (exec_cmd E c s)) cs s"

section \<open>Live and recovered state\<close>

text \<open>\<open>off\<close> and \<open>off'\<close> are the distances from the monotonic to the wall clock in the writing and in
  the recovering process: deadlines are compared on the wall clock. \<open>T\<close> is a time no later than the
  replay; no live deadline has passed at \<open>T\<close>.\<close>

definition sim :: "int \<Rightarrow> int \<Rightarrow> int \<Rightarrow> 'v srv \<Rightarrow> 'w applier \<Rightarrow> bool" where
  "sim off off' T s a \<longleftrightarrow> srv_inv s \<and> ap_inv a \<and> (\<forall>k. kvv a k = kview (skv s) k) \<and>
     (\<forall>k. map_option (\<lambda>d. d + off') (tvv a k) = map_option (\<lambda>d. d + off) (ttl_get (sttl s) k)) \<and>
     (\<forall>n m. zvv a n m = map_option f64_key (zview (szset s) n m)) \<and>
     (\<forall>k d. ttl_get (sttl s) k = Some d \<longrightarrow> T < d + off)"

definition live_ttl :: "int \<Rightarrow> entry \<Rightarrow> string \<Rightarrow> int effect" where
  "live_ttl off e k =
     (if Key e \<noteq> k then Keep
      else if Op e = OpDel \<or> Op e = OpPersist then Put None
      else if Op e = OpExpire \<and> length (Value e) = 8 then Put (Some (deadline_of (Value e) - off))
      else Keep)"

definition live_kv :: "entry \<Rightarrow> string \<Rightarrow> bytes effect" where
  "live_kv e k =
     (if Key e \<noteq> k then Keep
      else if Op e = OpSet then Put (Some (Value e))
      else if Op e = OpDel then Put None
      else Keep)"

text \<open>What the live operation has to do so that its record replays to the same; \<open>chain\<close> for several
  records, written one after the other.\<close>

definition does :: "int \<Rightarrow> entry \<Rightarrow> 'v srv \<Rightarrow> 'v srv \<Rightarrow> bool" where
  "does off e s s' \<longleftrightarrow> srv_inv s' \<and>
     (\<forall>k. kview (skv s') k = eff (live_kv e k) (kview (skv s) k)) \<and>
     (\<forall>k. ttl_get (sttl s') k = eff (live_ttl off e k) (ttl_get (sttl s) k)) \<and>
     (\<forall>n m. map_option f64_key (zview (szset s') n m) =
        eff (zset_effect e n m) (map_option f64_key (zview (szset s) n m)))"

definition same :: "'v srv \<Rightarrow> 'v srv \<Rightarrow> bool" where
  "same s s' \<longleftrightarrow> srv_inv s' \<and> kview (skv s') = kview (skv s) \<and> ttl_get (sttl s') = ttl_get (sttl s) \<and>
     zview (szset s') = zview (szset s)"

fun chain :: "int \<Rightarrow> entry list \<Rightarrow> 'v srv \<Rightarrow> 'v srv \<Rightarrow> bool" where
  "chain off [] s s' = same s s'"
| "chain off (e # es) s s' = (\<exists>s1. does off e s s1 \<and> chain off es s1 s')"

definition unexpired :: "int \<Rightarrow> entry \<Rightarrow> bool" where
  "unexpired W e \<longleftrightarrow> (Op e = OpExpire \<longrightarrow> W < deadline_of (Value e))"

lemma strip_effects:
  assumes "strip e = strip e'"
  shows "live_kv e = live_kv e'" "live_ttl off e = live_ttl off e'" "zset_effect e = zset_effect e'"
    "unexpired W e = unexpired W e'"
  using assms by (auto simp: strip_def live_kv_def live_ttl_def zset_effect_def unexpired_def fun_eq_iff)

lemma does_strip: "strip e = strip e' \<Longrightarrow> does off e = does off e'"
  using strip_effects[of e e'] by (simp add: does_def fun_eq_iff)

lemma sim_does:
  assumes "sim off off' T s a" "does off e s s'" "unexpired W e"
    and clk: "T \<le> W" "0 \<le> M" "W = M + off'" "0 \<le> off'"
  shows "sim off off' T s' (apply_entry V W M snap e a)"
proof -
  have ap: "applies W M e a (apply_entry V W M snap e a)"
    by (rule apply_entry_applies) (use assms(1) in \<open>simp add: sim_def\<close>)
  have rem: "remaining W (Value e) = deadline_of (Value e) - W \<and> remaining W (Value e) > 0" if "Op e = OpExpire"
    using assms(3) that remaining_live[of W "Value e"] clk by (simp add: unexpired_def)
  have t: "map_option (\<lambda>d. d + off') (eff (ttl_effect W M e k) x) = map_option (\<lambda>d. d + off) (eff (live_ttl off e k) y)"
    if h: "map_option (\<lambda>d. d + off') x = map_option (\<lambda>d. d + off) y" for k x y
  proof (cases "Op e = OpExpire \<and> length (Value e) = 8 \<and> Key e = k")
    case True
    have "deadline_of (Value e) < 2 ^ 63" using i64_range by (simp add: deadline_of_def)
    then have "i64 (M + remaining W (Value e)) + off' = deadline_of (Value e)" using rem True clk by simp
    then show ?thesis using True rem by (simp add: ttl_effect_def live_ttl_def op_defs)
  qed (use h in \<open>auto simp: ttl_effect_def live_ttl_def\<close>)
  have d: "T < d + off" if h: "eff (live_ttl off e k) (ttl_get (sttl s) k) = Some d" for k d
  proof (cases "live_ttl off e k = Keep")
    case True
    then show ?thesis using h assms(1) by (simp add: sim_def)
  next
    case False
    then have "Op e = OpExpire \<and> d = deadline_of (Value e) - off"
      using h by (auto simp: live_ttl_def split: if_splits)
    then show ?thesis using assms(3) clk by (simp add: unexpired_def)
  qed
  have kv: "kv_effect W e k = live_kv e k" for k
    using rem by (auto simp: kv_effect_def live_kv_def)
  show ?thesis
    using assms(1,2) ap d by (simp add: sim_def does_def applies_def kv t)
qed

lemma sim_same: "sim off off' T s a \<Longrightarrow> same s s' \<Longrightarrow> sim off off' T s' a"
  by (simp add: sim_def same_def)

lemma sim_chain:
  assumes "sim off off' T s a" "chain off es s s'" "map (\<lambda>(W, M, e). strip e) tes = map strip es"
    and "\<forall>(W, M, e) \<in> set tes. unexpired W e \<and> T \<le> W \<and> 0 \<le> M \<and> W = M + off'" "0 \<le> off'"
  shows "sim off off' T s' (snd (replay_logs V 0 tes (m, a)))"
  using assms
proof (induction es arbitrary: s a tes m)
  case Nil
  then show ?case by (simp add: replay_logs_def sim_same)
next
  case (Cons e es)
  obtain W M e' tes' where tes: "tes = (W, M, e') # tes'" and se: "strip e' = strip e"
    using Cons.prems(3) by (cases tes) auto
  obtain s1 where s1: "does off e s s1" "chain off es s1 s'" using Cons.prems(2) by auto
  have "sim off off' T s1 (apply_entry V W M False e' a)"
    using sim_does[OF Cons.prems(1) s1(1)[folded does_strip[OF se]]] Cons.prems(4,5) tes by auto
  from Cons.IH[OF this s1(2)] Cons.prems(3-5) tes show ?case by (simp add: replay_logs_def)
qed

lemma same_trans: "same s s1 \<Longrightarrow> same s1 s2 \<Longrightarrow> same s s2"
  and same_does: "same s s1 \<Longrightarrow> does off e s1 s2 \<Longrightarrow> does off e s s2"
  by (simp_all add: same_def does_def)

lemma same_chain: "same s s1 \<Longrightarrow> chain off es s1 s2 \<Longrightarrow> chain off es s s2"
  by (cases es) (auto intro: same_trans same_does)

lemma chain_append: "chain off es s s1 \<Longrightarrow> chain off es' s1 s2 \<Longrightarrow> chain off (es @ es') s s2"
  by (induction es arbitrary: s) (auto simp: same_chain)

section \<open>Every handler writes what it does\<close>

definition writes :: "int \<Rightarrow> 'v srv \<Rightarrow> 'v srv \<Rightarrow> bool" where
  "writes off s s' \<longleftrightarrow> (\<exists>es. jr s' = jr s @ es \<and> ((\<forall>e \<in> set es. unexpired 0 e) \<longrightarrow> chain off es s s'))"

definition rec :: "8 word \<Rightarrow> string \<Rightarrow> bytes \<Rightarrow> entry" where
  "rec op k v = \<lparr>LSN = 0, Op = op, Key = k, Value = v\<rparr>"

lemma rec_sel [simp]: "Op (rec op k v) = op" "Key (rec op k v) = k" "Value (rec op k v) = v"
  by (simp_all add: rec_def)

lemma jwrite_rec: "jr (jwrite s op k v) = jr s @ [rec op k v]"
  by (simp add: rec_def)

lemma same_refl: "srv_inv s \<Longrightarrow> same s s"
  by (simp add: same_def)

lemma does_chain: "does off e s s' \<Longrightarrow> chain off [e] s s'"
  by (auto simp: does_def intro!: same_refl)

lemma writes_nothing: "same s s' \<Longrightarrow> jr s' = jr s \<Longrightarrow> writes off s s'"
  by (auto simp: writes_def intro!: exI[of _ "[]"])

lemma writes_one: "(unexpired 0 e \<Longrightarrow> does off e s s') \<Longrightarrow> jr s' = jr s @ [e] \<Longrightarrow> writes off s s'"
  by (auto simp: writes_def intro!: exI[of _ "[e]"] does_chain simp del: chain.simps)

lemma writes_trans: "writes off s s1 \<Longrightarrow> writes off s1 s2 \<Longrightarrow> writes off s s2"
  by (fastforce simp: writes_def intro: chain_append)

lemma writes_set: "srv_inv s \<Longrightarrow> skv s' = kv_set (skv s) k v \<Longrightarrow> sttl s' = sttl s \<Longrightarrow> szset s' = szset s \<Longrightarrow>
    jr s' = jr s @ [rec OpSet k v] \<Longrightarrow> writes off s s'"
  using kv_set_spec[of "skv s" k v]
  by (intro writes_one) (auto simp: does_def srv_inv_def live_kv_def live_ttl_def zset_effect_def op_defs)

lemma writes_persist: "srv_inv s \<Longrightarrow> skv s' = skv s \<Longrightarrow> sttl s' = onDelete (sttl s) k \<Longrightarrow> szset s' = szset s \<Longrightarrow>
    jr s' = jr s @ [rec OpPersist k v] \<Longrightarrow> writes off s s'"
  by (intro writes_one)
     (auto simp: does_def srv_inv_def live_kv_def live_ttl_def zset_effect_def op_defs ttl_get_onDelete)

lemma writes_no_ttl: "srv_inv s \<Longrightarrow> skv s' = skv s \<Longrightarrow> sttl s' = onDelete (sttl s) k \<Longrightarrow> szset s' = szset s \<Longrightarrow>
    jr s' = jr s \<Longrightarrow> ttl_get (sttl s) k = None \<Longrightarrow> writes off s s'"
  by (intro writes_nothing) (auto simp: same_def srv_inv_def ttl_get_onDelete)

lemma writes_expire:
  assumes "srv_inv s" "skv s' = skv s" "sttl s' = ttl_set (sttl s) m k dur" "szset s' = szset s"
    "jr s' = jr s @ [rec OpExpire k (expire_value (i64 (w + dur)))]"
    "0 < dur" "dur < 2 ^ 63" "0 \<le> m" "w = m + off" "0 \<le> off" "w < 2 ^ 63"
  shows "writes off s s'"
proof (rule writes_one[OF _ assms(5)])
  assume u: "unexpired 0 (rec OpExpire k (expire_value (i64 (w + dur))))"
  have d: "deadline_of (expire_value (i64 (w + dur))) = i64 (w + dur)"
    using deadline_of_enc i64_range by (simp add: expire_value_def)
  have "w + dur < 2 ^ 63"
  proof (rule ccontr)
    assume "\<not> w + dur < 2 ^ 63"
    then have "i64 (w + dur) = w + dur - 2 ^ 64" using assms(7,11) by (intro i64_wrap) auto
    then show False using u d assms(7,11) by (simp add: unexpired_def)
  qed
  then have "i64 (w + dur) = w + dur" "i64 (m + dur) = m + dur" using assms(6,8-10) by auto
  then show "does off (rec OpExpire k (expire_value (i64 (w + dur)))) s s'"
    using assms(1-4,9) d
    by (auto simp: does_def srv_inv_def live_kv_def live_ttl_def zset_effect_def op_defs ttl_get_set expire_value_def)
qed


lemma writes_del: "srv_inv s \<Longrightarrow> skv s' = snd (kv_del (skv s) k) \<Longrightarrow> sttl s' = onDelete (sttl s) k \<Longrightarrow>
    szset s' = szset s \<Longrightarrow> jr s' = jr s @ [rec OpDel k v] \<Longrightarrow> writes off s s'"
  using kv_del_spec[of "skv s" k]
  by (intro writes_one)
     (auto simp: does_def srv_inv_def live_kv_def live_ttl_def zset_effect_def op_defs ttl_get_onDelete)

text \<open>The clocks of a command: the wall clock stays at the same distance, and no deadline set so far
  has passed (\<open>T\<close> is later than the command).\<close>

definition clocks :: "int \<Rightarrow> int \<Rightarrow> 'v env \<Rightarrow> bool" where
  "clocks off T E \<longleftrightarrow> 0 \<le> mono E \<and> mono E \<le> mono2 E \<and> wall E = mono E + off \<and> wall E < 2 ^ 63 \<and> wall E \<le> T"

lemma parseTTL_range: "parseTTLSeconds b = Some d \<Longrightarrow> 0 < d \<and> d < 2 ^ 63"
proof -
  assume "parseTTLSeconds b = Some d"
  then have "\<exists>n > 0. n \<le> maxTTLSeconds \<and> d = n * second"
    by (cases "parseInt b") (auto simp: parseTTLSeconds_def not_le not_less split: if_splits)
  then obtain n where n: "0 < n" "n \<le> maxTTLSeconds" "d = n * second" by blast
  have "n * second \<le> maxTTLSeconds * second" using n(2) by (simp add: second_def)
  then show ?thesis using n by (simp add: maxTTLSeconds_def second_def)
qed

lemma writes_setClear:
  assumes "srv_inv s"
  shows "writes off s (setClearTTL s k)"
proof (cases "ttl_get (sttl s) k = None")
  case True
  show ?thesis by (rule writes_no_ttl[OF assms, of _ k]) (simp_all add: setClearTTL_def ttl_remove_def True)
next
  case False
  show ?thesis
    by (rule writes_persist[OF assms, of _ k "[]"])
       (simp_all add: setClearTTL_def ttl_remove_def False[simplified] rec_def)
qed

lemma cmdSet_writes:
  assumes "srv_inv s" "clocks off T E" "0 \<le> off"
  shows "writes off s (snd (cmdSet E s args))"
proof (cases "length args < 2 \<or> (\<exists>e. set_ttl_arg args = Inl e) \<or> moved E (args ! 0) \<noteq> None")
  case True
  then have "snd (cmdSet E s args) = s" by (auto simp: cmdSet_def Let_def split: sum.splits option.splits)
  then show ?thesis using assms(1) by (simp add: writes_nothing same_refl)
next
  case False
  then obtain d where d: "set_ttl_arg args = Inr d" by (cases "set_ttl_arg args") auto
  define k v where "k = args ! 0" and "v = args ! 1"
  define s3 where "s3 = forwardWrite E ((jwrite s OpSet k v)\<lparr>skv := kv_set (skv s) k v\<rparr>) (''SET '' @ k @ '' '' @ v)"
  have eq: "snd (cmdSet E s args) = (if d > 0 then (writeExpire E s3 k d)\<lparr>sttl := ttl_set (sttl s3) (mono E) k d\<rparr>
      else setClearTTL s3 k)"
    using False d by (simp add: cmdSet_def Let_def s3_def k_def v_def writeExpire_def)
  have w3: "writes off s s3" by (rule writes_set[OF assms(1), of _ k v]) (simp_all add: s3_def rec_def)
  have i3: "srv_inv s3" using srv_set[OF assms(1) refl, of k v] by (simp add: s3_def srv_inv_def)
  have "writes off s3 ((writeExpire E s3 k d)\<lparr>sttl := ttl_set (sttl s3) (mono E) k d\<rparr>)" if "d > 0"
  proof -
    have "parseTTLSeconds (args ! 3) = Some d"
      using d that by (auto simp: set_ttl_arg_def split: if_splits option.splits)
    from parseTTL_range[OF this] show ?thesis
      using assms(2,3) by (intro writes_expire[OF i3, of _ "mono E" k d "wall E"])
        (auto simp: writeExpire_def clocks_def rec_def)
  qed
  then show ?thesis using eq writes_trans[OF w3] writes_setClear[OF i3] by simp
qed

lemma cmdExpire_writes:
  assumes "srv_inv s" "clocks off T E" "0 \<le> off"
  shows "writes off s (snd (cmdExpire E s args))"
proof (cases "length args < 2 \<or> moved E (args ! 0) \<noteq> None \<or> kv_get (skv s) (args ! 0) = None \<or> parseTTLSeconds (args ! 1) = None")
  case True
  then have "snd (cmdExpire E s args) = s" by (auto simp: cmdExpire_def Let_def split: option.splits)
  then show ?thesis using assms(1) by (simp add: writes_nothing same_refl)
next
  case False
  then obtain d where d: "parseTTLSeconds (args ! 1) = Some d" by auto
  have "snd (cmdExpire E s args) = (writeExpire E s (args ! 0) d)\<lparr>sttl := ttl_set (sttl s) (mono E) (args ! 0) d\<rparr>"
    using False d by (auto simp: cmdExpire_def Let_def writeExpire_def)
  then show ?thesis using parseTTL_range[OF d] assms
    by (intro writes_expire[OF assms(1), of _ "mono E" "args ! 0" d "wall E"]) (auto simp: writeExpire_def clocks_def rec_def)
qed

lemma cmdPersist_writes:
  assumes "srv_inv s"
  shows "writes off s (snd (cmdPersist E s args))"
proof (cases "length args < 1 \<or> moved E (args ! 0) \<noteq> None")
  case True
  then have "snd (cmdPersist E s args) = s" by (auto simp: cmdPersist_def Let_def split: option.splits)
  then show ?thesis using assms(1) by (simp add: writes_nothing same_refl)
next
  case False
  then have "snd (cmdPersist E s args) = setClearTTL s (args ! 0)"
    by (auto simp: cmdPersist_def setClearTTL_def Let_def split: prod.splits)
  then show ?thesis using writes_setClear[OF assms] by simp
qed

lemma cmdDel_writes:
  assumes "srv_inv s"
  shows "writes off s (snd (cmdDel E s args))"
proof (cases "length args < 1 \<or> moved E (args ! 0) \<noteq> None")
  case True
  then have "snd (cmdDel E s args) = s" by (auto simp: cmdDel_def Let_def split: option.splits)
  then show ?thesis using assms(1) by (simp add: writes_nothing same_refl)
next
  case False
  then show ?thesis
    by (intro writes_del[OF assms(1), of _ "args ! 0" "[]"]) (auto simp: cmdDel_def Let_def rec_def split: prod.splits)
qed

lemma cmdGet_writes:
  assumes "srv_inv s" "clocks off T E" "\<forall>k d. ttl_get (sttl s) k = Some d \<longrightarrow> T < d + off"
  shows "writes off s (snd (cmdGet E s args))"
proof -
  obtain b s1 where x: "srv_isExpired E s (args ! 0) = (b, s1)" by fastforce
  have le: "mono E \<le> mono2 E" using assms(2) by (simp add: clocks_def)
  note p = srv_isExpired_spec[OF assms(1) le x]
  have "\<not> b" using p(2) assms(2,3) by (fastforce simp: clocks_def)
  then have "s1 = s" "\<not> b" using p(3) by auto
  then have "snd (cmdGet E s args) = s"
    using x by (auto simp: cmdGet_def Let_def split: option.splits if_splits)
  then show ?thesis using assms(1) by (simp add: writes_nothing same_refl)
qed

lemma cmdZAdd_writes:
  assumes "srv_inv s"
  shows "writes off s (snd (cmdZAdd E s args))"
proof (cases "length args < 3 \<or> parseFloat E (args ! 1) = None \<or> f64_nan (the (parseFloat E (args ! 1)))")
  case True
  then have "snd (cmdZAdd E s args) = s" by (auto simp: cmdZAdd_def split: option.splits)
  then show ?thesis using assms(1) by (simp add: writes_nothing same_refl)
next
  case False
  then obtain sc where sc: "parseFloat E (args ! 1) = Some sc" "\<not> f64_nan sc" by auto
  obtain b s1 where z: "srv_zadd s (args ! 0) sc (args ! 2) = (b, s1)" by fastforce
  note p = srv_zadd_spec[OF assms sc(2) z]
  have eq: "snd (cmdZAdd E s args) = jwrite s1 OpZAdd (args ! 0) (EncodeZAddValue sc (args ! 2))"
    using False sc z by (simp add: cmdZAdd_def Let_def)
  show ?thesis unfolding eq
  proof (rule writes_one)
    show "jr (jwrite s1 OpZAdd (args ! 0) (EncodeZAddValue sc (args ! 2))) =
      jr s @ [rec OpZAdd (args ! 0) (EncodeZAddValue sc (args ! 2))]" using p by (simp add: rec_def)
    have "map_option f64_key (zview (szset s1) n m) =
      eff (zset_effect (rec OpZAdd (args ! 0) (EncodeZAddValue sc (args ! 2))) n m) (map_option f64_key (zview (szset s) n m))"
      for n m
      unfolding p(3) using sc(2)
      by (auto simp: zset_effect_def ZAdd_roundtrip f64_eq_def split: option.splits)
    then show "does off (rec OpZAdd (args ! 0) (EncodeZAddValue sc (args ! 2))) s
        (jwrite s1 OpZAdd (args ! 0) (EncodeZAddValue sc (args ! 2)))"
      using p by (auto simp: does_def live_kv_def live_ttl_def op_defs)
  qed
qed

lemma cmdZRem_writes:
  assumes "srv_inv s"
  shows "writes off s (snd (cmdZRem s args))"
proof (cases "length args < 2")
  case True
  then have "snd (cmdZRem s args) = s" by (simp add: cmdZRem_def)
  then show ?thesis using assms(1) by (simp add: writes_nothing same_refl)
next
  case False
  obtain b s1 where z: "srv_zrem s (args ! 0) (args ! 1) = (b, s1)" by fastforce
  note p = srv_zrem_spec[OF assms z]
  show ?thesis
  proof (cases b)
    case True
    have eq: "snd (cmdZRem s args) = jwrite s1 OpZRem (args ! 0) (args ! 1)"
      using False z True by (simp add: cmdZRem_def)
    show ?thesis unfolding eq
      by (rule writes_one[of "rec OpZRem (args ! 0) (args ! 1)"])
         (use p in \<open>auto simp: does_def live_kv_def live_ttl_def zset_effect_def op_defs rec_def\<close>)
  next
    case nb: False
    have eq: "snd (cmdZRem s args) = s1" using False z nb by (simp add: cmdZRem_def)
    have "zview (szset s1) = zview (szset s)" using p(2,3) nb by (auto simp: fun_eq_iff)
    then show ?thesis unfolding eq using p by (intro writes_nothing) (simp_all add: same_def)
  qed
qed

lemma exec_writes:
  assumes "srv_inv s" "clocks off T E" "0 \<le> off" "\<forall>k d. ttl_get (sttl s) k = Some d \<longrightarrow> T < d + off"
  shows "writes off s (snd (exec_cmd E c s))"
  using assms by (cases c) (auto intro: cmdSet_writes cmdGet_writes cmdDel_writes cmdExpire_writes cmdPersist_writes
      cmdZAdd_writes cmdZRem_writes)

section \<open>Properties\<close>

definition good_replay :: "int \<Rightarrow> int \<Rightarrow> timed list \<Rightarrow> bool" where
  "good_replay off' T tes \<longleftrightarrow> (\<forall>(W, M, e) \<in> set tes. unexpired W e \<and> T \<le> W \<and> 0 \<le> M \<and> W = M + off')"

text \<open>The journal only grows.\<close>

lemma isExpired_jr: "\<exists>es. jr (snd (srv_isExpired E s key)) = jr s @ es"
proof -
  have "\<exists>es. jr (snd (compositeEvictor_Del E s key)) = jr s @ es"
    by (auto simp: compositeEvictor_Del_def Let_def split: prod.splits)
  then show ?thesis
    by (auto simp: srv_isExpired_def isExpired_def split: prod.splits if_splits)
qed

lemma jr_srv_zadd: "jr (snd (srv_zadd s n sc m)) = jr s"
  by (auto simp: srv_zadd_def put_zset_def split: option.splits prod.splits)

lemma jr_srv_zrem: "jr (snd (srv_zrem s n m)) = jr s"
  by (auto simp: srv_zrem_def put_zset_def split: prod.splits)

lemma jr_setClear: "\<exists>es. jr (setClearTTL s k) = jr s @ es"
  by (auto simp: setClearTTL_def Let_def split: prod.splits)

lemma exec_jr: "\<exists>es. jr (snd (exec_cmd E c s)) = jr s @ es"
proof (cases c)
  case (CSet args)
  have "\<exists>es. jr (setClearTTL (forwardWrite E ((jwrite s OpSet k v)\<lparr>skv := x\<rparr>) y) k) = jr s @ es" for k v x y
    using jr_setClear[of "forwardWrite E ((jwrite s OpSet k v)\<lparr>skv := x\<rparr>) y" k] by auto
  then show ?thesis using CSet
    by (auto simp: cmdSet_def Let_def writeExpire_def split: sum.splits option.splits)
next
  case (CGet args)
  then show ?thesis using isExpired_jr[of E s "args ! 0"]
    by (auto simp: cmdGet_def Let_def split: option.splits prod.splits if_splits)
next
  case (CPersist args)
  then show ?thesis by (auto simp: cmdPersist_def Let_def split: option.splits prod.splits if_splits)
next
  case (CZAdd args)
  then show ?thesis
    by (auto simp: cmdZAdd_def Let_def split: option.splits prod.splits) (metis jr_srv_zadd snd_conv)+
next
  case (CZRem args)
  then show ?thesis
    by (auto simp: cmdZRem_def Let_def split: option.splits prod.splits) (metis jr_srv_zrem snd_conv append_Nil2)+
qed (auto simp: cmdDel_def cmdExpire_def Let_def writeExpire_def split: option.splits prod.splits)

lemma run_jr: "\<exists>es. jr (exec_run cs s) = jr s @ es"
proof (induction cs arbitrary: s)
  case (Cons c cs)
  obtain E d where c: "c = (E, d)" by (cases c)
  obtain es where "jr (snd (exec_cmd E d s)) = jr s @ es" using exec_jr by blast
  with Cons[of "snd (exec_cmd E d s)"] show ?case by (auto simp: exec_run_def c)
qed (simp add: exec_run_def)

lemma run_sim:
  assumes "sim off off' T s a" "\<forall>(E, c) \<in> set cs. clocks off T E" "0 \<le> off" "0 \<le> off'"
    and "jr (exec_run cs s) = jr s @ es" "map (\<lambda>(W, M, e). strip e) tes = map strip es" "good_replay off' T tes"
  shows "sim off off' T (exec_run cs s) (snd (replay_logs V 0 tes (m, a)))"
  using assms
proof (induction cs arbitrary: s a es tes m)
  case Nil
  then show ?case by (simp add: exec_run_def replay_logs_def)
next
  case (Cons c cs)
  obtain E d where c: "c = (E, d)" by (cases c)
  define s1 where "s1 = snd (exec_cmd E d s)"
  have run: "exec_run (c # cs) s = exec_run cs s1" by (simp add: exec_run_def c s1_def)
  have "writes off s s1"
    unfolding s1_def using Cons.prems(1-3) c by (intro exec_writes[of s off T]) (auto simp: sim_def)
  then obtain es1 where es1: "jr s1 = jr s @ es1" "(\<forall>e \<in> set es1. unexpired 0 e) \<longrightarrow> chain off es1 s s1"
    by (auto simp: writes_def)
  obtain es2 where es2: "jr (exec_run cs s1) = jr s1 @ es2" using run_jr by blast
  have es: "es = es1 @ es2" using Cons.prems(5) es1(1) es2 run by simp
  define t1 t2 where "t1 = take (length es1) tes" and "t2 = drop (length es1) tes"
  have t: "tes = t1 @ t2" by (simp add: t1_def t2_def)
  have st: "map (\<lambda>(W, M, e). strip e) t1 = map strip es1" "map (\<lambda>(W, M, e). strip e) t2 = map strip es2"
    unfolding t1_def t2_def take_map[symmetric] drop_map[symmetric] Cons.prems(6) es by simp_all
  have g: "good_replay off' T t1" "good_replay off' T t2" using Cons.prems(7) t by (auto simp: good_replay_def)
  have "unexpired 0 e" if "e \<in> set es1" for e
  proof -
    have "strip e \<in> (\<lambda>(W, M, e). strip e) ` set t1" using arg_cong[OF st(1), of set] that by simp
    then obtain W M e' where e': "(W, M, e') \<in> set t1" "strip e' = strip e" by auto
    then have "unexpired W e'" "0 \<le> W" using g(1) Cons.prems(4) by (auto simp: good_replay_def)
    then show ?thesis using strip_effects(4)[OF e'(2), of 0] by (auto simp: unexpired_def)
  qed
  then have ch: "chain off es1 s s1" using es1(2) by blast
  obtain m1 a1 where r1: "replay_logs V 0 t1 (m, a) = (m1, a1)" by fastforce
  have "sim off off' T s1 a1"
    using sim_chain[OF Cons.prems(1) ch st(1) _ Cons.prems(4), of V m] g(1) r1 by (simp add: good_replay_def)
  from Cons.IH[OF this _ Cons.prems(3,4) es2 st(2) g(2), of m1] Cons.prems(2)
  show ?case unfolding run using r1 by (simp add: t replay_logs_def)
qed


text \<open>The environment of the examples: time \<open>t\<close> on the monotonic clock, no cluster.\<close>

definition sample_env :: "int \<Rightarrow> unit env" where
  "sample_env t = \<lparr>mono = t, mono2 = t, wall = t + 1000, cluster = None, parseFloat = (\<lambda>_. Some f64_one),
     formatFloat = (\<lambda>_. ''1''), seconds = (\<lambda>d. d div second), vecDelete = (\<lambda>v k. (False, v))\<rparr>"

lemma sample_env_sel [simp]: "mono (sample_env t) = t" "mono2 (sample_env t) = t" "wall (sample_env t) = t + 1000"
  "cluster (sample_env t) = None" "parseFloat (sample_env t) x = Some f64_one" "vecDelete (sample_env t) v k = (False, v)"
  "moved (sample_env t) k = None"
  by (simp_all add: sample_env_def moved_def)

definition sample_cmds :: "(unit env \<times> wcmd) list" where
  "sample_cmds = [(sample_env 10, CZAdd [''z'', ''1'', ''m'']), (sample_env 11, CSet [''a'', ''1''])]"

lemma sample_run:
  fixes h
  assumes s'_def: "s' = exec_run sample_cmds (srv_new h ())"
  shows "map strip (jr s') = [(OpZAdd, ''z'', EncodeZAddValue f64_one ''m''), (OpSet, ''a'', ''1'')]"
    "kview (skv s') ''a'' = Some ''1''"
proof -
  obtain b s1 where z: "srv_zadd (srv_new h ()) ''z'' f64_one ''m'' = (b, s1)" by fastforce
  note p = srv_zadd_spec[OF srv_new_inv f64_consts(3) z]
  have e: "ttl_get (sttl s1) k = None" for k using p(5) by (simp add: srv_new_def)
  have s': "s' = setClearTTL ((jwrite (jwrite s1 OpZAdd ''z'' (EncodeZAddValue f64_one ''m'')) OpSet ''a'' ''1'')
      \<lparr>skv := kv_set (skv s1) ''a'' ''1''\<rparr>) ''a''"
    using z by (simp add: s'_def exec_run_def sample_cmds_def cmdZAdd_def cmdSet_def set_ttl_arg_def forwardWrite_def Let_def)
  show "map strip (jr s') = [(OpZAdd, ''z'', EncodeZAddValue f64_one ''m''), (OpSet, ''a'', ''1'')]"
    using p(6) by (simp add: s' setClearTTL_def ttl_remove_def e strip_def) (simp add: srv_new_def)
  have "kv_inv (skv s1)" using p(1) by (simp add: srv_inv_def)
  then show "kview (skv s') ''a'' = Some ''1''"
    using kv_set_spec(2)[of "skv s1" "''a''" "''1''"] by (simp add: s' setClearTTL_def ttl_remove_def e)
qed


text \<open>a key kept by PERSIST can still be lost. SET with a deadline and then PERSIST leave the key
  without deadline. If the server restarts after the old deadline, the EXPIRE record is applied first:
  its time has passed, so it deletes the value, and the PERSIST record that follows cannot bring it
  back.\<close>

lemma persisted_key_lost:
  fixes s :: "'v srv" and V :: "'w vec_ops"
  assumes "srv_inv s" "parseTTLSeconds t = Some dur" "moved E1 k = None" "moved E2 k = None"
    and "0 \<le> wall E1" "wall E1 + dur < 2 ^ 63"
    and "s1 = snd (cmdSet E1 s [k, v, ''EX'', t])" "s2 = snd (cmdPersist E2 s1 [k])"
    and "ap_inv a" "wall E1 + dur \<le> W" "W < 2 ^ 63"
  shows "fst (cmdSet E1 s [k, v, ''EX'', t]) = [RSimple ''OK''] \<and> fst (cmdPersist E2 s1 [k]) = [RInt 1] \<and>
    kview (skv s2) k = Some v \<and> ttl_get (sttl s2) k = None \<and>
    (\<exists>es. jr s2 = jr s @ es \<and> kvv (snd (replay_logs V 0 (map (\<lambda>e. (W, M, e)) es) (m, a))) k = None)"
proof -
  have ex: "is_EX ''EX''" by (simp add: is_EX_def upper_char_def nat_of_byte_def)
  have d0: "0 < dur" "dur < 2 ^ 63" using parseTTL_range[OF assms(2)] by auto
  define s0 where "s0 = forwardWrite E1 ((jwrite s OpSet k v)\<lparr>skv := kv_set (skv s) k v\<rparr>) (''SET '' @ k @ '' '' @ v)"
  have s1: "s1 = (writeExpire E1 s0 k dur)\<lparr>sttl := ttl_set (sttl s) (mono E1) k dur\<rparr>"
    and r1: "fst (cmdSet E1 s [k, v, ''EX'', t]) = [RSimple ''OK'']"
    using d0 assms(2,3,7) ex by (simp_all add: cmdSet_def set_ttl_arg_def Let_def s0_def writeExpire_def)
  have tt: "ttl_inv (sttl s)" and kk: "kv_inv (skv s)" using assms(1) by (auto simp: srv_inv_def)
  have had: "ttl_get (sttl s1) k = Some (i64 (mono E1 + dur))" using tt by (simp add: s1 ttl_get_set)
  have s2: "s2 = jwrite (s1\<lparr>sttl := onDelete (sttl s1) k\<rparr>) OpPersist k []"
    and r2: "fst (cmdPersist E2 s1 [k]) = [RInt 1]"
    using had assms(4,8) by (simp_all add: cmdPersist_def Let_def ttl_remove_def)
  have t1: "ttl_inv (sttl s1)" using tt by (simp add: s1)
  have jr2: "jr s2 = jr s @ [rec OpSet k v, rec OpExpire k (expire_value (wall E1 + dur)), rec OpPersist k []]"
    using assms(5,6) d0 by (simp add: s2 s1 s0_def writeExpire_def rec_def)
  have "deadline_of (expire_value (wall E1 + dur)) = wall E1 + dur"
    unfolding expire_value_def using assms(5,6) d0 by (intro deadline_of_enc) auto
  then have "\<not> remaining W (expire_value (wall E1 + dur)) > 0"
    using remaining_pos[of W "expire_value (wall E1 + dur)"] assms(5,10,11) d0 by auto
  then have "kvv (snd (replay_logs V 0 (map (\<lambda>e. (W, M, e)) [rec OpSet k v, rec OpExpire k (expire_value (wall E1 + dur)),
      rec OpPersist k []]) (m, a))) k = None"
    unfolding replay_logs_snd[OF assms(9), THEN conjunct1, rule_format]
    by (simp add: kv_effect_def op_defs expire_value_def)
  moreover have "kview (skv s2) k = Some v" using kv_set_spec(2)[OF kk, of k v] by (simp add: s2 s1 s0_def writeExpire_def)
  moreover have "ttl_get (sttl s2) k = None" using ttl_get_onDelete[OF t1, of k] by (simp add: s2)
  ultimately show ?thesis using r1 r2 jr2 by blast
qed

lemma parse_5: "parseTTLSeconds ''5'' = Some 5000000000"
  by (simp add: parseTTLSeconds_def parseInt_def parse_digits_def is_digit_def digit_val_def nat_of_byte_def
      maxTTLSeconds_def second_def)

lemma persisted_key_lost_witness:
  "let s1 = snd (cmdSet (sample_env 10) (srv_new (\<lambda>_. 0) ()) [''k'', ''v'', ''EX'', ''5'']);
       s2 = snd (cmdPersist (sample_env 20) s1 [''k'']) in
   kview (skv s2) ''k'' = Some ''v'' \<and>
   (\<exists>es. jr s2 = jr (srv_new (\<lambda>_. 0) ()) @ es \<and>
      kvv (snd (replay_logs no_vec 0 (map (\<lambda>e. (6000000000, 0, e)) es) (0, ap_new (\<lambda>_. 0) () False 0))) ''k'' = None)"
  using persisted_key_lost[OF srv_new_inv parse_5, of "sample_env 10" "''k''" "sample_env 20" _ "\<lambda>_. 0" "()" "''v''" _
      "ap_new (\<lambda>_. 0) () False 0" 6000000000 no_vec 0 0, OF _ _ _ _ refl refl]
  by (simp add: Let_def)

text \<open>EXPIRE does not look whether the key has expired. When the deadline of a key has passed but
  nothing has evicted it yet, GET answers that it is gone; EXPIRE at the same moment answers 1 and
  gives it a new deadline, and the old value is readable again.\<close>

theorem expire_revives:
  assumes "srv_inv s" "kview (skv s) k = Some v" "ttl_get (sttl s) k = Some d" "d \<le> mono E" "mono E \<le> mono2 E"
    and "cluster E = None" "cluster E' = None" "parseTTLSeconds t = Some dur"
    and "0 \<le> mono E" "mono E + dur < 2 ^ 63" "mono E' < mono E + dur"
  shows "fst (cmdGet E s [k]) = [RNull] \<and> fst (cmdExpire E s [k, t]) = [RInt 1] \<and>
    fst (cmdGet E' (snd (cmdExpire E s [k, t])) [k]) = [RBulk v]"
proof -
  obtain b s1 where x: "srv_isExpired E s k = (b, s1)" by fastforce
  have b: b using srv_isExpired_spec(2)[OF assms(1,5) x] assms(3,4) by auto
  have mv: "moved E k = None" using assms(6) by (simp add: moved_def)
  have kv: "kv_inv (skv s)" and tt: "ttl_inv (sttl s)" using assms(1) by (auto simp: srv_inv_def)
  have g: "kv_get (skv s) k = Some v" using kv_get_view[OF kv] assms(2) by simp
  define s2 where "s2 = snd (cmdExpire E s [k, t])"
  have e: "cmdExpire E s [k, t] = ([RInt 1], (writeExpire E s k dur)\<lparr>sttl := ttl_set (sttl s) (mono E) k dur\<rparr>)"
    using mv g assms(8) by (simp add: cmdExpire_def Let_def writeExpire_def)
  have t2: "ttl_get (sttl s2) k = Some (mono E + dur)"
    using tt parseTTL_range[OF assms(8)] assms(9,10) by (simp add: s2_def e ttl_get_set)
  have "srv_isExpired E' s2 k = (False, s2)"
    using t2 assms(11) by (simp add: srv_isExpired_def isExpired_def expired_fast_def)
  then have "fst (cmdGet E' s2 [k]) = [RBulk v]"
    using assms(7) g by (simp add: cmdGet_def Let_def) (simp add: s2_def e writeExpire_def)
  then show ?thesis using x b assms(6) e by (simp add: cmdGet_def s2_def Let_def)
qed

lemma sample_srv_k: "kview (skv sample_srv) ''k'' = Some ''v''" "ttl_get (sttl sample_srv) ''k'' = Some 1000"
  by (simp_all add: sample_srv_facts)

theorem expire_revives_witness:
  "fst (cmdGet (sample_env 2000) sample_srv [''k'']) = [RNull] \<and>
   fst (cmdGet (sample_env 3000) (snd (cmdExpire (sample_env 2000) sample_srv [''k'', ''5''])) [''k'']) = [RBulk ''v'']"
  using expire_revives[OF sample_srv_facts(1) sample_srv_k, of "sample_env 2000" "sample_env 3000" "''5''", OF _ _ _ _ parse_5]
  by simp

text \<open>the handlers of two connections run concurrently, and SET hands its record to the journal
  before it stores the value, with nothing that holds the two together. When both clients journal
  first and the stores then happen in the other order, the live value is one client's and the
  recovered value the other's: a reader saw an acknowledged value that a restart takes back.\<close>

lemma concurrent_set_recovers_other:
  fixes s :: "'v srv" and V :: "'w vec_ops"
  assumes "srv_inv s" "ap_inv a"
    and "s1 = jwrite s OpSet k v1" "s2 = jwrite s1 OpSet k v2"
    and "s3 = s2\<lparr>skv := kv_set (skv s2) k v2\<rparr>" "s4 = s3\<lparr>skv := kv_set (skv s3) k v1\<rparr>"
  shows "kview (skv s4) k = Some v1 \<and> (\<exists>es. jr s4 = jr s @ es \<and>
    kvv (snd (replay_logs V 0 (map (\<lambda>e. (W, M, e)) es) (m, a))) k = Some v2)"
proof -
  have kv: "kv_inv (skv s)" using assms(1) by (simp add: srv_inv_def)
  have kv2: "kv_inv (kv_set (skv s) k v2)" using kv_set_spec[OF kv] by simp
  have "jr s4 = jr s @ [rec OpSet k v1, rec OpSet k v2]" by (simp add: assms(3-6) rec_def)
  moreover have "kvv (snd (replay_logs V 0 (map (\<lambda>e. (W, M, e)) [rec OpSet k v1, rec OpSet k v2]) (m, a))) k = Some v2"
    unfolding replay_logs_snd[OF assms(2), THEN conjunct1, rule_format] by (simp add: kv_effect_def op_defs)
  moreover have "kview (skv s4) k = Some v1"
    using kv_set_spec(2)[OF kv2, of k v1] by (simp add: assms(3-6))
  ultimately show ?thesis by blast
qed

lemma concurrent_set_recovers_other_witness:
  "let s2 = jwrite (jwrite (srv_new (\<lambda>_. 0) ()) OpSet ''k'' ''1'') OpSet ''k'' ''2'';
       s4 = (s2\<lparr>skv := kv_set (skv s2) ''k'' ''2''\<rparr>)\<lparr>skv := kv_set (kv_set (skv s2) ''k'' ''2'') ''k'' ''1''\<rparr> in
   kview (skv s4) ''k'' = Some ''1''"
  using conjunct1[OF concurrent_set_recovers_other[OF srv_new_inv ap_new_views(1) refl refl refl refl,
      of "\<lambda>_. 0" "()" "''k''" "''1''" "''2''" no_vec 0 0 0 "\<lambda>_. 0" "()" False 0]]
  by (simp add: Let_def)

end
