(* ===== verification/Resp.thy ===== *)
theory Resp
  imports Commands
begin

text \<open>
  The protocol values and their textual form: \<open>internal/protocol/resp.go\<close> and \<open>writer.go\<close>. The reader
  is a function of the bytes that will arrive; it gives the value and what is left, or an error. A
  panic is a result of its own. \<open>Commands\<close> supplies \<open>strconv\<close>'s integer parsing.
\<close>

section \<open>Values\<close>

datatype pvalue = PValue (Typ: char) (Str: string) (Num: int) (Array: "pvalue list")

definition vsimple :: "string \<Rightarrow> pvalue" where "vsimple s = PValue (CHR ''+'') s 0 []"
definition verror :: "string \<Rightarrow> pvalue" where "verror s = PValue (CHR ''-'') s 0 []"
definition vint :: "int \<Rightarrow> pvalue" where "vint n = PValue (CHR '':'') [] n []"
definition vbulk :: "bytes \<Rightarrow> pvalue" where "vbulk s = PValue (CHR ''$'') s 0 []"
definition vnull :: pvalue where "vnull = PValue (CHR ''$'') [] (- 1) []"
definition varray :: "pvalue list \<Rightarrow> pvalue" where "varray vs = PValue (CHR ''*'') [] 0 vs"

lemmas v_defs = vsimple_def verror_def vint_def vbulk_def vnull_def varray_def

definition crlf :: bytes where "crlf = [CHR 0x0D, CHR 0x0A]"

definition LF :: char where "LF = CHR 0x0A"

text \<open>\<open>strconv.Itoa\<close>.\<close>

fun digits :: "nat \<Rightarrow> string" where
  "digits n = (if n < 10 then [byte_of (48 + n)] else digits (n div 10) @ [byte_of (48 + n mod 10)])"

declare digits.simps [simp del]

definition itoa :: "int \<Rightarrow> string" where
  "itoa n = (if n < 0 then CHR ''-'' # digits (nat (- n)) else digits (nat n))"

section \<open>Marshal\<close>

definition marshalSimpleString :: "pvalue \<Rightarrow> bytes" where
  "marshalSimpleString v = CHR ''+'' # Str v @ crlf"

definition marshalError :: "pvalue \<Rightarrow> bytes" where
  "marshalError v = CHR ''-'' # Str v @ crlf"

definition marshalInteger :: "pvalue \<Rightarrow> bytes" where
  "marshalInteger v = CHR '':'' # itoa (Num v) @ crlf"

definition marshalBulkString :: "pvalue \<Rightarrow> bytes" where
  "marshalBulkString v =
     (if Num v = - 1 then ''$-1'' @ crlf
      else CHR ''$'' # itoa (int (length (Str v))) @ crlf @ Str v @ crlf)"

fun marshal :: "pvalue \<Rightarrow> bytes" where
  "marshal (PValue t s n vs) =
     (if t = CHR ''+'' then marshalSimpleString (PValue t s n vs)
      else if t = CHR ''-'' then marshalError (PValue t s n vs)
      else if t = CHR '':'' then marshalInteger (PValue t s n vs)
      else if t = CHR ''$'' then marshalBulkString (PValue t s n vs)
      else if t = CHR ''*'' then
        CHR ''*'' # itoa (int (length vs)) @ crlf @ concat (map marshal vs)
      else [])"

section \<open>Read\<close>

datatype 'a rres = ROk 'a bytes | REof | RBad string | RPanic | RFuel

text \<open>\<open>readLine\<close>: up to the first line feed, without its last two bytes.\<close>

definition readLine :: "bytes \<Rightarrow> string rres" where
  "readLine bs =
     (let l = takeWhile (\<lambda>c. c \<noteq> LF) bs; r = drop (length l) bs in
      if r = [] then REof
      else if length l + 1 < 2 then RBad ''invalid RESP line: too short''
      else ROk (take (length l - 1) l) (tl r))"

text \<open>\<open>strings.Fields\<close>: the white space of Unicode, in UTF-8; the number of bytes of the one at the
  start, or 0.\<close>

definition space_len :: "bytes \<Rightarrow> nat" where
  "space_len bs =
     (let b = (\<lambda>i. if i < length bs then nat_of_byte (bs ! i) else 256) in
      if b 0 \<in> {9, 10, 11, 12, 13, 32} then 1
      else if b 0 = 194 \<and> b 1 \<in> {133, 160} then 2
      else if b 0 = 225 \<and> b 1 = 154 \<and> b 2 = 128 then 3
      else if b 0 = 226 \<and> b 1 = 128 \<and> (128 \<le> b 2 \<and> b 2 \<le> 138 \<or> b 2 \<in> {168, 169, 175}) then 3
      else if b 0 = 226 \<and> b 1 = 129 \<and> b 2 = 159 then 3
      else if b 0 = 227 \<and> b 1 = 128 \<and> b 2 = 128 then 3
      else 0)"

function fields_from :: "string \<Rightarrow> bytes \<Rightarrow> string list" where
  "fields_from word [] = (if word = [] then [] else [word])"
| "fields_from word (c # cs) =
     (let k = space_len (c # cs) in
      if k = 0 then fields_from (word @ [c]) cs
      else (if word = [] then [] else [word]) @ fields_from [] (drop (k - 1) cs))"
  by pat_completeness auto
termination by (relation "measure (\<lambda>(w, cs). length cs)") auto

definition fields :: "bytes \<Rightarrow> string list" where
  "fields bs = fields_from [] bs"

definition readInline :: "bytes \<Rightarrow> pvalue rres" where
  "readInline bs =
     (case readLine bs of
        ROk line rest \<Rightarrow>
          (let parts = fields line in
           if parts = [] then RBad ''empty inline command'' else ROk (varray (map vbulk parts)) rest)
      | REof \<Rightarrow> REof | RBad e \<Rightarrow> RBad e | RPanic \<Rightarrow> RPanic | RFuel \<Rightarrow> RFuel)"

definition with_line :: "bytes \<Rightarrow> (string \<Rightarrow> bytes \<Rightarrow> 'a rres) \<Rightarrow> 'a rres" where
  "with_line bs f =
     (case readLine bs of
        ROk line rest \<Rightarrow> f line rest
      | REof \<Rightarrow> REof | RBad e \<Rightarrow> RBad e | RPanic \<Rightarrow> RPanic | RFuel \<Rightarrow> RFuel)"

text \<open>\<open>make\<close> panics on a negative length.\<close>

definition readInteger :: "bytes \<Rightarrow> pvalue rres" where
  "readInteger bs = with_line bs (\<lambda>line rest.
     case parseInt line of None \<Rightarrow> RBad (''invalid integer: '' @ line) | Some n \<Rightarrow> ROk (vint n) rest)"

definition readBulkString :: "bytes \<Rightarrow> pvalue rres" where
  "readBulkString bs = with_line bs (\<lambda>line rest.
     case parseInt line of
       None \<Rightarrow> RBad (''invalid bulk string size: '' @ line)
     | Some sz \<Rightarrow>
         if sz = - 1 then ROk vnull rest
         else if i64 (sz + 2) < 0 then RPanic
         else if length rest < nat (sz + 2) then REof
         else if sz < 0 then RPanic
         else ROk (vbulk (take (nat sz) rest)) (drop (nat (sz + 2)) rest))"

text \<open>The recursion is on the nesting: \<open>fuel\<close> bounds its depth, the elements of one array follow one
  another.\<close>

function (sequential) read_value :: "nat \<Rightarrow> bytes \<Rightarrow> pvalue rres"
  and read_values :: "nat \<Rightarrow> nat \<Rightarrow> bytes \<Rightarrow> pvalue list rres" where
  "read_value 0 bs = RFuel"
| "read_value (Suc fuel) [] = REof"
| "read_value (Suc fuel) (t # bs) =
     (if t = CHR ''+'' then with_line bs (\<lambda>line rest. ROk (vsimple line) rest)
      else if t = CHR ''-'' then with_line bs (\<lambda>line rest. ROk (verror line) rest)
      else if t = CHR '':'' then readInteger bs
      else if t = CHR ''$'' then readBulkString bs
      else if t = CHR ''*'' then
        with_line bs (\<lambda>line rest.
          case parseInt line of
            None \<Rightarrow> RBad (''invalid array count: '' @ line)
          | Some n \<Rightarrow>
              if n < 0 then RPanic
              else case read_values fuel (nat n) rest of
                ROk vs rest' \<Rightarrow> ROk (varray vs) rest'
              | REof \<Rightarrow> REof | RBad e \<Rightarrow> RBad e | RPanic \<Rightarrow> RPanic | RFuel \<Rightarrow> RFuel)
      else readInline (t # bs))"
| "read_values fuel 0 bs = ROk [] bs"
| "read_values fuel (Suc n) bs =
     (case read_value fuel bs of
        ROk v rest \<Rightarrow>
          (case read_values fuel n rest of
             ROk vs rest' \<Rightarrow> ROk (v # vs) rest'
           | REof \<Rightarrow> REof | RBad e \<Rightarrow> RBad e | RPanic \<Rightarrow> RPanic | RFuel \<Rightarrow> RFuel)
      | REof \<Rightarrow> REof | RBad e \<Rightarrow> RBad e | RPanic \<Rightarrow> RPanic | RFuel \<Rightarrow> RFuel)"
  by pat_completeness auto
termination
  by (relation "measures [\<lambda>x. case x of Inl (f, bs) \<Rightarrow> f | Inr (f, n, bs) \<Rightarrow> f,
      \<lambda>x. case x of Inl (f, bs) \<Rightarrow> 0 | Inr (f, n, bs) \<Rightarrow> Suc n]") auto

text \<open>Every level of nesting takes a byte.\<close>

definition Read :: "bytes \<Rightarrow> pvalue rres" where
  "Read bs = read_value (Suc (length bs)) bs"

section \<open>Round trip\<close>

definition no_LF :: "string \<Rightarrow> bool" where
  "no_LF s \<longleftrightarrow> LF \<notin> set s"

text \<open>The values a server produces: the fields a kind does not use are empty, lines have no line feed,
  numbers fit their type.\<close>

fun wf_value :: "pvalue \<Rightarrow> bool" where
  "wf_value (PValue t s n vs) \<longleftrightarrow>
     (if t = CHR ''+'' \<or> t = CHR ''-'' then no_LF s \<and> n = 0 \<and> vs = []
      else if t = CHR '':'' then s = [] \<and> - (2 ^ 63) \<le> n \<and> n < 2 ^ 63 \<and> vs = []
      else if t = CHR ''$'' then vs = [] \<and> (n = - 1 \<and> s = [] \<or> n = 0 \<and> int (length s) + 2 < 2 ^ 63)
      else t = CHR ''*'' \<and> s = [] \<and> n = 0 \<and> int (length vs) < 2 ^ 63 \<and> list_all wf_value vs)"

fun depth :: "pvalue \<Rightarrow> nat" where
  "depth (PValue t s n vs) = Suc (Max (set (0 # map depth vs)))"

lemma nat_byte_digit: "k < 10 \<Longrightarrow> nat_of_byte (byte_of (48 + k)) = 48 + k"
  by simp

lemma digits_ne [simp]: "digits n \<noteq> []"
  by (subst digits.simps) simp

lemma digits_are: "c \<in> set (digits n) \<Longrightarrow> is_digit c"
proof (induction n rule: digits.induct)
  case (1 n)
  then show ?case
    by (subst (asm) digits.simps[of n]) (auto simp: is_digit_def split: if_splits)
qed

lemma digits_fold: "fold (\<lambda>c n. 10 * n + digit_val c) (digits n) 0 = n"
proof (induction n rule: digits.induct)
  case (1 n)
  then show ?case by (subst digits.simps) (auto simp: digit_val_def)
qed

lemma parse_digits_digits: "parse_digits (digits n) = Some n"
  using digits_are[of _ n] digits_fold[of n] by (auto simp: parse_digits_def)

lemma digits_head: "\<exists>c r. digits n = c # r \<and> is_digit c"
  using digits_ne[of n] digits_are[of _ n] by (cases "digits n") auto

lemma parseInt_itoa: "- (2 ^ 63) \<le> n \<Longrightarrow> n < 2 ^ 63 \<Longrightarrow> parseInt (itoa n) = Some n"
proof -
  assume n: "- (2 ^ 63) \<le> n" "n < 2 ^ 63"
  obtain c r where d: "digits (nat n) = c # r" "is_digit c" using digits_head by blast
  have c: "c \<noteq> CHR ''-''" "c \<noteq> CHR ''+''" using d(2) by (auto simp: is_digit_def nat_of_byte_def)
  show ?thesis
  proof (cases "n < 0")
    case True
    then show ?thesis using n by (simp add: itoa_def parseInt_def parse_digits_digits)
  next
    case False
    have "parseInt (digits (nat n)) = (case parse_digits (digits (nat n)) of None \<Rightarrow> None
        | Some m \<Rightarrow> if m < 2 ^ 63 then Some (int m) else None)"
      using c unfolding d(1) by (simp add: parseInt_def)
    then show ?thesis using False n by (simp add: itoa_def parse_digits_digits)
  qed
qed

lemma itoa_line: "no_LF (itoa n)" "itoa n \<noteq> []"
proof -
  have "LF \<notin> set (digits k)" for k using digits_are[of LF k] by (auto simp: is_digit_def LF_def nat_of_byte_def)
  moreover have "LF \<noteq> CHR ''-''" by (simp add: LF_def)
  ultimately show "no_LF (itoa n)" by (auto simp: no_LF_def itoa_def)
  show "itoa n \<noteq> []" by (simp add: itoa_def)
qed

lemma readLine_line: "no_LF l \<Longrightarrow> readLine (l @ crlf @ rest) = ROk l rest"
proof -
  assume l: "no_LF l"
  have cr: "CHR 0x0D \<noteq> LF" by (simp add: LF_def)
  have "takeWhile (\<lambda>c. c \<noteq> LF) (l @ crlf @ rest) = l @ [CHR 0x0D]"
    using l cr by (subst takeWhile_append2) (auto simp: no_LF_def crlf_def LF_def)
  then show ?thesis by (simp add: readLine_def crlf_def)
qed

lemma with_line_line: "no_LF l \<Longrightarrow> with_line (l @ crlf @ rest) f = f l rest"
  by (simp add: with_line_def readLine_line)

lemma chars_distinct: "CHR ''+'' \<noteq> CHR ''-''" "CHR '':'' \<noteq> CHR ''+''" "CHR '':'' \<noteq> CHR ''-''" by simp_all

lemma read_marshal:
  "wf_value v \<Longrightarrow> depth v \<le> fuel \<Longrightarrow> read_value fuel (marshal v @ rest) = ROk v rest"
proof (induction v arbitrary: fuel rest)
  case (PValue t s n vs)
  obtain f where fuel: "fuel = Suc f" using PValue.prems(2) by (cases fuel) auto
  show ?case
  proof (cases "t = CHR ''*''")
    case True
    then have w: "s = []" "n = 0" "int (length vs) < 2 ^ 63" "list_all wf_value vs" using PValue.prems(1) by auto
    have elems: "read_values f (length us) (concat (map marshal us) @ rest) = ROk us rest"
      if "set us \<subseteq> set vs" for us
      using that
    proof (induction us)
      case (Cons u us)
      have "depth u \<le> f" using Cons.prems PValue.prems(2) fuel by (auto simp: Max_ge_iff)
      moreover have "wf_value u" using Cons.prems w(4) by (auto simp: list_all_iff)
      ultimately show ?case using Cons PValue.IH[of u f "concat (map marshal us) @ rest"] by auto
    qed simp
    show ?thesis
      using w elems[of vs] True fuel parseInt_itoa[of "int (length vs)"]
      by (simp add: with_line_line[OF itoa_line(1)] varray_def)
  next
    case False
    consider "t = CHR ''+''" | "t = CHR ''-''" | "t = CHR '':''" | "t = CHR ''$''" using PValue.prems(1) False by (auto split: if_splits)
    then show ?thesis
    proof cases
      case 4
      then have w: "vs = []" "n = - 1 \<and> s = [] \<or> n = 0 \<and> int (length s) + 2 < 2 ^ 63" using PValue.prems(1) by auto
      from w(2) show ?thesis
      proof
        assume h: "n = - 1 \<and> s = []"
        have "no_LF ''-1''" by (simp add: no_LF_def LF_def)
        then have "readBulkString (''-1'' @ crlf @ rest) = ROk vnull rest"
          unfolding readBulkString_def
          by (subst with_line_line) (auto simp: parseInt_def parse_digits_def is_digit_def digit_val_def nat_of_byte_def)
        then show ?thesis using 4 w h fuel by (simp add: marshalBulkString_def vnull_def)
      next
        assume h: "n = 0 \<and> int (length s) + 2 < 2 ^ 63"
        have "readBulkString (itoa (int (length s)) @ crlf @ s @ crlf @ rest) = ROk (vbulk s) rest"
          unfolding readBulkString_def with_line_line[OF itoa_line(1)]
          using h parseInt_itoa[of "int (length s)"] by (simp add: nat_add_distrib crlf_def)
        then show ?thesis using 4 w h fuel by (simp add: marshalBulkString_def vbulk_def)
      qed
    qed (use PValue.prems(1) fuel in \<open>auto simp: marshalSimpleString_def marshalError_def marshalInteger_def readInteger_def
        with_line_line itoa_line parseInt_itoa vsimple_def verror_def vint_def\<close>)
  qed
qed

text \<open>The fuel of \<open>Read\<close> is never used up: nesting costs bytes.\<close>

lemma readLine_shorter: "readLine bs = ROk l rest \<Longrightarrow> length rest < length bs"
proof -
  assume "readLine bs = ROk l rest"
  then have "rest = tl (drop (length (takeWhile (\<lambda>c. c \<noteq> LF) bs)) bs)"
    "drop (length (takeWhile (\<lambda>c. c \<noteq> LF) bs)) bs \<noteq> []"
    by (auto simp: readLine_def Let_def split: if_splits)
  then show ?thesis by (metis diff_less length_drop length_tl length_greater_0_conv less_le_trans diff_le_self zero_less_one)
qed

lemma line_fuel: "with_line bs f \<noteq> RFuel" if "\<And>l rest. length rest < length bs \<Longrightarrow> f l rest \<noteq> RFuel"
  using that readLine_shorter[of bs]
  by (auto simp: with_line_def split: rres.splits) (auto simp: readLine_def Let_def split: if_splits)

lemma line_shorter: "with_line bs f = ROk v rest' \<Longrightarrow>
    (\<And>l rest. f l rest = ROk v rest' \<Longrightarrow> length rest' \<le> length rest) \<Longrightarrow> length rest' < length bs"
  by (fastforce simp: with_line_def dest: readLine_shorter split: rres.splits)

lemma inline_facts: "readInline bs \<noteq> RFuel" "readInline bs = ROk v rest \<Longrightarrow> length rest < length bs"
  using readLine_shorter[of bs]
  by (auto simp: readInline_def readLine_def Let_def split: rres.splits if_splits)

lemma scalar_facts: "readInteger bs \<noteq> RFuel" "readBulkString bs \<noteq> RFuel"
  "readInteger bs = ROk v rest \<Longrightarrow> length rest < length bs"
  "readBulkString bs = ROk v rest \<Longrightarrow> length rest < length bs"
proof -
  show "readInteger bs \<noteq> RFuel" unfolding readInteger_def by (rule line_fuel) (auto split: option.splits)
  show "readBulkString bs \<noteq> RFuel" unfolding readBulkString_def by (rule line_fuel) (auto split: option.splits)
  show "readInteger bs = ROk v rest \<Longrightarrow> length rest < length bs"
    unfolding readInteger_def by (erule line_shorter) (auto split: option.splits)
  show "readBulkString bs = ROk v rest \<Longrightarrow> length rest < length bs"
    unfolding readBulkString_def by (erule line_shorter) (auto split: option.splits if_splits)
qed

lemma values_shorter:
  assumes "\<And>bs v rest. read_value f bs = ROk v rest \<Longrightarrow> length rest < length bs"
  shows "read_values f n bs = ROk vs rest \<Longrightarrow> length rest \<le> length bs"
proof (induction n arbitrary: bs vs)
  case (Suc n)
  then show ?case by (fastforce dest: assms split: rres.splits)
qed simp

lemma values_fuel:
  assumes "\<And>bs v rest. read_value f bs = ROk v rest \<Longrightarrow> length rest < length bs"
    and "\<And>bs. length bs < f \<Longrightarrow> read_value f bs \<noteq> RFuel"
  shows "length bs < f \<Longrightarrow> read_values f n bs \<noteq> RFuel"
proof (induction n arbitrary: bs)
  case (Suc n)
  have "length rest < f" if "read_value f bs = ROk v rest" for v rest
    using assms(1)[OF that] Suc.prems by simp
  then show ?case using Suc assms(2)[OF Suc.prems] by (auto split: rres.splits)
qed simp

lemma read_facts:
  "(read_value fuel bs = ROk v rest \<longrightarrow> length rest < length bs) \<and> (length bs < fuel \<longrightarrow> read_value fuel bs \<noteq> RFuel)"
proof (induction fuel arbitrary: bs v rest)
  case (Suc f)
  have sh: "length rest' < length bs'" if "read_value f bs' = ROk v' rest'" for bs' v' rest'
    using Suc that by blast
  have fu: "read_value f bs' \<noteq> RFuel" if "length bs' < f" for bs' using Suc that by blast
  note vs = values_shorter[OF sh] values_fuel[OF sh fu]
  show ?case
  proof (cases bs)
    case (Cons t r)
    let ?arr = "\<lambda>line rest. case parseInt line of
            None \<Rightarrow> RBad (''invalid array count: '' @ line)
          | Some n \<Rightarrow>
              if n < 0 then RPanic
              else case read_values f (nat n) rest of
                ROk vs rest' \<Rightarrow> ROk (varray vs) rest'
              | REof \<Rightarrow> REof | RBad e \<Rightarrow> RBad e | RPanic \<Rightarrow> RPanic | RFuel \<Rightarrow> RFuel"
    have "with_line r ?arr = ROk v rest \<Longrightarrow> length rest < length r"
      by (erule line_shorter) (use vs(1) in \<open>auto split: option.splits if_splits rres.splits\<close>)
    moreover have "with_line r ?arr \<noteq> RFuel" if "length bs < Suc f"
      by (rule line_fuel) (use vs(2) that Cons in \<open>auto split: option.splits if_splits rres.splits\<close>)
    moreover have "with_line r (\<lambda>line rest. ROk (g line) rest) = ROk v rest \<Longrightarrow> length rest < length r" for g
      by (erule line_shorter) auto
    moreover have "with_line r (\<lambda>line rest. ROk (g line) rest) \<noteq> RFuel" for g :: "string \<Rightarrow> pvalue"
      by (rule line_fuel) simp
    ultimately show ?thesis using Cons scalar_facts[of r] inline_facts[of "t # r"]
      by (auto intro: less_SucI split: if_splits)
  qed simp
qed simp

lemma depth_marshal: "wf_value v \<Longrightarrow> depth v \<le> length (marshal v)"
proof (induction v)
  case (PValue t s n vs)
  show ?case
  proof (cases "t = CHR ''*''")
    case True
    have "depth u \<le> length (concat (map marshal vs))" if u: "u \<in> set vs" for u
    proof -
      have "depth u \<le> length (marshal u)" using PValue.IH[OF u] PValue.prems True u by (auto simp: list_all_iff)
      also have "\<dots> \<le> length (concat (map marshal vs))"
        using u by (simp add: length_concat member_le_sum_list)
      finally show ?thesis .
    qed
    then show ?thesis using True by (auto intro!: trans_le_add2)
  next
    case False
    then have "vs = []" using PValue.prems by (auto split: if_splits)
    then show ?thesis using PValue.prems
      by (auto simp: marshalSimpleString_def marshalError_def marshalInteger_def marshalBulkString_def split: if_splits)
  qed
qed

section \<open>Properties\<close>

text \<open>C17: whatever a value, the reader takes exactly its marshalled bytes from the stream and gives the
  value back, with arrays nested to any depth and whatever follows in the pipeline. On any other bytes
  it ends too, within the nesting the bytes can pay for.\<close>

theorem resp_roundtrip:
  assumes "wf_value v"
  shows "Read (marshal v @ rest) = ROk v rest \<and> Read bs \<noteq> RFuel \<and>
    (Read bs = ROk v' rest' \<longrightarrow> length rest' < length bs)"
proof -
  have "depth v \<le> Suc (length (marshal v @ rest))" using depth_marshal[OF assms] by simp
  then show ?thesis using read_marshal[OF assms] read_facts by (simp add: Read_def)
qed

definition sample_value :: pvalue where
  "sample_value = varray [vsimple ''OK'', vint (- 7), vnull, varray [vbulk [CHR 0x0A, CHR 0x0D]], verror ''ERR x'']"

theorem resp_roundtrip_witness:
  "Read (marshal sample_value @ ''+PONG'') = ROk sample_value ''+PONG''"
proof -
  have "wf_value sample_value" by (simp add: sample_value_def v_defs no_LF_def LF_def)
  from conjunct1[OF resp_roundtrip[OF this, of "''+PONG''" "[]" vnull "[]"]] show ?thesis .
qed

end
