(* ===== verification/PubSub.thy ===== *)
theory PubSub
  imports Resp
begin

text \<open>
  The hub of the publish/subscribe commands: \<open>internal/pubsub/pubsub.go\<close>. A connection is a number; a
  subscriber is an object of its own, as a pointer that other goroutines may still hold after it has
  been taken out of the maps. What is done under the hub's mutex is one step; the sends to a
  subscriber's channel happen after it is released.

  \<open>disconnectSlow\<close> closes the subscriber's \<open>done\<close> channel while it holds the mutex, and closing a closed
  channel panics: the outcome \<open>None\<close> is that panic, which leaves the mutex locked for ever.
\<close>

section \<open>State\<close>

definition maxBuffer :: nat where "maxBuffer = 256"

record subscriber =
  sch :: "pvalue list"
  sconn :: nat
  sdone :: bool
  schans :: "string list"

record hub =
  subscribers :: "(nat, nat) gomap"
  channels :: "(string, nat list) gomap"
  subs :: "nat \<Rightarrow> subscriber"
  nextSub :: nat
  closedConns :: "nat list"

definition hub_new :: hub where
  "hub_new = \<lparr>subscribers = [], channels = [], subs = (\<lambda>_. \<lparr>sch = [], sconn = 0, sdone = False, schans = []\<rparr>),
     nextSub = 0, closedConns = []\<rparr>"

definition upd_sub :: "hub \<Rightarrow> nat \<Rightarrow> (subscriber \<Rightarrow> subscriber) \<Rightarrow> hub" where
  "upd_sub h i f = h\<lparr>subs := (subs h)(i := f (subs h i))\<rparr>"

definition isSubscriber :: "hub \<Rightarrow> nat \<Rightarrow> bool" where
  "isSubscriber h conn \<longleftrightarrow> map_of (subscribers h) conn \<noteq> None"

definition getOrCreateSub :: "hub \<Rightarrow> nat \<Rightarrow> nat \<times> hub" where
  "getOrCreateSub h conn =
     (case map_of (subscribers h) conn of
        Some i \<Rightarrow> (i, h)
      | None \<Rightarrow>
          let i = nextSub h in
          (i, h\<lparr>subs := (subs h)(i := \<lparr>sch = [], sconn = conn, sdone = False, schans = []\<rparr>),
                nextSub := i + 1, subscribers := AList.update conn i (subscribers h)\<rparr>))"

section \<open>Leaving channels\<close>

definition leave_channel :: "hub \<Rightarrow> nat \<Rightarrow> string \<Rightarrow> hub" where
  "leave_channel h i channel =
     (case map_of (channels h) channel of
        None \<Rightarrow> h
      | Some is \<Rightarrow>
          let rest = removeAll i is in
          h\<lparr>channels := (if rest = [] then AList.delete channel (channels h)
                        else AList.update channel rest (channels h))\<rparr>)"

definition leave_all :: "hub \<Rightarrow> nat \<Rightarrow> hub" where
  "leave_all h i = fold (\<lambda>c h. leave_channel h i c) (schans (subs h i)) h"

definition closeSub :: "hub \<Rightarrow> nat \<Rightarrow> hub option" where
  "closeSub h i =
     (if sdone (subs h i) then None
      else Some ((upd_sub h i (\<lambda>s. s\<lparr>sdone := True\<rparr>))
                  \<lparr>subscribers := AList.delete (sconn (subs h i)) (subscribers h)\<rparr>))"

definition disconnectSlow :: "hub \<Rightarrow> nat \<Rightarrow> hub option" where
  "disconnectSlow h i =
     (if map_of (subscribers h) (sconn (subs h i)) = None then Some h
      else let h1 = leave_all h i in
        if sdone (subs h1 i) then None
        else let h2 = upd_sub h1 i (\<lambda>s. s\<lparr>sdone := True\<rparr>);
                 h3 = h2\<lparr>subscribers := AList.delete (sconn (subs h i)) (subscribers h2)\<rparr> in
          Some (h3\<lparr>closedConns := closedConns h3 @ [sconn (subs h i)]\<rparr>))"

text \<open>A non-blocking send; the subscriber that does not keep up is disconnected.\<close>

definition offer :: "hub \<Rightarrow> nat \<Rightarrow> pvalue \<Rightarrow> (bool \<times> hub) option" where
  "offer h i msg =
     (if length (sch (subs h i)) < maxBuffer then Some (True, upd_sub h i (\<lambda>s. s\<lparr>sch := sch s @ [msg]\<rparr>))
      else map_option (Pair False) (disconnectSlow h i))"

section \<open>Operations\<close>

definition subscribe_msg :: "string \<Rightarrow> nat \<Rightarrow> pvalue" where
  "subscribe_msg channel n = varray [vbulk ''subscribe'', vbulk channel, vint (int n)]"

definition join :: "nat \<Rightarrow> hub \<Rightarrow> string \<Rightarrow> hub" where
  "join i h channel =
     (let is = (case map_of (channels h) channel of None \<Rightarrow> [] | Some is \<Rightarrow> is) in
      upd_sub (h\<lparr>channels := AList.update channel (List.insert i is) (channels h)\<rparr>) i
        (\<lambda>s. s\<lparr>schans := List.insert channel (schans s)\<rparr>))"

text \<open>The part of \<open>Subscribe\<close> under the mutex: the subscriber and the confirmations it is owed.\<close>

definition subscribe_locked :: "hub \<Rightarrow> nat \<Rightarrow> string list \<Rightarrow> nat \<times> pvalue list \<times> hub" where
  "subscribe_locked h conn chans =
     (case getOrCreateSub h conn of (i, h1) \<Rightarrow>
        case fold (\<lambda>c (h, msgs). let h' = join i h c in
               (h', msgs @ [subscribe_msg c (length (schans (subs h' i)))])) chans (h1, []) of
          (h2, msgs) \<Rightarrow> (i, msgs, h2))"

fun confirm :: "hub \<Rightarrow> nat \<Rightarrow> pvalue list \<Rightarrow> hub option" where
  "confirm h i [] = Some h"
| "confirm h i (m # ms) =
     (case offer h i m of None \<Rightarrow> None | Some (True, h') \<Rightarrow> confirm h' i ms | Some (False, h') \<Rightarrow> Some h')"

definition subscribe :: "hub \<Rightarrow> nat \<Rightarrow> string list \<Rightarrow> hub option" where
  "subscribe h conn chans = (case subscribe_locked h conn chans of (i, msgs, h1) \<Rightarrow> confirm h1 i msgs)"

definition unsubscribe :: "hub \<Rightarrow> nat \<Rightarrow> string list \<Rightarrow> hub option" where
  "unsubscribe h conn chans =
     (case map_of (subscribers h) conn of
        None \<Rightarrow> Some h
      | Some i \<Rightarrow>
          let h1 = (if chans = [] then upd_sub (leave_all h i) i (\<lambda>s. s\<lparr>schans := []\<rparr>)
                    else fold (\<lambda>c h. upd_sub (leave_channel h i c) i (\<lambda>s. s\<lparr>schans := removeAll c (schans s)\<rparr>)) chans h) in
          if schans (subs h1 i) = [] then closeSub h1 i else Some h1)"

text \<open>\<open>Publish\<close> first takes the recipients (in the order of the map, here the order of the list), then
  sends to each.\<close>

definition recipients :: "hub \<Rightarrow> string \<Rightarrow> nat list" where
  "recipients h channel = (case map_of (channels h) channel of None \<Rightarrow> [] | Some is \<Rightarrow> is)"

definition publish_msg :: "string \<Rightarrow> string \<Rightarrow> pvalue" where
  "publish_msg channel message = varray [vbulk ''message'', vbulk channel, vbulk message]"

fun deliver :: "hub \<Rightarrow> nat list \<Rightarrow> pvalue \<Rightarrow> nat \<Rightarrow> (nat \<times> hub) option" where
  "deliver h [] msg n = Some (n, h)"
| "deliver h (i # is) msg n =
     (case offer h i msg of None \<Rightarrow> None | Some (ok, h') \<Rightarrow> deliver h' is msg (if ok then n + 1 else n))"

definition publish :: "hub \<Rightarrow> string \<Rightarrow> string \<Rightarrow> (nat \<times> hub) option" where
  "publish h channel message = deliver h (recipients h channel) (publish_msg channel message) 0"

definition removeConn :: "hub \<Rightarrow> nat \<Rightarrow> hub option" where
  "removeConn h conn =
     (case map_of (subscribers h) conn of None \<Rightarrow> Some h | Some i \<Rightarrow> closeSub (leave_all h i) i)"

definition send :: "hub \<Rightarrow> nat \<Rightarrow> pvalue \<Rightarrow> (bool \<times> hub) option" where
  "send h conn v =
     (case map_of (subscribers h) conn of None \<Rightarrow> Some (False, h) | Some i \<Rightarrow> offer h i v)"

definition after_send :: "(bool \<times> hub) option \<Rightarrow> hub option" where
  "after_send r = map_option snd r"

definition handleSubscriberCommand :: "hub \<Rightarrow> nat \<Rightarrow> string \<Rightarrow> bytes list \<Rightarrow> hub option" where
  "handleSubscriberCommand h conn cmd args =
     (if cmd = ''SUBSCRIBE'' then subscribe h conn args
      else if cmd = ''UNSUBSCRIBE'' then
        (case after_send (send h conn (vsimple ''OK'')) of None \<Rightarrow> None | Some h1 \<Rightarrow> unsubscribe h1 conn args)
      else if cmd = ''PING'' then after_send (send h conn (vsimple ''PONG''))
      else if cmd = ''PUBLISH'' then
        (if length args < 2 then after_send (send h conn (verror (wrong_args ''PUBLISH'')))
         else case publish h (args ! 0) (args ! 1) of
           None \<Rightarrow> None
         | Some (n, h1) \<Rightarrow> after_send (send h1 conn (vint (int n))))
      else after_send (send h conn (verror (''ERR '' @ [CHR 0x27] @ cmd @ [CHR 0x27] @
              '' not allowed in subscriber mode (only pub/sub commands and PING)''))))"

text \<open>The write pump takes messages from the channel in order until the connection is done and the
  channel is empty. \<open>pump_take\<close> is one receive.\<close>

definition pump_take :: "hub \<Rightarrow> nat \<Rightarrow> (pvalue \<times> hub) option" where
  "pump_take h i = (case sch (subs h i) of [] \<Rightarrow> None | m # ms \<Rightarrow> Some (m, upd_sub h i (\<lambda>s. s\<lparr>sch := ms\<rparr>)))"

definition pump_stops :: "hub \<Rightarrow> nat \<Rightarrow> bool" where
  "pump_stops h i \<longleftrightarrow> sdone (subs h i) \<and> sch (subs h i) = []"

section \<open>Invariant\<close>

definition registered :: "hub \<Rightarrow> nat \<Rightarrow> bool" where
  "registered h i \<longleftrightarrow> map_of (subscribers h) (sconn (subs h i)) = Some i"

definition sub_ok :: "hub \<Rightarrow> nat \<Rightarrow> bool" where
  "sub_ok h i \<longleftrightarrow> distinct (schans (subs h i)) \<and> length (sch (subs h i)) \<le> maxBuffer \<and>
     (registered h i \<longrightarrow> i < nextSub h \<and> \<not> sdone (subs h i))"

definition hub_inv :: "hub \<Rightarrow> bool" where
  "hub_inv h \<longleftrightarrow> keys_distinct (subscribers h) \<and> keys_distinct (channels h) \<and>
     (\<forall>c i. map_of (subscribers h) c = Some i \<longrightarrow> i < nextSub h \<and> sconn (subs h i) = c) \<and>
     (\<forall>cn is. map_of (channels h) cn = Some is \<longrightarrow> is \<noteq> [] \<and> distinct is) \<and>
     (\<forall>i. sub_ok h i) \<and>
     (\<forall>cn i. i \<in> set (recipients h cn) \<longleftrightarrow> registered h i \<and> cn \<in> set (schans (subs h i)))"

lemma hub_inv_new: "hub_inv hub_new"
  by (simp add: hub_inv_def hub_new_def sub_ok_def registered_def recipients_def)

lemma upd_sub_sel [simp]: "subscribers (upd_sub h i f) = subscribers h" "channels (upd_sub h i f) = channels h"
  "nextSub (upd_sub h i f) = nextSub h" "closedConns (upd_sub h i f) = closedConns h"
  "subs (upd_sub h i f) = (subs h)(i := f (subs h i))"
  by (simp_all add: upd_sub_def)

lemma leave_channel_sel [simp]: "subscribers (leave_channel h i c) = subscribers h" "subs (leave_channel h i c) = subs h"
  "nextSub (leave_channel h i c) = nextSub h" "closedConns (leave_channel h i c) = closedConns h"
  by (simp_all add: leave_channel_def Let_def split: option.splits)

definition chans_ok :: "hub \<Rightarrow> bool" where
  "chans_ok h \<longleftrightarrow> keys_distinct (channels h) \<and>
     (\<forall>cn is. map_of (channels h) cn = Some is \<longrightarrow> is \<noteq> [] \<and> distinct is)"

lemma leave_channel_recipients:
  assumes "chans_ok h"
  shows "chans_ok (leave_channel h i c)"
    "recipients (leave_channel h i c) cn = (if cn = c then removeAll i (recipients h c) else recipients h cn)"
proof -
  show "chans_ok (leave_channel h i c)"
    using assms by (auto simp: chans_ok_def leave_channel_def Let_def distinct_removeAll split: option.splits if_splits)
  show "recipients (leave_channel h i c) cn = (if cn = c then removeAll i (recipients h c) else recipients h cn)"
    using assms by (auto simp: chans_ok_def recipients_def leave_channel_def Let_def split: option.splits)
qed

lemma leave_fold:
  "chans_ok h \<Longrightarrow> let h' = fold (\<lambda>c h. leave_channel h i c) cs h in
     chans_ok h' \<and> subscribers h' = subscribers h \<and> subs h' = subs h \<and> nextSub h' = nextSub h \<and>
     closedConns h' = closedConns h \<and>
     (\<forall>cn. recipients h' cn = (if cn \<in> set cs then removeAll i (recipients h cn) else recipients h cn))"
proof (induction cs arbitrary: h)
  case (Cons c cs)
  show ?case
    using Cons.IH[OF leave_channel_recipients(1)[OF Cons.prems, of i c]] leave_channel_recipients(2)[OF Cons.prems, of i c]
    by (auto simp: Let_def)
qed (simp add: Let_def)

lemma leave_all_spec:
  assumes "chans_ok h"
  shows "chans_ok (leave_all h i)" "subscribers (leave_all h i) = subscribers h" "subs (leave_all h i) = subs h"
    "nextSub (leave_all h i) = nextSub h" "closedConns (leave_all h i) = closedConns h"
    "recipients (leave_all h i) cn = (if cn \<in> set (schans (subs h i)) then removeAll i (recipients h cn) else recipients h cn)"
  using leave_fold[OF assms, of i "schans (subs h i)"] by (simp_all add: leave_all_def Let_def)

lemma recipients_irrelevant [simp]:
  "recipients (h\<lparr>subscribers := x\<rparr>) = recipients h" "recipients (upd_sub h i f) = recipients h"
  "recipients (h\<lparr>closedConns := y\<rparr>) = recipients h" "chans_ok (h\<lparr>subscribers := x\<rparr>) = chans_ok h"
  "chans_ok (upd_sub h i f) = chans_ok h" "chans_ok (h\<lparr>closedConns := y\<rparr>) = chans_ok h"
  by (auto simp: recipients_def fun_eq_iff chans_ok_def)

lemma hub_inv_chans: "hub_inv h \<Longrightarrow> chans_ok h"
  by (simp add: hub_inv_def chans_ok_def)

text \<open>Taking a registered subscriber out: what \<open>closeSub\<close> after \<open>leave_all\<close>, and \<open>disconnectSlow\<close>, do.\<close>

definition taken_out :: "hub \<Rightarrow> nat \<Rightarrow> hub" where
  "taken_out h i = (upd_sub (leave_all h i) i (\<lambda>s. s\<lparr>sdone := True\<rparr>))
     \<lparr>subscribers := AList.delete (sconn (subs h i)) (subscribers h)\<rparr>"

lemma taken_out_inv:
  assumes inv: "hub_inv h" and reg: "registered h i"
  shows "hub_inv (taken_out h i)" "\<not> registered (taken_out h i) i" "sch (subs (taken_out h i) j) = sch (subs h j)"
    "j \<noteq> i \<Longrightarrow> registered (taken_out h i) j = registered h j" "schans (subs (taken_out h i) j) = schans (subs h j)"
    "sconn (subs (taken_out h i) j) = sconn (subs h j)"
proof -
  note L = leave_all_spec[OF hub_inv_chans[OF inv], of i]
  have r: "registered (taken_out h i) j \<longleftrightarrow> registered h j \<and> j \<noteq> i" for j
  proof (cases "sconn (subs h j) = sconn (subs h i)")
    case True
    then show ?thesis using reg L by (auto simp: registered_def taken_out_def)
  next
    case False
    then have "j \<noteq> i" by auto
    then show ?thesis using False L by (auto simp: registered_def taken_out_def)
  qed
  then show "\<not> registered (taken_out h i) i" "j \<noteq> i \<Longrightarrow> registered (taken_out h i) j = registered h j" by simp_all
  show "sch (subs (taken_out h i) j) = sch (subs h j)" "schans (subs (taken_out h i) j) = schans (subs h j)"
    "sconn (subs (taken_out h i) j) = sconn (subs h j)"
    using L by (simp_all add: taken_out_def)
  have "chans_ok (taken_out h i)" using L by (simp add: taken_out_def)
  moreover have "keys_distinct (subscribers (taken_out h i))" using inv by (simp add: taken_out_def hub_inv_def)
  moreover have "\<forall>c j. map_of (subscribers (taken_out h i)) c = Some j \<longrightarrow> j < nextSub (taken_out h i) \<and> sconn (subs (taken_out h i) j) = c"
    using inv L by (auto simp: taken_out_def hub_inv_def split: if_splits)
  moreover have "sub_ok (taken_out h i) j" for j
    using inv r[of j] L by (auto simp: hub_inv_def sub_ok_def taken_out_def)
  moreover have "j \<in> set (recipients (taken_out h i) cn) \<longleftrightarrow> registered (taken_out h i) j \<and> cn \<in> set (schans (subs (taken_out h i) j))" for j cn
  proof -
    have "set (recipients (taken_out h i) cn) = set (recipients h cn) - {i}"
      using L(6)[of cn] inv reg by (auto simp: taken_out_def hub_inv_def)
    moreover have "schans (subs (taken_out h i) j) = schans (subs h j)" using L by (simp add: taken_out_def)
    ultimately show ?thesis using r[of j] inv by (auto simp: hub_inv_def)
  qed
  ultimately show "hub_inv (taken_out h i)" by (simp add: hub_inv_def chans_ok_def)
qed

section \<open>Sends\<close>

definition room :: "hub \<Rightarrow> nat \<Rightarrow> bool" where
  "room h i \<longleftrightarrow> length (sch (subs h i)) < maxBuffer"

lemma enqueue_inv:
  assumes "hub_inv h" "room h i"
  shows "hub_inv (upd_sub h i (\<lambda>s. s\<lparr>sch := sch s @ [m]\<rparr>))"
    "registered (upd_sub h i (\<lambda>s. s\<lparr>sch := sch s @ [m]\<rparr>)) j = registered h j"
proof -
  show r: "registered (upd_sub h i (\<lambda>s. s\<lparr>sch := sch s @ [m]\<rparr>)) j = registered h j" for j
    by (auto simp: registered_def)
  show "hub_inv (upd_sub h i (\<lambda>s. s\<lparr>sch := sch s @ [m]\<rparr>))"
    using assms by (auto simp: hub_inv_def sub_ok_def r room_def)
qed

lemma closed_irrelevant [simp]: "hub_inv (h\<lparr>closedConns := x\<rparr>) = hub_inv h" "registered (h\<lparr>closedConns := x\<rparr>) = registered h"
  by (auto simp: hub_inv_def sub_ok_def registered_def fun_eq_iff)

lemma offer_full:
  assumes "hub_inv h" "registered h i" "\<not> room h i"
  shows "offer h i m = Some (False, (taken_out h i)\<lparr>closedConns := closedConns h @ [sconn (subs h i)]\<rparr>)"
proof -
  note L = leave_all_spec[OF hub_inv_chans[OF assms(1)], of i]
  have "\<not> sdone (subs h i)" using assms(1,2) by (auto simp: hub_inv_def sub_ok_def)
  then show ?thesis using assms(2,3) L
    by (simp add: offer_def room_def disconnectSlow_def registered_def taken_out_def Let_def)
qed

lemma offer_room: "room h i \<Longrightarrow> offer h i m = Some (True, upd_sub h i (\<lambda>s. s\<lparr>sch := sch s @ [m]\<rparr>))"
  by (simp add: offer_def room_def)

text \<open>One send to a registered subscriber.\<close>

lemma offer_spec:
  assumes "hub_inv h" "registered h i"
  obtains h' where "offer h i m = Some (room h i, h')" "hub_inv h'"
    "\<And>j. sch (subs h' j) = (if j = i \<and> room h i then sch (subs h i) @ [m] else sch (subs h j))"
    "\<And>j. registered h' j \<longleftrightarrow> registered h j \<and> (j = i \<longrightarrow> room h i)"
    "\<And>j. sconn (subs h' j) = sconn (subs h j)" "\<And>j. schans (subs h' j) = schans (subs h j)"
proof (cases "room h i")
  case True
  show ?thesis
    by (rule that[of "upd_sub h i (\<lambda>s. s\<lparr>sch := sch s @ [m]\<rparr>)"])
       (use offer_room[OF True] enqueue_inv[OF assms(1) True] True in auto)
next
  case False
  note t = taken_out_inv[OF assms]
  have r: "registered (taken_out h i) j \<longleftrightarrow> registered h j \<and> j \<noteq> i" for j using t(2,4) by (cases "j = i") auto
  show ?thesis
    by (rule that[of "(taken_out h i)\<lparr>closedConns := closedConns h @ [sconn (subs h i)]\<rparr>"])
       (use offer_full[OF assms False] t(1,3,5,6) r False in auto)
qed

lemma deliver_spec:
  assumes "hub_inv h" "distinct is" "\<forall>i \<in> set is. registered h i"
  shows "\<exists>h'. deliver h is m n = Some (n + length (filter (room h) is), h') \<and> hub_inv h' \<and>
    (\<forall>j. sch (subs h' j) = (if j \<in> set is \<and> room h j then sch (subs h j) @ [m] else sch (subs h j))) \<and>
    (\<forall>j. registered h' j \<longleftrightarrow> registered h j \<and> (j \<in> set is \<longrightarrow> room h j)) \<and>
    (\<forall>j. sconn (subs h' j) = sconn (subs h j)) \<and> (\<forall>j. schans (subs h' j) = schans (subs h j))"
  using assms
proof (induction "is" arbitrary: h n)
  case (Cons i "is")
  have ri: "registered h i" using Cons.prems(3) by simp
  obtain h1 where o: "offer h i m = Some (room h i, h1)" "hub_inv h1"
    "\<And>j. sch (subs h1 j) = (if j = i \<and> room h i then sch (subs h i) @ [m] else sch (subs h j))"
    "\<And>j. registered h1 j \<longleftrightarrow> registered h j \<and> (j = i \<longrightarrow> room h i)"
    "\<And>j. sconn (subs h1 j) = sconn (subs h j)" "\<And>j. schans (subs h1 j) = schans (subs h j)"
    using offer_spec[OF Cons.prems(1) ri] by blast
  have rooms: "room h1 j = room h j" if "j \<in> set is" for j
    using that Cons.prems(2) by (auto simp: room_def o(3))
  have "\<forall>j \<in> set is. registered h1 j" using Cons.prems o(4) by auto
  from Cons.IH[OF o(2) _ this, of "if room h i then n + 1 else n"] Cons.prems(2)
  obtain h' where d: "deliver h1 is m (if room h i then n + 1 else n) =
      Some ((if room h i then n + 1 else n) + length (filter (room h1) is), h')" "hub_inv h'"
    "\<forall>j. sch (subs h' j) = (if j \<in> set is \<and> room h1 j then sch (subs h1 j) @ [m] else sch (subs h1 j))"
    "\<forall>j. registered h' j \<longleftrightarrow> registered h1 j \<and> (j \<in> set is \<longrightarrow> room h1 j)"
    "\<forall>j. sconn (subs h' j) = sconn (subs h1 j)" "\<forall>j. schans (subs h' j) = schans (subs h1 j)" by auto
  have f: "filter (room h1) is = filter (room h) is" by (rule filter_cong) (use rooms in auto)
  have "deliver h (i # is) m n = Some (n + length (filter (room h) (i # is)), h')"
    using o(1) d(1) by (simp add: f)
  moreover have "sch (subs h' j) = (if j \<in> set (i # is) \<and> room h j then sch (subs h j) @ [m] else sch (subs h j))" for j
    using d(3) rooms o(3) Cons.prems(2) by auto
  moreover have "registered h' j \<longleftrightarrow> registered h j \<and> (j \<in> set (i # is) \<longrightarrow> room h j)" for j
    using d(4) rooms o(4) by auto
  ultimately show ?case using d(2,5,6) o(5,6) by auto
qed (auto intro!: exI[of _ h])

lemma confirm_spec:
  assumes "hub_inv h" "registered h i"
  shows "\<exists>h'. confirm h i ms = Some h' \<and> hub_inv h' \<and> (\<forall>j. j \<noteq> i \<longrightarrow> registered h' j = registered h j \<and> sch (subs h' j) = sch (subs h j))"
  using assms
proof (induction ms arbitrary: h)
  case (Cons m ms)
  obtain h1 where o: "offer h i m = Some (room h i, h1)" "hub_inv h1"
    "\<And>j. sch (subs h1 j) = (if j = i \<and> room h i then sch (subs h i) @ [m] else sch (subs h j))"
    "\<And>j. registered h1 j \<longleftrightarrow> registered h j \<and> (j = i \<longrightarrow> room h i)"
    "\<And>j. sconn (subs h1 j) = sconn (subs h j)" "\<And>j. schans (subs h1 j) = schans (subs h j)"
    using offer_spec[OF Cons.prems, of m] by metis
  show ?case
  proof (cases "room h i")
    case True
    then have "registered h1 i" using o(4) Cons.prems(2) by simp
    from Cons.IH[OF o(2) this] obtain h' where h': "confirm h1 i ms = Some h'" "hub_inv h'"
      "\<And>j. j \<noteq> i \<Longrightarrow> registered h' j = registered h1 j \<and> sch (subs h' j) = sch (subs h1 j)" by blast
    have "confirm h i (m # ms) = Some h'" using o(1) h'(1) True by simp
    moreover have "registered h' j = registered h j \<and> sch (subs h' j) = sch (subs h j)" if "j \<noteq> i" for j
      using that h'(3)[OF that] o(3)[of j] o(4)[of j] by simp
    ultimately show ?thesis using h'(2) by blast
  next
    case False
    have "confirm h i (m # ms) = Some h1" using o(1) False by simp
    moreover have "registered h1 j = registered h j \<and> sch (subs h1 j) = sch (subs h j)" if "j \<noteq> i" for j
      using that o(3)[of j] o(4)[of j] by simp
    ultimately show ?thesis using o(2) by blast
  qed
qed auto

section \<open>Joining and leaving\<close>

lemma getOrCreate_spec:
  assumes "hub_inv h" "getOrCreateSub h conn = (i, h1)"
  shows "hub_inv h1" "registered h1 i" "sconn (subs h1 i) = conn"
    "j \<noteq> i \<Longrightarrow> registered h1 j = registered h j \<and> subs h1 j = subs h j"
    "map_of (subscribers h) conn = None \<Longrightarrow> i = nextSub h"
proof -
  have "hub_inv h1 \<and> registered h1 i \<and> sconn (subs h1 i) = conn \<and>
      (j \<noteq> i \<longrightarrow> registered h1 j = registered h j \<and> subs h1 j = subs h j) \<and>
      (map_of (subscribers h) conn = None \<longrightarrow> i = nextSub h)"
  proof (cases "map_of (subscribers h) conn")
    case (Some k)
    then show ?thesis using assms by (auto simp: getOrCreateSub_def hub_inv_def registered_def)
  next
    case None
    have h1: "i = nextSub h" "h1 = h\<lparr>subs := (subs h)(i := \<lparr>sch = [], sconn = conn, sdone = False, schans = []\<rparr>),
        nextSub := i + 1, subscribers := AList.update conn i (subscribers h)\<rparr>"
      using assms(2) None by (auto simp: getOrCreateSub_def Let_def)
    have nr: "\<not> registered h i" using assms(1) h1(1) by (auto simp: hub_inv_def sub_ok_def)
    have r: "registered h1 j \<longleftrightarrow> (if j = i then True else registered h j)" for j
      using None by (auto simp: h1(2) registered_def update_conv)
    have rec: "recipients h1 cn = recipients h cn" for cn by (simp add: h1(2) recipients_def)
    have "i \<notin> set (recipients h cn)" for cn using nr assms(1) by (auto simp: hub_inv_def)
    then have "j \<in> set (recipients h1 cn) \<longleftrightarrow> registered h1 j \<and> cn \<in> set (schans (subs h1 j))" for j cn
      using assms(1) r[of j] rec by (auto simp: hub_inv_def h1(2))
    moreover have "sub_ok h1 j" for j
      using assms(1) r[of j] by (auto simp: hub_inv_def sub_ok_def h1 less_SucI maxBuffer_def)
    moreover have "map_of (subscribers h1) c = Some j \<longrightarrow> j < nextSub h1 \<and> sconn (subs h1 j) = c" for c j
      using assms(1) by (auto simp: h1 hub_inv_def update_conv less_SucI)
    moreover have "keys_distinct (subscribers h1)" "channels h1 = channels h" using assms(1) by (auto simp: h1(2) hub_inv_def)
    ultimately have "hub_inv h1" using assms(1) by (simp add: hub_inv_def)
    then show ?thesis using r h1 by auto
  qed
  then show "hub_inv h1" "registered h1 i" "sconn (subs h1 i) = conn"
    "j \<noteq> i \<Longrightarrow> registered h1 j = registered h j \<and> subs h1 j = subs h j"
    "map_of (subscribers h) conn = None \<Longrightarrow> i = nextSub h" by auto
qed

lemma join_spec:
  assumes "hub_inv h" "registered h i"
  shows "hub_inv (join i h c)" "registered (join i h c) j = registered h j"
    "j \<noteq> i \<Longrightarrow> subs (join i h c) j = subs h j" "sconn (subs (join i h c) j) = sconn (subs h j)"
    "sch (subs (join i h c) j) = sch (subs h j)"
    "set (schans (subs (join i h c) i)) = insert c (set (schans (subs h i)))"
proof -
  show r: "registered (join i h c) j = registered h j" for j by (auto simp: registered_def join_def Let_def)
  have sub: "schans (subs (join i h c) j) = (if j = i then List.insert c (schans (subs h i)) else schans (subs h j))"
    "subs (join i h c) j = (if j = i then (subs h i)\<lparr>schans := List.insert c (schans (subs h i))\<rparr> else subs h j)" for j
    by (simp_all add: join_def Let_def)
  have rec: "recipients (join i h c) cn = (if cn = c then List.insert i (recipients h c) else recipients h cn)" for cn
    by (auto simp: recipients_def join_def Let_def update_conv split: option.splits)
  have chs: "keys_distinct (channels (join i h c))" "map_of (channels (join i h c)) cn = Some is \<longrightarrow> is \<noteq> [] \<and> distinct is" for cn "is"
    using assms(1) by (auto simp: join_def Let_def hub_inv_def update_conv List.insert_def split: option.splits)
  have "j \<in> set (recipients (join i h c) cn) \<longleftrightarrow> registered (join i h c) j \<and> cn \<in> set (schans (subs (join i h c) j))" for j cn
    using assms unfolding rec sub(1) r by (auto simp: hub_inv_def)
  moreover have "sub_ok (join i h c) j" for j
    using assms(1) r[of j] by (auto simp: hub_inv_def sub_ok_def sub(2)) (auto simp: join_def Let_def)
  moreover have "subscribers (join i h c) = subscribers h" "nextSub (join i h c) = nextSub h" by (simp_all add: join_def Let_def)
  ultimately show "hub_inv (join i h c)" using assms(1) chs sub(2) by (auto simp: hub_inv_def)
  show "j \<noteq> i \<Longrightarrow> subs (join i h c) j = subs h j" "sconn (subs (join i h c) j) = sconn (subs h j)"
    "sch (subs (join i h c) j) = sch (subs h j)"
    "set (schans (subs (join i h c) i)) = insert c (set (schans (subs h i)))" by (simp_all add: sub)
qed

lemma join_fold:
  assumes "hub_inv h" "registered h i"
  shows "let (h', ms) = fold (\<lambda>c (h, msgs). let h' = join i h c in
               (h', msgs @ [subscribe_msg c (length (schans (subs h' i)))])) cs (h, ms0) in
     hub_inv h' \<and> registered h' = registered h \<and> (\<forall>j. j \<noteq> i \<longrightarrow> subs h' j = subs h j) \<and>
     sconn (subs h' i) = sconn (subs h i) \<and> sch (subs h' i) = sch (subs h i) \<and>
     set (schans (subs h' i)) = set (schans (subs h i)) \<union> set cs \<and> length ms = length ms0 + length cs"
  using assms
proof (induction cs arbitrary: h ms0)
  case (Cons c cs)
  note J = join_spec[OF Cons.prems, where c = c]
  have "registered (join i h c) = registered h" using J(2) by (simp add: fun_eq_iff)
  then show ?case using Cons.IH[OF J(1), of "ms0 @ [subscribe_msg c (length (schans (subs (join i h c) i)))]"]
      Cons.prems(2) J(3-6)
    by (auto simp: Let_def case_prod_unfold)
qed simp

lemma subscribe_locked_spec:
  assumes "hub_inv h" "subscribe_locked h conn chans = (i, msgs, h2)"
  shows "hub_inv h2" "registered h2 i" "sconn (subs h2 i) = conn" "set chans \<subseteq> set (schans (subs h2 i))"
    "length msgs = length chans" "j \<noteq> i \<Longrightarrow> registered h2 j = registered h j \<and> subs h2 j = subs h j"
    "map_of (subscribers h) conn = None \<Longrightarrow> i = nextSub h"
proof -
  obtain k h1 where g: "getOrCreateSub h conn = (k, h1)" by fastforce
  note G = getOrCreate_spec[OF assms(1) g]
  note F = join_fold[OF G(1,2), of chans "[]"]
  have i: "i = k" using assms(2) g by (auto simp: subscribe_locked_def split: prod.splits)
  obtain ms where f: "fold (\<lambda>c (h, msgs). let h' = join k h c in
      (h', msgs @ [subscribe_msg c (length (schans (subs h' k)))])) chans (h1, []) = (h2, ms)" "ms = msgs"
    using assms(2) g by (auto simp: subscribe_locked_def split: prod.splits)
  have all: "hub_inv h2 \<and> registered h2 = registered h1 \<and> (\<forall>j. j \<noteq> k \<longrightarrow> subs h2 j = subs h1 j) \<and>
     sconn (subs h2 k) = sconn (subs h1 k) \<and> set (schans (subs h2 k)) = set (schans (subs h1 k)) \<union> set chans \<and>
     length msgs = length chans"
    using F unfolding f(1) by (simp add: f(2))
  show "hub_inv h2" "registered h2 i" "sconn (subs h2 i) = conn" "set chans \<subseteq> set (schans (subs h2 i))"
    "length msgs = length chans" "j \<noteq> i \<Longrightarrow> registered h2 j = registered h j \<and> subs h2 j = subs h j"
    "map_of (subscribers h) conn = None \<Longrightarrow> i = nextSub h"
    using all G(2,3) G(4)[of j] G(5) unfolding i by auto
qed

lemma subscribe_safe: "hub_inv h \<Longrightarrow> \<exists>h'. subscribe h conn chans = Some h' \<and> hub_inv h'"
proof -
  assume h: "hub_inv h"
  obtain i msgs h2 where l: "subscribe_locked h conn chans = (i, msgs, h2)" by (metis prod_cases3)
  note S = subscribe_locked_spec[OF h l]
  show ?thesis using confirm_spec[OF S(1,2), of msgs] l by (auto simp: subscribe_def)
qed

lemma registered_conn: "hub_inv h \<Longrightarrow> map_of (subscribers h) conn = Some i \<Longrightarrow> registered h i \<and> sconn (subs h i) = conn"
  by (auto simp: hub_inv_def registered_def)

lemma leave_one_inv:
  fixes c
  assumes "hub_inv h" "registered h i"
  assumes h'_def: "h' = upd_sub (leave_channel h i c) i (\<lambda>s. s\<lparr>schans := removeAll c (schans s)\<rparr>)"
  shows "hub_inv h'" "registered h' = registered h" "sconn (subs h' i) = sconn (subs h i)"
proof -
  note L = leave_channel_recipients[OF hub_inv_chans[OF assms(1)], of i c]
  have r: "registered h' j = registered h j" for j by (auto simp: registered_def h'_def)
  then show "registered h' = registered h" by (simp add: fun_eq_iff)
  have rec: "set (recipients h' cn) = (if cn = c then set (recipients h c) - {i} else set (recipients h cn))" for cn
    by (simp add: h'_def L(2))
  have "j \<in> set (recipients h' cn) \<longleftrightarrow> registered h' j \<and> cn \<in> set (schans (subs h' j))" for j cn
    using assms(1) unfolding rec r by (auto simp: hub_inv_def h'_def)
  moreover have "sub_ok h' j" for j
    using assms(1) r[of j] by (auto simp: hub_inv_def sub_ok_def h'_def distinct_removeAll)
  moreover have "chans_ok h'" using L(1) by (simp add: h'_def)
  ultimately show "hub_inv h'" using assms(1) by (auto simp: hub_inv_def chans_ok_def h'_def)
  show "sconn (subs h' i) = sconn (subs h i)" by (simp add: h'_def)
qed

lemma leave_some_inv:
  "hub_inv h \<Longrightarrow> registered h i \<Longrightarrow>
   let h' = fold (\<lambda>c h. upd_sub (leave_channel h i c) i (\<lambda>s. s\<lparr>schans := removeAll c (schans s)\<rparr>)) cs h in
   hub_inv h' \<and> registered h' = registered h \<and> sconn (subs h' i) = sconn (subs h i)"
proof (induction cs arbitrary: h)
  case (Cons c cs)
  note L = leave_one_inv[OF Cons.prems refl, of c]
  have r: "registered (upd_sub (leave_channel h i c) i (\<lambda>s. s\<lparr>schans := removeAll c (schans s)\<rparr>)) i"
    using L(2) Cons.prems(2) by simp
  show ?case using Cons.IH[OF L(1) r] L(2,3) by (simp add: Let_def)
qed (simp add: Let_def)

lemma leave_all_inv:
  assumes "hub_inv h" "registered h i"
  assumes h'_def: "h' = upd_sub (leave_all h i) i (\<lambda>s. s\<lparr>schans := []\<rparr>)"
  shows "hub_inv h'" "registered h' = registered h"
proof -
  note L = leave_all_spec[OF hub_inv_chans[OF assms(1)], of i]
  have r: "registered h' j = registered h j" for j by (auto simp: registered_def h'_def L)
  then show "registered h' = registered h" by (simp add: fun_eq_iff)
  have rec: "set (recipients h' cn) = (if cn \<in> set (schans (subs h i)) then set (recipients h cn) - {i} else set (recipients h cn))" for cn
    by (simp add: h'_def L(6))
  have "j \<in> set (recipients h' cn) \<longleftrightarrow> registered h' j \<and> cn \<in> set (schans (subs h' j))" for j cn
    using assms(1) unfolding rec r by (auto simp: hub_inv_def h'_def L)
  moreover have "sub_ok h' j" for j using assms(1) r[of j] by (auto simp: hub_inv_def sub_ok_def h'_def L)
  moreover have "chans_ok h'" using L(1) by (simp add: h'_def)
  ultimately show "hub_inv h'" using assms(1) by (auto simp: hub_inv_def chans_ok_def h'_def L)
qed

lemma closeSub_bare:
  assumes "hub_inv h" "registered h i" "schans (subs h i) = []"
  shows "closeSub h i = Some (taken_out h i)"
  using assms by (auto simp: closeSub_def taken_out_def leave_all_def hub_inv_def sub_ok_def)

lemma unsubscribe_safe:
  assumes "hub_inv h"
  shows "\<exists>h'. unsubscribe h conn chans = Some h' \<and> hub_inv h'"
proof (cases "map_of (subscribers h) conn")
  case (Some i)
  note R = registered_conn[OF assms Some]
  define h1 where "h1 = (if chans = [] then upd_sub (leave_all h i) i (\<lambda>s. s\<lparr>schans := []\<rparr>)
     else fold (\<lambda>c h. upd_sub (leave_channel h i c) i (\<lambda>s. s\<lparr>schans := removeAll c (schans s)\<rparr>)) chans h)"
  have h1: "hub_inv h1" "registered h1 i"
    using leave_all_inv[OF assms _ refl] leave_some_inv[OF assms, of i chans] R by (auto simp: h1_def Let_def)
  have "unsubscribe h conn chans = (if schans (subs h1 i) = [] then closeSub h1 i else Some h1)"
    using Some by (simp add: unsubscribe_def h1_def Let_def)
  then show ?thesis using closeSub_bare[OF h1] taken_out_inv(1)[OF h1] h1 by auto
qed (use assms in \<open>simp add: unsubscribe_def\<close>)

lemma removeConn_safe: "hub_inv h \<Longrightarrow> \<exists>h'. removeConn h conn = Some h' \<and> hub_inv h' \<and> \<not> isSubscriber h' conn"
proof (cases "map_of (subscribers h) conn")
  case (Some i)
  assume h: "hub_inv h"
  note R = registered_conn[OF h Some] and L = leave_all_spec[OF hub_inv_chans[OF h], of i]
  have "removeConn h conn = Some (taken_out h i)"
    using R h Some L by (auto simp: removeConn_def closeSub_def taken_out_def hub_inv_def sub_ok_def)
  moreover have "\<not> isSubscriber (taken_out h i) conn" using R by (simp add: isSubscriber_def taken_out_def)
  ultimately show ?thesis using taken_out_inv(1)[OF h] R by blast
qed (simp add: removeConn_def isSubscriber_def)

lemma send_safe: "hub_inv h \<Longrightarrow> \<exists>b h'. send h conn v = Some (b, h') \<and> hub_inv h'"
proof (cases "map_of (subscribers h) conn")
  case (Some i)
  assume h: "hub_inv h"
  have r: "registered h i" using registered_conn[OF h Some] by simp
  obtain h' where "offer h i v = Some (room h i, h')" "hub_inv h'" using offer_spec[OF h r] by metis
  then show ?thesis using Some by (simp add: send_def)
qed (auto simp: send_def)

lemma recipients_facts: "hub_inv h \<Longrightarrow> distinct (recipients h cn) \<and> (\<forall>i \<in> set (recipients h cn). registered h i)"
  by (auto simp: hub_inv_def recipients_def split: option.splits)

lemma publish_safe: "hub_inv h \<Longrightarrow> \<exists>n h'. publish h cn m = Some (n, h') \<and> hub_inv h'"
  using deliver_spec[of h "recipients h cn" "publish_msg cn m" 0] recipients_facts[of h cn] by (auto simp: publish_def)

lemma handle_safe:
  assumes "hub_inv h"
  shows "\<exists>h'. handleSubscriberCommand h conn cmd args = Some h' \<and> hub_inv h'"
proof -
  have s': "\<exists>h''. after_send (send h' conn v) = Some h'' \<and> hub_inv h''" if "hub_inv h'" for h' v
    using send_safe[OF that, of conn v] by (auto simp: after_send_def)
  show ?thesis
  proof (cases "cmd = ''UNSUBSCRIBE''")
    case True
    obtain h1 where "after_send (send h conn (vsimple ''OK'')) = Some h1" "hub_inv h1" using s'[OF assms] by blast
    then show ?thesis using True unsubscribe_safe[of h1 conn args] by (simp add: handleSubscriberCommand_def)
  next
    case nu: False
    show ?thesis
    proof (cases "cmd = ''PUBLISH'' \<and> \<not> length args < 2")
      case True
      obtain n h1 where "publish h (args ! 0) (args ! 1) = Some (n, h1)" "hub_inv h1" using publish_safe[OF assms] by blast
      then show ?thesis using True s'[of h1 "vint (int n)"] by (simp add: handleSubscriberCommand_def)
    qed (use nu assms s' subscribe_safe[OF assms] in \<open>auto simp: handleSubscriberCommand_def\<close>)
  qed
qed

text \<open>Publishers that still hold a subscriber whose connection has none: the messages pile up in its
  channel until it is full, and then are dropped.\<close>

lemma deliver_gone:
  assumes "hub_inv g" "map_of (subscribers g) (sconn (subs g i)) = None"
  shows "\<exists>n' g'. deliver g (replicate k i) m n0 = Some (n', g') \<and> hub_inv g' \<and> subscribers g' = subscribers g \<and>
      nextSub g' = nextSub g \<and> sconn (subs g' i) = sconn (subs g i) \<and> sdone (subs g' i) = sdone (subs g i) \<and>
      min maxBuffer (length (sch (subs g i)) + k) \<le> length (sch (subs g' i))"
  using assms
proof (induction k arbitrary: g n0)
  case (Suc k)
  show ?case
  proof (cases "room g i")
    case True
    let ?g1 = "upd_sub g i (\<lambda>s. s\<lparr>sch := sch s @ [m]\<rparr>)"
    show ?thesis using Suc.IH[of ?g1 "n0 + 1"] enqueue_inv(1)[OF Suc.prems(1) True] Suc.prems offer_room[OF True, of m] by auto
  next
    case False
    then have "offer g i m = Some (False, g)"
      using Suc.prems by (simp add: offer_def room_def disconnectSlow_def)
    then show ?thesis using Suc.IH[of g n0] Suc.prems False by (auto simp: room_def)
  qed
qed auto

section \<open>Properties\<close>

text \<open>C18: the hub's maps never come apart: the subscribers of a channel are exactly the live
  subscribers that list it, each of a connection of its own, none of them done, and no channel is
  kept empty; subscribing, unsubscribing, publishing, answering a subscriber's command and removing a
  connection keep this and do not panic when none of them interferes with another. PUBLISH puts the
  message behind what each subscriber of the channel still has to get, answers how many got it, takes
  out just those whose buffer is full, and touches nobody else's queue. A removed connection is no
  subscriber any more.\<close>

theorem hub_correct:
  assumes "hub_inv h"
  shows "(\<exists>h'. subscribe h conn chans = Some h' \<and> hub_inv h') \<and> (\<exists>h'. unsubscribe h conn chans = Some h' \<and> hub_inv h') \<and>
    (\<exists>h'. removeConn h conn = Some h' \<and> hub_inv h' \<and> \<not> isSubscriber h' conn) \<and>
    (\<exists>h'. handleSubscriberCommand h conn cmd args = Some h' \<and> hub_inv h') \<and>
    (\<exists>h'. publish h cn m = Some (length (filter (room h) (recipients h cn)), h') \<and> hub_inv h' \<and>
      (\<forall>j. sch (subs h' j) = (if registered h j \<and> cn \<in> set (schans (subs h j)) \<and> room h j
         then sch (subs h j) @ [publish_msg cn m] else sch (subs h j))) \<and>
      (\<forall>j. registered h' j \<longleftrightarrow> registered h j \<and> (cn \<in> set (schans (subs h j)) \<longrightarrow> room h j)))"
proof (intro conjI)
  show "\<exists>h'. publish h cn m = Some (length (filter (room h) (recipients h cn)), h') \<and> hub_inv h' \<and>
      (\<forall>j. sch (subs h' j) = (if registered h j \<and> cn \<in> set (schans (subs h j)) \<and> room h j
         then sch (subs h j) @ [publish_msg cn m] else sch (subs h j))) \<and>
      (\<forall>j. registered h' j \<longleftrightarrow> registered h j \<and> (cn \<in> set (schans (subs h j)) \<longrightarrow> room h j))"
  proof -
    have mem: "j \<in> set (recipients h cn) \<longleftrightarrow> registered h j \<and> cn \<in> set (schans (subs h j))" for j
      using assms by (simp add: hub_inv_def)
    show ?thesis
      using deliver_spec[OF assms conjunct1[OF recipients_facts[OF assms]] conjunct2[OF recipients_facts[OF assms]],
          of cn "publish_msg cn m" 0]
      unfolding publish_def mem by auto
  qed
qed (use subscribe_safe unsubscribe_safe removeConn_safe handle_safe assms in blast)+

theorem hub_correct_witness:
  "hub_inv hub_new \<and> (\<exists>h'. publish hub_new ''c'' ''m'' = Some (0, h'))"
  using hub_correct[OF hub_inv_new, of 0 "[]" "[]" "[]" "''c''" "''m''"] hub_inv_new
  by (auto simp: recipients_def hub_new_def)

text \<open>a publisher that still holds a subscriber of before can bring the hub down.
  \<open>disconnectSlow\<close> checks that the connection has a subscriber, not that it is this one. A connection
  unsubscribes from its last channel and subscribes again, so the old subscriber is done; publishers
  that had taken it as a recipient fill its channel, which nobody drains any more; the next one tries
  to disconnect it, closes its closed \<open>done\<close> channel and panics while it holds the hub's mutex, which
  every command of every connection takes.\<close>

lemma stale_subscriber_panics:
  assumes "hub_inv h" "map_of (subscribers h) conn = Some i" "unsubscribe h conn [] = Some h1"
    and "deliver h1 (replicate maxBuffer i) m 0 = Some (n, h2)" "subscribe_locked h2 conn [c] = (i', msgs, h3)"
  shows "isSubscriber h3 conn \<and> i' \<noteq> i \<and> offer h3 i m = None"
proof -
  note R = registered_conn[OF assms(1,2)]
  let ?g = "upd_sub (leave_all h i) i (\<lambda>s. s\<lparr>schans := []\<rparr>)"
  note G = leave_all_inv[OF assms(1) conjunct1[OF R] refl]
  have ri: "registered ?g i" using G(2) R by simp
  have "unsubscribe h conn [] = closeSub ?g i" using assms(2) by (simp add: unsubscribe_def)
  then have h1: "h1 = taken_out ?g i" using closeSub_bare[OF G(1) ri] assms(3) by simp
  note T = taken_out_inv[OF G(1) ri, folded h1]
  have gone: "map_of (subscribers h1) conn = None"
    using R leave_all_spec[OF hub_inv_chans[OF assms(1)], of i] by (simp add: h1 taken_out_def)
  have c1: "sconn (subs h1 i) = conn" "sdone (subs h1 i)" "i < nextSub h1"
    using R T(6)[of i] leave_all_spec[OF hub_inv_chans[OF assms(1)], of i] leave_all_spec[OF hub_inv_chans[OF G(1)], of i] assms(1)
    by (auto simp: h1 taken_out_def hub_inv_def sub_ok_def)
  have h2: "hub_inv h2" "subscribers h2 = subscribers h1" "nextSub h2 = nextSub h1" "sconn (subs h2 i) = conn"
    "sdone (subs h2 i)" "maxBuffer \<le> length (sch (subs h2 i))"
    using deliver_gone[OF T(1), of i maxBuffer m 0] gone c1 assms(4) by auto
  note S = subscribe_locked_spec[OF h2(1) assms(5)]
  have new: "i' = nextSub h2" using S(7) gone h2(2) by simp
  then have ne: "i' \<noteq> i" using c1(3) h2(3) by simp
  have reg3: "map_of (subscribers h3) conn = Some i'" using S(2,3) by (simp add: registered_def)
  have same: "subs h3 i = subs h2 i" using S(6)[of i] ne by auto
  note L = leave_all_spec[OF hub_inv_chans[OF S(1)], of i]
  have "offer h3 i m = None"
    using same h2(4-6) reg3 L by (simp add: offer_def disconnectSlow_def Let_def)
  then show ?thesis using reg3 ne by (simp add: isSubscriber_def)
qed

lemma stale_subscriber_panics_witness:
  "\<exists>h3. hub_inv h3 \<and> isSubscriber h3 7 \<and> offer h3 0 vnull = None"
proof -
  obtain msgs h where a: "subscribe_locked hub_new 7 [''c''] = (0, msgs, h)"
    by (simp add: subscribe_locked_def getOrCreateSub_def hub_new_def Let_def)
  note A = subscribe_locked_spec[OF hub_inv_new a]
  have m: "map_of (subscribers h) 7 = Some 0" using A(2,3) by (simp add: registered_def)
  obtain h1 where h1: "unsubscribe h 7 [] = Some h1" "hub_inv h1" using unsubscribe_safe[OF A(1)] by blast
  have "map_of (subscribers h1) (sconn (subs h1 0)) = None"
    using h1(1) a by (auto simp: subscribe_locked_def getOrCreateSub_def hub_new_def unsubscribe_def join_def
        leave_all_def leave_channel_def closeSub_def Let_def List.insert_def update_conv)
  from deliver_gone[OF h1(2) this, of maxBuffer vnull 0]
  obtain n h2 where h2: "deliver h1 (replicate maxBuffer 0) vnull 0 = Some (n, h2)" "hub_inv h2" by blast
  obtain i' msgs' h3 where h3: "subscribe_locked h2 7 [''d''] = (i', msgs', h3)" by (metis prod_cases3)
  show ?thesis
    using stale_subscriber_panics[OF A(1) m h1(1) h2(1) h3] subscribe_locked_spec(1)[OF h2(2) h3] by blast
qed

end
