(* ===== verification/ConnBuf.thy ===== *)
theory ConnBuf
  imports Resp
begin

text \<open>
  The connection buffer and its parser: \<open>internal/server/connbuf.go\<close>, and the reading loop of
  \<open>serve\<close> in \<open>server.go\<close>. The buffer is its array with the read and write positions; what has arrived
  and is not parsed is \<open>unread\<close>. The slices a parsed command consists of are copied out at once, as
  the handlers use them before the next read. A panic is a result of its own.
\<close>

section \<open>State\<close>

definition initialReadBuf :: nat where "initialReadBuf = 4096"
definition shrinkReadBuf :: nat where "shrinkReadBuf = 1048576"
definition readSlack :: nat where "readSlack = 65536"
definition maxArgs :: nat where "maxArgs = 2048"
definition maxBulkSize :: nat where "maxBulkSize = 512 * 1024 * 1024"
definition maxRbufSize :: nat where "maxRbufSize = maxBulkSize + readSlack"

record connbuf =
  rbuf :: bytes
  rpos :: nat
  rend :: nat
  protoErr :: bool
  wbuf :: bytes

definition cb_new :: connbuf where
  "cb_new = \<lparr>rbuf = replicate initialReadBuf (CHR 0x00), rpos = 0, rend = 0, protoErr = False, wbuf = []\<rparr>"

definition unread :: "connbuf \<Rightarrow> bytes" where
  "unread cb = take (rend cb - rpos cb) (drop (rpos cb) (rbuf cb))"

section \<open>Reading\<close>

definition ensureSpace :: "connbuf \<Rightarrow> bool \<times> connbuf" where
  "ensureSpace cb =
     (if rend cb < length (rbuf cb) then (True, cb)
      else if length (rbuf cb) \<ge> maxRbufSize then (False, cb\<lparr>protoErr := True\<rparr>)
      else
        let newSize = (if length (rbuf cb) * 2 > maxRbufSize then maxRbufSize else length (rbuf cb) * 2) in
        (True, cb\<lparr>rbuf := rbuf cb @ replicate (newSize - length (rbuf cb)) (CHR 0x00)\<rparr>))"

definition compact :: "connbuf \<Rightarrow> connbuf" where
  "compact cb =
     (if rpos cb = 0 then cb
      else if rpos cb = rend cb then
        cb\<lparr>rpos := 0, rend := 0,
           rbuf := (if length (rbuf cb) > shrinkReadBuf then replicate initialReadBuf (CHR 0x00) else rbuf cb)\<rparr>
      else
        let n = rend cb - rpos cb in
        cb\<lparr>rbuf := unread cb @ drop n (rbuf cb), rpos := 0, rend := n\<rparr>)"

text \<open>\<open>ReadFromConn\<close> and \<open>TryRead\<close> differ in whether they wait: both read at most what fits. \<open>inp\<close> is
  what is there to read and \<open>k\<close> how much the operating system gives of it; the second result is what
  is left.\<close>

definition readFromConn :: "connbuf \<Rightarrow> nat \<Rightarrow> bytes \<Rightarrow> nat \<times> bytes \<times> connbuf" where
  "readFromConn cb k inp =
     (case ensureSpace (compact cb) of
        (False, cb1) \<Rightarrow> (0, inp, cb1)
      | (True, cb1) \<Rightarrow>
          let n = min k (min (length inp) (length (rbuf cb1) - rend cb1)) in
          (n, drop n inp,
           cb1\<lparr>rbuf := take (rend cb1) (rbuf cb1) @ take n inp @ drop (rend cb1 + n) (rbuf cb1), rend := rend cb1 + n\<rparr>))"

section \<open>Parsing\<close>

definition peekLine :: "connbuf \<Rightarrow> bytes option" where
  "peekLine cb =
     (let data = unread cb; idx = length (takeWhile (\<lambda>c. c \<noteq> LF) data) in
      if idx = length data then None
      else if idx < 1 then None
      else if data ! (idx - 1) \<noteq> CHR 0x0D then None
      else Some (take (idx - 1) data))"

definition maxInt :: int where "maxInt = 2 ^ 63 - 1"

fun parse_int_loop :: "bytes \<Rightarrow> int \<Rightarrow> int option" where
  "parse_int_loop [] n = Some n"
| "parse_int_loop (c # cs) n =
     (if \<not> is_digit c then None
      else if n > (maxInt - int (digit_val c)) div 10 then None
      else parse_int_loop cs (n * 10 + int (digit_val c)))"

definition parseIntBytes :: "bytes \<Rightarrow> int option" where
  "parseIntBytes b =
     (case b of
        [] \<Rightarrow> None
      | c # cs \<Rightarrow>
          if c = CHR ''-'' then
            (if cs = [] then None else map_option uminus (parse_int_loop cs 0))
          else parse_int_loop b 0)"

definition skip_line :: "connbuf \<Rightarrow> bytes \<Rightarrow> connbuf" where
  "skip_line cb line = cb\<lparr>rpos := rpos cb + (length line + 2)\<rparr>"

definition parseBulkString :: "connbuf \<Rightarrow> bytes option \<times> connbuf" where
  "parseBulkString cb =
     (case peekLine cb of
        None \<Rightarrow> (None, cb)
      | Some line \<Rightarrow>
          let cb1 = skip_line cb line in
          (case parseIntBytes (tl line) of
             None \<Rightarrow> (None, cb1\<lparr>protoErr := True\<rparr>)
           | Some sz \<Rightarrow>
               if sz < 0 then (if sz = - 1 then (Some [], cb1) else (None, cb1\<lparr>protoErr := True\<rparr>))
               else if sz > int maxBulkSize then (None, cb1\<lparr>protoErr := True\<rparr>)
               else
                 let end' = rpos cb1 + nat sz + 2 in
                 if end' > rend cb1 then (None, cb1)
                 else (Some (take (nat sz) (drop (rpos cb1) (rbuf cb1))), cb1\<lparr>rpos := end'\<rparr>)))"

datatype presult = PPanic | PNil | PArgs "bytes list"

text \<open>The loop of \<open>parseArray\<close>. An element that is not a bulk string is a line without its first byte;
  slicing an empty line panics.\<close>

fun parse_elems :: "nat \<Rightarrow> connbuf \<Rightarrow> bytes list \<Rightarrow> presult \<times> connbuf" where
  "parse_elems 0 cb args = (PArgs args, cb)"
| "parse_elems (Suc n) cb args =
     (if rpos cb \<ge> rend cb then (PNil, cb)
      else if rbuf cb ! rpos cb = CHR ''$'' then
        (case parseBulkString cb of
           (None, cb1) \<Rightarrow> (PNil, cb1)
         | (Some arg, cb1) \<Rightarrow> parse_elems n cb1 (args @ [arg]))
      else
        (case peekLine cb of
           None \<Rightarrow> (PNil, cb)
         | Some line \<Rightarrow>
             if line = [] then (PPanic, skip_line cb line)
             else parse_elems n (skip_line cb line) (args @ [tl line])))"

definition parseArray :: "connbuf \<Rightarrow> presult \<times> connbuf" where
  "parseArray cb =
     (case peekLine cb of
        None \<Rightarrow> (PNil, cb)
      | Some line \<Rightarrow>
          let cb1 = skip_line cb line in
          (case parseIntBytes (tl line) of
             None \<Rightarrow> (PNil, cb1\<lparr>protoErr := True\<rparr>)
           | Some cnt \<Rightarrow>
               if cnt > int maxArgs then (PNil, cb1\<lparr>protoErr := True\<rparr>)
               else if cnt \<le> 0 then (PNil, cb1)
               else parse_elems (nat cnt) cb1 []))"

text \<open>Words between blanks, at most \<open>maxArgs\<close> of them.\<close>

fun split_line :: "bytes \<Rightarrow> bytes \<Rightarrow> bytes list \<Rightarrow> bytes list" where
  "split_line [] word args = (if word \<noteq> [] \<and> length args < maxArgs then args @ [word] else args)"
| "split_line (c # cs) word args =
     (if c = CHR '' '' then split_line cs [] (if word \<noteq> [] \<and> length args < maxArgs then args @ [word] else args)
      else split_line cs (word @ [c]) args)"

definition parseInline :: "connbuf \<Rightarrow> presult \<times> connbuf" where
  "parseInline cb =
     (case peekLine cb of
        None \<Rightarrow> (PNil, cb)
      | Some line \<Rightarrow> (PArgs (split_line line [] []), skip_line cb line))"

definition parseCommand :: "connbuf \<Rightarrow> presult \<times> connbuf" where
  "parseCommand cb =
     (if rpos cb \<ge> rend cb then (PNil, cb)
      else
        case (if rbuf cb ! rpos cb = CHR ''*'' then parseArray cb else parseInline cb) of
          (PNil, cb1) \<Rightarrow> (PNil, cb1\<lparr>rpos := rpos cb\<rparr>)
        | (r, cb1) \<Rightarrow> (r, cb1))"

section \<open>Writing\<close>

definition put :: "connbuf \<Rightarrow> bytes \<Rightarrow> connbuf" where
  "put cb bs = cb\<lparr>wbuf := wbuf cb @ bs\<rparr>"

definition writeSimpleString :: "connbuf \<Rightarrow> string \<Rightarrow> connbuf" where
  "writeSimpleString cb msg = put (put (put cb ''+'') msg) crlf"

definition writeError :: "connbuf \<Rightarrow> string \<Rightarrow> connbuf" where
  "writeError cb msg = put (put (put cb ''-'') msg) crlf"

definition writeInt :: "connbuf \<Rightarrow> int \<Rightarrow> connbuf" where
  "writeInt cb n = put (put (put cb '':'') (itoa n)) crlf"

definition writeBulk :: "connbuf \<Rightarrow> bytes \<Rightarrow> connbuf" where
  "writeBulk cb data = put (put (put (put (put cb ''$'') (itoa (int (length data)))) crlf) data) crlf"

definition writeNull :: "connbuf \<Rightarrow> connbuf" where
  "writeNull cb = put cb (''$-1'' @ crlf)"

definition writeArrayHeader :: "connbuf \<Rightarrow> nat \<Rightarrow> connbuf" where
  "writeArrayHeader cb n = put (put (put cb ''*'') (itoa (int n))) crlf"

text \<open>\<open>Flush\<close>: the bytes go to the connection, the buffer is empty whatever becomes of them.\<close>

definition flush_out :: "connbuf \<Rightarrow> bytes \<times> connbuf" where
  "flush_out cb = (wbuf cb, cb\<lparr>wbuf := []\<rparr>)"

section \<open>Serving\<close>

text \<open>The parsing loop of \<open>serve\<close>: commands until none is complete. The result holds the commands,
  whether a panic ended the loop, and the buffer. The read position grows with every command
  (lemma \<open>parse_progress\<close>), so the loop ends; the test of it here is never false.\<close>

function drain :: "connbuf \<Rightarrow> bytes list list \<times> bool \<times> connbuf" where
  "drain cb =
     (case parseCommand cb of
        (PPanic, cb1) \<Rightarrow> ([], True, cb1)
      | (PNil, cb1) \<Rightarrow> ([], False, cb1)
      | (PArgs args, cb1) \<Rightarrow>
          if rend cb1 = rend cb \<and> rpos cb < rpos cb1 \<and> rpos cb < rend cb then
            (case drain cb1 of (cs, p, cb2) \<Rightarrow> (args # cs, p, cb2))
          else ([args], False, cb1))"
  by pat_completeness auto
termination by (relation "measure (\<lambda>cb. rend cb - rpos cb)") auto

declare drain.simps [simp del]

text \<open>The reads of one connection, each followed by the parsing loop: \<open>ks\<close> is how much the operating
  system gives at each read. The loop stops at a protocol error or a panic.\<close>

fun serve_reads :: "nat list \<Rightarrow> bytes \<Rightarrow> connbuf \<Rightarrow> bytes list list \<times> bool \<times> bytes \<times> connbuf" where
  "serve_reads [] inp cb = ([], False, inp, cb)"
| "serve_reads (k # ks) inp cb =
     (case readFromConn cb k inp of
        (n, inp1, cb1) \<Rightarrow>
          if protoErr cb1 then ([], False, inp1, cb1)
          else if n = 0 then serve_reads ks inp1 cb1
          else case drain cb1 of
            (cs, p, cb2) \<Rightarrow>
              if p \<or> protoErr cb2 then (cs, p, inp1, cb2)
              else case serve_reads ks inp1 cb2 of (cs', p', r) \<Rightarrow> (cs @ cs', p', r))"

section \<open>The buffer in bounds\<close>

definition cb_ok :: "connbuf \<Rightarrow> bool" where
  "cb_ok cb \<longleftrightarrow> rpos cb \<le> rend cb \<and> rend cb \<le> length (rbuf cb) \<and> initialReadBuf \<le> length (rbuf cb) \<and>
     length (rbuf cb) \<le> maxRbufSize"

lemma cb_ok_new: "cb_ok cb_new" and unread_new: "unread cb_new = []"
  by (simp_all add: cb_ok_def cb_new_def initialReadBuf_def maxRbufSize_def maxBulkSize_def readSlack_def unread_def)

lemma unread_length: "cb_ok cb \<Longrightarrow> length (unread cb) = rend cb - rpos cb"
  by (auto simp: cb_ok_def unread_def min_def)

lemma unread_nil: "cb_ok cb \<Longrightarrow> unread cb = [] \<longleftrightarrow> rpos cb \<ge> rend cb"
  using unread_length[of cb] by (metis diff_is_0_eq length_0_conv)

lemma unread_hd: "cb_ok cb \<Longrightarrow> rpos cb < rend cb \<Longrightarrow> rbuf cb ! rpos cb = hd (unread cb)"
  by (simp add: cb_ok_def unread_def hd_drop_conv_nth)

lemma unread_proto [simp]: "unread (cb\<lparr>protoErr := b\<rparr>) = unread cb" "cb_ok (cb\<lparr>protoErr := b\<rparr>) = cb_ok cb"
  by (simp_all add: unread_def cb_ok_def)

text \<open>Moving the read position.\<close>

definition advance :: "connbuf \<Rightarrow> nat \<Rightarrow> connbuf" where
  "advance cb k = cb\<lparr>rpos := rpos cb + k\<rparr>"

lemma skip_line_advance: "skip_line cb line = advance cb (length line + 2)"
  by (simp add: skip_line_def advance_def)

lemma advance_ok: "cb_ok cb \<Longrightarrow> k \<le> length (unread cb) \<Longrightarrow> cb_ok (advance cb k)"
  using unread_length[of cb] by (auto simp: cb_ok_def advance_def)

lemma unread_advance: "unread (advance cb k) = drop k (unread cb)"
  by (simp add: unread_def advance_def drop_take add.commute)

lemma advance_sel [simp]: "rbuf (advance cb k) = rbuf cb" "rend (advance cb k) = rend cb" "rpos (advance cb k) = rpos cb + k"
  "protoErr (advance cb k) = protoErr cb"
  by (simp_all add: advance_def)

lemma advance_advance [simp]: "advance (advance cb j) k = advance cb (j + k)"
  by (simp add: advance_def)

lemma peekLine_length: "peekLine cb = Some line \<Longrightarrow> length line + 2 \<le> length (unread cb)"
proof -
  assume p: "peekLine cb = Some line"
  define i where "i = length (takeWhile (\<lambda>c. c \<noteq> LF) (unread cb))"
  have "i \<noteq> length (unread cb)" "\<not> i < 1" "line = take (i - 1) (unread cb)"
    using p unfolding peekLine_def Let_def i_def[symmetric] by (auto split: if_splits)
  moreover have "i \<le> length (unread cb)" unfolding i_def by (rule length_takeWhile_le)
  ultimately show ?thesis by simp
qed

text \<open>Every parser only moves the read position, within what is unread, and may report a protocol
  error.\<close>

definition moves :: "connbuf \<Rightarrow> connbuf \<Rightarrow> bool" where
  "moves cb cb' \<longleftrightarrow> (\<exists>k b. k \<le> length (unread cb) \<and> cb' = (advance cb k)\<lparr>protoErr := b\<rparr> \<and> (protoErr cb \<longrightarrow> b))"

lemma moves_refl [simp]: "moves cb cb"
  by (auto simp: moves_def advance_def intro!: exI[of _ 0] exI[of _ "protoErr cb"])

lemma moves_trans: "moves cb cb1 \<Longrightarrow> moves cb1 cb2 \<Longrightarrow> moves cb cb2"
proof -
  assume "moves cb cb1" "moves cb1 cb2"
  then obtain k b k' b' where h: "k \<le> length (unread cb)" "cb1 = (advance cb k)\<lparr>protoErr := b\<rparr>" "protoErr cb \<longrightarrow> b"
    "k' \<le> length (unread cb1)" "cb2 = (advance cb1 k')\<lparr>protoErr := b'\<rparr>" "protoErr cb1 \<longrightarrow> b'"
    by (auto simp: moves_def)
  have "cb2 = (advance cb (k + k'))\<lparr>protoErr := b'\<rparr>" using h by (simp add: advance_def)
  moreover have "k + k' \<le> length (unread cb)" using h by (simp add: unread_advance)
  ultimately show ?thesis using h unfolding moves_def by (metis connbuf.select_convs(4) connbuf.surjective connbuf.update_convs(4))
qed

lemma moves_ok: "moves cb cb' \<Longrightarrow> cb_ok cb \<Longrightarrow> cb_ok cb'"
  by (auto simp: moves_def advance_ok)

lemma moves_advance: "k \<le> length (unread cb) \<Longrightarrow> moves cb (advance cb k)"
  unfolding moves_def by (intro exI[of _ k] exI[of _ "protoErr cb"]) (simp add: advance_def)

lemma moves_err: "moves cb cb' \<Longrightarrow> moves cb (cb'\<lparr>protoErr := True\<rparr>)"
proof -
  assume "moves cb cb'"
  then obtain k b where "k \<le> length (unread cb)" "cb' = (advance cb k)\<lparr>protoErr := b\<rparr>" by (auto simp: moves_def)
  then show ?thesis unfolding moves_def by (intro exI[of _ k] exI[of _ True]) simp
qed

lemma moves_line: "peekLine cb = Some line \<Longrightarrow> moves cb (skip_line cb line)"
  unfolding skip_line_advance by (rule moves_advance[OF peekLine_length])

lemma bulk_moves: "cb_ok cb \<Longrightarrow> moves cb (snd (parseBulkString cb))"
proof (cases "peekLine cb")
  case (Some line)
  assume ok: "cb_ok cb"
  have m: "moves cb (skip_line cb line)" by (rule moves_line[OF Some])
  have "moves (skip_line cb line) ((skip_line cb line)\<lparr>rpos := rpos (skip_line cb line) + j + 2\<rparr>)"
    if "\<not> rpos (skip_line cb line) + j + 2 > rend (skip_line cb line)" for j
    using moves_advance[of "j + 2" "skip_line cb line"] unread_length[OF moves_ok[OF m ok]] that
    by (simp add: advance_def add.assoc)
  then show ?thesis using Some m moves_err[OF m] moves_trans[OF m]
    by (auto simp: parseBulkString_def Let_def split: option.splits)
qed (simp add: parseBulkString_def)

lemma elems_moves: "cb_ok cb \<Longrightarrow> moves cb (snd (parse_elems n cb args))"
proof (induction n arbitrary: cb args)
  case (Suc n)
  note b = bulk_moves[OF Suc.prems]
  show ?case
    using Suc b moves_trans[OF b] moves_ok[OF b] moves_line[of cb] moves_trans[OF moves_line] moves_ok[OF moves_line]
    by (auto split: option.splits prod.splits)
qed simp

lemma array_moves: "cb_ok cb \<Longrightarrow> moves cb (snd (parseArray cb))"
  using elems_moves moves_trans[OF moves_line] moves_ok[OF moves_line] moves_err[OF moves_line] moves_line
  by (auto simp: parseArray_def Let_def split: option.splits)

lemma inline_moves: "moves cb (snd (parseInline cb))"
  using moves_line by (auto simp: parseInline_def split: option.splits)

lemma moves_sel: "moves cb cb' \<Longrightarrow> rend cb' = rend cb \<and> rbuf cb' = rbuf cb \<and> rpos cb \<le> rpos cb' \<and> (protoErr cb \<longrightarrow> protoErr cb')"
  by (auto simp: moves_def)

lemma parse_moves: "cb_ok cb \<Longrightarrow> moves cb (snd (parseCommand cb))"
proof -
  assume ok: "cb_ok cb"
  have rewind: "moves cb (cb1\<lparr>rpos := rpos cb\<rparr>)" if m: "moves cb cb1" for cb1
  proof -
    obtain k b where h: "cb1 = (advance cb k)\<lparr>protoErr := b\<rparr>" "protoErr cb \<longrightarrow> b" using m by (auto simp: moves_def)
    show ?thesis unfolding moves_def by (intro exI[of _ 0] exI[of _ b]) (use h in \<open>simp add: advance_def\<close>)
  qed
  obtain r cb1 where p: "(if rbuf cb ! rpos cb = CHR ''*'' then parseArray cb else parseInline cb) = (r, cb1)" by fastforce
  have "moves cb cb1" using p array_moves[OF ok] inline_moves[of cb] by (metis snd_conv)
  then show ?thesis using rewind p by (cases r) (simp_all add: parseCommand_def)
qed

lemma parse_progress:
  assumes ok: "cb_ok cb" and p: "parseCommand cb = (PArgs args, cb1)"
  shows "rpos cb < rpos cb1" "rpos cb < rend cb" "rend cb1 = rend cb"
proof -
  have lt: "\<not> rpos cb \<ge> rend cb" using p by (auto simp: parseCommand_def)
  then show "rpos cb < rend cb" by simp
  show "rend cb1 = rend cb" using moves_sel[OF parse_moves[OF ok]] p by simp
  have elems: "rpos cb < rpos cb'" if "peekLine cb = Some line" "parse_elems n (skip_line cb line) [] = (r, cb')" for line n r cb'
    using moves_sel[OF elems_moves[OF moves_ok[OF moves_line[OF that(1)] ok], of n "[]"]] that(2)
    by (simp add: skip_line_advance)
  have "rpos cb < rpos cb1" if "parseArray cb = (PArgs args, cb1)"
    using that elems by (auto simp: parseArray_def Let_def split: option.splits if_splits)
  moreover have "rpos cb < rpos cb1" if "parseInline cb = (PArgs args, cb1)"
    using that by (auto simp: parseInline_def skip_line_advance split: option.splits)
  ultimately show "rpos cb < rpos cb1" using p lt
    by (auto simp: parseCommand_def split: if_splits prod.splits presult.splits)
qed

lemma drain_eq:
  "cb_ok cb \<Longrightarrow> drain cb =
     (case parseCommand cb of
        (PPanic, cb1) \<Rightarrow> ([], True, cb1)
      | (PNil, cb1) \<Rightarrow> ([], False, cb1)
      | (PArgs args, cb1) \<Rightarrow> (case drain cb1 of (cs, p, cb2) \<Rightarrow> (args # cs, p, cb2)))"
  by (subst drain.simps) (auto split: prod.splits presult.splits dest: parse_progress)

section \<open>Whole and partial commands\<close>

definition bulk :: "bytes \<Rightarrow> bytes" where
  "bulk a = marshal (vbulk a)"

definition enc_cmd :: "bytes list \<Rightarrow> bytes" where
  "enc_cmd args = marshal (varray (map vbulk args))"

definition cmd_fits :: "bytes list \<Rightarrow> bool" where
  "cmd_fits args \<longleftrightarrow> args \<noteq> [] \<and> length args \<le> maxArgs \<and> (\<forall>a \<in> set args. length a \<le> maxBulkSize)"

lemma bulk_eq: "bulk a = (CHR ''$'' # itoa (int (length a))) @ crlf @ a @ crlf"
  by (simp add: bulk_def vbulk_def marshalBulkString_def)

lemma enc_cmd_eq: "enc_cmd args = (CHR ''*'' # itoa (int (length args))) @ crlf @ concat (map bulk args)"
  by (simp add: enc_cmd_def varray_def bulk_def[abs_def] comp_def)

lemma peek_line: "unread cb = l @ crlf @ r \<Longrightarrow> no_LF l \<Longrightarrow> peekLine cb = Some l"
proof -
  assume u: "unread cb = l @ crlf @ r" and l: "no_LF l"
  have cr: "CHR 0x0D \<noteq> LF" by (simp add: LF_def)
  have t: "takeWhile (\<lambda>c. c \<noteq> LF) (l @ crlf @ r) = l @ [CHR 0x0D]"
    using l cr by (subst takeWhile_append2) (auto simp: no_LF_def crlf_def LF_def)
  show ?thesis unfolding peekLine_def Let_def u t by (simp add: nth_append crlf_def)
qed

lemma peek_none: "no_LF (unread cb) \<Longrightarrow> peekLine cb = None"
proof -
  assume "no_LF (unread cb)"
  then have "takeWhile (\<lambda>c. c \<noteq> LF) (unread cb) = unread cb" by (auto simp: no_LF_def takeWhile_eq_all_conv)
  then show ?thesis unfolding peekLine_def Let_def by (simp only: refl if_True)
qed

lemma parse_int_loop_digits:
  "\<forall>c \<in> set ds. is_digit c \<Longrightarrow> 0 \<le> n \<Longrightarrow> int (fold (\<lambda>c n. 10 * n + digit_val c) ds (nat n)) \<le> maxInt \<Longrightarrow>
   parse_int_loop ds n = Some (int (fold (\<lambda>c n. 10 * n + digit_val c) ds (nat n)))"
proof (induction ds arbitrary: n)
  case (Cons c cs)
  let ?f = "fold (\<lambda>c n. 10 * n + digit_val c)"
  have mono: "m \<le> ?f xs m" for xs m
  proof (induction xs arbitrary: m)
    case (Cons x xs)
    have "m \<le> 10 * m + digit_val x" by simp
    also have "\<dots> \<le> ?f xs (10 * m + digit_val x)" by (rule Cons.IH)
    finally show ?case by simp
  qed simp
  have e: "nat (n * 10 + int (digit_val c)) = 10 * nat n + digit_val c" using Cons.prems(2) by (simp add: nat_add_distrib nat_mult_distrib)
  have "int (10 * nat n + digit_val c) \<le> int (?f cs (10 * nat n + digit_val c))" using mono by (simp only: of_nat_le_iff)
  also have "\<dots> \<le> maxInt" using Cons.prems(3) by simp
  finally have "n * 10 + int (digit_val c) \<le> maxInt" using Cons.prems(2) by simp
  then have "n \<le> (maxInt - int (digit_val c)) div 10" by linarith
  then show ?case using Cons e by simp
qed simp

lemma parseIntBytes_itoa: "0 \<le> n \<Longrightarrow> n \<le> maxInt \<Longrightarrow> parseIntBytes (itoa n) = Some n"
proof -
  assume n: "0 \<le> n" "n \<le> maxInt"
  obtain c r where d: "digits (nat n) = c # r" "is_digit c" using digits_head by blast
  have c: "c \<noteq> CHR ''-''" using d(2) by (auto simp: is_digit_def nat_of_byte_def)
  have "parse_int_loop (digits (nat n)) 0 = Some n"
    using parse_int_loop_digits[of "digits (nat n)" 0] digits_are[of _ "nat n"] digits_fold[of "nat n"] n by simp
  then show ?thesis using n c d by (simp add: itoa_def parseIntBytes_def)
qed

lemma dollar_line: "no_LF (c # itoa n) \<longleftrightarrow> c \<noteq> LF"
  using itoa_line(1)[of n] by (auto simp: no_LF_def)

lemma LF_chars [simp]: "CHR ''$'' \<noteq> LF" "CHR ''*'' \<noteq> LF"
  by (simp_all add: LF_def)

lemma fits_int: "int maxBulkSize \<le> maxInt" "int maxArgs \<le> int maxBulkSize"
  by (simp_all add: maxBulkSize_def maxInt_def maxArgs_def)

text \<open>A whole bulk string, and one cut short.\<close>

lemma bulk_whole:
  assumes ok: "cb_ok cb" and u: "unread cb = bulk a @ r" and a: "length a \<le> maxBulkSize"
  shows "parseBulkString cb = (Some a, advance cb (length (bulk a)))"
proof -
  let ?l = "CHR ''$'' # itoa (int (length a))"
  have l: "peekLine cb = Some ?l"
    by (rule peek_line[of _ _ "a @ crlf @ r"]) (simp_all add: u bulk_eq dollar_line)
  let ?cb1 = "advance cb (length ?l + 2)"
  have u1: "unread ?cb1 = a @ crlf @ r" by (simp add: unread_advance u bulk_eq crlf_def)
  have ok1: "cb_ok ?cb1" by (rule advance_ok[OF ok]) (simp add: u bulk_eq crlf_def)
  have p: "parseIntBytes (tl ?l) = Some (int (length a))"
    using parseIntBytes_itoa[of "int (length a)"] a fits_int by simp
  have len: "rend ?cb1 - rpos ?cb1 = length a + 2 + length r" using unread_length[OF ok1] u1 by (simp add: crlf_def)
  then have nb: "\<not> rpos ?cb1 + nat (int (length a)) + 2 > rend ?cb1" using ok1 by (auto simp: cb_ok_def)
  have "take (length a) (drop (rpos ?cb1) (rbuf ?cb1)) = take (length a) (unread ?cb1)"
    using len by (simp add: unread_def min_absorb1)
  then have d: "take (nat (int (length a))) (drop (rpos ?cb1) (rbuf ?cb1)) = a" using u1 by simp
  have e: "?cb1\<lparr>rpos := rpos ?cb1 + nat (int (length a)) + 2\<rparr> = advance cb (length (bulk a))"
    by (simp add: advance_def bulk_eq crlf_def)
  show ?thesis
    unfolding parseBulkString_def l option.case Let_def p skip_line_advance d e
    using nb a by simp
qed

lemma strict_prefix_cases:
  assumes "xs @ ys = u @ r" "r \<noteq> []"
  obtains (within) w where "xs = u @ w" "w \<noteq> []" | (beyond) w where "u = xs @ w" "ys = w @ r"
proof -
  consider w where "xs = u @ w" "w @ ys = r" | w where "u = xs @ w" "ys = w @ r"
    using assms(1) by (auto simp: append_eq_append_conv2)
  then show thesis
  proof cases
    case (1 w)
    then show thesis using within[of w] beyond[of "[]"] by (cases "w = []") auto
  qed (use beyond in blast)
qed

lemma line_prefix: "l @ crlf = u @ w \<Longrightarrow> w \<noteq> [] \<Longrightarrow> no_LF l \<Longrightarrow> no_LF u"
proof -
  assume h: "l @ crlf = u @ w" "w \<noteq> []" and l: "no_LF l"
  have "butlast (l @ crlf) = u @ butlast w" using h by (simp add: butlast_append)
  then have "l @ [CHR 0x0D] = u @ butlast w" by (simp add: crlf_def butlast_append)
  then have "set u \<subseteq> set (l @ [CHR 0x0D])" by (metis Un_upper1 set_append)
  moreover have "LF \<noteq> CHR 0x0D" by (simp add: LF_def)
  ultimately show "no_LF u" using l by (auto simp: no_LF_def)
qed

lemma bulk_cut:
  assumes ok: "cb_ok cb" and u: "bulk a = unread cb @ r" "r \<noteq> []" and a: "length a \<le> maxBulkSize"
  shows "\<exists>cb1. parseBulkString cb = (None, cb1) \<and> protoErr cb1 = protoErr cb"
proof -
  let ?l = "CHR ''$'' # itoa (int (length a))"
  have eq: "(?l @ crlf) @ a @ crlf = unread cb @ r" using u(1) by (simp add: bulk_eq)
  show ?thesis
  proof (cases rule: strict_prefix_cases[OF eq u(2)])
    case (1 w)
    have "no_LF (unread cb)" by (rule line_prefix[OF 1]) (simp add: dollar_line)
    then show ?thesis by (simp add: parseBulkString_def peek_none)
  next
    case (2 w)
    have l: "peekLine cb = Some ?l" by (rule peek_line[of _ _ w]) (simp_all add: 2(1) dollar_line)
    let ?cb1 = "advance cb (length ?l + 2)"
    have u1: "unread ?cb1 = w" by (simp add: unread_advance 2(1) crlf_def)
    have ok1: "cb_ok ?cb1" by (rule advance_ok[OF ok]) (simp add: 2(1) crlf_def)
    have p: "parseIntBytes (tl ?l) = Some (int (length a))"
      using parseIntBytes_itoa[of "int (length a)"] a fits_int by simp
    have "length w < length a + 2" using 2(2) u(2) by (metis crlf_def length_Cons length_append list.size(3) add.commute
        add_less_cancel_left length_greater_0_conv less_add_same_cancel1 numeral_2_eq_2 One_nat_def plus_1_eq_Suc)
    then have nb: "rpos ?cb1 + nat (int (length a)) + 2 > rend ?cb1" using unread_length[OF ok1] u1 ok1 by (auto simp: cb_ok_def)
    show ?thesis
      unfolding parseBulkString_def l option.case Let_def p skip_line_advance using nb a by simp
  qed
qed

lemma bulk_head: "bulk a \<noteq> []" "hd (bulk a @ r) = CHR ''$''"
  by (simp_all add: bulk_eq)

lemma elems_whole:
  "cb_ok cb \<Longrightarrow> unread cb = concat (map bulk as) @ r \<Longrightarrow> \<forall>a \<in> set as. length a \<le> maxBulkSize \<Longrightarrow>
   parse_elems (length as) cb acc = (PArgs (acc @ as), advance cb (length (concat (map bulk as))))"
proof (induction as arbitrary: cb acc)
  case Nil
  then show ?case by (simp add: advance_def)
next
  case (Cons a as)
  have u: "unread cb = bulk a @ (concat (map bulk as) @ r)" using Cons.prems(2) by simp
  have ne: "\<not> rpos cb \<ge> rend cb" using unread_nil[OF Cons.prems(1)] u bulk_head(1) by auto
  have hd: "rbuf cb ! rpos cb = CHR ''$''" using unread_hd[OF Cons.prems(1)] ne u bulk_head(2) by simp
  have b: "parseBulkString cb = (Some a, advance cb (length (bulk a)))"
    by (rule bulk_whole[OF Cons.prems(1) u]) (use Cons.prems(3) in simp)
  have ok1: "cb_ok (advance cb (length (bulk a)))" by (rule advance_ok[OF Cons.prems(1)]) (simp add: u)
  have "unread (advance cb (length (bulk a))) = concat (map bulk as) @ r" by (simp add: unread_advance u)
  from Cons.IH[OF ok1 this] Cons.prems(3) show ?case using ne hd b by simp
qed

lemma elems_cut:
  "cb_ok cb \<Longrightarrow> concat (map bulk as) = unread cb @ r \<Longrightarrow> r \<noteq> [] \<Longrightarrow> \<forall>a \<in> set as. length a \<le> maxBulkSize \<Longrightarrow>
   \<exists>cb1. parse_elems (length as) cb acc = (PNil, cb1) \<and> protoErr cb1 = protoErr cb"
proof (induction as arbitrary: cb acc)
  case (Cons a as)
  have eq: "bulk a @ concat (map bulk as) = unread cb @ r" using Cons.prems(2) by simp
  show ?case
  proof (cases "unread cb = []")
    case True
    then show ?thesis using unread_nil[OF Cons.prems(1)] by simp
  next
    case ne: False
    then have ne': "\<not> rpos cb \<ge> rend cb" using unread_nil[OF Cons.prems(1)] by auto
    have "hd (unread cb) = CHR ''$''" using eq ne bulk_head(2)[of a] by (metis hd_append2)
    then have hd: "rbuf cb ! rpos cb = CHR ''$''" using unread_hd[OF Cons.prems(1)] ne' by simp
    show ?thesis
    proof (cases rule: strict_prefix_cases[OF eq Cons.prems(3)])
      case (1 w)
      have "\<exists>cb1. parseBulkString cb = (None, cb1) \<and> protoErr cb1 = protoErr cb"
        by (rule bulk_cut[OF Cons.prems(1) 1]) (use Cons.prems(4) in simp)
      then show ?thesis using ne' hd by auto
    next
      case (2 w)
      have b: "parseBulkString cb = (Some a, advance cb (length (bulk a)))"
        by (rule bulk_whole[OF Cons.prems(1) 2(1)]) (use Cons.prems(4) in simp)
      have ok1: "cb_ok (advance cb (length (bulk a)))" by (rule advance_ok[OF Cons.prems(1)]) (simp add: 2(1))
      have "concat (map bulk as) = unread (advance cb (length (bulk a))) @ r" by (simp add: unread_advance 2)
      from Cons.IH[OF ok1 this Cons.prems(3), of "acc @ [a]"] Cons.prems(4) show ?thesis using ne' hd b by simp
    qed
  qed
qed simp

lemma parse_whole:
  assumes ok: "cb_ok cb" and u: "unread cb = enc_cmd args @ r" and f: "cmd_fits args"
  shows "parseCommand cb = (PArgs args, advance cb (length (enc_cmd args)))"
proof -
  let ?l = "CHR ''*'' # itoa (int (length args))"
  have ne: "\<not> rpos cb \<ge> rend cb" using unread_nil[OF ok] u by (auto simp: enc_cmd_eq)
  have hd: "rbuf cb ! rpos cb = CHR ''*''" using unread_hd[OF ok] ne u by (simp add: enc_cmd_eq)
  have l: "peekLine cb = Some ?l"
    by (rule peek_line[of _ _ "concat (map bulk args) @ r"]) (simp_all add: u enc_cmd_eq dollar_line)
  let ?cb1 = "advance cb (length ?l + 2)"
  have u1: "unread ?cb1 = concat (map bulk args) @ r" by (simp add: unread_advance u enc_cmd_eq crlf_def)
  have ok1: "cb_ok ?cb1" by (rule advance_ok[OF ok]) (simp add: u enc_cmd_eq crlf_def)
  have len: "int (length args) \<le> int maxArgs" "0 < length args" using f by (auto simp: cmd_fits_def)
  have p: "parseIntBytes (tl ?l) = Some (int (length args))"
    using parseIntBytes_itoa[of "int (length args)"] len fits_int by simp
  have e: "parse_elems (nat (int (length args))) ?cb1 [] = (PArgs args, advance ?cb1 (length (concat (map bulk args))))"
    using elems_whole[OF ok1 u1, of "[]"] f by (simp add: cmd_fits_def)
  have "parseArray cb = (PArgs args, advance cb (length (enc_cmd args)))"
    unfolding parseArray_def l option.case Let_def p skip_line_advance e using len
    by (simp add: enc_cmd_eq crlf_def)
  then show ?thesis using ne hd by (simp add: parseCommand_def)
qed

lemma parse_cut:
  assumes ok: "cb_ok cb" and u: "enc_cmd args = unread cb @ r" "r \<noteq> []" and f: "cmd_fits args"
  shows "parseCommand cb = (PNil, cb)"
proof (cases "unread cb = []")
  case True
  then show ?thesis using unread_nil[OF ok] by (simp add: parseCommand_def)
next
  case ne: False
  let ?l = "CHR ''*'' # itoa (int (length args))"
  have ne': "\<not> rpos cb \<ge> rend cb" using unread_nil[OF ok] ne by auto
  have "hd (unread cb) = CHR ''*''" using u ne by (metis append_Cons enc_cmd_eq hd_append2 list.sel(1))
  then have hd: "rbuf cb ! rpos cb = CHR ''*''" using unread_hd[OF ok] ne' by simp
  have eq: "(?l @ crlf) @ concat (map bulk args) = unread cb @ r" using u(1) by (simp add: enc_cmd_eq)
  have "\<exists>cb1. parseArray cb = (PNil, cb1) \<and> protoErr cb1 = protoErr cb"
  proof (cases rule: strict_prefix_cases[OF eq u(2)])
    case (1 w)
    have "no_LF (unread cb)" by (rule line_prefix[OF 1]) (simp add: dollar_line)
    then show ?thesis by (simp add: parseArray_def peek_none)
  next
    case (2 w)
    have l: "peekLine cb = Some ?l" by (rule peek_line[of _ _ w]) (simp_all add: 2(1) dollar_line)
    let ?cb1 = "advance cb (length ?l + 2)"
    have ok1: "cb_ok ?cb1" by (rule advance_ok[OF ok]) (simp add: 2(1) crlf_def)
    have u1: "concat (map bulk args) = unread ?cb1 @ r" using 2 by (simp add: unread_advance crlf_def)
    have len: "int (length args) \<le> int maxArgs" "0 < length args" using f by (auto simp: cmd_fits_def)
    have p: "parseIntBytes (tl ?l) = Some (int (length args))"
      using parseIntBytes_itoa[of "int (length args)"] len fits_int by simp
    obtain cb1 where e: "parse_elems (length args) ?cb1 [] = (PNil, cb1)" "protoErr cb1 = protoErr cb"
      using elems_cut[OF ok1 u1 u(2), of "[]"] f by (auto simp: cmd_fits_def)
    have "parseArray cb = (PNil, cb1)"
      unfolding parseArray_def l option.case Let_def p skip_line_advance using len e(1) by simp
    then show ?thesis using e(2) by simp
  qed
  then obtain cb1 where cb1: "parseArray cb = (PNil, cb1)" "protoErr cb1 = protoErr cb" by blast
  have "moves cb cb1" using array_moves[OF ok] cb1(1) by simp
  then have "cb1\<lparr>rpos := rpos cb\<rparr> = cb" using cb1(2) by (auto simp: moves_def advance_def)
  then show ?thesis using ne' hd cb1(1) by (simp add: parseCommand_def)
qed

section \<open>Streams of commands\<close>

lemma enc_ne [simp]: "enc_cmd args \<noteq> []"
  by (simp add: enc_cmd_eq)

definition enc_all :: "bytes list list \<Rightarrow> bytes" where
  "enc_all cs = concat (map enc_cmd cs)"

lemma drain_stream:
  assumes "cb_ok cb" "enc_all cs = unread cb @ v" "\<forall>c \<in> set cs. cmd_fits c"
  shows "\<exists>k cb'. drain cb = (take k cs, False, cb') \<and> cb_ok cb' \<and> enc_all (drop k cs) = unread cb' @ v \<and>
    protoErr cb' = protoErr cb \<and> rbuf cb' = rbuf cb \<and> (unread cb' = [] \<or> (\<exists>c r. drop k cs \<noteq> [] \<and> enc_cmd (hd (drop k cs)) = unread cb' @ r \<and> r \<noteq> []))"
  using assms
proof (induction cs arbitrary: cb)
  case Nil
  then have "unread cb = []" by (simp add: enc_all_def)
  then have "parseCommand cb = (PNil, cb)" using unread_nil[OF Nil.prems(1)] by (simp add: parseCommand_def)
  then show ?case using drain_eq[OF Nil.prems(1)] Nil.prems \<open>unread cb = []\<close>
    by (intro exI[of _ 0] exI[of _ cb]) simp
next
  case (Cons c cs)
  have fc: "cmd_fits c" using Cons.prems(3) by simp
  have eq: "enc_cmd c @ enc_all cs = unread cb @ v" using Cons.prems(2) by (simp add: enc_all_def)
  consider (whole) r where "unread cb = enc_cmd c @ r" "enc_all cs = r @ v" | (cut) r where "enc_cmd c = unread cb @ r" "r \<noteq> []"
  proof -
    obtain us where "enc_cmd c = unread cb @ us \<and> us @ enc_all cs = v \<or> enc_cmd c @ us = unread cb \<and> enc_all cs = us @ v"
      using eq by (auto simp: append_eq_append_conv2)
    then show thesis
    proof
      assume h: "enc_cmd c = unread cb @ us \<and> us @ enc_all cs = v"
      show thesis
      proof (cases "us = []")
        case True
        then show thesis using h by (intro whole[of "[]"]) auto
      next
        case False
        then show thesis using h cut by blast
      qed
    next
      assume h: "enc_cmd c @ us = unread cb \<and> enc_all cs = us @ v"
      show thesis by (rule whole[of us]) (use h in auto)
    qed
  qed
  then show ?case
  proof cases
    case whole
    let ?cb1 = "advance cb (length (enc_cmd c))"
    have p: "parseCommand cb = (PArgs c, ?cb1)" by (rule parse_whole[OF Cons.prems(1) whole(1) fc])
    have ok1: "cb_ok ?cb1" by (rule advance_ok[OF Cons.prems(1)]) (simp add: whole(1))
    have "enc_all cs = unread ?cb1 @ v" using whole by (simp add: unread_advance)
    from Cons.IH[OF ok1 this] Cons.prems(3) obtain k cb' where k: "drain ?cb1 = (take k cs, False, cb')" "cb_ok cb'"
      "enc_all (drop k cs) = unread cb' @ v" "protoErr cb' = protoErr ?cb1" "rbuf cb' = rbuf ?cb1"
      "unread cb' = [] \<or> (\<exists>c r. drop k cs \<noteq> [] \<and> enc_cmd (hd (drop k cs)) = unread cb' @ r \<and> r \<noteq> [])" by auto
    have "drain cb = (take (Suc k) (c # cs), False, cb')" using drain_eq[OF Cons.prems(1)] p k(1) by simp
    then show ?thesis using k(2-6) by (intro exI[of _ "Suc k"] exI[of _ cb']) auto
  next
    case cut
    have "parseCommand cb = (PNil, cb)" by (rule parse_cut[OF Cons.prems(1) cut fc])
    then have "drain cb = (take 0 (c # cs), False, cb)" using drain_eq[OF Cons.prems(1)] by simp
    then show ?thesis using Cons.prems cut by (intro exI[of _ 0] exI[of _ cb]) auto
  qed
qed

text \<open>Reading: what is unread stays, what arrives is put behind it.\<close>

lemma compact_spec:
  assumes "cb_ok cb"
  shows "cb_ok (compact cb)" "unread (compact cb) = unread cb" "protoErr (compact cb) = protoErr cb"
    "rpos (compact cb) = 0" "rend (compact cb) = length (unread cb)"
proof -
  note ul = unread_length[OF assms]
  have "cb_ok (compact cb) \<and> unread (compact cb) = unread cb \<and> protoErr (compact cb) = protoErr cb \<and>
    rpos (compact cb) = 0 \<and> rend (compact cb) = length (unread cb)"
  proof (cases "rpos cb = 0")
    case True
    then show ?thesis using assms ul by (simp add: compact_def)
  next
    case r0: False
    show ?thesis
    proof (cases "rpos cb = rend cb")
      case True
      then show ?thesis using assms r0 ul cb_ok_new
        by (simp add: compact_def cb_ok_def cb_new_def) (simp add: unread_def)
    next
      case False
      define u where "u = unread cb"
      have c: "compact cb = cb\<lparr>rbuf := u @ drop (rend cb - rpos cb) (rbuf cb), rpos := 0, rend := rend cb - rpos cb\<rparr>"
        using r0 False by (simp add: compact_def Let_def u_def)
      have len: "length u = rend cb - rpos cb" using ul by (simp add: u_def)
      then have "unread (compact cb) = u" unfolding c by (simp add: unread_def)
      moreover have "cb_ok (compact cb)" using assms len unfolding c by (auto simp: cb_ok_def)
      ultimately show ?thesis unfolding u_def[symmetric] using len by (simp add: c)
    qed
  qed
  then show "cb_ok (compact cb)" "unread (compact cb) = unread cb" "protoErr (compact cb) = protoErr cb"
    "rpos (compact cb) = 0" "rend (compact cb) = length (unread cb)" by auto
qed

lemma ensureSpace_spec:
  assumes "cb_ok cb"
  shows "cb_ok (snd (ensureSpace cb))" "unread (snd (ensureSpace cb)) = unread cb"
    "rend (snd (ensureSpace cb)) = rend cb" "rpos (snd (ensureSpace cb)) = rpos cb"
    "fst (ensureSpace cb) \<longleftrightarrow> rend cb < maxRbufSize"
    "fst (ensureSpace cb) \<Longrightarrow> protoErr (snd (ensureSpace cb)) = protoErr cb \<and> rend cb < length (rbuf (snd (ensureSpace cb)))"
    "\<not> fst (ensureSpace cb) \<Longrightarrow> protoErr (snd (ensureSpace cb))"
proof -
  have "cb_ok (snd (ensureSpace cb)) \<and> unread (snd (ensureSpace cb)) = unread cb \<and>
    rend (snd (ensureSpace cb)) = rend cb \<and> rpos (snd (ensureSpace cb)) = rpos cb \<and>
    (fst (ensureSpace cb) \<longleftrightarrow> rend cb < maxRbufSize) \<and>
    (fst (ensureSpace cb) \<longrightarrow> protoErr (snd (ensureSpace cb)) = protoErr cb \<and> rend cb < length (rbuf (snd (ensureSpace cb)))) \<and>
    (\<not> fst (ensureSpace cb) \<longrightarrow> protoErr (snd (ensureSpace cb)))"
  proof (cases "rend cb < length (rbuf cb)")
    case True
    then show ?thesis using assms by (simp add: ensureSpace_def cb_ok_def)
  next
    case full: False
    show ?thesis
    proof (cases "length (rbuf cb) \<ge> maxRbufSize")
      case True
      then have "ensureSpace cb = (False, cb\<lparr>protoErr := True\<rparr>)" using full by (simp add: ensureSpace_def)
      then show ?thesis using assms full True by (auto simp: cb_ok_def[of cb])
    next
      case False
      then have e: "ensureSpace cb = (True, cb\<lparr>rbuf := rbuf cb @ replicate
          ((if length (rbuf cb) * 2 > maxRbufSize then maxRbufSize else length (rbuf cb) * 2) - length (rbuf cb)) (CHR 0x00)\<rparr>)"
        using full by (simp add: ensureSpace_def Let_def)
      then show ?thesis using assms full False by (auto simp: cb_ok_def unread_def initialReadBuf_def)
    qed
  qed
  then show "cb_ok (snd (ensureSpace cb))" "unread (snd (ensureSpace cb)) = unread cb"
    "rend (snd (ensureSpace cb)) = rend cb" "rpos (snd (ensureSpace cb)) = rpos cb"
    "fst (ensureSpace cb) \<longleftrightarrow> rend cb < maxRbufSize"
    "fst (ensureSpace cb) \<Longrightarrow> protoErr (snd (ensureSpace cb)) = protoErr cb \<and> rend cb < length (rbuf (snd (ensureSpace cb)))"
    "\<not> fst (ensureSpace cb) \<Longrightarrow> protoErr (snd (ensureSpace cb))" by blast+
qed

lemma unread_from_start: "rpos cb = 0 \<Longrightarrow> unread cb = take (rend cb) (rbuf cb)"
  by (simp add: unread_def)

lemma read_spec:
  assumes ok: "cb_ok cb" and r: "readFromConn cb k inp = (n, inp', cb')"
  shows "cb_ok cb'" "unread cb' = unread cb @ take n inp" "inp' = drop n inp"
    "length (unread cb) < maxRbufSize \<Longrightarrow> protoErr cb' = protoErr cb"
    "length (unread cb) < maxRbufSize \<Longrightarrow> 0 < k \<Longrightarrow> inp \<noteq> [] \<Longrightarrow> 0 < n"
    "maxRbufSize \<le> length (unread cb) \<Longrightarrow> protoErr cb'"
proof -
  note C = compact_spec[OF ok] and E = ensureSpace_spec[OF compact_spec(1)[OF ok]]
  obtain b cb1 where e: "ensureSpace (compact cb) = (b, cb1)" by fastforce
  have all: "cb_ok cb' \<and> unread cb' = unread cb @ take n inp \<and> inp' = drop n inp \<and>
    (length (unread cb) < maxRbufSize \<longrightarrow> protoErr cb' = protoErr cb) \<and>
    (length (unread cb) < maxRbufSize \<longrightarrow> 0 < k \<longrightarrow> inp \<noteq> [] \<longrightarrow> 0 < n) \<and>
    (maxRbufSize \<le> length (unread cb) \<longrightarrow> protoErr cb')"
  proof (cases b)
    case False
    then have "n = 0" "inp' = inp" "cb' = cb1" using r e by (auto simp: readFromConn_def)
    then show ?thesis using C E e False by auto
  next
    case True
    have n: "n = min k (min (length inp) (length (rbuf cb1) - rend cb1))" "inp' = drop n inp"
      "cb' = cb1\<lparr>rbuf := take (rend cb1) (rbuf cb1) @ take n inp @ drop (rend cb1 + n) (rbuf cb1), rend := rend cb1 + n\<rparr>"
      using r e True by (auto simp: readFromConn_def Let_def)
    have pos: "rpos cb1 = 0" "rend cb1 = length (unread cb)" "cb_ok cb1" "unread cb1 = unread cb"
      "rend cb1 < length (rbuf cb1)" "protoErr cb1 = protoErr cb" "length (unread cb) < maxRbufSize"
      using C E e True by auto
    have le: "n \<le> length inp" "rend cb1 + n \<le> length (rbuf cb1)" using n(1) pos(5) by auto
    have "take (rend cb1) (rbuf cb1) = unread cb" using pos(1,4) unread_from_start[of cb1] by simp
    then have "rpos cb' = 0" "rbuf cb' = unread cb @ take n inp @ drop (rend cb1 + n) (rbuf cb1)" "rend cb' = length (unread cb) + n"
      using n(3) pos(1,2) by simp_all
    then have "unread cb' = unread cb @ take n inp" using unread_from_start[of cb'] le(1) by simp
    moreover have "cb_ok cb'" using pos(1,3) le n(3) by (auto simp: cb_ok_def)
    moreover have "protoErr cb' = protoErr cb" using n(3) pos(6) by simp
    moreover have "0 < k \<longrightarrow> inp \<noteq> [] \<longrightarrow> 0 < n" using n(1) pos(5) by auto
    ultimately show ?thesis using n(2) pos(7) by simp
  qed
  then show "cb_ok cb'" "unread cb' = unread cb @ take n inp" "inp' = drop n inp"
    "length (unread cb) < maxRbufSize \<Longrightarrow> protoErr cb' = protoErr cb"
    "length (unread cb) < maxRbufSize \<Longrightarrow> 0 < k \<Longrightarrow> inp \<noteq> [] \<Longrightarrow> 0 < n"
    "maxRbufSize \<le> length (unread cb) \<Longrightarrow> protoErr cb'" by blast+
qed

definition waiting :: "bytes list list \<Rightarrow> connbuf \<Rightarrow> bool" where
  "waiting cs cb \<longleftrightarrow> unread cb = [] \<or> (\<exists>r. cs \<noteq> [] \<and> enc_cmd (hd cs) = unread cb @ r \<and> r \<noteq> [])"

definition stream_fits :: "bytes list list \<Rightarrow> bool" where
  "stream_fits cs \<longleftrightarrow> (\<forall>c \<in> set cs. cmd_fits c \<and> length (enc_cmd c) \<le> maxRbufSize)"

lemma waiting_room: "waiting cs cb \<Longrightarrow> stream_fits cs \<Longrightarrow> length (unread cb) < maxRbufSize"
proof -
  assume w: "waiting cs cb" and f: "stream_fits cs"
  show "length (unread cb) < maxRbufSize"
  proof (cases "unread cb = []")
    case True
    then show ?thesis by (simp add: maxRbufSize_def readSlack_def)
  next
    case False
    then obtain r where r: "cs \<noteq> []" "enc_cmd (hd cs) = unread cb @ r" "r \<noteq> []" using w by (auto simp: waiting_def)
    then have "length (unread cb @ r) \<le> maxRbufSize" using f by (metis hd_in_set stream_fits_def)
    then show ?thesis using r(3) by (cases r) auto
  qed
qed

lemma drain_waiting:
  assumes "cb_ok cb" "enc_all cs = unread cb @ v" "\<forall>c \<in> set cs. cmd_fits c"
  shows "\<exists>k cb'. drain cb = (take k cs, False, cb') \<and> cb_ok cb' \<and> enc_all (drop k cs) = unread cb' @ v \<and>
    protoErr cb' = protoErr cb \<and> waiting (drop k cs) cb'"
proof -
  obtain k cb' where h: "drain cb = (take k cs, False, cb')" "cb_ok cb'" "enc_all (drop k cs) = unread cb' @ v" "protoErr cb' = protoErr cb"
    "unread cb' = [] \<or> (\<exists>c r. drop k cs \<noteq> [] \<and> enc_cmd (hd (drop k cs)) = unread cb' @ r \<and> r \<noteq> [])"
    using drain_stream[OF assms] by (elim exE conjE) (rule that)
  have "waiting (drop k cs) cb'" using h(5) unfolding waiting_def by (elim disjE exE) auto
  then show ?thesis using h(1-4) by (intro exI[of _ k] exI[of _ cb']) simp
qed

lemma waiting_done: "waiting cs cb \<Longrightarrow> enc_all cs = unread cb \<Longrightarrow> cs = [] \<and> unread cb = []"
proof -
  assume w: "waiting cs cb" and e: "enc_all cs = unread cb"
  show ?thesis
  proof (cases cs)
    case Nil
    then show ?thesis using e by (simp add: enc_all_def)
  next
    case (Cons c cs')
    then have e: "unread cb = enc_cmd c @ enc_all cs'" using e by (simp add: enc_all_def)
    then have "unread cb \<noteq> []" by simp
    then obtain r where "enc_cmd c = unread cb @ r" "r \<noteq> []" using w Cons by (auto simp: waiting_def)
    then have "length (enc_cmd c) > length (unread cb)" by (cases r) auto
    then show ?thesis using e by simp
  qed
qed

lemma serve_stream:
  assumes "cb_ok cb" "\<not> protoErr cb" "waiting cs cb" "stream_fits cs" "enc_all cs = unread cb @ inp"
    and "serve_reads ks inp cb = (out, p, rest, cb')"
  shows "cb_ok cb' \<and> \<not> p \<and> \<not> protoErr cb' \<and> length rest \<le> length inp - (if 0 \<in> set ks then 0 else length ks) \<and>
    (\<exists>k. out = take k cs \<and> waiting (drop k cs) cb' \<and> enc_all (drop k cs) = unread cb' @ rest)"
  using assms
proof (induction ks arbitrary: cb cs inp out p rest)
  case Nil
  then show ?case by (auto intro!: exI[of _ 0])
next
  case (Cons k ks)
  obtain n inp1 cb1 where rd: "readFromConn cb k inp = (n, inp1, cb1)" using prod_cases3 by blast
  note R = read_spec[OF Cons.prems(1) rd]
  have room: "length (unread cb) < maxRbufSize" by (rule waiting_room[OF Cons.prems(3,4)])
  have np: "\<not> protoErr cb1" using R(4)[OF room] Cons.prems(2) by simp
  have e1: "enc_all cs = unread cb1 @ inp1" using Cons.prems(5) R(2,3) by simp
  have prog: "length inp1 \<le> length inp - (if k = 0 then 0 else 1)"
    using R(3) R(5)[OF room] by (cases "inp = []") (auto simp: Suc_le_eq)
  show ?case
  proof (cases "n = 0")
    case True
    then have u: "unread cb1 = unread cb" using R(2) by simp
    have w: "waiting cs cb1" using Cons.prems(3) u by (simp add: waiting_def)
    have s: "serve_reads ks inp1 cb1 = (out, p, rest, cb')" using Cons.prems(6) rd np True by simp
    from Cons.IH[OF R(1) np w Cons.prems(4) e1 s] prog show ?thesis by (auto split: if_splits)
  next
    case False
    have fits: "\<forall>c \<in> set cs. cmd_fits c" using Cons.prems(4) by (simp add: stream_fits_def)
    obtain j cb2 where d: "drain cb1 = (take j cs, False, cb2)" "cb_ok cb2" "enc_all (drop j cs) = unread cb2 @ inp1"
      "protoErr cb2 = protoErr cb1" "waiting (drop j cs) cb2"
      using drain_waiting[OF R(1) e1 fits] by blast
    obtain out' p' r where s: "serve_reads ks inp1 cb2 = (out', p', r)" using prod_cases3 by blast
    obtain rest2 cb3 where r: "r = (rest2, cb3)" by fastforce
    have o: "out = take j cs @ out'" "p = p'" "rest = rest2" "cb' = cb3" using Cons.prems(6) rd np False d(1,4) s r by auto
    have f2: "stream_fits (drop j cs)" using Cons.prems(4) by (auto simp: stream_fits_def dest: in_set_dropD)
    have np2: "\<not> protoErr cb2" using np d(4) by simp
    have s2: "serve_reads ks inp1 cb2 = (out', p, rest, cb')" using s r o by simp
    from Cons.IH[OF d(2) np2 d(5) f2 d(3) s2] obtain i where i: "cb_ok cb'" "\<not> p" "\<not> protoErr cb'"
      "length rest \<le> length inp1 - (if 0 \<in> set ks then 0 else length ks)"
      "out' = take i (drop j cs)" "waiting (drop i (drop j cs)) cb'" "enc_all (drop i (drop j cs)) = unread cb' @ rest"
      by blast
    have "out = take (j + i) cs" using o(1) i(5) by (simp add: take_add)
    moreover have "length rest \<le> length inp - (if 0 \<in> set (k # ks) then 0 else length (k # ks))"
      using i(4) prog by (auto split: if_splits)
    moreover have "drop i (drop j cs) = drop (j + i) cs" by (simp add: add.commute)
    ultimately show ?thesis using i(1,2,3,6,7) by metis
  qed
qed

text \<open>C19: However a pipelined stream of commands is cut up by the network, the server parses exactly
  the commands that were sent, in order: after any reads they are a prefix of them and the rest is
  still in the buffer or on the wire, no protocol error is reported and nothing panics; once the
  stream is read all of them have been parsed, which happens when there are at least as many reads
  as bytes and each gives something. Every command must keep the limits on its arguments and fit
  the largest buffer.\<close>
theorem chunked_stream:
  assumes "stream_fits cs" and "serve_reads ks (enc_all cs) cb_new = (out, panic, rest, cb)"
  shows "\<not> panic \<and> \<not> protoErr cb \<and> cb_ok cb \<and>
    (\<exists>k. out = take k cs \<and> enc_all (drop k cs) = unread cb @ rest) \<and>
    (rest = [] \<longrightarrow> out = cs \<and> unread cb = []) \<and>
    (0 \<notin> set ks \<and> length (enc_all cs) \<le> length ks \<longrightarrow> rest = [])"
proof -
  have "waiting cs cb_new" "\<not> protoErr cb_new" by (simp_all add: waiting_def unread_new) (simp add: cb_new_def)
  from serve_stream[OF cb_ok_new this(2,1) assms(1) _ assms(2)] obtain k where k:
    "cb_ok cb" "\<not> panic" "\<not> protoErr cb" "length rest \<le> length (enc_all cs) - (if 0 \<in> set ks then 0 else length ks)"
    "out = take k cs" "waiting (drop k cs) cb" "enc_all (drop k cs) = unread cb @ rest"
    by (auto simp: unread_new)
  have "rest = [] \<Longrightarrow> drop k cs = [] \<and> unread cb = []" using waiting_done[OF k(6)] k(7) by simp
  then have "rest = [] \<longrightarrow> out = cs \<and> unread cb = []" using k(5) by (metis append_Nil2 append_take_drop_id)
  moreover have "0 \<notin> set ks \<and> length (enc_all cs) \<le> length ks \<longrightarrow> rest = []" using k(4) by auto
  ultimately show ?thesis using k by blast
qed

theorem chunked_stream_witness:
  "let cs = [[''SET'', ''k'', [CHR 0x0A]], [''GET'', ''k'']] in
   stream_fits cs \<and> fst (serve_reads (replicate 60 1) (enc_all cs) cb_new) = cs"
proof -
  let ?cs = "[[''SET'', ''k'', [CHR 0x0A]], [''GET'', ''k'']]"
  have f: "stream_fits ?cs"
    by (simp add: stream_fits_def cmd_fits_def maxArgs_def maxBulkSize_def maxRbufSize_def readSlack_def enc_cmd_eq bulk_eq itoa_def digits.simps crlf_def)
  have l: "length (enc_all ?cs) \<le> length (replicate 60 1)"
    by (simp add: enc_all_def enc_cmd_eq bulk_eq itoa_def digits.simps crlf_def)
  have z: "0 \<notin> set (replicate 60 (1::nat))" by simp
  obtain out panic rest cb where s: "serve_reads (replicate 60 1) (enc_all ?cs) cb_new = (out, panic, rest, cb)"
    using prod_cases4 by blast
  then have "out = ?cs" using chunked_stream[OF f s] l z by blast
  then show ?thesis using f s unfolding Let_def by simp
qed

section \<open>Bounds\<close>

definition total :: "bytes list \<Rightarrow> nat" where
  "total as = sum_list (map length as)"

lemma total_simps [simp]: "total [] = 0" "total (as @ bs) = total as + total bs" "total (a # as) = length a + total as"
  by (simp_all add: total_def)

lemma bulk_bound: "parseBulkString cb = (Some a, cb1) \<Longrightarrow> rpos cb + length a < rpos cb1"
  by (auto simp: parseBulkString_def Let_def skip_line_def min_def split: option.splits if_splits)

lemma elems_bound:
  "parse_elems n cb acc = (PArgs args, cb') \<Longrightarrow> length args = length acc + n \<and> total args + rpos cb \<le> total acc + rpos cb'"
proof (induction n arbitrary: cb acc)
  case (Suc n)
  have "\<exists>a cb1. parse_elems n cb1 (acc @ [a]) = (PArgs args, cb') \<and> rpos cb + length a \<le> rpos cb1"
  proof (cases "rbuf cb ! rpos cb = CHR ''$''")
    case True
    then show ?thesis using Suc.prems by (auto split: if_splits option.splits prod.splits) (metis bulk_bound less_imp_le)
  next
    case False
    then obtain line where "parse_elems n (skip_line cb line) (acc @ [tl line]) = (PArgs args, cb')"
      using Suc.prems by (auto split: if_splits option.splits)
    then show ?thesis by (intro exI conjI) (auto simp: skip_line_def)
  qed
  then obtain a cb1 where e: "parse_elems n cb1 (acc @ [a]) = (PArgs args, cb')" "rpos cb + length a \<le> rpos cb1" by blast
  then show ?case using Suc.IH[OF e(1)] by simp
qed simp

lemma split_line_bound:
  "length args \<le> maxArgs \<Longrightarrow> length (split_line line word args) \<le> maxArgs \<and>
   total (split_line line word args) \<le> total args + length word + length line"
proof (induction line word args rule: split_line.induct)
  case (2 c cs word args)
  show ?case
  proof (cases "c = CHR '' ''")
    case True
    let ?a = "if word \<noteq> [] \<and> length args < maxArgs then args @ [word] else args"
    have "length ?a \<le> maxArgs" "total ?a \<le> total args + length word" using "2.prems" by auto
    then show ?thesis using "2.IH"(1)[OF True] True by simp
  next
    case False
    then show ?thesis using "2.IH"(2)[OF False "2.prems"] by simp
  qed
qed auto

lemma parse_bound:
  assumes "parseCommand cb = (PArgs args, cb')"
  shows "length args \<le> maxArgs \<and> total args + rpos cb < rpos cb'"
proof -
  have p: "(if rbuf cb ! rpos cb = CHR ''*'' then parseArray cb else parseInline cb) = (PArgs args, cb')"
    using assms by (auto simp: parseCommand_def split: if_splits presult.splits prod.splits)
  show ?thesis
  proof (cases "rbuf cb ! rpos cb = CHR ''*''")
    case True
    then have "\<exists>line cnt. cnt \<le> int maxArgs \<and> parse_elems (nat cnt) (skip_line cb line) [] = (PArgs args, cb')"
      using p by (simp add: parseArray_def Let_def linorder_not_less split: option.splits if_splits) metis
    then obtain line cnt where "cnt \<le> int maxArgs" "parse_elems (nat cnt) (skip_line cb line) [] = (PArgs args, cb')"
      by blast
    then show ?thesis using elems_bound[of "nat cnt" "skip_line cb line" "[]" args cb'] by (simp add: skip_line_def)
  next
    case False
    then obtain line where "args = split_line line [] []" "cb' = skip_line cb line"
      using p by (auto simp: parseInline_def split: option.splits)
    then show ?thesis using split_line_bound[of "[]" line "[]"] by (simp add: skip_line_def)
  qed
qed

lemma parse_nil: "parseCommand cb = (PNil, cb') \<Longrightarrow> rpos cb' = rpos cb"
  by (auto simp: parseCommand_def split: if_splits presult.splits prod.splits)

lemma inline_no_panic: "parseInline cb \<noteq> (PPanic, cb')"
  by (auto simp: parseInline_def split: option.splits)

text \<open>Reading and parsing stay inside the buffer, and the buffer below its cap, whatever the client
  sends: every read keeps what is unread and puts what arrived behind it; parsing consumes a prefix
  of what is unread and changes nothing of the buffer's content, an incomplete command consumes nothing, and a parsed
  command consumes more bytes than its arguments hold, at most \<open>maxArgs\<close> of them. Only an array can
  make the parser panic.\<close>
lemma parse_in_bounds:
  assumes "cb_ok cb" and "parseCommand cb = (r, cb')"
  shows "cb_ok cb' \<and> rbuf cb' = rbuf cb \<and> rend cb' = rend cb \<and>
    unread cb' = drop (rpos cb' - rpos cb) (unread cb) \<and> (protoErr cb \<longrightarrow> protoErr cb') \<and>
    (case r of
       PNil \<Rightarrow> unread cb' = unread cb
     | PArgs args \<Rightarrow> length args \<le> maxArgs \<and> total args + rpos cb < rpos cb'
     | PPanic \<Rightarrow> hd (unread cb) = CHR ''*'') \<and>
    (\<forall>k inp n inp' cb2. readFromConn cb' k inp = (n, inp', cb2) \<longrightarrow>
       cb_ok cb2 \<and> unread cb2 = unread cb' @ take n inp \<and> inp' = drop n inp)"
proof -
  have m: "moves cb cb'" using parse_moves[OF assms(1)] assms(2) by simp
  then obtain k b where k: "cb' = (advance cb k)\<lparr>protoErr := b\<rparr>" by (auto simp: moves_def)
  have ok: "cb_ok cb'" by (rule moves_ok[OF m assms(1)])
  have u: "unread cb' = drop (rpos cb' - rpos cb) (unread cb)" using k by (simp add: unread_advance)
  have r: "case r of PNil \<Rightarrow> unread cb' = unread cb
     | PArgs args \<Rightarrow> length args \<le> maxArgs \<and> total args + rpos cb < rpos cb' | PPanic \<Rightarrow> hd (unread cb) = CHR ''*''"
  proof (cases r)
    case PPanic
    then have "rpos cb < rend cb" "rbuf cb ! rpos cb = CHR ''*''"
      using assms(2) inline_no_panic by (auto simp: parseCommand_def split: if_splits presult.splits prod.splits)
    then show ?thesis using PPanic unread_hd[OF assms(1)] by simp
  next
    case PNil
    then show ?thesis using u parse_nil assms(2) by simp
  next
    case (PArgs args)
    then show ?thesis using parse_bound assms(2) by simp
  qed
  have rd: "\<forall>k inp n inp' cb2. readFromConn cb' k inp = (n, inp', cb2) \<longrightarrow>
       cb_ok cb2 \<and> unread cb2 = unread cb' @ take n inp \<and> inp' = drop n inp"
    using read_spec(1-3)[OF ok] by blast
  show ?thesis using ok u r rd moves_sel[OF m] by blast
qed

text \<open>The panic: an element that is an empty line, whose first byte the code slices off.\<close>

lemma empty_element_panics:
  assumes ok: "cb_ok cb" and u: "unread cb = ''*1'' @ crlf @ crlf @ r"
  shows "fst (parseCommand cb) = PPanic"
proof -
  have lt: "\<not> rpos cb \<ge> rend cb" using unread_nil[OF ok] u by auto
  have hd: "rbuf cb ! rpos cb = CHR ''*''" using unread_hd[OF ok] lt u by simp
  have l: "peekLine cb = Some ''*1''" by (rule peek_line[of _ _ "crlf @ r"]) (use u in \<open>auto simp: no_LF_def LF_def\<close>)
  let ?cb1 = "advance cb 4"
  have u1: "unread ?cb1 = crlf @ r" by (simp add: unread_advance u crlf_def)
  have ok1: "cb_ok ?cb1" by (rule advance_ok[OF ok]) (simp add: u crlf_def)
  have lt1: "\<not> rpos ?cb1 \<ge> rend ?cb1" using unread_nil[OF ok1] u1 by (auto simp: crlf_def)
  then have hd1: "rbuf ?cb1 ! rpos ?cb1 = CHR 0x0D" using unread_hd[OF ok1] u1 by (simp add: crlf_def)
  have l1: "peekLine ?cb1 = Some []" by (rule peek_line[of _ _ r]) (use u1 in \<open>simp_all add: no_LF_def\<close>)
  have p: "parseIntBytes ''1'' = Some 1" by (simp add: parseIntBytes_def is_digit_def digit_val_def nat_of_byte_def maxInt_def)
  have e: "parse_elems (Suc 0) ?cb1 [] = (PPanic, skip_line ?cb1 [])"
    by (simp only: parse_elems.simps lt1 hd1 l1 option.case if_False if_True refl) simp
  have s1: "skip_line cb ''*1'' = ?cb1" by (simp add: skip_line_advance numeral_eq_Suc)
  have "parseArray cb = (PPanic, skip_line ?cb1 [])"
    unfolding parseArray_def l option.case Let_def s1 using p e by (simp add: maxArgs_def)
  then show ?thesis using lt hd by (simp add: parseCommand_def)
qed

definition cb_with :: "bytes \<Rightarrow> connbuf" where
  "cb_with bs = snd (snd (readFromConn cb_new (length bs) bs))"

lemma cb_with_ok: "cb_ok (cb_with bs)"
  using read_spec(1)[OF cb_ok_new, of "length bs" bs] by (metis cb_with_def prod.collapse)

lemma cb_with_eq: "length bs \<le> initialReadBuf \<Longrightarrow>
  cb_with bs = \<lparr>rbuf = bs @ replicate (initialReadBuf - length bs) (CHR 0x00), rpos = 0, rend = length bs, protoErr = False, wbuf = []\<rparr>"
  by (simp add: cb_with_def readFromConn_def compact_def cb_new_def ensureSpace_def initialReadBuf_def Let_def)

lemma unread_with: "length bs \<le> initialReadBuf \<Longrightarrow> unread (cb_with bs) = bs"
  by (simp add: cb_with_eq unread_def)

theorem parse_in_bounds_witness:
  "let cb = cb_with (''PING'' @ crlf) in parseCommand cb = (PArgs [''PING''], cb\<lparr>rpos := 6\<rparr>) \<and> cb_ok (cb\<lparr>rpos := 6\<rparr>)"
proof -
  let ?cb = "cb_with (''PING'' @ crlf)"
  have c: "?cb = \<lparr>rbuf = (''PING'' @ crlf) @ replicate (initialReadBuf - 6) (CHR 0x00), rpos = 0, rend = 6, protoErr = False, wbuf = []\<rparr>"
    by (subst cb_with_eq) (simp_all add: initialReadBuf_def crlf_def)
  have "parseCommand ?cb = (PArgs [''PING''], ?cb\<lparr>rpos := 6\<rparr>)"
    unfolding c by (simp add: parseCommand_def parseInline_def peekLine_def unread_def crlf_def LF_def skip_line_def maxArgs_def)
  then show ?thesis using parse_in_bounds[OF cb_with_ok, of "''PING'' @ crlf"] unfolding Let_def by blast
qed

section \<open>A buffer that never moves\<close>

text \<open>An array header with a count that is not positive gives no command and no protocol error, and the
  read position goes back in front of it.\<close>

definition null_head :: "bytes \<Rightarrow> bool" where
  "null_head u \<longleftrightarrow> (\<exists>r. u = ''*0'' @ crlf @ r \<or> u = ''*-1'' @ crlf @ r)"

lemma null_parse:
  assumes ok: "cb_ok cb" and n: "null_head (unread cb)"
  shows "parseCommand cb = (PNil, cb)"
proof -
  obtain r where "unread cb = (CHR ''*'' # ''0'') @ crlf @ r \<or> unread cb = (CHR ''*'' # ''-1'') @ crlf @ r"
    using n by (auto simp: null_head_def)
  then obtain d where u: "unread cb = (CHR ''*'' # d) @ crlf @ r" and d: "d = ''0'' \<or> d = ''-1''" by blast
  have lt: "\<not> rpos cb \<ge> rend cb" using unread_nil[OF ok] u by auto
  have hd: "rbuf cb ! rpos cb = CHR ''*''" using unread_hd[OF ok] lt u by simp
  have l: "peekLine cb = Some (CHR ''*'' # d)"
    by (rule peek_line[of _ _ r]) (use u d in \<open>auto simp: no_LF_def LF_def\<close>)
  have p: "parseIntBytes d = Some (if d = ''0'' then 0 else - 1)"
    using d by (auto simp: parseIntBytes_def is_digit_def digit_val_def nat_of_byte_def maxInt_def)
  have "parseArray cb = (PNil, skip_line cb (CHR ''*'' # d))"
    using l p d by (auto simp: parseArray_def Let_def)
  then show ?thesis using lt hd by (simp add: parseCommand_def skip_line_def)
qed

text \<open>A null or empty array (\<open>*0\<close>, \<open>*-1\<close>) wedges its connection. It is no command and no protocol
  error, and it stays in front of the buffer: whatever the client sends after it, in whatever
  pieces, no command is ever parsed, so none is answered, and all the bytes stay buffered until the
  cap of the buffer is reached.\<close>
lemma null_array_wedges:
  assumes "cb_ok cb" "\<not> protoErr cb" "null_head (unread cb)" and "serve_reads ks inp cb = (out, panic, rest, cb')"
  shows "out = [] \<and> \<not> panic \<and> unread cb' @ rest = unread cb @ inp \<and>
    (protoErr cb' \<longrightarrow> maxRbufSize \<le> length (unread cb'))"
  using assms
proof (induction ks arbitrary: cb inp)
  case (Cons k ks)
  obtain n inp1 cb1 where rd: "readFromConn cb k inp = (n, inp1, cb1)" using prod_cases3 by blast
  note R = read_spec[OF Cons.prems(1) rd]
  have nh: "null_head (unread cb1)" using Cons.prems(3) R(2) by (auto simp: null_head_def)
  have same: "unread cb1 @ inp1 = unread cb @ inp" using R(2,3) by simp
  show ?case
  proof (cases "protoErr cb1")
    case True
    then have full: "maxRbufSize \<le> length (unread cb)" using R(4) Cons.prems(2) by fastforce
    have "out = [] \<and> \<not> panic \<and> rest = inp1 \<and> cb' = cb1" using Cons.prems(4) rd True by auto
    then show ?thesis using same full R(2) by simp
  next
    case False
    have "drain cb1 = ([], False, cb1)" using drain_eq[OF R(1)] null_parse[OF R(1) nh] by simp
    then have "serve_reads ks inp1 cb1 = (out, panic, rest, cb')"
      using Cons.prems(4) rd False by (auto split: if_splits prod.splits)
    from Cons.IH[OF R(1) False nh this] same show ?thesis by simp
  qed
qed auto

lemma null_array_wedges_witness:
  "fst (serve_reads [100, 100] (''PING'' @ crlf) (cb_with (''*0'' @ crlf))) = []"
proof -
  have u: "unread (cb_with (''*0'' @ crlf)) = ''*0'' @ crlf" by (rule unread_with) (simp add: initialReadBuf_def crlf_def)
  have "null_head (unread (cb_with (''*0'' @ crlf)))" unfolding u null_head_def by (rule exI[of _ "[]"]) simp
  moreover have "\<not> protoErr (cb_with (''*0'' @ crlf))"
    by (subst cb_with_eq) (simp_all add: initialReadBuf_def crlf_def)
  moreover obtain out panic rest cb where
    "serve_reads [100, 100] (''PING'' @ crlf) (cb_with (''*0'' @ crlf)) = (out, panic, rest, cb)"
    using prod_cases4 by blast
  ultimately show ?thesis using null_array_wedges[OF cb_with_ok] by (metis fst_conv)
qed

end
