(* ===== verification/Dispatch.thy ===== *)
theory Dispatch
  imports Journal PubSub ConnBuf
begin

text \<open>
  The command dispatcher: \<open>cmd/kvstore/dispatch.go\<close>, \<open>cmd_pubsub.go\<close>, \<open>cmd_cluster.go\<close> and
  \<open>cmdCompact\<close> of \<open>cmd_kv.go\<close>. A connection holds its transaction state, whether it is
  authenticated, the replies in its write buffer and those already flushed; \<open>emit\<close> gives the
  bytes. The hub is the one of \<open>PubSub\<close>; its outcome \<open>None\<close>, a panic, ends the command.

  Parameters (\<open>disp\<close>): SHA-256, \<open>strings.ToUpper\<close> outside ASCII, the configuration, the handlers of the
  vector commands (\<open>cmd_vector.go\<close>; \<open>CmdVecJournal\<close> fills them in) and the cluster node behind \<open>CLUSTER\<close>, \<open>MIGRATE\<close> and \<open>PSYNC\<close>.
\<close>

section \<open>State\<close>

record conn =
  cid :: nat
  inTx :: bool
  txQueue :: "bytes list list"
  txAborted :: bool
  authed :: bool
  cbuf :: "reply list"
  csent :: "reply list"

record 'v cstate =
  csrv :: "'v srv"
  chub :: hub
  wfail :: "string option"
  compactions :: nat

record 'v cluster_api =
  clusterCommand :: "bytes list \<Rightarrow> pvalue"
  migrateKey :: "'v srv \<Rightarrow> string \<Rightarrow> int \<Rightarrow> string \<Rightarrow> pvalue \<times> 'v srv"

record 'v disp =
  authEnabled :: bool
  authHash :: bytes
  restoreLSN :: nat
  sha256 :: "bytes \<Rightarrow> bytes"
  upperUni :: "string \<Rightarrow> string"
  vecCmd :: "string \<Rightarrow> 'v srv \<Rightarrow> bytes list \<Rightarrow> reply list \<times> 'v srv"
  clusterApi :: "'v cluster_api option"

definition conn_new :: "nat \<Rightarrow> conn" where
  "conn_new i = \<lparr>cid = i, inTx = False, txQueue = [], txAborted = False, authed = False, cbuf = [], csent = []\<rparr>"

definition say :: "conn \<Rightarrow> reply list \<Rightarrow> conn" where
  "say cs rs = cs\<lparr>cbuf := cbuf cs @ rs\<rparr>"

text \<open>The replies as bytes in the write buffer.\<close>

fun emit :: "reply \<Rightarrow> connbuf \<Rightarrow> connbuf" where
  "emit (RSimple s) cb = writeSimpleString cb s"
| "emit (RError s) cb = writeError cb s"
| "emit (RInt n) cb = writeInt cb n"
| "emit (RBulk b) cb = writeBulk cb b"
| "emit RNull cb = writeNull cb"
| "emit (RArrayHeader n) cb = writeArrayHeader cb n"

text \<open>\<open>strings.ToUpper\<close>: bytewise when every byte is ASCII.\<close>

definition ToUpper :: "'v disp \<Rightarrow> string \<Rightarrow> string" where
  "ToUpper D s = (if \<forall>c \<in> set s. nat_of_byte c < 128 then map upper_char s else upperUni D s)"

section \<open>Classification of commands\<close>

definition isMemoryGrowingCmd :: "string \<Rightarrow> bool" where
  "isMemoryGrowingCmd cmd \<longleftrightarrow>
     cmd \<in> {''SET'', ''ZADD'', ''VSIM.ADD'', ''VSIM.ADDBIN'', ''VSIM.ADDATTR'', ''VSIM.ADDDOC''}"

definition isWriteCmd :: "string \<Rightarrow> bool" where
  "isWriteCmd cmd \<longleftrightarrow>
     cmd \<in> {''SET'', ''DEL'', ''EXPIRE'', ''PERSIST'',
            ''VSIM.ADD'', ''VSIM.ADDBIN'', ''VSIM.ADDATTR'', ''VSIM.ADDDOC'', ''VSIM.DEL'',
            ''ZADD'', ''ZREM''}"

definition forbiddenInTx :: "string \<Rightarrow> bool" where
  "forbiddenInTx cmd \<longleftrightarrow> cmd \<in> {''SUBSCRIBE'', ''UNSUBSCRIBE''}"

definition vsim_cmds :: "string set" where
  "vsim_cmds = {''VSIM.ADDBIN'', ''VSIM.ADD'', ''VSIM.ADDATTR'', ''VSIM.ADDDOC'', ''VSIM.DEL'', ''VSIM.EXISTS'',
     ''VSIM.SEARCH'', ''VSIM.SEARCHTEXT'', ''VSIM.HYBRID'', ''VSIM.SEARCHBIN'', ''VSIM.FILTER'', ''VSIM.INFO'',
     ''VSIM.SEARCHFILTER'', ''VSIM.SEARCHRANGE''}"

section \<open>The small command families\<close>

fun value_replies :: "pvalue \<Rightarrow> reply list" where
  "value_replies (PValue t s n vs) =
     (if t = CHR ''+'' then [RSimple s]
      else if t = CHR ''-'' then [RError s]
      else if t = CHR '':'' then [RInt n]
      else if t = CHR ''$'' then (if n = - 1 then [RNull] else [RBulk s])
      else if t = CHR ''*'' then RArrayHeader (length vs) # concat (map value_replies vs)
      else [])"

definition not_clustered :: string where
  "not_clustered = ''ERR cluster mode is not enabled''"

definition cmdCluster :: "'v disp \<Rightarrow> bytes list \<Rightarrow> reply list" where
  "cmdCluster D args =
     (case clusterApi D of
        Some a \<Rightarrow> value_replies (clusterCommand a args)
      | None \<Rightarrow> [RError not_clustered])"

definition cmdMigrate :: "'v disp \<Rightarrow> 'v srv \<Rightarrow> bytes list \<Rightarrow> reply list \<times> 'v srv" where
  "cmdMigrate D s args =
     (case clusterApi D of
        None \<Rightarrow> ([RError not_clustered], s)
      | Some a \<Rightarrow>
          if length args < 3 then ([RError (wrong_args ''MIGRATE'')], s)
          else case parseInt (args ! 1) of
            None \<Rightarrow> ([RError ''ERR invalid port''], s)
          | Some port \<Rightarrow>
              (case migrateKey a s (args ! 0) port (args ! 2) of (v, s') \<Rightarrow> (value_replies v, s')))"

text \<open>\<open>PSYNC\<close> hands the connection over to the replication stream: nothing goes into the buffer.\<close>

definition cmdPsync :: "'v disp \<Rightarrow> bytes list \<Rightarrow> reply list" where
  "cmdPsync D args =
     (case clusterApi D of
        None \<Rightarrow> [RError not_clustered]
      | Some _ \<Rightarrow> if length args < 1 then [RError (wrong_args ''PSYNC'')] else [])"

text \<open>\<open>SUBSCRIBE\<close> flushes the buffer before the write pump starts.\<close>

definition cmdSubscribe :: "conn \<Rightarrow> 'v cstate \<Rightarrow> bytes list \<Rightarrow> (conn \<times> 'v cstate) option" where
  "cmdSubscribe cs st args =
     (if length args < 1 then Some (say cs [RError (wrong_args ''SUBSCRIBE'')], st)
      else
        let cs1 = cs\<lparr>csent := csent cs @ cbuf cs, cbuf := []\<rparr> in
        map_option (\<lambda>h. (cs1, st\<lparr>chub := h\<rparr>)) (subscribe (chub st) (cid cs) args))"

definition cmdUnsubscribe :: "nat \<Rightarrow> 'v cstate \<Rightarrow> bytes list \<Rightarrow> (reply list \<times> 'v cstate) option" where
  "cmdUnsubscribe c st args =
     map_option (\<lambda>h. ([RSimple ''OK''], st\<lparr>chub := h\<rparr>)) (unsubscribe (chub st) c args)"

definition cmdPublish :: "'v cstate \<Rightarrow> bytes list \<Rightarrow> (reply list \<times> 'v cstate) option" where
  "cmdPublish st args =
     (if length args < 2 then Some ([RError (wrong_args ''PUBLISH'')], st)
      else map_option (\<lambda>(n, h). ([RInt (int n)], st\<lparr>chub := h\<rparr>)) (publish (chub st) (args ! 0) (args ! 1)))"

definition cmdCompact :: "'v cstate \<Rightarrow> bytes list \<Rightarrow> reply list \<times> 'v cstate" where
  "cmdCompact st args = ([RSimple ''OK compaction started''], st\<lparr>compactions := compactions st + 1\<rparr>)"

section \<open>Dispatch\<close>

text \<open>The commands on the server's stores.\<close>

definition srv_cmd :: "'v disp \<Rightarrow> 'v env \<Rightarrow> 'v srv \<Rightarrow> string \<Rightarrow> bytes list \<Rightarrow> (reply list \<times> 'v srv) option" where
  "srv_cmd D E s cmd args =
     (if cmd = ''PING'' then Some (cmdPing s args)
      else if cmd = ''MIGRATE'' then Some (cmdMigrate D s args)
      else if cmd = ''SET'' then Some (cmdSet E s args)
      else if cmd = ''GET'' then Some (cmdGet E s args)
      else if cmd = ''DEL'' then Some (cmdDel E s args)
      else if cmd = ''EXPIRE'' then Some (cmdExpire E s args)
      else if cmd = ''TTL'' then Some (cmdTTL E s args)
      else if cmd = ''PERSIST'' then Some (cmdPersist E s args)
      else if cmd = ''DBSIZE'' then Some (cmdDBSize s args)
      else if cmd \<in> vsim_cmds then Some (vecCmd D cmd s args)
      else if cmd = ''ZADD'' then Some (cmdZAdd E s args)
      else if cmd = ''ZSCORE'' then Some (cmdZScore E s args)
      else if cmd = ''ZREM'' then Some (cmdZRem s args)
      else if cmd = ''ZRANGEBYSCORE'' then Some (cmdZRangeByScore E (ToUpper D) s args)
      else if cmd = ''ZCARD'' then Some (cmdZCard s args)
      else None)"

text \<open>Every command but \<open>SUBSCRIBE\<close> only adds replies to the buffer.\<close>

definition run_cmd :: "'v disp \<Rightarrow> 'v env \<Rightarrow> nat \<Rightarrow> 'v cstate \<Rightarrow> string \<Rightarrow> bytes list \<Rightarrow> (reply list \<times> 'v cstate) option" where
  "run_cmd D E c st cmd args =
     (case srv_cmd D E (csrv st) cmd args of
        Some (rs, s) \<Rightarrow> Some (rs, st\<lparr>csrv := s\<rparr>)
      | None \<Rightarrow>
          if cmd = ''CLUSTER'' then Some (cmdCluster D args, st)
          else if cmd = ''PSYNC'' then Some (cmdPsync D args, st)
          else if cmd = ''UNSUBSCRIBE'' then cmdUnsubscribe c st args
          else if cmd = ''PUBLISH'' then cmdPublish st args
          else if cmd = ''COMPACT'' then Some (cmdCompact st args)
          else Some ([RError (''ERR unknown command '' @ [CHR 0x27] @ cmd @ [CHR 0x27])], st))"

text \<open>The gates of \<open>execute\<close>: memory, restore mode, failed journal.\<close>

definition gate :: "'v disp \<Rightarrow> 'v cstate \<Rightarrow> string \<Rightarrow> string option" where
  "gate D st cmd =
     (if isMemoryGrowingCmd cmd \<and> isOOM (skv (csrv st)) then
        Some (''OOM command not allowed when used memory > '' @ [CHR 0x27] @ ''maxmemory'' @ [CHR 0x27])
      else if 0 < restoreLSN D \<and> (isWriteCmd cmd \<or> cmd = ''COMPACT'') then
        Some (''READONLY point-in-time restore to LSN '' @ digits (restoreLSN D) @ '' serves reads only'')
      else if isWriteCmd cmd then
        map_option ((@) ''WAL persistence failed, writes are blocked (durability fail-stop): '') (wfail st)
      else None)"

definition execute :: "'v disp \<Rightarrow> 'v env \<Rightarrow> conn \<Rightarrow> 'v cstate \<Rightarrow> string \<Rightarrow> bytes list \<Rightarrow> (conn \<times> 'v cstate) option" where
  "execute D E cs st cmd args =
     (case gate D st cmd of
        Some err \<Rightarrow> Some (say cs [RError err], st)
      | None \<Rightarrow>
          if cmd = ''SUBSCRIBE'' then cmdSubscribe cs st args
          else map_option (\<lambda>(rs, st'). (say cs rs, st')) (run_cmd D E (cid cs) st cmd args))"

text \<open>\<open>Es i\<close> is the environment at the \<open>i\<close>-th command that runs within one call of \<open>handle\<close>.\<close>

fun exec_loop :: "'v disp \<Rightarrow> (nat \<Rightarrow> 'v env) \<Rightarrow> nat \<Rightarrow> conn \<Rightarrow> 'v cstate \<Rightarrow> bytes list list \<Rightarrow> (conn \<times> 'v cstate) option" where
  "exec_loop D Es i cs st [] = Some (cs, st)"
| "exec_loop D Es i cs st (q # qs) =
     (case execute D (Es i) cs st (ToUpper D (hd q)) (tl q) of
        None \<Rightarrow> None
      | Some (cs', st') \<Rightarrow> exec_loop D Es (Suc i) cs' st' qs)"

definition execQueuedTx :: "'v disp \<Rightarrow> (nat \<Rightarrow> 'v env) \<Rightarrow> conn \<Rightarrow> 'v cstate \<Rightarrow> bytes list list \<Rightarrow> (conn \<times> 'v cstate) option" where
  "execQueuedTx D Es cs st queue = exec_loop D Es 0 (say cs [RArrayHeader (length queue)]) st queue"

definition queueTxCommand :: "conn \<Rightarrow> bytes list \<Rightarrow> string \<Rightarrow> conn" where
  "queueTxCommand cs args cmd =
     (if forbiddenInTx cmd then
        say (cs\<lparr>txAborted := True\<rparr>) [RError (''ERR '' @ cmd @ '' is not allowed in transactions'')]
      else say (cs\<lparr>txQueue := txQueue cs @ [args]\<rparr>) [RSimple ''QUEUED''])"

text \<open>The gate of \<open>AUTH\<close>: what it answers, or that the command goes on.\<close>

definition auth_step :: "'v disp \<Rightarrow> conn \<Rightarrow> string \<Rightarrow> bytes list \<Rightarrow> conn option" where
  "auth_step D cs cmd cmdArgs =
     (if \<not> authEnabled D then None
      else if cmd = ''AUTH'' then
        (if length cmdArgs \<noteq> 1 then Some (say cs [RError (wrong_args ''AUTH'' @ '' command'')])
         else if sha256 D (cmdArgs ! 0) = authHash D then Some (say (cs\<lparr>authed := True\<rparr>) [RSimple ''OK''])
         else Some (say cs [RError ''ERR invalid password'']))
      else if \<not> authed cs \<and> cmd \<noteq> ''PING'' then Some (say cs [RError ''NOAUTH Authentication required''])
      else None)"

text \<open>Behind the gate: subscriber mode, transactions, one command.\<close>

definition after_auth :: "'v disp \<Rightarrow> (nat \<Rightarrow> 'v env) \<Rightarrow> conn \<Rightarrow> 'v cstate \<Rightarrow> bytes list \<Rightarrow> string \<Rightarrow> (conn \<times> 'v cstate) option" where
  "after_auth D Es cs st args cmd =
     (if isSubscriber (chub st) (cid cs) then
        map_option (\<lambda>h. (cs, st\<lparr>chub := h\<rparr>)) (handleSubscriberCommand (chub st) (cid cs) cmd (tl args))
      else if cmd = ''MULTI'' then
        Some (say (cs\<lparr>inTx := True, txQueue := [], txAborted := False\<rparr>) [RSimple ''OK''], st)
      else if cmd = ''DISCARD'' then
        (if \<not> inTx cs then Some (say cs [RError ''ERR DISCARD without MULTI''], st)
         else Some (say (cs\<lparr>inTx := False, txQueue := [], txAborted := False\<rparr>) [RSimple ''OK''], st))
      else if cmd = ''EXEC'' then
        (if \<not> inTx cs then Some (say cs [RError ''ERR EXEC without MULTI''], st)
         else if txAborted cs then
           Some ((say cs [RError ''EXECABORT Transaction discarded because of previous errors.''])
                   \<lparr>inTx := False, txQueue := [], txAborted := False\<rparr>, st)
         else map_option (\<lambda>(cs', st'). (cs'\<lparr>inTx := False, txQueue := []\<rparr>, st'))
                (execQueuedTx D Es cs st (txQueue cs)))
      else if inTx cs then Some (queueTxCommand cs args cmd, st)
      else execute D (Es 0) cs st cmd (tl args))"

definition handle :: "'v disp \<Rightarrow> (nat \<Rightarrow> 'v env) \<Rightarrow> conn \<Rightarrow> 'v cstate \<Rightarrow> bytes list \<Rightarrow> (conn \<times> 'v cstate) option" where
  "handle D Es cs st args =
     (if args = [] then Some (say cs [RError ''ERR empty command''], st)
      else case auth_step D cs (ToUpper D (hd args)) (tl args) of
        Some cs' \<Rightarrow> Some (cs', st)
      | None \<Rightarrow> after_auth D Es cs st args (ToUpper D (hd args)))"

text \<open>The commands of one connection, in order.\<close>

fun session :: "'v disp \<Rightarrow> conn \<Rightarrow> 'v cstate \<Rightarrow> ((nat \<Rightarrow> 'v env) \<times> bytes list) list \<Rightarrow> (conn \<times> 'v cstate) option" where
  "session D cs st [] = Some (cs, st)"
| "session D cs st ((Es, args) # xs) =
     (case handle D Es cs st args of None \<Rightarrow> None | Some (cs', st') \<Rightarrow> session D cs' st' xs)"

lemma say_sel [simp]: "cid (say cs rs) = cid cs" "inTx (say cs rs) = inTx cs" "txQueue (say cs rs) = txQueue cs"
  "txAborted (say cs rs) = txAborted cs" "authed (say cs rs) = authed cs" "cbuf (say cs rs) = cbuf cs @ rs" "csent (say cs rs) = csent cs"
  by (simp_all add: say_def)

lemma say_say [simp]: "say (say cs rs) rs' = say cs (rs @ rs')" and say_Nil [simp]: "say cs [] = cs"
  by (simp_all add: say_def)

section \<open>Authentication\<close>

definition logs_in :: "'v disp \<Rightarrow> bytes list \<Rightarrow> bool" where
  "logs_in D args \<longleftrightarrow> length args = 2 \<and> ToUpper D (hd args) = ''AUTH'' \<and> sha256 D (args ! 1) = authHash D"

definition closed_replies :: "reply set" where
  "closed_replies = {RSimple ''PONG'', RError ''ERR empty command'', RError ''NOAUTH Authentication required'',
     RError ''ERR invalid password'', RError (wrong_args ''AUTH'' @ '' command'')}"

lemma unauthenticated_step:
  assumes "authEnabled D" "\<not> authed cs" "\<not> inTx cs" "\<not> isSubscriber (chub st) (cid cs)" "\<not> logs_in D args"
  shows "\<exists>r \<in> closed_replies. handle D Es cs st args = Some (say cs [r], st)"
proof (cases "args = []")
  case True
  then show ?thesis by (simp add: handle_def closed_replies_def)
next
  case False
  show ?thesis
  proof (cases "ToUpper D (hd args) = ''AUTH''")
    case True
    have "sha256 D (args ! 1) \<noteq> authHash D" if "length args = 2" using assms(5) True that by (simp add: logs_in_def)
    moreover have "tl args ! 0 = args ! 1" if "length args = 2" using that by (cases args) auto
    ultimately show ?thesis using False True assms(1) by (simp add: handle_def auth_step_def closed_replies_def)
  next
    case na: False
    show ?thesis
    proof (cases "ToUpper D (hd args) = ''PING''")
      case True
      then show ?thesis using False assms
        by (simp add: handle_def auth_step_def after_auth_def execute_def gate_def isMemoryGrowingCmd_def isWriteCmd_def run_cmd_def
            srv_cmd_def cmdPing_def closed_replies_def)
    next
      case False
      then show ?thesis using \<open>args \<noteq> []\<close> na assms by (simp add: handle_def auth_step_def closed_replies_def)
    qed
  qed
qed

lemma unauthenticated_session:
  assumes "authEnabled D" "\<not> authed cs" "\<not> inTx cs" "\<not> isSubscriber (chub st) (cid cs)" "\<forall>x \<in> set xs. \<not> logs_in D (snd x)"
  shows "\<exists>rs. set rs \<subseteq> closed_replies \<and> length rs = length xs \<and> session D cs st xs = Some (say cs rs, st)"
  using assms(2-)
proof (induction xs arbitrary: cs)
  case (Cons x xs)
  obtain Es args where x: "x = (Es, args)" by fastforce
  obtain r where r: "r \<in> closed_replies" "handle D Es cs st args = Some (say cs [r], st)"
    using unauthenticated_step[OF assms(1) Cons.prems(1-3)] Cons.prems(4) x by fastforce
  obtain rs where rs: "set rs \<subseteq> closed_replies" "length rs = length xs" "session D (say cs [r]) st xs = Some (say (say cs [r]) rs, st)"
    using Cons.IH[of "say cs [r]"] Cons.prems by auto
  show ?case using r rs x by (intro exI[of _ "r # rs"]) simp
qed simp

lemma login_step:
  assumes "authEnabled D" "logs_in D args"
  shows "handle D Es cs st args = Some ((say cs [RSimple ''OK''])\<lparr>authed := True\<rparr>, st)"
proof -
  obtain a b where "args = [a, b]" using assms(2) by (cases args; cases "tl args") (auto simp: logs_in_def)
  then show ?thesis using assms by (simp add: logs_in_def handle_def auth_step_def say_def)
qed

text \<open>C20: With a password set, a connection that has not logged in reaches nothing: whatever commands it
  sends, as long as none is \<open>AUTH\<close> with one argument of the right digest, the stores, the journal,
  the hub and the connection's own state stay as they are and every command is answered by one of
  five fixed replies (\<open>PONG\<close> or an error); the first \<open>AUTH\<close> with the right digest is answered \<open>OK\<close>
  and authenticates it.\<close>
theorem auth_gate:
  assumes "authEnabled D" "\<not> authed cs" "\<not> inTx cs" "\<not> isSubscriber (chub st) (cid cs)"
    and "\<forall>x \<in> set xs. \<not> logs_in D (snd x)" and "logs_in D auth"
  shows "\<exists>rs. set rs \<subseteq> closed_replies \<and> length rs = length xs \<and>
    session D cs st xs = Some (say cs rs, st) \<and>
    handle D Es (say cs rs) st auth = Some ((say cs (rs @ [RSimple ''OK'']))\<lparr>authed := True\<rparr>, st)"
  using unauthenticated_session[OF assms(1-5)] login_step[OF assms(1,6)] by (metis say_say)

section \<open>Gates\<close>

text \<open>What a command that only reads may do: evict keys whose deadline has passed, and journal the
  deletion of their vectors.\<close>

definition reads_only :: "'v env \<Rightarrow> 'v srv \<Rightarrow> 'v srv \<Rightarrow> bool" where
  "reads_only E s s' \<longleftrightarrow> srv_inv s' \<and> zview (szset s') = zview (szset s) \<and>
     (\<forall>k. kview (skv s') k = kview (skv s) k \<or>
        kview (skv s') k = None \<and> (\<exists>d. ttl_get (sttl s) k = Some d \<and> d \<le> mono E)) \<and>
     (\<exists>js. jr s' = jr s @ js \<and> (\<forall>e \<in> set js. Op e = OpVSimDel))"

definition vec_reads :: "'v disp \<Rightarrow> 'v env \<Rightarrow> bool" where
  "vec_reads D E \<longleftrightarrow> (\<forall>cmd s args. \<not> isWriteCmd cmd \<longrightarrow> srv_inv s \<longrightarrow> reads_only E s (snd (vecCmd D cmd s args)))"

lemma reads_refl [simp]: "srv_inv s \<Longrightarrow> reads_only E s s"
  by (auto simp: reads_only_def)

lemma expired_reads:
  assumes "srv_inv s" "mono E \<le> mono2 E" "srv_isExpired E s key = (b, s')"
  shows "reads_only E s s'"
proof -
  have t: "ttl_inv (sttl s)" using assms(1) by (simp add: srv_inv_def)
  have e: "srv_isExpired E s key =
    (case ttl_get (sttl s) key of
       None \<Rightarrow> (False, s)
     | Some e \<Rightarrow> if e \<le> mono E then (True, (snd (compositeEvictor_Del E s key))\<lparr>sttl := onDelete (sttl s) key\<rparr>)
         else (False, s))"
    unfolding srv_isExpired_def expired_spec[OF t assms(2)] by (simp split: option.splits)
  obtain bd k where d: "kv_del (skv s) key = (bd, k)" by fastforce
  obtain bv v where v: "vecDelete E (svec s) key = (bv, v)" by fastforce
  have c: "compositeEvictor_Del E s key = (bd \<or> bv, (let s' = s\<lparr>skv := k, svec := v\<rparr> in if bv then jwrite s' OpVSimDel key [] else s'))"
    by (simp add: compositeEvictor_Del_def d v Let_def)
  have "jr (snd (compositeEvictor_Del E s key)) = jr s @ (if bv then [\<lparr>LSN = 0, Op = OpVSimDel, Key = key, Value = []\<rparr>] else [])"
    unfolding c by (simp add: Let_def)
  then have "\<exists>js. jr s' = jr s @ js \<and> (\<forall>e \<in> set js. Op e = OpVSimDel)"
    using assms(3) unfolding e by (auto split: option.splits if_splits)
  moreover have "zview (szset s') = zview (szset s)"
    using assms(3) compositeEvictor_spec(4)[OF assms(1)] unfolding e by (auto split: option.splits if_splits)
  moreover note p = srv_isExpired_spec[OF assms]
  have "kview (skv s') k = kview (skv s) k \<or> kview (skv s') k = None \<and> (\<exists>d. ttl_get (sttl s) k = Some d \<and> d \<le> mono E)" for k
    using p(2,3,4) by (cases b; cases "k = key") auto
  ultimately show ?thesis using p(1) unfolding reads_only_def by blast
qed

lemma get_reads:
  assumes "srv_inv s" "mono E \<le> mono2 E"
  shows "reads_only E s (snd (cmdGet E s args))"
proof (cases "length args < 1")
  case False
  obtain b s1 where x: "srv_isExpired E s (args ! 0) = (b, s1)" by fastforce
  have "snd (cmdGet E s args) = s \<or> snd (cmdGet E s args) = s1"
    using False x unfolding cmdGet_def Let_def
    by (cases "case cluster E of None \<Rightarrow> None | Some h \<Rightarrow> if \<not> isReplica h then checkKey h (args ! 0) else None")
      (auto split: option.splits)
  then show ?thesis using expired_reads[OF assms x] assms(1) by auto
qed (use assms in \<open>simp add: cmdGet_def\<close>)

lemma snd_pure: "snd (cmdTTL E s args) = s" "snd (cmdZScore E s args) = s" "snd (cmdZRangeByScore E f s args) = s"
  "snd (cmdZCard s args) = s" "snd (cmdDBSize s args) = s" "snd (cmdPing s args) = s"
  by (auto simp: cmdTTL_def cmdZScore_def cmdZRangeByScore_def cmdZCard_def cmdDBSize_def cmdPing_def Let_def split: option.splits)

lemma srv_cmd_reads:
  assumes "srv_inv s" "mono E \<le> mono2 E" "vec_reads D E" "\<not> isWriteCmd cmd" "cmd \<noteq> ''MIGRATE''" "srv_cmd D E s cmd args = Some (rs, s')"
  shows "reads_only E s s'"
proof -
  have pure: "reads_only E s s'" if "snd r = s" "r = (rs, s')" for r using that assms(1) by auto
  have w: "cmd \<notin> {''SET'', ''DEL'', ''EXPIRE'', ''PERSIST'', ''ZADD'', ''ZREM''}" using assms(4) by (auto simp: isWriteCmd_def)
  have g: "reads_only E s s'" if "cmdGet E s args = (rs, s')" using get_reads[OF assms(1,2), of args] that by simp
  have v: "reads_only E s s'" if "vecCmd D cmd s args = (rs, s')"
    using assms(1,3,4) that unfolding vec_reads_def by (metis snd_conv)
  note q = pure[OF snd_pure(1)] pure[OF snd_pure(2)] pure[OF snd_pure(3)] pure[OF snd_pure(4)] pure[OF snd_pure(5)] pure[OF snd_pure(6)]
  show ?thesis
    using assms(6) w assms(5) g v q unfolding srv_cmd_def by (auto split: if_splits)
qed

definition blocked :: "'v disp \<Rightarrow> 'v cstate \<Rightarrow> string \<Rightarrow> bool" where
  "blocked D st cmd \<longleftrightarrow>
     isWriteCmd cmd \<and> (wfail st \<noteq> None \<or> 0 < restoreLSN D) \<or>
     isMemoryGrowingCmd cmd \<and> isOOM (skv (csrv st)) \<or> cmd = ''COMPACT'' \<and> 0 < restoreLSN D"

lemma growing_writes: "isMemoryGrowingCmd cmd \<Longrightarrow> isWriteCmd cmd"
  by (auto simp: isMemoryGrowingCmd_def isWriteCmd_def)

lemma gate_blocked: "gate D st cmd \<noteq> None \<longleftrightarrow> blocked D st cmd"
  using growing_writes by (auto simp: gate_def blocked_def)

text \<open>\<open>execute\<close> without \<open>SUBSCRIBE\<close>: the replies and the new state.\<close>

definition exec_out :: "'v disp \<Rightarrow> 'v env \<Rightarrow> nat \<Rightarrow> 'v cstate \<Rightarrow> string \<Rightarrow> bytes list \<Rightarrow> (reply list \<times> 'v cstate) option" where
  "exec_out D E c st cmd args =
     (case gate D st cmd of Some err \<Rightarrow> Some ([RError err], st) | None \<Rightarrow> run_cmd D E c st cmd args)"

lemma execute_out:
  "cmd \<noteq> ''SUBSCRIBE'' \<Longrightarrow>
   execute D E cs st cmd args = map_option (\<lambda>(rs, st'). (say cs rs, st')) (exec_out D E (cid cs) st cmd args)"
  by (auto simp: execute_def exec_out_def split: option.splits)

lemma run_cmd_srv:
  "run_cmd D E c st cmd args = Some (rs, st') \<Longrightarrow> srv_cmd D E (csrv st) cmd args = None \<Longrightarrow> csrv st' = csrv st"
  by (auto simp: run_cmd_def cmdUnsubscribe_def cmdPublish_def cmdCompact_def split: if_splits)

lemma execute_reads:
  assumes "srv_inv (csrv st)" "mono E \<le> mono2 E" "vec_reads D E" "\<not> isWriteCmd cmd" "cmd \<noteq> ''MIGRATE''"
    and e: "execute D E cs st cmd args = Some (cs', st')"
  shows "reads_only E (csrv st) (csrv st')"
proof (cases "cmd = ''SUBSCRIBE'' \<or> gate D st cmd \<noteq> None")
  case True
  then have "csrv st' = csrv st"
    using e by (auto simp: execute_def cmdSubscribe_def Let_def split: option.splits if_splits)
  then show ?thesis using assms(1) by simp
next
  case False
  then obtain rs where r: "run_cmd D E (cid cs) st cmd args = Some (rs, st')"
    using e by (auto simp: execute_def)
  show ?thesis
  proof (cases "srv_cmd D E (csrv st) cmd args")
    case None
    then show ?thesis using run_cmd_srv[OF r] assms(1) by simp
  next
    case (Some x)
    then show ?thesis using srv_cmd_reads[OF assms(1-5)] r by (cases x) (auto simp: run_cmd_def)
  qed
qed


section \<open>Transactions\<close>

fun run_all :: "'v disp \<Rightarrow> (nat \<Rightarrow> 'v env) \<Rightarrow> nat \<Rightarrow> nat \<Rightarrow> 'v cstate \<Rightarrow> bytes list list \<Rightarrow> (reply list \<times> 'v cstate) option" where
  "run_all D Es i c st [] = Some ([], st)"
| "run_all D Es i c st (q # qs) =
     (case exec_out D (Es i) c st (ToUpper D (hd q)) (tl q) of
        None \<Rightarrow> None
      | Some (rs, st') \<Rightarrow> map_option (\<lambda>(rs', st''). (rs @ rs', st'')) (run_all D Es (Suc i) c st' qs))"

lemma exec_loop_all:
  "\<forall>q \<in> set qs. \<not> forbiddenInTx (ToUpper D (hd q)) \<Longrightarrow>
   exec_loop D Es i cs st qs = map_option (\<lambda>(rs, st'). (say cs rs, st')) (run_all D Es i (cid cs) st qs)"
proof (induction qs arbitrary: i cs st)
  case (Cons q qs)
  have "ToUpper D (hd q) \<noteq> ''SUBSCRIBE''" using Cons.prems by (auto simp: forbiddenInTx_def)
  then show ?case using Cons.IH Cons.prems
    by (auto simp: execute_out option.map_comp comp_def case_prod_beta split: option.splits)
qed simp

definition plain_cmd :: "'v disp \<Rightarrow> bytes list \<Rightarrow> bool" where
  "plain_cmd D q \<longleftrightarrow> q \<noteq> [] \<and> ToUpper D (hd q) \<notin> {''AUTH'', ''MULTI'', ''DISCARD'', ''EXEC''}"

definition admitted :: "'v disp \<Rightarrow> conn \<Rightarrow> 'v cstate \<Rightarrow> bool" where
  "admitted D cs st \<longleftrightarrow> (\<not> authEnabled D \<or> authed cs) \<and> \<not> isSubscriber (chub st) (cid cs)"

lemma handle_admitted:
  "admitted D cs st \<Longrightarrow> args \<noteq> [] \<Longrightarrow> ToUpper D (hd args) \<noteq> ''AUTH'' \<Longrightarrow>
   handle D Es cs st args = after_auth D Es cs st args (ToUpper D (hd args))"
  by (auto simp: handle_def admitted_def auth_step_def)

lemma queue_phase:
  "admitted D cs st \<Longrightarrow> inTx cs \<Longrightarrow> \<forall>q \<in> set qs. plain_cmd D q \<and> \<not> forbiddenInTx (ToUpper D (hd q)) \<Longrightarrow>
   session D cs st (map (Pair E1) qs @ xs) =
   session D (say (cs\<lparr>txQueue := txQueue cs @ qs\<rparr>) (replicate (length qs) (RSimple ''QUEUED''))) st xs"
proof (induction qs arbitrary: cs)
  case (Cons q qs)
  have h: "handle D E1 cs st q = Some (say (cs\<lparr>txQueue := txQueue cs @ [q]\<rparr>) [RSimple ''QUEUED''], st)"
    using Cons.prems by (simp add: handle_admitted plain_cmd_def after_auth_def queueTxCommand_def) (simp add: admitted_def)
  let ?cs = "say (cs\<lparr>txQueue := txQueue cs @ [q]\<rparr>) [RSimple ''QUEUED'']"
  have "admitted D ?cs st" "inTx ?cs" using Cons.prems by (simp_all add: admitted_def)
  from Cons.IH[OF this] Cons.prems(3) show ?case
    by (simp add: h) (simp add: say_def)
qed (simp add: say_def)

text \<open>The hub never makes a connection a subscriber by these commands.\<close>

lemma leave_all_subscribers [simp]: "subscribers (leave_all h i) = subscribers h" "subs (leave_all h i) = subs h"
proof -
  have "subscribers (fold (\<lambda>c h. leave_channel h i c) cs h) = subscribers h \<and> subs (fold (\<lambda>c h. leave_channel h i c) cs h) = subs h" for cs
    by (induction cs arbitrary: h) auto
  then show "subscribers (leave_all h i) = subscribers h" "subs (leave_all h i) = subs h" by (simp_all add: leave_all_def)
qed

lemma offer_subscribers: "offer h i m = Some (b, h') \<Longrightarrow> isSubscriber h' c \<Longrightarrow> isSubscriber h c"
  by (auto simp: offer_def disconnectSlow_def Let_def isSubscriber_def split: if_splits)

lemma deliver_subscribers: "deliver h is m n = Some (k, h') \<Longrightarrow> isSubscriber h' c \<Longrightarrow> isSubscriber h c"
proof (induction "is" arbitrary: h n)
  case (Cons i "is")
  then obtain b h1 where "offer h i m = Some (b, h1)" "deliver h1 is m (if b then n + 1 else n) = Some (k, h')"
    by (auto split: option.splits prod.splits)
  then show ?case using Cons.IH Cons.prems(2) offer_subscribers by blast
qed simp

lemma unsubscribe_subscribers:
  assumes "unsubscribe h conn chans = Some h'" "isSubscriber h' c"
  shows "isSubscriber h c"
proof -
  have f: "subscribers (fold (\<lambda>c h. upd_sub (leave_channel h i c) i (\<lambda>s. s\<lparr>schans := removeAll c (schans s)\<rparr>)) cs h) = subscribers h" for cs h i
    by (induction cs arbitrary: h) auto
  show ?thesis using assms
    by (auto simp: unsubscribe_def Let_def closeSub_def isSubscriber_def f split: option.splits if_splits)
qed

lemma exec_out_subscribers:
  assumes "exec_out D E c st cmd args = Some (rs, st')" "isSubscriber (chub st') x"
  shows "isSubscriber (chub st) x"
proof -
  have u: "isSubscriber (chub st) x" if "cmdUnsubscribe c st args = Some (rs, st')"
    using that assms(2) by (auto simp: cmdUnsubscribe_def dest: unsubscribe_subscribers)
  have p: "isSubscriber (chub st) x" if "cmdPublish st args = Some (rs, st')"
    using that assms(2) by (auto simp: cmdPublish_def publish_def split: if_splits dest: deliver_subscribers)
  show ?thesis using assms u p
    by (auto simp: exec_out_def run_cmd_def cmdCompact_def split: option.splits if_splits)
qed

text \<open>The commands sent one by one, the \<open>i\<close>-th at \<open>Es i\<close>.\<close>

fun direct :: "(nat \<Rightarrow> 'v env) \<Rightarrow> nat \<Rightarrow> bytes list list \<Rightarrow> ((nat \<Rightarrow> 'v env) \<times> bytes list) list" where
  "direct Es i [] = []"
| "direct Es i (q # qs) = ((\<lambda>_. Es i), q) # direct Es (Suc i) qs"

lemma direct_phase:
  "admitted D cs st \<Longrightarrow> \<not> inTx cs \<Longrightarrow> \<forall>q \<in> set qs. plain_cmd D q \<and> \<not> forbiddenInTx (ToUpper D (hd q)) \<Longrightarrow>
   session D cs st (direct Es i qs) = map_option (\<lambda>(rs, st'). (say cs rs, st')) (run_all D Es i (cid cs) st qs)"
proof (induction qs arbitrary: i cs st)
  case (Cons q qs)
  have ns: "ToUpper D (hd q) \<noteq> ''SUBSCRIBE''" using Cons.prems by (auto simp: forbiddenInTx_def)
  have h: "handle D (\<lambda>_. Es i) cs st q =
    map_option (\<lambda>(rs, st'). (say cs rs, st')) (exec_out D (Es i) (cid cs) st (ToUpper D (hd q)) (tl q))"
    using Cons.prems by (simp add: handle_admitted plain_cmd_def after_auth_def execute_out[OF ns]) (simp add: admitted_def)
  show ?case
  proof (cases "exec_out D (Es i) (cid cs) st (ToUpper D (hd q)) (tl q)")
    case None
    then show ?thesis by (simp add: h)
  next
    case (Some x)
    obtain rs st' where x: "x = (rs, st')" by fastforce
    have "admitted D (say cs rs) st'" using Cons.prems(1) exec_out_subscribers[of D "Es i" "cid cs" st _ _ rs st'] Some x
      by (auto simp: admitted_def)
    from Cons.IH[OF this] Cons.prems show ?thesis
      by (simp add: h Some x option.map_comp comp_def case_prod_beta)
  qed
qed simp

lemma session_append:
  "session D cs st (xs @ ys) = (case session D cs st xs of None \<Rightarrow> None | Some (cs', st') \<Rightarrow> session D cs' st' ys)"
  by (induction D cs st xs rule: session.induct) (auto split: option.splits)

lemma upper_words [simp]: "ToUpper D ''MULTI'' = ''MULTI''" "ToUpper D ''EXEC'' = ''EXEC''" "ToUpper D ''SUBSCRIBE'' = ''SUBSCRIBE''"
  by (simp_all add: ToUpper_def upper_char_def nat_of_byte_def byte_of_def)

text \<open>A forbidden command leaves the transaction aborted, whatever follows it.\<close>

definition queue_reply :: "'v disp \<Rightarrow> bytes list \<Rightarrow> reply" where
  "queue_reply D q =
     (if forbiddenInTx (ToUpper D (hd q)) then RError (''ERR '' @ ToUpper D (hd q) @ '' is not allowed in transactions'')
      else RSimple ''QUEUED'')"

lemma aborting_phase:
  "admitted D cs st \<Longrightarrow> inTx cs \<Longrightarrow> \<forall>q \<in> set qs. plain_cmd D q \<Longrightarrow>
   txAborted cs \<or> (\<exists>q \<in> set qs. forbiddenInTx (ToUpper D (hd q))) \<Longrightarrow>
   \<exists>Q. session D cs st (map (Pair E1) qs) = Some ((say cs (map (queue_reply D) qs))\<lparr>txQueue := Q, txAborted := True\<rparr>, st)"
proof (induction qs arbitrary: cs)
  case Nil
  then show ?case by (intro exI[of _ "txQueue cs"]) simp
next
  case (Cons q qs)
  let ?cs = "queueTxCommand cs q (ToUpper D (hd q))"
  have h: "handle D E1 cs st q = Some (?cs, st)"
    using Cons.prems by (simp add: handle_admitted plain_cmd_def after_auth_def) (simp add: admitted_def)
  have a: "admitted D ?cs st" "inTx ?cs" "\<forall>q \<in> set qs. plain_cmd D q"
    "txAborted ?cs \<or> (\<exists>q \<in> set qs. forbiddenInTx (ToUpper D (hd q)))"
    using Cons.prems by (auto simp: queueTxCommand_def admitted_def)
  obtain Q where r: "session D ?cs st (map (Pair E1) qs) = Some ((say ?cs (map (queue_reply D) qs))\<lparr>txQueue := Q, txAborted := True\<rparr>, st)"
    using Cons.IH[OF a] by blast
  have "(say ?cs (map (queue_reply D) qs))\<lparr>txQueue := Q, txAborted := True\<rparr> =
      (say cs (map (queue_reply D) (q # qs)))\<lparr>txQueue := Q, txAborted := True\<rparr>"
    by (cases cs) (simp add: queueTxCommand_def say_def queue_reply_def)
  then show ?case using r by (intro exI[of _ Q]) (simp add: h)
qed

lemma multi_step:
  "admitted D cs st \<Longrightarrow> handle D E0 cs st [''MULTI''] = Some (say (cs\<lparr>inTx := True, txQueue := [], txAborted := False\<rparr>) [RSimple ''OK''], st)"
  by (simp add: handle_admitted after_auth_def) (simp add: admitted_def)

lemma exec_step:
  assumes "admitted D cs st" "inTx cs"
  shows "txAborted cs \<Longrightarrow> handle D Es cs st [''EXEC''] =
      Some ((say cs [RError ''EXECABORT Transaction discarded because of previous errors.''])
        \<lparr>inTx := False, txQueue := [], txAborted := False\<rparr>, st)"
    "\<not> txAborted cs \<Longrightarrow> handle D Es cs st [''EXEC''] =
      map_option (\<lambda>(cs', st'). (cs'\<lparr>inTx := False, txQueue := []\<rparr>, st')) (execQueuedTx D Es cs st (txQueue cs))"
proof -
  have "\<not> isSubscriber (chub st) (cid cs)" using assms(1) by (simp add: admitted_def)
  then show "txAborted cs \<Longrightarrow> handle D Es cs st [''EXEC''] =
      Some ((say cs [RError ''EXECABORT Transaction discarded because of previous errors.''])
        \<lparr>inTx := False, txQueue := [], txAborted := False\<rparr>, st)"
    "\<not> txAborted cs \<Longrightarrow> handle D Es cs st [''EXEC''] =
      map_option (\<lambda>(cs', st'). (cs'\<lparr>inTx := False, txQueue := []\<rparr>, st')) (execQueuedTx D Es cs st (txQueue cs))"
    using assms by (simp_all add: handle_admitted after_auth_def)
qed

definition tx_session :: "(nat \<Rightarrow> 'v env) \<Rightarrow> (nat \<Rightarrow> 'v env) \<Rightarrow> (nat \<Rightarrow> 'v env) \<Rightarrow> bytes list list \<Rightarrow> ((nat \<Rightarrow> 'v env) \<times> bytes list) list" where
  "tx_session E0 E1 Es qs = (E0, [''MULTI'']) # map (Pair E1) qs @ [(Es, [''EXEC''])]"

text \<open>C22: A transaction is its commands. For a connection outside a transaction, \<open>MULTI\<close>, the commands and
  \<open>EXEC\<close> give the state that the same commands give when they are sent one by one (with the same
  clock readings and answers from outside), and the replies are \<open>OK\<close>, one \<open>QUEUED\<close> each, and the array
  of the replies the commands get directly; it panics exactly if they do. With a \<open>SUBSCRIBE\<close> or \<open>UNSUBSCRIBE\<close>
  among them nothing is executed: \<open>EXEC\<close> answers \<open>EXECABORT\<close> and the state is as before.\<close>
theorem tx_outcome:
  assumes "admitted D cs st" "\<not> inTx cs" "txQueue cs = []" "\<not> txAborted cs" "\<forall>q \<in> set qs. plain_cmd D q"
  shows "session D cs st (tx_session E0 E1 Es qs) =
    (if \<exists>q \<in> set qs. forbiddenInTx (ToUpper D (hd q)) then
       Some (say cs (RSimple ''OK'' # map (queue_reply D) qs @
               [RError ''EXECABORT Transaction discarded because of previous errors.'']), st)
     else map_option (\<lambda>(cs', st'). (say cs (RSimple ''OK'' # replicate (length qs) (RSimple ''QUEUED'') @
            RArrayHeader (length qs) # drop (length (cbuf cs)) (cbuf cs')), st')) (session D cs st (direct Es 0 qs)))"
proof -
  let ?cs = "say (cs\<lparr>inTx := True, txQueue := [], txAborted := False\<rparr>) [RSimple ''OK'']"
  have a: "admitted D ?cs st" "inTx ?cs" using assms(1) by (simp_all add: admitted_def)
  have s: "session D cs st (tx_session E0 E1 Es qs) = session D ?cs st (map (Pair E1) qs @ [(Es, [''EXEC''])])"
    by (simp add: tx_session_def multi_step[OF assms(1)])
  show ?thesis
  proof (cases "\<exists>q \<in> set qs. forbiddenInTx (ToUpper D (hd q))")
    case True
    obtain Q where Q: "session D ?cs st (map (Pair E1) qs) = Some ((say ?cs (map (queue_reply D) qs))\<lparr>txQueue := Q, txAborted := True\<rparr>, st)"
      using aborting_phase[OF a assms(5)] True by blast
    let ?c2 = "(say ?cs (map (queue_reply D) qs))\<lparr>txQueue := Q, txAborted := True\<rparr>"
    have a2: "admitted D ?c2 st" using assms(1) by (simp add: admitted_def)
    have "handle D Es ?c2 st [''EXEC''] = Some ((say ?c2 [RError ''EXECABORT Transaction discarded because of previous errors.''])
        \<lparr>inTx := False, txQueue := [], txAborted := False\<rparr>, st)"
      by (rule exec_step(1)[OF a2]) simp_all
    moreover have "(say ?c2 [RError ''EXECABORT Transaction discarded because of previous errors.''])
        \<lparr>inTx := False, txQueue := [], txAborted := False\<rparr> =
      say cs (RSimple ''OK'' # map (queue_reply D) qs @ [RError ''EXECABORT Transaction discarded because of previous errors.''])"
      using assms(2-4) by (cases cs) (simp add: say_def)
    ultimately show ?thesis using True by (simp only: s session_append Q option.case prod.case session.simps if_True)
  next
    case False
    then have f: "\<forall>q \<in> set qs. plain_cmd D q \<and> \<not> forbiddenInTx (ToUpper D (hd q))" using assms(5) by blast
    let ?c2 = "say (?cs\<lparr>txQueue := txQueue ?cs @ qs\<rparr>) (replicate (length qs) (RSimple ''QUEUED''))"
    have a2: "admitted D ?c2 st" using assms(1) by (simp add: admitted_def)
    have l: "execQueuedTx D Es ?c2 st qs = map_option (\<lambda>(rs, st'). (say (say ?c2 [RArrayHeader (length qs)]) rs, st')) (run_all D Es 0 (cid cs) st qs)"
      using f by (subst execQueuedTx_def, subst exec_loop_all) simp_all
    have e: "handle D Es ?c2 st [''EXEC''] = map_option (\<lambda>(cs', st'). (cs'\<lparr>inTx := False, txQueue := []\<rparr>, st'))
        (execQueuedTx D Es ?c2 st qs)"
      by (subst exec_step(2)[OF a2]) simp_all
    have d: "session D cs st (direct Es 0 qs) = map_option (\<lambda>(rs, st'). (say cs rs, st')) (run_all D Es 0 (cid cs) st qs)"
      by (rule direct_phase[OF assms(1,2) f])
    have c: "(say (say ?c2 [RArrayHeader (length qs)]) rs)\<lparr>inTx := False, txQueue := []\<rparr> =
      say cs (RSimple ''OK'' # replicate (length qs) (RSimple ''QUEUED'') @ RArrayHeader (length qs) # drop (length (cbuf cs)) (cbuf (say cs rs)))" for rs
      using assms(2-4) by (cases cs) (simp add: say_def)
    have "session D cs st (tx_session E0 E1 Es qs) = handle D Es ?c2 st [''EXEC'']"
      unfolding s queue_phase[OF a f] by (simp only: session.simps) (simp split: option.split)
    also have "\<dots> = map_option (\<lambda>(rs, st'). ((say (say ?c2 [RArrayHeader (length qs)]) rs)\<lparr>inTx := False, txQueue := []\<rparr>, st'))
        (run_all D Es 0 (cid cs) st qs)"
      unfolding e l by (cases "run_all D Es 0 (cid cs) st qs") (auto simp: case_prod_beta)
    finally show ?thesis unfolding d c using False
      by (cases "run_all D Es 0 (cid cs) st qs") (simp_all add: case_prod_beta)
  qed
qed

section \<open>Replies as RESP values\<close>

text \<open>How many more values the reader waits for.\<close>

fun needs :: "nat \<Rightarrow> reply list \<Rightarrow> nat option" where
  "needs n [] = Some n"
| "needs 0 (r # rs) = None"
| "needs (Suc n) (RArrayHeader m # rs) = needs (n + m) rs"
| "needs (Suc n) (r # rs) = needs n rs"

definition one :: "reply list \<Rightarrow> bool" where
  "one rs \<longleftrightarrow> needs 1 rs = Some 0"

lemma needs_append: "needs n rs = Some m \<Longrightarrow> needs n (rs @ rs') = needs m rs'"
  by (induction n rs rule: needs.induct) auto

lemma needs_add: "needs n rs = Some m \<Longrightarrow> needs (n + k) rs = Some (m + k)"
proof (induction n rs rule: needs.induct)
  case (3 n j rs)
  have "n + k + j = n + j + k" by simp
  then show ?case using 3 by (metis add_Suc needs.simps(3))
qed auto

lemma needs_one: "one rs \<Longrightarrow> needs n rs' = Some 0 \<Longrightarrow> needs (Suc n) (rs @ rs') = Some 0"
  using needs_append[of "Suc n" rs n rs'] needs_add[of 1 rs 0 n] by (simp add: one_def)

lemma one_single [simp]: "one [RSimple s]" "one [RError s]" "one [RInt n]" "one [RBulk b]" "one [RNull]"
  by (simp_all add: one_def)

fun proper :: "pvalue \<Rightarrow> bool" where
  "proper (PValue t s n vs) \<longleftrightarrow>
     t \<in> {CHR ''+'', CHR ''-'', CHR '':'', CHR ''$''} \<or> t = CHR ''*'' \<and> (\<forall>v \<in> set vs. proper v)"

text \<open>The value of one reply that is not an array header.\<close>

fun scalar :: "reply \<Rightarrow> pvalue" where
  "scalar (RSimple s) = vsimple s"
| "scalar (RError s) = verror s"
| "scalar (RInt n) = vint n"
| "scalar (RBulk b) = vbulk b"
| "scalar RNull = vnull"
| "scalar (RArrayHeader n) = varray []"

lemma scalar_replies: "(\<forall>m. r \<noteq> RArrayHeader m) \<Longrightarrow> proper (scalar r) \<and> value_replies (scalar r) = [r] \<and> needs (Suc n) (r # rs) = needs n rs"
  by (cases r) (simp_all add: vsimple_def verror_def vint_def vbulk_def vnull_def)

lemma needs_values:
  "needs n rs = Some 0 \<Longrightarrow> \<exists>vs. length vs = n \<and> (\<forall>v \<in> set vs. proper v) \<and> rs = concat (map value_replies vs)"
proof (induction rs arbitrary: n)
  case (Cons r rs)
  obtain n' where n: "n = Suc n'" using Cons.prems by (cases n) auto
  show ?case
  proof (cases "\<exists>m. r = RArrayHeader m")
    case True
    then obtain m where m: "r = RArrayHeader m" by blast
    obtain vs where vs: "length vs = n' + m" "\<forall>v \<in> set vs. proper v" "rs = concat (map value_replies vs)"
      using Cons.IH[of "n' + m"] Cons.prems n m by auto
    let ?vs = "varray (take m vs) # drop m vs"
    have "r # rs = RArrayHeader m # concat (map value_replies (take m vs)) @ concat (map value_replies (drop m vs))"
      unfolding vs(3) m by (metis append_take_drop_id concat_append map_append)
    also have "\<dots> = concat (map value_replies ?vs)" using vs(1) by (simp add: varray_def)
    finally have "r # rs = concat (map value_replies ?vs)" .
    moreover have "length ?vs = n" using vs(1) n by simp
    moreover have "\<forall>v \<in> set ?vs. proper v" using vs(2) by (auto simp: varray_def dest: in_set_takeD in_set_dropD)
    ultimately show ?thesis by blast
  next
    case False
    then have s: "proper (scalar r)" "value_replies (scalar r) = [r]" "needs n (r # rs) = needs n' rs"
      using scalar_replies[of r n' rs] n by auto
    then obtain vs where "length vs = n'" "\<forall>v \<in> set vs. proper v" "rs = concat (map value_replies vs)"
      using Cons.IH[of n'] Cons.prems by auto
    then show ?thesis using s n by (intro exI[of _ "scalar r # vs"]) simp
  qed
qed simp

lemma one_value: "one rs \<Longrightarrow> \<exists>v. proper v \<and> rs = value_replies v"
  unfolding one_def by (drule needs_values) (auto simp: length_Suc_conv)

text \<open>The bytes of a value's replies are what \<open>Marshal\<close> gives.\<close>

lemma emit_marshal: "wbuf (fold emit (value_replies v) cb) = wbuf cb @ marshal v"
proof (induction v arbitrary: cb rule: pvalue.induct)
  case (PValue t s n vs)
  have vs: "wbuf (fold emit (concat (map value_replies us)) cb) = wbuf cb @ concat (map marshal us)" if "set us \<subseteq> set vs" for us cb
    using that
  proof (induction us arbitrary: cb)
    case (Cons u us)
    then show ?case using PValue.IH[of u] by simp
  qed simp
  show ?case using vs[of vs]
    by (simp add: marshalSimpleString_def marshalError_def marshalInteger_def marshalBulkString_def writeSimpleString_def
        writeError_def writeInt_def writeBulk_def writeNull_def writeArrayHeader_def put_def)
qed

text \<open>What is asked of the parameters: the vector commands, the redirects of the cluster and its commands
  each give one value.\<close>

definition framed :: "'v disp \<Rightarrow> 'v env \<Rightarrow> bool" where
  "framed D E \<longleftrightarrow>
     (\<forall>cmd s args. one (fst (vecCmd D cmd s args))) \<and>
     (\<forall>h key r. cluster E = Some h \<longrightarrow> checkKey h key = Some r \<or> checkKeyAsk h key = Some r \<longrightarrow> one r) \<and>
     (\<forall>a s args host port key. clusterApi D = Some a \<longrightarrow>
        one (value_replies (clusterCommand a args)) \<and> one (value_replies (fst (migrateKey a s host port key))))"

definition hands_over :: "'v disp \<Rightarrow> string \<Rightarrow> bytes list \<Rightarrow> bool" where
  "hands_over D cmd args \<longleftrightarrow> cmd = ''PSYNC'' \<and> args \<noteq> [] \<and> clusterApi D \<noteq> None"

lemma framed_moved: "framed D E \<Longrightarrow> moved E key = Some r \<Longrightarrow> one r"
  by (auto simp: framed_def moved_def split: option.splits)

lemma one_kv_commands:
  assumes f: "framed D E"
  shows "one (fst (cmdSet E s args))" "one (fst (cmdGet E s args))" "one (fst (cmdDel E s args))" "one (fst (cmdExpire E s args))"
    "one (fst (cmdTTL E s args))" "one (fst (cmdPersist E s args))"
proof -
  note m = framed_moved[OF f]
  show "one (fst (cmdSet E s args))" "one (fst (cmdDel E s args))" "one (fst (cmdExpire E s args))"
    "one (fst (cmdTTL E s args))" "one (fst (cmdPersist E s args))"
    using m by (auto simp: cmdSet_def cmdDel_def cmdExpire_def cmdTTL_def cmdPersist_def Let_def split: option.splits sum.splits prod.splits)
  have h: "one r" if "cluster E = Some h" "checkKey h key = Some r \<or> checkKeyAsk h key = Some r" for h key r
    using f that by (auto simp: framed_def)
  show "one (fst (cmdGet E s args))"
    using h by (auto simp: cmdGet_def Let_def split: option.splits prod.splits)
qed

lemma one_array: "\<forall>r \<in> set rs. one [r] \<Longrightarrow> one (RArrayHeader (length rs) # rs)"
proof -
  assume "\<forall>r \<in> set rs. one [r]"
  then have "needs (length rs) rs = Some 0"
  proof (induction rs)
    case (Cons r rs)
    then show ?case using needs_one[of "[r]" "length rs" rs] by simp
  qed simp
  then show ?thesis by (simp add: one_def)
qed

lemma one_zset_commands: "one (fst (cmdZAdd E s args))" "one (fst (cmdZScore E s args))" "one (fst (cmdZRem s args))"
  "one (fst (cmdZRangeByScore E f s args))" "one (fst (cmdZCard s args))" "one (fst (cmdDBSize s args))" "one (fst (cmdPing s args))"
proof -
  have a: "one (RArrayHeader (length xs) # map (\<lambda>(sc, m). RBulk m) xs)" for xs :: "(f64 \<times> string) list"
    using one_array[of "map (\<lambda>(sc, m). RBulk m) xs"] by (auto simp: case_prod_beta)
  have b: "one (RArrayHeader (length xs * 2) # concat (map (\<lambda>(sc, m). [RBulk m, RBulk (formatFloat E sc)]) xs))" for xs
  proof -
    define ys where "ys = concat (map (\<lambda>(sc, m). [RBulk m, RBulk (formatFloat E sc)]) xs)"
    have "length ys = length xs * 2" unfolding ys_def by (induction xs) auto
    moreover have "\<forall>r \<in> set ys. one [r]" unfolding ys_def by auto
    ultimately show ?thesis using one_array[of ys] by (simp add: ys_def)
  qed
  show "one (fst (cmdZRangeByScore E f s args))" using a b
    by (auto simp: cmdZRangeByScore_def Let_def split: option.splits)
  show "one (fst (cmdZAdd E s args))" "one (fst (cmdZScore E s args))" "one (fst (cmdZRem s args))"
    "one (fst (cmdZCard s args))" "one (fst (cmdDBSize s args))" "one (fst (cmdPing s args))"
    by (auto simp: cmdZAdd_def cmdZScore_def cmdZRem_def cmdZCard_def cmdDBSize_def cmdPing_def Let_def split: option.splits prod.splits)
qed

lemma exec_out_one:
  assumes f: "framed D E" and p: "\<not> hands_over D cmd args" and e: "exec_out D E c st cmd args = Some (rs, st')"
  shows "one rs"
proof (cases "gate D st cmd")
  case (Some err)
  then show ?thesis using e by (auto simp: exec_out_def)
next
  case None
  then have r: "run_cmd D E c st cmd args = Some (rs, st')" using e by (simp add: exec_out_def)
  have v: "one (fst (vecCmd D cmd s args))" for s using f by (simp add: framed_def)
  have m: "one (fst (cmdMigrate D s args))" for s
    using f by (auto simp: cmdMigrate_def framed_def split: option.splits prod.splits) (metis fst_conv)
  show ?thesis
  proof (cases "srv_cmd D E (csrv st) cmd args")
    case (Some x)
    have "one (fst x)" using Some one_kv_commands[OF f] one_zset_commands v m by (auto simp: srv_cmd_def split: if_splits)
    then show ?thesis using Some r by (cases x) (auto simp: run_cmd_def)
  next
    case None
    have c: "one (cmdCluster D args)" using f by (auto simp: cmdCluster_def framed_def split: option.splits)
    have ps: "one (cmdPsync D args)" if "cmd = ''PSYNC''"
      using p that by (auto simp: cmdPsync_def hands_over_def Suc_le_eq split: option.splits)
    show ?thesis using None r c ps
      by (auto simp: run_cmd_def cmdUnsubscribe_def cmdPublish_def cmdCompact_def split: if_splits)
  qed
qed

lemma run_all_one:
  assumes "\<forall>i. framed D (Es i)"
  shows "\<forall>q \<in> set qs. \<not> hands_over D (ToUpper D (hd q)) (tl q) \<Longrightarrow> run_all D Es i c st qs = Some (rs, st') \<Longrightarrow>
    needs (length qs) rs = Some 0"
proof (induction qs arbitrary: i st rs)
  case (Cons q qs)
  then obtain r1 st1 r2 where e: "exec_out D (Es i) c st (ToUpper D (hd q)) (tl q) = Some (r1, st1)"
    "run_all D Es (Suc i) c st1 qs = Some (r2, st')" "rs = r1 @ r2"
    by (auto split: option.splits prod.splits)
  have "one r1" by (rule exec_out_one[OF _ _ e(1)]) (use assms Cons.prems(1) in auto)
  then show ?case using Cons.IH[OF _ e(2)] Cons.prems(1) needs_one e(3) by simp
qed simp

text \<open>The queue never holds a subscription.\<close>

definition tx_ok :: "'v disp \<Rightarrow> conn \<Rightarrow> bool" where
  "tx_ok D cs \<longleftrightarrow> (\<forall>q \<in> set (txQueue cs). \<not> forbiddenInTx (ToUpper D (hd q)))"

definition piped :: "'v disp \<Rightarrow> conn \<Rightarrow> 'v cstate \<Rightarrow> bytes list \<Rightarrow> bool" where
  "piped D cs st args \<longleftrightarrow> args \<noteq> [] \<and> auth_step D cs (ToUpper D (hd args)) (tl args) = None \<and> isSubscriber (chub st) (cid cs)"

definition subscribes :: "'v disp \<Rightarrow> conn \<Rightarrow> bytes list \<Rightarrow> bool" where
  "subscribes D cs args \<longleftrightarrow> 2 \<le> length args \<and> ToUpper D (hd args) = ''SUBSCRIBE'' \<and> \<not> inTx cs \<and> (\<not> authEnabled D \<or> authed cs)"

lemma exec_queue_one:
  assumes f: "\<forall>i. framed D (Es i)" and t: "tx_ok D cs" and p: "\<forall>q \<in> set (txQueue cs). \<not> hands_over D (ToUpper D (hd q)) (tl q)"
    and e: "execQueuedTx D Es cs st (txQueue cs) = Some (cs', st')"
  shows "\<exists>rs. cs' = say cs rs \<and> one rs"
proof -
  have l: "execQueuedTx D Es cs st (txQueue cs) = map_option (\<lambda>(rs, st'). (say (say cs [RArrayHeader (length (txQueue cs))]) rs, st'))
      (run_all D Es 0 (cid cs) st (txQueue cs))"
    using t by (subst execQueuedTx_def, subst exec_loop_all) (simp_all add: tx_ok_def)
  obtain rs where r: "run_all D Es 0 (cid cs) st (txQueue cs) = Some (rs, st')"
    "cs' = say (say cs [RArrayHeader (length (txQueue cs))]) rs"
    using e unfolding l by auto
  have "one (RArrayHeader (length (txQueue cs)) # rs)" using run_all_one[OF f p r(1)] by (simp add: one_def)
  then show ?thesis using r(2) by auto
qed

lemma after_auth_one:
  assumes f: "\<forall>i. framed D (Es i)" and t: "tx_ok D cs" and ne: "args \<noteq> []" and ns: "\<not> isSubscriber (chub st) (cid cs)"
    and sub: "\<not> (cmd = ''SUBSCRIBE'' \<and> \<not> inTx cs \<and> 2 \<le> length args)" and cmd: "cmd = ToUpper D (hd args)"
    and p: "\<forall>q \<in> insert args (set (txQueue cs)). \<not> hands_over D (ToUpper D (hd q)) (tl q)"
    and e: "after_auth D Es cs st args cmd = Some (cs', st')"
  shows "tx_ok D cs' \<and> csent cs' = csent cs \<and> (\<exists>rs. cbuf cs' = cbuf cs @ rs \<and> one rs)"
proof -
  consider "cmd = ''MULTI''" | "cmd = ''DISCARD''" | "cmd = ''EXEC''" "\<not> (inTx cs \<and> \<not> txAborted cs)"
    | "cmd = ''EXEC''" "inTx cs" "\<not> txAborted cs" | "cmd \<notin> {''MULTI'', ''DISCARD'', ''EXEC''}" "inTx cs"
    | "cmd \<notin> {''MULTI'', ''DISCARD'', ''EXEC''}" "\<not> inTx cs" by auto
  then show ?thesis
  proof cases
    case 1
    then show ?thesis using e ns by (auto simp: after_auth_def tx_ok_def)
  next
    case 2
    then show ?thesis using e ns t by (auto simp: after_auth_def tx_ok_def split: if_splits)
  next
    case 3
    then show ?thesis using e ns t by (auto simp: after_auth_def tx_ok_def split: if_splits)
  next
    case 4
    then obtain cs1 where c: "execQueuedTx D Es cs st (txQueue cs) = Some (cs1, st')" "cs' = cs1\<lparr>inTx := False, txQueue := []\<rparr>"
      using e ns by (auto simp: after_auth_def)
    obtain rs where "cs1 = say cs rs" "one rs" using exec_queue_one[OF f t _ c(1)] p by auto
    then show ?thesis using c(2) by (auto simp: tx_ok_def)
  next
    case 5
    then have "cs' = queueTxCommand cs args cmd" using e ns by (simp add: after_auth_def)
    then show ?thesis using t by (auto simp: queueTxCommand_def tx_ok_def cmd)
  next
    case 6
    then have x: "execute D (Es 0) cs st cmd (tl args) = Some (cs', st')" using e ns by (simp add: after_auth_def)
    show ?thesis
    proof (cases "cmd = ''SUBSCRIBE''")
      case True
      then have "length args < 2" using sub 6(2) by auto
      then have "cs' = say cs [RError (wrong_args ''SUBSCRIBE'')]"
        using x True by (auto simp: execute_def cmdSubscribe_def gate_def isMemoryGrowingCmd_def isWriteCmd_def)
      then show ?thesis using t by (auto simp: tx_ok_def)
    next
      case False
      then obtain rs where rs: "exec_out D (Es 0) (cid cs) st cmd (tl args) = Some (rs, st')" "cs' = say cs rs"
        using x by (auto simp: execute_out)
      have "one rs" by (rule exec_out_one[OF _ _ rs(1)]) (use f p cmd in auto)
      then show ?thesis using rs(2) t by (auto simp: tx_ok_def)
    qed
  qed
qed

lemma auth_step_one: "auth_step D cs cmd as = Some cs' \<Longrightarrow> \<exists>r. cbuf cs' = cbuf cs @ [r] \<and> one [r] \<and> csent cs' = csent cs \<and> txQueue cs' = txQueue cs"
  by (auto simp: auth_step_def split: if_splits)


section \<open>Witnesses\<close>

definition sample_disp :: "bool \<Rightarrow> unit disp" where
  "sample_disp auth = \<lparr>authEnabled = auth, authHash = ''s'', restoreLSN = 0, sha256 = (\<lambda>b. b), upperUni = (\<lambda>s. s),
     vecCmd = (\<lambda>cmd s args. ([RError ''ERR''], s)), clusterApi = None\<rparr>"

definition sample_st :: "unit cstate" where
  "sample_st = \<lparr>csrv = srv_new (\<lambda>_. 0) (), chub = hub_new, wfail = None, compactions = 0\<rparr>"

lemma sample_sel [simp]: "authEnabled (sample_disp b) = b" "authHash (sample_disp b) = ''s''" "restoreLSN (sample_disp b) = 0"
  "sha256 (sample_disp b) x = x" "clusterApi (sample_disp b) = None" "vecCmd (sample_disp b) c s a = ([RError ''ERR''], s)"
  "csrv sample_st = srv_new (\<lambda>_. 0) ()" "chub sample_st = hub_new" "wfail sample_st = None"
  by (simp_all add: sample_disp_def sample_st_def)

lemma conn_new_sel [simp]: "cid (conn_new i) = i" "\<not> inTx (conn_new i)" "txQueue (conn_new i) = []" "\<not> txAborted (conn_new i)"
  "\<not> authed (conn_new i)" "cbuf (conn_new i) = []" "csent (conn_new i) = []"
  by (simp_all add: conn_new_def)

lemma hub_new_sub [simp]: "\<not> isSubscriber hub_new c"
  by (simp add: isSubscriber_def hub_new_def)

lemma ToUpper_ascii: "\<forall>c \<in> set s. nat_of_byte c < 128 \<Longrightarrow> ToUpper D s = map upper_char s"
  by (simp add: ToUpper_def)

lemma more_words [simp]: "ToUpper D ''PING'' = ''PING''" "ToUpper D ''GET'' = ''GET''" "ToUpper D ''AUTH'' = ''AUTH''"
  "ToUpper D ''DBSIZE'' = ''DBSIZE''"
  by (simp_all add: ToUpper_ascii upper_char_def nat_of_byte_def byte_of_def)

theorem auth_gate_witness:
  "\<exists>rs. set rs \<subseteq> closed_replies \<and> length rs = 2 \<and>
    session (sample_disp True) (conn_new 0) sample_st [(\<lambda>_. sample_env 1, [''GET'', ''k'']), (\<lambda>_. sample_env 2, [''PING''])] =
      Some (say (conn_new 0) rs, sample_st) \<and>
    handle (sample_disp True) (\<lambda>_. sample_env 3) (say (conn_new 0) rs) sample_st [''AUTH'', ''s''] =
      Some ((say (conn_new 0) (rs @ [RSimple ''OK'']))\<lparr>authed := True\<rparr>, sample_st)"
  using auth_gate[of "sample_disp True" "conn_new 0" sample_st
      "[(\<lambda>_. sample_env 1, [''GET'', ''k'']), (\<lambda>_. sample_env 2, [''PING''])]" "[''AUTH'', ''s'']" "\<lambda>_. sample_env 3"]
  by (simp add: logs_in_def numeral_2_eq_2)


theorem tx_outcome_witness:
  "session (sample_disp False) (conn_new 0) sample_st
     (tx_session (\<lambda>_. sample_env 1) (\<lambda>_. sample_env 1) (\<lambda>_. sample_env 2) [[''DBSIZE'']]) =
   Some (say (conn_new 0) [RSimple ''OK'', RSimple ''QUEUED'', RArrayHeader 1, RInt (int (kv_len (skv (csrv sample_st))))], sample_st)"
proof -
  have d: "session (sample_disp False) (conn_new 0) sample_st (direct (\<lambda>_. sample_env 2) 0 [[''DBSIZE'']]) =
    Some (say (conn_new 0) [RInt (int (kv_len (skv (csrv sample_st))))], sample_st)"
    by (simp add: handle_def auth_step_def after_auth_def execute_def gate_def isMemoryGrowingCmd_def isWriteCmd_def run_cmd_def
        srv_cmd_def cmdDBSize_def)
  show ?thesis
    by (subst tx_outcome) (simp_all add: admitted_def plain_cmd_def forbiddenInTx_def d del: direct.simps)
qed


end
