(* ===== verification/Compact.thy ===== *)
theory Compact
  imports Replay "HOL-Library.List_Lexorder" "HOL-Library.Char_ord"
begin

text \<open>
  Snapshots and compaction of the journal: \<open>internal/wal/snapshot.go\<close>, and \<open>ReadAllWALs\<close> and
  \<open>CleanupOldWALs\<close> of \<open>wal.go\<close>. The data directory maps names to inodes, so that two open files of
  the same name can be one file. A compaction runs step by step, between the writes of the server
  and of other compactions; every step can fail. What a crash leaves is the directory at that
  moment; that log files are cut there is the matter of \<open>Wal\<close>.
\<close>

section \<open>The data directory\<close>

record fs =
  fnames :: "(string, nat) gomap"
  finode :: "nat \<Rightarrow> bytes"
  fnext :: nat

definition fs_read :: "fs \<Rightarrow> string \<Rightarrow> bytes option" where
  "fs_read d n = map_option (finode d) (map_of (fnames d) n)"

text \<open>\<open>os.Create\<close> truncates the file if there is one.\<close>

definition fs_create :: "fs \<Rightarrow> string \<Rightarrow> nat \<times> fs" where
  "fs_create d n =
     (case map_of (fnames d) n of
        Some i \<Rightarrow> (i, d\<lparr>finode := (finode d)(i := [])\<rparr>)
      | None \<Rightarrow> (fnext d, d\<lparr>fnames := AList.update n (fnext d) (fnames d), finode := (finode d)(fnext d := []), fnext := fnext d + 1\<rparr>))"

text \<open>A write at an offset; a gap before it is filled with zeros.\<close>

definition write_at :: "nat \<Rightarrow> bytes \<Rightarrow> bytes \<Rightarrow> bytes" where
  "write_at off bs c = take off (c @ replicate (off - length c) (CHR 0x00)) @ bs @ drop (off + length bs) c"

definition fs_write :: "fs \<Rightarrow> nat \<Rightarrow> nat \<Rightarrow> bytes \<Rightarrow> fs" where
  "fs_write d i off bs = d\<lparr>finode := (finode d)(i := write_at off bs (finode d i))\<rparr>"

definition fs_remove :: "fs \<Rightarrow> string \<Rightarrow> fs" where
  "fs_remove d n = d\<lparr>fnames := AList.delete n (fnames d)\<rparr>"

definition fs_rename :: "fs \<Rightarrow> string \<Rightarrow> string \<Rightarrow> fs option" where
  "fs_rename d old new =
     (case map_of (fnames d) old of
        None \<Rightarrow> None
      | Some i \<Rightarrow> Some (d\<lparr>fnames := AList.update new i (AList.delete old (fnames d))\<rparr>))"

section \<open>Names\<close>

definition snapName :: string where "snapName = ''snapshot.wal''"
definition tmpName :: string where "tmpName = ''snapshot.wal.tmp''"

text \<open>\<open>filepath.Glob\<close> with \<open>wal_*.log\<close>, in the order of the names' bytes.\<close>

definition is_wal :: "string \<Rightarrow> bool" where
  "is_wal n \<longleftrightarrow> 8 \<le> length n \<and> take 4 n = ''wal_'' \<and> drop (length n - 4) n = ''.log''"

definition wal_names :: "fs \<Rightarrow> string list" where
  "wal_names d = sort (filter is_wal (map fst (fnames d)))"

section \<open>Reading the directory\<close>

fun read_logs :: "fs \<Rightarrow> string list \<Rightarrow> read_error + entry list" where
  "read_logs d [] = Inr []"
| "read_logs d (n # ns) =
     (case ReadEntries (fs_read d n) of
        Inl e \<Rightarrow> Inl e
      | Inr es \<Rightarrow> (case read_logs d ns of Inl e \<Rightarrow> Inl e | Inr es' \<Rightarrow> Inr (es @ es')))"

definition ReadAllWALs :: "fs \<Rightarrow> read_error + entry list" where
  "ReadAllWALs d =
     (case ReadEntries (fs_read d snapName) of
        Inl e \<Rightarrow> Inl e
      | Inr es \<Rightarrow> (case read_logs d (wal_names d) of Inl e \<Rightarrow> Inl e | Inr es' \<Rightarrow> Inr (es @ es')))"

text \<open>\<open>CleanupOldWALs\<close>: the names are listed first, then removed one by one.\<close>

definition cleanup_one :: "string \<Rightarrow> string \<Rightarrow> fs \<Rightarrow> fs" where
  "cleanup_one keep n d = (if n \<noteq> keep \<and> n < keep then fs_remove d n else d)"

definition CleanupOldWALs :: "fs \<Rightarrow> string \<Rightarrow> fs" where
  "CleanupOldWALs d keep = fold (cleanup_one keep) (wal_names d) d"

section \<open>Writing a snapshot\<close>

text \<open>The file \<open>WriteSnapshot\<close> writes: the header with the watermark, then the records, numbered 0.\<close>

definition snap_record :: "8 word \<times> string \<times> bytes \<Rightarrow> entry" where
  "snap_record r = (case r of (op, key, value) \<Rightarrow> \<lparr>LSN = 0, Op = op, Key = key, Value = value\<rparr>)"

definition snapshot_bytes :: "64 word \<Rightarrow> (8 word \<times> string \<times> bytes) list \<Rightarrow> bytes" where
  "snapshot_bytes watermark recs =
     fileHeader watermark @ concat (map (\<lambda>r. frame (encodeEntry 0 (snap_record r))) recs)"

text \<open>A compaction after its rotation: it creates the temporary file, writes it piece by piece, syncs,
  renames, syncs the directory and saves the vectors, and removes the old logs one by one. \<open>k\<close> is how
  much a write puts into the file, \<open>ok\<close> whether the step succeeds.\<close>

datatype cphase =
  CStart
| CWriting nat nat
| CSynced
| CRenamed
| CCleaning "string list"
| CDone
| CFailed

record compaction =
  cbytes :: bytes
  ckeep :: string
  cphase :: cphase

definition comp_new :: "bytes \<Rightarrow> string \<Rightarrow> compaction" where
  "comp_new bs keep = \<lparr>cbytes = bs, ckeep = keep, cphase = CStart\<rparr>"

definition comp_fail :: "compaction \<Rightarrow> fs \<Rightarrow> compaction \<times> fs" where
  "comp_fail c d = (c\<lparr>cphase := CFailed\<rparr>, fs_remove d tmpName)"

definition comp_step :: "nat \<Rightarrow> bool \<Rightarrow> compaction \<Rightarrow> fs \<Rightarrow> compaction \<times> fs" where
  "comp_step k ok c d =
     (case cphase c of
        CStart \<Rightarrow>
          if \<not> ok then (c\<lparr>cphase := CFailed\<rparr>, d)
          else (case fs_create d tmpName of (i, d1) \<Rightarrow> (c\<lparr>cphase := CWriting i 0\<rparr>, d1))
      | CWriting i off \<Rightarrow>
          if \<not> ok then comp_fail c d
          else if off < length (cbytes c) then
            (let bs = take (Suc k) (drop off (cbytes c)) in
             (c\<lparr>cphase := CWriting i (off + length bs)\<rparr>, fs_write d i off bs))
          else (c\<lparr>cphase := CSynced\<rparr>, d)
      | CSynced \<Rightarrow>
          if \<not> ok then comp_fail c d
          else (case fs_rename d tmpName snapName of
                  None \<Rightarrow> comp_fail c d
                | Some d1 \<Rightarrow> (c\<lparr>cphase := CRenamed\<rparr>, d1))
      | CRenamed \<Rightarrow>
          if \<not> ok then (c\<lparr>cphase := CFailed\<rparr>, d)
          else (c\<lparr>cphase := CCleaning (wal_names d)\<rparr>, d)
      | CCleaning [] \<Rightarrow> (c\<lparr>cphase := CDone\<rparr>, d)
      | CCleaning (n # ns) \<Rightarrow> (c\<lparr>cphase := CCleaning ns\<rparr>, cleanup_one (ckeep c) n d)
      | CDone \<Rightarrow> (c, d)
      | CFailed \<Rightarrow> (c, d))"

text \<open>The log writer meanwhile puts records into the new log.\<close>

datatype event = Comp nat bool | Append bytes

definition fs_append :: "fs \<Rightarrow> string \<Rightarrow> bytes \<Rightarrow> fs" where
  "fs_append d n bs =
     (case map_of (fnames d) n of None \<Rightarrow> d | Some i \<Rightarrow> d\<lparr>finode := (finode d)(i := finode d i @ bs)\<rparr>)"

fun happens :: "event \<Rightarrow> compaction \<times> fs \<Rightarrow> compaction \<times> fs" where
  "happens (Comp k ok) (c, d) = comp_step k ok c d"
| "happens (Append bs) (c, d) = (c, fs_append d (ckeep c) bs)"

definition run_events :: "event list \<Rightarrow> compaction \<times> fs \<Rightarrow> compaction \<times> fs" where
  "run_events evs cd = fold happens evs cd"

section \<open>The syncer\<close>

text \<open>One tick syncs the log, whose failure latches, and every \<open>sizeCheckEvery\<close> ticks looks at the file's
  size. The flag is cleared when \<open>BackgroundCompact\<close> returns, which is when its goroutine starts.\<close>

definition MaxWALSize :: nat where "MaxWALSize = 64 * 1024 * 1024"
definition sizeCheckEvery :: nat where "sizeCheckEvery = 50"

record syncer =
  sycount :: nat
  sycompacting :: bool
  systarted :: nat

definition checkWALSize :: "nat option \<Rightarrow> syncer \<Rightarrow> syncer" where
  "checkWALSize sz s =
     (case sz of
        None \<Rightarrow> s
      | Some n \<Rightarrow> if n > MaxWALSize then s\<lparr>sycompacting := True, systarted := systarted s + 1\<rparr> else s)"

definition syncer_tick :: "bool \<Rightarrow> nat option \<Rightarrow> syncer \<times> wal \<Rightarrow> syncer \<times> wal" where
  "syncer_tick fsync_ok sz sw =
     (case sw of (s, w) \<Rightarrow>
        let w' = snd (wal_sync w fsync_ok); n = sycount s + 1 in
        if n \<ge> sizeCheckEvery then
          (let s' = s\<lparr>sycount := 0\<rparr> in (if \<not> sycompacting s' then checkWALSize sz s' else s', w'))
        else (s\<lparr>sycount := n\<rparr>, w'))"

definition compact_returned :: "syncer \<Rightarrow> syncer" where
  "compact_returned s = s\<lparr>sycompacting := False\<rparr>"

lemma syncer_starts:
  assumes "sycount s < sizeCheckEvery" "syncer_tick ok sz (s, w) = (s', w')"
  shows "sycount s' < sizeCheckEvery" "systarted s' \<le> systarted s + 1"
    "systarted s' \<noteq> systarted s \<Longrightarrow> sycount s' = 0 \<and> \<not> sycompacting s \<and> sycompacting s'"
    "\<not> ok \<Longrightarrow> wal_failed w'"
  using assms
  by (auto simp: syncer_tick_def checkWALSize_def Let_def sizeCheckEvery_def wal_sync_def wal_fail_def wal_failed_def split: if_splits option.splits)

section \<open>Facts about the directory\<close>

definition wf_fs :: "fs \<Rightarrow> bool" where
  "wf_fs d \<longleftrightarrow> keys_distinct (fnames d) \<and>
     (\<forall>a b i. map_of (fnames d) a = Some i \<longrightarrow> map_of (fnames d) b = Some i \<longrightarrow> a = b) \<and>
     (\<forall>a i. map_of (fnames d) a = Some i \<longrightarrow> i < fnext d)"

lemma wf_fs_inj: "wf_fs d \<Longrightarrow> map_of (fnames d) a = Some i \<Longrightarrow> map_of (fnames d) b = Some i \<Longrightarrow> a = b"
  and wf_fs_fresh: "wf_fs d \<Longrightarrow> map_of (fnames d) a \<noteq> Some (fnext d)"
  and wf_fs_keys: "wf_fs d \<Longrightarrow> keys_distinct (fnames d)"
  by (auto simp: wf_fs_def)

lemma fs_create_spec:
  assumes w: "wf_fs d" and c: "fs_create d n = (i, d')"
  shows "wf_fs d'" "map_of (fnames d') n = Some i" "finode d' i = []"
    "\<And>m. m \<noteq> n \<Longrightarrow> fs_read d' m = fs_read d m"
proof -
  consider "map_of (fnames d) n = None" "i = fnext d"
      "d' = d\<lparr>fnames := AList.update n (fnext d) (fnames d), finode := (finode d)(fnext d := []), fnext := fnext d + 1\<rparr>"
    | "map_of (fnames d) n = Some i" "d' = d\<lparr>finode := (finode d)(i := [])\<rparr>"
    using c by (auto simp: fs_create_def split: option.splits)
  then have "wf_fs d' \<and> map_of (fnames d') n = Some i \<and> finode d' i = [] \<and> (\<forall>m. m \<noteq> n \<longrightarrow> fs_read d' m = fs_read d m)"
  proof cases
    case 1
    note d = 1(3)
    have m: "map_of (fnames d') a = (if a = n then Some i else map_of (fnames d) a)" for a by (simp add: d 1(2) update_conv)
    have "wf_fs d'"
      unfolding wf_fs_def m
    proof (intro conjI allI impI)
      show "keys_distinct (fnames d')" using wf_fs_keys[OF w] by (simp add: d)
      show "a = b" if "(if a = n then Some i else map_of (fnames d) a) = Some j" "(if b = n then Some i else map_of (fnames d) b) = Some j" for a b j
        using that wf_fs_inj[OF w, of a j b] wf_fs_fresh[OF w] 1(2) by (auto split: if_splits)
      show "j < fnext d'" if "(if a = n then Some i else map_of (fnames d) a) = Some j" for a j
        using that w 1(2) by (auto simp: d wf_fs_def less_Suc_eq split: if_splits)
    qed
    moreover have "fs_read d' m = fs_read d m" if "m \<noteq> n" for m
      using that wf_fs_fresh[OF w, of m] unfolding fs_read_def m by (cases "map_of (fnames d) m") (auto simp: d)
    ultimately show ?thesis using m[of n] by (simp add: d 1(2))
  next
    case 2
    have "fs_read d' m = fs_read d m" if "m \<noteq> n" for m
      using that wf_fs_inj[OF w 2(1), of m] unfolding fs_read_def by (cases "map_of (fnames d) m") (auto simp: 2(2))
    then show ?thesis using w 2(1) by (auto simp: wf_fs_def 2(2))
  qed
  then show "wf_fs d'" "map_of (fnames d') n = Some i" "finode d' i = []"
    "\<And>m. m \<noteq> n \<Longrightarrow> fs_read d' m = fs_read d m" by auto
qed

text \<open>Changing the content of the file a name stands for.\<close>

lemma fs_content:
  assumes w: "wf_fs d" and n: "map_of (fnames d) n = Some i"
  shows "wf_fs (d\<lparr>finode := (finode d)(i := c)\<rparr>)"
    "fs_read (d\<lparr>finode := (finode d)(i := c)\<rparr>) m = (if m = n then Some c else fs_read d m)"
proof -
  show "wf_fs (d\<lparr>finode := (finode d)(i := c)\<rparr>)" using w by (simp add: wf_fs_def)
  show "fs_read (d\<lparr>finode := (finode d)(i := c)\<rparr>) m = (if m = n then Some c else fs_read d m)"
    using n wf_fs_inj[OF w n, of m] unfolding fs_read_def by (cases "map_of (fnames d) m") auto
qed

lemma fs_remove_spec:
  assumes w: "wf_fs d"
  shows "wf_fs (fs_remove d n)" "fs_read (fs_remove d n) m = (if m = n then None else fs_read d m)"
proof -
  have m: "map_of (fnames (fs_remove d n)) a = (if a = n then None else map_of (fnames d) a)" for a
    by (simp add: fs_remove_def delete_conv')
  show "wf_fs (fs_remove d n)"
    using w unfolding wf_fs_def m by (auto simp: fs_remove_def split: if_splits)
  show "fs_read (fs_remove d n) m = (if m = n then None else fs_read d m)"
    unfolding fs_read_def m by (simp add: fs_remove_def)
qed

lemma fs_rename_spec:
  assumes w: "wf_fs d" and n: "map_of (fnames d) old = Some i" and ne: "old \<noteq> new"
  obtains d' where "fs_rename d old new = Some d'" "wf_fs d'"
    "\<And>m. fs_read d' m = (if m = new then fs_read d old else if m = old then None else fs_read d m)"
proof -
  let ?d' = "d\<lparr>fnames := AList.update new i (AList.delete old (fnames d))\<rparr>"
  have m: "map_of (fnames ?d') a = (if a = new then Some i else if a = old then None else map_of (fnames d) a)" for a
    by (simp add: update_conv delete_conv')
  have "wf_fs ?d'"
    unfolding wf_fs_def m
  proof (intro conjI allI impI)
    show "keys_distinct (fnames ?d')" using wf_fs_keys[OF w] by simp
    show "a = b" if "(if a = new then Some i else if a = old then None else map_of (fnames d) a) = Some j"
      "(if b = new then Some i else if b = old then None else map_of (fnames d) b) = Some j" for a b j
    proof -
      have i: "map_of (fnames d) x = Some i \<Longrightarrow> x = old" for x using wf_fs_inj[OF w n] by metis
      show ?thesis
      proof (cases "a = new \<or> b = new")
        case True
        then show ?thesis using that i by (metis option.distinct(1))
      next
        case False
        then show ?thesis using that wf_fs_inj[OF w, of a j b] by (metis option.distinct(1))
      qed
    qed
    show "j < fnext ?d'" if "(if a = new then Some i else if a = old then None else map_of (fnames d) a) = Some j" for a j
      using that w n by (auto simp: wf_fs_def split: if_splits)
  qed
  moreover have "fs_read ?d' m = (if m = new then fs_read d old else if m = old then None else fs_read d m)" for m
    unfolding fs_read_def m using n by simp
  ultimately show ?thesis using that n by (simp add: fs_rename_def)
qed

lemma fs_append_spec:
  assumes w: "wf_fs d"
  shows "wf_fs (fs_append d n bs)"
    "fs_read (fs_append d n bs) m = (if m = n then map_option (\<lambda>c. c @ bs) (fs_read d m) else fs_read d m)"
proof -
  show "wf_fs (fs_append d n bs)" using w by (auto simp: fs_append_def fs_content(1) split: option.splits)
  show "fs_read (fs_append d n bs) m = (if m = n then map_option (\<lambda>c. c @ bs) (fs_read d m) else fs_read d m)"
  proof (cases "map_of (fnames d) n")
    case None
    then show ?thesis by (simp add: fs_append_def fs_read_def)
  next
    case (Some i)
    then show ?thesis using fs_content(2)[OF w Some] by (simp add: fs_append_def) (simp add: fs_read_def)
  qed
qed

text \<open>The logs that are there, in order.\<close>

lemma wal_names_read:
  assumes "wf_fs d"
  shows "wal_names d = sorted_list_of_set {n. is_wal n \<and> fs_read d n \<noteq> None}"
proof -
  have s: "set (filter is_wal (map fst (fnames d))) = {n. is_wal n \<and> fs_read d n \<noteq> None}"
    using map_of_eq_None_iff[of "fnames d"] by (auto simp: fs_read_def)
  have "distinct (filter is_wal (map fst (fnames d)))" using wf_fs_keys[OF assms] by (simp add: keys_distinct_def)
  then show ?thesis unfolding wal_names_def s[symmetric] by (metis distinct_remdups_id sorted_list_of_set_sort_remdups)
qed

section \<open>What a directory holds while a compaction runs\<close>

definition start_ok :: "fs \<Rightarrow> string list \<Rightarrow> string \<Rightarrow> bool" where
  "start_ok d0 olds keep \<longleftrightarrow> wf_fs d0 \<and> wal_names d0 = olds @ [keep]"

text \<open>\<open>new\<close> tells whether the new snapshot is in place, \<open>j\<close> how many old logs are gone.\<close>

definition dir_view :: "fs \<Rightarrow> string list \<Rightarrow> string \<Rightarrow> bytes \<Rightarrow> bytes \<Rightarrow> bool \<Rightarrow> nat \<Rightarrow> fs \<Rightarrow> bool" where
  "dir_view d0 olds keep bs app new j d \<longleftrightarrow> wf_fs d \<and>
     fs_read d snapName = (if new then Some bs else fs_read d0 snapName) \<and>
     (\<forall>n. n \<notin> {snapName, tmpName, keep} \<longrightarrow> fs_read d n = (if n \<in> set (take j olds) then None else fs_read d0 n)) \<and>
     fs_read d keep = map_option (\<lambda>c. c @ app) (fs_read d0 keep) \<and>
     (\<not> new \<longrightarrow> j = 0)"

lemma not_wal [simp]: "\<not> is_wal snapName" "\<not> is_wal tmpName" "snapName \<noteq> tmpName" "tmpName \<noteq> snapName"
  by (simp_all add: is_wal_def snapName_def tmpName_def)

lemma start_facts:
  assumes "start_ok d0 olds keep"
  shows "sorted (olds @ [keep])" "distinct (olds @ [keep])" "n \<in> set (olds @ [keep]) \<longleftrightarrow> is_wal n \<and> fs_read d0 n \<noteq> None"
    "keep \<noteq> snapName" "keep \<noteq> tmpName" "snapName \<notin> set olds" "tmpName \<notin> set olds" "fs_read d0 keep \<noteq> None"
    "n \<in> set olds \<Longrightarrow> n \<noteq> keep \<and> n < keep"
proof -
  have w: "wf_fs d0" "wal_names d0 = olds @ [keep]" using assms by (simp_all add: start_ok_def)
  have fin: "finite {n. is_wal n \<and> fs_read d0 n \<noteq> None}"
    by (rule finite_subset[of _ "set (map fst (fnames d0))"]) (use map_of_eq_None_iff[of "fnames d0"] in \<open>auto simp: fs_read_def\<close>)
  show s: "sorted (olds @ [keep])" unfolding w(2)[symmetric] wal_names_def by simp
  show di: "distinct (olds @ [keep])" unfolding w(2)[symmetric] wal_names_read[OF w(1)] by simp
  show e: "n \<in> set (olds @ [keep]) \<longleftrightarrow> is_wal n \<and> fs_read d0 n \<noteq> None" for n
    unfolding w(2)[symmetric] wal_names_read[OF w(1)] using fin by simp
  show "keep \<noteq> snapName" "keep \<noteq> tmpName" "snapName \<notin> set olds" "tmpName \<notin> set olds" "fs_read d0 keep \<noteq> None"
    using e[of keep] e[of snapName] e[of tmpName] by auto
  show "n \<in> set olds \<Longrightarrow> n \<noteq> keep \<and> n < keep" using s di by (auto simp: sorted_append order.strict_iff_order)
qed

lemma view_logs:
  assumes s: "start_ok d0 olds keep" and v: "dir_view d0 olds keep bs app new j d"
  shows "wal_names d = drop j olds @ [keep]"
proof -
  note f = start_facts[OF s]
  have ds: "distinct olds" using f(2) by simp
  have "{n. is_wal n \<and> fs_read d n \<noteq> None} = set (drop j olds @ [keep])"
  proof (intro set_eqI)
    fix n
    consider "n = keep" | "n \<in> {snapName, tmpName}" | "n \<notin> {snapName, tmpName, keep}" by blast
    then show "n \<in> {n. is_wal n \<and> fs_read d n \<noteq> None} \<longleftrightarrow> n \<in> set (drop j olds @ [keep])"
    proof cases
      case 1
      then show ?thesis using f(3)[of keep] v by (auto simp: dir_view_def)
    next
      case 2
      then show ?thesis using f(4-7) by (auto dest: in_set_dropD)
    next
      case 3
      then have r: "fs_read d n = (if n \<in> set (take j olds) then None else fs_read d0 n)" using v by (simp add: dir_view_def)
      have "n \<in> set olds \<longleftrightarrow> n \<in> set (take j olds) \<or> n \<in> set (drop j olds)"
        by (metis Un_iff append_take_drop_id set_append)
      moreover have "set (take j olds) \<inter> set (drop j olds) = {}" using ds by (metis append_take_drop_id distinct_append)
      ultimately show ?thesis using r f(3)[of n] 3 by auto
    qed
  qed
  moreover have "sorted (drop j olds @ [keep])" "distinct (drop j olds @ [keep])"
    using f(1,2) by (auto simp: sorted_append sorted_wrt_drop dest: in_set_dropD)
  moreover have "wf_fs d" using v by (simp add: dir_view_def)
  ultimately show ?thesis by (metis sorted_list_of_set.idem_if_sorted_distinct wal_names_read)
qed

definition phase_ok :: "string list \<Rightarrow> string \<Rightarrow> bytes \<Rightarrow> bool \<Rightarrow> nat \<Rightarrow> fs \<Rightarrow> cphase \<Rightarrow> bool" where
  "phase_ok olds keep bs new j d ph \<longleftrightarrow>
     (case ph of
        CStart \<Rightarrow> \<not> new
      | CWriting i off \<Rightarrow> \<not> new \<and> map_of (fnames d) tmpName = Some i \<and> finode d i = take off bs \<and> off \<le> length bs
      | CSynced \<Rightarrow> \<not> new \<and> fs_read d tmpName = Some bs
      | CRenamed \<Rightarrow> new \<and> j = 0
      | CCleaning ns \<Rightarrow> new \<and> (\<exists>i. ns = drop i (olds @ [keep]) \<and> j = min i (length olds))
      | CDone \<Rightarrow> new \<and> j = length olds
      | CFailed \<Rightarrow> True)"

definition comp_inv :: "fs \<Rightarrow> string list \<Rightarrow> string \<Rightarrow> bytes \<Rightarrow> bytes \<Rightarrow> bool \<Rightarrow> nat \<Rightarrow> compaction \<times> fs \<Rightarrow> bool" where
  "comp_inv d0 olds keep bs app new j cd \<longleftrightarrow>
     cbytes (fst cd) = bs \<and> ckeep (fst cd) = keep \<and> dir_view d0 olds keep bs app new j (snd cd) \<and>
     phase_ok olds keep bs new j (snd cd) (cphase (fst cd))"

lemma view_start: "start_ok d0 olds keep \<Longrightarrow> comp_inv d0 olds keep bs [] False 0 (comp_new bs keep, d0)"
  using start_facts(8) by (fastforce simp: comp_inv_def dir_view_def start_ok_def phase_ok_def comp_new_def)

lemma view_tmp:
  assumes "dir_view d0 olds keep bs app new j d" "start_ok d0 olds keep" "wf_fs d'" "\<And>m. m \<noteq> tmpName \<Longrightarrow> fs_read d' m = fs_read d m"
  shows "dir_view d0 olds keep bs app new j d'"
proof -
  have "fs_read d' snapName = fs_read d snapName" "fs_read d' keep = fs_read d keep"
    using assms(4) start_facts(5)[OF assms(2)] by auto
  then show ?thesis using assms(1,3,4) by (simp add: dir_view_def)
qed

lemma write_at_end: "length c = off \<Longrightarrow> write_at off bs c = c @ bs"
  by (simp add: write_at_def)

lemma view_app:
  assumes v: "dir_view d0 olds keep bs app new j d" and s: "start_ok d0 olds keep"
  shows "dir_view d0 olds keep bs (app @ x) new j (fs_append d keep x)"
proof -
  have w: "wf_fs d" using v by (simp add: dir_view_def)
  have k: "fs_read (fs_append d keep x) keep = map_option (\<lambda>c. c @ app @ x) (fs_read d0 keep)"
    using v fs_append_spec(2)[OF w, of keep x keep] by (simp add: dir_view_def option.map_comp comp_def)
  have o: "fs_read (fs_append d keep x) n = fs_read d n" if "n \<noteq> keep" for n using that fs_append_spec(2)[OF w] by simp
  show ?thesis using v k o start_facts(4)[OF s] fs_append_spec(1)[OF w] by (simp add: dir_view_def)
qed

lemma phase_app:
  assumes "phase_ok olds keep bs new j d ph" and w: "wf_fs d" and s: "start_ok d0 olds keep"
  shows "phase_ok olds keep bs new j (fs_append d keep x) ph"
proof -
  have n: "fnames (fs_append d keep x) = fnames d" by (simp add: fs_append_def split: option.split)
  have kt: "keep \<noteq> tmpName" by (rule start_facts(5)[OF s])
  have i: "finode (fs_append d keep x) i = finode d i" if "map_of (fnames d) tmpName = Some i" for i
    using that kt wf_fs_inj[OF w that, of keep] by (auto simp: fs_append_def split: option.split)
  have r: "fs_read (fs_append d keep x) tmpName = fs_read d tmpName" using kt by (simp add: fs_append_spec(2)[OF w])
  show ?thesis using assms(1) n i r by (auto simp: phase_ok_def split: cphase.splits)
qed

lemma view_rename:
  assumes v: "dir_view d0 olds keep bs app False 0 d" and s: "start_ok d0 olds keep" and w: "wf_fs d'"
    and r: "\<And>m. fs_read d' m = (if m = snapName then Some bs else if m = tmpName then None else fs_read d m)"
  shows "dir_view d0 olds keep bs app True 0 d'"
  using v w start_facts(4,5)[OF s] unfolding dir_view_def r by simp

lemma take_drop_Cons: "drop i (xs @ [k]) = n # ns \<Longrightarrow>
  (i < length xs \<and> n = xs ! i \<or> i = length xs \<and> n = k) \<and> ns = drop (Suc i) (xs @ [k])"
proof -
  assume d: "drop i (xs @ [k]) = n # ns"
  then have i: "i < length (xs @ [k])" by (metis drop_all not_le list.distinct(1))
  then have "drop i (xs @ [k]) = (xs @ [k]) ! i # drop (Suc i) (xs @ [k])" by (rule Cons_nth_drop_Suc[symmetric])
  then have "n = (xs @ [k]) ! i" "ns = drop (Suc i) (xs @ [k])" using d by auto
  then show ?thesis using i by (auto simp: nth_append less_Suc_eq)
qed

lemma view_remove:
  assumes v: "dir_view d0 olds keep bs app True i d" and s: "start_ok d0 olds keep" and i: "i < length olds"
  shows "dir_view d0 olds keep bs app True (Suc i) (fs_remove d (olds ! i))"
proof -
  have w: "wf_fs d" using v by (simp add: dir_view_def)
  have o: "olds ! i \<in> set olds" using i by simp
  then have ne: "olds ! i \<notin> {snapName, tmpName, keep}" using start_facts(6,7,9)[OF s] by auto
  have t: "set (take (Suc i) olds) = insert (olds ! i) (set (take i olds))" using i by (simp add: take_Suc_conv_app_nth)
  show ?thesis using v ne fs_remove_spec[OF w, of "olds ! i"] unfolding dir_view_def t by auto
qed

lemma fs_fail_spec:
  assumes v: "dir_view d0 olds keep bs app new j d" and s: "start_ok d0 olds keep"
  shows "dir_view d0 olds keep bs app new j (fs_remove d tmpName)"
proof -
  have w: "wf_fs d" using v by (simp add: dir_view_def)
  show ?thesis by (rule view_tmp[OF v s]) (simp_all add: fs_remove_spec[OF w])
qed

lemma comp_step_inv:
  assumes s: "start_ok d0 olds keep" and inv: "comp_inv d0 olds keep bs app new j (c, d)"
  shows "\<exists>new' j'. comp_inv d0 olds keep bs app new' j' (comp_step k ok c d)"
proof -
  have v: "dir_view d0 olds keep bs app new j d" and ph: "phase_ok olds keep bs new j d (cphase c)"
    and b: "cbytes c = bs" and kp: "ckeep c = keep" using inv by (simp_all add: comp_inv_def)
  have w: "wf_fs d" using v by (simp add: dir_view_def)
  have ok_now: "\<exists>new' j'. comp_inv d0 olds keep bs app new' j' (c\<lparr>cphase := p\<rparr>, d')"
    if "dir_view d0 olds keep bs app n' i' d'" "phase_ok olds keep bs n' i' d' p" for p d' n' i'
    using that b kp by (auto simp: comp_inv_def)
  have failed: "\<exists>new' j'. comp_inv d0 olds keep bs app new' j' (comp_fail c d)"
    unfolding comp_fail_def by (rule ok_now[OF fs_fail_spec[OF v s]]) (simp add: phase_ok_def)
  have failed0: "\<exists>new' j'. comp_inv d0 olds keep bs app new' j' (c\<lparr>cphase := CFailed\<rparr>, d)"
    by (rule ok_now[OF v]) (simp add: phase_ok_def)
  show ?thesis
  proof (cases "cphase c")
    case CStart
    obtain i d1 where cr: "fs_create d tmpName = (i, d1)" by fastforce
    note sp = fs_create_spec[OF w cr]
    have v1: "dir_view d0 olds keep bs app new j d1" by (rule view_tmp[OF v s sp(1) sp(4)])
    have "phase_ok olds keep bs new j d1 (CWriting i 0)" using ph sp(2,3) CStart by (simp add: phase_ok_def)
    from ok_now[OF v1 this] failed0 show ?thesis using CStart cr by (simp add: comp_step_def)
  next
    case (CWriting i off)
    then have p: "\<not> new" "map_of (fnames d) tmpName = Some i" "finode d i = take off bs" "off \<le> length bs"
      using ph by (auto simp: phase_ok_def)
    let ?x = "take (Suc k) (drop off bs)"
    have c: "write_at off ?x (take off bs) = take (off + length ?x) bs" if "off < length bs"
    proof -
      have "take (length ?x) (drop off bs) = ?x" by (simp add: min_def)
      then show ?thesis using p(4) by (simp only: take_add) (simp add: write_at_end)
    qed
    show ?thesis
    proof (cases "ok \<and> off < length bs")
      case True
      let ?d1 = "fs_write d i off ?x"
      have d1: "?d1 = d\<lparr>finode := (finode d)(i := take (off + length ?x) bs)\<rparr>" using c True p(3) by (simp add: fs_write_def)
      have "dir_view d0 olds keep bs app new j ?d1"
        unfolding d1 by (rule view_tmp[OF v s]) (simp_all add: fs_content[OF w p(2)])
      moreover have "phase_ok olds keep bs new j ?d1 (CWriting i (off + length ?x))"
        using p True unfolding d1 by (auto simp: phase_ok_def min_def)
      ultimately have "\<exists>new' j'. comp_inv d0 olds keep bs app new' j' (c\<lparr>cphase := CWriting i (off + length ?x)\<rparr>, ?d1)"
        by (rule ok_now)
      then show ?thesis using True CWriting b by (simp add: comp_step_def Let_def)
    next
      case False
      have "phase_ok olds keep bs new j d CSynced" if "\<not> off < length bs"
        using p that by (simp add: phase_ok_def fs_read_def)
      then have "\<not> off < length bs \<Longrightarrow> \<exists>new' j'. comp_inv d0 olds keep bs app new' j' (c\<lparr>cphase := CSynced\<rparr>, d)"
        using ok_now[OF v] by blast
      then show ?thesis using False failed CWriting b by (cases ok) (simp_all add: comp_step_def)
    qed
  next
    case CSynced
    then have p: "\<not> new" "fs_read d tmpName = Some bs" "j = 0" using ph v by (auto simp: phase_ok_def dir_view_def)
    then obtain i where i: "map_of (fnames d) tmpName = Some i" by (auto simp: fs_read_def)
    obtain d1 where r: "fs_rename d tmpName snapName = Some d1" "wf_fs d1"
      "\<And>m. fs_read d1 m = (if m = snapName then fs_read d tmpName else if m = tmpName then None else fs_read d m)"
      by (rule fs_rename_spec[OF w i not_wal(4)]) (rule that)
    have v1: "dir_view d0 olds keep bs app True 0 d1"
      by (rule view_rename[OF _ s r(2)]) (use v p r(3) in auto)
    have "phase_ok olds keep bs True 0 d1 CRenamed" by (simp add: phase_ok_def)
    from ok_now[OF v1 this] failed show ?thesis using CSynced r(1) by (simp add: comp_step_def)
  next
    case CRenamed
    then have p: "new" "j = 0" using ph by (auto simp: phase_ok_def)
    have "phase_ok olds keep bs new j d (CCleaning (wal_names d))"
      using p view_logs[OF s v] by (auto simp: phase_ok_def intro!: exI[of _ 0])
    from ok_now[OF v this] failed0 show ?thesis using CRenamed by (simp add: comp_step_def)
  next
    case (CCleaning ns)
    then obtain i where p: "new" "ns = drop i (olds @ [keep])" "j = min i (length olds)" using ph by (auto simp: phase_ok_def)
    show ?thesis
    proof (cases ns)
      case Nil
      then have "j = length olds" using p by auto
      then have "phase_ok olds keep bs new j d CDone" using p by (simp add: phase_ok_def)
      from ok_now[OF v this] show ?thesis using CCleaning Nil by (simp add: comp_step_def)
    next
      case (Cons n rest)
      then have n: "i < length olds \<and> n = olds ! i \<or> i = length olds \<and> n = keep" "rest = drop (Suc i) (olds @ [keep])"
        using take_drop_Cons[of i olds keep n rest] p(2) by auto
      show ?thesis
      proof (cases "i < length olds")
        case True
        then have o: "n = olds ! i" "olds ! i \<in> set olds" "j = i" using n p by auto
        then have cl: "cleanup_one keep n d = fs_remove d (olds ! i)" using start_facts(9)[OF s o(2)] by (simp add: cleanup_one_def)
        have v1: "dir_view d0 olds keep bs app new (Suc i) (fs_remove d (olds ! i))"
          using view_remove[OF _ s True] v p(1) o(3) by simp
        have "phase_ok olds keep bs new (Suc i) (fs_remove d (olds ! i)) (CCleaning rest)"
          using p n(2) True by (auto simp: phase_ok_def intro!: exI[of _ "Suc i"])
        from ok_now[OF v1 this] show ?thesis using cl CCleaning Cons kp by (simp add: comp_step_def)
      next
        case False
        then have "n = keep" "i = length olds" using n by auto
        then have cl: "cleanup_one keep n d = d" and "phase_ok olds keep bs new j d (CCleaning rest)"
          using p n(2) by (auto simp: cleanup_one_def phase_ok_def intro!: exI[of _ "Suc i"])
        from ok_now[OF v this(2)] show ?thesis using cl CCleaning Cons kp by (simp add: comp_step_def)
      qed
    qed
  next
    case CDone
    then have "comp_step k ok c d = (c, d)" by (simp add: comp_step_def)
    then show ?thesis using inv by metis
  next
    case CFailed
    then have "comp_step k ok c d = (c, d)" by (simp add: comp_step_def)
    then show ?thesis using inv by metis
  qed
qed

text \<open>What is appended during a run.\<close>

fun appended :: "event list \<Rightarrow> bytes" where
  "appended [] = []"
| "appended (Comp k ok # evs) = appended evs"
| "appended (Append bs # evs) = bs @ appended evs"

lemma run_inv:
  assumes s: "start_ok d0 olds keep" and inv: "comp_inv d0 olds keep bs app new j cd"
  shows "\<exists>new' j'. comp_inv d0 olds keep bs (app @ appended evs) new' j' (run_events evs cd)"
  using inv
proof (induction evs arbitrary: cd new j app)
  case Nil
  then show ?case by (auto simp: run_events_def)
next
  case (Cons ev evs)
  obtain c d where cd: "cd = (c, d)" by fastforce
  show ?case
  proof (cases ev)
    case (Comp k ok)
    obtain n1 j1 where "comp_inv d0 olds keep bs app n1 j1 (comp_step k ok c d)"
      using comp_step_inv[OF s] Cons.prems unfolding cd by blast
    from Cons.IH[OF this] show ?thesis using Comp cd by (simp add: run_events_def)
  next
    case (Append bs')
    have "comp_inv d0 olds keep bs (app @ bs') new j (c, fs_append d (ckeep c) bs')"
    proof -
      have i: "dir_view d0 olds keep bs app new j d" "phase_ok olds keep bs new j d (cphase c)" "cbytes c = bs" "ckeep c = keep"
        using Cons.prems cd by (simp_all add: comp_inv_def)
      then have "wf_fs d" by (simp add: dir_view_def)
      then show ?thesis using i view_app[OF i(1) s] phase_app[OF i(2) _ s] by (simp add: comp_inv_def)
    qed
    from Cons.IH[OF this] show ?thesis using Append cd by (simp add: run_events_def)
  qed
qed

section \<open>Recovery at a crash\<close>

text \<open>Replaying a journal from any point over a slot that already holds a later prefix of it.\<close>

lemma fold_eff_suffix:
  assumes "i \<le> j"
  shows "fold (\<lambda>t. eff (f t)) (drop i ts) (fold (\<lambda>t. eff (f t)) (take j ts) x) = fold (\<lambda>t. eff (f t)) ts x"
proof -
  have whole: "fold (\<lambda>t. eff (f t)) ts x = fold (\<lambda>t. eff (f t)) (drop i ts) (fold (\<lambda>t. eff (f t)) (take i ts) x)"
    by (metis append_take_drop_id comp_apply fold_append)
  have tj: "take j ts = take i ts @ take (j - i) (drop i ts)" using assms by (metis le_add_diff_inverse take_add)
  consider "\<forall>t \<in> set (drop i ts). f t = Keep" | y where "\<And>x. fold (\<lambda>t. eff (f t)) (drop i ts) x = y"
    using fold_eff_or[of "drop i ts" f] by blast
  then show ?thesis
  proof cases
    case 1
    then have "\<forall>t \<in> set (take (j - i) (drop i ts)). f t = Keep" by (meson in_set_takeD)
    then show ?thesis using 1 by (simp add: whole tj fold_keep)
  next
    case 2
    then show ?thesis by (simp add: whole)
  qed
qed

text \<open>The directory recovered at one clock reading, into a new server: its keys, deadlines and scores.\<close>

definition at_clock :: "int \<Rightarrow> int \<Rightarrow> entry list \<Rightarrow> timed list" where
  "at_clock W M es = map (\<lambda>e. (W, M, e)) es"

definition recover_dir :: "'v vec_ops \<Rightarrow> int \<Rightarrow> int \<Rightarrow> fs \<Rightarrow> 'v applier \<Rightarrow> 'v applier option" where
  "recover_dir V W M d a =
     (case ReadEntries (fs_read d snapName) of
        Inl e \<Rightarrow> None
      | Inr ses \<Rightarrow>
          (case read_logs d (wal_names d) of
             Inl e \<Rightarrow> None
           | Inr es \<Rightarrow> Some (snd (replay_logs V 0 (at_clock W M es) (0, replay_snapshot V (at_clock W M ses) a)))))"

definition same_state :: "'v applier \<Rightarrow> 'v applier \<Rightarrow> bool" where
  "same_state a b \<longleftrightarrow> kvv a = kvv b \<and> tvv a = tvv b \<and> zvv a = zvv b"

text \<open>Slot by slot, a state that some point of the journal at or behind \<open>i\<close> left.\<close>

definition mixture :: "'v vec_ops \<Rightarrow> timed list \<Rightarrow> nat \<Rightarrow> 'v applier \<Rightarrow> 'v applier \<Rightarrow> bool" where
  "mixture V tes i a0 a \<longleftrightarrow>
     (\<forall>k. \<exists>j \<ge> i. kvv a k = kvv (snd (replay_logs V 0 (take j tes) (0, a0))) k) \<and>
     (\<forall>k. \<exists>j \<ge> i. tvv a k = tvv (snd (replay_logs V 0 (take j tes) (0, a0))) k) \<and>
     (\<forall>n x. \<exists>j \<ge> i. zvv a n x = zvv (snd (replay_logs V 0 (take j tes) (0, a0))) n x)"

lemma mixture_replay:
  assumes "ap_inv a0" "ap_inv a" "mixture V tes i a0 a" "i' \<le> i"
  shows "same_state (snd (replay_logs V 0 (drop i' tes) (0, a))) (snd (replay_logs V 0 tes (0, a0)))"
proof -
  note slots = replay_logs_snd[OF assms(1)] replay_logs_snd[OF assms(2)]
  have "kvv (snd (replay_logs V 0 (drop i' tes) (0, a))) k = kvv (snd (replay_logs V 0 tes (0, a0))) k" for k
  proof -
    obtain j where "i \<le> j" "kvv a k = kvv (snd (replay_logs V 0 (take j tes) (0, a0))) k" using assms(3) unfolding mixture_def by blast
    moreover have "i' \<le> j" using calculation(1) assms(4) by simp
    ultimately show ?thesis by (simp add: slots fold_eff_suffix)
  qed
  moreover have "tvv (snd (replay_logs V 0 (drop i' tes) (0, a))) k = tvv (snd (replay_logs V 0 tes (0, a0))) k" for k
  proof -
    obtain j where "i \<le> j" "tvv a k = tvv (snd (replay_logs V 0 (take j tes) (0, a0))) k" using assms(3) unfolding mixture_def by blast
    moreover have "i' \<le> j" using calculation(1) assms(4) by simp
    ultimately show ?thesis by (simp add: slots fold_eff_suffix)
  qed
  moreover have "zvv (snd (replay_logs V 0 (drop i' tes) (0, a))) n x = zvv (snd (replay_logs V 0 tes (0, a0))) n x" for n x
  proof -
    obtain j where "i \<le> j" "zvv a n x = zvv (snd (replay_logs V 0 (take j tes) (0, a0))) n x" using assms(3) unfolding mixture_def by blast
    moreover have "i' \<le> j" using calculation(1) assms(4) by simp
    ultimately show ?thesis by (simp add: slots fold_eff_suffix)
  qed
  ultimately show ?thesis by (auto simp: same_state_def fun_eq_iff)
qed

text \<open>Reading back a snapshot.\<close>

lemma snapshot_readback:
  assumes "\<forall>r \<in> set recs. entry_fits (snap_record r)"
  shows "ReadEntries (Some (snapshot_bytes wm recs)) = Inr (map snap_record recs)"
proof -
  have "concat (map (\<lambda>r. frame (encodeEntry 0 (snap_record r))) recs) = wlog.wrs (map snap_record recs)"
    by (induction recs) (auto simp: snap_record_def)
  then have "read_records (concat (map (\<lambda>r. frame (encodeEntry 0 (snap_record r))) recs)) = map snap_record recs"
    using wlog.rd_wrs[of "map snap_record recs" "[]"] assms by simp
  then show ?thesis by (simp add: ReadEntries_def snapshot_bytes_def ReadFile_whole)
qed

lemma read_logs_append:
  "read_logs d (xs @ ys) =
     (case read_logs d xs of Inl e \<Rightarrow> Inl e | Inr es \<Rightarrow> (case read_logs d ys of Inl e \<Rightarrow> Inl e | Inr es' \<Rightarrow> Inr (es @ es')))"
  by (induction xs) (auto split: sum.splits)

lemma read_logs_cong: "\<forall>n \<in> set ns. fs_read d n = fs_read d' n \<Longrightarrow> read_logs d ns = read_logs d' ns"
  by (induction ns) (auto split: sum.splits)

lemma view_read:
  assumes s: "start_ok d0 olds keep" and v: "dir_view d0 olds keep bs app new j d"
  shows "read_logs d (wal_names d) =
    (case read_logs d0 (drop j olds) of Inl e \<Rightarrow> Inl e
     | Inr es \<Rightarrow> (case ReadEntries (fs_read d keep) of Inl e \<Rightarrow> Inl e | Inr es' \<Rightarrow> Inr (es @ es')))"
proof -
  have "fs_read d n = fs_read d0 n" if "n \<in> set (drop j olds)" for n
  proof -
    have "n \<in> set olds" using that by (rule in_set_dropD)
    then have "n \<notin> {snapName, tmpName, keep}" using start_facts(6,7,9)[OF s] by auto
    moreover have "n \<notin> set (take j olds)"
      using that start_facts(2)[OF s] by (metis append_take_drop_id disjoint_iff distinct_append)
    ultimately show ?thesis using v by (simp add: dir_view_def)
  qed
  then have "read_logs d (drop j olds) = read_logs d0 (drop j olds)" by (intro read_logs_cong) simp
  then show ?thesis by (simp add: view_logs[OF s v] read_logs_append split: sum.splits)
qed

section \<open>Properties\<close>


text \<open>Two compactions at once: nothing keeps a second \<open>COMPACT\<close> from starting while the first one writes
  (the flag of the syncer is cleared as soon as the first has been handed to its goroutine, and the
  command has none). Both use the same temporary file.\<close>

definition two_compactions :: "compaction \<Rightarrow> compaction \<Rightarrow> nat \<Rightarrow> fs \<Rightarrow> compaction \<times> compaction \<times> fs" where
  "two_compactions c1 c2 n d =
     (case comp_step 0 True c1 d of (c1, d) \<Rightarrow>
      case comp_step (length (cbytes c1)) True c1 d of (c1, d) \<Rightarrow>
      case comp_step 0 True c1 d of (c1, d) \<Rightarrow>
      case comp_step 0 True c2 d of (c2, d) \<Rightarrow>
      case comp_step 0 True c1 d of (c1, d) \<Rightarrow>
      case comp_step 0 True c1 d of (c1, d) \<Rightarrow>
      case ((\<lambda>(c, d). comp_step 0 True c d) ^^ n) (c1, d) of (c1, d) \<Rightarrow> (c1, c2, d))"

lemma cleaning_run:
  "cphase c = CCleaning ns \<Longrightarrow>
   ((\<lambda>(c, d). comp_step 0 True c d) ^^ (length ns + 1)) (c, d) = (c\<lparr>cphase := CDone\<rparr>, fold (cleanup_one (ckeep c)) ns d)"
proof (induction ns arbitrary: c d)
  case Nil
  then show ?case by (simp add: comp_step_def)
next
  case (Cons n ns)
  have "comp_step 0 True c d = (c\<lparr>cphase := CCleaning ns\<rparr>, cleanup_one (ckeep c) n d)" using Cons.prems by (simp add: comp_step_def)
  then show ?case using Cons.IH[of "c\<lparr>cphase := CCleaning ns\<rparr>" "cleanup_one (ckeep c) n d"]
    by (simp add: funpow_swap1 del: funpow.simps(2)) (simp add: funpow_swap1)
qed

lemma cleanup_spec:
  "wf_fs d \<Longrightarrow> wf_fs (fold (cleanup_one keep) ns d) \<and>
   (\<forall>m. fs_read (fold (cleanup_one keep) ns d) m = (if m \<in> set ns \<and> m < keep then None else fs_read d m))"
proof (induction ns arbitrary: d)
  case (Cons n ns)
  have "wf_fs (cleanup_one keep n d)" "\<forall>m. fs_read (cleanup_one keep n d) m = (if m = n \<and> m < keep then None else fs_read d m)"
    using Cons.prems by (auto simp: cleanup_one_def fs_remove_spec)
  then show ?case using Cons.IH[of "cleanup_one keep n d"] by auto
qed simp

lemma wal_names_eq:
  assumes "wf_fs d" "sorted ns" "distinct ns" "\<And>n. n \<in> set ns \<longleftrightarrow> is_wal n \<and> fs_read d n \<noteq> None"
  shows "wal_names d = ns"
proof -
  have "{n. is_wal n \<and> fs_read d n \<noteq> None} = set ns" using assms(4) by blast
  then show ?thesis using wal_names_read[OF assms(1)] sorted_list_of_set.idem_if_sorted_distinct[OF assms(2,3)] by simp
qed

lemma wal_names_mem: "wf_fs d \<Longrightarrow> n \<in> set (wal_names d) \<longleftrightarrow> is_wal n \<and> fs_read d n \<noteq> None"
  unfolding wal_names_def using map_of_eq_None_iff[of "fnames d" n] by (auto simp: fs_read_def)

lemma wal_names_sorted: "wf_fs d \<Longrightarrow> sorted (wal_names d) \<and> distinct (wal_names d)"
  by (simp add: wal_names_read)

text \<open>The six steps before the cleaning: the directory ends with an empty snapshot.\<close>

lemma two_steps:
  assumes w: "wf_fs d0" and bs: "bs1 \<noteq> []"
  shows "\<exists>c2 d. wf_fs d \<and> fs_read d snapName = Some [] \<and> (\<forall>n. n \<notin> {snapName, tmpName} \<longrightarrow> fs_read d n = fs_read d0 n) \<and>
    two_compactions (comp_new bs1 k1) (comp_new bs2 k2) n d0 =
      (case ((\<lambda>(c, d). comp_step 0 True c d) ^^ n) ((comp_new bs1 k1)\<lparr>cphase := CCleaning (wal_names d)\<rparr>, d) of (c1, d) \<Rightarrow> (c1, c2, d))"
proof -
  obtain i d1 where c1: "fs_create d0 tmpName = (i, d1)" by fastforce
  note s1 = fs_create_spec[OF w c1]
  let ?d2 = "fs_write d1 i 0 bs1"
  have d2: "?d2 = d1\<lparr>finode := (finode d1)(i := bs1)\<rparr>" using s1(3) by (simp add: fs_write_def write_at_def)
  have w2: "wf_fs ?d2" unfolding d2 by (rule fs_content(1)[OF s1(1,2)])
  have n2: "map_of (fnames ?d2) tmpName = Some i" using s1(2) by (simp add: d2)
  have r2: "fs_read ?d2 m = fs_read d0 m" if "m \<noteq> tmpName" for m
    unfolding d2 using fs_content(2)[OF s1(1,2), of bs1 m] s1(4)[OF that] that by simp
  let ?d3 = "?d2\<lparr>finode := (finode ?d2)(i := [])\<rparr>"
  have c2: "fs_create ?d2 tmpName = (i, ?d3)" using n2 by (simp add: fs_create_def)
  note s3 = fs_create_spec[OF w2 c2]
  have t3: "fs_read ?d3 tmpName = Some []" using s3(2,3) by (simp add: fs_read_def)
  obtain d4 where r: "fs_rename ?d3 tmpName snapName = Some d4" "wf_fs d4"
    "\<And>m. fs_read d4 m = (if m = snapName then fs_read ?d3 tmpName else if m = tmpName then None else fs_read ?d3 m)"
    by (rule fs_rename_spec[OF s3(1,2) not_wal(4)]) (rule that)
  have a1: "comp_step 0 True (comp_new bs1 k1) d0 = ((comp_new bs1 k1)\<lparr>cphase := CWriting i 0\<rparr>, d1)"
    by (simp add: comp_step_def comp_new_def c1)
  have a2: "comp_step (length bs1) True ((comp_new bs1 k1)\<lparr>cphase := CWriting i 0\<rparr>) d1 =
      ((comp_new bs1 k1)\<lparr>cphase := CWriting i (length bs1)\<rparr>, ?d2)"
    using bs by (simp add: comp_step_def comp_new_def Let_def)
  have a3: "comp_step 0 True ((comp_new bs1 k1)\<lparr>cphase := CWriting i (length bs1)\<rparr>) ?d2 =
      ((comp_new bs1 k1)\<lparr>cphase := CSynced\<rparr>, ?d2)"
    by (simp add: comp_step_def comp_new_def)
  have a4: "comp_step 0 True (comp_new bs2 k2) ?d2 = ((comp_new bs2 k2)\<lparr>cphase := CWriting i 0\<rparr>, ?d3)"
    using c2 by (simp add: comp_step_def comp_new_def)
  have a5: "comp_step 0 True ((comp_new bs1 k1)\<lparr>cphase := CSynced\<rparr>) ?d3 = ((comp_new bs1 k1)\<lparr>cphase := CRenamed\<rparr>, d4)"
    using r(1) by (simp add: comp_step_def comp_new_def)
  have a6: "comp_step 0 True ((comp_new bs1 k1)\<lparr>cphase := CRenamed\<rparr>) d4 =
      ((comp_new bs1 k1)\<lparr>cphase := CCleaning (wal_names d4)\<rparr>, d4)"
    by (simp add: comp_step_def comp_new_def)
  have cb: "cbytes ((comp_new bs1 k1)\<lparr>cphase := p\<rparr>) = bs1" for p by (simp add: comp_new_def)
  have "two_compactions (comp_new bs1 k1) (comp_new bs2 k2) n d0 =
      (case ((\<lambda>(c, d). comp_step 0 True c d) ^^ n) ((comp_new bs1 k1)\<lparr>cphase := CCleaning (wal_names d4)\<rparr>, d4) of
         (c1, d) \<Rightarrow> (c1, (comp_new bs2 k2)\<lparr>cphase := CWriting i 0\<rparr>, d))"
    by (simp only: two_compactions_def a1 a2 a3 a4 a5 a6 cb prod.case)
  moreover have "fs_read d4 snapName = Some []" using r(3) t3 by simp
  moreover have "fs_read d4 m = fs_read d0 m" if "m \<notin> {snapName, tmpName}" for m
    using that r(3) s3(4)[of m] r2[of m] by simp
  ultimately show ?thesis using r(2) by blast
qed

text \<open>Two compactions that overlap lose everything. When the second one creates the temporary file
  between the first one's sync and its rename, it truncates the finished snapshot; the first one then renames
  the empty file into place, removes the old logs and reports success. A crash before the second
  one has finished recovers nothing but what was written after the first rotation.\<close>
theorem overlapping_compactions_lose:
  assumes "wf_fs d0" "wal_names d0 = olds @ [k1, k2]" "bs1 \<noteq> []"
    and "two_compactions (comp_new bs1 k1) (comp_new bs2 k2) (length olds + 3) d0 = (c1, c2, d)"
  shows "cphase c1 = CDone \<and> fs_read d snapName = Some [] \<and> wal_names d = [k1, k2] \<and>
    ReadAllWALs d = read_logs d0 [k1, k2]"
proof -
  obtain c d4 where t: "wf_fs d4" "fs_read d4 snapName = Some []" "\<And>n. n \<notin> {snapName, tmpName} \<Longrightarrow> fs_read d4 n = fs_read d0 n"
    "two_compactions (comp_new bs1 k1) (comp_new bs2 k2) (length olds + 3) d0 =
      (case ((\<lambda>(c, d). comp_step 0 True c d) ^^ (length olds + 3)) ((comp_new bs1 k1)\<lparr>cphase := CCleaning (wal_names d4)\<rparr>, d4) of
         (c1, d) \<Rightarrow> (c1, c, d))"
    using two_steps[OF assms(1,3)] by blast
  have sd: "sorted (olds @ [k1, k2])" "distinct (olds @ [k1, k2])" using wal_names_sorted[OF assms(1)] assms(2) by simp_all
  have mem: "n \<in> set (olds @ [k1, k2]) \<longleftrightarrow> is_wal n \<and> fs_read d0 n \<noteq> None" for n using wal_names_mem[OF assms(1), of n] assms(2) by simp
  have "wal_names d4 = olds @ [k1, k2]"
    by (rule wal_names_eq[OF t(1) sd]) (use mem t(3) in \<open>metis insert_iff not_wal(1,2) singletonD\<close>)
  then have names: "wal_names d4 = olds @ [k1, k2]" .
  let ?c0 = "(comp_new bs1 k1)\<lparr>cphase := CCleaning (olds @ [k1, k2])\<rparr>"
  have len: "length olds + 3 = length (olds @ [k1, k2]) + 1" by simp
  have keep: "ckeep ?c0 = k1" and fin: "?c0\<lparr>cphase := CDone\<rparr> = (comp_new bs1 k1)\<lparr>cphase := CDone\<rparr>" by (simp_all add: comp_new_def)
  have "((\<lambda>(c, d). comp_step 0 True c d) ^^ (length olds + 3)) (?c0, d4) =
      ((comp_new bs1 k1)\<lparr>cphase := CDone\<rparr>, fold (cleanup_one k1) (olds @ [k1, k2]) d4)"
  proof -
    have "cphase ?c0 = CCleaning (olds @ [k1, k2])" by simp
    from cleaning_run[OF this, of d4] show ?thesis unfolding len keep fin .
  qed
  then have r: "c1 = (comp_new bs1 k1)\<lparr>cphase := CDone\<rparr>" "d = fold (cleanup_one k1) (olds @ [k1, k2]) d4"
    using assms(4) t(4) unfolding names by simp_all
  have wd: "wf_fs d" and cl: "fs_read d m = (if m \<in> set (olds @ [k1, k2]) \<and> m < k1 then None else fs_read d4 m)" for m
    using cleanup_spec[OF t(1), of k1 "olds @ [k1, k2]"] unfolding r(2) by blast+
  have lt: "n \<in> set olds \<longleftrightarrow> n \<in> set (olds @ [k1, k2]) \<and> n < k1" for n
  proof -
    have "\<forall>x \<in> set olds. x \<le> k1 \<and> x \<noteq> k1" "k1 \<le> k2" using sd by (auto simp: sorted_append)
    then show ?thesis by (auto simp: order.strict_iff_order)
  qed
  have rd: "fs_read d n = (if n \<in> set olds then None else fs_read d4 n)" for n unfolding cl lt ..
  have sn: "snapName \<notin> set (olds @ [k1, k2])" "tmpName \<notin> set (olds @ [k1, k2])" using mem by auto
  have "wal_names d = [k1, k2]"
  proof (rule wal_names_eq)
    show "wf_fs d" by (rule wd)
    show "sorted [k1, k2]" "distinct [k1, k2]" using sd by (auto simp: sorted_append)
    show "n \<in> set [k1, k2] \<longleftrightarrow> is_wal n \<and> fs_read d n \<noteq> None" for n
      using mem[of n] rd[of n] t(3)[of n] sd sn by (cases "n \<in> {snapName, tmpName}") auto
  qed
  moreover have k: "fs_read d k1 = fs_read d0 k1" "fs_read d k2 = fs_read d0 k2"
    using rd t(3) sd sn by auto
  moreover have "fs_read d snapName = Some []" using rd t(2) sn by simp
  moreover have "ReadEntries (Some []) = Inr []" by (simp add: ReadEntries_def ReadFile_def readFileHeader_def fileHeaderSize_def)
  moreover have "read_logs d [k1, k2] = read_logs d0 [k1, k2]" using k by (simp only: read_logs.simps)
  ultimately show ?thesis using r(1) by (simp add: ReadAllWALs_def split: sum.split)
qed

text \<open>Compaction loses an acknowledged \<open>SET\<close> whose value reaches the store after the walk. \<open>SET\<close>
  journals before it stores; if its record is in the old log when the log is rotated and the walk passes the
  key before the store has it, the snapshot misses the value, the log that has it is removed, and a
  restart does not find the key, although replaying the whole journal would.\<close>
theorem unapplied_set_lost:
  assumes "start_ok d0 olds keep" and "\<forall>r \<in> set recs. entry_fits (snap_record r)"
    and "run_events evs (comp_new (snapshot_bytes wm recs) keep, d0) = (c, d)" "cphase c = CDone"
    and "read_logs d0 olds = Inr (old @ [\<lparr>LSN = l, Op = OpSet, Key = k, Value = v\<rparr>])" "ReadEntries (fs_read d keep) = Inr new"
    and "ap_inv a" "ap_inv a0" "a1 = replay_snapshot V (at_clock W M (map snap_record recs)) a"
    and "kvv a1 k = None" "\<forall>e \<in> set new. kv_effect W e k = Keep"
  shows "(\<exists>r. recover_dir V W M d a = Some r \<and> kvv r k = None) \<and>
    kvv (snd (replay_logs V 0 (at_clock W M (old @ \<lparr>LSN = l, Op = OpSet, Key = k, Value = v\<rparr> # new)) (0, a0))) k = Some v"
proof -
  let ?bs = "snapshot_bytes wm recs"
  obtain nw j where inv: "comp_inv d0 olds keep ?bs (appended evs) nw j (c, d)"
    using run_inv[OF assms(1) view_start[OF assms(1)], of ?bs evs] assms(3) by auto
  then have v: "dir_view d0 olds keep ?bs (appended evs) nw j d" by (simp add: comp_inv_def)
  have p: "nw" "j = length olds" using inv assms(4) by (auto simp: comp_inv_def phase_ok_def)
  have e: "ReadEntries (fs_read d snapName) = Inr (map snap_record recs)"
    using v p snapshot_readback[OF assms(2)] by (simp add: dir_view_def)
  have logs: "read_logs d (wal_names d) = Inr new" using view_read[OF assms(1) v] assms(6) p by simp
  have inv1: "ap_inv a1" using replay_snapshot_slots[OF assms(7,9)] by blast
  have keep: "fold (\<lambda>t. eff (case t of (W, M, e) \<Rightarrow> masked 0 e (kv_effect W e k))) (at_clock W M new) x = x" for x
    by (rule fold_keep) (use assms(11) in \<open>auto simp: at_clock_def\<close>)
  have "recover_dir V W M d a = Some (snd (replay_logs V 0 (at_clock W M new) (0, a1)))"
    using e logs assms(9) by (simp add: recover_dir_def)
  moreover have "kvv (snd (replay_logs V 0 (at_clock W M new) (0, a1))) k = None"
    using replay_logs_snd[OF inv1] keep assms(10) by simp
  moreover have "kvv (snd (replay_logs V 0 (at_clock W M (old @ \<lparr>LSN = l, Op = OpSet, Key = k, Value = v\<rparr> # new)) (0, a0))) k = Some v"
  proof -
    have "at_clock W M (old @ \<lparr>LSN = l, Op = OpSet, Key = k, Value = v\<rparr> # new) =
      (at_clock W M old @ [(W, M, \<lparr>LSN = l, Op = OpSet, Key = k, Value = v\<rparr>)]) @ at_clock W M new"
      by (simp add: at_clock_def)
    then show ?thesis using replay_logs_snd[OF assms(8)] keep by (simp add: kv_effect_def op_defs)
  qed
  ultimately show ?thesis by blast
qed

section \<open>Witnesses\<close>

definition sample_file :: "entry list \<Rightarrow> bytes" where
  "sample_file es = fileHeader 0 @ wlog.wrs es"

definition sample_set :: entry where
  "sample_set = \<lparr>LSN = 1, Op = OpSet, Key = ''a'', Value = ''1''\<rparr>"

definition sample_dir :: fs where
  "sample_dir = \<lparr>fnames = [(''wal_1.log'', 0), (''wal_2.log'', 1)], finode = (\<lambda>i. if i = 0 then sample_file [sample_set] else fileHeader 0), fnext = 2\<rparr>"

lemma sample_dir_ok: "start_ok sample_dir [''wal_1.log''] ''wal_2.log''"
  by (simp add: start_ok_def sample_dir_def wf_fs_def keys_distinct_def wal_names_def is_wal_def less_eq_char_def)

lemma sample_dir_read: "fs_read sample_dir ''wal_1.log'' = Some (sample_file [sample_set])" "fs_read sample_dir ''wal_2.log'' = Some (fileHeader 0)"
  "fs_read sample_dir snapName = None"
  by (simp_all add: fs_read_def sample_dir_def snapName_def)

lemma sample_logs: "read_logs sample_dir [''wal_1.log''] = Inr [sample_set]" "ReadEntries (Some (fileHeader 0)) = Inr []"
proof -
  have "entry_fits sample_set" by (simp add: sample_set_def entry_fits_def maxEntrySize_def)
  then have "read_records (wlog.wrs [sample_set]) = [sample_set]" using wlog.rd_wrs[of "[sample_set]" "[]"] by simp
  then show "read_logs sample_dir [''wal_1.log''] = Inr [sample_set]"
    by (simp add: sample_dir_read ReadEntries_def ReadFile_whole sample_file_def)
  show "ReadEntries (Some (fileHeader 0)) = Inr []" using ReadFile_whole[of 0 "[]"] by (simp add: ReadEntries_def)
qed

lemma run_keep:
  assumes "start_ok d0 olds keep" "run_events evs (comp_new bs keep, d0) = (c, d)"
  shows "fs_read d keep = map_option (\<lambda>c. c @ appended evs) (fs_read d0 keep)"
  using run_inv[OF assms(1) view_start[OF assms(1)], of bs evs] assms(2) by (auto simp: comp_inv_def dir_view_def)

lemma appended_none: "appended (replicate n (Comp k ok)) = []"
  by (induction n) auto

definition sample_ap :: "unit applier" where
  "sample_ap = ap_new (\<lambda>_. 0) () False 0"

lemma sample_ap_inv: "ap_inv sample_ap" "kvv sample_ap k = None"
  by (simp_all add: sample_ap_def)

lemma sample_mixture:
  "mixture no_vec (at_clock 10 0 ([sample_set] @ [])) (length [sample_set]) sample_ap
     (replay_snapshot no_vec (at_clock 10 0 (map snap_record [(OpSet, ''a'', ''1'')])) sample_ap)"
proof -
  note sl = replay_snapshot_slots[OF sample_ap_inv(1) refl, of no_vec "at_clock 10 0 (map snap_record [(OpSet, ''a'', ''1'')])"]
  note rl = replay_logs_snd[OF sample_ap_inv(1), of no_vec 0 "take 1 (at_clock 10 0 ([sample_set] @ []))" 0]
  have k: "kv_effect 10 (snap_record (OpSet, ''a'', ''1'')) k = kv_effect 10 sample_set k"
    "ttl_effect 10 0 (snap_record (OpSet, ''a'', ''1'')) k = ttl_effect 10 0 sample_set k"
    "zset_effect (snap_record (OpSet, ''a'', ''1'')) k m = zset_effect sample_set k m" for k m
    by (simp_all add: kv_effect_def ttl_effect_def zset_effect_def snap_record_def sample_set_def)
  show ?thesis unfolding mixture_def
    using sl rl by (intro conjI allI exI[of _ 1]) (simp_all add: at_clock_def k)
qed


lemma sample_done: "cphase (fst (run_events (replicate 8 (Comp 20 True)) (comp_new (snapshot_bytes 1 []) ''wal_2.log'', sample_dir))) = CDone"
  by (simp add: run_events_def eval_nat_numeral comp_step_def comp_new_def fs_create_def fs_write_def fs_rename_def sample_dir_def
      Let_def wal_names_def is_wal_def less_eq_char_def snapshot_bytes_def fileHeaderSize_def snapName_def tmpName_def cleanup_one_def)

theorem unapplied_set_lost_witness:
  "\<exists>c d r. run_events (replicate 8 (Comp 20 True)) (comp_new (snapshot_bytes 1 []) ''wal_2.log'', sample_dir) = (c, d) \<and>
     recover_dir no_vec 10 0 d sample_ap = Some r \<and> kvv r ''a'' = None \<and>
     kvv (snd (replay_logs no_vec 0 (at_clock 10 0 [sample_set]) (0, sample_ap))) ''a'' = Some ''1''"
proof -
  obtain c d where r: "run_events (replicate 8 (Comp 20 True)) (comp_new (snapshot_bytes 1 []) ''wal_2.log'', sample_dir) = (c, d)"
    by fastforce
  have dn: "cphase c = CDone" using sample_done r by simp
  have new: "ReadEntries (fs_read d ''wal_2.log'') = Inr []"
    using run_keep[OF sample_dir_ok r] by (simp add: sample_dir_read appended_none sample_logs(2))
  have old: "read_logs sample_dir [''wal_1.log''] = Inr ([] @ [\<lparr>LSN = 1, Op = OpSet, Key = ''a'', Value = ''1''\<rparr>])"
    using sample_logs(1) by (simp add: sample_set_def)
  have a1: "kvv (replay_snapshot no_vec (at_clock 10 0 (map snap_record [])) sample_ap) ''a'' = None"
    by (simp add: at_clock_def replay_snapshot_def sample_ap_inv(2))
  show ?thesis
    using unapplied_set_lost[OF sample_dir_ok _ r dn old new sample_ap_inv(1) sample_ap_inv(1) refl a1] r
    by (simp add: sample_set_def)
qed

definition sample_dir2 :: fs where
  "sample_dir2 = \<lparr>fnames = [(''wal_1.log'', 0), (''wal_2.log'', 1), (''wal_3.log'', 2)],
     finode = (\<lambda>i. if i = 0 then sample_file [sample_set] else fileHeader 0), fnext = 3\<rparr>"

theorem overlapping_compactions_lose_witness:
  "ReadAllWALs sample_dir2 = Inr [sample_set] \<and>
   ReadAllWALs (snd (snd (two_compactions (comp_new (snapshot_bytes 1 [(OpSet, ''a'', ''1'')]) ''wal_2.log'')
     (comp_new (snapshot_bytes 1 [(OpSet, ''a'', ''1'')]) ''wal_3.log'') 4 sample_dir2))) = Inr []"
proof -
  let ?b = "snapshot_bytes 1 [(OpSet, ''a'', ''1'')]"
  have w: "wf_fs sample_dir2" by (auto simp: sample_dir2_def wf_fs_def keys_distinct_def split: if_splits)
  have n: "wal_names sample_dir2 = [''wal_1.log''] @ [''wal_2.log'', ''wal_3.log'']"
    by (simp add: sample_dir2_def wal_names_def is_wal_def less_eq_char_def)
  have ne: "?b \<noteq> []" by (simp add: snapshot_bytes_def fileHeader_def fileMagic_def)
  have r: "fs_read sample_dir2 ''wal_1.log'' = Some (sample_file [sample_set])" "fs_read sample_dir2 ''wal_2.log'' = Some (fileHeader 0)"
    "fs_read sample_dir2 ''wal_3.log'' = Some (fileHeader 0)" "fs_read sample_dir2 snapName = None"
    by (simp_all add: fs_read_def sample_dir2_def snapName_def)
  have e: "ReadEntries (Some (sample_file [sample_set])) = Inr [sample_set]"
    using sample_logs(1) by (simp add: sample_dir_read split: sum.splits)
  have "ReadAllWALs sample_dir2 = Inr [sample_set]"
    unfolding ReadAllWALs_def n using r e sample_logs(2) by (simp add: ReadEntries_def[of None] ReadFile_def)
  moreover obtain c1 c2 d where t: "two_compactions (comp_new ?b ''wal_2.log'') (comp_new ?b ''wal_3.log'') (length [''wal_1.log''] + 3) sample_dir2 = (c1, c2, d)"
    using prod_cases3 by blast
  moreover have "read_logs sample_dir2 [''wal_2.log'', ''wal_3.log''] = Inr []" using r sample_logs(2) by simp
  ultimately show ?thesis using overlapping_compactions_lose[OF w n ne t] by simp
qed

end
