(* ===== verification/VecAttr.thy ===== *)
theory VecAttr
  imports Float64
begin

text \<open>
  The attributes of vectors (\<open>vector/attr.go\<close>): the attributes of one entry, the dictionary
  that turns the values of a categorical attribute into 32-bit codes, the columns of a segment, the
  compilation of a filter into a predicate on positions, and the filter on plain attributes that the
  insertion buffer uses. The lemmas show that the columns give every entry its attributes back (a NaN
  excepted, which stands for "no value") and when the two filters agree.
\<close>

type_synonym f32 = "32 word"

record term_tf =
  Term :: bytes
  TF :: "16 word"

record attributes =
  Cat :: "(bytes, bytes) gomap"
  Num :: "(bytes, f64) gomap"

text \<open>\<open>DeltaEntry\<close>: key, vector, attributes and terms of one document.\<close>

record delta_entry =
  Key :: bytes
  Vec :: "f32 list"
  Attrs :: attributes
  Terms :: "term_tf list"

definition no_attrs :: attributes where
  "no_attrs = \<lparr>Cat = [], Num = []\<rparr>"

definition attrs_empty :: "attributes \<Rightarrow> bool" where
  "attrs_empty a \<longleftrightarrow> length (Cat a) = 0 \<and> length (Num a) = 0"

lemma attrs_empty_iff: "attrs_empty a \<longleftrightarrow> a = no_attrs"
  by (cases a) (simp add: attrs_empty_def no_attrs_def)

text \<open>What a reader of an \<open>Attributes\<close> value can see of it: two lookups. A NaN is the mark of a
  missing number in a column, so it counts as no value.\<close>

definition num_view :: "(bytes, f64) gomap \<Rightarrow> bytes \<Rightarrow> f64 option" where
  "num_view m n = (case map_of m n of None \<Rightarrow> None | Some v \<Rightarrow> if f64_nan v then None else Some v)"

definition attr_view :: "attributes \<Rightarrow> (bytes \<Rightarrow> bytes option) \<times> (bytes \<Rightarrow> f64 option)" where
  "attr_view a = (map_of (Cat a), num_view (Num a))"

subsection \<open>The dictionary of a categorical attribute\<close>

text \<open>\<open>attrMissing\<close>, \<open>attrDict\<close>, \<open>intern\<close> and \<open>lookup\<close>.\<close>

definition attrMissing :: "32 word" where
  "attrMissing = 0xFFFFFFFF"

record attr_dict =
  code :: "(bytes, 32 word) gomap"
  vals :: "bytes list"

definition newAttrDict :: attr_dict where
  "newAttrDict = \<lparr>code = [], vals = []\<rparr>"

definition intern :: "attr_dict \<Rightarrow> bytes \<Rightarrow> 32 word \<times> attr_dict" where
  "intern d v =
     (case map_of (code d) v of
        Some c \<Rightarrow> (c, d)
      | None \<Rightarrow>
          let c = word_of_nat (length (vals d)) in
          (c, d\<lparr>code := AList.update v c (code d), vals := vals d @ [v]\<rparr>))"

definition dict_lookup :: "attr_dict \<Rightarrow> bytes \<Rightarrow> 32 word option" where
  "dict_lookup d v = map_of (code d) v"

text \<open>The codes are the positions in \<open>vals\<close>, and there are too few of them to reach the mark of a
  missing value.\<close>

definition dict_wf :: "attr_dict \<Rightarrow> bool" where
  "dict_wf d \<longleftrightarrow> distinct (vals d) \<and> length (vals d) < 2 ^ 32 \<and>
     (\<forall>v c. map_of (code d) v = Some c \<longleftrightarrow>
        (\<exists>i < length (vals d). vals d ! i = v \<and> c = word_of_nat i))"

lemma dict_wf_new [simp]: "dict_wf newAttrDict"
  by (simp add: dict_wf_def newAttrDict_def)

lemma unat_code: "i < 2 ^ 32 \<Longrightarrow> unat (word_of_nat i :: 32 word) = i"
  by (simp add: unat_of_nat)

lemma dict_wf_code:
  assumes "dict_wf d" "map_of (code d) v = Some c"
  shows "unat c < length (vals d)" "vals d ! unat c = v" "c \<noteq> attrMissing"
proof -
  obtain i where i: "i < length (vals d)" "vals d ! i = v" "c = word_of_nat i"
    using assms unfolding dict_wf_def by blast
  have len: "length (vals d) < 2 ^ 32" using assms(1) unfolding dict_wf_def by blast
  with i have u: "unat c = i" by (simp add: unat_code)
  then show "unat c < length (vals d)" "vals d ! unat c = v" using i by simp_all
  have "unat c < 2 ^ 32 - 1" using u i(1) len by simp
  moreover have "unat attrMissing = 2 ^ 32 - 1"
    by (simp add: attrMissing_def)
  ultimately show "c \<noteq> attrMissing" by auto
qed

lemma dict_wf_None: "dict_wf d \<Longrightarrow> map_of (code d) v = None \<longleftrightarrow> v \<notin> set (vals d)"
  unfolding dict_wf_def in_set_conv_nth by (metis not_None_eq)

lemma dict_wf_nth:
  "dict_wf d \<Longrightarrow> i < length (vals d) \<Longrightarrow> map_of (code d) (vals d ! i) = Some (word_of_nat i)"
  unfolding dict_wf_def by blast

lemma dict_wf_inj:
  assumes "dict_wf d" "map_of (code d) v = Some c" "map_of (code d) w = Some c"
  shows "v = w"
  using dict_wf_code(2)[OF assms(1,2)] dict_wf_code(2)[OF assms(1,3)] by simp

text \<open>\<open>intern\<close> keeps every code and gives the value one.\<close>

lemma intern_known: "map_of (code d) v = Some c \<Longrightarrow> intern d v = (c, d)"
  by (simp add: intern_def)

lemma intern_new:
  assumes "map_of (code d) v = None"
  shows "intern d v = (word_of_nat (length (vals d)),
    d\<lparr>code := AList.update v (word_of_nat (length (vals d))) (code d), vals := vals d @ [v]\<rparr>)"
  using assms by (simp add: intern_def Let_def)

lemma intern_wf:
  assumes wf: "dict_wf d" and len: "length (vals d) + 1 < 2 ^ 32"
  shows "dict_wf (snd (intern d v))"
proof (cases "map_of (code d) v")
  case (Some c)
  with wf show ?thesis by (simp add: intern_known)
next
  case None
  let ?n = "length (vals d)"
  have "v \<notin> set (vals d)" using None wf by (simp add: dict_wf_None)
  moreover have "map_of (AList.update v (word_of_nat ?n) (code d)) w = Some c \<longleftrightarrow>
      (\<exists>i < length (vals d @ [v]). (vals d @ [v]) ! i = w \<and> c = word_of_nat i)" for w c
  proof (cases "w = v")
    case True
    have "(vals d @ [v]) ! i = v \<longleftrightarrow> i = ?n" if "i < Suc ?n" for i
      using that \<open>v \<notin> set (vals d)\<close> by (cases "i = ?n") (auto simp: nth_append)
    with True show ?thesis by auto
  next
    case False
    have "(vals d @ [v]) ! i = w \<longleftrightarrow> i < ?n \<and> vals d ! i = w" if "i < Suc ?n" for i
      using that False by (cases "i = ?n") (auto simp: nth_append)
    then have "(\<exists>i < length (vals d @ [v]). (vals d @ [v]) ! i = w \<and> c = word_of_nat i) \<longleftrightarrow>
        (\<exists>i < ?n. vals d ! i = w \<and> c = word_of_nat i)"
      using less_Suc_eq by auto
    with False wf show ?thesis unfolding dict_wf_def by simp
  qed
  ultimately show ?thesis
    using None wf len by (simp add: intern_new dict_wf_def)
qed

lemma intern_vals:
  "set (vals (snd (intern d v))) = insert v (set (vals d)) \<or>
   (map_of (code d) v \<noteq> None \<and> snd (intern d v) = d)"
  by (cases "map_of (code d) v") (auto simp: intern_known intern_new)

lemma intern_length: "length (vals (snd (intern d v))) \<le> length (vals d) + 1"
  by (cases "map_of (code d) v") (auto simp: intern_known intern_new)

lemma intern_code:
  shows "map_of (code (snd (intern d v))) v = Some (fst (intern d v))"
    and "map_of (code d) w = Some c \<Longrightarrow> map_of (code (snd (intern d v))) w = Some c"
  by (cases "map_of (code d) v"; auto simp: intern_known intern_new)+

subsection \<open>Columns\<close>

record seg_attrs =
  sa_cat :: "(bytes, 32 word list) gomap"
  sa_num :: "(bytes, f64 list) gomap"
  sa_dict :: "(bytes, attr_dict) gomap"

text \<open>The column of one categorical attribute, filled in the order of the entries.\<close>

fun fill_codes :: "bytes \<Rightarrow> delta_entry list \<Rightarrow> attr_dict \<Rightarrow> 32 word list \<times> attr_dict" where
  "fill_codes n [] d = ([], d)"
| "fill_codes n (e # es) d =
     (case map_of (Cat (Attrs e)) n of
        Some v \<Rightarrow> (let (c, d1) = intern d v; (cs, d2) = fill_codes n es d1 in (c # cs, d2))
      | None \<Rightarrow> (let (cs, d2) = fill_codes n es d in (attrMissing # cs, d2)))"

definition fill_nums :: "bytes \<Rightarrow> delta_entry list \<Rightarrow> f64 list" where
  "fill_nums n es = map (\<lambda>e. case map_of (Num (Attrs e)) n of Some v \<Rightarrow> v | None \<Rightarrow> f64_a_nan) es"

definition preset :: "(bytes, attr_dict) gomap \<Rightarrow> bytes \<Rightarrow> attr_dict" where
  "preset ps n = (case map_of ps n of None \<Rightarrow> newAttrDict | Some d \<Rightarrow> d)"

definition cat_names :: "delta_entry list \<Rightarrow> bytes list" where
  "cat_names es = remdups (concat (map (\<lambda>e. map fst (Cat (Attrs e))) es))"

definition num_names :: "delta_entry list \<Rightarrow> bytes list" where
  "num_names es = remdups (concat (map (\<lambda>e. map fst (Num (Attrs e))) es))"

definition buildSegmentAttrs :: "delta_entry list \<Rightarrow> (bytes, attr_dict) gomap \<Rightarrow> seg_attrs option" where
  "buildSegmentAttrs es ps =
     (if cat_names es = [] \<and> num_names es = [] then None
      else Some \<lparr>sa_cat = map (\<lambda>n. (n, fst (fill_codes n es (preset ps n)))) (cat_names es),
                 sa_num = map (\<lambda>n. (n, fill_nums n es)) (num_names es),
                 sa_dict = map (\<lambda>n. (n, snd (fill_codes n es (preset ps n)))) (cat_names es)\<rparr>)"

text \<open>\<open>decodeAt\<close>: the attributes of position \<open>i\<close>.\<close>

definition decodeAt :: "seg_attrs option \<Rightarrow> nat \<Rightarrow> attributes" where
  "decodeAt s i =
     (case s of
        None \<Rightarrow> no_attrs
      | Some sa \<Rightarrow>
          \<lparr>Cat = map (\<lambda>(n, cs). (n, vals (the (map_of (sa_dict sa) n)) ! unat (cs ! i)))
                   (filter (\<lambda>(n, cs). cs ! i \<noteq> attrMissing) (sa_cat sa)),
           Num = map (\<lambda>(n, vs). (n, vs ! i)) (filter (\<lambda>(n, vs). \<not> f64_nan (vs ! i)) (sa_num sa))\<rparr>)"

lemma map_of_map_key: "map_of (map (\<lambda>n. (n, f n)) ns) n = (if n \<in> set ns then Some (f n) else None)"
  by (induction ns) auto

lemma in_cat_names: "e \<in> set es \<Longrightarrow> map_of (Cat (Attrs e)) n = Some v \<Longrightarrow> n \<in> set (cat_names es)"
  by (force simp: cat_names_def dest: map_of_SomeD)

lemma in_num_names: "e \<in> set es \<Longrightarrow> map_of (Num (Attrs e)) n = Some v \<Longrightarrow> n \<in> set (num_names es)"
  by (force simp: num_names_def dest: map_of_SomeD)

text \<open>What a filled column holds: the code of the value of every entry that has one.\<close>

lemma fill_codes_mono:
  "map_of (code d) w = Some c \<Longrightarrow> map_of (code (snd (fill_codes n es d))) w = Some c"
proof (induction es arbitrary: d)
  case Nil
  then show ?case by simp
next
  case (Cons e es)
  show ?case
  proof (cases "map_of (Cat (Attrs e)) n")
    case None
    with Cons show ?thesis by (simp add: case_prod_unfold Let_def)
  next
    case (Some v)
    with Cons.IH[OF intern_code(2)[OF Cons.prems, of v]] show ?thesis
      by (simp add: case_prod_unfold Let_def)
  qed
qed

lemma fill_codes_wf:
  "dict_wf d \<Longrightarrow> length (vals d) + length es < 2 ^ 32 \<Longrightarrow> dict_wf (snd (fill_codes n es d))"
proof (induction es arbitrary: d)
  case Nil
  then show ?case by simp
next
  case (Cons e es)
  show ?case
  proof (cases "map_of (Cat (Attrs e)) n")
    case None
    with Cons show ?thesis by (simp add: case_prod_unfold Let_def)
  next
    case (Some v)
    have "dict_wf (snd (intern d v))" using Cons.prems by (intro intern_wf) auto
    moreover have "length (vals (snd (intern d v))) + length es < 2 ^ 32"
      using Cons.prems(2) intern_length[of d v] by simp
    ultimately show ?thesis using Cons.IH Some by (simp add: case_prod_unfold Let_def)
  qed
qed

lemma fill_codes_length [simp]: "length (fst (fill_codes n es d)) = length es"
  by (induction es arbitrary: d) (auto simp: case_prod_unfold Let_def split: option.splits)

lemma fill_codes_nth:
  "i < length es \<Longrightarrow>
   (case map_of (Cat (Attrs (es ! i))) n of
      None \<Rightarrow> fst (fill_codes n es d) ! i = attrMissing
    | Some v \<Rightarrow> map_of (code (snd (fill_codes n es d))) v = Some (fst (fill_codes n es d) ! i))"
proof (induction es arbitrary: d i)
  case Nil
  then show ?case by simp
next
  case (Cons e es)
  show ?case
  proof (cases i)
    case 0
    show ?thesis
    proof (cases "map_of (Cat (Attrs e)) n")
      case None
      with 0 show ?thesis by (simp add: case_prod_unfold Let_def)
    next
      case (Some v)
      from fill_codes_mono[OF intern_code(1)] 0 Some show ?thesis
        by (simp add: case_prod_unfold Let_def)
    qed
  next
    case (Suc j)
    with Cons.prems have j: "j < length es" by simp
    show ?thesis
    proof (cases "map_of (Cat (Attrs e)) n")
      case None
      with Cons.IH[OF j, of d] Suc show ?thesis
        by (cases "map_of (Cat (Attrs (es ! j))) n") (simp_all add: case_prod_unfold Let_def)
    next
      case (Some v)
      with Cons.IH[OF j, of "snd (intern d v)"] Suc show ?thesis
        by (cases "map_of (Cat (Attrs (es ! j))) n") (simp_all add: case_prod_unfold Let_def)
    qed
  qed
qed

text \<open>The bound of the columns: every dictionary a build starts from has room for one new value per
  entry (without preset dictionaries this says that there are fewer than \<open>2 ^ 32\<close> entries).\<close>

definition presets_ok :: "(bytes, attr_dict) gomap \<Rightarrow> nat \<Rightarrow> bool" where
  "presets_ok ps n \<longleftrightarrow> n < 2 ^ 32 \<and>
     (\<forall>(m, d) \<in> set ps. dict_wf d \<and> length (vals d) + n < 2 ^ 32)"

lemma presets_ok_preset:
  assumes "presets_ok ps n"
  shows "dict_wf (preset ps m)" "length (vals (preset ps m)) + n < 2 ^ 32"
proof -
  have "dict_wf (preset ps m) \<and> length (vals (preset ps m)) + n < 2 ^ 32"
  proof (cases "map_of ps m")
    case None
    with assms show ?thesis by (simp add: preset_def presets_ok_def) (simp add: newAttrDict_def)
  next
    case (Some d)
    then have "(m, d) \<in> set ps" by (rule map_of_SomeD)
    with assms Some show ?thesis by (auto simp: preset_def presets_ok_def)
  qed
  then show "dict_wf (preset ps m)" "length (vals (preset ps m)) + n < 2 ^ 32" by simp_all
qed

lemma distinct_names [simp]: "distinct (cat_names es)" "distinct (num_names es)"
  by (simp_all add: cat_names_def num_names_def)

lemma built_cols:
  assumes "buildSegmentAttrs es ps = Some sa"
  shows "map_of (sa_cat sa) n = (if n \<in> set (cat_names es) then Some (fst (fill_codes n es (preset ps n))) else None)"
    and "map_of (sa_dict sa) n = (if n \<in> set (cat_names es) then Some (snd (fill_codes n es (preset ps n))) else None)"
    and "map_of (sa_num sa) n = (if n \<in> set (num_names es) then Some (fill_nums n es) else None)"
    and "keys_distinct (sa_cat sa)" "keys_distinct (sa_num sa)"
  using assms by (auto simp: buildSegmentAttrs_def map_of_map_key keys_distinct_def comp_def split: if_splits)

lemma built_None:
  assumes "buildSegmentAttrs es ps = None" "e \<in> set es"
  shows "Cat (Attrs e) = []" "Num (Attrs e) = []"
proof -
  from assms(1) have "cat_names es = []" "num_names es = []"
    by (auto simp: buildSegmentAttrs_def split: if_splits)
  with assms(2) show "Cat (Attrs e) = []" "Num (Attrs e) = []"
    by (auto simp: cat_names_def num_names_def)
qed

text \<open>A column of codes answers exactly as the attributes of its entries do.\<close>

lemma column_code:
  assumes ok: "presets_ok ps (length es)" and i: "i < length es"
    and cs: "cs = fst (fill_codes n es (preset ps n))" and d: "d = snd (fill_codes n es (preset ps n))"
  shows "dict_wf d"
    and "cs ! i = attrMissing \<longleftrightarrow> map_of (Cat (Attrs (es ! i))) n = None"
    and "map_of (Cat (Attrs (es ! i))) n = Some v \<Longrightarrow> vals d ! unat (cs ! i) = v"
    and "dict_lookup d v = Some (cs ! i) \<longleftrightarrow> map_of (Cat (Attrs (es ! i))) n = Some v"
proof -
  show wf: "dict_wf d"
    unfolding d using presets_ok_preset[OF ok] by (rule fill_codes_wf)
  note nth = fill_codes_nth[OF i, of n "preset ps n", folded cs d]
  show "cs ! i = attrMissing \<longleftrightarrow> map_of (Cat (Attrs (es ! i))) n = None"
    using nth dict_wf_code(3)[OF wf] by (auto split: option.splits)
  show "map_of (Cat (Attrs (es ! i))) n = Some v \<Longrightarrow> vals d ! unat (cs ! i) = v"
    using nth dict_wf_code(2)[OF wf] by (auto split: option.splits)
  show "dict_lookup d v = Some (cs ! i) \<longleftrightarrow> map_of (Cat (Attrs (es ! i))) n = Some v"
    using nth dict_wf_code(3)[OF wf] dict_wf_inj[OF wf]
    by (auto simp: dict_lookup_def split: option.splits)
qed

lemma map_of_filter_map:
  "keys_distinct m \<Longrightarrow> map_of (map (\<lambda>(n, x). (n, f n x)) (filter (\<lambda>(n, x). P x) m)) k =
    (case map_of m k of None \<Rightarrow> None | Some x \<Rightarrow> if P x then Some (f k x) else None)"
  by (induction m) (auto simp: keys_distinct_def map_of_eq_None_iff image_iff split: option.splits)

text \<open>Building the columns and decoding a position gives the attributes of the entry back.\<close>

lemma decode_build:
  assumes ok: "presets_ok ps (length es)" and i: "i < length es"
  shows "attr_view (decodeAt (buildSegmentAttrs es ps) i) = attr_view (Attrs (es ! i))"
proof (cases "buildSegmentAttrs es ps")
  case None
  have "es ! i \<in> set es" using i by simp
  from built_None[OF None this] None show ?thesis
    by (simp add: decodeAt_def attr_view_def no_attrs_def)
next
  case (Some sa)
  let ?a = "Attrs (es ! i)"
  have e: "es ! i \<in> set es" using i by simp
  note b = built_cols[OF Some]
  have c: "map_of (Cat (decodeAt (Some sa) i)) n = map_of (Cat ?a) n" for n
  proof -
    have "map_of (Cat (decodeAt (Some sa) i)) n =
        (case map_of (sa_cat sa) n of None \<Rightarrow> None
         | Some cs \<Rightarrow> if cs ! i \<noteq> attrMissing then Some (vals (the (map_of (sa_dict sa) n)) ! unat (cs ! i)) else None)"
      unfolding decodeAt_def
      using map_of_filter_map[OF b(4), of "\<lambda>n cs. vals (the (map_of (sa_dict sa) n)) ! unat (cs ! i)"
          "\<lambda>cs. cs ! i \<noteq> attrMissing" n] by simp
    also have "\<dots> = map_of (Cat ?a) n"
    proof (cases "n \<in> set (cat_names es)")
      case False
      with in_cat_names[OF e, of n] show ?thesis by (cases "map_of (Cat ?a) n") (auto simp: b)
    next
      case True
      with column_code(2,3)[OF ok i refl refl, of n] show ?thesis
        by (cases "map_of (Cat ?a) n") (auto simp: b)
    qed
    finally show ?thesis .
  qed
  have "map_of (Num (decodeAt (Some sa) i)) n = num_view (Num ?a) n" for n
  proof -
    have "map_of (Num (decodeAt (Some sa) i)) n =
        (case map_of (sa_num sa) n of None \<Rightarrow> None
         | Some vs \<Rightarrow> if \<not> f64_nan (vs ! i) then Some (vs ! i) else None)"
      unfolding decodeAt_def
      using map_of_filter_map[OF b(5), of "\<lambda>n vs. vs ! i" "\<lambda>vs. \<not> f64_nan (vs ! i)" n] by simp
    also have "\<dots> = num_view (Num ?a) n"
      using in_num_names[OF e, of n] i
      by (cases "map_of (Num ?a) n") (auto simp: b fill_nums_def num_view_def)
    finally show ?thesis .
  qed
  then have "num_view (Num (decodeAt (Some sa) i)) n = num_view (Num ?a) n" for n
    by (auto simp: num_view_def split: option.splits if_splits)
  with c Some show ?thesis by (auto simp: attr_view_def)
qed

subsection \<open>Filters\<close>

record vfilter =
  Eq :: "(bytes, bytes) gomap"
  Range :: "(bytes, f64 \<times> f64) gomap"

definition filter_empty :: "vfilter \<Rightarrow> bool" where
  "filter_empty f \<longleftrightarrow> length (Eq f) = 0 \<and> length (Range f) = 0"

text \<open>\<open>compile\<close>: the checks on categorical columns, then those on numeric columns. \<open>None\<close> is
  \<open>matchable = false\<close>: the segment has no such column or value.\<close>

fun cat_checks :: "seg_attrs option \<Rightarrow> bytes \<Rightarrow> (bytes \<times> bytes) list \<Rightarrow> (32 word list \<times> 32 word) list option" where
  "cat_checks s skip [] = Some []"
| "cat_checks s skip ((n, v) # r) =
     (if n = skip then cat_checks s skip r
      else case s of
        None \<Rightarrow> None
      | Some sa \<Rightarrow>
          (case map_of (sa_cat sa) n of
             None \<Rightarrow> None
           | Some cs \<Rightarrow>
               (case map_of (sa_dict sa) n of
                  None \<Rightarrow> None
                | Some d \<Rightarrow>
                    (case dict_lookup d v of
                       None \<Rightarrow> None
                     | Some c \<Rightarrow> map_option (Cons (cs, c)) (cat_checks s skip r)))))"

fun num_checks :: "seg_attrs option \<Rightarrow> bytes \<Rightarrow> (bytes \<times> (f64 \<times> f64)) list \<Rightarrow> (f64 list \<times> f64 \<times> f64) list option" where
  "num_checks s skip [] = Some []"
| "num_checks s skip ((n, lo, hi) # r) =
     (if n = skip then num_checks s skip r
      else case s of
        None \<Rightarrow> None
      | Some sa \<Rightarrow>
          (case map_of (sa_num sa) n of
             None \<Rightarrow> None
           | Some vs \<Rightarrow> map_option (Cons (vs, lo, hi)) (num_checks s skip r)))"

definition in_range :: "f64 \<Rightarrow> f64 \<Rightarrow> f64 \<Rightarrow> bool" where
  "in_range lo hi v \<longleftrightarrow> f64_le lo v \<and> f64_le v hi"

definition compile :: "seg_attrs option \<Rightarrow> vfilter \<Rightarrow> bytes \<Rightarrow> (nat \<Rightarrow> bool) option" where
  "compile s f skip =
     (case cat_checks s skip (Eq f) of
        None \<Rightarrow> None
      | Some cs \<Rightarrow>
          (case num_checks s skip (Range f) of
             None \<Rightarrow> None
           | Some ns \<Rightarrow>
               Some (\<lambda>i. list_all (\<lambda>(codes, c). codes ! i = c) cs \<and>
                         list_all (\<lambda>(vs, lo, hi). in_range lo hi (vs ! i)) ns)))"

text \<open>\<open>matchAttrs\<close>: a lookup in the Go map of an absent name gives the empty string.\<close>

definition cat_get :: "attributes \<Rightarrow> bytes \<Rightarrow> bytes" where
  "cat_get a n = (case map_of (Cat a) n of None \<Rightarrow> [] | Some v \<Rightarrow> v)"

definition matchAttrs :: "attributes \<Rightarrow> vfilter \<Rightarrow> bytes \<Rightarrow> bool" where
  "matchAttrs a f skip \<longleftrightarrow>
     list_all (\<lambda>(n, v). n = skip \<or> cat_get a n = v) (Eq f) \<and>
     list_all (\<lambda>(n, lo, hi). n = skip \<or>
        (case map_of (Num a) n of None \<Rightarrow> False | Some v \<Rightarrow> in_range lo hi v)) (Range f)"

text \<open>The two filters differ in one case: a filter for the empty string holds in the insertion buffer
  for an entry without the attribute, and not in a segment.\<close>

definition no_empty_default :: "attributes \<Rightarrow> vfilter \<Rightarrow> bytes \<Rightarrow> bool" where
  "no_empty_default a f skip \<longleftrightarrow>
     list_all (\<lambda>(n, v). n = skip \<or> v \<noteq> [] \<or> map_of (Cat a) n \<noteq> None) (Eq f)"

lemma in_range_nan: "f64_nan v \<Longrightarrow> \<not> in_range lo hi v"
  by (simp add: in_range_def f64_cmp)

lemma cat_checks_holds:
  assumes ok: "presets_ok ps (length es)" and i: "i < length es"
  defines "a \<equiv> Attrs (es ! i)"
  shows "(\<exists>cs. cat_checks (buildSegmentAttrs es ps) skip q = Some cs \<and> list_all (\<lambda>(codes, c). codes ! i = c) cs)
     \<longleftrightarrow> list_all (\<lambda>(n, v). n = skip \<or> map_of (Cat a) n = Some v) q"
proof (induction q)
  case Nil
  then show ?case by simp
next
  case (Cons p q)
  obtain n v where p: "p = (n, v)" by (cases p)
  have e: "es ! i \<in> set es" using i by simp
  show ?case
  proof (cases "n = skip")
    case True
    with Cons p show ?thesis by simp
  next
    case False
    show ?thesis
    proof (cases "buildSegmentAttrs es ps")
      case None
      with built_None(1)[OF None e] False p show ?thesis by (simp add: a_def)
    next
      case (Some sa)
      note b = built_cols[OF Some]
      show ?thesis
      proof (cases "n \<in> set (cat_names es)")
        case absent: False
        with in_cat_names[OF e, of n] have "map_of (Cat a) n = None"
          by (cases "map_of (Cat a) n") (auto simp: a_def)
        with absent False p Some show ?thesis by (simp add: b)
      next
        case True
        let ?d = "snd (fill_codes n es (preset ps n))" and ?cs = "fst (fill_codes n es (preset ps n))"
        have "(dict_lookup ?d v = Some (?cs ! i)) = (map_of (Cat a) n = Some v)"
          unfolding a_def by (rule column_code(4)[OF ok i refl refl])
        with Cons True False p Some show ?thesis
          by (cases "dict_lookup ?d v") (auto simp: b)
      qed
    qed
  qed
qed

lemma num_checks_holds:
  assumes i: "i < length es"
  defines "a \<equiv> Attrs (es ! i)"
  shows "(\<exists>ns. num_checks (buildSegmentAttrs es ps) skip q = Some ns \<and> list_all (\<lambda>(vs, lo, hi). in_range lo hi (vs ! i)) ns)
     \<longleftrightarrow> list_all (\<lambda>(n, lo, hi). n = skip \<or>
        (case map_of (Num a) n of None \<Rightarrow> False | Some v \<Rightarrow> in_range lo hi v)) q"
proof (induction q)
  case Nil
  then show ?case by simp
next
  case (Cons p q)
  obtain n lo hi where p: "p = (n, lo, hi)" by (cases p)
  have e: "es ! i \<in> set es" using i by simp
  show ?case
  proof (cases "n = skip")
    case True
    with Cons p show ?thesis by simp
  next
    case False
    show ?thesis
    proof (cases "buildSegmentAttrs es ps")
      case None
      with built_None(2)[OF None e] False p show ?thesis by (simp add: a_def)
    next
      case (Some sa)
      note b = built_cols[OF Some]
      show ?thesis
      proof (cases "n \<in> set (num_names es)")
        case absent: False
        with in_num_names[OF e, of n] have "map_of (Num a) n = None"
          by (cases "map_of (Num a) n") (auto simp: a_def)
        with absent False p Some show ?thesis by (simp add: b)
      next
        case True
        have "in_range lo hi (fill_nums n es ! i) =
            (case map_of (Num a) n of None \<Rightarrow> False | Some v \<Rightarrow> in_range lo hi v)"
          using i by (auto simp: a_def fill_nums_def in_range_nan split: option.splits)
        with Cons True False p Some show ?thesis by (auto simp: b)
      qed
    qed
  qed
qed

lemma compile_matches:
  assumes ok: "presets_ok ps (length es)" and i: "i < length es"
  defines "a \<equiv> Attrs (es ! i)"
  shows "(case compile (buildSegmentAttrs es ps) f skip of None \<Rightarrow> False | Some p \<Rightarrow> p i)
     \<longleftrightarrow> matchAttrs a f skip \<and> no_empty_default a f skip"
proof -
  have "list_all (\<lambda>(n, v). n = skip \<or> map_of (Cat a) n = Some v) (Eq f) \<longleftrightarrow>
      list_all (\<lambda>(n, v). n = skip \<or> cat_get a n = v) (Eq f) \<and> no_empty_default a f skip"
    unfolding no_empty_default_def cat_get_def list_all_iff
    by (fastforce split: option.splits)
  moreover have "(case compile (buildSegmentAttrs es ps) f skip of None \<Rightarrow> False | Some p \<Rightarrow> p i) \<longleftrightarrow>
      (\<exists>cs. cat_checks (buildSegmentAttrs es ps) skip (Eq f) = Some cs \<and> list_all (\<lambda>(codes, c). codes ! i = c) cs) \<and>
      (\<exists>ns. num_checks (buildSegmentAttrs es ps) skip (Range f) = Some ns \<and>
        list_all (\<lambda>(vs, lo, hi). in_range lo hi (vs ! i)) ns)"
    by (auto simp: compile_def split: option.splits)
  moreover note cat_checks_holds[OF ok i, of skip "Eq f"] num_checks_holds[OF i, of ps skip "Range f"]
  ultimately show ?thesis
    unfolding matchAttrs_def a_def by blast
qed

end
