(* ===== verification/VecText.thy ===== *)
theory VecText
  imports VecAttr "HOL-Library.Multiset"
begin

text \<open>
  The text layer of a segment (\<open>vector/bm25_text.go\<close>, \<open>bm25_durability.go\<close>): posting lists
  built from the terms of the entries, and the way back from postings to the terms of each document,
  which a merge uses. The insertion loop that several functions of the package share is here too.
\<close>

subsection \<open>Insertion by swapping to the left\<close>

text \<open>\<open>for j := i; j > 0 && less(xs[j], xs[j-1]); j-- { swap }\<close>\<close>

fun bubble :: "('a \<Rightarrow> 'a \<Rightarrow> bool) \<Rightarrow> nat \<Rightarrow> 'a list \<Rightarrow> 'a list" where
  "bubble lt 0 xs = xs"
| "bubble lt (Suc j) xs =
     (if lt (xs ! Suc j) (xs ! j) then bubble lt j (xs[j := xs ! Suc j, Suc j := xs ! j]) else xs)"

definition insr :: "('a \<Rightarrow> 'a \<Rightarrow> bool) \<Rightarrow> 'a \<Rightarrow> 'a list \<Rightarrow> 'a list" where
  "insr lt x ys = rev (dropWhile (lt x) (rev ys)) @ x # rev (takeWhile (lt x) (rev ys))"

lemma bubble_insr: "bubble lt (length ys) (ys @ x # zs) = insr lt x ys @ zs"
proof (induction ys arbitrary: zs rule: rev_induct)
  case Nil
  then show ?case by (simp add: insr_def)
next
  case (snoc y ys)
  have "(ys @ y # x # zs)[length ys := x, Suc (length ys) := y] = ys @ x # y # zs"
    by (simp add: list_update_append)
  then show ?case using snoc[of "y # zs"] by (simp add: insr_def nth_append)
qed

lemma mset_insr [simp]: "mset (insr lt x ys) = add_mset x (mset ys)"
proof -
  have "mset (rev (dropWhile (lt x) (rev ys))) + mset (rev (takeWhile (lt x) (rev ys))) = mset ys"
    by (metis add.commute mset_append mset_rev takeWhile_dropWhile_id)
  then show ?thesis by (simp add: insr_def)
qed

lemma set_insr [simp]: "set (insr lt x ys) = insert x (set ys)"
  by (metis mset_insr set_mset_add_mset_insert set_mset_mset)

lemma length_insr [simp]: "length (insr lt x ys) = Suc (length ys)"
  by (metis mset_insr size_add_mset size_mset)

text \<open>With a comparison by key, a sorted list stays sorted.\<close>

lemma sorted_insr:
  fixes k :: "'a \<Rightarrow> 'b::linorder"
  assumes lt: "\<And>y. y \<in> set ys \<Longrightarrow> lt x y \<longleftrightarrow> k x < k y" and "sorted (map k ys)"
  shows "sorted (map k (insr lt x ys))"
  using assms
proof (induction ys rule: rev_induct)
  case Nil
  then show ?case by (simp add: insr_def)
next
  case (snoc y ys)
  have ys: "sorted (map k ys)" "\<forall>z \<in> set ys. k z \<le> k y"
    using snoc.prems(2) by (auto simp: sorted_append)
  show ?case
  proof (cases "lt x y")
    case True
    have "insr lt x (ys @ [y]) = insr lt x ys @ [y]" using True by (simp add: insr_def)
    moreover have "sorted (map k (insr lt x ys))" using snoc ys by simp
    moreover have "k x \<le> k y" using True snoc.prems(1)[of y] by simp
    ultimately show ?thesis using ys by (auto simp: sorted_append)
  next
    case False
    have "insr lt x (ys @ [y]) = ys @ [y, x]" using False by (simp add: insr_def)
    moreover have "k y \<le> k x" using False snoc.prems(1)[of y] by simp
    ultimately show ?thesis using snoc.prems(2) ys by (auto simp: sorted_append)
  qed
qed

text \<open>\<open>sortTermTF\<close> is insertion sort by this loop.\<close>

definition term_lt :: "term_tf \<Rightarrow> term_tf \<Rightarrow> bool" where
  "term_lt a b \<longleftrightarrow> Term a < Term b"

definition sortTermTF :: "term_tf list \<Rightarrow> term_tf list" where
  "sortTermTF tt = foldl (\<lambda>xs i. bubble term_lt i xs) tt [1..<length tt]"

lemma sort_loop:
  assumes "m < length tt" "xs = foldl (\<lambda>xs i. bubble term_lt i xs) tt [1..<Suc m]"
  shows "sorted (map Term (take (Suc m) xs)) \<and> mset xs = mset tt \<and> drop (Suc m) xs = drop (Suc m) tt"
  using assms
proof (induction m arbitrary: xs)
  case 0
  then show ?case by (cases tt) auto
next
  case (Suc m)
  define ys where "ys = foldl (\<lambda>xs i. bubble term_lt i xs) tt [1..<Suc m]"
  have ih: "sorted (map Term (take (Suc m) ys))" "mset ys = mset tt" "drop (Suc m) ys = drop (Suc m) tt"
    using Suc unfolding ys_def by auto
  have len: "Suc m < length ys" using Suc.prems(1) ih(2) by (metis size_mset)
  define x where "x = ys ! Suc m"
  define as where "as = take (Suc m) ys"
  define zs where "zs = drop (Suc (Suc m)) ys"
  have split: "ys = as @ x # zs" "length as = Suc m"
    using len id_take_nth_drop[of "Suc m" ys] by (simp_all add: as_def x_def zs_def)
  have "xs = bubble term_lt (Suc m) ys"
    using Suc.prems by (simp add: ys_def)
  then have xs: "xs = insr term_lt x as @ zs"
    using bubble_insr[of term_lt as x zs] split by simp
  have "sorted (map Term (insr term_lt x as))"
    using ih(1) by (intro sorted_insr) (simp_all add: term_lt_def as_def)
  moreover have "zs = drop (Suc (Suc m)) tt"
    using ih(3) unfolding zs_def by (metis drop_Suc tl_drop)
  moreover have "mset xs = mset tt"
    using ih(2) xs split(1) by simp
  ultimately show ?case using xs split(2) by simp
qed

lemma sortTermTF_correct: "sorted (map Term (sortTermTF tt))" "mset (sortTermTF tt) = mset tt"
proof -
  have "sorted (map Term (sortTermTF tt)) \<and> mset (sortTermTF tt) = mset tt"
  proof (cases "length tt")
    case 0
    then show ?thesis by (simp add: sortTermTF_def)
  next
    case (Suc m)
    with sort_loop[of m tt _, OF _ refl] show ?thesis
      by (metis (no_types, lifting) lessI order_refl size_mset sortTermTF_def take_all)
  qed
  then show "sorted (map Term (sortTermTF tt))" "mset (sortTermTF tt) = mset tt" by simp_all
qed

subsection \<open>Terms of one document\<close>

text \<open>The list a document carries (\<open>bm25CountTerms\<close>): terms strictly increasing, no empty term,
  no frequency of zero.\<close>

definition terms_ok :: "term_tf list \<Rightarrow> bool" where
  "terms_ok tt \<longleftrightarrow> sorted (map Term tt) \<and> distinct (map Term tt) \<and> (\<forall>t \<in> set tt. Term t \<noteq> [] \<and> TF t \<noteq> 0)"

lemma sort_terms_ok:
  assumes "terms_ok tt" "mset xs = mset tt"
  shows "sortTermTF xs = tt"
proof -
  have s: "set xs = set tt" using assms(2) by (metis set_mset_mset)
  have "inj_on Term (set (sortTermTF xs) \<union> set tt)"
    using assms sortTermTF_correct(2)[of xs]
    by (metis distinct_map set_mset_mset sup.idem terms_ok_def)
  moreover have "distinct (map Term (sortTermTF xs))"
    using assms sortTermTF_correct(2)[of xs] by (metis mset_eq_imp_distinct_iff mset_map terms_ok_def)
  moreover have "set (sortTermTF xs) = set tt"
    using s sortTermTF_correct(2)[of xs] by (metis set_mset_mset)
  ultimately show ?thesis
    using assms(1) sortTermTF_correct(1)[of xs] unfolding terms_ok_def
    by (metis map_sorted_distinct_set_unique)
qed

subsection \<open>Building the postings\<close>

record posting =
  p_doc :: "32 word"
  p_tf :: "16 word"

record segment_text =
  t_dict :: attr_dict
  postings :: "posting list list"
  docLen :: "32 word list"
  nText :: nat
  totalLen :: "64 word"

text \<open>The terms of document \<open>i\<close> go into the lists; a term met for the first time gets a new one.\<close>

fun add_terms :: "nat \<Rightarrow> term_tf list \<Rightarrow> attr_dict \<Rightarrow> posting list list \<Rightarrow> 32 word
    \<Rightarrow> attr_dict \<times> posting list list \<times> 32 word" where
  "add_terms i [] d ps dl = (d, ps, dl)"
| "add_terms i (tt # ts) d ps dl =
     (let (c, d1) = intern d (Term tt);
          id = unat c;
          ps1 = (if id = length ps then ps @ [[]] else ps);
          ps2 = ps1[id := ps1 ! id @ [\<lparr>p_doc = word_of_nat i, p_tf = TF tt\<rparr>]] in
      add_terms i ts d1 ps2 (dl + ucast (TF tt)))"

fun add_docs :: "nat \<Rightarrow> delta_entry list \<Rightarrow> segment_text \<Rightarrow> segment_text" where
  "add_docs i [] st = st"
| "add_docs i (e # es) st =
     (let (d, ps, dl) = add_terms i (Terms e) (t_dict st) (postings st) 0 in
      add_docs (Suc i) es
        (st\<lparr>t_dict := d, postings := ps, docLen := (docLen st)[i := dl],
            nText := nText st + (if dl > 0 then 1 else 0),
            totalLen := totalLen st + ucast dl\<rparr>))"

definition buildSegmentText :: "delta_entry list \<Rightarrow> segment_text option" where
  "buildSegmentText es =
     (if list_all (\<lambda>e. length (Terms e) = 0) es then None
      else Some (add_docs 0 es
        \<lparr>t_dict = newAttrDict, postings = [], docLen = replicate (length es) 0, nText = 0, totalLen = 0\<rparr>))"

text \<open>\<open>decodeTerms\<close>: every posting goes back to its document, then the documents are sorted.\<close>

definition put_posting :: "bytes \<Rightarrow> term_tf list list \<Rightarrow> posting \<Rightarrow> term_tf list list" where
  "put_posting term out p =
     out[unat (p_doc p) := out ! unat (p_doc p) @ [\<lparr>Term = term, TF = p_tf p\<rparr>]]"

definition decodeTerms :: "segment_text option \<Rightarrow> term_tf list list" where
  "decodeTerms s =
     (case s of
        None \<Rightarrow> []
      | Some st \<Rightarrow>
          map (\<lambda>ts. if 1 < length ts then sortTermTF ts else ts)
            (foldl (\<lambda>out id. foldl (put_posting (vals (t_dict st) ! id)) out (postings st ! id))
              (replicate (length (docLen st)) []) [0..<length (postings st)]))"

text \<open>\<open>df\<close>: the number of documents with a term.\<close>

definition text_df :: "segment_text option \<Rightarrow> bytes \<Rightarrow> nat" where
  "text_df s t =
     (case s of
        None \<Rightarrow> 0
      | Some st \<Rightarrow> (case dict_lookup (t_dict st) t of None \<Rightarrow> 0 | Some c \<Rightarrow> length (postings st ! unat c)))"

text \<open>The content of posting lists: the occurrences (document, term, frequency) they hold.\<close>

definition occs :: "attr_dict \<Rightarrow> posting list list \<Rightarrow> (32 word \<times> bytes \<times> 16 word) multiset" where
  "occs d ps = (\<Sum>id < length ps. image_mset (\<lambda>p. (p_doc p, vals d ! id, p_tf p)) (mset (ps ! id)))"

definition doc_occs :: "nat \<Rightarrow> term_tf list \<Rightarrow> (32 word \<times> bytes \<times> 16 word) multiset" where
  "doc_occs i ts = image_mset (\<lambda>t. (word_of_nat i, Term t, TF t)) (mset ts)"

definition posts_wf :: "attr_dict \<Rightarrow> posting list list \<Rightarrow> bool" where
  "posts_wf d ps \<longleftrightarrow> dict_wf d \<and> length ps = length (vals d)"

lemma occs_cong:
  "(\<And>id. id < length ps \<Longrightarrow> vals d' ! id = vals d ! id) \<Longrightarrow> occs d' ps = occs d ps"
  unfolding occs_def by (rule sum.cong) auto

lemma occs_new: "occs d (ps @ [[]]) = occs d ps"
  by (simp add: occs_def nth_append)

lemma occs_update:
  assumes "k < length ps"
  shows "occs d (ps[k := ps ! k @ [p]]) = add_mset (p_doc p, vals d ! k, p_tf p) (occs d ps)"
proof -
  let ?f = "\<lambda>ps id. image_mset (\<lambda>p. (p_doc p, vals d ! id, p_tf p)) (mset (ps ! id))"
  have split: "(\<Sum>id < length ps. ?f qs id) = ?f qs k + (\<Sum>id \<in> {..<length ps} - {k}. ?f qs id)" for qs
    using assms by (simp add: sum.remove)
  have "(\<Sum>id \<in> {..<length ps} - {k}. ?f (ps[k := ps ! k @ [p]]) id) =
      (\<Sum>id \<in> {..<length ps} - {k}. ?f ps id)"
    by (rule sum.cong) auto
  with split[of ps] split[of "ps[k := ps ! k @ [p]]"] assms show ?thesis
    by (simp add: occs_def)
qed

lemma intern_vals_prefix:
  "j < length (vals d) \<Longrightarrow> vals (snd (intern d v)) ! j = vals d ! j"
  by (cases "map_of (code d) v") (simp_all add: intern_known intern_new nth_append)

lemma add_terms_occs:
  assumes "posts_wf d ps" "length (vals d) + length ts < 2 ^ 32"
    and "add_terms i ts d ps dl = (d', ps', dl')"
  shows "posts_wf d' ps' \<and> occs d' ps' = occs d ps + doc_occs i ts \<and>
    length (vals d') \<le> length (vals d) + length ts"
  using assms
proof (induction ts arbitrary: d ps dl)
  case Nil
  then show ?case by (simp add: doc_occs_def)
next
  case (Cons tt ts)
  define c where "c = fst (intern d (Term tt))"
  define d1 where "d1 = snd (intern d (Term tt))"
  define ps1 where "ps1 = (if unat c = length ps then ps @ [[]] else ps)"
  define ps2 where "ps2 = ps1[unat c := ps1 ! unat c @ [\<lparr>p_doc = word_of_nat i, p_tf = TF tt\<rparr>]]"
  have wf: "dict_wf d" "length ps = length (vals d)" using Cons.prems(1) by (auto simp: posts_wf_def)
  have wf1: "dict_wf d1" unfolding d1_def using wf Cons.prems(2) by (intro intern_wf) auto
  have code: "map_of (code d1) (Term tt) = Some c" unfolding c_def d1_def by (rule intern_code)
  note at = dict_wf_code[OF wf1 code]
  have len1: "length ps1 = length (vals d1)"
  proof (cases "map_of (code d) (Term tt)")
    case None
    then show ?thesis
      using wf Cons.prems(2) by (simp add: ps1_def c_def d1_def intern_new unat_code)
  next
    case (Some x)
    with dict_wf_code(1)[OF wf(1) Some] wf(2) show ?thesis
      by (simp add: ps1_def c_def d1_def intern_known)
  qed
  have "occs d1 ps1 = occs d ps"
  proof -
    have "occs d1 ps1 = occs d1 ps" by (simp add: ps1_def occs_new)
    also have "\<dots> = occs d ps"
      using wf(2) by (intro occs_cong) (simp add: d1_def intern_vals_prefix)
    finally show ?thesis .
  qed
  moreover have "occs d1 ps2 = add_mset (word_of_nat i, Term tt, TF tt) (occs d1 ps1)"
    unfolding ps2_def using at(1,2) len1 by (subst occs_update) auto
  moreover have "posts_wf d1 ps2" using wf1 len1 by (simp add: posts_wf_def ps2_def)
  moreover have l1: "length (vals d1) \<le> length (vals d) + 1"
    unfolding d1_def by (rule intern_length)
  moreover have "add_terms i ts d1 ps2 (dl + ucast (TF tt)) = (d', ps', dl')"
    using Cons.prems(3)
    by (simp add: case_prod_unfold Let_def c_def d1_def ps1_def ps2_def)
  moreover have "length (vals d1) + length ts < 2 ^ 32" using l1 Cons.prems(2) by simp
  ultimately show ?case
    using Cons.IH[of d1 ps2 "dl + ucast (TF tt)"] by (auto simp: doc_occs_def)
qed

text \<open>How many terms the entries of a segment hold together.\<close>

definition term_total :: "delta_entry list \<Rightarrow> nat" where
  "term_total es = sum_list (map (\<lambda>e. length (Terms e)) es)"

lemma add_docs_occs:
  assumes "posts_wf (t_dict st) (postings st)"
    and "length (vals (t_dict st)) + term_total es < 2 ^ 32"
  shows "posts_wf (t_dict (add_docs i es st)) (postings (add_docs i es st)) \<and>
    occs (t_dict (add_docs i es st)) (postings (add_docs i es st)) =
      occs (t_dict st) (postings st) + (\<Sum>j < length es. doc_occs (i + j) (Terms (es ! j))) \<and>
    length (docLen (add_docs i es st)) = length (docLen st)"
  using assms
proof (induction es arbitrary: i st)
  case Nil
  then show ?case by simp
next
  case (Cons e es)
  obtain d ps dl where t: "add_terms i (Terms e) (t_dict st) (postings st) 0 = (d, ps, dl)"
    by (cases "add_terms i (Terms e) (t_dict st) (postings st) 0") auto
  have "length (vals (t_dict st)) + length (Terms e) < 2 ^ 32"
    using Cons.prems(2) by (simp add: term_total_def)
  note step = add_terms_occs[OF Cons.prems(1) this t]
  define st1 where "st1 = st\<lparr>t_dict := d, postings := ps, docLen := (docLen st)[i := dl],
      nText := nText st + (if dl > 0 then 1 else 0), totalLen := totalLen st + ucast dl\<rparr>"
  have "add_docs i (e # es) st = add_docs (Suc i) es st1" using t by (simp add: st1_def)
  moreover have "length (vals (t_dict st1)) + term_total es < 2 ^ 32"
    using step Cons.prems(2) by (simp add: st1_def term_total_def)
  moreover have "posts_wf (t_dict st1) (postings st1)" using step by (simp add: st1_def)
  moreover have "(\<Sum>j < length (e # es). doc_occs (i + j) (Terms ((e # es) ! j))) =
      doc_occs i (Terms e) + (\<Sum>j < length es. doc_occs (Suc i + j) (Terms (es ! j)))"
    by (simp add: sum.lessThan_Suc_shift del: sum.lessThan_Suc)
  ultimately show ?case
    using Cons.IH[of st1 "Suc i"] step by (simp add: st1_def add.assoc)
qed

subsection \<open>The way back\<close>

text \<open>The nested loops of \<open>decodeTerms\<close> go through the postings one by one.\<close>

definition walk_occs :: "attr_dict \<Rightarrow> posting list list \<Rightarrow> (bytes \<times> posting) list" where
  "walk_occs d ps = concat (map (\<lambda>id. map (Pair (vals d ! id)) (ps ! id)) [0..<length ps])"

lemma image_mset_sum_upto: "image_mset h (\<Sum>i < (n::nat). g i) = (\<Sum>i < n. image_mset h (g i))"
  by (induction n) simp_all

lemma mset_concat_upto: "mset (concat (map g [0..<n])) = (\<Sum>i < n. mset (g i))"
  by (induction n) simp_all

lemma mset_walk:
  "image_mset (\<lambda>(t, p). (p_doc p, t, p_tf p)) (mset (walk_occs d ps)) = occs d ps"
  by (simp add: walk_occs_def occs_def mset_concat_upto image_mset_sum_upto multiset.map_comp comp_def)

lemma foldl_concat: "foldl f a (concat xss) = foldl (foldl f) a xss"
  by (induction xss arbitrary: a) simp_all

lemma foldl_walk:
  "foldl (\<lambda>out id. foldl (put_posting (vals d ! id)) out (ps ! id)) out [0..<length ps] =
   foldl (\<lambda>out (t, p). put_posting t out p) out (walk_occs d ps)"
  by (simp add: walk_occs_def foldl_concat foldl_map comp_def)

lemma walk_result:
  assumes "\<forall>(t, p) \<in> set tps. unat (p_doc p) < length out" "j < length out"
    and "res = foldl (\<lambda>out (t, p). put_posting t out p) out tps"
  shows "length res = length out \<and> res ! j = out ! j @
    map (\<lambda>(t, p). \<lparr>Term = t, TF = p_tf p\<rparr>) (filter (\<lambda>(t, p). unat (p_doc p) = j) tps)"
  using assms
proof (induction tps arbitrary: out)
  case Nil
  then show ?case by simp
next
  case (Cons tp tps)
  obtain t p where tp: "tp = (t, p)" by (cases tp)
  have "length (put_posting t out p) = length out" by (simp add: put_posting_def)
  moreover have "put_posting t out p ! j =
      (if unat (p_doc p) = j then out ! j @ [\<lparr>Term = t, TF = p_tf p\<rparr>] else out ! j)"
    using Cons.prems(2) by (auto simp: put_posting_def)
  ultimately show ?case using Cons.IH[of "put_posting t out p"] Cons.prems tp by auto
qed

lemma term_tf_eta: "\<lparr>Term = Term x, TF = TF x\<rparr> = (x :: term_tf)"
  by (cases x) simp

text \<open>The terms a merge reads for position \<open>i\<close> (\<open>termsAt\<close>).\<close>

definition termsAt :: "term_tf list list \<Rightarrow> nat \<Rightarrow> term_tf list" where
  "termsAt dec i = (if i < length dec then dec ! i else [])"

lemma filter_mset_sum_upto: "filter_mset P (\<Sum>i < (n::nat). g i) = (\<Sum>i < n. filter_mset P (g i))"
  by (induction n) simp_all

lemma doc_occs_filter:
  assumes "i < n" "n < 2 ^ 32"
  shows "filter_mset (\<lambda>(d, t, f). unat d = i) (\<Sum>j < n. doc_occs j (g j)) = doc_occs i (g i)"
proof -
  let ?P = "\<lambda>(d :: 32 word, t :: bytes, f :: 16 word). unat d = i"
  have "filter_mset ?P (doc_occs j (g j)) = (if j = i then doc_occs i (g i) else {#})" if "j < n" for j
    using that assms by (auto simp: doc_occs_def filter_mset_image_mset unat_code)
  then have "filter_mset ?P (\<Sum>j < n. doc_occs j (g j)) = (\<Sum>j < n. if j = i then doc_occs i (g i) else {#})"
    by (simp add: filter_mset_sum_upto)
  also have "\<dots> = doc_occs i (g i)" using assms(1) by simp
  finally show ?thesis .
qed

lemma mset_walk_doc:
  "mset (map (\<lambda>(t, p). \<lparr>Term = t, TF = p_tf p\<rparr>) (filter (\<lambda>(t, p). unat (p_doc p) = i) (walk_occs d ps))) =
   image_mset (\<lambda>(d, t, f). \<lparr>Term = t, TF = f\<rparr>) (filter_mset (\<lambda>(d, t, f). unat d = i) (occs d ps))"
  unfolding mset_walk[symmetric]
  by (simp add: filter_mset_image_mset multiset.map_comp comp_def case_prod_unfold)

lemma occs_docs:
  assumes "x \<in># (\<Sum>j < n. doc_occs j (g j))" "n < 2 ^ 32"
  shows "unat (fst x) < n"
  using assms by (auto simp: doc_occs_def unat_code set_mset_sum)

text \<open>Building the postings and decoding them gives every document its terms back.\<close>

lemma decode_text:
  assumes ok: "\<forall>e \<in> set es. terms_ok (Terms e)" and n: "length es < 2 ^ 32" and tot: "term_total es < 2 ^ 32"
    and i: "i < length es"
  shows "termsAt (decodeTerms (buildSegmentText es)) i = Terms (es ! i)"
proof (cases "list_all (\<lambda>e. length (Terms e) = 0) es")
  case True
  with i show ?thesis by (simp add: buildSegmentText_def decodeTerms_def termsAt_def list_all_length)
next
  case False
  let ?st0 = "\<lparr>t_dict = newAttrDict, postings = [], docLen = replicate (length es) 0, nText = 0, totalLen = 0\<rparr>"
  define st where "st = add_docs 0 es ?st0"
  have bst: "buildSegmentText es = Some st" using False by (simp add: buildSegmentText_def st_def)
  have "posts_wf newAttrDict []" by (simp add: posts_wf_def) (simp add: newAttrDict_def)
  then have st: "occs (t_dict st) (postings st) = (\<Sum>j < length es. doc_occs j (Terms (es ! j)))"
      "length (docLen st) = length es"
    using add_docs_occs[of ?st0 es 0] tot by (simp_all add: st_def occs_def newAttrDict_def)
  define tps where "tps = walk_occs (t_dict st) (postings st)"
  define res where "res = foldl (\<lambda>out (t, p). put_posting t out p) (replicate (length es) []) tps"
  have "\<forall>(t, p) \<in> set tps. unat (p_doc p) < length (replicate (length es) [])"
  proof -
    have "(p_doc p, t, p_tf p) \<in># occs (t_dict st) (postings st)" if "(t, p) \<in> set tps" for t p
      using that mset_walk[of "t_dict st" "postings st"] unfolding tps_def
      by (metis (mono_tags, lifting) case_prod_conv image_eqI set_image_mset set_mset_mset)
    with st(1) occs_docs[OF _ n] show ?thesis by fastforce
  qed
  from walk_result[OF this _ res_def, of i] i
  have len: "length res = length es"
    and at: "res ! i = map (\<lambda>(t, p). \<lparr>Term = t, TF = p_tf p\<rparr>) (filter (\<lambda>(t, p). unat (p_doc p) = i) tps)"
    by simp_all
  have "mset (res ! i) = image_mset (\<lambda>(d, t, f). \<lparr>Term = t, TF = f\<rparr>) (doc_occs i (Terms (es ! i)))"
    unfolding at tps_def mset_walk_doc st(1) doc_occs_filter[OF i n] ..
  then have m: "mset (res ! i) = mset (Terms (es ! i))"
    by (simp add: doc_occs_def multiset.map_comp comp_def term_tf_eta)
  have tok: "terms_ok (Terms (es ! i))" using ok i by simp
  have "decodeTerms (Some st) = map (\<lambda>ts. if 1 < length ts then sortTermTF ts else ts) res"
    by (simp add: decodeTerms_def foldl_walk st(2) res_def tps_def)
  with len i have "termsAt (decodeTerms (Some st)) i = (if 1 < length (res ! i) then sortTermTF (res ! i) else res ! i)"
    by (simp add: termsAt_def)
  also have "\<dots> = Terms (es ! i)"
  proof (cases "1 < length (res ! i)")
    case True
    with sort_terms_ok[OF tok m] show ?thesis by simp
  next
    case False
    then have "res ! i = [] \<or> (\<exists>x. res ! i = [x])" by (cases "res ! i") auto
    with m False show ?thesis by (auto simp: mset_single_iff_right dest: sym)
  qed
  finally show ?thesis using bst by simp
qed

end
