(* ===== verification/VecTenant.thy ===== *)
theory VecTenant
  imports VecText
begin

text \<open>
  The layout of a segment by tenant (\<open>vector/tenant.go\<close>): the stable sort by tenant code, the
  catalogue of the contiguous range of every tenant with the kind of index that serves it, and the
  exact search for the nearest \<open>K\<close> in a range. The lemmas show that a range of the catalogue holds
  exactly the positions of its tenant, and that the search returns the first \<open>K\<close> of its candidates in
  the stable order by distance.
\<close>

subsection \<open>Distances\<close>

text \<open>Go's \<open>float32\<close> as its bit pattern, ordered like \<open>f64\<close> in \<open>Float64\<close>.\<close>

definition f32_nan :: "f32 \<Rightarrow> bool" where
  "f32_nan b \<longleftrightarrow> 0x7F800000 < unat b mod 2 ^ 31"

definition f32_key :: "f32 \<Rightarrow> int" where
  "f32_key b = (if 2 ^ 31 \<le> unat b then - int (unat b mod 2 ^ 31) else int (unat b mod 2 ^ 31))"

definition f32_lt :: "f32 \<Rightarrow> f32 \<Rightarrow> bool" where
  "f32_lt a b \<longleftrightarrow> \<not> f32_nan a \<and> \<not> f32_nan b \<and> f32_key a < f32_key b"

definition f32_le :: "f32 \<Rightarrow> f32 \<Rightarrow> bool" where
  "f32_le a b \<longleftrightarrow> \<not> f32_nan a \<and> \<not> f32_nan b \<and> f32_key a \<le> f32_key b"

record frozen_result =
  rkey :: bytes
  rdist :: f32

definition rank :: "frozen_result \<Rightarrow> int" where
  "rank r = f32_key (rdist r)"

definition res_less :: "frozen_result \<Rightarrow> frozen_result \<Rightarrow> bool" where
  "res_less a b \<longleftrightarrow> f32_lt (rdist a) (rdist b)"

lemma res_less_rank:
  "\<not> f32_nan (rdist a) \<Longrightarrow> \<not> f32_nan (rdist b) \<Longrightarrow> res_less a b \<longleftrightarrow> rank a < rank b"
  by (simp add: res_less_def f32_lt_def rank_def)

subsection \<open>The nearest \<open>K\<close>\<close>

text \<open>\<open>insertTopK\<close>: below \<open>K\<close> results the new one is appended and swapped to its place; with \<open>K\<close>
  results it pushes the tail one step to the right.\<close>

fun shift_right :: "frozen_result list \<Rightarrow> f32 \<Rightarrow> nat \<Rightarrow> frozen_result list \<times> nat" where
  "shift_right best d 0 = (best, 0)"
| "shift_right best d (Suc p) =
     (if f32_lt d (rdist (best ! p)) then shift_right (best[Suc p := best ! p]) d p else (best, Suc p))"

definition insertTopK :: "frozen_result list \<Rightarrow> nat \<Rightarrow> bytes \<Rightarrow> f32 \<Rightarrow> frozen_result list" where
  "insertTopK best K k d =
     (if length best < K then
        bubble res_less (length best) (best @ [\<lparr>rkey = k, rdist = d\<rparr>])
      else if f32_le (rdist (best ! (K - 1))) d then best
      else (let (best', pos) = shift_right best d (K - 1) in best'[pos := \<lparr>rkey = k, rdist = d\<rparr>]))"

lemma shift_right_insr:
  assumes "\<not> f32_nan (rdist x)"
  shows "shift_right (ys @ z # zs) (rdist x) (length ys) = (best', pos) \<Longrightarrow>
    best'[pos := x] = insr res_less x ys @ zs"
proof (induction ys arbitrary: z zs rule: rev_induct)
  case Nil
  then show ?case by (auto simp: insr_def)
next
  case (snoc y ys)
  show ?case
  proof (cases "f32_lt (rdist x) (rdist y)")
    case True
    have "(ys @ y # z # zs)[Suc (length ys) := y] = ys @ y # y # zs"
      by (simp add: list_update_append)
    then have "shift_right (ys @ y # y # zs) (rdist x) (length ys) = (best', pos)"
      using snoc.prems True by (simp add: nth_append)
    from snoc.IH[OF this] True show ?thesis by (simp add: insr_def res_less_def)
  next
    case False
    then have "best' = ys @ y # z # zs" "pos = Suc (length ys)"
      using snoc.prems by (auto simp: nth_append)
    with False show ?thesis by (simp add: insr_def res_less_def list_update_append)
  qed
qed

lemma insr_append:
  assumes "\<forall>z \<in> set zs. lt x z"
  shows "insr lt x (ys @ zs) = insr lt x ys @ zs"
proof -
  have "takeWhile (lt x) (rev zs @ rev ys) = rev zs @ takeWhile (lt x) (rev ys)"
    "dropWhile (lt x) (rev zs @ rev ys) = dropWhile (lt x) (rev ys)"
    using assms by (simp_all add: takeWhile_append dropWhile_append)
  then show ?thesis by (simp add: insr_def)
qed

lemma while_stop:
  "\<not> P y \<Longrightarrow> dropWhile P (as @ y # bs) = dropWhile P as @ y # bs"
  "\<not> P y \<Longrightarrow> takeWhile P (as @ y # bs) = takeWhile P as"
  by (induction as) auto

text \<open>An insertion keeps the first \<open>K\<close> of the sorted list of all candidates.\<close>

lemma insertTopK_take:
  assumes K: "0 < K" and nan: "\<forall>y \<in> set ys. \<not> f32_nan (rdist y)" "\<not> f32_nan d"
    and sorted: "sorted (map rank ys)" and x_def: "x = \<lparr>rkey = k, rdist = d\<rparr>"
  shows "insertTopK (take K ys) K k d = take K (insr res_less x ys)"
proof (cases "length ys < K")
  case True
  then show ?thesis
    using bubble_insr[of res_less ys x "[]"] by (simp add: insertTopK_def x_def)
next
  case False
  define as where "as = take (K - 1) ys"
  define y where "y = ys ! (K - 1)"
  define zs where "zs = drop K ys"
  have las: "length as = K - 1" using False by (simp add: as_def)
  have split: "ys = as @ y # zs"
    using False K id_take_nth_drop[of "K - 1" ys] by (simp add: as_def y_def zs_def)
  have best: "take K ys = as @ [y]" using las K by (subst split) simp
  have besty: "take K ys ! (K - 1) = y" using K by (simp add: y_def)
  have y: "\<not> f32_nan (rdist y)" using nan split by simp
  have dx: "rdist x = d" by (simp add: x_def)
  show ?thesis
  proof (cases "f32_le (rdist y) d")
    case True
    then have "\<not> res_less x y" using y nan(2) by (simp add: x_def res_less_def f32_le_def f32_lt_def)
    moreover have "insr res_less x ys = as @ y # drop 0 (insr res_less x zs)" if "\<not> res_less x y"
      using that by (simp add: split insr_def while_stop)
    ultimately have "take K (insr res_less x ys) = as @ [y]" using las K by simp
    moreover have "insertTopK (take K ys) K k d = take K ys"
      using True False besty unfolding insertTopK_def by simp
    ultimately show ?thesis using best by simp
  next
    case far: False
    obtain best' pos where sh: "shift_right (as @ [y]) d (length as) = (best', pos)"
      by (cases "shift_right (as @ [y]) d (length as)")
    from shift_right_insr[of x as y "[]" best' pos] nan(2) dx sh
    have "best'[pos := x] = insr res_less x as" by simp
    moreover have "\<forall>z \<in> set (y # zs). res_less x z"
    proof
      fix z assume z: "z \<in> set (y # zs)"
      have "rank y \<le> rank z" using z sorted by (auto simp: split sorted_append)
      moreover have "rank x < rank y" using far y nan(2) by (simp add: f32_le_def rank_def x_def)
      moreover have "\<not> f32_nan (rdist z)" using z nan(1) split by auto
      ultimately show "res_less x z" using nan(2) by (simp add: res_less_rank x_def)
    qed
    then have "insr res_less x ys = insr res_less x as @ y # zs"
      by (subst split) (rule insr_append)
    ultimately show ?thesis
      using False far best besty las K sh by (simp add: insertTopK_def x_def)
  qed
qed

text \<open>Insertion one by one sorts, stably.\<close>

definition ranked :: "frozen_result list \<Rightarrow> frozen_result list" where
  "ranked cs = sort_key rank cs"

lemma insr_stable:
  fixes f :: "'a \<Rightarrow> 'b::linorder"
  assumes "\<And>y. y \<in> set ys \<Longrightarrow> lt x y \<longleftrightarrow> f x < f y"
  shows "filter (\<lambda>y. c = f y) (insr lt x ys) = filter (\<lambda>y. c = f y) ys @ (if c = f x then [x] else [])"
  using assms
proof (induction ys rule: rev_induct)
  case Nil
  then show ?case by (simp add: insr_def)
next
  case (snoc y ys)
  show ?case
  proof (cases "lt x y")
    case True
    have "insr lt x (ys @ [y]) = insr lt x ys @ [y]" using True by (simp add: insr_def)
    moreover have "f x < f y" using True snoc.prems[of y] by simp
    ultimately show ?thesis using snoc by auto
  next
    case False
    then show ?thesis by (simp add: insr_def)
  qed
qed

lemma sort_key_snoc:
  fixes f :: "'a \<Rightarrow> 'b::linorder"
  assumes "\<And>y. y \<in> set ys \<Longrightarrow> lt x y \<longleftrightarrow> f x < f y"
  shows "sort_key f (ys @ [x]) = insr lt x (sort_key f ys)"
proof (rule properties_for_sort_key)
  show "mset (insr lt x (sort_key f ys)) = mset (ys @ [x])" by simp
  show "sorted (map f (insr lt x (sort_key f ys)))"
    using assms by (intro sorted_insr) simp_all
  fix c assume "c \<in> set (insr lt x (sort_key f ys))"
  have "filter (\<lambda>y. k = f y) (sort_key f ys) = filter (\<lambda>y. k = f y) ys" for k
    using sort_key_stable[of f k ys] by (simp add: eq_commute)
  then
  show "filter (\<lambda>y. f c = f y) (insr lt x (sort_key f ys)) = filter (\<lambda>y. f c = f y) (ys @ [x])"
    using assms by (subst insr_stable) simp_all
qed

lemma topK_fold:
  assumes "0 < K" "\<forall>c \<in> set cs. \<not> f32_nan (rdist c)"
  shows "foldl (\<lambda>best c. insertTopK best K (rkey c) (rdist c)) [] cs = take K (ranked cs)"
  using assms(2)
proof (induction cs rule: rev_induct)
  case Nil
  then show ?case by (simp add: ranked_def)
next
  case (snoc c cs)
  have "insertTopK (take K (ranked cs)) K (rkey c) (rdist c) =
      take K (insr res_less \<lparr>rkey = rkey c, rdist = rdist c\<rparr> (ranked cs))"
    using assms(1) snoc.prems by (intro insertTopK_take[OF _ _ _ _ refl]) (auto simp: ranked_def)
  moreover have "sort_key rank (cs @ [c]) = insr res_less c (sort_key rank cs)"
    using snoc.prems by (intro sort_key_snoc res_less_rank) auto
  moreover have "\<lparr>rkey = rkey c, rdist = rdist c\<rparr> = c" by (cases c) simp
  ultimately show ?case using snoc by (simp add: ranked_def)
qed

subsection \<open>The catalogue of tenants\<close>

datatype index_kind = IndexBrute | IndexGraph

definition DefaultBruteThreshold :: int where "DefaultBruteThreshold = 16384"
definition bruteDimRef :: int where "bruteDimRef = 128"

definition effectiveBruteThreshold :: "int \<Rightarrow> int \<Rightarrow> int" where
  "effectiveBruteThreshold threshold dim =
     (let th = (if threshold \<le> 0 then DefaultBruteThreshold else threshold) in
      if dim \<le> 0 then th
      else let t = i64 (th * bruteDimRef) div dim in if t < 1 then 1 else t)"

record tenant_range =
  Tenant :: "64 word"
  Start :: nat
  End :: nat
  Kind :: index_kind

record tenant_catalog =
  ranges :: "(64 word, tenant_range) gomap"
  bruteThreshold :: int

definition sortEntriesByTenant :: "(delta_entry \<Rightarrow> 64 word) \<Rightarrow> delta_entry list \<Rightarrow> delta_entry list" where
  "sortEntriesByTenant f es = sort_key f es"

text \<open>\<open>buildTenantCatalog\<close>: the closure \<open>flush\<close> and the loop over the entries, here over their tenant
  codes. A tenant met again after its block is an error (\<open>None\<close>).\<close>

definition cat_flush :: "int \<Rightarrow> 64 word \<Rightarrow> nat \<Rightarrow> nat \<Rightarrow> (64 word, tenant_range) gomap
    \<Rightarrow> (64 word, tenant_range) gomap option" where
  "cat_flush thr cur start en m =
     (case map_of m cur of
        Some r \<Rightarrow> None
      | None \<Rightarrow> Some (AList.update cur
          \<lparr>Tenant = cur, Start = start, End = en,
           Kind = (if int en - int start > thr then IndexGraph else IndexBrute)\<rparr> m))"

fun cat_loop :: "int \<Rightarrow> nat \<Rightarrow> 64 word list \<Rightarrow> nat \<Rightarrow> 64 word \<Rightarrow> (64 word, tenant_range) gomap
    \<Rightarrow> (64 word, tenant_range) gomap option" where
  "cat_loop thr i [] start cur m = cat_flush thr cur start i m"
| "cat_loop thr i (t # ts) start cur m =
     (if t \<noteq> cur then
        (case cat_flush thr cur start i m of
           None \<Rightarrow> None
         | Some m' \<Rightarrow> cat_loop thr (Suc i) ts i t m')
      else cat_loop thr (Suc i) ts start cur m)"

definition buildTenantCatalog :: "64 word list \<Rightarrow> int \<Rightarrow> int \<Rightarrow> tenant_catalog option" where
  "buildTenantCatalog codes threshold dim =
     (let thr = effectiveBruteThreshold threshold dim in
      case codes of
        [] \<Rightarrow> Some \<lparr>ranges = [], bruteThreshold = thr\<rparr>
      | t # ts \<Rightarrow> map_option (\<lambda>m. \<lparr>ranges = m, bruteThreshold = thr\<rparr>) (cat_loop thr 1 ts 0 t []))"

definition cat_Lookup :: "tenant_catalog \<Rightarrow> 64 word \<Rightarrow> tenant_range option" where
  "cat_Lookup c t = map_of (ranges c) t"

text \<open>What the catalogue says of the first \<open>n\<close> positions: a tenant has a range exactly if it occurs,
  and the range is the set of its positions.\<close>

definition cat_ok :: "int \<Rightarrow> 64 word list \<Rightarrow> nat \<Rightarrow> (64 word, tenant_range) gomap \<Rightarrow> bool" where
  "cat_ok thr codes n m \<longleftrightarrow> (\<forall>t. case map_of m t of
      None \<Rightarrow> t \<notin> set (take n codes)
    | Some r \<Rightarrow> Tenant r = t \<and> Start r < End r \<and> End r \<le> n \<and>
        Kind r = (if int (End r) - int (Start r) > thr then IndexGraph else IndexBrute) \<and>
        (\<forall>j < length codes. codes ! j = t \<longleftrightarrow> Start r \<le> j \<and> j < End r))"

lemma cat_flush_ok:
  assumes ok: "cat_ok thr codes start m" and sorted: "sorted codes"
    and pos: "start < i" "i \<le> length codes"
    and blk: "\<And>j. start \<le> j \<Longrightarrow> j < i \<Longrightarrow> codes ! j = cur"
    and before: "\<And>j. j < start \<Longrightarrow> codes ! j \<noteq> cur"
    and after: "i < length codes \<Longrightarrow> codes ! i \<noteq> cur"
  obtains m' where "cat_flush thr cur start i m = Some m'" "cat_ok thr codes i m'"
proof -
  have "cur \<notin> set (take start codes)"
    using before pos by (auto simp: in_set_conv_nth)
  moreover have "map_of m cur = None"
  proof (cases "map_of m cur")
    case (Some r)
    then have "Start r < End r" "End r \<le> start" "\<forall>j < length codes. codes ! j = cur \<longleftrightarrow> Start r \<le> j \<and> j < End r"
      using ok unfolding cat_ok_def by (smt (verit, best) option.simps(5))+
    then have "codes ! Start r = cur" using pos by auto
    moreover have "Start r < start" using \<open>Start r < End r\<close> \<open>End r \<le> start\<close> by simp
    ultimately show ?thesis using before by blast
  qed simp
  moreover have pl: "codes ! j = cur \<longleftrightarrow> start \<le> j \<and> j < i" if "j < length codes" for j
  proof (cases "j < start")
    case True
    with before show ?thesis by auto
  next
    case nb: False
    show ?thesis
    proof (cases "j < i")
      case True
      with nb blk show ?thesis by auto
    next
      case False
      then have "cur \<le> codes ! i" "codes ! i \<le> codes ! j" "i < length codes"
        using that sorted blk[of start] pos sorted_nth_mono[OF sorted, of start i]
          sorted_nth_mono[OF sorted, of i j] by auto
      with after False show ?thesis by force
    qed
  qed
  moreover have "set (take i codes) = insert cur (set (take start codes))"
  proof -
    have "take i codes = take start codes @ take (i - start) (drop start codes)"
      using pos by (metis le_add_diff_inverse less_imp_le_nat take_add)
    moreover have "set (take (i - start) (drop start codes)) = {cur}"
      using pos blk by (auto simp: in_set_conv_nth) (metis add.right_neutral diff_is_0_eq le_add1 length_drop linorder_not_le min_less_iff_conj nat_less_le nth_drop nth_take zero_less_diff length_take less_imp_le_nat)
    ultimately show ?thesis by simp
  qed
  moreover have "cat_ok thr codes i (AList.update cur
      \<lparr>Tenant = cur, Start = start, End = i, Kind = (if int i - int start > thr then IndexGraph else IndexBrute)\<rparr> m)"
    if set_i: "set (take i codes) = insert cur (set (take start codes))"
    unfolding cat_ok_def
  proof
    fix t
    show "case map_of (AList.update cur
        \<lparr>Tenant = cur, Start = start, End = i, Kind = (if int i - int start > thr then IndexGraph else IndexBrute)\<rparr> m) t of
        None \<Rightarrow> t \<notin> set (take i codes)
      | Some r \<Rightarrow> Tenant r = t \<and> Start r < End r \<and> End r \<le> i \<and>
          Kind r = (if int (End r) - int (Start r) > thr then IndexGraph else IndexBrute) \<and>
          (\<forall>j < length codes. codes ! j = t \<longleftrightarrow> Start r \<le> j \<and> j < End r)"
    proof (cases "t = cur")
      case True
      with pl pos show ?thesis by simp
    next
      case False
      from ok have "case map_of m t of
          None \<Rightarrow> t \<notin> set (take start codes)
        | Some r \<Rightarrow> Tenant r = t \<and> Start r < End r \<and> End r \<le> start \<and>
            Kind r = (if int (End r) - int (Start r) > thr then IndexGraph else IndexBrute) \<and>
            (\<forall>j < length codes. codes ! j = t \<longleftrightarrow> Start r \<le> j \<and> j < End r)"
        unfolding cat_ok_def by blast
      with False set_i pos show ?thesis by (cases "map_of m t") auto
    qed
  qed
  ultimately have "map_of m cur = None" "cat_ok thr codes i (AList.update cur
      \<lparr>Tenant = cur, Start = start, End = i, Kind = (if int i - int start > thr then IndexGraph else IndexBrute)\<rparr> m)"
    by blast+
  with that show ?thesis by (simp add: cat_flush_def)
qed

lemma cat_loop_ok:
  assumes "sorted codes"
  shows "cat_ok thr codes start m \<Longrightarrow> start < i \<Longrightarrow> i \<le> length codes \<Longrightarrow> ts = drop i codes \<Longrightarrow>
    (\<And>j. start \<le> j \<Longrightarrow> j < i \<Longrightarrow> codes ! j = cur) \<Longrightarrow>
    (\<And>j. j < start \<Longrightarrow> codes ! j \<noteq> cur) \<Longrightarrow>
    \<exists>m'. cat_loop thr i ts start cur m = Some m' \<and> cat_ok thr codes (length codes) m'"
proof (induction ts arbitrary: i start cur m)
  case Nil
  then have "i = length codes" by simp
  then obtain m' where "cat_flush thr cur start i m = Some m'" "cat_ok thr codes i m'"
    using cat_flush_ok[OF Nil.prems(1) assms Nil.prems(2,3,5,6)] by auto
  with \<open>i = length codes\<close> show ?case by auto
next
  case (Cons t ts)
  have i: "i < length codes" "t = codes ! i" "ts = drop (Suc i) codes"
    using Cons.prems(3,4) by (metis drop_all linorder_not_less list.distinct(1))
      (metis Cons.prems(4) nth_via_drop, metis Cons.prems(4) drop_Suc list.sel(3) tl_drop)
  show ?case
  proof (cases "t = cur")
    case True
    have "\<And>j. start \<le> j \<Longrightarrow> j < Suc i \<Longrightarrow> codes ! j = cur"
      using Cons.prems(5) i(2) True less_Suc_eq by metis
    then show ?thesis
      using Cons.IH[OF Cons.prems(1), where i = "Suc i" and cur = cur] Cons.prems(2,6) i True by simp
  next
    case False
    then obtain m' where m': "cat_flush thr cur start i m = Some m'" "cat_ok thr codes i m'"
      using cat_flush_ok[OF Cons.prems(1) assms Cons.prems(2,3,5,6)] i by auto
    have "codes ! j \<noteq> t" if "j < i" for j
    proof -
      have "codes ! (i - 1) = cur" using Cons.prems(2) Cons.prems(5)[of "i - 1"] by simp
      moreover have "codes ! j \<le> codes ! (i - 1)" "codes ! (i - 1) \<le> codes ! i"
        using that i by (auto intro!: sorted_nth_mono[OF assms])
      ultimately show ?thesis using False i by auto
    qed
    note fresh = this
    have "\<exists>m''. cat_loop thr (Suc i) ts i t m' = Some m'' \<and> cat_ok thr codes (length codes) m''"
    proof (rule Cons.IH[OF m'(2)])
      show "ts = drop (Suc i) codes" by (rule i(3))
      show "codes ! j = t" if "i \<le> j" "j < Suc i" for j using that i(2) le_less_Suc_eq by blast
      show "codes ! j \<noteq> t" if "j < i" for j using that by (rule fresh)
    qed (use i(1) in simp_all)
    with False m'(1) show ?thesis by simp
  qed
qed

text \<open>On sorted codes there is a catalogue, and its ranges are the blocks of the tenants.\<close>

lemma buildTenantCatalog_ok:
  assumes "sorted codes"
  obtains c where "buildTenantCatalog codes threshold dim = Some c"
    "bruteThreshold c = effectiveBruteThreshold threshold dim"
    "cat_ok (effectiveBruteThreshold threshold dim) codes (length codes) (ranges c)"
proof (cases codes)
  case Nil
  with that show ?thesis by (simp add: buildTenantCatalog_def cat_ok_def)
next
  case (Cons t ts)
  have "\<exists>m'. cat_loop (effectiveBruteThreshold threshold dim) 1 ts 0 t [] = Some m' \<and>
      cat_ok (effectiveBruteThreshold threshold dim) codes (length codes) m'"
    using Cons by (intro cat_loop_ok[OF assms]) (auto simp: cat_ok_def)
  with Cons that show ?thesis by (auto simp: buildTenantCatalog_def Let_def)
qed

end
