(* ===== verification/VecSeg.thy ===== *)
theory VecSeg
  imports VecTenant
begin

text \<open>
  Segments of the vector store (\<open>vector/leveled_compaction.go\<close>, \<open>leveled_segments.go\<close>,
  \<open>frozen.go\<close>): the graph nodes that carry vectors and keys, freezing them into a layout,
  \<open>buildSegment\<close>, and the routing of a filtered search. The edges of the HNSW graph are not modelled:
  the walk over them is a parameter of the search, and what it returns plays no role in the exact
  paths. A slab \<open>data[i*dim:(i+1)*dim]\<close> is the list of its rows.
\<close>

subsection \<open>Graph nodes\<close>

record gnode =
  gvec :: "f32 list"
  galive :: bool

record graph =
  gnodes :: "gnode list"
  freeIDs :: "nat list"

definition NewGraph :: graph where
  "NewGraph = \<lparr>gnodes = [], freeIDs = []\<rparr>"

text \<open>\<open>Insert\<close> takes the last free cell or appends one; \<open>Delete\<close> puts the cell on the free list.\<close>

definition graph_insert :: "f32 list \<Rightarrow> graph \<Rightarrow> nat \<times> graph" where
  "graph_insert v g =
     (if freeIDs g \<noteq> [] then
        (let i = last (freeIDs g) in
         (i, g\<lparr>gnodes := (gnodes g)[i := \<lparr>gvec = v, galive = True\<rparr>], freeIDs := butlast (freeIDs g)\<rparr>))
      else (length (gnodes g), g\<lparr>gnodes := gnodes g @ [\<lparr>gvec = v, galive = True\<rparr>]\<rparr>))"

definition graph_delete :: "nat \<Rightarrow> graph \<Rightarrow> graph" where
  "graph_delete i g =
     (if i < length (gnodes g) \<and> galive (gnodes g ! i) then
        g\<lparr>gnodes := (gnodes g)[i := (gnodes g ! i)\<lparr>galive := False\<rparr>], freeIDs := freeIDs g @ [i]\<rparr>
      else g)"

text \<open>\<open>FreezeGraphOrdered\<close>: vectors and keys of the living nodes at their positions; a dead node leaves
  a zero row and the empty key.\<close>

definition freeze_at :: "nat list option \<Rightarrow> nat \<Rightarrow> nat" where
  "freeze_at pos i = (case pos of None \<Rightarrow> i | Some p \<Rightarrow> p ! i)"

definition freeze_node :: "gnode list \<Rightarrow> (nat, bytes) gomap \<Rightarrow> nat list option
    \<Rightarrow> f32 list list \<times> bytes list \<Rightarrow> nat \<Rightarrow> f32 list list \<times> bytes list" where
  "freeze_node nodes keys pos acc i =
     (case acc of (rows, ks) \<Rightarrow>
        if galive (nodes ! i) then
          (rows[freeze_at pos i := gvec (nodes ! i)],
           ks[freeze_at pos i := (case map_of keys i of None \<Rightarrow> [] | Some k \<Rightarrow> k)])
        else (rows, ks))"

definition FreezeGraphOrdered :: "nat \<Rightarrow> graph \<Rightarrow> (nat, bytes) gomap \<Rightarrow> nat list option
    \<Rightarrow> (f32 list list \<times> bytes list) option" where
  "FreezeGraphOrdered dim g keys pos =
     (let n = length (gnodes g) in
      if n = 0 then None
      else Some (foldl (freeze_node (gnodes g) keys pos)
        (replicate n (replicate dim 0), replicate n []) [0..<n]))"

lemma freeze_node_step:
  "galive (ns ! i) \<Longrightarrow> freeze_node ns keys pos (rows, ks) i =
    (rows[freeze_at pos i := gvec (ns ! i)],
     ks[freeze_at pos i := (case map_of keys i of None \<Rightarrow> [] | Some k \<Rightarrow> k)])"
  "\<not> galive (ns ! i) \<Longrightarrow> freeze_node ns keys pos (rows, ks) i = (rows, ks)"
  by (simp_all add: freeze_node_def)

text \<open>A node that nothing else goes on top of ends up at its position.\<close>

lemma freeze_fold_length:
  "foldl (freeze_node ns keys pos) (rows, ks) is = (rows', ks') \<Longrightarrow>
   length rows' = length rows \<and> length ks' = length ks"
proof (induction "is" arbitrary: rows ks)
  case Nil
  then show ?case by simp
next
  case (Cons i "is")
  obtain rows1 ks1 where n: "freeze_node ns keys pos (rows, ks) i = (rows1, ks1)"
    by (cases "freeze_node ns keys pos (rows, ks) i")
  then have "length rows1 = length rows" "length ks1 = length ks"
    by (cases "galive (ns ! i)"; auto simp: freeze_node_step)+
  with Cons.IH[of rows1 ks1] Cons.prems n show ?case by simp
qed

lemma freeze_fold_other:
  "foldl (freeze_node ns keys pos) (rows, ks) is = (rows', ks') \<Longrightarrow>
   \<forall>i \<in> set is. galive (ns ! i) \<longrightarrow> freeze_at pos i \<noteq> p \<Longrightarrow> rows' ! p = rows ! p \<and> ks' ! p = ks ! p"
proof (induction "is" arbitrary: rows ks)
  case Nil
  then show ?case by simp
next
  case (Cons i "is")
  show ?case
  proof (cases "galive (ns ! i)")
    case True
    define rows1 where "rows1 = rows[freeze_at pos i := gvec (ns ! i)]"
    define ks1 where "ks1 = ks[freeze_at pos i := (case map_of keys i of None \<Rightarrow> [] | Some k \<Rightarrow> k)]"
    have "foldl (freeze_node ns keys pos) (rows1, ks1) is = (rows', ks')"
      using Cons.prems(1) True by (simp add: freeze_node_step(1) rows1_def ks1_def)
    from Cons.IH[OF this] Cons.prems(2) True show ?thesis by (simp add: rows1_def ks1_def)
  next
    case False
    with Cons.prems(1) have "foldl (freeze_node ns keys pos) (rows, ks) is = (rows', ks')"
      by (simp add: freeze_node_step(2))
    from Cons.IH[OF this] Cons.prems(2) show ?thesis by simp
  qed
qed

lemma freeze_fold_at:
  assumes fold: "foldl (freeze_node ns keys pos) (rows, ks) is = (rows', ks')"
    and inj: "inj_on (freeze_at pos) (set is)" and d: "distinct is"
    and i: "i \<in> set is" "galive (ns ! i)"
    and p: "freeze_at pos i < length rows" "freeze_at pos i < length ks"
  shows "rows' ! freeze_at pos i = gvec (ns ! i) \<and>
    ks' ! freeze_at pos i = (case map_of keys i of None \<Rightarrow> [] | Some k \<Rightarrow> k)"
proof -
  obtain as bs where split: "is = as @ i # bs" using i(1) by (meson split_list)
  obtain rows1 ks1 where first: "foldl (freeze_node ns keys pos) (rows, ks) as = (rows1, ks1)"
    by (cases "foldl (freeze_node ns keys pos) (rows, ks) as")
  have len: "length rows1 = length rows" "length ks1 = length ks" using freeze_fold_length[OF first] by auto
  have "foldl (freeze_node ns keys pos)
      (rows1[freeze_at pos i := gvec (ns ! i)],
       ks1[freeze_at pos i := (case map_of keys i of None \<Rightarrow> [] | Some k \<Rightarrow> k)]) bs = (rows', ks')"
    using fold first i(2) by (simp add: split freeze_node_step(1))
  moreover have "\<forall>j \<in> set bs. galive (ns ! j) \<longrightarrow> freeze_at pos j \<noteq> freeze_at pos i"
    using inj d split by (auto simp: inj_on_def)
  ultimately have "rows' ! freeze_at pos i = rows1[freeze_at pos i := gvec (ns ! i)] ! freeze_at pos i \<and>
      ks' ! freeze_at pos i = ks1[freeze_at pos i := (case map_of keys i of None \<Rightarrow> [] | Some k \<Rightarrow> k)] ! freeze_at pos i"
    by (rule freeze_fold_other)
  with p len show ?thesis by simp
qed

subsection \<open>Building a segment\<close>

text \<open>The settings of the store that matter here, and what the build takes from libraries: the order
  in which the sort first meets the values of the partition attribute (the dictionary is filled from
  inside the comparison), the shuffle of the insertion order, and the loss of the SQ8 quantisation
  (codes and back).\<close>

record vconfig =
  TenantOf :: "(bytes \<Rightarrow> 64 word) option"
  PartitionAttr :: bytes
  BruteThreshold :: int
  UseSQ :: bool

record vlib =
  sort_seen :: "delta_entry list \<Rightarrow> bytes list"
  shuffle :: "nat \<Rightarrow> nat list"
  sq8 :: "f32 list list \<Rightarrow> f32 list list"

datatype seg_kind = Frozen | FrozenSQ | Hnsw

record segment =
  sg_kind :: seg_kind
  sg_keys :: "bytes list"
  sg_rows :: "f32 list list"
  sg_cat :: "tenant_catalog option"
  sg_attrs :: "seg_attrs option"
  sg_text :: "segment_text option"

definition csrDimThreshold :: nat where "csrDimThreshold = 256"

definition part_dict :: "vlib \<Rightarrow> bytes \<Rightarrow> delta_entry list \<Rightarrow> attr_dict" where
  "part_dict lib pa es =
     foldl (\<lambda>d v. snd (intern d v)) newAttrDict (sort_seen lib es @ map (\<lambda>e. cat_get (Attrs e) pa) es)"

definition part_code :: "attr_dict \<Rightarrow> bytes \<Rightarrow> delta_entry \<Rightarrow> 64 word" where
  "part_code pd pa e = ucast (fst (intern pd (cat_get (Attrs e) pa)))"

text \<open>The tenant layout: entries sorted, their codes, the preset dictionary of the partition column.\<close>

definition tenant_layout :: "vconfig \<Rightarrow> vlib \<Rightarrow> delta_entry list
    \<Rightarrow> delta_entry list \<times> 64 word list option \<times> (bytes, attr_dict) gomap" where
  "tenant_layout cfg lib es =
     (if PartitionAttr cfg \<noteq> [] then
        (let pa = PartitionAttr cfg; pd = part_dict lib pa es; es' = sortEntriesByTenant (part_code pd pa) es in
         (es', Some (map (part_code pd pa) es'), [(pa, pd)]))
      else
        (case TenantOf cfg of
           Some f \<Rightarrow> (let es' = sortEntriesByTenant (\<lambda>e. f (Key e)) es in (es', Some (map (\<lambda>e. f (Key e)) es'), []))
         | None \<Rightarrow> (es, None, [])))"

text \<open>The insertion of the entries in the order of the shuffle: graph and keys by node.\<close>

definition insert_all :: "delta_entry list \<Rightarrow> nat list \<Rightarrow> graph \<times> (nat, bytes) gomap" where
  "insert_all es order =
     foldl (\<lambda>(g, ks) ei. let (i, g') = graph_insert (Vec (es ! ei)) g in (g', AList.update i (Key (es ! ei)) ks))
       (NewGraph, []) order"

definition will_freeze :: "vconfig \<Rightarrow> nat \<Rightarrow> bool" where
  "will_freeze cfg dim \<longleftrightarrow> UseSQ cfg \<or> dim \<le> csrDimThreshold"

definition build_order :: "vconfig \<Rightarrow> vlib \<Rightarrow> nat \<Rightarrow> nat \<Rightarrow> nat list" where
  "build_order cfg lib n dim = (if will_freeze cfg dim \<and> n > 1 then shuffle lib n else [0..<n])"

definition build_pos :: "vconfig \<Rightarrow> vlib \<Rightarrow> nat \<Rightarrow> nat \<Rightarrow> nat list option" where
  "build_pos cfg lib n dim = (if will_freeze cfg dim \<and> n > 1 then Some (build_order cfg lib n dim) else None)"

text \<open>\<open>None\<close> is the error of \<open>buildTenantCatalog\<close>, which fails the build.\<close>

definition build_catalog :: "vconfig \<Rightarrow> 64 word list option \<Rightarrow> nat \<Rightarrow> tenant_catalog option option" where
  "build_catalog cfg codes dim =
     (case codes of
        None \<Rightarrow> Some None
      | Some cs \<Rightarrow> map_option Some (buildTenantCatalog cs (BruteThreshold cfg) (int dim)))"

definition buildSegment :: "vconfig \<Rightarrow> vlib \<Rightarrow> delta_entry list \<Rightarrow> nat \<Rightarrow> segment option" where
  "buildSegment cfg lib es dim =
     (let n = length es in
      if n = 0 then None
      else
        (let (es1, codes, presets) = tenant_layout cfg lib es in
         case build_catalog cfg codes dim of
           None \<Rightarrow> None
         | Some cat \<Rightarrow>
             (let attrs = buildSegmentAttrs es1 presets;
                  txt = buildSegmentText es1;
                  pos = build_pos cfg lib n dim;
                  (g, keys) = insert_all es1 (build_order cfg lib n dim) in
              if UseSQ cfg then
                map_option (\<lambda>(rows, ks). \<lparr>sg_kind = FrozenSQ, sg_keys = ks, sg_rows = sq8 lib rows,
                  sg_cat = cat, sg_attrs = attrs, sg_text = txt\<rparr>) (FreezeGraphOrdered dim g keys pos)
              else if dim \<le> csrDimThreshold then
                map_option (\<lambda>(rows, ks). \<lparr>sg_kind = Frozen, sg_keys = ks, sg_rows = rows,
                  sg_cat = cat, sg_attrs = attrs, sg_text = txt\<rparr>) (FreezeGraphOrdered dim g keys pos)
              else
                Some \<lparr>sg_kind = Hnsw,
                  sg_keys = map (\<lambda>i. case map_of keys i of None \<Rightarrow> [] | Some k \<Rightarrow> k) [0..<length (gnodes g)],
                  sg_rows = map gvec (gnodes g), sg_cat = cat, sg_attrs = attrs, sg_text = txt\<rparr>)))"

text \<open>What is asked of the library: the shuffle permutes, the quantisation keeps the number of rows, the
  sort meets no more values than there are entries.\<close>

definition lib_ok :: "vlib \<Rightarrow> bool" where
  "lib_ok lib \<longleftrightarrow> (\<forall>n. distinct (shuffle lib n) \<and> set (shuffle lib n) = {..<n}) \<and>
     (\<forall>rows. length (sq8 lib rows) = length rows) \<and> (\<forall>es. length (sort_seen lib es) \<le> length es)"

lemma insert_all_nodes:
  "fst (insert_all es order) = \<lparr>gnodes = map (\<lambda>ei. \<lparr>gvec = Vec (es ! ei), galive = True\<rparr>) order, freeIDs = []\<rparr> \<and>
   map_of (snd (insert_all es order)) i = (if i < length order then Some (Key (es ! (order ! i))) else None)"
proof (induction order arbitrary: i rule: rev_induct)
  case Nil
  then show ?case by (simp add: insert_all_def NewGraph_def)
next
  case (snoc ei order)
  obtain g ks where gk: "insert_all es order = (g, ks)" by (cases "insert_all es order")
  have g: "g = \<lparr>gnodes = map (\<lambda>ei. \<lparr>gvec = Vec (es ! ei), galive = True\<rparr>) order, freeIDs = []\<rparr>"
    using snoc.IH gk by simp
  have "insert_all es (order @ [ei]) =
      (let (i, g') = graph_insert (Vec (es ! ei)) g in (g', AList.update i (Key (es ! ei)) ks))"
    using gk by (simp add: insert_all_def)
  also have "\<dots> = (g\<lparr>gnodes := gnodes g @ [\<lparr>gvec = Vec (es ! ei), galive = True\<rparr>]\<rparr>,
      AList.update (length order) (Key (es ! ei)) ks)"
    by (simp add: graph_insert_def g)
  finally show ?case
    using snoc.IH[of i] gk g by (auto simp: nth_append less_Suc_eq)
qed

text \<open>Freezing undoes the shuffle.\<close>

lemma freeze_shuffled:
  assumes n: "0 < length es" and d: "distinct order" "set order = {..<length es}"
    and pos: "pos = Some order \<or> (pos = None \<and> order = [0..<length es])"
  shows "FreezeGraphOrdered dim (fst (insert_all es order)) (snd (insert_all es order)) pos =
    Some (map Vec es, map Key es)"
proof -
  let ?n = "length es"
  let ?g = "fst (insert_all es order)" and ?k = "snd (insert_all es order)"
  have len: "length order = ?n" using d distinct_card[of order] by simp
  have nodes: "length (gnodes ?g) = ?n" "\<And>i. i < ?n \<Longrightarrow> gnodes ?g ! i = \<lparr>gvec = Vec (es ! (order ! i)), galive = True\<rparr>"
    using insert_all_nodes[of es order] len by simp_all
  have keys: "\<And>i. i < ?n \<Longrightarrow> map_of ?k i = Some (Key (es ! (order ! i)))"
    using insert_all_nodes[of es order] len by simp
  have at: "freeze_at pos i = order ! i" if "i < ?n" for i
    using pos that by (auto simp: freeze_at_def)
  obtain rows ks where f: "foldl (freeze_node (gnodes ?g) ?k pos)
      (replicate ?n (replicate dim 0), replicate ?n []) [0..<?n] = (rows, ks)"
    by (cases "foldl (freeze_node (gnodes ?g) ?k pos) (replicate ?n (replicate dim 0), replicate ?n []) [0..<?n]")
  have l: "length rows = ?n" "length ks = ?n" using freeze_fold_length[OF f] by simp_all
  have "inj_on (freeze_at pos) (set [0..<?n])"
    using at d(1) len by (auto simp: inj_on_def nth_eq_iff_index_eq)
  note place = freeze_fold_at[OF f this]
  have row: "rows ! p = Vec (es ! p) \<and> ks ! p = Key (es ! p)" if "p < ?n" for p
  proof -
    have "p \<in> set order" using that d(2) by simp
    then obtain i where i: "i < ?n" "order ! i = p" using len by (metis in_set_conv_nth)
    with place[of i] at[OF i(1)] nodes(2)[OF i(1)] keys[OF i(1)] that show ?thesis by simp
  qed
  have "rows = map Vec es" "ks = map Key es" using row l by (auto intro: nth_equalityI)
  with f n nodes(1) show ?thesis by (simp add: FreezeGraphOrdered_def Let_def)
qed

lemma intern_all:
  assumes "dict_wf d" "length (vals d) + length vs < 2 ^ 32" "d' = foldl (\<lambda>d v. snd (intern d v)) d vs"
  shows "dict_wf d' \<and> length (vals d') \<le> length (vals d) + length vs \<and> (\<forall>v \<in> set vs. map_of (code d') v \<noteq> None)"
  using assms unfolding assms(3)
proof (induction vs arbitrary: d' rule: rev_induct)
  case Nil
  then show ?case by simp
next
  case (snoc v vs)
  let ?d = "foldl (\<lambda>d v. snd (intern d v)) d vs"
  have ih: "dict_wf ?d" "length (vals ?d) \<le> length (vals d) + length vs" "\<forall>v \<in> set vs. map_of (code ?d) v \<noteq> None"
    using snoc by simp_all
  have "dict_wf (snd (intern ?d v))" using ih snoc.prems(2) by (intro intern_wf) auto
  moreover have "length (vals (snd (intern ?d v))) \<le> length (vals d) + length (vs @ [v])"
    using ih(2) intern_length[of ?d v] by simp
  moreover have "map_of (code (snd (intern ?d v))) w \<noteq> None" if "w \<in> set (vs @ [v])" for w
    using that ih(3) intern_code(1)[of ?d v] intern_code(2)[of ?d w _ v] by (cases "w = v") auto
  ultimately show ?case by simp
qed

lemma part_dict_ok:
  assumes "lib_ok lib" "3 * length es < 2 ^ 32"
  shows "dict_wf (part_dict lib pa es)" "length (vals (part_dict lib pa es)) \<le> 2 * length es"
    "e \<in> set es \<Longrightarrow> map_of (code (part_dict lib pa es)) (cat_get (Attrs e) pa) \<noteq> None"
proof -
  have "length (sort_seen lib es) \<le> length es" using assms(1) by (simp add: lib_ok_def)
  then have "length (vals newAttrDict) + length (sort_seen lib es @ map (\<lambda>e. cat_get (Attrs e) pa) es) \<le> 2 * length es"
    by (simp add: newAttrDict_def)
  moreover have "2 * length es < 2 ^ 32" using assms(2) by simp
  ultimately have b: "length (vals newAttrDict) + length (sort_seen lib es @ map (\<lambda>e. cat_get (Attrs e) pa) es) < 2 ^ 32"
    and l: "length (vals newAttrDict) + length (sort_seen lib es @ map (\<lambda>e. cat_get (Attrs e) pa) es) \<le> 2 * length es"
    by simp_all
  note all = intern_all[OF dict_wf_new b refl, folded part_dict_def]
  from all show "dict_wf (part_dict lib pa es)" by blast
  from all l show "length (vals (part_dict lib pa es)) \<le> 2 * length es" by linarith
  from all show "map_of (code (part_dict lib pa es)) (cat_get (Attrs e) pa) \<noteq> None" if "e \<in> set es"
    using that by simp
qed

lemma part_code_known:
  "map_of (code pd) (cat_get (Attrs e) pa) = Some c \<Longrightarrow> part_code pd pa e = ucast c"
  by (simp add: part_code_def intern_known)

lemma tenant_layout_ok:
  assumes lib: "lib_ok lib" "3 * length es < 2 ^ 32"
    and l: "tenant_layout cfg lib es = (es1, codes, presets)"
  shows "mset es1 = mset es" "length es1 = length es" "presets_ok presets (length es1)"
    "codes = Some cs \<Longrightarrow> sorted cs \<and> length cs = length es1"
proof -
  have "mset es1 = mset es \<and> presets_ok presets (length es) \<and>
      (\<forall>cs. codes = Some cs \<longrightarrow> sorted cs \<and> length cs = length es1)"
  proof (cases "PartitionAttr cfg = []")
    case True
    then show ?thesis using l lib(2)
      by (auto simp: tenant_layout_def sortEntriesByTenant_def presets_ok_def Let_def split: option.splits)
  next
    case False
    let ?pd = "part_dict lib (PartitionAttr cfg) es"
    have "length (vals ?pd) + length es < 2 ^ 32"
      using part_dict_ok(2)[OF lib, of "PartitionAttr cfg"] lib(2) by simp
    with part_dict_ok(1)[OF lib, of "PartitionAttr cfg"]
    have "presets_ok [(PartitionAttr cfg, ?pd)] (length es)" using lib(2) by (simp add: presets_ok_def)
    with False show ?thesis using l by (auto simp: tenant_layout_def sortEntriesByTenant_def Let_def)
  qed
  moreover from this have "length es1 = length es" by (metis size_mset)
  ultimately show "mset es1 = mset es" "length es1 = length es" "presets_ok presets (length es1)"
    "codes = Some cs \<Longrightarrow> sorted cs \<and> length cs = length es1" by simp_all
qed

text \<open>What a built segment holds.\<close>

lemma buildSegment_ok:
  assumes lib: "lib_ok lib" "3 * length es < 2 ^ 32" and es: "es \<noteq> []"
    and l: "tenant_layout cfg lib es = (es1, codes, presets)"
  obtains seg where "buildSegment cfg lib es dim = Some seg"
    "sg_keys seg = map Key es1" "sg_rows seg = (if UseSQ cfg then sq8 lib (map Vec es1) else map Vec es1)"
    "sg_attrs seg = buildSegmentAttrs es1 presets" "sg_text seg = buildSegmentText es1"
    "codes = None \<Longrightarrow> sg_cat seg = None"
    "\<And>cs. codes = Some cs \<Longrightarrow> \<exists>c. sg_cat seg = Some c \<and> cat_ok (effectiveBruteThreshold (BruteThreshold cfg) (int dim)) cs (length es1) (ranges c) \<and>
       bruteThreshold c = effectiveBruteThreshold (BruteThreshold cfg) (int dim) \<and>
       buildTenantCatalog cs (BruteThreshold cfg) (int dim) = Some c"
proof -
  note lay = tenant_layout_ok[OF lib l]
  let ?n = "length es"
  obtain cat where cat: "build_catalog cfg codes dim = Some cat"
    and cat_None: "codes = None \<Longrightarrow> cat = None"
    and cat_Some: "\<And>cs. codes = Some cs \<Longrightarrow> \<exists>c. cat = Some c \<and> cat_ok (effectiveBruteThreshold (BruteThreshold cfg) (int dim)) cs (length es1) (ranges c) \<and>
       bruteThreshold c = effectiveBruteThreshold (BruteThreshold cfg) (int dim) \<and>
       buildTenantCatalog cs (BruteThreshold cfg) (int dim) = Some c"
  proof (cases codes)
    case None
    with that show ?thesis by (simp add: build_catalog_def)
  next
    case (Some cs)
    have s: "sorted cs" "length cs = length es1" using lay(4)[OF Some] by simp_all
    from s(1) obtain c where c: "buildTenantCatalog cs (BruteThreshold cfg) (int dim) = Some c"
      "bruteThreshold c = effectiveBruteThreshold (BruteThreshold cfg) (int dim)" "cat_ok (effectiveBruteThreshold (BruteThreshold cfg) (int dim)) cs (length cs) (ranges c)"
      by (rule buildTenantCatalog_ok)
    with Some s(2) that[of "Some c"] show ?thesis by (simp add: build_catalog_def)
  qed
  define order where "order = build_order cfg lib ?n dim"
  define pos where "pos = build_pos cfg lib ?n dim"
  have n: "0 < length es1" using es lay(2) by simp
  have ord: "distinct order" "set order = {..<length es1}"
    using lib(1) lay(2) by (auto simp: order_def build_order_def lib_ok_def atLeast0LessThan)
  have "pos = Some order \<or> (pos = None \<and> order = [0..<length es1])"
    using lay(2) by (simp add: pos_def order_def build_order_def build_pos_def)
  note frozen = freeze_shuffled[OF n ord this, of dim]
  let ?g = "fst (insert_all es1 order)" and ?k = "snd (insert_all es1 order)"
  have hnsw: "map (\<lambda>i. case map_of ?k i of None \<Rightarrow> [] | Some k \<Rightarrow> k) [0..<length (gnodes ?g)] = map Key es1 \<and>
      map gvec (gnodes ?g) = map Vec es1" if "\<not> UseSQ cfg" "\<not> dim \<le> csrDimThreshold"
  proof -
    have "order = [0..<length es1]" using that lay(2) by (simp add: order_def build_order_def will_freeze_def)
    with insert_all_nodes[of es1 order] show ?thesis
      by (auto intro!: nth_equalityI simp: comp_def)
  qed
  define seg where "seg = \<lparr>sg_kind = (if UseSQ cfg then FrozenSQ else if dim \<le> csrDimThreshold then Frozen else Hnsw),
    sg_keys = map Key es1, sg_rows = (if UseSQ cfg then sq8 lib (map Vec es1) else map Vec es1),
    sg_cat = cat, sg_attrs = buildSegmentAttrs es1 presets, sg_text = buildSegmentText es1\<rparr>"
  have "buildSegment cfg lib es dim = Some seg"
    using es cat frozen hnsw unfolding order_def pos_def
    by (auto simp: buildSegment_def l Let_def case_prod_unfold seg_def)
  with that[of seg] cat_None cat_Some show ?thesis by (auto simp: seg_def)
qed

end
