(* ===== verification/VecSearch.thy ===== *)
theory VecSearch
  imports VecSeg
begin

text \<open>
  The filtered search in one segment (\<open>vector/leveled_segments.go\<close>, \<open>searchFilterFrozen\<close>, and
  the exact walks of \<open>frozen.go\<close> and \<open>frozen_sq.go\<close>): the partition attribute of the filter selects a
  block of the catalogue, the other conditions are compiled against the columns, and a small block or a
  selective rest is searched exactly. Where the code walks the HNSW graph, the walk is a parameter.
\<close>

definition residualBruteFactor :: int where "residualBruteFactor = 32"
definition residualBruteSelDenom :: int where "residualBruteSelDenom = 4"

text \<open>\<open>residualBruteBudget\<close>: off for float segments.\<close>

definition residualBruteBudget :: "segment \<Rightarrow> int \<Rightarrow> int" where
  "residualBruteBudget seg efSearch =
     (case sg_kind seg of
        FrozenSQ \<Rightarrow> (if efSearch \<le> 0 then 1 else efSearch) * residualBruteFactor
      | _ \<Rightarrow> 0)"

text \<open>The pass of \<open>bruteRangeAttr\<close> over the positions of a block.\<close>

definition brute_step :: "segment \<Rightarrow> (f32 list \<Rightarrow> f32) \<Rightarrow> nat \<Rightarrow> (nat \<Rightarrow> bool)
    \<Rightarrow> frozen_result list \<Rightarrow> nat \<Rightarrow> frozen_result list" where
  "brute_step seg dist K pred best i =
     (if \<not> pred i then best
      else if sg_keys seg ! i = [] then best
      else insertTopK best K (sg_keys seg ! i) (dist (sg_rows seg ! i)))"

definition bruteRangeAttr :: "segment \<Rightarrow> (f32 list \<Rightarrow> f32) \<Rightarrow> nat \<Rightarrow> nat \<Rightarrow> nat \<Rightarrow> (nat \<Rightarrow> bool) \<Rightarrow> frozen_result list" where
  "bruteRangeAttr seg dist K start en pred =
     (if K = 0 \<or> en \<le> start then [] else foldl (brute_step seg dist K pred) [] [start..<en])"

text \<open>\<open>composeIdxKey\<close> adds the filter on keys (the tombstones) to the filter on positions.\<close>

definition composeIdxKey :: "segment \<Rightarrow> (nat \<Rightarrow> bool) \<Rightarrow> (bytes \<Rightarrow> bool) option \<Rightarrow> nat \<Rightarrow> bool" where
  "composeIdxKey seg pred keep i =
     (case keep of None \<Rightarrow> pred i | Some f \<Rightarrow> if \<not> pred i then False else f (sg_keys seg ! i))"

text \<open>The count of matching positions stops once it is above the budget.\<close>

function count_matched :: "(nat \<Rightarrow> bool) \<Rightarrow> nat \<Rightarrow> nat \<Rightarrow> int \<Rightarrow> int \<Rightarrow> int" where
  "count_matched pred i en matched budget =
     (if i < en \<and> matched \<le> budget then
        count_matched pred (Suc i) en (if pred i then matched + 1 else matched) budget
      else matched)"
  by pat_completeness auto
termination by (relation "measure (\<lambda>(_, i, en, _, _). en - i)") auto

declare count_matched.simps [simp del]

definition residual_selective :: "segment \<Rightarrow> (nat \<Rightarrow> bool) \<Rightarrow> nat \<Rightarrow> nat \<Rightarrow> int \<Rightarrow> bool" where
  "residual_selective seg pred start en efSearch =
     (let budget = residualBruteBudget seg efSearch in
      if budget > 0 then
        (let matched = count_matched pred start en 0 budget in
         matched \<le> budget \<and> matched * residualBruteSelDenom \<le> int en - int start)
      else False)"

text \<open>\<open>searchFilterFrozen\<close>; \<open>walk\<close> is \<open>searchWithIdx\<close>, the search over the graph for the positions a
  predicate accepts.\<close>

definition searchFilterFrozen :: "segment \<Rightarrow> ((nat \<Rightarrow> bool) \<Rightarrow> frozen_result list) \<Rightarrow> (f32 list \<Rightarrow> f32) \<Rightarrow> nat \<Rightarrow> int
    \<Rightarrow> bytes \<Rightarrow> vfilter \<Rightarrow> (bytes \<Rightarrow> bool) option \<Rightarrow> frozen_result list" where
  "searchFilterFrozen seg walk dist K efSearch pa f keep =
     (case compile (sg_attrs seg) f pa of
        None \<Rightarrow> []
      | Some pred \<Rightarrow>
          (case (if pa = [] then None else map_of (Eq f) pa) of
             None \<Rightarrow> walk pred
           | Some pv \<Rightarrow>
               (case (sg_cat seg, sg_attrs seg) of
                  (Some cat, Some sa) \<Rightarrow>
                    (case map_of (sa_dict sa) pa of
                       None \<Rightarrow> []
                     | Some d \<Rightarrow>
                         (case dict_lookup d pv of
                            None \<Rightarrow> []
                          | Some c \<Rightarrow>
                              (case cat_Lookup cat (ucast c) of
                                 None \<Rightarrow> []
                               | Some r \<Rightarrow>
                                   if Kind r = IndexBrute \<or> residual_selective seg pred (Start r) (End r) efSearch then
                                     bruteRangeAttr seg dist K (Start r) (End r) (composeIdxKey seg pred keep)
                                   else walk (\<lambda>i. \<not> (i < Start r \<or> End r \<le> i) \<and> pred i))))
                | _ \<Rightarrow> [])))"

subsection \<open>The exact walk\<close>

definition result_at :: "segment \<Rightarrow> (f32 list \<Rightarrow> f32) \<Rightarrow> nat \<Rightarrow> frozen_result" where
  "result_at seg dist i = \<lparr>rkey = sg_keys seg ! i, rdist = dist (sg_rows seg ! i)\<rparr>"

lemma brute_fold:
  "foldl (brute_step seg dist K pred) best is =
   foldl (\<lambda>best c. insertTopK best K (rkey c) (rdist c)) best
     (map (result_at seg dist) (filter (\<lambda>i. pred i \<and> sg_keys seg ! i \<noteq> []) is))"
  by (induction "is" arbitrary: best) (simp_all add: brute_step_def result_at_def)

lemma bruteRangeAttr_block:
  assumes "\<forall>i \<in> {start..<en}. \<not> f32_nan (dist (sg_rows seg ! i))"
  shows "bruteRangeAttr seg dist K start en pred =
    take K (ranked (map (result_at seg dist) (filter (\<lambda>i. pred i \<and> sg_keys seg ! i \<noteq> []) [start..<en])))"
proof (cases "K = 0 \<or> en \<le> start")
  case True
  then show ?thesis by (auto simp: bruteRangeAttr_def ranked_def)
next
  case False
  then show ?thesis unfolding bruteRangeAttr_def brute_fold
    using assms by (subst topK_fold) (auto simp: result_at_def)
qed

text \<open>A block of the sorted entries, seen through a filter that only its tenant can pass, is the filter
  over the entries in their first order.\<close>

lemma filter_sort_key_block:
  fixes f :: "'a \<Rightarrow> 'b::linorder"
  assumes "\<And>e. e \<in> set es \<Longrightarrow> P e \<Longrightarrow> f e = c"
  shows "filter P (sort_key f es) = filter P es"
proof -
  have "filter P xs = filter P (filter (\<lambda>e. f e = c) xs)" if "set xs = set es" for xs
    unfolding filter_filter using assms that by (intro filter_cong) auto
  from this[of "sort_key f es"] this[of es] show ?thesis by (simp add: sort_key_stable)
qed

lemma filter_block:
  assumes "\<And>j. j < length xs \<Longrightarrow> P j \<Longrightarrow> s \<le> j \<and> j < t" "t \<le> length xs"
  shows "filter P [s..<t] = filter P [0..<length xs]"
proof (cases "s \<le> t")
  case True
  have "[0..<length xs] = [0..<s] @ [s..<t] @ [t..<length xs]"
  proof -
    have "[0..<length xs] = [0..<t] @ [t..<length xs]" "[0..<t] = [0..<s] @ [s..<t]"
      using True assms(2) upt_add_eq_append[of 0 t "length xs - t"] upt_add_eq_append[of 0 s "t - s"] by simp_all
    then show ?thesis by simp
  qed
  moreover have "filter P [0..<s] = []" "filter P [t..<length xs] = []"
    using assms True by (auto simp: filter_empty_conv) (meson leD le_trans order_less_le_trans)+
  ultimately show ?thesis by simp
next
  case False
  then have "filter P [0..<length xs] = []"
    using assms(1) by (auto simp: filter_empty_conv) (meson less_trans not_le)
  with False show ?thesis by simp
qed

lemma map_filter_nth: "map (\<lambda>i. g (xs ! i)) (filter (\<lambda>i. P (xs ! i)) [0..<length xs]) = map g (filter P xs)"
proof -
  have "map (\<lambda>i. g (xs ! i)) (filter (\<lambda>i. P (xs ! i)) [0..<length xs]) =
      map g (filter P (map ((!) xs) [0..<length xs]))"
    by (simp add: filter_map comp_def)
  then show ?thesis by (simp add: map_nth)
qed

text \<open>The partition column uses the dictionary of the layout as it is.\<close>

lemma fill_codes_known:
  "\<forall>e \<in> set es. \<forall>v. map_of (Cat (Attrs e)) n = Some v \<longrightarrow> map_of (code d) v \<noteq> None \<Longrightarrow>
   snd (fill_codes n es d) = d"
  by (induction es) (auto simp: case_prod_unfold Let_def intern_known split: option.splits)

text \<open>What the search in the segment must return: the entries that pass the filter.\<close>

definition passes :: "bytes \<Rightarrow> bytes \<Rightarrow> vfilter \<Rightarrow> (bytes \<Rightarrow> bool) option \<Rightarrow> delta_entry \<Rightarrow> bool" where
  "passes pa pv f keep e \<longleftrightarrow>
     cat_get (Attrs e) pa = pv \<and> matchAttrs (Attrs e) f pa \<and> no_empty_default (Attrs e) f pa \<and>
     (case keep of None \<Rightarrow> True | Some k \<Rightarrow> k (Key e))"

definition entry_result :: "(f32 list \<Rightarrow> f32) \<Rightarrow> delta_entry \<Rightarrow> frozen_result" where
  "entry_result dist e = \<lparr>rkey = Key e, rdist = dist (Vec e)\<rparr>"

lemma ucast_code_inj: "(ucast (a :: 32 word) :: 64 word) = ucast b \<longleftrightarrow> a = b"
proof -
  have "unat (ucast x :: 64 word) = unat x" for x :: "32 word"
    using unsigned_less[of x, where ?'a = nat] by (simp add: unsigned_ucast_eq take_bit_nat_eq_self_iff)
  then show ?thesis by (metis word_unat_eq_iff)
qed

text \<open>The block of a tenant in the layout: its positions are those of the entries with its value.\<close>

lemma tenant_block:
  assumes lib: "lib_ok lib" "3 * length es < 2 ^ 32" and pa: "PartitionAttr cfg = pa" "pa \<noteq> []"
    and l: "tenant_layout cfg lib es = (es1, codes, presets)"
    and pv: "map_of (code (part_dict lib pa es)) pv = Some c"
    and ok: "cat_ok thr cs (length es1) m" and cs: "codes = Some cs"
  shows "case map_of m (ucast c) of
      None \<Rightarrow> filter (\<lambda>e. cat_get (Attrs e) pa = pv) es1 = []
    | Some r \<Rightarrow> End r \<le> length es1 \<and>
        (\<forall>j < length es1. cat_get (Attrs (es1 ! j)) pa = pv \<longleftrightarrow> Start r \<le> j \<and> j < End r) \<and>
        Kind r = (if int (length (filter (\<lambda>e. cat_get (Attrs e) pa = pv) es1)) > thr then IndexGraph else IndexBrute)"
proof -
  let ?pd = "part_dict lib pa es"
  note wf = part_dict_ok(1)[OF lib, of pa]
  have es1: "set es1 = set es" using tenant_layout_ok(1)[OF lib l] by (metis set_mset_mset)
  have cs': "cs = map (part_code ?pd pa) es1"
    using l pa cs by (auto simp: tenant_layout_def Let_def)
  have code: "cs ! j = ucast c \<longleftrightarrow> cat_get (Attrs (es1 ! j)) pa = pv" if j: "j < length es1" for j
  proof -
    have "es1 ! j \<in> set es" using nth_mem[OF j] es1 by simp
    then obtain c' where c': "map_of (code ?pd) (cat_get (Attrs (es1 ! j)) pa) = Some c'"
      using part_dict_ok(3)[OF lib, of "es1 ! j" pa] by blast
    have "cs ! j = ucast c'" using j by (simp add: cs' part_code_known[OF c'])
    moreover have "(ucast c' :: 64 word) = ucast c \<longleftrightarrow> c' = c"
      by (rule ucast_code_inj)
    moreover have "c' = c \<longleftrightarrow> cat_get (Attrs (es1 ! j)) pa = pv"
    proof
      assume "c' = c"
      with dict_wf_inj[OF wf c'] pv show "cat_get (Attrs (es1 ! j)) pa = pv" by simp
    next
      assume "cat_get (Attrs (es1 ! j)) pa = pv"
      with c' pv show "c' = c" by simp
    qed
    ultimately show ?thesis by simp
  qed
  have len: "length cs = length es1" by (simp add: cs')
  show ?thesis
  proof (cases "map_of m (ucast c)")
    case None
    then have "ucast c \<notin> set (take (length es1) cs)"
      using ok unfolding cat_ok_def by (smt (verit) option.simps(4))
    then have "ucast c \<noteq> cs ! j" if "j < length es1" for j
      using len that by (metis nth_mem order_refl take_all)
    with code have "\<forall>j < length es1. cat_get (Attrs (es1 ! j)) pa \<noteq> pv" by metis
    then have "filter (\<lambda>e. cat_get (Attrs e) pa = pv) es1 = []"
      by (metis (mono_tags, lifting) filter_False in_set_conv_nth)
    with None show ?thesis by simp
  next
    case (Some r)
    have r: "End r \<le> length es1" "Start r < End r" "\<forall>j < length cs. cs ! j = ucast c \<longleftrightarrow> Start r \<le> j \<and> j < End r"
      "Kind r = (if int (End r) - int (Start r) > thr then IndexGraph else IndexBrute)"
      using ok Some unfolding cat_ok_def by (smt (verit) option.simps(5))+
    have blk: "\<forall>j < length es1. cat_get (Attrs (es1 ! j)) pa = pv \<longleftrightarrow> Start r \<le> j \<and> j < End r"
      using r(3) len code by metis
    have "length (filter (\<lambda>e. cat_get (Attrs e) pa = pv) es1) =
        length (filter (\<lambda>j. cat_get (Attrs (es1 ! j)) pa = pv) [0..<length es1])"
      using map_filter_nth[of id es1 "\<lambda>e. cat_get (Attrs e) pa = pv"] by (metis length_map)
    also have "\<dots> = length (filter (\<lambda>j. cat_get (Attrs (es1 ! j)) pa = pv) [Start r..<End r])"
      using blk r(1) by (subst filter_block[symmetric]) auto
    also have "\<dots> = End r - Start r"
    proof -
      have "filter (\<lambda>j. cat_get (Attrs (es1 ! j)) pa = pv) [Start r..<End r] = [Start r..<End r]"
        using blk r(1) by (auto simp: filter_id_conv)
      then show ?thesis by simp
    qed
    finally show ?thesis using Some r blk by simp
  qed
qed

text \<open>From the block to the entries.\<close>

lemma block_results:
  assumes keys: "sg_keys seg = map Key es1" and rows: "sg_rows seg = map Vec es1"
    and ne: "\<forall>e \<in> set es1. Key e \<noteq> []" and en: "en \<le> length es1"
    and blk: "\<And>j. j < length es1 \<Longrightarrow> Q (es1 ! j) \<longleftrightarrow> st \<le> j \<and> j < en"
    and pred: "\<And>j. j < length es1 \<Longrightarrow> pred j \<longleftrightarrow> R (es1 ! j)"
  shows "map (result_at seg dist) (filter (\<lambda>i. pred i \<and> sg_keys seg ! i \<noteq> []) [st..<en]) =
    map (entry_result dist) (filter (\<lambda>e. Q e \<and> R e) es1)"
proof -
  have "filter (\<lambda>i. pred i \<and> sg_keys seg ! i \<noteq> []) [st..<en] = filter (\<lambda>i. Q (es1 ! i) \<and> R (es1 ! i)) [st..<en]"
    using keys ne en blk pred by (intro filter_cong) auto
  also have "\<dots> = filter (\<lambda>i. Q (es1 ! i) \<and> R (es1 ! i)) [0..<length es1]"
    using blk en by (intro filter_block) auto
  finally have "map (result_at seg dist) (filter (\<lambda>i. pred i \<and> sg_keys seg ! i \<noteq> []) [st..<en]) =
      map (result_at seg dist) (filter (\<lambda>i. Q (es1 ! i) \<and> R (es1 ! i)) [0..<length es1])" by simp
  also have "\<dots> = map (\<lambda>i. entry_result dist (es1 ! i)) (filter (\<lambda>i. Q (es1 ! i) \<and> R (es1 ! i)) [0..<length es1])"
    using keys rows by (intro map_cong) (auto simp: result_at_def entry_result_def)
  also have "\<dots> = map (entry_result dist) (filter (\<lambda>e. Q e \<and> R e) es1)"
    by (rule map_filter_nth)
  finally show ?thesis .
qed

lemma cat_get_Some: "v \<noteq> [] \<Longrightarrow> cat_get a n = v \<longleftrightarrow> map_of (Cat a) n = Some v"
  by (auto simp: cat_get_def split: option.splits)

lemma filter_search_sorted:
  assumes lib: "lib_ok lib" "3 * length es < 2 ^ 32" and es: "es \<noteq> []" "\<forall>e \<in> set es. Key e \<noteq> []"
    and cfg: "PartitionAttr cfg = pa" "pa \<noteq> []" "\<not> UseSQ cfg"
    and f: "map_of (Eq f) pa = Some pv" "pv \<noteq> []"
    and small: "int (length (filter (\<lambda>e. cat_get (Attrs e) pa = pv) es)) \<le> effectiveBruteThreshold (BruteThreshold cfg) (int dim)"
    and nan: "\<forall>e \<in> set es. \<not> f32_nan (dist (Vec e))"
    and l: "tenant_layout cfg lib es = (es1, codes, presets)" and seg: "buildSegment cfg lib es dim = Some seg"
  shows "searchFilterFrozen seg walk dist K efSearch pa f keep =
    take K (ranked (map (entry_result dist) (filter (passes pa pv f keep) es1)))"
proof -
  let ?pd = "part_dict lib pa es" and ?thr = "effectiveBruteThreshold (BruteThreshold cfg) (int dim)"
  have none: "take K (ranked (map (entry_result dist) (filter (passes pa pv f keep) es1))) = []"
    if "\<forall>e \<in> set es1. \<not> passes pa pv f keep e"
    using that by (simp add: filter_False ranked_def)
  note lay = tenant_layout_ok[OF lib l]
  have es1: "set es1 = set es" using lay(1) by (metis set_mset_mset)
  obtain cs where codes: "codes = Some cs" and pre: "presets = [(pa, ?pd)]"
    using l cfg by (auto simp: tenant_layout_def Let_def)
  obtain cat where sg: "sg_keys seg = map Key es1" "sg_rows seg = map Vec es1"
      "sg_attrs seg = buildSegmentAttrs es1 presets" "sg_cat seg = Some cat" "cat_ok ?thr cs (length es1) (ranges cat)"
    using buildSegment_ok[OF lib es(1) l, of dim] codes seg cfg(3) by (metis option.inject)
  note match = compile_matches[OF lay(3), of _ f pa]
  have known: "\<forall>e \<in> set es1. \<forall>v. map_of (Cat (Attrs e)) pa = Some v \<longrightarrow> map_of (code (preset presets pa)) v \<noteq> None"
  proof (intro ballI allI impI)
    fix e v assume "e \<in> set es1" and v: "map_of (Cat (Attrs e)) pa = Some v"
    with es1 have "map_of (code (part_dict lib pa es)) (cat_get (Attrs e) pa) \<noteq> None"
      by (intro part_dict_ok(3)[OF lib]) simp
    with v show "map_of (code (preset presets pa)) v \<noteq> None" by (simp add: pre preset_def cat_get_def)
  qed
  have pd: "preset presets pa = ?pd" by (simp add: pre preset_def)
  have filt: "length (filter (\<lambda>e. cat_get (Attrs e) pa = pv) es1) = length (filter (\<lambda>e. cat_get (Attrs e) pa = pv) es)"
    using lay(1) by (metis mset_filter size_mset)
  show ?thesis
  proof (cases "compile (sg_attrs seg) f pa")
    case None
    then have "\<forall>e \<in> set es1. \<not> passes pa pv f keep e"
      using match sg(3) by (auto simp: in_set_conv_nth passes_def)
    with none None show ?thesis by (simp add: searchFilterFrozen_def)
  next
    case (Some pred)
    have pred: "pred j \<longleftrightarrow> matchAttrs (Attrs (es1 ! j)) f pa \<and> no_empty_default (Attrs (es1 ! j)) f pa"
      if "j < length es1" for j
      using match[OF that] Some sg(3) by simp
    show ?thesis
    proof (cases "sg_attrs seg")
      case no_attrs: None
      then have "\<forall>e \<in> set es1. \<not> passes pa pv f keep e"
        using built_None[of es1 presets] sg(3) f(2) by (auto simp: passes_def cat_get_def)
      with none Some no_attrs f(1) cfg(2) sg(4) show ?thesis by (simp add: searchFilterFrozen_def)
    next
      case attrs: (Some sa)
      with sg(3) have built: "buildSegmentAttrs es1 presets = Some sa" by simp
      have dct: "map_of (sa_dict sa) pa = (if pa \<in> set (cat_names es1) then Some ?pd else None)"
        using built_cols(2)[OF built, of pa] fill_codes_known[OF known] pd by simp
      show ?thesis
      proof (cases "pa \<in> set (cat_names es1)")
        case False
        have "map_of (Cat (Attrs e)) pa \<noteq> Some pv" if "e \<in> set es1" for e
          using in_cat_names[OF that, of pa pv] False by blast
        then have "\<forall>e \<in> set es1. \<not> passes pa pv f keep e"
          using f(2) by (simp add: passes_def cat_get_Some)
        with none Some attrs f(1) cfg(2) sg(4) dct False show ?thesis by (simp add: searchFilterFrozen_def)
      next
        case True
        show ?thesis
        proof (cases "map_of (code ?pd) pv")
          case unknown: None
          have "\<not> passes pa pv f keep e" if "e \<in> set es1" for e
            using part_dict_ok(3)[OF lib, of e pa] that es1 unknown by (auto simp: passes_def)
          then have "\<forall>e \<in> set es1. \<not> passes pa pv f keep e" by blast
          with none Some attrs f(1) cfg(2) sg(4) dct True unknown show ?thesis
            by (simp add: searchFilterFrozen_def dict_lookup_def)
        next
          case c: (Some c)
          note blk = tenant_block[OF lib cfg(1,2) l c sg(5) codes]
          show ?thesis
          proof (cases "map_of (ranges cat) (ucast c)")
            case no_range: None
            with blk have "\<forall>e \<in> set es1. \<not> passes pa pv f keep e"
              by (auto simp: passes_def filter_empty_conv)
            with none Some attrs f(1) cfg(2) sg(4) dct True c no_range show ?thesis
              by (simp add: searchFilterFrozen_def dict_lookup_def cat_Lookup_def)
          next
            case r: (Some r)
            with blk have r1: "End r \<le> length es1"
              "\<And>j. j < length es1 \<Longrightarrow> cat_get (Attrs (es1 ! j)) pa = pv \<longleftrightarrow> Start r \<le> j \<and> j < End r"
              "Kind r = IndexBrute"
              using small filt by auto
            define R where "R e \<longleftrightarrow> matchAttrs (Attrs e) f pa \<and> no_empty_default (Attrs e) f pa \<and>
                (case keep of None \<Rightarrow> True | Some k \<Rightarrow> k (Key e))" for e :: delta_entry
            have predR: "composeIdxKey seg pred keep j \<longleftrightarrow> R (es1 ! j)" if "j < length es1" for j
              using that pred[OF that] sg(1) by (auto simp: composeIdxKey_def R_def split: option.splits)
            have "searchFilterFrozen seg walk dist K efSearch pa f keep =
                bruteRangeAttr seg dist K (Start r) (End r) (composeIdxKey seg pred keep)"
              using Some attrs f(1) cfg(2) sg(4) dct True c r r1(3)
              by (simp add: searchFilterFrozen_def dict_lookup_def cat_Lookup_def)
            also have "\<dots> = take K (ranked (map (result_at seg dist)
                (filter (\<lambda>i. composeIdxKey seg pred keep i \<and> sg_keys seg ! i \<noteq> []) [Start r..<End r])))"
              by (rule bruteRangeAttr_block) (use nan es1 sg(2) r1(1) in auto)
            also have "\<dots> = take K (ranked (map (entry_result dist)
                (filter (\<lambda>e. cat_get (Attrs e) pa = pv \<and> R e) es1)))"
              using es(2) es1 r1(1,2) predR
              by (subst block_results[OF sg(1,2), where Q = "\<lambda>e. cat_get (Attrs e) pa = pv" and R = R]) auto
            finally show ?thesis by (simp add: R_def passes_def[abs_def])
          qed
        qed
      qed
    qed
  qed
qed

lemma passes_layout:
  assumes lib: "lib_ok lib" "3 * length es < 2 ^ 32" and cfg: "PartitionAttr cfg = pa" "pa \<noteq> []"
    and l: "tenant_layout cfg lib es = (es1, codes, presets)"
  shows "filter (passes pa pv f keep) es1 = filter (passes pa pv f keep) es"
proof -
  have "es1 = sort_key (part_code (part_dict lib pa es) pa) es"
    using l cfg by (auto simp: tenant_layout_def sortEntriesByTenant_def Let_def)
  moreover have "part_code (part_dict lib pa es) pa e = ucast (fst (intern (part_dict lib pa es) pv))"
    if "passes pa pv f keep e" for e
    using that by (simp add: part_code_def passes_def)
  ultimately show ?thesis by (simp add: filter_sort_key_block)
qed


definition ex_lib :: vlib where
  "ex_lib = \<lparr>sort_seen = (\<lambda>_. []), shuffle = (\<lambda>n. rev [0..<n]), sq8 = id\<rparr>"

definition ex_cfg :: vconfig where
  "ex_cfg = \<lparr>TenantOf = None, PartitionAttr = ''t'', BruteThreshold = 0, UseSQ = False\<rparr>"

definition ex_entry :: "bytes \<Rightarrow> f32 \<Rightarrow> bytes \<Rightarrow> f64 \<Rightarrow> delta_entry" where
  "ex_entry k v t p = \<lparr>Key = k, Vec = [v], Attrs = \<lparr>Cat = [(''t'', t)], Num = [(''p'', p)]\<rparr>, Terms = []\<rparr>"

definition ex_entries :: "delta_entry list" where
  "ex_entries = [ex_entry ''a'' 3 ''x'' f64_one, ex_entry ''b'' 1 ''y'' f64_one,
     ex_entry ''c'' 2 ''x'' f64_two, ex_entry ''d'' 1 ''x'' f64_one]"

lemma ex_lib_ok: "lib_ok ex_lib"
  by (auto simp: lib_ok_def ex_lib_def)


end
