(* ===== verification/VecKeys.thy ===== *)
theory VecKeys
  imports Prelude
begin

text \<open>
  The key table of a frozen segment (\<open>vector/interned_keys.go\<close>): all keys in one block of bytes, the
  offsets as 32-bit words, and the permutation of the indices that sorts the keys, which \<open>find\<close>
  searches. The lemmas show that a table built from less than \<open>2 ^ 32\<close> bytes gives every key back and
  that \<open>find\<close> answers the one index of a key. Nothing in the code checks the bound.
\<close>

record interned_keys =
  blob :: bytes
  offs :: "32 word list"
  ik_sorted :: "32 word list"

definition ik_count :: "32 word list \<Rightarrow> nat" where
  "ik_count os = (if os = [] then 0 else length os - 1)"

text \<open>The bytes between two offsets; the difference is taken on 32 bits.\<close>

definition ik_slice :: "bytes \<Rightarrow> 32 word list \<Rightarrow> nat \<Rightarrow> bytes" where
  "ik_slice b os i =
     (let s = os ! i; e = os ! Suc i in
      if s = e then [] else take (unat (e - s)) (drop (unat s) b))"

definition ik_view :: "interned_keys \<Rightarrow> nat \<Rightarrow> bytes" where
  "ik_view k i = ik_slice (blob k) (offs k) i"

text \<open>\<open>sort.Slice\<close> with the order of the keys. It leaves the order of equal keys open; only empty keys
  can be equal, and those are never looked up.\<close>

definition newInternedKeys :: "bytes \<Rightarrow> 32 word list \<Rightarrow> interned_keys" where
  "newInternedKeys b os =
     \<lparr>blob = b, offs = os, ik_sorted = map word_of_nat (sort_key (ik_slice b os) [0..<ik_count os])\<rparr>"

fun intern_loop :: "bytes list \<Rightarrow> bytes \<Rightarrow> 32 word list \<Rightarrow> bytes \<times> 32 word list" where
  "intern_loop [] b os = (b, os)"
| "intern_loop (s # ss) b os = intern_loop ss (b @ s) (os @ [word_of_nat (length (b @ s))])"

definition buildInternedKeys :: "bytes list \<Rightarrow> interned_keys" where
  "buildInternedKeys ks = (let (b, os) = intern_loop ks [] [0] in newInternedKeys b os)"

definition ik_find :: "interned_keys \<Rightarrow> bytes \<Rightarrow> nat option" where
  "ik_find k key =
     (if key = [] \<or> ik_sorted k = [] then None
      else
        (let lo = sort_search (length (ik_sorted k)) (\<lambda>m. \<not> ik_view k (unat (ik_sorted k ! m)) < key) in
         if lo < length (ik_sorted k) \<and> ik_view k (unat (ik_sorted k ! lo)) = key
         then Some (unat (ik_sorted k ! lo)) else None))"

lemma unat_w32: "i < 2 ^ 32 \<Longrightarrow> unat (word_of_nat i :: 32 word) = i"
  by (simp add: unat_of_nat take_bit_nat_eq_self)

subsection \<open>The table gives the keys back\<close>

definition key_bytes :: "bytes list \<Rightarrow> nat" where
  "key_bytes ks = sum_list (map length ks)"

lemma intern_loop_eq:
  "intern_loop ks b os = (b @ concat ks,
     os @ map (\<lambda>i. word_of_nat (length b + key_bytes (take (Suc i) ks))) [0..<length ks])"
proof (induction ks arbitrary: b os)
  case Nil
  then show ?case by simp
next
  case (Cons s ss)
  have step: "map (\<lambda>i. word_of_nat (length b + key_bytes (take (Suc i) (s # ss)))) [0..<length (s # ss)] =
      word_of_nat (length (b @ s)) #
      map (\<lambda>i. word_of_nat (length (b @ s) + key_bytes (take (Suc i) ss))) [0..<length ss]"
    unfolding length_Cons upt_conv_Cons[OF zero_less_Suc]
    by (simp add: key_bytes_def map_Suc_upt[symmetric] comp_def add.assoc del: upt_Suc)
  show ?case unfolding step using Cons.IH[of "b @ s" "os @ [word_of_nat (length (b @ s))]"] by simp
qed

lemma built_offs:
  assumes "i \<le> length ks"
  shows "offs (buildInternedKeys ks) ! i = word_of_nat (key_bytes (take i ks))"
    and "blob (buildInternedKeys ks) = concat ks" and "ik_count (offs (buildInternedKeys ks)) = length ks"
  using assms
  by (cases i; simp add: buildInternedKeys_def intern_loop_eq newInternedKeys_def key_bytes_def ik_count_def)+

lemma key_bytes_take_le: "key_bytes (take i ks) \<le> key_bytes ks"
  by (metis append_take_drop_id key_bytes_def le_add1 map_append sum_list_append)

lemma concat_take: "take (key_bytes (take i ks)) (concat ks) = concat (take i ks)"
proof -
  have "key_bytes (take i ks) = length (concat (take i ks))"
    by (simp add: key_bytes_def length_concat)
  then show ?thesis by (metis append_eq_conv_conj append_take_drop_id concat_append)
qed

lemma view_built:
  assumes small: "key_bytes ks < 2 ^ 32" and i: "i < length ks"
  shows "ik_view (buildInternedKeys ks) i = ks ! i"
proof -
  let ?a = "key_bytes (take i ks)"
  have step: "key_bytes (take (Suc i) ks) = ?a + length (ks ! i)"
    using i by (simp add: key_bytes_def take_Suc_conv_app_nth)
  then have le: "?a + length (ks ! i) < 2 ^ 32" using key_bytes_take_le[of "Suc i" ks] small by simp
  have o: "offs (buildInternedKeys ks) ! i = word_of_nat ?a"
    "offs (buildInternedKeys ks) ! Suc i = word_of_nat (?a + length (ks ! i))"
    using built_offs(1)[of i ks] built_offs(1)[of "Suc i" ks] i step by simp_all
  have d: "drop ?a (concat ks) = ks ! i @ concat (drop (Suc i) ks)"
  proof -
    have "concat ks = concat (take i ks) @ ks ! i @ concat (drop (Suc i) ks)"
      using id_take_nth_drop[OF i] by (metis concat.simps(2) concat_append)
    moreover have "length (concat (take i ks)) = ?a" by (simp add: key_bytes_def length_concat)
    ultimately show ?thesis by simp
  qed
  have u: "unat (word_of_nat ?a :: 32 word) = ?a" using le by (intro unat_w32) simp
  have "word_of_nat (?a + length (ks ! i)) - word_of_nat ?a = (word_of_nat (length (ks ! i)) :: 32 word)"
    by simp
  moreover have "unat (word_of_nat (length (ks ! i)) :: 32 word) = length (ks ! i)"
    using le by (intro unat_w32) simp
  moreover have "ks ! i = []" if "(word_of_nat ?a :: 32 word) = word_of_nat (?a + length (ks ! i))"
    using that calculation by (metis cancel_comm_monoid_add_class.diff_cancel length_0_conv unat_0)
  ultimately show ?thesis
    using built_offs(2)[of i ks] i
    by (auto simp: ik_view_def ik_slice_def o u d Let_def)
qed

subsection \<open>The search\<close>

lemma find_built:
  assumes small: "key_bytes ks < 2 ^ 32" "length ks < 2 ^ 32"
    and uniq: "\<And>i j. i < length ks \<Longrightarrow> j < length ks \<Longrightarrow> ks ! i = key \<Longrightarrow> ks ! j = key \<Longrightarrow> i = j"
    and key: "key \<noteq> []"
  shows "ik_find (buildInternedKeys ks) key = Some i \<longleftrightarrow> i < length ks \<and> ks ! i = key"
proof -
  let ?k = "buildInternedKeys ks" and ?n = "length ks"
  define p where "p = sort_key (ik_slice (blob ?k) (offs ?k)) [0..<?n]"
  have cnt: "ik_count (offs ?k) = ?n" using built_offs(3)[of 0 ks] by simp
  have srt: "ik_sorted ?k = map word_of_nat p"
    using cnt by (simp add: p_def buildInternedKeys_def newInternedKeys_def case_prod_unfold Let_def)
  have set_p: "set p = {..<?n}" and len_p: "length p = ?n" by (auto simp: p_def)
  have slice: "ik_slice (blob ?k) (offs ?k) = ik_view ?k" by (simp add: ik_view_def fun_eq_iff)
  have at: "unat (ik_sorted ?k ! m) = p ! m" "p ! m < ?n" if "m < ?n" for m
  proof -
    have "p ! m \<in> set p" using that len_p by simp
    then show lt: "p ! m < ?n" using set_p by simp
    have "unat (word_of_nat (p ! m) :: 32 word) = p ! m" using lt small(2) by (intro unat_w32) simp
    then show "unat (ik_sorted ?k ! m) = p ! m" using that len_p srt by simp
  qed
  have v: "ik_view ?k (p ! m) = ks ! (p ! m)" if "m < ?n" for m
    using view_built[OF small(1) at(2)[OF that]] .
  have sorted: "sorted (map (\<lambda>j. ks ! j) p)"
  proof -
    have "map (ik_view ?k) p = map (\<lambda>j. ks ! j) p"
      using view_built[OF small(1)] set_p by (intro map_cong) auto
    moreover have "sorted (map (ik_view ?k) p)" unfolding p_def slice by (rule sorted_sort_key)
    ultimately show ?thesis by (rule subst)
  qed
  define f where "f m \<longleftrightarrow> \<not> ik_view ?k (unat (ik_sorted ?k ! m)) < key" for m
  have f: "f m \<longleftrightarrow> \<not> ks ! (p ! m) < key" if "m < ?n" for m
    using that at v by (simp add: f_def)
  have mono: "f b" if "a \<le> b" "b < ?n" "f a" for a b
  proof -
    have "ks ! (p ! a) \<le> ks ! (p ! b)"
      using sorted_nth_mono[OF sorted, of a b] that len_p by simp
    with that f[of a] f[of b] show ?thesis by auto
  qed
  define lo where "lo = sort_search ?n f"
  note lo = sort_search_correct[of ?n f, OF mono, folded lo_def]
  have found: "lo < ?n \<and> p ! lo = i" if "i < ?n" "ks ! i = key" for i
  proof -
    have "i \<in> set p" using that(1) set_p by simp
    then obtain m where m: "m < ?n" "p ! m = i" unfolding in_set_conv_nth len_p by blast
    then have "f m" using f that(2) by simp
    then have le: "lo \<le> m" using lo(2)[where a = m] by (cases "m < lo") simp_all
    with m have lt: "lo < ?n" by simp
    from lo(3)[where b = lo] lt have "f lo" by simp
    then have "key \<le> ks ! (p ! lo)" using f[OF lt] by simp
    moreover have "ks ! (p ! lo) \<le> ks ! (p ! m)"
      using sorted_nth_mono[OF sorted le] m(1) len_p lt by simp
    ultimately have "ks ! (p ! lo) = key" using m(2) that(2) by simp
    with uniq[of "p ! lo" i] that at(2)[OF lt] lt show ?thesis by simp
  qed
  have find: "ik_find ?k key = (if lo < ?n \<and> ks ! (p ! lo) = key then Some (p ! lo) else None)"
    using key len_p srt at v unfolding ik_find_def
    by (auto simp: Let_def lo_def f_def[abs_def])
  show ?thesis
    using find found[of i] at(2)[of lo] by (auto split: if_splits)
qed

lemma find_absent:
  assumes "key_bytes ks < 2 ^ 32" "length ks < 2 ^ 32" "key \<notin> set ks \<or> key = []"
  shows "ik_find (buildInternedKeys ks) key = None"
proof (cases "key = []")
  case True
  then show ?thesis by (simp add: ik_find_def)
next
  case False
  with assms have "key \<notin> set ks" by simp
  then have "\<not> (i < length ks \<and> ks ! i = key)" for i by auto
  with find_built[OF assms(1,2) _ False] show ?thesis by (metis option.exhaust)
qed

end
