(* ===== verification/VecDelta.thy ===== *)
theory VecDelta
  imports VecSeg VecKeys
begin

text \<open>
  The insertion buffer of the vector store (\<open>vector/delta.go\<close>): shards with a slab of slots, the index
  of keys, and a graph whose nodes carry the vectors; and what a flush reads of it, the entries
  (\<open>ExtractAll\<close>) or the frozen graphs. The slab is the list of its rows (a vector has the dimension of
  the store, which the caller has checked). Attributes and terms are aligned with the keys; the source
  aligns them lazily. The inverted text index of a shard and the edges of its graph are not modelled.
\<close>

record dshard =
  s_keys :: "bytes list"
  s_rows :: "f32 list list"
  s_attrs :: "attributes list"
  s_terms :: "term_tf list list"
  keyIdx :: "(bytes, nat) gomap"
  s_graph :: graph
  nodeKey :: "(nat, bytes) gomap"
  keyNode :: "(bytes, nat) gomap"

definition newDeltaShard :: dshard where
  "newDeltaShard = \<lparr>s_keys = [], s_rows = [], s_attrs = [], s_terms = [], keyIdx = [],
     s_graph = NewGraph, nodeKey = [], keyNode = []\<rparr>"

text \<open>A delta: identity, size limit, hash with its seed, shards, counters and the two marks.\<close>

record delta =
  d_id :: nat
  d_maxSize :: nat
  d_hash :: "bytes \<Rightarrow> nat"
  d_shards :: "dshard list"
  d_live :: nat
  d_slots :: nat
  attrsPresent :: bool
  textPresent :: bool

definition NewDeltaSegmentSharded :: "nat \<Rightarrow> nat \<Rightarrow> (bytes \<Rightarrow> nat) \<Rightarrow> nat \<Rightarrow> delta" where
  "NewDeltaSegmentSharded i maxSize h nShards =
     \<lparr>d_id = i, d_maxSize = maxSize, d_hash = h, d_shards = replicate (if nShards < 1 then 1 else nShards) newDeltaShard,
      d_live = 0, d_slots = 0, attrsPresent = False, textPresent = False\<rparr>"

definition delta_shardFor :: "delta \<Rightarrow> bytes \<Rightarrow> nat" where
  "delta_shardFor d key = (if length (d_shards d) = 1 then 0 else d_hash d key mod length (d_shards d))"

subsection \<open>Operations of a shard\<close>

text \<open>The graph part of an insertion: the node of an older version goes first.\<close>

definition shard_unlink :: "bytes \<Rightarrow> dshard \<Rightarrow> dshard" where
  "shard_unlink key s =
     (case map_of (keyNode s) key of
        None \<Rightarrow> s
      | Some g \<Rightarrow> s\<lparr>s_graph := graph_delete g (s_graph s), nodeKey := AList.delete g (nodeKey s)\<rparr>)"

definition shard_link :: "bytes \<Rightarrow> f32 list \<Rightarrow> dshard \<Rightarrow> dshard" where
  "shard_link key vec s =
     (let (g, gr) = graph_insert vec (s_graph s) in
      s\<lparr>s_graph := gr, keyNode := AList.update key g (keyNode s), nodeKey := AList.update g key (nodeKey s)\<rparr>)"

definition shard_append :: "bytes \<Rightarrow> f32 list \<Rightarrow> attributes \<Rightarrow> term_tf list \<Rightarrow> dshard \<Rightarrow> bool \<times> dshard" where
  "shard_append key vec a ts s =
     (case map_of (keyIdx s) key of
        Some slot \<Rightarrow>
          (False, shard_link key vec (shard_unlink key
             (s\<lparr>s_rows := (s_rows s)[slot := vec], s_attrs := (s_attrs s)[slot := a], s_terms := (s_terms s)[slot := ts]\<rparr>)))
      | None \<Rightarrow>
          (True, shard_link key vec
             (s\<lparr>s_rows := s_rows s @ [vec], s_keys := s_keys s @ [key], s_attrs := s_attrs s @ [a],
                keyIdx := AList.update key (length (s_keys s)) (keyIdx s), s_terms := s_terms s @ [ts]\<rparr>)))"

definition shard_delete :: "bytes \<Rightarrow> dshard \<Rightarrow> bool \<times> dshard" where
  "shard_delete key s =
     (case map_of (keyIdx s) key of
        None \<Rightarrow> (False, s)
      | Some i \<Rightarrow>
          (let s1 = s\<lparr>keyIdx := AList.delete key (keyIdx s), s_keys := (s_keys s)[i := []], s_terms := (s_terms s)[i := []]\<rparr>;
               s2 = shard_unlink key s1 in
           (True, s2\<lparr>keyNode := AList.delete key (keyNode s2)\<rparr>)))"

definition shard_entry :: "dshard \<Rightarrow> nat \<Rightarrow> delta_entry" where
  "shard_entry s i = \<lparr>Key = s_keys s ! i, Vec = s_rows s ! i, Attrs = s_attrs s ! i, Terms = s_terms s ! i\<rparr>"

definition shard_entries :: "dshard \<Rightarrow> delta_entry list" where
  "shard_entries s = map (shard_entry s) (filter (\<lambda>i. s_keys s ! i \<noteq> []) [0..<length (s_keys s)])"

subsection \<open>Operations of the delta\<close>

definition AppendDoc :: "bytes \<Rightarrow> f32 list \<Rightarrow> attributes \<Rightarrow> term_tf list \<Rightarrow> delta \<Rightarrow> bool \<times> delta" where
  "AppendDoc key vec a ts d =
     (let d1 = (if attrs_empty a then d else d\<lparr>attrsPresent := True\<rparr>);
          d2 = (if 0 < length ts then d1\<lparr>textPresent := True\<rparr> else d1);
          i = delta_shardFor d key;
          (new, s) = shard_append key vec a ts (d_shards d ! i);
          d3 = d2\<lparr>d_shards := (d_shards d)[i := s]\<rparr> in
      if new then (d_slots d + 1 = d_maxSize d, d3\<lparr>d_live := d_live d + 1, d_slots := d_slots d + 1\<rparr>)
      else (False, d3))"

definition delta_Delete :: "bytes \<Rightarrow> delta \<Rightarrow> bool \<times> delta" where
  "delta_Delete key d =
     (let i = delta_shardFor d key; (found, s) = shard_delete key (d_shards d ! i) in
      if found then (True, d\<lparr>d_shards := (d_shards d)[i := s], d_live := d_live d - 1\<rparr>) else (False, d))"

definition delta_Contains :: "delta \<Rightarrow> bytes \<Rightarrow> bool" where
  "delta_Contains d key = (map_of (keyIdx (d_shards d ! delta_shardFor d key)) key \<noteq> None)"

definition delta_Get :: "delta \<Rightarrow> bytes \<Rightarrow> f32 list option" where
  "delta_Get d key =
     (let s = d_shards d ! delta_shardFor d key in
      case map_of (keyIdx s) key of
        None \<Rightarrow> None
      | Some i \<Rightarrow> if s_keys s ! i = [] then None else Some (s_rows s ! i))"

definition delta_Full :: "delta \<Rightarrow> bool" where
  "delta_Full d \<longleftrightarrow> d_maxSize d \<le> d_slots d"

definition delta_ForEachLive :: "delta \<Rightarrow> (bytes \<times> f32 list) list" where
  "delta_ForEachLive d = concat (map (\<lambda>s. map (\<lambda>e. (Key e, Vec e)) (shard_entries s)) (d_shards d))"

definition ExtractAll :: "delta \<Rightarrow> delta_entry list" where
  "ExtractAll d = concat (map shard_entries (d_shards d))"

text \<open>The segments of a flush that freezes the graphs: one per shard with a living entry; the graph of
  a shard is frozen in the order of its nodes. Any failure gives nothing (\<open>None\<close>).\<close>

definition freeze_shard :: "vconfig \<Rightarrow> vlib \<Rightarrow> nat \<Rightarrow> dshard \<Rightarrow> segment option" where
  "freeze_shard cfg lib dim s =
     map_option (\<lambda>(rows, ks).
       \<lparr>sg_kind = (if UseSQ cfg then FrozenSQ else Frozen), sg_keys = ks,
        sg_rows = (if UseSQ cfg then sq8 lib rows else rows), sg_cat = None, sg_attrs = None, sg_text = None\<rparr>)
       (FreezeGraphOrdered dim (s_graph s) (nodeKey s) None)"

fun freeze_shards :: "vconfig \<Rightarrow> vlib \<Rightarrow> nat \<Rightarrow> dshard list \<Rightarrow> segment list option" where
  "freeze_shards cfg lib dim [] = Some []"
| "freeze_shards cfg lib dim (s # ss) =
     (if length (keyIdx s) = 0 then freeze_shards cfg lib dim ss
      else (case freeze_shard cfg lib dim s of
              None \<Rightarrow> None
            | Some seg \<Rightarrow> map_option (Cons seg) (freeze_shards cfg lib dim ss)))"

definition canFreeze :: "vconfig \<Rightarrow> nat \<Rightarrow> delta \<Rightarrow> bool" where
  "canFreeze cfg dim d \<longleftrightarrow> TenantOf cfg = None \<and> PartitionAttr cfg = [] \<and>
     \<not> attrsPresent d \<and> \<not> textPresent d \<and> (UseSQ cfg \<or> dim \<le> csrDimThreshold)"

text \<open>What a flush publishes: one segment from the only graph, one per shard, or one built from the
  entries.\<close>

definition flush_segments :: "vconfig \<Rightarrow> vlib \<Rightarrow> nat \<Rightarrow> delta \<Rightarrow> segment list option" where
  "flush_segments cfg lib dim d =
     (if canFreeze cfg dim d then
        (if length (d_shards d) = 1 then map_option (\<lambda>seg. [seg]) (freeze_shard cfg lib dim (d_shards d ! 0))
         else freeze_shards cfg lib dim (d_shards d))
      else map_option (\<lambda>seg. [seg]) (buildSegment cfg lib (ExtractAll d) dim))"

subsection \<open>Invariant\<close>

text \<open>The slots: one living slot per key. The graph: one living node per key, with its vector.\<close>

definition slots_ok :: "dshard \<Rightarrow> bool" where
  "slots_ok s \<longleftrightarrow> length (s_rows s) = length (s_keys s) \<and> length (s_attrs s) = length (s_keys s) \<and>
     length (s_terms s) = length (s_keys s) \<and> keys_distinct (keyIdx s) \<and>
     (\<forall>k i. map_of (keyIdx s) k = Some i \<longleftrightarrow> i < length (s_keys s) \<and> s_keys s ! i = k \<and> k \<noteq> [])"

definition alive_at :: "graph \<Rightarrow> nat \<Rightarrow> bool" where
  "alive_at g i \<longleftrightarrow> i < length (gnodes g) \<and> galive (gnodes g ! i)"

definition graph_ok :: "graph \<Rightarrow> bool" where
  "graph_ok g \<longleftrightarrow> distinct (freeIDs g) \<and>
     (\<forall>i. i \<in> set (freeIDs g) \<longleftrightarrow> i < length (gnodes g) \<and> \<not> alive_at g i)"

definition nodes_ok :: "dshard \<Rightarrow> bool" where
  "nodes_ok s \<longleftrightarrow> graph_ok (s_graph s) \<and>
     (\<forall>g k. map_of (nodeKey s) g = Some k \<longleftrightarrow> map_of (keyNode s) k = Some g) \<and>
     (\<forall>g. map_of (nodeKey s) g \<noteq> None \<longleftrightarrow> alive_at (s_graph s) g) \<and>
     (\<forall>k. map_of (keyNode s) k = None \<longleftrightarrow> map_of (keyIdx s) k = None) \<and>
     (\<forall>k g i. map_of (keyNode s) k = Some g \<longrightarrow> map_of (keyIdx s) k = Some i \<longrightarrow>
        gvec (gnodes (s_graph s) ! g) = s_rows s ! i)"

text \<open>What a shard answers for a key.\<close>

definition shard_view :: "dshard \<Rightarrow> bytes \<Rightarrow> delta_entry option" where
  "shard_view s k = map_option (shard_entry s) (map_of (keyIdx s) k)"

lemma slots_okD:
  assumes "slots_ok s" "map_of (keyIdx s) k = Some i"
  shows "i < length (s_keys s)" "s_keys s ! i = k" "k \<noteq> []"
  using assms unfolding slots_ok_def by blast+

lemma slots_ok_new [simp]: "slots_ok newDeltaShard"
  by (simp add: slots_ok_def newDeltaShard_def)

lemma nodes_ok_new [simp]: "nodes_ok newDeltaShard"
  by (simp add: nodes_ok_def newDeltaShard_def graph_ok_def NewGraph_def alive_at_def)

lemma link_fields [simp]:
  "s_keys (shard_link k v s) = s_keys s" "s_rows (shard_link k v s) = s_rows s"
  "s_attrs (shard_link k v s) = s_attrs s" "s_terms (shard_link k v s) = s_terms s"
  "keyIdx (shard_link k v s) = keyIdx s"
  by (simp_all add: shard_link_def case_prod_unfold Let_def)

lemma unlink_fields [simp]:
  "s_keys (shard_unlink k s) = s_keys s" "s_rows (shard_unlink k s) = s_rows s"
  "s_attrs (shard_unlink k s) = s_attrs s" "s_terms (shard_unlink k s) = s_terms s"
  "keyIdx (shard_unlink k s) = keyIdx s" "keyNode (shard_unlink k s) = keyNode s"
  by (simp_all add: shard_unlink_def split: option.splits)

text \<open>Appending and deleting, seen through the slots.\<close>

lemma append_slots:
  assumes ok: "slots_ok s" and k: "key \<noteq> []"
  shows "slots_ok (snd (shard_append key vec a ts s))"
    and "shard_view (snd (shard_append key vec a ts s)) =
      (shard_view s)(key \<mapsto> \<lparr>Key = key, Vec = vec, Attrs = a, Terms = ts\<rparr>)"
    and "fst (shard_append key vec a ts s) \<longleftrightarrow> shard_view s key = None"
proof -
  have len: "length (s_rows s) = length (s_keys s)" "length (s_attrs s) = length (s_keys s)"
    "length (s_terms s) = length (s_keys s)" "keys_distinct (keyIdx s)"
    using ok by (simp_all add: slots_ok_def)
  have both: "slots_ok (snd (shard_append key vec a ts s)) \<and>
      shard_view (snd (shard_append key vec a ts s)) =
        (shard_view s)(key \<mapsto> \<lparr>Key = key, Vec = vec, Attrs = a, Terms = ts\<rparr>)"
  proof (cases "map_of (keyIdx s) key")
    case None
    have fresh: "\<not> (i < length (s_keys s) \<and> s_keys s ! i = key)" for i
      using ok None k unfolding slots_ok_def by (metis option.distinct(1))
    have eq: "snd (shard_append key vec a ts s) = shard_link key vec
        (s\<lparr>s_rows := s_rows s @ [vec], s_keys := s_keys s @ [key], s_attrs := s_attrs s @ [a],
           keyIdx := AList.update key (length (s_keys s)) (keyIdx s), s_terms := s_terms s @ [ts]\<rparr>)"
      using None by (simp add: shard_append_def)
    have "slots_ok (snd (shard_append key vec a ts s))"
      using ok k fresh len unfolding eq slots_ok_def
      by (auto simp: nth_append less_Suc_eq split: if_splits)
    moreover have "shard_view (snd (shard_append key vec a ts s)) k' =
        ((shard_view s)(key \<mapsto> \<lparr>Key = key, Vec = vec, Attrs = a, Terms = ts\<rparr>)) k'" for k'
    proof (cases "k' = key")
      case True
      with None len show ?thesis by (simp add: shard_append_def shard_view_def shard_entry_def nth_append)
    next
      case False
      then show ?thesis
      proof (cases "map_of (keyIdx s) k'")
        case old: (Some i)
        with slots_okD(1)[OF ok old] False None len show ?thesis
          by (simp add: shard_append_def shard_view_def shard_entry_def nth_append)
      qed (use None False in \<open>simp add: shard_append_def shard_view_def\<close>)
    qed
    ultimately show ?thesis by auto
  next
    case (Some i)
    note i = slots_okD[OF ok Some]
    have eq: "snd (shard_append key vec a ts s) = shard_link key vec (shard_unlink key
        (s\<lparr>s_rows := (s_rows s)[i := vec], s_attrs := (s_attrs s)[i := a], s_terms := (s_terms s)[i := ts]\<rparr>))"
      using Some by (simp add: shard_append_def)
    have "slots_ok (snd (shard_append key vec a ts s))"
      using ok unfolding eq slots_ok_def by simp
    moreover have "shard_view (snd (shard_append key vec a ts s)) k' =
        ((shard_view s)(key \<mapsto> \<lparr>Key = key, Vec = vec, Attrs = a, Terms = ts\<rparr>)) k'" for k'
    proof (cases "k' = key")
      case True
      with Some i len show ?thesis by (simp add: shard_append_def shard_view_def shard_entry_def)
    next
      case False
      then show ?thesis
      proof (cases "map_of (keyIdx s) k'")
        case old: (Some j)
        have "j \<noteq> i" using slots_okD(2)[OF ok old] i(2) False by auto
        with False Some old show ?thesis by (simp add: shard_append_def shard_view_def shard_entry_def)
      qed (use Some False in \<open>simp add: shard_append_def shard_view_def\<close>)
    qed
    ultimately show ?thesis by auto
  qed
  then show "slots_ok (snd (shard_append key vec a ts s))"
    "shard_view (snd (shard_append key vec a ts s)) =
      (shard_view s)(key \<mapsto> \<lparr>Key = key, Vec = vec, Attrs = a, Terms = ts\<rparr>)" by simp_all
  show "fst (shard_append key vec a ts s) \<longleftrightarrow> shard_view s key = None"
    by (simp add: shard_append_def shard_view_def split: option.splits)
qed

lemma delete_slots:
  assumes ok: "slots_ok s"
  shows "slots_ok (snd (shard_delete key s))"
    and "shard_view (snd (shard_delete key s)) = (shard_view s)(key := None)"
    and "fst (shard_delete key s) \<longleftrightarrow> shard_view s key \<noteq> None"
proof -
  have both: "slots_ok (snd (shard_delete key s)) \<and> shard_view (snd (shard_delete key s)) = (shard_view s)(key := None)"
  proof (cases "map_of (keyIdx s) key")
    case None
    with ok show ?thesis by (auto simp: shard_delete_def shard_view_def)
  next
    case (Some i)
    note i = slots_okD[OF ok Some]
    have other: "j \<noteq> i" if "map_of (keyIdx s) k = Some j" "k \<noteq> key" for k j
      using slots_okD(2)[OF ok that(1)] i(2) that(2) by auto
    obtain s' where eq: "snd (shard_delete key s) = s'"
        "keyIdx s' = AList.delete key (keyIdx s)" "s_keys s' = (s_keys s)[i := []]"
        "s_rows s' = s_rows s" "s_attrs s' = s_attrs s" "s_terms s' = (s_terms s)[i := []]"
      using Some by (simp add: shard_delete_def Let_def)
    have uniq: "ia = i" if "ia < length (s_keys s)" "s_keys s ! ia = key" for ia
      using ok that Some i(3) unfolding slots_ok_def by (metis option.inject)
    have keyed: "map_of (keyIdx s') k = Some j \<longleftrightarrow> j < length (s_keys s') \<and> s_keys s' ! j = k \<and> k \<noteq> []" for k j
    proof (cases "j = i")
      case True
      with i other show ?thesis by (cases "k = key") (auto simp: eq)
    next
      case False
      with uniq have "s_keys s' ! j = s_keys s ! j" "j < length (s_keys s) \<Longrightarrow> s_keys s ! j \<noteq> key"
        by (auto simp: eq)
      moreover have "map_of (keyIdx s) k = Some j \<longleftrightarrow> j < length (s_keys s) \<and> s_keys s ! j = k \<and> k \<noteq> []"
        using ok by (simp add: slots_ok_def)
      ultimately show ?thesis by (cases "k = key") (auto simp: eq)
    qed
    moreover have "keys_distinct (keyIdx s')" using ok by (simp add: slots_ok_def eq)
    ultimately have "slots_ok (snd (shard_delete key s))"
      using ok unfolding eq(1) slots_ok_def by (simp add: eq)
    moreover have "shard_view (snd (shard_delete key s)) k' = ((shard_view s)(key := None)) k'" for k'
    proof (cases "k' = key")
      case False
      have "j \<noteq> i" if "map_of (keyIdx s) k' = Some j" for j using other[OF that False] .
      with Some False show ?thesis
        by (cases "map_of (keyIdx s) k'") (auto simp: shard_delete_def shard_view_def shard_entry_def Let_def)
    qed (use Some in \<open>simp add: shard_delete_def shard_view_def Let_def\<close>)
    ultimately show ?thesis by auto
  qed
  then show "slots_ok (snd (shard_delete key s))" "shard_view (snd (shard_delete key s)) = (shard_view s)(key := None)"
    by simp_all
  show "fst (shard_delete key s) \<longleftrightarrow> shard_view s key \<noteq> None"
    by (simp add: shard_delete_def shard_view_def Let_def split: option.splits)
qed

text \<open>The entries of a shard are what it answers.\<close>

lemma shard_entries_view:
  assumes "slots_ok s"
  shows "e \<in> set (shard_entries s) \<longleftrightarrow> Key e \<noteq> [] \<and> shard_view s (Key e) = Some e"
proof
  assume "e \<in> set (shard_entries s)"
  then obtain i where i: "i < length (s_keys s)" "s_keys s ! i \<noteq> []" "e = shard_entry s i"
    by (auto simp: shard_entries_def)
  then have "map_of (keyIdx s) (s_keys s ! i) = Some i" using assms unfolding slots_ok_def by blast
  with i show "Key e \<noteq> [] \<and> shard_view s (Key e) = Some e" by (simp add: shard_view_def) (simp add: shard_entry_def)
next
  assume "Key e \<noteq> [] \<and> shard_view s (Key e) = Some e"
  then obtain i where i: "map_of (keyIdx s) (Key e) = Some i" "e = shard_entry s i"
    by (auto simp: shard_view_def)
  with slots_okD[OF assms i(1)] show "e \<in> set (shard_entries s)"
    by (auto simp: shard_entries_def shard_entry_def)
qed

lemma shard_entries_distinct:
  assumes "slots_ok s"
  shows "distinct (map Key (shard_entries s))"
proof -
  have "inj_on (\<lambda>i. s_keys s ! i) (set (filter (\<lambda>i. s_keys s ! i \<noteq> []) [0..<length (s_keys s)]))"
  proof (rule inj_onI)
    fix i j assume ij: "i \<in> set (filter (\<lambda>i. s_keys s ! i \<noteq> []) [0..<length (s_keys s)])"
      "j \<in> set (filter (\<lambda>i. s_keys s ! i \<noteq> []) [0..<length (s_keys s)])" "s_keys s ! i = s_keys s ! j"
    then have "map_of (keyIdx s) (s_keys s ! i) = Some i" "map_of (keyIdx s) (s_keys s ! i) = Some j"
      using assms unfolding slots_ok_def by auto
    then show "i = j" by simp
  qed
  then show ?thesis
    by (simp add: shard_entries_def comp_def shard_entry_def distinct_map)
qed

text \<open>The graph of a shard.\<close>

lemma graph_insert_ok:
  assumes ok: "graph_ok gr" and ins: "graph_insert v gr = (g, gr')"
  shows "graph_ok gr'" "\<not> alive_at gr g" "alive_at gr' i \<longleftrightarrow> i = g \<or> alive_at gr i"
    "gvec (gnodes gr' ! g) = v" "i \<noteq> g \<Longrightarrow> i < length (gnodes gr) \<Longrightarrow> gnodes gr' ! i = gnodes gr ! i"
    "g < length (gnodes gr')" "length (gnodes gr) \<le> length (gnodes gr')"
proof -
  have all: "graph_ok gr' \<and> \<not> alive_at gr g \<and> (\<forall>i. alive_at gr' i \<longleftrightarrow> i = g \<or> alive_at gr i) \<and>
      gvec (gnodes gr' ! g) = v \<and> (\<forall>i. i \<noteq> g \<longrightarrow> i < length (gnodes gr) \<longrightarrow> gnodes gr' ! i = gnodes gr ! i) \<and>
      g < length (gnodes gr') \<and> length (gnodes gr) \<le> length (gnodes gr')"
  proof (cases "freeIDs gr = []")
    case True
    with ins have eq: "g = length (gnodes gr)" "gnodes gr' = gnodes gr @ [\<lparr>gvec = v, galive = True\<rparr>]" "freeIDs gr' = []"
      by (auto simp: graph_insert_def)
    have dead: "\<forall>i < length (gnodes gr). alive_at gr i" using ok True by (auto simp: graph_ok_def)
    have "alive_at gr' i \<longleftrightarrow> i = g \<or> alive_at gr i" for i
      by (auto simp: alive_at_def eq nth_append)
    moreover from this have "graph_ok gr'" using dead eq by (auto simp: graph_ok_def less_Suc_eq)
    ultimately show ?thesis using eq by (auto simp: alive_at_def nth_append)
  next
    case False
    define fs where "fs = butlast (freeIDs gr)"
    have fr: "freeIDs gr = fs @ [g]"
      and eq: "gnodes gr' = (gnodes gr)[g := \<lparr>gvec = v, galive = True\<rparr>]" "freeIDs gr' = fs"
      using False ins by (auto simp: graph_insert_def Let_def fs_def)
    have g: "g < length (gnodes gr)" "\<not> alive_at gr g" "g \<notin> set fs" "distinct fs"
      using ok fr by (auto simp: graph_ok_def)
    have al: "alive_at gr' i \<longleftrightarrow> i = g \<or> alive_at gr i" for i
      using g by (auto simp: alive_at_def eq nth_list_update)
    moreover have "i \<in> set fs \<longleftrightarrow> i < length (gnodes gr) \<and> \<not> alive_at gr i \<and> i \<noteq> g" for i
      using ok fr g by (auto simp: graph_ok_def)
    then have "graph_ok gr'" using al g eq by (auto simp: graph_ok_def)
    ultimately show ?thesis using g eq by auto
  qed
  then show "graph_ok gr'" "\<not> alive_at gr g" "alive_at gr' i \<longleftrightarrow> i = g \<or> alive_at gr i"
    "gvec (gnodes gr' ! g) = v" "i \<noteq> g \<Longrightarrow> i < length (gnodes gr) \<Longrightarrow> gnodes gr' ! i = gnodes gr ! i"
    "g < length (gnodes gr')" "length (gnodes gr) \<le> length (gnodes gr')" by blast+
qed

lemma graph_delete_ok:
  assumes ok: "graph_ok gr" and al: "alive_at gr g"
  shows "graph_ok (graph_delete g gr)" "alive_at (graph_delete g gr) i \<longleftrightarrow> i \<noteq> g \<and> alive_at gr i"
    "gvec (gnodes (graph_delete g gr) ! i) = gvec (gnodes gr ! i)"
    "length (gnodes (graph_delete g gr)) = length (gnodes gr)"
proof -
  have g: "g < length (gnodes gr)" "galive (gnodes gr ! g)" using al by (simp_all add: alive_at_def)
  then have eq: "gnodes (graph_delete g gr) = (gnodes gr)[g := (gnodes gr ! g)\<lparr>galive := False\<rparr>]"
    "freeIDs (graph_delete g gr) = freeIDs gr @ [g]" by (simp_all add: graph_delete_def)
  show alive: "alive_at (graph_delete g gr) i \<longleftrightarrow> i \<noteq> g \<and> alive_at gr i" for i
    using g by (auto simp: alive_at_def eq nth_list_update)
  have "g \<notin> set (freeIDs gr)" using ok al by (auto simp: graph_ok_def)
  with ok alive g show "graph_ok (graph_delete g gr)" by (auto simp: graph_ok_def eq)
  show "gvec (gnodes (graph_delete g gr) ! i) = gvec (gnodes gr ! i)"
    using g by (cases "i = g") (simp_all add: eq)
  show "length (gnodes (graph_delete g gr)) = length (gnodes gr)" by (simp add: eq)
qed

text \<open>Between the removal of an old node and the insertion of the new one, all keys but one are linked.\<close>

definition nodes_but :: "bytes \<Rightarrow> dshard \<Rightarrow> bool" where
  "nodes_but key s \<longleftrightarrow> graph_ok (s_graph s) \<and>
     (\<forall>g k. map_of (nodeKey s) g = Some k \<longleftrightarrow> k \<noteq> key \<and> map_of (keyNode s) k = Some g) \<and>
     (\<forall>g. map_of (nodeKey s) g \<noteq> None \<longleftrightarrow> alive_at (s_graph s) g) \<and>
     (\<forall>k. k \<noteq> key \<longrightarrow> (map_of (keyNode s) k = None \<longleftrightarrow> map_of (keyIdx s) k = None)) \<and>
     (\<forall>k g i. k \<noteq> key \<longrightarrow> map_of (keyNode s) k = Some g \<longrightarrow> map_of (keyIdx s) k = Some i \<longrightarrow>
        gvec (gnodes (s_graph s) ! g) = s_rows s ! i)"

lemma unlink_but:
  assumes ok: "nodes_ok s"
    and same: "s_graph s' = s_graph s" "nodeKey s' = nodeKey s" "keyNode s' = keyNode s"
      "\<And>k. k \<noteq> key \<Longrightarrow> map_of (keyIdx s') k = map_of (keyIdx s) k"
      "\<And>k i. k \<noteq> key \<Longrightarrow> map_of (keyIdx s) k = Some i \<Longrightarrow> s_rows s' ! i = s_rows s ! i"
  shows "nodes_but key (shard_unlink key s')"
proof (cases "map_of (keyNode s) key")
  case None
  then have "shard_unlink key s' = s'" by (simp add: shard_unlink_def same)
  moreover have "nodes_but key s'"
    unfolding nodes_but_def same(1-3)
  proof (intro conjI allI impI)
    show "map_of (nodeKey s) g = Some k \<longleftrightarrow> k \<noteq> key \<and> map_of (keyNode s) k = Some g" for g k
    proof -
      have "map_of (nodeKey s) g = Some k \<longleftrightarrow> map_of (keyNode s) k = Some g" using ok unfolding nodes_ok_def by blast
      with None show ?thesis by (cases "k = key") simp_all
    qed
    show "gvec (gnodes (s_graph s) ! g) = s_rows s' ! i"
      if "k \<noteq> key" "map_of (keyNode s) k = Some g" "map_of (keyIdx s') k = Some i" for k g i
      using ok that same(4,5) unfolding nodes_ok_def by simp
    show "map_of (keyNode s) k = None \<longleftrightarrow> map_of (keyIdx s') k = None" if "k \<noteq> key" for k
      using ok that same(4) unfolding nodes_ok_def by simp
    show "graph_ok (s_graph s)" "map_of (nodeKey s) g \<noteq> None \<longleftrightarrow> alive_at (s_graph s) g" for g
      using ok unfolding nodes_ok_def by blast+
  qed
  ultimately show ?thesis by simp
next
  case (Some g)
  have n: "graph_ok (s_graph s)" "\<And>g k. map_of (nodeKey s) g = Some k \<longleftrightarrow> map_of (keyNode s) k = Some g"
    "\<And>g. map_of (nodeKey s) g \<noteq> None \<longleftrightarrow> alive_at (s_graph s) g"
    using ok unfolding nodes_ok_def by blast+
  have al: "alive_at (s_graph s) g" using n(2,3) Some by (metis option.distinct(1))
  note del = graph_delete_ok[OF n(1) al]
  have eq: "s_graph (shard_unlink key s') = graph_delete g (s_graph s)"
    "nodeKey (shard_unlink key s') = AList.delete g (nodeKey s)"
    using Some same by (simp_all add: shard_unlink_def)
  have link: "map_of (AList.delete g (nodeKey s)) g' = Some k \<longleftrightarrow> k \<noteq> key \<and> map_of (keyNode s) k = Some g'" for g' k
    using n(2)[of g' k] n(2)[of g key] n(2)[of g' key] Some by (cases "g' = g") auto
  moreover have "map_of (AList.delete g (nodeKey s)) g' \<noteq> None \<longleftrightarrow> alive_at (graph_delete g (s_graph s)) g'" for g'
    using n(3)[of g'] del(2)[of g'] by (cases "g' = g") auto
  moreover have "gvec (gnodes (graph_delete g (s_graph s)) ! g') = s_rows s' ! i"
    if "k \<noteq> key" "map_of (keyNode s) k = Some g'" "map_of (keyIdx s') k = Some i" for k g' i
    using ok that same(4,5) del(3)[of g'] unfolding nodes_ok_def by metis
  moreover have "map_of (keyNode s) k = None \<longleftrightarrow> map_of (keyIdx s') k = None" if "k \<noteq> key" for k
    using ok that same(4) unfolding nodes_ok_def by metis
  ultimately show ?thesis
    unfolding nodes_but_def eq unlink_fields same(3) using del(1) by blast
qed

lemma link_nodes_ok:
  assumes but: "nodes_but key s" and i: "map_of (keyIdx s) key = Some i" "s_rows s ! i = vec"
  shows "nodes_ok (shard_link key vec s)"
proof -
  have b: "graph_ok (s_graph s)" "\<And>g k. map_of (nodeKey s) g = Some k \<longleftrightarrow> k \<noteq> key \<and> map_of (keyNode s) k = Some g"
    "\<And>g. map_of (nodeKey s) g \<noteq> None \<longleftrightarrow> alive_at (s_graph s) g"
    "\<And>k. k \<noteq> key \<Longrightarrow> map_of (keyNode s) k = None \<longleftrightarrow> map_of (keyIdx s) k = None"
    "\<And>k g i. k \<noteq> key \<Longrightarrow> map_of (keyNode s) k = Some g \<Longrightarrow> map_of (keyIdx s) k = Some i \<Longrightarrow>
        gvec (gnodes (s_graph s) ! g) = s_rows s ! i"
    using but unfolding nodes_but_def by blast+
  obtain g gr where ins: "graph_insert vec (s_graph s) = (g, gr)" by (cases "graph_insert vec (s_graph s)")
  note ins' = graph_insert_ok[OF b(1) ins]
  have free: "map_of (nodeKey s) g = None" using b(3)[of g] ins'(2) by auto
  then have other: "g' \<noteq> g" if "k \<noteq> key" "map_of (keyNode s) k = Some g'" for k g'
    using b(2)[of g' k] that by auto
  have alive: "g' < length (gnodes (s_graph s))" if "k \<noteq> key" "map_of (keyNode s) k = Some g'" for k g'
    using b(2)[of g' k] b(3)[of g'] that by (simp add: alive_at_def)
  have eq: "s_graph (shard_link key vec s) = gr" "keyNode (shard_link key vec s) = AList.update key g (keyNode s)"
    "nodeKey (shard_link key vec s) = AList.update g key (nodeKey s)"
    by (simp_all add: shard_link_def ins)
  have "map_of (AList.update g key (nodeKey s)) g' = Some k \<longleftrightarrow> map_of (AList.update key g (keyNode s)) k = Some g'" for g' k
    using b(2)[of g' k] other[of k g'] free by (cases "k = key") auto
  moreover have "map_of (AList.update g key (nodeKey s)) g' \<noteq> None \<longleftrightarrow> alive_at gr g'" for g'
    using b(3)[of g'] ins'(3)[of g'] by (cases "g' = g") auto
  moreover have "map_of (AList.update key g (keyNode s)) k = None \<longleftrightarrow> map_of (keyIdx s) k = None" for k
    using b(4)[of k] i by (cases "k = key") auto
  moreover have "gvec (gnodes gr ! g') = s_rows s ! j"
    if "map_of (AList.update key g (keyNode s)) k = Some g'" "map_of (keyIdx s) k = Some j" for k g' j
    using that b(5)[of k g' j] other[of k g'] alive[of k g'] ins'(4,5) i
    by (cases "k = key") auto
  ultimately show ?thesis
    unfolding nodes_ok_def eq link_fields using ins'(1) by blast
qed

lemma append_nodes:
  assumes ok: "slots_ok s" "nodes_ok s" and k: "key \<noteq> []"
  shows "nodes_ok (snd (shard_append key vec a ts s))"
proof (cases "map_of (keyIdx s) key")
  case None
  let ?s' = "s\<lparr>s_rows := s_rows s @ [vec], s_keys := s_keys s @ [key], s_attrs := s_attrs s @ [a],
                keyIdx := AList.update key (length (s_keys s)) (keyIdx s), s_terms := s_terms s @ [ts]\<rparr>"
  have len: "length (s_rows s) = length (s_keys s)" using ok by (simp add: slots_ok_def)
  have "map_of (keyNode s) key = None" using ok(2) None unfolding nodes_ok_def by blast
  then have "shard_unlink key ?s' = ?s'" by (simp add: shard_unlink_def)
  moreover have "nodes_but key (shard_unlink key ?s')"
  proof (rule unlink_but[OF ok(2)])
    fix k i assume "k \<noteq> key" "map_of (keyIdx s) k = Some i"
    then show "s_rows ?s' ! i = s_rows s ! i" using slots_okD(1)[OF ok(1)] len by (simp add: nth_append)
  qed simp_all
  ultimately have "nodes_but key ?s'" by simp
  then have "nodes_ok (shard_link key vec ?s')"
    by (rule link_nodes_ok[where i = "length (s_keys s)"]) (simp_all add: nth_append len)
  with None show ?thesis by (simp add: shard_append_def)
next
  case (Some i)
  let ?s' = "s\<lparr>s_rows := (s_rows s)[i := vec], s_attrs := (s_attrs s)[i := a], s_terms := (s_terms s)[i := ts]\<rparr>"
  have len: "length (s_rows s) = length (s_keys s)" using ok by (simp add: slots_ok_def)
  have i: "i < length (s_keys s)" "s_keys s ! i = key" using slots_okD[OF ok(1) Some] by simp_all
  have "nodes_but key (shard_unlink key ?s')"
  proof (rule unlink_but[OF ok(2)])
    fix k j assume "k \<noteq> key" "map_of (keyIdx s) k = Some j"
    then show "s_rows ?s' ! j = s_rows s ! j" using slots_okD(2)[OF ok(1)] i by (cases "j = i") auto
  qed simp_all
  then have "nodes_ok (shard_link key vec (shard_unlink key ?s'))"
    using Some i len by (intro link_nodes_ok) auto
  with Some show ?thesis by (simp add: shard_append_def)
qed

lemma delete_nodes:
  assumes ok: "nodes_ok s"
  shows "nodes_ok (snd (shard_delete key s))"
proof (cases "map_of (keyIdx s) key")
  case None
  with ok show ?thesis by (simp add: shard_delete_def)
next
  case (Some i)
  let ?s1 = "s\<lparr>keyIdx := AList.delete key (keyIdx s), s_keys := (s_keys s)[i := []], s_terms := (s_terms s)[i := []]\<rparr>"
  define s2 where "s2 = shard_unlink key ?s1"
  have but: "nodes_but key s2" unfolding s2_def by (rule unlink_but[OF ok]) simp_all
  have "map_of (keyIdx s2) key = None" by (simp add: s2_def)
  then have "nodes_ok (s2\<lparr>keyNode := AList.delete key (keyNode s2)\<rparr>)"
    using but unfolding nodes_ok_def nodes_but_def by (auto split: if_splits)
  with Some show ?thesis by (simp add: shard_delete_def Let_def s2_def)
qed

subsection \<open>The delta as a map\<close>

definition delta_view :: "delta \<Rightarrow> bytes \<Rightarrow> delta_entry option" where
  "delta_view d k = shard_view (d_shards d ! delta_shardFor d k) k"

text \<open>Every key lives in the shard it is sent to, the counters count, and the two marks tell whether an
  attribute or a term has ever come in.\<close>

definition delta_ok :: "delta \<Rightarrow> bool" where
  "delta_ok d \<longleftrightarrow> d_shards d \<noteq> [] \<and> (\<forall>s \<in> set (d_shards d). slots_ok s \<and> nodes_ok s) \<and>
     (\<forall>i < length (d_shards d). \<forall>k. shard_view (d_shards d ! i) k \<noteq> None \<longrightarrow> delta_shardFor d k = i) \<and>
     d_live d = sum_list (map (\<lambda>s. length (keyIdx s)) (d_shards d)) \<and>
     d_slots d = sum_list (map (\<lambda>s. length (s_keys s)) (d_shards d)) \<and>
     (\<not> attrsPresent d \<longrightarrow> (\<forall>k e. delta_view d k = Some e \<longrightarrow> attrs_empty (Attrs e))) \<and>
     (\<not> textPresent d \<longrightarrow> (\<forall>k e. delta_view d k = Some e \<longrightarrow> Terms e = []))"

lemma delta_okD:
  assumes "delta_ok d"
  shows "d_shards d \<noteq> []" "s \<in> set (d_shards d) \<Longrightarrow> slots_ok s" "s \<in> set (d_shards d) \<Longrightarrow> nodes_ok s"
    "i < length (d_shards d) \<Longrightarrow> shard_view (d_shards d ! i) k = Some e \<Longrightarrow> delta_shardFor d k = i"
    "d_live d = sum_list (map (\<lambda>s. length (keyIdx s)) (d_shards d))"
    "d_slots d = sum_list (map (\<lambda>s. length (s_keys s)) (d_shards d))"
    "\<not> attrsPresent d \<Longrightarrow> delta_view d k = Some e \<Longrightarrow> attrs_empty (Attrs e)"
    "\<not> textPresent d \<Longrightarrow> delta_view d k = Some e \<Longrightarrow> Terms e = []"
  using assms unfolding delta_ok_def by auto

lemma delta_shardFor_lt: "d_shards d \<noteq> [] \<Longrightarrow> delta_shardFor d k < length (d_shards d)"
  by (simp add: delta_shardFor_def)

lemma shardFor_cong:
  "d_hash d' = d_hash d \<Longrightarrow> length (d_shards d') = length (d_shards d) \<Longrightarrow> delta_shardFor d' k = delta_shardFor d k"
  by (simp add: delta_shardFor_def)

lemma delta_new_ok [simp]:
  "delta_ok (NewDeltaSegmentSharded i mx h n)" "delta_view (NewDeltaSegmentSharded i mx h n) = Map.empty"
proof -
  let ?d = "NewDeltaSegmentSharded i mx h n"
  have s: "s \<in> set (d_shards ?d) \<Longrightarrow> s = newDeltaShard" "d_shards ?d \<noteq> []" for s
    by (auto simp: NewDeltaSegmentSharded_def split: if_splits)
  have sv: "shard_view newDeltaShard k = None" for k by (simp add: shard_view_def newDeltaShard_def)
  have at: "d_shards ?d ! j = newDeltaShard" if "j < length (d_shards ?d)" for j
    using s(1)[OF nth_mem[OF that]] .
  then have v: "delta_view ?d k = None" for k
    using delta_shardFor_lt[OF s(2)] sv by (simp add: delta_view_def)
  then show "delta_view ?d = Map.empty" by auto
  have "d_live ?d = 0" "d_slots ?d = 0" by (simp_all add: NewDeltaSegmentSharded_def)
  moreover have "\<forall>s \<in> set (d_shards ?d). length (keyIdx s) = 0" "\<forall>s \<in> set (d_shards ?d). length (s_keys s) = 0"
    using s(1) by (fastforce simp: newDeltaShard_def)+
  moreover have "\<forall>s \<in> set (d_shards ?d). slots_ok s \<and> nodes_ok s" by (metis s(1) slots_ok_new nodes_ok_new)
  moreover have "\<forall>i < length (d_shards ?d). \<forall>k. shard_view (d_shards ?d ! i) k = None" by (simp add: at sv)
  ultimately show "delta_ok ?d"
    unfolding delta_ok_def using s(2) v by (simp add: sum_list_eq_0_iff)
qed

text \<open>Replacing the shard of a key: the other keys keep their answers.\<close>

lemma shard_put_view:
  assumes ok: "delta_ok d" and i: "i = delta_shardFor d key"
    and d': "d_hash d' = d_hash d" "d_shards d' = (d_shards d)[i := s]"
    and s: "shard_view s = (shard_view (d_shards d ! i))(key := x)"
  shows "delta_view d' = (delta_view d)(key := x)"
    and "j < length (d_shards d') \<Longrightarrow> shard_view (d_shards d' ! j) k \<noteq> None \<Longrightarrow> delta_shardFor d' k = j"
proof -
  have lt: "i < length (d_shards d)" using delta_shardFor_lt[OF delta_okD(1)[OF ok]] i by simp
  have sf: "delta_shardFor d' k = delta_shardFor d k" for k using d' by (intro shardFor_cong) simp_all
  show "delta_view d' = (delta_view d)(key := x)"
  proof
    fix k
    show "delta_view d' k = ((delta_view d)(key := x)) k"
      using lt s i unfolding delta_view_def sf d'(2) by (cases "delta_shardFor d k = i") auto
  qed
  assume j: "j < length (d_shards d')" "shard_view (d_shards d' ! j) k \<noteq> None"
  show "delta_shardFor d' k = j"
  proof (cases "j = i \<and> k = key")
    case True
    then show ?thesis using i sf by simp
  next
    case False
    with j have "shard_view (d_shards d ! j) k \<noteq> None"
      using s lt unfolding d'(2) by (cases "j = i") auto
    with j(1) show ?thesis using delta_okD(4)[OF ok, of j k] sf by (auto simp: d'(2))
  qed
qed

lemma sum_list_put:
  fixes f :: "'a \<Rightarrow> nat"
  assumes "i < length xs"
  shows "sum_list (map f (xs[i := x])) + f (xs ! i) = sum_list (map f xs) + f x"
  using assms by (induction xs arbitrary: i) (auto split: nat.splits)

lemma keyIdx_length:
  assumes "slots_ok s"
  shows "length (keyIdx (snd (shard_append key vec a ts s))) =
      length (keyIdx s) + (if fst (shard_append key vec a ts s) then 1 else 0)"
    and "length (s_keys (snd (shard_append key vec a ts s))) =
      length (s_keys s) + (if fst (shard_append key vec a ts s) then 1 else 0)"
    and "length (keyIdx (snd (shard_delete key s))) + (if fst (shard_delete key s) then 1 else 0) = length (keyIdx s)"
    and "length (s_keys (snd (shard_delete key s))) = length (s_keys s)"
proof -
  have d: "keys_distinct (keyIdx s)" using assms by (simp add: slots_ok_def)
  show "length (keyIdx (snd (shard_append key vec a ts s))) =
      length (keyIdx s) + (if fst (shard_append key vec a ts s) then 1 else 0)"
    "length (s_keys (snd (shard_append key vec a ts s))) =
      length (s_keys s) + (if fst (shard_append key vec a ts s) then 1 else 0)"
    by (auto simp: shard_append_def length_update_alist split: option.splits)
  show "length (keyIdx (snd (shard_delete key s))) + (if fst (shard_delete key s) then 1 else 0) = length (keyIdx s)"
    using length_delete_alist[OF d, of key]
    by (cases "keyIdx s") (auto simp: shard_delete_def Let_def split: option.splits)
  show "length (s_keys (snd (shard_delete key s))) = length (s_keys s)"
    by (simp add: shard_delete_def Let_def split: option.splits)
qed

text \<open>Appending a document.\<close>

lemma AppendDoc_fields:
  assumes "shard_append key vec a ts (d_shards d ! delta_shardFor d key) = (new, s)" "AppendDoc key vec a ts d = (full, d')"
  shows "d_hash d' = d_hash d" "d_shards d' = (d_shards d)[delta_shardFor d key := s]" "d_id d' = d_id d"
    "d_maxSize d' = d_maxSize d" "attrsPresent d' \<longleftrightarrow> attrsPresent d \<or> \<not> attrs_empty a"
    "textPresent d' \<longleftrightarrow> textPresent d \<or> ts \<noteq> []"
    "d_live d' = d_live d + (if new then 1 else 0)" "d_slots d' = d_slots d + (if new then 1 else 0)"
    "full \<longleftrightarrow> new \<and> d_slots d' = d_maxSize d"
  using assms by (auto simp: AppendDoc_def Let_def split: if_splits)

lemma AppendDoc_ok:
  assumes ok: "delta_ok d" and key: "key \<noteq> []" and app: "AppendDoc key vec a ts d = (full, d')"
  shows "delta_ok d'" "delta_view d' = (delta_view d)(key \<mapsto> \<lparr>Key = key, Vec = vec, Attrs = a, Terms = ts\<rparr>)"
proof -
  define i where "i = delta_shardFor d key"
  obtain new s where sh: "shard_append key vec a ts (d_shards d ! i) = (new, s)"
    by (cases "shard_append key vec a ts (d_shards d ! i)")
  have lt: "i < length (d_shards d)" using delta_shardFor_lt[OF delta_okD(1)[OF ok]] i_def by simp
  then have in_d: "d_shards d ! i \<in> set (d_shards d)" by simp
  have so: "slots_ok (d_shards d ! i)" and no: "nodes_ok (d_shards d ! i)" using delta_okD(2,3)[OF ok in_d] .
  note f = AppendDoc_fields[OF sh[unfolded i_def] app, folded i_def]
  have sv: "slots_ok s" "nodes_ok s"
    "shard_view s = (shard_view (d_shards d ! i))(key \<mapsto> \<lparr>Key = key, Vec = vec, Attrs = a, Terms = ts\<rparr>)"
    using append_slots(1,2)[OF so key, of vec a ts] append_nodes[OF so no key, of vec a ts] sh by simp_all
  have ln: "length (keyIdx s) = length (keyIdx (d_shards d ! i)) + (if new then 1 else 0)"
    "length (s_keys s) = length (s_keys (d_shards d ! i)) + (if new then 1 else 0)"
    using keyIdx_length(1,2)[OF so, of key vec a ts] sh by simp_all
  note view = shard_put_view[OF ok i_def f(1,2) sv(3)]
  show "delta_view d' = (delta_view d)(key \<mapsto> \<lparr>Key = key, Vec = vec, Attrs = a, Terms = ts\<rparr>)" by (rule view(1))
  have "\<forall>s' \<in> set (d_shards d'). slots_ok s' \<and> nodes_ok s'"
    using sv(1,2) delta_okD(2,3)[OF ok] set_update_subset_insert[of "d_shards d" i s] unfolding f(2) by blast
  moreover have "d_live d' = sum_list (map (\<lambda>s. length (keyIdx s)) (d_shards d'))"
    using sum_list_put[OF lt, of "\<lambda>s. length (keyIdx s)" s] ln(1) delta_okD(5)[OF ok] f(2,7) by simp
  moreover have "d_slots d' = sum_list (map (\<lambda>s. length (s_keys s)) (d_shards d'))"
    using sum_list_put[OF lt, of "\<lambda>s. length (s_keys s)" s] ln(2) delta_okD(6)[OF ok] f(2,8) by simp
  moreover have "attrs_empty (Attrs e)" if "\<not> attrsPresent d'" "delta_view d' k = Some e" for k e
    using that delta_okD(7)[OF ok] f(5) view(1) by (auto split: if_splits)
  moreover have "Terms e = []" if "\<not> textPresent d'" "delta_view d' k = Some e" for k e
    using that delta_okD(8)[OF ok] f(6) view(1) by (auto split: if_splits)
  moreover have "d_shards d' \<noteq> []" using lt f(2) by auto
  ultimately show "delta_ok d'" unfolding delta_ok_def using view(2) by blast
qed

text \<open>Deleting a key.\<close>

lemma delta_Delete_ok:
  assumes ok: "delta_ok d" and del: "delta_Delete key d = (found, d')"
  shows "delta_ok d'" "delta_view d' = (delta_view d)(key := None)" "found \<longleftrightarrow> delta_view d key \<noteq> None"
    "d_id d' = d_id d" "d_hash d' = d_hash d" "d_maxSize d' = d_maxSize d" "\<not> found \<Longrightarrow> d' = d"
proof -
  define i where "i = delta_shardFor d key"
  obtain fnd s where sh: "shard_delete key (d_shards d ! i) = (fnd, s)"
    by (cases "shard_delete key (d_shards d ! i)")
  have lt: "i < length (d_shards d)" using delta_shardFor_lt[OF delta_okD(1)[OF ok]] i_def by simp
  then have in_d: "d_shards d ! i \<in> set (d_shards d)" by simp
  have so: "slots_ok (d_shards d ! i)" and no: "nodes_ok (d_shards d ! i)" using delta_okD(2,3)[OF ok in_d] .
  have sv: "slots_ok s" "nodes_ok s" "shard_view s = (shard_view (d_shards d ! i))(key := None)"
    using delete_slots(1,2)[OF so, of key] delete_nodes[OF no, of key] sh by simp_all
  have fnd: "fnd \<longleftrightarrow> delta_view d key \<noteq> None"
    using delete_slots(3)[OF so, of key] sh by (simp add: delta_view_def i_def)
  have res: "found = fnd" "d' = (if fnd then d\<lparr>d_shards := (d_shards d)[i := s], d_live := d_live d - 1\<rparr> else d)"
    using del sh by (auto simp: delta_Delete_def Let_def i_def split: if_splits)
  show "found \<longleftrightarrow> delta_view d key \<noteq> None" "d_id d' = d_id d" "d_hash d' = d_hash d" "d_maxSize d' = d_maxSize d"
    "\<not> found \<Longrightarrow> d' = d" using fnd res by simp_all
  have "delta_ok d' \<and> delta_view d' = (delta_view d)(key := None)"
  proof (cases fnd)
    case False
    with fnd res ok show ?thesis by auto
  next
    case True
    have f: "d_hash d' = d_hash d" "d_shards d' = (d_shards d)[i := s]" "d_live d' = d_live d - 1" "d_slots d' = d_slots d"
      "attrsPresent d' = attrsPresent d" "textPresent d' = textPresent d"
      using res True by simp_all
    note view = shard_put_view[OF ok i_def f(1,2) sv(3)]
    have ln: "length (keyIdx s) + 1 = length (keyIdx (d_shards d ! i))" "length (s_keys s) = length (s_keys (d_shards d ! i))"
      using keyIdx_length(3,4)[OF so, of key] sh True by simp_all
    have "\<forall>s' \<in> set (d_shards d'). slots_ok s' \<and> nodes_ok s'"
      using sv(1,2) delta_okD(2,3)[OF ok] set_update_subset_insert[of "d_shards d" i s] unfolding f(2) by blast
    moreover have "d_live d' = sum_list (map (\<lambda>s. length (keyIdx s)) (d_shards d'))"
      using sum_list_put[OF lt, of "\<lambda>s. length (keyIdx s)" s] ln(1) delta_okD(5)[OF ok] f(2,3) by simp
    moreover have "d_slots d' = sum_list (map (\<lambda>s. length (s_keys s)) (d_shards d'))"
      using sum_list_put[OF lt, of "\<lambda>s. length (s_keys s)" s] ln(2) delta_okD(6)[OF ok] f(2,4) by simp
    moreover have "attrs_empty (Attrs e)" if "\<not> attrsPresent d'" "delta_view d' k = Some e" for k e
      using that delta_okD(7)[OF ok] f(5) view(1) by (auto split: if_splits)
    moreover have "Terms e = []" if "\<not> textPresent d'" "delta_view d' k = Some e" for k e
      using that delta_okD(8)[OF ok] f(6) view(1) by (auto split: if_splits)
    moreover have "d_shards d' \<noteq> []" using lt f(2) by auto
    ultimately have "delta_ok d'" unfolding delta_ok_def using view(2) by blast
    with view(1) show ?thesis by simp
  qed
  then show "delta_ok d'" "delta_view d' = (delta_view d)(key := None)" by simp_all
qed

subsection \<open>What a flush reads\<close>

lemma distinct_concat_nth:
  "(\<And>i. i < length xss \<Longrightarrow> distinct (xss ! i)) \<Longrightarrow>
   (\<And>i j x. i < length xss \<Longrightarrow> j < length xss \<Longrightarrow> x \<in> set (xss ! i) \<Longrightarrow> x \<in> set (xss ! j) \<Longrightarrow> i = j) \<Longrightarrow>
   distinct (concat xss)"
proof (induction xss)
  case Nil
  then show ?case by simp
next
  case (Cons xs xss)
  have "distinct (concat xss)"
    using Cons.prems(1)[of "Suc _"] Cons.prems(2)[of "Suc _" "Suc _"] by (intro Cons.IH) auto
  moreover have "distinct xs" using Cons.prems(1)[of 0] by simp
  moreover have "x \<notin> set xs" if x: "x \<in> set (concat xss)" for x
  proof -
    from x obtain ys where ys: "ys \<in> set xss" "x \<in> set ys" by auto
    from ys(1) obtain j where j: "j < length xss" "xss ! j = ys" unfolding in_set_conv_nth by blast
    with ys(2) Cons.prems(2)[of 0 "Suc j" x] show ?thesis by auto
  qed
  ultimately show ?case by auto
qed

lemma extract_view:
  assumes ok: "delta_ok d"
  shows "e \<in> set (ExtractAll d) \<longleftrightarrow> Key e \<noteq> [] \<and> delta_view d (Key e) = Some e"
proof
  assume "e \<in> set (ExtractAll d)"
  then obtain s where s: "s \<in> set (d_shards d)" "e \<in> set (shard_entries s)" by (auto simp: ExtractAll_def)
  then obtain i where i: "i < length (d_shards d)" "d_shards d ! i = s" unfolding in_set_conv_nth by blast
  have "Key e \<noteq> []" "shard_view s (Key e) = Some e"
    using shard_entries_view[OF delta_okD(2)[OF ok s(1)], of e] s(2) by simp_all
  with delta_okD(4)[OF ok i(1), of "Key e" e] i show "Key e \<noteq> [] \<and> delta_view d (Key e) = Some e"
    by (simp add: delta_view_def)
next
  assume e: "Key e \<noteq> [] \<and> delta_view d (Key e) = Some e"
  let ?s = "d_shards d ! delta_shardFor d (Key e)"
  have s: "?s \<in> set (d_shards d)" using delta_shardFor_lt[OF delta_okD(1)[OF ok]] by simp
  have "e \<in> set (shard_entries ?s)"
    using shard_entries_view[OF delta_okD(2)[OF ok s], of e] e by (simp add: delta_view_def)
  with s show "e \<in> set (ExtractAll d)" by (auto simp: ExtractAll_def)
qed

lemma extract_distinct:
  assumes ok: "delta_ok d"
  shows "distinct (map Key (ExtractAll d))"
proof -
  let ?kss = "map (\<lambda>s. map Key (shard_entries s)) (d_shards d)"
  have "map Key (ExtractAll d) = concat ?kss" by (simp add: ExtractAll_def map_concat comp_def)
  moreover have "distinct (concat ?kss)"
  proof (rule distinct_concat_nth)
    fix i assume "i < length ?kss"
    then show "distinct (?kss ! i)" using shard_entries_distinct[OF delta_okD(2)[OF ok]] by simp
  next
    fix i j k assume ij: "i < length ?kss" "j < length ?kss" "k \<in> set (?kss ! i)" "k \<in> set (?kss ! j)"
    have "delta_shardFor d k = m" if "m < length ?kss" "k \<in> set (?kss ! m)" for m
    proof -
      from that obtain e where e: "e \<in> set (shard_entries (d_shards d ! m))" "k = Key e" by auto
      have "shard_view (d_shards d ! m) (Key e) = Some e"
        using shard_entries_view[OF delta_okD(2)[OF ok], of "d_shards d ! m" e] e(1) that(1) by simp
      with delta_okD(4)[OF ok, of m "Key e" e] that(1) e(2) show ?thesis by simp
    qed
    with ij show "i = j" by blast
  qed
  ultimately show ?thesis by simp
qed

lemma live_view:
  assumes ok: "delta_ok d"
  shows "d_live d = 0 \<longleftrightarrow> delta_view d = Map.empty"
proof
  assume "d_live d = 0"
  then have "\<forall>s \<in> set (d_shards d). keyIdx s = []" using delta_okD(5)[OF ok] by (simp add: sum_list_eq_0_iff)
  then have "delta_view d k = None" for k
    using delta_shardFor_lt[OF delta_okD(1)[OF ok], of k] by (simp add: delta_view_def shard_view_def)
  then show "delta_view d = Map.empty" by auto
next
  assume v: "delta_view d = Map.empty"
  have "keyIdx s = []" if s: "s \<in> set (d_shards d)" for s
  proof (rule ccontr)
    assume "keyIdx s \<noteq> []"
    then obtain k j where "map_of (keyIdx s) k = Some j" by (cases "keyIdx s") (auto, metis)
    then have "shard_view s k \<noteq> None" by (simp add: shard_view_def)
    moreover obtain i where i: "i < length (d_shards d)" "d_shards d ! i = s" using s unfolding in_set_conv_nth by blast
    ultimately have "delta_view d k \<noteq> None" using delta_okD(4)[OF ok i(1)] i(2) by (auto simp: delta_view_def)
    with v show False by simp
  qed
  with delta_okD(5)[OF ok] show "d_live d = 0" by (simp add: sum_list_eq_0_iff)
qed

lemma delta_reads:
  assumes ok: "delta_ok d"
  shows "delta_Contains d k \<longleftrightarrow> delta_view d k \<noteq> None"
    and "delta_Get d k = map_option Vec (delta_view d k)"
    and "delta_view d k = Some e \<Longrightarrow> Key e = k \<and> k \<noteq> []"
proof -
  let ?s = "d_shards d ! delta_shardFor d k"
  have so: "slots_ok ?s" using delta_okD(2)[OF ok] delta_shardFor_lt[OF delta_okD(1)[OF ok]] by simp
  show "delta_Contains d k \<longleftrightarrow> delta_view d k \<noteq> None"
    by (simp add: delta_Contains_def delta_view_def shard_view_def)
  show "delta_Get d k = map_option Vec (delta_view d k)"
    using slots_okD(2,3)[OF so, of k]
    by (cases "map_of (keyIdx ?s) k") (auto simp: delta_Get_def delta_view_def shard_view_def shard_entry_def)
  show "delta_view d k = Some e \<Longrightarrow> Key e = k \<and> k \<noteq> []"
    using slots_okD(2,3)[OF so, of k] by (auto simp: delta_view_def shard_view_def shard_entry_def)
qed

end
