(* ===== verification/VecView.thy ===== *)
theory VecView
  imports VecDelta
begin

text \<open>
  What a segment answers for a key, and the merge of segments (\<open>vector/leveled_segments.go\<close>,
  \<open>Get\<close> of \<open>leveled_store.go\<close>, \<open>mergeSegments\<close> of \<open>leveled_compaction.go\<close>). A document is its vector,
  its attributes (as the two maps they stand for) and its terms. The lemmas show that a segment built
  from entries, or frozen from the graphs of a delta, answers exactly the documents that went in, and
  that a merge answers for every key the newest of its inputs, without the keys deleted before it began.
\<close>

type_synonym vdoc = "f32 list \<times> ((bytes \<Rightarrow> bytes option) \<times> (bytes \<Rightarrow> f64 option)) \<times> term_tf list"

definition entry_doc :: "delta_entry \<Rightarrow> vdoc" where
  "entry_doc e = (Vec e, attr_view (Attrs e), Terms e)"

definition seg_at :: "segment \<Rightarrow> nat \<Rightarrow> vdoc" where
  "seg_at seg i = (sg_rows seg ! i, attr_view (decodeAt (sg_attrs seg) i), termsAt (decodeTerms (sg_text seg)) i)"

text \<open>Frozen segments search the key table, the others walk their keys.\<close>

fun walk_keys :: "bytes list \<Rightarrow> bytes \<Rightarrow> nat \<Rightarrow> nat option" where
  "walk_keys [] key i = None"
| "walk_keys (k # ks) key i = (if k = key then Some i else walk_keys ks key (Suc i))"

definition seg_find :: "segment \<Rightarrow> bytes \<Rightarrow> nat option" where
  "seg_find seg key =
     (case sg_kind seg of
        Hnsw \<Rightarrow> walk_keys (sg_keys seg) key 0
      | _ \<Rightarrow> ik_find (buildInternedKeys (sg_keys seg)) key)"

definition seg_doc :: "segment \<Rightarrow> bytes \<Rightarrow> vdoc option" where
  "seg_doc seg key = map_option (seg_at seg) (seg_find seg key)"

definition seg_HasKey :: "segment \<Rightarrow> bytes \<Rightarrow> bool" where
  "seg_HasKey seg key \<longleftrightarrow> key \<in> set (filter (\<lambda>k. k \<noteq> []) (sg_keys seg))"

definition seg_Len :: "segment \<Rightarrow> nat" where
  "seg_Len seg = length (sg_keys seg)"

subsection \<open>Well-formed segments\<close>

definition seg_wf :: "nat \<Rightarrow> segment \<Rightarrow> bool" where
  "seg_wf dim seg \<longleftrightarrow> length (sg_rows seg) = length (sg_keys seg) \<and> length (sg_keys seg) < 2 ^ 32 \<and>
     key_bytes (sg_keys seg) < 2 ^ 32 \<and> distinct (filter (\<lambda>k. k \<noteq> []) (sg_keys seg)) \<and>
     (sg_kind seg = Hnsw \<longrightarrow> [] \<notin> set (sg_keys seg)) \<and> (\<forall>row \<in> set (sg_rows seg). length row = dim) \<and>
     (\<forall>i < length (sg_keys seg). terms_ok (termsAt (decodeTerms (sg_text seg)) i))"

lemma walk_keys_Some:
  "walk_keys ks key m = Some i \<Longrightarrow> m \<le> i \<and> i - m < length ks \<and> ks ! (i - m) = key"
proof (induction ks arbitrary: m)
  case Nil
  then show ?case by simp
next
  case (Cons k ks)
  show ?case
  proof (cases "k = key")
    case True
    with Cons.prems show ?thesis by simp
  next
    case False
    with Cons.prems have "walk_keys ks key (Suc m) = Some i" by simp
    from Cons.IH[OF this] have i: "Suc m \<le> i" "i - Suc m < length ks" "ks ! (i - Suc m) = key" by simp_all
    then have "i - m = Suc (i - Suc m)" by simp
    with i show ?thesis by simp
  qed
qed

lemma walk_keys_None: "walk_keys ks key m = None \<longleftrightarrow> key \<notin> set ks"
  by (induction ks arbitrary: m) auto

lemma unique_nonempty:
  assumes "distinct (filter (\<lambda>k. k \<noteq> []) ks)" "i < length ks" "j < length ks" "ks ! i = ks ! j" "ks ! i \<noteq> []"
  shows "i = j"
  using assms
proof (induction ks arbitrary: i j)
  case Nil
  then show ?case by simp
next
  case (Cons k ks)
  from Cons.prems(1) have d: "distinct (filter (\<lambda>k. k \<noteq> []) ks)" "k \<noteq> [] \<Longrightarrow> k \<notin> set ks"
    by (auto split: if_splits)
  have miss: False if "n < length ks" "ks ! n = k" "k \<noteq> []" for n
    using that d(2) nth_mem[of n ks] by simp
  show ?case
  proof (cases i; cases j)
    fix i' j' assume "i = Suc i'" "j = Suc j'"
    with Cons.prems d(1) Cons.IH[of i' j'] show ?thesis by simp
  next
    fix j' assume "i = 0" "j = Suc j'"
    with Cons.prems miss[of j'] show ?thesis by simp
  next
    fix i' assume "i = Suc i'" "j = 0"
    with Cons.prems miss[of i'] show ?thesis by simp
  qed simp
qed

lemma distinct_filter_nth:
  assumes "\<And>i j. i < length ks \<Longrightarrow> j < length ks \<Longrightarrow> ks ! i = ks ! j \<Longrightarrow> ks ! i \<noteq> [] \<Longrightarrow> i = j"
  shows "distinct (filter (\<lambda>k. k \<noteq> []) ks)"
  using assms
proof (induction ks)
  case Nil
  then show ?case by simp
next
  case (Cons k ks)
  have "distinct (filter (\<lambda>k. k \<noteq> []) ks)"
    using Cons.prems[of "Suc _" "Suc _"] by (intro Cons.IH) auto
  moreover have "k \<notin> set ks" if "k \<noteq> []"
  proof
    assume "k \<in> set ks"
    then obtain j where "j < length ks" "ks ! j = k" unfolding in_set_conv_nth by blast
    with Cons.prems[of 0 "Suc j"] that show False by simp
  qed
  ultimately show ?case by simp
qed

lemma seg_find_iff:
  assumes wf: "seg_wf dim seg"
  shows "seg_find seg key = Some i \<longleftrightarrow> key \<noteq> [] \<and> i < length (sg_keys seg) \<and> sg_keys seg ! i = key"
proof (cases "key = []")
  case True
  have "seg_find seg [] = None"
    using wf find_absent[of "sg_keys seg" "[]"]
    by (cases "sg_kind seg") (simp_all add: seg_find_def seg_wf_def walk_keys_None)
  with True show ?thesis by simp
next
  case False
  let ?ks = "sg_keys seg"
  have w: "key_bytes ?ks < 2 ^ 32" "length ?ks < 2 ^ 32" "distinct (filter (\<lambda>k. k \<noteq> []) ?ks)"
    using wf by (simp_all add: seg_wf_def)
  have u: "a = b" if "a < length ?ks" "b < length ?ks" "?ks ! a = key" "?ks ! b = key" for a b
    using unique_nonempty[OF w(3) that(1,2)] that(3,4) False by simp
  have table: "ik_find (buildInternedKeys ?ks) key = Some i \<longleftrightarrow> i < length ?ks \<and> ?ks ! i = key"
    using u False by (intro find_built[OF w(1,2)]) blast+
  have walk: "walk_keys ?ks key 0 = Some i \<longleftrightarrow> i < length ?ks \<and> ?ks ! i = key"
  proof
    assume "walk_keys ?ks key 0 = Some i"
    from walk_keys_Some[OF this] show "i < length ?ks \<and> ?ks ! i = key" by simp
  next
    assume i: "i < length ?ks \<and> ?ks ! i = key"
    then have "walk_keys ?ks key 0 \<noteq> None" unfolding walk_keys_None by auto
    then obtain j where j: "walk_keys ?ks key 0 = Some j" by auto
    from walk_keys_Some[OF j] i u[of i j] j show "walk_keys ?ks key 0 = Some i" by simp
  qed
  show ?thesis using table walk False by (cases "sg_kind seg") (simp_all add: seg_find_def)
qed

lemma seg_doc_iff:
  assumes wf: "seg_wf dim seg"
  shows "seg_doc seg key = Some d \<longleftrightarrow>
    key \<noteq> [] \<and> (\<exists>i < length (sg_keys seg). sg_keys seg ! i = key \<and> d = seg_at seg i)"
  using seg_find_iff[OF wf, of key] by (auto simp: seg_doc_def)

lemma seg_doc_HasKey:
  assumes wf: "seg_wf dim seg"
  shows "seg_doc seg key \<noteq> None \<longleftrightarrow> seg_HasKey seg key"
proof
  assume "seg_doc seg key \<noteq> None"
  then obtain d where "seg_doc seg key = Some d" by blast
  with seg_doc_iff[OF wf, of key d] show "seg_HasKey seg key" by (auto simp: seg_HasKey_def)
next
  assume "seg_HasKey seg key"
  then obtain i where i: "i < length (sg_keys seg)" "sg_keys seg ! i = key" "key \<noteq> []"
    by (auto simp: seg_HasKey_def in_set_conv_nth)
  then have "seg_doc seg key = Some (seg_at seg i)" using seg_doc_iff[OF wf, of key "seg_at seg i"] by blast
  then show "seg_doc seg key \<noteq> None" by simp
qed

subsection \<open>Entries as a map\<close>

definition ent_find :: "delta_entry list \<Rightarrow> bytes \<Rightarrow> delta_entry option" where
  "ent_find es k = find (\<lambda>e. Key e = k) es"

lemma ent_find_iff:
  "distinct (map Key es) \<Longrightarrow> ent_find es k = Some e \<longleftrightarrow> e \<in> set es \<and> Key e = k"
  by (induction es) (auto simp: ent_find_def)

lemma ent_find_nth:
  "distinct (map Key es) \<Longrightarrow> i < length es \<Longrightarrow> ent_find es (Key (es ! i)) = Some (es ! i)"
  by (simp add: ent_find_iff)

lemma ent_find_mset:
  assumes "mset es = mset es'" "distinct (map Key es)"
  shows "ent_find es = ent_find es'"
proof
  fix k
  have "distinct (map Key es')" using assms by (metis mset_eq_imp_distinct_iff mset_map)
  moreover have "set es = set es'" using assms(1) by (metis set_mset_mset)
  ultimately have "ent_find es k = Some e \<longleftrightarrow> ent_find es' k = Some e" for e
    using assms(2) by (simp add: ent_find_iff)
  then show "ent_find es k = ent_find es' k" by (metis option.exhaust)
qed

text \<open>The bounds of a build: fewer than \<open>2 ^ 32 / 3\<close> entries, less than \<open>2 ^ 32\<close> terms and bytes of
  keys.\<close>

definition fits :: "delta_entry list \<Rightarrow> bool" where
  "fits es \<longleftrightarrow> 3 * length es < 2 ^ 32 \<and> term_total es < 2 ^ 32 \<and> key_bytes (map Key es) < 2 ^ 32"

text \<open>What the entries of a build keep to.\<close>

definition entries_ok :: "nat \<Rightarrow> delta_entry list \<Rightarrow> bool" where
  "entries_ok dim es \<longleftrightarrow> distinct (map Key es) \<and> (\<forall>e \<in> set es. Key e \<noteq> [] \<and> terms_ok (Terms e) \<and> length (Vec e) = dim)"

lemma sum_list_mset: "mset xs = mset ys \<Longrightarrow> sum_list (map f xs) = (sum_list (map f ys) :: nat)"
  by (metis mset_map sum_mset_sum_list)

lemma buildSegment_doc:
  assumes lib: "lib_ok lib" and sq: "\<not> UseSQ cfg" and fit: "fits es" and ok: "entries_ok dim es" and ne: "es \<noteq> []"
  obtains seg where "buildSegment cfg lib es dim = Some seg" "seg_wf dim seg"
    "\<And>k. seg_doc seg k = map_option entry_doc (ent_find es k)"
proof -
  obtain es1 codes presets where l: "tenant_layout cfg lib es = (es1, codes, presets)"
    by (cases "tenant_layout cfg lib es")
  have small: "3 * length es < 2 ^ 32" using fit by (simp add: fits_def)
  note lay = tenant_layout_ok[OF lib small l]
  obtain seg where seg: "buildSegment cfg lib es dim = Some seg" "sg_keys seg = map Key es1"
    "sg_rows seg = (if UseSQ cfg then sq8 lib (map Vec es1) else map Vec es1)"
    "sg_attrs seg = buildSegmentAttrs es1 presets" "sg_text seg = buildSegmentText es1"
    by (rule buildSegment_ok[OF lib small ne l])
  have s1: "set es1 = set es" using lay(1) by (metis set_mset_mset)
  have tot: "term_total es1 < 2 ^ 32" "key_bytes (map Key es1) < 2 ^ 32"
    using fit sum_list_mset[OF lay(1)] by (simp_all add: fits_def term_total_def key_bytes_def comp_def)
  have d1: "distinct (map Key es1)" using ok lay(1) unfolding entries_ok_def by (metis mset_eq_imp_distinct_iff mset_map)
  have e1: "\<forall>e \<in> set es1. Key e \<noteq> [] \<and> terms_ok (Terms e) \<and> length (Vec e) = dim"
    using ok s1 by (simp add: entries_ok_def)
  have at: "seg_at seg i = entry_doc (es1 ! i)" if "i < length es1" for i
    using that seg decode_build[OF lay(3) that] decode_text[of es1 i] e1 tot small lay(2) sq
    by (simp add: seg_at_def entry_doc_def)
  have nonempty: "filter (\<lambda>k. k \<noteq> []) (map Key es1) = map Key es1"
    using e1 by (simp add: filter_id_conv)
  have wf: "seg_wf dim seg"
    unfolding seg_wf_def seg(2)
  proof (intro conjI ballI allI impI)
    show "distinct (filter (\<lambda>k. k \<noteq> []) (map Key es1))" using d1 unfolding nonempty .
    show "terms_ok (termsAt (decodeTerms (sg_text seg)) i)" if "i < length (map Key es1)" for i
      using that decode_text[of es1 i] e1 tot small lay(2) seg(5) by simp
    show "length row = dim" if "row \<in> set (sg_rows seg)" for row using that seg(3) sq e1 by auto
  qed (use seg(3) sq small lay(2) tot e1 in auto)
  have doc: "seg_doc seg k = map_option entry_doc (ent_find es k)" for k
  proof -
    have "seg_doc seg k = Some x \<longleftrightarrow> map_option entry_doc (ent_find es1 k) = Some x" for x
    proof -
      have "seg_doc seg k = Some x \<longleftrightarrow> k \<noteq> [] \<and> (\<exists>i < length es1. Key (es1 ! i) = k \<and> x = entry_doc (es1 ! i))"
        using seg_doc_iff[OF wf, of k x] at unfolding seg(2) by auto
      also have "\<dots> \<longleftrightarrow> (\<exists>e \<in> set es1. Key e = k \<and> x = entry_doc e)"
        using e1 nth_mem[of _ es1] by (metis in_set_conv_nth)
      also have "\<dots> \<longleftrightarrow> map_option entry_doc (ent_find es1 k) = Some x"
        using ent_find_iff[OF d1, of k] by auto
      finally show ?thesis .
    qed
    moreover have "ent_find es1 = ent_find es" using ent_find_mset[OF lay(1) d1] .
    ultimately show ?thesis by (metis option.exhaust)
  qed
  from that[OF seg(1) wf doc] show ?thesis .
qed

subsection \<open>The first layer that answers\<close>

fun first_some :: "('k \<Rightarrow> 'v option) list \<Rightarrow> 'k \<Rightarrow> 'v option" where
  "first_some [] k = None"
| "first_some (f # fs) k = (case f k of None \<Rightarrow> first_some fs k | Some v \<Rightarrow> Some v)"

lemma first_some_append:
  "first_some (fs @ gs) k = (case first_some fs k of None \<Rightarrow> first_some gs k | Some v \<Rightarrow> Some v)"
  by (induction fs) (auto split: option.splits)

lemma first_some_None: "first_some fs k = None \<longleftrightarrow> (\<forall>f \<in> set fs. f k = None)"
  by (induction fs) (auto split: option.splits)

lemma first_some_agree:
  "\<forall>f \<in> set fs. f k = None \<or> f k = x \<Longrightarrow> x \<noteq> None \<Longrightarrow> \<exists>f \<in> set fs. f k = x \<Longrightarrow> first_some fs k = x"
  by (induction fs) (auto split: option.splits)

subsection \<open>Freezing a shard\<close>

definition delta_doc :: "delta \<Rightarrow> bytes \<Rightarrow> vdoc option" where
  "delta_doc d k = map_option entry_doc (delta_view d k)"

definition shard_doc :: "dshard \<Rightarrow> bytes \<Rightarrow> vdoc option" where
  "shard_doc s k = map_option entry_doc (shard_view s k)"

lemma freeze_graph_rows:
  assumes "FreezeGraphOrdered dim g keys None = Some (rows, ks)"
  shows "length rows = length (gnodes g)" "length ks = length (gnodes g)"
    "i < length (gnodes g) \<Longrightarrow> galive (gnodes g ! i) \<Longrightarrow>
       rows ! i = gvec (gnodes g ! i) \<and> ks ! i = (case map_of keys i of None \<Rightarrow> [] | Some k \<Rightarrow> k)"
    "i < length (gnodes g) \<Longrightarrow> \<not> galive (gnodes g ! i) \<Longrightarrow> rows ! i = replicate dim 0 \<and> ks ! i = []"
proof -
  let ?n = "length (gnodes g)"
  from assms have f: "foldl (freeze_node (gnodes g) keys None) (replicate ?n (replicate dim 0), replicate ?n []) [0..<?n] = (rows, ks)"
    by (auto simp: FreezeGraphOrdered_def Let_def split: if_splits)
  have at: "freeze_at None = (\<lambda>i. i)" by (simp add: fun_eq_iff freeze_at_def)
  show "length rows = ?n" "length ks = ?n" using freeze_fold_length[OF f] by simp_all
  show "rows ! i = gvec (gnodes g ! i) \<and> ks ! i = (case map_of keys i of None \<Rightarrow> [] | Some k \<Rightarrow> k)"
    if "i < ?n" "galive (gnodes g ! i)"
    using freeze_fold_at[OF f, of i] that by (simp add: at)
  show "rows ! i = replicate dim 0 \<and> ks ! i = []" if "i < ?n" "\<not> galive (gnodes g ! i)"
    using freeze_fold_other[OF f, of i] that by (auto simp: at)
qed

lemma freeze_shard_doc:
  assumes ok: "slots_ok s" "nodes_ok s" and sq: "\<not> UseSQ cfg" and ne: "keyIdx s \<noteq> []"
    and small: "length (gnodes (s_graph s)) < 2 ^ 32" "key_bytes (map Key (shard_entries s)) < 2 ^ 32"
    and plain: "\<And>k e. shard_view s k = Some e \<Longrightarrow> length (Vec e) = dim \<and> attrs_empty (Attrs e) \<and> Terms e = []"
  obtains seg where "freeze_shard cfg lib dim s = Some seg" "seg_wf dim seg" "seg_doc seg = shard_doc s"
proof -
  let ?g = "s_graph s" and ?n = "length (gnodes (s_graph s))"
  have n: "\<And>g k. map_of (nodeKey s) g = Some k \<longleftrightarrow> map_of (keyNode s) k = Some g"
    "\<And>g. map_of (nodeKey s) g \<noteq> None \<longleftrightarrow> alive_at ?g g"
    "\<And>k. map_of (keyNode s) k = None \<longleftrightarrow> map_of (keyIdx s) k = None"
    "\<And>k g i. map_of (keyNode s) k = Some g \<Longrightarrow> map_of (keyIdx s) k = Some i \<Longrightarrow> gvec (gnodes ?g ! g) = s_rows s ! i"
    using ok(2) unfolding nodes_ok_def by blast+
  obtain k0 i0 where "map_of (keyIdx s) k0 = Some i0" using ne by (cases "keyIdx s") (auto, metis)
  with n(3)[of k0] obtain g0 where "map_of (keyNode s) k0 = Some g0" by auto
  with n(1,2)[of g0] have "?n \<noteq> 0" by (auto simp: alive_at_def)
  then obtain rows ks where fz: "FreezeGraphOrdered dim ?g (nodeKey s) None = Some (rows, ks)"
    by (cases "FreezeGraphOrdered dim ?g (nodeKey s) None") (auto simp: FreezeGraphOrdered_def Let_def)
  note f = freeze_graph_rows[OF fz]
  define seg where "seg = \<lparr>sg_kind = Frozen, sg_keys = ks, sg_rows = rows, sg_cat = None, sg_attrs = None, sg_text = None\<rparr>"
  have eq: "freeze_shard cfg lib dim s = Some seg" using fz sq by (simp add: freeze_shard_def seg_def)
  have row: "\<exists>e. shard_view s (ks ! i) = Some e \<and> Vec e = rows ! i \<and> map_of (keyNode s) (ks ! i) = Some i"
    if i: "i < ?n" "ks ! i \<noteq> []" for i
  proof -
    have al: "galive (gnodes ?g ! i)" using f(4)[OF i(1)] i(2) by auto
    then obtain k where k: "map_of (nodeKey s) i = Some k" using n(2)[of i] i(1) by (auto simp: alive_at_def)
    with f(3)[OF i(1) al] have r: "rows ! i = gvec (gnodes ?g ! i)" "ks ! i = k" by simp_all
    from k n(1) have kn: "map_of (keyNode s) k = Some i" by simp
    with n(3)[of k] obtain j where j: "map_of (keyIdx s) k = Some j" by auto
    with n(4)[OF kn j] r kn show ?thesis by (simp add: shard_view_def shard_entry_def)
  qed
  have col: "\<exists>i < ?n. ks ! i = k" if v: "shard_view s k = Some e" for k e
  proof -
    from v obtain j where "map_of (keyIdx s) k = Some j" by (auto simp: shard_view_def)
    with n(3)[of k] obtain g where "map_of (keyNode s) k = Some g" by auto
    with n(1,2)[of g] have "map_of (nodeKey s) g = Some k" "alive_at ?g g" by auto
    with f(3)[of g] show ?thesis by (auto simp: alive_at_def)
  qed
  have inj: "i = j" if "i < ?n" "j < ?n" "ks ! i = ks ! j" "ks ! i \<noteq> []" for i j
  proof -
    from row[OF that(1,4)] have "map_of (keyNode s) (ks ! i) = Some i" by blast
    moreover have "ks ! j \<noteq> []" using that by simp
    from row[OF that(2) this] have "map_of (keyNode s) (ks ! j) = Some j" by blast
    ultimately show ?thesis unfolding that(3) by simp
  qed
  have dist: "distinct (filter (\<lambda>k. k \<noteq> []) ks)"
    using inj f(2) by (intro distinct_filter_nth) auto
  have keys: "key_bytes ks = key_bytes (map Key (shard_entries s))"
  proof -
    have "set (filter (\<lambda>k. k \<noteq> []) ks) = set (map Key (shard_entries s))"
    proof (intro set_eqI iffI)
      fix k assume "k \<in> set (filter (\<lambda>k. k \<noteq> []) ks)"
      then obtain i where "i < ?n" "ks ! i = k" "k \<noteq> []" using f(2) by (auto simp: in_set_conv_nth)
      with row[of i] obtain e where e: "shard_view s k = Some e" by auto
      then have "Key e = k" using slots_okD(2)[OF ok(1)] by (auto simp: shard_view_def shard_entry_def)
      with e \<open>k \<noteq> []\<close> shard_entries_view[OF ok(1), of e] show "k \<in> set (map Key (shard_entries s))" by force
    next
      fix k assume "k \<in> set (map Key (shard_entries s))"
      then obtain e where "e \<in> set (shard_entries s)" "Key e = k" by auto
      with shard_entries_view[OF ok(1), of e] col[of k e] f(2) show "k \<in> set (filter (\<lambda>k. k \<noteq> []) ks)"
        by (auto simp: in_set_conv_nth)
    qed
    with dist shard_entries_distinct[OF ok(1)]
    have "mset (filter (\<lambda>k. k \<noteq> []) ks) = mset (map Key (shard_entries s))" by (simp only: set_eq_iff_mset_eq_distinct)
    then have "key_bytes (filter (\<lambda>k. k \<noteq> []) ks) = key_bytes (map Key (shard_entries s))"
      unfolding key_bytes_def by (rule sum_list_mset)
    moreover have "key_bytes (filter (\<lambda>k. k \<noteq> []) ks) = key_bytes ks"
      by (induction ks) (auto simp: key_bytes_def)
    ultimately show ?thesis by simp
  qed
  have dims: "length r = dim" if "r \<in> set rows" for r
  proof -
    from that obtain i where i: "i < ?n" "rows ! i = r" using f(1) by (auto simp: in_set_conv_nth)
    show ?thesis
    proof (cases "galive (gnodes ?g ! i)")
      case False
      with f(4)[OF i(1)] i(2) show ?thesis by auto
    next
      case True
      then obtain k where k: "map_of (nodeKey s) i = Some k" using n(2)[of i] i(1) by (auto simp: alive_at_def)
      with n(1) have kn: "map_of (keyNode s) k = Some i" by simp
      with n(3)[of k] obtain j where j: "map_of (keyIdx s) k = Some j" by auto
      with n(4)[OF kn j] f(3)[OF i(1) True] i(2) plain[of k "shard_entry s j"] show ?thesis
        by (simp add: shard_view_def) (simp add: shard_entry_def)
    qed
  qed
  have wf: "seg_wf dim seg"
    unfolding seg_wf_def
    using f(1,2) small(1) small(2)[folded keys] dist dims
    by (simp add: seg_def termsAt_def decodeTerms_def terms_ok_def)
  have "seg_doc seg k = shard_doc s k" for k
  proof -
    have at: "seg_at seg i = entry_doc e" if "i < ?n" "ks ! i = k" "k \<noteq> []" "shard_view s k = Some e" for i e
    proof -
      have "Vec e = rows ! i" using row[of i] that by auto
      moreover have "Attrs e = no_attrs" "Terms e = []" using plain[OF that(4)] by (simp_all add: attrs_empty_iff)
      ultimately show ?thesis
        by (simp add: seg_at_def seg_def entry_doc_def termsAt_def decodeTerms_def decodeAt_def)
    qed
    have "seg_doc seg k = Some x \<longleftrightarrow> shard_doc s k = Some x" for x
    proof
      assume "seg_doc seg k = Some x"
      then obtain i where i: "k \<noteq> []" "i < ?n" "ks ! i = k" "x = seg_at seg i"
        using seg_doc_iff[OF wf, of k x] f(2) by (auto simp: seg_def)
      with row[of i] obtain e where "shard_view s k = Some e" by auto
      with at[OF i(2,3,1)] i(4) show "shard_doc s k = Some x" by (simp add: shard_doc_def)
    next
      assume "shard_doc s k = Some x"
      then obtain e where e: "shard_view s k = Some e" "x = entry_doc e" by (auto simp: shard_doc_def)
      then have "k \<noteq> []" using slots_okD(3)[OF ok(1)] by (auto simp: shard_view_def)
      moreover obtain i where "i < ?n" "ks ! i = k" using col[OF e(1)] by blast
      ultimately show "seg_doc seg k = Some x"
        using at[of i e] e seg_doc_iff[OF wf, of k x] f(2) by (auto simp: seg_def)
    qed
    then show ?thesis by (metis option.exhaust)
  qed
  then have "seg_doc seg = shard_doc s" by blast
  with that eq wf show ?thesis by blast
qed

subsection \<open>A flush publishes the delta\<close>

definition delta_wf :: "nat \<Rightarrow> delta \<Rightarrow> bool" where
  "delta_wf dim d \<longleftrightarrow> delta_ok d \<and> (\<forall>k e. delta_view d k = Some e \<longrightarrow> length (Vec e) = dim \<and> terms_ok (Terms e))"

definition delta_fits :: "delta \<Rightarrow> bool" where
  "delta_fits d \<longleftrightarrow> fits (ExtractAll d) \<and> (\<forall>s \<in> set (d_shards d). length (gnodes (s_graph s)) < 2 ^ 32)"

lemma shard_in_view:
  assumes ok: "delta_ok d" and s: "s \<in> set (d_shards d)" and v: "shard_view s k = Some e"
  shows "delta_view d k = Some e"
proof -
  obtain i where "i < length (d_shards d)" "d_shards d ! i = s" using s unfolding in_set_conv_nth by blast
  with delta_okD(4)[OF ok this(1), of k e] v show ?thesis by (simp add: delta_view_def)
qed

lemma key_bytes_part: "s \<in> set ss \<Longrightarrow> key_bytes (map Key (f s)) \<le> key_bytes (map Key (concat (map f ss)))"
  by (induction ss) (auto simp: key_bytes_def)

lemma freeze_shards_docs:
  assumes "\<And>s. s \<in> set ss \<Longrightarrow> keyIdx s \<noteq> [] \<Longrightarrow>
      \<exists>seg. freeze_shard cfg lib dim s = Some seg \<and> seg_wf dim seg \<and> seg_doc seg = shard_doc s"
  shows "\<exists>segs. freeze_shards cfg lib dim ss = Some segs \<and> (\<forall>seg \<in> set segs. seg_wf dim seg) \<and>
    seg_doc ` set segs = shard_doc ` {s \<in> set ss. keyIdx s \<noteq> []}"
  using assms
proof (induction ss)
  case Nil
  then show ?case by simp
next
  case (Cons s ss)
  obtain segs where ih: "freeze_shards cfg lib dim ss = Some segs" "\<forall>seg \<in> set segs. seg_wf dim seg"
    "seg_doc ` set segs = shard_doc ` {s \<in> set ss. keyIdx s \<noteq> []}"
    using Cons.IH Cons.prems by (meson list.set_intros(2))
  show ?case
  proof (cases "keyIdx s = []")
    case True
    then have "{x \<in> set (s # ss). keyIdx x \<noteq> []} = {x \<in> set ss. keyIdx x \<noteq> []}" by auto
    with True ih show ?thesis by simp
  next
    case False
    then obtain seg where seg: "freeze_shard cfg lib dim s = Some seg" "seg_wf dim seg" "seg_doc seg = shard_doc s"
      using Cons.prems[of s] by auto
    have "{x \<in> set (s # ss). keyIdx x \<noteq> []} = insert s {x \<in> set ss. keyIdx x \<noteq> []}" using False by auto
    with False ih seg show ?thesis by (intro exI[of _ "seg # segs"]) simp
  qed
qed

lemma flush_doc:
  assumes lib: "lib_ok lib" and sq: "\<not> UseSQ cfg" and wf: "delta_wf dim d" and fit: "delta_fits d" and live: "d_live d \<noteq> 0"
  obtains segs where "flush_segments cfg lib dim d = Some segs" "\<And>seg. seg \<in> set segs \<Longrightarrow> seg_wf dim seg"
    "first_some (map seg_doc (rev segs)) = delta_doc d"
proof -
  have ok: "delta_ok d" and vec: "\<And>k e. delta_view d k = Some e \<Longrightarrow> length (Vec e) = dim \<and> terms_ok (Terms e)"
    using wf by (auto simp: delta_wf_def)
  have fe: "fits (ExtractAll d)" using fit by (simp add: delta_fits_def)
  show thesis
  proof (cases "canFreeze cfg dim d")
    case False
    have "ExtractAll d \<noteq> []"
    proof
      assume none: "ExtractAll d = []"
      have "delta_view d k = None" for k
        using extract_view[OF ok] delta_reads(3)[OF ok, of k] none by (cases "delta_view d k") auto
      with live_view[OF ok] live show False by auto
    qed
    moreover have "entries_ok dim (ExtractAll d)"
      using extract_distinct[OF ok] extract_view[OF ok] vec by (auto simp: entries_ok_def)
    ultimately obtain seg where seg: "buildSegment cfg lib (ExtractAll d) dim = Some seg" "seg_wf dim seg"
      "\<And>k. seg_doc seg k = map_option entry_doc (ent_find (ExtractAll d) k)"
      using buildSegment_doc[OF lib sq fe] by metis
    have "ent_find (ExtractAll d) k = delta_view d k" for k
    proof -
      have "ent_find (ExtractAll d) k = Some e \<longleftrightarrow> delta_view d k = Some e" for e
        using ent_find_iff[OF extract_distinct[OF ok], of k e] extract_view[OF ok, of e] delta_reads(3)[OF ok, of k e] by auto
      then show ?thesis by (metis option.exhaust)
    qed
    then have "first_some (map seg_doc (rev [seg])) k = delta_doc d k" for k
      using seg(3) by (simp add: delta_doc_def split: option.splits)
    then have "first_some (map seg_doc (rev [seg])) = delta_doc d" by blast
    with that[of "[seg]"] seg(1,2) False show thesis by (simp add: flush_segments_def)
  next
    case True
    have one: "\<exists>seg. freeze_shard cfg lib dim s = Some seg \<and> seg_wf dim seg \<and> seg_doc seg = shard_doc s"
      if s: "s \<in> set (d_shards d)" "keyIdx s \<noteq> []" for s
    proof -
      have "key_bytes (map Key (shard_entries s)) \<le> key_bytes (map Key (ExtractAll d))"
        unfolding ExtractAll_def using s(1) by (rule key_bytes_part)
      then have kb: "key_bytes (map Key (shard_entries s)) < 2 ^ 32" using fe by (simp add: fits_def)
      have gn: "length (gnodes (s_graph s)) < 2 ^ 32" using fit s(1) by (auto simp: delta_fits_def)
      have plain: "length (Vec e) = dim \<and> attrs_empty (Attrs e) \<and> Terms e = []" if "shard_view s k = Some e" for k e
      proof -
        have "delta_view d k = Some e" using shard_in_view[OF ok s(1) that] .
        with vec delta_okD(7,8)[OF ok] True show ?thesis by (simp add: canFreeze_def)
      qed
      obtain seg where "freeze_shard cfg lib dim s = Some seg" "seg_wf dim seg" "seg_doc seg = shard_doc s"
        by (rule freeze_shard_doc[OF delta_okD(2,3)[OF ok s(1)] sq s(2) gn kb]) (use plain in auto)
      then show ?thesis by blast
    qed
    have "\<exists>segs. flush_segments cfg lib dim d = Some segs \<and> (\<forall>seg \<in> set segs. seg_wf dim seg) \<and>
        seg_doc ` set segs = shard_doc ` {s \<in> set (d_shards d). keyIdx s \<noteq> []}"
    proof (cases "length (d_shards d) = 1")
      case False
      with freeze_shards_docs[of "d_shards d", OF one] True show ?thesis by (simp add: flush_segments_def)
    next
      case single: True
      then obtain s where s: "d_shards d = [s]" by (auto simp: length_Suc_conv)
      with live delta_okD(5)[OF ok] have "keyIdx s \<noteq> []" by auto
      with one[of s] s True single obtain seg where
        "flush_segments cfg lib dim d = Some [seg]" "seg_wf dim seg" "seg_doc seg = shard_doc s"
        by (auto simp: flush_segments_def)
      with s \<open>keyIdx s \<noteq> []\<close> show ?thesis by (intro exI[of _ "[seg]"]) auto
    qed
    then obtain segs where segs: "flush_segments cfg lib dim d = Some segs" "\<forall>seg \<in> set segs. seg_wf dim seg"
      "seg_doc ` set segs = shard_doc ` {s \<in> set (d_shards d). keyIdx s \<noteq> []}" by blast
    have "first_some (map seg_doc (rev segs)) k = delta_doc d k" for k
    proof (cases "delta_view d k")
      case None
      have "f k = None" if f: "f \<in> seg_doc ` set segs" for f
      proof -
        from f segs(3) obtain s where "s \<in> set (d_shards d)" "f = shard_doc s" by auto
        with shard_in_view[OF ok, of s k] None show ?thesis
          by (cases "shard_view s k") (auto simp: shard_doc_def)
      qed
      with None show ?thesis by (simp add: delta_doc_def first_some_None)
    next
      case (Some e)
      let ?s = "d_shards d ! delta_shardFor d k"
      have s: "?s \<in> set (d_shards d)" using delta_shardFor_lt[OF delta_okD(1)[OF ok]] by simp
      have v: "shard_view ?s k = Some e" using Some by (simp add: delta_view_def)
      then have "keyIdx ?s \<noteq> []" by (auto simp: shard_view_def)
      with s segs(3) have "shard_doc ?s \<in> set (map seg_doc (rev segs))" by simp
      moreover have "shard_doc ?s k = Some (entry_doc e)" using v by (simp add: shard_doc_def)
      ultimately have hit: "\<exists>f \<in> set (map seg_doc (rev segs)). f k = Some (entry_doc e)" by blast
      have "f k = None \<or> f k = Some (entry_doc e)" if f: "f \<in> seg_doc ` set segs" for f
      proof -
        from f segs(3) obtain s' where "s' \<in> set (d_shards d)" "f = shard_doc s'" by auto
        with shard_in_view[OF ok, of s' k] Some show ?thesis
          by (cases "shard_view s' k") (auto simp: shard_doc_def)
      qed
      with hit have "first_some (map seg_doc (rev segs)) k = Some (entry_doc e)"
        by (intro first_some_agree) auto
      with Some show ?thesis by (simp add: delta_doc_def)
    qed
    then have "first_some (map seg_doc (rev segs)) = delta_doc d" by blast
    with that segs(1,2) show thesis by blast
  qed
qed

subsection \<open>Merging segments\<close>

text \<open>The copy of a row into a fresh slice of the dimension of the store.\<close>

definition copy_row :: "nat \<Rightarrow> f32 list \<Rightarrow> f32 list" where
  "copy_row dim row = take dim row @ replicate (dim - length row) 0"

definition seg_entry :: "nat \<Rightarrow> segment \<Rightarrow> nat \<Rightarrow> delta_entry" where
  "seg_entry dim seg i =
     \<lparr>Key = sg_keys seg ! i, Vec = copy_row dim (sg_rows seg ! i), Attrs = decodeAt (sg_attrs seg) i,
      Terms = termsAt (decodeTerms (sg_text seg)) i\<rparr>"

record merging =
  m_entries :: "delta_entry list"
  m_seen :: "(bytes, nat) gomap"
  m_applied :: "bytes set"

text \<open>\<open>addEntry\<close>: a later entry of a key takes the place of the earlier one.\<close>

definition merge_add :: "delta_entry \<Rightarrow> merging \<Rightarrow> merging" where
  "merge_add e m =
     (case map_of (m_seen m) (Key e) of
        Some pos \<Rightarrow> m\<lparr>m_entries := (m_entries m)[pos := e]\<rparr>
      | None \<Rightarrow> m\<lparr>m_seen := AList.update (Key e) (length (m_entries m)) (m_seen m), m_entries := m_entries m @ [e]\<rparr>)"

definition merge_pos :: "nat \<Rightarrow> bytes set \<Rightarrow> segment \<Rightarrow> merging \<Rightarrow> nat \<Rightarrow> merging" where
  "merge_pos dim ts seg m i =
     (if sg_keys seg ! i = [] then m
      else if sg_keys seg ! i \<in> ts then m\<lparr>m_applied := insert (sg_keys seg ! i) (m_applied m)\<rparr>
      else merge_add (seg_entry dim seg i) m)"

definition merge_collect :: "nat \<Rightarrow> bytes set \<Rightarrow> segment list \<Rightarrow> merging" where
  "merge_collect dim ts segs =
     foldl (\<lambda>m seg. foldl (merge_pos dim ts seg) m [0..<length (sg_keys seg)])
       \<lparr>m_entries = [], m_seen = [], m_applied = {}\<rparr> segs"

text \<open>The new segment, if any, and the deleted keys it left out.\<close>

definition mergeSegments :: "vconfig \<Rightarrow> vlib \<Rightarrow> nat \<Rightarrow> bytes set \<Rightarrow> segment list \<Rightarrow> segment option \<times> bytes set" where
  "mergeSegments cfg lib dim ts segs =
     (if dim = 0 then (None, {})
      else
        (let m = merge_collect dim ts segs in
         if m_entries m = [] then (None, {})
         else (buildSegment cfg lib (m_entries m) dim, m_applied m)))"

definition merging_ok :: "merging \<Rightarrow> bool" where
  "merging_ok m \<longleftrightarrow> distinct (map Key (m_entries m)) \<and>
     (\<forall>k p. map_of (m_seen m) k = Some p \<longleftrightarrow> p < length (m_entries m) \<and> Key (m_entries m ! p) = k)"

lemma merge_add_ok:
  assumes ok: "merging_ok m"
  shows "merging_ok (merge_add e m)"
    and "ent_find (m_entries (merge_add e m)) = (ent_find (m_entries m))(Key e \<mapsto> e)"
    and "m_applied (merge_add e m) = m_applied m"
    and "set (m_entries (merge_add e m)) \<subseteq> insert e (set (m_entries m))"
proof -
  let ?es = "m_entries m"
  have d: "distinct (map Key ?es)"
    and seen: "\<And>k p. map_of (m_seen m) k = Some p \<longleftrightarrow> p < length ?es \<and> Key (?es ! p) = k"
    using ok unfolding merging_ok_def by blast+
  have all: "merging_ok (merge_add e m) \<and> set (m_entries (merge_add e m)) \<subseteq> insert e (set ?es) \<and>
      (\<forall>x. x \<in> set (m_entries (merge_add e m)) \<longleftrightarrow> x = e \<or> x \<in> set ?es \<and> Key x \<noteq> Key e)"
  proof (cases "map_of (m_seen m) (Key e)")
    case None
    have fresh: "Key (?es ! p) \<noteq> Key e" if "p < length ?es" for p
      using seen[of "Key e" p] None that by auto
    have new: "Key e \<notin> Key ` set ?es"
    proof
      assume "Key e \<in> Key ` set ?es"
      then obtain p where "p < length ?es" "Key (?es ! p) = Key e" by (auto simp: in_set_conv_nth)
      with fresh show False by blast
    qed
    have other: "Key x \<noteq> Key e" if "x \<in> set ?es" for x
      using imageI[OF that, of Key] new by metis
    from None have eq: "merge_add e m =
        m\<lparr>m_seen := AList.update (Key e) (length ?es) (m_seen m), m_entries := ?es @ [e]\<rparr>"
      by (simp add: merge_add_def)
    moreover have "map_of (AList.update (Key e) (length ?es) (m_seen m)) k = Some p \<longleftrightarrow>
        p < length (?es @ [e]) \<and> Key ((?es @ [e]) ! p) = k" for k p
      using seen[of k p] fresh[of p] by (auto simp: nth_append less_Suc_eq)
    ultimately have "merging_ok (merge_add e m)" using d new by (simp add: merging_ok_def)
    then show ?thesis using other by (auto simp: eq)
  next
    case (Some p)
    with seen have p: "p < length ?es" "Key (?es ! p) = Key e" by simp_all
    from Some have eq: "merge_add e m = m\<lparr>m_entries := ?es[p := e]\<rparr>" by (simp add: merge_add_def)
    have keys: "map Key (?es[p := e]) = map Key ?es" using p by (simp add: map_update list_update_same_conv)
    moreover have "Key (?es[p := e] ! q) = Key (?es ! q)" for q using p by (cases "q = p") auto
    ultimately have "merging_ok (merge_add e m)"
      using d seen unfolding eq merging_ok_def by simp
    moreover have "x \<in> set (?es[p := e]) \<longleftrightarrow> x = e \<or> x \<in> set ?es \<and> Key x \<noteq> Key e" for x
    proof
      assume "x \<in> set (?es[p := e])"
      then obtain q where q: "q < length ?es" "x = ?es[p := e] ! q" by (auto simp: in_set_conv_nth)
      show "x = e \<or> x \<in> set ?es \<and> Key x \<noteq> Key e"
      proof (cases "q = p")
        case False
        with q(1) d p(1) have "Key (?es ! q) \<noteq> Key (?es ! p)" by (simp add: distinct_conv_nth)
        with False q p show ?thesis by simp
      qed (use q p in simp)
    next
      assume x: "x = e \<or> x \<in> set ?es \<and> Key x \<noteq> Key e"
      show "x \<in> set (?es[p := e])"
      proof (cases "x = e")
        case True
        with p show ?thesis by (simp add: set_update_memI)
      next
        case False
        with x obtain q where q: "q < length ?es" "?es ! q = x" "Key x \<noteq> Key e" by (auto simp: in_set_conv_nth)
        then have "q \<noteq> p" using p(2) by auto
        with q have "?es[p := e] ! q = x" "q < length (?es[p := e])" by simp_all
        then show ?thesis by (metis nth_mem)
      qed
    qed
    ultimately show ?thesis unfolding eq by auto
  qed
  then show "merging_ok (merge_add e m)" "set (m_entries (merge_add e m)) \<subseteq> insert e (set ?es)" by blast+
  show "m_applied (merge_add e m) = m_applied m" by (simp add: merge_add_def split: option.splits)
  have d': "distinct (map Key (m_entries (merge_add e m)))" using all by (simp add: merging_ok_def)
  show "ent_find (m_entries (merge_add e m)) = (ent_find ?es)(Key e \<mapsto> e)"
  proof
    fix k
    have "ent_find (m_entries (merge_add e m)) k = Some x \<longleftrightarrow> ((ent_find ?es)(Key e \<mapsto> e)) k = Some x" for x
      using ent_find_iff[OF d', of k x] ent_find_iff[OF d, of k x] all by auto
    then show "ent_find (m_entries (merge_add e m)) k = ((ent_find ?es)(Key e \<mapsto> e)) k"
      by (metis option.exhaust)
  qed
qed

lemma find_append_some:
  "find P (xs @ ys) = (case find P xs of Some x \<Rightarrow> Some x | None \<Rightarrow> find P ys)"
  by (induction xs) auto

lemma merge_seg_ok:
  assumes ok: "merging_ok m" and wf: "seg_wf dim seg" and m': "m' = foldl (merge_pos dim ts seg) m [0..<n]"
    and n: "n \<le> length (sg_keys seg)"
  shows "merging_ok m' \<and> (\<forall>e \<in> set (m_entries m'). e \<in> set (m_entries m) \<or> (\<exists>i < n. e = seg_entry dim seg i \<and> Key e \<noteq> [])) \<and>
    m_applied m' = m_applied m \<union> {k. k \<noteq> [] \<and> k \<in> ts \<and> (\<exists>i < n. sg_keys seg ! i = k)} \<and>
    (\<forall>k. ent_find (m_entries m') k =
       (case find (\<lambda>i. k \<noteq> [] \<and> sg_keys seg ! i = k \<and> k \<notin> ts) [0..<n] of
          Some i \<Rightarrow> Some (seg_entry dim seg i) | None \<Rightarrow> ent_find (m_entries m) k))"
  using m' n
proof (induction n arbitrary: m')
  case 0
  with ok show ?case by simp
next
  case (Suc n)
  define m1 where "m1 = foldl (merge_pos dim ts seg) m [0..<n]"
  have m': "m' = merge_pos dim ts seg m1 n" using Suc.prems(1) by (simp add: m1_def)
  have ih: "merging_ok m1" "\<forall>e \<in> set (m_entries m1). e \<in> set (m_entries m) \<or> (\<exists>i < n. e = seg_entry dim seg i \<and> Key e \<noteq> [])"
    "m_applied m1 = m_applied m \<union> {k. k \<noteq> [] \<and> k \<in> ts \<and> (\<exists>i < n. sg_keys seg ! i = k)}"
    "\<And>k. ent_find (m_entries m1) k =
       (case find (\<lambda>i. k \<noteq> [] \<and> sg_keys seg ! i = k \<and> k \<notin> ts) [0..<n] of
          Some i \<Rightarrow> Some (seg_entry dim seg i) | None \<Rightarrow> ent_find (m_entries m) k)"
    using Suc.IH[OF m1_def] Suc.prems(2) by auto
  let ?k = "sg_keys seg ! n"
  have uniq: "find (\<lambda>i. k \<noteq> [] \<and> sg_keys seg ! i = k \<and> k \<notin> ts) [0..<n] = None" if "k = ?k" for k
  proof -
    have d: "distinct (filter (\<lambda>k. k \<noteq> []) (sg_keys seg))" using wf by (simp add: seg_wf_def)
    have "i = n" if "i < n" "sg_keys seg ! i = ?k" "?k \<noteq> []" for i
      using unique_nonempty[OF d, of i n] Suc.prems(2) that by simp
    with that show ?thesis unfolding find_None_iff by auto
  qed
  have last: "find P [0..<Suc n] = (case find P [0..<n] of Some i \<Rightarrow> Some i | None \<Rightarrow> if P n then Some n else None)"
    for P by (simp add: find_append_some split: option.splits)
  consider (empty) "?k = []" | (dead) "?k \<noteq> []" "?k \<in> ts" | (live) "?k \<noteq> []" "?k \<notin> ts" by blast
  then show ?case
  proof cases
    case empty
    then have eq: "m' = m1" by (simp add: m' merge_pos_def)
    show ?thesis unfolding eq last using ih empty by (auto simp: less_Suc_eq split: option.splits)
  next
    case dead
    then have eq: "m' = m1\<lparr>m_applied := insert ?k (m_applied m1)\<rparr>" by (simp add: m' merge_pos_def)
    show ?thesis unfolding eq last using ih dead
      by (auto simp: less_Suc_eq merging_ok_def split: option.splits)
  next
    case live
    then have eq: "m' = merge_add (seg_entry dim seg n) m1" by (simp add: m' merge_pos_def)
    have key: "Key (seg_entry dim seg n) = ?k" by (simp add: seg_entry_def)
    note add = merge_add_ok[OF ih(1), of "seg_entry dim seg n", unfolded key, folded eq]
    have "ent_find (m_entries m') k = (case find (\<lambda>i. k \<noteq> [] \<and> sg_keys seg ! i = k \<and> k \<notin> ts) [0..<Suc n] of
          Some i \<Rightarrow> Some (seg_entry dim seg i) | None \<Rightarrow> ent_find (m_entries m) k)" for k
      using live uniq[of k] ih(4)[of k] unfolding add(2) last by (cases "k = ?k") (auto split: option.splits)
    moreover have "m_applied m' = m_applied m \<union> {k. k \<noteq> [] \<and> k \<in> ts \<and> (\<exists>i < Suc n. sg_keys seg ! i = k)}"
      using add(3) ih(3) live by (auto simp: less_Suc_eq)
    moreover have "e \<in> set (m_entries m) \<or> (\<exists>i < Suc n. e = seg_entry dim seg i \<and> Key e \<noteq> [])"
      if "e \<in> set (m_entries m')" for e
      using that add(4) ih(2) live key by (fastforce simp: less_Suc_eq)
    ultimately show ?thesis using add(1) by blast
  qed
qed

lemma seg_find_pos:
  assumes wf: "seg_wf dim seg"
  shows "map_option (\<lambda>i. entry_doc (seg_entry dim seg i))
      (find (\<lambda>i. k \<noteq> [] \<and> sg_keys seg ! i = k \<and> k \<notin> ts) [0..<length (sg_keys seg)]) =
    (if k \<in> ts then None else seg_doc seg k)"
proof (cases "find (\<lambda>i. k \<noteq> [] \<and> sg_keys seg ! i = k \<and> k \<notin> ts) [0..<length (sg_keys seg)]")
  case None
  then have "\<not> (k \<noteq> [] \<and> i < length (sg_keys seg) \<and> sg_keys seg ! i = k \<and> k \<notin> ts)" for i
    unfolding find_None_iff by auto
  then have "k \<notin> ts \<Longrightarrow> seg_doc seg k \<noteq> Some d" for d using seg_doc_iff[OF wf, of k d] by auto
  with None show ?thesis by (cases "seg_doc seg k") auto
next
  case (Some i)
  then have i: "k \<noteq> []" "i < length (sg_keys seg)" "sg_keys seg ! i = k" "k \<notin> ts"
    unfolding find_Some_iff by auto
  have "sg_rows seg ! i \<in> set (sg_rows seg)" using wf i(2) by (simp add: seg_wf_def)
  then have "length (sg_rows seg ! i) = dim" using wf by (simp add: seg_wf_def)
  then have "entry_doc (seg_entry dim seg i) = seg_at seg i"
    by (simp add: entry_doc_def seg_entry_def seg_at_def copy_row_def)
  moreover have "seg_doc seg k = Some (seg_at seg i)" using seg_doc_iff[OF wf, of k] i by blast
  ultimately show ?thesis using Some i(4) by simp
qed

lemma merge_collect_ok:
  assumes "\<forall>seg \<in> set segs. seg_wf dim seg"
  shows "merging_ok (merge_collect dim ts segs) \<and> entries_ok dim (m_entries (merge_collect dim ts segs)) \<and>
    m_applied (merge_collect dim ts segs) = {k \<in> ts. \<exists>seg \<in> set segs. seg_HasKey seg k} \<and>
    (\<forall>k. map_option entry_doc (ent_find (m_entries (merge_collect dim ts segs)) k) =
       (if k \<in> ts then None else first_some (map seg_doc (rev segs)) k))"
  using assms
proof (induction segs rule: rev_induct)
  case Nil
  then show ?case by (simp add: merge_collect_def merging_ok_def entries_ok_def ent_find_def)
next
  case (snoc seg segs)
  define m where "m = merge_collect dim ts segs"
  define m' where "m' = merge_collect dim ts (segs @ [seg])"
  have wf: "seg_wf dim seg" using snoc.prems by simp
  have m': "m' = foldl (merge_pos dim ts seg) m [0..<length (sg_keys seg)]"
    by (simp add: m'_def m_def merge_collect_def)
  have ih: "merging_ok m" "entries_ok dim (m_entries m)"
    "m_applied m = {k \<in> ts. \<exists>seg \<in> set segs. seg_HasKey seg k}"
    "\<And>k. map_option entry_doc (ent_find (m_entries m) k) = (if k \<in> ts then None else first_some (map seg_doc (rev segs)) k)"
    using snoc unfolding m_def by auto
  have step: "merging_ok m'"
    "\<forall>e \<in> set (m_entries m'). e \<in> set (m_entries m) \<or> (\<exists>i < length (sg_keys seg). e = seg_entry dim seg i \<and> Key e \<noteq> [])"
    "m_applied m' = m_applied m \<union> {k. k \<noteq> [] \<and> k \<in> ts \<and> (\<exists>i < length (sg_keys seg). sg_keys seg ! i = k)}"
    "\<And>k. ent_find (m_entries m') k =
       (case find (\<lambda>i. k \<noteq> [] \<and> sg_keys seg ! i = k \<and> k \<notin> ts) [0..<length (sg_keys seg)] of
          Some i \<Rightarrow> Some (seg_entry dim seg i) | None \<Rightarrow> ent_find (m_entries m) k)"
    using merge_seg_ok[OF ih(1) wf m'] by auto
  have new: "terms_ok (Terms (seg_entry dim seg i)) \<and> length (Vec (seg_entry dim seg i)) = dim"
    if "i < length (sg_keys seg)" for i
    using wf that by (simp add: seg_entry_def seg_wf_def copy_row_def)
  have "entries_ok dim (m_entries m')"
    using step(1,2) ih(2) new unfolding entries_ok_def merging_ok_def by blast
  moreover have "m_applied m' = {k \<in> ts. \<exists>seg \<in> set (segs @ [seg]). seg_HasKey seg k}"
    unfolding step(3) ih(3) by (auto simp: seg_HasKey_def in_set_conv_nth)
  moreover have "map_option entry_doc (ent_find (m_entries m') k) =
      (if k \<in> ts then None else first_some (map seg_doc (rev (segs @ [seg]))) k)" for k
    using seg_find_pos[OF wf, of k ts] step(4)[of k] ih(4)[of k] by (auto split: option.splits if_splits)
  ultimately show ?case using step(1) unfolding m'_def by blast
qed

lemma mergeSegments_doc:
  assumes lib: "lib_ok lib" and sq: "\<not> UseSQ cfg" and wf: "\<forall>seg \<in> set segs. seg_wf dim seg"
    and fit: "fits (m_entries (merge_collect dim ts segs))"
    and res: "mergeSegments cfg lib dim ts segs = (Some seg, applied)"
  shows "seg_wf dim seg" "seg_doc seg k = (if k \<in> ts then None else first_some (map seg_doc (rev segs)) k)"
    "applied = {k \<in> ts. \<exists>seg \<in> set segs. seg_HasKey seg k}"
proof -
  let ?m = "merge_collect dim ts segs"
  note c = merge_collect_ok[OF wf, of ts]
  from res have ne: "m_entries ?m \<noteq> []" and b: "buildSegment cfg lib (m_entries ?m) dim = Some seg"
    and a: "applied = m_applied ?m"
    by (auto simp: mergeSegments_def Let_def split: if_splits)
  obtain seg' where "buildSegment cfg lib (m_entries ?m) dim = Some seg'" "seg_wf dim seg'"
    "\<And>k. seg_doc seg' k = map_option entry_doc (ent_find (m_entries ?m) k)"
    using buildSegment_doc[OF lib sq fit _ ne] c by blast
  with b c show "seg_wf dim seg" "seg_doc seg k = (if k \<in> ts then None else first_some (map seg_doc (rev segs)) k)"
    by simp_all
  show "applied = {k \<in> ts. \<exists>seg \<in> set segs. seg_HasKey seg k}" using a c by simp
qed

end
