(* ===== verification/VecStore.thy ===== *)
theory VecStore
  imports VecView
begin

text \<open>
  The vector store (\<open>vector/leveled_store.go\<close>, \<open>leveled_compaction.go\<close>): the active delta, the deltas
  being flushed, the levels of segments, the set of deleted keys (tombstones), and the coordinator with
  the goroutines it starts. Every critical section under \<open>lvs.mu\<close> is one function; a run is a list of
  events in the order the lock was taken. What happens outside the lock is split where another section
  can come between: the coordinator reads the epoch before it locks, swaps the delta, and locks again to
  schedule merges; a merge locks once for its snapshot and is applied later. A segment or a delta is
  identified by a number, which stands for the pointer that the code compares.
\<close>

subsection \<open>Settings and checks\<close>

record lconfig =
  lc_vec :: vconfig
  DeltaMax :: int
  Fanout :: int
  MergeBatchMax :: int
  DeltaShards :: int

text \<open>The defaults that \<open>NewLeveledVectorStore\<close> puts in.\<close>

definition lc_defaults :: "lconfig \<Rightarrow> lconfig" where
  "lc_defaults cfg =
     (let f = (if Fanout cfg \<le> 0 then 4 else Fanout cfg) in
      cfg\<lparr>Fanout := f,
          MergeBatchMax := (if MergeBatchMax cfg \<le> 0 then 8 * f else if MergeBatchMax cfg < f then f else MergeBatchMax cfg)\<rparr>)"

definition maxLevels :: nat where "maxLevels = 8"
definition flushingBacklogCap :: nat where "flushingBacklogCap = 2"
definition deltaHardGrowthFactor :: nat where "deltaHardGrowthFactor = 4"
definition MaxKeyLen :: nat where "MaxKeyLen = 65535"

definition deltaMax :: "int \<Rightarrow> int \<Rightarrow> int" where
  "deltaMax dim cfgMax =
     (if cfgMax > 0 then cfgMax
      else if dim \<le> 0 then 1
      else (let bySize = 100 * 1024 * 1024 div (dim * 4) in if bySize > 50000 then 50000 else bySize))"

datatype verror = ErrEmptyKey | ErrKeyTooLong | ErrEmptyVector | ErrInvalidVectorValue | DimMismatch nat nat

definition ValidateKey :: "bytes \<Rightarrow> verror option" where
  "ValidateKey key =
     (if key = [] then Some ErrEmptyKey else if length key > MaxKeyLen then Some ErrKeyTooLong else None)"

text \<open>NaN and infinity have all bits of the exponent set.\<close>

definition f32_finite :: "f32 \<Rightarrow> bool" where
  "f32_finite v \<longleftrightarrow> (unat v div 2 ^ 23) mod 256 \<noteq> 255"

definition ValidateVector :: "f32 list \<Rightarrow> verror option" where
  "ValidateVector vec =
     (if vec = [] then Some ErrEmptyVector
      else if \<exists>v \<in> set vec. \<not> f32_finite v then Some ErrInvalidVectorValue else None)"

subsection \<open>State\<close>

type_synonym seg_ref = "nat \<times> segment"

text \<open>A goroutine in flight: a flush with its delta and the dimension of then; a merge of a level or of
  everything, with the dimension and tombstones it has read once it has started.\<close>

datatype task =
  FlushTask nat delta nat
| MergeTask nat "seg_ref list" nat "(nat \<times> bytes set) option"
| ConsTask nat "seg_ref list" nat "(nat \<times> bytes set) option"

text \<open>Where the coordinator is: in its select, after reading the epoch, before scheduling merges.\<close>

datatype cphase = CWait | CRead nat | CSched nat

record vstore =
  v_delta :: "delta option"
  v_dim :: nat
  v_flushing :: "delta list"
  v_levels :: "seg_ref list list"
  v_tombs :: "bytes set"
  v_epoch :: nat
  v_merging :: "bool list"
  v_cons :: bool
  v_builds :: int
  v_tasks :: "task list"
  v_signal :: bool
  v_phase :: cphase
  v_next :: nat

text \<open>What a store runs with: settings, libraries, and the hash of each delta (its random seed).\<close>

record venv =
  e_cfg :: lconfig
  e_lib :: vlib
  e_hash :: "nat \<Rightarrow> bytes \<Rightarrow> nat"

abbreviation e_vec :: "venv \<Rightarrow> vconfig" where "e_vec E \<equiv> lc_vec (e_cfg E)"

definition vs_new :: vstore where
  "vs_new = \<lparr>v_delta = None, v_dim = 0, v_flushing = [], v_levels = replicate maxLevels [], v_tombs = {},
     v_epoch = 0, v_merging = replicate maxLevels False, v_cons = False, v_builds = 0, v_tasks = [],
     v_signal = False, v_phase = CWait, v_next = 0\<rparr>"

definition deltaShardCount :: "lconfig \<Rightarrow> nat" where
  "deltaShardCount cfg = (if DeltaShards cfg > 1 then nat (DeltaShards cfg) else 1)"

definition fresh_delta :: "venv \<Rightarrow> nat \<Rightarrow> nat \<Rightarrow> delta" where
  "fresh_delta E i dim =
     NewDeltaSegmentSharded i (nat (deltaMax (int dim) (DeltaMax (e_cfg E)))) (e_hash E i) (deltaShardCount (e_cfg E))"

subsection \<open>Writing\<close>

definition initDelta :: "venv \<Rightarrow> nat \<Rightarrow> vstore \<Rightarrow> vstore" where
  "initDelta E dim s =
     (case v_delta s of
        Some d \<Rightarrow> s
      | None \<Rightarrow> s\<lparr>v_dim := dim, v_delta := Some (fresh_delta E (v_next s) dim), v_next := v_next s + 1\<rparr>)"

definition addEntry :: "venv \<Rightarrow> bytes \<Rightarrow> f32 list \<Rightarrow> attributes \<Rightarrow> term_tf list \<Rightarrow> vstore \<Rightarrow> verror option \<times> vstore" where
  "addEntry E key vec a ts s =
     (case ValidateKey key of
        Some e \<Rightarrow> (Some e, s)
      | None \<Rightarrow>
          (case ValidateVector vec of
             Some e \<Rightarrow> (Some e, s)
           | None \<Rightarrow>
               (let s1 = initDelta E (length vec) s in
                if length vec \<noteq> v_dim s1 then (Some (DimMismatch (v_dim s1) (length vec)), s1)
                else (case v_delta s1 of
                        None \<Rightarrow> (None, s1)
                      | Some d \<Rightarrow>
                          (let (full, d') = AppendDoc key vec a ts d;
                               s2 = s1\<lparr>v_delta := Some d', v_tombs := v_tombs s1 - {key}\<rparr> in
                           (None, if full then s2\<lparr>v_signal := True\<rparr> else s2))))))"

definition keyInFlushing :: "vstore \<Rightarrow> bytes \<Rightarrow> bool" where
  "keyInFlushing s key \<longleftrightarrow> (\<exists>d \<in> set (v_flushing s). delta_Contains d key)"

definition keyPhysicallyInSegments :: "vstore \<Rightarrow> bytes \<Rightarrow> bool" where
  "keyPhysicallyInSegments s key \<longleftrightarrow> (\<exists>(i, seg) \<in> set (concat (v_levels s)). seg_HasKey seg key)"

definition vs_Delete :: "bytes \<Rightarrow> vstore \<Rightarrow> bool \<times> vstore" where
  "vs_Delete key s =
     (let (found, s1) =
        (case v_delta s of
           None \<Rightarrow> (False, s)
         | Some d \<Rightarrow> (let (f, d') = delta_Delete key d in (f, s\<lparr>v_delta := Some d'\<rparr>))) in
      if found then
        (if keyInFlushing s1 key \<or> keyPhysicallyInSegments s1 key
         then (True, s1\<lparr>v_tombs := insert key (v_tombs s1)\<rparr>)
         else (True, s1\<lparr>v_tombs := v_tombs s1 - {key}\<rparr>))
      else if key \<in> v_tombs s1 then (False, s1)
      else if \<not> keyInFlushing s1 key \<and> \<not> keyPhysicallyInSegments s1 key then (False, s1)
      else (True, s1\<lparr>v_tombs := insert key (v_tombs s1)\<rparr>))"

definition vs_Clear :: "vstore \<Rightarrow> vstore" where
  "vs_Clear s = s\<lparr>v_epoch := v_epoch s + 1, v_delta := None, v_dim := 0,
     v_levels := map (\<lambda>_. []) (v_levels s), v_flushing := [], v_tombs := {}\<rparr>"

definition vs_FlushDelta :: "vstore \<Rightarrow> vstore" where
  "vs_FlushDelta s =
     (case v_delta s of
        None \<Rightarrow> s
      | Some d \<Rightarrow> if d_live d = 0 then s else s\<lparr>v_signal := True\<rparr>)"

subsection \<open>Reading\<close>

text \<open>The segments, newest first: the levels upwards, each from its end.\<close>

definition read_order :: "seg_ref list list \<Rightarrow> segment list" where
  "read_order ls = map snd (concat (map rev ls))"

definition seg_Get :: "segment \<Rightarrow> bytes \<Rightarrow> f32 list option" where
  "seg_Get seg key = map_option (\<lambda>i. sg_rows seg ! i) (seg_find seg key)"

definition vs_Get :: "vstore \<Rightarrow> bytes \<Rightarrow> f32 list option" where
  "vs_Get s key =
     (case (case v_delta s of None \<Rightarrow> None | Some d \<Rightarrow> delta_Get d key) of
        Some v \<Rightarrow> Some v
      | None \<Rightarrow>
          if key \<in> v_tombs s then None
          else (case first_some (map delta_Get (rev (v_flushing s))) key of
                  Some v \<Rightarrow> Some v
                | None \<Rightarrow> first_some (map seg_Get (read_order (v_levels s))) key))"

definition vs_Len :: "vstore \<Rightarrow> nat" where
  "vs_Len s = (case v_delta s of None \<Rightarrow> 0 | Some d \<Rightarrow> d_live d) + sum_list (map d_live (v_flushing s)) +
     sum_list (map (\<lambda>(i, seg). seg_Len seg) (concat (v_levels s)))"

text \<open>\<open>Info\<close>: the count (the tombstones taken off), the dimension, the highest level in use.\<close>

definition vs_Info :: "vstore \<Rightarrow> nat \<times> nat \<times> nat" where
  "vs_Info s =
     (vs_Len s - card (v_tombs s), v_dim s,
      foldl (\<lambda>m i. if v_levels s ! i \<noteq> [] \<and> i > m then i else m) 0 [0..<length (v_levels s)])"

subsection \<open>The coordinator\<close>

definition put_level :: "nat \<Rightarrow> seg_ref list \<Rightarrow> vstore \<Rightarrow> vstore" where
  "put_level l segs s = s\<lparr>v_levels := (v_levels s)[l := segs]\<rparr>"

text \<open>\<open>handleCompactSignal\<close>, first part: take the signal and read the epoch without the lock.\<close>

definition compact_read :: "vstore \<Rightarrow> vstore" where
  "compact_read s = s\<lparr>v_signal := False, v_phase := CRead (v_epoch s)\<rparr>"

text \<open>Second part, under the lock: swap the delta, unless it is empty or the backlog is full, and start
  its flush with the epoch read before.\<close>

definition must_wait :: "vstore \<Rightarrow> delta \<Rightarrow> bool" where
  "must_wait s d \<longleftrightarrow> length (v_flushing s) \<ge> flushingBacklogCap \<and> d_live d < deltaHardGrowthFactor * d_maxSize d"

definition compact_swap :: "venv \<Rightarrow> nat \<Rightarrow> vstore \<Rightarrow> vstore" where
  "compact_swap E e s =
     (case v_delta s of
        None \<Rightarrow> s\<lparr>v_phase := CSched e\<rparr>
      | Some d \<Rightarrow>
          if d_live d = 0 \<or> must_wait s d then s\<lparr>v_phase := CSched e\<rparr>
          else s\<lparr>v_delta := Some (fresh_delta E (v_next s) (v_dim s)), v_next := v_next s + 1,
                 v_flushing := v_flushing s @ [d], v_tasks := v_tasks s @ [FlushTask e d (v_dim s)],
                 v_builds := v_builds s + 1, v_phase := CSched e\<rparr>)"

text \<open>\<open>maybeScheduleMergesLocked\<close>.\<close>

fun sched_levels :: "venv \<Rightarrow> nat \<Rightarrow> bool \<Rightarrow> nat list \<Rightarrow> vstore \<Rightarrow> vstore" where
  "sched_levels E e defer [] s = s"
| "sched_levels E e defer (l # ls) s =
     (let n = int (length (v_levels s ! l)); fanout = Fanout (e_cfg E) in
      if v_merging s ! l then sched_levels E e defer ls s
      else if n < fanout then sched_levels E e defer ls s
      else if defer \<and> n < 2 * fanout then sched_levels E e defer ls s
      else if v_epoch s \<noteq> e then s
      else sched_levels E e defer ls
        (s\<lparr>v_merging := (v_merging s)[l := True],
           v_tasks := v_tasks s @ [MergeTask l (take (nat (min n (MergeBatchMax (e_cfg E)))) (v_levels s ! l)) e None]\<rparr>))"

definition maybeScheduleMerges :: "venv \<Rightarrow> nat \<Rightarrow> vstore \<Rightarrow> vstore" where
  "maybeScheduleMerges E e s =
     (if v_cons s then s
      else sched_levels E e (v_flushing s \<noteq> [] \<or> v_builds s > 0) [0..<maxLevels - 1] s)"

definition compact_sched :: "venv \<Rightarrow> nat \<Rightarrow> vstore \<Rightarrow> vstore" where
  "compact_sched E e s = (maybeScheduleMerges E e s)\<lparr>v_phase := CWait\<rparr>"

text \<open>\<open>handleIdleTick\<close>, when there has been no change for long enough.\<close>

definition idle_tick :: "vstore \<Rightarrow> vstore" where
  "idle_tick s =
     (if (case v_delta s of None \<Rightarrow> False | Some d \<Rightarrow> d_live d > 0) then s\<lparr>v_signal := True\<rparr>
      else if v_cons s \<or> v_builds s > 0 \<or> True \<in> set (v_merging s) then s
      else
        (let toMerge = concat (rev (v_levels s));
             highest = foldl (\<lambda>h l. if v_levels s ! l \<noteq> [] \<and> h = 0 then l else h) 0 (rev [0..<maxLevels]);
             lens = map (\<lambda>(i, seg). seg_Len seg) toMerge;
             total = sum_list lens; largest = foldl max 0 lens in
         if length toMerge \<le> 1 then s
         else if total = 0 \<or> largest * 10 \<ge> total * 9 then s
         else s\<lparr>v_cons := True,
                v_tasks := v_tasks s @ [ConsTask (if highest + 1 \<ge> maxLevels then maxLevels - 1 else highest + 1)
                   toMerge (v_epoch s) None]\<rparr>))"

text \<open>The snapshot at the start of \<open>mergeSegments\<close>.\<close>

definition merge_snap :: "nat \<Rightarrow> vstore \<Rightarrow> vstore option" where
  "merge_snap i s =
     (if i < length (v_tasks s) then
        (case v_tasks s ! i of
           MergeTask l segs e None \<Rightarrow>
             Some (s\<lparr>v_tasks := (v_tasks s)[i := MergeTask l segs e (Some (v_dim s, v_tombs s))]\<rparr>)
         | ConsTask l segs e None \<Rightarrow>
             Some (s\<lparr>v_tasks := (v_tasks s)[i := ConsTask l segs e (Some (v_dim s, v_tombs s))]\<rparr>)
         | _ \<Rightarrow> None)
      else None)"

subsection \<open>Applying results\<close>

fun removeFlushing :: "nat \<Rightarrow> delta list \<Rightarrow> delta list" where
  "removeFlushing i [] = []"
| "removeFlushing i (d # ds) = (if d_id d = i then ds else d # removeFlushing i ds)"

definition removeSegments :: "nat list \<Rightarrow> seg_ref list \<Rightarrow> seg_ref list" where
  "removeSegments gone level = filter (\<lambda>(i, seg). i \<notin> set gone) level"

definition keyInOtherSegments :: "vstore \<Rightarrow> nat \<Rightarrow> bytes \<Rightarrow> bool" where
  "keyInOtherSegments s new key \<longleftrightarrow> (\<exists>(i, seg) \<in> set (concat (v_levels s)). i \<noteq> new \<and> seg_HasKey seg key)"

definition clearAppliedTombstones :: "bytes set \<Rightarrow> nat \<Rightarrow> vstore \<Rightarrow> vstore" where
  "clearAppliedTombstones applied new s =
     s\<lparr>v_tombs := v_tombs s - {k \<in> applied. \<not> keyInOtherSegments s new k}\<rparr>"

text \<open>New segments get the next numbers.\<close>

definition number_from :: "nat \<Rightarrow> segment list \<Rightarrow> seg_ref list" where
  "number_from n segs = zip [n..<n + length segs] segs"

definition append_level :: "nat \<Rightarrow> segment list \<Rightarrow> vstore \<Rightarrow> vstore" where
  "append_level l segs s =
     (put_level l (v_levels s ! l @ number_from (v_next s) segs) s)\<lparr>v_next := v_next s + length segs\<rparr>"

text \<open>The end of \<open>applyResult\<close>: schedule merges, and ask for a swap when the delta is full.\<close>

definition after_apply :: "venv \<Rightarrow> nat \<Rightarrow> vstore \<Rightarrow> vstore" where
  "after_apply E e s =
     (let s1 = maybeScheduleMerges E e s in
      case v_delta s1 of
        None \<Rightarrow> s1
      | Some d \<Rightarrow> if delta_Full d then s1\<lparr>v_signal := True\<rparr> else s1)"

definition apply_flush :: "venv \<Rightarrow> nat \<Rightarrow> delta \<Rightarrow> nat \<Rightarrow> vstore \<Rightarrow> vstore" where
  "apply_flush E e d dim s =
     (let s1 = s\<lparr>v_builds := v_builds s - 1, v_flushing := removeFlushing (d_id d) (v_flushing s)\<rparr> in
      if v_epoch s \<noteq> e then s1
      else
        (case flush_segments (e_vec E) (e_lib E) dim d of
           None \<Rightarrow> after_apply E e s1
         | Some segs \<Rightarrow> after_apply E e (append_level 0 segs s1)))"

definition apply_merge :: "venv \<Rightarrow> nat \<Rightarrow> seg_ref list \<Rightarrow> nat \<Rightarrow> nat \<Rightarrow> bytes set \<Rightarrow> vstore \<Rightarrow> vstore" where
  "apply_merge E l segs e dim ts s =
     (let s1 = s\<lparr>v_merging := (v_merging s)[l := False]\<rparr> in
      if v_epoch s \<noteq> e then s1
      else
        (case mergeSegments (e_vec E) (e_lib E) dim ts (map snd segs) of
           (None, applied) \<Rightarrow> s1
         | (Some seg, applied) \<Rightarrow>
             (let s2 = put_level l (removeSegments (map fst segs) (v_levels s1 ! l)) s1;
                  s3 = append_level (l + 1) [seg] s2 in
              after_apply E e (clearAppliedTombstones applied (v_next s) s3))))"

definition apply_cons :: "venv \<Rightarrow> nat \<Rightarrow> seg_ref list \<Rightarrow> nat \<Rightarrow> nat \<Rightarrow> bytes set \<Rightarrow> vstore \<Rightarrow> vstore" where
  "apply_cons E l segs e dim ts s =
     (let s1 = s\<lparr>v_cons := False\<rparr> in
      if v_epoch s \<noteq> e then s1
      else
        (case mergeSegments (e_vec E) (e_lib E) dim ts (map snd segs) of
           (None, applied) \<Rightarrow> s1
         | (Some seg, applied) \<Rightarrow>
             (let s2 = s1\<lparr>v_levels := map (removeSegments (map fst segs)) (v_levels s1)\<rparr>;
                  s3 = append_level l [seg] s2 in
              after_apply E e (clearAppliedTombstones applied (v_next s) s3))))"

text \<open>\<open>applyResult\<close> for the goroutine at a position; a merge must have taken its snapshot.\<close>

definition del_nth :: "nat \<Rightarrow> 'a list \<Rightarrow> 'a list" where
  "del_nth i xs = take i xs @ drop (Suc i) xs"

definition applyResult :: "venv \<Rightarrow> nat \<Rightarrow> vstore \<Rightarrow> vstore option" where
  "applyResult E i s =
     (if i < length (v_tasks s) then
        (let s0 = s\<lparr>v_tasks := del_nth i (v_tasks s)\<rparr> in
         case v_tasks s ! i of
           FlushTask e d dim \<Rightarrow> Some (apply_flush E e d dim s0)
         | MergeTask l segs e (Some (dim, ts)) \<Rightarrow> Some (apply_merge E l segs e dim ts s0)
         | ConsTask l segs e (Some (dim, ts)) \<Rightarrow> Some (apply_cons E l segs e dim ts s0)
         | _ \<Rightarrow> None)
      else None)"

subsection \<open>Runs\<close>

datatype vevent =
  EAdd bytes "f32 list" attributes "term_tf list"
| EDelete bytes
| EClear
| EFlush
| ERead
| ESwap
| ESched
| ESnap nat
| EApply nat
| EIdle

text \<open>One step; \<open>None\<close> where the event cannot happen. The coordinator is one goroutine: it takes a
  signal, a result or a tick only when it waits.\<close>

fun vs_step :: "venv \<Rightarrow> vevent \<Rightarrow> vstore \<Rightarrow> vstore option" where
  "vs_step E (EAdd key vec a ts) s = Some (snd (addEntry E key vec a ts s))"
| "vs_step E (EDelete key) s = Some (snd (vs_Delete key s))"
| "vs_step E EClear s = Some (vs_Clear s)"
| "vs_step E EFlush s = Some (vs_FlushDelta s)"
| "vs_step E ERead s = (if v_signal s \<and> v_phase s = CWait then Some (compact_read s) else None)"
| "vs_step E ESwap s = (case v_phase s of CRead e \<Rightarrow> Some (compact_swap E e s) | _ \<Rightarrow> None)"
| "vs_step E ESched s = (case v_phase s of CSched e \<Rightarrow> Some (compact_sched E e s) | _ \<Rightarrow> None)"
| "vs_step E (ESnap i) s = merge_snap i s"
| "vs_step E (EApply i) s = (if v_phase s = CWait then applyResult E i s else None)"
| "vs_step E EIdle s = (if v_phase s = CWait then Some (idle_tick s) else None)"

fun vs_run :: "venv \<Rightarrow> vevent list \<Rightarrow> vstore \<Rightarrow> vstore option" where
  "vs_run E [] s = Some s"
| "vs_run E (ev # evs) s = (case vs_step E ev s of None \<Rightarrow> None | Some s' \<Rightarrow> vs_run E evs s')"

end
