(* ===== verification/VecRefine.thy ===== *)
theory VecRefine
  imports VecStore
begin

text \<open>
  The vector store as a map from keys to documents. The abstract store is the map with the dimension its
  first vector fixed. The concrete one answers a key from the newest of its layers: the active delta,
  the deltas being flushed, the segments; a tombstone hides everything below the active delta.
  \<open>vinv\<close> is the invariant the proof carries through every critical section, \<open>orderly\<close> the three
  conditions on the schedule under which the store is the map: flushes are applied in the order of the
  swaps, a delta is swapped with the epoch of now, and a merge drops no tombstone of a key that a delta
  in flight holds. The code enforces none of the three; that each is needed is shown in \<open>VecRuns\<close>.
\<close>

subsection \<open>Sources of documents\<close>

text \<open>Deltas and segments answer keys and know which keys they hold.\<close>

locale doc_source =
  fixes wf :: "'s \<Rightarrow> bool" and doc :: "'s \<Rightarrow> bytes \<Rightarrow> vdoc option" and has :: "'s \<Rightarrow> bytes \<Rightarrow> bool"
  assumes has_doc: "wf x \<Longrightarrow> doc x k \<noteq> None \<longleftrightarrow> has x k"
begin

lemma layer_None:
  assumes "\<forall>x \<in> set xs. wf x"
  shows "first_some (map doc xs) k = None \<longleftrightarrow> (\<forall>x \<in> set xs. \<not> has x k)"
proof -
  have "doc x k = None \<longleftrightarrow> \<not> has x k" if "x \<in> set xs" for x using assms has_doc that by blast
  then show ?thesis by (simp add: first_some_None)
qed

end

interpretation seg_source: doc_source "seg_wf dim" seg_doc seg_HasKey
  by unfold_locales (rule seg_doc_HasKey)

interpretation delta_source: doc_source delta_ok delta_doc delta_Contains
  by unfold_locales (simp add: delta_doc_def delta_reads(1))

subsection \<open>The map the store stands for\<close>

definition layers :: "vstore \<Rightarrow> (bytes \<Rightarrow> vdoc option) list" where
  "layers s = map delta_doc (rev (v_flushing s)) @ map seg_doc (read_order (v_levels s))"

definition active_doc :: "vstore \<Rightarrow> bytes \<Rightarrow> vdoc option" where
  "active_doc s k = (case v_delta s of None \<Rightarrow> None | Some d \<Rightarrow> delta_doc d k)"

definition vs_doc :: "vstore \<Rightarrow> bytes \<Rightarrow> vdoc option" where
  "vs_doc s k =
     (case active_doc s k of
        Some x \<Rightarrow> Some x
      | None \<Rightarrow> if k \<in> v_tombs s then None else first_some (layers s) k)"

type_synonym vspec = "nat option \<times> (bytes \<Rightarrow> vdoc option)"

fun spec_step :: "vevent \<Rightarrow> vspec \<Rightarrow> vspec" where
  "spec_step (EAdd key vec a ts) (dim, m) =
     (if ValidateKey key \<noteq> None \<or> ValidateVector vec \<noteq> None then (dim, m)
      else if dim \<noteq> None \<and> dim \<noteq> Some (length vec) then (dim, m)
      else (Some (length vec), m(key \<mapsto> (vec, attr_view a, ts))))"
| "spec_step (EDelete key) (dim, m) = (dim, m(key := None))"
| "spec_step EClear sp = (None, Map.empty)"
| "spec_step _ sp = sp"

definition vs_abs :: "vstore \<Rightarrow> vspec" where
  "vs_abs s = (map_option (\<lambda>_. v_dim s) (v_delta s), vs_doc s)"

subsection \<open>The invariant\<close>

definition in_delta :: "vstore \<Rightarrow> bytes \<Rightarrow> bool" where
  "in_delta s k \<longleftrightarrow> (case v_delta s of None \<Rightarrow> False | Some d \<Rightarrow> delta_view d k \<noteq> None)"

definition in_flushing :: "vstore \<Rightarrow> bytes \<Rightarrow> bool" where
  "in_flushing s k \<longleftrightarrow> (\<exists>d \<in> set (v_flushing s). delta_view d k \<noteq> None)"

definition in_segs :: "seg_ref list \<Rightarrow> bytes \<Rightarrow> bool" where
  "in_segs rs k \<longleftrightarrow> (\<exists>r \<in> set rs. seg_HasKey (snd r) k)"

definition delta_ids :: "vstore \<Rightarrow> nat set" where
  "delta_ids s = (case v_delta s of None \<Rightarrow> {} | Some d \<Rightarrow> {d_id d})"

definition active_ok :: "vstore \<Rightarrow> bool" where
  "active_ok s \<longleftrightarrow>
     (case v_delta s of
        None \<Rightarrow> v_flushing s = [] \<and> concat (v_levels s) = [] \<and> v_tombs s = {}
      | Some d \<Rightarrow> delta_wf (v_dim s) d \<and> d_id d < v_next s \<and> d_id d \<notin> d_id ` set (v_flushing s) \<and>
          (\<forall>k \<in> v_tombs s. delta_view d k = None))"

definition base_ok :: "vstore \<Rightarrow> bool" where
  "base_ok s \<longleftrightarrow> active_ok s \<and>
     (\<forall>d \<in> set (v_flushing s). delta_wf (v_dim s) d \<and> d_live d \<noteq> 0 \<and> d_id d < v_next s) \<and>
     distinct (map d_id (v_flushing s)) \<and> length (v_levels s) = maxLevels \<and> length (v_merging s) = maxLevels \<and>
     (\<forall>r \<in> set (concat (v_levels s)). seg_wf (v_dim s) (snd r) \<and> fst r < v_next s) \<and>
     distinct (map fst (concat (v_levels s)))"

text \<open>A merge has left out the keys that were deleted at its snapshot. Each of them that its inputs hold
  is still deleted or has been written again, in a layer newer than the inputs.\<close>

definition renewed :: "vstore \<Rightarrow> seg_ref list \<Rightarrow> bytes \<Rightarrow> bool" where
  "renewed s newer k \<longleftrightarrow> k \<in> v_tombs s \<or> in_delta s k \<or> in_flushing s k \<or> in_segs newer k"

definition covered :: "vstore \<Rightarrow> seg_ref list \<Rightarrow> bytes set \<Rightarrow> seg_ref list \<Rightarrow> bool" where
  "covered s newer ts segs \<longleftrightarrow> (\<forall>k \<in> ts. in_segs segs k \<longrightarrow> renewed s newer k)"

definition snap_ok :: "vstore \<Rightarrow> seg_ref list \<Rightarrow> seg_ref list \<Rightarrow> (nat \<times> bytes set) option \<Rightarrow> bool" where
  "snap_ok s newer segs snap \<longleftrightarrow>
     (case snap of None \<Rightarrow> True | Some (dim, ts) \<Rightarrow> dim = v_dim s \<and> covered s newer ts segs)"

definition level_newer :: "vstore \<Rightarrow> nat \<Rightarrow> nat \<Rightarrow> seg_ref list" where
  "level_newer s l n = concat (take l (v_levels s)) @ drop n (v_levels s ! l)"

fun task_ok :: "vstore \<Rightarrow> task \<Rightarrow> bool" where
  "task_ok s (FlushTask e d dim) \<longleftrightarrow> e \<le> v_epoch s \<and> d_id d < v_next s \<and> d_id d \<notin> delta_ids s \<and>
     (if e = v_epoch s then d \<in> set (v_flushing s) \<and> dim = v_dim s else d_id d \<notin> d_id ` set (v_flushing s))"
| "task_ok s (MergeTask l segs e snap) \<longleftrightarrow> e \<le> v_epoch s \<and> l < maxLevels - 1 \<and> v_merging s ! l \<and>
     (e = v_epoch s \<longrightarrow> segs \<noteq> [] \<and> segs = take (length segs) (v_levels s ! l) \<and>
        snap_ok s (level_newer s l (length segs)) segs snap)"
| "task_ok s (ConsTask l segs e snap) \<longleftrightarrow> e \<le> v_epoch s \<and> 0 < l \<and> l < maxLevels \<and> v_cons s \<and>
     (e = v_epoch s \<longrightarrow> segs \<noteq> [] \<and> (\<exists>n. segs = concat (rev (take n (v_levels s ! 0) # tl (v_levels s))) \<and>
        snap_ok s (drop n (v_levels s ! 0)) segs snap))"

datatype slot = FlushSlot nat | MergeSlot nat | ConsSlot

fun task_slot :: "task \<Rightarrow> slot" where
  "task_slot (FlushTask e d dim) = FlushSlot (d_id d)"
| "task_slot (MergeTask l segs e snap) = MergeSlot l"
| "task_slot (ConsTask l segs e snap) = ConsSlot"

definition vinv :: "vstore \<Rightarrow> bool" where
  "vinv s \<longleftrightarrow> base_ok s \<and> (\<forall>t \<in> set (v_tasks s). task_ok s t) \<and> distinct (map task_slot (v_tasks s)) \<and>
     (v_cons s \<longrightarrow> True \<notin> set (v_merging s))"

definition env_ok :: "venv \<Rightarrow> bool" where
  "env_ok E \<longleftrightarrow> lib_ok (e_lib E) \<and> \<not> UseSQ (e_vec E) \<and> 1 \<le> Fanout (e_cfg E) \<and> 1 \<le> MergeBatchMax (e_cfg E)"

lemma defaults_env_ok:
  "lib_ok (e_lib E) \<Longrightarrow> \<not> UseSQ (lc_vec (e_cfg E)) \<Longrightarrow> env_ok (E\<lparr>e_cfg := lc_defaults (e_cfg E)\<rparr>)"
  by (auto simp: env_ok_def lc_defaults_def Let_def)

text \<open>The three conditions on the schedule; the sizes stay within what 32-bit codes can hold, and the
  terms of a document come sorted from the tokenizer.\<close>

fun swap_orderly :: "vevent \<Rightarrow> vstore \<Rightarrow> bool" where
  "swap_orderly ESwap s \<longleftrightarrow> v_phase s = CRead (v_epoch s) \<or> v_delta s = None"
| "swap_orderly _ s \<longleftrightarrow> True"

definition flush_first :: "task \<Rightarrow> vstore \<Rightarrow> bool" where
  "flush_first t s \<longleftrightarrow>
     (case t of FlushTask e d dim \<Rightarrow> e = v_epoch s \<longrightarrow> d_id d = d_id (hd (v_flushing s)) | _ \<Rightarrow> True)"

fun flush_orderly :: "vevent \<Rightarrow> vstore \<Rightarrow> bool" where
  "flush_orderly (EApply i) s \<longleftrightarrow> i < length (v_tasks s) \<longrightarrow> flush_first (v_tasks s ! i) s"
| "flush_orderly _ s \<longleftrightarrow> True"

fun merge_inputs :: "task \<Rightarrow> (seg_ref list \<times> nat \<times> nat \<times> bytes set) option" where
  "merge_inputs (MergeTask l segs e (Some (dim, ts))) = Some (segs, e, dim, ts)"
| "merge_inputs (ConsTask l segs e (Some (dim, ts))) = Some (segs, e, dim, ts)"
| "merge_inputs _ = None"

definition merge_calm :: "task \<Rightarrow> vstore \<Rightarrow> bool" where
  "merge_calm t s \<longleftrightarrow>
     (case merge_inputs t of
        None \<Rightarrow> True
      | Some (segs, e, dim, ts) \<Rightarrow> e = v_epoch s \<longrightarrow> (\<forall>k \<in> ts. in_segs segs k \<longrightarrow> \<not> keyInFlushing s k))"

fun tombs_orderly :: "vevent \<Rightarrow> vstore \<Rightarrow> bool" where
  "tombs_orderly (EApply i) s \<longleftrightarrow> i < length (v_tasks s) \<longrightarrow> merge_calm (v_tasks s ! i) s"
| "tombs_orderly _ s \<longleftrightarrow> True"

definition task_fits :: "task \<Rightarrow> bool" where
  "task_fits t \<longleftrightarrow>
     (case t of FlushTask e d dim \<Rightarrow> delta_fits d | _ \<Rightarrow> True) \<and>
     (case merge_inputs t of
        None \<Rightarrow> True
      | Some (segs, e, dim, ts) \<Rightarrow> fits (m_entries (merge_collect dim ts (map snd segs))))"

fun sizes_ok :: "vevent \<Rightarrow> vstore \<Rightarrow> bool" where
  "sizes_ok (EAdd key vec a ts) s \<longleftrightarrow> terms_ok ts"
| "sizes_ok (EApply i) s \<longleftrightarrow> i < length (v_tasks s) \<longrightarrow> task_fits (v_tasks s ! i)"
| "sizes_ok _ s \<longleftrightarrow> True"

definition orderly :: "vevent \<Rightarrow> vstore \<Rightarrow> bool" where
  "orderly ev s \<longleftrightarrow> swap_orderly ev s \<and> flush_orderly ev s \<and> tombs_orderly ev s \<and> sizes_ok ev s"

fun orderly_run :: "venv \<Rightarrow> vevent list \<Rightarrow> vstore \<Rightarrow> bool" where
  "orderly_run E [] s \<longleftrightarrow> True"
| "orderly_run E (ev # evs) s \<longleftrightarrow>
     orderly ev s \<and> (case vs_step E ev s of None \<Rightarrow> True | Some s' \<Rightarrow> orderly_run E evs s')"

subsection \<open>Reading through the invariant\<close>

lemma base_okD:
  assumes "base_ok s"
  shows "active_ok s" "d \<in> set (v_flushing s) \<Longrightarrow> delta_wf (v_dim s) d" "d \<in> set (v_flushing s) \<Longrightarrow> d_live d \<noteq> 0"
    "d \<in> set (v_flushing s) \<Longrightarrow> d_id d < v_next s" "distinct (map d_id (v_flushing s))"
    "length (v_levels s) = maxLevels" "length (v_merging s) = maxLevels"
    "r \<in> set (concat (v_levels s)) \<Longrightarrow> seg_wf (v_dim s) (snd r)"
    "r \<in> set (concat (v_levels s)) \<Longrightarrow> fst r < v_next s" "distinct (map fst (concat (v_levels s)))"
  using assms unfolding base_ok_def by blast+

lemma vinvD:
  assumes "vinv s"
  shows "base_ok s" "t \<in> set (v_tasks s) \<Longrightarrow> task_ok s t" "distinct (map task_slot (v_tasks s))"
    "v_cons s \<Longrightarrow> True \<notin> set (v_merging s)"
  using assms unfolding vinv_def by blast+

lemma delta_wf_ok: "delta_wf dim d \<Longrightarrow> delta_ok d"
  by (simp add: delta_wf_def)

lemma active_Some:
  assumes "active_ok s" "v_delta s = Some d"
  shows "delta_wf (v_dim s) d" "delta_ok d" "d_id d < v_next s" "d_id d \<notin> d_id ` set (v_flushing s)"
    "k \<in> v_tombs s \<Longrightarrow> delta_view d k = None"
  using assms by (auto simp: active_ok_def delta_wf_ok)

lemma active_None:
  assumes "active_ok s" "v_delta s = None"
  shows "v_flushing s = []" "concat (v_levels s) = []" "v_tombs s = {}"
  using assms by (auto simp: active_ok_def)

lemma set_read_order: "set (read_order ls) = snd ` set (concat ls)"
  by (auto simp: read_order_def)

lemma flushing_key: "base_ok s \<Longrightarrow> keyInFlushing s k \<longleftrightarrow> in_flushing s k"
  using base_okD(2) delta_reads(1) delta_wf_ok by (fastforce simp: keyInFlushing_def in_flushing_def)

lemma segments_key: "keyPhysicallyInSegments s k \<longleftrightarrow> in_segs (concat (v_levels s)) k"
  by (force simp: keyPhysicallyInSegments_def in_segs_def)

lemma layers_None:
  assumes b: "base_ok s"
  shows "first_some (layers s) k = None \<longleftrightarrow> \<not> in_flushing s k \<and> \<not> in_segs (concat (v_levels s)) k"
proof -
  have "first_some (map delta_doc (rev (v_flushing s))) k = None \<longleftrightarrow> \<not> keyInFlushing s k"
    using base_okD(2)[OF b] delta_wf_ok by (subst delta_source.layer_None) (auto simp: keyInFlushing_def)
  moreover have "first_some (map seg_doc (read_order (v_levels s))) k = None \<longleftrightarrow> \<not> in_segs (concat (v_levels s)) k"
    using base_okD(8)[OF b] by (subst seg_source.layer_None) (auto simp: set_read_order in_segs_def)
  ultimately show ?thesis
    unfolding layers_def first_some_append flushing_key[OF b, symmetric]
    by (auto split: option.splits)
qed

lemma active_doc_None: "active_doc s k = None \<longleftrightarrow> \<not> in_delta s k"
  by (simp add: active_doc_def in_delta_def delta_doc_def split: option.splits)

lemma tombs_not_active:
  assumes "base_ok s" "k \<in> v_tombs s"
  shows "\<not> in_delta s k"
  using base_okD(1)[OF assms(1)] assms(2) by (auto simp: active_ok_def in_delta_def split: option.splits)

text \<open>\<open>Get\<close> answers the vector of the document.\<close>

lemma first_some_map:
  "(\<And>x. x \<in> set xs \<Longrightarrow> f x k = map_option h (g x k)) \<Longrightarrow> first_some (map f xs) k = map_option h (first_some (map g xs) k)"
  by (induction xs) (auto split: option.splits)

lemma get_doc:
  assumes b: "base_ok s"
  shows "vs_Get s k = map_option fst (vs_doc s k)"
proof -
  have get: "delta_Get d k = map_option fst (delta_doc d k)" if "delta_ok d" for d
    using delta_reads(2)[OF that, of k] by (cases "delta_view d k") (auto simp: delta_doc_def entry_doc_def)
  have fl: "first_some (map delta_Get (rev (v_flushing s))) k = map_option fst (first_some (map delta_doc (rev (v_flushing s))) k)"
    by (rule first_some_map) (use base_okD(2)[OF b] delta_wf_ok get in auto)
  have sg: "first_some (map seg_Get ss) k = map_option fst (first_some (map seg_doc ss) k)" for ss
    by (rule first_some_map) (simp add: seg_Get_def seg_doc_def seg_at_def option.map_comp comp_def)
  have "(case v_delta s of None \<Rightarrow> None | Some d \<Rightarrow> delta_Get d k) = map_option fst (active_doc s k)"
    using base_okD(1)[OF b] active_Some(2) get by (auto simp: active_doc_def split: option.splits)
  then show ?thesis
    unfolding vs_Get_def vs_doc_def layers_def first_some_append sg
    by (auto simp: fl split: option.splits)
qed

subsection \<open>Steps that leave the structure alone\<close>

lemma snap_ok_mono:
  assumes "snap_ok s newer segs snap" "v_dim s' = v_dim s"
    and "\<And>k. in_segs segs k \<Longrightarrow> renewed s newer k \<Longrightarrow> renewed s' newer' k"
  shows "snap_ok s' newer' segs snap"
  using assms unfolding snap_ok_def covered_def by (auto split: option.splits)

lemma in_segs_mono: "in_segs rs k \<Longrightarrow> set rs \<subseteq> set rs' \<Longrightarrow> in_segs rs' k"
  by (auto simp: in_segs_def)

lemma in_segs_append [simp]: "in_segs (rs @ rs') k \<longleftrightarrow> in_segs rs k \<or> in_segs rs' k"
  by (auto simp: in_segs_def)

lemma set_take_level: "l < length ls \<Longrightarrow> set (take n (ls ! l)) \<subseteq> set (concat ls)"
  using nth_mem[of l ls] set_take_subset by (fastforce simp: set_concat)

lemma cons_subset: "ls \<noteq> [] \<Longrightarrow> set (concat (rev (take n (ls ! 0) # tl ls))) \<subseteq> set (concat ls)"
  by (cases ls) (auto dest: in_set_takeD)

text \<open>The inputs of a merge of now are segments of the store.\<close>

lemma task_segs:
  assumes b: "base_ok s" and t: "task_ok s t"
  shows "t = MergeTask l segs (v_epoch s) snap \<Longrightarrow> set segs \<subseteq> set (concat (v_levels s)) \<and> segs \<noteq> []"
    and "t = ConsTask l segs (v_epoch s) snap \<Longrightarrow> set segs \<subseteq> set (concat (v_levels s)) \<and> segs \<noteq> []"
proof -
  have len: "length (v_levels s) = maxLevels" using base_okD(6)[OF b] .
  then have ne: "v_levels s \<noteq> []" by (auto simp: maxLevels_def)
  show "t = MergeTask l segs (v_epoch s) snap \<Longrightarrow> set segs \<subseteq> set (concat (v_levels s)) \<and> segs \<noteq> []"
  proof -
    assume "t = MergeTask l segs (v_epoch s) snap"
    with t have l: "l < length (v_levels s)" "segs \<noteq> []" "segs = take (length segs) (v_levels s ! l)"
      using len by (auto simp: maxLevels_def)
    from set_take_level[OF l(1), of "length segs"] l(2,3) show ?thesis by simp
  qed
  show "t = ConsTask l segs (v_epoch s) snap \<Longrightarrow> set segs \<subseteq> set (concat (v_levels s)) \<and> segs \<noteq> []"
  proof -
    assume eq: "t = ConsTask l segs (v_epoch s) snap"
    obtain n where n: "segs \<noteq> []" "segs = concat (rev (take n (v_levels s ! 0) # tl (v_levels s)))"
      using t unfolding eq task_ok.simps by blast
    from cons_subset[OF ne, of n] n show ?thesis by metis
  qed
qed

definition same_structure :: "vstore \<Rightarrow> vstore \<Rightarrow> bool" where
  "same_structure s s' \<longleftrightarrow> v_flushing s' = v_flushing s \<and> v_levels s' = v_levels s \<and> v_epoch s' = v_epoch s \<and>
     v_merging s' = v_merging s \<and> v_cons s' = v_cons s \<and> v_tasks s' = v_tasks s \<and> v_dim s' = v_dim s \<and>
     v_next s \<le> v_next s' \<and> delta_ids s' \<subseteq> delta_ids s"

lemma vinv_frame:
  assumes inv: "vinv s" and same: "same_structure s s'" and act: "active_ok s'"
    and cov: "\<And>k. in_segs (concat (v_levels s)) k \<Longrightarrow> k \<in> v_tombs s \<or> in_delta s k \<Longrightarrow> k \<in> v_tombs s' \<or> in_delta s' k"
  shows "vinv s'"
proof -
  note eq = same[unfolded same_structure_def]
  have b: "base_ok s" using vinvD(1)[OF inv] .
  have nxt: "n < v_next s \<Longrightarrow> n < v_next s'" for n using eq by simp
  have "seg_wf (v_dim s') (snd r) \<and> fst r < v_next s'" if "r \<in> set (concat (v_levels s'))" for r
    using base_okD(8,9)[OF b, of r] that eq by auto
  then have "base_ok s'" unfolding base_ok_def
    using act base_okD(2-7,10)[OF b] eq by (auto intro: nxt)
  moreover have "task_ok s' t" if t: "t \<in> set (v_tasks s)" for t
  proof -
    have ok: "task_ok s t" using vinvD(2)[OF inv t] .
    have fl: "in_flushing s' k \<longleftrightarrow> in_flushing s k" for k using eq by (simp add: in_flushing_def)
    have snap: "snap_ok s' newer segs snap" if old: "snap_ok s newer segs snap" and sub: "set segs \<subseteq> set (concat (v_levels s))"
      for newer segs snap
      using old
    proof (rule snap_ok_mono)
      show "renewed s' newer k" if k: "in_segs segs k" "renewed s newer k" for k
        using cov[OF in_segs_mono[OF k(1) sub]] k(2) by (auto simp: renewed_def fl)
    qed (use eq in simp)
    show ?thesis
    proof (cases t)
      case (FlushTask e d dim)
      with ok eq show ?thesis by auto
    next
      case (MergeTask l segs e snp)
      with ok eq snap task_segs(1)[OF b ok] show ?thesis by (auto simp: level_newer_def)
    next
      case (ConsTask l segs e snp)
      with ok eq snap task_segs(2)[OF b ok] show ?thesis by auto
    qed
  qed
  ultimately show ?thesis using inv eq by (auto simp: vinv_def)
qed

text \<open>The signal and the phase of the coordinator play no role in what is stored.\<close>

lemma control_simps [simp]:
  "active_ok (s\<lparr>v_signal := b\<rparr>) = active_ok s" "active_ok (s\<lparr>v_phase := p\<rparr>) = active_ok s"
  "in_delta (s\<lparr>v_signal := b\<rparr>) = in_delta s" "in_delta (s\<lparr>v_phase := p\<rparr>) = in_delta s"
  "vs_doc (s\<lparr>v_signal := b\<rparr>) = vs_doc s" "vs_doc (s\<lparr>v_phase := p\<rparr>) = vs_doc s"
  by (simp_all add: active_ok_def in_delta_def fun_eq_iff vs_doc_def active_doc_def layers_def cong: option.case_cong)

lemma control_structure [simp]:
  "same_structure s (s\<lparr>v_signal := b\<rparr>)" "same_structure s (s\<lparr>v_phase := p\<rparr>)"
  by (simp_all add: same_structure_def delta_ids_def)

lemma vinv_control [simp]: "vinv s \<Longrightarrow> vinv (s\<lparr>v_signal := b\<rparr>)" "vinv s \<Longrightarrow> vinv (s\<lparr>v_phase := p\<rparr>)"
  using vinvD(1) base_okD(1) by (auto intro!: vinv_frame[of s])

lemma abs_control [simp]: "vs_abs (s\<lparr>v_signal := b\<rparr>) = vs_abs s" "vs_abs (s\<lparr>v_phase := p\<rparr>) = vs_abs s"
  by (simp_all add: vs_abs_def)

subsection \<open>Writes\<close>

text \<open>Without a delta there is nothing: every goroutine in flight is of an earlier epoch.\<close>

lemma stale_without_delta:
  assumes b: "base_ok s" and none: "v_delta s = None" and t: "task_ok s t"
  shows "t = FlushTask e d dim \<Longrightarrow> e \<noteq> v_epoch s" "t = MergeTask l segs e snap \<Longrightarrow> e \<noteq> v_epoch s"
    "t = ConsTask l segs e snap \<Longrightarrow> e \<noteq> v_epoch s"
proof -
  note empty = active_None[OF base_okD(1)[OF b] none]
  show "t = FlushTask e d dim \<Longrightarrow> e \<noteq> v_epoch s" using t empty(1) by (auto split: if_splits)
  show "t = MergeTask l segs e snap \<Longrightarrow> e \<noteq> v_epoch s"
    using task_segs(1)[OF b t] empty(2) by (metis empty_iff empty_set subset_empty set_empty)
  show "t = ConsTask l segs e snap \<Longrightarrow> e \<noteq> v_epoch s"
    using task_segs(2)[OF b t] empty(2) by (metis empty_iff empty_set subset_empty set_empty)
qed

lemma fresh_delta_simps [simp]:
  "delta_view (fresh_delta E i dim) = Map.empty" "delta_ok (fresh_delta E i dim)" "d_id (fresh_delta E i dim) = i"
  "delta_wf n (fresh_delta E i dim)"
  by (simp_all add: fresh_delta_def delta_wf_def) (simp add: NewDeltaSegmentSharded_def)

lemma init_step:
  assumes inv: "vinv s" and none: "v_delta s = None"
  shows "vinv (initDelta E dim s)" "vs_doc (initDelta E dim s) = vs_doc s"
proof -
  let ?s = "s\<lparr>v_dim := dim, v_delta := Some (fresh_delta E (v_next s) dim), v_next := v_next s + 1\<rparr>"
  have eq: "initDelta E dim s = ?s" using none by (simp add: initDelta_def)
  have b: "base_ok s" using vinvD(1)[OF inv] .
  note empty = active_None[OF base_okD(1)[OF b] none]
  have "base_ok ?s"
    using base_okD(6,7)[OF b] empty(1,3) by (simp add: base_ok_def active_ok_def empty(2) del: set_concat concat_eq_Nil_conv)
  moreover have "task_ok ?s t" if t: "t \<in> set (v_tasks s)" for t
    using vinvD(2)[OF inv t] stale_without_delta[OF b none vinvD(2)[OF inv t]] empty
    by (cases t) (auto simp: delta_ids_def)
  ultimately show "vinv (initDelta E dim s)" using vinvD(3,4)[OF inv] by (simp add: eq vinv_def)
  have "active_doc ?s k = active_doc s k" "layers ?s = layers s" for k
    using none by (simp_all add: active_doc_def delta_doc_def layers_def)
  then show "vs_doc (initDelta E dim s) = vs_doc s" by (simp add: eq vs_doc_def fun_eq_iff split: option.splits)
qed

lemma append_step:
  assumes inv: "vinv s" and d: "v_delta s = Some d" and key: "key \<noteq> []" and vec: "length vec = v_dim s" and ts: "terms_ok ts"
    and app: "AppendDoc key vec a ts d = (full, d')"
    and s': "s' = s\<lparr>v_delta := Some d', v_tombs := v_tombs s - {key}\<rparr>"
  shows "vinv s'" "vs_doc s' = (vs_doc s)(key \<mapsto> (vec, attr_view a, ts))"
proof -
  have b: "base_ok s" using vinvD(1)[OF inv] .
  note act = active_Some[OF base_okD(1)[OF b] d]
  note ad = AppendDoc_ok[OF act(2) key app]
  obtain new sh where "shard_append key vec a ts (d_shards d ! delta_shardFor d key) = (new, sh)" by fastforce
  from AppendDoc_fields(3)[OF this app] have id_eq: "d_id d' = d_id d" .
  have wf: "delta_wf (v_dim s) d'"
    using act(1) ad vec ts by (auto simp: delta_wf_def split: if_splits)
  have "active_ok s'" using act wf id_eq ad(2) by (auto simp: active_ok_def s')
  moreover have "same_structure s s'" using id_eq d by (simp add: same_structure_def s' delta_ids_def)
  moreover have "k \<in> v_tombs s' \<or> in_delta s' k" if "k \<in> v_tombs s \<or> in_delta s k" for k
    using that d ad(2) by (auto simp: s' in_delta_def)
  ultimately show "vinv s'" using vinv_frame[OF inv] by blast
  show "vs_doc s' = (vs_doc s)(key \<mapsto> (vec, attr_view a, ts))"
  proof
    fix k
    have "layers s' = layers s" by (simp add: layers_def s')
    then show "vs_doc s' k = ((vs_doc s)(key \<mapsto> (vec, attr_view a, ts))) k"
      using d ad(2) by (auto simp: vs_doc_def active_doc_def s' delta_doc_def entry_doc_def split: option.splits)
  qed
qed

lemma addEntry_step:
  assumes inv: "vinv s" and ts: "terms_ok ts" and res: "addEntry E key vec a ts s = (err, s')"
  shows "vinv s'" "vs_abs s' = spec_step (EAdd key vec a ts) (vs_abs s)"
    "err = None \<longleftrightarrow> ValidateKey key = None \<and> ValidateVector vec = None \<and> (v_delta s = None \<or> length vec = v_dim s)"
proof -
  have "vinv s' \<and> vs_abs s' = spec_step (EAdd key vec a ts) (vs_abs s) \<and> (err = None \<longleftrightarrow>
      ValidateKey key = None \<and> ValidateVector vec = None \<and> (v_delta s = None \<or> length vec = v_dim s))"
  proof (cases "ValidateKey key = None \<and> ValidateVector vec = None")
    case False
    with res inv show ?thesis by (auto simp: addEntry_def vs_abs_def split: option.splits)
  next
    case valid: True
    define s1 where "s1 = initDelta E (length vec) s"
    have s1: "vinv s1" "vs_doc s1 = vs_doc s"
      using init_step[OF inv] inv by (cases "v_delta s"; simp add: s1_def initDelta_def)+
    have dim1: "v_delta s = None \<Longrightarrow> v_dim s1 = length vec" "v_delta s \<noteq> None \<Longrightarrow> s1 = s"
      by (auto simp: s1_def initDelta_def)
    obtain d where d: "v_delta s1 = Some d" by (cases "v_delta s") (auto simp: s1_def initDelta_def)
    have key: "key \<noteq> []" using valid by (auto simp: ValidateKey_def split: if_splits)
    have eq: "addEntry E key vec a ts s =
        (if length vec \<noteq> v_dim s1 then (Some (DimMismatch (v_dim s1) (length vec)), s1)
         else (let (full, d') = AppendDoc key vec a ts d;
                   s2 = s1\<lparr>v_delta := Some d', v_tombs := v_tombs s1 - {key}\<rparr> in
               (None, if full then s2\<lparr>v_signal := True\<rparr> else s2)))"
      using valid d by (simp add: addEntry_def s1_def Let_def)
    show ?thesis
    proof (cases "length vec = v_dim s1")
      case False
      then have "v_delta s \<noteq> None" "s1 = s" using dim1 by (cases "v_delta s"; simp)+
      moreover have "err \<noteq> None" "s' = s1" using res False by (auto simp: eq)
      ultimately show ?thesis using inv False valid by (auto simp: vs_abs_def)
    next
      case True
      obtain full d' where app: "AppendDoc key vec a ts d = (full, d')" by fastforce
      define s2 where "s2 = s1\<lparr>v_delta := Some d', v_tombs := v_tombs s1 - {key}\<rparr>"
      note step = append_step[OF s1(1) d key True ts app s2_def]
      have s': "s' = (if full then s2\<lparr>v_signal := True\<rparr> else s2)" and "err = None"
        using res True app by (auto simp: eq s2_def Let_def)
      have "vs_abs s' = (Some (length vec), (vs_doc s)(key \<mapsto> (vec, attr_view a, ts)))"
        using step(2) s1(2) True by (simp add: s' vs_abs_def s2_def)
      moreover have "spec_step (EAdd key vec a ts) (vs_abs s) = (Some (length vec), (vs_doc s)(key \<mapsto> (vec, attr_view a, ts)))"
        using valid True dim1 by (cases "v_delta s") (auto simp: vs_abs_def)
      moreover have "v_delta s = None \<or> length vec = v_dim s" using True dim1 by (cases "v_delta s") auto
      ultimately show ?thesis using step(1) s' \<open>err = None\<close> valid by auto
    qed
  qed
  then show "vinv s'" "vs_abs s' = spec_step (EAdd key vec a ts) (vs_abs s)"
    "err = None \<longleftrightarrow> ValidateKey key = None \<and> ValidateVector vec = None \<and> (v_delta s = None \<or> length vec = v_dim s)" by blast+
qed

text \<open>Deleting: the answer is whether the key was there.\<close>

lemma drop_step:
  assumes inv: "vinv s" and same: "same_structure s s'" and act: "active_ok s'" and gone: "\<not> in_delta s' key"
    and other: "\<And>k. k \<noteq> key \<Longrightarrow> active_doc s' k = active_doc s k"
    and tombs: "\<And>k. k \<noteq> key \<Longrightarrow> k \<in> v_tombs s' \<longleftrightarrow> k \<in> v_tombs s"
    and hide: "in_segs (concat (v_levels s)) key \<Longrightarrow> key \<in> v_tombs s'"
    and dead: "key \<notin> v_tombs s' \<Longrightarrow> \<not> in_flushing s key"
  shows "vinv s'" "vs_doc s' = (vs_doc s)(key := None)"
proof -
  have b: "base_ok s" using vinvD(1)[OF inv] .
  have ind: "in_delta s' k \<longleftrightarrow> in_delta s k" if "k \<noteq> key" for k
    using other[OF that] active_doc_None by metis
  have "k \<in> v_tombs s' \<or> in_delta s' k"
    if "in_segs (concat (v_levels s)) k" "k \<in> v_tombs s \<or> in_delta s k" for k
    using that hide tombs ind by (cases "k = key") auto
  then show "vinv s'" by (rule vinv_frame[OF inv same act])
  have lay: "layers s' = layers s" using same by (simp add: same_structure_def layers_def)
  show "vs_doc s' = (vs_doc s)(key := None)"
  proof
    fix k
    show "vs_doc s' k = ((vs_doc s)(key := None)) k"
    proof (cases "k = key")
      case True
      have "active_doc s' key = None" using gone active_doc_None by blast
      moreover have "key \<notin> v_tombs s' \<Longrightarrow> first_some (layers s) key = None" using dead hide layers_None[OF b] by blast
      ultimately show ?thesis using True lay by (simp add: vs_doc_def)
    next
      case False
      then show ?thesis unfolding vs_doc_def lay other[OF False] using tombs[OF False] by simp
    qed
  qed
qed

text \<open>The part of the delete in the active delta.\<close>

definition delta_drop :: "bytes \<Rightarrow> vstore \<Rightarrow> bool \<times> vstore" where
  "delta_drop key s =
     (case v_delta s of
        None \<Rightarrow> (False, s)
      | Some d \<Rightarrow> (let (f, d') = delta_Delete key d in (f, s\<lparr>v_delta := Some d'\<rparr>)))"

lemma delta_drop_ok:
  assumes act: "active_ok s" and fs: "delta_drop key s = (f, s1)"
  shows "f \<longleftrightarrow> in_delta s key" "\<not> in_delta s1 key" "v_tombs s1 = v_tombs s" "same_structure s s1"
    "v_delta s1 = None \<longleftrightarrow> v_delta s = None" "active_ok s1" "k \<noteq> key \<Longrightarrow> active_doc s1 k = active_doc s k"
proof -
  have all: "(f \<longleftrightarrow> in_delta s key) \<and> \<not> in_delta s1 key \<and> v_tombs s1 = v_tombs s \<and> same_structure s s1 \<and>
      (v_delta s1 = None \<longleftrightarrow> v_delta s = None) \<and> active_ok s1 \<and> (\<forall>k. k \<noteq> key \<longrightarrow> active_doc s1 k = active_doc s k)"
  proof (cases "v_delta s")
    case None
    with fs act show ?thesis by (auto simp: delta_drop_def in_delta_def same_structure_def)
  next
    case (Some d)
    note ac = active_Some[OF act Some]
    obtain d' where del: "delta_Delete key d = (f, d')" "s1 = s\<lparr>v_delta := Some d'\<rparr>"
      using fs Some by (auto simp: delta_drop_def split: prod.splits)
    note dd = delta_Delete_ok[OF ac(2) del(1)]
    have "delta_wf (v_dim s) d'" using ac(1) dd(1,2) by (auto simp: delta_wf_def split: if_splits)
    then show ?thesis
      using Some del(2) dd ac by (auto simp: in_delta_def same_structure_def delta_ids_def active_ok_def active_doc_def delta_doc_def)
  qed
  then show "f \<longleftrightarrow> in_delta s key" "\<not> in_delta s1 key" "v_tombs s1 = v_tombs s" "same_structure s s1"
    "v_delta s1 = None \<longleftrightarrow> v_delta s = None" "active_ok s1" "k \<noteq> key \<Longrightarrow> active_doc s1 k = active_doc s k" by blast+
qed

lemma delete_step:
  assumes inv: "vinv s" and res: "vs_Delete key s = (found, s')"
  shows "vinv s'" "vs_abs s' = spec_step (EDelete key) (vs_abs s)" "found \<longleftrightarrow> vs_doc s key \<noteq> None"
proof -
  have b: "base_ok s" using vinvD(1)[OF inv] .
  obtain f s1 where fs: "delta_drop key s = (f, s1)" by (cases "delta_drop key s")
  note s1 = delta_drop_ok[OF base_okD(1)[OF b] fs]
  have eq: "v_flushing s1 = v_flushing s" "v_levels s1 = v_levels s" "v_dim s1 = v_dim s"
    using s1(4) by (simp_all add: same_structure_def)
  have phys: "keyInFlushing s1 key \<longleftrightarrow> in_flushing s key"
    "keyPhysicallyInSegments s1 key \<longleftrightarrow> in_segs (concat (v_levels s)) key"
    using flushing_key[OF b, of key] segments_key[of s key] eq by (simp_all add: keyInFlushing_def keyPhysicallyInSegments_def)
  define P where "P \<longleftrightarrow> in_flushing s key \<or> in_segs (concat (v_levels s)) key"
  define T where "T = (if P \<and> (f \<or> key \<notin> v_tombs s) then insert key (v_tombs s) else if f then v_tombs s - {key} else v_tombs s)"
  have out: "s' = s1\<lparr>v_tombs := T\<rparr>" "found \<longleftrightarrow> f \<or> (key \<notin> v_tombs s \<and> P)"
    using res fs phys s1(3) unfolding vs_Delete_def delta_drop_def[symmetric]
    by (auto simp: T_def P_def split: if_splits)
  have none: "v_delta s = None \<Longrightarrow> T = {}"
    using active_None[OF base_okD(1)[OF b]] s1(1) by (auto simp: T_def P_def in_flushing_def in_segs_def in_delta_def)
  have same: "same_structure s s'" using s1(4) out(1) by (simp add: same_structure_def delta_ids_def)
  have tk: "k \<in> T \<longleftrightarrow> k \<in> v_tombs s" if "k \<noteq> key" for k using that by (simp add: T_def)
  have act: "active_ok s'"
  proof (cases "v_delta s1")
    case None
    with s1(5) none have "T = {}" by simp
    with None s1(6) show ?thesis by (simp add: out(1) active_ok_def)
  next
    case (Some d)
    have "delta_view d k = None" if "k \<in> T" for k
      using that tk[of k] s1(2,3,6) Some by (cases "k = key") (auto simp: active_ok_def in_delta_def)
    with Some s1(6) show ?thesis by (simp add: out(1) active_ok_def)
  qed
  have gone: "\<not> in_delta s' key" and other: "k \<noteq> key \<Longrightarrow> active_doc s' k = active_doc s k" for k
    using s1(2) s1(7)[of k] by (simp_all add: out(1) in_delta_def active_doc_def cong: option.case_cong)
  have hide: "key \<in> T" if P using that s1(1) by (auto simp: T_def)
  have dead: "P" if "in_flushing s key \<or> in_segs (concat (v_levels s)) key" using that by (simp add: P_def)
  have step: "vinv s'" "vs_doc s' = (vs_doc s)(key := None)"
    using drop_step[OF inv same act gone other] tk hide dead by (simp_all add: out(1)) blast+
  show "vinv s'" by (rule step(1))
  have "v_delta s' = None \<longleftrightarrow> v_delta s = None" "v_dim s' = v_dim s" using s1(5) eq(3) by (simp_all add: out(1))
  then show "vs_abs s' = spec_step (EDelete key) (vs_abs s)"
    using step(2) by (cases "v_delta s"; cases "v_delta s'") (auto simp: vs_abs_def)
  show "found \<longleftrightarrow> vs_doc s key \<noteq> None"
  proof (cases f)
    case True
    then have "active_doc s key \<noteq> None" using s1(1) active_doc_None by metis
    with True out(2) show ?thesis by (auto simp: vs_doc_def)
  next
    case False
    then have "active_doc s key = None" using s1(1) active_doc_None by metis
    moreover have "first_some (layers s) key = None \<longleftrightarrow> \<not> P" using layers_None[OF b] by (auto simp: P_def)
    ultimately show ?thesis using False out(2) by (auto simp: vs_doc_def)
  qed
qed

text \<open>Clearing: every goroutine in flight is of an earlier epoch from now on.\<close>

lemma clear_step:
  assumes inv: "vinv s"
  shows "vinv (vs_Clear s)" "vs_abs (vs_Clear s) = spec_step EClear (vs_abs s)"
proof -
  let ?s = "vs_Clear s"
  have b: "base_ok s" using vinvD(1)[OF inv] .
  have empty: "concat (v_levels ?s) = []" by (simp add: vs_Clear_def)
  have "base_ok ?s" using base_okD(6,7)[OF b]
    by (simp add: base_ok_def active_ok_def empty del: set_concat concat_eq_Nil_conv) (simp add: vs_Clear_def)
  moreover have "task_ok ?s t" if t: "t \<in> set (v_tasks s)" for t
    using vinvD(2)[OF inv t] by (cases t) (auto simp: vs_Clear_def delta_ids_def)
  ultimately show "vinv ?s" using inv by (simp add: vinv_def) (simp add: vs_Clear_def)
  have "vs_doc ?s k = None" for k
    using layers_None[OF \<open>base_ok ?s\<close>, of k] empty
    by (simp add: vs_doc_def active_doc_def in_flushing_def in_segs_def vs_Clear_def)
  then show "vs_abs ?s = spec_step EClear (vs_abs s)" by (auto simp: vs_abs_def) (simp_all add: vs_Clear_def)
qed

subsection \<open>Swapping and scheduling\<close>

text \<open>Neither the list of goroutines nor the count of builds is part of what is stored.\<close>

lemma tasks_simps [simp]:
  "active_ok (s\<lparr>v_tasks := ts\<rparr>) = active_ok s" "base_ok (s\<lparr>v_tasks := ts\<rparr>) = base_ok s"
  "vs_doc (s\<lparr>v_tasks := ts\<rparr>) = vs_doc s" "in_delta (s\<lparr>v_tasks := ts\<rparr>) = in_delta s"
  "in_flushing (s\<lparr>v_tasks := ts\<rparr>) = in_flushing s" "delta_ids (s\<lparr>v_tasks := ts\<rparr>) = delta_ids s"
  by (simp_all add: active_ok_def base_ok_def fun_eq_iff vs_doc_def active_doc_def layers_def in_delta_def
      in_flushing_def delta_ids_def cong: option.case_cong)

lemma builds_simps [simp]:
  "active_ok (s\<lparr>v_builds := n\<rparr>) = active_ok s" "base_ok (s\<lparr>v_builds := n\<rparr>) = base_ok s"
  "vs_doc (s\<lparr>v_builds := n\<rparr>) = vs_doc s" "in_delta (s\<lparr>v_builds := n\<rparr>) = in_delta s"
  "in_flushing (s\<lparr>v_builds := n\<rparr>) = in_flushing s" "delta_ids (s\<lparr>v_builds := n\<rparr>) = delta_ids s"
  by (simp_all add: active_ok_def base_ok_def fun_eq_iff vs_doc_def active_doc_def layers_def in_delta_def
      in_flushing_def delta_ids_def cong: option.case_cong)

lemma snap_tasks [simp]:
  "snap_ok (s\<lparr>v_tasks := ts\<rparr>) = snap_ok s" "snap_ok (s\<lparr>v_builds := n\<rparr>) = snap_ok s"
  by (simp_all add: snap_ok_def fun_eq_iff covered_def renewed_def cong: option.case_cong)

lemma task_ok_tasks [simp]: "task_ok (s\<lparr>v_tasks := ts\<rparr>) t = task_ok s t" "task_ok (s\<lparr>v_builds := n\<rparr>) t = task_ok s t"
  by (cases t; simp add: level_newer_def)+

lemma vinv_builds [simp]: "vinv s \<Longrightarrow> vinv (s\<lparr>v_builds := n\<rparr>)"
  by (simp add: vinv_def)

lemma abs_tasks [simp]: "vs_abs (s\<lparr>v_tasks := ts\<rparr>) = vs_abs s" "vs_abs (s\<lparr>v_builds := n\<rparr>) = vs_abs s"
  by (simp_all add: vs_abs_def)

lemma vinv_add_task:
  "vinv s \<Longrightarrow> task_ok s t \<Longrightarrow> task_slot t \<notin> task_slot ` set (v_tasks s) \<Longrightarrow> vinv (s\<lparr>v_tasks := v_tasks s @ [t]\<rparr>)"
  by (auto simp: vinv_def)

text \<open>The delta moves to the deltas being flushed.\<close>

lemma swap_step:
  assumes inv: "vinv s" and e: "e = v_epoch s \<or> v_delta s = None"
  shows "vinv (compact_swap E e s)" "vs_abs (compact_swap E e s) = vs_abs s"
proof -
  have b: "base_ok s" using vinvD(1)[OF inv] .
  have "vinv (compact_swap E e s) \<and> vs_abs (compact_swap E e s) = vs_abs s"
  proof (cases "\<exists>d. v_delta s = Some d \<and> d_live d \<noteq> 0 \<and> \<not> must_wait s d")
    case False
    then have "compact_swap E e s = s\<lparr>v_phase := CSched e\<rparr>" by (auto simp: compact_swap_def split: option.splits)
    with inv show ?thesis by simp
  next
    case True
    then obtain d where d: "v_delta s = Some d" "d_live d \<noteq> 0" "\<not> must_wait s d" by blast
    with e have e: "e = v_epoch s" by simp
    note act = active_Some[OF base_okD(1)[OF b] d(1)]
    define s1 where "s1 = s\<lparr>v_delta := Some (fresh_delta E (v_next s) (v_dim s)), v_next := v_next s + 1,
        v_flushing := v_flushing s @ [d]\<rparr>"
    have eq: "compact_swap E e s = s1\<lparr>v_tasks := v_tasks s1 @ [FlushTask e d (v_dim s1)],
        v_builds := v_builds s + 1, v_phase := CSched e\<rparr>"
      using d by (simp add: compact_swap_def s1_def)
    have base: "base_ok s1"
    proof -
      have "v_next s \<noteq> d_id x" if "x \<in> set (v_flushing s)" for x using base_okD(4)[OF b that] by simp
      moreover have "seg_wf (v_dim s) (snd r) \<and> fst r < Suc (v_next s)" if "r \<in> set (concat (v_levels s))" for r
        using base_okD(8,9)[OF b that] by simp
      ultimately show ?thesis
        using act base_okD(2-7,10)[OF b] d(2)
        by (auto simp: base_ok_def active_ok_def s1_def less_Suc_eq)
    qed
    have old: "task_ok s1 t" if t: "t \<in> set (v_tasks s)" for t
    proof -
      have ok: "task_ok s t" using vinvD(2)[OF inv t] .
      have snap: "snap_ok s newer segs snp \<Longrightarrow> snap_ok s1 newer segs snp" for newer segs snp
        by (erule snap_ok_mono) (auto simp: s1_def renewed_def in_delta_def in_flushing_def d(1))
      show ?thesis using ok snap d(1)
        by (cases t) (auto simp: s1_def delta_ids_def level_newer_def split: if_splits)
    qed
    have new: "task_ok s1 (FlushTask e d (v_dim s1))"
      using act(3) e by (simp add: s1_def delta_ids_def)
    have slot: "task_slot (FlushTask e d (v_dim s1)) \<notin> task_slot ` set (v_tasks s1)"
    proof
      assume "task_slot (FlushTask e d (v_dim s1)) \<in> task_slot ` set (v_tasks s1)"
      then obtain t where t: "t \<in> set (v_tasks s)" "task_slot t = FlushSlot (d_id d)" by (auto simp: s1_def)
      with vinvD(2)[OF inv t(1)] d(1) show False by (cases t) (auto simp: delta_ids_def)
    qed
    have "vinv s1" using base old vinvD(3,4)[OF inv] by (auto simp: vinv_def s1_def)
    from vinv_add_task[OF this new slot] have "vinv (compact_swap E e s)" unfolding eq by simp
    moreover have "vs_doc s1 k = vs_doc s k" for k
    proof -
      have lay: "layers s1 = delta_doc d # layers s" by (simp add: layers_def s1_def)
      have "active_doc s1 k = None" "active_doc s k = delta_doc d k" using d(1) by (simp_all add: active_doc_def s1_def delta_doc_def)
      moreover have "k \<in> v_tombs s \<Longrightarrow> delta_doc d k = None" using act(5) by (simp add: delta_doc_def)
      ultimately show ?thesis using lay by (auto simp: vs_doc_def s1_def split: option.splits)
    qed
    then have "vs_doc s1 = vs_doc s" by blast
    then have "vs_abs (compact_swap E e s) = vs_abs s"
      using d(1) unfolding eq by (simp add: vs_abs_def) (simp add: s1_def)
    ultimately show ?thesis by blast
  qed
  then show "vinv (compact_swap E e s)" "vs_abs (compact_swap E e s) = vs_abs s" by blast+
qed

lemma start_merge_step:
  assumes inv: "vinv s" and l: "l < maxLevels - 1" and idle: "\<not> v_merging s ! l" and cons: "\<not> v_cons s"
    and n: "0 < n" "v_levels s ! l \<noteq> []"
    and s': "s' = s\<lparr>v_merging := (v_merging s)[l := True],
      v_tasks := v_tasks s @ [MergeTask l (take n (v_levels s ! l)) (v_epoch s) None]\<rparr>"
  shows "vinv s'" "vs_abs s' = vs_abs s" "\<not> v_cons s'"
proof -
  have b: "base_ok s" using vinvD(1)[OF inv] .
  define s1 where "s1 = s\<lparr>v_merging := (v_merging s)[l := True]\<rparr>"
  have eq: "s' = s1\<lparr>v_tasks := v_tasks s1 @ [MergeTask l (take n (v_levels s1 ! l)) (v_epoch s1) None]\<rparr>"
    by (simp add: s' s1_def)
  have len: "l < length (v_merging s)" using l base_okD(7)[OF b] by simp
  have frame: "in_delta s1 = in_delta s" "in_flushing s1 = in_flushing s" "active_ok s1 = active_ok s"
    "delta_ids s1 = delta_ids s" "vs_doc s1 = vs_doc s"
    by (simp_all add: in_delta_def fun_eq_iff in_flushing_def active_ok_def delta_ids_def s1_def vs_doc_def
        active_doc_def layers_def cong: option.case_cong)
  have "base_ok s1" using b frame by (auto simp: base_ok_def s1_def)
  moreover have "task_ok s1 t" if t: "t \<in> set (v_tasks s)" for t
  proof -
    have snap: "snap_ok s1 = snap_ok s"
    proof -
      have "v_dim s1 = v_dim s" "v_tombs s1 = v_tombs s" by (simp_all add: s1_def)
      then show ?thesis by (simp add: snap_ok_def fun_eq_iff covered_def renewed_def frame cong: option.case_cong)
    qed
    show ?thesis using vinvD(2)[OF inv t] len frame(4) snap
      by (cases t) (auto simp: s1_def level_newer_def nth_list_update)
  qed
  ultimately have "vinv s1" using vinvD(3)[OF inv] cons by (simp add: vinv_def s1_def)
  moreover have "task_ok s1 (MergeTask l (take n (v_levels s1 ! l)) (v_epoch s1) None)"
    using l len n by (simp add: s1_def snap_ok_def min_def)
  moreover have "task_slot (MergeTask l (take n (v_levels s1 ! l)) (v_epoch s1) None) \<notin> task_slot ` set (v_tasks s1)"
  proof
    assume "task_slot (MergeTask l (take n (v_levels s1 ! l)) (v_epoch s1) None) \<in> task_slot ` set (v_tasks s1)"
    then obtain t where t: "t \<in> set (v_tasks s)" "task_slot t = MergeSlot l" by (auto simp: s1_def)
    with vinvD(2)[OF inv t(1)] idle show False by (cases t) auto
  qed
  ultimately show "vinv s'" unfolding eq by (rule vinv_add_task)
  show "vs_abs s' = vs_abs s" unfolding eq using frame(5) by (simp add: vs_abs_def) (simp add: s1_def)
  show "\<not> v_cons s'" using cons by (simp add: s')
qed

lemma sched_step:
  assumes env: "env_ok E"
  shows "vinv s \<Longrightarrow> \<not> v_cons s \<Longrightarrow> set ls \<subseteq> {..<maxLevels - 1} \<Longrightarrow>
    vinv (sched_levels E e defer ls s) \<and> vs_abs (sched_levels E e defer ls s) = vs_abs s"
proof (induction ls arbitrary: s)
  case Nil
  then show ?case by simp
next
  case (Cons l ls)
  let ?n = "int (length (v_levels s ! l))"
  define skip where "skip \<longleftrightarrow> v_merging s ! l \<or> ?n < Fanout (e_cfg E) \<or> (defer \<and> ?n < 2 * Fanout (e_cfg E))"
  show ?case
  proof (cases skip)
    case True
    then have "sched_levels E e defer (l # ls) s = sched_levels E e defer ls s" by (auto simp: skip_def Let_def)
    with Cons show ?thesis by simp
  next
    case False
    show ?thesis
    proof (cases "v_epoch s = e")
      case False
      with \<open>\<not> skip\<close> have "sched_levels E e defer (l # ls) s = s" by (auto simp: skip_def Let_def)
      with Cons.prems show ?thesis by simp
    next
      case True
      define s' where "s' = s\<lparr>v_merging := (v_merging s)[l := True],
          v_tasks := v_tasks s @ [MergeTask l (take (nat (min ?n (MergeBatchMax (e_cfg E)))) (v_levels s ! l)) (v_epoch s) None]\<rparr>"
      have eq: "sched_levels E e defer (l # ls) s = sched_levels E e defer ls s'"
        using False True by (auto simp: skip_def Let_def s'_def)
      have n: "?n \<ge> 1" "MergeBatchMax (e_cfg E) \<ge> 1" using False env by (auto simp: skip_def env_ok_def)
      then have pos: "0 < nat (min ?n (MergeBatchMax (e_cfg E)))" "v_levels s ! l \<noteq> []" by auto
      note step = start_merge_step[OF Cons.prems(1) _ _ Cons.prems(2) pos s'_def]
      have "l < maxLevels - 1" "\<not> v_merging s ! l" using Cons.prems(3) False by (auto simp: skip_def)
      from step[OF this] Cons.IH[of s'] Cons.prems(3) show ?thesis unfolding eq by auto
    qed
  qed
qed

lemma schedule_step:
  assumes "env_ok E" "vinv s"
  shows "vinv (maybeScheduleMerges E e s)" "vs_abs (maybeScheduleMerges E e s) = vs_abs s"
proof -
  have "set [0..<maxLevels - 1] \<subseteq> {..<maxLevels - 1}" by auto
  note step = sched_step[OF assms _ this, of e]
  show "vinv (maybeScheduleMerges E e s)" "vs_abs (maybeScheduleMerges E e s) = vs_abs s"
    using step assms(2) by (simp_all add: maybeScheduleMerges_def)
qed

lemma after_apply_step:
  assumes "env_ok E" "vinv s"
  shows "vinv (after_apply E e s)" "vs_abs (after_apply E e s) = vs_abs s"
  using schedule_step[OF assms, of e] by (auto simp: after_apply_def Let_def split: option.splits)

subsection \<open>Snapshots of merges, and the idle tick\<close>

lemma snap_now: "snap_ok s newer segs (Some (v_dim s, v_tombs s))"
  by (simp add: snap_ok_def covered_def renewed_def)

lemma put_task_step:
  assumes inv: "vinv s" and i: "i < length (v_tasks s)" and slot: "task_slot t = task_slot (v_tasks s ! i)" and ok: "task_ok s t"
  shows "vinv (s\<lparr>v_tasks := (v_tasks s)[i := t]\<rparr>)"
proof -
  have "map task_slot ((v_tasks s)[i := t]) = map task_slot (v_tasks s)"
    using i slot by (metis list_update_id map_update)
  then show ?thesis
    using inv ok set_update_subset_insert[of "v_tasks s" i t] by (auto simp: vinv_def)
qed

lemma snap_step:
  assumes inv: "vinv s" and res: "merge_snap i s = Some s'"
  shows "vinv s'" "vs_abs s' = vs_abs s"
proof -
  from res have i: "i < length (v_tasks s)" by (auto simp: merge_snap_def split: if_splits)
  have ok: "task_ok s (v_tasks s ! i)" using vinvD(2)[OF inv] i by simp
  have "vinv s' \<and> vs_abs s' = vs_abs s"
  proof (cases "v_tasks s ! i")
    case (FlushTask e d dim)
    with res i show ?thesis by (simp add: merge_snap_def)
  next
    case (MergeTask l segs e snap)
    with res i have "snap = None" "s' = s\<lparr>v_tasks := (v_tasks s)[i := MergeTask l segs e (Some (v_dim s, v_tombs s))]\<rparr>"
      by (auto simp: merge_snap_def split: option.splits)
    with put_task_step[OF inv i, of "MergeTask l segs e (Some (v_dim s, v_tombs s))"] ok MergeTask snap_now
    show ?thesis by simp
  next
    case (ConsTask l segs e snap)
    with res i have "snap = None" "s' = s\<lparr>v_tasks := (v_tasks s)[i := ConsTask l segs e (Some (v_dim s, v_tombs s))]\<rparr>"
      by (auto simp: merge_snap_def split: option.splits)
    moreover have "task_ok s (ConsTask l segs e (Some (v_dim s, v_tombs s)))"
      using ok snap_now unfolding ConsTask task_ok.simps by blast
    ultimately show ?thesis using put_task_step[OF inv i, of "ConsTask l segs e (Some (v_dim s, v_tombs s))"] ConsTask by simp
  qed
  then show "vinv s'" "vs_abs s' = vs_abs s" by blast+
qed

lemma idle_step:
  assumes inv: "vinv s"
  shows "vinv (idle_tick s)" "vs_abs (idle_tick s) = vs_abs s"
proof -
  have b: "base_ok s" using vinvD(1)[OF inv] .
  define toMerge where "toMerge = concat (rev (v_levels s))"
  define h where "h = foldl (\<lambda>h l. if v_levels s ! l \<noteq> [] \<and> h = 0 then l else h) 0 (rev [0..<maxLevels])"
  define l where "l = (if h + 1 \<ge> maxLevels then maxLevels - 1 else h + 1)"
  have l: "0 < l" "l < maxLevels" by (auto simp: l_def maxLevels_def)
  define s1 where "s1 = s\<lparr>v_cons := True\<rparr>"
  define lens where "lens = map (\<lambda>(i, seg). seg_Len seg) toMerge"
  define waiting where "waiting \<longleftrightarrow> (case v_delta s of None \<Rightarrow> False | Some d \<Rightarrow> d_live d > 0)"
  define busy where "busy \<longleftrightarrow> v_cons s \<or> v_builds s > 0 \<or> True \<in> set (v_merging s)"
  define enough where "enough \<longleftrightarrow> length toMerge \<le> 1 \<or> sum_list lens = 0 \<or> foldl max 0 lens * 10 \<ge> sum_list lens * 9"
  have eq: "idle_tick s = (if waiting then s\<lparr>v_signal := True\<rparr> else if busy \<or> enough then s
      else s1\<lparr>v_tasks := v_tasks s1 @ [ConsTask l toMerge (v_epoch s1) None]\<rparr>)"
    unfolding idle_tick_def Let_def waiting_def[symmetric] busy_def[symmetric] toMerge_def[symmetric] lens_def[symmetric]
      h_def[symmetric] l_def[symmetric]
    by (auto simp: enough_def s1_def)
  have "\<not> busy \<Longrightarrow> \<not> v_cons s \<and> True \<notin> set (v_merging s)" "\<not> enough \<Longrightarrow> toMerge \<noteq> []"
    by (auto simp: busy_def enough_def)
  with eq consider (signal) "idle_tick s = s\<lparr>v_signal := True\<rparr>" | (same) "idle_tick s = s"
    | (start) "idle_tick s = s1\<lparr>v_tasks := v_tasks s1 @ [ConsTask l toMerge (v_epoch s1) None]\<rparr>"
        "\<not> v_cons s" "True \<notin> set (v_merging s)" "toMerge \<noteq> []"
    by metis
  then have "vinv (idle_tick s) \<and> vs_abs (idle_tick s) = vs_abs s"
  proof cases
    case start
    have frame: "in_delta s1 = in_delta s" "in_flushing s1 = in_flushing s" "active_ok s1 = active_ok s"
      "delta_ids s1 = delta_ids s" "vs_doc s1 = vs_doc s" "v_dim s1 = v_dim s" "v_tombs s1 = v_tombs s"
      by (simp_all add: in_delta_def fun_eq_iff in_flushing_def active_ok_def delta_ids_def s1_def vs_doc_def
          active_doc_def layers_def cong: option.case_cong)
    have snap: "snap_ok s1 = snap_ok s"
      by (simp add: snap_ok_def fun_eq_iff covered_def renewed_def frame cong: option.case_cong)
    have merges: "\<not> v_merging s ! j" if "j < maxLevels - 1" for j
    proof -
      have "v_merging s ! j \<in> set (v_merging s)" using base_okD(7)[OF b] that by simp
      with start(3) show ?thesis by metis
    qed
    have "task_ok s1 t" if t: "t \<in> set (v_tasks s)" for t
      using vinvD(2)[OF inv t] frame(4) snap by (cases t) (auto simp: s1_def level_newer_def)
    moreover have "base_ok s1" using b frame by (auto simp: base_ok_def s1_def)
    ultimately have "vinv s1" using vinvD(3)[OF inv] start(3) by (simp add: vinv_def s1_def)
    moreover have "task_ok s1 (ConsTask l toMerge (v_epoch s1) None)"
    proof -
      have "v_levels s \<noteq> []" using base_okD(6)[OF b] by (auto simp: maxLevels_def)
      then have "toMerge = concat (rev (take (length (v_levels s1 ! 0)) (v_levels s1 ! 0) # tl (v_levels s1)))"
        by (simp add: toMerge_def s1_def nth_Cons' split: list.splits) (cases "v_levels s"; simp)
      moreover have "snap_ok s1 newer segs None" for newer segs by (simp add: snap_ok_def)
      moreover have "v_cons s1" by (simp add: s1_def)
      ultimately show ?thesis using l start(4) unfolding task_ok.simps by blast
    qed
    moreover have "task_slot (ConsTask l toMerge (v_epoch s1) None) \<notin> task_slot ` set (v_tasks s1)"
    proof
      assume "task_slot (ConsTask l toMerge (v_epoch s1) None) \<in> task_slot ` set (v_tasks s1)"
      then obtain t where t: "t \<in> set (v_tasks s)" "task_slot t = ConsSlot" by (auto simp: s1_def)
      with vinvD(2)[OF inv t(1)] start(2) show False by (cases t) auto
    qed
    ultimately have "vinv (idle_tick s)" unfolding start(1) by (rule vinv_add_task)
    moreover have "vs_abs (idle_tick s) = vs_abs s"
      unfolding start(1) using frame(5,6) by (simp add: vs_abs_def) (simp add: s1_def)
    ultimately show ?thesis by blast
  qed (use inv in simp_all)
  then show "vinv (idle_tick s)" "vs_abs (idle_tick s) = vs_abs s" by blast+
qed

end
