(* ===== verification/VecApply.thy ===== *)
theory VecApply
  imports VecRefine
begin

text \<open>
  Applying what the goroutines have built: a flushed delta becomes segments of level 0, a merge replaces
  its inputs by one segment of the next level, a consolidation replaces everything. Each step keeps the
  invariant and the map; together with the steps of \<open>VecRefine\<close> they give the refinement over whole runs.
\<close>

subsection \<open>A flush is applied\<close>

lemma take_task:
  assumes inv: "vinv s" and i: "i < length (v_tasks s)" and s0: "s0 = s\<lparr>v_tasks := del_nth i (v_tasks s)\<rparr>"
  shows "vinv s0" "task_ok s0 (v_tasks s ! i)" "task_slot (v_tasks s ! i) \<notin> task_slot ` set (v_tasks s0)"
    "vs_abs s0 = vs_abs s"
proof -
  let ?ts = "v_tasks s"
  have split: "?ts = take i ?ts @ ?ts ! i # drop (Suc i) ?ts" using i by (rule id_take_nth_drop)
  then have "distinct (map task_slot (take i ?ts @ ?ts ! i # drop (Suc i) ?ts))" using vinvD(3)[OF inv] by simp
  then show "task_slot (?ts ! i) \<notin> task_slot ` set (v_tasks s0)" by (auto simp: s0 del_nth_def)
  have sub: "set (del_nth i ?ts) \<subseteq> set ?ts"
    unfolding del_nth_def by (auto dest: in_set_takeD in_set_dropD)
  have "distinct (map task_slot (del_nth i ?ts))"
    using \<open>distinct (map task_slot (take i ?ts @ ?ts ! i # drop (Suc i) ?ts))\<close> by (simp add: del_nth_def)
  with inv sub show "vinv s0" by (auto simp: vinv_def s0)
  show "task_ok s0 (?ts ! i)" using vinvD(2)[OF inv] i by (simp add: s0)
  show "vs_abs s0 = vs_abs s" by (simp add: s0)
qed

lemma removeFlushing_absent: "i \<notin> d_id ` set ds \<Longrightarrow> removeFlushing i ds = ds"
  by (induction ds) auto

lemma number_from_simps [simp]:
  "map snd (number_from n segs) = segs" "map fst (number_from n segs) = [n..<n + length segs]"
  "length (number_from n segs) = length segs"
  by (simp_all add: number_from_def)

lemma number_from_elem:
  assumes "r \<in> set (number_from n segs)"
  shows "snd r \<in> set segs" "n \<le> fst r" "fst r < n + length segs"
proof -
  have "snd r \<in> set (map snd (number_from n segs))" "fst r \<in> set (map fst (number_from n segs))"
    using assms by (auto simp only: set_map)
  then show "snd r \<in> set segs" "n \<le> fst r" "fst r < n + length segs"
    unfolding number_from_simps by auto
qed

lemma in_segs_number: "in_segs (number_from n segs) k \<longleftrightarrow> (\<exists>seg \<in> set segs. seg_HasKey seg k)"
proof -
  have "set segs = snd ` set (number_from n segs)" by (metis list.set_map number_from_simps(1))
  then show ?thesis by (auto simp: in_segs_def)
qed

text \<open>New segments at the end of a level.\<close>

lemma append_level_simps [simp]:
  "v_delta (append_level l segs s) = v_delta s" "v_dim (append_level l segs s) = v_dim s"
  "v_flushing (append_level l segs s) = v_flushing s" "v_tombs (append_level l segs s) = v_tombs s"
  "v_epoch (append_level l segs s) = v_epoch s" "v_merging (append_level l segs s) = v_merging s"
  "v_cons (append_level l segs s) = v_cons s" "v_tasks (append_level l segs s) = v_tasks s"
  "v_next (append_level l segs s) = v_next s + length segs"
  "v_levels (append_level l segs s) = (v_levels s)[l := v_levels s ! l @ number_from (v_next s) segs]"
  by (simp_all add: append_level_def put_level_def)

lemma mset_append_at:
  "l < length ls \<Longrightarrow> mset (concat (ls[l := ls ! l @ new])) = mset (concat ls @ new)"
proof (induction ls arbitrary: l)
  case (Cons x ls)
  then show ?case by (cases l) auto
qed simp

lemma set_append_at: "l < length ls \<Longrightarrow> set (concat (ls[l := ls ! l @ new])) = set (concat ls) \<union> set new"
  using mset_append_at[of l ls new] by (metis set_append set_mset_mset)

lemma append_base:
  assumes b: "base_ok s" and l: "l < maxLevels" and some: "v_delta s \<noteq> None" and wf: "\<And>seg. seg \<in> set segs \<Longrightarrow> seg_wf (v_dim s) seg"
  shows "base_ok (append_level l segs s)"
proof -
  let ?new = "number_from (v_next s) segs" and ?s = "append_level l segs s"
  have len: "l < length (v_levels s)" using l base_okD(6)[OF b] by simp
  have old: "fst r < v_next s" if "r \<in> set (concat (v_levels s))" for r using base_okD(9)[OF b that] .
  have new: "seg_wf (v_dim s) (snd r) \<and> v_next s \<le> fst r \<and> fst r < v_next s + length segs" if "r \<in> set ?new" for r
    using number_from_elem[OF that] wf by blast
  have segs: "seg_wf (v_dim s) (snd r) \<and> fst r < v_next s + length segs" if "r \<in> set (concat (v_levels ?s))" for r
    using that new[of r] base_okD(8,9)[OF b, of r] unfolding append_level_simps set_append_at[OF len]
    by (auto simp del: set_concat)
  have "distinct (map fst (concat (v_levels s) @ ?new))"
    using base_okD(10)[OF b] new old by (fastforce simp del: set_concat)
  then have dist: "distinct (map fst (concat (v_levels ?s)))"
    using mset_append_at[OF len, of ?new] by (metis append_level_simps(10) mset_eq_imp_distinct_iff mset_map)
  have "d_id d < v_next s + length segs" if "d \<in> set (v_flushing s)" for d using base_okD(4)[OF b that] by simp
  moreover have "active_ok ?s" using base_okD(1)[OF b] some by (auto simp: active_ok_def split: option.splits)
  ultimately show ?thesis
    using base_okD(2,3,5-7)[OF b] segs dist unfolding base_ok_def by (simp del: set_concat)
qed

lemma read_order_Cons: "read_order (l # ls) = map snd (rev l) @ read_order ls"
  by (simp add: read_order_def)

lemma number_from_has: "\<forall>seg \<in> set segs. seg_wf dim seg \<Longrightarrow>
    in_segs (number_from n segs) k \<longleftrightarrow> first_some (map seg_doc (rev segs)) k \<noteq> None"
  using seg_source.layer_None[of "rev segs" dim k] by (simp add: in_segs_number)

lemma flush_current_step:
  assumes env: "env_ok E" and inv: "vinv s" and d: "d \<in> set (v_flushing s)" and first: "d_id d = d_id (hd (v_flushing s))"
    and fit: "delta_fits d" and slot: "FlushSlot (d_id d) \<notin> task_slot ` set (v_tasks s)"
    and segs: "flush_segments (e_vec E) (e_lib E) (v_dim s) d = Some segs"
    and s': "s' = append_level 0 segs (s\<lparr>v_builds := v_builds s - 1, v_flushing := removeFlushing (d_id d) (v_flushing s)\<rparr>)"
  shows "vinv s'" "vs_abs s' = vs_abs s"
proof -
  have b: "base_ok s" using vinvD(1)[OF inv] .
  obtain x fs where x: "v_flushing s = x # fs" using d by (cases "v_flushing s") auto
  have inj: "inj_on d_id (set (v_flushing s))" using base_okD(5)[OF b] by (simp add: distinct_map)
  have "d = x" by (rule inj_onD[OF inj]) (use first d x in simp_all)
  with x base_okD(5)[OF b] have fs: "v_flushing s = d # fs" "d_id d \<notin> d_id ` set fs" by simp_all
  have some: "v_delta s \<noteq> None" using active_None(1)[OF base_okD(1)[OF b]] x by auto
  have lib: "lib_ok (e_lib E)" "\<not> UseSQ (e_vec E)" using env by (simp_all add: env_ok_def)
  obtain segs' where "flush_segments (e_vec E) (e_lib E) (v_dim s) d = Some segs'"
    "\<And>seg. seg \<in> set segs' \<Longrightarrow> seg_wf (v_dim s) seg" "first_some (map seg_doc (rev segs')) = delta_doc d"
    using flush_doc[OF lib base_okD(2)[OF b d] fit base_okD(3)[OF b d]] by blast
  with segs have wf: "seg \<in> set segs \<Longrightarrow> seg_wf (v_dim s) seg" and doc: "first_some (map seg_doc (rev segs)) = delta_doc d" for seg
    by auto
  let ?new = "number_from (v_next s) segs"
  define s1 where "s1 = s\<lparr>v_builds := v_builds s - 1, v_flushing := fs\<rparr>"
  have s': "s' = append_level 0 segs s1" using fs(1) by (simp add: s' s1_def)
  obtain L0 rest where ls: "v_levels s = L0 # rest"
    using base_okD(6)[OF b] by (cases "v_levels s") (auto simp: maxLevels_def)
  have levels: "v_levels s' = (L0 @ ?new) # rest" by (simp add: s' s1_def ls)
  have base1: "base_ok s1" using b fs(1) by (auto simp: base_ok_def active_ok_def s1_def split: option.splits)
  have base: "base_ok s'" unfolding s'
    by (rule append_base[OF base1]) (use some wf in \<open>auto simp: s1_def maxLevels_def\<close>)
  have new: "in_segs ?new k \<longleftrightarrow> delta_view d k \<noteq> None" for k
    using number_from_has[of segs "v_dim s"] wf doc by (simp add: delta_doc_def)
  have ren: "renewed s' newer' k" if "renewed s newer k" "set newer \<subseteq> set newer'" "set ?new \<subseteq> set newer'" for newer newer' k
  proof -
    have "in_segs newer k \<Longrightarrow> in_segs newer' k" "in_segs ?new k \<Longrightarrow> in_segs newer' k"
      using that(2,3) by (auto intro: in_segs_mono)
    with that(1) fs(1) new[of k] show ?thesis by (auto simp: renewed_def s' s1_def in_delta_def in_flushing_def)
  qed
  have snap: "snap_ok s' newer' gs snap" if "snap_ok s newer gs snap" "set newer \<subseteq> set newer'" "set ?new \<subseteq> set newer'" for newer newer' gs snap
    using that(1) by (rule snap_ok_mono) (use ren that in \<open>auto simp: s' s1_def\<close>)
  have task: "task_ok s' t" if t: "t \<in> set (v_tasks s)" for t
  proof (cases t)
    case (FlushTask e f dim)
    have "f \<noteq> d" using slot t FlushTask by force
    with vinvD(2)[OF inv t] FlushTask fs show ?thesis by (auto simp: s' s1_def delta_ids_def split: if_splits)
  next
    case (MergeTask l gs e snp)
    have ok: "task_ok s t" using vinvD(2)[OF inv t] .
    have level: "v_levels s' ! l = v_levels s ! l @ (if l = 0 then ?new else [])" by (cases l) (simp_all add: levels ls)
    have newer: "set (level_newer s l n) \<subseteq> set (level_newer s' l n)" for n
      by (cases l) (auto simp: level_newer_def levels ls)
    have "set ?new \<subseteq> set (level_newer s' l (length gs))" if "gs = take (length gs) (v_levels s ! l)"
    proof -
      have "length gs \<le> length (v_levels s ! l)" using that by (metis length_take min.cobounded1 min.commute)
      then show ?thesis by (cases l) (auto simp: level_newer_def levels ls)
    qed
    moreover have "gs = take (length gs) (v_levels s' ! l)" if "gs = take (length gs) (v_levels s ! l)"
      using that unfolding level by (metis append_take_drop_id append.assoc append_eq_conv_conj)
    ultimately show ?thesis using ok snap newer MergeTask by (auto simp: s' s1_def)
  next
    case (ConsTask l gs e snp)
    have ok: "task_ok s t" using vinvD(2)[OF inv t] .
    show ?thesis
    proof (cases "e = v_epoch s")
      case True
      then obtain n where n: "gs \<noteq> []" "gs = concat (rev (take n L0 # rest))" "snap_ok s (drop n L0) gs snp"
        using ok True unfolding ConsTask task_ok.simps ls nth_Cons_0 list.sel by blast
      define m where "m = min n (length L0)"
      have "take m (L0 @ ?new) = take n L0" "drop m (L0 @ ?new) = drop n L0 @ ?new" by (auto simp: m_def min_def)
      then have "gs = concat (rev (take m (v_levels s' ! 0) # tl (v_levels s')))" "snap_ok s' (drop m (v_levels s' ! 0)) gs snp"
        using n snap[OF n(3)] by (auto simp: levels)
      then show ?thesis using ok ConsTask n(1) unfolding task_ok.simps s' s1_def by auto
    next
      case False
      then show ?thesis using ok ConsTask by (simp add: s' s1_def)
    qed
  qed
  show "vinv s'" using base task vinvD(3,4)[OF inv] by (simp add: vinv_def s' s1_def)
  have "layers s' = map delta_doc (rev fs) @ map seg_doc (rev segs) @ map seg_doc (read_order (v_levels s))"
    by (simp add: layers_def levels ls read_order_Cons rev_map[symmetric] del: rev_map map_map) (simp add: s' s1_def)
  moreover have "layers s = map delta_doc (rev fs) @ [delta_doc d] @ map seg_doc (read_order (v_levels s))"
    by (simp add: layers_def fs(1))
  ultimately have "first_some (layers s') k = first_some (layers s) k" for k
    using doc by (simp add: first_some_append split: option.splits)
  then have "vs_doc s' = vs_doc s" by (simp add: vs_doc_def active_doc_def fun_eq_iff s' s1_def cong: option.case_cong)
  then show "vs_abs s' = vs_abs s" by (simp add: vs_abs_def s' s1_def)
qed

lemma apply_flush_step:
  assumes env: "env_ok E" and inv: "vinv s" and ok: "task_ok s (FlushTask e d dim)"
    and first: "e = v_epoch s \<Longrightarrow> d_id d = d_id (hd (v_flushing s))" and fit: "delta_fits d"
    and slot: "FlushSlot (d_id d) \<notin> task_slot ` set (v_tasks s)"
  shows "vinv (apply_flush E e d dim s)" "vs_abs (apply_flush E e d dim s) = vs_abs s"
proof -
  have "vinv (apply_flush E e d dim s) \<and> vs_abs (apply_flush E e d dim s) = vs_abs s"
  proof (cases "e = v_epoch s")
    case False
    with ok have "removeFlushing (d_id d) (v_flushing s) = v_flushing s" by (simp add: removeFlushing_absent)
    with False have "apply_flush E e d dim s = s\<lparr>v_builds := v_builds s - 1\<rparr>" by (simp add: apply_flush_def Let_def)
    with inv show ?thesis by simp
  next
    case True
    with ok have d: "d \<in> set (v_flushing s)" "dim = v_dim s" by simp_all
    note b = vinvD(1)[OF inv]
    have lib: "lib_ok (e_lib E)" "\<not> UseSQ (e_vec E)" using env by (simp_all add: env_ok_def)
    obtain segs where segs: "flush_segments (e_vec E) (e_lib E) (v_dim s) d = Some segs"
      using flush_doc[OF lib base_okD(2)[OF b d(1)] fit base_okD(3)[OF b d(1)]] by blast
    define s1 where "s1 = append_level 0 segs (s\<lparr>v_builds := v_builds s - 1, v_flushing := removeFlushing (d_id d) (v_flushing s)\<rparr>)"
    note step = flush_current_step[OF env inv d(1) first[OF True] fit slot segs s1_def]
    have "apply_flush E e d dim s = after_apply E e s1" using True segs d(2) by (simp add: apply_flush_def Let_def s1_def)
    with after_apply_step[OF env step(1), of e] step(2) show ?thesis by simp
  qed
  then show "vinv (apply_flush E e d dim s)" "vs_abs (apply_flush E e d dim s) = vs_abs s" by blast+
qed

subsection \<open>A merge is applied\<close>

text \<open>One segment takes the place of its inputs among the layers, and the deleted keys that only the
  inputs held are forgotten.\<close>

lemma flag_simps [simp]:
  "active_ok (s\<lparr>v_merging := m\<rparr>) = active_ok s" "active_ok (s\<lparr>v_cons := c\<rparr>) = active_ok s"
  "base_ok (s\<lparr>v_cons := c\<rparr>) = base_ok s" "vs_doc (s\<lparr>v_merging := m\<rparr>) = vs_doc s" "vs_doc (s\<lparr>v_cons := c\<rparr>) = vs_doc s"
  "base_ok s \<Longrightarrow> length m = maxLevels \<Longrightarrow> base_ok (s\<lparr>v_merging := m\<rparr>)"
  by (simp_all add: active_ok_def base_ok_def vs_doc_def active_doc_def layers_def fun_eq_iff cong: option.case_cong)

lemma shrink_base:
  assumes b: "base_ok s" and some: "v_delta s \<noteq> None" and len: "length ls = maxLevels"
    and sub: "set (concat ls) \<subseteq> set (concat (v_levels s))" and dist: "distinct (map fst (concat ls))"
  shows "base_ok (s\<lparr>v_levels := ls\<rparr>)"
proof -
  have "seg_wf (v_dim s) (snd r) \<and> fst r < v_next s" if "r \<in> set (concat ls)" for r
    using base_okD(8,9)[OF b, of r] that sub by blast
  moreover have "active_ok (s\<lparr>v_levels := ls\<rparr>)" using base_okD(1)[OF b] some by (auto simp: active_ok_def)
  ultimately show ?thesis using base_okD(2-5,7)[OF b] len dist unfolding base_ok_def by (simp del: set_concat)
qed

lemma other_segments:
  assumes b: "base_ok s" and l: "l < maxLevels"
  shows "keyInOtherSegments (append_level l [new] s) (v_next s) k \<longleftrightarrow> in_segs (concat (v_levels s)) k"
proof -
  have len: "l < length (v_levels s)" using l base_okD(6)[OF b] by simp
  have "set (number_from (v_next s) [new]) = {(v_next s, new)}" by (simp add: number_from_def)
  moreover have "fst r \<noteq> v_next s" if "r \<in> set (concat (v_levels s))" for r using base_okD(9)[OF b that] by simp
  ultimately show ?thesis
    unfolding keyInOtherSegments_def append_level_simps set_append_at[OF len] by (force simp: in_segs_def simp del: set_concat)
qed

lemma replace_step:
  assumes b: "base_ok s" and some: "v_delta s \<noteq> None" and b2: "base_ok s2" and l: "l < maxLevels"
    and frame: "v_delta s2 = v_delta s" "v_flushing s2 = v_flushing s" "v_tombs s2 = v_tombs s" "v_dim s2 = v_dim s"
    and before: "read_order (v_levels s) = map snd newer @ rev (map snd segs) @ map snd older"
    and after: "read_order ((v_levels s2)[l := v_levels s2 ! l @ [(v_next s2, new)]]) = map snd newer @ [new] @ map snd older"
    and sets: "set (concat (v_levels s2)) = set newer \<union> set older"
    and cov: "covered s newer ts segs" and wf: "seg_wf (v_dim s) new"
    and doc: "\<And>k. seg_doc new k = (if k \<in> ts then None else first_some (map seg_doc (rev (map snd segs))) k)"
    and app: "applied = {k \<in> ts. in_segs segs k}" and calm: "\<And>k. k \<in> applied \<Longrightarrow> \<not> in_flushing s k"
    and s': "s' = clearAppliedTombstones applied (v_next s2) (append_level l [new] s2)"
  shows "base_ok s'" "vs_doc s' = vs_doc s"
    "\<And>k. in_segs (concat (v_levels s2)) k \<Longrightarrow> k \<in> v_tombs s \<Longrightarrow> k \<in> v_tombs s'"
    "\<And>k. in_segs segs k \<Longrightarrow> renewed s (newer @ [(v_next s2, new)]) k"
proof -
  have tombs: "v_tombs s' = v_tombs s - {k \<in> applied. \<not> in_segs (concat (v_levels s2)) k}"
    using other_segments[OF b2 l, of new] by (simp add: s' clearAppliedTombstones_def frame(3))
  have rest: "v_delta s' = v_delta s" "v_flushing s' = v_flushing s" "v_dim s' = v_dim s"
    "v_levels s' = v_levels (append_level l [new] s2)"
    by (simp_all add: s' clearAppliedTombstones_def frame)
  show "k \<in> v_tombs s'" if "in_segs (concat (v_levels s2)) k" "k \<in> v_tombs s" for k using that by (simp add: tombs)
  have b3: "base_ok (append_level l [new] s2)" by (rule append_base[OF b2 l]) (use some wf frame in auto)
  show "base_ok s'"
    using b3 tombs frame(3) by (auto simp: base_ok_def active_ok_def s' clearAppliedTombstones_def split: option.splits)
  have ord: "seg_wf (v_dim s) seg" if "seg \<in> set (read_order (v_levels s))" for seg
    using that base_okD(8)[OF b] unfolding set_read_order by blast
  have swf: "\<forall>seg \<in> set (rev (map snd segs)). seg_wf (v_dim s) seg"
    and ow: "\<forall>seg \<in> set (map snd newer). seg_wf (v_dim s) seg" "\<forall>seg \<in> set (map snd older). seg_wf (v_dim s) seg"
    using ord unfolding before by simp_all
  have has: "first_some (map seg_doc (rev (map snd segs))) k = None \<longleftrightarrow> \<not> in_segs segs k" for k
    using seg_source.layer_None[OF swf] by (simp add: in_segs_def)
  show "renewed s (newer @ [(v_next s2, new)]) k" if k: "in_segs segs k" for k
  proof (cases "k \<in> ts")
    case True
    with cov k show ?thesis by (auto simp: covered_def renewed_def)
  next
    case False
    then have "seg_doc new k \<noteq> None" using doc[of k] has[of k] k by simp
    then have "seg_HasKey new k" using seg_doc_HasKey[OF wf] by blast
    then show ?thesis by (simp add: renewed_def in_segs_def)
  qed
  define A where "A = map delta_doc (rev (v_flushing s)) @ map seg_doc (map snd newer)"
  have lay: "layers s = A @ map seg_doc (rev (map snd segs)) @ map seg_doc (map snd older)"
    "layers s' = A @ seg_doc new # map seg_doc (map snd older)"
    using before after by (simp_all add: layers_def A_def rest number_from_def)
  have fl: "first_some (map delta_doc (rev (v_flushing s))) k = None \<longleftrightarrow> \<not> in_flushing s k" for k
  proof -
    have "\<forall>d \<in> set (rev (v_flushing s)). delta_ok d" using base_okD(2)[OF b] delta_wf_ok by auto
    from delta_source.layer_None[OF this, of k] show ?thesis
      by (simp add: flushing_key[OF b, symmetric] keyInFlushing_def)
  qed
  have hasA: "first_some A k = None \<longleftrightarrow> \<not> in_flushing s k \<and> \<not> in_segs newer k" for k
    using fl[of k] seg_source.layer_None[OF ow(1), of k]
    by (auto simp: A_def first_some_append in_segs_def split: option.splits)
  have hasO: "first_some (map seg_doc (map snd older)) k = None \<longleftrightarrow> \<not> in_segs older k" for k
    using seg_source.layer_None[OF ow(2), of k] by (simp add: in_segs_def)
  have other: "in_segs (concat (v_levels s2)) k \<longleftrightarrow> in_segs newer k \<or> in_segs older k" for k
    unfolding in_segs_def sets by blast
  have act: "active_doc s' = active_doc s" by (simp add: active_doc_def fun_eq_iff rest)
  show "vs_doc s' = vs_doc s"
  proof
    fix k
    show "vs_doc s' k = vs_doc s k"
    proof (cases "active_doc s k = None")
      case False
      then show ?thesis by (auto simp: vs_doc_def act)
    next
      case True
      have new: "seg_doc new k = None \<longleftrightarrow> k \<in> ts \<or> \<not> in_segs segs k" using doc[of k] has[of k] by simp
      consider (hid) "k \<in> v_tombs s'" "k \<in> v_tombs s" | (gone) "k \<notin> v_tombs s'" "k \<in> v_tombs s" | (seen) "k \<notin> v_tombs s'" "k \<notin> v_tombs s"
        using tombs by blast
      then show ?thesis
      proof cases
        case hid
        with True show ?thesis by (simp add: vs_doc_def act)
      next
        case gone
        then have "k \<in> applied" "\<not> in_segs newer k" "\<not> in_segs older k" using tombs other by auto
        moreover from this have "seg_doc new k = None" using new app by blast
        ultimately have "first_some (layers s') k = None"
          using calm hasA[of k] hasO[of k] by (simp add: lay first_some_append)
        with gone True show ?thesis by (simp add: vs_doc_def act)
      next
        case seen
        have "first_some (layers s') k = first_some (layers s) k"
        proof (cases "k \<in> ts \<and> in_segs segs k")
          case True
          with cov have "renewed s newer k" by (simp add: covered_def)
          with seen(2) \<open>active_doc s k = None\<close> hasA active_doc_None have "first_some A k \<noteq> None" by (auto simp: renewed_def)
          then show ?thesis by (auto simp: lay first_some_append)
        next
          case False
          then have "seg_doc new k = first_some (map seg_doc (rev (map snd segs))) k" using doc[of k] has[of k] by auto
          then show ?thesis by (simp add: lay first_some_append split: option.splits)
        qed
        with seen True show ?thesis by (simp add: vs_doc_def act)
      qed
    qed
  qed
qed

lemma covered_mono:
  assumes "covered s newer ts segs" "set newer \<subseteq> set newer'"
  shows "covered s newer' ts segs"
  using assms in_segs_mono by (fastforce simp: covered_def renewed_def)

lemma removeSegments_simps:
  "(\<And>r. r \<in> set x \<Longrightarrow> fst r \<in> set gone) \<Longrightarrow> removeSegments gone x = []"
  "(\<And>r. r \<in> set x \<Longrightarrow> fst r \<notin> set gone) \<Longrightarrow> removeSegments gone x = x"
  "removeSegments gone (x @ y) = removeSegments gone x @ removeSegments gone y"
  by (force simp: removeSegments_def filter_empty_conv filter_id_conv)+

lemma remove_inputs:
  assumes "distinct (map fst (segs @ rest))"
  shows "removeSegments (map fst segs) (segs @ rest) = rest"
proof -
  have "removeSegments (map fst segs) segs = []" by (rule removeSegments_simps(1)) simp
  moreover have "removeSegments (map fst segs) rest = rest"
    by (rule removeSegments_simps(2)) (use assms in force)
  ultimately show ?thesis by (simp add: removeSegments_simps(3))
qed

text \<open>A merge of another level keeps its inputs and its cover.\<close>

lemma other_level:
  assumes l': "l' \<noteq> length P" "l' < length P + 2 + length Q"
    and ls: "ls = P @ (segs @ rest) # Lm # Q" and ls': "ls' = P @ rest # (Lm @ [new]) # Q"
  shows "ls' ! l' = ls ! l' \<or> (l' = Suc (length P) \<and> ls' ! l' = ls ! l' @ [new])"
    "n \<le> length (ls ! l') \<Longrightarrow> set (concat (take l' ls) @ drop n (ls ! l')) \<subseteq>
       set (concat (take l' ls') @ drop n (ls' ! l')) \<union> (if l' < length P then {} else set segs)"
    "n \<le> length (ls ! l') \<Longrightarrow> length P < l' \<Longrightarrow> insert new (set (concat P) \<union> set rest) \<subseteq> set (concat (take l' ls') @ drop n (ls' ! l'))"
proof -
  consider "l' < length P" | "l' = Suc (length P)" | j where "l' = length P + 2 + j"
    using l'(1) by (metis add.commute add_2_eq_Suc le_Suc_ex linorder_neqE_nat not_less_eq_eq less_eq_Suc_le nat_less_le)
  then show "ls' ! l' = ls ! l' \<or> (l' = Suc (length P) \<and> ls' ! l' = ls ! l' @ [new])"
    "n \<le> length (ls ! l') \<Longrightarrow> set (concat (take l' ls) @ drop n (ls ! l')) \<subseteq>
       set (concat (take l' ls') @ drop n (ls' ! l')) \<union> (if l' < length P then {} else set segs)"
    "n \<le> length (ls ! l') \<Longrightarrow> length P < l' \<Longrightarrow> insert new (set (concat P) \<union> set rest) \<subseteq> set (concat (take l' ls') @ drop n (ls' ! l'))"
    by (cases; auto simp: ls ls' nth_append)+
qed

lemma clear_simps [simp]:
  "v_delta (clearAppliedTombstones applied i s) = v_delta s" "v_dim (clearAppliedTombstones applied i s) = v_dim s"
  "v_flushing (clearAppliedTombstones applied i s) = v_flushing s" "v_levels (clearAppliedTombstones applied i s) = v_levels s"
  "v_epoch (clearAppliedTombstones applied i s) = v_epoch s" "v_merging (clearAppliedTombstones applied i s) = v_merging s"
  "v_cons (clearAppliedTombstones applied i s) = v_cons s" "v_tasks (clearAppliedTombstones applied i s) = v_tasks s"
  "v_next (clearAppliedTombstones applied i s) = v_next s"
  by (simp_all add: clearAppliedTombstones_def)

lemma merge_out:
  assumes env: "env_ok E" and b: "base_ok s" and sub: "set segs \<subseteq> set (concat (v_levels s))"
    and fit: "fits (m_entries (merge_collect (v_dim s) ts (map snd segs)))"
    and res: "mergeSegments (e_vec E) (e_lib E) (v_dim s) ts (map snd segs) = (Some new, applied)"
  shows "seg_wf (v_dim s) new" "applied = {k \<in> ts. in_segs segs k}"
    "seg_doc new k = (if k \<in> ts then None else first_some (map seg_doc (rev (map snd segs))) k)"
proof -
  have lib: "lib_ok (e_lib E)" "\<not> UseSQ (e_vec E)" using env by (simp_all add: env_ok_def)
  have "\<forall>seg \<in> set (map snd segs). seg_wf (v_dim s) seg" using base_okD(8)[OF b] sub by fastforce
  note m = mergeSegments_doc[OF lib this fit res]
  show "seg_wf (v_dim s) new" "applied = {k \<in> ts. in_segs segs k}"
    "seg_doc new k = (if k \<in> ts then None else first_some (map seg_doc (rev (map snd segs))) k)"
    using m by (simp_all add: in_segs_def)
qed

lemma distinct_part: "distinct (as @ xs @ ys @ bs) \<Longrightarrow> distinct (xs @ ys) \<and> distinct (as @ ys @ bs)"
  by auto

text \<open>The levels around a merge of level \<open>l\<close>: those above, its inputs and what follows them, the next
  level, those below.\<close>

lemma merge_shape:
  assumes b: "base_ok s" and ok: "task_ok s (MergeTask l segs (v_epoch s) snap)"
  obtains P rest Lm Q where "v_levels s = P @ (segs @ rest) # Lm # Q" "length P = l" "length P + 2 + length Q = maxLevels"
    "level_newer s l (length segs) = concat P @ rest" "v_delta s \<noteq> None"
    "distinct (map fst (segs @ rest))" "distinct (map fst (concat (P @ rest # Lm # Q)))"
proof -
  let ?n = "length segs"
  have t: "l < maxLevels - 1" "segs \<noteq> []" "segs = take ?n (v_levels s ! l)" using ok by auto
  have len: "length (v_levels s) = maxLevels" using base_okD(6)[OF b] .
  define P where "P = take l (v_levels s)"
  define rest where "rest = drop ?n (v_levels s ! l)"
  define Lm where "Lm = v_levels s ! Suc l"
  define Q where "Q = drop (Suc (Suc l)) (v_levels s)"
  have lenP: "length P = l" "length P + 2 + length Q = maxLevels" using t(1) len by (auto simp: P_def Q_def maxLevels_def)
  have "v_levels s = P @ v_levels s ! l # Lm # Q"
    using t(1) len by (simp add: P_def Q_def Lm_def Cons_nth_drop_Suc maxLevels_def)
  moreover have "v_levels s ! l = segs @ rest" using t(3) by (metis append_take_drop_id rest_def)
  ultimately have ls: "v_levels s = P @ (segs @ rest) # Lm # Q" by simp
  have some: "v_delta s \<noteq> None" using active_None(2)[OF base_okD(1)[OF b]] t(2) ls by auto
  have "distinct (map fst (concat (v_levels s)))" using base_okD(10)[OF b] .
  then have "distinct (map fst (segs @ rest))" "distinct (map fst (concat (P @ rest # Lm # Q)))"
    using distinct_part[of "map fst (concat P)" "map fst segs" "map fst rest" "map fst Lm @ map fst (concat Q)"]
    unfolding ls by simp_all
  then show thesis using that[OF ls lenP _ some] by (simp add: level_newer_def P_def rest_def)
qed

lemma merge_keeps_task:
  assumes ok: "task_ok s (MergeTask l' gs e snp)" and ne: "l' \<noteq> l" and lenP: "length P = l" "length P + 2 + length Q = maxLevels"
    and ls: "v_levels s = P @ (segs @ rest) # Lm # Q" and levels': "v_levels s' = P @ rest # (Lm @ [new]) # Q"
    and frame: "v_dim s' = v_dim s" "v_epoch s' = v_epoch s" "v_delta s' = v_delta s" "v_flushing s' = v_flushing s"
      "v_merging s' = (v_merging s)[l := False]"
    and keep: "\<And>k. in_segs (concat (P @ rest # Lm # Q)) k \<Longrightarrow> k \<in> v_tombs s \<Longrightarrow> k \<in> v_tombs s'"
    and cover: "\<And>k. in_segs segs k \<Longrightarrow> renewed s (concat P @ rest @ [new]) k"
  shows "task_ok s' (MergeTask l' gs e snp)"
proof (cases "e = v_epoch s")
  case False
  with ok ne show ?thesis by (simp add: frame)
next
  case True
  let ?m = "length gs"
  have g: "l' < maxLevels - 1" "gs \<noteq> []" "gs = take ?m (v_levels s ! l')" "snap_ok s (level_newer s l' ?m) gs snp" "v_merging s ! l'"
    using ok True by auto
  have m: "?m \<le> length (v_levels s ! l')" using g(3) by (metis length_take min.cobounded1 min.commute)
  have bound: "l' < length P + 2 + length Q" using g(1) lenP(2) by (simp add: maxLevels_def)
  note lev = other_level[OF ne[folded lenP(1)] bound ls levels']
  have pre: "gs = take ?m (v_levels s' ! l')" using lev(1) m g(3) by auto
  have "(P @ rest # Lm # Q) ! l' = v_levels s ! l'" using ne lenP(1) by (simp add: ls nth_append nth_Cons')
  then have "set gs \<subseteq> set (concat (P @ rest # Lm # Q))"
    using set_take_level[of l' "P @ rest # Lm # Q" ?m] g(3) bound by simp
  then have in2: "in_segs gs k \<Longrightarrow> in_segs (concat (P @ rest # Lm # Q)) k" for k using in_segs_mono by blast
  have "set (level_newer s l' ?m) \<subseteq> set (level_newer s' l' ?m @ (if l' < l then [] else segs))"
    using lev(2)[OF m] unfolding level_newer_def lenP(1) set_append by (simp split: if_splits)
  then have "in_segs (level_newer s l' ?m) k \<Longrightarrow> in_segs (level_newer s' l' ?m @ (if l' < l then [] else segs)) k" for k
    using in_segs_mono by blast
  then have sup: "in_segs (level_newer s l' ?m) k \<Longrightarrow> in_segs (level_newer s' l' ?m) k \<or> (l < l' \<and> in_segs segs k)" for k
    unfolding in_segs_append using ne by (cases "l' < l") (auto simp: in_segs_def[of "[]"])
  have above: "in_segs (level_newer s' l' ?m) k" if "l < l'" "in_segs (concat P @ rest @ [new]) k" for k
    using that(2) by (rule in_segs_mono) (use lev(3)[OF m] that(1) in \<open>simp add: level_newer_def lenP(1)\<close>)
  have "snap_ok s' (level_newer s' l' ?m) gs snp"
  proof (rule snap_ok_mono[OF g(4) frame(1)])
    show "renewed s' (level_newer s' l' ?m) k" if k: "in_segs gs k" "renewed s (level_newer s l' ?m) k" for k
    proof -
      have "k \<in> v_tombs s \<Longrightarrow> k \<in> v_tombs s'" using keep in2 k(1) by blast
      moreover have "in_delta s' k \<longleftrightarrow> in_delta s k" "in_flushing s' k \<longleftrightarrow> in_flushing s k"
        by (simp_all add: in_delta_def in_flushing_def frame)
      moreover have "in_segs (level_newer s l' ?m) k \<Longrightarrow> renewed s (level_newer s' l' ?m) k"
        using sup[of k] cover[of k] above[of k] by (auto simp: renewed_def)
      ultimately show ?thesis using k(2) by (auto simp: renewed_def)
    qed
  qed
  with pre g ok True ne show ?thesis by (simp add: frame)
qed

lemma merge_current_step:
  assumes env: "env_ok E" and inv: "vinv s" and ok: "task_ok s (MergeTask l segs (v_epoch s) (Some (dim, ts)))"
    and slot: "MergeSlot l \<notin> task_slot ` set (v_tasks s)"
    and fit: "fits (m_entries (merge_collect dim ts (map snd segs)))"
    and calm: "\<And>k. k \<in> ts \<Longrightarrow> in_segs segs k \<Longrightarrow> \<not> keyInFlushing s k"
    and res: "mergeSegments (e_vec E) (e_lib E) dim ts (map snd segs) = (Some new, applied)"
    and s2: "s2 = put_level l (removeSegments (map fst segs) (v_levels s ! l)) (s\<lparr>v_merging := (v_merging s)[l := False]\<rparr>)"
    and s': "s' = clearAppliedTombstones applied (v_next s) (append_level (l + 1) [new] s2)"
  shows "vinv s'" "vs_abs s' = vs_abs s"
proof -
  have b: "base_ok s" using vinvD(1)[OF inv] .
  have t: "l < maxLevels - 1" "v_merging s ! l" "dim = v_dim s" and cov: "covered s (level_newer s l (length segs)) ts segs"
    using ok by (auto simp: snap_ok_def)
  have cons: "\<not> v_cons s"
  proof
    assume "v_cons s"
    moreover have "v_merging s ! l \<in> set (v_merging s)" using t(1) base_okD(7)[OF b] by simp
    ultimately show False using vinvD(4)[OF inv] t(2) by simp
  qed
  obtain P rest Lm Q where ls: "v_levels s = P @ (segs @ rest) # Lm # Q" and lenP: "length P = l" "length P + 2 + length Q = maxLevels"
    and above: "level_newer s l (length segs) = concat P @ rest" and some: "v_delta s \<noteq> None"
    and dist: "distinct (map fst (segs @ rest))" "distinct (map fst (concat (P @ rest # Lm # Q)))"
    using merge_shape[OF b ok] by metis
  have level: "v_levels s ! l = segs @ rest" using lenP(1) by (simp add: ls nth_append)
  have levels2: "v_levels s2 = P @ rest # Lm # Q"
    using remove_inputs[OF dist(1)] unfolding level by (simp add: s2 put_level_def level ls lenP(1)[symmetric])
  have frame: "v_delta s2 = v_delta s" "v_flushing s2 = v_flushing s" "v_tombs s2 = v_tombs s" "v_dim s2 = v_dim s"
    "v_next s2 = v_next s" "v_epoch s2 = v_epoch s" "v_tasks s2 = v_tasks s" "v_cons s2 = v_cons s"
    "v_merging s2 = (v_merging s)[l := False]"
    by (simp_all add: s2 put_level_def)
  have b2: "base_ok s2"
  proof -
    have "base_ok (s\<lparr>v_levels := P @ rest # Lm # Q\<rparr>)"
      by (rule shrink_base[OF b some]) (use dist(2) lenP in \<open>auto simp: ls\<close>)
    moreover have "s2 = (s\<lparr>v_levels := P @ rest # Lm # Q\<rparr>)\<lparr>v_merging := (v_merging s)[l := False]\<rparr>"
      using levels2 frame by (simp add: s2 put_level_def)
    ultimately show ?thesis using base_okD(7)[OF b] by simp
  qed
  define newer where "newer = concat (map rev P) @ rev rest"
  define older where "older = rev Lm @ concat (map rev Q)"
  have newer: "set newer = set (level_newer s l (length segs))" by (simp add: newer_def above)
  let ?N = "(v_next s, new)"
  have levels': "v_levels s' = P @ rest # (Lm @ [?N]) # Q"
    using levels2 frame(5) lenP(1) by (simp add: s' number_from_def nth_append list_update_append)
  have sub: "set segs \<subseteq> set (concat (v_levels s))" by (auto simp: ls)
  note out = merge_out[OF env b sub fit[unfolded t(3)] res[unfolded t(3)]]
  have before: "read_order (v_levels s) = map snd newer @ rev (map snd segs) @ map snd older"
    by (simp add: ls read_order_def newer_def older_def rev_map)
  have after: "read_order ((v_levels s2)[l + 1 := v_levels s2 ! (l + 1) @ [(v_next s2, new)]]) = map snd newer @ [new] @ map snd older"
    using lenP(1) by (simp add: levels2 frame(5) read_order_def newer_def older_def nth_append list_update_append)
  have sets: "set (concat (v_levels s2)) = set newer \<union> set older"
    by (simp add: levels2 newer_def older_def Un_assoc)
  have quiet: "\<not> in_flushing s k" if "k \<in> applied" for k
    using that out(2) calm flushing_key[OF b] by blast
  have l1: "l + 1 < maxLevels" using t(1) by simp
  have s2': "s' = clearAppliedTombstones applied (v_next s2) (append_level (l + 1) [new] s2)" by (simp add: s' frame(5))
  note step = replace_step[OF b some b2 l1 frame(1-4) before after sets
      covered_mono[OF cov eq_refl[OF newer[symmetric]]] out(1) out(3) out(2) quiet s2']
  have task: "task_ok s' t" if t: "t \<in> set (v_tasks s)" for t
  proof (cases t)
    case (FlushTask e d dim)
    with vinvD(2)[OF inv t] show ?thesis by (auto simp: s' frame delta_ids_def split: if_splits)
  next
    case (ConsTask l' gs e snp)
    with vinvD(2)[OF inv t] cons show ?thesis by simp
  next
    case (MergeTask l' gs e snp)
    have ne: "l' \<noteq> l" using slot t MergeTask by force
    have "renewed s (concat P @ rest @ [?N]) k" if "in_segs segs k" for k
    proof -
      have "renewed s (newer @ [(v_next s2, new)]) k" using step(4) that by blast
      then show ?thesis by (auto simp: renewed_def in_segs_def newer_def frame(5))
    qed
    with vinvD(2)[OF inv t] step(3) show ?thesis unfolding MergeTask levels2
      by (intro merge_keeps_task[OF _ ne lenP ls levels']) (simp_all add: s' frame)
  qed
  show "vinv s'" using step(1) task vinvD(3)[OF inv] cons by (simp add: vinv_def s' frame)
  show "vs_abs s' = vs_abs s" using step(2) frame by (simp add: vs_abs_def s')
qed

lemma flag_snap [simp]:
  "snap_ok (s\<lparr>v_merging := m\<rparr>) = snap_ok s" "snap_ok (s\<lparr>v_cons := c\<rparr>) = snap_ok s"
  by (simp_all add: snap_ok_def fun_eq_iff covered_def renewed_def in_delta_def in_flushing_def cong: option.case_cong)

lemma merge_done_step:
  assumes inv: "vinv s" and slot: "MergeSlot l \<notin> task_slot ` set (v_tasks s)"
  shows "vinv (s\<lparr>v_merging := (v_merging s)[l := False]\<rparr>)" "vs_abs (s\<lparr>v_merging := (v_merging s)[l := False]\<rparr>) = vs_abs s"
proof -
  let ?s = "s\<lparr>v_merging := (v_merging s)[l := False]\<rparr>"
  have "task_ok ?s t" if t: "t \<in> set (v_tasks s)" for t
  proof -
    have "task_slot t \<noteq> MergeSlot l" using slot t by force
    then show ?thesis using vinvD(2)[OF inv t]
      by (cases t) (auto simp: delta_ids_def level_newer_def split: if_splits)
  qed
  moreover have "True \<notin> set (v_merging s) \<Longrightarrow> True \<notin> set ((v_merging s)[l := False])"
    using set_update_subset_insert[of "v_merging s" l False] by auto
  ultimately show "vinv ?s" using inv base_okD(7)[OF vinvD(1)[OF inv]] by (auto simp: vinv_def)
  show "vs_abs ?s = vs_abs s" by (simp add: vs_abs_def)
qed

lemma cons_done_step:
  assumes inv: "vinv s" and slot: "ConsSlot \<notin> task_slot ` set (v_tasks s)"
  shows "vinv (s\<lparr>v_cons := False\<rparr>)" "vs_abs (s\<lparr>v_cons := False\<rparr>) = vs_abs s"
proof -
  let ?s = "s\<lparr>v_cons := False\<rparr>"
  have "task_ok ?s t" if t: "t \<in> set (v_tasks s)" for t
  proof -
    have "task_slot t \<noteq> ConsSlot" using slot t by force
    then show ?thesis using vinvD(2)[OF inv t]
      by (cases t) (auto simp: delta_ids_def level_newer_def split: if_splits)
  qed
  then show "vinv ?s" using inv by (simp add: vinv_def)
  show "vs_abs ?s = vs_abs s" by (simp add: vs_abs_def)
qed

lemma apply_merge_step:
  assumes env: "env_ok E" and inv: "vinv s" and ok: "task_ok s (MergeTask l segs e (Some (dim, ts)))"
    and slot: "MergeSlot l \<notin> task_slot ` set (v_tasks s)"
    and fit: "fits (m_entries (merge_collect dim ts (map snd segs)))"
    and calm: "\<And>k. e = v_epoch s \<Longrightarrow> k \<in> ts \<Longrightarrow> in_segs segs k \<Longrightarrow> \<not> keyInFlushing s k"
  shows "vinv (apply_merge E l segs e dim ts s)" "vs_abs (apply_merge E l segs e dim ts s) = vs_abs s"
proof -
  let ?s = "s\<lparr>v_merging := (v_merging s)[l := False]\<rparr>" and ?m = "mergeSegments (e_vec E) (e_lib E) dim ts (map snd segs)"
  note idle = merge_done_step[OF inv slot]
  have "vinv (apply_merge E l segs e dim ts s) \<and> vs_abs (apply_merge E l segs e dim ts s) = vs_abs s"
  proof (cases "e = v_epoch s \<and> fst ?m \<noteq> None")
    case False
    then have "apply_merge E l segs e dim ts s = ?s" by (cases ?m) (auto simp: apply_merge_def Let_def)
    with idle show ?thesis by simp
  next
    case True
    then obtain new applied where res: "?m = (Some new, applied)" by (cases ?m) auto
    define s2 where "s2 = put_level l (removeSegments (map fst segs) (v_levels s ! l)) ?s"
    define s3 where "s3 = clearAppliedTombstones applied (v_next s) (append_level (l + 1) [new] s2)"
    have ok': "task_ok s (MergeTask l segs (v_epoch s) (Some (dim, ts)))" using ok True by simp
    note step = merge_current_step[OF env inv ok' slot fit calm res s2_def s3_def]
    have "apply_merge E l segs e dim ts s = after_apply E e s3"
      using True res by (simp add: apply_merge_def Let_def s2_def s3_def)
    with after_apply_step[OF env step(1), of e] step(2) True show ?thesis by simp
  qed
  then show "vinv (apply_merge E l segs e dim ts s)" "vs_abs (apply_merge E l segs e dim ts s) = vs_abs s" by blast+
qed

subsection \<open>A consolidation is applied\<close>

lemma distinct_middle: "distinct (as @ xs @ bs) \<Longrightarrow> set xs \<inter> set (as @ bs) = {}"
  by auto

lemma one_level: "j < m \<Longrightarrow> concat (map rev ((replicate m [])[j := [x]])) = [x]"
  by (induction m arbitrary: j) (auto simp: nth_Cons' split: nat.splits)

lemma cons_current_step:
  assumes env: "env_ok E" and inv: "vinv s" and ok: "task_ok s (ConsTask l segs (v_epoch s) (Some (dim, ts)))"
    and slot: "ConsSlot \<notin> task_slot ` set (v_tasks s)"
    and fit: "fits (m_entries (merge_collect dim ts (map snd segs)))"
    and calm: "\<And>k. k \<in> ts \<Longrightarrow> in_segs segs k \<Longrightarrow> \<not> keyInFlushing s k"
    and res: "mergeSegments (e_vec E) (e_lib E) dim ts (map snd segs) = (Some new, applied)"
    and s2: "s2 = (s\<lparr>v_cons := False\<rparr>)\<lparr>v_levels := map (removeSegments (map fst segs)) (v_levels s)\<rparr>"
    and s': "s' = clearAppliedTombstones applied (v_next s) (append_level l [new] s2)"
  shows "vinv s'" "vs_abs s' = vs_abs s"
proof -
  have b: "base_ok s" using vinvD(1)[OF inv] .
  have t: "0 < l" "l < maxLevels" "v_cons s" "segs \<noteq> []"
    and "\<exists>n. segs = concat (rev (take n (v_levels s ! 0) # tl (v_levels s))) \<and>
      snap_ok s (drop n (v_levels s ! 0)) segs (Some (dim, ts))"
    using ok unfolding task_ok.simps by blast+
  then obtain n where n: "segs = concat (rev (take n (v_levels s ! 0) # tl (v_levels s)))" "dim = v_dim s"
    "covered s (drop n (v_levels s ! 0)) ts segs"
    by (auto simp: snap_ok_def)
  obtain L0 rest where ls: "v_levels s = L0 # rest" and len: "length rest = maxLevels - 1"
    using base_okD(6)[OF b] by (cases "v_levels s") (auto simp: maxLevels_def)
  define T where "T = take n L0"
  define D where "D = drop n L0"
  have L0: "L0 = T @ D" by (simp add: T_def D_def)
  have segs: "segs = concat (rev rest) @ T" using n(1) by (simp add: ls T_def)
  have sub: "set segs \<subseteq> set (concat (v_levels s))" by (auto simp: segs ls L0)
  have some: "v_delta s \<noteq> None" using active_None(2)[OF base_okD(1)[OF b]] t(4) sub by (metis empty_set set_empty subset_empty)
  have dist: "distinct (map fst (T @ D @ concat rest))" using base_okD(10)[OF b] by (simp add: ls L0)
  have ids: "set (map fst segs) = set (map fst (T @ concat rest))" by (auto simp: segs)
  have gone: "removeSegments (map fst segs) x = []" if "set x \<subseteq> set (T @ concat rest)" for x
  proof -
    have "fst r \<in> set (map fst segs)" if "r \<in> set x" for r
    proof -
      have "r \<in> set (T @ concat rest)" using that \<open>set x \<subseteq> set (T @ concat rest)\<close> by blast
      then show ?thesis unfolding ids unfolding set_map by (rule imageI)
    qed
    then show ?thesis by (rule removeSegments_simps(1))
  qed
  have "removeSegments (map fst segs) D = D"
  proof -
    have "set (map fst D) \<inter> set (map fst (T @ concat rest)) = {}"
      using distinct_middle[of "map fst T" "map fst D" "map fst (concat rest)"] dist by simp
    then have "fst r \<notin> set (map fst segs)" if "r \<in> set D" for r unfolding ids using that by (metis disjoint_iff imageI list.set_map)
    then show ?thesis by (rule removeSegments_simps(2))
  qed
  moreover have "removeSegments (map fst segs) T = []" by (rule gone) simp
  ultimately have first: "removeSegments (map fst segs) L0 = D" by (simp add: removeSegments_simps(3) L0)
  have "map (removeSegments (map fst segs)) rest = map (\<lambda>_. []) rest"
    by (rule map_cong[OF refl]) (rule gone, auto)
  then have levels2: "v_levels s2 = D # replicate (maxLevels - 1) []"
    using first by (simp add: s2 ls len map_replicate_const)
  have frame: "v_delta s2 = v_delta s" "v_flushing s2 = v_flushing s" "v_tombs s2 = v_tombs s" "v_dim s2 = v_dim s"
    "v_next s2 = v_next s" "v_epoch s2 = v_epoch s" "v_tasks s2 = v_tasks s" "v_merging s2 = v_merging s" "\<not> v_cons s2"
    by (simp_all add: s2)
  have b2: "base_ok s2"
  proof -
    have "base_ok (s\<lparr>v_levels := D # replicate (maxLevels - 1) []\<rparr>)"
      by (rule shrink_base[OF b some]) (use dist in \<open>auto simp: ls L0 maxLevels_def\<close>)
    moreover have "s2 = (s\<lparr>v_levels := D # replicate (maxLevels - 1) []\<rparr>)\<lparr>v_cons := False\<rparr>"
      using levels2 by (simp add: s2)
    ultimately show ?thesis by simp
  qed
  have before: "read_order (v_levels s) = map snd (rev D) @ rev (map snd segs) @ map snd []"
    by (simp add: ls L0 segs read_order_def rev_map rev_concat)
  obtain j where j: "l = Suc j" "j < maxLevels - 1" using t(1,2) by (cases l) auto
  have after: "read_order ((v_levels s2)[l := v_levels s2 ! l @ [(v_next s2, new)]]) = map snd (rev D) @ [new] @ map snd []"
    using one_level[OF j(2), of "(v_next s2, new)"] j by (simp add: levels2 read_order_def)
  have sets: "set (concat (v_levels s2)) = set (rev D) \<union> set []" by (simp add: levels2)
  have cov: "covered s (rev D) ts segs" by (rule covered_mono[OF n(3)]) (simp add: D_def ls)
  note out = merge_out[OF env b sub fit[unfolded n(2)] res[unfolded n(2)]]
  have quiet: "\<not> in_flushing s k" if "k \<in> applied" for k
    using that out(2) calm flushing_key[OF b] by blast
  have s2': "s' = clearAppliedTombstones applied (v_next s2) (append_level l [new] s2)" by (simp add: s' frame(5))
  note step = replace_step[OF b some b2 t(2) frame(1-4) before after sets cov out(1) out(3) out(2) quiet s2']
  have "task_ok s' t" if t': "t \<in> set (v_tasks s)" for t
  proof (cases t)
    case (FlushTask e d dim)
    with vinvD(2)[OF inv t'] show ?thesis by (auto simp: s' frame delta_ids_def split: if_splits)
  next
    case (ConsTask l' gs e snp)
    with slot t' show ?thesis by force
  next
    case (MergeTask l' gs e snp)
    then have m: "l' < length (v_merging s)" "v_merging s ! l'"
      using vinvD(2)[OF inv t'] base_okD(7)[OF b] by (simp_all add: maxLevels_def)
    with vinvD(4)[OF inv t(3)] nth_mem[OF m(1)] show ?thesis by simp
  qed
  then show "vinv s'" using step(1) vinvD(3)[OF inv] frame by (simp add: vinv_def s')
  show "vs_abs s' = vs_abs s" using step(2) frame by (simp add: vs_abs_def s')
qed

lemma apply_cons_step:
  assumes env: "env_ok E" and inv: "vinv s" and ok: "task_ok s (ConsTask l segs e (Some (dim, ts)))"
    and slot: "ConsSlot \<notin> task_slot ` set (v_tasks s)"
    and fit: "fits (m_entries (merge_collect dim ts (map snd segs)))"
    and calm: "\<And>k. e = v_epoch s \<Longrightarrow> k \<in> ts \<Longrightarrow> in_segs segs k \<Longrightarrow> \<not> keyInFlushing s k"
  shows "vinv (apply_cons E l segs e dim ts s)" "vs_abs (apply_cons E l segs e dim ts s) = vs_abs s"
proof -
  let ?s = "s\<lparr>v_cons := False\<rparr>" and ?m = "mergeSegments (e_vec E) (e_lib E) dim ts (map snd segs)"
  note idle = cons_done_step[OF inv slot]
  have "vinv (apply_cons E l segs e dim ts s) \<and> vs_abs (apply_cons E l segs e dim ts s) = vs_abs s"
  proof (cases "e = v_epoch s \<and> fst ?m \<noteq> None")
    case False
    then have "apply_cons E l segs e dim ts s = ?s" by (cases ?m) (auto simp: apply_cons_def Let_def)
    with idle show ?thesis by simp
  next
    case True
    then obtain new applied where res: "?m = (Some new, applied)" by (cases ?m) auto
    define s2 where "s2 = ?s\<lparr>v_levels := map (removeSegments (map fst segs)) (v_levels s)\<rparr>"
    define s3 where "s3 = clearAppliedTombstones applied (v_next s) (append_level l [new] s2)"
    have ok': "task_ok s (ConsTask l segs (v_epoch s) (Some (dim, ts)))" using ok True by blast
    note step = cons_current_step[OF env inv ok' slot fit calm res s2_def s3_def]
    have "apply_cons E l segs e dim ts s = after_apply E e s3"
      using True res by (simp add: apply_cons_def Let_def s2_def s3_def)
    with after_apply_step[OF env step(1), of e] step(2) True show ?thesis by simp
  qed
  then show "vinv (apply_cons E l segs e dim ts s)" "vs_abs (apply_cons E l segs e dim ts s) = vs_abs s" by blast+
qed

subsection \<open>Every step\<close>

lemma apply_step:
  assumes env: "env_ok E" and inv: "vinv s" and ord: "orderly (EApply i) s" and res: "applyResult E i s = Some s'"
  shows "vinv s'" "vs_abs s' = vs_abs s"
proof -
  from res have i: "i < length (v_tasks s)" by (auto simp: applyResult_def split: if_splits)
  define s0 where "s0 = s\<lparr>v_tasks := del_nth i (v_tasks s)\<rparr>"
  note s0 = take_task[OF inv i s0_def]
  let ?t = "v_tasks s ! i"
  have same: "v_epoch s0 = v_epoch s" "v_flushing s0 = v_flushing s" by (simp_all add: s0_def)
  have quiet: "merge_inputs ?t = Some (segs, e, dim, ts) \<Longrightarrow> e = v_epoch s0 \<Longrightarrow> k \<in> ts \<Longrightarrow> in_segs segs k \<Longrightarrow>
      \<not> keyInFlushing s0 k" for segs e dim ts k
    using ord i by (auto simp: orderly_def merge_calm_def same keyInFlushing_def)
  have fit: "merge_inputs ?t = Some (segs, e, dim, ts) \<Longrightarrow> fits (m_entries (merge_collect dim ts (map snd segs)))" for segs e dim ts
    using ord i by (auto simp: orderly_def task_fits_def)
  have "vinv s' \<and> vs_abs s' = vs_abs s0"
  proof (cases ?t)
    case (FlushTask e d dim)
    have "e = v_epoch s0 \<Longrightarrow> d_id d = d_id (hd (v_flushing s0))" "delta_fits d"
      using ord i FlushTask by (auto simp: orderly_def flush_first_def task_fits_def same)
    moreover have "s' = apply_flush E e d dim s0" using res i FlushTask by (simp add: applyResult_def s0_def)
    ultimately show ?thesis using apply_flush_step[OF env s0(1)] s0(2,3) FlushTask by simp
  next
    case (MergeTask l segs e snap)
    then obtain dim ts where snap: "snap = Some (dim, ts)" "s' = apply_merge E l segs e dim ts s0"
      using res i by (auto simp: applyResult_def s0_def Let_def split: option.splits prod.splits)
    have "merge_inputs ?t = Some (segs, e, dim, ts)" using MergeTask snap by simp
    note q = quiet[OF this] fit[OF this]
    show ?thesis using apply_merge_step[OF env s0(1) _ _ q(2) q(1)] s0(2,3) MergeTask snap by simp
  next
    case (ConsTask l segs e snap)
    then obtain dim ts where snap: "snap = Some (dim, ts)" "s' = apply_cons E l segs e dim ts s0"
      using res i by (auto simp: applyResult_def s0_def Let_def split: option.splits prod.splits)
    have "merge_inputs ?t = Some (segs, e, dim, ts)" using ConsTask snap by simp
    note q = quiet[OF this] fit[OF this]
    have "task_ok s0 (ConsTask l segs e (Some (dim, ts)))" "ConsSlot \<notin> task_slot ` set (v_tasks s0)"
      using s0(2,3) ConsTask snap by simp_all
    from apply_cons_step[OF env s0(1) this q(2) q(1)] show ?thesis using snap by simp
  qed
  then show "vinv s'" "vs_abs s' = vs_abs s" using s0(4) by simp_all
qed

lemma store_step:
  assumes env: "env_ok E" and inv: "vinv s" and ord: "orderly ev s" and res: "vs_step E ev s = Some s'"
  shows "vinv s'" "vs_abs s' = spec_step ev (vs_abs s)"
proof -
  have "vinv s' \<and> vs_abs s' = spec_step ev (vs_abs s)"
  proof (cases ev)
    case (EAdd key vec a ts)
    with res ord show ?thesis using addEntry_step[OF inv, of ts E key vec a "fst (addEntry E key vec a ts s)" s']
      by (auto simp: orderly_def)
  next
    case (EDelete key)
    with res show ?thesis using delete_step[OF inv, of key "fst (vs_Delete key s)" s'] by auto
  next
    case EClear
    with res show ?thesis using clear_step[OF inv] by auto
  next
    case EFlush
    with res inv show ?thesis by (auto simp: vs_FlushDelta_def split: option.splits if_splits)
  next
    case ERead
    with res inv show ?thesis by (auto simp: compact_read_def split: if_splits)
  next
    case ESwap
    then obtain e where e: "v_phase s = CRead e" "s' = compact_swap E e s" using res by (auto split: cphase.splits)
    with swap_step[OF inv, of e E] ord ESwap show ?thesis by (auto simp: orderly_def)
  next
    case ESched
    then obtain e where "s' = (maybeScheduleMerges E e s)\<lparr>v_phase := CWait\<rparr>" using res by (auto simp: compact_sched_def split: cphase.splits)
    with schedule_step[OF env inv, of e] ESched show ?thesis by simp
  next
    case (ESnap i)
    with res snap_step[OF inv] show ?thesis by simp
  next
    case (EApply i)
    with res apply_step[OF env inv] ord show ?thesis by (auto split: if_splits)
  next
    case EIdle
    with res idle_step[OF inv] show ?thesis by (auto split: if_splits)
  qed
  then show "vinv s'" "vs_abs s' = spec_step ev (vs_abs s)" by blast+
qed

lemma new_vinv: "vinv vs_new" "vs_abs vs_new = (None, Map.empty)"
proof -
  have lv: "concat (v_levels vs_new) = []" by (simp add: vs_new_def)
  then have "base_ok vs_new"
    by (simp add: base_ok_def active_ok_def del: set_concat concat_eq_Nil_conv) (simp add: vs_new_def)
  then show "vinv vs_new" by (simp add: vinv_def) (simp add: vs_new_def)
  have "vs_doc vs_new k = None" for k
    using layers_None[OF \<open>base_ok vs_new\<close>, of k] lv
    by (simp add: vs_doc_def active_doc_def in_flushing_def in_segs_def vs_new_def)
  then show "vs_abs vs_new = (None, Map.empty)" by (auto simp: vs_abs_def) (simp add: vs_new_def)
qed

lemma run_refines:
  assumes env: "env_ok E"
  shows "vinv s \<Longrightarrow> orderly_run E evs s \<Longrightarrow> vs_run E evs s = Some s' \<Longrightarrow>
    vinv s' \<and> vs_abs s' = fold spec_step evs (vs_abs s)"
proof (induction evs arbitrary: s)
  case Nil
  then show ?case by simp
next
  case (Cons ev evs)
  from Cons.prems(3) obtain s1 where s1: "vs_step E ev s = Some s1" "vs_run E evs s1 = Some s'"
    by (auto split: option.splits)
  with Cons.prems(2) have ord: "orderly ev s" "orderly_run E evs s1" by simp_all
  note step = store_step[OF env Cons.prems(1) ord(1) s1(1)]
  from Cons.IH[OF step(1) ord(2) s1(2)] step(2) show ?case by simp
qed

end
