(* ===== verification/VecQuery.thy ===== *)
theory VecQuery
  imports VecRefine
begin

text \<open>
  The search over the whole store (\<open>vector/leveled_search.go\<close>, \<open>search\<close>, and the search of a delta in
  \<open>delta.go\<close>): the tombstones join the caller's filter, every layer is searched, the hits are merged by
  key with the newest copy winning, hits that a newer layer shadows are dropped, the rest is sorted and
  cut to \<open>K\<close>. A search under a filter in a delta is exact and modelled; the walk over a graph, the
  search in one segment (a function argument of the code too), the distance function and the order
  that \<open>slices.SortFunc\<close> gives to equal distances are parameters.
\<close>

subsection \<open>Searching a delta\<close>

record senv =
  se_ef :: nat
  se_strict :: bool
  se_dist :: "f32 list \<Rightarrow> f32 list \<Rightarrow> f32"
  se_walk :: "graph \<Rightarrow> f32 list \<Rightarrow> nat \<Rightarrow> nat \<Rightarrow> (nat \<times> f32) list"
  se_sort :: "frozen_result list \<Rightarrow> frozen_result list"
  se_ranked :: "(frozen_result \<times> int) list \<Rightarrow> (frozen_result \<times> int) list"

type_synonym key_filter = "(bytes \<Rightarrow> bool) option"
type_synonym delta_filter = "(bytes \<Rightarrow> attributes \<Rightarrow> bool) option"
type_synonym seg_search = "segment \<Rightarrow> f32 list \<Rightarrow> nat \<Rightarrow> nat \<Rightarrow> key_filter \<Rightarrow> frozen_result list"

definition bruteFiltered :: "senv \<Rightarrow> dshard \<Rightarrow> f32 list \<Rightarrow> nat \<Rightarrow> (bytes \<Rightarrow> attributes \<Rightarrow> bool) \<Rightarrow> frozen_result list" where
  "bruteFiltered E s query K f =
     (if K = 0 \<or> s_keys s = [] then []
      else take K (se_sort E
        (map (\<lambda>i. \<lparr>rkey = s_keys s ! i, rdist = se_dist E query (s_rows s ! i)\<rparr>)
          (filter (\<lambda>i. s_keys s ! i \<noteq> [] \<and> f (s_keys s ! i) (s_attrs s ! i)) [0..<length (s_keys s)]))))"

text \<open>Without a filter the graph is walked; a node without a key has been deleted.\<close>

definition node_hits :: "dshard \<Rightarrow> (nat \<times> f32) list \<Rightarrow> frozen_result list" where
  "node_hits s raw =
     List.map_filter (\<lambda>(g, d). map_option (\<lambda>k. \<lparr>rkey = k, rdist = d\<rparr>) (map_of (nodeKey s) g)) raw"

definition shard_search :: "senv \<Rightarrow> f32 list \<Rightarrow> nat \<Rightarrow> nat \<Rightarrow> delta_filter \<Rightarrow> dshard \<Rightarrow> frozen_result list" where
  "shard_search E query K ef flt s =
     (case flt of
        Some f \<Rightarrow> bruteFiltered E s query K f
      | None \<Rightarrow> if nodeKey s = [] then [] else node_hits s (se_walk E (s_graph s) query K ef))"

definition delta_Search :: "senv \<Rightarrow> delta \<Rightarrow> f32 list \<Rightarrow> nat \<Rightarrow> nat \<Rightarrow> delta_filter \<Rightarrow> frozen_result list" where
  "delta_Search E d query K ef flt =
     (if d_live d = 0 then []
      else if length (d_shards d) = 1 then shard_search E query K ef flt (d_shards d ! 0)
      else take K (se_sort E (concat (map (shard_search E query K ef flt) (d_shards d)))))"

subsection \<open>Searching the store\<close>

text \<open>The window of the walks: wider under a filter, but never above 2000.\<close>

definition search_ef :: "senv \<Rightarrow> nat \<Rightarrow> bool \<Rightarrow> nat" where
  "search_ef E K filtered =
     (let ef = (if se_ef E < K then K else se_ef E) in
      if filtered then (if ef * 4 \<le> 2000 then ef * 4 else 2000) else ef)"

definition composedFilter :: "bytes set \<Rightarrow> key_filter \<Rightarrow> key_filter" where
  "composedFilter ts keep =
     (if ts = {} then keep
      else (case keep of
              Some f \<Rightarrow> Some (\<lambda>key. key \<notin> ts \<and> f key)
            | None \<Rightarrow> Some (\<lambda>key. key \<notin> ts)))"

definition deltaFn :: "key_filter \<Rightarrow> delta_filter \<Rightarrow> delta_filter" where
  "deltaFn cf af =
     (if cf = None \<and> af = None then None
      else Some (\<lambda>key a. (case cf of Some f \<Rightarrow> f key | None \<Rightarrow> True) \<and> (case af of Some f \<Rightarrow> f key a | None \<Rightarrow> True)))"

definition memtables :: "vstore \<Rightarrow> delta list" where
  "memtables s =
     (case v_delta s of Some d \<Rightarrow> if d_live d > 0 then [d] else [] | None \<Rightarrow> []) @ rev (v_flushing s)"

text \<open>The segments in storage order with their rank; the smaller rank is the newer segment.\<close>

definition seg_rank :: "nat \<Rightarrow> nat \<Rightarrow> int" where
  "seg_rank lvl pos = int lvl * 2 ^ 40 - int pos"

definition ranked_segs :: "seg_ref list list \<Rightarrow> (segment \<times> int) list" where
  "ranked_segs ls =
     concat (map (\<lambda>(lvl, level). map (\<lambda>(pos, r). (snd r, seg_rank lvl pos)) (enumerate 0 level)) (enumerate 0 ls))"

definition rankFor :: "nat \<Rightarrow> int list \<Rightarrow> nat \<Rightarrow> int" where
  "rankFor nMem ranks wb = (if wb < nMem then - (2 ^ 63) + int wb else ranks ! (wb - nMem))"

text \<open>The merge: one entry per key, the newest copy in its place.\<close>

record combining =
  combined :: "(frozen_result \<times> int) list"
  dedupPos :: "(bytes, nat) gomap"

definition combine_hit :: "delta list \<Rightarrow> int \<Rightarrow> combining \<Rightarrow> frozen_result \<Rightarrow> combining" where
  "combine_hit shadows r st h =
     (if \<exists>d \<in> set shadows. delta_Contains d (rkey h) then st
      else
        (case map_of (dedupPos st) (rkey h) of
           Some pos \<Rightarrow>
             if r < snd (combined st ! pos) then st\<lparr>combined := (combined st)[pos := (h, r)]\<rparr> else st
         | None \<Rightarrow>
             st\<lparr>dedupPos := AList.update (rkey h) (length (combined st)) (dedupPos st), combined := combined st @ [(h, r)]\<rparr>))"

definition combine_buf :: "delta list \<Rightarrow> int list \<Rightarrow> frozen_result list list \<Rightarrow> combining \<Rightarrow> nat \<Rightarrow> combining" where
  "combine_buf mems ranks bufs st i =
     foldl (combine_hit (take (min i (length mems)) mems) (rankFor (length mems) ranks i)) st (bufs ! i)"

definition combine_all :: "delta list \<Rightarrow> int list \<Rightarrow> frozen_result list list \<Rightarrow> (frozen_result \<times> int) list" where
  "combine_all mems ranks bufs =
     combined (foldl (combine_buf mems ranks bufs) \<lparr>combined = [], dedupPos = []\<rparr> [0..<length bufs])"

text \<open>\<open>StrictSegShadow\<close>: the hit of a segment is stale when a newer segment holds the key.\<close>

definition stale_hit :: "nat \<Rightarrow> (segment \<times> int) list \<Rightarrow> frozen_result \<times> int \<Rightarrow> bool" where
  "stale_hit nMem segs hr \<longleftrightarrow>
     - (2 ^ 63) + int nMem \<le> snd hr \<and> (\<exists>(seg, r) \<in> set segs. r < snd hr \<and> seg_HasKey seg (rkey (fst hr)))"

definition best_hits :: "senv \<Rightarrow> nat \<Rightarrow> nat \<Rightarrow> (segment \<times> int) list \<Rightarrow> (frozen_result \<times> int) list \<Rightarrow> frozen_result list" where
  "best_hits E K nMem segs comb =
     (if se_strict E then map fst (take K (filter (\<lambda>hr. \<not> stale_hit nMem segs hr) (se_ranked E comb)))
      else take K (se_sort E (map fst comb)))"

text \<open>\<open>search\<close>: nothing to search, a delta alone, one segment alone, the general case.\<close>

definition search_layers :: "senv \<Rightarrow> seg_search \<Rightarrow> vstore \<Rightarrow> f32 list \<Rightarrow> nat \<Rightarrow> nat \<Rightarrow> key_filter \<Rightarrow> delta_filter \<Rightarrow> frozen_result list" where
  "search_layers E ss s query K ef cf df =
     (let mems = memtables s; segs = ranked_segs (v_levels s);
          bufs = map (\<lambda>d. delta_Search E d query K ef df) mems @ map (\<lambda>(seg, r). ss seg query ef ef cf) segs in
      best_hits E K (length mems) segs (combine_all mems (map snd segs) bufs))"

definition search :: "senv \<Rightarrow> seg_search \<Rightarrow> vstore \<Rightarrow> f32 list \<Rightarrow> nat \<Rightarrow> key_filter \<Rightarrow> delta_filter \<Rightarrow> verror + frozen_result list" where
  "search E ss s query K keep af =
     (if v_dim s = 0 then Inr []
      else if length query \<noteq> v_dim s then Inl (DimMismatch (v_dim s) (length query))
      else
        (let ef = search_ef E K (keep \<noteq> None \<or> af \<noteq> None);
             cf = composedFilter (v_tombs s) keep; df = deltaFn cf af;
             segs = concat (v_levels s);
             hasDelta = (case v_delta s of Some d \<Rightarrow> d_live d > 0 | None \<Rightarrow> False);
             hasFlushing = (v_flushing s \<noteq> []) in
         if \<not> hasDelta \<and> \<not> hasFlushing \<and> segs = [] then Inr []
         else if segs = [] \<and> hasDelta \<and> \<not> hasFlushing then
           Inr (case v_delta s of Some d \<Rightarrow> delta_Search E d query K ef df | None \<Rightarrow> [])
         else if length segs = 1 \<and> \<not> hasDelta \<and> \<not> hasFlushing then
           Inr (take K (ss (snd (hd segs)) query K ef cf))
         else Inr (search_layers E ss s query K ef cf df)))"

text \<open>The searches of the interface: plain, filtered by key, of one tenant, by attributes. The last two
  are a filter for the deltas and a search of their own in the segments.\<close>

datatype search_error = TenantModeOff | TenantWithPartition | SearchErr verror

definition lift_search :: "verror + frozen_result list \<Rightarrow> search_error + frozen_result list" where
  "lift_search r = (case r of Inl e \<Rightarrow> Inl (SearchErr e) | Inr hs \<Rightarrow> Inr hs)"

definition vs_Search :: "senv \<Rightarrow> seg_search \<Rightarrow> vstore \<Rightarrow> f32 list \<Rightarrow> nat \<Rightarrow> search_error + frozen_result list" where
  "vs_Search E ss s query K = lift_search (search E ss s query K None None)"

definition SearchFiltered :: "senv \<Rightarrow> seg_search \<Rightarrow> vstore \<Rightarrow> f32 list \<Rightarrow> nat \<Rightarrow> (bytes \<Rightarrow> bool) \<Rightarrow> search_error + frozen_result list" where
  "SearchFiltered E ss s query K f = lift_search (search E ss s query K (Some f) None)"

definition SearchTenant :: "vconfig \<Rightarrow> senv \<Rightarrow> (64 word \<Rightarrow> seg_search) \<Rightarrow> vstore \<Rightarrow> f32 list \<Rightarrow> nat \<Rightarrow> 64 word
    \<Rightarrow> search_error + frozen_result list" where
  "SearchTenant cfg E ss s query K tenant =
     (case TenantOf cfg of
        None \<Rightarrow> Inl TenantModeOff
      | Some tenantOf \<Rightarrow>
          if PartitionAttr cfg \<noteq> [] then Inl TenantWithPartition
          else lift_search (search E (ss tenant) s query K (Some (\<lambda>key. tenantOf key = tenant)) None))"

definition SearchFilter :: "vconfig \<Rightarrow> senv \<Rightarrow> (bytes \<Rightarrow> vfilter \<Rightarrow> seg_search) \<Rightarrow> vstore \<Rightarrow> f32 list \<Rightarrow> nat \<Rightarrow> vfilter
    \<Rightarrow> search_error + frozen_result list" where
  "SearchFilter cfg E ss s query K f =
     lift_search (search E (ss (PartitionAttr cfg) f) s query K None
       (if filter_empty f then None else Some (\<lambda>key a. matchAttrs a f [])))"

subsection \<open>Hits of one layer\<close>

text \<open>What is asked of the sort and of the walk: a permutation; at most \<open>K\<close> living nodes with their distance.\<close>

definition walk_ok :: "senv \<Rightarrow> bool" where
  "walk_ok E \<longleftrightarrow> (\<forall>g q K ef. length (se_walk E g q K ef) \<le> K \<and> distinct (map fst (se_walk E g q K ef)) \<and>
     (\<forall>(n, d) \<in> set (se_walk E g q K ef).
        n < length (gnodes g) \<and> galive (gnodes g ! n) \<and> d = se_dist E q (gvec (gnodes g ! n))))"

definition sort_ok :: "senv \<Rightarrow> bool" where
  "sort_ok E \<longleftrightarrow> (\<forall>xs. mset (se_sort E xs) = mset xs) \<and> (\<forall>xs. mset (se_ranked E xs) = mset xs)"

text \<open>Every hit is a document of the layer with its distance, and passes the filter.\<close>

definition hits_ok :: "(f32 list \<Rightarrow> f32) \<Rightarrow> (bytes \<Rightarrow> vdoc option) \<Rightarrow> (bytes \<Rightarrow> vdoc \<Rightarrow> bool) \<Rightarrow> frozen_result list \<Rightarrow> bool" where
  "hits_ok dist doc P hs \<longleftrightarrow> (\<forall>h \<in> set hs. \<exists>x. doc (rkey h) = Some x \<and> rdist h = dist (fst x) \<and> P (rkey h) x)"

definition filter_means :: "delta_filter \<Rightarrow> (bytes \<Rightarrow> vdoc \<Rightarrow> bool) \<Rightarrow> bool" where
  "filter_means flt P \<longleftrightarrow>
     (case flt of None \<Rightarrow> (\<forall>k x. P k x) | Some f \<Rightarrow> (\<forall>k v a ts. f k a \<longleftrightarrow> P k (v, attr_view a, ts)))"

lemma hits_ok_subset: "hits_ok dist doc P hs \<Longrightarrow> set hs' \<subseteq> set hs \<Longrightarrow> hits_ok dist doc P hs'"
  by (auto simp: hits_ok_def)

lemma sort_set: "sort_ok E \<Longrightarrow> set (se_sort E xs) = set xs" "sort_ok E \<Longrightarrow> set (se_ranked E ys) = set ys"
  unfolding sort_ok_def by (metis set_mset_mset)+

lemma take_sorted_subset: "sort_ok E \<Longrightarrow> set (take K (se_sort E xs)) \<subseteq> set xs"
  using sort_set(1) set_take_subset by metis

lemma brute_hits:
  assumes ok: "slots_ok s" and srt: "sort_ok E" and flt: "filter_means (Some f) P"
  shows "hits_ok (se_dist E query) (shard_doc s) P (bruteFiltered E s query K f)"
proof -
  have "\<exists>x. shard_doc s (s_keys s ! i) = Some x \<and> se_dist E query (s_rows s ! i) = se_dist E query (fst x) \<and> P (s_keys s ! i) x"
    if i: "i < length (s_keys s)" "s_keys s ! i \<noteq> []" "f (s_keys s ! i) (s_attrs s ! i)" for i
  proof -
    have "map_of (keyIdx s) (s_keys s ! i) = Some i" using ok i(1,2) by (simp add: slots_ok_def)
    then have "shard_doc s (s_keys s ! i) = Some (s_rows s ! i, attr_view (s_attrs s ! i), s_terms s ! i)"
      by (simp add: shard_doc_def shard_view_def shard_entry_def entry_doc_def)
    with i(3) flt show ?thesis by (simp add: filter_means_def)
  qed
  then have all: "hits_ok (se_dist E query) (shard_doc s) P
      (map (\<lambda>i. \<lparr>rkey = s_keys s ! i, rdist = se_dist E query (s_rows s ! i)\<rparr>)
        (filter (\<lambda>i. s_keys s ! i \<noteq> [] \<and> f (s_keys s ! i) (s_attrs s ! i)) [0..<length (s_keys s)]))"
    by (auto simp: hits_ok_def)
  show ?thesis
    using hits_ok_subset[OF all take_sorted_subset[OF srt]] by (simp add: bruteFiltered_def hits_ok_def)
qed

lemma walk_hits:
  assumes ok: "nodes_ok s" and raw: "\<And>n d. (n, d) \<in> set raw \<Longrightarrow> d = dist (gvec (gnodes (s_graph s) ! n))" and all: "\<And>k x. P k x"
  shows "hits_ok dist (shard_doc s) P (node_hits s raw)"
  unfolding hits_ok_def
proof
  fix h assume "h \<in> set (node_hits s raw)"
  then obtain n d k where h: "(n, d) \<in> set raw" "map_of (nodeKey s) n = Some k" "h = \<lparr>rkey = k, rdist = d\<rparr>"
    by (auto simp: node_hits_def List.map_filter_def)
  then have kn: "map_of (keyNode s) k = Some n" using ok by (simp add: nodes_ok_def)
  then obtain i where i: "map_of (keyIdx s) k = Some i" using ok unfolding nodes_ok_def by (metis not_None_eq)
  have "gvec (gnodes (s_graph s) ! n) = s_rows s ! i" using ok kn i by (simp add: nodes_ok_def)
  then show "\<exists>x. shard_doc s (rkey h) = Some x \<and> rdist h = dist (fst x) \<and> P (rkey h) x"
    using raw[OF h(1)] h(3) i all by (simp add: shard_doc_def shard_view_def shard_entry_def entry_doc_def)
qed

lemma delta_hits:
  assumes ok: "delta_ok d" and srt: "sort_ok E" and walk: "walk_ok E" and flt: "filter_means flt P"
  shows "hits_ok (se_dist E query) (delta_doc d) P (delta_Search E d query K ef flt)"
proof -
  have shard: "hits_ok (se_dist E query) (delta_doc d) P (shard_search E query K ef flt s)" if s: "s \<in> set (d_shards d)" for s
  proof -
    have "hits_ok (se_dist E query) (shard_doc s) P (shard_search E query K ef flt s)"
    proof (cases flt)
      case (Some f)
      with brute_hits[OF delta_okD(2)[OF ok s] srt] flt show ?thesis by (simp add: shard_search_def)
    next
      case None
      have "hits_ok (se_dist E query) (shard_doc s) P (node_hits s (se_walk E (s_graph s) query K ef))"
      proof (rule walk_hits[OF delta_okD(3)[OF ok s]])
        show "d = se_dist E query (gvec (gnodes (s_graph s) ! n))" if "(n, d) \<in> set (se_walk E (s_graph s) query K ef)" for n d
          using walk that unfolding walk_ok_def by blast
        show "P k x" for k x using flt unfolding None filter_means_def option.case by blast
      qed
      with None show ?thesis by (simp add: shard_search_def hits_ok_def)
    qed
    moreover have "delta_doc d k = Some x" if "shard_doc s k = Some x" for k x
      using that shard_in_view[OF ok s] by (auto simp: shard_doc_def delta_doc_def)
    ultimately show ?thesis unfolding hits_ok_def by blast
  qed
  have ne: "d_shards d \<noteq> []" using delta_okD(1)[OF ok] .
  have "hits_ok (se_dist E query) (delta_doc d) P (concat (map (shard_search E query K ef flt) (d_shards d)))"
    using shard by (auto simp: hits_ok_def)
  from hits_ok_subset[OF this take_sorted_subset[OF srt]] shard[of "d_shards d ! 0"] ne show ?thesis
    by (simp add: delta_Search_def hits_ok_def)
qed

subsection \<open>Merging by key\<close>

definition comb_ok :: "combining \<Rightarrow> bool" where
  "comb_ok st \<longleftrightarrow> (\<forall>k p. map_of (dedupPos st) k = Some p \<longleftrightarrow>
     p < length (combined st) \<and> rkey (fst (combined st ! p)) = k)"

definition combines :: "(frozen_result \<times> int) set \<Rightarrow> (frozen_result \<times> int) list \<Rightarrow> bool" where
  "combines src comb \<longleftrightarrow> set comb \<subseteq> src \<and>
     (\<forall>(h, r) \<in> src. \<exists>(h', r') \<in> set comb. rkey h' = rkey h \<and> r' \<le> r)"

lemma comb_ok_distinct:
  assumes "comb_ok st"
  shows "distinct (map (rkey \<circ> fst) (combined st))"
proof -
  have "p = q" if pq: "p < length (combined st)" "q < length (combined st)" "rkey (fst (combined st ! p)) = rkey (fst (combined st ! q))" for p q
  proof -
    from pq assms have "map_of (dedupPos st) (rkey (fst (combined st ! p))) = Some p"
      "map_of (dedupPos st) (rkey (fst (combined st ! p))) = Some q" by (simp_all add: comb_ok_def)
    then show ?thesis by simp
  qed
  then show ?thesis by (auto simp: distinct_conv_nth)
qed

lemma combines_replace:
  assumes comb: "combines src xs" and pos: "pos < length xs" "rkey (fst (xs ! pos)) = rkey h" and less: "r < snd (xs ! pos)"
  shows "combines (insert (h, r) src) (xs[pos := (h, r)])"
proof -
  have new: "(h, r) \<in> set (xs[pos := (h, r)])" using pos(1) by (simp add: set_update_memI)
  have "\<exists>(h', r') \<in> set (xs[pos := (h, r)]). rkey h' = rkey h0 \<and> r' \<le> r0" if mem: "(h0, r0) \<in> src" for h0 r0
  proof -
    from comb mem obtain h' r' where "(h', r') \<in> set xs" and old: "rkey h' = rkey h0" "r' \<le> r0"
      unfolding combines_def by blast
    then obtain q where "q < length xs" "xs ! q = (h', r')" by (auto simp: in_set_conv_nth)
    with old have q: "q < length xs" "rkey (fst (xs ! q)) = rkey h0" "snd (xs ! q) \<le> r0" by simp_all
    show ?thesis
    proof (cases "q = pos")
      case True
      with q pos less have "rkey h = rkey h0" "r \<le> r0" by simp_all
      with new show ?thesis by blast
    next
      case False
      then have "xs ! q \<in> set (xs[pos := (h, r)])" using q(1) by (metis length_list_update nth_list_update_neq nth_mem)
      with q(2,3) show ?thesis by (intro bexI[of _ "xs ! q"]) (simp_all add: case_prod_unfold)
    qed
  qed
  moreover have "set (xs[pos := (h, r)]) \<subseteq> insert (h, r) src"
    using comb set_update_subset_insert[of xs pos "(h, r)"] by (auto simp: combines_def)
  ultimately show ?thesis using new unfolding combines_def by fastforce
qed

lemma combine_hit_ok:
  assumes ok: "comb_ok st" and comb: "combines src (combined st)" and st': "st' = combine_hit shadows r st h"
  shows "comb_ok st'"
    "combines (if \<exists>d \<in> set shadows. delta_Contains d (rkey h) then src else insert (h, r) src) (combined st')"
proof -
  have "comb_ok st' \<and>
    combines (if \<exists>d \<in> set shadows. delta_Contains d (rkey h) then src else insert (h, r) src) (combined st')"
  proof (cases "\<exists>d \<in> set shadows. delta_Contains d (rkey h)")
    case True
    with assms show ?thesis by (simp add: combine_hit_def)
  next
    case False
    show ?thesis
    proof (cases "map_of (dedupPos st) (rkey h)")
      case None
      then have st: "st' = st\<lparr>dedupPos := AList.update (rkey h) (length (combined st)) (dedupPos st), combined := combined st @ [(h, r)]\<rparr>"
        using False st' by (simp add: combine_hit_def)
      have none: "rkey (fst (combined st ! p)) \<noteq> rkey h" if "p < length (combined st)" for p
        using ok None that unfolding comb_ok_def by (metis option.distinct(1))
      have "comb_ok st'" using ok none unfolding comb_ok_def st
        by (auto simp: update_conv nth_append less_Suc_eq)
      moreover have "combines (insert (h, r) src) (combined st')"
        using comb by (force simp: combines_def st)
      ultimately show ?thesis using False by simp
    next
      case (Some pos)
      then have pos: "pos < length (combined st)" "rkey (fst (combined st ! pos)) = rkey h" using ok by (auto simp: comb_ok_def)
      show ?thesis
      proof (cases "r < snd (combined st ! pos)")
        case True
        then have st: "st' = st\<lparr>combined := (combined st)[pos := (h, r)]\<rparr>"
          using False st' Some by (simp add: combine_hit_def)
        have "comb_ok st'" using ok pos unfolding comb_ok_def st by (auto simp: nth_list_update)
        moreover have "combines (insert (h, r) src) (combined st')"
          using combines_replace[OF comb pos True] by (simp add: st)
        ultimately show ?thesis using False by simp
      next
        case less: False
        then have st: "st' = st" using False st' Some by (simp add: combine_hit_def)
        have "combined st ! pos \<in> set (combined st)" using pos by simp
        then have "combines (insert (h, r) src) (combined st)"
          using comb less pos(2) unfolding combines_def by (auto 0 3 intro!: bexI[of _ "combined st ! pos"] split: prod.splits)
        with ok st False show ?thesis by simp
      qed
    qed
  qed
  then show "comb_ok st'"
    "combines (if \<exists>d \<in> set shadows. delta_Contains d (rkey h) then src else insert (h, r) src) (combined st')" by blast+
qed

text \<open>The hits that no newer delta shadows, with the rank of their source.\<close>

definition unshadowed :: "delta list \<Rightarrow> frozen_result \<Rightarrow> bool" where
  "unshadowed shadows h \<longleftrightarrow> \<not> (\<exists>d \<in> set shadows. delta_Contains d (rkey h))"

definition visible :: "delta list \<Rightarrow> int list \<Rightarrow> frozen_result list list \<Rightarrow> nat \<Rightarrow> (frozen_result \<times> int) set" where
  "visible mems ranks bufs n =
     {(h, rankFor (length mems) ranks i) | h i. i < n \<and> h \<in> set (bufs ! i) \<and> unshadowed (take (min i (length mems)) mems) h}"

lemma combine_hits_ok:
  assumes "comb_ok st" "combines src (combined st)"
  shows "comb_ok (foldl (combine_hit shadows r) st hs) \<and>
    combines (src \<union> {(h, r) | h. h \<in> set hs \<and> unshadowed shadows h}) (combined (foldl (combine_hit shadows r) st hs))"
  using assms
proof (induction hs rule: rev_induct)
  case Nil
  then show ?case by simp
next
  case (snoc h hs)
  let ?src = "src \<union> {(h, r) | h. h \<in> set hs \<and> unshadowed shadows h}"
  let ?st = "foldl (combine_hit shadows r) st hs"
  have "comb_ok ?st" "combines ?src (combined ?st)" using snoc by simp_all
  note step = combine_hit_ok[OF this, where shadows = shadows and r = r and h = h, OF refl]
  have "(if \<exists>d \<in> set shadows. delta_Contains d (rkey h) then ?src else insert (h, r) ?src) =
      src \<union> {(h', r) | h'. h' \<in> set (hs @ [h]) \<and> unshadowed shadows h'}"
    by (auto simp: unshadowed_def)
  with step show ?case by simp
qed

lemma combine_bufs_ok:
  "comb_ok (foldl (combine_buf mems ranks bufs) \<lparr>combined = [], dedupPos = []\<rparr> [0..<n]) \<and>
   combines (visible mems ranks bufs n) (combined (foldl (combine_buf mems ranks bufs) \<lparr>combined = [], dedupPos = []\<rparr> [0..<n]))"
proof (induction n)
  case 0
  then show ?case by (simp add: comb_ok_def combines_def visible_def)
next
  case (Suc n)
  let ?st = "foldl (combine_buf mems ranks bufs) \<lparr>combined = [], dedupPos = []\<rparr> [0..<n]"
  have "visible mems ranks bufs (Suc n) = visible mems ranks bufs n \<union>
      {(h, rankFor (length mems) ranks n) | h. h \<in> set (bufs ! n) \<and> unshadowed (take (min n (length mems)) mems) h}"
    by (auto simp: visible_def less_Suc_eq)
  moreover have "foldl (combine_buf mems ranks bufs) \<lparr>combined = [], dedupPos = []\<rparr> [0..<Suc n] =
      foldl (combine_hit (take (min n (length mems)) mems) (rankFor (length mems) ranks n)) ?st (bufs ! n)"
    using combine_buf_def[of mems ranks bufs ?st n] by simp
  ultimately show ?case
    using combine_hits_ok[of ?st "visible mems ranks bufs n" "take (min n (length mems)) mems" "rankFor (length mems) ranks n" "bufs ! n"] Suc
    by simp
qed

lemma combine_all_ok:
  "combines (visible mems ranks bufs (length bufs)) (combine_all mems ranks bufs)"
  "distinct (map (rkey \<circ> fst) (combine_all mems ranks bufs))"
  using combine_bufs_ok[of mems ranks bufs "length bufs"] comb_ok_distinct by (auto simp: combine_all_def)

subsection \<open>The rank is the order of reading\<close>

lemma ranked_segs_elem:
  "(seg, r) \<in> set (ranked_segs ls) \<longleftrightarrow>
     (\<exists>l p. l < length ls \<and> p < length (ls ! l) \<and> seg = snd (ls ! l ! p) \<and> r = seg_rank l p)"
  by (fastforce simp: ranked_segs_def in_set_enumerate_eq)

lemma seg_rank_less:
  assumes "p < 2 ^ 40" "p' < 2 ^ 40" and "l' < l \<or> (l' = l \<and> p < p')"
  shows "seg_rank l' p' < seg_rank l p"
proof (cases "l' < l")
  case True
  then have "int l' + 1 \<le> int l" by simp
  then have "(int l' + 1) * 2 ^ 40 \<le> int l * 2 ^ 40" by (intro mult_right_mono) simp_all
  moreover have "int p < 2 ^ 40" using assms(1) by simp
  ultimately show ?thesis by (simp add: seg_rank_def algebra_simps)
next
  case False
  with assms(3) show ?thesis by (simp add: seg_rank_def)
qed

text \<open>What comes before a segment in the order of reading has a smaller rank.\<close>

lemma read_order_split:
  assumes l: "l < length ls" and p: "p < length (ls ! l)" and small: "\<And>level. level \<in> set ls \<Longrightarrow> length level < 2 ^ 40"
  obtains A B where "read_order ls = A @ snd (ls ! l ! p) # B" "\<And>seg. seg \<in> set A \<Longrightarrow> \<exists>r. (seg, r) \<in> set (ranked_segs ls) \<and> r < seg_rank l p"
proof -
  let ?L = "ls ! l"
  define A where "A = map snd (concat (map rev (take l ls)) @ rev (drop (Suc p) ?L))"
  define B where "B = map snd (rev (take p ?L) @ concat (map rev (drop (Suc l) ls)))"
  have "ls = take l ls @ ?L # drop (Suc l) ls" using l by (rule id_take_nth_drop)
  then have "concat (map rev ls) = concat (map rev (take l ls)) @ rev ?L @ concat (map rev (drop (Suc l) ls))"
    by (metis concat.simps(2) concat_append list.simps(9) map_append)
  moreover have "rev ?L = rev (drop (Suc p) ?L) @ ?L ! p # rev (take p ?L)"
    using id_take_nth_drop[OF p] by (metis rev.simps(2) rev_append append_assoc append_Cons append_Nil)
  ultimately have split: "read_order ls = A @ snd (?L ! p) # B" by (simp add: read_order_def A_def B_def)
  have "\<exists>r. (seg, r) \<in> set (ranked_segs ls) \<and> r < seg_rank l p" if seg: "seg \<in> set A" for seg
  proof -
    from seg consider (up) l' p' where "l' < l" "p' < length (ls ! l')" "seg = snd (ls ! l' ! p')"
      | (right) p' where "p < p'" "p' < length ?L" "seg = snd (?L ! p')"
    proof -
      from seg obtain r where r: "seg = snd r" "(\<exists>level \<in> set (take l ls). r \<in> set level) \<or> r \<in> set (drop (Suc p) ?L)"
        by (auto simp: A_def)
      from r(2) consider level where "level \<in> set (take l ls)" "r \<in> set level" | "r \<in> set (drop (Suc p) ?L)" by blast
      then show thesis
      proof cases
        case 1
        then obtain l' p' where "l' < l" "ls ! l' = level" "p' < length level" "level ! p' = r" using l by (auto simp: in_set_conv_nth)
        with r(1) show thesis by (intro up[of l' p']) simp_all
      next
        case 2
        then obtain q where "q < length ?L - Suc p" "?L ! (Suc p + q) = r" by (auto simp: in_set_conv_nth)
        with r(1) show thesis by (intro right[of "Suc p + q"]) simp_all
      qed
    qed
    then show ?thesis
    proof cases
      case up
      then have "(seg, seg_rank l' p') \<in> set (ranked_segs ls)" using l
        unfolding ranked_segs_elem by (intro exI[of _ l'] exI[of _ p']) simp
      moreover have "p' < 2 ^ 40" "p < 2 ^ 40" using small[of "ls ! l'"] small[of ?L] up(1,2) l p by (auto intro: less_trans)
      ultimately show ?thesis using seg_rank_less[of p p' l' l] up(1) by blast
    next
      case right
      then have "(seg, seg_rank l p') \<in> set (ranked_segs ls)" using l
        unfolding ranked_segs_elem by (intro exI[of _ l] exI[of _ p']) simp
      moreover have "p' < 2 ^ 40" "p < 2 ^ 40" using small[of ?L] right(2) l p by (auto intro: less_trans)
      ultimately show ?thesis using seg_rank_less[of p p' l l] right(1) by blast
    qed
  qed
  with split show thesis using that by blast
qed

subsection \<open>Every hit is current\<close>

definition pass :: "key_filter \<Rightarrow> (bytes \<Rightarrow> vdoc \<Rightarrow> bool) \<Rightarrow> bytes \<Rightarrow> vdoc \<Rightarrow> bool" where
  "pass cf Q k x \<longleftrightarrow> (case cf of Some f \<Rightarrow> f k | None \<Rightarrow> True) \<and> Q k x"

text \<open>What is asked of the search in one segment: documents of the segment that pass, each key once.\<close>

definition seg_search_ok :: "senv \<Rightarrow> nat \<Rightarrow> (bytes \<Rightarrow> vdoc \<Rightarrow> bool) \<Rightarrow> seg_search \<Rightarrow> bool" where
  "seg_search_ok E dim Q ss \<longleftrightarrow> (\<forall>seg q K ef cf. seg_wf dim seg \<longrightarrow>
     hits_ok (se_dist E q) (seg_doc seg) (pass cf Q) (ss seg q K ef cf) \<and> distinct (map rkey (ss seg q K ef cf)))"

definition fits_memory :: "vstore \<Rightarrow> bool" where
  "fits_memory s \<longleftrightarrow> (\<forall>level \<in> set (v_levels s). length level < 2 ^ 40) \<and> length (v_flushing s) < 2 ^ 40"

lemma deltaFn_means:
  assumes "filter_means af Q"
  shows "filter_means (deltaFn cf af) (pass cf Q)"
  using assms by (cases cf; cases af) (auto simp: filter_means_def deltaFn_def pass_def simp del: split_paired_All)

lemma composed_pass:
  "pass (composedFilter ts keep) Q k x \<longleftrightarrow> k \<notin> ts \<and> pass keep Q k x"
  by (cases keep) (auto simp: composedFilter_def pass_def)

lemma memtables_ok:
  assumes b: "base_ok s" and d: "d \<in> set (memtables s)"
  shows "delta_ok d"
proof (cases "d \<in> set (v_flushing s)")
  case True
  from delta_wf_ok[OF base_okD(2)[OF b this]] show ?thesis .
next
  case False
  with d have "v_delta s = Some d" by (auto simp: memtables_def split: option.splits if_splits)
  with active_Some(2)[OF base_okD(1)[OF b]] show ?thesis .
qed

lemma vs_doc_layers:
  assumes b: "base_ok s" and k: "k \<notin> v_tombs s"
  shows "vs_doc s k = first_some (map delta_doc (memtables s) @ map seg_doc (read_order (v_levels s))) k"
proof (cases "v_delta s")
  case None
  then show ?thesis using k by (simp add: vs_doc_def active_doc_def memtables_def layers_def)
next
  case (Some d)
  have "d_live d = 0 \<Longrightarrow> delta_doc d k = None"
    using live_view[OF active_Some(2)[OF base_okD(1)[OF b] Some]] by (simp add: delta_doc_def)
  with Some k show ?thesis
    by (cases "d_live d = 0") (auto simp: vs_doc_def active_doc_def memtables_def layers_def split: option.splits)
qed

lemma first_some_at:
  "i < length fs \<Longrightarrow> \<forall>j < i. (fs ! j) k = None \<Longrightarrow> (fs ! i) k = Some x \<Longrightarrow> first_some fs k = Some x"
proof (induction fs arbitrary: i)
  case (Cons f fs)
  show ?case
  proof (cases i)
    case 0
    with Cons.prems show ?thesis by simp
  next
    case (Suc j)
    with Cons.prems(2) have "f k = None" "\<forall>m < j. (fs ! m) k = None" by auto
    with Cons.IH[of j] Cons.prems(1,3) Suc show ?thesis by simp
  qed
qed simp

lemma mem_current:
  assumes b: "base_ok s" and k: "k \<notin> v_tombs s" and i: "i < length (memtables s)"
    and doc: "delta_doc (memtables s ! i) k = Some x" and new: "\<forall>d \<in> set (take i (memtables s)). \<not> delta_Contains d k"
  shows "vs_doc s k = Some x"
proof -
  have "delta_doc (memtables s ! j) k = None" if j: "j < i" for j
  proof -
    have "memtables s ! j \<in> set (take i (memtables s))" using j i by (force simp: in_set_conv_nth)
    then have "\<not> delta_Contains (memtables s ! j) k" "delta_ok (memtables s ! j)"
      using new memtables_ok[OF b] i j by simp_all
    then show ?thesis using delta_source.has_doc by blast
  qed
  then have "first_some (map delta_doc (memtables s) @ map seg_doc (read_order (v_levels s))) k = Some x"
    using i doc by (intro first_some_at[of i]) (simp_all add: nth_append)
  with vs_doc_layers[OF b k] show ?thesis by simp
qed

lemma seg_current:
  assumes b: "base_ok s" and k: "k \<notin> v_tombs s" and small: "fits_memory s"
    and seg: "(seg, r) \<in> set (ranked_segs (v_levels s))" and doc: "seg_doc seg k = Some x"
    and mems: "\<forall>d \<in> set (memtables s). \<not> delta_Contains d k"
    and fresh: "\<forall>(seg', r') \<in> set (ranked_segs (v_levels s)). r' < r \<longrightarrow> \<not> seg_HasKey seg' k"
  shows "vs_doc s k = Some x"
proof -
  from seg obtain l p where lp: "l < length (v_levels s)" "p < length (v_levels s ! l)"
    "seg = snd (v_levels s ! l ! p)" "r = seg_rank l p" unfolding ranked_segs_elem by blast
  obtain A B where split: "read_order (v_levels s) = A @ seg # B"
    and A: "\<And>seg'. seg' \<in> set A \<Longrightarrow> \<exists>r'. (seg', r') \<in> set (ranked_segs (v_levels s)) \<and> r' < r"
    using read_order_split[OF lp(1,2)] small lp(3,4) unfolding fits_memory_def by metis
  have wf: "seg_wf (v_dim s) seg'" if "seg' \<in> set (read_order (v_levels s))" for seg'
    using that base_okD(8)[OF b] unfolding set_read_order by blast
  have "first_some (map seg_doc A) k = None"
    using A fresh wf by (subst seg_source.layer_None) (auto simp: split)
  moreover have "first_some (map delta_doc (memtables s)) k = None"
    using mems memtables_ok[OF b] by (subst delta_source.layer_None) auto
  ultimately show ?thesis
    unfolding vs_doc_layers[OF b k] split using doc by (simp add: first_some_append)
qed

lemma hit_current:
  assumes b: "base_ok s" and small: "fits_memory s" and srt: "sort_ok E" and walk: "walk_ok E" and af: "filter_means af Q"
    and ss: "seg_search_ok E (v_dim s) Q ss" and cf: "cf = composedFilter (v_tombs s) keep"
    and bufs: "bufs = map (\<lambda>d. delta_Search E d query K ef (deltaFn cf af)) (memtables s) @
      map (\<lambda>(seg, r). ss seg query ef ef cf) (ranked_segs (v_levels s))"
    and vis: "(h, r) \<in> visible (memtables s) (map snd (ranked_segs (v_levels s))) bufs (length bufs)"
    and fresh: "\<not> stale_hit (length (memtables s)) (ranked_segs (v_levels s)) (h, r)"
  shows "\<exists>x. vs_doc s (rkey h) = Some x \<and> rdist h = se_dist E query (fst x) \<and> pass keep Q (rkey h) x"
proof -
  let ?mems = "memtables s" and ?segs = "ranked_segs (v_levels s)"
  from vis obtain i where i: "i < length bufs" "h \<in> set (bufs ! i)" "r = rankFor (length ?mems) (map snd ?segs) i"
    "unshadowed (take (min i (length ?mems)) ?mems) h"
    unfolding visible_def by blast
  show ?thesis
  proof (cases "i < length ?mems")
    case True
    have "h \<in> set (delta_Search E (?mems ! i) query K ef (deltaFn cf af))" using i(2) True by (simp add: bufs nth_append)
    moreover have "hits_ok (se_dist E query) (delta_doc (?mems ! i)) (pass cf Q) (delta_Search E (?mems ! i) query K ef (deltaFn cf af))"
      by (rule delta_hits[OF memtables_ok[OF b] srt walk deltaFn_means[OF af]]) (use True in simp)
    ultimately obtain x where x: "delta_doc (?mems ! i) (rkey h) = Some x" "rdist h = se_dist E query (fst x)" "pass cf Q (rkey h) x"
      unfolding hits_ok_def by blast
    have "rkey h \<notin> v_tombs s" "pass keep Q (rkey h) x" using x(3) by (simp_all add: cf composed_pass)
    moreover have "vs_doc s (rkey h) = Some x"
      by (rule mem_current[OF b calculation(1) True x(1)]) (use i(4) True in \<open>simp add: unshadowed_def\<close>)
    ultimately show ?thesis using x(2) by blast
  next
    case False
    define j where "j = i - length ?mems"
    have j: "j < length ?segs" using i(1) False by (simp add: bufs j_def)
    obtain seg r' where sr: "?segs ! j = (seg, r')" by fastforce
    have r: "r = r'" using i(3) False j sr by (simp add: rankFor_def j_def)
    have h: "h \<in> set (ss seg query ef ef cf)" using i(2) False j sr by (simp add: bufs nth_append j_def)
    have seg: "(seg, r) \<in> set ?segs" using nth_mem[OF j] sr r by simp
    then obtain l p where lp: "l < length (v_levels s)" "p < length (v_levels s ! l)" "seg = snd (v_levels s ! l ! p)" "r = seg_rank l p"
      unfolding ranked_segs_elem by blast
    have "v_levels s ! l ! p \<in> set (concat (v_levels s))" using lp(1,2) by (auto simp: set_concat intro: nth_mem)
    then have "seg_wf (v_dim s) seg" using base_okD(8)[OF b] lp(3) by blast
    with ss h obtain x where x: "seg_doc seg (rkey h) = Some x" "rdist h = se_dist E query (fst x)" "pass cf Q (rkey h) x"
      unfolding seg_search_ok_def hits_ok_def by blast
    have tomb: "rkey h \<notin> v_tombs s" "pass keep Q (rkey h) x" using x(3) by (simp_all add: cf composed_pass)
    have "- (2 ^ 63) + int (length ?mems) \<le> r"
    proof -
      have "length ?mems \<le> Suc (length (v_flushing s))" by (auto simp: memtables_def split: option.splits)
      moreover have "length (v_flushing s) < 2 ^ 40" "p < 2 ^ 40"
        using small lp(1,2) unfolding fits_memory_def by (auto intro: less_trans)
      ultimately show ?thesis unfolding lp(4) seg_rank_def by simp
    qed
    then have "\<forall>(seg', r') \<in> set ?segs. r' < r \<longrightarrow> \<not> seg_HasKey seg' (rkey h)" using fresh by (auto simp: stale_hit_def)
    moreover have "\<forall>d \<in> set ?mems. \<not> delta_Contains d (rkey h)" using i(4) False by (simp add: unshadowed_def)
    ultimately have "vs_doc s (rkey h) = Some x" using seg_current[OF b tomb(1) small seg x(1)] by blast
    with x(2) tomb(2) show ?thesis by blast
  qed
qed

subsection \<open>No key twice, at most \<open>K\<close>\<close>

lemma sort_distinct:
  assumes "sort_ok E"
  shows "distinct (map f (se_sort E xs)) \<longleftrightarrow> distinct (map f xs)" "distinct (map g (se_ranked E ys)) \<longleftrightarrow> distinct (map g ys)"
  using assms unfolding sort_ok_def by (metis mset_eq_imp_distinct_iff mset_map)+

lemma distinct_take_map: "distinct (map f xs) \<Longrightarrow> distinct (map f (take K xs))"
  by (simp add: take_map[symmetric])

lemma brute_distinct:
  assumes ok: "slots_ok s" and srt: "sort_ok E"
  shows "distinct (map rkey (bruteFiltered E s query K f))"
proof -
  let ?is = "filter (\<lambda>i. s_keys s ! i \<noteq> [] \<and> f (s_keys s ! i) (s_attrs s ! i)) [0..<length (s_keys s)]"
  have "inj_on (\<lambda>i. s_keys s ! i) (set ?is)"
  proof (rule inj_onI)
    fix i j assume ij: "i \<in> set ?is" "j \<in> set ?is" "s_keys s ! i = s_keys s ! j"
    then have "map_of (keyIdx s) (s_keys s ! i) = Some i" "map_of (keyIdx s) (s_keys s ! i) = Some j"
      using ok by (auto simp: slots_ok_def)
    then show "i = j" by simp
  qed
  then have "distinct (map rkey (map (\<lambda>i. \<lparr>rkey = s_keys s ! i, rdist = se_dist E query (s_rows s ! i)\<rparr>) ?is))"
    by (simp add: distinct_map comp_def)
  then have "distinct (map rkey (se_sort E (map (\<lambda>i. \<lparr>rkey = s_keys s ! i, rdist = se_dist E query (s_rows s ! i)\<rparr>) ?is)))"
    by (simp only: sort_distinct(1)[OF srt])
  from distinct_take_map[OF this, of K] show ?thesis by (simp add: bruteFiltered_def)
qed

text \<open>The keys of the hits of a shard are its keys.\<close>

lemma shard_search_keys:
  assumes ok: "slots_ok s" "nodes_ok s" and srt: "sort_ok E" and h: "h \<in> set (shard_search E query K ef flt s)"
  shows "shard_view s (rkey h) \<noteq> None"
proof (cases flt)
  case None
  with h obtain n where "map_of (nodeKey s) n = Some (rkey h)"
    by (auto simp: shard_search_def node_hits_def List.map_filter_def split: if_splits)
  then have "map_of (keyNode s) (rkey h) = Some n" using ok(2) by (simp add: nodes_ok_def)
  then show ?thesis using ok(2) unfolding nodes_ok_def shard_view_def by (metis option.distinct(1) option.map_disc_iff)
next
  case (Some f)
  with h have "h \<in> set (map (\<lambda>i. \<lparr>rkey = s_keys s ! i, rdist = se_dist E query (s_rows s ! i)\<rparr>)
      (filter (\<lambda>i. s_keys s ! i \<noteq> [] \<and> f (s_keys s ! i) (s_attrs s ! i)) [0..<length (s_keys s)]))"
    using take_sorted_subset[OF srt] by (fastforce simp: shard_search_def bruteFiltered_def split: if_splits)
  then obtain i where "i < length (s_keys s)" "s_keys s ! i \<noteq> []" "rkey h = s_keys s ! i" by auto
  then have "map_of (keyIdx s) (rkey h) = Some i" using ok(1) by (simp add: slots_ok_def)
  then show ?thesis by (simp add: shard_view_def)
qed

lemma node_hits_distinct:
  assumes ok: "nodes_ok s"
  shows "distinct (map fst raw) \<Longrightarrow> distinct (map rkey (node_hits s raw)) \<and>
    (\<forall>h \<in> set (node_hits s raw). \<exists>n \<in> fst ` set raw. map_of (keyNode s) (rkey h) = Some n)"
proof (induction raw)
  case Nil
  then show ?case by (simp add: node_hits_def)
next
  case (Cons nd raw)
  obtain n d where nd: "nd = (n, d)" by fastforce
  show ?case
  proof (cases "map_of (nodeKey s) n")
    case None
    then have "node_hits s (nd # raw) = node_hits s raw" by (simp add: node_hits_def nd)
    with Cons show ?thesis by auto
  next
    case (Some k)
    then have eq: "node_hits s ((n, d) # raw) = \<lparr>rkey = k, rdist = d\<rparr> # node_hits s raw" by (simp add: node_hits_def)
    have kn: "map_of (keyNode s) k = Some n" using ok Some by (simp add: nodes_ok_def)
    have "k \<noteq> rkey h" if "h \<in> set (node_hits s raw)" for h
      using Cons kn that nd by force
    with Cons kn show ?thesis by (auto simp: eq nd)
  qed
qed

lemma node_hits_length: "length (node_hits s raw) \<le> length raw"
  by (simp add: node_hits_def List.map_filter_def)

lemma shard_search_distinct:
  assumes "slots_ok s" "nodes_ok s" "sort_ok E" "walk_ok E"
  shows "distinct (map rkey (shard_search E query K ef flt s))" "length (shard_search E query K ef flt s) \<le> K"
proof -
  have w: "distinct (map fst (se_walk E (s_graph s) query K ef))" "length (se_walk E (s_graph s) query K ef) \<le> K"
    using assms(4) unfolding walk_ok_def by blast+
  show "distinct (map rkey (shard_search E query K ef flt s))"
    using brute_distinct[OF assms(1,3)] node_hits_distinct[OF assms(2) w(1)] by (auto simp: shard_search_def split: option.splits)
  show "length (shard_search E query K ef flt s) \<le> K"
    using le_trans[OF node_hits_length w(2)] by (auto simp: shard_search_def bruteFiltered_def split: option.splits)
qed

lemma delta_Search_distinct:
  assumes ok: "delta_ok d" and srt: "sort_ok E" and walk: "walk_ok E"
  shows "distinct (map rkey (delta_Search E d query K ef flt))" "length (delta_Search E d query K ef flt) \<le> K"
proof -
  let ?f = "shard_search E query K ef flt"
  have shard: "distinct (map rkey (?f s))" "length (?f s) \<le> K" if "s \<in> set (d_shards d)" for s
    using shard_search_distinct[OF delta_okD(2,3)[OF ok that] srt walk] by blast+
  show "length (delta_Search E d query K ef flt) \<le> K"
    using shard(2)[of "d_shards d ! 0"] delta_okD(1)[OF ok] by (simp add: delta_Search_def)
  have "distinct (concat (map (\<lambda>s. map rkey (?f s)) (d_shards d)))"
  proof (rule distinct_concat_nth)
    fix i assume "i < length (map (\<lambda>s. map rkey (?f s)) (d_shards d))"
    then show "distinct (map (\<lambda>s. map rkey (?f s)) (d_shards d) ! i)" using shard(1) by simp
  next
    fix i j k
    assume ij: "i < length (map (\<lambda>s. map rkey (?f s)) (d_shards d))" "j < length (map (\<lambda>s. map rkey (?f s)) (d_shards d))"
      "k \<in> set (map (\<lambda>s. map rkey (?f s)) (d_shards d) ! i)" "k \<in> set (map (\<lambda>s. map rkey (?f s)) (d_shards d) ! j)"
    have "delta_shardFor d k = m" if m: "m < length (d_shards d)" "k \<in> rkey ` set (?f (d_shards d ! m))" for m
    proof -
      from m obtain e where "shard_view (d_shards d ! m) k = Some e"
        using shard_search_keys[OF delta_okD(2,3)[OF ok nth_mem[OF m(1)]] srt] by blast
      with delta_okD(4)[OF ok m(1)] show ?thesis by blast
    qed
    with ij show "i = j" by auto
  qed
  then have "distinct (map rkey (se_sort E (concat (map ?f (d_shards d)))))"
    unfolding sort_distinct(1)[OF srt] by (simp add: map_concat comp_def)
  then show "distinct (map rkey (delta_Search E d query K ef flt))"
    using shard(1)[of "d_shards d ! 0"] delta_okD(1)[OF ok] by (simp add: delta_Search_def distinct_take_map)
qed

subsection \<open>The search\<close>

definition search_ok :: "vstore \<Rightarrow> (f32 list \<Rightarrow> f32) \<Rightarrow> nat \<Rightarrow> (bytes \<Rightarrow> vdoc \<Rightarrow> bool) \<Rightarrow> frozen_result list \<Rightarrow> bool" where
  "search_ok s dist K P hs \<longleftrightarrow> hits_ok dist (vs_doc s) P hs \<and> distinct (map rkey hs) \<and> length hs \<le> K"

lemma layers_hits:
  assumes b: "base_ok s" and small: "fits_memory s" and srt: "sort_ok E" and walk: "walk_ok E" and af: "filter_means af Q"
    and ss: "seg_search_ok E (v_dim s) Q ss" and strict: "se_strict E"
  shows "search_ok s (se_dist E query) K (pass keep Q)
    (search_layers E ss s query K ef (composedFilter (v_tombs s) keep) (deltaFn (composedFilter (v_tombs s) keep) af))"
proof -
  let ?cf = "composedFilter (v_tombs s) keep" and ?mems = "memtables s" and ?segs = "ranked_segs (v_levels s)"
  define bufs where "bufs = map (\<lambda>d. delta_Search E d query K ef (deltaFn ?cf af)) ?mems @ map (\<lambda>(seg, r). ss seg query ef ef ?cf) ?segs"
  define comb where "comb = combine_all ?mems (map snd ?segs) bufs"
  define best where "best = take K (filter (\<lambda>hr. \<not> stale_hit (length ?mems) ?segs hr) (se_ranked E comb))"
  have eq: "search_layers E ss s query K ef ?cf (deltaFn ?cf af) = map fst best"
    using strict by (simp add: search_layers_def Let_def best_hits_def best_def comb_def bufs_def)
  have sub: "set best \<subseteq> {hr \<in> set comb. \<not> stale_hit (length ?mems) ?segs hr}"
    using set_take_subset sort_set(2)[OF srt] unfolding best_def by fastforce
  have vis: "set comb \<subseteq> visible ?mems (map snd ?segs) bufs (length bufs)"
    using combine_all_ok(1)[of ?mems "map snd ?segs" bufs] by (simp add: combines_def comb_def)
  have "\<exists>x. vs_doc s (rkey h) = Some x \<and> rdist h = se_dist E query (fst x) \<and> pass keep Q (rkey h) x" if "(h, r) \<in> set best" for h r
    by (rule hit_current[OF b small srt walk af ss refl bufs_def]) (use that sub vis in blast)+
  then have "hits_ok (se_dist E query) (vs_doc s) (pass keep Q) (map fst best)" by (auto simp: hits_ok_def)
  moreover have "distinct (map rkey (map fst best))"
  proof -
    have "distinct (map (rkey \<circ> fst) (se_ranked E comb))"
      unfolding sort_distinct(2)[OF srt] comb_def by (rule combine_all_ok(2))
    then have "distinct (map (rkey \<circ> fst) (filter (\<lambda>hr. \<not> stale_hit (length ?mems) ?segs hr) (se_ranked E comb)))"
      by (rule distinct_map_filter)
    then show ?thesis unfolding best_def map_map by (rule distinct_take_map)
  qed
  moreover have "length (map fst best) \<le> K" by (simp add: best_def)
  ultimately show ?thesis unfolding eq search_ok_def by blast
qed

lemma one_segment: "concat ls = [r] \<Longrightarrow> concat (map rev ls) = [r]"
proof (induction ls)
  case (Cons l ls)
  then show ?case by (cases l) (auto simp: rev_concat[symmetric] simp flip: rev_map)
qed simp

lemma search_cases:
  assumes "search E ss s query K keep af = Inr hs"
  defines "cf \<equiv> composedFilter (v_tombs s) keep" and "ef \<equiv> search_ef E K (keep \<noteq> None \<or> af \<noteq> None)"
  shows "hs = [] \<or>
    (\<exists>d. v_delta s = Some d \<and> v_flushing s = [] \<and> concat (v_levels s) = [] \<and> d_live d > 0 \<and> hs = delta_Search E d query K ef (deltaFn cf af)) \<or>
    (length (concat (v_levels s)) = 1 \<and> memtables s = [] \<and> hs = take K (ss (snd (hd (concat (v_levels s)))) query K ef cf)) \<or>
    hs = search_layers E ss s query K ef cf (deltaFn cf af)"
proof -
  show ?thesis
    using assms(1) unfolding search_def Let_def cf_def[symmetric] ef_def[symmetric]
    by (auto simp: memtables_def split: if_splits option.splits simp del: concat_eq_Nil_conv length_concat)
qed

lemma search_sound:
  assumes b: "base_ok s" and small: "fits_memory s" and srt: "sort_ok E" and walk: "walk_ok E" and af: "filter_means af Q"
    and ss: "seg_search_ok E (v_dim s) Q ss" and strict: "se_strict E" and res: "search E ss s query K keep af = Inr hs"
  shows "search_ok s (se_dist E query) K (pass keep Q) hs"
proof -
  let ?cf = "composedFilter (v_tombs s) keep" and ?ef = "search_ef E K (keep \<noteq> None \<or> af \<noteq> None)"
  have cf: "pass ?cf Q k x \<longleftrightarrow> k \<notin> v_tombs s \<and> pass keep Q k x" for k x by (rule composed_pass)
  from res consider (empty) "hs = []"
    | (delta) d where "v_delta s = Some d" "v_flushing s = []" "concat (v_levels s) = []" "d_live d > 0"
        "hs = delta_Search E d query K ?ef (deltaFn ?cf af)"
    | (one) "length (concat (v_levels s)) = 1" "memtables s = []" "hs = take K (ss (snd (hd (concat (v_levels s)))) query K ?ef ?cf)"
    | (gen) "hs = search_layers E ss s query K ?ef ?cf (deltaFn ?cf af)"
    using search_cases[OF res] by blast
  then show ?thesis
  proof cases
    case empty
    then show ?thesis by (simp add: search_ok_def hits_ok_def)
  next
    case delta
    have mem: "memtables s = [d]" using delta by (simp add: memtables_def)
    have ok: "delta_ok d" using memtables_ok[OF b] mem by simp
    have "\<exists>x. vs_doc s (rkey h) = Some x \<and> rdist h = se_dist E query (fst x) \<and> pass keep Q (rkey h) x" if "h \<in> set hs" for h
    proof -
      have "hits_ok (se_dist E query) (delta_doc d) (pass ?cf Q) hs"
        unfolding delta(5) by (rule delta_hits[OF ok srt walk deltaFn_means[OF af]])
      with that obtain x where x: "delta_doc d (rkey h) = Some x" "rdist h = se_dist E query (fst x)" "pass ?cf Q (rkey h) x"
        unfolding hits_ok_def by blast
      then have "vs_doc s (rkey h) = Some x" using mem_current[OF b, of "rkey h" 0 x] mem cf by simp
      with x cf show ?thesis by auto
    qed
    with delta_Search_distinct[OF ok srt walk] delta(5) show ?thesis by (auto simp: search_ok_def hits_ok_def)
  next
    case one
    define r where "r = hd (concat (v_levels s))"
    have r: "concat (v_levels s) = [r]" using one(1) unfolding r_def by (cases "concat (v_levels s)") auto
    then have "r \<in> set (concat (v_levels s))" by (simp only: list.set insertI1)
    then have wf: "seg_wf (v_dim s) (snd r)" using base_okD(8)[OF b] by blast
    let ?raw = "ss (snd r) query K ?ef ?cf"
    have raw: "hits_ok (se_dist E query) (seg_doc (snd r)) (pass ?cf Q) ?raw" "distinct (map rkey ?raw)"
      using ss wf unfolding seg_search_ok_def by blast+
    have "concat (map rev (v_levels s)) = [r]" using one_segment[OF r] .
    then have "read_order (v_levels s) = [snd r]" by (simp add: read_order_def)
    then have "\<exists>x. vs_doc s (rkey h) = Some x \<and> rdist h = se_dist E query (fst x) \<and> pass keep Q (rkey h) x" if "h \<in> set hs" for h
      using raw(1) that cf vs_doc_layers[OF b, of "rkey h"] one(2,3)[folded r_def] set_take_subset[of K ?raw] unfolding hits_ok_def by fastforce
    with raw(2) one(3)[folded r_def] show ?thesis by (auto simp: search_ok_def hits_ok_def distinct_take_map)
  next
    case gen
    with layers_hits[OF b small srt walk af ss strict] show ?thesis by simp
  qed
qed

text \<open>The filter on attributes is a condition on the document.\<close>

definition match_doc :: "vfilter \<Rightarrow> vdoc \<Rightarrow> bool" where
  "match_doc f x =
     (let (cat, num) = fst (snd x) in
      list_all (\<lambda>(n, v). n = [] \<or> (case cat n of None \<Rightarrow> [] | Some w \<Rightarrow> w) = v) (Eq f) \<and>
      list_all (\<lambda>(n, lo, hi). n = [] \<or> (case num n of None \<Rightarrow> False | Some v \<Rightarrow> in_range lo hi v)) (Range f))"

lemma match_means: "filter_means (if filter_empty f then None else Some (\<lambda>key a. matchAttrs a f [])) (\<lambda>k. match_doc f)"
proof (cases "filter_empty f")
  case True
  then show ?thesis by (simp add: filter_means_def filter_empty_def match_doc_def Let_def case_prod_unfold)
next
  case False
  have num: "(case num_view (Num a) n of None \<Rightarrow> False | Some v \<Rightarrow> in_range lo hi v) \<longleftrightarrow>
      (case map_of (Num a) n of None \<Rightarrow> False | Some v \<Rightarrow> in_range lo hi v)" for a n lo hi
    using in_range_nan by (auto simp: num_view_def split: option.splits)
  have "matchAttrs a f [] \<longleftrightarrow> match_doc f (v, attr_view a, ts)" for a v ts
    by (simp add: matchAttrs_def match_doc_def attr_view_def num cat_get_def)
  with False show ?thesis by (simp add: filter_means_def)
qed

lemma SearchFilter_sound:
  assumes b: "base_ok s" and small: "fits_memory s" and srt: "sort_ok E" and walk: "walk_ok E" and strict: "se_strict E"
    and ss: "seg_search_ok E (v_dim s) (\<lambda>k. match_doc f) (ss (PartitionAttr cfg) f)" and res: "SearchFilter cfg E ss s query K f = Inr hs"
  shows "search_ok s (se_dist E query) K (\<lambda>k. match_doc f) hs"
proof -
  have "search E (ss (PartitionAttr cfg) f) s query K None (if filter_empty f then None else Some (\<lambda>key a. matchAttrs a f [])) = Inr hs"
    using res unfolding SearchFilter_def lift_search_def by (auto split: sum.splits if_splits)
  from search_sound[OF b small srt walk match_means ss strict this] show ?thesis by (simp add: pass_def[abs_def])
qed

end
