(* ===== verification/VecRuns.thy ===== *)
theory VecRuns
  imports VecApply VecQuery "HOL-Library.Code_Target_Nat"
begin

text \<open>
  Runs of the vector store, from the empty store. What the map of \<open>VecRefine\<close> gives: reads, the answers
  of writes, the well-formedness of everything stored. Then three runs of the code that each break one
  of the three conditions on the schedule, and lose or revive a document.
\<close>

lemma orderly_result:
  assumes "env_ok E" "orderly_run E evs vs_new" "vs_run E evs vs_new = Some s"
  shows "vinv s" "vs_abs s = fold spec_step evs (None, Map.empty)"
  using run_refines[OF assms(1) new_vinv(1) assms(2,3)] new_vinv(2) by simp_all

subsection \<open>A run with a swap, two flushes, a delete and a merge\<close>

definition ex_env :: venv where
  "ex_env = \<lparr>e_cfg = \<lparr>lc_vec = \<lparr>TenantOf = None, PartitionAttr = [], BruteThreshold = 0, UseSQ = False\<rparr>,
       DeltaMax = 1, Fanout = 2, MergeBatchMax = 16, DeltaShards = 1\<rparr>,
     e_lib = \<lparr>sort_seen = (\<lambda>_. []), shuffle = (\<lambda>n. [0..<n]), sq8 = (\<lambda>r. r)\<rparr>, e_hash = (\<lambda>_ _. 0)\<rparr>"

definition ex_add :: "bytes \<Rightarrow> f32 \<Rightarrow> vevent" where
  "ex_add key v = EAdd key [v] no_attrs []"

definition ex_swap :: "vevent list" where
  "ex_swap = [ERead, ESwap, ESched]"

definition ex_run :: "vevent list" where
  "ex_run = [ex_add ''k'' 1] @ ex_swap @ [EApply 0, ex_add ''m'' 2] @ ex_swap @
     [EApply 0, EDelete ''k'', ESnap 0, EApply 0]"

lemma ex_env_ok: "env_ok ex_env"
  by (auto simp: env_ok_def ex_env_def lib_ok_def)

lemma ex_run_ok: "orderly_run ex_env ex_run vs_new" "vs_run ex_env ex_run vs_new \<noteq> None"
  by code_simp+

lemma ex_run_spec:
  "map_option fst (snd (fold spec_step ex_run (None, Map.empty)) ''m'') = Some [2]"
  "snd (fold spec_step ex_run (None, Map.empty)) ''m'' \<noteq> None"
  "snd (fold spec_step ex_run (None, Map.empty)) ''k'' = None"
  "fst (fold spec_step ex_run (None, Map.empty)) = Some 1"
  by (code_simp, code_simp, simp add: ex_run_def ex_add_def ex_swap_def, code_simp)

subsection \<open>What every orderly run keeps\<close>

text \<open>C26: A read answers what the map of all the writes so far has for the key, after any run of
  writes, deletes, clears, swaps, flushes, merges and consolidations that keeps to the three conditions.\<close>

theorem store_is_map:
  assumes "env_ok E" "orderly_run E evs vs_new" "vs_run E evs vs_new = Some s"
  shows "vs_Get s key = map_option fst (snd (fold spec_step evs (None, Map.empty)) key)"
proof -
  note r = orderly_result[OF assms]
  have "vs_doc s = snd (fold spec_step evs (None, Map.empty))" unfolding r(2)[symmetric] by (simp add: vs_abs_def)
  with get_doc[OF vinvD(1)[OF r(1)], of key] show ?thesis by simp
qed

theorem store_is_map_witness:
  "\<exists>s. vs_run ex_env ex_run vs_new = Some s \<and> vs_Get s ''m'' = Some [2] \<and> vs_Get s ''k'' = None"
proof -
  obtain s where s: "vs_run ex_env ex_run vs_new = Some s" using ex_run_ok(2) by blast
  from store_is_map[OF ex_env_ok ex_run_ok(1) s] s show ?thesis by (simp add: ex_run_spec)
qed

text \<open>The answers of the writes are those of the map: a delete says whether the key was there, an
  insertion fails exactly for a bad key, a bad vector or another dimension than the first one's.\<close>

lemma store_answers:
  assumes "env_ok E" "orderly_run E evs vs_new" "vs_run E evs vs_new = Some s"
  shows "fst (vs_Delete key s) = (snd (fold spec_step evs (None, Map.empty)) key \<noteq> None) \<and>
    fst (addEntry E key vec a ts s) =
      (case ValidateKey key of
         Some e \<Rightarrow> Some e
       | None \<Rightarrow>
           (case ValidateVector vec of
              Some e \<Rightarrow> Some e
            | None \<Rightarrow>
                (case fst (fold spec_step evs (None, Map.empty)) of
                   None \<Rightarrow> None
                 | Some n \<Rightarrow> if length vec = n then None else Some (DimMismatch n (length vec)))))"
proof
  note r = orderly_result[OF assms]
  have doc: "vs_doc s = snd (fold spec_step evs (None, Map.empty))"
    and dim: "fst (fold spec_step evs (None, Map.empty)) = map_option (\<lambda>_. v_dim s) (v_delta s)"
    unfolding r(2)[symmetric] by (simp_all add: vs_abs_def)
  show "fst (vs_Delete key s) = (snd (fold spec_step evs (None, Map.empty)) key \<noteq> None)"
    unfolding doc[symmetric] by (rule delete_step(3)[OF r(1), of key _ "snd (vs_Delete key s)"]) simp
  show "fst (addEntry E key vec a ts s) =
      (case ValidateKey key of
         Some e \<Rightarrow> Some e
       | None \<Rightarrow>
           (case ValidateVector vec of
              Some e \<Rightarrow> Some e
            | None \<Rightarrow>
                (case fst (fold spec_step evs (None, Map.empty)) of
                   None \<Rightarrow> None
                 | Some n \<Rightarrow> if length vec = n then None else Some (DimMismatch n (length vec)))))"
    unfolding dim addEntry_def initDelta_def
    by (auto simp: Let_def split: option.splits prod.splits)
qed

lemma store_answers_witness:
  "\<exists>s. vs_run ex_env ex_run vs_new = Some s \<and> fst (vs_Delete ''m'' s) \<and> \<not> fst (vs_Delete ''k'' s) \<and>
    fst (addEntry ex_env ''k'' [1, 2] no_attrs [] s) = Some (DimMismatch 1 2)"
proof -
  obtain s where s: "vs_run ex_env ex_run vs_new = Some s" using ex_run_ok(2) by blast
  have "ValidateKey ''k'' = None" "ValidateVector [1, 2] = None" by code_simp+
  with store_answers[OF ex_env_ok ex_run_ok(1) s] s show ?thesis by (simp add: ex_run_spec del: not_None_eq)
qed

text \<open>C27: Everything stored is well formed after every orderly run: vectors and rows have the dimension
  of the store, a segment has each key once and tables as long as its keys, the numbers of segments and
  deltas are fresh and distinct, an active key has no tombstone, a delta being flushed is not empty.\<close>

theorem store_well_formed:
  assumes "env_ok E" "orderly_run E evs vs_new" "vs_run E evs vs_new = Some s"
  shows "base_ok s"
  by (rule vinvD(1)[OF orderly_result(1)[OF assms]])

theorem store_well_formed_witness:
  "\<exists>s. vs_run ex_env ex_run vs_new = Some s \<and> base_ok s"
proof -
  obtain s where s: "vs_run ex_env ex_run vs_new = Some s" using ex_run_ok(2) by blast
  from store_well_formed[OF ex_env_ok ex_run_ok(1) s] s show ?thesis by simp
qed

subsection \<open>Search\<close>

text \<open>Exact searches to run the store with: the walk visits all nodes, the search in a segment all
  positions, in their order.\<close>

definition ex_walk :: "graph \<Rightarrow> f32 list \<Rightarrow> nat \<Rightarrow> nat \<Rightarrow> (nat \<times> f32) list" where
  "ex_walk g q K ef = take K (map (\<lambda>n. (n, hd (gvec (gnodes g ! n)))) (filter (\<lambda>n. galive (gnodes g ! n)) [0..<length (gnodes g)]))"

definition ex_senv :: senv where
  "ex_senv = \<lparr>se_ef = 100, se_strict = True, se_dist = (\<lambda>q v. hd v), se_walk = ex_walk, se_sort = (\<lambda>xs. xs), se_ranked = (\<lambda>xs. xs)\<rparr>"

definition ex_seg_search :: seg_search where
  "ex_seg_search seg q K ef cf =
     map (\<lambda>i. \<lparr>rkey = sg_keys seg ! i, rdist = hd (sg_rows seg ! i)\<rparr>)
       (filter (\<lambda>i. sg_keys seg ! i \<noteq> [] \<and> (case cf of None \<Rightarrow> True | Some f \<Rightarrow> f (sg_keys seg ! i))) [0..<length (sg_keys seg)])"

lemma ex_senv_ok: "sort_ok ex_senv" "walk_ok ex_senv"
proof -
  show "sort_ok ex_senv" by (simp add: sort_ok_def ex_senv_def)
  have "distinct (map fst (ex_walk g q K ef))" for g q K ef
    by (simp add: ex_walk_def take_map comp_def)
  moreover have "n < length (gnodes g) \<and> galive (gnodes g ! n) \<and> d = hd (gvec (gnodes g ! n))"
    if "(n, d) \<in> set (ex_walk g q K ef)" for n d g q K ef
    using in_set_takeD[OF that[unfolded ex_walk_def]] by auto
  moreover have "length (ex_walk g q K ef) \<le> K" for g q K ef by (simp add: ex_walk_def)
  moreover have "se_walk ex_senv = ex_walk" "se_dist ex_senv = (\<lambda>q v. hd v)" by (simp_all add: ex_senv_def)
  ultimately show "walk_ok ex_senv" unfolding walk_ok_def by (auto split: prod.splits)
qed

lemma ex_seg_search_ok: "seg_search_ok ex_senv dim (\<lambda>k x. True) ex_seg_search"
  unfolding seg_search_ok_def
proof (intro allI impI conjI)
  fix seg q K ef cf assume wf: "seg_wf dim seg"
  show "hits_ok (se_dist ex_senv q) (seg_doc seg) (pass cf (\<lambda>k x. True)) (ex_seg_search seg q K ef cf)"
  proof -
    have "seg_doc seg (sg_keys seg ! i) = Some (seg_at seg i)" if "i < length (sg_keys seg)" "sg_keys seg ! i \<noteq> []" for i
      using seg_doc_iff[OF wf] that by blast
    moreover have "fst (seg_at seg i) = sg_rows seg ! i" for i by (simp add: seg_at_def)
    ultimately show ?thesis
      by (auto simp: hits_ok_def ex_seg_search_def ex_senv_def pass_def split: option.splits simp del: split_paired_Ex)
  qed
  have "inj_on (\<lambda>i. sg_keys seg ! i) {i. i < length (sg_keys seg) \<and> sg_keys seg ! i \<noteq> []}"
    using unique_nonempty[of "sg_keys seg"] wf by (auto simp: inj_on_def seg_wf_def)
  then show "distinct (map rkey (ex_seg_search seg q K ef cf))"
    by (auto simp: ex_seg_search_def distinct_map comp_def inj_on_def)
qed



subsection \<open>What the schedule can do without them\<close>

text \<open>Two deltas are built at the same time and the newer one is published first; the older one then goes
  on top of it.\<close>

definition late_flush :: "vevent list" where
  "late_flush = [ex_add ''k'' 1] @ ex_swap @ [ex_add ''k'' 2] @ ex_swap @ [EApply 1, EApply 0]"

text \<open>A merge has left a deleted key out. The key has been written again since, swapped, and deleted
  again: the tombstone goes although the delta being flushed holds the key.\<close>

definition lost_tomb :: "vevent list" where
  "lost_tomb = [ex_add ''k'' 1] @ ex_swap @ [EApply 0, ex_add ''m'' 1] @ ex_swap @
     [EApply 0, EDelete ''k'', ESnap 0, ex_add ''k'' 2] @ ex_swap @ [EDelete ''k'', EApply 0]"

text \<open>The coordinator has read the epoch; the store is cleared and written; the new delta is swapped with
  the old epoch, and its flush is dropped as stale.\<close>

definition stale_swap :: "vevent list" where
  "stale_swap = [ex_add ''k'' 1, ERead, EClear, ex_add ''m'' 2, ESwap, ESched, EApply 0]"

definition get_after :: "vevent list \<Rightarrow> bytes \<Rightarrow> f32 list option option" where
  "get_after evs key = map_option (\<lambda>s. vs_Get s key) (vs_run ex_env evs vs_new)"

definition spec_after :: "vevent list \<Rightarrow> bytes \<Rightarrow> f32 list option" where
  "spec_after evs key = map_option fst (snd (fold spec_step evs (None, Map.empty)) key)"

text \<open>Each of the three conditions is needed, and the code enforces none of them: an older vector
  answers instead of the newer one, a deleted key answers again, a stored key is gone.\<close>

lemma schedule_conditions_needed:
  "get_after late_flush ''k'' = Some (Some [1]) \<and> spec_after late_flush ''k'' = Some [2] \<and>
   get_after lost_tomb ''k'' = Some (Some [2]) \<and> spec_after lost_tomb ''k'' = None \<and>
   get_after stale_swap ''m'' = Some None \<and> spec_after stale_swap ''m'' = Some [2]"
  by (intro conjI; code_simp)

end
