(* ===== verification/VecSync.thy ===== *)
theory VecSync
  imports VecRuns
begin

text \<open>
  \<open>FlushDeltaSync\<close> (\<open>vector/leveled_compaction.go\<close>): the call that waits until what the delta and the
  deltas being flushed hold at its start is in segments. It takes down their identities, asks for a swap
  of the delta, and sleeps on a condition; \<open>applyResult\<close> wakes it when a flush has ended. One such call
  runs beside the events of the store.
\<close>

subsection \<open>Writes and the keys they touch\<close>

fun is_write :: "vevent \<Rightarrow> bool" where
  "is_write (EAdd key vec a ts) \<longleftrightarrow> True"
| "is_write (EDelete key) \<longleftrightarrow> True"
| "is_write EClear \<longleftrightarrow> True"
| "is_write _ \<longleftrightarrow> False"

fun touched :: "nat \<Rightarrow> vevent list \<Rightarrow> bytes set" where
  "touched n [] = {}"
| "touched n (EAdd key vec a ts # evs) =
     (if ValidateKey key = None \<and> ValidateVector vec = None \<and> length vec = n then {key} else {}) \<union> touched n evs"
| "touched n (EDelete key # evs) = insert key (touched n evs)"
| "touched n (ev # evs) = touched n evs"

lemma spec_writes: "fold spec_step (filter is_write evs) sp = fold spec_step evs sp"
proof (induction evs arbitrary: sp)
  case (Cons ev evs)
  then show ?case by (cases ev; cases sp) simp_all
qed simp

text \<open>Two maps agree on the touched keys after the same writes, and keep what they had for the others.\<close>

lemma spec_replay:
  assumes "EClear \<notin> set evs"
  shows "\<exists>g g'. fold spec_step evs (Some n, m) = (Some n, g) \<and> fold spec_step evs (Some n, m') = (Some n, g') \<and>
    (\<forall>k. if k \<in> touched n evs then g k = g' k else g k = m k \<and> g' k = m' k)"
  using assms
proof (induction evs arbitrary: m m')
  case Nil
  then show ?case by simp
next
  case (Cons ev evs)
  have same: "\<exists>m1 m1'. spec_step ev (Some n, m) = (Some n, m1) \<and> spec_step ev (Some n, m') = (Some n, m1') \<and>
      (\<forall>k. if k \<in> touched n [ev] then m1 k = m1' k else m1 k = m k \<and> m1' k = m' k)"
    using Cons.prems by (cases ev) auto
  then obtain m1 m1' where m1: "spec_step ev (Some n, m) = (Some n, m1)" "spec_step ev (Some n, m') = (Some n, m1')"
    "\<And>k. if k \<in> touched n [ev] then m1 k = m1' k else m1 k = m k \<and> m1' k = m' k" by blast
  have t: "touched n (ev # evs) = touched n [ev] \<union> touched n evs" by (cases ev) auto
  from Cons.prems have "EClear \<notin> set evs" by simp
  from Cons.IH[OF this, of m1 m1'] obtain g g' where g: "fold spec_step evs (Some n, m1) = (Some n, g)"
    "fold spec_step evs (Some n, m1') = (Some n, g')"
    "\<And>k. if k \<in> touched n evs then g k = g' k else g k = m1 k \<and> g' k = m1' k" by blast
  have "if k \<in> touched n (ev # evs) then g k = g' k else g k = m k \<and> g' k = m' k" for k
    using g(3)[of k] m1(3)[of k] by (auto simp: t split: if_splits)
  with g(1,2) m1(1,2) show ?case by auto
qed

lemma spec_dim_pos: "fst sp \<noteq> Some 0 \<Longrightarrow> fst (fold spec_step evs sp) \<noteq> Some 0"
proof (induction evs arbitrary: sp)
  case (Cons ev evs)
  have "fst (spec_step ev sp) \<noteq> Some 0"
    using Cons.prems by (cases ev; cases sp) (auto simp: ValidateVector_def)
  from Cons.IH[OF this] show ?case by simp
qed simp

subsection \<open>The call\<close>

text \<open>\<open>target\<close> and \<open>pending\<close>, the pointers as the numbers of the deltas.\<close>

record sync_wait =
  sy_target :: "nat option"
  sy_pending :: "nat list"

definition sync_begin :: "vstore \<Rightarrow> sync_wait" where
  "sync_begin s =
     \<lparr>sy_target = (case v_delta s of None \<Rightarrow> None | Some d \<Rightarrow> if d_live d > 0 then Some (d_id d) else None),
      sy_pending = map d_id (v_flushing s)\<rparr>"

definition is_active :: "vstore \<Rightarrow> nat \<Rightarrow> bool" where
  "is_active s i \<longleftrightarrow> (case v_delta s of None \<Rightarrow> False | Some d \<Rightarrow> d_id d = i)"

definition id_flushing :: "vstore \<Rightarrow> nat \<Rightarrow> bool" where
  "id_flushing s i \<longleftrightarrow> i \<in> d_id ` set (v_flushing s)"

definition sync_done :: "sync_wait \<Rightarrow> vstore \<Rightarrow> bool" where
  "sync_done W s \<longleftrightarrow>
     (case sy_target W of None \<Rightarrow> True | Some i \<Rightarrow> \<not> is_active s i \<and> \<not> id_flushing s i) \<and>
     list_all (\<lambda>i. \<not> id_flushing s i) (sy_pending W)"

text \<open>A round of its loop: return, with the merges scheduled, or ask for the swap and sleep.\<close>

definition sync_look :: "venv \<Rightarrow> sync_wait \<Rightarrow> vstore \<Rightarrow> bool \<times> vstore" where
  "sync_look E W s =
     (if sync_done W s then (True, maybeScheduleMerges E (v_epoch s) s)
      else (False, case sy_target W of None \<Rightarrow> s | Some i \<Rightarrow> if is_active s i then s\<lparr>v_signal := True\<rparr> else s))"

subsection \<open>Runs with one call\<close>

datatype waiter = NotCalled | Asleep sync_wait | Awake sync_wait | Returned sync_wait

datatype sync_event = Store vevent | Call | Look

text \<open>The broadcast comes with the result of a flush, published or stale.\<close>

definition broadcasts :: "vevent \<Rightarrow> vstore \<Rightarrow> bool" where
  "broadcasts ev s \<longleftrightarrow>
     (case ev of
        EApply i \<Rightarrow> i < length (v_tasks s) \<and> (case v_tasks s ! i of FlushTask e d dim \<Rightarrow> True | _ \<Rightarrow> False)
      | _ \<Rightarrow> False)"

definition wake :: "bool \<Rightarrow> waiter \<Rightarrow> waiter" where
  "wake b w = (case w of Asleep W \<Rightarrow> if b then Awake W else Asleep W | _ \<Rightarrow> w)"

definition looked :: "sync_wait \<Rightarrow> bool \<times> vstore \<Rightarrow> vstore \<times> waiter" where
  "looked W r = (snd r, if fst r then Returned W else Asleep W)"

fun sync_step :: "venv \<Rightarrow> sync_event \<Rightarrow> vstore \<times> waiter \<Rightarrow> (vstore \<times> waiter) option" where
  "sync_step E (Store ev) (s, w) = map_option (\<lambda>s'. (s', wake (broadcasts ev s) w)) (vs_step E ev s)"
| "sync_step E Call (s, w) =
     (if w = NotCalled then Some (looked (sync_begin s) (sync_look E (sync_begin s) s)) else None)"
| "sync_step E Look (s, w) = (case w of Awake W \<Rightarrow> Some (looked W (sync_look E W s)) | _ \<Rightarrow> None)"

fun sync_run :: "venv \<Rightarrow> sync_event list \<Rightarrow> vstore \<times> waiter \<Rightarrow> (vstore \<times> waiter) option" where
  "sync_run E [] \<sigma> = Some \<sigma>"
| "sync_run E (x # xs) \<sigma> = (case sync_step E x \<sigma> of None \<Rightarrow> None | Some \<sigma>' \<Rightarrow> sync_run E xs \<sigma>')"

fun store_events :: "sync_event list \<Rightarrow> vevent list" where
  "store_events [] = []"
| "store_events (Store ev # xs) = ev # store_events xs"
| "store_events (x # xs) = store_events xs"

fun sync_orderly :: "venv \<Rightarrow> sync_event list \<Rightarrow> vstore \<times> waiter \<Rightarrow> bool" where
  "sync_orderly E [] \<sigma> \<longleftrightarrow> True"
| "sync_orderly E (x # xs) \<sigma> \<longleftrightarrow>
     (case x of Store ev \<Rightarrow> orderly ev (fst \<sigma>) | _ \<Rightarrow> True) \<and>
     (case sync_step E x \<sigma> of None \<Rightarrow> True | Some \<sigma>' \<Rightarrow> sync_orderly E xs \<sigma>')"

text \<open>The call changes neither the map nor the invariant.\<close>

lemma look_step:
  assumes "env_ok E" "vinv s"
  shows "vinv (snd (sync_look E W s))" "vs_abs (snd (sync_look E W s)) = vs_abs s"
  using schedule_step[OF assms] assms(2) by (auto simp: sync_look_def split: option.splits)

lemma sync_refines:
  assumes "env_ok E"
  shows "vinv s \<Longrightarrow> sync_orderly E xs (s, w) \<Longrightarrow> sync_run E xs (s, w) = Some (s', w') \<Longrightarrow>
    vinv s' \<and> vs_abs s' = fold spec_step (store_events xs) (vs_abs s)"
proof (induction xs arbitrary: s w)
  case Nil
  then show ?case by simp
next
  case (Cons x xs)
  from Cons.prems(3) obtain s1 w1 where s1: "sync_step E x (s, w) = Some (s1, w1)" "sync_run E xs (s1, w1) = Some (s', w')"
    by (auto split: option.splits)
  with Cons.prems(2) have ord: "case x of Store ev \<Rightarrow> orderly ev s | _ \<Rightarrow> True" "sync_orderly E xs (s1, w1)" by (auto split: sync_event.splits)
  have "vinv s1 \<and> vs_abs s1 = fold spec_step (store_events [x]) (vs_abs s)"
  proof (cases x)
    case (Store ev)
    with s1(1) have "vs_step E ev s = Some s1" by auto
    with store_step[OF assms Cons.prems(1) _ this] ord(1) Store show ?thesis by simp
  next
    case Call
    with s1(1) look_step[OF assms Cons.prems(1)] show ?thesis by (auto simp: looked_def split: if_splits)
  next
    case Look
    with s1(1) look_step[OF assms Cons.prems(1)] show ?thesis by (auto simp: looked_def split: waiter.splits)
  qed
  with Cons.IH[of s1 w1] ord(2) s1(2) show ?case by (cases x) simp_all
qed

subsection \<open>What the deltas hold\<close>

definition deltas :: "vstore \<Rightarrow> delta set" where
  "deltas s = set (v_flushing s) \<union> set_option (v_delta s)"

lemma schedule_frame [simp]:
  "v_delta (maybeScheduleMerges E e s) = v_delta s" "v_flushing (maybeScheduleMerges E e s) = v_flushing s"
  "v_next (maybeScheduleMerges E e s) = v_next s" "v_epoch (maybeScheduleMerges E e s) = v_epoch s"
  "v_signal (maybeScheduleMerges E e s) = v_signal s" "v_phase (maybeScheduleMerges E e s) = v_phase s"
proof -
  have "v_delta (sched_levels E e df ls s) = v_delta s \<and> v_flushing (sched_levels E e df ls s) = v_flushing s \<and>
    v_next (sched_levels E e df ls s) = v_next s \<and> v_epoch (sched_levels E e df ls s) = v_epoch s \<and>
    v_signal (sched_levels E e df ls s) = v_signal s \<and> v_phase (sched_levels E e df ls s) = v_phase s" for df ls
    by (cases df; induction ls arbitrary: s) (simp_all add: Let_def)
  then show "v_delta (maybeScheduleMerges E e s) = v_delta s" "v_flushing (maybeScheduleMerges E e s) = v_flushing s"
    "v_next (maybeScheduleMerges E e s) = v_next s" "v_epoch (maybeScheduleMerges E e s) = v_epoch s"
    "v_signal (maybeScheduleMerges E e s) = v_signal s" "v_phase (maybeScheduleMerges E e s) = v_phase s"
    by (simp_all add: maybeScheduleMerges_def)
qed

lemma schedule_adds: "\<exists>ms. v_tasks (maybeScheduleMerges E e s) = v_tasks s @ ms \<and> (\<forall>t \<in> set ms. \<exists>l segs. t = MergeTask l segs e None)"
proof -
  have "\<exists>ms. v_tasks (sched_levels E e df ls s) = v_tasks s @ ms \<and> (\<forall>t \<in> set ms. \<exists>l segs. t = MergeTask l segs e None)" for df ls
  proof (induction ls arbitrary: s)
    case (Cons l ls)
    let ?s = "s\<lparr>v_merging := (v_merging s)[l := True],
        v_tasks := v_tasks s @ [MergeTask l (take (nat (min (int (length (v_levels s ! l))) (MergeBatchMax (e_cfg E)))) (v_levels s ! l)) e None]\<rparr>"
    from Cons.IH[of ?s] Cons.IH[of s] show ?case by (auto simp: Let_def)
  qed simp
  then show ?thesis by (auto simp: maybeScheduleMerges_def)
qed

lemma after_frame [simp]:
  "v_delta (after_apply E e s) = v_delta s" "v_flushing (after_apply E e s) = v_flushing s"
  "v_next (after_apply E e s) = v_next s"
  by (auto simp: after_apply_def Let_def split: option.splits)

lemma removeFlushing_subset: "set (removeFlushing i ds) \<subseteq> set ds"
  by (induction ds) auto

lemma flush_frame:
  "v_delta (apply_flush E e d dim s) = v_delta s" "v_next s \<le> v_next (apply_flush E e d dim s)"
  "v_flushing (apply_flush E e d dim s) = removeFlushing (d_id d) (v_flushing s)"
  by (auto simp: apply_flush_def Let_def append_level_def put_level_def split: option.splits)

lemma merge_frame:
  "v_delta (apply_merge E l segs e dim ts s) = v_delta s" "v_next s \<le> v_next (apply_merge E l segs e dim ts s)"
  "v_flushing (apply_merge E l segs e dim ts s) = v_flushing s"
  by (auto simp: apply_merge_def Let_def append_level_def put_level_def clearAppliedTombstones_def split: option.splits prod.splits)

lemma cons_frame:
  "v_delta (apply_cons E l segs e dim ts s) = v_delta s" "v_next s \<le> v_next (apply_cons E l segs e dim ts s)"
  "v_flushing (apply_cons E l segs e dim ts s) = v_flushing s"
  by (auto simp: apply_cons_def Let_def append_level_def put_level_def clearAppliedTombstones_def split: option.splits prod.splits)

lemma result_frame:
  assumes "applyResult E i s = Some s'"
  shows "v_delta s' = v_delta s" "set (v_flushing s') \<subseteq> set (v_flushing s)" "v_next s \<le> v_next s'"
proof -
  let ?s0 = "s\<lparr>v_tasks := del_nth i (v_tasks s)\<rparr>"
  have "v_delta s' = v_delta s \<and> set (v_flushing s') \<subseteq> set (v_flushing s) \<and> v_next s \<le> v_next s'"
    using assms flush_frame[where s = ?s0] merge_frame[where s = ?s0] cons_frame[where s = ?s0]
    by (auto simp: applyResult_def Let_def split: if_splits task.splits option.splits dest!: subsetD[OF removeFlushing_subset])
  then show "v_delta s' = v_delta s" "set (v_flushing s') \<subseteq> set (v_flushing s)" "v_next s \<le> v_next s'" by blast+
qed

text \<open>A delta after a step is one from before, with at most the key that the step has written, or a new empty one.\<close>

definition comes_from :: "bytes set \<Rightarrow> vstore \<Rightarrow> delta \<Rightarrow> bool" where
  "comes_from T s d' \<longleftrightarrow>
     (\<exists>d \<in> deltas s. d_id d = d_id d' \<and> (\<forall>k. delta_view d' k \<noteq> None \<longrightarrow> delta_view d k \<noteq> None \<or> k \<in> T)) \<or>
     (v_next s \<le> d_id d' \<and> delta_view d' = Map.empty)"

lemma comes_from_same: "d \<in> deltas s \<Longrightarrow> comes_from T s d"
  by (auto simp: comes_from_def)

lemma step_deltas:
  assumes inv: "vinv s" and act: "v_delta s \<noteq> None" "v_dim s = n" and res: "vs_step E ev s = Some s'" and ev: "ev \<noteq> EClear"
  shows "(\<forall>d' \<in> deltas s'. comes_from (touched n [ev]) s d') \<and> v_next s \<le> v_next s' \<and>
    (\<forall>i. is_active s' i \<longrightarrow> is_active s i \<or> v_next s \<le> i)"
proof -
  have b: "base_ok s" using vinvD(1)[OF inv] .
  have same: ?thesis if "v_delta s' = v_delta s" "set (v_flushing s') \<subseteq> set (v_flushing s)" "v_next s \<le> v_next s'"
  proof -
    have "deltas s' \<subseteq> deltas s" using that(1,2) by (auto simp: deltas_def)
    then show ?thesis using that(1,3) comes_from_same by (auto simp: is_active_def)
  qed
  obtain d where d: "v_delta s = Some d" using act by blast
  note ac = active_Some[OF base_okD(1)[OF b] d]
  have put: ?thesis if d': "v_delta s' = Some d'" "d_id d' = d_id d" "v_flushing s' = v_flushing s" "v_next s' = v_next s"
    "\<And>k. delta_view d' k \<noteq> None \<Longrightarrow> delta_view d k \<noteq> None \<or> k \<in> touched n [ev]" for d'
  proof -
    have "d \<in> deltas s" using d by (simp add: deltas_def)
    then have "comes_from (touched n [ev]) s d'" using d'(2,5) by (auto simp: comes_from_def)
    moreover have "deltas s' \<subseteq> insert d' (deltas s)" using d' by (auto simp: deltas_def)
    ultimately show ?thesis using d' d comes_from_same by (auto simp: is_active_def)
  qed
  show ?thesis
  proof (cases ev)
    case (EAdd key vec a ts)
    show ?thesis
    proof (cases "ValidateKey key = None \<and> ValidateVector vec = None \<and> length vec = n")
      case False
      with res EAdd d act show ?thesis by (intro same) (auto simp: addEntry_def initDelta_def split: option.splits)
    next
      case True
      obtain full d' where app: "AppendDoc key vec a ts d = (full, d')" by fastforce
      have key: "key \<noteq> []" using True by (auto simp: ValidateKey_def split: if_splits)
      obtain new sh where sh: "shard_append key vec a ts (d_shards d ! delta_shardFor d key) = (new, sh)" by fastforce
      have "v_delta s' = Some d' \<and> v_flushing s' = v_flushing s \<and> v_next s' = v_next s"
        using res EAdd True d act app by (auto simp: addEntry_def initDelta_def Let_def)
      with AppendDoc_fields(3)[OF sh app] AppendDoc_ok(2)[OF ac(2) key app] EAdd True show ?thesis
        by (intro put[of d']) (auto split: if_splits)
    qed
  next
    case (EDelete key)
    obtain f d' where del: "delta_Delete key d = (f, d')" by fastforce
    have "v_delta s' = Some d' \<and> v_flushing s' = v_flushing s \<and> v_next s' = v_next s"
      using res EDelete d del by (auto simp: vs_Delete_def Let_def split: if_splits)
    with delta_Delete_ok(2,4)[OF ac(2) del] show ?thesis by (intro put[of d']) (auto split: if_splits)
  next
    case ESwap
    with res obtain e where s': "s' = compact_swap E e s" by (auto split: cphase.splits)
    show ?thesis
    proof (cases "d_live d = 0 \<or> must_wait s d")
      case True
      with d show ?thesis by (intro same) (simp_all add: s' compact_swap_def)
    next
      case False
      with d have "deltas s' = insert (fresh_delta E (v_next s) (v_dim s)) (deltas s)" "v_next s' = v_next s + 1"
        by (auto simp: s' compact_swap_def deltas_def)
      moreover have "is_active s' i \<Longrightarrow> i = v_next s" for i
        using False d by (simp add: s' compact_swap_def is_active_def)
      moreover have "comes_from (touched n [ev]) s (fresh_delta E (v_next s) (v_dim s))" by (simp add: comes_from_def)
      ultimately show ?thesis using comes_from_same by auto
    qed
  next
    case (EApply i)
    with res result_frame[of E i s s'] show ?thesis by (intro same) (auto split: if_splits)
  next
    case (ESnap i)
    with res show ?thesis by (intro same) (auto simp: merge_snap_def split: if_splits task.splits option.splits)
  next
    case EFlush
    with res show ?thesis by (intro same) (auto simp: vs_FlushDelta_def split: option.splits if_splits)
  next
    case ERead
    with res show ?thesis by (intro same) (auto simp: compact_read_def split: if_splits)
  next
    case ESched
    with res show ?thesis by (intro same) (auto simp: compact_sched_def split: cphase.splits)
  next
    case EIdle
    with res show ?thesis by (intro same) (auto simp: idle_tick_def Let_def split: if_splits)
  qed (use ev in simp)
qed

text \<open>After a call: a delta that was not among those it waits for holds only keys that were written since, and
  a number that has gone does not come back.\<close>

definition wait_ids :: "sync_wait \<Rightarrow> nat set" where
  "wait_ids W = set_option (sy_target W) \<union> set (sy_pending W)"

definition only_later :: "sync_wait \<Rightarrow> bytes set \<Rightarrow> vstore \<Rightarrow> bool" where
  "only_later W T s \<longleftrightarrow> (\<forall>i \<in> wait_ids W. i < v_next s) \<and> (\<forall>i \<in> set (sy_pending W). \<not> is_active s i) \<and>
     (\<forall>d \<in> deltas s. d_id d \<notin> wait_ids W \<longrightarrow> (\<forall>k. delta_view d k \<noteq> None \<longrightarrow> k \<in> T))"

definition all_gone :: "sync_wait \<Rightarrow> vstore \<Rightarrow> bool" where
  "all_gone W s \<longleftrightarrow> (\<forall>d \<in> deltas s. d_id d \<notin> wait_ids W)"

lemma begin_only_later:
  assumes "vinv s"
  shows "only_later (sync_begin s) {} s"
proof -
  have b: "base_ok s" using vinvD(1)[OF assms] .
  have "delta_view d = Map.empty" if "d \<in> deltas s" "d_id d \<notin> wait_ids (sync_begin s)" for d
  proof -
    have "v_delta s = Some d" "d_live d = 0"
      using that by (auto simp: deltas_def wait_ids_def sync_begin_def split: if_splits)
    with live_view[of d] active_Some(2)[OF base_okD(1)[OF b]] show ?thesis by blast
  qed
  moreover have "i < v_next s" if "i \<in> wait_ids (sync_begin s)" for i
    using that base_okD(4)[OF b] active_Some(3)[OF base_okD(1)[OF b]]
    by (auto simp: wait_ids_def sync_begin_def split: option.splits if_splits)
  moreover have "\<not> is_active s i" if "i \<in> set (sy_pending (sync_begin s))" for i
    using that active_Some(4)[OF base_okD(1)[OF b]] by (auto simp: sync_begin_def is_active_def split: option.splits)
  ultimately show ?thesis by (auto simp: only_later_def)
qed

lemma done_all_gone: "sync_done W s \<Longrightarrow> only_later W T s \<Longrightarrow> all_gone W s"
  by (auto simp: sync_done_def all_gone_def only_later_def deltas_def wait_ids_def is_active_def id_flushing_def list_all_iff
      split: option.splits)

lemma step_only_later:
  assumes later: "only_later W T s"
    and from_s: "\<forall>d' \<in> deltas s'. comes_from T' s d'" "v_next s \<le> v_next s'" "\<forall>i. is_active s' i \<longrightarrow> is_active s i \<or> v_next s \<le> i"
  shows "only_later W (T \<union> T') s'" "all_gone W s \<Longrightarrow> all_gone W s'"
proof -
  have old: "i < v_next s" if "i \<in> wait_ids W" for i using later that by (simp add: only_later_def)
  have keys: "k \<in> T \<union> T'" if x: "d' \<in> deltas s'" "d_id d' \<notin> wait_ids W" "delta_view d' k \<noteq> None" for d' k
  proof -
    have "comes_from T' s d'" using from_s(1) x(1) by blast
    then obtain d where "d \<in> deltas s" "d_id d = d_id d'" "delta_view d k \<noteq> None \<or> k \<in> T'"
      using x(3) by (auto simp: comes_from_def)
    with later x(2) show ?thesis by (auto simp: only_later_def)
  qed
  moreover have "\<not> is_active s' i" if "i \<in> set (sy_pending W)" for i
  proof -
    have "\<not> is_active s i" "i < v_next s" using that later by (auto simp: only_later_def wait_ids_def)
    then show ?thesis using from_s(3) by fastforce
  qed
  ultimately show "only_later W (T \<union> T') s'" using old from_s(2) by (fastforce simp: only_later_def)
  show "all_gone W s'" if "all_gone W s"
  proof -
    have "d_id d' \<notin> wait_ids W" if "d' \<in> deltas s'" for d'
    proof -
      have "comes_from T' s d'" using from_s(1) that by blast
      then show ?thesis using \<open>all_gone W s\<close> old by (fastforce simp: comes_from_def all_gone_def)
    qed
    then show ?thesis by (simp add: all_gone_def)
  qed
qed

text \<open>Along a run: what the deltas hold from before the call is in those it waits for; after its return there is none.\<close>

definition waiter_ok :: "bytes set \<Rightarrow> vstore \<Rightarrow> waiter \<Rightarrow> bool" where
  "waiter_ok T s w \<longleftrightarrow>
     (case w of
        NotCalled \<Rightarrow> True
      | Asleep W \<Rightarrow> only_later W T s
      | Awake W \<Rightarrow> only_later W T s
      | Returned W \<Rightarrow> only_later W T s \<and> all_gone W s)"

lemma frame_later:
  assumes "deltas s' = deltas s" "v_next s' = v_next s" "v_delta s' = v_delta s"
  shows "only_later W T s' \<longleftrightarrow> only_later W T s" "all_gone W s' \<longleftrightarrow> all_gone W s"
proof -
  have "is_active s' = is_active s" using assms(3) by (simp add: is_active_def fun_eq_iff)
  then show "only_later W T s' \<longleftrightarrow> only_later W T s" "all_gone W s' \<longleftrightarrow> all_gone W s"
    using assms by (simp_all add: only_later_def all_gone_def)
qed

lemma look_frame:
  "deltas (snd (sync_look E W s)) = deltas s" "v_next (snd (sync_look E W s)) = v_next s"
  "v_delta (snd (sync_look E W s)) = v_delta s"
  by (auto simp: sync_look_def deltas_def split: option.splits)

lemma look_waiter:
  assumes "only_later W T s" "looked W (sync_look E W s) = (s', w')"
  shows "waiter_ok T s' w'"
proof -
  have s': "s' = snd (sync_look E W s)" and w': "w' = (if sync_done W s then Returned W else Asleep W)"
    using assms(2) by (auto simp: looked_def sync_look_def split: if_splits)
  have "only_later W T s'" using assms(1) frame_later(1)[OF look_frame] by (simp add: s')
  moreover have "all_gone W s'" if "sync_done W s"
    using done_all_gone[OF that assms(1)] frame_later(2)[OF look_frame] by (simp add: s')
  ultimately show ?thesis by (simp add: w' waiter_ok_def)
qed

lemma only_later_mono: "only_later W T s \<Longrightarrow> T \<subseteq> T' \<Longrightarrow> only_later W T' s"
  by (fastforce simp: only_later_def)

lemma store_waiter:
  assumes "waiter_ok T s w" "\<forall>d' \<in> deltas s'. comes_from T' s d'" "v_next s \<le> v_next s'"
    "\<forall>i. is_active s' i \<longrightarrow> is_active s i \<or> v_next s \<le> i"
  shows "waiter_ok (T \<union> T') s' (wake b w)"
  using assms(1) step_only_later[OF _ assms(2-4)] by (auto simp: waiter_ok_def wake_def split: waiter.splits)

lemma touched_append: "touched n (xs @ ys) = touched n xs \<union> touched n ys"
proof (induction xs)
  case (Cons x xs)
  then show ?case by (cases x) auto
qed simp

lemma run_waiter:
  assumes env: "env_ok E"
  shows "vinv s \<Longrightarrow> vs_abs s = (Some n, m) \<Longrightarrow> waiter_ok T s w \<Longrightarrow> EClear \<notin> set (store_events xs) \<Longrightarrow>
    sync_orderly E xs (s, w) \<Longrightarrow> sync_run E xs (s, w) = Some (s', w') \<Longrightarrow> waiter_ok (T \<union> touched n (store_events xs)) s' w'"
proof (induction xs arbitrary: s w T m)
  case Nil
  then show ?case by simp
next
  case (Cons x xs)
  from Cons.prems(6) obtain s1 w1 where s1: "sync_step E x (s, w) = Some (s1, w1)" "sync_run E xs (s1, w1) = Some (s', w')"
    by (auto split: option.splits)
  have ord: "sync_orderly E [x] (s, w)" "sync_orderly E xs (s1, w1)"
    using Cons.prems(5) s1(1) by (auto split: sync_event.splits option.splits)
  have one: "sync_run E [x] (s, w) = Some (s1, w1)" using s1(1) by simp
  from sync_refines[OF env Cons.prems(1) ord(1) one] have abs: "vinv s1" "vs_abs s1 = fold spec_step (store_events [x]) (Some n, m)"
    using Cons.prems(2) by simp_all
  have nc: "EClear \<notin> set (store_events [x])" "EClear \<notin> set (store_events xs)" using Cons.prems(4) by (cases x; simp)+
  from spec_replay[OF nc(1), of n m m] obtain m1 where m1: "vs_abs s1 = (Some n, m1)" using abs(2) by auto
  have "waiter_ok (T \<union> touched n (store_events [x])) s1 w1"
  proof (cases x)
    case (Store ev)
    have ev: "vs_step E ev s = Some s1" "w1 = wake (broadcasts ev s) w" "ev \<noteq> EClear" using s1(1) Store nc(1) by auto
    have act: "v_delta s \<noteq> None" "v_dim s = n" using Cons.prems(2) by (auto simp: vs_abs_def)
    have "waiter_ok (T \<union> touched n [ev]) s1 (wake (broadcasts ev s) w)"
      using step_deltas[OF Cons.prems(1) act ev(1,3)] by (intro store_waiter[OF Cons.prems(3)]) blast+
    then show ?thesis using Store ev(2) by simp
  next
    case Call
    have "only_later (sync_begin s) T s" using begin_only_later[OF Cons.prems(1)] by (rule only_later_mono) simp
    moreover have "looked (sync_begin s) (sync_look E (sync_begin s) s) = (s1, w1)" using s1(1) Call by (simp split: if_splits)
    ultimately show ?thesis using Call look_waiter by simp
  next
    case Look
    then obtain W where W: "w = Awake W" "looked W (sync_look E W s) = (s1, w1)" using s1(1) by (auto split: waiter.splits)
    with Cons.prems(3) have "only_later W T s" by (simp add: waiter_ok_def)
    with W(2) Look show ?thesis using look_waiter by simp
  qed
  note later = Cons.IH[OF abs(1) m1 this nc(2) ord(2) s1(2)]
  have "store_events (x # xs) = store_events [x] @ store_events xs" by (cases x) simp_all
  then have "touched n (store_events (x # xs)) = touched n (store_events [x]) \<union> touched n (store_events xs)"
    by (simp only: touched_append)
  with later show ?case by (simp only: Un_assoc)
qed

definition pending :: "vstore \<Rightarrow> bytes \<Rightarrow> bool" where
  "pending s k \<longleftrightarrow> in_delta s k \<or> in_flushing s k"

lemma pending_delta: "pending s k \<longleftrightarrow> (\<exists>d \<in> deltas s. delta_view d k \<noteq> None)"
  by (auto simp: pending_def in_delta_def in_flushing_def deltas_def split: option.splits)

lemma returned_pending:
  assumes "waiter_ok T s (Returned W)" "pending s k"
  shows "k \<in> T"
  using assms by (auto simp: waiter_ok_def pending_delta only_later_def all_gone_def)

subsection \<open>What a return means\<close>

lemma sync_append:
  "sync_run E (xs @ ys) \<sigma> = (case sync_run E xs \<sigma> of None \<Rightarrow> None | Some \<sigma>' \<Rightarrow> sync_run E ys \<sigma>')"
  by (induction xs arbitrary: \<sigma>) (auto split: option.splits)

lemma orderly_append:
  "sync_orderly E (xs @ ys) \<sigma> \<longleftrightarrow>
     sync_orderly E xs \<sigma> \<and> (case sync_run E xs \<sigma> of None \<Rightarrow> True | Some \<sigma>' \<Rightarrow> sync_orderly E ys \<sigma>')"
  by (induction xs arbitrary: \<sigma>) (auto split: option.splits)

lemma events_append [simp]: "store_events (xs @ ys) = store_events xs @ store_events ys"
proof (induction xs)
  case (Cons x xs)
  then show ?case by (cases x) simp_all
qed simp

lemma events_Store [simp]: "store_events (map Store evs) = evs"
  by (induction evs) simp_all

lemma stores_not_called: "sync_run E (map Store evs) (s, NotCalled) = Some (s', w) \<Longrightarrow> w = NotCalled"
  by (induction evs arbitrary: s) (auto simp: wake_def split: option.splits)

lemma returned_run:
  assumes env: "env_ok E" and ord: "sync_orderly E (map Store evs @ xs) (vs_new, NotCalled)"
    and run: "sync_run E (map Store evs @ xs) (vs_new, NotCalled) = Some (s, Returned W)"
    and dim: "fst (fold spec_step evs (None, Map.empty)) = Some n" and nc: "EClear \<notin> set (store_events xs)"
  shows "vinv s" "vs_abs s = fold spec_step (evs @ store_events xs) (None, Map.empty)"
    "pending s k \<Longrightarrow> k \<in> touched n (store_events xs)"
proof -
  have start: "vinv vs_new" "vs_abs vs_new = (None, Map.empty)" by (rule new_vinv)+
  from sync_refines[OF env start(1) ord run]
  show "vinv s" "vs_abs s = fold spec_step (evs @ store_events xs) (None, Map.empty)" by (simp_all add: start(2))
  from run obtain s0 where s0: "sync_run E (map Store evs) (vs_new, NotCalled) = Some (s0, NotCalled)"
    "sync_run E xs (s0, NotCalled) = Some (s, Returned W)"
    by (auto simp: sync_append split: option.splits dest: stores_not_called)
  have ord0: "sync_orderly E (map Store evs) (vs_new, NotCalled)" "sync_orderly E xs (s0, NotCalled)"
    using ord by (simp_all add: orderly_append s0(1))
  from sync_refines[OF env start(1) ord0(1) s0(1)] have v0: "vinv s0" "vs_abs s0 = fold spec_step evs (None, Map.empty)"
    by (simp_all add: start(2))
  obtain m where m: "vs_abs s0 = (Some n, m)" using v0(2) dim by (cases "fold spec_step evs (None, Map.empty)") simp
  have "waiter_ok {} s0 NotCalled" by (simp add: waiter_ok_def)
  from run_waiter[OF env v0(1) m this nc ord0(2) s0(2)] show "pending s k \<Longrightarrow> k \<in> touched n (store_events xs)"
    using returned_pending by fastforce
qed


definition sync_example :: "sync_event list" where
  "sync_example = [Call, Store ERead, Store ESwap, Store (ex_add ''m'' 2), Store ESched, Store (EApply 0), Look]"


subsection \<open>Returning, and waiting for ever\<close>

text \<open>In a store at rest the call returns: the coordinator swaps the delta, its flush is applied and wakes the call,
  which finds no document left in a delta.\<close>

lemma flush_sync_returns:
  assumes "env_ok E" "orderly_run E evs vs_new" "vs_run E evs vs_new = Some s"
    and "v_phase s = CWait" "v_tasks s = []" "v_flushing s = []" "v_delta s = Some d" "d_live d > 0"
  shows "\<exists>s' W. sync_run E [Call, Store ERead, Store ESwap, Store ESched, Store (EApply 0), Look] (s, NotCalled) = Some (s', Returned W) \<and>
    v_flushing s' = [] \<and> (\<forall>k. \<not> in_delta s' k)"
proof -
  have b: "base_ok s" using vinvD(1)[OF orderly_result(1)[OF assms(1-3)]] .
  have id: "d_id d < v_next s" using active_Some(3)[OF base_okD(1)[OF b] assms(7)] .
  let ?W = "\<lparr>sy_target = Some (d_id d), sy_pending = []\<rparr>"
  have W: "sync_begin s = ?W" using assms(6-8) by (simp add: sync_begin_def)
  define s1 where "s1 = s\<lparr>v_signal := True\<rparr>"
  have c: "sync_step E Call (s, NotCalled) = Some (s1, Asleep ?W)"
    using assms(7) by (simp add: W looked_def sync_look_def sync_done_def is_active_def s1_def)
  define s2 where "s2 = compact_read s1"
  have r: "sync_step E (Store ERead) (s1, Asleep ?W) = Some (s2, Asleep ?W)"
    using assms(4) by (simp add: s1_def s2_def broadcasts_def wake_def)
  define s3 where "s3 = compact_swap E (v_epoch s) s2"
  have w: "sync_step E (Store ESwap) (s2, Asleep ?W) = Some (s3, Asleep ?W)"
    by (simp add: s2_def s3_def compact_read_def s1_def broadcasts_def wake_def)
  have s3: "v_delta s3 = Some (fresh_delta E (v_next s) (v_dim s))" "v_flushing s3 = [d]"
    "v_tasks s3 = [FlushTask (v_epoch s) d (v_dim s)]" "v_phase s3 = CSched (v_epoch s)"
    using assms(5-8) by (simp_all add: s3_def s2_def s1_def compact_read_def compact_swap_def must_wait_def flushingBacklogCap_def)
  define s4 where "s4 = compact_sched E (v_epoch s) s3"
  have sc: "sync_step E (Store ESched) (s3, Asleep ?W) = Some (s4, Asleep ?W)"
    by (simp add: s3(4) s4_def broadcasts_def wake_def)
  obtain more_tasks where s4: "v_tasks s4 = FlushTask (v_epoch s) d (v_dim s) # more_tasks" "v_phase s4 = CWait"
    "v_delta s4 = v_delta s3" "v_flushing s4 = [d]"
    using schedule_adds[of E "v_epoch s" s3] s3(2,3) by (auto simp: s4_def compact_sched_def)
  define s5 where "s5 = apply_flush E (v_epoch s) d (v_dim s) (s4\<lparr>v_tasks := del_nth 0 (v_tasks s4)\<rparr>)"
  have ap: "sync_step E (Store (EApply 0)) (s4, Asleep ?W) = Some (s5, Awake ?W)"
    using s4(1,2) by (simp add: applyResult_def s5_def broadcasts_def wake_def)
  have s5: "v_delta s5 = Some (fresh_delta E (v_next s) (v_dim s))" "v_flushing s5 = []"
    using s3(1) s4(3,4) by (simp_all add: s5_def flush_frame)
  then have fin: "sync_done ?W s5" using id by (simp add: sync_done_def is_active_def id_flushing_def)
  define s6 where "s6 = maybeScheduleMerges E (v_epoch s5) s5"
  have lk: "sync_step E Look (s5, Awake ?W) = Some (s6, Returned ?W)"
    using fin by (simp add: looked_def sync_look_def s6_def)
  have "v_flushing s6 = []" "\<forall>k. \<not> in_delta s6 k" using s5 by (simp_all add: s6_def in_delta_def)
  with c r w sc ap lk show ?thesis by (simp del: sync_step.simps)
qed

lemma flush_sync_returns_witness:
  "\<exists>s s' W. vs_run ex_env [ex_add ''k'' 1] vs_new = Some s \<and> v_flushing s' = [] \<and>
    sync_run ex_env [Call, Store ERead, Store ESwap, Store ESched, Store (EApply 0), Look] (s, NotCalled) = Some (s', Returned W)"
proof -
  have "map_option (\<lambda>s. (case v_phase s of CWait \<Rightarrow> True | _ \<Rightarrow> False) \<and> v_tasks s = [] \<and> v_flushing s = [] \<and>
      (case v_delta s of None \<Rightarrow> False | Some d \<Rightarrow> d_live d > 0)) (vs_run ex_env [ex_add ''k'' 1] vs_new) = Some True" by code_simp
  then obtain s where s: "vs_run ex_env [ex_add ''k'' 1] vs_new = Some s" "case v_phase s of CWait \<Rightarrow> True | _ \<Rightarrow> False"
    "v_tasks s = []" "v_flushing s = []" "case v_delta s of None \<Rightarrow> False | Some d \<Rightarrow> d_live d > 0"
    by (auto simp only: map_option_eq_Some)
  obtain d where d: "v_phase s = CWait" "v_delta s = Some d" "d_live d > 0"
    using s(2,5) by (cases "v_phase s"; cases "v_delta s") simp_all
  have "orderly_run ex_env [ex_add ''k'' 1] vs_new" by code_simp
  from flush_sync_returns[OF ex_env_ok this s(1) d(1) s(3,4) d(2,3)] s(1) show ?thesis by blast
qed

text \<open>A run after which the call sleeps and the coordinator has seen an empty delta.\<close>

definition stuck_run :: "sync_event list" where
  "stuck_run = [Store (ex_add ''k'' 1), Call, Store (EDelete ''k'')] @ map Store ex_swap"

definition no_adds :: "sync_event list \<Rightarrow> bool" where
  "no_adds xs \<longleftrightarrow> list_all (\<lambda>x. case x of Store (EAdd key vec a ts) \<Rightarrow> False | _ \<Rightarrow> True) xs"

definition flush_free :: "vstore \<Rightarrow> bool" where
  "flush_free s \<longleftrightarrow> (\<forall>t \<in> set (v_tasks s). case t of FlushTask e d dim \<Rightarrow> False | _ \<Rightarrow> True)"

definition nothing_active :: "vstore \<Rightarrow> bool" where
  "nothing_active s \<longleftrightarrow> (case v_delta s of None \<Rightarrow> True | Some d \<Rightarrow> delta_ok d \<and> d_live d = 0)"

lemma flush_free_schedule: "flush_free (maybeScheduleMerges E e s) \<longleftrightarrow> flush_free s"
proof -
  obtain ms where ms: "v_tasks (maybeScheduleMerges E e s) = v_tasks s @ ms" "\<And>t. t \<in> set ms \<Longrightarrow> \<exists>l segs. t = MergeTask l segs e None"
    using schedule_adds by blast
  have "case t of FlushTask e d dim \<Rightarrow> False | _ \<Rightarrow> True" if "t \<in> set ms" for t using ms(2)[OF that] by auto
  then show ?thesis by (auto simp: flush_free_def ms(1))
qed

lemma flush_free_after: "flush_free (after_apply E e s) \<longleftrightarrow> flush_free s"
proof -
  have "v_tasks (after_apply E e s) = v_tasks (maybeScheduleMerges E e s)"
    by (auto simp: after_apply_def Let_def split: option.splits)
  then show ?thesis using flush_free_schedule by (simp add: flush_free_def)
qed

lemma flush_free_simps [simp]:
  "flush_free (clearAppliedTombstones applied i s) = flush_free s" "flush_free (append_level l segs s) = flush_free s"
  "flush_free (put_level l refs s) = flush_free s" "flush_free (s\<lparr>v_merging := m\<rparr>) = flush_free s"
  "flush_free (s\<lparr>v_cons := c\<rparr>) = flush_free s" "flush_free (s\<lparr>v_levels := ls\<rparr>) = flush_free s"
  "flush_free (s\<lparr>v_signal := b\<rparr>) = flush_free s" "flush_free (s\<lparr>v_phase := p\<rparr>) = flush_free s"
  by (simp_all add: flush_free_def clearAppliedTombstones_def append_level_def put_level_def)

lemma flush_free_merge: "flush_free s \<Longrightarrow> flush_free (apply_merge E l segs e dim ts s)"
  by (auto simp: apply_merge_def Let_def flush_free_after split: option.splits prod.splits)

lemma flush_free_cons: "flush_free s \<Longrightarrow> flush_free (apply_cons E l segs e dim ts s)"
  by (auto simp: apply_cons_def Let_def flush_free_after split: option.splits prod.splits)

lemma flush_free_result:
  assumes "flush_free s" "applyResult E i s = Some s'"
  shows "flush_free s'"
proof -
  let ?s0 = "s\<lparr>v_tasks := del_nth i (v_tasks s)\<rparr>"
  have "set (del_nth i (v_tasks s)) \<subseteq> set (v_tasks s)" by (auto simp: del_nth_def dest: in_set_takeD in_set_dropD)
  with assms(1) have s0: "flush_free ?s0" by (auto simp: flush_free_def)
  have i: "i < length (v_tasks s)" using assms(2) by (auto simp: applyResult_def split: if_splits)
  with assms(1) have "case v_tasks s ! i of FlushTask e d dim \<Rightarrow> False | _ \<Rightarrow> True" by (simp add: flush_free_def)
  with assms(2) i show ?thesis
    by (auto simp: applyResult_def Let_def flush_free_merge[OF s0] flush_free_cons[OF s0] split: task.splits option.splits)
qed

lemma stuck_step:
  assumes free: "flush_free s" and act: "nothing_active s" and ev: "\<And>key vec a ts. ev \<noteq> EAdd key vec a ts"
    and res: "vs_step E ev s = Some s'"
  shows "flush_free s' \<and> nothing_active s' \<and> \<not> broadcasts ev s"
proof (cases ev)
  case (EDelete key)
  show ?thesis
  proof (cases "v_delta s")
    case None
    with res EDelete free show ?thesis
      by (auto simp: vs_Delete_def Let_def nothing_active_def flush_free_def broadcasts_def split: if_splits)
  next
    case (Some d)
    obtain f d' where del: "delta_Delete key d = (f, d')" by fastforce
    have d: "delta_ok d" "d_live d = 0" using act Some by (simp_all add: nothing_active_def)
    note dd = delta_Delete_ok(1,2)[OF d(1) del]
    have "d_live d' = 0" using live_view[OF d(1)] live_view[OF dd(1)] d(2) dd(2) by auto
    moreover have "v_delta s' = Some d' \<and> v_tasks s' = v_tasks s"
      using res EDelete Some del by (auto simp: vs_Delete_def Let_def split: if_splits)
    ultimately show ?thesis using free dd(1) EDelete by (simp add: nothing_active_def flush_free_def broadcasts_def)
  qed
next
  case EClear
  with res free show ?thesis by (auto simp: vs_Clear_def nothing_active_def flush_free_def broadcasts_def)
next
  case EFlush
  with res free act show ?thesis by (auto simp: vs_FlushDelta_def nothing_active_def broadcasts_def split: option.splits)
next
  case ERead
  with res free act show ?thesis by (auto simp: compact_read_def nothing_active_def flush_free_def broadcasts_def split: if_splits)
next
  case ESwap
  with res free act show ?thesis
    by (auto simp: compact_swap_def nothing_active_def broadcasts_def split: cphase.splits option.splits)
next
  case ESched
  with res free act show ?thesis
    by (auto simp: compact_sched_def nothing_active_def flush_free_schedule broadcasts_def split: cphase.splits)
next
  case (ESnap i)
  with res have "v_delta s' = v_delta s" by (auto simp: merge_snap_def split: if_splits task.splits option.splits)
  moreover have "flush_free s'"
  proof -
    obtain t where "v_tasks s' = (v_tasks s)[i := t]" "case t of FlushTask e d dim \<Rightarrow> False | _ \<Rightarrow> True"
      using res ESnap by (auto simp: merge_snap_def split: if_splits task.splits option.splits)
    with free set_update_subset_insert[of "v_tasks s" i t] show ?thesis by (auto simp: flush_free_def)
  qed
  ultimately show ?thesis using act ESnap by (simp add: nothing_active_def broadcasts_def)
next
  case (EApply i)
  with res have r: "applyResult E i s = Some s'" by (auto split: if_splits)
  have "\<not> broadcasts ev s" using free EApply by (auto simp: broadcasts_def flush_free_def split: task.splits)
  moreover have "nothing_active s'" using act result_frame(1)[OF r] by (simp add: nothing_active_def)
  ultimately show ?thesis using flush_free_result[OF free r] by blast
next
  case EIdle
  with res free act show ?thesis
    by (auto simp: idle_tick_def Let_def nothing_active_def flush_free_def broadcasts_def split: if_splits option.splits)
qed (use ev in blast)

lemma stuck_for_ever:
  "flush_free s \<Longrightarrow> nothing_active s \<Longrightarrow> no_adds xs \<Longrightarrow> sync_run E xs (s, Asleep W) = Some (s', w) \<Longrightarrow> w = Asleep W"
proof (induction xs arbitrary: s)
  case (Cons x xs)
  then obtain ev where x: "x = Store ev" by (cases x) auto
  with Cons.prems(4) obtain s1 where s1: "vs_step E ev s = Some s1" "sync_run E xs (s1, wake (broadcasts ev s) (Asleep W)) = Some (s', w)"
    by (auto split: option.splits)
  have ev: "ev \<noteq> EAdd key vec a ts" for key vec a ts using Cons.prems(3) x by (auto simp: no_adds_def)
  from stuck_step[OF Cons.prems(1,2) ev s1(1)] s1(2) Cons.IH[of s1] Cons.prems(3) show ?case
    by (simp add: wake_def no_adds_def)
qed simp

text \<open>C35: It can also wait for ever. The call sleeps, its delta is emptied by a deletion before the coordinator takes the
  signal, and the coordinator leaves an empty delta without waking anybody: from then on nothing that is not an insertion
  ends the wait, in any order.\<close>

theorem flush_sync_hangs:
  assumes "no_adds xs" "sync_run ex_env (stuck_run @ xs) (vs_new, NotCalled) = Some (s, w)"
  shows "\<exists>W. w = Asleep W"
proof -
  obtain s0 w0 where s0: "sync_run ex_env stuck_run (vs_new, NotCalled) = Some (s0, w0)" "sync_run ex_env xs (s0, w0) = Some (s, w)"
    using assms(2) by (auto simp: sync_append split: option.splits)
  have "map_option (\<lambda>(s, w). (case w of Asleep W \<Rightarrow> True | _ \<Rightarrow> False) \<and> v_tasks s = [] \<and>
      (case v_delta s of None \<Rightarrow> True | Some d \<Rightarrow> d_live d = 0)) (sync_run ex_env stuck_run (vs_new, NotCalled)) = Some True"
    by code_simp
  then have st: "case w0 of Asleep W \<Rightarrow> True | _ \<Rightarrow> False" "v_tasks s0 = []" "case v_delta s0 of None \<Rightarrow> True | Some d \<Rightarrow> d_live d = 0"
    by (simp_all add: s0(1))
  obtain W where W: "w0 = Asleep W" using st(1) by (cases w0) simp_all
  have "sync_orderly ex_env stuck_run (vs_new, NotCalled)" by code_simp
  from sync_refines[OF ex_env_ok new_vinv(1) this s0(1)] have "base_ok s0" by (blast dest: vinvD(1))
  then have "nothing_active s0" using st(3) active_Some(2)[OF base_okD(1)] by (auto simp: nothing_active_def split: option.splits)
  moreover have "flush_free s0" by (simp add: flush_free_def st(2))
  ultimately show ?thesis using stuck_for_ever[OF _ _ assms(1)] s0(2) W by blast
qed

theorem flush_sync_hangs_witness:
  "\<exists>s W. sync_run ex_env (stuck_run @ [Store EFlush, Store EIdle, Store EIdle]) (vs_new, NotCalled) = Some (s, Asleep W)"
proof -
  have "map_option (\<lambda>_. True) (sync_run ex_env (stuck_run @ [Store EFlush, Store EIdle, Store EIdle]) (vs_new, NotCalled)) = Some True" by code_simp
  then obtain s w where s: "sync_run ex_env (stuck_run @ [Store EFlush, Store EIdle, Store EIdle]) (vs_new, NotCalled) = Some (s, w)"
    by (auto simp only: map_option_eq_Some)
  have "no_adds [Store EFlush, Store EIdle, Store EIdle]" by (simp add: no_adds_def)
  from flush_sync_hangs[OF this s] s show ?thesis by blast
qed

end
