(* ===== verification/VecCodec.thy ===== *)
theory VecCodec
  imports VecSeg
begin

text \<open>
  The byte formats of documents (\<open>vector/codec.go\<close>, \<open>attr_durability.go\<close>, \<open>bm25_durability.go\<close>,
  \<open>doc_batch.go\<close>) and the budget of the snapshot readers (\<open>snapshot_budget.go\<close>). A reader takes the bytes
  that are left and gives a value and the rest, an error, or a crash: \<open>make\<close> with a count that the
  machine cannot serve ends the process. How large a count it can serve is a parameter.
\<close>

subsection \<open>Readers\<close>

datatype rd_error = ShortRead | Corrupt | BadTerms | BadText | BadMeta | BadDocs | Encrypted | BadMagic |
  BadVersion | BadLevels | BadSegType | BadCRC | Overflow | Implausible

datatype 'a rres = Got 'a bytes | Bad rd_error | Crash

record rd_env =
  budget :: bool
  big :: nat

definition rbind :: "'a rres \<Rightarrow> ('a \<Rightarrow> bytes \<Rightarrow> 'b rres) \<Rightarrow> 'b rres" where
  "rbind m f = (case m of Got x r \<Rightarrow> f x r | Bad e \<Rightarrow> Bad e | Crash \<Rightarrow> Crash)"

text \<open>\<open>io.ReadFull\<close>, \<open>make\<close>, and \<open>needBytes\<close>: with a budget, \<open>n\<close> things of at least \<open>m\<close> bytes (one at the
  least) must fit into what is left.\<close>

definition readFull :: "nat \<Rightarrow> bytes \<Rightarrow> bytes rres" where
  "readFull n bs = (if length bs < n then Bad ShortRead else Got (take n bs) (drop n bs))"

definition go_make :: "rd_env \<Rightarrow> nat \<Rightarrow> 'a rres \<Rightarrow> 'a rres" where
  "go_make E n k = (if n > big E then Crash else k)"

definition needBytes :: "rd_env \<Rightarrow> nat \<Rightarrow> nat \<Rightarrow> bytes \<Rightarrow> 'a rres \<Rightarrow> 'a rres" where
  "needBytes E n m bs k = (if budget E \<and> n > length bs div (if m < 1 then 1 else m) then Bad Corrupt else k)"

fun read_n :: "(bytes \<Rightarrow> 'a rres) \<Rightarrow> nat \<Rightarrow> bytes \<Rightarrow> 'a list rres" where
  "read_n rd 0 bs = Got [] bs"
| "read_n rd (Suc n) bs = rbind (rd bs) (\<lambda>x r. rbind (read_n rd n r) (\<lambda>xs r'. Got (x # xs) r'))"

subsection \<open>Numbers and strings\<close>

definition putU32 :: "32 word \<Rightarrow> bytes" where
  "putU32 w = le_enc 4 (unat w)"

definition getU32 :: "bytes \<Rightarrow> (32 word) rres" where
  "getU32 bs = rbind (readFull 4 bs) (\<lambda>d r. Got (word_of_nat (le_dec d)) r)"

definition putU16 :: "16 word \<Rightarrow> bytes" where
  "putU16 w = le_enc 2 (unat w)"

definition getU16 :: "bytes \<Rightarrow> (16 word) rres" where
  "getU16 bs = rbind (readFull 2 bs) (\<lambda>d r. Got (word_of_nat (le_dec d)) r)"

definition putU64 :: "64 word \<Rightarrow> bytes" where
  "putU64 w = le_enc 8 (unat w)"

definition getU64 :: "bytes \<Rightarrow> (64 word) rres" where
  "getU64 bs = rbind (readFull 8 bs) (\<lambda>d r. Got (word_of_nat (le_dec d)) r)"

text \<open>\<open>uint32(len(s))\<close> drops what does not fit.\<close>

definition put_len :: "'a list \<Rightarrow> bytes" where
  "put_len xs = putU32 (word_of_nat (length xs))"

definition writeStr :: "bytes \<Rightarrow> bytes" where
  "writeStr s = put_len s @ s"

definition readStr :: "rd_env \<Rightarrow> bytes \<Rightarrow> bytes rres" where
  "readStr E bs =
     rbind (getU32 bs) (\<lambda>n r.
       if n = 0 then Got [] r
       else needBytes E (unat n) 1 r (go_make E (unat n) (readFull (unat n) r)))"

subsection \<open>Attributes and terms\<close>

definition cat_pair :: "(bytes, bytes) gomap \<Rightarrow> bytes \<Rightarrow> bytes \<times> bytes" where
  "cat_pair m n = (n, case map_of m n of None \<Rightarrow> [] | Some v \<Rightarrow> v)"

definition num_pair :: "(bytes, f64) gomap \<Rightarrow> bytes \<Rightarrow> bytes \<times> f64" where
  "num_pair m n = (n, case map_of m n of None \<Rightarrow> 0 | Some v \<Rightarrow> v)"

definition write_cat :: "bytes \<times> bytes \<Rightarrow> bytes" where
  "write_cat p = writeStr (fst p) @ writeStr (snd p)"

definition write_num :: "bytes \<times> f64 \<Rightarrow> bytes" where
  "write_num p = writeStr (fst p) @ putU64 (snd p)"

definition read_cat :: "rd_env \<Rightarrow> bytes \<Rightarrow> (bytes \<times> bytes) rres" where
  "read_cat E bs = rbind (readStr E bs) (\<lambda>n r. rbind (readStr E r) (\<lambda>v r'. Got (n, v) r'))"

definition read_num :: "rd_env \<Rightarrow> bytes \<Rightarrow> (bytes \<times> f64) rres" where
  "read_num E bs = rbind (readStr E bs) (\<lambda>n r. rbind (getU64 r) (\<lambda>v r'. Got (n, v) r'))"

text \<open>\<open>writeAttrs\<close>: the names in sorted order; \<open>readAttrs\<close> fills maps.\<close>

definition writeAttrs :: "attributes \<Rightarrow> bytes" where
  "writeAttrs a =
     put_len (Cat a) @ concat (map (write_cat \<circ> cat_pair (Cat a)) (sort (map fst (Cat a)))) @
     put_len (Num a) @ concat (map (write_num \<circ> num_pair (Num a)) (sort (map fst (Num a))))"

definition fill_map :: "('k \<times> 'v) list \<Rightarrow> ('k, 'v) gomap" where
  "fill_map ps = foldl (\<lambda>m (k, v). AList.update k v m) [] ps"

definition readAttrs :: "rd_env \<Rightarrow> bytes \<Rightarrow> attributes rres" where
  "readAttrs E bs =
     rbind (getU32 bs) (\<lambda>nCat r1.
     needBytes E (unat nCat) 8 r1 (go_make E (unat nCat) (
     rbind (read_n (read_cat E) (unat nCat) r1) (\<lambda>cs r2.
     rbind (getU32 r2) (\<lambda>nNum r3.
     needBytes E (unat nNum) 12 r3 (go_make E (unat nNum) (
     rbind (read_n (read_num E) (unat nNum) r3) (\<lambda>ns r4.
     Got \<lparr>Cat = fill_map cs, Num = fill_map ns\<rparr> r4))))))))"

definition write_term :: "term_tf \<Rightarrow> bytes" where
  "write_term t = writeStr (Term t) @ putU16 (TF t)"

definition writeTerms :: "term_tf list \<Rightarrow> bytes" where
  "writeTerms ts = put_len ts @ concat (map write_term ts)"

text \<open>\<open>readTerms\<close> checks every term against the one before.\<close>

fun read_terms :: "rd_env \<Rightarrow> nat \<Rightarrow> bytes option \<Rightarrow> bytes \<Rightarrow> term_tf list rres" where
  "read_terms E 0 prev bs = Got [] bs"
| "read_terms E (Suc n) prev bs =
     rbind (readStr E bs) (\<lambda>t r1.
     rbind (getU16 r1) (\<lambda>tf r2.
     if t = [] \<or> tf = 0 then Bad BadTerms
     else if (case prev of None \<Rightarrow> False | Some p \<Rightarrow> t \<le> p) then Bad BadTerms
     else rbind (read_terms E n (Some t) r2) (\<lambda>ts r3. Got (\<lparr>Term = t, TF = tf\<rparr> # ts) r3)))"

definition readTerms :: "rd_env \<Rightarrow> bytes \<Rightarrow> term_tf list rres" where
  "readTerms E bs =
     rbind (getU32 bs) (\<lambda>n r.
       if n = 0 then Got [] r
       else needBytes E (unat n) 6 r (go_make E (unat n) (read_terms E (unat n) None r)))"

subsection \<open>Vectors and documents\<close>

definition SerializeVector :: "f32 list \<Rightarrow> bytes" where
  "SerializeVector v = concat (map putU32 v)"

definition DeserializeVector :: "bytes \<Rightarrow> f32 list" where
  "DeserializeVector bs = map (\<lambda>i. word_of_nat (le_dec (take 4 (drop (4 * i) bs)))) [0..<length bs div 4]"

definition SerializeVectorWithAttrs :: "f32 list \<Rightarrow> attributes \<Rightarrow> bytes" where
  "SerializeVectorWithAttrs v a = put_len v @ concat (map putU32 v) @ writeAttrs a"

definition appendVectorWithDoc :: "bytes \<Rightarrow> f32 list \<Rightarrow> attributes \<Rightarrow> term_tf list \<Rightarrow> bytes" where
  "appendVectorWithDoc dst v a ts = dst @ put_len v @ concat (map putU32 v) @ writeAttrs a @ writeTerms ts"

definition SerializeVectorWithDoc :: "f32 list \<Rightarrow> attributes \<Rightarrow> term_tf list \<Rightarrow> bytes" where
  "SerializeVectorWithDoc v a ts = appendVectorWithDoc [] v a ts"

text \<open>The blobs of the journal are read without a budget.\<close>

definition read_vector :: "rd_env \<Rightarrow> bytes \<Rightarrow> f32 list rres" where
  "read_vector E bs = rbind (getU32 bs) (\<lambda>n r. go_make E (unat n) (read_n getU32 (unat n) r))"

definition DeserializeVectorWithAttrs :: "rd_env \<Rightarrow> bytes \<Rightarrow> (f32 list \<times> attributes) rres" where
  "DeserializeVectorWithAttrs E bs =
     (let E' = E\<lparr>budget := False\<rparr> in
      rbind (read_vector E' bs) (\<lambda>v r1. rbind (readAttrs E' r1) (\<lambda>a r2. Got (v, a) r2)))"

definition DeserializeVectorWithDoc :: "rd_env \<Rightarrow> bytes \<Rightarrow> (f32 list \<times> attributes \<times> term_tf list) rres" where
  "DeserializeVectorWithDoc E bs =
     (let E' = E\<lparr>budget := False\<rparr> in
      rbind (read_vector E' bs) (\<lambda>v r1.
      rbind (readAttrs E' r1) (\<lambda>a r2.
      rbind (readTerms E' r2) (\<lambda>ts r3. Got (v, a, ts) r3))))"

subsection \<open>Batches of documents\<close>

text \<open>\<open>binary.PutUvarint\<close> and \<open>binary.ReadUvarint\<close>; the bits of two digits do not overlap.\<close>

fun put_uvarint :: "nat \<Rightarrow> bytes" where
  "put_uvarint v = (if v < 128 then [byte_of v] else byte_of (v mod 128 + 128) # put_uvarint (v div 128))"

declare put_uvarint.simps [simp del]

fun read_uvarint :: "nat \<Rightarrow> nat \<Rightarrow> bytes \<Rightarrow> nat rres" where
  "read_uvarint i x [] = (if i \<ge> 10 then Bad Overflow else Bad ShortRead)"
| "read_uvarint i x (c # cs) =
     (if i \<ge> 10 then Bad Overflow
      else (let b = nat_of_byte c in
        if b < 128 then (if i = 9 \<and> b > 1 then Bad Overflow else Got (x + b * 2 ^ (7 * i)) cs)
        else read_uvarint (Suc i) (x + b mod 128 * 2 ^ (7 * i)) cs))"

definition write_doc :: "delta_entry \<Rightarrow> bytes" where
  "write_doc d =
     (let blob = SerializeVectorWithDoc (Vec d) (Attrs d) (Terms d) in
      put_uvarint (length (Key d)) @ Key d @ put_uvarint (length blob) @ blob)"

definition SerializeDocBatch :: "delta_entry list \<Rightarrow> bytes" where
  "SerializeDocBatch ds = put_uvarint (length ds) @ concat (map write_doc ds)"

definition read_doc :: "rd_env \<Rightarrow> bytes \<Rightarrow> delta_entry rres" where
  "read_doc E bs =
     rbind (read_uvarint 0 0 bs) (\<lambda>kl r1.
     go_make E kl (rbind (readFull kl r1) (\<lambda>key r2.
     rbind (read_uvarint 0 0 r2) (\<lambda>bl r3.
     go_make E bl (rbind (readFull bl r3) (\<lambda>blob r4.
     case DeserializeVectorWithDoc E blob of
       Got (v, a, ts) left \<Rightarrow> Got \<lparr>Key = key, Vec = v, Attrs = a, Terms = ts\<rparr> r4
     | Bad e \<Rightarrow> Bad e
     | Crash \<Rightarrow> Crash))))))"

definition DeserializeDocBatch :: "rd_env \<Rightarrow> bytes \<Rightarrow> delta_entry list rres" where
  "DeserializeDocBatch E bs =
     rbind (read_uvarint 0 0 bs) (\<lambda>n r.
       if n > 2 ^ 20 then Bad Implausible else go_make E n (read_n (read_doc E) n r))"

subsection \<open>Reading back what was written\<close>

lemma rbind_simps [simp]:
  "rbind (Got x r) f = f x r" "rbind (Bad e) f = Bad e" "rbind Crash f = Crash"
  by (simp_all add: rbind_def)

lemma readFull_append [simp]: "n = length d \<Longrightarrow> readFull n (d @ rest) = Got d rest"
  by (simp add: readFull_def)

lemma put_lengths [simp]:
  "length (putU16 u) = 2" "length (putU32 w) = 4" "length (putU64 v) = 8" "length (put_len xs) = 4"
  by (simp_all add: putU16_def putU32_def putU64_def put_len_def)

lemma unat_bounds: "unat (u :: 16 word) < 256 ^ 2" "unat (w :: 32 word) < 256 ^ 4" "unat (v :: 64 word) < 256 ^ 8"
  by (rule order_less_le_trans, rule unsigned_less, simp)+

lemma get_put [simp]:
  "getU16 (putU16 u @ rest) = Got u rest" "getU32 (putU32 w @ rest) = Got w rest" "getU64 (putU64 v @ rest) = Got v rest"
  unfolding getU16_def putU16_def getU32_def putU32_def getU64_def putU64_def
  by (simp_all add: le_dec_enc[OF unat_bounds(1)] le_dec_enc[OF unat_bounds(2)] le_dec_enc[OF unat_bounds(3)])

lemma get_put_len [simp]: "getU32 (put_len xs @ rest) = Got (word_of_nat (length xs)) rest"
  by (simp add: put_len_def)

lemma unat_len [simp]: "n < 2 ^ 32 \<Longrightarrow> unat (word_of_nat n :: 32 word) = n"
  by (simp add: unat_of_nat take_bit_nat_eq_self)

lemma len_zero: "n < 2 ^ 32 \<Longrightarrow> (word_of_nat n :: 32 word) = 0 \<longleftrightarrow> n = 0"
proof -
  assume n: "n < 2 ^ 32"
  have "(word_of_nat n :: 32 word) = 0 \<longleftrightarrow> unat (word_of_nat n :: 32 word) = 0" by (simp only: unsigned_eq_0_iff)
  then show ?thesis by (simp only: unat_len[OF n])
qed

lemma make_ok [simp]: "n \<le> big E \<Longrightarrow> go_make E n k = k"
  by (simp add: go_make_def)

lemma needBytes_ok: "n * m \<le> length bs \<Longrightarrow> 0 < m \<Longrightarrow> needBytes E n m bs k = k"
  using less_eq_div_iff_mult_less_eq[of m n "length bs"] by (simp add: needBytes_def)

text \<open>A length that fits into its four bytes and that the machine can serve.\<close>

definition len_fits :: "rd_env \<Rightarrow> 'a list \<Rightarrow> bool" where
  "len_fits E xs \<longleftrightarrow> length xs < 2 ^ 32 \<and> length xs \<le> big E"

lemma len_fits_simps [simp]: "len_fits E xs \<Longrightarrow> unat (word_of_nat (length xs) :: 32 word) = length xs"
  "len_fits E xs \<Longrightarrow> go_make E (length xs) k = k"
  "len_fits E xs \<Longrightarrow> (word_of_nat (length xs) :: 32 word) = 0 \<longleftrightarrow> xs = []"
  by (simp_all add: len_fits_def len_zero)

text \<open>A format: what is written is read back, up to a canonical form, and takes at least so many bytes. Then lists of it are read back and pass
  the check of the budget, which is \<open>least\<close> for each.\<close>

locale codec =
  fixes enc :: "'a \<Rightarrow> bytes" and rd :: "rd_env \<Rightarrow> bytes \<Rightarrow> 'b rres" and fits :: "rd_env \<Rightarrow> 'a \<Rightarrow> bool"
    and canon :: "'a \<Rightarrow> 'b" and least :: nat
  assumes reads: "fits E x \<Longrightarrow> rd E (enc x @ rest) = Got (canon x) rest"
    and long: "least \<le> length (enc x)"
    and some_bytes: "0 < least"
begin

lemma reads_many: "\<forall>x \<in> set xs. fits E x \<Longrightarrow> read_n (rd E) (length xs) (concat (map enc xs) @ rest) = Got (map canon xs) rest"
  by (induction xs) (simp_all add: reads)

lemma many_long: "length xs * least \<le> length (concat (map enc xs) @ rest)"
proof (induction xs)
  case (Cons x xs)
  with long[of x] show ?case by simp
qed simp

lemma budget_passes: "needBytes E (length xs) least (concat (map enc xs) @ rest) k = k"
  using many_long some_bytes by (rule needBytes_ok)

end

lemma writeStr_read: "len_fits E s \<Longrightarrow> readStr E (writeStr s @ rest) = Got s rest"
  by (simp add: readStr_def writeStr_def needBytes_ok)

interpretation u32: codec putU32 "\<lambda>E. getU32" "\<lambda>E w. True" "\<lambda>x. x" 4
  by unfold_locales simp_all

interpretation f64s: codec putU64 "\<lambda>E. getU64" "\<lambda>E w. True" "\<lambda>x. x" 8
  by unfold_locales simp_all

interpretation str: codec writeStr readStr len_fits "\<lambda>x. x" 4
  by unfold_locales (simp add: writeStr_read, simp_all add: writeStr_def)

interpretation cat: codec write_cat read_cat "\<lambda>E p. len_fits E (fst p) \<and> len_fits E (snd p)" "\<lambda>x. x" 8
  by unfold_locales (auto simp: write_cat_def read_cat_def writeStr_read, simp_all add: writeStr_def)

interpretation num: codec write_num read_num "\<lambda>E p. len_fits E (fst p)" "\<lambda>x. x" 12
  by unfold_locales (auto simp: write_num_def read_num_def writeStr_read, simp_all add: writeStr_def)

text \<open>Attributes come back with the maps in sorted order.\<close>

definition canon_map :: "('k::linorder, 'v) gomap \<Rightarrow> ('k, 'v) gomap" where
  "canon_map m = map (\<lambda>n. (n, the (map_of m n))) (sort (map fst m))"

definition canon_attrs :: "attributes \<Rightarrow> attributes" where
  "canon_attrs a = \<lparr>Cat = canon_map (Cat a), Num = canon_map (Num a)\<rparr>"

lemma canon_map_of:
  assumes "keys_distinct m"
  shows "map_of (canon_map m) = map_of m"
proof
  fix k
  have "map_of (canon_map m) k = map_option (\<lambda>_. the (map_of m k)) (if k \<in> set (map fst m) then Some () else None)"
    unfolding canon_map_def by (simp add: map_of_map_restrict restrict_map_def)
  then show "map_of (canon_map m) k = map_of m k"
    by (cases "map_of m k") (auto simp: map_of_eq_None_iff[symmetric] map_of_SomeD intro: map_of_SomeD)
qed

lemma canon_keys: "map fst (canon_map m) = sort (map fst m)"
  by (simp add: canon_map_def comp_def)

lemma canon_length [simp]: "length (canon_map m) = length m"
  by (simp add: canon_map_def)

lemma fill_map_distinct:
  "distinct (map fst ps) \<Longrightarrow> fill_map ps = ps"
proof (induction ps rule: rev_induct)
  case (snoc p ps)
  have "AList.update (fst p) (snd p) ps = ps @ [p]" if "fst p \<notin> set (map fst ps)"
    using that by (induction ps) auto
  with snoc show ?case by (cases p) (simp add: fill_map_def)
qed (simp add: fill_map_def)

lemma fill_canon: "keys_distinct m \<Longrightarrow> fill_map (canon_map m) = canon_map m"
  by (rule fill_map_distinct) (simp add: canon_keys keys_distinct_def)

definition attrs_fit :: "rd_env \<Rightarrow> attributes \<Rightarrow> bool" where
  "attrs_fit E a \<longleftrightarrow> keys_distinct (Cat a) \<and> keys_distinct (Num a) \<and> len_fits E (Cat a) \<and> len_fits E (Num a) \<and>
     (\<forall>(n, v) \<in> set (Cat a). len_fits E n \<and> len_fits E v) \<and> (\<forall>(n, v) \<in> set (Num a). len_fits E n)"

lemma canon_set: "keys_distinct m \<Longrightarrow> set (canon_map m) = set m"
  by (force simp: canon_map_def keys_distinct_map_of[symmetric] image_iff)

lemma len_fits_canon [simp]: "len_fits E (canon_map m) = len_fits E m"
  by (simp add: len_fits_def)

lemma writeAttrs_canon:
  "writeAttrs a = put_len (canon_map (Cat a)) @ concat (map write_cat (canon_map (Cat a))) @
     put_len (canon_map (Num a)) @ concat (map write_num (canon_map (Num a)))"
proof -
  have "map (write_cat \<circ> cat_pair m) (sort (map fst m)) = map write_cat (canon_map m)" for m
    by (auto simp: canon_map_def cat_pair_def map_of_eq_None_iff image_iff split: option.splits)
  moreover have "map (write_num \<circ> num_pair m) (sort (map fst m)) = map write_num (canon_map m)" for m
    by (auto simp: canon_map_def num_pair_def map_of_eq_None_iff image_iff split: option.splits)
  moreover have "put_len (canon_map (Cat a)) = put_len (Cat a)" "put_len (canon_map (Num a)) = put_len (Num a)"
    by (simp_all add: put_len_def)
  ultimately show ?thesis by (simp add: writeAttrs_def)
qed

lemma readAttrs_write:
  assumes "attrs_fit E a"
  shows "readAttrs E (writeAttrs a @ rest) = Got (canon_attrs a) rest"
proof -
  let ?c = "canon_map (Cat a)" and ?n = "canon_map (Num a)"
  have c: "\<forall>p \<in> set ?c. len_fits E (fst p) \<and> len_fits E (snd p)" and n: "\<forall>p \<in> set ?n. len_fits E (fst p)"
    using assms by (auto simp: attrs_fit_def canon_set)
  have l: "len_fits E ?c" "len_fits E ?n" using assms by (simp_all add: attrs_fit_def)
  show ?thesis
    using assms l cat.reads_many[OF c] num.reads_many[OF n]
    by (simp add: writeAttrs_canon readAttrs_def cat.budget_passes num.budget_passes canon_attrs_def fill_canon
        attrs_fit_def del: canon_length len_fits_canon)
qed

text \<open>Terms: the check of their order passes.\<close>

definition terms_fit :: "rd_env \<Rightarrow> term_tf list \<Rightarrow> bool" where
  "terms_fit E ts \<longleftrightarrow> terms_ok ts \<and> len_fits E ts \<and> (\<forall>t \<in> set ts. len_fits E (Term t))"

lemma read_terms_write:
  assumes "sorted (map Term ts)" "distinct (map Term ts)" "\<forall>t \<in> set ts. Term t \<noteq> [] \<and> TF t \<noteq> 0 \<and> len_fits E (Term t)"
    and "\<forall>p. prev = Some p \<longrightarrow> (\<forall>t \<in> set ts. p < Term t)"
  shows "read_terms E (length ts) prev (concat (map write_term ts) @ rest) = Got ts rest"
  using assms
proof (induction ts arbitrary: prev)
  case (Cons t ts)
  have "\<forall>t' \<in> set ts. Term t < Term t'" using Cons.prems(1,2) by (auto simp: order_less_le)
  then have "read_terms E (length ts) (Some (Term t)) (concat (map write_term ts) @ rest) = Got ts rest"
    using Cons by simp
  moreover have "len_fits E (Term t)" "Term t \<noteq> []" "TF t \<noteq> 0" using Cons.prems(3) by simp_all
  moreover have "\<not> (case prev of None \<Rightarrow> False | Some p \<Rightarrow> Term t \<le> p)"
    using Cons.prems(4) by (auto split: option.splits)
  ultimately show ?case by (simp add: write_term_def[of t] writeStr_read)
qed simp

lemma write_term_long: "6 \<le> length (write_term t)"
  by (simp add: write_term_def writeStr_def)

lemma terms_long: "length ts * 6 \<le> length (concat (map write_term ts) @ rest)"
proof (induction ts)
  case (Cons t ts)
  with write_term_long[of t] show ?case by simp
qed simp

lemma readTerms_write:
  assumes "terms_fit E ts"
  shows "readTerms E (writeTerms ts @ rest) = Got ts rest"
proof -
  have "read_terms E (length ts) None (concat (map write_term ts) @ rest) = Got ts rest"
    using assms by (intro read_terms_write) (auto simp: terms_fit_def terms_ok_def)
  moreover have "needBytes E (length ts) 6 (concat (map write_term ts) @ rest) k = k" for k :: "term_tf list rres"
    using terms_long by (rule needBytes_ok) simp
  moreover have "len_fits E ts" using assms by (simp add: terms_fit_def)
  ultimately show ?thesis by (simp add: readTerms_def writeTerms_def)
qed

text \<open>A document and its blob.\<close>

definition doc_fits :: "rd_env \<Rightarrow> f32 list \<Rightarrow> attributes \<Rightarrow> term_tf list \<Rightarrow> bool" where
  "doc_fits E v a ts \<longleftrightarrow> len_fits E v \<and> attrs_fit E a \<and> terms_fit E ts"

lemma big_budget [simp]: "big (E\<lparr>budget := b\<rparr>) = big E" "len_fits (E\<lparr>budget := b\<rparr>) = (len_fits E :: 'a list \<Rightarrow> bool)"
  "attrs_fit (E\<lparr>budget := b\<rparr>) = attrs_fit E" "terms_fit (E\<lparr>budget := b\<rparr>) = terms_fit E"
  by (simp_all add: len_fits_def attrs_fit_def terms_fit_def fun_eq_iff)

lemma read_vector_write:
  "len_fits E v \<Longrightarrow> read_vector E (put_len v @ concat (map putU32 v) @ rest) = Got v rest"
  using u32.reads_many[of v rest] by (simp add: read_vector_def)

lemma DeserializeVectorWithDoc_write:
  "doc_fits E v a ts \<Longrightarrow> DeserializeVectorWithDoc E (SerializeVectorWithDoc v a ts) = Got (v, canon_attrs a, ts) []"
  using readTerms_write[of "E\<lparr>budget := False\<rparr>" ts "[]"]
  by (simp add: DeserializeVectorWithDoc_def SerializeVectorWithDoc_def appendVectorWithDoc_def doc_fits_def
      read_vector_write readAttrs_write)

lemma DeserializeVectorWithAttrs_write:
  "len_fits E v \<Longrightarrow> attrs_fit E a \<Longrightarrow>
   DeserializeVectorWithAttrs E (SerializeVectorWithAttrs v a) = Got (v, canon_attrs a) []"
  using readAttrs_write[of "E\<lparr>budget := False\<rparr>" a "[]"]
  by (simp add: DeserializeVectorWithAttrs_def SerializeVectorWithAttrs_def read_vector_write)

lemma DeserializeVector_write: "DeserializeVector (SerializeVector v) = v"
proof (rule nth_equalityI)
  have len: "length (SerializeVector v) = 4 * length v"
    unfolding SerializeVector_def by (induction v) simp_all
  then show "length (DeserializeVector (SerializeVector v)) = length v" by (simp add: DeserializeVector_def)
  fix i assume i: "i < length (DeserializeVector (SerializeVector v))"
  have "take 4 (drop (4 * i) (concat (map putU32 v))) = putU32 (v ! i)" if "i < length v"
    using that
  proof (induction v arbitrary: i)
    case (Cons w v)
    then show ?case by (cases i) (simp_all add: putU32_def)
  qed simp
  with i len show "DeserializeVector (SerializeVector v) ! i = v ! i"
    by (simp add: DeserializeVector_def SerializeVector_def putU32_def le_dec_enc[OF unat_bounds(2)])
qed

text \<open>The journal's lengths of a batch: seven bits a byte, at most ten bytes.\<close>

lemma read_uvarint_put:
  "v < 2 ^ (64 - 7 * i) \<Longrightarrow> i \<le> 9 \<Longrightarrow> read_uvarint i x (put_uvarint v @ rest) = Got (x + v * 2 ^ (7 * i)) rest"
proof (induction v arbitrary: i x rule: put_uvarint.induct)
  case (1 v)
  show ?case
  proof (cases "v < 128")
    case True
    have "\<not> (i = 9 \<and> v > 1)" using "1.prems"(1) by auto
    with True "1.prems" show ?thesis by (subst put_uvarint.simps) auto
  next
    case False
    have i: "i \<le> 8"
    proof (rule ccontr)
      assume "\<not> i \<le> 8"
      then have "i = 9" using "1.prems"(2) by simp
      with "1.prems"(1) False show False by simp
    qed
    have "64 - 7 * i = Suc (Suc (Suc (Suc (Suc (Suc (Suc (64 - 7 * Suc i)))))))" using i by simp
    then have "(2::nat) ^ (64 - 7 * i) = 128 * 2 ^ (64 - 7 * Suc i)" by simp
    then have "v div 128 < 2 ^ (64 - 7 * Suc i)" using "1.prems"(1) by (simp add: less_mult_imp_div_less mult.commute)
    note ih = "1.IH"[OF False this, of "x + v mod 128 * 2 ^ (7 * i)"]
    have "x + a * p + b * (p * 128) = x + (b * 128 + a) * p" for a b p :: nat by (simp add: algebra_simps)
    moreover have "(2::nat) ^ (7 * Suc i) = 2 ^ (7 * i) * 128" by (simp add: power_add)
    ultimately have "x + v mod 128 * 2 ^ (7 * i) + v div 128 * 2 ^ (7 * Suc i) = x + v * 2 ^ (7 * i)"
      by (simp only: div_mult_mod_eq)
    then show ?thesis using False i ih by (subst put_uvarint.simps) simp
  qed
qed

lemma read_uvarint_0: "v < 2 ^ 64 \<Longrightarrow> read_uvarint 0 0 (put_uvarint v @ rest) = Got v rest"
  using read_uvarint_put[of v 0 0 rest] by simp

definition canon_doc :: "delta_entry \<Rightarrow> delta_entry" where
  "canon_doc d = d\<lparr>Attrs := canon_attrs (Attrs d)\<rparr>"

definition entry_fits :: "rd_env \<Rightarrow> delta_entry \<Rightarrow> bool" where
  "entry_fits E d \<longleftrightarrow> doc_fits E (Vec d) (Attrs d) (Terms d) \<and> length (Key d) < 2 ^ 64 \<and> length (Key d) \<le> big E \<and>
     (let n = length (SerializeVectorWithDoc (Vec d) (Attrs d) (Terms d)) in n < 2 ^ 64 \<and> n \<le> big E)"

lemma put_uvarint_long: "0 < length (put_uvarint v)"
  by (subst put_uvarint.simps) simp

lemma read_doc_write: "entry_fits E d \<Longrightarrow> read_doc E (write_doc d @ rest) = Got (canon_doc d) rest"
  unfolding entry_fits_def Let_def
  by (cases d) (simp add: read_doc_def write_doc_def Let_def read_uvarint_0 DeserializeVectorWithDoc_write canon_doc_def)

interpretation docs: codec write_doc read_doc entry_fits canon_doc 1
proof unfold_locales
  show "1 \<le> length (write_doc x)" for x using put_uvarint_long[of "length (Key x)"] unfolding write_doc_def Let_def length_append by linarith
qed (simp_all add: read_doc_write)

lemma DocBatch_write:
  assumes "\<forall>d \<in> set ds. entry_fits E d" "length ds \<le> 2 ^ 20" "length ds \<le> big E"
  shows "DeserializeDocBatch E (SerializeDocBatch ds) = Got (map canon_doc ds) []"
  using docs.reads_many[OF assms(1), of "[]"] read_uvarint_0[of "length ds" "concat (map write_doc ds)"] assms(2,3)
  by (simp add: DeserializeDocBatch_def SerializeDocBatch_def)

subsection \<open>Under a budget no counter brings the process down\<close>

text \<open>No crash, and no more bytes left than \<open>n\<close>.\<close>

definition within :: "nat \<Rightarrow> 'a rres \<Rightarrow> bool" where
  "within n m = (case m of Got x r \<Rightarrow> length r \<le> n | Bad e \<Rightarrow> True | Crash \<Rightarrow> False)"

definition guarded :: "rd_env \<Rightarrow> nat \<Rightarrow> bool" where
  "guarded E n \<longleftrightarrow> budget E \<and> n \<le> big E \<and> 0 < big E"

named_theorems calm \<open>readers that do not crash\<close>

lemma within_Got [simp]: "within n (Got x r) \<longleftrightarrow> length r \<le> n"
  and within_Bad [simp]: "within n (Bad e)"
  by (simp_all add: within_def)

lemma within_rbind [calm]: "within n m \<Longrightarrow> (\<And>x r. length r \<le> n \<Longrightarrow> within n (f x r)) \<Longrightarrow> within n (rbind m f)"
  by (cases m) (simp_all add: within_def)

lemma within_rbind_val:
  "within n m \<Longrightarrow> (\<And>x r. m = Got x r \<Longrightarrow> length r \<le> n \<Longrightarrow> within n (f x r)) \<Longrightarrow> within n (rbind m f)"
  by (cases m) (simp_all add: within_def)

lemma within_readFull [calm]: "length bs \<le> n \<Longrightarrow> within n (readFull k bs)"
  by (auto simp: readFull_def)

lemma within_get [calm]:
  "length bs \<le> n \<Longrightarrow> within n (getU16 bs)" "length bs \<le> n \<Longrightarrow> within n (getU32 bs)" "length bs \<le> n \<Longrightarrow> within n (getU64 bs)"
  unfolding getU16_def getU32_def getU64_def by (rule within_rbind, erule within_readFull, simp)+

lemma within_if [calm]: "(b \<Longrightarrow> within n x) \<Longrightarrow> (\<not> b \<Longrightarrow> within n y) \<Longrightarrow> within n (if b then x else y)"
  by simp

lemma within_need [calm]: "within n k \<Longrightarrow> within n (needBytes E c m bs k)"
  by (simp add: needBytes_def)

lemma within_make_guarded:
  assumes "guarded E n" "length bs \<le> n" "within n k"
  shows "within n (needBytes E c m bs (go_make E c k))"
proof (cases "c > length bs div (if m < 1 then 1 else m)")
  case True
  then show ?thesis using assms(1) by (simp add: needBytes_def guarded_def)
next
  case False
  then have "c \<le> big E" using assms(1,2) div_le_dividend[of "length bs" "if m < 1 then 1 else m"] unfolding guarded_def by linarith
  then show ?thesis using assms(3) by (simp add: needBytes_def)
qed

text \<open>Reading on a longer input: what was read is read again, and the rest is longer.\<close>

definition grows :: "bytes \<Rightarrow> 'a rres \<Rightarrow> 'a rres \<Rightarrow> bool" where
  "grows t m m' \<longleftrightarrow> (\<forall>x r. m = Got x r \<longrightarrow> m' = Got x (r @ t))"

lemma more_simps [simp]: "grows t (Got x r) (Got x (r @ t))" "grows t (Bad e) m" "grows t Crash m"
  by (simp_all add: grows_def)

lemma moreD: "grows t m m' \<Longrightarrow> m = Got x r \<Longrightarrow> m' = Got x (r @ t)"
  by (simp add: grows_def)

named_theorems longer \<open>readers on longer input\<close>

lemma more_rbind [longer]:
  "grows t m m' \<Longrightarrow> (\<And>x r. grows t (f x r) (f' x (r @ t))) \<Longrightarrow> grows t (rbind m f) (rbind m' f')"
  by (cases m) (auto simp: grows_def)

lemma more_readFull [longer]: "grows t (readFull k bs) (readFull k (bs @ t))"
  by (simp add: grows_def readFull_def)

lemma more_get [longer]:
  "grows t (getU16 bs) (getU16 (bs @ t))" "grows t (getU32 bs) (getU32 (bs @ t))" "grows t (getU64 bs) (getU64 (bs @ t))"
  unfolding getU16_def getU32_def getU64_def by (rule more_rbind, rule more_readFull, simp)+

lemma more_if [longer]: "(b \<Longrightarrow> grows t x x') \<Longrightarrow> (\<not> b \<Longrightarrow> grows t y y') \<Longrightarrow> grows t (if b then x else y) (if b then x' else y')"
  by simp

lemma more_make [longer]: "grows t k k' \<Longrightarrow> grows t (go_make E c k) (go_make E c k')"
  by (simp add: go_make_def)

lemma more_need [longer]: "grows t k k' \<Longrightarrow> grows t (needBytes E c m bs k) (needBytes E c m (bs @ t) k')"
proof -
  assume k: "grows t k k'"
  define d where "d = (if m < 1 then 1 else m)"
  have "length bs div d \<le> length (bs @ t) div d" by (simp add: div_le_mono)
  then have "c \<le> length bs div d \<Longrightarrow> c \<le> length (bs @ t) div d" by linarith
  with k show ?thesis unfolding needBytes_def d_def[symmetric] by (auto simp: not_less)
qed

text \<open>The contract of every reader of the snapshot.\<close>

locale reader =
  fixes rd :: "rd_env \<Rightarrow> bytes \<Rightarrow> 'a rres"
  assumes reads_calm: "guarded E n \<Longrightarrow> length bs \<le> n \<Longrightarrow> within n (rd E bs)"
    and reads_more: "grows t (rd E bs) (rd E (bs @ t))"
begin

lemma many_calm: "guarded E n \<Longrightarrow> length bs \<le> n \<Longrightarrow> within n (read_n (rd E) k bs)"
  by (induction k arbitrary: bs) (auto intro!: within_rbind reads_calm)

lemma many_more: "grows t (read_n (rd E) k bs) (read_n (rd E) k (bs @ t))"
  by (induction k arbitrary: bs) (auto intro!: longer reads_more)

lemma counted_calm:
  assumes "guarded E n" "length bs \<le> n" "\<And>xs r. length r \<le> n \<Longrightarrow> within n (k xs r)"
  shows "within n (needBytes E c m bs (go_make E c (rbind (read_n (rd E) c bs) k)))"
  using assms by (intro within_make_guarded within_rbind many_calm)

end

interpretation u32_reader: reader "\<lambda>E. getU32"
  by unfold_locales (rule within_get more_get, assumption?)+

interpretation f64_reader: reader "\<lambda>E. getU64"
  by unfold_locales (rule within_get more_get, assumption?)+

interpretation str_reader: reader readStr
  by unfold_locales
    (auto simp: readStr_def intro!: within_rbind within_get within_make_guarded within_readFull longer)

interpretation cat_reader: reader read_cat
  by unfold_locales (auto simp: read_cat_def intro!: within_rbind str_reader.reads_calm longer str_reader.reads_more)

interpretation num_reader: reader read_num
  by unfold_locales
    (auto simp: read_num_def intro!: within_rbind within_get str_reader.reads_calm longer str_reader.reads_more)

interpretation attrs_reader: reader readAttrs
  by unfold_locales
    (auto simp: readAttrs_def intro!: within_rbind within_get cat_reader.counted_calm num_reader.counted_calm
      longer cat_reader.many_more num_reader.many_more)

lemma read_terms_calm: "guarded E n \<Longrightarrow> length bs \<le> n \<Longrightarrow> within n (read_terms E k prev bs)"
  by (induction k arbitrary: bs prev) (auto intro!: within_rbind within_get str_reader.reads_calm)

lemma read_terms_more: "grows t (read_terms E k prev bs) (read_terms E k prev (bs @ t))"
  by (induction k arbitrary: bs prev) (auto intro!: longer str_reader.reads_more)

interpretation terms_reader: reader readTerms
  by unfold_locales
    (auto simp: readTerms_def intro!: within_rbind within_get within_make_guarded read_terms_calm longer read_terms_more)

subsection \<open>The documents of the journal\<close>

lemma canon_view: "attrs_fit E a \<Longrightarrow> attr_view (canon_attrs a) = attr_view a"
  by (simp add: attr_view_def canon_attrs_def num_view_def canon_map_of attrs_fit_def fun_eq_iff)

definition same_entry :: "delta_entry \<Rightarrow> delta_entry \<Rightarrow> bool" where
  "same_entry d' d \<longleftrightarrow> Key d' = Key d \<and> Vec d' = Vec d \<and> Terms d' = Terms d \<and> attr_view (Attrs d') = attr_view (Attrs d)"

lemma canon_same: "entry_fits E d \<Longrightarrow> same_entry (canon_doc d) d"
  by (auto simp: same_entry_def canon_doc_def entry_fits_def doc_fits_def intro: canon_view)

text \<open>C29: What the journal writes of vectors and documents is read back: a plain vector exactly, a vector with
  attributes and a batch of documents with every key, vector and term list and with attributes that answer every
  lookup as the written ones.\<close>

theorem blob_roundtrip:
  assumes "\<forall>d \<in> set ds. entry_fits E d" "length ds \<le> 2 ^ 20" "length ds \<le> big E"
    and "len_fits E v" "attrs_fit E a"
  shows "DeserializeVector (SerializeVector v) = v \<and>
    (\<exists>a'. DeserializeVectorWithAttrs E (SerializeVectorWithAttrs v a) = Got (v, a') [] \<and> attr_view a' = attr_view a) \<and>
    (\<exists>ds'. DeserializeDocBatch E (SerializeDocBatch ds) = Got ds' [] \<and> list_all2 same_entry ds' ds)"
proof -
  have "list_all2 same_entry (map canon_doc ds) ds"
    using assms(1) by (auto simp: list.rel_map intro!: list.rel_refl_strong canon_same)
  with DocBatch_write[OF assms(1-3)] DeserializeVectorWithAttrs_write[OF assms(4,5)] canon_view[OF assms(5)]
  show ?thesis by (simp add: DeserializeVector_write)
qed

definition sample_env :: rd_env where
  "sample_env = \<lparr>budget = False, big = 1000\<rparr>"

definition sample_doc :: delta_entry where
  "sample_doc = \<lparr>Key = ''k'', Vec = [1, 2], Attrs = \<lparr>Cat = [(''b'', ''x'')], Num = [(''n'', 7)]\<rparr>,
     Terms = [\<lparr>Term = ''t'', TF = 2\<rparr>]\<rparr>"

theorem blob_roundtrip_witness:
  "DeserializeVector (SerializeVector [5, 6]) = [5, 6] \<and>
    (\<exists>a'. DeserializeVectorWithAttrs sample_env (SerializeVectorWithAttrs [5, 6] (Attrs sample_doc)) = Got ([5, 6], a') [] \<and>
      attr_view a' = attr_view (Attrs sample_doc)) \<and>
    (\<exists>ds'. DeserializeDocBatch sample_env (SerializeDocBatch [sample_doc]) = Got ds' [] \<and> list_all2 same_entry ds' [sample_doc])"
proof (rule blob_roundtrip)
  have "length (SerializeVectorWithDoc (Vec sample_doc) (Attrs sample_doc) (Terms sample_doc)) = 54"
    by (simp add: SerializeVectorWithDoc_def appendVectorWithDoc_def writeAttrs_def writeTerms_def sample_doc_def
        write_cat_def write_num_def write_term_def writeStr_def cat_pair_def num_pair_def)
  then show "\<forall>d \<in> set [sample_doc]. entry_fits sample_env d"
    by (simp add: entry_fits_def doc_fits_def attrs_fit_def terms_fit_def terms_ok_def len_fits_def sample_env_def
        sample_doc_def keys_distinct_def)
qed (simp_all add: sample_env_def sample_doc_def len_fits_def attrs_fit_def keys_distinct_def)

end
