(* ===== verification/VecSnap.thy ===== *)
theory VecSnap
  imports VecCodec VecKeys
begin

text \<open>
  The parts of the binary snapshot of the vector store: frozen graphs (\<open>vector/frozen.go\<close>,
  \<open>frozen_sq.go\<close>), the tenant catalogue and the columns of a segment (\<open>attr_durability.go\<close>), its text
  postings (\<open>bm25_durability.go\<close>) and the section of documents of older versions
  (\<open>snapshot_docs_section.go\<close>). Every part is read back as it was written, no reader crashes under a
  budget, and what a reader reads it reads again when more bytes follow.
\<close>

subsection \<open>Slabs, layers and keys\<close>

text \<open>A slice of 32- or 64-bit values is written from memory and read into memory in one piece.\<close>

definition read_slab :: "nat \<Rightarrow> bytes \<Rightarrow> (32 word list) rres" where
  "read_slab n bs = rbind (readFull (n * 4) bs) (\<lambda>d r. Got (DeserializeVector d) r)"

definition words64 :: "bytes \<Rightarrow> 64 word list" where
  "words64 bs = map (\<lambda>i. word_of_nat (le_dec (take 8 (drop (8 * i) bs)))) [0..<length bs div 8]"

definition read_slab64 :: "nat \<Rightarrow> bytes \<Rightarrow> (64 word list) rres" where
  "read_slab64 n bs = rbind (readFull (n * 8) bs) (\<lambda>d r. Got (words64 d) r)"

definition write_slab64 :: "64 word list \<Rightarrow> bytes" where
  "write_slab64 ws = concat (map putU64 ws)"

record flat_layer =
  l_offs :: "32 word list"
  l_neigh :: "32 word list"

definition write_layer :: "flat_layer \<Rightarrow> bytes" where
  "write_layer l = put_len (l_offs l) @ SerializeVector (l_offs l) @ put_len (l_neigh l) @ SerializeVector (l_neigh l)"

definition read_layer :: "rd_env \<Rightarrow> bytes \<Rightarrow> flat_layer rres" where
  "read_layer E bs =
     rbind (getU32 bs) (\<lambda>no r1.
     needBytes E (unat no) 4 r1 (go_make E (unat no) (rbind (read_slab (unat no) r1) (\<lambda>os r2.
     rbind (getU32 r2) (\<lambda>nn r3.
     needBytes E (unat nn) 4 r3 (go_make E (unat nn) (rbind (read_slab (unat nn) r3) (\<lambda>ns r4.
     Got \<lparr>l_offs = os, l_neigh = ns\<rparr> r4))))))))"

definition write_layers :: "flat_layer list \<Rightarrow> bytes" where
  "write_layers ls = put_len ls @ concat (map write_layer ls)"

definition read_layers :: "rd_env \<Rightarrow> bytes \<Rightarrow> flat_layer list rres" where
  "read_layers E bs =
     rbind (getU32 bs) (\<lambda>n r. needBytes E (unat n) 8 r (go_make E (unat n) (read_n (read_layer E) (unat n) r)))"

text \<open>The keys go one by one with 16 bits of length and are read into a block and its offsets.\<close>

definition write_key :: "bytes \<Rightarrow> bytes" where
  "write_key k = putU16 (word_of_nat (length k)) @ k"

definition write_keys :: "nat \<Rightarrow> interned_keys \<Rightarrow> bytes" where
  "write_keys n ik = putU32 (word_of_nat n) @ concat (map (\<lambda>i. write_key (ik_view ik i)) [0..<n])"

definition read_key :: "rd_env \<Rightarrow> bytes \<Rightarrow> bytes rres" where
  "read_key E bs = rbind (getU16 bs) (\<lambda>kl r. readFull (unat kl) r)"

fun read_key_loop :: "rd_env \<Rightarrow> nat \<Rightarrow> bytes \<Rightarrow> 32 word list \<Rightarrow> bytes \<Rightarrow> (bytes \<times> 32 word list) rres" where
  "read_key_loop E 0 b os bs = Got (b, os) bs"
| "read_key_loop E (Suc n) b os bs =
     rbind (read_key E bs) (\<lambda>k r. read_key_loop E n (b @ k) (os @ [word_of_nat (length (b @ k))]) r)"

definition read_keys :: "rd_env \<Rightarrow> bytes \<Rightarrow> interned_keys rres" where
  "read_keys E bs =
     rbind (getU32 bs) (\<lambda>n r. needBytes E (unat n) 2 r (go_make E (unat n + 1)
       (rbind (read_key_loop E (unat n) [] [0] r) (\<lambda>(b, os) r'. Got (newInternedKeys b os) r'))))"

subsection \<open>Frozen graphs\<close>

record frozen_graph =
  fg_n :: nat
  fg_dim :: nat
  fg_maxLevel :: nat
  fg_entry :: "32 word"
  fg_data :: "f32 list"
  fg_layers :: "flat_layer list"
  fg_keys :: interned_keys

definition write_hdr :: "nat \<Rightarrow> nat \<Rightarrow> nat \<Rightarrow> 32 word \<Rightarrow> bytes" where
  "write_hdr n dim ml ep = putU32 (word_of_nat n) @ putU32 (word_of_nat dim) @ putU32 (word_of_nat ml) @ putU32 ep"

definition WriteGraphTo :: "frozen_graph \<Rightarrow> bytes" where
  "WriteGraphTo fg =
     write_hdr (fg_n fg) (fg_dim fg) (fg_maxLevel fg) (fg_entry fg) @
     (if fg_n fg > 0 \<and> fg_dim fg > 0 then SerializeVector (fg_data fg) else []) @
     write_layers (fg_layers fg) @ write_keys (fg_n fg) (fg_keys fg)"

definition read_hdr :: "bytes \<Rightarrow> (nat \<times> nat \<times> nat \<times> 32 word) rres" where
  "read_hdr bs =
     rbind (getU32 bs) (\<lambda>n r1. rbind (getU32 r1) (\<lambda>d r2. rbind (getU32 r2) (\<lambda>m r3. rbind (getU32 r3) (\<lambda>e r4.
     Got (unat n, unat d, unat m, e) r4))))"

definition ReadFrozenGraph :: "rd_env \<Rightarrow> bytes \<Rightarrow> frozen_graph rres" where
  "ReadFrozenGraph E bs =
     rbind (read_hdr bs) (\<lambda>(n, dim, ml, ep) r1.
     needBytes E n (dim * 4) r1
       (rbind (if n > 0 \<and> dim > 0 then go_make E (n * dim) (read_slab (n * dim) r1) else Got [] r1) (\<lambda>data r2.
        rbind (read_layers E r2) (\<lambda>ls r3.
        rbind (read_keys E r3) (\<lambda>ks r4.
        Got \<lparr>fg_n = n, fg_dim = dim, fg_maxLevel = ml, fg_entry = ep, fg_data = data, fg_layers = ls, fg_keys = ks\<rparr> r4)))))"

record frozen_sq =
  sq_n :: nat
  sq_dim :: nat
  sq_maxLevel :: nat
  sq_entry :: "32 word"
  sq_min :: "f32 list"
  sq_scale :: "f32 list"
  sq_codes :: bytes
  sq_layers :: "flat_layer list"
  sq_keys :: interned_keys

definition WriteGraphToSQ :: "frozen_sq \<Rightarrow> bytes" where
  "WriteGraphToSQ fg =
     write_hdr (sq_n fg) (sq_dim fg) (sq_maxLevel fg) (sq_entry fg) @
     (if sq_dim fg > 0 then SerializeVector (sq_min fg) else []) @
     (if sq_dim fg > 0 then SerializeVector (sq_scale fg) else []) @
     (if sq_n fg > 0 \<and> sq_dim fg > 0 then sq_codes fg else []) @
     write_layers (sq_layers fg) @ write_keys (sq_n fg) (sq_keys fg)"

definition ReadFrozenGraphSQ :: "rd_env \<Rightarrow> bytes \<Rightarrow> frozen_sq rres" where
  "ReadFrozenGraphSQ E bs =
     rbind (read_hdr bs) (\<lambda>(n, dim, ml, ep) r1.
     needBytes E dim 8 r1 (needBytes E n dim r1
       (rbind (if dim > 0 then go_make E dim (read_slab dim r1) else Got [] r1) (\<lambda>mn r2.
        rbind (if dim > 0 then go_make E dim (read_slab dim r2) else Got [] r2) (\<lambda>sc r3.
        rbind (if n > 0 \<and> dim > 0 then go_make E (n * dim) (readFull (n * dim) r3) else Got [] r3) (\<lambda>cs r4.
        rbind (read_layers E r4) (\<lambda>ls r5.
        rbind (read_keys E r5) (\<lambda>ks r6.
        Got \<lparr>sq_n = n, sq_dim = dim, sq_maxLevel = ml, sq_entry = ep, sq_min = mn, sq_scale = sc, sq_codes = cs,
          sq_layers = ls, sq_keys = ks\<rparr> r6))))))))"

lemma length_SerializeVector [simp]: "length (SerializeVector v) = length v * 4"
  unfolding SerializeVector_def by (induction v) simp_all

lemma read_slab_write [simp]: "n = length v \<Longrightarrow> read_slab n (SerializeVector v @ rest) = Got v rest"
  by (simp add: read_slab_def DeserializeVector_write)

lemma length_write_slab64 [simp]: "length (write_slab64 v) = length v * 8"
  unfolding write_slab64_def by (induction v) simp_all

lemma words64_write: "words64 (write_slab64 v) = v"
proof (rule nth_equalityI)
  show "length (words64 (write_slab64 v)) = length v" by (simp add: words64_def)
  fix i assume i: "i < length (words64 (write_slab64 v))"
  have "take 8 (drop (8 * i) (concat (map putU64 v))) = putU64 (v ! i)" if "i < length v"
    using that
  proof (induction v arbitrary: i)
    case (Cons w v)
    then show ?case by (cases i) (simp_all add: putU64_def)
  qed simp
  then have "take 8 (drop (8 * i) (write_slab64 v)) = putU64 (v ! i)" if "i < length v"
    using that by (simp add: write_slab64_def)
  with i show "words64 (write_slab64 v) ! i = v ! i"
    by (simp add: words64_def putU64_def le_dec_enc[OF unat_bounds(3)])
qed

lemma read_slab64_write [simp]: "n = length v \<Longrightarrow> read_slab64 n (write_slab64 v @ rest) = Got v rest"
  by (simp add: read_slab64_def words64_write)

lemma need_slab [simp]: "n = length v \<Longrightarrow> needBytes E n 4 (SerializeVector v @ rest) k = k"
  "n = length w \<Longrightarrow> needBytes E n 8 (write_slab64 w @ rest) k = k"
  by (rule needBytes_ok; simp)+

definition layer_fits :: "rd_env \<Rightarrow> flat_layer \<Rightarrow> bool" where
  "layer_fits E l \<longleftrightarrow> len_fits E (l_offs l) \<and> len_fits E (l_neigh l)"

interpretation layer: codec write_layer read_layer layer_fits "\<lambda>x. x" 8
proof unfold_locales
  show "read_layer E (write_layer l @ rest) = Got l rest" if "layer_fits E l" for E l rest
  proof -
    have f: "len_fits E (l_offs l)" "len_fits E (l_neigh l)" using that by (simp_all add: layer_fits_def)
    show ?thesis by (simp add: read_layer_def write_layer_def len_fits_simps[OF f(1)] len_fits_simps[OF f(2)])
  qed
qed (simp_all add: write_layer_def)

definition layers_fit :: "rd_env \<Rightarrow> flat_layer list \<Rightarrow> bool" where
  "layers_fit E ls \<longleftrightarrow> len_fits E ls \<and> (\<forall>l \<in> set ls. layer_fits E l)"

lemma read_layers_write: "layers_fit E ls \<Longrightarrow> read_layers E (write_layers ls @ rest) = Got ls rest"
proof -
  assume f: "layers_fit E ls"
  then have l: "len_fits E ls" by (simp add: layers_fit_def)
  show ?thesis
    using f layer.reads_many[of ls E rest]
    by (simp add: read_layers_def write_layers_def layers_fit_def layer.budget_passes len_fits_simps[OF l])
qed

text \<open>Keys: the loop of the reader is the one that built the table.\<close>

definition key_fits :: "bytes \<Rightarrow> bool" where
  "key_fits k \<longleftrightarrow> length k < 2 ^ 16"

lemma read_key_write: "key_fits k \<Longrightarrow> read_key E (write_key k @ rest) = Got k rest"
  by (simp add: read_key_def write_key_def key_fits_def unat_of_nat take_bit_nat_eq_self)

lemma read_key_loop_write:
  "\<forall>k \<in> set ks. key_fits k \<Longrightarrow>
   read_key_loop E (length ks) b os (concat (map write_key ks) @ rest) = Got (intern_loop ks b os) rest"
  by (induction ks arbitrary: b os) (simp_all add: read_key_write)

definition keys_fit :: "rd_env \<Rightarrow> bytes list \<Rightarrow> bool" where
  "keys_fit E ks \<longleftrightarrow> (\<forall>k \<in> set ks. key_fits k) \<and> length ks < 2 ^ 32 \<and> length ks < big E \<and> key_bytes ks < 2 ^ 32"

lemma write_keys_built:
  "key_bytes ks < 2 ^ 32 \<Longrightarrow> n = length ks \<Longrightarrow>
   write_keys n (buildInternedKeys ks) = putU32 (word_of_nat n) @ concat (map write_key ks)"
  by (auto simp: write_keys_def view_built intro!: arg_cong[where f = concat] nth_equalityI)

lemma read_keys_write:
  assumes "keys_fit E ks" "n = length ks"
  shows "read_keys E (write_keys n (buildInternedKeys ks) @ rest) = Got (buildInternedKeys ks) rest"
proof -
  have "length ks * 2 \<le> length (concat (map write_key ks) @ rest)"
    by (induction ks) (simp_all add: write_key_def)
  then have "needBytes E (length ks) 2 (concat (map write_key ks) @ rest) k = k" for k :: "interned_keys rres"
    by (rule needBytes_ok) simp
  moreover have f: "\<forall>k \<in> set ks. key_fits k" "length ks < 2 ^ 32" "length ks < big E" "key_bytes ks < 2 ^ 32"
    using assms(1) by (simp_all add: keys_fit_def)
  ultimately show ?thesis
    unfolding write_keys_built[OF f(4) assms(2)]
    using f read_key_loop_write[OF f(1), of E "[]" "[0]" rest]
    by (simp add: assms(2) read_keys_def buildInternedKeys_def case_prod_unfold Let_def)
qed

definition graph_fits :: "rd_env \<Rightarrow> bytes list \<Rightarrow> frozen_graph \<Rightarrow> bool" where
  "graph_fits E ks fg \<longleftrightarrow> fg_n fg = length ks \<and> fg_keys fg = buildInternedKeys ks \<and> keys_fit E ks \<and> layers_fit E (fg_layers fg) \<and>
     0 < fg_n fg \<and> 0 < fg_dim fg \<and> fg_dim fg < 2 ^ 32 \<and> fg_maxLevel fg < 2 ^ 32 \<and>
     length (fg_data fg) = fg_n fg * fg_dim fg \<and> fg_n fg * fg_dim fg \<le> big E"

lemma read_hdr_write:
  "n < 2 ^ 32 \<Longrightarrow> dim < 2 ^ 32 \<Longrightarrow> ml < 2 ^ 32 \<Longrightarrow> read_hdr (write_hdr n dim ml ep @ rest) = Got (n, dim, ml, ep) rest"
  by (simp add: read_hdr_def write_hdr_def)

lemma ReadFrozenGraph_write:
  assumes "graph_fits E ks fg"
  shows "ReadFrozenGraph E (WriteGraphTo fg @ rest) = Got fg rest"
proof -
  have f: "fg_n fg = length ks" "fg_keys fg = buildInternedKeys ks" "keys_fit E ks" "layers_fit E (fg_layers fg)"
    "ks \<noteq> []" "0 < fg_dim fg" "fg_dim fg < 2 ^ 32" "fg_maxLevel fg < 2 ^ 32" "length ks < 2 ^ 32"
    "length (fg_data fg) = length ks * fg_dim fg" "length ks * fg_dim fg \<le> big E"
    using assms by (auto simp: graph_fits_def keys_fit_def)
  then have "needBytes E (length ks) (fg_dim fg * 4) (SerializeVector (fg_data fg) @ r) k = k" for r and k :: "frozen_graph rres"
    by (intro needBytes_ok) simp_all
  then show ?thesis
    by (simp add: ReadFrozenGraph_def WriteGraphTo_def f read_layers_write read_keys_write
        read_hdr_write[OF f(9,7,8)])
qed

definition sq_fits :: "rd_env \<Rightarrow> bytes list \<Rightarrow> frozen_sq \<Rightarrow> bool" where
  "sq_fits E ks fg \<longleftrightarrow> sq_n fg = length ks \<and> sq_keys fg = buildInternedKeys ks \<and> keys_fit E ks \<and> layers_fit E (sq_layers fg) \<and>
     0 < sq_n fg \<and> 0 < sq_dim fg \<and> sq_dim fg < 2 ^ 32 \<and> sq_maxLevel fg < 2 ^ 32 \<and> length (sq_min fg) = sq_dim fg \<and>
     length (sq_scale fg) = sq_dim fg \<and> length (sq_codes fg) = sq_n fg * sq_dim fg \<and> sq_n fg * sq_dim fg \<le> big E"

lemma ReadFrozenGraphSQ_write:
  assumes "sq_fits E ks fg"
  shows "ReadFrozenGraphSQ E (WriteGraphToSQ fg @ rest) = Got fg rest"
proof -
  have f: "sq_n fg = length ks" "sq_keys fg = buildInternedKeys ks" "keys_fit E ks" "layers_fit E (sq_layers fg)"
    "ks \<noteq> []" "0 < sq_dim fg" "sq_dim fg < 2 ^ 32" "sq_maxLevel fg < 2 ^ 32" "length ks < 2 ^ 32"
    "length (sq_min fg) = sq_dim fg" "length (sq_scale fg) = sq_dim fg"
    "length (sq_codes fg) = length ks * sq_dim fg" "length ks * sq_dim fg \<le> big E"
    using assms by (auto simp: sq_fits_def keys_fit_def)
  have n: "needBytes E (sq_dim fg) 8 (SerializeVector (sq_min fg) @ SerializeVector (sq_scale fg) @ sq_codes fg @ r) k = k"
    "needBytes E (length ks) (sq_dim fg) (SerializeVector (sq_min fg) @ SerializeVector (sq_scale fg) @ sq_codes fg @ r) k = k"
    for r and k :: "frozen_sq rres"
    using f by (intro needBytes_ok; simp)+
  have d: "sq_dim fg \<le> big E" using f(5,13) by (cases ks) auto
  show ?thesis
    by (simp add: ReadFrozenGraphSQ_def WriteGraphToSQ_def f n d read_layers_write read_keys_write
        read_hdr_write[OF f(9,7,8)])
qed

subsection \<open>The tenant catalogue and the columns\<close>

text \<open>Positions are signed and the kind is a byte on disk: a reader takes whatever is there.\<close>

record disk_range =
  d_tenant :: "64 word"
  d_start :: int
  d_end :: int
  d_kind :: nat

record disk_catalog =
  d_ranges :: "(64 word, disk_range) gomap"
  d_threshold :: int

definition kind_byte :: "index_kind \<Rightarrow> nat" where
  "kind_byte k = (case k of IndexBrute \<Rightarrow> 0 | IndexGraph \<Rightarrow> 1)"

definition cat_All :: "tenant_catalog \<Rightarrow> tenant_range list" where
  "cat_All c = sort_key Start (map snd (ranges c))"

definition write_range :: "tenant_range \<Rightarrow> bytes" where
  "write_range r = putU64 (Tenant r) @ putU32 (word_of_nat (Start r)) @ putU32 (word_of_nat (End r)) @
     [byte_of (kind_byte (Kind r))]"

definition read_range :: "rd_env \<Rightarrow> bytes \<Rightarrow> disk_range rres" where
  "read_range E bs =
     rbind (getU64 bs) (\<lambda>t r1. rbind (getU32 r1) (\<lambda>s r2. rbind (getU32 r2) (\<lambda>e r3. rbind (readFull 1 r3) (\<lambda>k r4.
     Got \<lparr>d_tenant = t, d_start = sint s, d_end = sint e, d_kind = le_dec k\<rparr> r4))))"

definition write_catalog :: "tenant_catalog option \<Rightarrow> bytes" where
  "write_catalog cat =
     (case cat of
        None \<Rightarrow> [byte_of 0]
      | Some c \<Rightarrow> [byte_of 1] @ putU32 (word_of_int (bruteThreshold c)) @ put_len (cat_All c) @
          concat (map write_range (cat_All c)))"

definition read_catalog :: "rd_env \<Rightarrow> bytes \<Rightarrow> disk_catalog option rres" where
  "read_catalog E bs =
     rbind (readFull 1 bs) (\<lambda>f r1.
       if f = [byte_of 1] then
         rbind (getU32 r1) (\<lambda>bt r2.
         rbind (getU32 r2) (\<lambda>nr r3.
         needBytes E (unat nr) 17 r3 (go_make E (unat nr)
           (rbind (read_n (read_range E) (unat nr) r3) (\<lambda>rs r4.
            Got (Some \<lparr>d_ranges = fill_map (map (\<lambda>r. (d_tenant r, r)) rs), d_threshold = int (unat bt)\<rparr>) r4)))))
       else Got None r1)"

text \<open>A column is written with its dictionary; \<open>attrs.dict[name]\<close> is there for every column that was built.\<close>

definition dict_of :: "seg_attrs \<Rightarrow> bytes \<Rightarrow> attr_dict" where
  "dict_of sa n = (case map_of (sa_dict sa) n of None \<Rightarrow> newAttrDict | Some d \<Rightarrow> d)"

definition col_of :: "(bytes, 'a list) gomap \<Rightarrow> bytes \<Rightarrow> bytes \<times> 'a list" where
  "col_of m n = (n, case map_of m n of None \<Rightarrow> [] | Some xs \<Rightarrow> xs)"

definition write_cat_col :: "bytes \<times> bytes list \<times> 32 word list \<Rightarrow> bytes" where
  "write_cat_col c =
     (case c of (n, vs, cs) \<Rightarrow> writeStr n @ put_len vs @ concat (map writeStr vs) @ put_len cs @ SerializeVector cs)"

definition read_cat_col :: "rd_env \<Rightarrow> bytes \<Rightarrow> (bytes \<times> bytes list \<times> 32 word list) rres" where
  "read_cat_col E bs =
     rbind (readStr E bs) (\<lambda>n r1.
     rbind (getU32 r1) (\<lambda>nv r2.
     needBytes E (unat nv) 4 r2 (go_make E (unat nv) (rbind (read_n (readStr E) (unat nv) r2) (\<lambda>vs r3.
     rbind (getU32 r3) (\<lambda>nc r4.
     needBytes E (unat nc) 4 r4 (go_make E (unat nc) (rbind (read_slab (unat nc) r4) (\<lambda>cs r5. Got (n, vs, cs) r5)))))))))"

definition write_num_col :: "bytes \<times> f64 list \<Rightarrow> bytes" where
  "write_num_col c = writeStr (fst c) @ put_len (snd c) @ write_slab64 (snd c)"

definition read_num_col :: "rd_env \<Rightarrow> bytes \<Rightarrow> (bytes \<times> f64 list) rres" where
  "read_num_col E bs =
     rbind (readStr E bs) (\<lambda>n r1.
     rbind (getU32 r1) (\<lambda>nv r2.
     needBytes E (unat nv) 8 r2 (go_make E (unat nv) (rbind (read_slab64 (unat nv) r2) (\<lambda>vs r3. Got (n, vs) r3)))))"

definition cat_col :: "seg_attrs \<Rightarrow> bytes \<Rightarrow> bytes \<times> bytes list \<times> 32 word list" where
  "cat_col sa n = (n, vals (dict_of sa n), snd (col_of (sa_cat sa) n))"

definition write_cols :: "seg_attrs option \<Rightarrow> bytes" where
  "write_cols a =
     (case a of
        None \<Rightarrow> [byte_of 0]
      | Some sa \<Rightarrow> [byte_of 1] @
          put_len (sa_cat sa) @ concat (map (write_cat_col \<circ> cat_col sa) (sort (map fst (sa_cat sa)))) @
          put_len (sa_num sa) @ concat (map (write_num_col \<circ> col_of (sa_num sa)) (sort (map fst (sa_num sa)))))"

text \<open>The dictionary that reading fills, one value after the other.\<close>

definition dict_from :: "bytes list \<Rightarrow> attr_dict" where
  "dict_from vs = \<lparr>code = fill_map (zip vs (map word_of_nat [0..<length vs])), vals = vs\<rparr>"

definition cols_from :: "(bytes \<times> bytes list \<times> 32 word list) list \<Rightarrow> (bytes \<times> f64 list) list \<Rightarrow> seg_attrs" where
  "cols_from cs ns =
     \<lparr>sa_cat = fill_map (map (\<lambda>(n, vs, codes). (n, codes)) cs), sa_num = fill_map ns,
      sa_dict = fill_map (map (\<lambda>(n, vs, codes). (n, dict_from vs)) cs)\<rparr>"

definition validateSegMeta :: "seg_attrs \<Rightarrow> bool" where
  "validateSegMeta sa =
     (case map (length \<circ> snd) (sa_cat sa) @ map (length \<circ> snd) (sa_num sa) of
        [] \<Rightarrow> True
      | n # ls \<Rightarrow> list_all (\<lambda>l. l = n) ls)"

definition read_cols :: "rd_env \<Rightarrow> bytes \<Rightarrow> seg_attrs option rres" where
  "read_cols E bs =
     rbind (readFull 1 bs) (\<lambda>f r1.
       if f = [byte_of 0] then Got None r1
       else
         rbind (getU32 r1) (\<lambda>nCat r2.
         needBytes E (unat nCat) 12 r2 (rbind (read_n (read_cat_col E) (unat nCat) r2) (\<lambda>cs r3.
         rbind (getU32 r3) (\<lambda>nNum r4.
         needBytes E (unat nNum) 8 r4 (rbind (read_n (read_num_col E) (unat nNum) r4) (\<lambda>ns r5.
         if validateSegMeta (cols_from cs ns) then Got (Some (cols_from cs ns)) r5 else Bad BadMeta)))))))"

definition writeSegMeta :: "tenant_catalog option \<Rightarrow> seg_attrs option \<Rightarrow> bytes" where
  "writeSegMeta cat a = write_catalog cat @ write_cols a"

definition readSegMeta :: "rd_env \<Rightarrow> bytes \<Rightarrow> (disk_catalog option \<times> seg_attrs option) rres" where
  "readSegMeta E bs = rbind (read_catalog E bs) (\<lambda>c r1. rbind (read_cols E r1) (\<lambda>a r2. Got (c, a) r2))"

subsection \<open>The postings\<close>

definition write_posting :: "posting \<Rightarrow> bytes" where
  "write_posting p = putU32 (p_doc p) @ putU16 (p_tf p)"

definition write_text_term :: "bytes \<times> posting list \<Rightarrow> bytes" where
  "write_text_term tp = writeStr (fst tp) @ put_len (snd tp) @ concat (map write_posting (snd tp))"

definition writeSegText :: "segment_text option \<Rightarrow> bytes" where
  "writeSegText s =
     (case s of
        None \<Rightarrow> [byte_of 0]
      | Some st \<Rightarrow> [byte_of 1] @ put_len (docLen st) @ concat (map putU32 (docLen st)) @ put_len (postings st) @
          concat (map (\<lambda>id. write_text_term (vals (t_dict st) ! id, postings st ! id)) [0..<length (postings st)]))"

fun read_postings :: "rd_env \<Rightarrow> nat \<Rightarrow> nat \<Rightarrow> int \<Rightarrow> bytes \<Rightarrow> posting list rres" where
  "read_postings E nDocs 0 prev bs = Got [] bs"
| "read_postings E nDocs (Suc n) prev bs =
     rbind (getU32 bs) (\<lambda>doc r1.
     rbind (getU16 r1) (\<lambda>tf r2.
     if unat doc \<ge> nDocs \<or> int (unat doc) \<le> prev \<or> tf = 0 then Bad BadText
     else rbind (read_postings E nDocs n (int (unat doc)) r2) (\<lambda>ps r3. Got (\<lparr>p_doc = doc, p_tf = tf\<rparr> # ps) r3)))"

fun read_text_terms :: "rd_env \<Rightarrow> nat \<Rightarrow> nat \<Rightarrow> attr_dict \<Rightarrow> posting list list \<Rightarrow> nat \<Rightarrow> bytes \<Rightarrow>
    (attr_dict \<times> posting list list) rres" where
  "read_text_terms E nDocs 0 d ps i bs = Got (d, ps) bs"
| "read_text_terms E nDocs (Suc n) d ps i bs =
     rbind (readStr E bs) (\<lambda>term r1.
     if term = [] then Bad BadText
     else (let (c, d') = intern d term in
       if c \<noteq> word_of_nat i then Bad BadText
       else rbind (getU32 r1) (\<lambda>np r2.
         if np = 0 then Bad BadText
         else needBytes E (unat np) 6 r2 (go_make E (unat np)
           (rbind (read_postings E nDocs (unat np) (- 1) r2) (\<lambda>pl r3.
            read_text_terms E nDocs n d' (ps @ [pl]) (Suc i) r3))))))"

definition readSegText :: "rd_env \<Rightarrow> bytes \<Rightarrow> segment_text option rres" where
  "readSegText E bs =
     rbind (readFull 1 bs) (\<lambda>f r1.
       if f = [byte_of 0] then Got None r1
       else
         rbind (getU32 r1) (\<lambda>nd r2.
         needBytes E (unat nd) 4 r2 (go_make E (unat nd) (rbind (read_n getU32 (unat nd) r2) (\<lambda>dls r3.
         rbind (getU32 r3) (\<lambda>nt r4.
         needBytes E (unat nt) 14 r4 (rbind (read_text_terms E (unat nd) (unat nt) newAttrDict [] 0 r4) (\<lambda>(d, ps) r5.
         Got (Some \<lparr>t_dict = d, postings = ps, docLen = dls, nText = length (filter (\<lambda>dl. dl > 0) dls),
           totalLen = sum_list (map ucast dls)\<rparr>) r5))))))))"

subsection \<open>Documents of older versions\<close>

definition no_entry :: delta_entry where
  "no_entry = \<lparr>Key = [], Vec = [], Attrs = no_attrs, Terms = []\<rparr>"

definition writeEmptyDocsSection :: bytes where
  "writeEmptyDocsSection = putU32 0"

definition read_pos :: "rd_env \<Rightarrow> nat \<Rightarrow> bytes \<Rightarrow> (nat \<times> bytes) rres" where
  "read_pos E n bs =
     rbind (getU32 bs) (\<lambda>pos r1. rbind (readStr E r1) (\<lambda>key r2. if unat pos \<ge> n then Bad BadDocs else Got (unat pos, key) r2))"

fun place_docs :: "rd_env \<Rightarrow> (nat \<times> bytes) list \<Rightarrow> bytes \<Rightarrow> delta_entry list \<Rightarrow> delta_entry list rres" where
  "place_docs E [] payload es = Got es payload"
| "place_docs E ((pos, key) # ps) payload es =
     (if length payload < 4 then Bad BadDocs
      else (let bl = le_dec (take 4 payload); rest = drop 4 payload in
        if length rest < bl then Bad BadDocs
        else (case DeserializeVectorWithDoc E (take bl rest) of
                Got (v, a, ts) _ \<Rightarrow> place_docs E ps (drop bl rest) (es[pos := \<lparr>Key = key, Vec = v, Attrs = a, Terms = ts\<rparr>])
              | Bad e \<Rightarrow> Bad e
              | Crash \<Rightarrow> Crash)))"

definition read_group :: "rd_env \<Rightarrow> nat \<Rightarrow> delta_entry list \<Rightarrow> bytes \<Rightarrow> delta_entry list rres" where
  "read_group E n es bs =
     rbind (readFull 1 bs) (\<lambda>m r1.
       if m = [byte_of 1] then Bad Encrypted
       else if m \<noteq> [byte_of 0] then Bad BadDocs
       else
         rbind (getU32 r1) (\<lambda>nd r2.
         needBytes E (unat nd) 8 r2 (go_make E (unat nd) (rbind (read_n (read_pos E n) (unat nd) r2) (\<lambda>ps r3.
         rbind (getU32 r3) (\<lambda>pl r4.
         needBytes E (unat pl) 1 r4 (go_make E (unat pl) (rbind (readFull (unat pl) r4) (\<lambda>payload r5.
         case place_docs E ps payload es of Got es' _ \<Rightarrow> Got es' r5 | Bad e \<Rightarrow> Bad e | Crash \<Rightarrow> Crash)))))))))"

fun read_groups :: "rd_env \<Rightarrow> nat \<Rightarrow> nat \<Rightarrow> delta_entry list \<Rightarrow> bytes \<Rightarrow> delta_entry list rres" where
  "read_groups E n 0 es bs = Got es bs"
| "read_groups E n (Suc g) es bs = rbind (read_group E n es bs) (\<lambda>es' r. read_groups E n g es' r)"

definition readDocsSection :: "rd_env \<Rightarrow> nat \<Rightarrow> bytes \<Rightarrow> delta_entry list rres" where
  "readDocsSection E n bs =
     rbind (getU32 bs) (\<lambda>ng r.
       if ng = 0 then Got [] r
       else needBytes E (unat ng) 9 r (go_make E n (read_groups E n (unat ng) (replicate n no_entry) r)))"

definition hasAnyDoc :: "delta_entry list \<Rightarrow> bool" where
  "hasAnyDoc es \<longleftrightarrow> list_ex (\<lambda>e. Key e \<noteq> []) es"

definition mergeDocsIntoEntries :: "delta_entry list \<Rightarrow> delta_entry list \<Rightarrow> delta_entry list" where
  "mergeDocsIntoEntries seg docs =
     map (\<lambda>i. if i < length docs \<and> Key (docs ! i) \<noteq> [] then docs ! i else seg ! i) [0..<length seg]"

subsection \<open>No crash under a budget\<close>

lemma within_need_val:
  assumes "guarded E n" "c \<le> length bs div (if m < 1 then 1 else m) \<Longrightarrow> within n k"
  shows "within n (needBytes E c m bs k)"
  using assms unfolding needBytes_def guarded_def by auto

lemma within_make: "c \<le> big E \<Longrightarrow> within n k \<Longrightarrow> within n (go_make E c k)"
  by simp

lemma within_pair: "(\<And>a b. p = (a, b) \<Longrightarrow> within n (f a b)) \<Longrightarrow> within n (case p of (a, b) \<Rightarrow> f a b)"
  by (cases p) simp

lemma more_pair [longer]: "(\<And>a b. grows t (f a b) (f' a b)) \<Longrightarrow> grows t (case p of (a, b) \<Rightarrow> f a b) (case p of (a, b) \<Rightarrow> f' a b)"
  by (cases p) simp

lemma within_slab: "length bs \<le> n \<Longrightarrow> within n (read_slab k bs)" "length bs \<le> n \<Longrightarrow> within n (read_slab64 k bs)"
  unfolding read_slab_def read_slab64_def by (auto intro!: within_rbind within_readFull)

lemma more_slab [longer]: "grows t (read_slab k bs) (read_slab k (bs @ t))" "grows t (read_slab64 k bs) (read_slab64 k (bs @ t))"
  unfolding read_slab_def read_slab64_def by (auto intro!: longer)

lemmas within_basic = within_rbind within_get within_make_guarded within_readFull within_slab within_pair

interpretation layer_reader: reader read_layer
  by unfold_locales (auto simp: read_layer_def intro!: within_basic longer)

interpretation layers_reader: reader read_layers
  by unfold_locales (auto simp: read_layers_def intro!: within_basic layer_reader.many_calm longer layer_reader.many_more)

interpretation key_reader: reader read_key
  by unfold_locales (auto simp: read_key_def intro!: within_basic longer)

lemma read_key_loop_calm: "guarded E n \<Longrightarrow> length bs \<le> n \<Longrightarrow> within n (read_key_loop E k b os bs)"
  by (induction k arbitrary: b os bs) (auto intro!: within_basic key_reader.reads_calm)

lemma read_key_loop_more: "grows t (read_key_loop E k b os bs) (read_key_loop E k b os (bs @ t))"
  by (induction k arbitrary: b os bs) (auto intro!: longer key_reader.reads_more)

lemma keys_room:
  assumes "guarded E n" "length bs \<le> n" "c \<le> length bs div (if (2::nat) < 1 then 1 else 2)"
  shows "c + 1 \<le> big E"
proof -
  have "2 * c \<le> length bs" using assms(3) by simp
  with assms(1,2) show ?thesis unfolding guarded_def by (cases "c = 0") auto
qed

interpretation keys_reader: reader read_keys
proof unfold_locales
  show "within n (read_keys E bs)" if "guarded E n" "length bs \<le> n" for E n bs
    unfolding read_keys_def
    by (intro within_rbind within_get that within_need_val[OF that(1)] within_make within_pair read_key_loop_calm)
      (use that keys_room in \<open>auto intro: keys_room[OF that(1)]\<close>)
  show "grows t (read_keys E bs) (read_keys E (bs @ t))" for t E bs
    unfolding read_keys_def by (intro longer read_key_loop_more) (simp split: prod.split)
qed

lemma slab_room:
  assumes "guarded E n" "length bs \<le> n" "c \<le> length bs div (if m < 1 then 1 else m)" "k \<le> m" "0 < k"
  shows "c * k \<le> big E"
proof -
  have "c \<le> length bs div m" using assms(3-5) by (auto split: if_splits)
  then have "c * m \<le> length bs" using assms(4,5) less_eq_div_iff_mult_less_eq[of m c "length bs"] by simp
  moreover have "c * k \<le> c * m" using assms(4) by simp
  ultimately show ?thesis using assms(1,2) unfolding guarded_def by linarith
qed

lemma read_hdr_calm: "length bs \<le> n \<Longrightarrow> within n (read_hdr bs)"
  unfolding read_hdr_def by (auto intro!: within_basic)

lemma read_hdr_more [longer]: "grows t (read_hdr bs) (read_hdr (bs @ t))"
  unfolding read_hdr_def by (auto intro!: longer)

text \<open>A piece that is only read when the graph is not empty.\<close>

lemma within_optional:
  assumes "length bs \<le> n" "b \<Longrightarrow> c \<le> big E" "within n (f bs)"
  shows "within n (if b then go_make E c (f bs) else Got x bs)"
  using assms by simp

lemma more_optional [longer]:
  "grows t (f bs) (f (bs @ t)) \<Longrightarrow>
   grows t (if b then go_make E c (f bs) else Got x bs) (if b then go_make E c (f (bs @ t)) else Got x (bs @ t))"
  by (simp add: more_make)

lemma within_pair_app: "(\<And>a b. p = (a, b) \<Longrightarrow> within n (f a b r)) \<Longrightarrow> within n ((case p of (a, b) \<Rightarrow> f a b) r)"
  by (cases p) simp

lemma more_pair_app [longer]: "(\<And>a b. grows t (f a b r) (f' a b r')) \<Longrightarrow>
    grows t ((case p of (a, b) \<Rightarrow> f a b) r) ((case p of (a, b) \<Rightarrow> f' a b) r')"
  by (cases p) simp

lemma ReadFrozenGraph_calm:
  assumes g: "guarded E n" and l: "length bs \<le> n"
  shows "within n (ReadFrozenGraph E bs)"
  unfolding ReadFrozenGraph_def
  by (intro within_rbind[OF read_hdr_calm[OF l]] within_pair_app within_need_val[OF g] within_rbind within_optional
      within_slab layers_reader.reads_calm[OF g] keys_reader.reads_calm[OF g] slab_room[OF g, where m = "_ * 4"])
    (assumption | simp)+

interpretation graph_reader: reader ReadFrozenGraph
proof unfold_locales
  show "grows t (ReadFrozenGraph E bs) (ReadFrozenGraph E (bs @ t))" for t E bs
    unfolding ReadFrozenGraph_def
    by (auto intro!: longer layers_reader.reads_more keys_reader.reads_more split: prod.split)
qed (rule ReadFrozenGraph_calm)

lemma count_room:
  assumes "guarded E n" "length bs \<le> n" "c \<le> length bs div (if m < 1 then 1 else m)"
  shows "c \<le> big E"
  using assms div_le_dividend[of "length bs" "if m < 1 then 1 else m"] unfolding guarded_def by linarith

lemma ReadFrozenGraphSQ_calm:
  assumes g: "guarded E n" and l: "length bs \<le> n"
  shows "within n (ReadFrozenGraphSQ E bs)"
  unfolding ReadFrozenGraphSQ_def
  by (intro within_rbind[OF read_hdr_calm[OF l]] within_pair_app within_need_val[OF g] within_rbind within_optional
      within_slab within_readFull layers_reader.reads_calm[OF g] keys_reader.reads_calm[OF g])
    (assumption | (rule count_room[OF g], assumption, assumption) |
     (rule slab_room[OF g], assumption, assumption, simp, simp) | simp)+

interpretation sq_reader: reader ReadFrozenGraphSQ
proof unfold_locales
  show "grows t (ReadFrozenGraphSQ E bs) (ReadFrozenGraphSQ E (bs @ t))" for t E bs
    unfolding ReadFrozenGraphSQ_def
    by (auto intro!: longer layers_reader.reads_more keys_reader.reads_more split: prod.split)
qed (rule ReadFrozenGraphSQ_calm)

interpretation range_reader: reader read_range
  by unfold_locales (auto simp: read_range_def intro!: within_basic longer)

interpretation catalog_reader: reader read_catalog
  by unfold_locales (auto simp: read_catalog_def intro!: within_basic range_reader.many_calm longer range_reader.many_more)

interpretation cat_col_reader: reader read_cat_col
  by unfold_locales
    (auto simp: read_cat_col_def intro!: within_basic str_reader.reads_calm str_reader.many_calm longer
      str_reader.reads_more str_reader.many_more)

interpretation num_col_reader: reader read_num_col
  by unfold_locales
    (auto simp: read_num_col_def intro!: within_basic str_reader.reads_calm longer str_reader.reads_more)

interpretation cols_reader: reader read_cols
  by unfold_locales
    (auto simp: read_cols_def intro!: within_basic within_need cat_col_reader.many_calm num_col_reader.many_calm longer
      cat_col_reader.many_more num_col_reader.many_more)

interpretation meta_reader: reader readSegMeta
  by unfold_locales
    (auto simp: readSegMeta_def intro!: within_basic catalog_reader.reads_calm cols_reader.reads_calm longer
      catalog_reader.reads_more cols_reader.reads_more)

lemma read_postings_calm: "guarded E n \<Longrightarrow> length bs \<le> n \<Longrightarrow> within n (read_postings E nd k prev bs)"
  by (induction k arbitrary: bs prev) (auto intro!: within_basic)

lemma read_postings_more: "grows t (read_postings E nd k prev bs) (read_postings E nd k prev (bs @ t))"
  by (induction k arbitrary: bs prev) (auto intro!: longer)

lemma read_text_terms_calm: "guarded E n \<Longrightarrow> length bs \<le> n \<Longrightarrow> within n (read_text_terms E nd k d ps i bs)"
  by (induction k arbitrary: bs d ps i)
    (auto simp: Let_def intro!: within_basic str_reader.reads_calm read_postings_calm)

lemma read_text_terms_more: "grows t (read_text_terms E nd k d ps i bs) (read_text_terms E nd k d ps i (bs @ t))"
  by (induction k arbitrary: bs d ps i)
    (auto simp: Let_def intro!: longer str_reader.reads_more read_postings_more split: prod.split)

interpretation text_reader: reader readSegText
  by unfold_locales
    (auto simp: readSegText_def intro!: within_basic within_need[where m = 14] u32_reader.many_calm read_text_terms_calm longer
      u32_reader.many_more read_text_terms_more split: prod.split)

text \<open>The section of documents: its blobs are read from memory, without a budget, so only the second law holds.\<close>

lemma read_pos_more: "grows t (read_pos E n bs) (read_pos E n (bs @ t))"
  unfolding read_pos_def by (auto intro!: longer str_reader.reads_more)

lemma read_n_more:
  "(\<And>bs. grows t (rd bs) (rd (bs @ t))) \<Longrightarrow> grows t (read_n rd k bs) (read_n rd k (bs @ t))"
  by (induction k arbitrary: bs) (auto intro!: longer)

lemma more_placed [longer]:
  "grows t (case m of Got es p \<Rightarrow> Got es r | Bad e \<Rightarrow> Bad e | Crash \<Rightarrow> Crash)
     (case m of Got es p \<Rightarrow> Got es (r @ t) | Bad e \<Rightarrow> Bad e | Crash \<Rightarrow> Crash)"
  by (cases m) simp_all

lemma read_group_more: "grows t (read_group E n es bs) (read_group E n es (bs @ t))"
  unfolding read_group_def by (auto intro!: longer read_n_more read_pos_more)

lemma read_groups_more: "grows t (read_groups E n g es bs) (read_groups E n g es (bs @ t))"
  by (induction g arbitrary: es bs) (auto intro!: longer read_group_more)

lemma readDocsSection_more: "grows t (readDocsSection E n bs) (readDocsSection E n (bs @ t))"
  unfolding readDocsSection_def by (auto intro!: longer read_groups_more)

lemma readDocsSection_empty [simp]: "readDocsSection E n (writeEmptyDocsSection @ rest) = Got [] rest"
  by (simp add: readDocsSection_def writeEmptyDocsSection_def)

end
