(* ===== verification/VecBack.thy ===== *)
theory VecBack
  imports VecSnap
begin

text \<open>
  Catalogue, columns and postings of a segment come back from the snapshot: every tenant with its range,
  every position with its attributes, every term with its postings. What a segment must keep to for that
  is stated for each part; building a segment establishes it.
\<close>

subsection \<open>The catalogue\<close>

definition disk_of :: "tenant_range \<Rightarrow> disk_range" where
  "disk_of r = \<lparr>d_tenant = Tenant r, d_start = int (Start r), d_end = int (End r), d_kind = kind_byte (Kind r)\<rparr>"

definition range_fits :: "tenant_range \<Rightarrow> bool" where
  "range_fits r \<longleftrightarrow> Start r < 2 ^ 31 \<and> End r < 2 ^ 31"

lemma sint_small: "n < 2 ^ 31 \<Longrightarrow> sint (word_of_nat n :: 32 word) = int n"
  by (simp add: signed_of_nat signed_take_bit_int_eq_self)

interpretation range: codec write_range read_range "\<lambda>E. range_fits" disk_of 17
proof unfold_locales
  show "read_range E (write_range r @ rest) = Got (disk_of r) rest" if "range_fits r" for E r rest
  proof -
    have "readFull 1 (byte_of k # rest) = Got [byte_of k] rest" for k by (simp add: readFull_def)
    moreover have "kind_byte (Kind r) mod 256 = kind_byte (Kind r)" by (cases "Kind r") (simp_all add: kind_byte_def)
    ultimately show ?thesis using that by (simp add: read_range_def write_range_def range_fits_def sint_small disk_of_def)
  qed
qed (simp_all add: write_range_def)

definition catalog_fits :: "rd_env \<Rightarrow> tenant_catalog option \<Rightarrow> bool" where
  "catalog_fits E cat = (case cat of None \<Rightarrow> True | Some c \<Rightarrow>
     keys_distinct (ranges c) \<and> len_fits E (ranges c) \<and> (\<forall>(t, r) \<in> set (ranges c). Tenant r = t \<and> range_fits r) \<and>
     0 \<le> bruteThreshold c \<and> bruteThreshold c < 2 ^ 32)"

definition same_catalog :: "disk_catalog option \<Rightarrow> tenant_catalog option \<Rightarrow> bool" where
  "same_catalog d cat = (case cat of None \<Rightarrow> d = None | Some c \<Rightarrow> (case d of None \<Rightarrow> False | Some dc \<Rightarrow>
     d_threshold dc = bruteThreshold c \<and> (\<forall>t. map_of (d_ranges dc) t = map_option disk_of (cat_Lookup c t))))"

lemma readFull_byte [simp]: "readFull (Suc 0) (c # rest) = Got [c] rest"
  by (simp add: readFull_def)

lemma byte_01 [simp]: "byte_of (Suc 0) \<noteq> byte_of 0" "byte_of 0 \<noteq> byte_of (Suc 0)"
  by (simp_all add: byte_of_eq_iff)

lemma unat_thr: "0 \<le> i \<Longrightarrow> i < 2 ^ 32 \<Longrightarrow> int (unat (word_of_int i :: 32 word)) = i"
  by (simp add: unsigned_of_int take_bit_int_eq_self)

lemma read_catalog_write:
  assumes "catalog_fits E cat"
  obtains d where "read_catalog E (write_catalog cat @ rest) = Got d rest" "same_catalog d cat"
proof (cases cat)
  case None
  then show ?thesis using that by (simp add: read_catalog_def write_catalog_def same_catalog_def)
next
  case (Some c)
  have c: "keys_distinct (ranges c)" "len_fits E (ranges c)" "\<forall>(t, r) \<in> set (ranges c). Tenant r = t \<and> range_fits r"
    "0 \<le> bruteThreshold c" "bruteThreshold c < 2 ^ 32"
    using assms Some by (simp_all add: catalog_fits_def)
  have ms: "mset (cat_All c) = mset (map snd (ranges c))" by (simp add: cat_All_def)
  then have "mset (map (\<lambda>r. (Tenant r, r)) (cat_All c)) = mset (map ((\<lambda>r. (Tenant r, r)) \<circ> snd) (ranges c))"
    by (metis list.map_comp mset_map)
  also have "map ((\<lambda>r. (Tenant r, r)) \<circ> snd) (ranges c) = ranges c"
    using c(3) by (auto intro!: map_idI)
  finally have ms2: "mset (map (\<lambda>r. (Tenant r, r)) (cat_All c)) = mset (ranges c)" .
  have len: "length (cat_All c) = length (ranges c)" by (simp add: cat_All_def)
  then have l: "len_fits E (cat_All c)" using c(2) by (simp add: len_fits_def)
  define ps where "ps = map (\<lambda>r. (Tenant r, r)) (cat_All c)"
  have "mset (map fst ps) = mset (map fst (ranges c))" using ms2 by (simp only: ps_def mset_map)
  then have dist: "distinct (map fst ps)"
    using c(1) mset_eq_imp_distinct_iff unfolding keys_distinct_def by blast
  have "set ps = set (ranges c)" unfolding ps_def using ms2 by (rule mset_eq_setD)
  with dist c(1) have lk: "map_of ps = map_of (ranges c)"
    unfolding keys_distinct_def by (simp add: map_of_inject_set)
  have disk: "map (\<lambda>r. (d_tenant r, r)) (map disk_of (cat_All c)) = map (\<lambda>(t, r). (t, disk_of r)) ps"
    by (simp add: ps_def disk_of_def comp_def)
  have fill: "fill_map (map (\<lambda>(t, r). (t, disk_of r)) ps) = map (\<lambda>(t, r). (t, disk_of r)) ps"
    using dist by (intro fill_map_distinct) (simp add: comp_def case_prod_unfold)
  have "set (cat_All c) = snd ` set (ranges c)" using ms by (metis list.set_map set_mset_mset)
  then have fit: "\<forall>r \<in> set (cat_All c). range_fits r" using c(3) by auto
  define d where "d = \<lparr>d_ranges = map (\<lambda>(t, r). (t, disk_of r)) ps, d_threshold = bruteThreshold c\<rparr>"
  have "read_catalog E (write_catalog cat @ rest) = Got (Some d) rest"
    using range.reads_many[OF fit, of E rest] unat_thr[OF c(4,5)]
    by (simp add: read_catalog_def write_catalog_def Some len_fits_simps[OF l] range.budget_passes disk[simplified] fill d_def)
  moreover have "same_catalog (Some d) cat"
    using lk by (simp add: same_catalog_def Some d_def cat_Lookup_def map_of_map)
  ultimately show ?thesis using that by blast
qed

subsection \<open>The columns\<close>

definition cat_col_fits :: "rd_env \<Rightarrow> bytes \<times> bytes list \<times> 32 word list \<Rightarrow> bool" where
  "cat_col_fits E c = (case c of (n, vs, cs) \<Rightarrow> len_fits E n \<and> len_fits E vs \<and> (\<forall>v \<in> set vs. len_fits E v) \<and> len_fits E cs)"

definition num_col_fits :: "rd_env \<Rightarrow> bytes \<times> f64 list \<Rightarrow> bool" where
  "num_col_fits E c \<longleftrightarrow> len_fits E (fst c) \<and> len_fits E (snd c)"

interpretation cat_col: codec write_cat_col read_cat_col cat_col_fits "\<lambda>x. x" 12
proof unfold_locales
  show "read_cat_col E (write_cat_col c @ rest) = Got c rest" if "cat_col_fits E c" for E c rest
  proof -
    obtain n vs cs where c: "c = (n, vs, cs)" by (cases c)
    have f: "len_fits E n" "len_fits E vs" "\<forall>v \<in> set vs. len_fits E v" "len_fits E cs"
      using that by (simp_all add: cat_col_fits_def c)
    show ?thesis
      using str.reads_many[OF f(3), of "put_len cs @ SerializeVector cs @ rest"]
      by (simp add: c read_cat_col_def write_cat_col_def writeStr_read[OF f(1)] len_fits_simps[OF f(2)]
          len_fits_simps[OF f(4)] str.budget_passes)
  qed
qed (auto simp: write_cat_col_def writeStr_def split: prod.split)

interpretation num_col: codec write_num_col read_num_col num_col_fits "\<lambda>x. x" 8
proof unfold_locales
  show "read_num_col E (write_num_col c @ rest) = Got c rest" if "num_col_fits E c" for E c rest
  proof -
    have f: "len_fits E (fst c)" "len_fits E (snd c)" using that by (simp_all add: num_col_fits_def)
    show ?thesis by (simp add: read_num_col_def write_num_col_def writeStr_read[OF f(1)] len_fits_simps[OF f(2)])
  qed
qed (simp add: write_num_col_def writeStr_def, simp)

definition canon_cols :: "seg_attrs \<Rightarrow> seg_attrs" where
  "canon_cols sa = cols_from (map (cat_col sa) (sort (map fst (sa_cat sa)))) (map (col_of (sa_num sa)) (sort (map fst (sa_num sa))))"

definition cols_fit :: "rd_env \<Rightarrow> seg_attrs option \<Rightarrow> bool" where
  "cols_fit E a = (case a of None \<Rightarrow> True | Some sa \<Rightarrow>
     keys_distinct (sa_cat sa) \<and> keys_distinct (sa_num sa) \<and> len_fits E (sa_cat sa) \<and> len_fits E (sa_num sa) \<and>
     (\<forall>n \<in> set (map fst (sa_cat sa)). cat_col_fits E (cat_col sa n) \<and> map_of (sa_dict sa) n \<noteq> None) \<and>
     (\<forall>n \<in> set (map fst (sa_num sa)). num_col_fits E (col_of (sa_num sa) n)) \<and> validateSegMeta sa)"

text \<open>A map filled from one entry for each name.\<close>

lemma fill_map_keys: "distinct ns \<Longrightarrow> fill_map (map (\<lambda>n. (n, f n)) ns) = map (\<lambda>n. (n, f n)) ns"
  by (rule fill_map_distinct) (simp add: comp_def)

lemma canon_cols_eq:
  assumes "keys_distinct (sa_cat sa)" "keys_distinct (sa_num sa)"
  shows "canon_cols sa = \<lparr>sa_cat = map (\<lambda>n. (n, snd (col_of (sa_cat sa) n))) (sort (map fst (sa_cat sa))),
    sa_num = map (\<lambda>n. (n, snd (col_of (sa_num sa) n))) (sort (map fst (sa_num sa))),
    sa_dict = map (\<lambda>n. (n, dict_from (vals (dict_of sa n)))) (sort (map fst (sa_cat sa)))\<rparr>"
proof -
  have d: "distinct (sort (map fst (sa_cat sa)))" "distinct (sort (map fst (sa_num sa)))"
    using assms by (simp_all add: keys_distinct_def)
  have num: "fill_map (map (col_of m) ns) = map (\<lambda>n. (n, snd (col_of m n))) ns" if "distinct ns" for m :: "(bytes, f64 list) gomap" and ns
    using fill_map_keys[OF that, of "\<lambda>n. snd (col_of m n)"] by (simp add: col_of_def[abs_def])
  show ?thesis by (simp add: canon_cols_def cols_from_def cat_col_def comp_def fill_map_keys[OF d(1)] num[OF d(2)])
qed

lemma all_equal: "(case ls of [] \<Rightarrow> True | n # ls' \<Rightarrow> list_all (\<lambda>l. l = n) ls') \<longleftrightarrow> (\<exists>m. \<forall>l \<in> set ls. l = m)"
  by (cases ls) (auto simp: list_all_iff)

lemma validate_all: "validateSegMeta sa \<longleftrightarrow> (\<exists>m. (\<forall>c \<in> set (sa_cat sa). length (snd c) = m) \<and> (\<forall>c \<in> set (sa_num sa). length (snd c) = m))"
  unfolding validateSegMeta_def all_equal by auto

lemma canon_map_of_col: "map_of (map (\<lambda>n. (n, snd (col_of m n))) (sort (map fst m))) n = map_of m n"
proof (cases "map_of m n")
  case None
  then have "n \<notin> set (map fst m)" by (simp add: map_of_eq_None_iff)
  with None show ?thesis by (simp add: map_of_map_key)
next
  case (Some x)
  then have "n \<in> set (map fst m)" by (force dest: map_of_SomeD)
  with Some show ?thesis by (simp add: map_of_map_key col_of_def)
qed

lemma canon_cols_lookup:
  assumes "keys_distinct (sa_cat sa)" "keys_distinct (sa_num sa)"
  shows "map_of (sa_cat (canon_cols sa)) n = map_of (sa_cat sa) n" "map_of (sa_num (canon_cols sa)) n = map_of (sa_num sa) n"
    "n \<in> set (map fst (sa_cat sa)) \<Longrightarrow> map_of (sa_dict (canon_cols sa)) n = Some (dict_from (vals (dict_of sa n)))"
    "keys_distinct (sa_cat (canon_cols sa))" "keys_distinct (sa_num (canon_cols sa))"
  unfolding canon_cols_eq[OF assms] seg_attrs.simps canon_map_of_col
  using assms by (simp_all add: map_of_map_key keys_distinct_def comp_def)

lemma canon_validates:
  assumes d: "keys_distinct (sa_cat sa)" "keys_distinct (sa_num sa)" and v: "validateSegMeta sa"
  shows "validateSegMeta (canon_cols sa)"
proof -
  note l = canon_cols_lookup[OF d]
  have "set (sa_cat (canon_cols sa)) = set (sa_cat sa)" "set (sa_num (canon_cols sa)) = set (sa_num sa)"
    using l d map_of_inject_set[of "sa_cat (canon_cols sa)" "sa_cat sa"] map_of_inject_set[of "sa_num (canon_cols sa)" "sa_num sa"]
    unfolding keys_distinct_def by (simp_all add: fun_eq_iff)
  with v show ?thesis by (simp add: validate_all)
qed

lemma read_cols_write:
  assumes "cols_fit E a"
  shows "read_cols E (write_cols a @ rest) = Got (map_option canon_cols a) rest"
proof (cases a)
  case None
  then show ?thesis by (simp add: read_cols_def write_cols_def)
next
  case (Some sa)
  let ?cn = "sort (map fst (sa_cat sa))" and ?nn = "sort (map fst (sa_num sa))"
  have f: "keys_distinct (sa_cat sa)" "keys_distinct (sa_num sa)" "len_fits E (sa_cat sa)" "len_fits E (sa_num sa)"
    "validateSegMeta sa" "\<forall>c \<in> set (map (cat_col sa) ?cn). cat_col_fits E c"
    "\<forall>c \<in> set (map (col_of (sa_num sa)) ?nn). num_col_fits E c"
    using assms by (auto simp: cols_fit_def Some)
  have "validateSegMeta (cols_from (map (cat_col sa) ?cn) (map (col_of (sa_num sa)) ?nn))"
    using canon_validates[OF f(1,2,5)] by (simp add: canon_cols_def)
  moreover have "length (map (cat_col sa) ?cn) = length (sa_cat sa)" "length (map (col_of (sa_num sa)) ?nn) = length (sa_num sa)"
    by simp_all
  ultimately show ?thesis
    using cat_col.reads_many[OF f(6), of "put_len (sa_num sa) @ concat (map (write_num_col \<circ> col_of (sa_num sa)) ?nn) @ rest"]
      num_col.reads_many[OF f(7), of rest]
    by (simp add: Some read_cols_def write_cols_def len_fits_simps[OF f(3)] len_fits_simps[OF f(4)] canon_cols_def
        cat_col.budget_passes[of E "map (cat_col sa) ?cn", simplified]
        num_col.budget_passes[of E "map (col_of (sa_num sa)) ?nn", simplified])
qed

text \<open>A position decodes to the same attributes.\<close>

lemma decode_canon:
  assumes "cols_fit E a"
  shows "attr_view (decodeAt (map_option canon_cols a) i) = attr_view (decodeAt a i)"
proof (cases a)
  case None
  then show ?thesis by simp
next
  case (Some sa)
  have d: "keys_distinct (sa_cat sa)" "keys_distinct (sa_num sa)"
    and dict: "\<forall>n \<in> set (map fst (sa_cat sa)). map_of (sa_dict sa) n \<noteq> None"
    using assms by (auto simp: cols_fit_def Some)
  note l = canon_cols_lookup[OF d]
  have vals: "vals (the (map_of (sa_dict (canon_cols sa)) n)) = vals (the (map_of (sa_dict sa) n))"
    if "map_of (sa_cat sa) n = Some cs" for n cs
  proof -
    have n: "n \<in> set (map fst (sa_cat sa))" using map_of_SomeD[OF that] by force
    then obtain dd where "map_of (sa_dict sa) n = Some dd" using dict by blast
    then show ?thesis using l(3)[OF n] by (simp add: dict_of_def dict_from_def)
  qed
  have cat: "map_of (Cat (decodeAt (Some s) i)) n = (case map_of (sa_cat s) n of None \<Rightarrow> None
      | Some cs \<Rightarrow> if cs ! i \<noteq> attrMissing then Some (vals (the (map_of (sa_dict s) n)) ! unat (cs ! i)) else None)"
    if "keys_distinct (sa_cat s)" for s n
    using map_of_filter_map[OF that, of "\<lambda>n cs. vals (the (map_of (sa_dict s) n)) ! unat (cs ! i)" "\<lambda>cs. cs ! i \<noteq> attrMissing" n]
    by (simp add: decodeAt_def)
  have num: "map_of (Num (decodeAt (Some s) i)) n = (case map_of (sa_num s) n of None \<Rightarrow> None
      | Some vs \<Rightarrow> if \<not> f64_nan (vs ! i) then Some (vs ! i) else None)" if "keys_distinct (sa_num s)" for s n
    using map_of_filter_map[OF that, of "\<lambda>n vs. vs ! i" "\<lambda>vs. \<not> f64_nan (vs ! i)" n] by (simp add: decodeAt_def)
  have "map_of (Cat (decodeAt (Some (canon_cols sa)) i)) n = map_of (Cat (decodeAt (Some sa) i)) n" for n
    unfolding cat[OF d(1)] cat[OF l(4)] l(1) using vals[of n] by (simp split: option.split)
  moreover have "map_of (Num (decodeAt (Some (canon_cols sa)) i)) n = map_of (Num (decodeAt (Some sa) i)) n" for n
    unfolding num[OF d(2)] num[OF l(5)] l(2) ..
  ultimately show ?thesis by (simp add: Some attr_view_def num_view_def fun_eq_iff)
qed

subsection \<open>The postings\<close>

definition list_fits :: "rd_env \<Rightarrow> nat \<Rightarrow> posting list \<Rightarrow> bool" where
  "list_fits E nd pl \<longleftrightarrow> pl \<noteq> [] \<and> len_fits E pl \<and> sorted_wrt (<) (map (unat \<circ> p_doc) pl) \<and>
     (\<forall>p \<in> set pl. unat (p_doc p) < nd \<and> p_tf p \<noteq> 0)"

definition text_fits :: "rd_env \<Rightarrow> segment_text option \<Rightarrow> bool" where
  "text_fits E s = (case s of None \<Rightarrow> True | Some st \<Rightarrow>
     distinct (vals (t_dict st)) \<and> length (postings st) = length (vals (t_dict st)) \<and> len_fits E (docLen st) \<and>
     len_fits E (postings st) \<and> (\<forall>v \<in> set (vals (t_dict st)). v \<noteq> [] \<and> len_fits E v) \<and>
     (\<forall>pl \<in> set (postings st). list_fits E (length (docLen st)) pl))"

lemma read_postings_write:
  assumes "sorted_wrt (<) (map (unat \<circ> p_doc) pl)" "\<forall>p \<in> set pl. unat (p_doc p) < nd \<and> p_tf p \<noteq> 0"
    and "\<forall>p \<in> set pl. prev < int (unat (p_doc p))"
  shows "read_postings E nd (length pl) prev (concat (map write_posting pl) @ rest) = Got pl rest"
  using assms
proof (induction pl arbitrary: prev)
  case (Cons p pl)
  have lt: "\<forall>q \<in> set pl. int (unat (p_doc p)) < int (unat (p_doc q))"
    using Cons.prems(1) unfolding of_nat_less_iff by simp
  have "read_postings E nd (length pl) (int (unat (p_doc p))) (concat (map write_posting pl) @ rest) = Got pl rest"
    using Cons.IH[OF _ _ lt] Cons.prems by simp
  with Cons.prems show ?case by (simp add: write_posting_def[of p])
qed simp

lemma postings_long: "length pl * 6 \<le> length (concat (map write_posting pl) @ rest)"
  by (induction pl) (simp_all add: write_posting_def)

lemma text_term_long: "pl \<noteq> [] \<Longrightarrow> 14 \<le> length (write_text_term (v, pl))"
  using postings_long[of pl "[]"] by (cases pl) (auto simp: write_text_term_def writeStr_def)

lemma text_terms_long:
  "\<forall>tp \<in> set tps. snd tp \<noteq> [] \<Longrightarrow> length tps * 14 \<le> length (concat (map write_text_term tps) @ rest)"
proof (induction tps)
  case (Cons tp tps)
  then show ?case using text_term_long[of "snd tp" "fst tp"] by simp
qed simp

lemma read_text_terms_write:
  assumes "distinct (vals d @ map fst tps)" "dict_wf d" "i = length (vals d)" "length (vals d) + length tps < 2 ^ 32"
    and "\<forall>tp \<in> set tps. fst tp \<noteq> [] \<and> len_fits E (fst tp) \<and> list_fits E nd (snd tp)"
  shows "\<exists>d'. read_text_terms E nd (length tps) d ps i (concat (map write_text_term tps) @ rest) =
    Got (d', ps @ map snd tps) rest \<and> vals d' = vals d @ map fst tps \<and> dict_wf d'"
  using assms
proof (induction tps arbitrary: d ps i)
  case (Cons tp tps)
  have new: "map_of (code d) (fst tp) = None" using Cons.prems(1,2) by (simp add: dict_wf_None)
  define d1 where "d1 = snd (intern d (fst tp))"
  have int: "intern d (fst tp) = (word_of_nat i, d1)" and v1: "vals d1 = vals d @ [fst tp]"
    using Cons.prems(3) by (simp_all add: d1_def intern_new[OF new])
  have w1: "dict_wf d1" unfolding d1_def using Cons.prems(2,4) by (intro intern_wf) simp_all
  obtain d' where d': "read_text_terms E nd (length tps) d1 (ps @ [snd tp]) (Suc i) (concat (map write_text_term tps) @ rest) =
      Got (d', (ps @ [snd tp]) @ map snd tps) rest" "vals d' = vals d1 @ map fst tps" "dict_wf d'"
    using Cons.IH[of d1 "Suc i" "ps @ [snd tp]"] Cons.prems w1 v1 by auto
  have f: "fst tp \<noteq> []" "len_fits E (fst tp)" "snd tp \<noteq> []" "len_fits E (snd tp)"
    and pl: "sorted_wrt (<) (map (unat \<circ> p_doc) (snd tp))" "\<forall>p \<in> set (snd tp). unat (p_doc p) < nd \<and> p_tf p \<noteq> 0"
    using Cons.prems(5) by (simp_all add: list_fits_def)
  have "\<forall>p \<in> set (snd tp). - 1 < int (unat (p_doc p))" by (intro ballI) linarith
  from read_postings_write[OF pl this]
  have "read_postings E nd (length (snd tp)) (- 1) (concat (map write_posting (snd tp)) @ r) = Got (snd tp) r" for r .
  moreover have "needBytes E (length (snd tp)) 6 (concat (map write_posting (snd tp)) @ r) k = k"
    for r and k :: "(attr_dict \<times> posting list list) rres"
    using postings_long by (rule needBytes_ok) simp
  ultimately show ?case
    using d' v1 f(1,3) by (simp add: write_text_term_def[of tp] writeStr_read[OF f(2)] int len_fits_simps[OF f(4)])
qed simp

definition same_text :: "segment_text option \<Rightarrow> segment_text option \<Rightarrow> bool" where
  "same_text t s = (case s of None \<Rightarrow> t = None | Some st \<Rightarrow> (case t of None \<Rightarrow> False | Some st' \<Rightarrow>
     vals (t_dict st') = vals (t_dict st) \<and> postings st' = postings st \<and> docLen st' = docLen st \<and> dict_wf (t_dict st')))"

lemma same_text_decode: "same_text t s \<Longrightarrow> decodeTerms t = decodeTerms s"
  by (auto simp: same_text_def decodeTerms_def split: option.splits)

lemma readSegText_write:
  assumes "text_fits E s"
  obtains t where "readSegText E (writeSegText s @ rest) = Got t rest" "same_text t s"
proof (cases s)
  case None
  then show ?thesis using that by (simp add: readSegText_def writeSegText_def same_text_def)
next
  case (Some st)
  let ?vs = "vals (t_dict st)" and ?ps = "postings st" and ?nd = "length (docLen st)"
  have f: "distinct ?vs" "length ?ps = length ?vs" "len_fits E (docLen st)" "len_fits E ?ps"
    "\<forall>v \<in> set ?vs. v \<noteq> [] \<and> len_fits E v" "\<forall>pl \<in> set ?ps. list_fits E ?nd pl"
    using assms by (simp_all add: text_fits_def Some)
  let ?tps = "zip ?vs ?ps"
  have body: "map (\<lambda>i. write_text_term (?vs ! i, ?ps ! i)) [0..<length ?ps] = map write_text_term ?tps"
    using f(2) by (auto intro!: nth_equalityI)
  have tp: "\<forall>tp \<in> set ?tps. fst tp \<noteq> [] \<and> len_fits E (fst tp) \<and> list_fits E ?nd (snd tp)"
    using f(5,6) by (auto dest: set_zip_leftD set_zip_rightD)
  have "\<exists>d'. read_text_terms E ?nd (length ?tps) newAttrDict [] 0 (concat (map write_text_term ?tps) @ rest) =
      Got (d', [] @ map snd ?tps) rest \<and> vals d' = vals newAttrDict @ map fst ?tps \<and> dict_wf d'"
    using f(1,2,4) tp by (intro read_text_terms_write) (simp_all add: newAttrDict_def dict_wf_def len_fits_def)
  then obtain d' where d': "read_text_terms E ?nd (length ?ps) newAttrDict [] 0 (concat (map write_text_term ?tps) @ rest) = Got (d', ?ps) rest"
      "vals d' = ?vs" "dict_wf d'"
    using f(2) by (auto simp: newAttrDict_def)
  have "\<forall>tp \<in> set ?tps. snd tp \<noteq> []" using tp by (auto simp: list_fits_def)
  from text_terms_long[OF this] have nb: "needBytes E (length ?ps) 14 (concat (map write_text_term ?tps) @ rest) k = k"
    for k :: "segment_text option rres"
    using f(2) by (intro needBytes_ok) simp_all
  define t where "t = Some \<lparr>t_dict = d', postings = ?ps, docLen = docLen st,
    nText = length (filter (\<lambda>dl. dl > 0) (docLen st)), totalLen = sum_list (map ucast (docLen st))\<rparr>"
  have "readSegText E (writeSegText s @ rest) = Got t rest"
    using u32.reads_many[of "docLen st" "put_len ?ps @ concat (map write_text_term ?tps) @ rest"] d'(1)
    by (simp add: Some readSegText_def writeSegText_def body nb len_fits_simps[OF f(3)] len_fits_simps[OF f(4)]
        u32.budget_passes t_def)
  moreover have "same_text t s" using d' by (simp add: same_text_def t_def Some)
  ultimately show ?thesis using that by blast
qed

end
