(* ===== verification/VecSave.thy ===== *)
theory VecSave
  imports VecBack VecRefine Crc
begin

text \<open>
  The binary snapshot of the vector store (\<open>vector/leveled_snapshot.go\<close>): \<open>SaveBinary\<close> writes the levels
  and the tombstones, \<open>LoadBinary\<close> reads every version of the format, checks the CRC and only then
  replaces the levels. What the snapshot needs and the store does not keep here is in an environment: the
  edges and codes of a segment's graph, the order in which a map is walked, the arithmetic of SQ8.
\<close>

subsection \<open>The environment and the state\<close>

record seg_graph =
  g_dim :: nat
  g_maxLevel :: nat
  g_entry :: "32 word"
  g_layers :: "flat_layer list"
  g_min :: "f32 list"
  g_scale :: "f32 list"
  g_codes :: bytes

text \<open>The float32 operations of the code; \<open>f_int\<close> is the conversion to \<open>int\<close>.\<close>

record f32_ops =
  f_add :: "f32 \<Rightarrow> f32 \<Rightarrow> f32"
  f_sub :: "f32 \<Rightarrow> f32 \<Rightarrow> f32"
  f_mul :: "f32 \<Rightarrow> f32 \<Rightarrow> f32"
  f_div :: "f32 \<Rightarrow> f32 \<Rightarrow> f32"
  f_of_nat :: "nat \<Rightarrow> f32"
  f_int :: "f32 \<Rightarrow> int"

definition f32_half :: f32 where "f32_half = 0x3F000000"

definition f32_is_zero :: "f32 \<Rightarrow> bool" where
  "f32_is_zero x \<longleftrightarrow> x = 0 \<or> x = 0x80000000"

text \<open>A row of codes as floats, and a vector as codes: a constant dimension gives code 0, the rest rounds to the nearest code.\<close>

definition dequant_row :: "f32_ops \<Rightarrow> f32 list \<Rightarrow> f32 list \<Rightarrow> bytes \<Rightarrow> f32 list" where
  "dequant_row F mn sc cs = map (\<lambda>(m, s, c). f_add F m (f_mul F (f_of_nat F (nat_of_byte c)) s)) (zip mn (zip sc cs))"

definition clamp_code :: "int \<Rightarrow> char" where
  "clamp_code q = byte_of (nat (if q < 0 then 0 else if q > 255 then 255 else q))"

definition requant_row :: "f32_ops \<Rightarrow> f32 list \<Rightarrow> f32 list \<Rightarrow> f32 list \<Rightarrow> bytes" where
  "requant_row F mn sc v =
     map (\<lambda>(m, s, x). if f32_is_zero s then byte_of 0 else clamp_code (f_int F (f_add F (f_div F (f_sub F x m) s) f32_half)))
       (zip mn (zip sc v))"

record snap_env =
  se_env :: venv
  se_rd :: rd_env
  se_order :: "bytes set \<Rightarrow> bytes list"
  se_f32 :: f32_ops
  se_topo :: "segment \<Rightarrow> seg_graph"

text \<open>The store with the graph of each segment, the time and the watermark of the snapshot.\<close>

record snap_store =
  ss_store :: vstore
  ss_graph :: "nat \<Rightarrow> seg_graph"
  ss_time :: "64 word"
  ss_lsn :: "64 word"

definition SetSnapshotWatermark :: "64 word \<Rightarrow> snap_store \<Rightarrow> snap_store" where
  "SetSnapshotWatermark lsn ss = ss\<lparr>ss_lsn := lsn\<rparr>"

definition leveledMagicPrefix :: bytes where "leveledMagicPrefix = ''LVLV''"
definition leveledMagic :: bytes where "leveledMagic = leveledMagicPrefix @ map byte_of [0, 9, 0, 0]"

definition segTypeFrozen :: bytes where "segTypeFrozen = [byte_of 0]"
definition segTypeHNSWFlat :: bytes where "segTypeHNSWFlat = [byte_of 1]"
definition segTypeFrozenSQ8 :: bytes where "segTypeFrozenSQ8 = [byte_of 2]"

subsection \<open>Saving\<close>

definition frozen_of :: "seg_graph \<Rightarrow> segment \<Rightarrow> frozen_graph" where
  "frozen_of g seg =
     \<lparr>fg_n = length (sg_keys seg), fg_dim = g_dim g, fg_maxLevel = g_maxLevel g, fg_entry = g_entry g,
      fg_data = concat (sg_rows seg), fg_layers = g_layers g, fg_keys = buildInternedKeys (sg_keys seg)\<rparr>"

definition sq_of :: "seg_graph \<Rightarrow> segment \<Rightarrow> frozen_sq" where
  "sq_of g seg =
     \<lparr>sq_n = length (sg_keys seg), sq_dim = g_dim g, sq_maxLevel = g_maxLevel g, sq_entry = g_entry g,
      sq_min = g_min g, sq_scale = g_scale g, sq_codes = g_codes g, sq_layers = g_layers g,
      sq_keys = buildInternedKeys (sg_keys seg)\<rparr>"

text \<open>A vector of a flat segment with its key, attributes and terms; positions without a key are left out.\<close>

definition write_hnsw_entry :: "nat \<Rightarrow> segment \<Rightarrow> nat \<Rightarrow> bytes" where
  "write_hnsw_entry dim seg i =
     write_key (sg_keys seg ! i) @
     (if dim > 0 \<and> length (sg_rows seg ! i) > 0 then SerializeVector (sg_rows seg ! i) else []) @
     writeAttrs (decodeAt (sg_attrs seg) i) @ writeTerms (termsAt (decodeTerms (sg_text seg)) i)"

definition hnsw_ids :: "segment \<Rightarrow> nat list" where
  "hnsw_ids seg = filter (\<lambda>i. sg_keys seg ! i \<noteq> []) [0..<length (sg_keys seg)]"

definition write_seg :: "(nat \<Rightarrow> seg_graph) \<Rightarrow> nat \<Rightarrow> seg_ref \<Rightarrow> bytes" where
  "write_seg gr dim r =
     (case r of (i, seg) \<Rightarrow>
        (case sg_kind seg of
           Frozen \<Rightarrow> segTypeFrozen @ WriteGraphTo (frozen_of (gr i) seg) @ writeSegMeta (sg_cat seg) (sg_attrs seg) @
             writeSegText (sg_text seg) @ writeEmptyDocsSection
         | FrozenSQ \<Rightarrow> segTypeFrozenSQ8 @ WriteGraphToSQ (sq_of (gr i) seg) @ writeSegMeta (sg_cat seg) (sg_attrs seg) @
             writeSegText (sg_text seg) @ writeEmptyDocsSection
         | Hnsw \<Rightarrow> segTypeHNSWFlat @ put_len (hnsw_ids seg) @ concat (map (write_hnsw_entry dim seg) (hnsw_ids seg)) @
             writeEmptyDocsSection))"

definition write_level :: "(nat \<Rightarrow> seg_graph) \<Rightarrow> nat \<Rightarrow> seg_ref list \<Rightarrow> bytes" where
  "write_level gr dim l = put_len l @ concat (map (write_seg gr dim) l)"

definition snapshot_payload :: "snap_env \<Rightarrow> 64 word \<Rightarrow> snap_store \<Rightarrow> bytes" where
  "snapshot_payload S now ss =
     (let s = ss_store ss; ks = se_order S (v_tombs s) in
      leveledMagic @ putU64 now @ putU64 (ss_lsn ss) @ putU32 (word_of_nat (v_dim s)) @ [byte_of maxLevels] @
      concat (map (write_level (ss_graph ss) (v_dim s)) (v_levels s)) @ put_len ks @ concat (map write_key ks))"

definition SaveBinary :: "snap_env \<Rightarrow> 64 word \<Rightarrow> snap_store \<Rightarrow> bytes" where
  "SaveBinary S now ss = (let p = snapshot_payload S now ss in p @ putU32 (crc32 p))"

subsection \<open>Loading\<close>

datatype staged =
  ReadyFrozen frozen_graph "disk_catalog option" "seg_attrs option" "segment_text option"
| ReadySQ frozen_sq "disk_catalog option" "seg_attrs option" "segment_text option"
| RawEntries "delta_entry list"

text \<open>Unfolding a segment indexes its keys and columns by position: beyond their ends the code panics.\<close>

definition positions_ok :: "nat \<Rightarrow> interned_keys \<Rightarrow> seg_attrs option \<Rightarrow> bool" where
  "positions_ok n ks a \<longleftrightarrow> n \<le> ik_count (offs ks) \<and>
     (case a of None \<Rightarrow> True | Some sa \<Rightarrow>
        list_all (\<lambda>i. ik_view ks i = [] \<or>
          (list_all (\<lambda>(m, cs). i < length cs \<and> (cs ! i = attrMissing \<or> unat (cs ! i) < length (vals (dict_of sa m)))) (sa_cat sa) \<and>
           list_all (\<lambda>(m, vs). i < length vs) (sa_num sa))) [0..<n])"

definition unfold_entries :: "nat \<Rightarrow> interned_keys \<Rightarrow> (nat \<Rightarrow> f32 list) \<Rightarrow> seg_attrs option \<Rightarrow> segment_text option \<Rightarrow> delta_entry list" where
  "unfold_entries n ks row a t =
     map (\<lambda>i. if ik_view ks i = [] then no_entry
        else \<lparr>Key = ik_view ks i, Vec = row i, Attrs = decodeAt a i, Terms = termsAt (decodeTerms t) i\<rparr>) [0..<n]"

definition row_of :: "nat \<Rightarrow> 'a list \<Rightarrow> nat \<Rightarrow> 'a list" where
  "row_of dim data i = take dim (drop (i * dim) data)"

definition frozenEntries :: "frozen_graph \<Rightarrow> seg_attrs option \<Rightarrow> segment_text option \<Rightarrow> delta_entry list" where
  "frozenEntries fg a t = unfold_entries (fg_n fg) (fg_keys fg) (row_of (fg_dim fg) (fg_data fg)) a t"

definition dequantAt :: "snap_env \<Rightarrow> frozen_sq \<Rightarrow> nat \<Rightarrow> f32 list" where
  "dequantAt S fg i =
     (if sq_dim fg = 0 \<or> i \<ge> sq_n fg then []
      else dequant_row (se_f32 S) (sq_min fg) (sq_scale fg) (row_of (sq_dim fg) (sq_codes fg) i))"

definition frozenSQEntries :: "snap_env \<Rightarrow> frozen_sq \<Rightarrow> seg_attrs option \<Rightarrow> segment_text option \<Rightarrow> delta_entry list" where
  "frozenSQEntries S fg a t = unfold_entries (sq_n fg) (sq_keys fg) (dequantAt S fg) a t"

definition put_row :: "nat \<Rightarrow> nat \<Rightarrow> 'a list \<Rightarrow> 'a list \<Rightarrow> 'a list" where
  "put_row dim i row data = take (i * dim) data @ row @ drop (Suc i * dim) data"

definition restores :: "nat \<Rightarrow> nat \<Rightarrow> delta_entry list \<Rightarrow> nat \<Rightarrow> bool" where
  "restores n dim docs i \<longleftrightarrow> Key (docs ! i) \<noteq> [] \<and> length (Vec (docs ! i)) = dim \<and> i < n"

definition restoreDocVectors :: "frozen_graph \<Rightarrow> delta_entry list \<Rightarrow> frozen_graph" where
  "restoreDocVectors fg docs =
     fg\<lparr>fg_data := foldl (\<lambda>data i. put_row (fg_dim fg) i (Vec (docs ! i)) data) (fg_data fg)
       (filter (restores (fg_n fg) (fg_dim fg) docs) [0..<length docs])\<rparr>"

definition restoreDocVectorsSQ :: "snap_env \<Rightarrow> frozen_sq \<Rightarrow> delta_entry list \<Rightarrow> frozen_sq" where
  "restoreDocVectorsSQ S fg docs =
     fg\<lparr>sq_codes := foldl (\<lambda>cs i. put_row (sq_dim fg) i (requant_row (se_f32 S) (sq_min fg) (sq_scale fg) (Vec (docs ! i))) cs) (sq_codes fg)
       (filter (restores (sq_n fg) (sq_dim fg) docs) [0..<length docs])\<rparr>"

definition read_layers_of :: "rd_env \<Rightarrow> nat \<Rightarrow> bytes \<Rightarrow> ((disk_catalog option \<times> seg_attrs option) \<times> segment_text option) rres" where
  "read_layers_of E v bs =
     rbind (if v \<ge> 2 then readSegMeta E bs else Got (None, None) bs) (\<lambda>m r1.
     rbind (if v \<ge> 7 then readSegText E r1 else Got None r1) (\<lambda>t r2. Got (m, t) r2))"

definition read_frozen :: "rd_env \<Rightarrow> nat \<Rightarrow> bytes \<Rightarrow> staged list rres" where
  "read_frozen E v bs =
     rbind (ReadFrozenGraph E bs) (\<lambda>fg r1.
     rbind (read_layers_of E v r1) (\<lambda>((c, a), t) r2.
     rbind (if v \<ge> 8 then readDocsSection E (fg_n fg) r2 else Got [] r2) (\<lambda>docs r3.
     if hasAnyDoc docs then
       (if \<not> positions_ok (fg_n fg) (fg_keys fg) a then Crash
        else (let all = mergeDocsIntoEntries (frozenEntries fg a t) docs in
          Got [ReadyFrozen (restoreDocVectors fg docs) c (buildSegmentAttrs all []) (buildSegmentText all)] r3))
     else Got [ReadyFrozen fg c a t] r3)))"

definition read_sq :: "snap_env \<Rightarrow> rd_env \<Rightarrow> nat \<Rightarrow> bytes \<Rightarrow> staged list rres" where
  "read_sq S E v bs =
     rbind (ReadFrozenGraphSQ E bs) (\<lambda>fg r1.
     rbind (read_layers_of E v r1) (\<lambda>((c, a), t) r2.
     rbind (if v \<ge> 9 then readDocsSection E (sq_n fg) r2 else Got [] r2) (\<lambda>docs r3.
     if hasAnyDoc docs then
       (if \<not> positions_ok (sq_n fg) (sq_keys fg) a then Crash
        else (let all = mergeDocsIntoEntries (frozenSQEntries S fg a t) docs in
          Got [ReadySQ (restoreDocVectorsSQ S fg docs) c (buildSegmentAttrs all []) (buildSegmentText all)] r3))
     else Got [ReadySQ fg c a t] r3)))"

definition read_hnsw_entry :: "nat \<Rightarrow> nat \<Rightarrow> rd_env \<Rightarrow> bytes \<Rightarrow> delta_entry rres" where
  "read_hnsw_entry v dim E bs =
     rbind (read_key E bs) (\<lambda>key r1.
     go_make E dim (rbind (if dim > 0 then read_slab dim r1 else Got [] r1) (\<lambda>vec r2.
     rbind (if v \<ge> 3 then readAttrs E r2 else Got no_attrs r2) (\<lambda>a r3.
     rbind (if v \<ge> 7 then readTerms E r3 else Got [] r3) (\<lambda>ts r4.
     Got \<lparr>Key = key, Vec = vec, Attrs = a, Terms = ts\<rparr> r4)))))"

definition read_hnsw :: "rd_env \<Rightarrow> nat \<Rightarrow> nat \<Rightarrow> bytes \<Rightarrow> staged list rres" where
  "read_hnsw E v dim bs =
     rbind (getU32 bs) (\<lambda>nv r1.
     needBytes E (unat nv) (2 + dim * 4) r1 (go_make E (unat nv)
       (rbind (read_n (read_hnsw_entry v dim E) (unat nv) r1) (\<lambda>es r2.
        rbind (if v \<ge> 9 then readDocsSection E (length es) r2 else Got [] r2) (\<lambda>docs r3.
        let es' = (if hasAnyDoc docs then mergeDocsIntoEntries es docs else es) in
        Got (if es' = [] then [] else [RawEntries es']) r3)))))"

definition read_seg :: "snap_env \<Rightarrow> nat \<Rightarrow> nat \<Rightarrow> rd_env \<Rightarrow> bytes \<Rightarrow> staged list rres" where
  "read_seg S v dim E bs =
     rbind (readFull 1 bs) (\<lambda>st r.
       if st = segTypeFrozen then read_frozen E v r
       else if st = segTypeFrozenSQ8 then read_sq S E v r
       else if st = segTypeHNSWFlat then read_hnsw E v dim r
       else Bad BadSegType)"

definition read_level :: "snap_env \<Rightarrow> nat \<Rightarrow> nat \<Rightarrow> rd_env \<Rightarrow> bytes \<Rightarrow> staged list rres" where
  "read_level S v dim E bs =
     rbind (getU32 bs) (\<lambda>n r.
       if n = 0 then Got [] r
       else needBytes E (unat n) 1 r (rbind (read_n (read_seg S v dim E) (unat n) r) (\<lambda>xs r'. Got (concat xs) r')))"

definition read_tombs :: "rd_env \<Rightarrow> bytes \<Rightarrow> bytes set option rres" where
  "read_tombs E bs =
     rbind (getU32 bs) (\<lambda>n r.
     needBytes E (unat n) 2 r
       (if n = 0 then Got None r
        else go_make E (unat n) (rbind (read_n (read_key E) (unat n) r) (\<lambda>ks r'. Got (Some (set ks)) r'))))"

record snapshot =
  sn_version :: nat
  sn_time :: "64 word"
  sn_lsn :: "64 word"
  sn_dim :: nat
  sn_levels :: "staged list list"
  sn_tombs :: "bytes set option"

definition read_snapshot :: "snap_env \<Rightarrow> rd_env \<Rightarrow> bytes \<Rightarrow> snapshot rres" where
  "read_snapshot S E bs =
     rbind (readFull 8 bs) (\<lambda>magic r1.
     if take 4 magic \<noteq> leveledMagicPrefix then Bad BadMagic
     else (let v = nat_of_byte (magic ! 5) in
       if v < 1 \<or> v > 9 then Bad BadVersion
       else
         rbind (getU64 r1) (\<lambda>time r2.
         rbind (if v \<ge> 6 then getU64 r2 else Got 0 r2) (\<lambda>lsn r3.
         rbind (getU32 r3) (\<lambda>dim r4.
         rbind (readFull 1 r4) (\<lambda>nl r5.
         if le_dec nl > maxLevels then Bad BadLevels
         else
           rbind (read_n (read_level S v (unat dim) E) (le_dec nl) r5) (\<lambda>ls r6.
           rbind (if v \<ge> 4 then read_tombs E r6 else Got None r6) (\<lambda>ts r7.
           Got \<lparr>sn_version = v, sn_time = time, sn_lsn = lsn, sn_dim = unat dim, sn_levels = ls, sn_tombs = ts\<rparr> r7))))))))"

text \<open>The trailer is read past the hash.\<close>

definition check_crc :: "bytes \<Rightarrow> snapshot \<Rightarrow> bytes \<Rightarrow> snapshot rres" where
  "check_crc bs sn r =
     (if sn_version sn \<ge> 5 then
        rbind (getU32 r) (\<lambda>want r'. if want = crc32 (take (length bs - length r) bs) then Got sn r' else Bad BadCRC)
      else Got sn r)"

definition catalog_of :: "disk_catalog \<Rightarrow> tenant_catalog" where
  "catalog_of dc =
     \<lparr>ranges = map (\<lambda>(t, r). (t, \<lparr>Tenant = d_tenant r, Start = nat (d_start r), End = nat (d_end r),
        Kind = (if d_kind r = 0 then IndexBrute else IndexGraph)\<rparr>)) (d_ranges dc), bruteThreshold = d_threshold dc\<rparr>"

definition load_frozen :: "frozen_graph \<Rightarrow> disk_catalog option \<Rightarrow> seg_attrs option \<Rightarrow> segment_text option \<Rightarrow> segment \<times> seg_graph" where
  "load_frozen fg c a t =
     (\<lparr>sg_kind = Frozen, sg_keys = map (ik_view (fg_keys fg)) [0..<fg_n fg],
       sg_rows = map (row_of (fg_dim fg) (fg_data fg)) [0..<fg_n fg], sg_cat = map_option catalog_of c, sg_attrs = a, sg_text = t\<rparr>,
      \<lparr>g_dim = fg_dim fg, g_maxLevel = fg_maxLevel fg, g_entry = fg_entry fg, g_layers = fg_layers fg,
       g_min = [], g_scale = [], g_codes = []\<rparr>)"

definition load_sq :: "snap_env \<Rightarrow> frozen_sq \<Rightarrow> disk_catalog option \<Rightarrow> seg_attrs option \<Rightarrow> segment_text option \<Rightarrow> segment \<times> seg_graph" where
  "load_sq S fg c a t =
     (\<lparr>sg_kind = FrozenSQ, sg_keys = map (ik_view (sq_keys fg)) [0..<sq_n fg],
       sg_rows = map (dequantAt S fg) [0..<sq_n fg], sg_cat = map_option catalog_of c, sg_attrs = a, sg_text = t\<rparr>,
      \<lparr>g_dim = sq_dim fg, g_maxLevel = sq_maxLevel fg, g_entry = sq_entry fg, g_layers = sq_layers fg,
       g_min = sq_min fg, g_scale = sq_scale fg, g_codes = sq_codes fg\<rparr>)"

text \<open>The commit: a segment of entries is built now; one that cannot be built is left out.\<close>

definition load_staged :: "snap_env \<Rightarrow> nat \<Rightarrow> staged \<Rightarrow> (segment \<times> seg_graph) list" where
  "load_staged S dim st =
     (case st of
        ReadyFrozen fg c a t \<Rightarrow> [load_frozen fg c a t]
      | ReadySQ fg c a t \<Rightarrow> [load_sq S fg c a t]
      | RawEntries es \<Rightarrow>
          (case buildSegment (e_vec (se_env S)) (e_lib (se_env S)) es dim of
             None \<Rightarrow> [] | Some seg \<Rightarrow> [(seg, se_topo S seg)]))"

fun number_levels :: "nat \<Rightarrow> 'a list list \<Rightarrow> (nat \<times> 'a) list list" where
  "number_levels n [] = []"
| "number_levels n (l # ls) = zip [n..<n + length l] l # number_levels (n + length l) ls"

definition commit_snapshot :: "snap_env \<Rightarrow> snapshot \<Rightarrow> snap_store \<Rightarrow> snap_store" where
  "commit_snapshot S sn ss =
     (let s = ss_store ss; n = v_next s; dim = sn_dim sn;
          lv = number_levels n (map (\<lambda>l. concat (map (load_staged S dim) l)) (sn_levels sn));
          m = n + length (concat lv) in
      \<lparr>ss_store = s\<lparr>v_dim := dim,
         v_levels := map (\<lambda>l. map (\<lambda>(i, seg, g). (i, seg)) l) lv @ replicate (maxLevels - length lv) [],
         v_tombs := (case sn_tombs sn of None \<Rightarrow> v_tombs s | Some t \<Rightarrow> t),
         v_delta := (if dim > 0 then Some (fresh_delta (se_env S) m dim) else v_delta s),
         v_next := m + 1\<rparr>,
       ss_graph = (\<lambda>i. case map_of (concat lv) i of None \<Rightarrow> ss_graph ss i | Some (seg, g) \<Rightarrow> g),
       ss_time = sn_time sn, ss_lsn = sn_lsn sn\<rparr>)"

text \<open>\<open>Inl\<close> is the error; \<open>None\<close> is the crash of the process.\<close>

definition LoadBinary :: "snap_env \<Rightarrow> bytes \<Rightarrow> snap_store \<Rightarrow> (rd_error + snap_store) option" where
  "LoadBinary S bs ss =
     (case read_snapshot S (se_rd S) bs of
        Crash \<Rightarrow> None
      | Bad e \<Rightarrow> Some (Inl e)
      | Got sn r \<Rightarrow>
          (case check_crc bs sn r of
             Crash \<Rightarrow> None
           | Bad e \<Rightarrow> Some (Inl e)
           | Got sn' r' \<Rightarrow> Some (Inr (commit_snapshot S sn' ss))))"

subsection \<open>What a segment must keep to\<close>

definition hnsw_entries :: "segment \<Rightarrow> delta_entry list" where
  "hnsw_entries seg = map (\<lambda>i. \<lparr>Key = sg_keys seg ! i, Vec = sg_rows seg ! i, Attrs = canon_attrs (decodeAt (sg_attrs seg) i),
     Terms = termsAt (decodeTerms (sg_text seg)) i\<rparr>) [0..<length (sg_keys seg)]"

definition flat_saveable :: "snap_env \<Rightarrow> nat \<Rightarrow> segment \<Rightarrow> bool" where
  "flat_saveable S dim seg \<longleftrightarrow> len_fits (se_rd S) (sg_keys seg) \<and> (\<forall>k \<in> set (sg_keys seg). key_fits k) \<and> dim \<le> big (se_rd S) \<and>
     VecView.fits (hnsw_entries seg) \<and> lib_ok (e_lib (se_env S)) \<and> \<not> UseSQ (e_vec (se_env S)) \<and>
     (\<forall>i < length (sg_keys seg). attrs_fit (se_rd S) (decodeAt (sg_attrs seg) i) \<and>
        terms_fit (se_rd S) (termsAt (decodeTerms (sg_text seg)) i))"

definition frozen_saveable :: "snap_env \<Rightarrow> nat \<Rightarrow> seg_graph \<Rightarrow> segment \<Rightarrow> bool" where
  "frozen_saveable S dim g seg \<longleftrightarrow> keys_fit (se_rd S) (sg_keys seg) \<and> cols_fit (se_rd S) (sg_attrs seg) \<and>
     text_fits (se_rd S) (sg_text seg) \<and> catalog_fits (se_rd S) (sg_cat seg) \<and> g_dim g = dim \<and> g_maxLevel g < 2 ^ 32 \<and>
     layers_fit (se_rd S) (g_layers g) \<and> length (sg_keys seg) * dim \<le> big (se_rd S)"

definition sq_saveable :: "snap_env \<Rightarrow> nat \<Rightarrow> seg_graph \<Rightarrow> segment \<Rightarrow> bool" where
  "sq_saveable S dim g seg \<longleftrightarrow> frozen_saveable S dim g seg \<and> length (g_min g) = dim \<and> length (g_scale g) = dim \<and>
     length (g_codes g) = length (sg_keys seg) * dim \<and>
     sg_rows seg = map (\<lambda>i. dequant_row (se_f32 S) (g_min g) (g_scale g) (row_of dim (g_codes g) i)) [0..<length (sg_keys seg)]"

definition seg_saveable :: "snap_env \<Rightarrow> nat \<Rightarrow> seg_graph \<Rightarrow> segment \<Rightarrow> bool" where
  "seg_saveable S dim g seg \<longleftrightarrow> seg_wf dim seg \<and> sg_keys seg \<noteq> [] \<and> 0 < dim \<and> dim < 2 ^ 32 \<and>
     (case sg_kind seg of Frozen \<Rightarrow> frozen_saveable S dim g seg | FrozenSQ \<Rightarrow> sq_saveable S dim g seg
      | Hnsw \<Rightarrow> flat_saveable S dim seg)"

text \<open>A segment and what reading it back has given: the same documents.\<close>

definition comes_back :: "snap_env \<Rightarrow> nat \<Rightarrow> staged list \<Rightarrow> seg_ref \<Rightarrow> bool" where
  "comes_back S dim xs r \<longleftrightarrow> (\<exists>st seg' g. xs = [st] \<and> load_staged S dim st = [(seg', g)] \<and> seg_doc seg' = seg_doc (snd r) \<and>
     seg_wf dim seg')"

lemma row_of_concat:
  "\<forall>row \<in> set rows. length row = dim \<Longrightarrow> i < length rows \<Longrightarrow> row_of dim (concat rows) i = rows ! i"
proof (induction rows arbitrary: i)
  case (Cons row rows)
  show ?case
  proof (cases i)
    case 0
    then show ?thesis using Cons.prems(1) by (simp add: row_of_def)
  next
    case (Suc j)
    with Cons show ?thesis by (simp add: row_of_def)
  qed
qed simp

lemma length_concat_rows: "\<forall>row \<in> set rows. length row = dim \<Longrightarrow> length (concat rows) = length rows * dim"
  by (induction rows) simp_all

lemma views_back: "keys_fit E ks \<Longrightarrow> map (ik_view (buildInternedKeys ks)) [0..<length ks] = ks"
  by (auto simp: keys_fit_def view_built intro!: nth_equalityI)

text \<open>Documents depend on the kind, the keys, the rows and on what a position decodes to.\<close>

lemma same_docs:
  assumes "sg_kind seg' = sg_kind seg" "sg_keys seg' = sg_keys seg" "sg_rows seg' = sg_rows seg"
    and "\<And>i. attr_view (decodeAt (sg_attrs seg') i) = attr_view (decodeAt (sg_attrs seg) i)"
    and "decodeTerms (sg_text seg') = decodeTerms (sg_text seg)"
  shows "seg_doc seg' = seg_doc seg" "seg_wf dim seg' \<longleftrightarrow> seg_wf dim seg"
proof -
  have "seg_at seg' = seg_at seg" using assms by (simp add: seg_at_def fun_eq_iff)
  moreover have "seg_find seg' = seg_find seg" using assms(1,2) by (simp add: seg_find_def fun_eq_iff split: seg_kind.split)
  ultimately show "seg_doc seg' = seg_doc seg" by (simp add: seg_doc_def[abs_def])
  show "seg_wf dim seg' \<longleftrightarrow> seg_wf dim seg" using assms by (simp add: seg_wf_def)
qed

lemma read_layers_of_write:
  assumes "catalog_fits E c" "cols_fit E a" "text_fits E t"
  obtains d t' where "read_layers_of E 9 (writeSegMeta c a @ writeSegText t @ rest) = Got ((d, map_option canon_cols a), t') rest"
    "same_catalog d c" "same_text t' t"
proof -
  obtain d where d: "read_catalog E (write_catalog c @ write_cols a @ writeSegText t @ rest) = Got d (write_cols a @ writeSegText t @ rest)"
    "same_catalog d c" by (rule read_catalog_write[OF assms(1)])
  obtain t' where t': "readSegText E (writeSegText t @ rest) = Got t' rest" "same_text t' t"
    by (rule readSegText_write[OF assms(3)])
  have "read_layers_of E 9 (writeSegMeta c a @ writeSegText t @ rest) = Got ((d, map_option canon_cols a), t') rest"
    using d(1) t'(1) by (simp add: read_layers_of_def writeSegMeta_def readSegMeta_def read_cols_write[OF assms(2)])
  with that d(2) t'(2) show ?thesis by blast
qed

lemma byte_02 [simp]: "segTypeFrozenSQ8 \<noteq> segTypeFrozen" "segTypeHNSWFlat \<noteq> segTypeFrozen" "segTypeHNSWFlat \<noteq> segTypeFrozenSQ8"
  by (simp_all add: segTypeFrozen_def segTypeHNSWFlat_def segTypeFrozenSQ8_def byte_of_eq_iff)

lemma readFull_type [simp]:
  "readFull (Suc 0) (segTypeFrozen @ r) = Got segTypeFrozen r" "readFull (Suc 0) (segTypeFrozenSQ8 @ r) = Got segTypeFrozenSQ8 r"
  "readFull (Suc 0) (segTypeHNSWFlat @ r) = Got segTypeHNSWFlat r"
  by (simp_all add: segTypeFrozen_def segTypeHNSWFlat_def segTypeFrozenSQ8_def)

lemma frozen_comes_back:
  assumes k: "sg_kind seg = Frozen" and s: "seg_saveable S dim g seg" and g: "gr i = g"
  shows "\<exists>xs. read_seg S 9 dim (se_rd S) (write_seg gr dim (i, seg) @ rest) = Got xs rest \<and> comes_back S dim xs (i, seg)"
proof -
  let ?E = "se_rd S" and ?n = "length (sg_keys seg)"
  have w: "seg_wf dim seg" "0 < ?n" "0 < dim" "dim < 2 ^ 32" and f: "frozen_saveable S dim g seg"
    using s k by (simp_all add: seg_saveable_def)
  have rows: "\<forall>row \<in> set (sg_rows seg). length row = dim" "length (sg_rows seg) = ?n" using w(1) by (simp_all add: seg_wf_def)
  have fits: "graph_fits ?E (sg_keys seg) (frozen_of g seg)"
    using f w rows length_concat_rows[OF rows(1)] by (simp add: graph_fits_def frozen_of_def frozen_saveable_def)
  obtain d t where lay: "read_layers_of ?E 9 (writeSegMeta (sg_cat seg) (sg_attrs seg) @ writeSegText (sg_text seg) @ writeEmptyDocsSection @ rest) =
      Got ((d, map_option canon_cols (sg_attrs seg)), t) (writeEmptyDocsSection @ rest)" "same_text t (sg_text seg)"
    using read_layers_of_write[of ?E "sg_cat seg" "sg_attrs seg" "sg_text seg"] f unfolding frozen_saveable_def by metis
  define st where "st = ReadyFrozen (frozen_of g seg) d (map_option canon_cols (sg_attrs seg)) t"
  define seg' where "seg' = fst (load_frozen (frozen_of g seg) d (map_option canon_cols (sg_attrs seg)) t)"
  have "read_seg S 9 dim ?E (write_seg gr dim (i, seg) @ rest) = Got [st] rest"
    by (simp add: read_seg_def write_seg_def k g read_frozen_def ReadFrozenGraph_write[OF fits] lay(1) hasAnyDoc_def st_def)
  moreover have "map (row_of dim (concat (sg_rows seg))) [0..<?n] = sg_rows seg"
    using rows(2) by (intro nth_equalityI) (simp_all add: row_of_concat[OF rows(1)])
  then have same: "sg_kind seg' = sg_kind seg" "sg_keys seg' = sg_keys seg" "sg_rows seg' = sg_rows seg"
      "sg_attrs seg' = map_option canon_cols (sg_attrs seg)" "sg_text seg' = t"
    using f views_back[of ?E "sg_keys seg"] by (simp_all add: seg'_def load_frozen_def frozen_of_def k frozen_saveable_def)
  moreover have "load_staged S dim st = [(seg', snd (load_frozen (frozen_of g seg) d (map_option canon_cols (sg_attrs seg)) t))]"
    by (simp add: st_def load_staged_def seg'_def)
  moreover have "cols_fit ?E (sg_attrs seg)" using f by (simp add: frozen_saveable_def)
  ultimately show ?thesis
    using same_docs(1)[of seg' seg] same_docs(2)[of seg' seg dim] decode_canon[of ?E "sg_attrs seg"] same_text_decode[OF lay(2)] w(1)
    unfolding comes_back_def by auto
qed

lemma sq_comes_back:
  assumes k: "sg_kind seg = FrozenSQ" and s: "seg_saveable S dim g seg" and g: "gr i = g"
  shows "\<exists>xs. read_seg S 9 dim (se_rd S) (write_seg gr dim (i, seg) @ rest) = Got xs rest \<and> comes_back S dim xs (i, seg)"
proof -
  let ?E = "se_rd S" and ?n = "length (sg_keys seg)"
  have w: "seg_wf dim seg" "0 < ?n" "0 < dim" "dim < 2 ^ 32" and f: "frozen_saveable S dim g seg" and q: "sq_saveable S dim g seg"
    using s k by (simp_all add: seg_saveable_def sq_saveable_def)
  have fits: "sq_fits ?E (sg_keys seg) (sq_of g seg)"
    using f q w by (simp add: sq_fits_def sq_of_def frozen_saveable_def sq_saveable_def)
  obtain d t where lay: "read_layers_of ?E 9 (writeSegMeta (sg_cat seg) (sg_attrs seg) @ writeSegText (sg_text seg) @ writeEmptyDocsSection @ rest) =
      Got ((d, map_option canon_cols (sg_attrs seg)), t) (writeEmptyDocsSection @ rest)" "same_text t (sg_text seg)"
    using read_layers_of_write[of ?E "sg_cat seg" "sg_attrs seg" "sg_text seg"] f unfolding frozen_saveable_def by metis
  define st where "st = ReadySQ (sq_of g seg) d (map_option canon_cols (sg_attrs seg)) t"
  define seg' where "seg' = fst (load_sq S (sq_of g seg) d (map_option canon_cols (sg_attrs seg)) t)"
  have "read_seg S 9 dim ?E (write_seg gr dim (i, seg) @ rest) = Got [st] rest"
    by (simp add: read_seg_def write_seg_def k g read_sq_def ReadFrozenGraphSQ_write[OF fits] lay(1) hasAnyDoc_def st_def)
  moreover have "map (dequantAt S (sq_of g seg)) [0..<?n] = sg_rows seg"
    using q w f by (simp add: sq_saveable_def dequantAt_def sq_of_def frozen_saveable_def)
  then have same: "sg_kind seg' = sg_kind seg" "sg_keys seg' = sg_keys seg" "sg_rows seg' = sg_rows seg"
      "sg_attrs seg' = map_option canon_cols (sg_attrs seg)" "sg_text seg' = t"
    using f views_back[of ?E "sg_keys seg"] by (simp_all add: seg'_def load_sq_def sq_of_def k frozen_saveable_def)
  moreover have "load_staged S dim st = [(seg', snd (load_sq S (sq_of g seg) d (map_option canon_cols (sg_attrs seg)) t))]"
    by (simp add: st_def load_staged_def seg'_def)
  moreover have "cols_fit ?E (sg_attrs seg)" using f by (simp add: frozen_saveable_def)
  ultimately show ?thesis
    using same_docs(1)[of seg' seg] same_docs(2)[of seg' seg dim] decode_canon[of ?E "sg_attrs seg"] same_text_decode[OF lay(2)] w(1)
    unfolding comes_back_def by auto
qed

text \<open>A flat segment is built anew from its entries.\<close>

lemma read_hnsw_entry_write:
  assumes "flat_saveable S dim seg" "seg_wf dim seg" "0 < dim" "i < length (sg_keys seg)"
  shows "read_hnsw_entry 9 dim (se_rd S) (write_hnsw_entry dim seg i @ rest) = Got (hnsw_entries seg ! i) rest"
proof -
  have row: "length (sg_rows seg ! i) = dim" using assms(2,4) by (simp add: seg_wf_def)
  have f: "key_fits (sg_keys seg ! i)" "attrs_fit (se_rd S) (decodeAt (sg_attrs seg) i)"
    "terms_fit (se_rd S) (termsAt (decodeTerms (sg_text seg)) i)" "dim \<le> big (se_rd S)"
    using assms(1,4) by (simp_all add: flat_saveable_def)
  show ?thesis
    using row f assms(3,4)
    by (simp add: read_hnsw_entry_def write_hnsw_entry_def read_key_write readAttrs_write readTerms_write hnsw_entries_def)
qed

lemma hnsw_long:
  assumes "seg_wf dim seg" "\<forall>i \<in> set ids. i < length (sg_keys seg)" "0 < dim"
  shows "length ids * (2 + dim * 4) \<le> length (concat (map (write_hnsw_entry dim seg) ids) @ rest)"
  using assms(2)
proof (induction ids)
  case (Cons i ids)
  have "length (sg_rows seg ! i) = dim" using assms(1) Cons.prems by (simp add: seg_wf_def)
  then have "2 + dim * 4 \<le> length (write_hnsw_entry dim seg i)"
    using assms(3) by (simp add: write_hnsw_entry_def write_key_def)
  with Cons show ?case by simp
qed simp

lemma read_n_each:
  assumes "\<And>x rest. x \<in> set xs \<Longrightarrow> \<exists>y. rd (enc x @ rest) = Got y rest \<and> R y x"
  shows "\<exists>ys. read_n rd (length xs) (concat (map enc xs) @ rest) = Got ys rest \<and> list_all2 R ys xs"
  using assms
proof (induction xs)
  case (Cons x xs)
  obtain y where y: "rd (enc x @ concat (map enc xs) @ rest) = Got y (concat (map enc xs) @ rest)" "R y x"
    using Cons.prems[of x] by auto
  obtain ys where "read_n rd (length xs) (concat (map enc xs) @ rest) = Got ys rest" "list_all2 R ys xs"
    using Cons by auto
  with y show ?case by (intro exI[of _ "y # ys"]) simp
qed simp

lemma hnsw_comes_back:
  assumes k: "sg_kind seg = Hnsw" and s: "seg_saveable S dim g seg"
  shows "\<exists>xs. read_seg S 9 dim (se_rd S) (write_seg gr dim (i, seg) @ rest) = Got xs rest \<and> comes_back S dim xs (i, seg)"
proof -
  let ?E = "se_rd S" and ?n = "length (sg_keys seg)" and ?es = "hnsw_entries seg"
  have w: "seg_wf dim seg" "sg_keys seg \<noteq> []" "0 < dim" and f: "flat_saveable S dim seg"
    using s k by (simp_all add: seg_saveable_def)
  have keys: "[] \<notin> set (sg_keys seg)" "distinct (filter (\<lambda>k. k \<noteq> []) (sg_keys seg))" using w(1) k by (simp_all add: seg_wf_def)
  have ids: "hnsw_ids seg = [0..<?n]" using keys(1) by (auto simp: hnsw_ids_def filter_id_conv) (metis nth_mem)
  have "\<exists>ys. read_n (read_hnsw_entry 9 dim ?E) (length [0..<?n]) (concat (map (write_hnsw_entry dim seg) [0..<?n]) @ writeEmptyDocsSection @ rest) =
      Got ys (writeEmptyDocsSection @ rest) \<and> list_all2 (\<lambda>y i. y = ?es ! i) ys [0..<?n]"
    by (rule read_n_each) (use read_hnsw_entry_write[OF f w(1,3)] in auto)
  then obtain ys where ys: "read_n (read_hnsw_entry 9 dim ?E) ?n (concat (map (write_hnsw_entry dim seg) [0..<?n]) @ writeEmptyDocsSection @ rest) =
      Got ys (writeEmptyDocsSection @ rest)" "list_all2 (\<lambda>y i. y = ?es ! i) ys [0..<?n]" by auto
  have "length ?es = ?n" by (simp add: hnsw_entries_def)
  with ys(2) have es: "ys = ?es" by (auto simp: list_all2_conv_all_nth intro!: nth_equalityI)
  have "len_fits ?E [0..<?n]" using f by (simp add: flat_saveable_def len_fits_def)
  note lf = len_fits_simps[OF this]
  have nb: "needBytes ?E ?n (2 + dim * 4) (concat (map (write_hnsw_entry dim seg) [0..<?n]) @ r) q = q" for r and q :: "staged list rres"
    using hnsw_long[OF w(1) _ w(3), of "[0..<?n]" r] by (intro needBytes_ok) simp_all
  have ne: "?es \<noteq> []" using w(2) by (simp add: hnsw_entries_def)
  have "read_seg S 9 dim ?E (write_seg gr dim (i, seg) @ rest) = Got [RawEntries ?es] rest"
    using ys(1) lf nb ne by (simp add: read_seg_def write_seg_def k ids read_hnsw_def hasAnyDoc_def es)
  moreover have mk: "map Key ?es = sg_keys seg" by (auto simp: hnsw_entries_def comp_def intro: nth_equalityI)
  have "filter (\<lambda>k. k \<noteq> []) (sg_keys seg) = sg_keys seg" using keys(1) by (intro filter_True) auto
  then have "distinct (sg_keys seg)" using keys(2) by simp
  then have ok: "entries_ok dim ?es"
    using w(1) keys(1) f unfolding entries_ok_def mk
    by (auto simp: hnsw_entries_def flat_saveable_def terms_fit_def seg_wf_def) (metis nth_mem)
  have lib: "lib_ok (e_lib (se_env S))" "\<not> UseSQ (e_vec (se_env S))" "VecView.fits ?es" using f by (simp_all add: flat_saveable_def)
  obtain seg' where b: "buildSegment (e_vec (se_env S)) (e_lib (se_env S)) ?es dim = Some seg'" "seg_wf dim seg'"
      "\<And>k. seg_doc seg' k = map_option entry_doc (ent_find ?es k)"
    using buildSegment_doc[OF lib ok ne] by blast
  have at: "entry_doc (?es ! j) = seg_at seg j" if "j < ?n" for j
    using that f canon_view[of ?E] by (simp add: hnsw_entries_def entry_doc_def seg_at_def flat_saveable_def)
  have "seg_doc seg q = map_option entry_doc (ent_find ?es q)" for q
  proof -
    have "seg_doc seg q = Some x \<longleftrightarrow> map_option entry_doc (ent_find ?es q) = Some x" for x
    proof -
      have "seg_doc seg q = Some x \<longleftrightarrow> (\<exists>j < ?n. sg_keys seg ! j = q \<and> x = seg_at seg j)"
        using seg_doc_iff[OF w(1), of q x] keys(1) by (auto simp: in_set_conv_nth)
      also have "\<dots> \<longleftrightarrow> (\<exists>e \<in> set ?es. Key e = q \<and> x = entry_doc e)"
        using at \<open>length ?es = ?n\<close> mk by (metis in_set_conv_nth nth_map)
      also have "\<dots> \<longleftrightarrow> map_option entry_doc (ent_find ?es q) = Some x"
        using ent_find_iff[of ?es q] ok by (auto simp: entries_ok_def)
      finally show ?thesis .
    qed
    then show ?thesis by (metis option.exhaust)
  qed
  with b(3) have "seg_doc seg' = seg_doc seg" by (simp add: fun_eq_iff)
  then have "comes_back S dim [RawEntries ?es] (i, seg)"
    using b(1,2) by (simp add: comes_back_def load_staged_def)
  ultimately show ?thesis by blast
qed

lemma seg_comes_back:
  "seg_saveable S dim (gr i) seg \<Longrightarrow>
   \<exists>xs. read_seg S 9 dim (se_rd S) (write_seg gr dim (i, seg) @ rest) = Got xs rest \<and> comes_back S dim xs (i, seg)"
  by (cases "sg_kind seg") (blast intro: frozen_comes_back sq_comes_back hnsw_comes_back)+

subsection \<open>The whole store\<close>

definition level_back :: "snap_env \<Rightarrow> nat \<Rightarrow> staged list \<Rightarrow> seg_ref list \<Rightarrow> bool" where
  "level_back S dim ys l \<longleftrightarrow> (\<exists>xss. ys = concat xss \<and> list_all2 (comes_back S dim) xss l)"

lemma write_seg_long: "1 \<le> length (write_seg gr dim r)"
  by (cases r; cases "sg_kind (snd r)")
    (simp_all add: write_seg_def segTypeFrozen_def segTypeHNSWFlat_def segTypeFrozenSQ8_def)

lemma segs_long: "length l * 1 \<le> length (concat (map (write_seg gr dim) l) @ rest)"
proof (induction l)
  case (Cons r l)
  with write_seg_long[of gr dim r] show ?case by simp
qed simp

lemma level_comes_back:
  assumes "\<forall>(i, seg) \<in> set l. seg_saveable S dim (gr i) seg" "length l < 2 ^ 32"
  shows "\<exists>ys. read_level S 9 dim (se_rd S) (write_level gr dim l @ rest) = Got ys rest \<and> level_back S dim ys l"
proof -
  have "\<exists>xss. read_n (read_seg S 9 dim (se_rd S)) (length l) (concat (map (write_seg gr dim) l) @ rest) = Got xss rest \<and>
      list_all2 (comes_back S dim) xss l"
    by (rule read_n_each) (use assms(1) seg_comes_back in auto)
  then obtain xss where x: "read_n (read_seg S 9 dim (se_rd S)) (length l) (concat (map (write_seg gr dim) l) @ rest) = Got xss rest"
      "list_all2 (comes_back S dim) xss l" by blast
  have nb: "needBytes (se_rd S) (length l) 1 (concat (map (write_seg gr dim) l) @ rest) k = k" for k :: "staged list rres"
    using segs_long by (rule needBytes_ok) simp
  show ?thesis
  proof (cases "l = []")
    case True
    then show ?thesis by (intro exI[of _ "[]"]) (simp add: read_level_def write_level_def level_back_def)
  next
    case False
    with x nb[simplified] assms(2) have "read_level S 9 dim (se_rd S) (write_level gr dim l @ rest) = Got (concat xss) rest"
      by (simp add: read_level_def write_level_def len_zero)
    with x(2) show ?thesis unfolding level_back_def by blast
  qed
qed

definition tombs_fit :: "rd_env \<Rightarrow> bytes list \<Rightarrow> bool" where
  "tombs_fit E ks \<longleftrightarrow> len_fits E ks \<and> (\<forall>k \<in> set ks. key_fits k)"

interpretation key: codec write_key read_key "\<lambda>E. key_fits" "\<lambda>x. x" 2
  by unfold_locales (simp add: read_key_write, simp_all add: write_key_def)

lemma read_tombs_write:
  assumes "tombs_fit E ks"
  shows "read_tombs E (put_len ks @ concat (map write_key ks) @ rest) = Got (if ks = [] then None else Some (set ks)) rest"
proof -
  have l: "len_fits E ks" and k: "\<forall>k \<in> set ks. key_fits k" using assms by (simp_all add: tombs_fit_def)
  show ?thesis
    using key.reads_many[OF k, of E rest] by (simp add: read_tombs_def len_fits_simps[OF l] key.budget_passes)
qed

definition store_saveable :: "snap_env \<Rightarrow> snap_store \<Rightarrow> bool" where
  "store_saveable S ss \<longleftrightarrow> (let s = ss_store ss in
     length (v_levels s) = maxLevels \<and> v_dim s < 2 ^ 32 \<and> (\<forall>l \<in> set (v_levels s). length l < 2 ^ 32) \<and>
     (v_dim s = 0 \<longrightarrow> v_tombs s = {}) \<and>
     (\<forall>(i, seg) \<in> set (concat (v_levels s)). seg_saveable S (v_dim s) (ss_graph ss i) seg) \<and>
     set (se_order S (v_tombs s)) = v_tombs s \<and> tombs_fit (se_rd S) (se_order S (v_tombs s)))"

lemma magic_bytes: "readFull 8 (leveledMagic @ r) = Got leveledMagic r" "take 4 leveledMagic = leveledMagicPrefix"
  "nat_of_byte (leveledMagic ! 5) = 9"
proof -
  have "length leveledMagic = 8" by (simp add: leveledMagic_def leveledMagicPrefix_def)
  then show "readFull 8 (leveledMagic @ r) = Got leveledMagic r" by simp
qed (simp_all add: leveledMagic_def leveledMagicPrefix_def)

lemma snapshot_comes_back:
  assumes "store_saveable S ss"
  obtains ls where "read_snapshot S (se_rd S) (snapshot_payload S now ss @ rest) =
    Got \<lparr>sn_version = 9, sn_time = now, sn_lsn = ss_lsn ss, sn_dim = v_dim (ss_store ss), sn_levels = ls,
      sn_tombs = (if v_tombs (ss_store ss) = {} then None else Some (v_tombs (ss_store ss)))\<rparr> rest"
    "list_all2 (level_back S (v_dim (ss_store ss))) ls (v_levels (ss_store ss))"
proof -
  let ?s = "ss_store ss" and ?E = "se_rd S"
  let ?ks = "se_order S (v_tombs ?s)"
  have f: "length (v_levels ?s) = maxLevels" "v_dim ?s < 2 ^ 32" "\<forall>l \<in> set (v_levels ?s). length l < 2 ^ 32"
    "\<forall>(i, seg) \<in> set (concat (v_levels ?s)). seg_saveable S (v_dim ?s) (ss_graph ss i) seg"
    "set ?ks = v_tombs ?s" "tombs_fit ?E ?ks"
    using assms by (simp_all add: store_saveable_def Let_def)
  let ?tail = "put_len ?ks @ concat (map write_key ?ks) @ rest"
  have "\<exists>ls. read_n (read_level S 9 (v_dim ?s) ?E) (length (v_levels ?s)) (concat (map (write_level (ss_graph ss) (v_dim ?s)) (v_levels ?s)) @ ?tail) =
      Got ls ?tail \<and> list_all2 (level_back S (v_dim ?s)) ls (v_levels ?s)"
  proof (rule read_n_each)
    show "\<exists>y. read_level S 9 (v_dim ?s) ?E (write_level (ss_graph ss) (v_dim ?s) l @ r) = Got y r \<and> level_back S (v_dim ?s) y l"
      if "l \<in> set (v_levels ?s)" for l r
      using that f(3,4) by (intro level_comes_back) auto
  qed
  then obtain ls where ls: "read_n (read_level S 9 (v_dim ?s) ?E) maxLevels
      (concat (map (write_level (ss_graph ss) (v_dim ?s)) (v_levels ?s)) @ ?tail) = Got ls ?tail"
      "list_all2 (level_back S (v_dim ?s)) ls (v_levels ?s)"
    using f(1) by metis
  have "?ks = [] \<longleftrightarrow> v_tombs ?s = {}" using f(5) by auto
  moreover have "le_dec [byte_of maxLevels] = maxLevels" by (simp add: maxLevels_def)
  ultimately have "read_snapshot S ?E (snapshot_payload S now ss @ rest) =
    Got \<lparr>sn_version = 9, sn_time = now, sn_lsn = ss_lsn ss, sn_dim = v_dim ?s, sn_levels = ls,
      sn_tombs = (if v_tombs ?s = {} then None else Some (v_tombs ?s))\<rparr> rest"
    using ls(1) read_tombs_write[OF f(6), of rest] f(5) unat_len[OF f(2)]
    by (simp add: read_snapshot_def snapshot_payload_def Let_def magic_bytes del: le_dec.simps)
  with ls(2) that show ?thesis by blast
qed

text \<open>The commit numbers the segments and keeps their order.\<close>

lemma number_levels_snd: "map (map snd) (number_levels n ls) = ls"
  by (induction ls arbitrary: n) simp_all

lemma number_levels_fst: "map fst (concat (number_levels n ls)) = [n..<n + length (concat ls)]"
proof (induction ls arbitrary: n)
  case (Cons l ls)
  have "[n..<n + length l] @ [n + length l..<n + length l + length (concat ls)] = [n..<n + length l + length (concat ls)]"
    by (rule upt_add_eq_append[symmetric]) simp
  with Cons show ?case by (simp add: add.assoc)
qed simp

lemma read_order_map: "map f (read_order ls) = concat (map rev (map (map (f \<circ> snd)) ls))"
  by (simp add: read_order_def map_concat rev_map comp_def)

lemma read_order_empty_levels: "read_order (ls @ replicate m []) = read_order ls"
  by (simp add: read_order_def)

definition loaded_as :: "nat \<Rightarrow> segment \<times> seg_graph \<Rightarrow> seg_ref \<Rightarrow> bool" where
  "loaded_as dim x r \<longleftrightarrow> seg_doc (fst x) = seg_doc (snd r) \<and> seg_wf dim (fst x)"

lemma load_level:
  assumes "level_back S dim ys l"
  shows "list_all2 (loaded_as dim) (concat (map (load_staged S dim) ys)) l"
proof -
  obtain xss where x: "ys = concat xss" "list_all2 (comes_back S dim) xss l" using assms by (auto simp: level_back_def)
  from x(2) have "list_all2 (loaded_as dim) (concat (map (load_staged S dim) (concat xss))) l"
  proof (induction rule: list_all2_induct)
    case (Cons xs xss r l)
    then show ?case by (auto simp: comes_back_def loaded_as_def)
  qed simp
  with x(1) show ?thesis by simp
qed

lemma load_levels:
  assumes "list_all2 (level_back S dim) ls levels"
  shows "list_all2 (list_all2 (loaded_as dim)) (map (\<lambda>l. concat (map (load_staged S dim) l)) ls) levels"
  using assms by (auto simp: list_all2_map1 intro: load_level elim!: list_all2_mono)

lemma loaded_docs:
  assumes "list_all2 (list_all2 (loaded_as dim)) xss levels"
  shows "map (map (seg_doc \<circ> fst)) xss = map (map (seg_doc \<circ> snd)) levels"
proof -
  have "map (seg_doc \<circ> fst) xs = map (seg_doc \<circ> snd) l" if "list_all2 (loaded_as dim) xs l" for xs l
    using that by (induction rule: list_all2_induct) (simp_all add: loaded_as_def)
  with assms show ?thesis by (induction rule: list_all2_induct) simp_all
qed

text \<open>What a snapshot holds of a store: the levels without the deleted keys.\<close>

definition saved_doc :: "vstore \<Rightarrow> bytes \<Rightarrow> vdoc option" where
  "saved_doc s k = (if k \<in> v_tombs s then None else first_some (map seg_doc (read_order (v_levels s))) k)"

definition nothing_pending :: "vstore \<Rightarrow> bool" where
  "nothing_pending s \<longleftrightarrow> (\<forall>k. active_doc s k = None) \<and> v_flushing s = []"

lemma saved_all: "nothing_pending s \<Longrightarrow> vs_doc s = saved_doc s"
  by (simp add: nothing_pending_def vs_doc_def saved_doc_def layers_def fun_eq_iff)

lemma LoadBinary_payload:
  assumes "read_snapshot S (se_rd S) (p @ putU32 (crc32 p)) = Got sn (putU32 (crc32 p))"
  shows "LoadBinary S (p @ putU32 (crc32 p)) ss0 = Some (Inr (commit_snapshot S sn ss0))"
  using assms get_put(2)[of "crc32 p" "[]"] by (simp add: LoadBinary_def check_crc_def)

lemma commit_docs:
  assumes l: "list_all2 (list_all2 (loaded_as dim)) (map (\<lambda>l. concat (map (load_staged S dim) l)) (sn_levels sn)) levels"
    and d: "sn_dim sn = dim" "length levels = maxLevels"
  shows "map seg_doc (read_order (v_levels (ss_store (commit_snapshot S sn ss0)))) = map seg_doc (read_order levels)"
proof -
  let ?xss = "map (\<lambda>l. concat (map (load_staged S dim) l)) (sn_levels sn)"
  let ?lv = "number_levels (v_next (ss_store ss0)) ?xss"
  have "map (map (\<lambda>x. seg_doc (fst (snd x)))) ?lv = map (map (seg_doc \<circ> fst)) (map (map snd) ?lv)"
    by (simp add: comp_def)
  also have "\<dots> = map (map (seg_doc \<circ> fst)) ?xss" by (simp only: number_levels_snd)
  finally have lv: "map (map (\<lambda>x. seg_doc (fst (snd x)))) ?lv = map (map (seg_doc \<circ> fst)) ?xss" .
  have "map seg_doc (read_order (v_levels (ss_store (commit_snapshot S sn ss0)))) =
      concat (map rev (map (map (\<lambda>x. seg_doc (fst (snd x)))) ?lv))"
    by (simp add: commit_snapshot_def Let_def d read_order_empty_levels read_order_map comp_def case_prod_unfold)
  also have "\<dots> = concat (map rev (map (map (seg_doc \<circ> snd)) levels))" unfolding lv loaded_docs[OF l] ..
  finally show ?thesis by (simp add: read_order_map)
qed

text \<open>The loaded store satisfies the invariant that every run of writes, flushes and merges keeps.\<close>

lemma loaded_levels:
  assumes "list_all2 (list_all2 (loaded_as dim)) xss levels" "x \<in> set (concat (number_levels n xss))"
  shows "seg_wf dim (fst (snd x))" "fst x < n + length (concat xss)"
proof -
  have "snd x \<in> set (concat (map (map snd) (number_levels n xss)))" using assms(2) by auto
  then have "snd x \<in> set (concat xss)" by (simp only: number_levels_snd)
  then obtain xs where xs: "xs \<in> set xss" "snd x \<in> set xs" by auto
  then obtain l where "list_all2 (loaded_as dim) xs l" using assms(1) by (metis in_set_conv_nth list_all2_conv_all_nth)
  with xs(2) show "seg_wf dim (fst (snd x))" by (auto simp: list_all2_conv_all_nth in_set_conv_nth loaded_as_def)
  have "fst x \<in> set (map fst (concat (number_levels n xss)))" using assms(2) by auto
  then show "fst x < n + length (concat xss)" unfolding number_levels_fst by simp
qed

lemma load_inv:
  assumes l: "list_all2 (list_all2 (loaded_as (sn_dim sn))) (map (\<lambda>l. concat (map (load_staged S (sn_dim sn)) l)) (sn_levels sn)) levels"
    and len: "length levels = maxLevels"
    and new: "ss_store ss0 = vs_new" and z: "sn_dim sn = 0 \<Longrightarrow> concat levels = [] \<and> (sn_tombs sn = None \<or> sn_tombs sn = Some {})"
  shows "vinv (ss_store (commit_snapshot S sn ss0))"
proof -
  let ?xss = "map (\<lambda>l. concat (map (load_staged S (sn_dim sn)) l)) (sn_levels sn)"
  let ?lv = "number_levels 0 ?xss" and ?s = "ss_store (commit_snapshot S sn ss0)"
  have lx: "length ?xss = maxLevels" using list_all2_lengthD[OF l] len by simp
  have ln: "length ?lv = maxLevels" using arg_cong[OF number_levels_snd[of 0 ?xss], of length] lx by simp
  have levels: "v_levels ?s = map (map (\<lambda>(i, seg, g). (i, seg))) ?lv"
    using ln by (simp add: commit_snapshot_def Let_def new vs_new_def)
  have refs: "concat (v_levels ?s) = map (\<lambda>(i, seg, g). (i, seg)) (concat ?lv)"
    unfolding levels by (simp add: map_concat)
  have frame: "v_dim ?s = sn_dim sn" "v_flushing ?s = []" "v_tasks ?s = []" "v_merging ?s = replicate maxLevels False" "v_cons ?s = False"
    "v_next ?s = length (concat ?lv) + 1"
    "v_delta ?s = (if sn_dim sn > 0 then Some (fresh_delta (se_env S) (length (concat ?lv)) (sn_dim sn)) else None)"
    "v_tombs ?s = (case sn_tombs sn of None \<Rightarrow> {} | Some t \<Rightarrow> t)"
    by (simp_all add: commit_snapshot_def Let_def new vs_new_def split: option.split)
  have cl: "length (concat ?lv) = length (concat ?xss)" using arg_cong[OF number_levels_fst[of 0 ?xss], of length] by simp
  have "map fst (concat (v_levels ?s)) = map fst (concat ?lv)" unfolding refs by (simp add: comp_def case_prod_unfold)
  also have "\<dots> = [0..<0 + length (concat ?xss)]" by (rule number_levels_fst)
  finally have dist: "distinct (map fst (concat (v_levels ?s)))" by simp
  have segs: "seg_wf (v_dim ?s) (snd r) \<and> fst r < v_next ?s" if "r \<in> set (concat (v_levels ?s))" for r
  proof -
    have "r \<in> (\<lambda>x. (fst x, fst (snd x))) ` set (concat ?lv)"
      using that unfolding refs set_map by (simp only: case_prod_unfold)
    then obtain x where "x \<in> set (concat ?lv)" "r = (fst x, fst (snd x))" by blast
    with loaded_levels[OF l, of x 0] cl frame(1,6) show ?thesis by simp
  qed
  have "active_ok ?s"
  proof (cases "sn_dim sn = 0")
    case True
    have "length (concat ?xss) = length (concat levels)"
      using l by (induction rule: list_all2_induct) (simp_all add: list_all2_lengthD)
    then have "concat ?xss = []" using z[OF True] by simp
    then have "length (concat ?lv) = 0" unfolding cl by (simp only: list.size)
    then have "concat (v_levels ?s) = []" unfolding refs length_0_conv by (simp only: list.map)
    with True z[OF True] frame show ?thesis by (auto simp: active_ok_def)
  next
    case False
    then show ?thesis by (simp add: active_ok_def frame)
  qed
  moreover have "length (v_levels ?s) = maxLevels" using ln by (simp add: levels)
  ultimately show ?thesis
    using segs dist by (simp add: vinv_def base_ok_def frame)
qed

lemma saved_loads:
  assumes "store_saveable S ss"
  shows "\<exists>ss'. LoadBinary S (SaveBinary S now ss) \<lparr>ss_store = vs_new, ss_graph = gr0, ss_time = 0, ss_lsn = 0\<rparr> = Some (Inr ss') \<and>
    ss_lsn ss' = ss_lsn ss \<and> ss_time ss' = now \<and> v_dim (ss_store ss') = v_dim (ss_store ss) \<and>
    v_tombs (ss_store ss') = v_tombs (ss_store ss) \<and> vs_doc (ss_store ss') = saved_doc (ss_store ss) \<and>
    (if nothing_pending (ss_store ss) then vs_doc (ss_store ss') = vs_doc (ss_store ss) else True) \<and> vinv (ss_store ss') \<and>
    (v_delta (ss_store ss') = None \<longleftrightarrow> v_dim (ss_store ss) = 0)"
proof -
  let ?s = "ss_store ss"
  define ss0 where "ss0 = \<lparr>ss_store = vs_new, ss_graph = gr0, ss_time = 0, ss_lsn = (0 :: 64 word)\<rparr>"
  define p where "p = snapshot_payload S now ss"
  obtain ls where ls: "read_snapshot S (se_rd S) (p @ putU32 (crc32 p)) =
    Got \<lparr>sn_version = 9, sn_time = now, sn_lsn = ss_lsn ss, sn_dim = v_dim ?s, sn_levels = ls,
      sn_tombs = (if v_tombs ?s = {} then None else Some (v_tombs ?s))\<rparr> (putU32 (crc32 p))"
    "list_all2 (level_back S (v_dim ?s)) ls (v_levels ?s)"
    unfolding p_def by (rule snapshot_comes_back[OF assms])
  define sn where "sn = \<lparr>sn_version = 9, sn_time = now, sn_lsn = ss_lsn ss, sn_dim = v_dim ?s, sn_levels = ls,
      sn_tombs = (if v_tombs ?s = {} then None else Some (v_tombs ?s))\<rparr>"
  define ss' where "ss' = commit_snapshot S sn ss0"
  have load: "LoadBinary S (SaveBinary S now ss) ss0 = Some (Inr ss')"
    using LoadBinary_payload[OF ls(1)] by (simp add: SaveBinary_def p_def[symmetric] Let_def ss'_def sn_def)
  have frame: "v_tombs (ss_store ss') = v_tombs ?s" "v_flushing (ss_store ss') = []" "v_dim (ss_store ss') = v_dim ?s"
      "ss_lsn ss' = ss_lsn ss" "ss_time ss' = now" "v_delta (ss_store ss') = None \<longleftrightarrow> v_dim ?s = 0"
    by (simp_all add: ss'_def commit_snapshot_def Let_def sn_def ss0_def vs_new_def)
  have act: "active_doc (ss_store ss') k = None" for k
    by (simp add: ss'_def commit_snapshot_def Let_def sn_def ss0_def vs_new_def active_doc_def delta_doc_def)
  have len: "length (v_levels ?s) = maxLevels" using assms by (simp add: store_saveable_def Let_def)
  then have docs: "map seg_doc (read_order (v_levels (ss_store ss'))) = map seg_doc (read_order (v_levels ?s))"
    unfolding ss'_def using ls(2) by (intro commit_docs load_levels) (simp_all add: sn_def load_levels)
  have inv: "vinv (ss_store ss')"
    unfolding ss'_def
  proof (rule load_inv)
    show "list_all2 (list_all2 (loaded_as (sn_dim sn))) (map (\<lambda>l. concat (map (load_staged S (sn_dim sn)) l)) (sn_levels sn)) (v_levels ?s)"
      using load_levels[OF ls(2)] by (simp add: sn_def)
    show "length (v_levels ?s) = maxLevels" by fact
    show "concat (v_levels ?s) = [] \<and> (sn_tombs sn = None \<or> sn_tombs sn = Some {})" if "sn_dim sn = 0"
    proof -
      have "v_dim ?s = 0" using that by (simp add: sn_def)
      with assms have none: "\<forall>x \<in> set (concat (v_levels ?s)). False" and ts: "v_tombs ?s = {}"
        by (auto simp: store_saveable_def seg_saveable_def Let_def)
      have "set (concat (v_levels ?s)) = {}" by (rule equals0I) (rule bspec[OF none])
      moreover have "sn_tombs sn = None" using ts by (simp add: sn_def)
      ultimately show ?thesis unfolding set_empty by blast
    qed
  qed (simp add: ss0_def)
  from docs have doc: "vs_doc (ss_store ss') = saved_doc ?s"
    by (simp add: vs_doc_def saved_doc_def layers_def act frame(1,2) fun_eq_iff)
  have "\<exists>ss'. LoadBinary S (SaveBinary S now ss) ss0 = Some (Inr ss') \<and> ss_lsn ss' = ss_lsn ss \<and> ss_time ss' = now \<and>
      v_dim (ss_store ss') = v_dim ?s \<and> v_tombs (ss_store ss') = v_tombs ?s \<and> vs_doc (ss_store ss') = saved_doc ?s \<and>
      (if nothing_pending ?s then vs_doc (ss_store ss') = vs_doc ?s else True) \<and> vinv (ss_store ss') \<and>
      (v_delta (ss_store ss') = None \<longleftrightarrow> v_dim ?s = 0)"
    using load frame doc saved_all[of ?s] inv by auto
  then show ?thesis by (simp only: ss0_def)
qed

text \<open>C30: A snapshot brings the store back: loading what \<open>SaveBinary\<close> wrote into a new store gives one with the same
  dimension, tombstones and watermark that has for every key the document of the saved levels, which is the document
  of the saved store when nothing waited in its delta or was being flushed; and it satisfies the invariant of all runs.\<close>

theorem snapshot_roundtrip:
  assumes "store_saveable S ss"
  shows "\<exists>ss'. LoadBinary S (SaveBinary S now ss) \<lparr>ss_store = vs_new, ss_graph = gr0, ss_time = 0, ss_lsn = 0\<rparr> = Some (Inr ss') \<and>
    ss_lsn ss' = ss_lsn ss \<and> ss_time ss' = now \<and> v_dim (ss_store ss') = v_dim (ss_store ss) \<and>
    v_tombs (ss_store ss') = v_tombs (ss_store ss) \<and> vs_doc (ss_store ss') = saved_doc (ss_store ss) \<and>
    (if nothing_pending (ss_store ss) then vs_doc (ss_store ss') = vs_doc (ss_store ss) else True) \<and> vinv (ss_store ss')"
  using saved_loads[OF assms] by blast

subsection \<open>Damaged files\<close>

lemma more_let_got [longer]: "grows t (let x = a in Got (f x) r) (let x = a in Got (f x) (r @ t))"
  by (simp add: Let_def)

lemma read_layers_of_more [longer]: "grows t (read_layers_of E v bs) (read_layers_of E v (bs @ t))"
  unfolding read_layers_of_def by (auto intro!: longer meta_reader.reads_more text_reader.reads_more)

lemma read_frozen_more: "grows t (read_frozen E v bs) (read_frozen E v (bs @ t))"
  unfolding read_frozen_def by (auto intro!: longer graph_reader.reads_more readDocsSection_more split: prod.split)

lemma read_sq_more: "grows t (read_sq S E v bs) (read_sq S E v (bs @ t))"
  unfolding read_sq_def by (auto intro!: longer sq_reader.reads_more readDocsSection_more split: prod.split)

lemma read_hnsw_entry_more: "grows t (read_hnsw_entry v dim E bs) (read_hnsw_entry v dim E (bs @ t))"
  unfolding read_hnsw_entry_def
  by (auto intro!: longer key_reader.reads_more attrs_reader.reads_more terms_reader.reads_more)

lemma read_hnsw_more: "grows t (read_hnsw E v dim bs) (read_hnsw E v dim (bs @ t))"
  unfolding read_hnsw_def by (auto intro!: longer read_n_more read_hnsw_entry_more readDocsSection_more)

lemma read_seg_more: "grows t (read_seg S v dim E bs) (read_seg S v dim E (bs @ t))"
  unfolding read_seg_def by (auto intro!: longer read_frozen_more read_sq_more read_hnsw_more)

lemma read_level_more: "grows t (read_level S v dim E bs) (read_level S v dim E (bs @ t))"
  unfolding read_level_def by (auto intro!: longer read_n_more read_seg_more)

lemma read_tombs_more: "grows t (read_tombs E bs) (read_tombs E (bs @ t))"
  unfolding read_tombs_def by (auto intro!: longer key_reader.many_more)

lemma read_snapshot_more: "grows t (read_snapshot S E bs) (read_snapshot S E (bs @ t))"
  unfolding read_snapshot_def Let_def by (auto intro!: longer read_n_more read_level_more read_tombs_more)

text \<open>C31: A truncated snapshot is never taken for a whole one: loading any proper prefix of a saved file fails.\<close>

theorem truncation_detected:
  assumes "store_saveable S ss" "n < length (SaveBinary S now ss)"
  shows "\<not> (\<exists>ss'. LoadBinary S (take n (SaveBinary S now ss)) ss0 = Some (Inr ss'))"
proof
  let ?f = "SaveBinary S now ss"
  define p where "p = snapshot_payload S now ss"
  assume "\<exists>ss'. LoadBinary S (take n ?f) ss0 = Some (Inr ss')"
  then obtain sn r sn' r' where got: "read_snapshot S (se_rd S) (take n ?f) = Got sn r" "check_crc (take n ?f) sn r = Got sn' r'"
    by (auto simp: LoadBinary_def split: rres.splits)
  have f: "?f = p @ putU32 (crc32 p)" by (simp add: SaveBinary_def p_def Let_def)
  obtain ls where "read_snapshot S (se_rd S) (p @ putU32 (crc32 p)) =
    Got \<lparr>sn_version = 9, sn_time = now, sn_lsn = ss_lsn ss, sn_dim = v_dim (ss_store ss), sn_levels = ls,
      sn_tombs = (if v_tombs (ss_store ss) = {} then None else Some (v_tombs (ss_store ss)))\<rparr> (putU32 (crc32 p))"
    unfolding p_def by (rule snapshot_comes_back[OF assms(1)])
  moreover have "read_snapshot S (se_rd S) ?f = Got sn (r @ drop n ?f)"
    using moreD[OF read_snapshot_more got(1), of "drop n ?f"] by simp
  ultimately have r: "r @ drop n ?f = putU32 (crc32 p)" "sn_version sn = 9" using f by auto
  from r(1) have "length r + length (drop n ?f) = 4" by (metis length_append put_lengths(2))
  moreover have "0 < length (drop n ?f)" using assms(2) by simp
  ultimately have "length r < 4" by linarith
  then have "getU32 r = Bad ShortRead" by (simp add: getU32_def readFull_def)
  then show False using got(2) r(2) by (simp add: check_crc_def)
qed

text \<open>Under a budget nothing in a file brings the process down, as long as the version has no section of documents.\<close>

lemma read_layers_of_calm: "guarded E n \<Longrightarrow> length bs \<le> n \<Longrightarrow> within n (read_layers_of E v bs)"
  unfolding read_layers_of_def by (auto intro!: within_rbind meta_reader.reads_calm text_reader.reads_calm)

lemma read_frozen_calm: "guarded E n \<Longrightarrow> v < 8 \<Longrightarrow> length bs \<le> n \<Longrightarrow> within n (read_frozen E v bs)"
  unfolding read_frozen_def
  by (auto intro!: within_rbind graph_reader.reads_calm read_layers_of_calm simp: hasAnyDoc_def split: prod.split)

lemma read_sq_calm: "guarded E n \<Longrightarrow> v < 8 \<Longrightarrow> length bs \<le> n \<Longrightarrow> within n (read_sq S E v bs)"
  unfolding read_sq_def
  by (auto intro!: within_rbind sq_reader.reads_calm read_layers_of_calm simp: hasAnyDoc_def split: prod.split)

lemma read_hnsw_entry_calm:
  "guarded E n \<Longrightarrow> dim \<le> big E \<Longrightarrow> length bs \<le> n \<Longrightarrow> within n (read_hnsw_entry v dim E bs)"
  unfolding read_hnsw_entry_def
  by (auto intro!: within_rbind within_slab key_reader.reads_calm attrs_reader.reads_calm terms_reader.reads_calm)

lemma read_n_calm:
  assumes "length bs \<le> n" "\<And>bs. 0 < k \<Longrightarrow> length bs \<le> n \<Longrightarrow> within n (rd bs)"
  shows "within n (read_n rd k bs)"
  using assms by (induction k arbitrary: bs) (auto intro!: within_rbind)

lemma dim_room:
  assumes "guarded E n" "length r \<le> n" "c \<le> length r div (2 + dim * 4)" "0 < c"
  shows "dim \<le> big E"
proof -
  have "c * (2 + dim * 4) \<le> length r" using assms(3) less_eq_div_iff_mult_less_eq[of "2 + dim * 4" c "length r"] by simp
  moreover have "1 * (2 + dim * 4) \<le> c * (2 + dim * 4)" using assms(4) by (intro mult_right_mono) simp_all
  ultimately have "2 + dim * 4 \<le> length r" by simp
  then show ?thesis using assms(1,2) unfolding guarded_def by linarith
qed

lemma read_hnsw_calm: "guarded E n \<Longrightarrow> v < 8 \<Longrightarrow> length bs \<le> n \<Longrightarrow> within n (read_hnsw E v dim bs)"
  unfolding read_hnsw_def
proof (intro within_rbind within_get)
  fix w :: "32 word" and r :: bytes assume g: "guarded E n" and v: "v < 8" and r: "length r \<le> n"
  show "within n (needBytes E (unat w) (2 + dim * 4) r (go_make E (unat w)
      (rbind (read_n (read_hnsw_entry v dim E) (unat w) r) (\<lambda>es r2.
       rbind (if 9 \<le> v then readDocsSection E (length es) r2 else Got [] r2) (\<lambda>docs r3.
       let es' = if hasAnyDoc docs then mergeDocsIntoEntries es docs else es in Got (if es' = [] then [] else [RawEntries es']) r3)))))"
  proof (rule within_need_val[OF g])
    assume "unat w \<le> length r div (if 2 + dim * 4 < 1 then 1 else 2 + dim * 4)"
    then have c: "unat w \<le> length r div (2 + dim * 4)" by simp
    have "unat w \<le> big E" using c g r div_le_dividend[of "length r" "2 + dim * 4"] unfolding guarded_def by linarith
    then show "within n (go_make E (unat w) (rbind (read_n (read_hnsw_entry v dim E) (unat w) r) (\<lambda>es r2.
       rbind (if 9 \<le> v then readDocsSection E (length es) r2 else Got [] r2) (\<lambda>docs r3.
       let es' = if hasAnyDoc docs then mergeDocsIntoEntries es docs else es in Got (if es' = [] then [] else [RawEntries es']) r3))))"
      using v by (intro within_make within_rbind read_n_calm read_hnsw_entry_calm[OF g] r dim_room[OF g r c]) (auto simp: Let_def)
  qed
qed simp_all

lemma read_level_calm: "guarded E n \<Longrightarrow> v < 8 \<Longrightarrow> length bs \<le> n \<Longrightarrow> within n (read_level S v dim E bs)"
  unfolding read_level_def read_seg_def
  by (auto intro!: within_rbind within_get within_readFull within_need read_n_calm read_frozen_calm read_sq_calm read_hnsw_calm)

lemma read_tombs_calm: "guarded E n \<Longrightarrow> length bs \<le> n \<Longrightarrow> within n (read_tombs E bs)"
  unfolding read_tombs_def
  by (auto intro!: within_rbind within_get within_need_val[where m = 2] key_reader.many_calm within_make)
    (auto simp: guarded_def)

text \<open>The version a file says it has.\<close>

definition file_version :: "bytes \<Rightarrow> nat" where
  "file_version bs = nat_of_byte (bs ! 5)"

lemma read_snapshot_calm:
  assumes g: "guarded E n" and l: "length bs \<le> n" and v: "file_version bs < 8"
  shows "within n (read_snapshot S E bs)"
proof (cases "length bs < 8")
  case True
  then show ?thesis by (simp add: read_snapshot_def readFull_def)
next
  case False
  then have r: "readFull 8 bs = Got (take 8 bs) (drop 8 bs)" and b: "take 8 bs ! 5 = bs ! 5" by (simp_all add: readFull_def)
  have "nat_of_byte (bs ! 5) < 8" using v by (simp add: file_version_def)
  then show ?thesis
    using l unfolding read_snapshot_def r rbind_simps Let_def b
    by (auto intro!: within_rbind within_get within_readFull read_n_calm read_level_calm[OF g] read_tombs_calm[OF g])
qed

lemma within_no_crash: "within n m \<Longrightarrow> m \<noteq> Crash"
  by (auto simp: within_def)

text \<open>C32: Loading a file of a format before version 8, whatever its bytes, never brings the process down, provided the
  machine can allocate as many elements as the file has bytes: every counter is checked against what is left.\<close>

theorem load_does_not_crash:
  assumes "budget (se_rd S)" "length bs \<le> big (se_rd S)" "0 < big (se_rd S)" "file_version bs < 8"
  shows "LoadBinary S bs ss \<noteq> None"
proof -
  have "guarded (se_rd S) (length bs)" using assms by (simp add: guarded_def)
  from read_snapshot_calm[OF this order_refl assms(4)]
  have "read_snapshot S (se_rd S) bs \<noteq> Crash" by (rule within_no_crash)
  moreover have "check_crc bs sn r \<noteq> Crash" for sn r
    by (simp add: check_crc_def getU32_def readFull_def)
  ultimately show ?thesis by (auto simp: LoadBinary_def split: rres.splits)
qed

text \<open>The section of documents breaks that: its blobs are read without the budget, so that a file of 82 bytes asks for
  \<open>2 ^ 32 - 1\<close> numbers.\<close>

definition crash_file :: bytes where
  "crash_file =
     leveledMagic @ putU64 0 @ putU64 0 @ putU32 0 @ [byte_of 1] @ putU32 1 @ segTypeHNSWFlat @ putU32 1 @
     write_key ''k'' @ writeAttrs no_attrs @ writeTerms [] @
     putU32 1 @ [byte_of 0] @ putU32 1 @ putU32 0 @ writeStr [] @ putU32 8 @ putU32 4 @ putU32 (- 1)"

lemma docs_section_crashes:
  assumes "100 \<le> big (se_rd S)" "big (se_rd S) < 2 ^ 32 - 1"
  shows "LoadBinary S crash_file ss = None" "length crash_file = 82"
proof -
  have blob: "DeserializeVectorWithDoc E (putU32 (- 1)) = Crash" if "big E < 2 ^ 32 - 1" for E
    using that get_put(2)[of "- 1" "[]"]
    by (simp add: DeserializeVectorWithDoc_def Let_def read_vector_def go_make_def unsigned_minus_1_eq_mask mask_eq_exp_minus_1)
  let ?E = "se_rd S"
  define docs where "docs = putU32 1 @ [byte_of 0] @ putU32 1 @ putU32 0 @ writeStr [] @ putU32 8 @ putU32 4 @ putU32 (- 1)"
  have e: "len_fits ?E ([] :: bytes)" "attrs_fit ?E no_attrs" "terms_fit ?E []" "0 \<le> big ?E"
    using assms(1) by (simp_all add: len_fits_def attrs_fit_def terms_fit_def terms_ok_def no_attrs_def)
  have pos: "read_n (read_pos ?E 1) 1 (putU32 0 @ writeStr [] @ r) = Got [(0, [])] r" for r
    by (simp add: read_pos_def writeStr_read[OF e(1)])
  have place: "place_docs ?E [(0, [])] (putU32 4 @ putU32 (- 1)) [no_entry] = Crash"
    using blob[OF assms(2)] by (simp add: putU32_def le_dec_enc)
  have pay: "readFull 8 (putU32 4 @ putU32 (- 1)) = Got (putU32 4 @ putU32 (- 1)) []" by (simp add: readFull_def)
  have need: "needBytes ?E 1 9 (byte_of 0 # putU32 1 @ putU32 0 @ writeStr [] @ putU32 8 @ putU32 4 @ putU32 (- 1)) k = k"
    "needBytes ?E 1 8 (putU32 0 @ writeStr [] @ putU32 8 @ putU32 4 @ putU32 (- 1)) k = k"
    "needBytes ?E 8 1 (putU32 4 @ putU32 (- 1)) k = k" for k :: "delta_entry list rres"
    by (rule needBytes_ok; simp add: writeStr_def)+
  have group: "read_group ?E 1 [no_entry] (byte_of 0 # putU32 1 @ putU32 0 @ writeStr [] @ putU32 8 @ putU32 4 @ putU32 (- 1)) = Crash"
    using assms(1) pos need pay by (simp add: read_group_def place del: place_docs.simps)
  have docs: "readDocsSection ?E 1 docs = Crash"
    using assms(1) group need(1) by (simp add: readDocsSection_def docs_def)
  have "needBytes ?E 1 2 (write_key ''k'' @ r) k = k" for r and k :: "staged list rres"
    by (rule needBytes_ok) (simp_all add: write_key_def)
  note nk = this[simplified]
  have "read_hnsw ?E 9 0 (putU32 1 @ write_key ''k'' @ writeAttrs no_attrs @ writeTerms [] @ docs) = Crash"
    using assms(1) docs
    by (simp add: read_hnsw_def read_hnsw_entry_def read_key_write key_fits_def readAttrs_write[OF e(2)] readTerms_write[OF e(3)] nk)
  moreover have "needBytes ?E 1 1 (segTypeHNSWFlat @ r) k = k" for r and k :: "staged list rres"
    by (rule needBytes_ok) (simp_all add: segTypeHNSWFlat_def)
  note nl = this[simplified]
  ultimately have "read_level S 9 0 ?E (putU32 1 @ segTypeHNSWFlat @ putU32 1 @ write_key ''k'' @ writeAttrs no_attrs @ writeTerms [] @ docs) = Crash"
    by (simp add: read_level_def read_seg_def nl)
  then have "read_snapshot S ?E crash_file = Crash"
    by (simp add: read_snapshot_def crash_file_def magic_bytes Let_def docs_def maxLevels_def)
  then show "LoadBinary S crash_file ss = None" by (simp add: LoadBinary_def)
  show "length crash_file = 82"
    by (simp add: crash_file_def leveledMagic_def leveledMagicPrefix_def segTypeHNSWFlat_def write_key_def writeAttrs_def
        writeTerms_def writeStr_def no_attrs_def)
qed

subsection \<open>A store to save\<close>

definition sample_seg :: segment where
  "sample_seg = \<lparr>sg_kind = Frozen, sg_keys = [''a'', ''b''], sg_rows = [[1, 2], [3, 4]], sg_cat = None,
     sg_attrs = Some \<lparr>sa_cat = [(''c'', [0, attrMissing])], sa_num = [(''n'', [7, 8])],
       sa_dict = [(''c'', \<lparr>code = [(''x'', 0)], vals = [''x'']\<rparr>)]\<rparr>,
     sg_text = Some \<lparr>t_dict = \<lparr>code = [(''t'', 0)], vals = [''t'']\<rparr>, postings = [[\<lparr>p_doc = 1, p_tf = 2\<rparr>]],
       docLen = [0, 2], nText = 1, totalLen = 2\<rparr>\<rparr>"

definition sample_graph :: seg_graph where
  "sample_graph = \<lparr>g_dim = 2, g_maxLevel = 0, g_entry = 0, g_layers = [\<lparr>l_offs = [0, 1, 2], l_neigh = [1, 0]\<rparr>],
     g_min = [], g_scale = [], g_codes = []\<rparr>"

definition sample_senv :: snap_env where
  "sample_senv = \<lparr>se_env = \<lparr>e_cfg = \<lparr>lc_vec = \<lparr>TenantOf = None, PartitionAttr = [], BruteThreshold = 0, UseSQ = False\<rparr>,
       DeltaMax = 1, Fanout = 4, MergeBatchMax = 32, DeltaShards = 1\<rparr>,
     e_lib = \<lparr>sort_seen = (\<lambda>_. []), shuffle = (\<lambda>n. [0..<n]), sq8 = (\<lambda>r. r)\<rparr>, e_hash = (\<lambda>_ _. 0)\<rparr>,
     se_rd = \<lparr>budget = True, big = 100\<rparr>, se_order = (\<lambda>ks. if ks = {} then [] else [''b'']),
     se_f32 = \<lparr>f_add = (\<lambda>x _. x), f_sub = (\<lambda>x _. x), f_mul = (\<lambda>x _. x), f_div = (\<lambda>x _. x), f_of_nat = word_of_nat, f_int = (\<lambda>x. int (unat x))\<rparr>, se_topo = (\<lambda>_. sample_graph)\<rparr>"

definition sample_store :: snap_store where
  "sample_store = \<lparr>ss_store = vs_new\<lparr>v_dim := 2, v_levels := [(5, sample_seg)] # replicate 7 [], v_tombs := {''b''}, v_next := 6\<rparr>,
     ss_graph = (\<lambda>_. sample_graph), ss_time = 0, ss_lsn = 42\<rparr>"

lemma sample_terms: "decodeTerms (sg_text sample_seg) = [[], [\<lparr>Term = ''t'', TF = 2\<rparr>]]"
  by (simp add: decodeTerms_def sample_seg_def put_posting_def)

lemma sample_wf: "seg_wf 2 sample_seg"
proof -
  have "terms_ok (termsAt (decodeTerms (sg_text sample_seg)) i)" for i
    unfolding sample_terms by (cases i) (auto simp: termsAt_def terms_ok_def nth_Cons' split: if_splits)
  then show ?thesis unfolding seg_wf_def by (simp add: sample_seg_def key_bytes_def)
qed

lemma sample_saveable: "store_saveable sample_senv sample_store"
proof -
  have "keys_fit (se_rd sample_senv) (sg_keys sample_seg)"
    by (simp add: keys_fit_def key_fits_def sample_senv_def sample_seg_def key_bytes_def)
  moreover have "cols_fit (se_rd sample_senv) (sg_attrs sample_seg)"
    by (simp add: cols_fit_def sample_senv_def sample_seg_def keys_distinct_def len_fits_def cat_col_fits_def num_col_fits_def
        cat_col_def col_of_def dict_of_def validateSegMeta_def)
  moreover have "text_fits (se_rd sample_senv) (sg_text sample_seg)"
    by (simp add: text_fits_def list_fits_def sample_senv_def sample_seg_def len_fits_def)
  moreover have "layers_fit (se_rd sample_senv) (g_layers sample_graph)"
    by (simp add: layers_fit_def layer_fits_def sample_graph_def sample_senv_def len_fits_def)
  moreover have "sg_cat sample_seg = None" "sg_kind sample_seg = Frozen" "length (sg_keys sample_seg) = 2" "g_dim sample_graph = 2"
    "g_maxLevel sample_graph = 0" "big (se_rd sample_senv) = 100"
    by (simp_all add: sample_seg_def sample_graph_def sample_senv_def)
  ultimately have "seg_saveable sample_senv 2 sample_graph sample_seg"
    using sample_wf by (auto simp: seg_saveable_def frozen_saveable_def catalog_fits_def)
  moreover have "tombs_fit (se_rd sample_senv) [''b'']" by (simp add: tombs_fit_def key_fits_def sample_senv_def len_fits_def)
  moreover have "se_order sample_senv {''b''} = [''b'']" by (simp add: sample_senv_def)
  ultimately show ?thesis by (simp add: store_saveable_def sample_store_def vs_new_def maxLevels_def)
qed

lemma sample_quiet: "nothing_pending (ss_store sample_store)"
  by (simp add: nothing_pending_def sample_store_def vs_new_def active_doc_def)

theorem snapshot_roundtrip_witness:
  "\<exists>ss'. LoadBinary sample_senv (SaveBinary sample_senv 9 sample_store)
      \<lparr>ss_store = vs_new, ss_graph = (\<lambda>_. sample_graph), ss_time = 0, ss_lsn = 0\<rparr> = Some (Inr ss') \<and>
    ss_lsn ss' = 42 \<and> v_tombs (ss_store ss') = {''b''} \<and> vs_doc (ss_store ss') = vs_doc (ss_store sample_store) \<and> vinv (ss_store ss')"
  using snapshot_roundtrip[OF sample_saveable, of 9 "\<lambda>_. sample_graph"] sample_quiet
  by (auto simp: sample_store_def)

theorem truncation_detected_witness:
  "\<not> (\<exists>ss'. LoadBinary sample_senv (take 30 (SaveBinary sample_senv 9 sample_store)) sample_store = Some (Inr ss'))"
proof (rule truncation_detected[OF sample_saveable])
  have "33 \<le> length (snapshot_payload sample_senv 9 sample_store)"
    by (simp add: snapshot_payload_def Let_def leveledMagic_def leveledMagicPrefix_def)
  then show "30 < length (SaveBinary sample_senv 9 sample_store)" by (simp add: SaveBinary_def Let_def)
qed

theorem load_does_not_crash_witness:
  "LoadBinary sample_senv (leveledMagicPrefix @ map byte_of [0, 7, 0, 0] @ replicate 20 (byte_of 255)) sample_store \<noteq> None"
  by (rule load_does_not_crash) (simp_all add: sample_senv_def file_version_def leveledMagicPrefix_def)

end
