(* ===== verification/VecIndex.thy ===== *)
theory VecIndex
  imports VecDelta
begin

text \<open>
  Text search, the parts (\<open>vector/bm25_text.go\<close>, \<open>bm25_store.go\<close>, \<open>delta.go\<close>): the terms of a document and
  their counts, the inverted index that a shard of the delta keeps, and that it is what the stored terms
  say. The cutting of a text into words and the stemmer (a third-party package) are the parameter
  \<open>tx_tokens\<close>, the float arithmetic of the scores are parameters too.
\<close>

subsection \<open>Parameters\<close>

record text_env =
  tx_tokens :: "bytes \<Rightarrow> bytes list"
  tx_blank :: "bytes \<Rightarrow> bool"
  tx_idf :: "64 word \<Rightarrow> 64 word \<Rightarrow> f64"
  tx_avg :: "64 word \<Rightarrow> 64 word \<Rightarrow> f64"
  tx_part :: "f64 \<Rightarrow> 16 word \<Rightarrow> 32 word \<Rightarrow> f64 \<Rightarrow> f64"
  tx_plus :: "f64 \<Rightarrow> f64 \<Rightarrow> f64"
  tx_rrf :: "nat \<Rightarrow> f64"

subsection \<open>Counting the terms\<close>

text \<open>\<open>cnt[t]++\<close>, then the entries sorted by their terms; a count stops at the largest \<open>uint16\<close>.\<close>

definition count_token :: "(bytes, 32 word) gomap \<Rightarrow> bytes \<Rightarrow> (bytes, 32 word) gomap" where
  "count_token cnt t = AList.update t ((case map_of cnt t of None \<Rightarrow> 0 | Some c \<Rightarrow> c) + 1) cnt"

definition saturate :: "32 word \<Rightarrow> 16 word" where
  "saturate c = (if unat c > 65535 then 65535 else ucast c)"

definition bm25CountTerms :: "bytes list \<Rightarrow> term_tf list" where
  "bm25CountTerms tokens =
     (if tokens = [] then []
      else sort_key Term (map (\<lambda>(t, c). \<lparr>Term = t, TF = saturate c\<rparr>) (foldl count_token [] tokens)))"

definition TokenizeDoc :: "text_env \<Rightarrow> bytes \<Rightarrow> term_tf list" where
  "TokenizeDoc X text = bm25CountTerms (tx_tokens X text)"

definition bm25TitleWeight :: nat where "bm25TitleWeight = 3"

text \<open>The words of a title count three times.\<close>

definition TokenizeDocTitled :: "text_env \<Rightarrow> bytes \<Rightarrow> bytes \<Rightarrow> term_tf list" where
  "TokenizeDocTitled X title text =
     (if tx_blank X title then TokenizeDoc X text
      else TokenizeDoc X (concat (replicate bm25TitleWeight (title @ '' '')) @ text))"

lemma count_tokens_map:
  "keys_distinct m \<Longrightarrow> keys_distinct (foldl count_token m ts) \<and>
    map_of (foldl count_token m ts) t =
      (if t \<in> set ts then Some ((case map_of m t of None \<Rightarrow> 0 | Some c \<Rightarrow> c) + word_of_nat (count_list ts t))
       else map_of m t)"
proof (induction ts arbitrary: m)
  case (Cons u ts)
  have "keys_distinct (count_token m u)" using Cons.prems by (simp add: count_token_def)
  from Cons.IH[OF this] show ?case by (auto simp: count_token_def)
qed simp

text \<open>The terms of a document: every token once, in order, with its count up to the limit.\<close>

lemma count_terms_spec:
  assumes "length tokens < 2 ^ 32"
  shows "sorted (map Term (bm25CountTerms tokens))" "distinct (map Term (bm25CountTerms tokens))"
    "t \<in> set (bm25CountTerms tokens) \<longleftrightarrow> Term t \<in> set tokens \<and> TF t = word_of_nat (min 65535 (count_list tokens (Term t)))"
proof -
  let ?m = "foldl count_token [] tokens"
  have m: "keys_distinct ?m" "map_of ?m t = (if t \<in> set tokens then Some (word_of_nat (count_list tokens t)) else None)" for t
    using count_tokens_map[of "[]" tokens t] by simp_all
  have sat: "saturate (word_of_nat (count_list tokens t)) = word_of_nat (min 65535 (count_list tokens t))" for t
  proof -
    have "count_list tokens t \<le> length tokens" by (rule count_le_length)
    then have n: "count_list tokens t < 2 ^ 32" using assms by simp
    then have "unat (word_of_nat (count_list tokens t) :: 32 word) = count_list tokens t"
      by (simp add: unat_of_nat take_bit_nat_eq_self)
    then show ?thesis
      by (auto simp: saturate_def min_def unsigned_word_eqI word_eq_iff_unsigned unsigned_ucast_eq unsigned_of_nat take_bit_take_bit)
  qed
  have entries: "set (bm25CountTerms tokens) = (\<lambda>(t, c). \<lparr>Term = t, TF = saturate c\<rparr>) ` set ?m"
    by (cases "tokens = []") (simp_all add: bm25CountTerms_def)
  show "sorted (map Term (bm25CountTerms tokens))" by (simp add: bm25CountTerms_def)
  have "map Term (map (\<lambda>(t, c). \<lparr>Term = t, TF = saturate c\<rparr>) ?m) = map fst ?m" by (simp add: comp_def case_prod_unfold)
  moreover have "mset (map Term (bm25CountTerms tokens)) = mset (map Term (map (\<lambda>(t, c). \<lparr>Term = t, TF = saturate c\<rparr>) ?m))"
    by (cases "tokens = []") (simp_all add: bm25CountTerms_def del: map_map)
  ultimately have "mset (map Term (bm25CountTerms tokens)) = mset (map fst ?m)" by (simp only:)
  then show "distinct (map Term (bm25CountTerms tokens))"
    using m(1) by (metis keys_distinct_def mset_eq_imp_distinct_iff)
  have "t \<in> set (bm25CountTerms tokens) \<longleftrightarrow> (\<exists>c. map_of ?m (Term t) = Some c \<and> TF t = saturate c)"
    unfolding entries by (cases t) (force simp: keys_distinct_map_of[OF m(1)])
  then show "t \<in> set (bm25CountTerms tokens) \<longleftrightarrow> Term t \<in> set tokens \<and> TF t = word_of_nat (min 65535 (count_list tokens (Term t)))"
    by (auto simp: m(2) sat)
qed

text \<open>What is asked of the cutting: no empty word, and not too many.\<close>

definition tokens_ok :: "text_env \<Rightarrow> bool" where
  "tokens_ok X \<longleftrightarrow> (\<forall>s. [] \<notin> set (tx_tokens X s) \<and> length (tx_tokens X s) < 2 ^ 32)"

lemma tokenize_terms_ok:
  assumes "tokens_ok X"
  shows "terms_ok (TokenizeDocTitled X title text)"
proof -
  have "terms_ok (TokenizeDoc X s)" for s
  proof -
    have l: "length (tx_tokens X s) < 2 ^ 32" "[] \<notin> set (tx_tokens X s)" using assms by (auto simp: tokens_ok_def)
    note c = count_terms_spec[OF l(1)]
    have "TF t \<noteq> 0" if t: "t \<in> set (TokenizeDoc X s)" for t
    proof -
      have "Term t \<in> set (tx_tokens X s)" "TF t = word_of_nat (min 65535 (count_list (tx_tokens X s) (Term t)))"
        using c(3)[of t] t by (auto simp: TokenizeDoc_def)
      moreover from this(1) have "0 < count_list (tx_tokens X s) (Term t)" by (metis count_list_0_iff gr0I)
      ultimately have "unat (TF t) \<noteq> 0" by (simp add: unat_of_nat take_bit_nat_eq_self min_def)
      then show ?thesis by auto
    qed
    moreover have "Term t \<noteq> []" if "t \<in> set (TokenizeDoc X s)" for t
      using c(3)[of t] l(2) that by (auto simp: TokenizeDoc_def)
    ultimately show ?thesis using c(1,2) by (auto simp: terms_ok_def TokenizeDoc_def)
  qed
  then show ?thesis by (simp add: TokenizeDocTitled_def)
qed


subsection \<open>The index of a shard\<close>

text \<open>The text fields of \<open>deltaShard\<close>: they are aligned with the slots only when a text comes.\<close>

record text_index =
  ti_terms :: "term_tf list list"
  ti_len :: "32 word list"
  ti_text :: "(bytes, posting list) gomap"
  ti_n :: int
  ti_total :: "64 word"

definition no_index :: text_index where
  "no_index = \<lparr>ti_terms = [], ti_len = [], ti_text = [], ti_n = 0, ti_total = 0\<rparr>"

definition pad :: "nat \<Rightarrow> 'a \<Rightarrow> 'a list \<Rightarrow> 'a list" where
  "pad n x xs = xs @ replicate (n - length xs) x"

definition ensureTextLocked :: "nat \<Rightarrow> text_index \<Rightarrow> text_index" where
  "ensureTextLocked n ix = ix\<lparr>ti_terms := pad n [] (ti_terms ix), ti_len := pad n 0 (ti_len ix)\<rparr>"

definition posts :: "(bytes, posting list) gomap \<Rightarrow> bytes \<Rightarrow> posting list" where
  "posts tx t = (case map_of tx t of None \<Rightarrow> [] | Some pl \<Rightarrow> pl)"

text \<open>The first posting of a slot is overwritten by the last one of the list, which then goes.\<close>

definition swap_delete :: "32 word \<Rightarrow> posting list \<Rightarrow> posting list" where
  "swap_delete w pl =
     (let i = length (takeWhile (\<lambda>p. p_doc p \<noteq> w) pl) in
      if i < length pl then butlast (pl[i := last pl]) else pl)"

definition clear_term :: "nat \<Rightarrow> (bytes, posting list) gomap \<Rightarrow> term_tf \<Rightarrow> (bytes, posting list) gomap" where
  "clear_term slot tx tt =
     (let pl = swap_delete (word_of_nat slot) (posts tx (Term tt)) in
      if pl = [] then AList.delete (Term tt) tx else AList.update (Term tt) pl tx)"

definition clearTextLocked :: "nat \<Rightarrow> text_index \<Rightarrow> text_index" where
  "clearTextLocked slot ix =
     (if slot \<ge> length (ti_terms ix) \<or> ti_terms ix ! slot = [] then ix
      else ix\<lparr>ti_text := foldl (clear_term slot) (ti_text ix) (ti_terms ix ! slot), ti_n := ti_n ix - 1,
              ti_total := ti_total ix - ucast (ti_len ix ! slot),
              ti_terms := (ti_terms ix)[slot := []], ti_len := (ti_len ix)[slot := 0]\<rparr>)"

definition set_term :: "nat \<Rightarrow> (bytes, posting list) gomap \<Rightarrow> term_tf \<Rightarrow> (bytes, posting list) gomap" where
  "set_term slot tx tt =
     AList.update (Term tt) (posts tx (Term tt) @ [\<lparr>p_doc = word_of_nat slot, p_tf = TF tt\<rparr>]) tx"

definition doc_len :: "term_tf list \<Rightarrow> 32 word" where
  "doc_len ts = foldl (\<lambda>dl tt. dl + ucast (TF tt)) 0 ts"

text \<open>\<open>n\<close> is the number of slots.\<close>

definition setTextLocked :: "nat \<Rightarrow> nat \<Rightarrow> term_tf list \<Rightarrow> text_index \<Rightarrow> text_index" where
  "setTextLocked n slot terms ix =
     (if terms = [] then ix
      else
        (let ix1 = ensureTextLocked n ix; dl = doc_len terms in
         ix1\<lparr>ti_text := foldl (set_term slot) (ti_text ix1) terms, ti_terms := (ti_terms ix1)[slot := terms],
             ti_len := (ti_len ix1)[slot := dl], ti_n := ti_n ix1 + 1, ti_total := ti_total ix1 + ucast dl\<rparr>))"

text \<open>The text part of an insertion and of a deletion, by the table of keys as it is before.\<close>

definition index_append :: "bytes \<Rightarrow> term_tf list \<Rightarrow> dshard \<Rightarrow> text_index \<Rightarrow> text_index" where
  "index_append key terms s ix =
     (case map_of (keyIdx s) key of
        Some slot \<Rightarrow> setTextLocked (length (s_keys s)) slot terms (clearTextLocked slot ix)
      | None \<Rightarrow> setTextLocked (length (s_keys s) + 1) (length (s_keys s)) terms ix)"

definition index_delete :: "bytes \<Rightarrow> dshard \<Rightarrow> text_index \<Rightarrow> text_index" where
  "index_delete key s ix = (case map_of (keyIdx s) key of None \<Rightarrow> ix | Some slot \<Rightarrow> clearTextLocked slot ix)"

datatype shard_op = SAppend bytes "f32 list" attributes "term_tf list" | SDelete bytes

fun shard_step :: "shard_op \<Rightarrow> dshard \<times> text_index \<Rightarrow> dshard \<times> text_index" where
  "shard_step (SAppend key vec a ts) (s, ix) = (snd (shard_append key vec a ts s), index_append key ts s ix)"
| "shard_step (SDelete key) (s, ix) = (snd (shard_delete key s), index_delete key s ix)"

subsection \<open>The index is what the stored terms say\<close>

text \<open>The reference: the postings of a term, slot by slot.\<close>

definition slot_posts :: "nat \<Rightarrow> term_tf list \<Rightarrow> bytes \<Rightarrow> posting list" where
  "slot_posts i ts t = map (\<lambda>tt. \<lparr>p_doc = word_of_nat i, p_tf = TF tt\<rparr>) (filter (\<lambda>tt. Term tt = t) ts)"

definition all_posts :: "term_tf list list \<Rightarrow> bytes \<Rightarrow> posting list" where
  "all_posts tss t = concat (map (\<lambda>i. slot_posts i (tss ! i) t) [0..<length tss])"

definition text_slots :: "term_tf list list \<Rightarrow> nat" where
  "text_slots tss = length (filter (\<lambda>ts. ts \<noteq> []) tss)"

definition text_total :: "term_tf list list \<Rightarrow> 64 word" where
  "text_total tss = sum_list (map (\<lambda>ts. ucast (doc_len ts)) tss)"

lemma slot_posts_Nil [simp]: "slot_posts i [] t = []"
  by (simp add: slot_posts_def)

lemma all_posts_pad [simp]: "all_posts (tss @ replicate n []) t = all_posts tss t"
proof (induction n)
  case (Suc n)
  have "all_posts (xss @ [[]]) t = all_posts xss t" for xss
  proof -
    have "map (\<lambda>i. slot_posts i ((xss @ [[]]) ! i) t) [0..<length xss] = map (\<lambda>i. slot_posts i (xss ! i) t) [0..<length xss]"
      by (rule map_cong) (auto simp: nth_append)
    then show ?thesis unfolding all_posts_def by (simp only: length_append_singleton upt_Suc_append[OF le0] map_append concat_append) simp
  qed
  from this[of "tss @ replicate n []"] Suc show ?case by (simp add: replicate_append_same[symmetric])
qed simp

lemma all_posts_mset: "mset (all_posts tss t) = (\<Sum>i < length tss. mset (slot_posts i (tss ! i) t))"
  by (simp add: all_posts_def mset_concat_upto)

text \<open>Replacing the terms of one slot.\<close>

lemma all_posts_slot:
  assumes "slot < length tss"
  shows "mset (all_posts (tss[slot := ts]) t) = mset (all_posts (tss[slot := []]) t) + mset (slot_posts slot ts t)"
proof -
  have "(\<Sum>i < length tss. mset (slot_posts i (tss[slot := us] ! i) t)) =
      mset (slot_posts slot us t) + (\<Sum>i \<in> {..<length tss} - {slot}. mset (slot_posts i (tss ! i) t))" for us
  proof -
    have "(\<Sum>i < length tss. mset (slot_posts i (tss[slot := us] ! i) t)) =
        mset (slot_posts slot (tss[slot := us] ! slot) t) +
        (\<Sum>i \<in> {..<length tss} - {slot}. mset (slot_posts i (tss[slot := us] ! i) t))"
      using assms by (intro sum.remove) auto
    also have "(\<Sum>i \<in> {..<length tss} - {slot}. mset (slot_posts i (tss[slot := us] ! i) t)) =
        (\<Sum>i \<in> {..<length tss} - {slot}. mset (slot_posts i (tss ! i) t))"
      by (rule sum.cong) auto
    finally show ?thesis using assms by simp
  qed
  from this[of ts] this[of "[]"] show ?thesis by (simp add: all_posts_mset)
qed

lemma doc_len_Nil [simp]: "doc_len [] = 0"
  by (simp add: doc_len_def)

lemma text_counts_slot:
  assumes "slot < length tss"
  shows "text_slots (tss[slot := ts]) = text_slots (tss[slot := []]) + (if ts = [] then 0 else 1)"
    "text_total (tss[slot := ts]) = text_total (tss[slot := []]) + ucast (doc_len ts)"
proof -
  have "tss[slot := us] = take slot tss @ us # drop (Suc slot) tss" for us using assms by (simp add: upd_conv_take_nth_drop)
  then show "text_slots (tss[slot := ts]) = text_slots (tss[slot := []]) + (if ts = [] then 0 else 1)"
    "text_total (tss[slot := ts]) = text_total (tss[slot := []]) + ucast (doc_len ts)"
    by (simp_all add: text_slots_def text_total_def)
qed

text \<open>Taking a posting out of a list that has one for the slot.\<close>

lemma swap_delete_one:
  assumes "filter_mset (\<lambda>p. p_doc p = w) (mset pl) = {#p#}"
  shows "mset (swap_delete w pl) = mset pl - {#p#}"
proof -
  define i where "i = length (takeWhile (\<lambda>p. p_doc p \<noteq> w) pl)"
  have "p \<in># filter_mset (\<lambda>p. p_doc p = w) (mset pl)" by (simp add: assms)
  then have p: "p \<in> set pl" "p_doc p = w" by auto
  have i: "i < length pl" unfolding i_def 
  proof -
    have "takeWhile (\<lambda>p. p_doc p \<noteq> w) pl \<noteq> pl" using p by (metis (mono_tags, lifting) set_takeWhileD)
    then have "dropWhile (\<lambda>p. p_doc p \<noteq> w) pl \<noteq> []" by (metis append_Nil2 takeWhile_dropWhile_id)
    then show "length (takeWhile (\<lambda>p. p_doc p \<noteq> w) pl) < length pl"
      by (metis add_strict_left_mono add_0_right length_append length_greater_0_conv takeWhile_dropWhile_id)
  qed
  have "p_doc (pl ! i) = w" using i nth_length_takeWhile[of "\<lambda>p. p_doc p \<noteq> w" pl] by (simp add: i_def)
  then have "pl ! i \<in># filter_mset (\<lambda>p. p_doc p = w) (mset pl)" using i by simp
  then have pi: "pl ! i = p" by (simp add: assms)
  have ne: "pl \<noteq> []" using i by auto
  have "mset (pl[i := last pl]) = add_mset (last pl) (mset pl - {#p#})" using i pi by (simp add: mset_update)
  moreover have "last (pl[i := last pl]) = last pl" using ne by (simp add: last_list_update)
  moreover have "mset (pl[i := last pl]) = add_mset (last (pl[i := last pl])) (mset (butlast (pl[i := last pl])))"
    using ne by (metis append_butlast_last_id length_0_conv length_list_update mset.simps(2) mset_append union_mset_add_mset_right mset_single_iff_right add_mset_add_single)
  ultimately have "mset (butlast (pl[i := last pl])) = mset pl - {#p#}" by simp
  with i show ?thesis by (simp add: swap_delete_def Let_def i_def)
qed

lemma posts_update [simp]: "posts (AList.update u pl tx) t = (if t = u then pl else posts tx t)"
  by (simp add: posts_def)

lemma posts_delete [simp]: "posts (AList.delete u tx) t = (if t = u then [] else posts tx t)"
  by (simp add: posts_def)

lemma posts_clear [simp]:
  "posts (clear_term slot tx tt) t = (if t = Term tt then swap_delete (word_of_nat slot) (posts tx t) else posts tx t)"
  by (auto simp: clear_term_def Let_def)

lemma posts_set [simp]:
  "posts (set_term slot tx tt) t = posts tx t @ (if t = Term tt then [\<lparr>p_doc = word_of_nat slot, p_tf = TF tt\<rparr>] else [])"
  by (simp add: set_term_def)

lemma posts_sets: "posts (foldl (set_term slot) tx ts) t = posts tx t @ slot_posts slot ts t"
  by (induction ts arbitrary: tx) (auto simp: slot_posts_def)

lemma posts_clears:
  assumes "distinct (map Term ts)"
    and "\<And>tt. tt \<in> set ts \<Longrightarrow> filter_mset (\<lambda>p. p_doc p = word_of_nat slot) (mset (posts tx (Term tt))) =
      {#\<lparr>p_doc = word_of_nat slot, p_tf = TF tt\<rparr>#}"
  shows "mset (posts (foldl (clear_term slot) tx ts) t) = mset (posts tx t) - mset (slot_posts slot ts t)"
  using assms
proof (induction ts arbitrary: tx)
  case Nil
  then show ?case by simp
next
  case (Cons u ts)
  let ?tx = "clear_term slot tx u"
  have "filter_mset (\<lambda>p. p_doc p = word_of_nat slot) (mset (posts ?tx (Term tt))) =
      {#\<lparr>p_doc = word_of_nat slot, p_tf = TF tt\<rparr>#}" if "tt \<in> set ts" for tt
    using Cons.prems(1) Cons.prems(2)[of tt] that by (auto simp: image_iff)
  from Cons.IH[OF _ this] Cons.prems(1)
  have ih: "mset (posts (foldl (clear_term slot) tx (u # ts)) t) = mset (posts ?tx t) - mset (slot_posts slot ts t)" by simp
  show ?case
  proof (cases "t = Term u")
    case True
    have "Term u \<notin> Term ` set ts" using Cons.prems(1) by simp
    then have none: "filter (\<lambda>tt. Term tt = Term u) ts = []" by (auto simp: filter_empty_conv image_iff)
    from swap_delete_one[OF Cons.prems(2)[of u]] True ih show ?thesis
      by (simp add: slot_posts_def none)
  next
    case False
    with ih show ?thesis by (simp add: slot_posts_def)
  qed
qed


text \<open>The invariant: lists and counters are those of the stored terms, and no list is empty.\<close>

definition index_ok :: "text_index \<Rightarrow> bool" where
  "index_ok ix \<longleftrightarrow> ti_len ix = map doc_len (ti_terms ix) \<and> (\<forall>ts \<in> set (ti_terms ix). distinct (map Term ts)) \<and>
     (\<forall>t. mset (posts (ti_text ix) t) = mset (all_posts (ti_terms ix) t)) \<and> (\<forall>t. map_of (ti_text ix) t \<noteq> Some []) \<and>
     ti_n ix = int (text_slots (ti_terms ix)) \<and> ti_total ix = text_total (ti_terms ix)"

lemma no_index_ok: "index_ok no_index"
  by (simp add: index_ok_def no_index_def posts_def all_posts_def text_slots_def text_total_def)

lemma others_not_slot:
  assumes "length tss < 2 ^ 32" "slot < length tss" "p \<in> set (all_posts (tss[slot := []]) t)"
  shows "p_doc p \<noteq> word_of_nat slot"
proof -
  obtain i where i: "i < length tss" "p \<in> set (slot_posts i (tss[slot := []] ! i) t)" using assms(3) by (auto simp: all_posts_def)
  then have "i \<noteq> slot" "p_doc p = word_of_nat i" by (auto simp: slot_posts_def)
  moreover have "i < 2 ^ 32" "slot < 2 ^ 32" using i(1) assms(1,2) by simp_all
  ultimately show ?thesis by (auto simp: word_of_nat_eq_iff take_bit_nat_eq_self)
qed

lemma slot_posts_one:
  assumes "distinct (map Term ts)" "tt \<in> set ts"
  shows "slot_posts slot ts (Term tt) = [\<lparr>p_doc = word_of_nat slot, p_tf = TF tt\<rparr>]"
proof -
  have "filter (\<lambda>x. Term x = Term tt) ts = [tt]" using assms
  proof (induction ts)
    case (Cons u ts)
    show ?case
    proof (cases "tt = u")
      case True
      have "filter (\<lambda>x. Term x = Term u) ts = []" using Cons.prems(1) by (auto simp: filter_empty_conv image_iff)
      with True show ?thesis by simp
    next
      case False
      with Cons.prems have "tt \<in> set ts" "Term u \<noteq> Term tt" by (auto simp: image_iff)
      with Cons show ?thesis by simp
    qed
  qed simp
  then show ?thesis by (simp add: slot_posts_def)
qed

lemma slot_posts_single:
  assumes "index_ok ix" "length (ti_terms ix) < 2 ^ 32" "slot < length (ti_terms ix)" "tt \<in> set (ti_terms ix ! slot)"
  shows "filter_mset (\<lambda>p. p_doc p = word_of_nat slot) (mset (posts (ti_text ix) (Term tt))) =
    {#\<lparr>p_doc = word_of_nat slot, p_tf = TF tt\<rparr>#}"
proof -
  let ?tss = "ti_terms ix" and ?p = "\<lparr>p_doc = word_of_nat slot, p_tf = TF tt\<rparr>"
  have "distinct (map Term (?tss ! slot))" using assms(1,3) by (simp add: index_ok_def)
  from slot_posts_one[OF this assms(4)] have "mset (posts (ti_text ix) (Term tt)) = add_mset ?p (mset (all_posts (?tss[slot := []]) (Term tt)))"
    using assms(1) all_posts_slot[OF assms(3), of "?tss ! slot" "Term tt"] by (simp add: index_ok_def)
  moreover have "filter_mset (\<lambda>p. p_doc p = word_of_nat slot) (mset (all_posts (?tss[slot := []]) (Term tt))) = {#}"
    using others_not_slot[OF assms(2,3)] by (auto simp: filter_empty_conv simp flip: mset_filter)
  ultimately show ?thesis by simp
qed

lemma keeps_nonempty: "\<forall>t. map_of tx t \<noteq> Some [] \<Longrightarrow> \<forall>t. map_of (foldl (clear_term slot) tx ts) t \<noteq> Some []"
  by (induction ts arbitrary: tx) (auto simp: clear_term_def Let_def)

lemma sets_nonempty: "\<forall>t. map_of tx t \<noteq> Some [] \<Longrightarrow> \<forall>t. map_of (foldl (set_term slot) tx ts) t \<noteq> Some []"
  by (induction ts arbitrary: tx) (auto simp: set_term_def)

lemma clear_ok:
  assumes "index_ok ix" "length (ti_terms ix) < 2 ^ 32"
  shows "index_ok (clearTextLocked slot ix)" "ti_terms (clearTextLocked slot ix) = (ti_terms ix)[slot := []]"
proof -
  let ?tss = "ti_terms ix"
  have "index_ok (clearTextLocked slot ix) \<and> ti_terms (clearTextLocked slot ix) = ?tss[slot := []]"
  proof (cases "slot \<ge> length ?tss \<or> ?tss ! slot = []")
    case True
    then have "?tss[slot := []] = ?tss" by (metis list_update_beyond list_update_id)
    with True assms(1) show ?thesis by (simp add: clearTextLocked_def)
  next
    case False
    then have slot: "slot < length ?tss" "?tss ! slot \<noteq> []" by auto
    have d: "distinct (map Term (?tss ! slot))" using assms(1) slot(1) by (simp add: index_ok_def)
    have "mset (posts (foldl (clear_term slot) (ti_text ix) (?tss ! slot)) t) = mset (all_posts (?tss[slot := []]) t)" for t
      using posts_clears[OF d slot_posts_single[OF assms slot(1)]] all_posts_slot[OF slot(1), of "?tss ! slot" t] assms(1)
      by (simp add: index_ok_def)
    moreover have "ti_len ix ! slot = doc_len (?tss ! slot)" using assms(1) slot(1) by (simp add: index_ok_def)
    moreover have "(map doc_len ?tss)[slot := 0] = map doc_len (?tss[slot := []])" by (simp add: map_update)
    moreover have "\<forall>ts \<in> set (?tss[slot := []]). distinct (map Term ts)"
      using assms(1) set_update_subset_insert[of ?tss slot "[]"] by (auto simp: index_ok_def)
    moreover note text_counts_slot[OF slot(1), of "?tss ! slot"]
    ultimately show ?thesis using False assms(1) keeps_nonempty[of "ti_text ix" slot "?tss ! slot"]
      by (simp add: clearTextLocked_def index_ok_def)
  qed
  then show "index_ok (clearTextLocked slot ix)" "ti_terms (clearTextLocked slot ix) = ?tss[slot := []]" by simp_all
qed

lemma ensure_ok:
  assumes "index_ok ix"
  shows "index_ok (ensureTextLocked n ix)"
proof -
  have "text_slots (ti_terms ix @ replicate m []) = text_slots (ti_terms ix)" "text_total (ti_terms ix @ replicate m []) = text_total (ti_terms ix)" for m
    by (simp_all add: text_slots_def text_total_def sum_list_replicate)
  with assms show ?thesis by (auto simp: index_ok_def ensureTextLocked_def pad_def)
qed

text \<open>Setting the terms of a slot that has none.\<close>

lemma set_ok:
  assumes "index_ok ix" "slot < n" "distinct (map Term ts)" "slot < length (ti_terms ix) \<longrightarrow> ti_terms ix ! slot = []"
  shows "index_ok (setTextLocked n slot ts ix)"
    "ti_terms (setTextLocked n slot ts ix) = (if ts = [] then ti_terms ix else (pad n [] (ti_terms ix))[slot := ts])"
proof -
  define ix1 where "ix1 = ensureTextLocked n ix"
  have ok: "index_ok ix1" using ensure_ok[OF assms(1)] by (simp add: ix1_def)
  have tss: "ti_terms ix1 = pad n [] (ti_terms ix)" by (simp add: ix1_def ensureTextLocked_def)
  have slot: "slot < length (ti_terms ix1)" "ti_terms ix1 ! slot = []"
    using assms(2,4) by (auto simp: tss pad_def nth_append)
  have id: "(ti_terms ix1)[slot := []] = ti_terms ix1" using slot by (metis list_update_id)
  have "mset (posts (foldl (set_term slot) (ti_text ix1) ts) t) = mset (all_posts ((ti_terms ix1)[slot := ts]) t)" for t
    using ok all_posts_slot[OF slot(1), of ts t] by (simp add: id posts_sets index_ok_def)
  moreover have "(map doc_len (ti_terms ix1))[slot := doc_len ts] = map doc_len ((ti_terms ix1)[slot := ts])" by (simp add: map_update)
  moreover have "\<forall>us \<in> set ((ti_terms ix1)[slot := ts]). distinct (map Term us)"
    using ok assms(3) set_update_subset_insert[of "ti_terms ix1" slot ts] by (auto simp: index_ok_def)
  moreover note text_counts_slot[OF slot(1), of ts, unfolded id]
  ultimately have "ts \<noteq> [] \<Longrightarrow> index_ok (setTextLocked n slot ts ix)"
    using ok sets_nonempty[of "ti_text ix1" slot ts] by (simp add: setTextLocked_def Let_def index_ok_def ix1_def[symmetric])
  then show "index_ok (setTextLocked n slot ts ix)" using assms(1) by (cases "ts = []") (simp_all add: setTextLocked_def)
  show "ti_terms (setTextLocked n slot ts ix) = (if ts = [] then ti_terms ix else (pad n [] (ti_terms ix))[slot := ts])"
    by (simp add: setTextLocked_def Let_def tss ix1_def[symmetric])
qed


subsection \<open>Runs of a shard\<close>

text \<open>The index is behind the slots only by slots without text.\<close>

definition aligned :: "dshard \<Rightarrow> text_index \<Rightarrow> bool" where
  "aligned s ix \<longleftrightarrow> s_terms s = pad (length (s_keys s)) [] (ti_terms ix) \<and> length (ti_terms ix) \<le> length (s_keys s)"

lemma length_pad [simp]: "length (pad n x xs) = max n (length xs)"
  by (simp add: pad_def)

lemma pad_cleared: "pad n [] (tss[slot := []]) = (pad n ([] :: 'a list) tss)[slot := []]"
proof -
  have "(replicate m ([] :: 'a list))[k := []] = replicate m []" for m k
    by (metis length_replicate linorder_not_le list_update_beyond list_update_id nth_replicate)
  then show ?thesis by (simp add: pad_def list_update_append list_update_beyond)
qed

lemma pad_id: "length xs = n \<Longrightarrow> pad n x xs = xs"
  by (simp add: pad_def)

lemma pad_Suc: "length tss \<le> n \<Longrightarrow> pad (Suc n) [] tss = pad n [] tss @ [[]]"
  by (simp add: pad_def Suc_diff_le replicate_append_same)

definition op_ok :: "shard_op \<Rightarrow> bool" where
  "op_ok p = (case p of SAppend key vec a ts \<Rightarrow> key \<noteq> [] \<and> distinct (map Term ts) | SDelete key \<Rightarrow> True)"

lemma shard_step_ok:
  assumes slots: "slots_ok s" and ok: "index_ok ix" and al: "aligned s ix" and n: "length (s_keys s) < 2 ^ 32"
    and p: "op_ok p" and res: "shard_step p (s, ix) = (s', ix')"
  shows "slots_ok s' \<and> index_ok ix' \<and> aligned s' ix' \<and> length (s_keys s') \<le> Suc (length (s_keys s))"
proof (cases p)
  case (SAppend key vec a ts)
  have key: "key \<noteq> []" and d: "distinct (map Term ts)" using p SAppend by (simp_all add: op_ok_def)
  have s': "s' = snd (shard_append key vec a ts s)" and ix': "ix' = index_append key ts s ix" using res SAppend by simp_all
  have sl: "slots_ok s'" using append_slots(1)[OF slots key] s' by simp
  show ?thesis
  proof (cases "map_of (keyIdx s) key")
    case None
    have "length (s_keys s) < length (ti_terms ix) \<longrightarrow> ti_terms ix ! length (s_keys s) = []" using al by (simp add: aligned_def)
    note st = set_ok[OF ok _ d this, of "Suc (length (s_keys s))", simplified]
    have "pad (Suc (length (s_keys s))) [] (ti_terms ix) = s_terms s @ [[]]" using al by (simp add: aligned_def pad_Suc)
    moreover have "length (s_terms s) = length (s_keys s)" using slots by (simp add: slots_ok_def)
    ultimately have "ti_terms ix' = (if ts = [] then ti_terms ix else s_terms s @ [ts])" "length (s_terms s @ [ts]) = Suc (length (s_keys s))"
      using None by (auto simp: ix' index_append_def st(2) list_update_append)
    then have "aligned s' ix'"
      using None al \<open>pad (Suc (length (s_keys s))) [] (ti_terms ix) = s_terms s @ [[]]\<close>
      by (cases "ts = []") (simp_all add: s' shard_append_def aligned_def pad_id)
    with sl st(1) None show ?thesis unfolding s' ix' by (simp add: shard_append_def index_append_def)
  next
    case (Some slot)
    then have slot: "slot < length (s_keys s)" using slots_okD(1)[OF slots] by blast
    have small: "length (ti_terms ix) < 2 ^ 32" using al n by (simp add: aligned_def)
    note c = clear_ok[OF ok small, of slot]
    have "slot < length (ti_terms (clearTextLocked slot ix)) \<longrightarrow> ti_terms (clearTextLocked slot ix) ! slot = []" by (simp add: c(2))
    note st = set_ok[OF c(1) slot d this]
    have "aligned s' ix'"
      using Some al unfolding s' ix' by (auto simp: shard_append_def index_append_def aligned_def st(2) c(2) pad_cleared) (simp add: pad_def)
    with sl st(1) Some show ?thesis unfolding s' ix' by (simp add: shard_append_def index_append_def)
  qed
next
  case (SDelete key)
  have s': "s' = snd (shard_delete key s)" and ix': "ix' = index_delete key s ix" using res SDelete by simp_all
  have sl: "slots_ok s'" using delete_slots(1)[OF slots] s' by simp
  have small: "length (ti_terms ix) < 2 ^ 32" using al n by (simp add: aligned_def)
  show ?thesis
  proof (cases "map_of (keyIdx s) key")
    case None
    with sl ok al show ?thesis unfolding s' ix' by (simp add: shard_delete_def index_delete_def)
  next
    case (Some slot)
    note c = clear_ok[OF ok small, of slot]
    have "aligned s' ix'" using Some al unfolding s' ix'
      by (simp add: shard_delete_def index_delete_def aligned_def c(2) pad_cleared Let_def)
    with sl c(1) Some show ?thesis unfolding s' ix' by (simp add: shard_delete_def index_delete_def Let_def)
  qed
qed


fun shard_ops :: "shard_op list \<Rightarrow> dshard \<times> text_index \<Rightarrow> dshard \<times> text_index" where
  "shard_ops [] \<sigma> = \<sigma>"
| "shard_ops (p # ps) \<sigma> = shard_ops ps (shard_step p \<sigma>)"

lemma shard_ops_ok:
  "slots_ok s \<Longrightarrow> index_ok ix \<Longrightarrow> aligned s ix \<Longrightarrow> length (s_keys s) + length ps \<le> 2 ^ 32 \<Longrightarrow> list_all op_ok ps \<Longrightarrow>
    shard_ops ps (s, ix) = (s', ix') \<Longrightarrow> index_ok ix' \<and> aligned s' ix'"
proof (induction ps arbitrary: s ix)
  case (Cons p ps)
  obtain s1 ix1 where p: "shard_step p (s, ix) = (s1, ix1)" by fastforce
  from Cons.prems(4) have "length (s_keys s) < 2 ^ 32" by simp
  from shard_step_ok[OF Cons.prems(1-3) this _ p] Cons.prems(5)
  have st: "slots_ok s1" "index_ok ix1" "aligned s1 ix1" "length (s_keys s1) \<le> Suc (length (s_keys s))" by simp_all
  then have "length (s_keys s1) + length ps \<le> 2 ^ 32" using Cons.prems(4) by simp
  from Cons.IH[OF st(1-3) this] Cons.prems(5,6) p show ?case by simp
qed simp

text \<open>C36: The inverted index that a shard of the delta keeps is what its stored terms say. After any sequence of
  insertions, replacements and deletions the posting list of every term has exactly the slots and counts
  of the documents with the term (so its length is the document frequency), no list is empty, and the two
  counters are the number of documents with a text and the sum of their lengths.\<close>

theorem text_index_exact:
  assumes "list_all op_ok ps" "length ps \<le> 2 ^ 32" "shard_ops ps (newDeltaShard, no_index) = (s, ix)"
  shows "mset (posts (ti_text ix) t) = mset (all_posts (s_terms s) t) \<and> map_of (ti_text ix) t \<noteq> Some [] \<and>
    ti_n ix = int (text_slots (s_terms s)) \<and> ti_total ix = text_total (s_terms s)"
proof -
  have al: "aligned newDeltaShard no_index" by (simp add: aligned_def newDeltaShard_def no_index_def pad_def)
  have "length (s_keys newDeltaShard) + length ps \<le> 2 ^ 32" using assms(2) by (simp add: newDeltaShard_def)
  from shard_ops_ok[OF slots_ok_new no_index_ok al this assms(1,3)] have ok: "index_ok ix" "aligned s ix" by simp_all
  have "text_slots (xs @ replicate m []) = text_slots xs" "text_total (xs @ replicate m []) = text_total xs" for xs m
    by (simp_all add: text_slots_def text_total_def sum_list_replicate)
  with ok show ?thesis by (simp add: index_ok_def aligned_def pad_def)
qed

definition two_terms :: "shard_op list" where
  "two_terms = [SAppend ''k'' [1] no_attrs [\<lparr>Term = ''a'', TF = 2\<rparr>, \<lparr>Term = ''b'', TF = 1\<rparr>],
     SAppend ''m'' [2] no_attrs [\<lparr>Term = ''a'', TF = 3\<rparr>], SAppend ''k'' [1] no_attrs [\<lparr>Term = ''b'', TF = 4\<rparr>]]"

theorem text_index_exact_witness:
  "\<exists>s ix. shard_ops two_terms (newDeltaShard, no_index) = (s, ix) \<and> posts (ti_text ix) ''a'' = [\<lparr>p_doc = 1, p_tf = 3\<rparr>] \<and>
    mset (posts (ti_text ix) ''a'') = mset (all_posts (s_terms s) ''a'')"
proof -
  obtain s ix where r: "shard_ops two_terms (newDeltaShard, no_index) = (s, ix)" by fastforce
  have "list_all op_ok two_terms" "length two_terms \<le> 2 ^ 32" by (simp_all add: two_terms_def op_ok_def)
  from text_index_exact[OF this r, of "''a''"] have "mset (posts (ti_text ix) ''a'') = mset (all_posts (s_terms s) ''a'')" by simp
  moreover have "posts (ti_text (snd (shard_ops two_terms (newDeltaShard, no_index)))) ''a'' = [\<lparr>p_doc = 1, p_tf = 3\<rparr>]" by code_simp
  ultimately show ?thesis using r by simp
qed

end
