(* ===== verification/VecLex.thy ===== *)
theory VecLex
  imports VecRuns VecIndex
begin

text \<open>
  Text search over the store (\<open>segmentText.search\<close> of \<open>vector/bm25_text.go\<close>, \<open>SearchText\<close> of \<open>delta.go\<close>,
  \<open>SearchTextFilter\<close> of \<open>bm25_store.go\<close>, \<open>SearchHybridFilter\<close> of \<open>bm25_hybrid.go\<close>). The statistics come from
  all layers, the delta, the deltas being flushed and the segments are searched with them, and the hits
  are merged with the rules of the vector search. The theorem: under strict shadowing every hit is a
  living document with the score of its current text, and passes the filter on its current attributes.
\<close>

subsection \<open>Scores\<close>

text \<open>Sorted by falling score and then by \<open>key\<close>. No score is a NaN.\<close>

definition by_score :: "('h \<Rightarrow> f64) \<Rightarrow> ('h \<Rightarrow> 'k :: linorder) \<Rightarrow> 'h list \<Rightarrow> 'h list" where
  "by_score score key hs = sort_key (\<lambda>h. - f64_key (score h)) (sort_key key hs)"

definition or_zero :: "f64 option \<Rightarrow> f64" where
  "or_zero a = (case a of None \<Rightarrow> f64_zero | Some x \<Rightarrow> x)"

text \<open>\<open>acc[p.doc] += \<dots>\<close> along a posting list.\<close>

definition score_posts :: "text_env \<Rightarrow> f64 \<Rightarrow> f64 \<Rightarrow> 32 word list \<Rightarrow> (nat, f64) gomap \<Rightarrow> posting list \<Rightarrow> (nat, f64) gomap" where
  "score_posts X idf avg lens acc pl =
     foldl (\<lambda>acc p. let doc = unat (p_doc p) in
       AList.update doc (tx_plus X (or_zero (map_of acc doc)) (tx_part X idf (p_tf p) (lens ! doc) avg)) acc) acc pl"

text \<open>A segment, in the range of positions from \<open>lo\<close> up to \<open>hi\<close>.\<close>

definition seg_term :: "text_env \<Rightarrow> segment_text \<Rightarrow> f64 \<Rightarrow> nat \<Rightarrow> nat \<Rightarrow> (nat \<Rightarrow> bool) option
    \<Rightarrow> (nat, f64) gomap \<Rightarrow> bytes \<times> f64 \<Rightarrow> (nat, f64) gomap" where
  "seg_term X st avg lo hi pred acc q =
     (case dict_lookup (t_dict st) (fst q) of
        None \<Rightarrow> acc
      | Some c \<Rightarrow>
          (let pl = postings st ! unat c;
               start = sort_search (length pl) (\<lambda>i. lo \<le> unat (p_doc (pl ! i)));
               scope = takeWhile (\<lambda>p. unat (p_doc p) < hi) (drop start pl) in
           score_posts X (snd q) avg (docLen st) acc
             (filter (\<lambda>p. case pred of None \<Rightarrow> True | Some f \<Rightarrow> f (unat (p_doc p))) scope)))"

definition segment_search :: "text_env \<Rightarrow> segment_text \<Rightarrow> (bytes \<times> f64) list \<Rightarrow> f64 \<Rightarrow> nat \<Rightarrow> nat \<Rightarrow> nat
    \<Rightarrow> (nat \<Rightarrow> bool) option \<Rightarrow> (nat \<times> f64) list" where
  "segment_search X st qs avg lo hi k pred =
     (if k = 0 \<or> f64_eq avg f64_zero then []
      else take k (by_score snd fst (foldl (seg_term X st avg lo hi pred) [] qs)))"

text \<open>A shard of the delta; its index is the reference of \<open>text_index_exact\<close>.\<close>

definition shard_scores :: "text_env \<Rightarrow> dshard \<Rightarrow> (bytes \<times> f64) list \<Rightarrow> f64 \<Rightarrow> (nat, f64) gomap" where
  "shard_scores X s qs avg =
     foldl (\<lambda>acc (t, idf). score_posts X idf avg (map doc_len (s_terms s)) acc (all_posts (s_terms s) t)) [] qs"

definition attrAt :: "dshard \<Rightarrow> nat \<Rightarrow> attributes" where
  "attrAt s i = (if i < length (s_attrs s) then s_attrs s ! i else no_attrs)"

definition shard_text_hits :: "text_env \<Rightarrow> (bytes \<times> f64) list \<Rightarrow> f64 \<Rightarrow> delta_filter \<Rightarrow> dshard \<Rightarrow> (bytes \<times> f64) list" where
  "shard_text_hits X qs avg flt s =
     map (\<lambda>(slot, sc). (s_keys s ! slot, sc))
       (filter (\<lambda>(slot, sc). s_keys s ! slot \<noteq> [] \<and> (case flt of None \<Rightarrow> True | Some f \<Rightarrow> f (s_keys s ! slot) (attrAt s slot)))
         (shard_scores X s qs avg))"

definition delta_SearchText :: "text_env \<Rightarrow> delta \<Rightarrow> (bytes \<times> f64) list \<Rightarrow> f64 \<Rightarrow> nat \<Rightarrow> delta_filter \<Rightarrow> (bytes \<times> f64) list" where
  "delta_SearchText X d qs avg K flt =
     (if K = 0 \<or> f64_eq avg f64_zero \<or> \<not> textPresent d then []
      else take K (by_score snd fst (concat (map (shard_text_hits X qs avg flt) (d_shards d)))))"

subsection \<open>Statistics\<close>

type_synonym text_stats = "64 word \<times> 64 word \<times> 64 word list"

definition TextStats :: "delta \<Rightarrow> bytes list \<Rightarrow> text_stats" where
  "TextStats d terms =
     (if \<not> textPresent d then (0, 0, map (\<lambda>_. 0) terms)
      else (sum_list (map (\<lambda>s. word_of_nat (text_slots (s_terms s))) (d_shards d)),
            sum_list (map (\<lambda>s. text_total (s_terms s)) (d_shards d)),
            map (\<lambda>t. sum_list (map (\<lambda>s. word_of_nat (length (all_posts (s_terms s) t))) (d_shards d))) terms))"

definition seg_stats :: "segment \<Rightarrow> bytes list \<Rightarrow> text_stats" where
  "seg_stats seg terms =
     (case sg_text seg of
        None \<Rightarrow> (0, 0, map (\<lambda>_. 0) terms)
      | Some st \<Rightarrow> (word_of_nat (nText st), totalLen st, map (\<lambda>t. word_of_nat (text_df (Some st) t)) terms))"

definition add_stats :: "text_stats \<Rightarrow> text_stats \<Rightarrow> text_stats" where
  "add_stats a b = (fst a + fst b, fst (snd a) + fst (snd b), map2 (+) (snd (snd a)) (snd (snd b)))"

definition text_memtables :: "vstore \<Rightarrow> delta list" where
  "text_memtables s = (case v_delta s of None \<Rightarrow> [] | Some d \<Rightarrow> [d]) @ rev (v_flushing s)"

definition all_stats :: "vstore \<Rightarrow> bytes list \<Rightarrow> text_stats" where
  "all_stats s terms =
     foldl add_stats (0, 0, map (\<lambda>_. 0) terms)
       (map (\<lambda>(seg, r). seg_stats seg terms) (ranked_segs (v_levels s)) @ map (\<lambda>d. TextStats d terms) (text_memtables s))"

definition bm25PruneMinN :: nat where "bm25PruneMinN = 1000"

text \<open>Terms that more than half of a large corpus has are dropped, unless all are such.\<close>

definition prune :: "64 word \<Rightarrow> (bytes \<times> 64 word) list \<Rightarrow> (bytes \<times> 64 word) list" where
  "prune n qs =
     (let kept = filter (\<lambda>(t, df). df * 2 < n) qs in
      if unat n \<ge> bm25PruneMinN \<and> 0 < length kept \<and> length kept < length qs then kept else qs)"

subsection \<open>The search\<close>

text \<open>\<open>addHit\<close>: one entry per key in the order of arrival, with score and rank; a collision is decided by
  the rank.\<close>

definition addHit :: "delta list \<Rightarrow> int \<Rightarrow> (bytes, f64 \<times> int) gomap \<Rightarrow> bytes \<times> f64 \<Rightarrow> (bytes, f64 \<times> int) gomap" where
  "addHit shadows new acc h =
     (if \<exists>d \<in> set shadows. delta_Contains d (fst h) then acc
      else case map_of acc (fst h) of
        Some (sc, r) \<Rightarrow> if new < r then AList.update (fst h) (snd h, new) acc else acc
      | None \<Rightarrow> acc @ [(fst h, (snd h, new))])"

definition mem_text_filter :: "bytes set \<Rightarrow> vfilter \<Rightarrow> delta_filter" where
  "mem_text_filter ts f =
     (if ts = {} \<and> filter_empty f then None
      else Some (\<lambda>key a. key \<notin> ts \<and> (filter_empty f \<or> matchAttrs a f [])))"

text \<open>The hits of one segment; a filter that no position can pass skips it.\<close>

definition seg_text_hits :: "text_env \<Rightarrow> (bytes \<times> f64) list \<Rightarrow> f64 \<Rightarrow> nat \<Rightarrow> bytes set \<Rightarrow> vfilter \<Rightarrow> segment \<Rightarrow> (bytes \<times> f64) list" where
  "seg_text_hits X qs avg K ts f seg =
     (case sg_text seg of
        None \<Rightarrow> []
      | Some st \<Rightarrow>
          (case (if filter_empty f then Some None else map_option Some (compile (sg_attrs seg) f [])) of
             None \<Rightarrow> []
           | Some pred \<Rightarrow>
               filter (\<lambda>(key, sc). key \<noteq> [] \<and> key \<notin> ts)
                 (map (\<lambda>(doc, sc). (sg_keys seg ! doc, sc)) (segment_search X st qs avg 0 (length (docLen st)) K pred))))"

definition text_combine :: "text_env \<Rightarrow> vstore \<Rightarrow> (bytes \<times> f64) list \<Rightarrow> f64 \<Rightarrow> nat \<Rightarrow> vfilter \<Rightarrow> (bytes, f64 \<times> int) gomap" where
  "text_combine X s qs avg K f =
     (let mems = text_memtables s;
          acc = foldl (\<lambda>acc (i, d). foldl (addHit (take i mems) (- (2 ^ 63) + int i)) acc
                  (delta_SearchText X d qs avg K (mem_text_filter (v_tombs s) f))) [] (enumerate 0 mems) in
      foldl (\<lambda>acc (seg, r). foldl (addHit mems r) acc (seg_text_hits X qs avg K (v_tombs s) f seg)) acc (ranked_segs (v_levels s)))"

definition stale_text :: "nat \<Rightarrow> (segment \<times> int) list \<Rightarrow> bytes \<times> (f64 \<times> int) \<Rightarrow> bool" where
  "stale_text nMem segs h \<longleftrightarrow>
     - (2 ^ 63) + int nMem \<le> snd (snd h) \<and> (\<exists>(seg, r) \<in> set segs. r < snd (snd h) \<and> seg_HasKey seg (fst h))"

definition best_text :: "bool \<Rightarrow> vstore \<Rightarrow> nat \<Rightarrow> (bytes, f64 \<times> int) gomap \<Rightarrow> (bytes \<times> f64) list" where
  "best_text strict s K comb =
     (let hits = by_score (\<lambda>h. fst (snd h)) fst comb;
          live = (if strict then filter (\<lambda>h. \<not> stale_text (length (text_memtables s)) (ranked_segs (v_levels s)) h) hits
                  else hits) in
      map (\<lambda>(key, sc, r). (key, sc)) (take K live))"

definition SearchTextFilter :: "text_env \<Rightarrow> bool \<Rightarrow> vstore \<Rightarrow> bytes \<Rightarrow> nat \<Rightarrow> vfilter \<Rightarrow> (bytes \<times> f64) list" where
  "SearchTextFilter X strict s query K f =
     (let terms = tx_tokens X query in
      if terms = [] \<or> K = 0 then []
      else
        (case all_stats s terms of (n, lens, df) \<Rightarrow>
           if n = 0 then []
           else
             (let qs = map (\<lambda>(t, d). (t, tx_idf X n d)) (prune n (zip terms df)) in
              best_text strict s K (text_combine X s qs (tx_avg X lens n) K f))))"

subsection \<open>The hybrid search\<close>

definition rrfK :: nat where "rrfK = 60"
definition rrfFusionDepth :: nat where "rrfFusionDepth = 100"

text \<open>\<open>fused[key] += 1.0 / float64(rrfK+i+1)\<close> along a list of keys.\<close>

definition fuse_ranks :: "text_env \<Rightarrow> (bytes, f64) gomap \<Rightarrow> bytes list \<Rightarrow> (bytes, f64) gomap" where
  "fuse_ranks X fused ks =
     foldl (\<lambda>fused (i, key). AList.update key (tx_plus X (or_zero (map_of fused key)) (tx_rrf X (rrfK + i + 1))) fused)
       fused (enumerate 0 ks)"

definition SearchHybridFilter :: "text_env \<Rightarrow> vconfig \<Rightarrow> senv \<Rightarrow> seg_search \<Rightarrow> (bytes \<Rightarrow> vfilter \<Rightarrow> seg_search) \<Rightarrow> vstore
    \<Rightarrow> bytes \<Rightarrow> f32 list \<Rightarrow> nat \<Rightarrow> vfilter \<Rightarrow> search_error + (bytes \<times> f64) list" where
  "SearchHybridFilter X cfg S ss ssf s query vec K f =
     (if K = 0 then Inr []
      else
        (let depth = max rrfFusionDepth K;
             textHits = SearchTextFilter X (se_strict S) s query depth f in
         case (if filter_empty f then vs_Search S ss s vec depth else SearchFilter cfg S ssf s vec depth f) of
           Inl e \<Rightarrow> Inl e
         | Inr vecHits \<Rightarrow>
             Inr (take K (by_score snd fst (fuse_ranks X (fuse_ranks X [] (map fst textHits)) (map rkey vecHits))))))"


subsection \<open>The score of a document\<close>

definition tf_of :: "term_tf list \<Rightarrow> bytes \<Rightarrow> 16 word option" where
  "tf_of ts = map_of (map (\<lambda>u. (Term u, TF u)) ts)"

text \<open>The sum over the terms of the query that the document has; \<open>None\<close> when it has none.\<close>

definition add_part :: "text_env \<Rightarrow> f64 \<Rightarrow> term_tf list \<Rightarrow> f64 option \<Rightarrow> bytes \<times> f64 \<Rightarrow> f64 option" where
  "add_part X avg ts a q =
     (case tf_of ts (fst q) of
        None \<Rightarrow> a
      | Some tf \<Rightarrow> Some (tx_plus X (or_zero a) (tx_part X (snd q) tf (doc_len ts) avg)))"

definition doc_score :: "text_env \<Rightarrow> (bytes \<times> f64) list \<Rightarrow> f64 \<Rightarrow> term_tf list \<Rightarrow> f64 option" where
  "doc_score X qs avg ts = foldl (add_part X avg ts) None qs"

lemma doc_score_Nil [simp]: "doc_score X qs avg [] = None"
  unfolding doc_score_def by (induction qs rule: rev_induct) (simp_all add: add_part_def tf_of_def)

lemma score_posts_at:
  "map_of (score_posts X idf avg lens acc pl) i =
    foldl (\<lambda>a p. Some (tx_plus X (or_zero a) (tx_part X idf (p_tf p) (lens ! i) avg))) (map_of acc i)
      (filter (\<lambda>p. unat (p_doc p) = i) pl)"
  unfolding score_posts_def by (induction pl arbitrary: acc) (auto simp: Let_def)

lemma score_posts_keys: "keys_distinct acc \<Longrightarrow> keys_distinct (score_posts X idf avg lens acc pl)"
  unfolding score_posts_def by (induction pl arbitrary: acc) (auto simp: Let_def)

lemma score_posts_dom:
  "map_of (score_posts X idf avg lens acc pl) i \<noteq> None \<Longrightarrow> map_of acc i \<noteq> None \<or> (\<exists>p \<in> set pl. unat (p_doc p) = i)"
  unfolding score_posts_at by (cases "filter (\<lambda>p. unat (p_doc p) = i) pl") (auto simp: filter_empty_conv filter_eq_Cons_iff)

text \<open>A document has at most one posting in a list.\<close>

lemma slot_posts_tf:
  assumes "distinct (map Term ts)"
  shows "slot_posts i ts t = (case tf_of ts t of None \<Rightarrow> [] | Some tf \<Rightarrow> [\<lparr>p_doc = word_of_nat i, p_tf = tf\<rparr>])"
proof (cases "tf_of ts t")
  case None
  then have "\<forall>u \<in> set ts. Term u \<noteq> t" by (auto simp: tf_of_def map_of_eq_None_iff image_image)
  with None show ?thesis by (simp add: slot_posts_def filter_empty_conv)
next
  case (Some tf)
  then obtain u where u: "u \<in> set ts" "Term u = t" "TF u = tf" unfolding tf_of_def by (force dest: map_of_SomeD)
  with slot_posts_one[OF assms u(1)] Some show ?thesis by simp
qed

text \<open>One step of the scoring of a layer, as seen by one document.\<close>

lemma add_part_posts:
  assumes "distinct (map Term ts)" "filter (\<lambda>p. unat (p_doc p) = i) pl = slot_posts i ts (fst q)" "lens ! i = doc_len ts"
  shows "map_of (score_posts X (snd q) avg lens acc pl) i = add_part X avg ts (map_of acc i) q"
  unfolding score_posts_at assms(2,3) slot_posts_tf[OF assms(1)] by (simp add: add_part_def split: option.splits)

subsection \<open>Scores of the delta\<close>

lemma all_posts_at:
  assumes "i < length tss" "length tss < 2 ^ 32"
  shows "filter (\<lambda>p. unat (p_doc p) = i) (all_posts tss t) = slot_posts i (tss ! i) t"
proof -
  have at: "filter (\<lambda>p. unat (p_doc p) = i) (slot_posts j (tss ! j) t) = (if j = i then slot_posts i (tss ! i) t else [])"
    if "j < length tss" for j
  proof -
    have "j < 2 ^ 32" using that assms(2) by simp
    then have "unat (word_of_nat j :: 32 word) = j" by (simp add: unat_of_nat take_bit_nat_eq_self)
    then show ?thesis by (auto simp: slot_posts_def filter_empty_conv)
  qed
  have "filter (\<lambda>p. unat (p_doc p) = i) (all_posts tss t) = concat (map (\<lambda>j. if j = i then slot_posts i (tss ! i) t else []) [0..<length tss])"
    using at by (auto simp: all_posts_def filter_concat comp_def intro!: arg_cong[of _ _ concat])
  also have "\<dots> = slot_posts i (tss ! i) t"
  proof -
    have "concat (map (\<lambda>j. if j = i then xs else []) [0..<n]) = (if i < n then xs else [])" for xs :: "posting list" and n
      by (induction n) auto
    then show ?thesis using assms(1) by simp
  qed
  finally show ?thesis .
qed

lemma all_posts_bound:
  assumes "p \<in> set (all_posts tss t)" "length tss < 2 ^ 32"
  shows "unat (p_doc p) < length tss"
proof -
  obtain j where j: "j < length tss" "p_doc p = word_of_nat j" using assms(1) by (auto simp: all_posts_def slot_posts_def)
  then have "j < 2 ^ 32" using assms(2) by simp
  then have "unat (word_of_nat j :: 32 word) = j" by (simp add: unat_of_nat take_bit_nat_eq_self)
  with j show ?thesis by simp
qed

lemma shard_scores_ok:
  assumes n: "length (s_terms s) < 2 ^ 32"
  shows "keys_distinct (shard_scores X s qs avg)"
    "map_of (shard_scores X s qs avg) i = Some sc \<Longrightarrow> i < length (s_terms s)"
    "i < length (s_terms s) \<Longrightarrow> distinct (map Term (s_terms s ! i)) \<Longrightarrow>
      map_of (shard_scores X s qs avg) i = doc_score X qs avg (s_terms s ! i)"
proof -
  let ?acc = "shard_scores X s"
  have app: "?acc (qs @ [q]) avg = score_posts X (snd q) avg (map doc_len (s_terms s)) (?acc qs avg) (all_posts (s_terms s) (fst q))" for qs q
    by (simp add: shard_scores_def case_prod_unfold)
  have "keys_distinct (?acc qs avg) \<and> (\<forall>i. map_of (?acc qs avg) i \<noteq> None \<longrightarrow> i < length (s_terms s)) \<and>
    (\<forall>i < length (s_terms s). distinct (map Term (s_terms s ! i)) \<longrightarrow> map_of (?acc qs avg) i = doc_score X qs avg (s_terms s ! i))"
  proof (induction qs rule: rev_induct)
    case Nil
    then show ?case by (simp add: shard_scores_def doc_score_def)
  next
    case (snoc q qs)
    have "i < length (s_terms s)" if "map_of (?acc (qs @ [q]) avg) i \<noteq> None" for i
      using score_posts_dom[OF that[unfolded app]] snoc.IH all_posts_bound[OF _ n] by blast
    moreover have "map_of (?acc (qs @ [q]) avg) i = doc_score X (qs @ [q]) avg (s_terms s ! i)"
      if i: "i < length (s_terms s)" "distinct (map Term (s_terms s ! i))" for i
      using add_part_posts[OF i(2) all_posts_at[OF i(1) n]] i snoc.IH by (simp add: app doc_score_def)
    moreover have "keys_distinct (?acc (qs @ [q]) avg)" using snoc.IH score_posts_keys by (simp add: app)
    ultimately show ?case by blast
  qed
  then show "keys_distinct (?acc qs avg)" "map_of (?acc qs avg) i = Some sc \<Longrightarrow> i < length (s_terms s)"
    "i < length (s_terms s) \<Longrightarrow> distinct (map Term (s_terms s ! i)) \<Longrightarrow> map_of (?acc qs avg) i = doc_score X qs avg (s_terms s ! i)"
    by simp_all
qed

text \<open>Every hit of a delta is one of its documents with its score, and passes the filter.\<close>

definition text_fits :: "vstore \<Rightarrow> bool" where
  "text_fits s \<longleftrightarrow> (\<forall>d \<in> set (text_memtables s). \<forall>sh \<in> set (d_shards d). length (s_keys sh) < 2 ^ 32)"

lemma by_score_set [simp]: "set (by_score score key hs) = set hs"
  by (simp add: by_score_def)

lemma shard_text_ok:
  assumes d: "delta_wf dim d" and sh: "sh \<in> set (d_shards d)" and n: "length (s_keys sh) < 2 ^ 32" and flt: "filter_means flt P"
    and h: "(k, sc) \<in> set (shard_text_hits X qs avg flt sh)"
  shows "\<exists>x. delta_doc d k = Some x \<and> doc_score X qs avg (snd (snd x)) = Some sc \<and> P k x"
proof -
  have ok: "delta_ok d" using d by (simp add: delta_wf_def)
  have sl: "slots_ok sh" using delta_okD(2)[OF ok sh] .
  then have len: "length (s_terms sh) = length (s_keys sh)" "length (s_attrs sh) = length (s_keys sh)" by (simp_all add: slots_ok_def)
  note sc = shard_scores_ok[OF n[folded len(1)], where X = X and qs = qs and avg = avg]
  obtain i where i: "(i, sc) \<in> set (shard_scores X sh qs avg)" "k = s_keys sh ! i" "k \<noteq> []"
    "case flt of None \<Rightarrow> True | Some f \<Rightarrow> f k (attrAt sh i)"
    using h by (auto simp: shard_text_hits_def)
  have m: "map_of (shard_scores X sh qs avg) i = Some sc" using i(1) keys_distinct_map_of[OF sc(1)] by blast
  have il: "i < length (s_keys sh)" using sc(2)[OF m] len(1) by simp
  then have "map_of (keyIdx sh) k = Some i" using sl i(2,3) unfolding slots_ok_def by blast
  then have v: "shard_view sh k = Some (shard_entry sh i)" by (simp add: shard_view_def)
  have view: "delta_view d k = Some (shard_entry sh i)" by (rule shard_in_view[OF ok sh v])
  then have "terms_ok (Terms (shard_entry sh i))" using d unfolding delta_wf_def by blast
  then have "distinct (map Term (s_terms sh ! i))" by (simp add: terms_ok_def shard_entry_def)
  from sc(3)[OF _ this] m il len(1) have s: "doc_score X qs avg (s_terms sh ! i) = Some sc" by simp
  have "P k (entry_doc (shard_entry sh i))"
    using flt i(4) il len(2) by (cases flt) (auto simp: filter_means_def entry_doc_def shard_entry_def attrAt_def simp del: split_paired_All)
  with view s show ?thesis by (intro exI[of _ "entry_doc (shard_entry sh i)"]) (simp add: delta_doc_def entry_doc_def shard_entry_def)
qed

lemma delta_text_ok:
  assumes "delta_wf dim d" "\<forall>sh \<in> set (d_shards d). length (s_keys sh) < 2 ^ 32" "filter_means flt P"
    and h: "(k, sc) \<in> set (delta_SearchText X d qs avg K flt)"
  shows "\<exists>x. delta_doc d k = Some x \<and> doc_score X qs avg (snd (snd x)) = Some sc \<and> P k x"
proof -
  have "(k, sc) \<in> set (concat (map (shard_text_hits X qs avg flt) (d_shards d)))"
    using h in_set_takeD by (fastforce simp: delta_SearchText_def split: if_splits)
  then obtain sh where "sh \<in> set (d_shards d)" "(k, sc) \<in> set (shard_text_hits X qs avg flt sh)" by auto
  with shard_text_ok[OF assms(1) this(1) _ assms(3) this(2)] assms(2) show ?thesis by blast
qed


subsection \<open>Scores of a segment\<close>

lemma add_terms_len: "snd (snd (add_terms i ts d ps dl)) = foldl (\<lambda>dl tt. dl + ucast (TF tt)) dl ts"
  by (induction ts arbitrary: d ps dl) (simp_all add: Let_def case_prod_unfold)

lemma add_docs_len:
  "i + length es \<le> length (docLen st) \<Longrightarrow>
    docLen (add_docs i es st) ! j = (if i \<le> j \<and> j < i + length es then doc_len (Terms (es ! (j - i))) else docLen st ! j)"
proof (induction es arbitrary: i st)
  case (Cons e es)
  obtain d ps dl where t: "add_terms i (Terms e) (t_dict st) (postings st) 0 = (d, ps, dl)" by (metis prod_cases3)
  then have dl: "dl = doc_len (Terms e)" using add_terms_len[of i "Terms e" "t_dict st" "postings st" 0] by (simp add: doc_len_def)
  with Cons.IH[of "Suc i"] Cons.prems t show ?case by (auto simp: nth_Cons' Suc_diff_le Suc_le_eq)
qed auto

lemma posting_eta: "\<lparr>p_doc = p_doc p, p_tf = p_tf p\<rparr> = p"
  by (cases p) simp

lemma mset_short: "length ys \<le> 1 \<Longrightarrow> mset xs = mset ys \<Longrightarrow> xs = ys"
  by (cases ys) (auto simp: mset_single_iff_right dest: sym)

definition term_posts :: "segment_text \<Rightarrow> bytes \<Rightarrow> posting list" where
  "term_posts st t = (case dict_lookup (t_dict st) t of None \<Rightarrow> [] | Some c \<Rightarrow> postings st ! unat c)"

lemma occs_term:
  assumes wf: "posts_wf d ps" and c: "dict_lookup d t = Some c"
  shows "filter_mset (\<lambda>(doc, u, f). u = t) (occs d ps) = image_mset (\<lambda>p. (p_doc p, t, p_tf p)) (mset (ps ! unat c))"
proof -
  have d: "dict_wf d" "length ps = length (vals d)" using wf by (simp_all add: posts_wf_def)
  have c': "unat c < length ps" "vals d ! unat c = t" using dict_wf_code[OF d(1), of t c] c d(2) by (simp_all add: dict_lookup_def)
  have "filter_mset (\<lambda>(doc, u, f). u = t) (image_mset (\<lambda>p. (p_doc p, vals d ! id, p_tf p)) (mset (ps ! id))) =
      (if id = unat c then image_mset (\<lambda>p. (p_doc p, t, p_tf p)) (mset (ps ! unat c)) else {#})" if "id < length ps" for id
  proof -
    have "vals d ! id = t \<longleftrightarrow> id = unat c"
      using d c' that by (metis dict_wf_def nth_eq_iff_index_eq)
    then show ?thesis using c'(2) by (auto simp: filter_mset_image_mset)
  qed
  then have "filter_mset (\<lambda>(doc, u, f). u = t) (occs d ps) =
      (\<Sum>id < length ps. if id = unat c then image_mset (\<lambda>p. (p_doc p, t, p_tf p)) (mset (ps ! unat c)) else {#})"
    unfolding occs_def filter_mset_sum_upto by (intro sum.cong) auto
  also have "\<dots> = image_mset (\<lambda>p. (p_doc p, t, p_tf p)) (mset (ps ! unat c))" using c'(1) by simp
  finally show ?thesis .
qed

lemma built_posts:
  assumes ok: "\<forall>e \<in> set es. terms_ok (Terms e)" and n: "length es < 2 ^ 32" and tot: "term_total es < 2 ^ 32"
    and b: "buildSegmentText es = Some st"
  shows "length (docLen st) = length es" "i < length es \<Longrightarrow> docLen st ! i = doc_len (Terms (es ! i))"
    "p \<in> set (term_posts st t) \<Longrightarrow> unat (p_doc p) < length es"
    "i < length es \<Longrightarrow> filter (\<lambda>p. unat (p_doc p) = i) (term_posts st t) = slot_posts i (Terms (es ! i)) t"
proof -
  let ?st0 = "\<lparr>t_dict = newAttrDict, postings = [], docLen = replicate (length es) 0, nText = 0, totalLen = 0\<rparr>"
  have st: "st = add_docs 0 es ?st0" using b by (simp add: buildSegmentText_def split: if_splits)
  have "posts_wf newAttrDict []" by (simp add: posts_wf_def) (simp add: newAttrDict_def)
  then have a: "posts_wf (t_dict st) (postings st)" "occs (t_dict st) (postings st) = (\<Sum>j < length es. doc_occs j (Terms (es ! j)))"
      and len: "length (docLen st) = length es"
    using add_docs_occs[of ?st0 es 0] tot by (simp_all add: st occs_def newAttrDict_def)
  show "length (docLen st) = length es" by (rule len)
  show "docLen st ! i = doc_len (Terms (es ! i))" if "i < length es" using that add_docs_len[of 0 es ?st0 i] by (simp add: st)
  have bound: "unat (p_doc p) < length es" if p: "p \<in> set (term_posts st t)" for p
  proof -
    obtain c where c: "dict_lookup (t_dict st) t = Some c" "p \<in> set (postings st ! unat c)"
      using p by (cases "dict_lookup (t_dict st) t") (auto simp: term_posts_def)
    have "(p_doc p, t, p_tf p) \<in># filter_mset (\<lambda>(doc, u, f). u = t) (occs (t_dict st) (postings st))"
      unfolding occs_term[OF a(1) c(1)] using c(2) by auto
    then have "(p_doc p, t, p_tf p) \<in># (\<Sum>j < length es. doc_occs j (Terms (es ! j)))" unfolding a(2) by simp
    from occs_docs[OF this n] show ?thesis by simp
  qed
  then show "p \<in> set (term_posts st t) \<Longrightarrow> unat (p_doc p) < length es" .
  assume i: "i < length es"
  have tok: "distinct (map Term (Terms (es ! i)))" using ok i by (simp add: terms_ok_def)
  show "filter (\<lambda>p. unat (p_doc p) = i) (term_posts st t) = slot_posts i (Terms (es ! i)) t"
  proof (cases "dict_lookup (t_dict st) t")
    case None
    have "Term u \<noteq> t" if u: "u \<in> set (Terms (es ! i))" for u
    proof
      assume "Term u = t"
      then have "(word_of_nat i, t, TF u) \<in># (\<Sum>j < length es. doc_occs j (Terms (es ! j)))"
        using i u by (auto simp: doc_occs_def set_mset_sum intro!: bexI[of _ i])
      then obtain id where "id < length (postings st)" "vals (t_dict st) ! id = t" unfolding a(2)[symmetric] by (auto simp: occs_def set_mset_sum)
      then have "map_of (code (t_dict st)) t = Some (word_of_nat id)" using a(1) by (auto simp: posts_wf_def dict_wf_def)
      with None show False by (simp add: dict_lookup_def)
    qed
    then show ?thesis using None by (simp add: term_posts_def slot_posts_def filter_empty_conv)
  next
    case (Some c)
    let ?pl = "postings st ! unat c" and ?ts = "Terms (es ! i)"
    have pl: "term_posts st t = ?pl" using Some by (simp add: term_posts_def)
    let ?D = "\<lambda>(d :: 32 word, u :: bytes, f :: 16 word). unat d = i" and ?T = "\<lambda>(d :: 32 word, u, f :: 16 word). u = t"
    have "filter_mset ?D (filter_mset ?T M) = filter_mset ?T (filter_mset ?D M)" for M
      by (simp add: filter_filter_mset conj_commute case_prod_unfold)
    from this[of "occs (t_dict st) (postings st)"] have "filter_mset ?D (image_mset (\<lambda>p. (p_doc p, t, p_tf p)) (mset ?pl)) = filter_mset ?T (doc_occs i ?ts)"
      by (simp only: occs_term[OF a(1) Some] a(2)[symmetric] doc_occs_filter[OF i n, of "\<lambda>j. Terms (es ! j)", folded a(2)])
    then have "image_mset (\<lambda>p. (p_doc p, t, p_tf p)) (mset (filter (\<lambda>p. unat (p_doc p) = i) ?pl)) =
        image_mset (\<lambda>u. (word_of_nat i, Term u, TF u)) (mset (filter (\<lambda>u. Term u = t) ?ts))"
      by (simp add: filter_mset_image_mset doc_occs_def comp_def)
    then have "image_mset (\<lambda>(d, u, f). \<lparr>p_doc = d, p_tf = f\<rparr>) (image_mset (\<lambda>p. (p_doc p, t, p_tf p)) (mset (filter (\<lambda>p. unat (p_doc p) = i) ?pl))) =
        image_mset (\<lambda>(d, u, f). \<lparr>p_doc = d, p_tf = f\<rparr>) (image_mset (\<lambda>u. (word_of_nat i, Term u, TF u)) (mset (filter (\<lambda>u. Term u = t) ?ts)))"
      by (rule arg_cong)
    then have "mset (filter (\<lambda>p. unat (p_doc p) = i) ?pl) = mset (slot_posts i ?ts t)"
      by (simp add: multiset.map_comp comp_def slot_posts_def posting_eta)
    moreover have "length (slot_posts i ?ts t) \<le> 1" by (simp add: slot_posts_tf[OF tok] split: option.splits)
    ultimately show ?thesis unfolding pl by (intro mset_short)
  qed
qed


text \<open>What the search needs of a segment: its lists and lengths are those of its documents, and a compiled
  filter passes only documents that match.\<close>

definition lists_exact :: "segment \<Rightarrow> bool" where
  "lists_exact seg \<longleftrightarrow>
     (case sg_text seg of
        None \<Rightarrow> True
      | Some st \<Rightarrow>
          length (docLen st) = length (sg_keys seg) \<and>
          (\<forall>i < length (sg_keys seg). docLen st ! i = doc_len (snd (snd (seg_at seg i)))) \<and>
          (\<forall>t. \<forall>p \<in> set (term_posts st t). unat (p_doc p) < length (sg_keys seg)) \<and>
          (\<forall>t. \<forall>i < length (sg_keys seg). filter (\<lambda>p. unat (p_doc p) = i) (term_posts st t) = slot_posts i (snd (snd (seg_at seg i))) t))"

definition filter_exact :: "segment \<Rightarrow> bool" where
  "filter_exact seg \<longleftrightarrow>
     (\<forall>f pred. \<forall>i < length (sg_keys seg). compile (sg_attrs seg) f [] = Some pred \<longrightarrow> pred i \<longrightarrow> match_doc f (seg_at seg i))"

definition seg_exact :: "segment \<Rightarrow> bool" where
  "seg_exact seg \<longleftrightarrow> lists_exact seg \<and> filter_exact seg"

lemma match_entry: "matchAttrs a f [] \<Longrightarrow> match_doc f (v, attr_view a, ts)"
proof -
  assume m: "matchAttrs a f []"
  have "filter_means (if filter_empty f then None else Some (\<lambda>key a. matchAttrs a f [])) (\<lambda>k. match_doc f)" by (rule match_means)
  then show ?thesis using m by (auto simp: filter_means_def split: if_splits simp del: split_paired_All)
qed

lemma build_exact:
  assumes lib: "lib_ok lib" and sq: "\<not> UseSQ cfg" and fit: "fits es" and terms: "\<forall>e \<in> set es. terms_ok (Terms e)"
    and res: "buildSegment cfg lib es dim = Some seg"
  shows "seg_exact seg"
proof -
  have ne: "es \<noteq> []" using res by (auto simp: buildSegment_def)
  obtain es1 codes presets where l: "tenant_layout cfg lib es = (es1, codes, presets)"
    by (cases "tenant_layout cfg lib es")
  have small: "3 * length es < 2 ^ 32" using fit by (simp add: fits_def)
  note lay = tenant_layout_ok[OF lib small l]
  obtain seg' where seg': "buildSegment cfg lib es dim = Some seg'" "sg_keys seg' = map Key es1"
    "sg_rows seg' = (if UseSQ cfg then sq8 lib (map Vec es1) else map Vec es1)"
    "sg_attrs seg' = buildSegmentAttrs es1 presets" "sg_text seg' = buildSegmentText es1"
    by (rule buildSegment_ok[OF lib small ne l])
  note seg = seg'(2-5)[unfolded option.inject[THEN iffD1, OF trans[OF seg'(1)[symmetric] res]]]
  have s1: "set es1 = set es" using lay(1) by (metis set_mset_mset)
  have tot: "term_total es1 < 2 ^ 32" using fit sum_list_mset[OF lay(1)] by (simp add: fits_def term_total_def)
  have e1: "\<forall>e \<in> set es1. terms_ok (Terms e)" and n1: "length es1 < 2 ^ 32" using terms s1 small lay(2) by simp_all
  have at: "seg_at seg i = entry_doc (es1 ! i)" if "i < length es1" for i
    using that seg decode_build[OF lay(3) that] decode_text[OF e1 n1 tot that] sq by (simp add: seg_at_def entry_doc_def)
  have "lists_exact seg"
  proof (cases "sg_text seg")
    case (Some st)
    then have "buildSegmentText es1 = Some st" using seg(4) by simp
    from built_posts[OF e1 n1 tot this] at Some seg(1) show ?thesis by (simp add: lists_exact_def entry_doc_def)
  qed (simp add: lists_exact_def)
  moreover have "filter_exact seg"
    unfolding filter_exact_def
  proof (intro allI impI)
    fix f pred i assume i: "i < length (sg_keys seg)" and c: "compile (sg_attrs seg) f [] = Some pred" "pred i"
    have i1: "i < length es1" using i seg(1) by simp
    have "matchAttrs (Attrs (es1 ! i)) f []" using compile_matches[OF lay(3) i1, of f "[]"] c seg(3) by simp
    from match_entry[OF this] show "match_doc f (seg_at seg i)" by (simp add: at[OF i1] entry_doc_def)
  qed
  ultimately show ?thesis by (simp add: seg_exact_def)
qed

text \<open>A frozen graph has neither texts nor attributes.\<close>

lemma bare_exact:
  assumes "sg_text seg = None" "sg_attrs seg = None"
  shows "seg_exact seg"
proof -
  have "cat_checks None [] q = Some cs \<Longrightarrow> list_all (\<lambda>(n, v). n = []) q" for q cs
    by (induction q) (auto split: if_splits)
  moreover have "num_checks None [] q = Some ns \<Longrightarrow> list_all (\<lambda>(n, v). n = []) q" for q ns
    by (induction q) (auto split: if_splits)
  ultimately have "compile None f [] = Some pred \<Longrightarrow> list_all (\<lambda>(n, v). n = []) (Eq f) \<and> list_all (\<lambda>(n, v). n = []) (Range f)" for f pred
    by (auto simp: compile_def split: option.splits)
  then have "compile None f [] = Some pred \<Longrightarrow> match_doc f x" for f pred x
    by (fastforce simp: match_doc_def list_all_iff Let_def split: prod.splits)
  then have "filter_exact seg" using assms(2) by (auto simp: filter_exact_def)
  then show ?thesis using assms(1) by (simp add: seg_exact_def lists_exact_def)
qed


subsection \<open>Every segment of a run is exact\<close>

lemma entries_terms: "entries_ok dim es \<Longrightarrow> \<forall>e \<in> set es. terms_ok (Terms e)"
  by (simp add: entries_ok_def)

lemma flush_exact:
  assumes lib: "lib_ok lib" and sq: "\<not> UseSQ cfg" and wf: "delta_wf dim d" and fit: "delta_fits d"
    and res: "flush_segments cfg lib dim d = Some segs" and seg: "seg \<in> set segs"
  shows "seg_exact seg"
proof (cases "canFreeze cfg dim d")
  case True
  have shard: "freeze_shard cfg lib dim sh = Some x \<Longrightarrow> seg_exact x" for sh x
    by (rule bare_exact) (auto simp: freeze_shard_def)
  have "freeze_shards cfg lib dim shs = Some xs \<Longrightarrow> \<forall>x \<in> set xs. seg_exact x" for shs xs
    by (induction shs arbitrary: xs) (auto split: if_splits option.splits dest: shard)
  with True res seg shard show ?thesis by (auto simp: flush_segments_def split: if_splits)
next
  case False
  have ok: "delta_ok d" using wf by (simp add: delta_wf_def)
  have "\<forall>e \<in> set (ExtractAll d). terms_ok (Terms e)"
    using extract_view[OF ok] wf unfolding delta_wf_def by blast
  with build_exact[OF lib sq _ this] False res seg fit show ?thesis by (auto simp: flush_segments_def delta_fits_def)
qed

lemma merge_exact:
  assumes lib: "lib_ok lib" and sq: "\<not> UseSQ cfg" and wf: "\<forall>seg \<in> set segs. seg_wf dim seg"
    and fit: "fits (m_entries (merge_collect dim ts segs))" and res: "mergeSegments cfg lib dim ts segs = (Some new, applied)"
  shows "seg_exact new"
proof -
  have "buildSegment cfg lib (m_entries (merge_collect dim ts segs)) dim = Some new"
    using res by (auto simp: mergeSegments_def Let_def split: if_splits)
  from build_exact[OF lib sq fit _ this] entries_terms merge_collect_ok[OF wf, of ts] show ?thesis by blast
qed

definition all_exact :: "vstore \<Rightarrow> bool" where
  "all_exact s \<longleftrightarrow> (\<forall>r \<in> set (concat (v_levels s)). seg_exact (snd r))"

lemma all_exact_subset: "all_exact s \<Longrightarrow> set (concat (v_levels s')) \<subseteq> set (concat (v_levels s)) \<Longrightarrow> all_exact s'"
  unfolding all_exact_def by blast

lemma schedule_levels [simp]: "v_levels (maybeScheduleMerges E e s) = v_levels s"
proof -
  have "v_levels (sched_levels E e df ls s) = v_levels s" for df ls
    by (cases df; induction ls arbitrary: s) (simp_all add: Let_def)
  then show ?thesis by (simp add: maybeScheduleMerges_def)
qed

lemma after_levels [simp]: "v_levels (after_apply E e s) = v_levels s"
  by (simp add: after_apply_def Let_def split: option.splits)

lemma levels_update: "set (concat (ls[l := xs])) \<subseteq> set (concat ls) \<union> set xs"
  using set_update_subset_insert[of ls l xs] by auto

lemma level_in_concat: "l < length ls \<Longrightarrow> set (ls ! l) \<subseteq> set (concat ls)"
  by (metis UN_upper nth_mem set_concat)

lemma append_exact:
  assumes "all_exact s" "\<forall>seg \<in> set segs. seg_exact seg"
  shows "all_exact (append_level l segs s)"
proof -
  let ?new = "number_from (v_next s) segs"
  have lv: "v_levels (append_level l segs s) = (v_levels s)[l := v_levels s ! l @ ?new]"
    by (simp add: append_level_def put_level_def)
  have new: "set (concat (v_levels (append_level l segs s))) \<subseteq> set (concat (v_levels s)) \<union> set ?new"
  proof (cases "l < length (v_levels s)")
    case True
    from levels_update[of "v_levels s" l "v_levels s ! l @ ?new"] level_in_concat[OF True] show ?thesis
      unfolding lv set_append by blast
  next
    case False
    then show ?thesis unfolding lv by (simp only: list_update_beyond linorder_not_less Un_upper1)
  qed
  show ?thesis unfolding all_exact_def
  proof
    fix r assume "r \<in> set (concat (v_levels (append_level l segs s)))"
    with new consider "r \<in> set (concat (v_levels s))" | "r \<in> set (number_from (v_next s) segs)" by blast
    then show "seg_exact (snd r)"
    proof cases
      case 1
      with assms(1) show ?thesis by (simp only: all_exact_def)
    next
      case 2
      with number_from_elem(1)[OF this] assms(2) show ?thesis by blast
    qed
  qed
qed

lemma remove_levels:
  "set (concat (map (removeSegments gone) ls)) \<subseteq> set (concat ls)"
  "l < length ls \<Longrightarrow> set (concat (ls[l := removeSegments gone (ls ! l)])) \<subseteq> set (concat ls)"
proof -
  show "set (concat (map (removeSegments gone) ls)) \<subseteq> set (concat ls)" by (auto simp: removeSegments_def)
  assume l: "l < length ls"
  have "set (removeSegments gone (ls ! l)) \<subseteq> set (concat ls)" using level_in_concat[OF l] by (auto simp: removeSegments_def simp del: set_concat)
  with levels_update[of ls l "removeSegments gone (ls ! l)"] show "set (concat (ls[l := removeSegments gone (ls ! l)])) \<subseteq> set (concat ls)"
    by blast
qed

lemma apply_exact:
  assumes env: "env_ok E" and inv: "vinv s" and ord: "orderly (EApply i) s" and res: "applyResult E i s = Some s'" and all: "all_exact s"
  shows "all_exact s'"
proof -
  from res have i: "i < length (v_tasks s)" by (auto simp: applyResult_def split: if_splits)
  define s0 where "s0 = s\<lparr>v_tasks := del_nth i (v_tasks s)\<rparr>"
  note s0 = take_task[OF inv i s0_def]
  have b: "base_ok s0" using vinvD(1)[OF s0(1)] .
  have all0: "all_exact s0" using all by (simp add: all_exact_def s0_def)
  let ?t = "v_tasks s ! i"
  have lib: "lib_ok (e_lib E)" "\<not> UseSQ (e_vec E)" using env by (simp_all add: env_ok_def)
  have fit: "merge_inputs ?t = Some (segs, e, dim, ts) \<Longrightarrow> fits (m_entries (merge_collect dim ts (map snd segs)))" for segs e dim ts
    using ord i by (auto simp: orderly_def task_fits_def)
  show ?thesis
  proof (cases ?t)
    case (FlushTask e d dim)
    have fd: "delta_fits d" using ord i FlushTask by (auto simp: orderly_def task_fits_def)
    have s': "s' = apply_flush E e d dim s0" using res i FlushTask by (simp add: applyResult_def s0_def)
    let ?s1 = "s0\<lparr>v_builds := v_builds s0 - 1, v_flushing := removeFlushing (d_id d) (v_flushing s0)\<rparr>"
    have all1: "all_exact ?s1" using all0 by (simp add: all_exact_def)
    show ?thesis
    proof (cases "v_epoch s0 = e")
      case False
      with all1 show ?thesis by (simp add: s' apply_flush_def Let_def)
    next
      case True
      with s0(2) FlushTask have "d \<in> set (v_flushing s0)" "dim = v_dim s0" by (auto split: if_splits)
      then have wf: "delta_wf dim d" using base_okD(2)[OF b] by simp
      show ?thesis
      proof (cases "flush_segments (e_vec E) (e_lib E) dim d")
        case None
        with True all1 show ?thesis by (simp add: s' apply_flush_def Let_def all_exact_def)
      next
        case (Some segs)
        with append_exact[OF all1, of segs 0] flush_exact[OF lib wf fd Some] True show ?thesis
          by (simp add: s' apply_flush_def Let_def all_exact_def)
      qed
    qed
  next
    case (MergeTask l segs e snap)
    then obtain dim ts where snap: "snap = Some (dim, ts)" and s': "s' = apply_merge E l segs e dim ts s0"
      using res i by (auto simp: applyResult_def s0_def Let_def split: option.splits prod.splits)
    have tk: "task_ok s0 (MergeTask l segs e (Some (dim, ts)))" using s0(2) MergeTask snap by simp
    have l: "l < length (v_levels s0)" using tk base_okD(6)[OF b] by (simp add: less_diff_conv)
    let ?s1 = "s0\<lparr>v_merging := (v_merging s0)[l := False]\<rparr>"
    let ?s2 = "put_level l (removeSegments (map fst segs) (v_levels ?s1 ! l)) ?s1"
    have all1: "all_exact ?s1" using all0 by (simp add: all_exact_def)
    have "v_levels ?s2 = (v_levels s0)[l := removeSegments (map fst segs) (v_levels s0 ! l)]" by (simp add: put_level_def)
    with remove_levels(2)[OF l, of "map fst segs"] have all2: "all_exact ?s2" by (intro all_exact_subset[OF all0]) (simp only:)
    obtain new applied where m: "mergeSegments (e_vec E) (e_lib E) dim ts (map snd segs) = (new, applied)" by fastforce
    show ?thesis
    proof (cases "v_epoch s0 = e \<and> new \<noteq> None")
      case False
      with all1 m show ?thesis by (auto simp: s' apply_merge_def Let_def split: option.splits)
    next
      case True
      then obtain x where x: "new = Some x" by blast
      have cur: "segs = take (length segs) (v_levels s0 ! l)" "dim = v_dim s0" using tk True by (auto simp: snap_ok_def)
      have "set segs \<subseteq> set (concat (v_levels s0))" using level_in_concat[OF l] set_take_subset[of "length segs" "v_levels s0 ! l"] cur(1) by (metis subset_trans)
      then have "\<forall>seg \<in> set (map snd segs). seg_wf dim seg" using base_okD(8)[OF b] cur(2) by fastforce
      from merge_exact[OF lib this fit] m x MergeTask snap have "seg_exact x" by simp
      with append_exact[OF all2, of "[x]" "l + 1"] True m x show ?thesis
        by (simp add: s' apply_merge_def Let_def all_exact_def clearAppliedTombstones_def)
    qed
  next
    case (ConsTask l segs e snap)
    then obtain dim ts where snap: "snap = Some (dim, ts)" and s': "s' = apply_cons E l segs e dim ts s0"
      using res i by (auto simp: applyResult_def s0_def Let_def split: option.splits prod.splits)
    have tk: "task_ok s0 (ConsTask l segs e (Some (dim, ts)))" using s0(2) ConsTask snap by simp
    let ?s1 = "s0\<lparr>v_cons := False\<rparr>"
    let ?s2 = "?s1\<lparr>v_levels := map (removeSegments (map fst segs)) (v_levels ?s1)\<rparr>"
    have all1: "all_exact ?s1" using all0 by (simp add: all_exact_def)
    have "v_levels ?s2 = map (removeSegments (map fst segs)) (v_levels s0)" by simp
    with remove_levels(1)[of "map fst segs" "v_levels s0"] have all2: "all_exact ?s2" by (intro all_exact_subset[OF all0]) (simp only:)
    obtain new applied where m: "mergeSegments (e_vec E) (e_lib E) dim ts (map snd segs) = (new, applied)" by fastforce
    show ?thesis
    proof (cases "v_epoch s0 = e \<and> new \<noteq> None")
      case False
      with all1 m show ?thesis by (auto simp: s' apply_cons_def Let_def split: option.splits)
    next
      case True
      then obtain x where x: "new = Some x" by blast
      obtain n where cur: "segs = concat (rev (take n (v_levels s0 ! 0) # tl (v_levels s0)))" "dim = v_dim s0"
        using tk True by (auto simp: snap_ok_def)
      have ne: "v_levels s0 \<noteq> []" using base_okD(6)[OF b] by (auto simp: maxLevels_def)
      then have "set segs \<subseteq> set (concat (v_levels s0))"
        unfolding cur(1) by (cases "v_levels s0") (auto dest: in_set_takeD)
      then have "\<forall>seg \<in> set (map snd segs). seg_wf dim seg" using base_okD(8)[OF b] cur(2) by fastforce
      from merge_exact[OF lib this fit] m x ConsTask snap have "seg_exact x" by simp
      with append_exact[OF all2, of "[x]" l] True m x show ?thesis
        by (simp add: s' apply_cons_def Let_def all_exact_def clearAppliedTombstones_def)
    qed
  qed
qed

lemma step_exact:
  assumes env: "env_ok E" and inv: "vinv s" and ord: "orderly ev s" and res: "vs_step E ev s = Some s'" and all: "all_exact s"
  shows "all_exact s'"
proof (cases ev)
  case (EApply i)
  with apply_exact[OF env inv _ _ all, of i s'] ord res show ?thesis by (auto split: if_splits)
next
  case EClear
  with res show ?thesis by (auto simp: all_exact_def vs_Clear_def)
next
  case (EAdd key vec a ts)
  with res have "v_levels s' = v_levels s" by (auto simp: addEntry_def initDelta_def Let_def split: option.splits prod.splits)
  with all show ?thesis by (simp add: all_exact_def)
next
  case (EDelete key)
  with res have "v_levels s' = v_levels s" by (auto simp: vs_Delete_def Let_def split: option.splits prod.splits)
  with all show ?thesis by (simp add: all_exact_def)
next
  case (ESnap i)
  with res have "v_levels s' = v_levels s" by (auto simp: merge_snap_def split: if_splits task.splits option.splits)
  with all show ?thesis by (simp add: all_exact_def)
qed (use res all in \<open>auto simp: all_exact_def vs_FlushDelta_def compact_read_def compact_swap_def compact_sched_def idle_tick_def Let_def
    split: if_splits option.splits cphase.splits\<close>)

lemma run_exact:
  assumes env: "env_ok E"
  shows "vinv s \<Longrightarrow> all_exact s \<Longrightarrow> orderly_run E evs s \<Longrightarrow> vs_run E evs s = Some s' \<Longrightarrow> all_exact s'"
proof (induction evs arbitrary: s)
  case (Cons ev evs)
  from Cons.prems(4) obtain s1 where s1: "vs_step E ev s = Some s1" "vs_run E evs s1 = Some s'" by (auto split: option.splits)
  with Cons.prems(3) have ord: "orderly ev s" "orderly_run E evs s1" by simp_all
  from Cons.IH[OF store_step(1)[OF env Cons.prems(1) ord(1) s1(1)] step_exact[OF env Cons.prems(1) ord(1) s1(1) Cons.prems(2)] ord(2) s1(2)]
  show ?case .
qed simp


subsection \<open>Hits of a segment\<close>

lemma scope_all:
  assumes "\<forall>p \<in> set pl. unat (p_doc p) < hi"
  shows "takeWhile (\<lambda>p. unat (p_doc p) < hi) (drop (sort_search (length pl) (\<lambda>i. 0 \<le> unat (p_doc (pl ! i)))) pl) = pl"
proof -
  have "sort_search (length pl) (\<lambda>i. 0 \<le> unat (p_doc (pl ! i))) = 0"
    using sort_search_correct(2)[of "length pl" "\<lambda>i. 0 \<le> unat (p_doc (pl ! i))" 0] by auto
  with assms show ?thesis by (simp add: takeWhile_eq_all_conv)
qed

definition pred_at :: "(nat \<Rightarrow> bool) option \<Rightarrow> nat \<Rightarrow> bool" where
  "pred_at pred i \<longleftrightarrow> (case pred of None \<Rightarrow> True | Some f \<Rightarrow> f i)"

lemma seg_term_posts:
  assumes "\<forall>p \<in> set (term_posts st (fst q)). unat (p_doc p) < hi"
  shows "seg_term X st avg 0 hi pred acc q =
    score_posts X (snd q) avg (docLen st) acc (filter (\<lambda>p. pred_at pred (unat (p_doc p))) (term_posts st (fst q)))"
proof (cases "dict_lookup (t_dict st) (fst q)")
  case None
  then show ?thesis by (simp add: seg_term_def term_posts_def score_posts_def)
next
  case (Some c)
  then have pl: "term_posts st (fst q) = postings st ! unat c" by (simp add: term_posts_def)
  from Some scope_all[OF assms] show ?thesis by (simp add: seg_term_def pl pred_at_def)
qed

lemma text_seg_ok:
  assumes wf: "seg_wf dim seg" and ex: "seg_exact seg" and h: "(k, sc) \<in> set (seg_text_hits X qs avg K ts f seg)"
  shows "\<exists>x. seg_doc seg k = Some x \<and> doc_score X qs avg (snd (snd x)) = Some sc \<and> match_doc f x \<and> k \<notin> ts"
proof -
  have "sg_text seg \<noteq> None"
  proof
    assume "sg_text seg = None"
    with h show False by (simp add: seg_text_hits_def)
  qed
  then obtain st where st: "sg_text seg = Some st" by blast
  let ?n = "length (sg_keys seg)" and ?ts = "\<lambda>i. snd (snd (seg_at seg i))"
  have lists: "length (docLen st) = ?n" "\<And>i. i < ?n \<Longrightarrow> docLen st ! i = doc_len (?ts i)"
    "\<And>t. \<forall>p \<in> set (term_posts st t). unat (p_doc p) < ?n"
    "\<And>t i. i < ?n \<Longrightarrow> filter (\<lambda>p. unat (p_doc p) = i) (term_posts st t) = slot_posts i (?ts i) t"
    using ex st by (auto simp: seg_exact_def lists_exact_def)
  have d: "distinct (map Term (?ts i))" if "i < ?n" for i using wf that by (simp add: seg_wf_def seg_at_def terms_ok_def)
  obtain pred where pred: "(if filter_empty f then Some None else map_option Some (compile (sg_attrs seg) f [])) = Some pred"
    "(k, sc) \<in> set (filter (\<lambda>(key, sc). key \<noteq> [] \<and> key \<notin> ts)
       (map (\<lambda>(doc, sc). (sg_keys seg ! doc, sc)) (segment_search X st qs avg 0 (length (docLen st)) K pred)))"
    using h st
    by (cases "if filter_empty f then Some None else map_option Some (compile (sg_attrs seg) f [])") (simp_all add: seg_text_hits_def)
  define acc where "acc qs = foldl (seg_term X st avg 0 ?n pred) [] qs" for qs
  have app: "acc (qs @ [q]) = score_posts X (snd q) avg (docLen st) (acc qs) (filter (\<lambda>p. pred_at pred (unat (p_doc p))) (term_posts st (fst q)))" for qs q
    using seg_term_posts[OF lists(3)] by (simp add: acc_def)
  have "keys_distinct (acc qs) \<and> (\<forall>i. map_of (acc qs) i \<noteq> None \<longrightarrow> i < ?n \<and> pred_at pred i) \<and>
      (\<forall>i < ?n. pred_at pred i \<longrightarrow> map_of (acc qs) i = doc_score X qs avg (?ts i))"
  proof (induction qs rule: rev_induct)
    case Nil
    then show ?case by (simp add: acc_def doc_score_def)
  next
    case (snoc q qs)
    let ?pl = "filter (\<lambda>p. pred_at pred (unat (p_doc p))) (term_posts st (fst q))"
    have "i < ?n \<and> pred_at pred i" if "map_of (acc (qs @ [q])) i \<noteq> None" for i
    proof -
      have "map_of (acc qs) i \<noteq> None \<or> (\<exists>p \<in> set ?pl. unat (p_doc p) = i)" by (rule score_posts_dom[OF that[unfolded app]])
      then show ?thesis
      proof
        assume "map_of (acc qs) i \<noteq> None"
        with snoc.IH show ?thesis by blast
      next
        assume "\<exists>p \<in> set ?pl. unat (p_doc p) = i"
        with lists(3) show ?thesis by fastforce
      qed
    qed
    moreover have "map_of (acc (qs @ [q])) i = doc_score X (qs @ [q]) avg (?ts i)" if i: "i < ?n" "pred_at pred i" for i
    proof -
      have "filter (\<lambda>p. unat (p_doc p) = i) ?pl = filter (\<lambda>p. unat (p_doc p) = i) (term_posts st (fst q))"
        using i(2) by (auto intro: filter_cong)
      with lists(4)[OF i(1)] have "filter (\<lambda>p. unat (p_doc p) = i) ?pl = slot_posts i (?ts i) (fst q)" by simp
      from add_part_posts[OF d[OF i(1)] this lists(2)[OF i(1)]] i snoc.IH show ?thesis by (simp add: app doc_score_def)
    qed
    moreover have "keys_distinct (acc (qs @ [q]))" using snoc.IH score_posts_keys by (simp add: app)
    ultimately show ?case by blast
  qed
  then have acc: "keys_distinct (acc qs)" "\<And>i. map_of (acc qs) i \<noteq> None \<Longrightarrow> i < ?n \<and> pred_at pred i"
    "\<And>i. i < ?n \<Longrightarrow> pred_at pred i \<Longrightarrow> map_of (acc qs) i = doc_score X qs avg (?ts i)" by blast+
  obtain i where i: "(i, sc) \<in> set (segment_search X st qs avg 0 ?n K pred)" "k = sg_keys seg ! i" "k \<noteq> []" "k \<notin> ts"
    using pred(2) lists(1) by auto
  then have "(i, sc) \<in> set (acc qs)" using in_set_takeD by (fastforce simp: segment_search_def acc_def split: if_splits)
  with keys_distinct_map_of[OF acc(1)] have m: "map_of (acc qs) i = Some sc" by blast
  with acc(2)[of i] have il: "i < ?n" "pred_at pred i" by simp_all
  have doc: "seg_doc seg k = Some (seg_at seg i)" using seg_doc_iff[OF wf] il(1) i(2,3) by blast
  have "match_doc f (seg_at seg i)"
  proof (cases "filter_empty f")
    case True
    then show ?thesis by (simp add: match_doc_def filter_empty_def Let_def case_prod_unfold)
  next
    case False
    with pred(1) obtain g where "compile (sg_attrs seg) f [] = Some g" "pred = Some g" by auto
    with ex il show ?thesis by (auto simp: seg_exact_def filter_exact_def pred_at_def)
  qed
  with doc m acc(3)[OF il] i(4) show ?thesis by (intro exI[of _ "seg_at seg i"]) simp
qed

subsection \<open>Every hit is current\<close>

lemma text_layers:
  assumes b: "base_ok s" and k: "k \<notin> v_tombs s"
  shows "vs_doc s k = first_some (map delta_doc (text_memtables s) @ map seg_doc (read_order (v_levels s))) k"
  using k by (cases "v_delta s") (auto simp: vs_doc_def active_doc_def text_memtables_def layers_def split: option.splits)

lemma text_mem_wf:
  assumes b: "base_ok s" and d: "d \<in> set (text_memtables s)"
  shows "delta_wf (v_dim s) d" "delta_ok d"
proof -
  show "delta_wf (v_dim s) d"
    using d base_okD(2)[OF b] active_Some(1)[OF base_okD(1)[OF b]] by (auto simp: text_memtables_def split: option.splits)
  then show "delta_ok d" by (simp add: delta_wf_def)
qed

lemma text_mem_current:
  assumes b: "base_ok s" and k: "k \<notin> v_tombs s" and i: "i < length (text_memtables s)"
    and doc: "delta_doc (text_memtables s ! i) k = Some x" and new: "\<forall>d \<in> set (take i (text_memtables s)). \<not> delta_Contains d k"
  shows "vs_doc s k = Some x"
proof -
  have "delta_doc (text_memtables s ! j) k = None" if j: "j < i" for j
  proof -
    have "text_memtables s ! j \<in> set (take i (text_memtables s))" using j i by (force simp: in_set_conv_nth)
    then have "\<not> delta_Contains (text_memtables s ! j) k" "delta_ok (text_memtables s ! j)"
      using new text_mem_wf(2)[OF b] i j by simp_all
    then show ?thesis using delta_source.has_doc by blast
  qed
  then show ?thesis unfolding text_layers[OF b k] using i doc by (intro first_some_at[of i]) (simp_all add: nth_append)
qed

lemma text_seg_current:
  assumes b: "base_ok s" and k: "k \<notin> v_tombs s" and small: "fits_memory s"
    and seg: "(seg, r) \<in> set (ranked_segs (v_levels s))" and doc: "seg_doc seg k = Some x"
    and mems: "\<forall>d \<in> set (text_memtables s). \<not> delta_Contains d k"
    and fresh: "\<forall>(seg', r') \<in> set (ranked_segs (v_levels s)). r' < r \<longrightarrow> \<not> seg_HasKey seg' k"
  shows "vs_doc s k = Some x"
proof -
  have "set (memtables s) \<subseteq> set (text_memtables s)" by (auto simp: memtables_def text_memtables_def split: option.splits if_splits)
  with mems have "\<forall>d \<in> set (memtables s). \<not> delta_Contains d k" by blast
  from seg_current[OF b k small seg doc this fresh] show ?thesis .
qed

text \<open>An entry of the merge comes from a delta that no newer one shadows, or from a segment that none does.\<close>

definition comes_text :: "text_env \<Rightarrow> vstore \<Rightarrow> (bytes \<times> f64) list \<Rightarrow> f64 \<Rightarrow> nat \<Rightarrow> vfilter \<Rightarrow> bytes \<times> (f64 \<times> int) \<Rightarrow> bool" where
  "comes_text X s qs avg K f h \<longleftrightarrow>
     (\<exists>i < length (text_memtables s). snd (snd h) = - (2 ^ 63) + int i \<and>
        (fst h, fst (snd h)) \<in> set (delta_SearchText X (text_memtables s ! i) qs avg K (mem_text_filter (v_tombs s) f)) \<and>
        (\<forall>d \<in> set (take i (text_memtables s)). \<not> delta_Contains d (fst h))) \<or>
     (\<exists>seg. (seg, snd (snd h)) \<in> set (ranked_segs (v_levels s)) \<and>
        (fst h, fst (snd h)) \<in> set (seg_text_hits X qs avg K (v_tombs s) f seg) \<and>
        (\<forall>d \<in> set (text_memtables s). \<not> delta_Contains d (fst h)))"

lemma update_subset: "set (AList.update k v m) \<subseteq> insert (k, v) (set m)"
  by (induction m) auto

lemma addHits_ok:
  assumes "keys_distinct acc" "\<forall>h \<in> set acc. I h"
    and "\<And>k sc. (k, sc) \<in> set hs \<Longrightarrow> \<forall>d \<in> set shadows. \<not> delta_Contains d k \<Longrightarrow> I (k, sc, r)"
  shows "keys_distinct (foldl (addHit shadows r) acc hs) \<and> (\<forall>h \<in> set (foldl (addHit shadows r) acc hs). I h)"
  using assms
proof (induction hs arbitrary: acc)
  case (Cons h hs)
  have "keys_distinct (addHit shadows r acc h)"
    using Cons.prems(1) by (auto simp: addHit_def keys_distinct_def map_of_eq_None_iff distinct_update split: option.splits)
  moreover have "\<forall>x \<in> set (addHit shadows r acc h). I x"
    using Cons.prems(2) Cons.prems(3)[of "fst h" "snd h"] update_subset[of "fst h" "(snd h, r)" acc]
    by (auto simp: addHit_def split: option.splits)
  ultimately show ?case using Cons.IH[of "addHit shadows r acc h"] Cons.prems(3) by simp
qed simp

lemma combine_text_ok:
  "keys_distinct (text_combine X s qs avg K f) \<and> (\<forall>h \<in> set (text_combine X s qs avg K f). comes_text X s qs avg K f h)"
proof -
  let ?mems = "text_memtables s" and ?I = "comes_text X s qs avg K f"
  define step where "step acc x = foldl (addHit (take (fst x) ?mems) (- (2 ^ 63) + int (fst x))) acc
    (delta_SearchText X (snd x) qs avg K (mem_text_filter (v_tombs s) f))" for acc x
  have mem: "set xs \<subseteq> set (enumerate 0 ?mems) \<Longrightarrow> keys_distinct acc \<and> (\<forall>h \<in> set acc. ?I h) \<Longrightarrow>
      keys_distinct (foldl step acc xs) \<and> (\<forall>h \<in> set (foldl step acc xs). ?I h)" for xs acc
  proof (induction xs arbitrary: acc)
    case (Cons x xs)
    have x: "fst x < length ?mems" "snd x = ?mems ! fst x" using Cons.prems(1) by (auto simp: in_set_enumerate_eq)
    have "keys_distinct (step acc x) \<and> (\<forall>h \<in> set (step acc x). ?I h)"
      unfolding step_def by (rule addHits_ok) (use Cons.prems(2) x in \<open>auto simp: comes_text_def\<close>)
    with Cons show ?case by simp
  qed simp
  have seg: "set xs \<subseteq> set (ranked_segs (v_levels s)) \<Longrightarrow> keys_distinct acc \<and> (\<forall>h \<in> set acc. ?I h) \<Longrightarrow>
      keys_distinct (foldl (\<lambda>acc (seg, r). foldl (addHit ?mems r) acc (seg_text_hits X qs avg K (v_tombs s) f seg)) acc xs) \<and>
      (\<forall>h \<in> set (foldl (\<lambda>acc (seg, r). foldl (addHit ?mems r) acc (seg_text_hits X qs avg K (v_tombs s) f seg)) acc xs). ?I h)" for xs acc
  proof (induction xs arbitrary: acc)
    case (Cons x xs)
    obtain sg r where x: "x = (sg, r)" by fastforce
    have "keys_distinct (foldl (addHit ?mems r) acc (seg_text_hits X qs avg K (v_tombs s) f sg)) \<and>
      (\<forall>h \<in> set (foldl (addHit ?mems r) acc (seg_text_hits X qs avg K (v_tombs s) f sg)). ?I h)"
      by (rule addHits_ok) (use Cons.prems x in \<open>auto simp: comes_text_def\<close>)
    with Cons x show ?case by simp
  qed simp
  have eq: "(\<lambda>acc (i, d). foldl (addHit (take i ?mems) (- (2 ^ 63) + int i)) acc
      (delta_SearchText X d qs avg K (mem_text_filter (v_tombs s) f))) = step"
    by (auto simp: step_def fun_eq_iff)
  show ?thesis unfolding text_combine_def Let_def eq
    by (rule seg[OF subset_refl mem[OF subset_refl]]) simp
qed


lemma mem_filter_means:
  "filter_means (mem_text_filter ts f) (\<lambda>k x. k \<notin> ts \<and> match_doc f x)"
proof -
  have means: "filter_means (if filter_empty f then None else Some (\<lambda>key a. matchAttrs a f [])) (\<lambda>k. match_doc f)" by (rule match_means)
  show ?thesis
  proof (cases "filter_empty f")
    case True
    with means have "match_doc f x" for x unfolding filter_means_def by (simp del: split_paired_All)
    then show ?thesis using True by (simp add: filter_means_def mem_text_filter_def)
  next
    case False
    with means show ?thesis by (simp add: filter_means_def mem_text_filter_def)
  qed
qed

lemma combine_current:
  assumes b: "base_ok s" and small: "fits_memory s" and fits: "text_fits s" and ex: "all_exact s"
    and h: "comes_text X s qs avg K f (k, sc, r)"
    and fresh: "\<not> stale_text (length (text_memtables s)) (ranked_segs (v_levels s)) (k, sc, r)"
  shows "\<exists>x. vs_doc s k = Some x \<and> doc_score X qs avg (snd (snd x)) = Some sc \<and> match_doc f x"
proof -
  let ?mems = "text_memtables s" and ?segs = "ranked_segs (v_levels s)"
  from h consider
      (mem) i where "i < length ?mems" "(k, sc) \<in> set (delta_SearchText X (?mems ! i) qs avg K (mem_text_filter (v_tombs s) f))"
        "\<forall>d \<in> set (take i ?mems). \<not> delta_Contains d k"
    | (seg) seg where "(seg, r) \<in> set ?segs" "(k, sc) \<in> set (seg_text_hits X qs avg K (v_tombs s) f seg)"
        "\<forall>d \<in> set ?mems. \<not> delta_Contains d k"
    unfolding comes_text_def by fastforce
  then show ?thesis
  proof cases
    case mem
    have m: "?mems ! i \<in> set ?mems" using mem(1) by simp
    then have "\<forall>sh \<in> set (d_shards (?mems ! i)). length (s_keys sh) < 2 ^ 32" using fits unfolding text_fits_def by blast
    from delta_text_ok[OF text_mem_wf(1)[OF b m] this mem_filter_means mem(2)] obtain x where
      x: "delta_doc (?mems ! i) k = Some x" "doc_score X qs avg (snd (snd x)) = Some sc" "k \<notin> v_tombs s" "match_doc f x" by blast
    from text_mem_current[OF b x(3) mem(1) x(1) mem(3)] x(2,4) show ?thesis by blast
  next
    case seg
    from seg(1) obtain l p where lp: "l < length (v_levels s)" "p < length (v_levels s ! l)" "seg = snd (v_levels s ! l ! p)" "r = seg_rank l p"
      unfolding ranked_segs_elem by blast
    have mem: "v_levels s ! l ! p \<in> set (concat (v_levels s))" using lp(1,2) by (auto simp: set_concat intro: nth_mem)
    then have wf: "seg_wf (v_dim s) seg" using base_okD(8)[OF b] lp(3) by blast
    have "seg_exact seg" using ex mem lp(3) by (auto simp: all_exact_def simp del: set_concat)
    from text_seg_ok[OF wf this seg(2)] obtain x where
      x: "seg_doc seg k = Some x" "doc_score X qs avg (snd (snd x)) = Some sc" "match_doc f x" "k \<notin> v_tombs s" by blast
    have "- (2 ^ 63) + int (length ?mems) \<le> r"
    proof -
      have "length ?mems < 2 ^ 41" using small by (auto simp: fits_memory_def text_memtables_def split: option.splits)
      moreover have "p < 2 ^ 40"
        using small lp(1,2) unfolding fits_memory_def by (auto intro: less_trans)
      ultimately show ?thesis unfolding lp(4) seg_rank_def by simp
    qed
    then have "\<forall>(seg', r') \<in> set ?segs. r' < r \<longrightarrow> \<not> seg_HasKey seg' k" using fresh by (auto simp: stale_text_def)
    from text_seg_current[OF b x(4) small seg(1) x(1) seg(3) this] x(2,3) show ?thesis by blast
  qed
qed

text \<open>The search: one weighting of the query terms and one average length for all layers.\<close>

definition text_hits_ok :: "text_env \<Rightarrow> (bytes \<Rightarrow> vdoc option) \<Rightarrow> bytes \<Rightarrow> nat \<Rightarrow> vfilter \<Rightarrow> (bytes \<times> f64) list \<Rightarrow> bool" where
  "text_hits_ok X doc query K f hs \<longleftrightarrow>
     distinct (map fst hs) \<and> length hs \<le> K \<and>
     (\<exists>qs avg. fst ` set qs \<subseteq> set (tx_tokens X query) \<and>
        (\<forall>(k, sc) \<in> set hs. \<exists>x. doc k = Some x \<and> doc_score X qs avg (snd (snd x)) = Some sc \<and> match_doc f x))"

lemma best_text_ok:
  assumes b: "base_ok s" and small: "fits_memory s" and fits: "text_fits s" and ex: "all_exact s"
    and hs: "hs = best_text True s K (text_combine X s qs avg K' f)"
  shows "distinct (map fst hs)" "length hs \<le> K"
    "(k, sc) \<in> set hs \<Longrightarrow> \<exists>x. vs_doc s k = Some x \<and> doc_score X qs avg (snd (snd x)) = Some sc \<and> match_doc f x"
proof -
  let ?comb = "text_combine X s qs avg K' f"
  let ?live = "filter (\<lambda>h. \<not> stale_text (length (text_memtables s)) (ranked_segs (v_levels s)) h) (by_score (\<lambda>h. fst (snd h)) fst ?comb)"
  have eq: "hs = map (\<lambda>(key, sc, r). (key, sc)) (take K ?live)" using hs by (simp add: best_text_def)
  note c = combine_text_ok[of X s qs avg K' f]
  have "mset (map fst (by_score (\<lambda>h. fst (snd h)) fst ?comb)) = mset (map fst ?comb)" by (simp add: by_score_def)
  then have "distinct (map fst (by_score (\<lambda>h. fst (snd h)) fst ?comb))"
    using c by (metis keys_distinct_def mset_eq_imp_distinct_iff)
  then have "distinct (map fst ?live)" by (rule distinct_map_filter)
  then have "distinct (take K (map fst ?live))" by (rule distinct_take)
  then show "distinct (map fst hs)" by (simp add: eq comp_def case_prod_unfold take_map)
  show "length hs \<le> K" by (simp add: eq)
  assume "(k, sc) \<in> set hs"
  then obtain r where "(k, sc, r) \<in> set (take K ?live)" by (auto simp: eq)
  then have "(k, sc, r) \<in> set ?live" by (rule in_set_takeD)
  then have "(k, sc, r) \<in> set ?comb" "\<not> stale_text (length (text_memtables s)) (ranked_segs (v_levels s)) (k, sc, r)" by simp_all
  with c have "comes_text X s qs avg K' f (k, sc, r)" by blast
  from combine_current[OF b small fits ex this] \<open>\<not> stale_text _ _ _\<close>
  show "\<exists>x. vs_doc s k = Some x \<and> doc_score X qs avg (snd (snd x)) = Some sc \<and> match_doc f x" by blast
qed

lemma prune_terms: "fst ` set (prune n qs) \<subseteq> fst ` set qs"
  by (auto simp: prune_def Let_def)

lemma SearchTextFilter_sound:
  assumes b: "base_ok s" and small: "fits_memory s" and fits: "text_fits s" and ex: "all_exact s"
  shows "text_hits_ok X (vs_doc s) query K f (SearchTextFilter X True s query K f)"
proof -
  have none: "text_hits_ok X (vs_doc s) query K f []" by (simp add: text_hits_ok_def) (metis empty_iff image_empty list.set(1) subsetI)
  obtain n lens df where st: "all_stats s (tx_tokens X query) = (n, lens, df)" by (metis prod_cases3)
  let ?qs = "map (\<lambda>(t, d). (t, tx_idf X n d)) (prune n (zip (tx_tokens X query) df))"
  define hs where "hs = best_text True s K (text_combine X s ?qs (tx_avg X lens n) K f)"
  have "fst ` set ?qs = fst ` set (prune n (zip (tx_tokens X query) df))" by force
  also have "\<dots> \<subseteq> fst ` set (zip (tx_tokens X query) df)" by (rule prune_terms)
  also have "\<dots> \<subseteq> set (tx_tokens X query)" by (auto dest: set_zip_leftD)
  finally have "text_hits_ok X (vs_doc s) query K f hs"
    using best_text_ok[OF b small fits ex hs_def] unfolding text_hits_ok_def by blast
  with none st show ?thesis by (simp add: SearchTextFilter_def hs_def Let_def)
qed

subsection \<open>The hybrid search\<close>

text \<open>Every hit of the fusion comes from one of the two searches, so it is a living document that passes the filter.\<close>

lemma update_keys: "fst ` set (AList.update k v m) = insert k (fst ` set m)"
  by (induction m) auto

lemma fuse_ranks_keys:
  "fst ` set (fuse_ranks X m ks) = fst ` set m \<union> set ks" "keys_distinct m \<Longrightarrow> keys_distinct (fuse_ranks X m ks)"
proof -
  have "fst ` set (foldl (\<lambda>fused (i, key). AList.update key (tx_plus X (or_zero (map_of fused key)) (tx_rrf X (rrfK + i + 1))) fused) m xs) =
      fst ` set m \<union> snd ` set xs" for xs
    by (induction xs arbitrary: m) (simp_all add: update_keys case_prod_unfold)
  then show "fst ` set (fuse_ranks X m ks) = fst ` set m \<union> set ks"
    by (simp add: fuse_ranks_def del: set_map add: set_map[symmetric])
  have "keys_distinct m \<Longrightarrow>
      keys_distinct (foldl (\<lambda>fused (i, key). AList.update key (tx_plus X (or_zero (map_of fused key)) (tx_rrf X (rrfK + i + 1))) fused) m xs)" for xs
    by (induction xs arbitrary: m) (auto simp: keys_distinct_def distinct_update)
  then show "keys_distinct m \<Longrightarrow> keys_distinct (fuse_ranks X m ks)" by (simp add: fuse_ranks_def)
qed

lemma SearchHybrid_sound:
  assumes b: "base_ok s" and small: "fits_memory s" and fits: "text_fits s" and ex: "all_exact s"
    and srt: "sort_ok S" and walk: "walk_ok S" and strict: "se_strict S"
    and ss: "seg_search_ok S (v_dim s) (\<lambda>k x. True) ss" and ssf: "seg_search_ok S (v_dim s) (\<lambda>k. match_doc f) (ssf (PartitionAttr cfg) f)"
    and res: "SearchHybridFilter X cfg S ss ssf s query vec K f = Inr hs"
  shows "distinct (map fst hs)" "length hs \<le> K" "k \<in> fst ` set hs \<Longrightarrow> \<exists>x. vs_doc s k = Some x \<and> match_doc f x"
proof -
  let ?depth = "max rrfFusionDepth K"
  have "distinct (map fst hs) \<and> length hs \<le> K \<and> (\<forall>k \<in> fst ` set hs. \<exists>x. vs_doc s k = Some x \<and> match_doc f x)"
  proof (cases "K = 0")
    case True
    with res show ?thesis by (simp add: SearchHybridFilter_def)
  next
    case False
    let ?arm = "if filter_empty f then vs_Search S ss s vec ?depth else SearchFilter cfg S ssf s vec ?depth f"
    obtain vh where vh: "?arm = Inr vh" using res False by (cases ?arm) (simp_all add: SearchHybridFilter_def Let_def)
    let ?fused = "fuse_ranks X (fuse_ranks X [] (map fst (SearchTextFilter X True s query ?depth f))) (map rkey vh)"
    have hs: "hs = take K (by_score snd fst ?fused)" using res False vh strict by (simp add: SearchHybridFilter_def Let_def)
    have "search_ok s (se_dist S vec) ?depth (\<lambda>k. match_doc f) vh"
    proof (cases "filter_empty f")
      case True
      then have "search S ss s vec ?depth None None = Inr vh" using vh by (simp add: vs_Search_def lift_search_def split: sum.splits)
      then have "search_ok s (se_dist S vec) ?depth (pass None (\<lambda>k x. True)) vh"
        by (intro search_sound[OF b small srt walk _ ss strict]) (simp_all add: filter_means_def)
      moreover have "match_doc f x" for x using True by (simp add: match_doc_def filter_empty_def Let_def case_prod_unfold)
      ultimately show ?thesis by (auto simp: search_ok_def hits_ok_def)
    next
      case False
      then have "SearchFilter cfg S ssf s vec ?depth f = Inr vh" using vh by simp
      from SearchFilter_sound[where f = f and ss = ssf and cfg = cfg, OF b small srt walk strict ssf this] show ?thesis .
    qed
    then have vec: "\<exists>x. vs_doc s k = Some x \<and> match_doc f x" if "k \<in> rkey ` set vh" for k
      using that by (fastforce simp: search_ok_def hits_ok_def)
    have lex: "\<exists>x. vs_doc s k = Some x \<and> match_doc f x" if "k \<in> fst ` set (SearchTextFilter X True s query ?depth f)" for k
      using that SearchTextFilter_sound[OF b small fits ex, of X query ?depth f] by (fastforce simp: text_hits_ok_def)
    have "mset (map fst (by_score snd fst ?fused)) = mset (map fst ?fused)" by (simp add: by_score_def)
    moreover have "keys_distinct ?fused" by (intro fuse_ranks_keys(2)) simp
    ultimately have "distinct (map fst (by_score snd fst ?fused))" by (metis keys_distinct_def mset_eq_imp_distinct_iff)
    moreover have "fst ` set hs \<subseteq> fst ` set ?fused" unfolding hs by (metis by_score_set image_mono set_take_subset)
    then have "fst ` set hs \<subseteq> fst ` set (SearchTextFilter X True s query ?depth f) \<union> rkey ` set vh" by (simp add: fuse_ranks_keys)
    then have "\<forall>k \<in> fst ` set hs. \<exists>x. vs_doc s k = Some x \<and> match_doc f x"
      using vec lex by blast
    ultimately show ?thesis by (simp add: hs distinct_take_map)
  qed
  then show "distinct (map fst hs)" "length hs \<le> K" "k \<in> fst ` set hs \<Longrightarrow> \<exists>x. vs_doc s k = Some x \<and> match_doc f x" by blast+
qed


definition ex_text :: text_env where
  "ex_text = \<lparr>tx_tokens = (\<lambda>t. if t = [] then [] else [t]), tx_blank = (\<lambda>t. t = []), tx_idf = (\<lambda>_ _. 1), tx_avg = (\<lambda>_ _. 1),
     tx_part = (\<lambda>idf _ _ _. idf), tx_plus = (\<lambda>_ b. b), tx_rrf = (\<lambda>_. 1)\<rparr>"

text \<open>Two texts are flushed together; one of the documents is written again with another text.\<close>

definition ex_text_run :: "vevent list" where
  "ex_text_run = [EAdd ''k'' [1] no_attrs (TokenizeDoc ex_text ''c''), EAdd ''m'' [2] no_attrs (TokenizeDoc ex_text ''c'')] @
     ex_swap @ [EApply 0, EAdd ''k'' [3] no_attrs (TokenizeDoc ex_text ''d'')]"


end
