(* ===== verification/CmdVector.thy ===== *)
theory CmdVector
  imports Dispatch VecCodec VecLex VecSync
begin

text \<open>
  The commands of the vector engine (\<open>cmd/kvstore/cmd_vector.go\<close>): insertion of vectors, of vectors with
  attributes and of documents, deletion, and the searches with their filters, the joins with the string
  store and with a sorted set included. The store behind them is \<open>vstore\<close>; the other stores and the journal are those of
  \<open>Commands\<close>. What outside these files a command uses is in \<open>vec_env\<close>: \<open>strconv\<close>, \<open>fmt\<close> and
  \<open>strings.ToUpper\<close>, the parameters of the searches, and what runs beside \<open>VSIM.INFO\<close> while it waits.
\<close>

section \<open>Environment and error texts\<close>

record vec_env =
  vn_env :: "vstore env"
  vn_upper :: "string \<Rightarrow> string"
  vn_parse32 :: "string \<Rightarrow> f32 option"
  vn_fmt32 :: "f32 \<Rightarrow> string"
  vn_fix32 :: "f32 \<Rightarrow> string"
  vn_fix64 :: "f64 \<Rightarrow> string"
  vn_quote :: "string \<Rightarrow> string"
  vn_text :: text_env
  vn_store :: venv
  vn_search :: senv
  vn_seg :: seg_search
  vn_segf :: "bytes \<Rightarrow> vfilter \<Rightarrow> seg_search"
  vn_beside :: "sync_event list"

type_synonym vsrv = "vstore srv"

fun verror_text :: "verror \<Rightarrow> string" where
  "verror_text ErrEmptyKey = ''empty key''"
| "verror_text ErrKeyTooLong = ''key too long''"
| "verror_text ErrEmptyVector = ''empty vector''"
| "verror_text ErrInvalidVectorValue = ''vector contains NaN or Inf''"
| "verror_text (DimMismatch expected got) =
     ''vector dimension mismatch: expected '' @ digits expected @ '', got '' @ digits got"

text \<open>The two errors of a tenant search do not come from the searches used here.\<close>

definition search_error_text :: "search_error \<Rightarrow> string" where
  "search_error_text e = (case e of SearchErr v \<Rightarrow> verror_text v | TenantModeOff \<Rightarrow> [] | TenantWithPartition \<Rightarrow> [])"

definition err_reply :: "string \<Rightarrow> reply list" where
  "err_reply msg = [RError (''ERR '' @ msg)]"

section \<open>Arguments\<close>

definition MaxSearchK :: int where "MaxSearchK = 100000"

definition parse_K :: "bytes \<Rightarrow> nat option" where
  "parse_K b =
     (case parseInt b of None \<Rightarrow> None
      | Some n \<Rightarrow> if n \<le> 0 \<or> n > MaxSearchK then None else Some (nat n))"

definition bad_K :: "reply list" where
  "bad_K = [RError ''ERR invalid K (must be 1..100000)'']"

text \<open>The components of a vector; the first that is no float, with its position.\<close>

fun parse_vec :: "vec_env \<Rightarrow> nat \<Rightarrow> bytes list \<Rightarrow> nat \<times> bytes + f32 list" where
  "parse_vec P i [] = Inr []"
| "parse_vec P i (a # as) =
     (case vn_parse32 P a of
        None \<Rightarrow> Inl (i, a)
      | Some f \<Rightarrow> (case parse_vec P (Suc i) as of Inl e \<Rightarrow> Inl e | Inr fs \<Rightarrow> Inr (f # fs)))"

definition bad_float :: "nat \<times> bytes \<Rightarrow> reply list" where
  "bad_float e = err_reply (''invalid float at position '' @ digits (fst e) @ '': '' @ snd e)"

text \<open>The section \<open>VEC\<close> at the end of \<open>ADDATTR\<close>, \<open>ADDDOC\<close> and \<open>FILTER\<close>.\<close>

definition vec_section :: "vec_env \<Rightarrow> bytes list \<Rightarrow> string + f32 list" where
  "vec_section P as = (case parse_vec P 0 as of Inl e \<Rightarrow> Inl (''invalid float '' @ vn_quote P (snd e)) | Inr fs \<Rightarrow> Inr fs)"

definition unexpected :: "vec_env \<Rightarrow> bytes \<Rightarrow> string \<Rightarrow> string" where
  "unexpected P a want = ''unexpected token '' @ vn_quote P a @ '' (want '' @ want @ '')''"

definition float_arg :: "vec_env \<Rightarrow> bytes \<Rightarrow> f64 option" where
  "float_arg P b = parseFloat (vn_env P) b"

fun parse_addattr :: "vec_env \<Rightarrow> bytes list \<Rightarrow> attributes \<Rightarrow> string + attributes \<times> f32 list" where
  "parse_addattr P [] a = Inr (a, [])"
| "parse_addattr P (t # as) a =
     (if vn_upper P t = ''CAT'' then
        (case as of
           n # v # as' \<Rightarrow> parse_addattr P as' (a\<lparr>Cat := AList.update n v (Cat a)\<rparr>)
         | _ \<Rightarrow> Inl ''CAT requires <attr> <value>'')
      else if vn_upper P t = ''NUM'' then
        (case as of
           n # v # as' \<Rightarrow>
             (case float_arg P v of
                None \<Rightarrow> Inl ''NUM value not a float''
              | Some x \<Rightarrow> parse_addattr P as' (a\<lparr>Num := AList.update n x (Num a)\<rparr>))
         | _ \<Rightarrow> Inl ''NUM requires <attr> <value>'')
      else if vn_upper P t = ''VEC'' then map_sum id (Pair a) (vec_section P as)
      else Inl (unexpected P t ''CAT|NUM|VEC''))"

record doc_args =
  da_attrs :: attributes
  da_vec :: "f32 list"
  da_text :: bytes
  da_title :: bytes
  da_seen :: bool

definition no_doc :: doc_args where
  "no_doc = \<lparr>da_attrs = no_attrs, da_vec = [], da_text = [], da_title = [], da_seen = False\<rparr>"

fun parse_adddoc :: "vec_env \<Rightarrow> bytes list \<Rightarrow> doc_args \<Rightarrow> string + doc_args" where
  "parse_adddoc P [] d = Inr d"
| "parse_adddoc P (t # as) d =
     (if vn_upper P t = ''TEXT'' then
        (case as of
           x # as' \<Rightarrow> parse_adddoc P as' (d\<lparr>da_text := x, da_seen := True\<rparr>)
         | _ \<Rightarrow> Inl ''TEXT requires <text>'')
      else if vn_upper P t = ''TITLE'' then
        (case as of
           x # as' \<Rightarrow> parse_adddoc P as' (d\<lparr>da_title := x\<rparr>)
         | _ \<Rightarrow> Inl ''TITLE requires <title>'')
      else if vn_upper P t = ''CAT'' then
        (case as of
           n # v # as' \<Rightarrow> parse_adddoc P as' (d\<lparr>da_attrs := (da_attrs d)\<lparr>Cat := AList.update n v (Cat (da_attrs d))\<rparr>\<rparr>)
         | _ \<Rightarrow> Inl ''CAT requires <attr> <value>'')
      else if vn_upper P t = ''NUM'' then
        (case as of
           n # v # as' \<Rightarrow>
             (case float_arg P v of
                None \<Rightarrow> Inl ''NUM value not a float''
              | Some x \<Rightarrow> parse_adddoc P as' (d\<lparr>da_attrs := (da_attrs d)\<lparr>Num := AList.update n x (Num (da_attrs d))\<rparr>\<rparr>))
         | _ \<Rightarrow> Inl ''NUM requires <attr> <value>'')
      else if vn_upper P t = ''VEC'' then map_sum id (\<lambda>vec. d\<lparr>da_vec := vec\<rparr>) (vec_section P as)
      else Inl (unexpected P t ''TEXT|TITLE|CAT|NUM|VEC''))"

text \<open>The filters: a pair \<open>EQ\<close> or a range. \<open>parseAttrFilter\<close> gives the arguments it has left.\<close>

definition add_eq :: "bytes \<Rightarrow> bytes \<Rightarrow> vfilter \<Rightarrow> vfilter" where
  "add_eq n v f = f\<lparr>Eq := AList.update n v (Eq f)\<rparr>"

definition add_range :: "vec_env \<Rightarrow> bytes \<Rightarrow> bytes \<Rightarrow> bytes \<Rightarrow> vfilter \<Rightarrow> vfilter option" where
  "add_range P n lo hi f =
     (case (float_arg P lo, float_arg P hi) of
        (Some l, Some h) \<Rightarrow> Some (f\<lparr>Range := AList.update n (l, h) (Range f)\<rparr>)
      | _ \<Rightarrow> None)"

definition no_filter :: vfilter where "no_filter = \<lparr>Eq = [], Range = []\<rparr>"

fun parseAttrFilter :: "vec_env \<Rightarrow> bytes list \<Rightarrow> vfilter \<Rightarrow> string + vfilter \<times> bytes list" where
  "parseAttrFilter P [] f = Inr (f, [])"
| "parseAttrFilter P (t # as) f =
     (if vn_upper P t = ''EQ'' then
        (case as of
           n # v # as' \<Rightarrow> parseAttrFilter P as' (add_eq n v f)
         | _ \<Rightarrow> Inl ''EQ requires <attr> <value>'')
      else if vn_upper P t = ''RANGE'' then
        (case as of
           n # lo # hi # as' \<Rightarrow>
             (case add_range P n lo hi f of
                None \<Rightarrow> Inl ''RANGE lo/hi not floats''
              | Some f' \<Rightarrow> parseAttrFilter P as' f')
         | _ \<Rightarrow> Inl ''RANGE requires <attr> <lo> <hi>'')
      else Inr (f, t # as))"

fun parse_vfilter :: "vec_env \<Rightarrow> bytes list \<Rightarrow> vfilter \<Rightarrow> string + vfilter \<times> f32 list" where
  "parse_vfilter P [] f = Inr (f, [])"
| "parse_vfilter P (t # as) f =
     (if vn_upper P t = ''EQ'' then
        (case as of
           n # v # as' \<Rightarrow> parse_vfilter P as' (add_eq n v f)
         | _ \<Rightarrow> Inl ''EQ requires <attr> <value>'')
      else if vn_upper P t = ''RANGE'' then
        (case as of
           n # lo # hi # as' \<Rightarrow>
             (case add_range P n lo hi f of
                None \<Rightarrow> Inl ''RANGE lo/hi not floats''
              | Some f' \<Rightarrow> parse_vfilter P as' f')
         | _ \<Rightarrow> Inl ''RANGE requires <attr> <lo> <hi>'')
      else if vn_upper P t = ''VEC'' then map_sum id (Pair f) (vec_section P as)
      else Inl (unexpected P t ''EQ|RANGE|VEC''))"

section \<open>Writing\<close>

text \<open>What the insertions share: the checks, the store, then the journal.\<close>

definition store_doc :: "vec_env \<Rightarrow> vsrv \<Rightarrow> bytes \<Rightarrow> f32 list \<Rightarrow> attributes \<Rightarrow> term_tf list \<Rightarrow> 8 word \<Rightarrow> bytes \<Rightarrow> reply list \<times> vsrv" where
  "store_doc P s key vec a ts op value =
     (case ValidateKey key of
        Some e \<Rightarrow> (err_reply (verror_text e), s)
      | None \<Rightarrow>
          (case ValidateVector vec of
             Some e \<Rightarrow> (err_reply (verror_text e), s)
           | None \<Rightarrow>
               (case addEntry (vn_store P) key vec a ts (svec s) of
                  (Some e, v) \<Rightarrow> (err_reply (verror_text e), s\<lparr>svec := v\<rparr>)
                | (None, v) \<Rightarrow> ([RSimple ''OK''], jwrite (s\<lparr>svec := v\<rparr>) op key value))))"

text \<open>\<open>ADD\<close> and \<open>ADDBIN\<close> go to the replicas as text.\<close>

definition forward_add :: "vec_env \<Rightarrow> bytes \<Rightarrow> f32 list \<Rightarrow> reply list \<times> vsrv \<Rightarrow> reply list \<times> vsrv" where
  "forward_add P key vec r =
     (if fst r = [RSimple ''OK''] then
        (fst r, forwardWrite (vn_env P) (snd r) (''VSIM.ADD '' @ key @ concat (map (\<lambda>v. '' '' @ vn_fmt32 P v) vec)))
      else r)"

definition cmdVSimAddBin :: "vec_env \<Rightarrow> vsrv \<Rightarrow> bytes list \<Rightarrow> reply list \<times> vsrv" where
  "cmdVSimAddBin P s args =
     (if length args \<noteq> 2 then ([RError ''ERR usage: VSIM.ADDBIN <key> <binary_vec_bytes>''], s)
      else case moved (vn_env P) (args ! 0) of
        Some r \<Rightarrow> (r, s)
      | None \<Rightarrow>
          if length (args ! 1) mod 4 \<noteq> 0 then
            ([RError ''ERR invalid binary vector: byte length must be a multiple of 4''], s)
          else
            (let vec = DeserializeVector (args ! 1) in
             forward_add P (args ! 0) vec (store_doc P s (args ! 0) vec no_attrs [] OpVSimAdd (args ! 1))))"

definition cmdVSimAdd :: "vec_env \<Rightarrow> vsrv \<Rightarrow> bytes list \<Rightarrow> reply list \<times> vsrv" where
  "cmdVSimAdd P s args =
     (if length args < 2 then ([RError ''ERR usage: VSIM.ADD <key> <v1> <v2> ... <vN>''], s)
      else case moved (vn_env P) (args ! 0) of
        Some r \<Rightarrow> (r, s)
      | None \<Rightarrow>
          (case parse_vec P 1 (tl args) of
             Inl e \<Rightarrow> (bad_float e, s)
           | Inr vec \<Rightarrow>
               forward_add P (args ! 0) vec (store_doc P s (args ! 0) vec no_attrs [] OpVSimAdd (SerializeVector vec))))"

definition cmdVSimAddAttr :: "vec_env \<Rightarrow> vsrv \<Rightarrow> bytes list \<Rightarrow> reply list \<times> vsrv" where
  "cmdVSimAddAttr P s args =
     (if length args < 3 then ([RError ''ERR usage: VSIM.ADDATTR <key> [CAT k v]... [NUM k v]... VEC <v1> ... <vN>''], s)
      else case moved (vn_env P) (args ! 0) of
        Some r \<Rightarrow> (r, s)
      | None \<Rightarrow>
          (case parse_addattr P (tl args) no_attrs of
             Inl e \<Rightarrow> (err_reply e, s)
           | Inr (a, vec) \<Rightarrow> store_doc P s (args ! 0) vec a [] OpVSimAddAttrs (SerializeVectorWithAttrs vec a)))"

definition cmdVSimAddDoc :: "vec_env \<Rightarrow> vsrv \<Rightarrow> bytes list \<Rightarrow> reply list \<times> vsrv" where
  "cmdVSimAddDoc P s args =
     (if length args < 3 then
        ([RError ''ERR usage: VSIM.ADDDOC <key> TEXT <text> [TITLE <title>] [CAT k v]... [NUM k v]... VEC <v1> ... <vN>''], s)
      else case moved (vn_env P) (args ! 0) of
        Some r \<Rightarrow> (r, s)
      | None \<Rightarrow>
          (case parse_adddoc P (tl args) no_doc of
             Inl e \<Rightarrow> (err_reply e, s)
           | Inr d \<Rightarrow>
               if \<not> da_seen d then (err_reply ''TEXT is required (use VSIM.ADDATTR for text-less vectors)'', s)
               else
                 (let ts = TokenizeDocTitled (vn_text P) (da_title d) (da_text d) in
                  store_doc P s (args ! 0) (da_vec d) (da_attrs d) ts OpVSimAddDoc (SerializeVectorWithDoc (da_vec d) (da_attrs d) ts))))"

definition cmdVSimDel :: "vec_env \<Rightarrow> vsrv \<Rightarrow> bytes list \<Rightarrow> reply list \<times> vsrv" where
  "cmdVSimDel P s args =
     (if length args < 1 then ([RError ''ERR usage: VSIM.DEL <key>''], s)
      else case moved (vn_env P) (args ! 0) of
        Some r \<Rightarrow> (r, s)
      | None \<Rightarrow>
          (case vs_Delete (args ! 0) (svec s) of
             (True, v) \<Rightarrow> ([RInt 1], forwardWrite (vn_env P) (jwrite (s\<lparr>svec := v\<rparr>) OpVSimDel (args ! 0) []) (''VSIM.DEL '' @ args ! 0))
           | (False, v) \<Rightarrow> ([RInt 0], s\<lparr>svec := v\<rparr>)))"

section \<open>Reading\<close>

text \<open>\<open>EXISTS\<close> asks the store itself and none of the searches.\<close>

definition cmdVSimExists :: "vec_env \<Rightarrow> vsrv \<Rightarrow> bytes list \<Rightarrow> reply list" where
  "cmdVSimExists P s args =
     (if length args < 1 then [RError ''ERR usage: VSIM.EXISTS <key>'']
      else case (case cluster (vn_env P) of None \<Rightarrow> None | Some h \<Rightarrow> if \<not> isReplica h then checkKey h (args ! 0) else None) of
        Some r \<Rightarrow> r
      | None \<Rightarrow> [RInt (case vs_Get (svec s) (args ! 0) of None \<Rightarrow> 0 | Some v \<Rightarrow> 1)])"

text \<open>The replies: pairs of a key and a number.\<close>

definition pairs_reply :: "(bytes \<times> string) list \<Rightarrow> reply list" where
  "pairs_reply hs = RArrayHeader (length hs * 2) # concat (map (\<lambda>(k, d). [RBulk k, RBulk d]) hs)"

definition near_reply :: "vec_env \<Rightarrow> search_error + frozen_result list \<Rightarrow> reply list" where
  "near_reply P r =
     (case r of
        Inl e \<Rightarrow> err_reply (search_error_text e)
      | Inr hs \<Rightarrow> pairs_reply (map (\<lambda>h. (rkey h, vn_fix32 P (rdist h))) hs))"

definition score_reply :: "vec_env \<Rightarrow> search_error + (bytes \<times> f64) list \<Rightarrow> reply list" where
  "score_reply P r =
     (case r of
        Inl e \<Rightarrow> err_reply (search_error_text e)
      | Inr hs \<Rightarrow> pairs_reply (map (\<lambda>(k, x). (k, vn_fix64 P x)) hs))"

definition cmdVSimSearch :: "vec_env \<Rightarrow> vsrv \<Rightarrow> bytes list \<Rightarrow> reply list" where
  "cmdVSimSearch P s args =
     (if length args < 2 then [RError ''ERR usage: VSIM.SEARCH <K> <v1> <v2> ... <vN>'']
      else case parse_K (args ! 0) of
        None \<Rightarrow> bad_K
      | Some K \<Rightarrow>
          (case parse_vec P 1 (tl args) of
             Inl e \<Rightarrow> bad_float e
           | Inr query \<Rightarrow> near_reply P (vs_Search (vn_search P) (vn_seg P) (svec s) query K)))"

definition cmdVSimSearchBin :: "vec_env \<Rightarrow> vsrv \<Rightarrow> bytes list \<Rightarrow> reply list" where
  "cmdVSimSearchBin P s args =
     (if length args \<noteq> 2 then [RError ''ERR usage: VSIM.SEARCHBIN <K> <binary_vec_bytes>'']
      else case parse_K (args ! 0) of
        None \<Rightarrow> bad_K
      | Some K \<Rightarrow>
          if length (args ! 1) mod 4 \<noteq> 0 then [RError ''ERR invalid binary vector: byte length must be a multiple of 4'']
          else near_reply P (vs_Search (vn_search P) (vn_seg P) (svec s) (DeserializeVector (args ! 1)) K))"

definition cmdVSimSearchText :: "vec_env \<Rightarrow> vsrv \<Rightarrow> bytes list \<Rightarrow> reply list" where
  "cmdVSimSearchText P s args =
     (if length args < 2 then [RError ''ERR usage: VSIM.SEARCHTEXT <K> <query> [EQ attr val]... [RANGE attr lo hi]...'']
      else case parse_K (args ! 0) of
        None \<Rightarrow> bad_K
      | Some K \<Rightarrow>
          (case parseAttrFilter P (drop 2 args) no_filter of
             Inl e \<Rightarrow> err_reply e
           | Inr (f, t # as) \<Rightarrow> err_reply (unexpected P t ''EQ|RANGE'')
           | Inr (f, []) \<Rightarrow>
               score_reply P (Inr (SearchTextFilter (vn_text P) (se_strict (vn_search P)) (svec s) (args ! 1) K f))))"

definition cmdVSimHybrid :: "vec_env \<Rightarrow> vsrv \<Rightarrow> bytes list \<Rightarrow> reply list" where
  "cmdVSimHybrid P s args =
     (if length args < 5 \<or> vn_upper P (args ! 1) \<noteq> ''TEXT'' then
        [RError ''ERR usage: VSIM.HYBRID <K> TEXT <query> [EQ attr val]... [RANGE attr lo hi]... VEC <v1> ... <vN>'']
      else case parse_K (args ! 0) of
        None \<Rightarrow> bad_K
      | Some K \<Rightarrow>
          (case parseAttrFilter P (drop 3 args) no_filter of
             Inl e \<Rightarrow> err_reply e
           | Inr (f, []) \<Rightarrow> err_reply ''missing VEC section''
           | Inr (f, t # as) \<Rightarrow>
               if vn_upper P t \<noteq> ''VEC'' then err_reply ''missing VEC section''
               else
                 (case parse_vec P (length args - length as) as of
                    Inl e \<Rightarrow> bad_float e
                  | Inr query \<Rightarrow>
                      score_reply P (SearchHybridFilter (vn_text P) (e_vec (vn_store P)) (vn_search P) (vn_seg P) (vn_segf P)
                        (svec s) (args ! 2) query K f))))"

definition cmdVSimFilter :: "vec_env \<Rightarrow> vsrv \<Rightarrow> bytes list \<Rightarrow> reply list" where
  "cmdVSimFilter P s args =
     (if length args < 3 then [RError ''ERR usage: VSIM.FILTER <K> [EQ attr val]... [RANGE attr lo hi]... VEC <v1> ... <vN>'']
      else case parse_K (args ! 0) of
        None \<Rightarrow> bad_K
      | Some K \<Rightarrow>
          (case parse_vfilter P (tl args) no_filter of
             Inl e \<Rightarrow> err_reply e
           | Inr (f, query) \<Rightarrow>
               if query = [] then err_reply ''missing VEC query vector''
               else near_reply P (SearchFilter (e_vec (vn_store P)) (vn_search P) (vn_segf P) (svec s) query K f)))"

text \<open>\<open>INFO\<close> waits for \<open>FlushDeltaSync\<close>; a call that is not woken has no answer. \<open>vn_beside\<close> is what runs beside it.\<close>

definition flush_call :: "venv \<Rightarrow> sync_event list \<Rightarrow> vstore \<Rightarrow> vstore \<times> bool" where
  "flush_call E xs v =
     (case sync_run E (Call # xs) (v, NotCalled) of
        None \<Rightarrow> (v, False)
      | Some (v', w) \<Rightarrow> (v', case w of Returned W \<Rightarrow> True | _ \<Rightarrow> False))"

definition cmdVSimInfo :: "vec_env \<Rightarrow> vsrv \<Rightarrow> bytes list \<Rightarrow> reply list \<times> vsrv" where
  "cmdVSimInfo P s args =
     (case flush_call (vn_store P) (vn_beside P) (svec s) of
        (v, returned) \<Rightarrow>
          (if returned then
             (case vs_Info v of (n, dim, maxLevel) \<Rightarrow>
                [RBulk (''vectors:'' @ digits n @ '' dimension:'' @ digits dim @ '' max_level:'' @ digits maxLevel)])
           else [],
           s\<lparr>svec := v\<rparr>))"

text \<open>The join with the string store: a prefix of the key, or the value of \<open>field:key\<close>.\<close>

definition meta_filter :: "vec_env \<Rightarrow> vsrv \<Rightarrow> bytes \<Rightarrow> bytes \<Rightarrow> bytes \<Rightarrow> bool" where
  "meta_filter P s field value key \<longleftrightarrow>
     (if vn_upper P field = ''PREFIX'' then take (length value) key = value
      else kv_get (skv s) (field @ '':'' @ key) = Some value)"

definition cmdVSimSearchFilter :: "vec_env \<Rightarrow> vsrv \<Rightarrow> bytes list \<Rightarrow> reply list" where
  "cmdVSimSearchFilter P s args =
     (if length args < 4 then
        [RError (''ERR usage: VSIM.SEARCHFILTER <K> <filter_field> <filter_value> <v1> <v2> ... <vN>'' @
           ''  or  VSIM.SEARCHFILTER <K> PREFIX <prefix> <v1> <v2> ... <vN>'')]
      else case parse_K (args ! 0) of
        None \<Rightarrow> bad_K
      | Some K \<Rightarrow>
          if drop 3 args = [] then [RError ''ERR no vector components provided'']
          else
            (case parse_vec P 3 (drop 3 args) of
               Inl e \<Rightarrow> bad_float e
             | Inr query \<Rightarrow>
                 near_reply P (SearchFiltered (vn_search P) (vn_seg P) (svec s) query K (meta_filter P s (args ! 1) (args ! 2)))))"

text \<open>The join with a sorted set: the members in a range of scores. \<open>MembersInRange\<close> always returns.\<close>

definition cmdVSimSearchRange :: "vec_env \<Rightarrow> vsrv \<Rightarrow> bytes list \<Rightarrow> reply list" where
  "cmdVSimSearchRange P s args =
     (if length args < 5 then [RError ''ERR usage: VSIM.SEARCHRANGE <K> <setName> <minScore> <maxScore> <v1> <v2> ... <vN>'']
      else case parse_K (args ! 0) of
        None \<Rightarrow> bad_K
      | Some K \<Rightarrow>
          (case float_arg P (args ! 2) of
             None \<Rightarrow> [RError ''ERR invalid minScore'']
           | Some minScore \<Rightarrow>
               if f64_nan minScore then [RError ''ERR invalid minScore'']
               else
                 (case float_arg P (args ! 3) of
                    None \<Rightarrow> [RError ''ERR invalid maxScore'']
                  | Some maxScore \<Rightarrow>
                      if f64_nan maxScore then [RError ''ERR invalid maxScore'']
                      else if drop 4 args = [] then [RError ''ERR no vector components provided'']
                      else
                        (case parse_vec P 4 (drop 4 args) of
                           Inl e \<Rightarrow> bad_float e
                         | Inr query \<Rightarrow>
                             (case MembersInRange (szset s) (args ! 1) minScore maxScore of
                                Some (Some allowed) \<Rightarrow>
                                  near_reply P (SearchFiltered (vn_search P) (vn_seg P) (svec s) query K
                                    (\<lambda>key. map_of allowed key \<noteq> None))
                              | _ \<Rightarrow> [RArrayHeader 0])))))"

section \<open>The commands\<close>

text \<open>What the dispatcher calls for a name of \<open>vsim_cmds\<close>.\<close>

definition vsim_cmd :: "vec_env \<Rightarrow> string \<Rightarrow> vsrv \<Rightarrow> bytes list \<Rightarrow> reply list \<times> vsrv" where
  "vsim_cmd P cmd s args =
     (if cmd = ''VSIM.ADDBIN'' then cmdVSimAddBin P s args
      else if cmd = ''VSIM.ADD'' then cmdVSimAdd P s args
      else if cmd = ''VSIM.ADDATTR'' then cmdVSimAddAttr P s args
      else if cmd = ''VSIM.ADDDOC'' then cmdVSimAddDoc P s args
      else if cmd = ''VSIM.DEL'' then cmdVSimDel P s args
      else if cmd = ''VSIM.EXISTS'' then (cmdVSimExists P s args, s)
      else if cmd = ''VSIM.SEARCH'' then (cmdVSimSearch P s args, s)
      else if cmd = ''VSIM.SEARCHTEXT'' then (cmdVSimSearchText P s args, s)
      else if cmd = ''VSIM.HYBRID'' then (cmdVSimHybrid P s args, s)
      else if cmd = ''VSIM.SEARCHBIN'' then (cmdVSimSearchBin P s args, s)
      else if cmd = ''VSIM.FILTER'' then (cmdVSimFilter P s args, s)
      else if cmd = ''VSIM.INFO'' then cmdVSimInfo P s args
      else if cmd = ''VSIM.SEARCHFILTER'' then (cmdVSimSearchFilter P s args, s)
      else (cmdVSimSearchRange P s args, s))"

end
