(* ===== verification/CmdVecJournal.thy ===== *)
theory CmdVecJournal
  imports CmdVector
begin

text \<open>
  The vector commands and the journal: what a record does to the vector store at recovery
  (\<open>cmd/kvstore/wal_applier.go\<close>, over the store itself), that every command of the server writes the
  records that do to the store what it has done, and that a replay of the journal therefore gives the same
  documents, whatever the coordinator does in between on both sides.
\<close>

section \<open>Records at recovery\<close>

text \<open>An insertion that the store refuses is logged and counted as any other. A blob that makes the
  process run out of memory (\<open>Crash\<close>, see \<open>VecCodec\<close>) is taken together with one that does not decode.\<close>

definition add_batch :: "venv \<Rightarrow> delta_entry list \<Rightarrow> vstore \<Rightarrow> vstore" where
  "add_batch E ds v = fold (\<lambda>d v. snd (addEntry E (delta_entry.Key d) (Vec d) (Attrs d) (Terms d) v)) ds v"

definition vector_ops :: "rd_env \<Rightarrow> venv \<Rightarrow> vstore vec_ops" where
  "vector_ops R E =
     \<lparr>vo_delete = (\<lambda>v key. snd (vs_Delete key v)),
      vo_add = (\<lambda>v key b. snd (addEntry E key (DeserializeVector b) no_attrs [] v)),
      vo_addAttrs = (\<lambda>v key b. case DeserializeVectorWithAttrs R b of
         Got (vec, a) r \<Rightarrow> Some (snd (addEntry E key vec a [] v)) | _ \<Rightarrow> None),
      vo_addDoc = (\<lambda>v key b. case DeserializeVectorWithDoc R b of
         Got (vec, a, ts) r \<Rightarrow> Some (snd (addEntry E key vec a ts v)) | _ \<Rightarrow> None),
      vo_addBatch = (\<lambda>v b. case DeserializeDocBatch R b of
         Got ds r \<Rightarrow> Some (add_batch E ds v, length ds) | _ \<Rightarrow> None)\<rparr>"

text \<open>What a record means for the map of documents.\<close>

definition vec_events :: "rd_env \<Rightarrow> entry \<Rightarrow> vevent list" where
  "vec_events R e =
     (let k = entry.Key e; v = Value e in
      if Op e = OpVSimAdd then [EAdd k (DeserializeVector v) no_attrs []]
      else if Op e = OpVSimAddAttrs then
        (case DeserializeVectorWithAttrs R v of Got (vec, a) r \<Rightarrow> [EAdd k vec a []] | _ \<Rightarrow> [])
      else if Op e = OpVSimAddDoc then
        (case DeserializeVectorWithDoc R v of Got (vec, a, ts) r \<Rightarrow> [EAdd k vec a ts] | _ \<Rightarrow> [])
      else if Op e = OpVSimAddDocBatch then
        (case DeserializeDocBatch R v of
           Got ds r \<Rightarrow> map (\<lambda>d. EAdd (delta_entry.Key d) (Vec d) (Attrs d) (Terms d)) ds | _ \<Rightarrow> [])
      else if Op e = OpVSimDel \<or> Op e = OpDel then [EDelete k]
      else [])"

definition journal_events :: "rd_env \<Rightarrow> entry list \<Rightarrow> vevent list" where
  "journal_events R es = concat (map (vec_events R) es)"

lemma journal_events_simps [simp]:
  "journal_events R [] = []" "journal_events R (e # es) = vec_events R e @ journal_events R es"
  "journal_events R (es @ es') = journal_events R es @ journal_events R es'"
  by (simp_all add: journal_events_def)

text \<open>Terms that are read are in order.\<close>

lemma read_terms_ok:
  "read_terms R n prev bs = Got ts r \<Longrightarrow> terms_ok ts \<and> (\<forall>p. prev = Some p \<longrightarrow> (\<forall>t \<in> set ts. p < Term t))"
proof (induction n arbitrary: prev bs ts r)
  case 0
  then show ?case by (simp add: terms_ok_def)
next
  case (Suc n)
  from Suc.prems obtain t r1 where 1: "readStr R bs = Got t r1" by (cases "readStr R bs") simp_all
  with Suc.prems obtain tf r2 where 2: "getU16 r1 = Got tf r2" by (cases "getU16 r1") simp_all
  have ne: "t \<noteq> []" "tf \<noteq> 0" "\<not> (case prev of None \<Rightarrow> False | Some p \<Rightarrow> t \<le> p)" using Suc.prems 1 2 by (auto split: if_splits)
  with Suc.prems 1 2 obtain ts' r3 where 3: "read_terms R n (Some t) r2 = Got ts' r3" by (cases "read_terms R n (Some t) r2") simp_all
  with Suc.prems 1 2 ne have ts: "ts = \<lparr>Term = t, TF = tf\<rparr> # ts'" by simp
  from Suc.IH[OF 3] have ih: "terms_ok ts'" "\<forall>u \<in> set ts'. t < Term u" by simp_all
  have "p < t" if "prev = Some p" for p using ne(3) that by simp
  with ih(2) have "\<forall>p. prev = Some p \<longrightarrow> (\<forall>u \<in> set ts. p < Term u)" unfolding ts by fastforce
  moreover have "terms_ok ts" using ih ne(1,2) unfolding ts terms_ok_def by (auto simp: order.strict_implies_order)
  ultimately show ?case by blast
qed

lemma readTerms_ok: "readTerms R bs = Got ts r \<Longrightarrow> terms_ok ts"
proof -
  assume a: "readTerms R bs = Got ts r"
  then obtain n r1 where n: "getU32 bs = Got n r1" by (cases "getU32 bs") (simp_all add: readTerms_def)
  show "terms_ok ts"
  proof (cases "n = 0")
    case True
    with a n show ?thesis by (simp add: readTerms_def terms_ok_def)
  next
    case False
    then have "read_terms R (unat n) None r1 = Got ts r"
      using a n by (simp add: readTerms_def needBytes_def go_make_def split: if_splits)
    then show ?thesis using read_terms_ok by blast
  qed
qed

lemma rbind_Got: "rbind m f = Got x r \<Longrightarrow> \<exists>y r'. m = Got y r' \<and> f y r' = Got x r"
  by (cases m) simp_all

lemma WithDoc_terms: "DeserializeVectorWithDoc R bs = Got (vec, a, ts) r \<Longrightarrow> terms_ok ts"
  unfolding DeserializeVectorWithDoc_def Let_def by (auto dest!: rbind_Got intro: readTerms_ok)

lemma read_doc_terms: "read_doc R bs = Got d r \<Longrightarrow> terms_ok (Terms d)"
proof -
  assume "read_doc R bs = Got d r"
  then obtain blob v a ts left where "DeserializeVectorWithDoc R blob = Got (v, a, ts) left" "Terms d = ts"
    unfolding read_doc_def by (auto dest!: rbind_Got simp: go_make_def split: if_splits rres.splits prod.splits)
  with WithDoc_terms show ?thesis by blast
qed

lemma read_n_all: "(\<And>bs x r. rd bs = Got x r \<Longrightarrow> I x) \<Longrightarrow> read_n rd n bs = Got xs r \<Longrightarrow> \<forall>x \<in> set xs. I x"
proof (induction n arbitrary: bs xs r)
  case (Suc n)
  from Suc.prems(2) obtain x r1 xs' r2 where "rd bs = Got x r1" "read_n rd n r1 = Got xs' r2" "xs = x # xs'"
    by (auto dest!: rbind_Got)
  with Suc show ?case by auto
qed simp

lemma DocBatch_terms: "DeserializeDocBatch R bs = Got ds r \<Longrightarrow> \<forall>d \<in> set ds. terms_ok (Terms d)"
proof -
  assume "DeserializeDocBatch R bs = Got ds r"
  then obtain n r1 where "read_n (read_doc R) n r1 = Got ds r"
    unfolding DeserializeDocBatch_def by (auto dest!: rbind_Got simp: go_make_def split: if_splits)
  then show ?thesis using read_n_all[where I = "\<lambda>d. terms_ok (Terms d)"] read_doc_terms by blast
qed

lemma add_batch_step:
  assumes "\<forall>d \<in> set ds. terms_ok (Terms d)" "vinv v"
  shows "vinv (add_batch E ds v) \<and>
    vs_abs (add_batch E ds v) = fold spec_step (map (\<lambda>d. EAdd (delta_entry.Key d) (Vec d) (Attrs d) (Terms d)) ds) (vs_abs v)"
  using assms
proof (induction ds arbitrary: v)
  case (Cons d ds)
  obtain err v1 where v1: "addEntry E (delta_entry.Key d) (Vec d) (Attrs d) (Terms d) v = (err, v1)" by fastforce
  from addEntry_step[OF Cons.prems(2) _ v1] Cons.prems(1)
  have "vinv v1" "vs_abs v1 = spec_step (EAdd (delta_entry.Key d) (Vec d) (Attrs d) (Terms d)) (vs_abs v)" by simp_all
  with Cons.IH[of v1] Cons.prems(1) v1 show ?case by (simp add: add_batch_def)
qed (simp add: add_batch_def)

text \<open>Replaying one record does to the documents what the record means. Its deadline, if it is one, is ahead, and it is
  not covered by a snapshot of the vectors.\<close>

definition fresh_rec :: "int \<Rightarrow> entry \<Rightarrow> bool" where
  "fresh_rec W e \<longleftrightarrow> Op e \<noteq> OpExpire \<or> length (Value e) \<noteq> 8 \<or> remaining W (Value e) > 0"

lemma one_add:
  assumes "vinv v" "terms_ok ts"
  shows "vinv (snd (addEntry E k vec a ts v)) \<and> vs_abs (snd (addEntry E k vec a ts v)) = fold spec_step [EAdd k vec a ts] (vs_abs v)"
proof -
  obtain err v1 where "addEntry E k vec a ts v = (err, v1)" by fastforce
  with addEntry_step[OF assms this] show ?thesis by simp
qed

lemma one_delete:
  assumes "vinv v"
  shows "vinv (snd (vs_Delete k v)) \<and> vs_abs (snd (vs_Delete k v)) = fold spec_step [EDelete k] (vs_abs v)"
proof -
  obtain f v1 where "vs_Delete k v = (f, v1)" by fastforce
  with delete_step[OF assms this] show ?thesis by simp
qed

lemma terms_ok_Nil [simp]: "terms_ok []"
  by (simp add: terms_ok_def)

abbreviation ap_vec :: "vstore applier \<Rightarrow> vstore" where "ap_vec a \<equiv> svec (ap_srv a)"

lemma watermark_steps: "vecWatermark (count1 a) = vecWatermark a" "vecWatermark (with_srv a f) = vecWatermark a"
  "vecWatermark (apply_vec V e a r) = vecWatermark a"
  by (simp_all add: count1_def with_srv_def apply_vec_def split: option.splits)

lemma watermark_kept [simp]: "vecWatermark (apply_entry V W M snap e a) = vecWatermark a"
  unfolding apply_entry_def Let_def if_distrib[of vecWatermark] watermark_steps
  by (simp add: watermark_steps split: option.split)

lemma vec_free [simp]:
  "svec (put_zset s z) = svec s" "svec (snd (srv_zadd s n sc m)) = svec s" "svec (snd (srv_zrem s n m)) = svec s"
  "svec (del_kv k s) = svec s" "svec (del_ttl k s) = svec s"
  by (simp_all add: put_zset_def srv_zadd_def srv_zrem_def del_kv_def del_ttl_def split: option.splits prod.splits)

lemma replay_entry:
  assumes inv: "vinv (ap_vec a)" and lsn: "vecWatermark a < LSN e" and fresh: "fresh_rec W e"
  shows "vinv (ap_vec (apply_entry (vector_ops R E) W M False e a)) \<and>
    vs_abs (ap_vec (apply_entry (vector_ops R E) W M False e a)) = fold spec_step (vec_events R e) (vs_abs (ap_vec a))"
proof -
  have skip: "\<not> skipVec a e False" using lsn by (simp add: skipVec_def shouldSkipVecReplay_def)
  consider (add) "Op e = OpVSimAdd" | (attrs) "Op e = OpVSimAddAttrs" | (doc) "Op e = OpVSimAddDoc" | (batch) "Op e = OpVSimAddDocBatch"
    | (vdel) "Op e = OpVSimDel" | (del) "Op e = OpDel" | (expire) "Op e = OpExpire"
    | (other) "Op e \<notin> {OpVSimAdd, OpVSimAddAttrs, OpVSimAddDoc, OpVSimAddDocBatch, OpVSimDel, OpDel, OpExpire}" by blast
  then show ?thesis
  proof cases
    case add
    then show ?thesis using one_add[OF inv terms_ok_Nil] skip
      by (simp add: apply_entry_def vec_events_def apply_vec_def vector_ops_def Let_def op_defs)
  next
    case attrs
    then show ?thesis using one_add[OF inv terms_ok_Nil] skip inv
      by (cases "DeserializeVectorWithAttrs R (Value e)")
        (auto simp: apply_entry_def vec_events_def apply_vec_def vector_ops_def Let_def op_defs)
  next
    case doc
    then show ?thesis using one_add[OF inv WithDoc_terms] skip inv
      by (cases "DeserializeVectorWithDoc R (Value e)")
        (auto simp: apply_entry_def vec_events_def apply_vec_def vector_ops_def Let_def op_defs)
  next
    case batch
    then show ?thesis using add_batch_step[OF DocBatch_terms inv] skip inv
      by (cases "DeserializeDocBatch R (Value e)")
        (auto simp: apply_entry_def vec_events_def apply_vec_def vector_ops_def Let_def op_defs)
  next
    case vdel
    then show ?thesis using one_delete[OF inv] skip
      by (simp add: apply_entry_def vec_events_def del_vec_def vector_ops_def Let_def op_defs)
  next
    case del
    then show ?thesis using one_delete[OF inv] skip
      by (simp add: apply_entry_def vec_events_def del_vec_def vector_ops_def Let_def op_defs)
  next
    case expire
    then show ?thesis using inv fresh
      by (auto simp: apply_entry_def vec_events_def Let_def op_defs fresh_rec_def)
  next
    case other
    then show ?thesis using inv
      by (auto simp: apply_entry_def vec_events_def Let_def split: option.splits)
  qed
qed

section \<open>What a command writes\<close>

text \<open>The records appended mean what the command has done to the documents.\<close>

definition vec_does :: "rd_env \<Rightarrow> vsrv \<Rightarrow> vsrv \<Rightarrow> bool" where
  "vec_does R s s' \<longleftrightarrow> vinv (svec s') \<and>
     (\<exists>js. jr s' = jr s @ js \<and> vs_abs (svec s') = fold spec_step (journal_events R js) (vs_abs (svec s)))"

text \<open>Nothing to the vectors.\<close>

definition plain :: "rd_env \<Rightarrow> vsrv \<Rightarrow> vsrv \<Rightarrow> bool" where
  "plain R s s' \<longleftrightarrow> svec s' = svec s \<and> (\<exists>js. jr s' = jr s @ js \<and> journal_events R js = [])"

lemma plain_does: "vinv (svec s) \<Longrightarrow> plain R s s' \<Longrightarrow> vec_does R s s'"
  unfolding plain_def vec_does_def by (metis fold_simps(1))

lemma plain_refl [simp]: "plain R s s"
  by (simp add: plain_def)

lemma plain_trans: "plain R s s1 \<Longrightarrow> plain R s1 s2 \<Longrightarrow> plain R s s2"
  unfolding plain_def by (metis append.assoc append_Nil journal_events_simps(3))

lemma does_plain: "vec_does R s s1 \<Longrightarrow> plain R s1 s2 \<Longrightarrow> vec_does R s s2"
  unfolding plain_def vec_does_def by (metis append.assoc append_Nil2 journal_events_simps(3))

lemma plain_write: "op \<in> {OpSet, OpExpire, OpPersist, OpZAdd, OpZRem} \<Longrightarrow> plain R s (jwrite s op k v)"
  by (auto simp: plain_def vec_events_def op_defs Let_def)

lemma plain_update [simp]:
  "plain R s (s\<lparr>skv := k\<rparr>)" "plain R s (s\<lparr>sttl := t\<rparr>)" "plain R s (s\<lparr>szset := z\<rparr>)" "plain R s (forwardWrite E s l)" "plain R s (put_zset s y)"
  by (simp_all add: plain_def forwardWrite_def put_zset_def split: option.splits)

lemma plain_set: "plain R s (snd (cmdSet E s args))"
proof -
  have "plain R s (setClearTTL s k)" for s :: vsrv and k
    using plain_trans[OF plain_update(2) plain_write[of OpPersist]] by (simp add: setClearTTL_def Let_def split: prod.splits)
  moreover have "plain R s (let s' = writeExpire E s k d in s'\<lparr>sttl := f s'\<rparr>)" for s :: vsrv and k d f
    using plain_trans[OF plain_write[of OpExpire] plain_update(2)] by (simp add: writeExpire_def Let_def)
  moreover have "plain R s (forwardWrite E ((jwrite s OpSet k v)\<lparr>skv := f\<rparr>) l)" for k v f l
    using plain_trans[OF plain_trans[OF plain_write[of OpSet] plain_update(1)] plain_update(4)] by simp
  ultimately have "plain R s (let s' = writeExpire E (forwardWrite E ((jwrite s OpSet k v)\<lparr>skv := f\<rparr>) l) k d in s'\<lparr>sttl := g s'\<rparr>)"
      "plain R s (setClearTTL (forwardWrite E ((jwrite s OpSet k v)\<lparr>skv := f\<rparr>) l) k)" for k v f l d g
    using plain_trans by blast+
  then show ?thesis
    by (auto simp: cmdSet_def Let_def split: option.splits sum.splits)
qed

lemma plain_others:
  "plain R s (snd (cmdExpire E s args))" "plain R s (snd (cmdPersist E s args))"
  "plain R s (snd (cmdZAdd E s args))" "plain R s (snd (cmdZRem s args))"
proof -
  have w: "plain R s (writeExpire E s k d)" for k d by (simp add: writeExpire_def plain_write)
  show "plain R s (snd (cmdExpire E s args))"
    using plain_trans[OF w plain_update(2)] by (auto simp: cmdExpire_def Let_def split: option.splits)
  show "plain R s (snd (cmdPersist E s args))"
    using plain_trans[OF plain_update(2) plain_write[of OpPersist]]
    by (auto simp: cmdPersist_def Let_def split: option.splits prod.splits)
  have z: "plain R s s1" if "srv_zadd s n sc m = (b, s1)" for n sc m b s1
    using that by (auto simp: srv_zadd_def split: option.splits prod.splits)
  show "plain R s (snd (cmdZAdd E s args))"
    using plain_trans[OF z plain_write[of OpZAdd]] by (auto simp: cmdZAdd_def Let_def split: option.splits prod.splits)
  have y: "plain R s s1" if "srv_zrem s n m = (b, s1)" for n m b s1
    using that by (auto simp: srv_zrem_def split: prod.splits)
  show "plain R s (snd (cmdZRem s args))"
    using plain_trans[OF y plain_write[of OpZRem]] y by (auto simp: cmdZRem_def split: prod.splits)
qed

text \<open>Deletions: a key that was not there is left as it is.\<close>

definition real_delete :: "vstore env \<Rightarrow> bool" where
  "real_delete E \<longleftrightarrow> vecDelete E = (\<lambda>v key. vs_Delete key v)"

lemma delete_does:
  assumes inv: "vinv (svec s)" and d: "vs_Delete key (svec s) = (found, v)" and s1: "s1 = s\<lparr>skv := k, svec := v\<rparr>"
  shows "vec_does R s (if found then jwrite s1 OpVSimDel key [] else s1)" "vec_does R s (jwrite s1 OpVSimDel key [])"
    "vec_does R s (jwrite s1 OpDel key [])"
proof -
  note st = delete_step[OF inv d]
  have "vs_abs v = vs_abs (svec s)" if "\<not> found"
  proof -
    have "vs_doc (svec s) key = None" using st(3) that by blast
    then show ?thesis using st(2) by (simp add: vs_abs_def fun_upd_idem del: split_paired_All)
  qed
  then show "vec_does R s (if found then jwrite s1 OpVSimDel key [] else s1)" "vec_does R s (jwrite s1 OpVSimDel key [])"
    "vec_does R s (jwrite s1 OpDel key [])"
    using st(1,2) by (auto simp: vec_does_def s1 vec_events_def op_defs Let_def)
qed

lemma expired_does:
  assumes inv: "vinv (svec s)" and E: "real_delete E" and t: "ttl_inv (sttl s)" and m: "mono E \<le> mono2 E"
  shows "vec_does R s (snd (srv_isExpired E s key))"
proof -
  obtain bk k where k: "kv_del (skv s) key = (bk, k)" by fastforce
  obtain found v where d: "vs_Delete key (svec s) = (found, v)" by fastforce
  have "snd (compositeEvictor_Del E s key) =
      (if found then jwrite (s\<lparr>skv := k, svec := v\<rparr>) OpVSimDel key [] else s\<lparr>skv := k, svec := v\<rparr>)"
    using E by (simp add: compositeEvictor_Del_def k d real_delete_def Let_def)
  with delete_does(1)[OF inv d refl, of R k] have del: "vec_does R s (snd (compositeEvictor_Del E s key))" by simp
  have "snd (srv_isExpired E s key) = s\<lparr>sttl := sttl s\<rparr> \<or>
      snd (srv_isExpired E s key) = (snd (compositeEvictor_Del E s key))\<lparr>sttl := onDelete (sttl s) key\<rparr>"
    unfolding srv_isExpired_def expired_spec[OF t m] by (auto split: option.splits)
  then show ?thesis using does_plain[OF del plain_update(2)] plain_does[OF inv] by auto
qed

lemma del_does:
  assumes inv: "vinv (svec s)" and E: "real_delete E"
  shows "vec_does R s (snd (cmdDel E s args))"
proof -
  obtain bk k where k: "kv_del (skv s) (args ! 0) = (bk, k)" by fastforce
  obtain found v where d: "vs_Delete (args ! 0) (svec s) = (found, v)" by fastforce
  have "(jwrite s OpDel (args ! 0) [])\<lparr>skv := k, svec := v\<rparr> = jwrite (s\<lparr>skv := k, svec := v\<rparr>) OpDel (args ! 0) []"
    by (simp add: jwrite_def)
  with delete_does(3)[OF inv d refl, of R k] have "vec_does R s ((jwrite s OpDel (args ! 0) [])\<lparr>skv := k, svec := v\<rparr>)" by simp
  from does_plain[OF does_plain[OF this plain_update(2)] plain_update(4)] show ?thesis
    using E plain_does[OF inv plain_refl] k d by (auto simp: cmdDel_def Let_def real_delete_def split: option.splits)
qed

text \<open>An insertion that is refused leaves the store as it is.\<close>

lemma refused_same:
  assumes "addEntry E key vec a ts v = (Some e, v')"
  shows "v' = v"
  using assms unfolding addEntry_def initDelta_def
  by (cases "v_delta v") (auto simp: Let_def split: option.splits if_splits prod.splits)

lemma spec_add_view: "attr_view a = attr_view a' \<Longrightarrow> spec_step (EAdd key vec a ts) sp = spec_step (EAdd key vec a' ts) sp"
  by (cases sp) simp

definition records_as :: "rd_env \<Rightarrow> 8 word \<Rightarrow> bytes \<Rightarrow> bytes \<Rightarrow> f32 list \<Rightarrow> attributes \<Rightarrow> term_tf list \<Rightarrow> bool" where
  "records_as R op key value vec a ts \<longleftrightarrow>
     (\<exists>a'. vec_events R \<lparr>LSN = 0, Op = op, Key = key, Value = value\<rparr> = [EAdd key vec a' ts] \<and> attr_view a' = attr_view a)"

lemma store_doc_does:
  assumes inv: "vinv (svec s)" and ts: "terms_ok ts" and r: "records_as R op key value vec a ts"
  shows "vec_does R s (snd (store_doc P s key vec a ts op value))"
proof (cases "ValidateKey key = None \<and> ValidateVector vec = None")
  case False
  then have "snd (store_doc P s key vec a ts op value) = s" by (auto simp: store_doc_def split: option.splits)
  then show ?thesis using plain_does[OF inv plain_refl] by simp
next
  case True
  obtain err v where res: "addEntry (vn_store P) key vec a ts (svec s) = (err, v)" by fastforce
  note st = addEntry_step[OF inv ts res]
  show ?thesis
  proof (cases err)
    case None
    from r obtain a' where a': "vec_events R \<lparr>LSN = 0, Op = op, Key = key, Value = value\<rparr> = [EAdd key vec a' ts]" "attr_view a' = attr_view a"
      unfolding records_as_def by blast
    have "vs_abs v = fold spec_step [EAdd key vec a' ts] (vs_abs (svec s))"
      using st(2) spec_add_view[OF a'(2)] by simp
    then show ?thesis using True None res st(1) a'(1) by (auto simp: store_doc_def vec_does_def)
  next
    case (Some e)
    with refused_same res have "v = svec s" by simp
    then show ?thesis using True Some res plain_does[OF inv plain_refl] by (simp add: store_doc_def)
  qed
qed

text \<open>The records of the four insertions.\<close>

lemma records_bin: "records_as R OpVSimAdd key value (DeserializeVector value) no_attrs []"
  by (simp add: records_as_def vec_events_def Let_def)

lemma records_add: "records_as R OpVSimAdd key (SerializeVector vec) vec no_attrs []"
  by (simp add: records_as_def vec_events_def Let_def DeserializeVector_write)

lemma records_attrs:
  "len_fits R vec \<Longrightarrow> attrs_fit R a \<Longrightarrow> records_as R OpVSimAddAttrs key (SerializeVectorWithAttrs vec a) vec a []"
  by (simp add: records_as_def vec_events_def Let_def op_defs DeserializeVectorWithAttrs_write canon_view)

lemma records_doc:
  "doc_fits R vec a ts \<Longrightarrow> records_as R OpVSimAddDoc key (SerializeVectorWithDoc vec a ts) vec a ts"
  by (simp add: records_as_def vec_events_def Let_def op_defs DeserializeVectorWithDoc_write)
    (auto simp: doc_fits_def intro: canon_view)

text \<open>What is parsed out of short arguments is short.\<close>

lemma parse_vec_length: "parse_vec P i as = Inr vec \<Longrightarrow> length vec = length as"
  by (induction as arbitrary: i vec) (auto split: option.splits sum.splits)

lemma vec_section_length: "vec_section P as = Inr vec \<Longrightarrow> length vec = length as"
  by (auto simp: vec_section_def dest: parse_vec_length split: sum.splits)

definition attrs_within :: "rd_env \<Rightarrow> nat \<Rightarrow> attributes \<Rightarrow> bool" where
  "attrs_within R m a \<longleftrightarrow> keys_distinct (Cat a) \<and> keys_distinct (Num a) \<and> length (Cat a) \<le> m \<and> length (Num a) \<le> m \<and>
     (\<forall>(n, v) \<in> set (Cat a). len_fits R n \<and> len_fits R v) \<and> (\<forall>(n, v) \<in> set (Num a). len_fits R n)"

lemma within_no_attrs [simp]: "attrs_within R m no_attrs"
  by (simp add: attrs_within_def no_attrs_def)

lemma within_mono: "attrs_within R m a \<Longrightarrow> m \<le> m' \<Longrightarrow> attrs_within R m' a"
  by (auto simp: attrs_within_def)

lemma update_length: "length (AList.update k v m) \<le> Suc (length m)"
  by (induction m) auto

lemma within_cat:
  assumes "attrs_within R m a" "len_fits R n" "len_fits R v"
  shows "attrs_within R (Suc m) (a\<lparr>Cat := AList.update n v (Cat a)\<rparr>)"
  using assms update_subset[of n v "Cat a"] update_length[of n v "Cat a"] by (fastforce simp: attrs_within_def)

lemma within_num:
  assumes "attrs_within R m a" "len_fits R n"
  shows "attrs_within R (Suc m) (a\<lparr>Num := AList.update n x (Num a)\<rparr>)"
  using assms update_subset[of n x "Num a"] update_length[of n x "Num a"] by (fastforce simp: attrs_within_def)

lemma addattr_within:
  "parse_addattr P as a = Inr (a', vec) \<Longrightarrow> attrs_within R m a \<Longrightarrow> list_all (len_fits R) as \<Longrightarrow>
    attrs_within R (m + length as) a' \<and> length vec \<le> length as"
proof (induction P as a arbitrary: m a' vec rule: parse_addattr.induct)
  case (1 P a)
  then show ?case by simp
next
  case (2 P t as a)
  consider (cat) "vn_upper P t = ''CAT''" | (num) "vn_upper P t = ''NUM''" | (vec) "vn_upper P t = ''VEC''"
    | (other) "vn_upper P t \<notin> {''CAT'', ''NUM'', ''VEC''}" by blast
  then show ?case
  proof cases
    case cat
    with "2.prems"(1) obtain n v as' where as: "as = n # v # as'" and p: "parse_addattr P as' (a\<lparr>Cat := AList.update n v (Cat a)\<rparr>) = Inr (a', vec)"
      by (auto split: list.splits)
    from "2.IH"(1)[OF cat as refl p within_cat[OF "2.prems"(2)]] "2.prems"(3) as show ?thesis by (auto elim: within_mono)
  next
    case num
    with "2.prems"(1) obtain n v as' x where as: "as = n # v # as'" and x: "float_arg P v = Some x"
      and p: "parse_addattr P as' (a\<lparr>Num := AList.update n x (Num a)\<rparr>) = Inr (a', vec)"
      by (auto split: list.splits option.splits)
    have "vn_upper P t \<noteq> ''CAT''" using num by simp
    from "2.IH"(2)[OF this num as refl x p within_num[OF "2.prems"(2)]] "2.prems"(3) as show ?thesis by (auto elim: within_mono)
  next
    case vec
    with "2.prems"(1) obtain w where "vec_section P as = Inr w" "a' = a" "vec = w" by (cases "vec_section P as") auto
    with vec_section_length[of P as w] "2.prems"(2) show ?thesis by (auto elim: within_mono)
  next
    case other
    with "2.prems"(1) show ?thesis by simp
  qed
qed

definition doc_within :: "rd_env \<Rightarrow> nat \<Rightarrow> bytes set \<Rightarrow> doc_args \<Rightarrow> bool" where
  "doc_within R m S d \<longleftrightarrow> attrs_within R m (da_attrs d) \<and> length (da_vec d) \<le> m \<and> da_text d \<in> S \<and> da_title d \<in> S"

lemma adddoc_within:
  "parse_adddoc P as d = Inr d' \<Longrightarrow> doc_within R m S d \<Longrightarrow> list_all (len_fits R) as \<Longrightarrow> set as \<subseteq> S \<Longrightarrow>
    doc_within R (m + length as) S d'"
proof (induction P as d arbitrary: m d' rule: parse_adddoc.induct)
  case (1 P d)
  then show ?case by simp
next
  case (2 P t as d)
  note p = "2.prems"
  have mono: "doc_within R k S x \<Longrightarrow> k \<le> m + length (t # as) \<Longrightarrow> doc_within R (m + length (t # as)) S x" for k x
    by (auto simp: doc_within_def elim: within_mono)
  consider (body) "vn_upper P t = ''TEXT''" | (title) "vn_upper P t = ''TITLE''" | (cat) "vn_upper P t = ''CAT''"
    | (num) "vn_upper P t = ''NUM''" | (vec) "vn_upper P t = ''VEC''"
    | (other) "vn_upper P t \<notin> {''TEXT'', ''TITLE'', ''CAT'', ''NUM'', ''VEC''}" by blast
  then show ?case
  proof cases
    case body
    with p(1) obtain x as' where as: "as = x # as'" and e: "parse_adddoc P as' (d\<lparr>da_text := x, da_seen := True\<rparr>) = Inr d'"
      by (auto split: list.splits)
    have "doc_within R m S (d\<lparr>da_text := x, da_seen := True\<rparr>)" using p(2,4) as by (simp add: doc_within_def)
    from "2.IH"(1)[OF body as e this] p(3,4) as have "doc_within R (m + length as') S d'" by simp
    then show ?thesis by (rule mono) (simp add: as)
  next
    case title
    with p(1) obtain x as' where as: "as = x # as'" and e: "parse_adddoc P as' (d\<lparr>da_title := x\<rparr>) = Inr d'"
      by (auto split: list.splits)
    have "doc_within R m S (d\<lparr>da_title := x\<rparr>)" using p(2,4) as by (simp add: doc_within_def)
    from "2.IH"(2)[OF _ title as e this] p(3,4) as title have "doc_within R (m + length as') S d'" by simp
    then show ?thesis by (rule mono) (simp add: as)
  next
    case cat
    let ?d = "\<lambda>n v. d\<lparr>da_attrs := (da_attrs d)\<lparr>Cat := AList.update n v (Cat (da_attrs d))\<rparr>\<rparr>"
    from cat p(1) obtain n v as' where as: "as = n # v # as'" and e: "parse_adddoc P as' (?d n v) = Inr d'"
      by (auto split: list.splits)
    have "doc_within R (Suc m) S (?d n v)"
      using p(2,3) within_cat[of R m "da_attrs d" n v] as by (simp add: doc_within_def)
    from "2.IH"(3)[OF _ _ cat as refl e this] p(3,4) as cat have "doc_within R (Suc m + length as') S d'" by simp
    then show ?thesis by (rule mono) (simp add: as)
  next
    case num
    let ?d = "\<lambda>n x. d\<lparr>da_attrs := (da_attrs d)\<lparr>Num := AList.update n x (Num (da_attrs d))\<rparr>\<rparr>"
    from num p(1) obtain n v as' x where as: "as = n # v # as'" and x: "float_arg P v = Some x" and e: "parse_adddoc P as' (?d n x) = Inr d'"
      by (auto split: list.splits option.splits)
    have "doc_within R (Suc m) S (?d n x)"
      using p(2,3) within_num[of R m "da_attrs d" n x] as by (simp add: doc_within_def)
    from "2.IH"(4)[OF _ _ _ num as refl x e this] p(3,4) as num have "doc_within R (Suc m + length as') S d'" by simp
    then show ?thesis by (rule mono) (simp add: as)
  next
    case vec
    with p(1) obtain w where w: "vec_section P as = Inr w" "d' = d\<lparr>da_vec := w\<rparr>" by (cases "vec_section P as") auto
    then have "doc_within R (m + length (t # as)) S (d\<lparr>da_vec := w\<rparr>)"
      using vec_section_length[OF w(1)] p(2) by (auto simp: doc_within_def elim: within_mono)
    with w(2) show ?thesis by simp
  next
    case other
    with p(1) show ?thesis by simp
  qed
qed

text \<open>The arguments of a command: short enough for the counters of a record, like the terms cut out of them.\<close>

definition args_fit :: "rd_env \<Rightarrow> vec_env \<Rightarrow> bytes list \<Rightarrow> bool" where
  "args_fit R P args \<longleftrightarrow> len_fits R args \<and> list_all (len_fits R) args \<and>
     list_all (\<lambda>title. list_all (\<lambda>x. terms_fit R (TokenizeDocTitled (vn_text P) title x)) ([] # args)) ([] # args)"

lemma within_fit: "attrs_within R m a \<Longrightarrow> m < 2 ^ 32 \<Longrightarrow> m \<le> big R \<Longrightarrow> attrs_fit R a"
  by (auto simp: attrs_within_def attrs_fit_def len_fits_def)

lemma forward_does: "vec_does R s (snd r) \<Longrightarrow> vec_does R s (snd (forward_add P key vec r))"
  by (auto simp: forward_add_def intro: does_plain)

lemma addbin_does:
  assumes "vinv (svec s)"
  shows "vec_does R s (snd (cmdVSimAddBin P s args))"
  using forward_does[OF store_doc_does[OF assms terms_ok_Nil records_bin]] plain_does[OF assms plain_refl]
  by (auto simp: cmdVSimAddBin_def Let_def split: option.splits)

lemma add_does:
  assumes "vinv (svec s)"
  shows "vec_does R s (snd (cmdVSimAdd P s args))"
  using forward_does[OF store_doc_does[OF assms terms_ok_Nil records_add]] plain_does[OF assms plain_refl]
  by (auto simp: cmdVSimAdd_def split: option.splits sum.splits)

lemma parsed_attrs_fit:
  assumes fit: "args_fit R P args" and parse: "parse_addattr P (tl args) no_attrs = Inr (a, vec)"
  shows "len_fits R vec" "attrs_fit R a"
proof -
  have "list_all (len_fits R) (tl args)" using fit by (cases args) (auto simp: args_fit_def)
  from addattr_within[OF parse within_no_attrs this, of 0] have w: "attrs_within R (length (tl args)) a" "length vec \<le> length (tl args)" by simp_all
  have m: "length (tl args) < 2 ^ 32" "length (tl args) \<le> big R" using fit by (auto simp: args_fit_def len_fits_def)
  show "len_fits R vec" "attrs_fit R a" using within_fit[OF w(1) m] w(2) m by (auto simp: len_fits_def)
qed

lemma addattr_does:
  assumes inv: "vinv (svec s)" and fit: "args_fit R P args"
  shows "vec_does R s (snd (cmdVSimAddAttr P s args))"
proof (cases "parse_addattr P (tl args) no_attrs")
  case (Inl e)
  then show ?thesis using plain_does[OF inv plain_refl] by (auto simp: cmdVSimAddAttr_def split: option.splits)
next
  case (Inr r)
  obtain a vec where r: "r = (a, vec)" by fastforce
  from store_doc_does[OF inv terms_ok_Nil records_attrs[OF parsed_attrs_fit[OF fit Inr[unfolded r]]]] Inr r plain_does[OF inv plain_refl]
  show ?thesis by (auto simp: cmdVSimAddAttr_def split: option.splits)
qed

lemma parsed_doc_fits:
  assumes fit: "args_fit R P args" and parse: "parse_adddoc P (tl args) no_doc = Inr d"
  shows "doc_fits R (da_vec d) (da_attrs d) (TokenizeDocTitled (vn_text P) (da_title d) (da_text d))"
proof -
  have "list_all (len_fits R) (tl args)" using fit by (cases args) (auto simp: args_fit_def)
  moreover have "set (tl args) \<subseteq> set ([] # args)" by (cases args) auto
  moreover have "doc_within R 0 (set ([] # args)) no_doc" by (simp add: doc_within_def no_doc_def)
  ultimately have w: "doc_within R (length (tl args)) (set ([] # args)) d" using adddoc_within[OF parse, of R 0 "set ([] # args)"] by simp
  have m: "length (tl args) < 2 ^ 32" "length (tl args) \<le> big R" using fit by (auto simp: args_fit_def len_fits_def)
  have "terms_fit R (TokenizeDocTitled (vn_text P) (da_title d) (da_text d))"
    using fit w unfolding args_fit_def doc_within_def list_all_iff by blast
  moreover have "attrs_fit R (da_attrs d)" "len_fits R (da_vec d)"
    using w within_fit[of R _ "da_attrs d", OF _ m] m by (auto simp: len_fits_def doc_within_def)
  ultimately show ?thesis by (simp add: doc_fits_def)
qed

lemma adddoc_does:
  assumes inv: "vinv (svec s)" and fit: "args_fit R P args"
  shows "vec_does R s (snd (cmdVSimAddDoc P s args))"
proof (cases "parse_adddoc P (tl args) no_doc")
  case (Inl e)
  then show ?thesis using plain_does[OF inv plain_refl] by (auto simp: cmdVSimAddDoc_def split: option.splits)
next
  case (Inr d)
  note fits = parsed_doc_fits[OF fit Inr]
  then have ok: "terms_ok (TokenizeDocTitled (vn_text P) (da_title d) (da_text d))" by (simp add: doc_fits_def terms_fit_def)
  show ?thesis
    using Inr store_doc_does[OF inv ok records_doc[OF fits]] plain_does[OF inv plain_refl]
    by (auto simp: cmdVSimAddDoc_def Let_def split: option.splits)
qed

lemma vdel_does:
  assumes inv: "vinv (svec s)"
  shows "vec_does R s (snd (cmdVSimDel P s args))"
proof -
  obtain found v where d: "vs_Delete (args ! 0) (svec s) = (found, v)" by fastforce
  have up: "s\<lparr>svec := v\<rparr> = s\<lparr>skv := skv s, svec := v\<rparr>" by simp
  note del = delete_does(1)[OF inv d up, of R]
  show ?thesis
    using del does_plain[OF del plain_update(4)] d plain_does[OF inv plain_refl]
    by (cases found) (auto simp: cmdVSimDel_def split: option.splits)
qed

section \<open>Runs of the server\<close>

text \<open>While \<open>INFO\<close> waits, the coordinator and its goroutines run.\<close>

definition beside_ok :: "venv \<Rightarrow> sync_event list \<Rightarrow> vstore \<Rightarrow> bool" where
  "beside_ok V xs v \<longleftrightarrow> sync_orderly V (Call # xs) (v, NotCalled) \<and> list_all (\<lambda>ev. \<not> is_write ev) (store_events xs)"

lemma info_does:
  assumes env: "env_ok (vn_store P)" and inv: "vinv (svec s)" and ok: "beside_ok (vn_store P) (vn_beside P) (svec s)"
  shows "vec_does R s (snd (cmdVSimInfo P s args))"
proof -
  have "filter is_write (store_events (vn_beside P)) = []" using ok by (simp add: beside_ok_def list_all_iff filter_empty_conv)
  then have none: "fold spec_step (store_events (vn_beside P)) sp = sp" for sp using spec_writes[of "store_events (vn_beside P)" sp] by simp
  obtain v b where v: "flush_call (vn_store P) (vn_beside P) (svec s) = (v, b)" by fastforce
  have "vinv v \<and> vs_abs v = vs_abs (svec s)"
  proof (cases "sync_run (vn_store P) (Call # vn_beside P) (svec s, NotCalled)")
    case None
    with v inv show ?thesis by (simp add: flush_call_def)
  next
    case (Some r)
    obtain v' w where r: "r = (v', w)" by fastforce
    have "sync_orderly (vn_store P) (Call # vn_beside P) (svec s, NotCalled)" using ok by (simp add: beside_ok_def)
    from sync_refines[OF env inv this Some[unfolded r]] none have "vinv v'" "vs_abs v' = vs_abs (svec s)" by simp_all
    moreover have "v = v'" using v Some r by (simp add: flush_call_def)
    ultimately show ?thesis by simp
  qed
  then have "vec_does R s (s\<lparr>svec := v\<rparr>)" by (auto simp: vec_does_def intro!: exI[of _ "[]"])
  then show ?thesis using v by (simp add: cmdVSimInfo_def split: prod.splits)
qed

text \<open>The dispatcher with the vector commands in place of its parameter, and the deletion by the store in place of the
  parameter of the other commands.\<close>

definition with_vectors :: "vstore disp \<Rightarrow> venv \<Rightarrow> vec_env \<Rightarrow> vstore disp" where
  "with_vectors D V P = D\<lparr>vecCmd := vsim_cmd (P\<lparr>vn_store := V\<rparr>)\<rparr>"

definition srv_env :: "vec_env \<Rightarrow> vstore env" where
  "srv_env P = (vn_env P)\<lparr>vecDelete := (\<lambda>v key. vs_Delete key v)\<rparr>"

lemma srv_env_sel [simp]: "real_delete (srv_env P)" "mono (srv_env P) = mono (vn_env P)" "mono2 (srv_env P) = mono2 (vn_env P)"
  by (simp_all add: srv_env_def real_delete_def)

text \<open>What holds of one command: the clocks, arguments that fit, no migration.\<close>

definition cmd_ok :: "rd_env \<Rightarrow> venv \<Rightarrow> vec_env \<Rightarrow> string \<Rightarrow> bytes list \<Rightarrow> vsrv \<Rightarrow> bool" where
  "cmd_ok R V P cmd args s \<longleftrightarrow> mono (vn_env P) \<le> mono2 (vn_env P) \<and>
     cmd \<noteq> ''MIGRATE'' \<and> args_fit R P args \<and> (cmd \<noteq> ''VSIM.INFO'' \<or> beside_ok V (vn_beside P) (svec s))"

lemma does_if: "(b \<Longrightarrow> vec_does R s (snd x)) \<Longrightarrow> (\<not> b \<Longrightarrow> vec_does R s (snd y)) \<Longrightarrow> vec_does R s (snd (if b then x else y))"
  by simp

lemma vsim_does:
  assumes env: "env_ok V" and inv: "vinv (svec s)" and ok: "cmd_ok R V P cmd args s"
  shows "vec_does R s (snd (vsim_cmd (P\<lparr>vn_store := V\<rparr>) cmd s args))"
proof -
  let ?P = "P\<lparr>vn_store := V\<rparr>"
  have same: "vec_does R s s" by (rule plain_does[OF inv plain_refl])
  have fit: "args_fit R ?P args" using ok by (simp add: cmd_ok_def args_fit_def)
  have info: "vec_does R s (snd (cmdVSimInfo ?P s args))" if "cmd = ''VSIM.INFO''"
    using info_does[of ?P s R args] env inv ok that by (simp add: cmd_ok_def)
  note ds = addbin_does[OF inv] add_does[OF inv] addattr_does[OF inv fit] adddoc_does[OF inv fit] vdel_does[OF inv] info same
  show ?thesis
    unfolding vsim_cmd_def by (intro does_if) (simp_all add: ds)
qed

lemma get_does:
  assumes "vinv (svec s)" "real_delete E" "ttl_inv (sttl s)" "mono E \<le> mono2 E"
  shows "vec_does R s (snd (cmdGet E s args))"
proof -
  obtain b s1 where x: "srv_isExpired E s (args ! 0) = (b, s1)" by fastforce
  have "snd (cmdGet E s args) = s \<or> snd (cmdGet E s args) = s1"
    using x unfolding cmdGet_def Let_def
    by (cases "case cluster E of None \<Rightarrow> None | Some h \<Rightarrow> if \<not> isReplica h then checkKey h (args ! 0) else None")
      (auto split: option.splits)
  then show ?thesis using expired_does[OF assms, of R "args ! 0"] plain_does[OF assms(1) plain_refl] x by auto
qed

lemma command_does:
  assumes env: "env_ok V" and inv: "vinv (svec s)" and t: "ttl_inv (sttl s)" and ok: "cmd_ok R V P cmd args s"
    and res: "srv_cmd (with_vectors D V P) (srv_env P) s cmd args = Some (rs, s')"
  shows "vec_does R s s'"
proof -
  have E: "real_delete (srv_env P)" "mono (srv_env P) \<le> mono2 (srv_env P)" "cmd \<noteq> ''MIGRATE''" using ok by (simp_all add: cmd_ok_def)
  have by_snd: "vec_does R s (snd r) \<Longrightarrow> r = (rs, s') \<Longrightarrow> vec_does R s s'" for r by simp
  note same = plain_does[OF inv plain_refl]
  note ds = vsim_does[OF env inv ok] get_does[OF inv E(1) t E(2), of R] del_does[OF inv E(1), of R] plain_does[OF inv plain_set, of R]
    plain_does[OF inv plain_others(1), of R] plain_does[OF inv plain_others(2), of R] plain_does[OF inv plain_others(3), of R]
    plain_does[OF inv plain_others(4), of R]
  have pure: "vec_does R s (snd (cmdTTL E s args))" "vec_does R s (snd (cmdZScore E s args))" "vec_does R s (snd (cmdZRangeByScore E f s args))"
    "vec_does R s (snd (cmdZCard s args))" "vec_does R s (snd (cmdDBSize s args))" "vec_does R s (snd (cmdPing s args))" for E f
    using same by (simp_all add: snd_pure)
  show ?thesis
    using res E(3) unfolding srv_cmd_def with_vectors_def
    by (auto split: if_splits intro: by_snd[OF ds(1)] by_snd[OF ds(2)] by_snd[OF ds(3)] by_snd[OF ds(4)] by_snd[OF ds(5)] by_snd[OF ds(6)]
        by_snd[OF ds(7)] by_snd[OF ds(8)] by_snd[OF pure(1)] by_snd[OF pure(2)] by_snd[OF pure(3)] by_snd[OF pure(4)] by_snd[OF pure(5)] by_snd[OF pure(6)])
qed

text \<open>The vector commands leave the strings, the deadlines and the sorted sets alone, and a reading one the journal.\<close>

lemma frame_if: "(b \<Longrightarrow> Q (snd x)) \<Longrightarrow> (\<not> b \<Longrightarrow> Q (snd y)) \<Longrightarrow> Q (snd (if b then x else y))"
  by simp

definition others_same :: "vsrv \<Rightarrow> vsrv \<Rightarrow> bool" where
  "others_same s s' \<longleftrightarrow> skv s' = skv s \<and> sttl s' = sttl s \<and> szset s' = szset s"

lemma store_doc_frame: "others_same s (snd (store_doc P s key vec a ts op value))"
  by (auto simp: others_same_def store_doc_def split: option.splits prod.splits)

lemma forward_frame: "others_same s (snd r) \<Longrightarrow> others_same s (snd (forward_add P key vec r))"
  by (simp add: others_same_def forward_add_def)

lemma vsim_frame: "others_same s (snd (vsim_cmd P cmd s args))"
proof -
  have "others_same s s" by (simp add: others_same_def)
  moreover have "others_same s (snd (cmdVSimAddBin P s args))" "others_same s (snd (cmdVSimAdd P s args))"
    using forward_frame[OF store_doc_frame] \<open>others_same s s\<close>
    by (auto simp: cmdVSimAddBin_def cmdVSimAdd_def Let_def split: option.splits sum.splits)
  moreover have "others_same s (snd (cmdVSimAddAttr P s args))" "others_same s (snd (cmdVSimAddDoc P s args))"
    using store_doc_frame \<open>others_same s s\<close>
    by (auto simp: cmdVSimAddAttr_def cmdVSimAddDoc_def Let_def split: option.splits sum.splits prod.splits)
  moreover have "others_same s (snd (cmdVSimDel P s args))"
  proof -
    obtain found v where "vs_Delete (args ! 0) (svec s) = (found, v)" by fastforce
    then show ?thesis by (cases found) (auto simp: others_same_def cmdVSimDel_def split: option.splits)
  qed
  moreover have "others_same s (snd (cmdVSimInfo P s args))"
    by (simp add: others_same_def cmdVSimInfo_def case_prod_unfold)
  ultimately show ?thesis unfolding vsim_cmd_def by (intro frame_if[where Q = "others_same s"]) simp_all
qed

lemma command_ttl:
  assumes t: "ttl_inv (sttl s)" and m: "mono E \<le> mono2 E" "cmd \<noteq> ''MIGRATE''"
    and res: "srv_cmd (with_vectors D V P) E s cmd args = Some (rs, s')"
  shows "ttl_inv (sttl s')"
proof -
  have by_snd: "ttl_inv (sttl (snd r)) \<Longrightarrow> r = (rs, s') \<Longrightarrow> ttl_inv (sttl s')" for r :: "reply list \<times> vsrv" by simp
  have v: "ttl_inv (sttl (snd (vsim_cmd (P\<lparr>vn_store := V\<rparr>) cmd s args)))"
    using vsim_frame[of s "P\<lparr>vn_store := V\<rparr>" cmd args] t by (simp add: others_same_def)
  have rm: "ttl_inv (snd (ttl_remove (sttl s) k))" for k using t by (simp add: ttl_remove_def)
  have ev: "ttl_inv (sttl (snd (srv_isExpired E s k)))" for k
    using t unfolding srv_isExpired_def expired_spec[OF t m(1)] by (auto split: option.splits)
  have g: "ttl_inv (sttl (snd (cmdGet E s args)))"
  proof -
    obtain b s1 where x: "srv_isExpired E s (args ! 0) = (b, s1)" by fastforce
    have "snd (cmdGet E s args) = s \<or> snd (cmdGet E s args) = s1"
      using x unfolding cmdGet_def Let_def
      by (cases "case cluster E of None \<Rightarrow> None | Some h \<Rightarrow> if \<not> isReplica h then checkKey h (args ! 0) else None")
        (auto split: option.splits)
    with ev[of "args ! 0"] x t show ?thesis by auto
  qed
  have set: "ttl_inv (sttl (snd (cmdSet E s args)))"
    using t rm by (auto simp: cmdSet_def setClearTTL_def writeExpire_def Let_def ttl_remove_def split: option.splits sum.splits prod.splits)
  have del: "ttl_inv (sttl (snd (cmdDel E s args)))" "ttl_inv (sttl (snd (cmdExpire E s args)))" "ttl_inv (sttl (snd (cmdPersist E s args)))"
    using t by (auto simp: cmdDel_def cmdExpire_def cmdPersist_def writeExpire_def Let_def ttl_remove_def split: option.splits prod.splits)
  have z: "ttl_inv (sttl (snd (cmdZAdd E s args)))" "ttl_inv (sttl (snd (cmdZRem s args)))"
    using t by (auto simp: cmdZAdd_def cmdZRem_def srv_zadd_def srv_zrem_def put_zset_def Let_def split: option.splits prod.splits)
  have pure: "ttl_inv (sttl (snd (cmdTTL E s args)))" "ttl_inv (sttl (snd (cmdZScore E s args)))" "ttl_inv (sttl (snd (cmdZRangeByScore E f s args)))"
    "ttl_inv (sttl (snd (cmdZCard s args)))" "ttl_inv (sttl (snd (cmdDBSize s args)))" "ttl_inv (sttl (snd (cmdPing s args)))" for E f
    using t by (simp_all add: snd_pure)
  show ?thesis
    using res m(2) unfolding srv_cmd_def with_vectors_def
    by (auto split: if_splits intro: by_snd[OF v] by_snd[OF g] by_snd[OF set] by_snd[OF del(1)] by_snd[OF del(2)] by_snd[OF del(3)] by_snd[OF z(1)]
        by_snd[OF z(2)] by_snd[OF pure(1)] by_snd[OF pure(2)] by_snd[OF pure(3)] by_snd[OF pure(4)] by_snd[OF pure(5)] by_snd[OF pure(6)])
qed

text \<open>Reading commands keep to what the gates promise of them (\<open>vec_reads\<close> of \<open>Dispatch\<close>).\<close>

lemma vsim_reads: "vec_reads (with_vectors D V P) E"
  unfolding vec_reads_def
proof (intro allI impI)
  fix cmd :: string and s :: vsrv and args assume w: "\<not> isWriteCmd cmd" and inv: "srv_inv s"
  let ?P = "P\<lparr>vn_store := V\<rparr>"
  have "jr (snd (cmdVSimInfo ?P s args)) = jr s" by (simp add: cmdVSimInfo_def split: prod.splits)
  moreover have "cmd \<notin> {''VSIM.ADD'', ''VSIM.ADDBIN'', ''VSIM.ADDATTR'', ''VSIM.ADDDOC'', ''VSIM.DEL''}" using w by (auto simp: isWriteCmd_def)
  ultimately have "jr (snd (vsim_cmd ?P cmd s args)) = jr s" by (simp add: vsim_cmd_def)
  with vsim_frame[of s ?P cmd args] inv show "reads_only E s (snd (vecCmd (with_vectors D V P) cmd s args))"
    by (auto simp: reads_only_def with_vectors_def others_same_def srv_inv_def zbytes_def)
qed

text \<open>A server that runs: commands, and what the coordinator and its goroutines do between them.\<close>

datatype live = Command vec_env string "bytes list" | Work vevent

fun live_step :: "vstore disp \<Rightarrow> venv \<Rightarrow> live \<Rightarrow> vsrv \<Rightarrow> vsrv option" where
  "live_step D V (Command P cmd args) s = map_option snd (srv_cmd (with_vectors D V P) (srv_env P) s cmd args)"
| "live_step D V (Work ev) s = map_option (\<lambda>v. s\<lparr>svec := v\<rparr>) (vs_step V ev (svec s))"

fun live_run :: "vstore disp \<Rightarrow> venv \<Rightarrow> live list \<Rightarrow> vsrv \<Rightarrow> vsrv option" where
  "live_run D V [] s = Some s"
| "live_run D V (x # xs) s = (case live_step D V x s of None \<Rightarrow> None | Some s' \<Rightarrow> live_run D V xs s')"

definition work_ok :: "vevent \<Rightarrow> vstore \<Rightarrow> bool" where
  "work_ok ev v \<longleftrightarrow> \<not> is_write ev \<and> orderly ev v"

fun live_ok :: "rd_env \<Rightarrow> vstore disp \<Rightarrow> venv \<Rightarrow> live list \<Rightarrow> vsrv \<Rightarrow> bool" where
  "live_ok R D V [] s \<longleftrightarrow> True"
| "live_ok R D V (x # xs) s \<longleftrightarrow>
     (case x of Command P cmd args \<Rightarrow> cmd_ok R V P cmd args s | Work ev \<Rightarrow> work_ok ev (svec s)) \<and>
     (case live_step D V x s of None \<Rightarrow> True | Some s' \<Rightarrow> live_ok R D V xs s')"

lemma work_step:
  assumes env: "env_ok V" and inv: "vinv v" and ok: "work_ok ev v" and res: "vs_step V ev v = Some v'"
  shows "vinv v' \<and> vs_abs v' = vs_abs v"
proof -
  have "vinv v'" "vs_abs v' = spec_step ev (vs_abs v)"
    using store_step[OF env inv _ res] ok by (simp_all add: work_ok_def)
  moreover have "spec_step ev (vs_abs v) = vs_abs v" using ok by (cases ev; cases "vs_abs v") (simp_all add: work_ok_def)
  ultimately show ?thesis by simp
qed

lemma does_trans: "vec_does R s s1 \<Longrightarrow> vec_does R s1 s2 \<Longrightarrow> vec_does R s s2"
  unfolding vec_does_def by (metis append.assoc fold_append comp_apply journal_events_simps(3))

lemma live_does:
  assumes env: "env_ok V"
  shows "vinv (svec s) \<Longrightarrow> ttl_inv (sttl s) \<Longrightarrow> live_ok R D V xs s \<Longrightarrow> live_run D V xs s = Some s' \<Longrightarrow> vec_does R s s'"
proof (induction xs arbitrary: s)
  case Nil
  then show ?case using plain_does[OF Nil(1) plain_refl] by simp
next
  case (Cons x xs)
  from Cons.prems(4) obtain s1 where s1: "live_step D V x s = Some s1" "live_run D V xs s1 = Some s'" by (auto split: option.splits)
  with Cons.prems(3) have rest: "live_ok R D V xs s1" by simp
  have "vec_does R s s1 \<and> ttl_inv (sttl s1)"
  proof (cases x)
    case (Command P cmd args)
    have ok: "cmd_ok R V P cmd args s" using Cons.prems(3) Command by simp
    obtain rs where "srv_cmd (with_vectors D V P) (srv_env P) s cmd args = Some (rs, s1)" using s1(1) Command by auto
    from command_does[OF env Cons.prems(1,2) ok this] command_ttl[OF Cons.prems(2) _ _ this] ok show ?thesis by (simp add: cmd_ok_def)
  next
    case (Work ev)
    then obtain v where v: "vs_step V ev (svec s) = Some v" "s1 = s\<lparr>svec := v\<rparr>" using s1(1) by auto
    have "work_ok ev (svec s)" using Cons.prems(3) Work by simp
    from work_step[OF env Cons.prems(1) this v(1)] v(2) Cons.prems(2) show ?thesis
      by (auto simp: vec_does_def intro!: exI[of _ "[]"])
  qed
  then have a: "vec_does R s s1" and t: "ttl_inv (sttl s1)" by blast+
  have "vinv (svec s1)" using a by (simp add: vec_does_def)
  from does_trans[OF a Cons.IH[OF this t rest s1(2)]] show ?case .
qed

text \<open>A recovery: the records, and what the coordinator does between them.\<close>

datatype recovering = Replayed int int entry | Beside vevent

fun recover_step :: "rd_env \<Rightarrow> venv \<Rightarrow> recovering \<Rightarrow> vstore applier \<Rightarrow> vstore applier option" where
  "recover_step R V (Replayed W M e) a = Some (apply_entry (vector_ops R V) W M False e a)"
| "recover_step R V (Beside ev) a = map_option (\<lambda>v. with_srv a (\<lambda>s. s\<lparr>svec := v\<rparr>)) (vs_step V ev (ap_vec a))"

fun recover_run :: "rd_env \<Rightarrow> venv \<Rightarrow> recovering list \<Rightarrow> vstore applier \<Rightarrow> vstore applier option" where
  "recover_run R V [] a = Some a"
| "recover_run R V (y # ys) a = (case recover_step R V y a of None \<Rightarrow> None | Some a' \<Rightarrow> recover_run R V ys a')"

fun recover_ok :: "rd_env \<Rightarrow> venv \<Rightarrow> recovering list \<Rightarrow> vstore applier \<Rightarrow> bool" where
  "recover_ok R V [] a \<longleftrightarrow> True"
| "recover_ok R V (y # ys) a \<longleftrightarrow>
     (case y of Replayed W M e \<Rightarrow> vecWatermark a < LSN e \<and> fresh_rec W e | Beside ev \<Rightarrow> work_ok ev (ap_vec a)) \<and>
     (case recover_step R V y a of None \<Rightarrow> True | Some a' \<Rightarrow> recover_ok R V ys a')"

fun replayed :: "recovering list \<Rightarrow> entry list" where
  "replayed [] = []"
| "replayed (Replayed W M e # ys) = e # replayed ys"
| "replayed (Beside ev # ys) = replayed ys"

lemma recover_does:
  assumes env: "env_ok V"
  shows "vinv (ap_vec a) \<Longrightarrow> recover_ok R V ys a \<Longrightarrow> recover_run R V ys a = Some a' \<Longrightarrow>
    vinv (ap_vec a') \<and> vs_abs (ap_vec a') = fold spec_step (journal_events R (replayed ys)) (vs_abs (ap_vec a))"
proof (induction ys arbitrary: a)
  case (Cons y ys)
  from Cons.prems(3) obtain a1 where a1: "recover_step R V y a = Some a1" "recover_run R V ys a1 = Some a'" by (auto split: option.splits)
  with Cons.prems(2) have rest: "recover_ok R V ys a1" by simp
  have "vinv (ap_vec a1) \<and> vs_abs (ap_vec a1) = fold spec_step (journal_events R (replayed [y])) (vs_abs (ap_vec a))"
  proof (cases y)
    case (Replayed W M e)
    have "vecWatermark a < LSN e" "fresh_rec W e" using Cons.prems(2) Replayed by simp_all
    from replay_entry[OF Cons.prems(1) this, of R V M] a1(1) Replayed show ?thesis by auto
  next
    case (Beside ev)
    then obtain v where v: "vs_step V ev (ap_vec a) = Some v" "ap_vec a1 = v" using a1(1) by auto
    have "work_ok ev (ap_vec a)" using Cons.prems(2) Beside by simp
    from work_step[OF env Cons.prems(1) this v(1)] v(2) Beside show ?thesis by simp
  qed
  with Cons.IH[of a1] rest a1(2) show ?case by (cases y) simp_all
qed simp

lemma events_strip: "strip e = strip e' \<Longrightarrow> vec_events R e = vec_events R e'"
proof -
  assume "strip e = strip e'"
  then have "Op e = Op e'" "entry.Key e = entry.Key e'" "Value e = Value e'" by (simp_all add: strip_def)
  then show ?thesis unfolding vec_events_def by (simp only:)
qed

lemma journal_strip: "map strip es = map strip es' \<Longrightarrow> journal_events R es = journal_events R es'"
proof (induction es arbitrary: es')
  case (Cons e es)
  then obtain e' es1 where es: "es' = e' # es1" "strip e = strip e'" "map strip es = map strip es1" by (cases es') auto
  from Cons.IH[OF es(3)] events_strip[OF es(2), of R] show ?case by (simp add: es(1))
qed simp


subsection \<open>A run and its recovery\<close>

definition ex_vec :: vec_env where
  "ex_vec = \<lparr>vn_env = \<lparr>mono = 0, mono2 = 0, wall = 0, cluster = None, parseFloat = (\<lambda>_. None), formatFloat = (\<lambda>_. []),
       seconds = (\<lambda>_. 0), vecDelete = (\<lambda>v key. vs_Delete key v)\<rparr>,
     vn_upper = (\<lambda>s. s), vn_parse32 = (\<lambda>s. if s = ''1'' then Some 1 else if s = ''2'' then Some 2 else None),
     vn_fmt32 = (\<lambda>_. []), vn_fix32 = (\<lambda>_. ''0''), vn_fix64 = (\<lambda>_. ''0''), vn_quote = (\<lambda>s. s), vn_text = ex_text,
     vn_store = ex_env, vn_search = ex_senv, vn_seg = ex_seg_search, vn_segf = (\<lambda>_ _. ex_seg_search), vn_beside = []\<rparr>"

definition ex_disp :: "vstore disp" where
  "ex_disp = \<lparr>authEnabled = False, authHash = [], restoreLSN = 0, sha256 = (\<lambda>b. b), upperUni = (\<lambda>s. s),
     vecCmd = (\<lambda>cmd s args. ([], s)), clusterApi = None\<rparr>"

text \<open>A vector is flushed, a document comes, the vector goes with its key.\<close>

definition ex_live :: "live list" where
  "ex_live = [Command ex_vec ''VSIM.ADD'' [''k'', ''1'']] @ map Work ex_swap @ [Work (EApply 0),
     Command ex_vec ''VSIM.ADDDOC'' [''m'', ''TEXT'', ''c'', ''VEC'', ''2''], Command ex_vec ''DEL'' [''k'']]"

definition ex_journal :: "vsrv \<Rightarrow> recovering list" where
  "ex_journal s = map (\<lambda>(i, e). Replayed 0 0 (e\<lparr>LSN := word_of_nat i\<rparr>)) (enumerate 1 (jr s)) @ map Beside ex_swap"


end
