(* ===== verification/CmdVecAnswer.thy ===== *)
theory CmdVecAnswer
  imports CmdVecJournal
begin

text \<open>
  What the vector commands answer: an insertion is refused without a trace or is stored, journalled and read back; the
  joins with the string store and with a sorted set answer with current documents whose partner in the other store
  is as the command asks. The last section has what the first form of the join does with a deadline.
\<close>

section \<open>Insertions\<close>

definition refused :: "vsrv \<Rightarrow> reply list \<times> vsrv \<Rightarrow> bool" where
  "refused s r \<longleftrightarrow> (\<exists>e. fst r = [RError e]) \<and> snd r = s"

definition inserted :: "rd_env \<Rightarrow> vec_env \<Rightarrow> vsrv \<Rightarrow> reply list \<times> vsrv \<Rightarrow> bool" where
  "inserted R P s r \<longleftrightarrow>
     (\<exists>key vec a ts v op value fs. fst r = [RSimple ''OK''] \<and> addEntry (vn_store P) key vec a ts (svec s) = (None, v) \<and> terms_ok ts \<and>
        snd r = (jwrite (s\<lparr>svec := v\<rparr>) op key value)\<lparr>fwds := fs\<rparr> \<and> records_as R op key value vec a ts)"

lemma store_doc_answer:
  assumes "terms_ok ts" "records_as R op key value vec a ts"
  shows "refused s (store_doc P s key vec a ts op value) \<or> inserted R P s (store_doc P s key vec a ts op value)"
proof (cases "ValidateKey key = None \<and> ValidateVector vec = None")
  case False
  then show ?thesis by (auto simp: store_doc_def refused_def err_reply_def split: option.splits)
next
  case True
  obtain err v where res: "addEntry (vn_store P) key vec a ts (svec s) = (err, v)" by fastforce
  show ?thesis
  proof (cases err)
    case None
    have "jwrite (s\<lparr>svec := v\<rparr>) op key value = (jwrite (s\<lparr>svec := v\<rparr>) op key value)\<lparr>fwds := fwds s\<rparr>" by (simp add: jwrite_def)
    then have "inserted R P s (store_doc P s key vec a ts op value)"
      using True None res assms unfolding inserted_def store_doc_def by fastforce
    then show ?thesis ..
  next
    case (Some e)
    with refused_same res have "v = svec s" by simp
    then show ?thesis using True Some res by (simp add: store_doc_def refused_def err_reply_def)
  qed
qed

lemma forward_refused: "refused s r \<Longrightarrow> refused s (forward_add P key vec r)"
  by (auto simp: refused_def forward_add_def)

lemma forward_fwds: "\<exists>fs. forwardWrite E s l = s\<lparr>fwds := fs\<rparr>"
proof (cases "cluster E")
  case None
  then have "forwardWrite E s l = s\<lparr>fwds := fwds s\<rparr>" by (simp add: forwardWrite_def)
  then show ?thesis ..
next
  case (Some h)
  then have "forwardWrite E s l = s\<lparr>fwds := fwds s @ [l]\<rparr>" by (simp add: forwardWrite_def)
  then show ?thesis ..
qed

lemma forward_inserted:
  assumes "inserted R P s r"
  shows "inserted R P s (forward_add P k w r)"
proof -
  obtain key vec a ts v op val fs where r: "fst r = [RSimple ''OK'']" "addEntry (vn_store P) key vec a ts (svec s) = (None, v)"
    "terms_ok ts" "snd r = (jwrite (s\<lparr>svec := v\<rparr>) op key val)\<lparr>fwds := fs\<rparr>" "records_as R op key val vec a ts"
    using assms unfolding inserted_def by blast
  obtain fs' where "forwardWrite (vn_env P) (snd r) (''VSIM.ADD '' @ k @ concat (map (\<lambda>v. '' '' @ vn_fmt32 P v) w)) = (snd r)\<lparr>fwds := fs'\<rparr>"
    using forward_fwds by blast
  then have "snd (forward_add P k w r) = (jwrite (s\<lparr>svec := v\<rparr>) op key val)\<lparr>fwds := fs'\<rparr>" "fst (forward_add P k w r) = [RSimple ''OK'']"
    using r(1,4) by (simp_all add: forward_add_def)
  with r show ?thesis unfolding inserted_def by blast
qed

lemma forward_answer: "refused s r \<or> inserted R P s r \<Longrightarrow> refused s (forward_add P k w r) \<or> inserted R P s (forward_add P k w r)"
  using forward_refused forward_inserted by blast

definition insert_cmds :: "string set" where
  "insert_cmds = {''VSIM.ADD'', ''VSIM.ADDBIN'', ''VSIM.ADDATTR'', ''VSIM.ADDDOC''}"

lemma usage_refused [simp]: "refused s ([RError e], s)" "refused s (err_reply e, s)" "refused s (bad_float p, s)"
  by (simp_all add: refused_def err_reply_def bad_float_def)

lemma insert_answer:
  assumes "cmd \<in> insert_cmds" "args_fit R P args" "moved (vn_env P) (args ! 0) = None"
  shows "refused s (vsim_cmd P cmd s args) \<or> inserted R P s (vsim_cmd P cmd s args)"
proof -
  have "refused s (cmdVSimAddBin P s args) \<or> inserted R P s (cmdVSimAddBin P s args)"
    using forward_answer[OF store_doc_answer[OF terms_ok_Nil records_bin]] assms(3) by (simp add: cmdVSimAddBin_def Let_def)
  moreover have "refused s (cmdVSimAdd P s args) \<or> inserted R P s (cmdVSimAdd P s args)"
    using forward_answer[OF store_doc_answer[OF terms_ok_Nil records_add]] assms(3) by (simp add: cmdVSimAdd_def split: sum.splits)
  moreover have "refused s (cmdVSimAddAttr P s args) \<or> inserted R P s (cmdVSimAddAttr P s args)"
  proof (cases "parse_addattr P (tl args) no_attrs")
    case (Inl e)
    then show ?thesis using assms(3) by (simp add: cmdVSimAddAttr_def)
  next
    case (Inr r)
    obtain a vec where r: "r = (a, vec)" by fastforce
    from parsed_attrs_fit[OF assms(2) Inr[unfolded r]] have "len_fits R vec" "attrs_fit R a" by simp_all
    from store_doc_answer[OF terms_ok_Nil records_attrs[OF this], of s P] Inr r assms(3) show ?thesis by (simp add: cmdVSimAddAttr_def)
  qed
  moreover have "refused s (cmdVSimAddDoc P s args) \<or> inserted R P s (cmdVSimAddDoc P s args)"
  proof (cases "parse_adddoc P (tl args) no_doc")
    case (Inl e)
    then show ?thesis using assms(3) by (simp add: cmdVSimAddDoc_def)
  next
    case (Inr d)
    from parsed_doc_fits[OF assms(2) Inr] have f: "doc_fits R (da_vec d) (da_attrs d) (TokenizeDocTitled (vn_text P) (da_title d) (da_text d))"
      "terms_ok (TokenizeDocTitled (vn_text P) (da_title d) (da_text d))" by (simp_all add: doc_fits_def terms_fit_def)
    from store_doc_answer[OF f(2) records_doc[OF f(1)], of s P] Inr assms(3) show ?thesis by (simp add: cmdVSimAddDoc_def Let_def)
  qed
  ultimately show ?thesis using assms(1) by (auto simp: insert_cmds_def vsim_cmd_def)
qed



section \<open>Joins\<close>

text \<open>The members in a range, as a set of keys; no map when there are none.\<close>

lemma fold_until_all: "fold_until (\<lambda>s x. (g s x, True)) xs s = fold (\<lambda>x s. g s x) xs s"
  by (induction xs arbitrary: s) simp_all

lemma members_fold:
  "fold (\<lambda>it out. Some (AList.update (Member it) () (case out of None \<Rightarrow> [] | Some m \<Rightarrow> m))) xs out =
    (if xs = [] then out else Some (fold (\<lambda>it m. AList.update (Member it) () m) xs (case out of None \<Rightarrow> [] | Some m \<Rightarrow> m)))"
  by (induction xs arbitrary: out) (auto split: option.splits)

lemma members_map: "map_of (fold (\<lambda>it m. AList.update (Member it) () m) xs m) k \<noteq> None \<longleftrightarrow> map_of m k \<noteq> None \<or> k \<in> Member ` set xs"
  by (induction xs arbitrary: m) (auto simp: update_conv')

lemma MembersInRange_view:
  assumes inv: "zinv r P"
  shows "\<exists>out. MembersInRange r n mn mx = Some out \<and>
    (case out of
       None \<Rightarrow> \<forall>k s. zview r n k = Some s \<longrightarrow> \<not> (f64_le mn s \<and> f64_le s mx)
     | Some m \<Rightarrow> \<forall>k. map_of m k \<noteq> None \<longleftrightarrow> (\<exists>s. zview r n k = Some s \<and> f64_le mn s \<and> f64_le s mx))"
proof -
  let ?xs = "filter (\<lambda>x. f64_le mn (Score x) \<and> f64_le (Score x) mx) (zitems r n)"
  let ?fn = "\<lambda>out it. (Some (AList.update (Member it) () (case out of None \<Rightarrow> [] | Some m \<Rightarrow> m)), True)"
  have mem: "k \<in> Member ` set ?xs \<longleftrightarrow> (\<exists>s. zview r n k = Some s \<and> f64_le mn s \<and> f64_le s mx)" for k
  proof
    assume "k \<in> Member ` set ?xs"
    then obtain x where x: "x \<in> set (zitems r n)" "f64_le mn (Score x)" "f64_le (Score x) mx" "k = Member x" by auto
    then have "\<lparr>Score = Score x, Member = k\<rparr> \<in> set (zitems r n)" by (simp add: item_eta)
    with zitems_view(3)[OF inv] x(2,3) show "\<exists>s. zview r n k = Some s \<and> f64_le mn s \<and> f64_le s mx" by blast
  next
    assume "\<exists>s. zview r n k = Some s \<and> f64_le mn s \<and> f64_le s mx"
    then obtain s where s: "\<lparr>Score = s, Member = k\<rparr> \<in> set (zitems r n)" "f64_le mn s" "f64_le s mx" using zitems_view(3)[OF inv] by blast
    then show "k \<in> Member ` set ?xs" by (intro image_eqI[of _ _ "\<lparr>Score = s, Member = k\<rparr>"]) simp_all
  qed
  have "MembersInRange r n mn mx = Some (fold_until ?fn ?xs None)"
    using inv by (auto simp: MembersInRange_def zget_def zitems_def bt_range_spec ent_inv split: option.splits)
  also have "\<dots> = Some (if ?xs = [] then None else Some (fold (\<lambda>it m. AList.update (Member it) () m) ?xs []))"
    unfolding fold_until_all members_fold by simp
  finally have eq: "MembersInRange r n mn mx = Some (if ?xs = [] then None else Some (fold (\<lambda>it m. AList.update (Member it) () m) ?xs []))" .
  show ?thesis
  proof (cases "?xs = []")
    case True
    then have "MembersInRange r n mn mx = Some None" unfolding eq by simp
    moreover have "\<forall>k s. zview r n k = Some s \<longrightarrow> \<not> (f64_le mn s \<and> f64_le s mx)" using mem True by auto
    ultimately show ?thesis by simp
  next
    case False
    define m where "m = fold (\<lambda>it m. AList.update (Member it) () m) ?xs []"
    have "map_of m k \<noteq> None \<longleftrightarrow> (\<exists>s. zview r n k = Some s \<and> f64_le mn s \<and> f64_le s mx)" for k
      unfolding mem[symmetric] m_def members_map by simp
    moreover have "MembersInRange r n mn mx = Some (Some m)" using False unfolding eq m_def by (simp only: if_False)
    ultimately show ?thesis by (intro exI[of _ "Some m"]) (simp only: option.case simp_thms)
  qed
qed

text \<open>What a join answers: an error, or the pairs of current documents under a condition on the key. The vector searched for starts
  at the \<open>i\<close>-th argument.\<close>

definition join_ok :: "vec_env \<Rightarrow> vsrv \<Rightarrow> bytes list \<Rightarrow> nat \<Rightarrow> (bytes \<Rightarrow> bool) \<Rightarrow> reply list \<Rightarrow> bool" where
  "join_ok P s args i keep rs \<longleftrightarrow> (\<exists>e. rs = [RError e]) \<or>
     (\<exists>(hs :: frozen_result list) query K. parse_K (args ! 0) = Some K \<and> parse_vec P i (drop i args) = Inr query \<and>
        rs = pairs_reply (map (\<lambda>h. (rkey h, vn_fix32 P (rdist h))) hs) \<and> distinct (map rkey hs) \<and> length hs \<le> K \<and>
        (\<forall>h \<in> set hs. keep (rkey h) \<and> (\<exists>x. vs_doc (svec s) (rkey h) = Some x \<and> rdist h = se_dist (vn_search P) query (fst x))))"

definition search_env_ok :: "vec_env \<Rightarrow> vsrv \<Rightarrow> bool" where
  "search_env_ok P s \<longleftrightarrow> fits_memory (svec s) \<and> sort_ok (vn_search P) \<and> walk_ok (vn_search P) \<and> se_strict (vn_search P) \<and>
     seg_search_ok (vn_search P) (v_dim (svec s)) (\<lambda>k x. True) (vn_seg P)"

lemma near_answer:
  assumes b: "base_ok (svec s)" and env: "search_env_ok P s" and p: "parse_K (args ! 0) = Some K" "parse_vec P i (drop i args) = Inr query"
  shows "join_ok P s args i keep (near_reply P (SearchFiltered (vn_search P) (vn_seg P) (svec s) query K keep))"
proof (cases "search (vn_search P) (vn_seg P) (svec s) query K (Some keep) None")
  case (Inl e)
  then show ?thesis by (simp add: join_ok_def near_reply_def SearchFiltered_def lift_search_def err_reply_def)
next
  case (Inr hs)
  have "filter_means None (\<lambda>k x. True)" by (simp add: filter_means_def)
  with search_sound[OF b _ _ _ this _ _ Inr] env
  have "search_ok (svec s) (se_dist (vn_search P) query) K (pass (Some keep) (\<lambda>k x. True)) hs" by (simp add: search_env_ok_def)
  then have "distinct (map rkey hs)" "length hs \<le> K"
    "\<forall>h \<in> set hs. keep (rkey h) \<and> (\<exists>x. vs_doc (svec s) (rkey h) = Some x \<and> rdist h = se_dist (vn_search P) query (fst x))"
    by (auto simp: search_ok_def hits_ok_def pass_def simp del: split_paired_Ex)
  moreover have "near_reply P (SearchFiltered (vn_search P) (vn_seg P) (svec s) query K keep) =
      pairs_reply (map (\<lambda>h. (rkey h, vn_fix32 P (rdist h))) hs)"
    using Inr by (simp add: near_reply_def SearchFiltered_def lift_search_def)
  ultimately show ?thesis using p unfolding join_ok_def by blast
qed

lemma join_error [simp]: "join_ok P s args i keep [RError e]" "join_ok P s args i keep (err_reply m)" "join_ok P s args i keep bad_K"
  "join_ok P s args i keep (bad_float p)"
  by (simp_all add: join_ok_def err_reply_def bad_K_def bad_float_def)

lemma join_none: "parse_K (args ! 0) = Some K \<Longrightarrow> parse_vec P i (drop i args) = Inr query \<Longrightarrow> join_ok P s args i keep [RArrayHeader 0]"
  unfolding join_ok_def by (intro disjI2 exI[of _ "[]"] exI[of _ query] exI[of _ K]) (simp add: pairs_reply_def)

text \<open>The partner of a key in the string store and in a sorted set.\<close>

definition has_meta :: "vec_env \<Rightarrow> vsrv \<Rightarrow> bytes list \<Rightarrow> bytes \<Rightarrow> bool" where
  "has_meta P s args key \<longleftrightarrow>
     (if vn_upper P (args ! 1) = ''PREFIX'' then take (length (args ! 2)) key = args ! 2
      else kview (skv s) (args ! 1 @ '':'' @ key) = Some (args ! 2))"

definition in_scores :: "vec_env \<Rightarrow> vsrv \<Rightarrow> bytes list \<Rightarrow> bytes \<Rightarrow> bool" where
  "in_scores P s args key \<longleftrightarrow>
     (\<exists>lo hi sc. float_arg P (args ! 2) = Some lo \<and> float_arg P (args ! 3) = Some hi \<and>
        zview (szset s) (args ! 1) key = Some sc \<and> f64_le lo sc \<and> f64_le sc hi)"

lemma searchfilter_ok:
  assumes "base_ok (svec s)" "srv_inv s" "search_env_ok P s"
  shows "join_ok P s args 3 (has_meta P s args) (cmdVSimSearchFilter P s args)"
proof -
  have kv: "meta_filter P s (args ! 1) (args ! 2) = has_meta P s args"
    using assms(2) by (simp add: meta_filter_def has_meta_def fun_eq_iff kv_get_view srv_inv_def)
  show ?thesis
    unfolding kv cmdVSimSearchFilter_def using near_answer[OF assms(1,3)] by (auto split: option.splits sum.splits)
qed

lemma range_ok:
  assumes b: "base_ok (svec s)" and inv: "srv_inv s" and env: "search_env_ok P s"
    and p: "parse_K (args ! 0) = Some K" "parse_vec P 4 (drop 4 args) = Inr query"
    and f: "float_arg P (args ! 2) = Some mn" "float_arg P (args ! 3) = Some mx"
  shows "join_ok P s args 4 (in_scores P s args)
    (case MembersInRange (szset s) (args ! 1) mn mx of
       Some (Some allowed) \<Rightarrow> near_reply P (SearchFiltered (vn_search P) (vn_seg P) (svec s) query K (\<lambda>key. map_of allowed key \<noteq> None))
     | _ \<Rightarrow> [RArrayHeader 0])"
proof -
  have z: "zinv (szset s) {}" using inv by (simp add: srv_inv_def)
  obtain out where out: "MembersInRange (szset s) (args ! 1) mn mx = Some out"
    "case out of None \<Rightarrow> \<forall>k sc. zview (szset s) (args ! 1) k = Some sc \<longrightarrow> \<not> (f64_le mn sc \<and> f64_le sc mx)
     | Some m \<Rightarrow> \<forall>k. map_of m k \<noteq> None \<longleftrightarrow> (\<exists>sc. zview (szset s) (args ! 1) k = Some sc \<and> f64_le mn sc \<and> f64_le sc mx)"
    using MembersInRange_view[OF z] by blast
  show ?thesis
  proof (cases out)
    case None
    with out(1) join_none[OF p] show ?thesis by simp
  next
    case (Some m)
    then have "(\<lambda>key. map_of m key \<noteq> None) = in_scores P s args"
      using out(2) f by (intro ext) (simp only: option.case in_scores_def option.inject, blast)
    with near_answer[OF b env p, of "\<lambda>key. map_of m key \<noteq> None"] out(1) Some show ?thesis by simp
  qed
qed


definition join_state :: vsrv where
  "join_state = (let s = snd (vsim_cmd ex_vec ''VSIM.ADD'' (srv_new (\<lambda>_. 0) vs_new) [''k'', ''1'']) in
     s\<lparr>skv := kv_set (skv s) ''c:k'' ''v''\<rparr>)"

lemma join_state_ok: "vinv (svec join_state)" "srv_inv join_state" "search_env_ok ex_vec join_state"
proof -
  let ?s0 = "srv_new (\<lambda>_. 0) vs_new" and ?s1 = "snd (vsim_cmd ex_vec ''VSIM.ADD'' (srv_new (\<lambda>_. 0) vs_new) [''k'', ''1''])"
  have v: "svec join_state = svec ?s1" by (simp add: join_state_def Let_def)
  have new: "vinv (svec ?s0)" using new_vinv(1) by (simp add: srv_new_def)
  have "vsim_cmd ex_vec ''VSIM.ADD'' ?s0 [''k'', ''1''] = cmdVSimAdd ex_vec ?s0 [''k'', ''1'']" by (simp add: vsim_cmd_def)
  with add_does[OF new] show inv: "vinv (svec join_state)" unfolding v vec_does_def by metis
  have "srv_inv ?s1" using vsim_frame[of ?s0 ex_vec "''VSIM.ADD''" "[''k'', ''1'']"] srv_new_inv[of "\<lambda>_. 0" vs_new]
    by (simp add: others_same_def srv_inv_def)
  from srv_set[OF this refl] show "srv_inv join_state" by (simp add: join_state_def Let_def)
  have "list_all (\<lambda>level. length level < 2 ^ 40) (v_levels (svec join_state)) \<and> length (v_flushing (svec join_state)) < 2 ^ 40" by code_simp
  then have "fits_memory (svec join_state)" by (simp add: fits_memory_def list_all_iff)
  moreover have "vn_search ex_vec = ex_senv" "vn_seg ex_vec = ex_seg_search" "se_strict ex_senv" by (simp_all add: ex_vec_def ex_senv_def)
  ultimately show "search_env_ok ex_vec join_state" using ex_senv_ok ex_seg_search_ok by (simp add: search_env_ok_def)
qed


section \<open>A join and a deadline\<close>

text \<open>The comment of \<open>cmdVSimSearchFilter\<close> says that the value is the one of \<open>GET\<close>. The string store is asked without the table of
  deadlines: a key that \<open>GET\<close> reports as gone still lets its document through.\<close>

lemma filter_sees_expired:
  "let s = join_state\<lparr>sttl := ttl_set (sttl join_state) 0 ''c:k'' 5\<rparr>; E = (vn_env ex_vec)\<lparr>mono := 9, mono2 := 9\<rparr> in
   fst (cmdGet E s [''c:k'']) = [RNull] \<and>
   cmdVSimSearchFilter (ex_vec\<lparr>vn_env := E\<rparr>) s [''5'', ''c'', ''v'', ''1''] = [RArrayHeader 2, RBulk ''k'', RBulk ''0'']"
  by code_simp

text \<open>The first argument of a search that is no float comes back in the error as it was sent, line ends included.\<close>

lemma bad_float_echoes:
  "cmdVSimSearch ex_vec join_state [''5'', CHR 13 # CHR 10 # ''+OK''] =
     [RError (''ERR invalid float at position 1: '' @ CHR 13 # CHR 10 # ''+OK'')]"
  by code_simp

end
