(* ===== verification/Spec2Isabelle.thy ===== *)
theory Spec2Isabelle
  imports Journal PubSub ConnBuf Dispatch Compact VecSearch VecDurable VecLex CmdVecAnswer
begin

text \<open>
  A development about KVStore, the in-memory store under \<open>src/kvstore\<close>: a server that speaks RESP and keeps strings with
  deadlines, sorted sets, publish/subscribe channels and vectors in memory, writes every change to a
  journal (write-ahead log), compacts the journal into snapshots, and rebuilds its state from both at
  start-up. The theories follow the packages; every definition is translated from the Go code, and
  the comment before it says from where.

  How the program fits together, and which theory models which part:

  \<^item> Bytes from a connection go into its buffer and are parsed into commands
    (\<open>internal/server/connbuf.go\<close>, \<open>server.go\<close>): \<open>ConnBuf\<close>. The values of the protocol and their
    reader and writer (\<open>internal/protocol/resp.go\<close>): \<open>Resp\<close>.
  \<^item> A command passes the dispatcher (\<open>cmd/kvstore/dispatch.go\<close>, \<open>cmd_pubsub.go\<close>, \<open>cmd_cluster.go\<close>):
    authentication, subscriber mode, transactions, the gates, then its handler: \<open>Dispatch\<close>. The
    handlers of strings and sorted sets (\<open>cmd_kv.go\<close>, \<open>cmd_zset.go\<close>) are in \<open>Commands\<close>, the hub behind
    \<open>SUBSCRIBE\<close> and \<open>PUBLISH\<close> (\<open>internal/pubsub\<close>) is \<open>PubSub\<close>.
  \<^item> The stores: \<open>Sharded\<close> has the hash-sharded maps, \<open>KvStore\<close> the strings with their memory
    accounting (\<open>internal/store/kv\<close>), \<open>Ttl\<close> the deadlines, lazy expiry and the expiry cycle
    (\<open>internal/store/ttl.go\<close>), \<open>BTree\<close>, \<open>BTree_Correct\<close> and \<open>BTree_Api\<close> the B+-tree
    (\<open>internal/btree\<close>), \<open>ZSet\<close> the registry of sorted sets on it (\<open>internal/store/zset\<close>), \<open>Float64\<close>
    the scores as 64-bit words with the order of Go's comparison.
  \<^item> Durability: \<open>Wal\<close> has the file format, the writer, the reader and the batching flusher
    (\<open>internal/wal/wal.go\<close>, \<open>header.go\<close>, \<open>batch.go\<close>), \<open>Recovery\<close> the application of one record
    (\<open>cmd/kvstore/wal_applier.go\<close>, \<open>persistence.go\<close>), \<open>Replay\<close> the replay of start-up (\<open>main.go\<close>,
    \<open>restore.go\<close>), \<open>Journal\<close> the journal that runs of commands write, and \<open>Compact\<close> the snapshots, the
    compaction and the directory (\<open>snapshot.go\<close>, \<open>syncer.go\<close>).
  \<^item> The vector engine (\<open>vector\<close>): \<open>VecAttr\<close> has attributes, their columns and filters, \<open>VecText\<close> the text
    postings, \<open>VecTenant\<close> the tenant catalogue and the list of nearest results, \<open>VecSeg\<close> building and
    freezing of segments, \<open>VecSearch\<close> the exact paths of the filtered search, \<open>VecKeys\<close> the key table of a
    segment, \<open>VecDelta\<close> the insertion buffer and what a flush reads of it, \<open>VecView\<close> segments as maps from keys
    to documents and the merge, \<open>VecStore\<close> the store with its coordinator and goroutines, \<open>VecRefine\<close>,
    \<open>VecApply\<close> and \<open>VecRuns\<close> its refinement to a map, \<open>VecQuery\<close> the search over all layers, \<open>VecSync\<close> the
    call \<open>FlushDeltaSync\<close> beside the events of the store, \<open>VecIndex\<close> the inverted index of the insertion
    buffer, \<open>VecLex\<close> the text search and the hybrid search over all layers (\<open>bm25_text.go\<close>, \<open>bm25_store.go\<close>,
    \<open>bm25_hybrid.go\<close>).
  \<^item> The files of the vector engine: \<open>Crc\<close> has the checksum, \<open>VecCodec\<close> the readers and the blobs of the
    journal (\<open>attr_durability.go\<close>, \<open>bm25_durability.go\<close>, \<open>codec.go\<close>, \<open>doc_batch.go\<close>,
    \<open>snapshot_budget.go\<close>), \<open>VecSnap\<close> and \<open>VecBack\<close> the layers of a segment and that they read back, \<open>VecSave\<close>
    saving and loading of the store (\<open>leveled_snapshot.go\<close>, \<open>snapshot_docs_section.go\<close>), \<open>VecDurable\<close> what a
    restart makes of the snapshot and the journal.
  \<^item> The vector commands (\<open>cmd/kvstore/cmd_vector.go\<close>): \<open>CmdVector\<close> has their handlers, which stand where the
    dispatcher has the argument \<open>vecCmd\<close> (\<open>with_vectors\<close>); \<open>CmdVecJournal\<close> what a record does to the vector
    store at recovery (\<open>wal_applier.go\<close>) and runs of the whole server with its coordinator; \<open>CmdVecAnswer\<close> what the
    insertions and the joins with the other stores answer.
  \<^item> \<open>Prelude\<close> has what they share: bytes and their encodings, wrapping 64-bit integers, Go's binary
    search, Go maps as association lists with distinct keys, lists updated by position.

  Conventions. A Go struct is a record, a Go map an association list whose keys are distinct
  (\<open>keys_distinct\<close>), a byte slice or string a list of characters, an \<open>int64\<close> an \<open>int\<close> with the
  wrap-around written out (\<open>i64\<close>), positions, operation codes and checksums are words. An operation
  that fails returns a sum or an option; a panic is an outcome of its own. What one mutex protects is
  one step, so the interleavings of concurrent goroutines are sequences of steps (\<open>zstep\<close>, \<open>flstep\<close>,
  the events of \<open>Compact\<close> and \<open>VecStore\<close>). Clock readings, hash functions, the text form of floats, the operating
  system's answers and the cluster node are arguments.

  What the groups of lemmas show:

  \<^item> Data structures: the B+-tree with borrowing and merging implements a sorted set of pairs, its
    leaf chain included; the locale \<open>ordered_index\<close> is its contract and the sorted sets use it through
    the interpretation \<open>bti\<close>. The string store and the registry are maps with exact memory accounting,
    and a \<open>ZADD\<close> is not lost in any interleaving with \<open>ZREM\<close>s that drop the set.
  \<^item> Deadlines: never before, always at the deadline; the locale \<open>evictor\<close> is what the expiry asks of
    the store, interpreted by the string store (\<open>kve\<close>) and by the server's composite evictor (\<open>cev\<close>).
  \<^item> Journal: what is written reads back, in the presence of crashes and failed writes; the locale
    \<open>record_log\<close> has the argument for any framing, interpreted by the code's frames (\<open>wlog\<close>).
  \<^item> Recovery: replay treats every slot (a key's value, its deadline, a member's score) on its own, as
    the last record that touches it says. From this follow the replay over fuzzy snapshots, the
    refinement of command runs by their journal, and that a compaction is invisible to recovery.
  \<^item> Front end: the parser's invariants and the independence of how the network cuts the stream, the
    round trip of RESP values, the gate of \<open>AUTH\<close>, the gates of writing commands, transactions as
    sequences of commands, and one reply value for every command.
  \<^item> Vector store: reads search the active delta, the deltas being flushed and the levels of segments,
    newest first, under a set of tombstones. The invariant \<open>vinv\<close> (every merge in flight has its inputs in
    place, and each deleted key it has left out is still deleted or written again above) is kept by
    every critical section, under three conditions on the order of events that the code does not
    enforce; then the store is the map of its writes. Three runs show what each condition is for.
    \<open>FlushDeltaSync\<close> covers what was in the store at its call, returns in a store at rest, and a run
    shows that it can wait for ever. The inverted lists of the buffer and of the segments are exactly what
    the stored terms say, so a text search gives living documents with the scores of their texts. The
    locale \<open>doc_source\<close> is what the layers have in common, interpreted by segments and by deltas.
  \<^item> Vector commands: an insertion is refused without a trace or is stored, journalled with one record that decodes
    to it, and read back. Every command of the server does to the vector store what the records it writes say
    (\<open>vec_does\<close>), and applying a record does the same, so a recovery gives the same documents. With these
    handlers the reading commands satisfy what the dispatcher asks of them (\<open>vec_reads\<close>).
  \<^item> Vector files: the locale \<open>codec\<close> says that a writer and a reader belong together, the locale \<open>reader\<close> that a
    reader stays within its budget and does not take a truncated input for a whole one; both are
    interpreted by the formats of the code and composed as the formats are. From them follow the round
    trip of the store, that a truncated file is never loaded, that loading does not crash where every
    counter is checked (one that is not is a finding), and that snapshot and replay give the map of
    all writes.

  Where the code does not do what it means to do, a property states what it does; the findings of the
  manifest name the lines.

  Bounds and fuel. \<open>Read\<close> recurses with the length of the input as fuel, and nesting takes at least a
  byte (\<open>read_facts\<close>). The loop of \<open>ZADD\<close> retries while its set is dead and is a
  \<open>partial_function\<close>; \<open>ZAdd_spec\<close> shows that it returns in every reachable state. The expiry loop runs at most
  \<open>maxLoops\<close> rounds, as in the code. The other loops recurse on a list or a measure.

  Not modelled: of the vector engine the edges of the HNSW graphs with the approximate walk over them,
  float distances and the arithmetic of the scores, the tokenizer and stemmer (parameters) and \<open>ForEach\<close>; the cluster (\<open>internal/cluster\<close>, built only with the tag \<open>experimental\<close>); the
  shipping of the journal to remote storage (\<open>internal/ship\<close>); start-up, configuration, TLS, metrics
  and logging; accepting connections, deadlines and timeouts of sockets. Times are readings, so no
  property speaks of how long something takes. What a crash of the machine does to directory entries
  that are not synced is not modelled beyond the order in which the code syncs them.
\<close>

end
